(* ===== verification/S2E_Prelude.thy ===== *)
theory S2E_Prelude
  imports Main "HOL-Library.Word"
begin

text \<open>
  Shared vocabulary of the development: machine integers, the ways a routine of the program can
  stop abnormally, sequencing of fallible routines, the ordered associative container of the C++
  library, and the lemmas about words, lists and maps that several components use.
\<close>

unbundle bit_operations_syntax

section \<open>Automation collections\<close>

named_theorems outcome_simps \<open>rewriting of fallible computations\<close>
named_theorems mem_simps \<open>address arithmetic\<close>

section \<open>Machine integers\<close>

type_synonym u8 = "8 word"
type_synonym u16 = "16 word"
type_synonym u32 = "32 word"
type_synonym u64 = "64 word"

lemma word64_eq_iff: "(a :: u64) = b \<longleftrightarrow> (\<forall>i<64. bit a i = bit b i)"
  by (auto intro: bit_word_eqI)

lemma word64_zero_iff: "(m :: u64) = 0 \<longleftrightarrow> (\<forall>i<64. \<not> bit m i)"
  by (simp add: word64_eq_iff)

lemma word64_minus_1_iff: "(m :: u64) = - 1 \<longleftrightarrow> (\<forall>i<64. bit m i)"
  by (simp add: word64_eq_iff)

lemma word64_bit_less: "bit (m :: u64) i \<Longrightarrow> i < 64"
  by (drule bit_imp_le_length) simp

lemma bit_exp_64: "bit (2 ^ n :: u64) i \<longleftrightarrow> i = n \<and> n < 64"
  by (auto simp: bit_exp_iff)

lemma bit_clear_64: "j < 64 \<Longrightarrow> bit (m AND NOT (2 ^ i) :: u64) j \<longleftrightarrow> bit m j \<and> j \<noteq> i"
  by (auto simp: bit_and_iff bit_not_iff bit_exp_64)

lemma bit_set_64: "j < 64 \<Longrightarrow> bit (m OR 2 ^ i :: u64) j \<longleftrightarrow> bit m j \<or> j = i"
  by (auto simp: bit_or_iff bit_exp_64)

lemma and_exp_64_zero: "i < 64 \<Longrightarrow> (m AND 2 ^ i :: u64) = 0 \<longleftrightarrow> \<not> bit m i"
  by (auto simp: word64_zero_iff bit_and_iff bit_exp_64)

section \<open>Abnormal ends\<close>

text \<open>
  The program is compiled with assertions on (\<open>S2E.h\<close> undefines \<open>NDEBUG\<close>), so a failing
  \<open>assert\<close> is an outcome of its own, as are undefined behaviour of the C++ abstract machine,
  \<open>exit(code)\<close>, the exception \<open>CpuExitException\<close> that unwinds to the CPU loop, and any other
  exception, by the name of its type.
\<close>

datatype fault =
    Assertion_Failed
  | Undefined_Behaviour
  | Process_Exit int
  | Cpu_Exit
  | Thrown string

type_synonym 'a res = "fault + 'a"

definition rbind :: "('e + 'a) \<Rightarrow> ('a \<Rightarrow> 'e + 'b) \<Rightarrow> 'e + 'b" where
  "rbind m f = (case m of Inl e \<Rightarrow> Inl e | Inr x \<Rightarrow> f x)"

definition assert_that :: "bool \<Rightarrow> unit res" where
  "assert_that b = (if b then Inr () else Inl Assertion_Failed)"

definition ensure_defined :: "bool \<Rightarrow> unit res" where
  "ensure_defined b = (if b then Inr () else Inl Undefined_Behaviour)"

lemma rbind_simps [simp, outcome_simps]:
  "rbind (Inl e) f = Inl e"
  "rbind (Inr x) f = f x"
  by (simp_all add: rbind_def)

lemma rbind_Inr_iff [outcome_simps]: "rbind m f = Inr y \<longleftrightarrow> (\<exists>x. m = Inr x \<and> f x = Inr y)"
  by (cases m) auto

lemma rbind_Inl_iff [outcome_simps]:
  "rbind m f = Inl e \<longleftrightarrow> m = Inl e \<or> (\<exists>x. m = Inr x \<and> f x = Inl e)"
  by (cases m) auto

lemma rbind_assoc: "rbind (rbind m f) g = rbind m (\<lambda>x. rbind (f x) g)"
  by (cases m) auto

lemma assert_that_simps [simp, outcome_simps]:
  "assert_that True = Inr ()"
  "assert_that False = Inl Assertion_Failed"
  "assert_that b = Inr u \<longleftrightarrow> b"
  by (simp_all add: assert_that_def)

lemma ensure_defined_simps [simp, outcome_simps]:
  "ensure_defined True = Inr ()"
  "ensure_defined False = Inl Undefined_Behaviour"
  "ensure_defined b = Inr u \<longleftrightarrow> b"
  by (simp_all add: ensure_defined_def)

fun is_ok :: "'e + 'a \<Rightarrow> bool" where
  "is_ok (Inl _) = False"
| "is_ok (Inr _) = True"

section \<open>Ordered associative containers\<close>

text \<open>
  \<open>std::map\<close> with a comparator, as the list of its entries in iteration order. Two keys are
  equivalent when neither is less than the other; \<open>find\<close> returns the first entry that is not
  less than the key, if the key is not less than it either; \<open>operator[]\<close> keeps the old key
  of an equivalent entry. \<open>std::set\<close> is the case of unit values.
\<close>

fun omap_find :: "('k \<Rightarrow> 'k \<Rightarrow> bool) \<Rightarrow> 'k \<Rightarrow> ('k \<times> 'v) list \<Rightarrow> ('k \<times> 'v) option" where
  "omap_find lt k [] = None"
| "omap_find lt k (e # es) =
     (if lt (fst e) k then omap_find lt k es else if lt k (fst e) then None else Some e)"

fun omap_put :: "('k \<Rightarrow> 'k \<Rightarrow> bool) \<Rightarrow> 'k \<Rightarrow> 'v \<Rightarrow> ('k \<times> 'v) list \<Rightarrow> ('k \<times> 'v) list" where
  "omap_put lt k v [] = [(k, v)]"
| "omap_put lt k v (e # es) =
     (if lt (fst e) k then e # omap_put lt k v es
      else if lt k (fst e) then (k, v) # e # es else (fst e, v) # es)"

fun omap_erase :: "('k \<Rightarrow> 'k \<Rightarrow> bool) \<Rightarrow> 'k \<Rightarrow> ('k \<times> 'v) list \<Rightarrow> ('k \<times> 'v) list" where
  "omap_erase lt k [] = []"
| "omap_erase lt k (e # es) =
     (if lt (fst e) k then e # omap_erase lt k es else if lt k (fst e) then e # es else es)"

text \<open>
  The interface the region maps rely on: a comparator that, on admissible keys, orders
  intervals of one common width.
\<close>

locale interval_order =
  fixes lt :: "'k \<Rightarrow> 'k \<Rightarrow> bool"
    and pos :: "'k \<Rightarrow> nat"
    and width :: nat
    and ok :: "'k \<Rightarrow> bool"
  assumes lt_iff: "ok a \<Longrightarrow> ok b \<Longrightarrow> lt a b \<longleftrightarrow> pos a + width \<le> pos b"
    and width_pos: "0 < width"
begin

definition ordered :: "('k \<times> 'v) list \<Rightarrow> bool" where
  "ordered es \<longleftrightarrow> (\<forall>e\<in>set es. ok (fst e)) \<and>
     sorted_wrt (\<lambda>a b. pos (fst a) + width \<le> pos (fst b)) es"

definition apart :: "'k \<Rightarrow> ('k \<times> 'v) list \<Rightarrow> bool" where
  "apart k es \<longleftrightarrow> (\<forall>e\<in>set es. pos (fst e) + width \<le> pos k \<or> pos k + width \<le> pos (fst e))"

lemma ordered_simps [simp]:
  "ordered []"
  "ordered (e # es) \<longleftrightarrow> ok (fst e) \<and> ordered es \<and>
     (\<forall>e'\<in>set es. pos (fst e) + width \<le> pos (fst e'))"
  by (auto simp: ordered_def)

lemma apart_simps [simp]:
  "apart k []"
  "apart k (e # es) \<longleftrightarrow>
     (pos (fst e) + width \<le> pos k \<or> pos k + width \<le> pos (fst e)) \<and> apart k es"
  by (auto simp: apart_def)

lemma find_inside:
  assumes "ordered es" "ok k" "e \<in> set es" "pos (fst e) \<le> pos k" "pos k < pos (fst e) + width"
  shows "omap_find lt k es = Some e"
  using assms by (induction es) (auto simp: lt_iff)

lemma find_apart: "ordered es \<Longrightarrow> ok k \<Longrightarrow> apart k es \<Longrightarrow> omap_find lt k es = None"
  using width_pos by (induction es) (auto simp: lt_iff)

lemma put_apart_set:
  "ordered es \<Longrightarrow> ok k \<Longrightarrow> apart k es \<Longrightarrow> set (omap_put lt k v es) = insert (k, v) (set es)"
  by (induction es) (auto simp: lt_iff)

lemma put_apart_ordered:
  "ordered es \<Longrightarrow> ok k \<Longrightarrow> apart k es \<Longrightarrow> ordered (omap_put lt k v es)"
  by (induction es) (auto simp: lt_iff put_apart_set)

lemma put_same_set:
  assumes "ordered es" "(k, w) \<in> set es"
  shows "set (omap_put lt k v es) = insert (k, v) (set es - {(k, w)})"
proof -
  have "ok k" using assms by (auto simp: ordered_def)
  with assms show ?thesis
    using width_pos by (induction es) (auto simp: lt_iff)
qed

lemma put_same_ordered:
  assumes "ordered es" "(k, w) \<in> set es"
  shows "ordered (omap_put lt k v es)"
proof -
  have "ok k" using assms by (auto simp: ordered_def)
  with assms show ?thesis
    using width_pos by (induction es) (auto simp: lt_iff put_same_set)
qed

lemma erase_set:
  assumes "ordered es" "(k, w) \<in> set es"
  shows "set (omap_erase lt k es) = set es - {(k, w)}"
proof -
  have "ok k" using assms by (auto simp: ordered_def)
  with assms show ?thesis
    using width_pos by (induction es) (auto simp: lt_iff)
qed

lemma erase_ordered:
  assumes "ordered es" "(k, w) \<in> set es"
  shows "ordered (omap_erase lt k es)"
proof -
  have "ok k" using assms by (auto simp: ordered_def)
  with assms show ?thesis
    using width_pos by (induction es) (auto simp: lt_iff erase_set)
qed

lemma ordered_key_unique:
  "ordered es \<Longrightarrow> e \<in> set es \<Longrightarrow> e' \<in> set es \<Longrightarrow>
   pos (fst e) < pos (fst e') + width \<Longrightarrow> pos (fst e') < pos (fst e) + width \<Longrightarrow> e = e'"
  by (induction es) auto

end

text \<open>Disjoint bits add up.\<close>

lemma or_high: 
  fixes x y :: nat assumes "x < 2 ^ k" shows "(y * 2 ^ k) OR x = y * 2 ^ k + x"
proof -
  have "push_bit k y AND take_bit k x = 0"
    by (rule bit_eqI) (auto simp: bit_simps)
  from disjunctive_add_eq_or [OF this] show ?thesis
    using assms by (simp add: push_bit_eq_mult take_bit_nat_eq_self)
qed

end
