(* ===== verification/Allocator_Interface.thy ===== *)
theory Allocator_Interface
  imports S2E_Prelude
begin

text \<open>
  What every layer of the slab allocator promises to the layer above: an allocation either
  reports exhaustion or hands out something that nobody holds, a release takes it back, and
  neither faults. The client's view is a run of requests; its lemma is proved once, from the
  contract, and instantiated for the block headers, the page allocator and the block allocator.
\<close>

text \<open>A client's requests: acquire under some answer of the environment, or release the
  \<open>i\<close>-th thing still held.\<close>

datatype 'e request = Acquire 'e | Release nat

fun drop_nth :: "nat \<Rightarrow> 'a list \<Rightarrow> 'a list" where
  "drop_nth i xs = take i xs @ drop (Suc i) xs"

fun client_run ::
  "('e \<Rightarrow> 's \<Rightarrow> bool) \<Rightarrow> 'a set \<Rightarrow> ('e \<Rightarrow> 's \<Rightarrow> ('a \<times> 's) res) \<Rightarrow> ('a \<Rightarrow> 's \<Rightarrow> 's res) \<Rightarrow>
   'e request list \<Rightarrow> 's \<times> 'a list \<Rightarrow> ('s \<times> 'a list) res" where
  "client_run env_ok none al fr [] (s, held) = Inr (s, held)"
| "client_run env_ok none al fr (Acquire e # rs) (s, held) =
     (if env_ok e s
      then rbind (al e s) (\<lambda>(a, s').
             client_run env_ok none al fr rs (s', if a \<in> none then held else a # held))
      else client_run env_ok none al fr rs (s, held))"
| "client_run env_ok none al fr (Release i # rs) (s, held) =
     (if i < length held
      then rbind (fr (held ! i) s) (\<lambda>s'.
             client_run env_ok none al fr rs (s', drop_nth i held))
      else client_run env_ok none al fr rs (s, held))"

lemma set_drop_nth_distinct:
  assumes "distinct xs" "i < length xs"
  shows "distinct (drop_nth i xs)" "set (drop_nth i xs) = set xs - {xs ! i}"
proof -
  have "xs = take i xs @ xs ! i # drop (Suc i) xs"
    using assms(2) by (rule id_take_nth_drop)
  then have d: "distinct (take i xs @ xs ! i # drop (Suc i) xs)"
    and s: "set xs = set (take i xs @ xs ! i # drop (Suc i) xs)"
    using assms(1) by simp_all
  from d show "distinct (drop_nth i xs)" by auto
  from d show "set (drop_nth i xs) = set xs - {xs ! i}" by (subst s) auto
qed

locale allocator =
  fixes inv :: "'s \<Rightarrow> bool"
    and live :: "'s \<Rightarrow> 'a set"
    and none :: "'a set"
    and env_ok :: "'e \<Rightarrow> 's \<Rightarrow> bool"
    and al :: "'e \<Rightarrow> 's \<Rightarrow> ('a \<times> 's) res"
    and fr :: "'a \<Rightarrow> 's \<Rightarrow> 's res"
  assumes alloc_ok: "inv s \<Longrightarrow> env_ok e s \<Longrightarrow>
      \<exists>a s'. al e s = Inr (a, s') \<and> inv s' \<and>
        (a \<in> none \<and> live s' = live s \<or> a \<notin> none \<and> a \<notin> live s \<and> live s' = insert a (live s))"
    and free_ok: "inv s \<Longrightarrow> a \<in> live s \<Longrightarrow>
      \<exists>s'. fr a s = Inr s' \<and> inv s' \<and> live s' = live s - {a}"
begin

text \<open>
  A client that releases only what it holds never faults, and never holds the same thing twice.
\<close>

lemma client_safe:
  assumes "inv s" "distinct held" "set held \<subseteq> live s"
  shows "\<exists>s' held'. client_run env_ok none al fr rs (s, held) = Inr (s', held') \<and>
    inv s' \<and> distinct held' \<and> set held' \<subseteq> live s'"
  using assms
proof (induction rs arbitrary: s held)
  case Nil
  then show ?case by simp
next
  case (Cons r rs)
  show ?case
  proof (cases r)
    case (Acquire e)
    show ?thesis
    proof (cases "env_ok e s")
      case True
      then obtain a s' where a: "al e s = Inr (a, s')" "inv s'"
        "a \<in> none \<and> live s' = live s \<or> a \<notin> none \<and> a \<notin> live s \<and> live s' = insert a (live s)"
        using alloc_ok Cons.prems(1) by blast
      then have "distinct (if a \<in> none then held else a # held)"
        "set (if a \<in> none then held else a # held) \<subseteq> live s'"
        using Cons.prems by auto
      from Cons.IH [OF a(2) this] show ?thesis using a(1) True Acquire by simp
    next
      case False
      with Cons Acquire show ?thesis by simp
    qed
  next
    case (Release i)
    show ?thesis
    proof (cases "i < length held")
      case True
      then obtain s' where s': "fr (held ! i) s = Inr s'" "inv s'" "live s' = live s - {held ! i}"
        using free_ok Cons.prems by (meson nth_mem subsetD)
      have "set (drop_nth i held) \<subseteq> live s'"
        using set_drop_nth_distinct(2) [OF Cons.prems(2) True] s'(3) Cons.prems(3) by auto
      from Cons.IH [OF s'(2) set_drop_nth_distinct(1) [OF Cons.prems(2) True] this]
      show ?thesis using s'(1) True Release by simp
    next
      case False
      with Cons Release show ?thesis by simp
    qed
  qed
qed

end

end
