(* ===== verification/Page_Allocator.thy ===== *)
theory Page_Allocator
  imports Allocator_Interface
begin

text \<open>
  The page allocator of \<open>src/src/s2e/Slab.cpp\<close> and \<open>src/include/s2e/Slab.h\<close>: it takes
  regions of 256 KB from the operating system and hands them out in pages of 4 KB. Partly used
  regions are kept with a bitmap of their free pages, exhausted ones in a set of busy regions.

  Parameters of the model (code outside the repository): the address \<open>mmap\<close> returns, the
  assembly routine \<open>bit_scan_forward_64\<close>, and what reading a key through an iterator of an
  erased node yields.
\<close>

section \<open>Constants and state\<close>

definition REGION_SIZE :: u64 where "REGION_SIZE = 256 * 1024"

definition getRegionSize :: u64 where "getRegionSize = REGION_SIZE"

definition getPageSize :: u64 where "getPageSize = 0x1000"

text \<open>The comparator of the two containers.\<close>

definition RegCmp :: "u64 \<Rightarrow> u64 \<Rightarrow> bool" where
  "RegCmp r1 r2 \<longleftrightarrow> r1 + REGION_SIZE \<le> r2"

text \<open>
  \<open>page_fill\<close> records the last \<open>memset\<close> over a page and \<open>os_freed\<close> the regions handed
  back with \<open>munmap\<close>, the two effects on memory the allocator has.
\<close>

record page_allocator =
  m_regions :: "(u64 \<times> u64) list"
  m_busyRegions :: "(u64 \<times> unit) list"
  page_fill :: "u64 \<Rightarrow> u8"
  os_freed :: "u64 list"

definition PageAllocator_new :: "(u64 \<Rightarrow> u8) \<Rightarrow> page_allocator" where
  "PageAllocator_new fill =
     \<lparr>m_regions = [], m_busyRegions = [], page_fill = fill, os_freed = []\<rparr>"

definition osFree :: "u64 \<Rightarrow> page_allocator \<Rightarrow> page_allocator" where
  "osFree region s = s\<lparr>os_freed := os_freed s @ [region]\<rparr>"

definition PageAllocator_delete :: "page_allocator \<Rightarrow> page_allocator" where
  "PageAllocator_delete s =
     (let s1 = fold (\<lambda>e. osFree (fst e)) (m_regions s) s
      in fold (\<lambda>e. osFree (fst e)) (m_busyRegions s) s1)"

definition memset_page :: "u64 \<Rightarrow> u8 \<Rightarrow> page_allocator \<Rightarrow> page_allocator" where
  "memset_page p b s = s\<lparr>page_fill := (page_fill s)(p := b)\<rparr>"

section \<open>The bit scan\<close>

text \<open>
  \<open>bit_scan_forward_64\<close> is assembly that is not part of the repository. The code relies on its
  documented behaviour: it fails on zero and otherwise yields the index of the lowest set bit.
\<close>

definition bsf_spec :: "(u64 \<Rightarrow> nat option) \<Rightarrow> bool" where
  "bsf_spec bsf \<longleftrightarrow> (\<forall>m. case bsf m of
      None \<Rightarrow> m = 0
    | Some i \<Rightarrow> i < 64 \<and> bit m i \<and> (\<forall>j<i. \<not> bit m j))"

definition bsf_ref :: "u64 \<Rightarrow> nat option" where
  "bsf_ref m = find (bit m) [0..<64]"

lemma bsf_specD:
  assumes "bsf_spec bsf" "m \<noteq> 0"
  obtains i where "bsf m = Some i" "i < 64" "bit m i" "\<And>j. j < i \<Longrightarrow> \<not> bit m j"
proof -
  from assms(1) have *: "case bsf m of None \<Rightarrow> m = 0
      | Some i \<Rightarrow> i < 64 \<and> bit m i \<and> (\<forall>j<i. \<not> bit m j)"
    by (simp add: bsf_spec_def)
  with assms(2) show ?thesis by (cases "bsf m") (auto intro: that)
qed

lemma bsf_spec_ref: "bsf_spec bsf_ref"
proof -
  have "case bsf_ref m of None \<Rightarrow> m = 0 | Some i \<Rightarrow> i < 64 \<and> bit m i \<and> (\<forall>j<i. \<not> bit m j)" for m
  proof (cases "bsf_ref m")
    case None
    then have "m = 0" by (auto simp: bsf_ref_def find_None_iff word64_zero_iff)
    with None show ?thesis by simp
  next
    case (Some i)
    then obtain k where k: "k < 64" "i = [0..<64] ! k" "bit m i" "\<And>j. j < k \<Longrightarrow> \<not> bit m ([0..<64] ! j)"
      unfolding bsf_ref_def find_Some_iff by auto
    then have "i = k" by simp
    have "\<not> bit m j" if "j < i" for j
      using k(4) [of j] that k(1) \<open>i = k\<close> by simp
    with k Some \<open>i = k\<close> show ?thesis by simp
  qed
  then show ?thesis by (simp add: bsf_spec_def)
qed

section \<open>Operations\<close>

text \<open>
  \<open>1LL << index\<close>: shifting by the width or more is undefined behaviour.
\<close>

definition shl1 :: "u64 \<Rightarrow> u64 res" where
  "shl1 index = rbind (ensure_defined (index < 64)) (\<lambda>_. Inr (push_bit (unat index) 1))"

text \<open>
  \<open>allocPage\<close>: \<open>mapped\<close> is what \<open>osAlloc\<close> (an anonymous \<open>mmap\<close>) returns if it is called.
\<close>

definition allocPage ::
  "(u64 \<Rightarrow> nat option) \<Rightarrow> u64 \<Rightarrow> page_allocator \<Rightarrow> (u64 \<times> page_allocator) res" where
  "allocPage bsf mapped s = (case m_regions s of
      [] \<Rightarrow>
        let region = mapped in
        if region = 0 then Inr (0, s)
        else Inr (region,
               s\<lparr>m_regions := omap_put RegCmp region (- 1 AND NOT 1) (m_regions s)\<rparr>)
    | (reg, bm) # rest \<Rightarrow>
        (case bsf bm of
           None \<Rightarrow> Inl Assertion_Failed
         | Some index \<Rightarrow>
             let bm' = bm AND NOT (push_bit index 1);
                 s1 = s\<lparr>m_regions := (reg, bm') # rest\<rparr>;
                 s2 = (if bm' = 0
                       then s1\<lparr>m_busyRegions := omap_put RegCmp reg () (m_busyRegions s1),
                               m_regions := omap_erase RegCmp reg (m_regions s1)\<rparr>
                       else s1);
                 ret = reg + of_nat index * getPageSize
             in Inr (ret, memset_page ret 0xAA s2)))"

text \<open>
  \<open>freePage\<close>. In the branch of a busy region the code erases the set node and then reads the key
  through the iterator once more; \<open>dangling k\<close> is what that read of the freed node yields.
\<close>

definition freePage ::
  "(u64 \<Rightarrow> u64) \<Rightarrow> u64 \<Rightarrow> page_allocator \<Rightarrow> page_allocator res" where
  "freePage dangling page s0 =
     (let s = memset_page page 0xBB s0 in
      case omap_find RegCmp page (m_regions s) of
        None \<Rightarrow>
          (case omap_find RegCmp page (m_busyRegions s) of
             None \<Rightarrow> Inl Assertion_Failed
           | Some (k, _) \<Rightarrow>
               let index = (page - k) div getPageSize;
                   s1 = s\<lparr>m_busyRegions := omap_erase RegCmp k (m_busyRegions s)\<rparr>
               in rbind (shl1 index) (\<lambda>b.
                    Inr (s1\<lparr>m_regions := omap_put RegCmp (dangling k) b (m_regions s1)\<rparr>)))
      | Some (k, bm) \<Rightarrow>
          let index = (page - k) div getPageSize in
          rbind (shl1 index) (\<lambda>b.
          rbind (assert_that (bm AND b = 0)) (\<lambda>_.
            let bm' = bm OR b;
                s1 = s\<lparr>m_regions := omap_put RegCmp k bm' (m_regions s)\<rparr>
            in if bm' = - 1
               then Inr ((osFree k s1)\<lparr>m_regions := omap_erase RegCmp k (m_regions s1)\<rparr>)
               else Inr s1)))"

definition belongsToUs :: "u64 \<Rightarrow> page_allocator \<Rightarrow> bool" where
  "belongsToUs addr s \<longleftrightarrow>
     (let inside = (\<lambda>a. a \<le> addr \<and> addr < a + REGION_SIZE)
      in list_ex (\<lambda>e. inside (fst e)) (m_regions s)
         \<or> list_ex (\<lambda>e. inside (fst e)) (m_busyRegions s))"

section \<open>Regions, pages and the invariant\<close>

definition user_addr :: "u64 \<Rightarrow> bool" where
  "user_addr a \<longleftrightarrow> unat a < 2 ^ 47"

text \<open>What \<open>mmap\<close> is documented to return: a page-aligned block inside the user half.\<close>

definition region_ok :: "u64 \<Rightarrow> bool" where
  "region_ok r \<longleftrightarrow> 0 < unat r \<and> unat r mod 4096 = 0 \<and> unat r + 262144 \<le> 2 ^ 47"

definition page_at :: "u64 \<Rightarrow> nat \<Rightarrow> u64" where
  "page_at r i = r + of_nat i * getPageSize"

lemma unat_page_at [mem_simps]:
  assumes "region_ok r" "i < 64"
  shows "unat (page_at r i) = unat r + i * 4096"
proof -
  have "unat (of_nat i * 4096 :: u64) = i * 4096"
    using assms(2) by (simp add: unat_word_ariths unat_of_nat)
  moreover have "unat r + i * 4096 < 2 ^ 64"
    using assms by (simp add: region_ok_def)
  ultimately show ?thesis
    by (simp add: page_at_def getPageSize_def unat_word_ariths)
qed

lemma RegCmp_nat:
  "user_addr a \<Longrightarrow> user_addr b \<Longrightarrow> RegCmp a b \<longleftrightarrow> unat a + 262144 \<le> unat b"
  by (simp add: RegCmp_def REGION_SIZE_def user_addr_def word_le_nat_alt unat_word_ariths)

interpretation rg: interval_order RegCmp unat 262144 user_addr
  by unfold_locales (auto simp: RegCmp_nat)

lemma region_user [simp]: "region_ok r \<Longrightarrow> user_addr r"
  by (simp add: region_ok_def user_addr_def)

lemma page_user [simp]: "region_ok r \<Longrightarrow> i < 64 \<Longrightarrow> user_addr (page_at r i)"
  by (simp add: user_addr_def unat_page_at) (simp add: region_ok_def)

text \<open>The pages handed out and not yet taken back.\<close>

definition live_pages :: "page_allocator \<Rightarrow> u64 set" where
  "live_pages s =
     {page_at r i |r bm i. (r, bm) \<in> set (m_regions s) \<and> i < 64 \<and> \<not> bit bm i} \<union>
     {page_at r i |r i. (r, ()) \<in> set (m_busyRegions s) \<and> i < 64}"

text \<open>
  Well-formedness: both containers sorted, all regions admissible, no region in both, and a
  bitmap that is neither empty (the region would be busy) nor full (it would have been unmapped).
\<close>

definition page_inv :: "page_allocator \<Rightarrow> bool" where
  "page_inv s \<longleftrightarrow>
     rg.ordered (m_regions s) \<and> rg.ordered (m_busyRegions s) \<and>
     (\<forall>(r, bm)\<in>set (m_regions s). region_ok r \<and> bm \<noteq> 0 \<and> bm \<noteq> - 1 \<and> rg.apart r (m_busyRegions s)) \<and>
     (\<forall>(r, u)\<in>set (m_busyRegions s). region_ok r)"

text \<open>
  No two regions touch: between any two there is a gap of at least one region. The allocator
  does not arrange this, and \<open>freePage_adjacent\<close> below shows what happens without it.
\<close>

definition regions_of :: "page_allocator \<Rightarrow> u64 set" where
  "regions_of s = fst ` set (m_regions s) \<union> fst ` set (m_busyRegions s)"

definition far :: "u64 \<Rightarrow> u64 \<Rightarrow> bool" where
  "far a b \<longleftrightarrow> unat a + 524288 \<le> unat b \<or> unat b + 524288 \<le> unat a"

definition spaced :: "page_allocator \<Rightarrow> bool" where
  "spaced s \<longleftrightarrow> (\<forall>a\<in>regions_of s. \<forall>b\<in>regions_of s. a \<noteq> b \<longrightarrow> far a b)"

definition fresh_mapping :: "u64 \<Rightarrow> page_allocator \<Rightarrow> bool" where
  "fresh_mapping r s \<longleftrightarrow> r = 0 \<or> region_ok r \<and> (\<forall>a\<in>regions_of s. far a r)"

lemma far_sym: "far a b \<longleftrightarrow> far b a"
  by (auto simp: far_def)

lemma far_apart: "(\<And>e. e \<in> set es \<Longrightarrow> far (fst e) r) \<Longrightarrow> rg.apart r es"
  by (force simp: rg.apart_def far_def)

lemma far_apart_page:
  assumes "\<And>e. e \<in> set es \<Longrightarrow> far (fst e) r" "region_ok r" "i < 64"
  shows "rg.apart (page_at r i) es"
  unfolding rg.apart_def
proof
  fix e assume "e \<in> set es"
  with assms(1) have "far (fst e) r" .
  with assms(2,3) show "unat (fst e) + 262144 \<le> unat (page_at r i) \<or>
      unat (page_at r i) + 262144 \<le> unat (fst e)"
    by (auto simp: far_def unat_page_at)
qed

lemma page_at_0 [simp]: "page_at r 0 = r"
  by (simp add: page_at_def)

lemma page_at_inj:
  assumes "region_ok r" "region_ok r'" "i < 64" "j < 64" "page_at r i = page_at r' j"
  shows "unat r < unat r' + 262144 \<and> unat r' < unat r + 262144"
proof -
  have "unat r + i * 4096 = unat r' + j * 4096"
    using assms by (metis unat_page_at)
  with assms(3,4) show ?thesis by auto
qed

lemma page_at_same:
  assumes "region_ok r" "i < 64" "j < 64" "page_at r i = page_at r j"
  shows "i = j"
proof -
  have "unat r + i * 4096 = unat r + j * 4096"
    using assms by (metis unat_page_at)
  then show ?thesis by simp
qed

lemma page_index:
  assumes "region_ok r" "i < 64"
  shows "(page_at r i - r) div getPageSize = of_nat i"
proof -
  have "page_at r i - r = of_nat i * 4096" by (simp add: page_at_def getPageSize_def)
  moreover have "unat (of_nat i * 4096 :: u64) = i * 4096"
    using assms(2) by (simp add: unat_word_ariths unat_of_nat)
  ultimately have "unat ((page_at r i - r) div getPageSize) = i"
    by (simp add: unat_div getPageSize_def)
  then show ?thesis using assms(2) by (simp add: word_unat_eq_iff unat_of_nat)
qed

lemma shl1_small: "i < 64 \<Longrightarrow> shl1 (of_nat i) = Inr (2 ^ i)"
  by (simp add: shl1_def word_less_nat_alt unat_of_nat)

section \<open>Allocation\<close>

text \<open>The state after a page of the first region is taken, before the region may turn busy.\<close>

lemma ordered_hd_update:
  "rg.ordered ((r, x) # es) \<longleftrightarrow> rg.ordered ((r, y) # es)"
  by simp

lemma take_page_keeps:
  assumes inv: "page_inv s" and regs: "m_regions s = (r, bm) # rest"
    and i: "i < 64" "bit bm i"
    and s': "m_regions s' = (r, bm AND NOT (2 ^ i)) # rest" "m_busyRegions s' = m_busyRegions s"
    and ne: "bm AND NOT (2 ^ i) \<noteq> 0"
  shows "page_inv s'" "live_pages s' = insert (page_at r i) (live_pages s)"
    "regions_of s' = regions_of s"
proof -
  have bits: "bit (bm AND NOT (2 ^ i)) j \<longleftrightarrow> bit bm j \<and> j \<noteq> i" if "j < 64" for j
    using that by (rule bit_clear_64)
  have "bm AND NOT (2 ^ i) \<noteq> - 1"
    using bits [of i] i by (auto simp: word64_minus_1_iff)
  with inv regs s' ne show "page_inv s'" by (auto simp: page_inv_def)
  show "live_pages s' = insert (page_at r i) (live_pages s)"
    using bits i(1) by (auto simp: live_pages_def regs s')
  show "regions_of s' = regions_of s" by (auto simp: regions_of_def regs s')
qed

lemma take_last_page_keeps:
  assumes inv: "page_inv s" and regs: "m_regions s = (r, bm) # rest"
    and i: "i < 64" "bit bm i"
    and s': "m_regions s' = rest" "m_busyRegions s' = omap_put RegCmp r () (m_busyRegions s)"
    and z: "bm AND NOT (2 ^ i) = 0"
  shows "page_inv s'" "live_pages s' = insert (page_at r i) (live_pages s)"
    "regions_of s' = regions_of s"
proof -
  have ap: "rg.apart r (m_busyRegions s)" and ro: "region_ok r" and ob: "rg.ordered (m_busyRegions s)"
    using inv regs by (auto simp: page_inv_def)
  have setb: "set (m_busyRegions s') = insert (r, ()) (set (m_busyRegions s))"
    unfolding s' by (rule rg.put_apart_set) (use ap ro ob in auto)
  have ordb: "rg.ordered (m_busyRegions s')"
    unfolding s' by (rule rg.put_apart_ordered) (use ap ro ob in auto)
  have bits: "bit bm j \<longleftrightarrow> j = i" if "j < 64" for j
    using bit_clear_64 [OF that, of bm i] i that by (simp only: z) auto
  have "rg.apart k (m_busyRegions s')" if "(k, b) \<in> set rest" for k b
  proof -
    have "rg.apart k (m_busyRegions s)" and "unat r + 262144 \<le> unat k"
      using inv regs that by (auto simp: page_inv_def)
    then show ?thesis by (auto simp: rg.apart_def setb)
  qed
  with inv regs ordb setb s'(1) show "page_inv s'" by (auto simp: page_inv_def)
  have "live_pages s' = {page_at r j |j. j < 64} \<union>
      {page_at k j |k b j. (k, b) \<in> set rest \<and> j < 64 \<and> \<not> bit b j} \<union>
      {page_at k j |k j. (k, ()) \<in> set (m_busyRegions s) \<and> j < 64}"
    by (auto simp: live_pages_def s'(1) setb)
  moreover have "live_pages s = {page_at r j |j. j < 64 \<and> j \<noteq> i} \<union>
      {page_at k j |k b j. (k, b) \<in> set rest \<and> j < 64 \<and> \<not> bit b j} \<union>
      {page_at k j |k j. (k, ()) \<in> set (m_busyRegions s) \<and> j < 64}"
    using bits by (auto simp: live_pages_def regs)
  moreover have "{page_at r j |j. j < 64} = insert (page_at r i) {page_at r j |j. j < 64 \<and> j \<noteq> i}"
    using i(1) by auto
  ultimately show "live_pages s' = insert (page_at r i) (live_pages s)" by simp
  show "regions_of s' = regions_of s" by (auto simp: regions_of_def regs s'(1) setb image_iff)
qed

lemma page_inv_regs_sep:
  assumes "page_inv s" "m_regions s = (r, bm) # rest" "i < 64" "bit bm i"
  shows "page_at r i \<notin> live_pages s"
proof
  assume "page_at r i \<in> live_pages s"
  then consider k b j where "(k, b) \<in> set ((r, bm) # rest)" "j < 64" "\<not> bit b j" "page_at r i = page_at k j"
    | k j where "(k, ()) \<in> set (m_busyRegions s)" "j < 64" "page_at r i = page_at k j"
    by (auto simp: live_pages_def assms(2))
  then show False
  proof cases
    case 1
    have ok: "region_ok r" "region_ok k" using assms(1,2) 1(1) by (auto simp: page_inv_def)
    have "unat r < unat k + 262144 \<and> unat k < unat r + 262144"
      using page_at_inj [OF ok assms(3) 1(2,4)] .
    moreover have "rg.ordered ((r, bm) # rest)" using assms(1,2) by (simp add: page_inv_def)
    ultimately have "(k, b) = (r, bm)"
      using rg.ordered_key_unique [OF _ 1(1), of "(r, bm)"] by auto
    with 1 assms(3,4) ok page_at_same show False by blast
  next
    case 2
    have ok: "region_ok r" "region_ok k" and ap: "rg.apart r (m_busyRegions s)"
      using assms(1,2) 2(1) by (auto simp: page_inv_def)
    have "unat r < unat k + 262144 \<and> unat k < unat r + 262144"
      using page_at_inj [OF ok assms(3) 2(2,3)] .
    with ap 2(1) show False by (auto simp: rg.apart_def)
  qed
qed

lemma new_region_keeps:
  assumes inv: "page_inv s" and regs: "m_regions s = []" and fm: "fresh_mapping r s" "r \<noteq> 0"
    and s': "s' = s\<lparr>m_regions := [(r, - 1 AND NOT 1)]\<rparr>"
  shows "page_inv s'" "r \<notin> live_pages s" "live_pages s' = insert r (live_pages s)"
    "regions_of s' = insert r (regions_of s)"
proof -
  have ro: "region_ok r" and far: "\<And>a. a \<in> regions_of s \<Longrightarrow> far a r"
    using fm by (auto simp: fresh_mapping_def)
  have ap: "rg.apart r (m_busyRegions s)"
    by (rule far_apart) (rule far, simp add: regions_of_def)
  have one: "(1 :: u64) = 2 ^ 0" by simp
  have bits: "bit (- 1 AND NOT 1 :: u64) j \<longleftrightarrow> j \<noteq> 0" if "j < 64" for j
    using that bit_clear_64 [OF that, of "- 1" 0] by simp
  have "(- 1 AND NOT 1 :: u64) \<noteq> 0" "(- 1 AND NOT 1 :: u64) \<noteq> - 1"
    by simp_all
  with inv ro ap show "page_inv s'" by (simp add: page_inv_def s')
  show "r \<notin> live_pages s"
  proof
    assume "r \<in> live_pages s"
    then obtain k j where k: "(k, ()) \<in> set (m_busyRegions s)" "j < 64" "page_at r 0 = page_at k j"
      by (auto simp: live_pages_def regs)
    moreover have "region_ok k" using inv k(1) by (auto simp: page_inv_def)
    ultimately have "unat r < unat k + 262144 \<and> unat k < unat r + 262144"
      using page_at_inj [OF ro _ _ k(2,3)] by simp
    with ap k(1) show False by (auto simp: rg.apart_def)
  qed
  show "live_pages s' = insert r (live_pages s)"
    using bits by (auto simp: live_pages_def regs s' intro: exI [of _ 0])
  show "regions_of s' = insert r (regions_of s)" by (simp add: regions_of_def regs s')
qed

lemma spaced_insert:
  "spaced s \<Longrightarrow> (\<And>a. a \<in> regions_of s \<Longrightarrow> far a r) \<Longrightarrow>
   regions_of s' = insert r (regions_of s) \<Longrightarrow> spaced s'"
  by (auto simp: spaced_def far_sym)

lemma memset_page_simps [simp]:
  "m_regions (memset_page p b s) = m_regions s"
  "m_busyRegions (memset_page p b s) = m_busyRegions s"
  "live_pages (memset_page p b s) = live_pages s"
  "page_inv (memset_page p b s) = page_inv s"
  "regions_of (memset_page p b s) = regions_of s"
  "spaced (memset_page p b s) = spaced s"
  by (simp_all add: memset_page_def live_pages_def page_inv_def regions_of_def spaced_def)

lemma spaced_cong: "regions_of s' = regions_of s \<Longrightarrow> spaced s' = spaced s"
  by (simp add: spaced_def)

text \<open>Allocation never faults; it hands out a page nobody holds or reports that \<open>mmap\<close> gave 0.\<close>

lemma allocPage_spec:
  assumes bsf: "bsf_spec bsf" and inv: "page_inv s" "spaced s" and fm: "fresh_mapping mapped s"
  shows "\<exists>p s'. allocPage bsf mapped s = Inr (p, s') \<and> page_inv s' \<and> spaced s' \<and>
    (p = 0 \<and> s' = s \<or> p \<noteq> 0 \<and> p \<notin> live_pages s \<and> live_pages s' = insert p (live_pages s))"
proof (cases "m_regions s")
  case Nil
  show ?thesis
  proof (cases "mapped = 0")
    case True
    with Nil inv show ?thesis by (simp add: allocPage_def)
  next
    case False
    define s' where "s' = s\<lparr>m_regions := [(mapped, - 1 AND NOT 1)]\<rparr>"
    note keeps = new_region_keeps [OF inv(1) Nil fm False s'_def]
    have "spaced s'"
      using inv(2) _ keeps(4) by (rule spaced_insert) (use fm False in \<open>auto simp: fresh_mapping_def\<close>)
    moreover have "allocPage bsf mapped s = Inr (mapped, s')"
      using Nil False by (simp add: allocPage_def s'_def Let_def)
    ultimately show ?thesis using keeps False by blast
  qed
next
  case (Cons e rest)
  obtain r bm where e: "e = (r, bm)" by force
  have regs: "m_regions s = (r, bm) # rest" using Cons e by simp
  have "bm \<noteq> 0" and ro: "region_ok r" using inv(1) regs by (auto simp: page_inv_def)
  obtain i where i: "bsf bm = Some i" "i < 64" "bit bm i"
    using bsf \<open>bm \<noteq> 0\<close> by (rule bsf_specD) blast
  have ne: "page_at r i \<noteq> 0"
  proof -
    have "0 < unat (page_at r i)" using ro i(2) by (simp add: unat_page_at) (simp add: region_ok_def)
    then show ?thesis by auto
  qed
  define bm' where "bm' = bm AND NOT (2 ^ i)"
  define s1 where "s1 = s\<lparr>m_regions := (r, bm') # rest\<rparr>"
  define s2 where "s2 = (if bm' = 0
      then s\<lparr>m_busyRegions := omap_put RegCmp r () (m_busyRegions s), m_regions := rest\<rparr> else s1)"
  have er: "\<not> RegCmp r r"
    using ro by (simp add: RegCmp_nat)
  have run: "allocPage bsf mapped s = Inr (page_at r i, memset_page (page_at r i) 0xAA s2)"
    using regs i(1) er
    by (simp add: allocPage_def s2_def s1_def bm'_def page_at_def Let_def push_bit_of_1)
  have k: "page_inv s2 \<and> live_pages s2 = insert (page_at r i) (live_pages s) \<and>
      regions_of s2 = regions_of s"
  proof (cases "bm' = 0")
    case True
    then show ?thesis
      using take_last_page_keeps [OF inv(1) regs i(2,3), of s2]
      by (simp add: s2_def bm'_def)
  next
    case False
    then show ?thesis
      using take_page_keeps [OF inv(1) regs i(2,3), of s2]
      by (simp add: s2_def s1_def bm'_def)
  qed
  then have "spaced s2" using inv(2) spaced_cong by blast
  with run k ne page_inv_regs_sep [OF inv(1) regs i(2,3)] show ?thesis by simp
qed

section \<open>Release\<close>

lemma release_partial_keeps:
  assumes inv: "page_inv s" and mem: "(r, bm) \<in> set (m_regions s)"
    and i: "i < 64" "\<not> bit bm i"
    and s': "m_regions s' = omap_put RegCmp r (bm OR 2 ^ i) (m_regions s)"
      "m_busyRegions s' = m_busyRegions s"
    and ne: "bm OR 2 ^ i \<noteq> - 1"
  shows "page_inv s'" "live_pages s' = live_pages s - {page_at r i}" "regions_of s' = regions_of s"
proof -
  have ord: "rg.ordered (m_regions s)" and ro: "region_ok r" using inv mem by (auto simp: page_inv_def)
  have set': "set (m_regions s') = insert (r, bm OR 2 ^ i) (set (m_regions s) - {(r, bm)})"
    unfolding s' using ord mem by (rule rg.put_same_set)
  have ord': "rg.ordered (m_regions s')"
    unfolding s' using ord mem by (rule rg.put_same_ordered)
  have nz: "bm OR 2 ^ i \<noteq> 0"
    using i(1) by (auto simp: word64_zero_iff bit_set_64)
  have uniq: "e = (r, bm)" if "e \<in> set (m_regions s)"
    "unat r < unat (fst e) + 262144" "unat (fst e) < unat r + 262144" for e
    using rg.ordered_key_unique [OF ord that(1) mem] that by auto
  from inv mem ord' nz ne show "page_inv s'"
    by (auto simp: page_inv_def set' s'(2))
  have bits: "bit (bm OR 2 ^ i) j \<longleftrightarrow> bit bm j \<or> j = i" if "j < 64" for j
    using that by (rule bit_set_64)
  have other: "page_at k j \<noteq> page_at r i"
    if "(k, b) \<in> set (m_regions s)" "(k, b) \<noteq> (r, bm)" "j < 64" for k b j
  proof
    assume eq: "page_at k j = page_at r i"
    have "region_ok k" using inv that(1) by (auto simp: page_inv_def)
    from page_at_inj [OF this ro that(3) i(1) eq] uniq [OF that(1)] that(2) show False by auto
  qed
  have busy: "page_at k j \<noteq> page_at r i" if "(k, ()) \<in> set (m_busyRegions s)" "j < 64" for k j
  proof
    assume eq: "page_at k j = page_at r i"
    have "region_ok k" "rg.apart r (m_busyRegions s)" using inv that(1) mem by (auto simp: page_inv_def)
    with page_at_inj [OF this(1) ro that(2) i(1) eq] that(1) show False by (auto simp: rg.apart_def)
  qed
  have same: "page_at r j \<noteq> page_at r i" if "j < 64" "j \<noteq> i" for j
    using page_at_same [OF ro that(1) i(1)] that(2) by blast
  show "live_pages s' = live_pages s - {page_at r i}"
  proof (intro set_eqI iffI)
    fix p assume "p \<in> live_pages s'"
    then show "p \<in> live_pages s - {page_at r i}"
      using mem i bits other busy same
      by (fastforce simp: live_pages_def set' s'(2))
  next
    fix p assume p: "p \<in> live_pages s - {page_at r i}"
    then consider k b j where "(k, b) \<in> set (m_regions s)" "j < 64" "\<not> bit b j" "p = page_at k j"
      | k j where "(k, ()) \<in> set (m_busyRegions s)" "j < 64" "p = page_at k j"
      by (auto simp: live_pages_def)
    then show "p \<in> live_pages s'"
    proof cases
      case 1
      show ?thesis
      proof (cases "(k, b) = (r, bm)")
        case True
        with 1 p bits have "(r, bm OR 2 ^ i) \<in> set (m_regions s') \<and> \<not> bit (bm OR 2 ^ i) j"
          by (auto simp: set')
        with 1 True show ?thesis by (auto simp: live_pages_def)
      next
        case False
        with 1 show ?thesis by (auto simp: live_pages_def set')
      qed
    next
      case 2
      then show ?thesis by (auto simp: live_pages_def s'(2))
    qed
  qed
  show "regions_of s' = regions_of s"
    using mem by (force simp: regions_of_def set' s'(2))
qed

lemma release_region_keeps:
  assumes inv: "page_inv s" and mem: "(r, bm) \<in> set (m_regions s)"
    and i: "i < 64" "\<not> bit bm i"
    and s': "set (m_regions s') = set (m_regions s) - {(r, bm)}" "rg.ordered (m_regions s')"
      "m_busyRegions s' = m_busyRegions s"
    and all: "bm OR 2 ^ i = - 1"
  shows "page_inv s'" "live_pages s' = live_pages s - {page_at r i}"
    "regions_of s' \<subseteq> regions_of s"
proof -
  have ord: "rg.ordered (m_regions s)" and ro: "region_ok r" using inv mem by (auto simp: page_inv_def)
  from inv s' show "page_inv s'" by (auto simp: page_inv_def)
  have bits: "\<not> bit bm j \<longleftrightarrow> j = i" if "j < 64" for j
    using bit_set_64 [OF that, of bm i] i that by (auto simp: all)
  have sep: "page_at k j \<noteq> page_at r i"
    if "(k, b) \<in> set (m_regions s)" "(k, b) \<noteq> (r, bm)" "j < 64" for k b j
  proof
    assume eq: "page_at k j = page_at r i"
    have "region_ok k" using inv that(1) by (auto simp: page_inv_def)
    from page_at_inj [OF this ro that(3) i(1) eq] that(2)
      rg.ordered_key_unique [OF ord that(1) mem] show False by auto
  qed
  have busy: "page_at k j \<noteq> page_at r i" if "(k, ()) \<in> set (m_busyRegions s)" "j < 64" for k j
  proof
    assume eq: "page_at k j = page_at r i"
    have "region_ok k" "rg.apart r (m_busyRegions s)" using inv that(1) mem by (auto simp: page_inv_def)
    with page_at_inj [OF this(1) ro that(2) i(1) eq] that(1) show False by (auto simp: rg.apart_def)
  qed
  show "live_pages s' = live_pages s - {page_at r i}"
  proof (intro set_eqI iffI)
    fix p assume "p \<in> live_pages s'"
    with sep busy show "p \<in> live_pages s - {page_at r i}"
      by (fastforce simp: live_pages_def s')
  next
    fix p assume p: "p \<in> live_pages s - {page_at r i}"
    then consider k b j where "(k, b) \<in> set (m_regions s)" "j < 64" "\<not> bit b j" "p = page_at k j"
      | k j where "(k, ()) \<in> set (m_busyRegions s)" "j < 64" "p = page_at k j"
      by (auto simp: live_pages_def)
    then show "p \<in> live_pages s'"
    proof cases
      case 1
      with p bits have "(k, b) \<noteq> (r, bm)" by auto
      with 1 show ?thesis by (auto simp: live_pages_def s')
    qed (auto simp: live_pages_def s')
  qed
  show "regions_of s' \<subseteq> regions_of s" by (auto simp: regions_of_def s')
qed

lemma release_busy_keeps:
  assumes inv: "page_inv s" "spaced s" and mem: "(r, ()) \<in> set (m_busyRegions s)" and i: "i < 64"
    and s': "m_regions s' = omap_put RegCmp r (2 ^ i) (m_regions s)"
      "m_busyRegions s' = omap_erase RegCmp r (m_busyRegions s)"
  shows "page_inv s'" "live_pages s' = live_pages s - {page_at r i}" "regions_of s' = regions_of s"
proof -
  have ordb: "rg.ordered (m_busyRegions s)" and ord: "rg.ordered (m_regions s)" and ro: "region_ok r"
    using inv(1) mem by (auto simp: page_inv_def)
  have ap: "rg.apart r (m_regions s)"
  proof -
    have "unat (fst e) + 262144 \<le> unat r \<or> unat r + 262144 \<le> unat (fst e)" if "e \<in> set (m_regions s)" for e
    proof -
      have "rg.apart (fst e) (m_busyRegions s)" using inv(1) that by (auto simp: page_inv_def)
      with mem show ?thesis by (auto simp: rg.apart_def)
    qed
    then show ?thesis by (auto simp: rg.apart_def)
  qed
  have setb: "set (m_busyRegions s') = set (m_busyRegions s) - {(r, ())}"
    unfolding s' using ordb mem by (rule rg.erase_set)
  have ordb': "rg.ordered (m_busyRegions s')"
    unfolding s' using ordb mem by (rule rg.erase_ordered)
  have set': "set (m_regions s') = insert (r, 2 ^ i) (set (m_regions s))"
    unfolding s' by (rule rg.put_apart_set) (use ord ro ap in auto)
  have ord': "rg.ordered (m_regions s')"
    unfolding s' by (rule rg.put_apart_ordered) (use ord ro ap in auto)
  have nz: "(2 ^ i :: u64) \<noteq> 0" using i by (auto simp: word64_zero_iff bit_exp_64)
  have nf: "(2 ^ i :: u64) \<noteq> - 1"
  proof
    assume "(2 ^ i :: u64) = - 1"
    then have "\<forall>j<64. j = i" by (auto simp: word64_minus_1_iff bit_exp_64)
    then have "(0 :: nat) = i \<and> (1 :: nat) = i" by (metis one_less_numeral_iff semiring_norm(76) zero_less_numeral)
    then show False by auto
  qed
  have uniq: "rg.apart r (m_busyRegions s')"
  proof -
    have "e = (r, ())" if "e \<in> set (m_busyRegions s)" "unat (fst e) < unat r + 262144"
      "unat r < unat (fst e) + 262144" for e
      using rg.ordered_key_unique [OF ordb that(1) mem] that by simp
    then show ?thesis by (force simp: rg.apart_def setb)
  qed
  have "rg.apart k (m_busyRegions s')" if "(k, b) \<in> set (m_regions s)" for k b
    using inv(1) that by (auto simp: page_inv_def rg.apart_def setb)
  with uniq inv(1) ord' ordb' ro nz nf show "page_inv s'"
    by (auto simp: page_inv_def set' setb)
  have "live_pages s' = live_pages s - {page_at r i}"
  proof -
    have sep: "page_at k j \<noteq> page_at r i" if "(k, b) \<in> set (m_regions s)" "j < 64" for k b j
    proof
      assume eq: "page_at k j = page_at r i"
      have "region_ok k" using inv(1) that(1) by (auto simp: page_inv_def)
      from page_at_inj [OF this ro that(2) i eq] ap that(1) show False by (auto simp: rg.apart_def)
    qed
    have busy: "page_at k j \<noteq> page_at r i" if "(k, ()) \<in> set (m_busyRegions s)" "k \<noteq> r" "j < 64" for k j
    proof
      assume eq: "page_at k j = page_at r i"
      have "region_ok k" using inv(1) that(1) by (auto simp: page_inv_def)
      from page_at_inj [OF this ro that(3) i eq] uniq that(1,2) show False
        by (force simp: rg.apart_def setb)
    qed
    have same: "page_at r j \<noteq> page_at r i" if "j < 64" "j \<noteq> i" for j
      using page_at_same [OF ro that(1) i] that(2) by blast
    have new: "live_pages s' = {page_at r j |j. j < 64 \<and> j \<noteq> i} \<union>
        {page_at k j |k b j. (k, b) \<in> set (m_regions s) \<and> j < 64 \<and> \<not> bit b j} \<union>
        {page_at k j |k j. (k, ()) \<in> set (m_busyRegions s) \<and> k \<noteq> r \<and> j < 64}"
      by (auto simp: live_pages_def set' setb bit_exp_64) (metis bit_exp_64)
    have old: "live_pages s = {page_at r j |j. j < 64} \<union>
        {page_at k j |k b j. (k, b) \<in> set (m_regions s) \<and> j < 64 \<and> \<not> bit b j} \<union>
        {page_at k j |k j. (k, ()) \<in> set (m_busyRegions s) \<and> k \<noteq> r \<and> j < 64}"
      using mem by (auto simp: live_pages_def)
    show ?thesis
    proof (intro set_eqI iffI)
      fix p assume "p \<in> live_pages s'"
      then show "p \<in> live_pages s - {page_at r i}"
        unfolding new old using sep busy same by fastforce
    next
      fix p assume "p \<in> live_pages s - {page_at r i}"
      then show "p \<in> live_pages s'" unfolding new old by fastforce
    qed
  qed
  then show "live_pages s' = live_pages s - {page_at r i}" .
  show "regions_of s' = regions_of s" using mem by (force simp: regions_of_def set' setb)
qed

lemma spaced_mono: "regions_of s' \<subseteq> regions_of s \<Longrightarrow> spaced s \<Longrightarrow> spaced s'"
  by (auto simp: spaced_def)

lemma osFree_simps [simp]:
  "m_regions (osFree k s) = m_regions s"
  "m_busyRegions (osFree k s) = m_busyRegions s"
  by (simp_all add: osFree_def)

lemma freePage_partial:
  assumes inv: "page_inv s" and mem: "(r, bm) \<in> set (m_regions s)" and i: "i < 64" "\<not> bit bm i"
  shows "\<exists>s'. freePage dangling (page_at r i) s = Inr s' \<and> page_inv s' \<and>
    regions_of s' \<subseteq> regions_of s \<and> live_pages s' = live_pages s - {page_at r i}"
proof -
  let ?t = "memset_page (page_at r i) 0xBB s"
  let ?bm = "bm OR 2 ^ i"
  let ?t1 = "?t\<lparr>m_regions := omap_put RegCmp r ?bm (m_regions s)\<rparr>"
  have ord: "rg.ordered (m_regions s)" and ro: "region_ok r" using inv mem by (auto simp: page_inv_def)
  have f: "omap_find RegCmp (page_at r i) (m_regions s) = Some (r, bm)"
    by (rule rg.find_inside) (use ord ro mem i in \<open>auto simp: unat_page_at\<close>)
  have free: "bm AND 2 ^ i = 0" using i by (simp add: and_exp_64_zero)
  show ?thesis
  proof (cases "?bm = - 1")
    case False
    have "freePage dangling (page_at r i) s = Inr ?t1"
      using f i False ro free
      by (simp add: freePage_def page_index shl1_small)
    with release_partial_keeps [OF _ _ i, of ?t r ?t1] inv mem False show ?thesis by simp
  next
    case True
    let ?t2 = "(osFree r ?t1)\<lparr>m_regions := omap_erase RegCmp r (m_regions ?t1)\<rparr>"
    have "freePage dangling (page_at r i) s = Inr ?t2"
      using f i True ro free
      by (simp add: freePage_def page_index shl1_small Let_def)
    moreover have put: "(r, ?bm) \<in> set (m_regions ?t1)" "rg.ordered (m_regions ?t1)"
      "set (m_regions ?t1) = insert (r, ?bm) (set (m_regions s) - {(r, bm)})"
      using rg.put_same_set [OF ord mem, of ?bm] rg.put_same_ordered [OF ord mem, of ?bm] by simp_all
    moreover have "(r, ?bm) \<notin> set (m_regions s) - {(r, bm)}"
    proof
      assume "(r, ?bm) \<in> set (m_regions s) - {(r, bm)}"
      then have "?bm = bm" using rg.ordered_key_unique [OF ord _ mem, of "(r, ?bm)"] by simp
      with bit_set_64 [of i bm i] i show False by simp
    qed
    ultimately have "set (m_regions ?t2) = set (m_regions s) - {(r, bm)}" "rg.ordered (m_regions ?t2)"
      using rg.erase_set [OF put(2,1)] rg.erase_ordered [OF put(2,1)] by auto
    with release_region_keeps [OF _ _ i, of ?t r ?t2] inv mem True
      \<open>freePage dangling (page_at r i) s = Inr ?t2\<close> show ?thesis by simp
  qed
qed

lemma freePage_busy:
  assumes inv: "page_inv s" "spaced s" and mem: "(r, ()) \<in> set (m_busyRegions s)" and i: "i < 64"
    and d: "dangling r = r"
  shows "\<exists>s'. freePage dangling (page_at r i) s = Inr s' \<and> page_inv s' \<and>
    regions_of s' \<subseteq> regions_of s \<and> live_pages s' = live_pages s - {page_at r i}"
proof -
  let ?t = "memset_page (page_at r i) 0xBB s"
  let ?t1 = "?t\<lparr>m_busyRegions := omap_erase RegCmp r (m_busyRegions s),
      m_regions := omap_put RegCmp r (2 ^ i) (m_regions s)\<rparr>"
  have ord: "rg.ordered (m_busyRegions s)" "rg.ordered (m_regions s)" and ro: "region_ok r"
    using inv(1) mem by (auto simp: page_inv_def)
  have "far (fst e) r" if "e \<in> set (m_regions s)" for e
  proof -
    have "rg.apart (fst e) (m_busyRegions s)" using inv(1) that by (auto simp: page_inv_def)
    then have "fst e \<noteq> r" using mem by (auto simp: rg.apart_def)
    moreover have "fst e \<in> regions_of s" "r \<in> regions_of s"
      using that mem by (force simp: regions_of_def)+
    ultimately show ?thesis using inv(2) by (simp add: spaced_def)
  qed
  then have "rg.apart (page_at r i) (m_regions s)" using ro i by (rule far_apart_page)
  then have f1: "omap_find RegCmp (page_at r i) (m_regions s) = None"
    using ord ro i by (intro rg.find_apart) simp_all
  have f2: "omap_find RegCmp (page_at r i) (m_busyRegions s) = Some (r, ())"
    by (rule rg.find_inside) (use ord ro mem i in \<open>auto simp: unat_page_at\<close>)
  have "freePage dangling (page_at r i) s = Inr ?t1"
    using f1 f2 ro i d by (simp add: freePage_def page_index shl1_small)
  with release_busy_keeps [of ?t r i ?t1] inv mem i show ?thesis by simp
qed

lemma freePage_spec:
  assumes inv: "page_inv s" "spaced s" and p: "p \<in> live_pages s"
    and d: "\<And>k. dangling k = k"
  shows "\<exists>s'. freePage dangling p s = Inr s' \<and> page_inv s' \<and> spaced s' \<and>
    live_pages s' = live_pages s - {p}"
proof -
  from p consider r bm i where "(r, bm) \<in> set (m_regions s)" "i < 64" "\<not> bit bm i" "p = page_at r i"
    | r i where "(r, ()) \<in> set (m_busyRegions s)" "i < 64" "p = page_at r i"
    by (auto simp: live_pages_def)
  then show ?thesis
  proof cases
    case 1
    with freePage_partial [OF inv(1) 1(1-3)] inv(2) spaced_mono show ?thesis by metis
  next
    case 2
    with freePage_busy [OF inv 2(1,2), of dangling] d inv(2) spaced_mono show ?thesis by metis
  qed
qed

section \<open>The contract\<close>

text \<open>
  Under the documented behaviour of the bit scan and of \<open>mmap\<close>, with regions that do not touch
  and with an erased node that still holds its key, the page allocator meets the contract.
\<close>

interpretation pages: allocator
  "\<lambda>s. bsf_spec bsf \<and> (\<forall>k. dangling k = k) \<and> page_inv s \<and> spaced s"
  live_pages "{0}" fresh_mapping "allocPage bsf" "freePage dangling"
  for bsf dangling
proof unfold_locales
  fix s e
  assume "bsf_spec bsf \<and> (\<forall>k. dangling k = k) \<and> page_inv s \<and> spaced s" "fresh_mapping e s"
  then show "\<exists>a s'. allocPage bsf e s = Inr (a, s') \<and>
      (bsf_spec bsf \<and> (\<forall>k. dangling k = k) \<and> page_inv s' \<and> spaced s') \<and>
      (a \<in> {0} \<and> live_pages s' = live_pages s \<or>
       a \<notin> {0} \<and> a \<notin> live_pages s \<and> live_pages s' = insert a (live_pages s))"
    using allocPage_spec [of bsf s e] by auto
next
  fix s a
  assume "bsf_spec bsf \<and> (\<forall>k. dangling k = k) \<and> page_inv s \<and> spaced s" "a \<in> live_pages s"
  then show "\<exists>s'. freePage dangling a s = Inr s' \<and>
      (bsf_spec bsf \<and> (\<forall>k. dangling k = k) \<and> page_inv s' \<and> spaced s') \<and>
      live_pages s' = live_pages s - {a}"
    using freePage_spec [of s a dangling] by auto
qed

lemma page_inv_new [simp]:
  "page_inv (PageAllocator_new fill)" "spaced (PageAllocator_new fill)"
  "live_pages (PageAllocator_new fill) = {}"
  by (simp_all add: page_inv_def spaced_def regions_of_def live_pages_def PageAllocator_new_def)

section \<open>Properties\<close>



text \<open>When a busy region is directly below a partly used one, freeing any page of the busy
  region other than its first looks the page up in the wrong region and shifts by the distance
  of the two, which is undefined behaviour.\<close>

theorem freePage_adjacent:
  assumes ok: "region_ok r" "region_ok (r + REGION_SIZE)"
    and i: "0 < i" "i < 64"
    and regs: "m_regions s = [(r + REGION_SIZE, bm)]"
  shows "freePage dangling (page_at r i) s = Inl Undefined_Behaviour"
proof -
  let ?c = "r + REGION_SIZE"
  have c: "unat ?c = unat r + 262144"
    using ok(1) by (simp add: REGION_SIZE_def unat_word_ariths region_ok_def)
  have p: "unat (page_at r i) = unat r + i * 4096" using ok(1) i(2) by (simp add: unat_page_at)
  have "\<not> RegCmp ?c (page_at r i)" "\<not> RegCmp (page_at r i) ?c"
    using ok i c p by (simp_all add: RegCmp_nat)
  then have f: "omap_find RegCmp (page_at r i) (m_regions s) = Some (?c, bm)"
    by (simp add: regs)
  have "unat (page_at r i - ?c) = unat r + i * 4096 + 2 ^ 64 - (unat r + 262144)"
    using i(2) c p by (subst unat_sub_if') simp
  then have "\<not> (page_at r i - ?c) div getPageSize < 64"
    using i by (simp add: word_less_nat_alt unat_div getPageSize_def)
  with f show ?thesis by (simp add: freePage_def shl1_def)
qed

theorem freePage_adjacent_witness:
  "freePage id (page_at 0x10000000 1)
     \<lparr>m_regions = [(0x10000000 + REGION_SIZE, 2)], m_busyRegions = [(0x10000000, ())],
      page_fill = (\<lambda>_. 0), os_freed = []\<rparr> = Inl Undefined_Behaviour"
  by (rule freePage_adjacent [where bm = 2]) (simp_all add: region_ok_def REGION_SIZE_def)

end
