(* ===== verification/Linked_List.thy ===== *)
theory Linked_List
  imports S2E_Prelude
begin

text \<open>
  The intrusive circular doubly linked lists of \<open>src/include/s2e/Slab.h\<close>: a list head and the
  nodes embedded in the block headers are addresses, and the heap maps each to its two links.
  The operations are given as the pointer assignments of the source and shown to implement the
  operations on HOL lists that the block allocator is written with.
\<close>

record list_heap =
  nxt :: "u64 \<Rightarrow> u64"
  prv :: "u64 \<Rightarrow> u64"

definition set_nxt :: "u64 \<Rightarrow> u64 \<Rightarrow> list_heap \<Rightarrow> list_heap" where
  "set_nxt a b h = h\<lparr>nxt := (nxt h)(a := b)\<rparr>"

definition set_prv :: "u64 \<Rightarrow> u64 \<Rightarrow> list_heap \<Rightarrow> list_heap" where
  "set_prv a b h = h\<lparr>prv := (prv h)(a := b)\<rparr>"

definition list_init_head :: "u64 \<Rightarrow> list_heap \<Rightarrow> list_heap" where
  "list_init_head lh h = set_prv lh lh (set_nxt lh lh h)"

definition list_empty :: "u64 \<Rightarrow> list_heap \<Rightarrow> bool" where
  "list_empty lh h \<longleftrightarrow> nxt h lh = lh"

definition list_remove_entry :: "u64 \<Rightarrow> list_heap \<Rightarrow> list_heap" where
  "list_remove_entry entry h =
     (let n = nxt h entry; p = prv h entry
      in set_prv n p (set_nxt p n h))"

definition list_insert_head :: "u64 \<Rightarrow> u64 \<Rightarrow> list_heap \<Rightarrow> list_heap" where
  "list_insert_head lh entry h =
     (let n = nxt h lh
      in set_nxt lh entry (set_prv n entry (set_prv entry lh (set_nxt entry n h))))"

definition list_insert_tail :: "u64 \<Rightarrow> u64 \<Rightarrow> list_heap \<Rightarrow> list_heap" where
  "list_insert_tail lh entry h =
     (let p = prv h lh
      in set_prv lh entry (set_nxt p entry (set_prv entry p (set_nxt entry lh h))))"

definition list_remove_tail :: "u64 \<Rightarrow> list_heap \<Rightarrow> u64 \<times> list_heap" where
  "list_remove_tail lh h =
     (let entry = prv h lh; p = prv h entry
      in (entry, set_nxt p lh (set_prv lh p h)))"

lemma links_simps [simp]:
  "nxt (set_nxt a b h) = (nxt h)(a := b)" "prv (set_nxt a b h) = prv h"
  "prv (set_prv a b h) = (prv h)(a := b)" "nxt (set_prv a b h) = nxt h"
  by (simp_all add: set_nxt_def set_prv_def)

section \<open>The list a head represents\<close>

fun chain :: "list_heap \<Rightarrow> u64 list \<Rightarrow> bool" where
  "chain h (a # b # r) \<longleftrightarrow> nxt h a = b \<and> prv h b = a \<and> chain h (b # r)"
| "chain h _ \<longleftrightarrow> True"

definition represents :: "list_heap \<Rightarrow> u64 \<Rightarrow> u64 list \<Rightarrow> bool" where
  "represents h lh xs \<longleftrightarrow> distinct (lh # xs) \<and> chain h (lh # xs @ [lh])"

lemma chain_append: "chain h (xs @ a # ys) \<longleftrightarrow> chain h (xs @ [a]) \<and> chain h (a # ys)"
proof (induction xs)
  case Nil
  show ?case by simp
next
  case (Cons x xs)
  then show ?case by (cases xs) auto
qed

lemma chain_cong:
  assumes "\<And>x. x \<in> set (butlast xs) \<Longrightarrow> nxt h' x = nxt h x"
    and "\<And>x. x \<in> set (tl xs) \<Longrightarrow> prv h' x = prv h x"
  shows "chain h' xs = chain h xs"
  using assms
proof (induction h xs rule: chain.induct)
  case (1 h a b r)
  have "chain h' (b # r) = chain h (b # r)"
    by (rule "1.IH") (use "1.prems" in \<open>auto dest: list.set_sel(2)\<close>)
  with "1.prems" show ?case by simp
qed auto

text \<open>The heap changes only at the nodes of the list concerned, so other lists keep.\<close>

lemma represents_frame:
  assumes "represents h lh xs"
    and "\<And>x. x \<in> set (lh # xs) \<Longrightarrow> nxt h' x = nxt h x \<and> prv h' x = prv h x"
  shows "represents h' lh xs"
proof -
  have "chain h' (lh # xs @ [lh]) = chain h (lh # xs @ [lh])"
    by (rule chain_cong) (use assms(2) in \<open>auto dest: in_set_butlastD\<close>)
  with assms(1) show ?thesis by (simp add: represents_def)
qed

lemma represents_init: "represents (list_init_head lh h) lh []"
  by (simp add: represents_def list_init_head_def)

lemma represents_empty: "represents h lh xs \<Longrightarrow> list_empty lh h \<longleftrightarrow> xs = []"
  by (cases xs) (auto simp: represents_def list_empty_def)

lemma represents_first: "represents h lh (x # xs) \<Longrightarrow> nxt h lh = x"
  by (simp add: represents_def)

lemma represents_last: "represents h lh (xs @ [x]) \<Longrightarrow> prv h lh = x"
  using chain_append [of h "lh # xs" x "[lh]"] by (simp add: represents_def)

lemma represents_insert_head:
  assumes r: "represents h lh xs" and e: "e \<notin> set (lh # xs)"
  shows "represents (list_insert_head lh e h) lh (e # xs)"
proof -
  obtain n rest where n: "xs @ [lh] = n # rest" by (cases "xs @ [lh]") auto
  have "nxt h lh = n" and c: "chain h (n # rest)" using r n by (auto simp: represents_def)
  then have h': "list_insert_head lh e h =
      set_nxt lh e (set_prv n e (set_prv e lh (set_nxt e n h)))"
    by (simp add: list_insert_head_def Let_def)
  have d: "distinct (n # butlast rest)" "e \<notin> set (n # rest)" "set rest \<subseteq> insert lh (set xs)"
    using r e n by (cases xs; auto simp: represents_def)+
  have nr: "n \<notin> set rest"
    using r n by (cases xs) (auto simp: represents_def)
  have lb: "lh \<notin> set (butlast (n # rest))"
    using r unfolding n [symmetric] by (simp add: represents_def)
  have "chain (list_insert_head lh e h) (n # rest) = chain h (n # rest)"
    by (rule chain_cong)
      (use d nr lb in \<open>auto simp: h' dest: in_set_butlastD split: if_splits\<close>)
  with c d e have "chain (list_insert_head lh e h) (lh # e # n # rest)"
    by (auto simp: h')
  with r e n show ?thesis by (auto simp: represents_def)
qed

lemma represents_split:
  assumes "represents h lh (xs @ e # ys)"
  obtains p n ps ns where "lh # xs = ps @ [p]" "ys @ [lh] = n # ns"
    "nxt h e = n" "prv h e = p" "chain h (ps @ [p])" "chain h (n # ns)" "nxt h p = e" "prv h n = e"
proof -
  obtain ps p where p: "lh # xs = ps @ [p]" by (metis rev_exhaust list.distinct(1))
  obtain n ns where n: "ys @ [lh] = n # ns" by (cases "ys @ [lh]") auto
  have "lh # (xs @ e # ys) @ [lh] = ps @ p # e # n # ns"
    using p n by (metis append.assoc append_Cons append_Nil)
  then have "chain h (ps @ p # e # n # ns)" using assms by (simp add: represents_def)
  then show ?thesis using chain_append [of h ps p "e # n # ns"] p n by (auto intro: that)
qed

text \<open>Removing an entry, wherever it is in the list.\<close>

lemma represents_remove:
  assumes r: "represents h lh (xs @ e # ys)"
    and h': "nxt h' = (nxt h)(p := n)" "prv h' = (prv h)(n := p)"
    and pn: "p = prv h e" "n = nxt h e"
  shows "represents h' lh (xs @ ys)"
proof -
  obtain ps ns where s: "lh # xs = ps @ [p]" "ys @ [lh] = n # ns"
    "chain h (ps @ [p])" "chain h (n # ns)"
    using represents_split [OF r] pn by metis
  have d: "distinct (lh # xs @ e # ys)" using r by (simp add: represents_def)
  have dl: "distinct (ps @ [p])" "set (ps @ [p]) \<inter> set ys = {}" "distinct (lh # ys)"
    using d unfolding s(1) [symmetric] by auto
  have "set ns \<subseteq> set ys \<union> {lh}" "n \<in> set ys \<union> {lh}"
    using s(2) by (metis Un_commute insert_is_Un list.set(2) set_append set_subset_Cons
      empty_set list.simps(15), metis Un_iff list.set_intros(1) set_append empty_set list.simps(15))
  have nn: "n \<notin> set ns" using d s(2) by (cases ys) auto
  have tlps: "n \<notin> set (tl (ps @ [p]))"
    using \<open>n \<in> set ys \<union> {lh}\<close> d unfolding s(1) [symmetric] by auto
  have pb: "p \<notin> set (butlast (n # ns))"
  proof -
    have "butlast (n # ns) = ys" using s(2) by (metis butlast_snoc)
    moreover have "p \<notin> set ys" using dl(2) by auto
    ultimately show ?thesis by simp
  qed
  have pp: "p \<notin> set (butlast (ps @ [p]))" using dl(1) by simp
  have "chain h' (ps @ [p])"
    using s(3) by (subst chain_cong [of _ _ h]) (use pp tlps h' in \<open>auto\<close>)
  moreover have "chain h' (n # ns)"
    using s(4) by (subst chain_cong [of _ _ h]) (use pb nn h' in \<open>auto\<close>)
  ultimately have "chain h' (ps @ p # n # ns)"
    using chain_append [of h' ps p "n # ns"] h' by simp
  moreover have "ps @ p # n # ns = lh # (xs @ ys) @ [lh]"
    using s(1,2) by (metis append.assoc append_Cons append_Nil)
  ultimately show ?thesis using d by (auto simp: represents_def)
qed

lemma represents_remove_entry:
  "represents h lh (xs @ e # ys) \<Longrightarrow> represents (list_remove_entry e h) lh (xs @ ys)"
  by (rule represents_remove) (auto simp: list_remove_entry_def Let_def)

lemma represents_next_last: "represents h lh (xs @ [e]) \<Longrightarrow> nxt h e = lh"
  using chain_append [of h "lh # xs" e "[lh]"] by (simp add: represents_def)

lemma represents_remove_tail:
  assumes r: "represents h lh (xs @ [e])"
  shows "fst (list_remove_tail lh h) = e" "represents (snd (list_remove_tail lh h)) lh xs"
proof -
  have e: "prv h lh = e" "nxt h e = lh"
    using r by (rule represents_last, rule represents_next_last)
  then show "fst (list_remove_tail lh h) = e" by (simp add: list_remove_tail_def Let_def)
  have "represents (snd (list_remove_tail lh h)) lh (xs @ [])"
    by (rule represents_remove [OF r]) (auto simp: list_remove_tail_def Let_def e)
  then show "represents (snd (list_remove_tail lh h)) lh xs" by simp
qed

lemma represents_insert_tail:
  assumes r: "represents h lh xs" and e: "e \<notin> set (lh # xs)"
  shows "represents (list_insert_tail lh e h) lh (xs @ [e])"
proof -
  obtain ps p where p: "lh # xs = ps @ [p]" by (metis rev_exhaust list.distinct(1))
  have eq: "lh # xs @ [lh] = ps @ p # [lh]" using p by (metis append.assoc append_Cons append_Nil)
  have "chain h (lh # xs @ [lh])" using r by (simp add: represents_def)
  then have "chain h (ps @ p # [lh])" by (simp only: eq)
  then have c: "chain h (ps @ [p])" "prv h lh = p"
    using chain_append [of h ps p "[lh]"] by simp_all
  have h': "list_insert_tail lh e h = set_prv lh e (set_nxt p e (set_prv e p (set_nxt e lh h)))"
    by (simp add: list_insert_tail_def Let_def c(2))
  have d: "distinct (ps @ [p])" "e \<notin> set (ps @ [p])"
    using r e unfolding p [symmetric] by (auto simp: represents_def)
  have lb: "lh \<notin> set (tl (ps @ [p]))" using r unfolding p [symmetric] by (simp add: represents_def)
  have et: "e \<notin> set (tl (ps @ [p]))" using d(2) by (cases ps) auto
  have "chain (list_insert_tail lh e h) (ps @ [p]) = chain h (ps @ [p])"
    by (rule chain_cong) (use d lb et in \<open>auto simp: h' dest: list.set_sel(2)\<close>)
  then have "chain (list_insert_tail lh e h) (ps @ p # [e, lh])"
    using chain_append [of _ ps p "[e, lh]"] c(1) d e by (auto simp: h')
  moreover have "ps @ p # [e, lh] = lh # (xs @ [e]) @ [lh]"
    using p by (metis append.assoc append_Cons append_Nil)
  ultimately show ?thesis using r e by (auto simp: represents_def)
qed

section \<open>The contract with the block allocator\<close>

text \<open>
  What the block allocator uses of the lists, over the list a head stands for: it takes the first
  entry, puts one in front or at the end, unlinks one wherever it is, and takes the last.
\<close>

locale intrusive_list =
  fixes rep :: "'h \<Rightarrow> 'a \<Rightarrow> 'a list \<Rightarrow> bool"
    and is_empty :: "'a \<Rightarrow> 'h \<Rightarrow> bool"
    and first :: "'a \<Rightarrow> 'h \<Rightarrow> 'a"
    and ins_head ins_tail :: "'a \<Rightarrow> 'a \<Rightarrow> 'h \<Rightarrow> 'h"
    and unlink :: "'a \<Rightarrow> 'h \<Rightarrow> 'h"
    and take_tail :: "'a \<Rightarrow> 'h \<Rightarrow> 'a \<times> 'h"
  assumes rep_distinct: "rep h lh xs \<Longrightarrow> distinct (lh # xs)"
    and rep_empty: "rep h lh xs \<Longrightarrow> is_empty lh h \<longleftrightarrow> xs = []"
    and rep_first: "rep h lh (x # xs) \<Longrightarrow> first lh h = x"
    and rep_ins_head: "rep h lh xs \<Longrightarrow> e \<notin> set (lh # xs) \<Longrightarrow> rep (ins_head lh e h) lh (e # xs)"
    and rep_ins_tail: "rep h lh xs \<Longrightarrow> e \<notin> set (lh # xs) \<Longrightarrow> rep (ins_tail lh e h) lh (xs @ [e])"
    and rep_unlink: "rep h lh (xs @ e # ys) \<Longrightarrow> rep (unlink e h) lh (xs @ ys)"
    and rep_take_tail: "rep h lh (xs @ [e]) \<Longrightarrow>
      fst (take_tail lh h) = e \<and> rep (snd (take_tail lh h)) lh xs"
begin

text \<open>Unlinking is \<open>remove1\<close>; moving an entry to the front keeps the other entries in order.\<close>

lemma rep_remove1:
  assumes "rep h lh xs" "e \<in> set xs"
  shows "rep (unlink e h) lh (remove1 e xs)"
proof -
  obtain ys zs where xs: "xs = ys @ e # zs" "e \<notin> set ys"
    using assms(2) by (meson split_list_first)
  then have "remove1 e xs = ys @ zs" by (simp add: remove1_append)
  with assms(1) xs show ?thesis using rep_unlink by simp
qed

lemma rep_move_to_front:
  assumes "rep h lh xs" "e \<in> set xs"
  shows "rep (ins_head lh e (unlink e h)) lh (e # remove1 e xs)"
proof (rule rep_ins_head)
  show "rep (unlink e h) lh (remove1 e xs)" using assms by (rule rep_remove1)
  show "e \<notin> set (lh # remove1 e xs)"
    using rep_distinct [OF assms(1)] assms(2) by auto
qed

lemma rep_take_all:
  assumes "rep h lh xs" "xs \<noteq> []"
  shows "fst (take_tail lh h) = last xs" "rep (snd (take_tail lh h)) lh (butlast xs)"
  using rep_take_tail [of h lh "butlast xs" "last xs"] assms by simp_all

end

interpretation lst: intrusive_list represents list_empty "\<lambda>lh h. nxt h lh"
  list_insert_head list_insert_tail list_remove_entry list_remove_tail
proof unfold_locales
  show "represents h lh xs \<Longrightarrow> distinct (lh # xs)" for h lh xs by (simp add: represents_def)
qed (auto simp: represents_empty represents_first represents_insert_head
  represents_insert_tail represents_remove_entry represents_remove_tail)

text \<open>Moving a node to the front of the list it is in, as the block allocator does when a page
  changes from one degree of use to another, keeps the circular list well linked and the order of
  the other nodes; no other list of the heap is touched.\<close>

theorem move_to_front_refines:
  assumes "represents h lh xs" "e \<in> set xs"
  shows "represents (list_insert_head lh e (list_remove_entry e h)) lh (e # remove1 e xs)"
  using assms by (rule lst.rep_move_to_front)

theorem move_to_front_refines_witness:
  "represents (list_insert_head 1 3 (list_remove_entry 3
     (list_insert_tail 1 3 (list_insert_tail 1 2 (list_init_head 1 \<lparr>nxt = id, prv = id\<rparr>)))))
     1 (3 # remove1 3 [2, 3])"
proof (rule move_to_front_refines)
  have "represents (list_insert_tail 1 2 (list_init_head 1 \<lparr>nxt = id, prv = id\<rparr>)) 1 ([] @ [2])"
    by (rule represents_insert_tail) (simp_all add: represents_init)
  then have "represents (list_insert_tail 1 3 (list_insert_tail 1 2
      (list_init_head 1 \<lparr>nxt = id, prv = id\<rparr>))) 1 (([] @ [2]) @ [3])"
    by (rule represents_insert_tail) simp
  then show "represents (list_insert_tail 1 3 (list_insert_tail 1 2
      (list_init_head 1 \<lparr>nxt = id, prv = id\<rparr>))) 1 [2, 3]" by simp
qed simp

end
