(* ===== verification/Block_Allocator.thy ===== *)
theory Block_Allocator
  imports Page_Allocator Linked_List
begin

text \<open>
  The block allocator of \<open>Slab.cpp\<close> and \<open>Slab.h\<close>: pages of the page allocator start with a
  header of 128 bytes whose bitmap says which blocks of the page are free, and each page is in one
  of three lists by how full it is. The lists are written with the list operations that
  \<open>Linked_List\<close> shows the pointer code to implement; what lies in memory at the start of a page is
  a function from page addresses to headers.
\<close>

section \<open>Headers\<close>

definition BLOCK_HDR_SIGNATURE :: u32 where "BLOCK_HDR_SIGNATURE = 0x11AABB00"

definition sizeof_BlockAllocatorHdr :: u64 where "sizeof_BlockAllocatorHdr = 128"

record block_hdr =
  signature :: u32
  freeCount :: u32
  hdr_mask :: "u64 list"

definition hdr_init :: "u32 \<Rightarrow> block_hdr \<Rightarrow> block_hdr" where
  "hdr_init count a = a\<lparr>freeCount := count, hdr_mask := replicate 8 (- 1)\<rparr>"

text \<open>The search loop, from word \<open>i\<close> of the bitmap; reading past the eight words is undefined.\<close>

function findFree_loop :: "(u64 \<Rightarrow> nat option) \<Rightarrow> u64 list \<Rightarrow> nat \<Rightarrow> nat \<Rightarrow> nat res" where
  "findFree_loop bsf m i c =
     (if i < length m then
        (if m ! i \<noteq> 0 then
           (case bsf (m ! i) of None \<Rightarrow> Inl Assertion_Failed | Some index \<Rightarrow> Inr (index + i * 64))
         else if i + 1 < c then findFree_loop bsf m (i + 1) c
         else Inl Assertion_Failed)
      else Inl Undefined_Behaviour)"
  by pat_completeness auto
termination by (relation "measure (\<lambda>(bsf, m, i, c). c - i)") auto

declare findFree_loop.simps [simp del]

definition findFree :: "(u64 \<Rightarrow> nat option) \<Rightarrow> nat \<Rightarrow> block_hdr \<Rightarrow> nat res" where
  "findFree bsf maxBlocks h =
     rbind (assert_that (freeCount h > 0)) (\<lambda>_.
       let c = maxBlocks div 64 + (if maxBlocks mod 64 \<noteq> 0 then 1 else 0)
       in findFree_loop bsf (hdr_mask h) 0 c)"

definition hdr_isFree :: "nat \<Rightarrow> block_hdr \<Rightarrow> bool res" where
  "hdr_isFree b h =
     (let d = b div 64; r = b mod 64
      in rbind (ensure_defined (d < length (hdr_mask h))) (\<lambda>_.
           Inr (hdr_mask h ! d AND push_bit r 1 \<noteq> 0)))"

definition hdr_alloc :: "nat \<Rightarrow> block_hdr \<Rightarrow> block_hdr res" where
  "hdr_alloc b h =
     rbind (assert_that (freeCount h > 0)) (\<lambda>_.
     rbind (hdr_isFree b h) (\<lambda>fr.
     rbind (assert_that fr) (\<lambda>_.
       let d = b div 64; r = b mod 64
       in Inr (h\<lparr>hdr_mask := (hdr_mask h)[d := hdr_mask h ! d AND NOT (push_bit r 1)],
                 freeCount := freeCount h - 1\<rparr>))))"

definition hdr_free :: "nat \<Rightarrow> block_hdr \<Rightarrow> block_hdr res" where
  "hdr_free b h =
     rbind (hdr_isFree b h) (\<lambda>fr.
     rbind (assert_that (\<not> fr)) (\<lambda>_.
       let d = b div 64; r = b mod 64
       in Inr (h\<lparr>hdr_mask := (hdr_mask h)[d := hdr_mask h ! d OR push_bit r 1],
                 freeCount := freeCount h + 1\<rparr>)))"

section \<open>The block allocator\<close>

record block_allocator =
  m_totallyFreeList :: "u64 list"
  m_freeList :: "u64 list"
  m_busyList :: "u64 list"
  m_pageSize :: u64
  m_blockSize :: u64
  m_blocksPerPage :: u64
  m_freePagesCount :: u64
  m_busyPagesCount :: u64
  m_freeBlocksCount :: u64
  m_allocatedBlocksCount :: u64
  m_magic :: u8

text \<open>
  The memory the allocators share: the page allocator, the headers at page starts, and the last
  \<open>memset\<close> over the block at an address.
\<close>

record slab_memory =
  m_pa :: page_allocator
  hdrs :: "u64 \<Rightarrow> block_hdr"
  block_fill :: "u64 \<Rightarrow> u8"

definition BlockAllocator_new :: "nat \<Rightarrow> u8 \<Rightarrow> block_allocator res" where
  "BlockAllocator_new blockSizePo2 magic =
     rbind (ensure_defined (blockSizePo2 < 31)) (\<lambda>_.
       let bs = (2 ^ blockSizePo2 :: u64);
           bpp = (getPageSize - sizeof_BlockAllocatorHdr) div bs
       in rbind (assert_that (bs < 2048)) (\<lambda>_.
          rbind (assert_that (bpp < 64 * 8)) (\<lambda>_.
            Inr \<lparr>m_totallyFreeList = [], m_freeList = [], m_busyList = [],
                 m_pageSize = getPageSize, m_blockSize = bs, m_blocksPerPage = bpp,
                 m_freePagesCount = 0, m_busyPagesCount = 0, m_freeBlocksCount = 0,
                 m_allocatedBlocksCount = 0, m_magic = magic\<rparr>)))"

definition block_signature :: "block_allocator \<Rightarrow> u32" where
  "block_signature ba = BLOCK_HDR_SIGNATURE OR ucast (m_magic ba)"

definition ba_expand ::
  "(u64 \<Rightarrow> nat option) \<Rightarrow> u64 \<Rightarrow> block_allocator \<times> slab_memory \<Rightarrow>
   (u64 \<times> block_allocator \<times> slab_memory) res" where
  "ba_expand bsf mapped st = (case st of (ba, mem) \<Rightarrow>
     rbind (allocPage bsf mapped (m_pa mem)) (\<lambda>(newPage, pa).
       let mem1 = mem\<lparr>m_pa := pa\<rparr> in
       if newPage = 0 then Inr (0, ba, mem1)
       else
         let h1 = hdr_init (ucast (m_blocksPerPage ba)) (hdrs mem1 newPage);
             h2 = h1\<lparr>signature := block_signature ba\<rparr>
         in Inr (newPage,
              ba\<lparr>m_totallyFreeList := m_totallyFreeList ba @ [newPage],
                 m_freePagesCount := m_freePagesCount ba + 1,
                 m_freeBlocksCount := m_freeBlocksCount ba + m_blocksPerPage ba\<rparr>,
              mem1\<lparr>hdrs := (hdrs mem1)(newPage := h2)\<rparr>)))"

text \<open>\<open>freePage\<close> overwrites the page, and with it the header.\<close>

definition fill_hdr :: "u8 \<Rightarrow> block_hdr" where
  "fill_hdr b = \<lparr>signature = ucast b * 0x01010101, freeCount = ucast b * 0x01010101,
     hdr_mask = replicate 8 (ucast b * 0x0101010101010101)\<rparr>"

definition ba_shrink ::
  "(u64 \<Rightarrow> u64) \<Rightarrow> block_allocator \<times> slab_memory \<Rightarrow> (block_allocator \<times> slab_memory) res" where
  "ba_shrink dangling st = (case st of (ba, mem) \<Rightarrow>
     if m_totallyFreeList ba = [] then Inr (ba, mem)
     else
       let page = last (m_totallyFreeList ba);
           ba1 = ba\<lparr>m_totallyFreeList := butlast (m_totallyFreeList ba)\<rparr>
       in rbind (freePage dangling page (m_pa mem)) (\<lambda>pa.
            Inr (ba1\<lparr>m_freePagesCount := m_freePagesCount ba1 - 1,
                     m_freeBlocksCount := m_freeBlocksCount ba1 - m_blocksPerPage ba1\<rparr>,
                 mem\<lparr>m_pa := pa, hdrs := (hdrs mem)(page := fill_hdr 0xBB)\<rparr>)))"

text \<open>\<open>list_remove_entry\<close> unlinks a page from whichever list it is in.\<close>

definition unlink_page :: "u64 \<Rightarrow> block_allocator \<Rightarrow> block_allocator" where
  "unlink_page p ba = ba\<lparr>m_totallyFreeList := remove1 p (m_totallyFreeList ba),
     m_freeList := remove1 p (m_freeList ba), m_busyList := remove1 p (m_busyList ba)\<rparr>"

definition first_free_page :: "block_allocator \<Rightarrow> u64 res" where
  "first_free_page ba =
     (if m_freeList ba = [] then
        (if m_totallyFreeList ba = [] then Inl Assertion_Failed
         else Inr (hd (m_totallyFreeList ba)))
      else Inr (hd (m_freeList ba)))"

text \<open>The part of \<open>alloc\<close> after the page is chosen and the block taken.\<close>

definition ba_relink_alloc :: "u64 \<Rightarrow> block_hdr \<Rightarrow> block_allocator \<Rightarrow> block_allocator" where
  "ba_relink_alloc page h ba =
     (let ba1 = ba\<lparr>m_freeBlocksCount := m_freeBlocksCount ba - 1\<rparr>;
          ba2 = (if ucast (freeCount h) = m_blocksPerPage ba - 1
                 then (unlink_page page ba1)\<lparr>m_freeList := page # m_freeList (unlink_page page ba1)\<rparr>
                 else ba1);
          ba3 = (if freeCount h = 0
                 then (unlink_page page ba2)\<lparr>m_busyList := page # m_busyList (unlink_page page ba2),
                        m_freePagesCount := m_freePagesCount ba2 - 1,
                        m_busyPagesCount := m_busyPagesCount ba2 + 1\<rparr>
                 else ba2)
      in ba3\<lparr>m_allocatedBlocksCount := m_allocatedBlocksCount ba3 + 1\<rparr>)"

definition ba_take ::
  "(u64 \<Rightarrow> nat option) \<Rightarrow> block_allocator \<times> slab_memory \<Rightarrow>
   (u64 \<times> block_allocator \<times> slab_memory) res" where
  "ba_take bsf st = (case st of (ba, mem) \<Rightarrow>
     rbind (first_free_page ba) (\<lambda>page.
     rbind (assert_that (page AND (m_pageSize ba - 1) = 0)) (\<lambda>_.
     rbind (findFree bsf (unat (m_blocksPerPage ba)) (hdrs mem page)) (\<lambda>fb.
     rbind (hdr_alloc fb (hdrs mem page)) (\<lambda>h.
       let ret = page + sizeof_BlockAllocatorHdr + of_nat fb * m_blockSize ba
       in Inr (ret, ba_relink_alloc page h ba,
               mem\<lparr>hdrs := (hdrs mem)(page := h),
                   block_fill := (block_fill mem)(ret := 0xEB)\<rparr>))))))"

definition ba_alloc ::
  "(u64 \<Rightarrow> nat option) \<Rightarrow> u64 \<Rightarrow> block_allocator \<times> slab_memory \<Rightarrow>
   (u64 \<times> block_allocator \<times> slab_memory) res" where
  "ba_alloc bsf mapped st =
     (if m_freeBlocksCount (fst st) = 0
      then rbind (ba_expand bsf mapped st) (\<lambda>(page, st').
             if page = 0 then Inr (0, st') else ba_take bsf st')
      else ba_take bsf st)"

definition ba_free ::
  "u64 \<Rightarrow> block_allocator \<times> slab_memory \<Rightarrow> (block_allocator \<times> slab_memory) res" where
  "ba_free b st = (case st of (ba, mem) \<Rightarrow>
     let page = b AND NOT (m_pageSize ba - 1);
         index = unat (((b AND (m_pageSize ba - 1)) - sizeof_BlockAllocatorHdr) div m_blockSize ba)
     in rbind (assert_that (signature (hdrs mem page) = block_signature ba)) (\<lambda>_.
        rbind (hdr_free index (hdrs mem page)) (\<lambda>h.
          let ba1 = ba\<lparr>m_freeBlocksCount := m_freeBlocksCount ba + 1,
                       m_allocatedBlocksCount := m_allocatedBlocksCount ba - 1\<rparr>;
              ba2 = (if freeCount h = 1
                     then (unlink_page page ba1)\<lparr>m_freeList := page # m_freeList (unlink_page page ba1),
                            m_freePagesCount := m_freePagesCount ba1 + 1,
                            m_busyPagesCount := m_busyPagesCount ba1 - 1\<rparr>
                     else ba1);
              ba3 = (if ucast (freeCount h) = m_blocksPerPage ba
                     then (unlink_page page ba2)\<lparr>m_totallyFreeList :=
                            page # m_totallyFreeList (unlink_page page ba2)\<rparr>
                     else ba2)
          in Inr (ba3, mem\<lparr>hdrs := (hdrs mem)(page := h),
                           block_fill := (block_fill mem)(b := 0xDB)\<rparr>))))"

section \<open>The bitmap of a header\<close>

definition hbit :: "block_hdr \<Rightarrow> nat \<Rightarrow> bool" where
  "hbit h b = bit (hdr_mask h ! (b div 64)) (b mod 64)"

text \<open>Of the 512 bits, those of existing blocks are counted by \<open>freeCount\<close>.\<close>

definition hdr_ok :: "nat \<Rightarrow> block_hdr \<Rightarrow> bool" where
  "hdr_ok n h \<longleftrightarrow> length (hdr_mask h) = 8 \<and> n < 512 \<and>
     unat (freeCount h) = card {b. b < n \<and> hbit h b}"

definition live_slots :: "nat \<Rightarrow> block_hdr \<Rightarrow> nat set" where
  "live_slots n h = {b. b < n \<and> \<not> hbit h b}"

lemma findFree_loop_spec:
  assumes bsf: "bsf_spec bsf"
  shows "i < c \<Longrightarrow> c \<le> length m \<Longrightarrow> b0 div 64 < c \<Longrightarrow> bit (m ! (b0 div 64)) (b0 mod 64) \<Longrightarrow>
    i \<le> b0 div 64 \<Longrightarrow> \<exists>b\<le>b0. findFree_loop bsf m i c = Inr b \<and> bit (m ! (b div 64)) (b mod 64)"
proof (induction "c - i" arbitrary: i)
  case 0
  then show ?case by simp
next
  case (Suc k)
  show ?case
  proof (cases "m ! i = 0")
    case True
    with Suc.prems have "i \<noteq> b0 div 64" by auto
    with Suc.prems have "Suc i < c" "Suc i \<le> b0 div 64" by auto
    with Suc.hyps(1) [of "Suc i"] Suc.hyps(2) Suc.prems
    have "\<exists>b\<le>b0. findFree_loop bsf m (Suc i) c = Inr b \<and> bit (m ! (b div 64)) (b mod 64)" by auto
    moreover have "findFree_loop bsf m i c = findFree_loop bsf m (Suc i) c"
      using True \<open>Suc i < c\<close> Suc.prems by (subst findFree_loop.simps) simp
    ultimately show ?thesis by simp
  next
    case False
    from bsf_specD [OF bsf False] obtain x where
      x: "bsf (m ! i) = Some x" "x < 64" "bit (m ! i) x" "\<And>j. j < x \<Longrightarrow> \<not> bit (m ! i) j" by metis
    have "x + i * 64 \<le> b0"
    proof (cases "i = b0 div 64")
      case True
      have "\<not> b0 mod 64 < x" using x(4) Suc.prems(4) True by blast
      then show ?thesis using True div_mult_mod_eq [of b0 64] by linarith
    next
      case False
      with Suc.prems(5) have "Suc i \<le> b0 div 64" by simp
      then have "Suc i * 64 \<le> b0" using div_mult_mod_eq [of b0 64]
        by (metis mult.commute mult_le_mono1 order_trans le_add1)
      with x(2) show ?thesis by simp
    qed
    moreover have "findFree_loop bsf m i c = Inr (x + i * 64)"
      using False x Suc.prems by (subst findFree_loop.simps) simp
    ultimately show ?thesis using x by auto
  qed
qed

lemma card_pos_ex: "0 < card {b. b < n \<and> P b} \<Longrightarrow> \<exists>b<(n :: nat). P b"
  by (auto simp: card_gt_0_iff)

lemma findFree_spec:
  assumes "bsf_spec bsf" "hdr_ok n h" "freeCount h > 0"
  shows "\<exists>b<n. findFree bsf n h = Inr b \<and> hbit h b"
proof -
  let ?c = "n div 64 + (if n mod 64 \<noteq> 0 then 1 else 0)"
  from assms(2,3) obtain b0 where b0: "b0 < n" "hbit h b0"
    using card_pos_ex [of n "hbit h"] by (auto simp: hdr_ok_def word_less_nat_alt)
  have "?c \<le> length (hdr_mask h)" "b0 div 64 < ?c" "0 < ?c"
    using assms(2) b0(1) div_mult_mod_eq [of n 64] by (auto simp: hdr_ok_def) 
  with findFree_loop_spec [OF assms(1), of 0 ?c "hdr_mask h" b0] b0
  obtain b where "b \<le> b0" "findFree_loop bsf (hdr_mask h) 0 ?c = Inr b" "hbit h b"
    by (auto simp: hbit_def)
  with b0 assms(3) show ?thesis by (auto simp: findFree_def Let_def)
qed

lemma isFree_hbit:
  assumes "hdr_ok n h" "b < n"
  shows "hdr_isFree b h = Inr (hbit h b)"
proof -
  have "b div 64 < 8" using assms by (simp add: hdr_ok_def div_less_iff_less_mult)
  then show ?thesis using assms
    by (auto simp: hdr_isFree_def Let_def hbit_def hdr_ok_def push_bit_of_1 and_exp_64_zero)
qed

text \<open>Writing one bit of the bitmap.\<close>

lemma hbit_update:
  assumes "length (hdr_mask h) = 8" "b < 512" "\<And>j. j < 64 \<Longrightarrow> bit w j \<longleftrightarrow>
      (if j = b mod 64 then v else bit (hdr_mask h ! (b div 64)) j)"
    and "hdr_mask h' = (hdr_mask h)[b div 64 := w]" "x < 512"
  shows "hbit h' x \<longleftrightarrow> (if x = b then v else hbit h x)"
proof (cases "x div 64 = b div 64")
  case True
  have "b div 64 < 8" using assms(2) by simp
  moreover have "x mod 64 = b mod 64 \<longleftrightarrow> x = b"
    using True by (metis div_mult_mod_eq)
  moreover have "x mod 64 < 64" by simp
  ultimately show ?thesis using assms(3) [of "x mod 64"] True by (simp add: hbit_def assms(1,4))
next
  case False
  then show ?thesis by (auto simp: hbit_def assms(4))
qed

lemma hdr_alloc_spec:
  assumes ok: "hdr_ok n h" and b: "b < n" "hbit h b" and fc: "freeCount h > 0"
  shows "\<exists>h'. hdr_alloc b h = Inr h' \<and> hdr_ok n h' \<and> signature h' = signature h \<and>
    live_slots n h' = insert b (live_slots n h) \<and> unat (freeCount h') = unat (freeCount h) - 1"
proof -
  let ?w = "hdr_mask h ! (b div 64) AND NOT (2 ^ (b mod 64))"
  let ?h = "h\<lparr>hdr_mask := (hdr_mask h)[b div 64 := ?w], freeCount := freeCount h - 1\<rparr>"
  have len: "length (hdr_mask h) = 8" "b < 512" "n < 512" using ok b by (auto simp: hdr_ok_def)
  have bit: "hbit ?h x \<longleftrightarrow> (if x = b then False else hbit h x)" if "x < n" for x
    by (rule hbit_update [OF len(1,2), where w = ?w]) (use that len(3) in \<open>auto simp: bit_clear_64\<close>)
  have u: "unat (freeCount h - 1) = unat (freeCount h) - 1"
    using fc by (metis unat_minus_one word_gt_0)
  have "{x. x < n \<and> hbit ?h x} = {x. x < n \<and> hbit h x} - {b}"
    using bit by (auto split: if_splits)
  then have "card {x. x < n \<and> hbit ?h x} = card {x. x < n \<and> hbit h x} - 1" using b by simp
  then have "hdr_ok n ?h" using ok u by (simp add: hdr_ok_def)
  moreover have "live_slots n ?h = insert b (live_slots n h)" using bit b by (auto simp: live_slots_def split: if_splits)
  moreover have "hdr_alloc b h = Inr ?h"
    using isFree_hbit [OF ok b(1)] b(2) fc by (simp add: hdr_alloc_def Let_def)
  ultimately show ?thesis using u by simp
qed

lemma hdr_free_spec:
  assumes ok: "hdr_ok n h" and b: "b \<in> live_slots n h"
  shows "\<exists>h'. hdr_free b h = Inr h' \<and> hdr_ok n h' \<and> signature h' = signature h \<and>
    live_slots n h' = live_slots n h - {b} \<and> unat (freeCount h') = unat (freeCount h) + 1 \<and>
    unat (freeCount h') \<le> n"
proof -
  let ?w = "hdr_mask h ! (b div 64) OR 2 ^ (b mod 64)"
  let ?h = "h\<lparr>hdr_mask := (hdr_mask h)[b div 64 := ?w], freeCount := freeCount h + 1\<rparr>"
  have bn: "b < n" "\<not> hbit h b" using b by (auto simp: live_slots_def)
  have len: "length (hdr_mask h) = 8" "b < 512" "n < 512" using ok bn by (auto simp: hdr_ok_def)
  have bit: "hbit ?h x \<longleftrightarrow> (if x = b then True else hbit h x)" if "x < n" for x
    by (rule hbit_update [OF len(1,2), where w = ?w]) (use that len(3) in \<open>auto simp: bit_set_64\<close>)
  have "{x. x < n \<and> hbit ?h x} = insert b {x. x < n \<and> hbit h x}" using bit bn by auto
  then have c: "card {x. x < n \<and> hbit ?h x} = Suc (card {x. x < n \<and> hbit h x})" using bn by simp
  have le: "card {x. x < n \<and> hbit ?h x} \<le> n"
    using card_mono [of "{..<n}" "{x. x < n \<and> hbit ?h x}"] by auto
  have fc: "unat (freeCount h) = card {x. x < n \<and> hbit h x}" using ok by (simp add: hdr_ok_def)
  have u: "unat (freeCount h + 1) = unat (freeCount h) + 1"
    using c le fc len(3) by (simp add: unat_word_ariths)
  have "hdr_ok n ?h" using len c u fc by (simp add: hdr_ok_def)
  moreover have "live_slots n ?h = live_slots n h - {b}" using bit by (auto simp: live_slots_def split: if_splits)
  moreover have "hdr_free b h = Inr ?h"
    using isFree_hbit [OF ok bn(1)] bn(2) by (simp add: hdr_free_def Let_def)
  ultimately show ?thesis using u c le fc by simp
qed

text \<open>The header meets the allocation contract for slot numbers.\<close>

definition hdr_take :: "(u64 \<Rightarrow> nat option) \<Rightarrow> nat \<Rightarrow> unit \<Rightarrow> block_hdr \<Rightarrow> (nat \<times> block_hdr) res" where
  "hdr_take bsf n u h = rbind (findFree bsf n h) (\<lambda>b. rbind (hdr_alloc b h) (\<lambda>h'. Inr (b, h')))"

lemma hdr_take_spec:
  assumes "bsf_spec bsf" "hdr_ok n h" "freeCount h > 0"
  shows "\<exists>b h'. findFree bsf n h = Inr b \<and> hdr_alloc b h = Inr h' \<and> b < n \<and> b \<notin> live_slots n h \<and>
    hdr_ok n h' \<and> signature h' = signature h \<and> live_slots n h' = insert b (live_slots n h) \<and>
    unat (freeCount h') = unat (freeCount h) - 1"
proof -
  from findFree_spec [OF assms] obtain b where b: "b < n" "findFree bsf n h = Inr b" "hbit h b" by auto
  from hdr_alloc_spec [OF assms(2) b(1,3) assms(3)] b show ?thesis by (auto simp: live_slots_def)
qed

interpretation slots: allocator "\<lambda>h. bsf_spec bsf \<and> hdr_ok n h" "live_slots n" "{}"
  "\<lambda>_ h. freeCount h > 0" "hdr_take bsf n" hdr_free for bsf n
proof unfold_locales
  fix s e
  assume "bsf_spec bsf \<and> hdr_ok n s" "0 < freeCount s"
  with hdr_take_spec [of bsf n s] show "\<exists>a s'. hdr_take bsf n e s = Inr (a, s') \<and>
      (bsf_spec bsf \<and> hdr_ok n s') \<and> (a \<in> {} \<and> live_slots n s' = live_slots n s \<or>
       a \<notin> {} \<and> a \<notin> live_slots n s \<and> live_slots n s' = insert a (live_slots n s))"
    by (auto simp: hdr_take_def)
next
  fix s a
  assume "bsf_spec bsf \<and> hdr_ok n s" "a \<in> live_slots n s"
  with hdr_free_spec [of n s a] show "\<exists>s'. hdr_free a s = Inr s' \<and>
      (bsf_spec bsf \<and> hdr_ok n s') \<and> live_slots n s' = live_slots n s - {a}"
    by auto
qed

lemma hdr_init_ok:
  assumes "n < 512"
  shows "hdr_ok n (hdr_init (of_nat n) h)" "live_slots n (hdr_init (of_nat n) h) = {}"
    "unat (freeCount (hdr_init (of_nat n) h)) = n"
proof -
  have b: "hbit (hdr_init (of_nat n) h) x" if "x < n" for x
    using that assms by (simp add: hbit_def hdr_init_def)
  then have "{x. x < n \<and> hbit (hdr_init (of_nat n) h) x} = {..<n}" by auto
  then show "hdr_ok n (hdr_init (of_nat n) h)"
    using assms by (simp add: hdr_ok_def hdr_init_def unat_of_nat)
  show "live_slots n (hdr_init (of_nat n) h) = {}" using b by (auto simp: live_slots_def)
  show "unat (freeCount (hdr_init (of_nat n) h)) = n"
    using assms by (simp add: hdr_init_def unat_of_nat)
qed

section \<open>Well-formed block allocators\<close>

definition page_ok :: "u64 \<Rightarrow> bool" where
  "page_ok p \<longleftrightarrow> 0 < unat p \<and> unat p mod 4096 = 0 \<and> unat p + 4096 \<le> 2 ^ 47"

definition ba_pages :: "block_allocator \<Rightarrow> u64 set" where
  "ba_pages ba = set (m_totallyFreeList ba) \<union> set (m_freeList ba) \<union> set (m_busyList ba)"

definition slots_per_page :: "block_allocator \<Rightarrow> nat" where
  "slots_per_page ba = unat (m_blocksPerPage ba)"

definition free_in :: "(u64 \<Rightarrow> block_hdr) \<Rightarrow> u64 \<Rightarrow> nat" where
  "free_in H p = unat (freeCount (H p))"

text \<open>The three lists by degree of use.\<close>

definition sorted_out :: "nat \<Rightarrow> (u64 \<Rightarrow> nat) \<Rightarrow> block_allocator \<Rightarrow> bool" where
  "sorted_out n fc ba \<longleftrightarrow>
     distinct (m_totallyFreeList ba @ m_freeList ba @ m_busyList ba) \<and>
     (\<forall>p\<in>set (m_totallyFreeList ba). fc p = n) \<and>
     (\<forall>p\<in>set (m_freeList ba). 0 < fc p \<and> fc p < n) \<and>
     (\<forall>p\<in>set (m_busyList ba). fc p = 0)"

definition ba_shape :: "block_allocator \<Rightarrow> bool" where
  "ba_shape ba \<longleftrightarrow> (\<exists>k. 3 \<le> k \<and> k \<le> 10 \<and> m_blockSize ba = 2 ^ k \<and>
     m_pageSize ba = 4096 \<and> slots_per_page ba = 3968 div 2 ^ k)"

definition ba_counts :: "(u64 \<Rightarrow> nat) \<Rightarrow> block_allocator \<Rightarrow> bool" where
  "ba_counts fc ba \<longleftrightarrow>
     m_freeBlocksCount ba = of_nat (\<Sum>p\<in>ba_pages ba. fc p) \<and>
     m_freePagesCount ba = of_nat (length (m_totallyFreeList ba) + length (m_freeList ba)) \<and>
     m_busyPagesCount ba = of_nat (length (m_busyList ba)) \<and>
     m_allocatedBlocksCount ba = of_nat (\<Sum>p\<in>ba_pages ba. slots_per_page ba - fc p)"

definition ba_inv :: "block_allocator \<Rightarrow> (u64 \<Rightarrow> block_hdr) \<Rightarrow> bool" where
  "ba_inv ba H \<longleftrightarrow> ba_shape ba \<and> sorted_out (slots_per_page ba) (free_in H) ba \<and>
     ba_counts (free_in H) ba \<and>
     (\<forall>p\<in>ba_pages ba. page_ok p \<and> hdr_ok (slots_per_page ba) (H p) \<and>
        signature (H p) = block_signature ba)"

definition block_at :: "block_allocator \<Rightarrow> u64 \<Rightarrow> nat \<Rightarrow> u64" where
  "block_at ba p b = p + sizeof_BlockAllocatorHdr + of_nat b * m_blockSize ba"

definition live_blocks :: "block_allocator \<Rightarrow> (u64 \<Rightarrow> block_hdr) \<Rightarrow> u64 set" where
  "live_blocks ba H = {block_at ba p b |p b. p \<in> ba_pages ba \<and> b \<in> live_slots (slots_per_page ba) (H p)}"

lemma ba_pages_finite [simp]: "finite (ba_pages ba)"
  by (simp add: ba_pages_def)

text \<open>There are fewer than \<open>2 ^ 35\<close> pages, so the counters do not wrap.\<close>

lemma page_count_bound:
  assumes "\<And>p. p \<in> A \<Longrightarrow> page_ok p"
  shows "card A \<le> 2 ^ 35"
proof -
  have inj: "inj_on (\<lambda>p. unat p div 4096) A"
  proof (rule inj_onI)
    fix p q assume "p \<in> A" "q \<in> A" and eq: "unat p div 4096 = unat q div 4096"
    then have "unat p mod 4096 = 0" "unat q mod 4096 = 0" using assms by (auto simp: page_ok_def)
    with eq have "unat p = unat q" by (metis div_mult_mod_eq)
    then show "p = q" by (simp add: word_unat_eq_iff)
  qed
  have "(\<lambda>p. unat p div 4096) ` A \<subseteq> {..<2 ^ 35}"
  proof
    fix x assume "x \<in> (\<lambda>p. unat p div 4096) ` A"
    then obtain p where p: "p \<in> A" "x = unat p div 4096" by blast
    from assms [OF p(1)] have "unat p + 4096 \<le> 2 ^ 47" by (simp add: page_ok_def)
    with p(2) show "x \<in> {..<2 ^ 35}" by simp
  qed
  then have "card ((\<lambda>p. unat p div 4096) ` A) \<le> card {..<(2 :: nat) ^ 35}"
    by (intro card_mono) auto
  then show ?thesis using inj by (simp add: card_image)
qed

lemma slot_count_small:
  assumes "ba_shape ba" shows "3 \<le> slots_per_page ba" "slots_per_page ba < 512"
proof -
  from assms obtain k where k: "3 \<le> k" "k \<le> 10" "slots_per_page ba = 3968 div 2 ^ k"
    by (auto simp: ba_shape_def)
  then have "k \<in> {3, 4, 5, 6, 7, 8, 9, 10}" by auto
  with k(3) show "3 \<le> slots_per_page ba" "slots_per_page ba < 512" by auto
qed

lemma free_in_le:
  assumes "ba_inv ba H" "p \<in> ba_pages ba" shows "free_in H p \<le> slots_per_page ba"
  using assms by (auto simp: ba_inv_def sorted_out_def ba_pages_def dest: less_imp_le)

lemma free_blocks_zero_iff:
  assumes "ba_inv ba H"
  shows "m_freeBlocksCount ba = 0 \<longleftrightarrow> m_totallyFreeList ba = [] \<and> m_freeList ba = []"
proof -
  let ?S = "\<Sum>p\<in>ba_pages ba. free_in H p"
  have "?S \<le> card (ba_pages ba) * slots_per_page ba"
    using free_in_le [OF assms] by (intro sum_bounded_above [of _ _ "slots_per_page ba :: nat", simplified]) 
  moreover have "card (ba_pages ba) \<le> 2 ^ 35"
    using assms by (intro page_count_bound) (auto simp: ba_inv_def)
  moreover have sp: "slots_per_page ba < 512" "3 \<le> slots_per_page ba"
    using assms slot_count_small by (auto simp: ba_inv_def)
  ultimately have "?S \<le> 2 ^ 35 * 512"
    by (meson less_imp_le mult_le_mono order_trans)
  moreover have "m_freeBlocksCount ba = of_nat ?S"
    using assms by (simp only: ba_inv_def ba_counts_def)
  ultimately have "m_freeBlocksCount ba = 0 \<longleftrightarrow> ?S = 0"
    by (simp add: word_unat_eq_iff unat_of_nat del: of_nat_sum)
  also have "\<dots> \<longleftrightarrow> (\<forall>p\<in>ba_pages ba. free_in H p = 0)" by simp
  also have "\<dots> \<longleftrightarrow> m_totallyFreeList ba = [] \<and> m_freeList ba = []"
  proof
    assume *: "\<forall>p\<in>ba_pages ba. free_in H p = 0"
    then have "\<not> p \<in> set (m_totallyFreeList ba)" "\<not> p \<in> set (m_freeList ba)" for p
      using assms sp by (auto simp: ba_inv_def sorted_out_def ba_pages_def)
    then show "m_totallyFreeList ba = [] \<and> m_freeList ba = []"
      by (metis ex_in_conv set_empty)
  next
    assume "m_totallyFreeList ba = [] \<and> m_freeList ba = []"
    then show "\<forall>p\<in>ba_pages ba. free_in H p = 0"
      using assms by (auto simp: ba_inv_def sorted_out_def ba_pages_def)
  qed
  finally show ?thesis .
qed

section \<open>Addresses of blocks\<close>

lemma block_offset:
  assumes "ba_shape ba" "b < slots_per_page ba"
  shows "unat (sizeof_BlockAllocatorHdr + of_nat b * m_blockSize ba) = 128 + b * unat (m_blockSize ba)"
    "128 + b * unat (m_blockSize ba) + unat (m_blockSize ba) \<le> 4096" "0 < unat (m_blockSize ba)"
proof -
  from assms obtain k where k: "3 \<le> k" "k \<le> 10" "m_blockSize ba = 2 ^ k" "slots_per_page ba = 3968 div 2 ^ k"
    by (auto simp: ba_shape_def)
  then have "k \<in> {3, 4, 5, 6, 7, 8, 9, 10}" by auto
  then have u: "unat (m_blockSize ba) = 2 ^ k" using k(3) by auto
  have "(b + 1) * 2 ^ k \<le> (3968 div 2 ^ k) * 2 ^ k" using assms(2) k(4) by (intro mult_le_mono1) simp
  also have "\<dots> \<le> 3968" by simp
  finally have le: "b * 2 ^ k + 2 ^ k \<le> 3968" by simp
  then show "128 + b * unat (m_blockSize ba) + unat (m_blockSize ba) \<le> 4096" "0 < unat (m_blockSize ba)"
    using u by simp_all
  have "b < 512" using assms slot_count_small(2) [OF assms(1)] by simp
  then show "unat (sizeof_BlockAllocatorHdr + of_nat b * m_blockSize ba) = 128 + b * unat (m_blockSize ba)"
    using le u by (simp add: sizeof_BlockAllocatorHdr_def unat_word_ariths unat_of_nat)
qed

lemma unat_block_at:
  assumes "ba_shape ba" "b < slots_per_page ba" "page_ok p"
  shows "unat (block_at ba p b) = unat p + 128 + b * unat (m_blockSize ba)"
proof -
  have "block_at ba p b = p + (sizeof_BlockAllocatorHdr + of_nat b * m_blockSize ba)"
    by (simp add: block_at_def add.assoc)
  moreover have "unat p + (128 + b * unat (m_blockSize ba)) < 2 ^ 64"
    using block_offset(2) [OF assms(1,2)] assms(3) by (simp add: page_ok_def)
  ultimately show ?thesis using block_offset(1) [OF assms(1,2)]
    by (simp add: unat_word_ariths)
qed

lemma and_page_offset: "(a :: u64) AND 4095 = of_nat (unat a mod 4096)"
proof -
  have "(4095 :: u64) = mask 12" by (simp add: mask_eq_exp_minus_1)
  then have "a AND 4095 = take_bit 12 a" by (simp add: take_bit_eq_mask)
  then have "unat (a AND 4095) = unat a mod 4096" by (simp add: take_bit_eq_mod unat_mod)
  then show ?thesis by (simp add: word_unat_eq_iff unat_of_nat)
qed

lemma and_not_split: "(a :: u64) = (a AND m) + (a AND NOT m)"
proof -
  have "(a AND m) AND (a AND NOT m) = 0"
    by (auto simp: word64_eq_iff bit_and_iff bit_not_iff)
  then have "(a AND m) + (a AND NOT m) = (a AND m) OR (a AND NOT m)"
    by (rule disjunctive_add_eq_or)
  also have "\<dots> = a" by (auto simp: word64_eq_iff bit_and_iff bit_or_iff bit_not_iff)
  finally show ?thesis ..
qed

lemma page_of_block:
  assumes "ba_shape ba" "b < slots_per_page ba" "page_ok p"
  shows "block_at ba p b AND NOT (m_pageSize ba - 1) = p"
    "unat (((block_at ba p b AND (m_pageSize ba - 1)) - sizeof_BlockAllocatorHdr) div m_blockSize ba) = b"
proof -
  let ?a = "block_at ba p b" and ?o = "128 + b * unat (m_blockSize ba)"
  note o = block_offset [OF assms(1,2)]
  have ps: "m_pageSize ba - 1 = 4095" using assms(1) by (auto simp: ba_shape_def)
  have small: "?o < 4096" using o(2,3) by linarith
  have "4096 dvd unat p" using assms(3) by (simp add: page_ok_def mod_eq_0_iff_dvd)
  then obtain q where "unat p = 4096 * q" by (rule dvdE)
  then have "unat ?a = 4096 * q + ?o" using unat_block_at [OF assms] by linarith
  then have "unat ?a mod 4096 = ?o mod 4096" by (simp only: mod_mult_self4)
  then have "unat ?a mod 4096 = ?o" using small by (simp only: mod_less)
  then have low: "?a AND 4095 = of_nat ?o" by (simp add: and_page_offset)
  have lowu: "unat (?a AND 4095) = ?o" using small by (simp only: low unat_of_nat) simp
  have "?a = (?a AND 4095) + (?a AND NOT 4095)" by (rule and_not_split)
  moreover have "?a = of_nat ?o + p"
    by (simp add: block_at_def sizeof_BlockAllocatorHdr_def)
  ultimately show "?a AND NOT (m_pageSize ba - 1) = p" using ps low by simp
  have "unat ((?a AND 4095) - sizeof_BlockAllocatorHdr) = b * unat (m_blockSize ba)"
    using lowu by (simp add: sizeof_BlockAllocatorHdr_def unat_sub_if')
  then show "unat (((?a AND (m_pageSize ba - 1)) - sizeof_BlockAllocatorHdr) div m_blockSize ba) = b"
    using o(3) ps by (simp add: unat_div)
qed

section \<open>Moving pages between the lists\<close>

text \<open>How taking a block of page \<open>p\<close> and giving one back moves the page.\<close>

lemma remove1_absent: "x \<notin> set xs \<Longrightarrow> remove1 x xs = xs"
  by (rule remove1_idem)

lemma unlink_simps [simp]:
  "m_totallyFreeList (unlink_page p ba) = remove1 p (m_totallyFreeList ba)"
  "m_freeList (unlink_page p ba) = remove1 p (m_freeList ba)"
  "m_busyList (unlink_page p ba) = remove1 p (m_busyList ba)"
  "m_freeBlocksCount (unlink_page p ba) = m_freeBlocksCount ba"
  "m_freePagesCount (unlink_page p ba) = m_freePagesCount ba"
  "m_busyPagesCount (unlink_page p ba) = m_busyPagesCount ba"
  "m_allocatedBlocksCount (unlink_page p ba) = m_allocatedBlocksCount ba"
  "m_blocksPerPage (unlink_page p ba) = m_blocksPerPage ba"
  "m_blockSize (unlink_page p ba) = m_blockSize ba"
  "m_pageSize (unlink_page p ba) = m_pageSize ba"
  "m_magic (unlink_page p ba) = m_magic ba"
  by (simp_all add: unlink_page_def)

lemma sum_at:
  assumes "finite A" "p \<in> A" "\<And>q. q \<in> A \<Longrightarrow> q \<noteq> p \<Longrightarrow> f q = g q"
  shows "(\<Sum>q\<in>A. f q) + g p = (\<Sum>q\<in>A. g q) + (f p :: nat)"
proof -
  have "(\<Sum>q\<in>A. f q) = f p + (\<Sum>q\<in>A - {p}. f q)" "(\<Sum>q\<in>A. g q) = g p + (\<Sum>q\<in>A - {p}. g q)"
    using assms(1,2) by (simp_all add: sum.remove)
  moreover have "(\<Sum>q\<in>A - {p}. f q) = (\<Sum>q\<in>A - {p}. g q)"
    using assms(3) by (intro sum.cong) auto
  ultimately show ?thesis by simp
qed

lemma word_of_shift:
  assumes "a + y = b + (x :: nat)"
  shows "(of_nat a :: u64) = of_nat b + (of_nat x - of_nat y)"
proof -
  from assms have "(of_nat a :: u64) + of_nat y = of_nat b + of_nat x"
    by (metis of_nat_add)
  then have "(of_nat a :: u64) = of_nat b + of_nat x - of_nat y"
    by (simp only: eq_diff_eq)
  then show ?thesis by (simp only: add_diff_eq)
qed

text \<open>Totals after the count of one page changes by one.\<close>

lemma totals_take:
  assumes "finite A" "p \<in> A" "fc p = Suc (fc' p)" "fc p \<le> n" "\<And>q. q \<noteq> p \<Longrightarrow> fc' q = fc q"
  shows "(of_nat (\<Sum>q\<in>A. fc' q) :: u64) = of_nat (\<Sum>q\<in>A. fc q) - 1"
    "(of_nat (\<Sum>q\<in>A. n - fc' q) :: u64) = of_nat (\<Sum>q\<in>A. n - fc q) + 1"
proof -
  have "(\<Sum>q\<in>A. fc' q) + fc p = (\<Sum>q\<in>A. fc q) + fc' p"
    using assms by (intro sum_at) auto
  from word_of_shift [OF this] show "(of_nat (\<Sum>q\<in>A. fc' q) :: u64) = of_nat (\<Sum>q\<in>A. fc q) - 1"
    using assms(3) by (simp del: of_nat_sum)
  have "(\<Sum>q\<in>A. n - fc' q) + (n - fc p) = (\<Sum>q\<in>A. n - fc q) + (n - fc' p)"
    using assms by (intro sum_at) auto
  moreover have "n - fc' p = Suc (n - fc p)" using assms(3,4) by simp
  ultimately have "(\<Sum>q\<in>A. n - fc' q) = (\<Sum>q\<in>A. n - fc q) + 1" by simp
  then show "(of_nat (\<Sum>q\<in>A. n - fc' q) :: u64) = of_nat (\<Sum>q\<in>A. n - fc q) + 1"
    by (metis of_nat_1 of_nat_add)
qed

lemma first_free_page_spec:
  assumes "m_totallyFreeList ba \<noteq> [] \<or> m_freeList ba \<noteq> []"
  obtains p where "first_free_page ba = Inr p" "m_freeList ba \<noteq> [] \<and> p = hd (m_freeList ba) \<or>
    m_freeList ba = [] \<and> m_totallyFreeList ba \<noteq> [] \<and> p = hd (m_totallyFreeList ba)"
  using assms by (cases "m_freeList ba = []") (auto simp: first_free_page_def)

lemma first_free_in_pages:
  assumes "sorted_out n fc ba" "0 < n" "m_freeList ba \<noteq> [] \<and> p = hd (m_freeList ba) \<or>
    m_freeList ba = [] \<and> m_totallyFreeList ba \<noteq> [] \<and> p = hd (m_totallyFreeList ba)"
  shows "p \<in> ba_pages ba" "0 < fc p" "fc p \<le> n"
proof -
  from assms(3) have "p \<in> set (m_freeList ba) \<or> p \<in> set (m_totallyFreeList ba)"
    by (metis hd_in_set)
  with assms(1,2) show "p \<in> ba_pages ba" "0 < fc p" "fc p \<le> n"
    by (auto simp: sorted_out_def ba_pages_def dest: less_imp_le)
qed

lemma relink_alloc_same [simp]:
  "m_blocksPerPage (ba_relink_alloc p h ba) = m_blocksPerPage ba"
  "m_blockSize (ba_relink_alloc p h ba) = m_blockSize ba"
  "m_pageSize (ba_relink_alloc p h ba) = m_pageSize ba"
  "m_magic (ba_relink_alloc p h ba) = m_magic ba"
  "m_freeBlocksCount (ba_relink_alloc p h ba) = m_freeBlocksCount ba - 1"
  "m_allocatedBlocksCount (ba_relink_alloc p h ba) = m_allocatedBlocksCount ba + 1"
  by (simp_all add: ba_relink_alloc_def Let_def)

text \<open>The tests of \<open>alloc\<close> on \<open>freeCount\<close>, as numbers.\<close>

lemma count_tests:
  assumes "unat (bpp :: u64) < 512" "3 \<le> unat bpp" "unat (c :: u32) < 512"
  shows "ucast c = bpp - 1 \<longleftrightarrow> unat c = unat bpp - 1" "ucast c = bpp \<longleftrightarrow> unat c = unat bpp"
    "c = 0 \<longleftrightarrow> unat c = 0" "c = 1 \<longleftrightarrow> unat c = 1"
proof -
  have u: "unat (ucast c :: u64) = unat c" using assms(3) by (simp add: unsigned_ucast_eq take_bit_nat_eq_self)
  have m: "unat (bpp - 1) = unat bpp - 1" using assms(2) by (simp add: unat_sub_if')
  show "ucast c = bpp - 1 \<longleftrightarrow> unat c = unat bpp - 1" "ucast c = bpp \<longleftrightarrow> unat c = unat bpp"
    using u m by (metis word_unat_eq_iff)+
  show "c = 0 \<longleftrightarrow> unat c = 0" "c = 1 \<longleftrightarrow> unat c = 1" by (simp_all add: word_unat_eq_iff)
qed

lemma relink_alloc_cases:
  assumes so: "sorted_out n fc ba" and n: "slots_per_page ba = n" "3 \<le> n" "n < 512"
    and h: "unat (freeCount h) = fc p - 1"
    and p: "m_freeList ba \<noteq> [] \<and> p = hd (m_freeList ba) \<or>
      m_freeList ba = [] \<and> m_totallyFreeList ba \<noteq> [] \<and> p = hd (m_totallyFreeList ba)"
  obtains (fresh) tf where "m_freeList ba = []" "m_totallyFreeList ba = p # tf" "fc p = n"
      "ba_relink_alloc p h ba = ba\<lparr>m_freeBlocksCount := m_freeBlocksCount ba - 1,
         m_totallyFreeList := tf, m_freeList := [p],
         m_allocatedBlocksCount := m_allocatedBlocksCount ba + 1\<rparr>"
    | (stays) fl where "m_freeList ba = p # fl" "1 < fc p" "fc p < n"
      "ba_relink_alloc p h ba = ba\<lparr>m_freeBlocksCount := m_freeBlocksCount ba - 1,
         m_allocatedBlocksCount := m_allocatedBlocksCount ba + 1\<rparr>"
    | (exhausted) fl where "m_freeList ba = p # fl" "fc p = 1"
      "ba_relink_alloc p h ba = ba\<lparr>m_freeBlocksCount := m_freeBlocksCount ba - 1,
         m_freeList := fl, m_busyList := p # m_busyList ba,
         m_freePagesCount := m_freePagesCount ba - 1, m_busyPagesCount := m_busyPagesCount ba + 1,
         m_allocatedBlocksCount := m_allocatedBlocksCount ba + 1\<rparr>"
proof -
  have bpp: "unat (m_blocksPerPage ba) = n" using n(1) by (simp add: slots_per_page_def)
  have "fc p \<le> n" using first_free_in_pages(3) [OF so _ p] n(2) by simp
  then have "unat (freeCount h) < 512" using h n(3) by simp
  note t = count_tests [of "m_blocksPerPage ba" "freeCount h", unfolded bpp, OF n(3,2) this]
  have c: "ucast (freeCount h) = m_blocksPerPage ba - 1 \<longleftrightarrow> fc p - 1 = n - 1"
    "freeCount h = 0 \<longleftrightarrow> fc p - 1 = 0" using t h by simp_all
  from p show thesis
  proof (elim disjE conjE)
    assume fl: "m_freeList ba \<noteq> []" "p = hd (m_freeList ba)"
    then obtain fl' where f: "m_freeList ba = p # fl'" by (cases "m_freeList ba") auto
    with so have fc: "0 < fc p" "fc p < n" and pt: "p \<notin> set (m_totallyFreeList ba)"
      "p \<notin> set (m_busyList ba)" by (auto simp: sorted_out_def)
    have ne: "fc p - 1 \<noteq> n - 1" using fc by linarith
    show thesis
    proof (cases "fc p = 1")
      case True
      have "ba_relink_alloc p h ba = ba\<lparr>m_freeBlocksCount := m_freeBlocksCount ba - 1,
         m_freeList := fl', m_busyList := p # m_busyList ba,
         m_freePagesCount := m_freePagesCount ba - 1, m_busyPagesCount := m_busyPagesCount ba + 1,
         m_allocatedBlocksCount := m_allocatedBlocksCount ba + 1\<rparr>"
        using c ne True f pt by (simp add: ba_relink_alloc_def Let_def unlink_page_def remove1_absent)
      then show thesis by (rule exhausted [OF f True])
    next
      case False
      with fc have gt: "1 < fc p" by simp
      then have "ba_relink_alloc p h ba = ba\<lparr>m_freeBlocksCount := m_freeBlocksCount ba - 1,
         m_allocatedBlocksCount := m_allocatedBlocksCount ba + 1\<rparr>"
        using c ne by (simp add: ba_relink_alloc_def Let_def)
      then show thesis by (rule stays [OF f gt fc(2)])
    qed
  next
    assume tf: "m_freeList ba = []" "m_totallyFreeList ba \<noteq> []" "p = hd (m_totallyFreeList ba)"
    then obtain tf' where f: "m_totallyFreeList ba = p # tf'" by (cases "m_totallyFreeList ba") auto
    with so have fc: "fc p = n" and pt: "p \<notin> set (m_busyList ba)" by (auto simp: sorted_out_def)
    have "ba_relink_alloc p h ba = ba\<lparr>m_freeBlocksCount := m_freeBlocksCount ba - 1,
         m_totallyFreeList := tf', m_freeList := [p],
         m_allocatedBlocksCount := m_allocatedBlocksCount ba + 1\<rparr>"
      using c fc n(2) f tf(1) pt by (simp add: ba_relink_alloc_def Let_def unlink_page_def remove1_absent)
    then show thesis by (rule fresh [OF tf(1) f fc])
  qed
qed

lemma relink_alloc_keeps:
  assumes so: "sorted_out n fc ba" and n: "slots_per_page ba = n" "3 \<le> n" "n < 512"
    and h: "unat (freeCount h) = fc p - 1"
    and p: "m_freeList ba \<noteq> [] \<and> p = hd (m_freeList ba) \<or>
      m_freeList ba = [] \<and> m_totallyFreeList ba \<noteq> [] \<and> p = hd (m_totallyFreeList ba)"
    and fc': "fc' p = fc p - 1" "\<And>q. q \<noteq> p \<Longrightarrow> fc' q = fc q"
    and counts: "ba_counts fc ba"
  shows "sorted_out n fc' (ba_relink_alloc p h ba)" "ba_counts fc' (ba_relink_alloc p h ba)"
    "ba_pages (ba_relink_alloc p h ba) = ba_pages ba"
proof -
  let ?ba = "ba_relink_alloc p h ba"
  have all: "sorted_out n fc' ?ba \<and> ba_pages ?ba = ba_pages ba \<and>
      m_freePagesCount ?ba = of_nat (length (m_totallyFreeList ?ba) + length (m_freeList ?ba)) \<and>
      m_busyPagesCount ?ba = of_nat (length (m_busyList ?ba))"
    using so n h p
  proof (cases rule: relink_alloc_cases)
    case (fresh tf)
    have "fc' q = fc q" if "q \<in> set tf \<union> set (m_busyList ba)" for q
      by (rule fc'(2)) (use that so fresh(2) in \<open>auto simp: sorted_out_def\<close>)
    with fresh fc' so n(2) counts show ?thesis
      by (auto simp: sorted_out_def ba_pages_def ba_counts_def)
  next
    case (stays fl)
    have "fc' q = fc q" if "q \<in> set (m_totallyFreeList ba) \<union> set fl \<union> set (m_busyList ba)" for q
      by (rule fc'(2)) (use that so stays(1) in \<open>auto simp: sorted_out_def\<close>)
    with stays fc' so n(2) counts show ?thesis
      by (auto simp: sorted_out_def ba_pages_def ba_counts_def)
  next
    case (exhausted fl)
    have "fc' q = fc q" if "q \<in> set (m_totallyFreeList ba) \<union> set fl \<union> set (m_busyList ba)" for q
      by (rule fc'(2)) (use that so exhausted(1) in \<open>auto simp: sorted_out_def\<close>)
    with exhausted fc' so n(2) counts show ?thesis
      by (auto simp: sorted_out_def ba_pages_def ba_counts_def)
  qed
  then show "sorted_out n fc' ?ba" and pg: "ba_pages ?ba = ba_pages ba" by simp_all
  have pin: "p \<in> ba_pages ba" and le: "0 < fc p" "fc p \<le> n"
    using first_free_in_pages [OF so _ p] n(2) by simp_all
  have spp: "slots_per_page ?ba = n" using n(1) by (simp add: slots_per_page_def)
  have "fc p = Suc (fc' p)" using le fc'(1) by simp
  from totals_take [where fc = fc and fc' = fc', OF ba_pages_finite pin this le(2) fc'(2)] counts all
  show "ba_counts fc' ?ba"
    by (simp add: ba_counts_def pg n(1) spp del: of_nat_sum)
qed

section \<open>Allocation and release of a block\<close>

lemma block_at_cong:
  "m_blockSize ba' = m_blockSize ba \<Longrightarrow> block_at ba' = block_at ba"
  by (intro ext) (simp add: block_at_def)

text \<open>The live blocks after the header of one page changes.\<close>

lemma block_at_inj:
  assumes "ba_shape ba" "page_ok p" "page_ok q" "b < slots_per_page ba" "c < slots_per_page ba"
    and eq: "block_at ba p b = block_at ba q c"
  shows "p = q \<and> b = c"
proof -
  have "p = q" using page_of_block(1) [OF assms(1,4,2)] page_of_block(1) [OF assms(1,5,3)] eq by simp
  moreover have "b = c"
    using page_of_block(2) [OF assms(1,4,2)] page_of_block(2) [OF assms(1,5,3)] eq by simp
  ultimately show ?thesis ..
qed

lemma live_blocks_update:
  assumes shape: "ba_shape ba" "ba_shape ba'" "m_blockSize ba' = m_blockSize ba"
      "slots_per_page ba' = slots_per_page ba" "ba_pages ba' = ba_pages ba"
    and pages: "\<And>q. q \<in> ba_pages ba \<Longrightarrow> page_ok q" "p \<in> ba_pages ba"
    and b: "b < slots_per_page ba"
    and H: "\<And>q. q \<noteq> p \<Longrightarrow> H' q = H q"
  shows "live_slots (slots_per_page ba) (H' p) = insert b (live_slots (slots_per_page ba) (H p)) \<Longrightarrow>
      live_blocks ba' H' = insert (block_at ba p b) (live_blocks ba H)"
    "b \<notin> live_slots (slots_per_page ba) (H p) \<Longrightarrow> block_at ba p b \<notin> live_blocks ba H"
    "live_slots (slots_per_page ba) (H' p) = live_slots (slots_per_page ba) (H p) - {b} \<Longrightarrow>
      live_blocks ba' H' = live_blocks ba H - {block_at ba p b}"
proof -
  let ?n = "slots_per_page ba"
  have lt: "c < ?n" if "c \<in> live_slots ?n h" for c h using that by (simp add: live_slots_def)
  have split: "live_blocks ba' G = block_at ba p ` live_slots ?n (G p) \<union>
      {block_at ba q c |q c. q \<in> ba_pages ba \<and> q \<noteq> p \<and> c \<in> live_slots ?n (G q)}"
    "live_blocks ba G = block_at ba p ` live_slots ?n (G p) \<union>
      {block_at ba q c |q c. q \<in> ba_pages ba \<and> q \<noteq> p \<and> c \<in> live_slots ?n (G q)}" for G
    using pages(2) by (auto simp: live_blocks_def shape block_at_cong [OF shape(3)])
  have other: "{block_at ba q c |q c. q \<in> ba_pages ba \<and> q \<noteq> p \<and> c \<in> live_slots ?n (H' q)} =
      {block_at ba q c |q c. q \<in> ba_pages ba \<and> q \<noteq> p \<and> c \<in> live_slots ?n (H q)}"
    using H by fastforce
  have sep: "block_at ba p b \<noteq> block_at ba q c" if "q \<in> ba_pages ba" "q \<noteq> p" "c \<in> live_slots ?n (H q)" for q c
    using block_at_inj [OF shape(1) pages(1) [OF pages(2)] pages(1) [OF that(1)] b lt [OF that(3)]] that(2) by blast
  have own: "block_at ba p b \<in> block_at ba p ` live_slots ?n (H p) \<longleftrightarrow> b \<in> live_slots ?n (H p)"
    using block_at_inj [OF shape(1) pages(1) [OF pages(2)] pages(1) [OF pages(2)] b] lt by blast
  have diff: "block_at ba p ` (live_slots ?n (H p) - {b}) = block_at ba p ` live_slots ?n (H p) - {block_at ba p b}"
    using block_at_inj [OF shape(1) pages(1) [OF pages(2)] pages(1) [OF pages(2)] b] lt by blast
  show "live_slots ?n (H' p) = insert b (live_slots ?n (H p)) \<Longrightarrow>
      live_blocks ba' H' = insert (block_at ba p b) (live_blocks ba H)"
    unfolding split other by simp
  show "b \<notin> live_slots ?n (H p) \<Longrightarrow> block_at ba p b \<notin> live_blocks ba H"
    unfolding split using own sep by blast
  assume slots: "live_slots ?n (H' p) = live_slots ?n (H p) - {b}"
  show "live_blocks ba' H' = live_blocks ba H - {block_at ba p b}"
    unfolding split other slots diff using sep by blast
qed

lemma shape_cong:
  "m_blockSize ba' = m_blockSize ba \<Longrightarrow> m_pageSize ba' = m_pageSize ba \<Longrightarrow>
   m_blocksPerPage ba' = m_blocksPerPage ba \<Longrightarrow> ba_shape ba' = ba_shape ba"
  by (simp add: ba_shape_def slots_per_page_def)

lemma page_ok_aligned:
  assumes "page_ok p" shows "p AND 4095 = 0"
  using assms by (simp add: and_page_offset page_ok_def)

text \<open>The frame: which configuration fields stay, and which headers an operation touches.\<close>

definition same_config :: "block_allocator \<Rightarrow> block_allocator \<Rightarrow> bool" where
  "same_config ba ba' \<longleftrightarrow> m_blockSize ba' = m_blockSize ba \<and> m_pageSize ba' = m_pageSize ba \<and>
     m_blocksPerPage ba' = m_blocksPerPage ba \<and> m_magic ba' = m_magic ba"

lemma ba_take_spec:
  assumes bsf: "bsf_spec bsf" and inv: "ba_inv ba (hdrs mem)"
    and some: "m_totallyFreeList ba \<noteq> [] \<or> m_freeList ba \<noteq> []"
  shows "\<exists>a ba' p h f. ba_take bsf (ba, mem) = Inr (a, ba', mem\<lparr>hdrs := (hdrs mem)(p := h), block_fill := f\<rparr>) \<and>
    p \<in> ba_pages ba \<and> ba_pages ba' = ba_pages ba \<and> same_config ba ba' \<and>
    ba_inv ba' ((hdrs mem)(p := h)) \<and> a \<notin> live_blocks ba (hdrs mem) \<and> a \<noteq> 0 \<and>
    live_blocks ba' ((hdrs mem)(p := h)) = insert a (live_blocks ba (hdrs mem))"
proof -
  let ?n = "slots_per_page ba" and ?H = "hdrs mem"
  from inv have shape: "ba_shape ba" and so: "sorted_out ?n (free_in ?H) ba"
    and counts: "ba_counts (free_in ?H) ba"
    and pg: "\<And>p. p \<in> ba_pages ba \<Longrightarrow> page_ok p \<and> hdr_ok ?n (?H p) \<and> signature (?H p) = block_signature ba"
    by (auto simp: ba_inv_def)
  note n = slot_count_small [OF shape]
  obtain p where p: "first_free_page ba = Inr p" "m_freeList ba \<noteq> [] \<and> p = hd (m_freeList ba) \<or>
    m_freeList ba = [] \<and> m_totallyFreeList ba \<noteq> [] \<and> p = hd (m_totallyFreeList ba)"
    using first_free_page_spec [OF some] .
  have pin: "p \<in> ba_pages ba" "0 < free_in ?H p"
    using first_free_in_pages [OF so _ p(2)] n(1) by simp_all
  from hdr_take_spec [OF bsf, of ?n "?H p"] pg [OF pin(1)] pin(2) obtain b h where
    b: "findFree bsf ?n (?H p) = Inr b" "hdr_alloc b (?H p) = Inr h" "b < ?n"
      "b \<notin> live_slots ?n (?H p)" and
    h: "hdr_ok ?n h" "signature h = signature (?H p)"
      "live_slots ?n h = insert b (live_slots ?n (?H p))" "unat (freeCount h) = free_in ?H p - 1"
    by (auto simp: free_in_def word_less_nat_alt)
  let ?ba = "ba_relink_alloc p h ba" and ?H' = "?H(p := h)" and ?a = "block_at ba p b"
  have fin: "free_in ?H' p = free_in ?H p - 1" "\<And>q. q \<noteq> p \<Longrightarrow> free_in ?H' q = free_in ?H q"
    using h(4) by (simp_all add: free_in_def)
  note keep = relink_alloc_keeps [OF so refl n h(4) p(2) fin counts]
  have spp: "slots_per_page ?ba = ?n" by (simp add: slots_per_page_def)
  have shape': "ba_shape ?ba" using shape by (subst shape_cong [of _ ba]) simp_all
  have inv': "ba_inv ?ba ?H'"
    using keep shape' pg h by (simp add: ba_inv_def spp block_signature_def)
  have bs: "m_blockSize ?ba = m_blockSize ba" by simp
  note live = live_blocks_update [OF shape shape' bs spp keep(3) _ pin(1) b(3), of ?H' ?H]
  have "live_blocks ?ba ?H' = insert ?a (live_blocks ba ?H)" "?a \<notin> live_blocks ba ?H"
    using live(1,2) pg h(3) b(4) by auto
  moreover have "unat ?a \<noteq> 0" using unat_block_at [OF shape b(3)] pg [OF pin(1)] by (simp add: page_ok_def)
  then have "?a \<noteq> 0" by (simp add: word_unat_eq_iff)
  moreover have "ba_take bsf (ba, mem) =
      Inr (?a, ?ba, mem\<lparr>hdrs := ?H', block_fill := (block_fill mem)(?a := 0xEB)\<rparr>)"
    using p(1) b pg [OF pin(1)] shape
    by (auto simp: ba_take_def slots_per_page_def block_at_def ba_shape_def page_ok_aligned Let_def)
  ultimately show ?thesis using pin(1) keep(3) inv' by (intro exI [of _ ?a] exI [of _ ?ba] exI [of _ p] exI [of _ h]
      exI [of _ "(block_fill mem)(?a := 0xEB)"]) (simp add: same_config_def)
qed

text \<open>A fresh page joins the totally free list.\<close>

definition mem_inv :: "slab_memory \<Rightarrow> bool" where
  "mem_inv mem \<longleftrightarrow> page_inv (m_pa mem) \<and> spaced (m_pa mem)"

lemma live_page_ok:
  assumes "page_inv s" "p \<in> live_pages s"
  shows "page_ok p"
proof -
  obtain r i where r: "p = page_at r i" "region_ok r" "i < 64"
    using assms by (auto simp: live_pages_def page_inv_def)
  then have "unat p = unat r + i * 4096" by (simp add: unat_page_at)
  with r(2,3) show ?thesis by (auto simp: page_ok_def region_ok_def)
qed

lemma ba_expand_spec:
  assumes bsf: "bsf_spec bsf" and mem: "mem_inv mem" "fresh_mapping mapped (m_pa mem)"
    and inv: "ba_inv ba (hdrs mem)" and sub: "ba_pages ba \<subseteq> live_pages (m_pa mem)"
  shows "(\<exists>pa. ba_expand bsf mapped (ba, mem) = Inr (0, ba, mem\<lparr>m_pa := pa\<rparr>) \<and>
      mem_inv (mem\<lparr>m_pa := pa\<rparr>) \<and> live_pages pa = live_pages (m_pa mem)) \<or>
    (\<exists>p pa ba' h. ba_expand bsf mapped (ba, mem) =
        Inr (p, ba', mem\<lparr>m_pa := pa, hdrs := (hdrs mem)(p := h)\<rparr>) \<and> p \<noteq> 0 \<and>
      mem_inv (mem\<lparr>m_pa := pa\<rparr>) \<and> p \<notin> live_pages (m_pa mem) \<and>
      live_pages pa = insert p (live_pages (m_pa mem)) \<and>
      same_config ba ba' \<and> ba_inv ba' ((hdrs mem)(p := h)) \<and> ba_pages ba' = insert p (ba_pages ba) \<and>
      m_totallyFreeList ba' \<noteq> [] \<and>
      live_blocks ba' ((hdrs mem)(p := h)) = live_blocks ba (hdrs mem))"
proof -
  let ?n = "slots_per_page ba" and ?H = "hdrs mem"
  from pages.alloc_ok [of bsf id "m_pa mem" mapped] assms obtain p pa where
    p: "allocPage bsf mapped (m_pa mem) = Inr (p, pa)" "page_inv pa" "spaced pa"
      "p = 0 \<and> live_pages pa = live_pages (m_pa mem) \<or>
       p \<noteq> 0 \<and> p \<notin> live_pages (m_pa mem) \<and> live_pages pa = insert p (live_pages (m_pa mem))"
    by (auto simp: mem_inv_def)
  have mi: "mem_inv (mem\<lparr>m_pa := pa\<rparr>)" using p by (simp add: mem_inv_def)
  show ?thesis
  proof (cases "p = 0")
    case True
    with p mi show ?thesis by (auto simp: ba_expand_def Let_def)
  next
    case False
    with p(4) have new: "p \<notin> live_pages (m_pa mem)" "live_pages pa = insert p (live_pages (m_pa mem))"
      by auto
    have pok: "page_ok p" using live_page_ok [OF p(2)] new(2) by simp
    from inv have shape: "ba_shape ba" and so: "sorted_out ?n (free_in ?H) ba"
      and counts: "ba_counts (free_in ?H) ba"
      and pg: "\<And>p. p \<in> ba_pages ba \<Longrightarrow> page_ok p \<and> hdr_ok ?n (?H p) \<and> signature (?H p) = block_signature ba"
      by (auto simp: ba_inv_def)
    note n = slot_count_small [OF shape]
    have pn: "p \<notin> ba_pages ba" using new(1) sub by blast
    let ?h = "(hdr_init (of_nat ?n) (?H p))\<lparr>signature := block_signature ba\<rparr>"
    let ?ba = "ba\<lparr>m_totallyFreeList := m_totallyFreeList ba @ [p],
                 m_freePagesCount := m_freePagesCount ba + 1,
                 m_freeBlocksCount := m_freeBlocksCount ba + m_blocksPerPage ba\<rparr>"
    have cast: "ucast (m_blocksPerPage ba) = (of_nat ?n :: u32)" by (simp add: slots_per_page_def)
    have run: "ba_expand bsf mapped (ba, mem) =
        Inr (p, ?ba, mem\<lparr>m_pa := pa, hdrs := ?H(p := ?h)\<rparr>)"
      using p(1) False by (simp add: ba_expand_def Let_def cast)
    have hdr: "hdr_ok ?n ?h" "live_slots ?n ?h = {}" "unat (freeCount ?h) = ?n"
      using hdr_init_ok [OF n(2), of "?H p"]
      by (simp_all add: hdr_ok_def live_slots_def hbit_def)
    have pgs: "ba_pages ?ba = insert p (ba_pages ba)" by (auto simp: ba_pages_def)
    have spp: "slots_per_page ?ba = ?n" by (simp add: slots_per_page_def)
    have fin: "free_in (?H(p := ?h)) p = ?n" "\<And>q. q \<in> ba_pages ba \<Longrightarrow> free_in (?H(p := ?h)) q = free_in ?H q"
      using hdr(3) pn by (auto simp: free_in_def)
    have so': "sorted_out ?n (free_in (?H(p := ?h))) ?ba"
      using so pn fin by (auto simp: sorted_out_def ba_pages_def)
    have sum: "(\<Sum>q\<in>ba_pages ba. free_in (?H(p := ?h)) q) = (\<Sum>q\<in>ba_pages ba. free_in ?H q)"
      "(\<Sum>q\<in>ba_pages ba. ?n - free_in (?H(p := ?h)) q) = (\<Sum>q\<in>ba_pages ba. ?n - free_in ?H q)"
      using fin(2) by (auto intro: sum.cong)
    have counts': "ba_counts (free_in (?H(p := ?h))) ?ba"
      using counts pn fin(1) unfolding ba_counts_def pgs spp
      by (simp add: sum del: of_nat_sum) (simp add: slots_per_page_def)
    have shape': "ba_shape ?ba" using shape by (subst shape_cong [of _ ba]) simp_all
    have inv': "ba_inv ?ba (?H(p := ?h))"
      unfolding ba_inv_def spp pgs using shape' so' counts' pok hdr pg pn by (auto simp: block_signature_def)
    have "live_blocks ?ba (?H(p := ?h)) = live_blocks ba ?H"
      unfolding live_blocks_def pgs spp using hdr(2) pn
      by (auto simp: block_at_def)
    with run False mi new inv' pgs show ?thesis
      by (intro disjI2 exI [of _ p] exI [of _ pa] exI [of _ ?ba] exI [of _ ?h]) (simp add: same_config_def)
  qed
qed

section \<open>Release\<close>

definition ba_relink_free :: "u64 \<Rightarrow> block_hdr \<Rightarrow> block_allocator \<Rightarrow> block_allocator" where
  "ba_relink_free page h ba =
     (let ba1 = ba\<lparr>m_freeBlocksCount := m_freeBlocksCount ba + 1,
                   m_allocatedBlocksCount := m_allocatedBlocksCount ba - 1\<rparr>;
          ba2 = (if freeCount h = 1
                 then (unlink_page page ba1)\<lparr>m_freeList := page # m_freeList (unlink_page page ba1),
                        m_freePagesCount := m_freePagesCount ba1 + 1,
                        m_busyPagesCount := m_busyPagesCount ba1 - 1\<rparr>
                 else ba1)
      in if ucast (freeCount h) = m_blocksPerPage ba
         then (unlink_page page ba2)\<lparr>m_totallyFreeList :=
                page # m_totallyFreeList (unlink_page page ba2)\<rparr>
         else ba2)"

lemma ba_free_relink:
  "ba_free b (ba, mem) =
     (let page = b AND NOT (m_pageSize ba - 1);
          index = unat (((b AND (m_pageSize ba - 1)) - sizeof_BlockAllocatorHdr) div m_blockSize ba)
      in rbind (assert_that (signature (hdrs mem page) = block_signature ba)) (\<lambda>_.
         rbind (hdr_free index (hdrs mem page)) (\<lambda>h.
           Inr (ba_relink_free page h ba, mem\<lparr>hdrs := (hdrs mem)(page := h),
             block_fill := (block_fill mem)(b := 0xDB)\<rparr>))))"
  by (simp add: ba_free_def ba_relink_free_def Let_def)

lemma relink_free_same [simp]:
  "m_blocksPerPage (ba_relink_free p h ba) = m_blocksPerPage ba"
  "m_blockSize (ba_relink_free p h ba) = m_blockSize ba"
  "m_pageSize (ba_relink_free p h ba) = m_pageSize ba"
  "m_magic (ba_relink_free p h ba) = m_magic ba"
  "m_freeBlocksCount (ba_relink_free p h ba) = m_freeBlocksCount ba + 1"
  "m_allocatedBlocksCount (ba_relink_free p h ba) = m_allocatedBlocksCount ba - 1"
  by (simp_all add: ba_relink_free_def Let_def)

lemma length_remove1_nat: "x \<in> set xs \<Longrightarrow> length xs = Suc (length (remove1 x xs))"
  by (induction xs) auto

lemma relink_free_cases:
  assumes so: "sorted_out n fc ba" and n: "slots_per_page ba = n" "3 \<le> n" "n < 512"
    and h: "unat (freeCount h) = fc p + 1" "fc p < n" and p: "p \<in> ba_pages ba"
  obtains (busy) "p \<in> set (m_busyList ba)" "fc p = 0"
      "ba_relink_free p h ba = ba\<lparr>m_freeBlocksCount := m_freeBlocksCount ba + 1,
         m_allocatedBlocksCount := m_allocatedBlocksCount ba - 1,
         m_freeList := p # m_freeList ba, m_busyList := remove1 p (m_busyList ba),
         m_freePagesCount := m_freePagesCount ba + 1, m_busyPagesCount := m_busyPagesCount ba - 1\<rparr>"
    | (stays) "p \<in> set (m_freeList ba)" "0 < fc p" "fc p + 1 < n"
      "ba_relink_free p h ba = ba\<lparr>m_freeBlocksCount := m_freeBlocksCount ba + 1,
         m_allocatedBlocksCount := m_allocatedBlocksCount ba - 1\<rparr>"
    | (emptied) "p \<in> set (m_freeList ba)" "0 < fc p" "fc p + 1 = n"
      "ba_relink_free p h ba = ba\<lparr>m_freeBlocksCount := m_freeBlocksCount ba + 1,
         m_allocatedBlocksCount := m_allocatedBlocksCount ba - 1,
         m_totallyFreeList := p # m_totallyFreeList ba, m_freeList := remove1 p (m_freeList ba)\<rparr>"
proof -
  have bpp: "unat (m_blocksPerPage ba) = n" using n(1) by (simp add: slots_per_page_def)
  have "unat (freeCount h) < 512" using h n(3) by simp
  note t = count_tests [of "m_blocksPerPage ba" "freeCount h", unfolded bpp, OF n(3,2) this]
  have c: "ucast (freeCount h) = m_blocksPerPage ba \<longleftrightarrow> fc p + 1 = n" "freeCount h = 1 \<longleftrightarrow> fc p = 0"
    using t(2,4) h(1) by simp_all
  from p so h(2) consider "p \<in> set (m_busyList ba)" | "p \<in> set (m_freeList ba)"
    by (auto simp: ba_pages_def sorted_out_def)
  then show thesis
  proof cases
    case 1
    with so have f: "fc p = 0" "p \<notin> set (m_freeList ba)" "p \<notin> set (m_totallyFreeList ba)"
      by (auto simp: sorted_out_def)
    have "ba_relink_free p h ba = ba\<lparr>m_freeBlocksCount := m_freeBlocksCount ba + 1,
         m_allocatedBlocksCount := m_allocatedBlocksCount ba - 1,
         m_freeList := p # m_freeList ba, m_busyList := remove1 p (m_busyList ba),
         m_freePagesCount := m_freePagesCount ba + 1, m_busyPagesCount := m_busyPagesCount ba - 1\<rparr>"
      using c f n(2) by (simp add: ba_relink_free_def Let_def unlink_page_def remove1_absent)
    then show thesis by (rule busy [OF 1 f(1)])
  next
    case 2
    with so have f: "0 < fc p" "p \<notin> set (m_busyList ba)" "p \<notin> set (m_totallyFreeList ba)"
      by (auto simp: sorted_out_def)
    show thesis
    proof (cases "fc p + 1 = n")
      case True
      have "ba_relink_free p h ba = ba\<lparr>m_freeBlocksCount := m_freeBlocksCount ba + 1,
         m_allocatedBlocksCount := m_allocatedBlocksCount ba - 1,
         m_totallyFreeList := p # m_totallyFreeList ba, m_freeList := remove1 p (m_freeList ba)\<rparr>"
        using c f True by (simp add: ba_relink_free_def Let_def unlink_page_def remove1_absent)
      then show thesis by (rule emptied [OF 2 f(1) True])
    next
      case False
      have "ba_relink_free p h ba = ba\<lparr>m_freeBlocksCount := m_freeBlocksCount ba + 1,
         m_allocatedBlocksCount := m_allocatedBlocksCount ba - 1\<rparr>"
        using c f False by (simp add: ba_relink_free_def Let_def)
      then show thesis using stays [OF 2 f(1)] False h(2) by simp
    qed
  qed
qed

lemma relink_free_keeps:
  assumes so: "sorted_out n fc ba" and n: "slots_per_page ba = n" "3 \<le> n" "n < 512"
    and h: "unat (freeCount h) = fc p + 1" "fc p < n" and p: "p \<in> ba_pages ba"
    and fc': "fc' p = fc p + 1" "\<And>q. q \<noteq> p \<Longrightarrow> fc q = fc' q"
    and counts: "ba_counts fc ba"
  shows "sorted_out n fc' (ba_relink_free p h ba)" "ba_counts fc' (ba_relink_free p h ba)"
    "ba_pages (ba_relink_free p h ba) = ba_pages ba"
proof -
  let ?ba = "ba_relink_free p h ba"
  have d: "distinct (m_totallyFreeList ba @ m_freeList ba @ m_busyList ba)"
    using so by (simp add: sorted_out_def)
  have all: "sorted_out n fc' ?ba \<and> ba_pages ?ba = ba_pages ba \<and>
      m_freePagesCount ?ba = of_nat (length (m_totallyFreeList ?ba) + length (m_freeList ?ba)) \<and>
      m_busyPagesCount ?ba = of_nat (length (m_busyList ?ba))"
    using so n h p
  proof (cases rule: relink_free_cases)
    case busy
    have "fc' q = fc q" if "q \<in> set (m_totallyFreeList ba) \<union> set (m_freeList ba) \<union> (set (m_busyList ba) - {p})" for q
      by (rule fc'(2) [symmetric]) (use that d busy(1) in auto)
    then have "\<forall>q\<in>set (m_totallyFreeList ba). fc' q = n" "\<forall>q\<in>set (m_freeList ba). 0 < fc' q \<and> fc' q < n"
      "\<forall>q\<in>set (m_busyList ba) - {p}. fc' q = 0"
      using so by (auto simp: sorted_out_def)
    moreover have "fc' p = 1" using fc'(1) busy(2) by simp
    ultimately show ?thesis
      unfolding busy(3) using d n(2) busy(1) counts length_remove1_nat [OF busy(1)]
      by (auto simp: sorted_out_def ba_pages_def ba_counts_def)
  next
    case stays
    have "fc' q = fc q" if "q \<in> set (m_totallyFreeList ba) \<union> (set (m_freeList ba) - {p}) \<union> set (m_busyList ba)" for q
      by (rule fc'(2) [symmetric]) (use that d stays(1) in auto)
    then have "\<forall>q\<in>set (m_totallyFreeList ba). fc' q = n" "\<forall>q\<in>set (m_busyList ba). fc' q = 0"
      using so by (auto simp: sorted_out_def)
    moreover have "\<forall>q\<in>set (m_freeList ba). 0 < fc' q \<and> fc' q < n"
    proof
      fix q assume q: "q \<in> set (m_freeList ba)"
      with so have "0 < fc q \<and> fc q < n" by (simp add: sorted_out_def)
      then show "0 < fc' q \<and> fc' q < n" using fc'(1) fc'(2) [of q] stays(3) by (cases "q = p") auto
    qed
    moreover have "m_freePagesCount ba = of_nat (length (m_totallyFreeList ba) + length (m_freeList ba))"
      "m_busyPagesCount ba = of_nat (length (m_busyList ba))"
      using counts by (simp_all add: ba_counts_def)
    ultimately show ?thesis unfolding stays(4) using d by (simp add: sorted_out_def ba_pages_def)
  next
    case emptied
    have "fc' q = fc q" if "q \<in> set (m_totallyFreeList ba) \<union> (set (m_freeList ba) - {p}) \<union> set (m_busyList ba)" for q
      by (rule fc'(2) [symmetric]) (use that d emptied(1) in auto)
    then have "\<forall>q\<in>set (m_totallyFreeList ba). fc' q = n" "\<forall>q\<in>set (m_busyList ba). fc' q = 0"
      "\<forall>q\<in>set (m_freeList ba) - {p}. 0 < fc' q \<and> fc' q < n"
      using so by (auto simp: sorted_out_def)
    moreover have "fc' p = n" using fc'(1) emptied(3) by simp
    ultimately show ?thesis
      unfolding emptied(4) using d n(2) emptied(1) counts length_remove1_nat [OF emptied(1)]
      by (auto simp: sorted_out_def ba_pages_def ba_counts_def)
  qed
  then show "sorted_out n fc' ?ba" and pg: "ba_pages ?ba = ba_pages ba" by simp_all
  have spp: "slots_per_page ?ba = n" using n(1) by (simp add: slots_per_page_def)
  have "fc' p = Suc (fc p)" "fc' p \<le> n" using h(2) fc'(1) by simp_all
  from totals_take [where fc = fc' and fc' = fc, OF ba_pages_finite p this fc'(2)] counts all
  show "ba_counts fc' ?ba"
    by (simp add: ba_counts_def pg n(1) spp del: of_nat_sum)
qed

lemma ba_free_spec:
  assumes inv: "ba_inv ba (hdrs mem)" and a: "a \<in> live_blocks ba (hdrs mem)"
  shows "\<exists>ba' p h f. ba_free a (ba, mem) = Inr (ba', mem\<lparr>hdrs := (hdrs mem)(p := h), block_fill := f\<rparr>) \<and>
    p \<in> ba_pages ba \<and> ba_pages ba' = ba_pages ba \<and> same_config ba ba' \<and>
    ba_inv ba' ((hdrs mem)(p := h)) \<and>
    live_blocks ba' ((hdrs mem)(p := h)) = live_blocks ba (hdrs mem) - {a}"
proof -
  let ?n = "slots_per_page ba" and ?H = "hdrs mem"
  from inv have shape: "ba_shape ba" and so: "sorted_out ?n (free_in ?H) ba"
    and counts: "ba_counts (free_in ?H) ba"
    and pg: "\<And>p. p \<in> ba_pages ba \<Longrightarrow> page_ok p \<and> hdr_ok ?n (?H p) \<and> signature (?H p) = block_signature ba"
    by (auto simp: ba_inv_def)
  note n = slot_count_small [OF shape]
  from a obtain p b where p: "p \<in> ba_pages ba" "b \<in> live_slots ?n (?H p)" "a = block_at ba p b"
    by (auto simp: live_blocks_def)
  then have b: "b < ?n" by (simp add: live_slots_def)
  from hdr_free_spec [of ?n "?H p" b] pg [OF p(1)] p(2) obtain h where
    h: "hdr_free b (?H p) = Inr h" "hdr_ok ?n h" "signature h = signature (?H p)"
      "live_slots ?n h = live_slots ?n (?H p) - {b}" "unat (freeCount h) = free_in ?H p + 1"
      "free_in ?H p < ?n"
    by (auto simp: free_in_def)
  let ?ba = "ba_relink_free p h ba" and ?H' = "?H(p := h)"
  have fin: "free_in ?H' p = free_in ?H p + 1" "\<And>q. q \<noteq> p \<Longrightarrow> free_in ?H q = free_in ?H' q"
    using h(5) by (simp_all add: free_in_def)
  note keep = relink_free_keeps [OF so refl n h(5,6) p(1) fin counts]
  have spp: "slots_per_page ?ba = ?n" by (simp add: slots_per_page_def)
  have shape': "ba_shape ?ba" using shape by (subst shape_cong [of _ ba]) simp_all
  have inv': "ba_inv ?ba ?H'"
    using keep shape' pg h by (simp add: ba_inv_def spp block_signature_def)
  have bs: "m_blockSize ?ba = m_blockSize ba" by simp
  note live = live_blocks_update [OF shape shape' bs spp keep(3) _ p(1) b, of ?H' ?H]
  have "live_blocks ?ba ?H' = live_blocks ba ?H - {a}"
    using live(3) pg h(4) p(3) by auto
  moreover have "ba_free a (ba, mem) = Inr (?ba, mem\<lparr>hdrs := ?H', block_fill := (block_fill mem)(a := 0xDB)\<rparr>)"
    using h(1) pg [OF p(1)] page_of_block [OF shape b, of p] p(3)
    by (simp add: ba_free_relink Let_def)
  ultimately show ?thesis using p(1) keep(3) inv'
    by (intro exI [of _ ?ba] exI [of _ p] exI [of _ h] exI [of _ "(block_fill mem)(a := 0xDB)"])
      (simp add: same_config_def)
qed

section \<open>The contract\<close>

definition slab_inv :: "block_allocator \<times> slab_memory \<Rightarrow> bool" where
  "slab_inv st \<longleftrightarrow> mem_inv (snd st) \<and> ba_inv (fst st) (hdrs (snd st)) \<and>
     ba_pages (fst st) \<subseteq> live_pages (m_pa (snd st))"

definition held_blocks :: "block_allocator \<times> slab_memory \<Rightarrow> u64 set" where
  "held_blocks st = live_blocks (fst st) (hdrs (snd st))"

lemma ba_alloc_spec:
  assumes bsf: "bsf_spec bsf" and inv: "slab_inv (ba, mem)" and m: "fresh_mapping mapped (m_pa mem)"
  shows "\<exists>a ba' mem'. ba_alloc bsf mapped (ba, mem) = Inr (a, ba', mem') \<and> slab_inv (ba', mem') \<and>
    same_config ba ba' \<and> ba_pages ba \<subseteq> ba_pages ba' \<and>
    (\<forall>p. p \<in> live_pages (m_pa mem) - ba_pages ba \<longrightarrow> p \<notin> ba_pages ba' \<and> hdrs mem' p = hdrs mem p) \<and>
    live_pages (m_pa mem) \<subseteq> live_pages (m_pa mem') \<and>
    (a = 0 \<and> live_blocks ba' (hdrs mem') = live_blocks ba (hdrs mem) \<or>
     a \<noteq> 0 \<and> a \<notin> live_blocks ba (hdrs mem) \<and>
     live_blocks ba' (hdrs mem') = insert a (live_blocks ba (hdrs mem)))"
proof -
  have mi: "mem_inv mem" and bi: "ba_inv ba (hdrs mem)" and sub: "ba_pages ba \<subseteq> live_pages (m_pa mem)"
    using inv by (simp_all add: slab_inv_def)
  show ?thesis
  proof (cases "m_freeBlocksCount ba = 0")
    case False
    then have "m_totallyFreeList ba \<noteq> [] \<or> m_freeList ba \<noteq> []"
      using free_blocks_zero_iff [OF bi] by blast
    from ba_take_spec [OF bsf bi this] mi sub False show ?thesis
      by (fastforce simp: ba_alloc_def slab_inv_def mem_inv_def)
  next
    case True
    from ba_expand_spec [OF bsf mi m bi sub] show ?thesis
    proof (elim disjE exE conjE)
      fix pa
      assume "ba_expand bsf mapped (ba, mem) = Inr (0, ba, mem\<lparr>m_pa := pa\<rparr>)"
        "mem_inv (mem\<lparr>m_pa := pa\<rparr>)" "live_pages pa = live_pages (m_pa mem)"
      with True bi sub show ?thesis by (auto simp: ba_alloc_def slab_inv_def same_config_def)
    next
      fix p pa ba1 h
      let ?mem = "mem\<lparr>m_pa := pa, hdrs := (hdrs mem)(p := h)\<rparr>"
      assume e: "ba_expand bsf mapped (ba, mem) = Inr (p, ba1, ?mem)" "p \<noteq> 0"
        "mem_inv (mem\<lparr>m_pa := pa\<rparr>)" "p \<notin> live_pages (m_pa mem)"
        "live_pages pa = insert p (live_pages (m_pa mem))" "same_config ba ba1"
        "ba_inv ba1 ((hdrs mem)(p := h))" "ba_pages ba1 = insert p (ba_pages ba)"
        "m_totallyFreeList ba1 \<noteq> []"
        "live_blocks ba1 ((hdrs mem)(p := h)) = live_blocks ba (hdrs mem)"
      from ba_take_spec [OF bsf, of ba1 ?mem] e(7,9) obtain a ba' q k f where
        t: "ba_take bsf (ba1, ?mem) = Inr (a, ba', ?mem\<lparr>hdrs := (hdrs ?mem)(q := k), block_fill := f\<rparr>)"
          "q \<in> ba_pages ba1" "ba_pages ba' = ba_pages ba1" "same_config ba1 ba'"
          "ba_inv ba' ((hdrs ?mem)(q := k))" "a \<notin> live_blocks ba1 (hdrs ?mem)" "a \<noteq> 0"
          "live_blocks ba' ((hdrs ?mem)(q := k)) = insert a (live_blocks ba1 (hdrs ?mem))"
        by auto
      have "ba_alloc bsf mapped (ba, mem) = Inr (a, ba', ?mem\<lparr>hdrs := (hdrs ?mem)(q := k), block_fill := f\<rparr>)"
        using True e(1,2) t(1) by (simp add: ba_alloc_def)
      moreover have "slab_inv (ba', ?mem\<lparr>hdrs := (hdrs ?mem)(q := k), block_fill := f\<rparr>)"
        using e(3,5,8) t(3,5) sub by (auto simp: slab_inv_def mem_inv_def)
      moreover have "same_config ba ba'" using e(6) t(4) by (simp add: same_config_def)
      ultimately show ?thesis using e(4,5,8,10) t(2,3,6,7,8)
        by (intro exI conjI) auto
    qed
  qed
qed

lemma ba_free_keeps:
  assumes "slab_inv (ba, mem)" "a \<in> live_blocks ba (hdrs mem)"
  shows "\<exists>ba' mem'. ba_free a (ba, mem) = Inr (ba', mem') \<and> slab_inv (ba', mem') \<and>
    same_config ba ba' \<and> ba_pages ba' = ba_pages ba \<and>
    (\<forall>p. p \<notin> ba_pages ba \<longrightarrow> hdrs mem' p = hdrs mem p) \<and> m_pa mem' = m_pa mem \<and>
    live_blocks ba' (hdrs mem') = live_blocks ba (hdrs mem) - {a}"
  using ba_free_spec [of ba mem a] assms
  by (auto simp: slab_inv_def mem_inv_def)

interpretation blocks: allocator "\<lambda>st. bsf_spec bsf \<and> slab_inv st" held_blocks "{0}"
  "\<lambda>e st. fresh_mapping e (m_pa (snd st))" "ba_alloc bsf" ba_free for bsf
proof unfold_locales
  fix s :: "block_allocator \<times> slab_memory" and e
  assume "bsf_spec bsf \<and> slab_inv s" "fresh_mapping e (m_pa (snd s))"
  with ba_alloc_spec [of bsf "fst s" "snd s" e]
  show "\<exists>a s'. ba_alloc bsf e s = Inr (a, s') \<and> (bsf_spec bsf \<and> slab_inv s') \<and>
      (a \<in> {0} \<and> held_blocks s' = held_blocks s \<or>
       a \<notin> {0} \<and> a \<notin> held_blocks s \<and> held_blocks s' = insert a (held_blocks s))"
    by (fastforce simp: held_blocks_def)
next
  fix s :: "block_allocator \<times> slab_memory" and a
  assume "bsf_spec bsf \<and> slab_inv s" "a \<in> held_blocks s"
  with ba_free_keeps [of "fst s" "snd s" a]
  show "\<exists>s'. ba_free a s = Inr s' \<and> (bsf_spec bsf \<and> slab_inv s') \<and> held_blocks s' = held_blocks s - {a}"
    by (fastforce simp: held_blocks_def)
qed

lemma ba_new_inv:
  assumes "3 \<le> k" "k \<le> 10" "BlockAllocator_new k magic = Inr ba" "mem_inv mem"
  shows "slab_inv (ba, mem)" "held_blocks (ba, mem) = {}" "ba_pages ba = {}"
    "m_blockSize ba = 2 ^ k" "m_magic ba = magic"
proof -
  have "k \<in> {3, 4, 5, 6, 7, 8, 9, 10}" using assms(1,2) by auto
  then have ba: "ba = \<lparr>m_totallyFreeList = [], m_freeList = [], m_busyList = [],
                 m_pageSize = 4096, m_blockSize = 2 ^ k, m_blocksPerPage = of_nat (3968 div 2 ^ k),
                 m_freePagesCount = 0, m_busyPagesCount = 0, m_freeBlocksCount = 0,
                 m_allocatedBlocksCount = 0, m_magic = magic\<rparr>"
    using assms(3) by (auto simp: BlockAllocator_new_def Let_def getPageSize_def
      sizeof_BlockAllocatorHdr_def assert_that_def ensure_defined_def split: if_splits)
  have "ba_shape ba" unfolding ba_shape_def
    by (rule exI [of _ k]) (use assms(1,2) \<open>k \<in> _\<close> ba in \<open>auto simp: slots_per_page_def unat_of_nat\<close>)
  then show "slab_inv (ba, mem)" using assms(4) ba
    by (simp add: slab_inv_def ba_inv_def sorted_out_def ba_counts_def ba_pages_def)
  show "held_blocks (ba, mem) = {}" "ba_pages ba = {}" using ba
    by (simp_all add: held_blocks_def live_blocks_def ba_pages_def)
  show "m_blockSize ba = 2 ^ k" "m_magic ba = magic" using ba by simp_all
qed

text \<open>The constructor succeeds exactly for the block sizes from 8 to 1024 bytes.\<close>

lemma BlockAllocator_new_ok_iff:
  "is_ok (BlockAllocator_new k magic) \<longleftrightarrow> 3 \<le> k \<and> k \<le> 10"
proof -
  have "k < 31 \<longleftrightarrow> k \<in> {0,1,2,3,4,5,6,7,8,9,10,11,12,13,14,15,16,17,18,19,20,21,22,23,24,25,26,27,28,29,30}"
    unfolding insert_iff empty_iff by presburger
  then show ?thesis
    by (auto simp: BlockAllocator_new_def Let_def getPageSize_def sizeof_BlockAllocatorHdr_def
      assert_that_def ensure_defined_def)
qed

section \<open>Properties\<close>



text \<open>Two different live blocks of one allocator do not overlap, and none reaches into the
  header of its page or past the end of it.\<close>

theorem live_blocks_disjoint:
  assumes "slab_inv (ba, mem)" "a \<in> held_blocks (ba, mem)" "b \<in> held_blocks (ba, mem)" "a \<noteq> b"
  shows "(unat a + unat (m_blockSize ba) \<le> unat b \<or> unat b + unat (m_blockSize ba) \<le> unat a) \<and>
    128 \<le> unat a mod 4096 \<and> unat a mod 4096 + unat (m_blockSize ba) \<le> 4096"
proof -
  have shape: "ba_shape ba" using assms(1) by (simp add: slab_inv_def ba_inv_def)
  obtain p i where p: "a = block_at ba p i" "page_ok p" "i < slots_per_page ba"
    using assms(1,2) by (auto simp: held_blocks_def live_blocks_def slab_inv_def ba_inv_def live_slots_def)
  obtain q j where q: "b = block_at ba q j" "page_ok q" "j < slots_per_page ba"
    using assms(1,3) by (auto simp: held_blocks_def live_blocks_def slab_inv_def ba_inv_def live_slots_def)
  note a = unat_block_at [OF shape p(3,2)] block_offset(2) [OF shape p(3)] block_offset(3) [OF shape p(3)]
  note b = unat_block_at [OF shape q(3,2)] block_offset(2) [OF shape q(3)]
  have "4096 dvd unat p" "4096 dvd unat q" using p(2) q(2) by (simp_all add: page_ok_def mod_eq_0_iff_dvd)
  then obtain x y where xy: "unat p = 4096 * x" "unat q = 4096 * y" by (elim dvdE)
  have sep: "unat a + unat (m_blockSize ba) \<le> unat b \<or> unat b + unat (m_blockSize ba) \<le> unat a"
  proof (cases "x = y")
    case True
    then have "p = q" using xy by (simp add: word_unat_eq_iff)
    then have "i \<noteq> j" using assms(4) p q by auto
    then have "i * unat (m_blockSize ba) + unat (m_blockSize ba) \<le> j * unat (m_blockSize ba) \<or>
        j * unat (m_blockSize ba) + unat (m_blockSize ba) \<le> i * unat (m_blockSize ba)"
      by (metis Suc_leI add.commute linorder_neqE_nat mult_Suc mult_le_mono1)
    then show ?thesis using a(1) b(1) p(1) q(1) \<open>p = q\<close> by auto
  next
    case False
    then have "4096 * x + 4096 \<le> 4096 * y \<or> 4096 * y + 4096 \<le> 4096 * x" by arith
    then show ?thesis using a b p(1) q(1) xy by auto
  qed
  have "unat a mod 4096 = (128 + i * unat (m_blockSize ba)) mod 4096"
    using a(1) p(1) xy(1) by (simp add: add.assoc)
  also have "\<dots> = 128 + i * unat (m_blockSize ba)" using a(2,3) by (intro mod_less) linarith
  finally show ?thesis using sep a(2) by simp
qed

text \<open>A state with two live blocks, reached by the operations themselves.\<close>

definition empty_memory :: slab_memory where
  "empty_memory = \<lparr>m_pa = PageAllocator_new (\<lambda>_. 0), hdrs = (\<lambda>_. fill_hdr 0), block_fill = (\<lambda>_. 0)\<rparr>"

definition two_blocks :: "(u64 \<times> u64 \<times> block_allocator \<times> slab_memory) res" where
  "two_blocks =
     rbind (BlockAllocator_new 8 8) (\<lambda>ba.
     rbind (ba_alloc bsf_ref 0x10000000 (ba, empty_memory)) (\<lambda>(a, st).
     rbind (ba_alloc bsf_ref 0 st) (\<lambda>(b, st'). Inr (a, b, st'))))"

lemma two_blocks_addresses:
  "map_sum id (\<lambda>(a, b, st). (a, b)) two_blocks = Inr (0x10000080, 0x10000180)"
  by code_simp

lemma two_blocks_state:
  "\<exists>ba mem. slab_inv (ba, mem) \<and> 0x10000080 \<in> held_blocks (ba, mem) \<and>
     0x10000180 \<in> held_blocks (ba, mem) \<and> m_blockSize ba = 256"
proof -
  obtain ba where ba: "BlockAllocator_new 8 8 = Inr ba"
    using BlockAllocator_new_ok_iff [of 8 8] by (cases "BlockAllocator_new 8 8") auto
  have m: "mem_inv empty_memory" by (simp add: mem_inv_def empty_memory_def)
  have i: "slab_inv (ba, empty_memory)" using ba_new_inv(1) [OF _ _ ba m] by simp
  have "fresh_mapping 0x10000000 (m_pa empty_memory)"
    by (simp add: fresh_mapping_def region_ok_def regions_of_def PageAllocator_new_def empty_memory_def)
  from ba_alloc_spec [OF bsf_spec_ref i this] obtain a ba1 mem1 where
    1: "ba_alloc bsf_ref 0x10000000 (ba, empty_memory) = Inr (a, ba1, mem1)" "slab_inv (ba1, mem1)"
      "same_config ba ba1" "a = 0 \<or> a \<in> live_blocks ba1 (hdrs mem1)" by blast
  have "fresh_mapping 0 (m_pa mem1)" by (simp add: fresh_mapping_def)
  from ba_alloc_spec [OF bsf_spec_ref 1(2) this] obtain b ba2 mem2 where
    2: "ba_alloc bsf_ref 0 (ba1, mem1) = Inr (b, ba2, mem2)" "slab_inv (ba2, mem2)" "same_config ba1 ba2"
      "b = 0 \<or> b \<in> live_blocks ba2 (hdrs mem2)"
      "live_blocks ba1 (hdrs mem1) \<subseteq> live_blocks ba2 (hdrs mem2)" by blast
  have "a = 0x10000080" "b = 0x10000180"
    using two_blocks_addresses by (simp_all add: two_blocks_def ba 1(1) 2(1))
  with 1 2 ba_new_inv(4) [OF _ _ ba m] show ?thesis
    by (intro exI [of _ ba2] exI [of _ mem2]) (auto simp: held_blocks_def same_config_def)
qed

theorem live_blocks_disjoint_witness:
  "\<exists>ba mem. slab_inv (ba, mem) \<and> m_blockSize ba = 256 \<and>
    (unat (0x10000080 :: u64) + unat (m_blockSize ba) \<le> unat (0x10000180 :: u64) \<or>
     unat (0x10000180 :: u64) + unat (m_blockSize ba) \<le> unat (0x10000080 :: u64)) \<and>
    128 \<le> unat (0x10000080 :: u64) mod 4096 \<and>
    unat (0x10000080 :: u64) mod 4096 + unat (m_blockSize ba) \<le> 4096"
proof -
  obtain ba mem where s: "slab_inv (ba, mem)" "0x10000080 \<in> held_blocks (ba, mem)"
    "0x10000180 \<in> held_blocks (ba, mem)" "m_blockSize ba = 256"
    using two_blocks_state by auto
  show ?thesis
    using live_blocks_disjoint [OF s(1-3)] s(1,4) by (intro exI [of _ ba] exI [of _ mem]) simp
qed

end
