(* ===== verification/Slab_Allocator.thy ===== *)
theory Slab_Allocator
  imports Block_Allocator
begin

text \<open>
  The slab allocator of \<open>Slab.cpp\<close>: one block allocator per power of two over a common page
  allocator, the choice of one by size and by the signature found at the start of the page, and
  the global \<open>operator new\<close> and \<open>operator delete\<close> that go through it.
\<close>

section \<open>State and operations\<close>

record slab_allocator =
  m_minPo2 :: nat
  m_maxPo2 :: nat
  m_bas :: "block_allocator list"
  sl_mem :: slab_memory

text \<open>
  The constructor's loop stores the allocators into an array of \<open>n\<close> entries; storing past
  its end is undefined. The code allocates the array with \<open>n = maxPo2 - minPo2\<close>.
\<close>

function fill_bas :: "nat \<Rightarrow> nat \<Rightarrow> nat \<Rightarrow> nat \<Rightarrow> block_allocator list \<Rightarrow> block_allocator list res" where
  "fill_bas n lo hi i acc =
     (if i \<le> hi - lo then
        rbind (BlockAllocator_new (i + lo) (of_nat (i + lo))) (\<lambda>ba.
        rbind (ensure_defined (i < n)) (\<lambda>_. fill_bas n lo hi (i + 1) (acc @ [ba])))
      else Inr acc)"
  by pat_completeness auto
termination by (relation "measure (\<lambda>(n, lo, hi, i, acc). Suc (hi - lo) - i)") auto

declare fill_bas.simps [simp del]

definition SlabAllocator_sized :: "nat \<Rightarrow> nat \<Rightarrow> nat \<Rightarrow> slab_memory \<Rightarrow> slab_allocator res" where
  "SlabAllocator_sized n lo hi mem =
     rbind (assert_that (lo \<le> hi)) (\<lambda>_.
     rbind (fill_bas n lo hi 0 []) (\<lambda>bas.
       Inr \<lparr>m_minPo2 = lo, m_maxPo2 = hi, m_bas = bas,
            sl_mem = mem\<lparr>m_pa := PageAllocator_new (page_fill (m_pa mem))\<rparr>\<rparr>))"

definition SlabAllocator_new :: "nat \<Rightarrow> nat \<Rightarrow> slab_memory \<Rightarrow> slab_allocator res" where
  "SlabAllocator_new lo hi mem = SlabAllocator_sized (hi - lo) lo hi mem"

text \<open>\<open>getSlab\<close>: the index of the block allocator that a page's signature names.\<close>

definition getSlab :: "u64 \<Rightarrow> slab_allocator \<Rightarrow> nat option res" where
  "getSlab addr sa =
     (let sig = signature (hdrs (sl_mem sa) (addr AND NOT (getPageSize - 1)))
      in if sig AND 0xFFFFFF00 \<noteq> BLOCK_HDR_SIGNATURE then Inr None
         else
           let m = unat (ucast (sig AND 0xFF) :: u8)
           in rbind (assert_that (m \<le> m_maxPo2 sa \<and> m_minPo2 sa \<le> m)) (\<lambda>_.
              rbind (ensure_defined (m - m_minPo2 sa < length (m_bas sa))) (\<lambda>_.
                Inr (Some (m - m_minPo2 sa)))))"

definition slab_log :: "nat \<Rightarrow> nat" where
  "slab_log s =
     (if 4 \<le> s \<and> s \<le> 8 then 3
      else if 9 \<le> s \<and> s \<le> 16 then 4
      else if 17 \<le> s \<and> s \<le> 32 then 5
      else if 33 \<le> s \<and> s \<le> 64 then 6
      else if 65 \<le> s \<and> s \<le> 128 then 7
      else if 129 \<le> s \<and> s \<le> 256 then 8
      else 0)"

definition with_ba :: "nat \<Rightarrow> block_allocator \<times> slab_memory \<Rightarrow> slab_allocator \<Rightarrow> slab_allocator" where
  "with_ba i st sa = sa\<lparr>m_bas := (m_bas sa)[i := fst st], sl_mem := snd st\<rparr>"

definition slab_alloc ::
  "(u64 \<Rightarrow> nat option) \<Rightarrow> nat \<times> u64 \<Rightarrow> slab_allocator \<Rightarrow> (u64 \<times> slab_allocator) res" where
  "slab_alloc bsf req sa = (case req of (sz, mapped) \<Rightarrow>
     let i = slab_log sz in
     if i = 0 \<or> i < m_minPo2 sa \<or> m_maxPo2 sa < i then Inr (0, sa)
     else
       let j = i - m_minPo2 sa in
       rbind (ensure_defined (j < length (m_bas sa))) (\<lambda>_.
       rbind (ba_alloc bsf mapped (m_bas sa ! j, sl_mem sa)) (\<lambda>(ret, st).
         Inr (ret, with_ba j st sa))))"

definition slab_free :: "u64 \<Rightarrow> slab_allocator \<Rightarrow> (bool \<times> slab_allocator) res" where
  "slab_free addr sa =
     rbind (getSlab addr sa) (\<lambda>b. case b of
       None \<Rightarrow> Inr (False, sa)
     | Some j \<Rightarrow>
         rbind (assert_that (belongsToUs addr (m_pa (sl_mem sa)))) (\<lambda>_.
         rbind (ba_free addr (m_bas sa ! j, sl_mem sa)) (\<lambda>st. Inr (True, with_ba j st sa))))"

definition isValid :: "u64 \<Rightarrow> slab_allocator \<Rightarrow> bool res" where
  "isValid addr sa = rbind (getSlab addr sa) (\<lambda>b. Inr (b \<noteq> None))"

text \<open>\<open>printStats\<close>: the lines for each block size with its number of live blocks, and the total.\<close>

definition printStats :: "slab_allocator \<Rightarrow> (u64 \<times> u64) list \<times> u64" where
  "printStats sa =
     (let rows = map (\<lambda>i. (2 ^ i, m_allocatedBlocksCount (m_bas sa ! (i - m_minPo2 sa))))
                   [m_minPo2 sa ..< Suc (m_maxPo2 sa)]
      in (rows, fold (\<lambda>(sz, c) t. t + sz * c) rows 0))"

section \<open>The global operators\<close>

record heap_state =
  s_slab :: "slab_allocator option"
  s_inalloc :: bool

definition slab_init :: "slab_memory \<Rightarrow> heap_state \<Rightarrow> heap_state res" where
  "slab_init mem hs = (case s_slab hs of
      Some _ \<Rightarrow> Inr hs
    | None \<Rightarrow> rbind (SlabAllocator_new 3 8 mem) (\<lambda>sa. Inr (hs\<lparr>s_slab := Some sa\<rparr>)))"

definition slab_print_stats :: "heap_state \<Rightarrow> ((u64 \<times> u64) list \<times> u64) option" where
  "slab_print_stats hs = map_option printStats (s_slab hs)"

text \<open>
  \<open>mallocd\<close> is what \<open>malloc\<close> returns if it is called. A pointer is tagged with the allocator
  it came from.
\<close>

datatype cxx_pointer = From_Slab u64 | From_Malloc u64

definition malloc_or_throw :: "u64 \<Rightarrow> cxx_pointer res" where
  "malloc_or_throw mallocd = (if mallocd = 0 then Inl (Thrown ''std::bad_alloc'') else Inr (From_Malloc mallocd))"

definition operator_new ::
  "(u64 \<Rightarrow> nat option) \<Rightarrow> u64 \<Rightarrow> u64 \<Rightarrow> nat \<Rightarrow> heap_state \<Rightarrow> (cxx_pointer \<times> heap_state) res" where
  "operator_new bsf mapped mallocd sz hs = (case s_slab hs of
      None \<Rightarrow> rbind (malloc_or_throw mallocd) (\<lambda>p. Inr (p, hs))
    | Some sa \<Rightarrow>
        if s_inalloc hs then rbind (malloc_or_throw mallocd) (\<lambda>p. Inr (p, hs))
        else
          rbind (slab_alloc bsf (sz, mapped) sa) (\<lambda>(pr, sa').
            let hs1 = hs\<lparr>s_slab := Some sa', s_inalloc := True\<rparr> in
            if pr \<noteq> 0 then Inr (From_Slab pr, hs1\<lparr>s_inalloc := False\<rparr>)
            else rbind (malloc_or_throw mallocd) (\<lambda>p. Inr (p, hs1\<lparr>s_inalloc := False\<rparr>))))"

text \<open>The second result says whether the block went to \<open>free\<close>.\<close>

definition operator_delete :: "u64 \<Rightarrow> heap_state \<Rightarrow> (bool \<times> heap_state) res" where
  "operator_delete p hs = (case s_slab hs of
      None \<Rightarrow> Inr (True, hs)
    | Some sa \<Rightarrow>
        rbind (slab_free p sa) (\<lambda>(ours, sa').
          let hs1 = hs\<lparr>s_slab := Some sa', s_inalloc := False\<rparr> in
          if ours then Inr (False, hs1)
          else rbind (assert_that (\<not> belongsToUs p (m_pa (sl_mem sa')))) (\<lambda>_. Inr (True, hs1))))"

section \<open>The constructor\<close>

lemma fill_bas_ok:
  assumes "3 \<le> lo" "hi \<le> 10" "lo \<le> hi"
  shows "i \<le> Suc (hi - lo) \<Longrightarrow> length acc = i \<Longrightarrow> hi - lo < n \<Longrightarrow>
    (\<forall>j<i. BlockAllocator_new (j + lo) (of_nat (j + lo)) = Inr (acc ! j)) \<Longrightarrow>
    \<exists>bas. fill_bas n lo hi i acc = Inr bas \<and> length bas = Suc (hi - lo) \<and>
      (\<forall>j<length bas. BlockAllocator_new (j + lo) (of_nat (j + lo)) = Inr (bas ! j))"
proof (induction "Suc (hi - lo) - i" arbitrary: i acc)
  case 0
  then show ?case by (subst fill_bas.simps) simp
next
  case (Suc k)
  then have le: "i \<le> hi - lo" by simp
  then have "is_ok (BlockAllocator_new (i + lo) (of_nat (i + lo)))"
    using assms by (simp add: BlockAllocator_new_ok_iff)
  then obtain ba where ba: "BlockAllocator_new (i + lo) (of_nat (i + lo)) = Inr ba"
    by (cases "BlockAllocator_new (i + lo) (of_nat (i + lo))") auto
  have "\<forall>j<i + 1. BlockAllocator_new (j + lo) (of_nat (j + lo)) = Inr ((acc @ [ba]) ! j)"
    using Suc.prems(2,4) ba by (auto simp: nth_append less_Suc_eq)
  then have "\<exists>bas. fill_bas n lo hi (i + 1) (acc @ [ba]) = Inr bas \<and> length bas = Suc (hi - lo) \<and>
      (\<forall>j<length bas. BlockAllocator_new (j + lo) (of_nat (j + lo)) = Inr (bas ! j))"
    using Suc.hyps(2) Suc.prems(2,3) le by (intro Suc.hyps(1)) simp_all
  moreover have "fill_bas n lo hi i acc = fill_bas n lo hi (i + 1) (acc @ [ba])"
    using le Suc.prems(3) ba by (subst fill_bas.simps) (simp del: of_nat_add)
  ultimately show ?case by simp
qed

lemma fill_bas_overflow:
  assumes "i \<le> n" "n \<le> hi - lo"
  shows "\<not> is_ok (fill_bas n lo hi i acc)"
  using assms
proof (induction "n - i" arbitrary: i acc)
  case 0
  then show ?case
    by (subst fill_bas.simps) (cases "BlockAllocator_new (i + lo) (of_nat (i + lo))"; simp)
next
  case (Suc k)
  then have "\<not> is_ok (fill_bas n lo hi (i + 1) (acc @ [ba]))" for ba by simp
  moreover have "i < n" "i \<le> hi - lo" using Suc.hyps(2) Suc.prems by simp_all
  ultimately show ?case
    by (subst fill_bas.simps) (cases "BlockAllocator_new (i + lo) (of_nat (i + lo))"; simp)
qed

section \<open>Well-formed slab allocators\<close>

text \<open>
  Every block allocator is well formed, knows its own number, and owns its pages alone; together
  they own every page that the page allocator has handed out.
\<close>

definition sa_inv :: "slab_allocator \<Rightarrow> bool" where
  "sa_inv sa \<longleftrightarrow>
     3 \<le> m_minPo2 sa \<and> m_minPo2 sa \<le> m_maxPo2 sa \<and> m_maxPo2 sa \<le> 10 \<and>
     length (m_bas sa) = Suc (m_maxPo2 sa - m_minPo2 sa) \<and>
     (\<forall>j<length (m_bas sa). slab_inv (m_bas sa ! j, sl_mem sa) \<and>
        m_magic (m_bas sa ! j) = of_nat (j + m_minPo2 sa) \<and>
        m_blockSize (m_bas sa ! j) = 2 ^ (j + m_minPo2 sa)) \<and>
     (\<forall>j<length (m_bas sa). \<forall>k<length (m_bas sa). j \<noteq> k \<longrightarrow>
        ba_pages (m_bas sa ! j) \<inter> ba_pages (m_bas sa ! k) = {})"

definition sa_live :: "slab_allocator \<Rightarrow> u64 set" where
  "sa_live sa = (\<Union>j<length (m_bas sa). held_blocks (m_bas sa ! j, sl_mem sa))"

lemma live_blocks_cong:
  "(\<And>p. p \<in> ba_pages ba \<Longrightarrow> H' p = H p) \<Longrightarrow> live_blocks ba H' = live_blocks ba H"
  unfolding live_blocks_def by (metis (no_types, lifting))

lemma ba_inv_cong:
  assumes H: "\<And>p. p \<in> ba_pages ba \<Longrightarrow> H' p = H p"
  shows "ba_inv ba H' = ba_inv ba H"
proof -
  have fc: "p \<in> ba_pages ba \<Longrightarrow> free_in H' p = free_in H p" for p using H by (simp add: free_in_def)
  have "(\<Sum>p\<in>ba_pages ba. free_in H' p) = (\<Sum>p\<in>ba_pages ba. free_in H p)"
    "(\<Sum>p\<in>ba_pages ba. slots_per_page ba - free_in H' p) = (\<Sum>p\<in>ba_pages ba. slots_per_page ba - free_in H p)"
    using fc by (auto intro: sum.cong)
  then have "ba_counts (free_in H') ba = ba_counts (free_in H) ba"
    by (simp add: ba_counts_def del: of_nat_sum)
  moreover have "sorted_out n (free_in H') ba = sorted_out n (free_in H) ba" for n
    using fc by (auto simp: sorted_out_def ba_pages_def)
  ultimately show ?thesis using H by (auto simp: ba_inv_def)
qed

text \<open>One block allocator steps; the others do not notice.\<close>

lemma sa_step:
  assumes inv: "sa_inv sa" and j: "j < length (m_bas sa)"
    and step: "slab_inv (ba', mem')" "same_config (m_bas sa ! j) ba'"
      "\<And>p. p \<in> live_pages (m_pa (sl_mem sa)) - ba_pages (m_bas sa ! j) \<Longrightarrow>
         p \<notin> ba_pages ba' \<and> hdrs mem' p = hdrs (sl_mem sa) p"
      "live_pages (m_pa (sl_mem sa)) \<subseteq> live_pages (m_pa mem')"
  shows "sa_inv (with_ba j (ba', mem') sa)"
    "sa_live (with_ba j (ba', mem') sa) = held_blocks (ba', mem') \<union>
       (\<Union>k\<in>{k. k < length (m_bas sa) \<and> k \<noteq> j}. held_blocks (m_bas sa ! k, sl_mem sa))"
    "sa_live sa = held_blocks (m_bas sa ! j, sl_mem sa) \<union>
       (\<Union>k\<in>{k. k < length (m_bas sa) \<and> k \<noteq> j}. held_blocks (m_bas sa ! k, sl_mem sa))"
proof -
  let ?sa = "with_ba j (ba', mem') sa"
  have old: "slab_inv (m_bas sa ! k, sl_mem sa)" "m_magic (m_bas sa ! k) = of_nat (k + m_minPo2 sa)"
    "m_blockSize (m_bas sa ! k) = 2 ^ (k + m_minPo2 sa)" if "k < length (m_bas sa)" for k
    using inv that by (simp_all add: sa_inv_def)
  have apart: "p \<in> live_pages (m_pa (sl_mem sa)) - ba_pages (m_bas sa ! j)"
    if "k < length (m_bas sa)" "k \<noteq> j" "p \<in> ba_pages (m_bas sa ! k)" for k p
    using that j inv old(1) [OF that(1)] unfolding sa_inv_def slab_inv_def by (simp, blast)
  have other: "slab_inv (m_bas sa ! k, mem')" "ba_pages (m_bas sa ! k) \<inter> ba_pages ba' = {}"
    "held_blocks (m_bas sa ! k, mem') = held_blocks (m_bas sa ! k, sl_mem sa)"
    if k: "k < length (m_bas sa)" "k \<noteq> j" for k
  proof -
    have H: "hdrs mem' p = hdrs (sl_mem sa) p" if "p \<in> ba_pages (m_bas sa ! k)" for p
      using step(3) [OF apart [OF k that]] by simp
    show "slab_inv (m_bas sa ! k, mem')"
      using old(1) [OF k(1)] step(1,4) ba_inv_cong [OF H] by (auto simp: slab_inv_def)
    show "held_blocks (m_bas sa ! k, mem') = held_blocks (m_bas sa ! k, sl_mem sa)"
      using live_blocks_cong [OF H] by (simp add: held_blocks_def)
    show "ba_pages (m_bas sa ! k) \<inter> ba_pages ba' = {}" using step(3) apart [OF k] by blast
  qed
  have len: "length (m_bas ?sa) = length (m_bas sa)" by (simp add: with_ba_def)
  have nth: "m_bas ?sa ! k = (if k = j then ba' else m_bas sa ! k)" if "k < length (m_bas sa)" for k
    using that j by (simp add: with_ba_def)
  have mem: "sl_mem ?sa = mem'" "m_minPo2 ?sa = m_minPo2 sa" "m_maxPo2 ?sa = m_maxPo2 sa"
    by (simp_all add: with_ba_def)
  have each: "slab_inv (m_bas ?sa ! k, mem') \<and> m_magic (m_bas ?sa ! k) = of_nat (k + m_minPo2 sa) \<and>
      m_blockSize (m_bas ?sa ! k) = 2 ^ (k + m_minPo2 sa)" if "k < length (m_bas sa)" for k
    using that step(1,2) other(1) [OF that] old [OF that]
    by (cases "k = j") (simp_all add: nth same_config_def)
  have disj: "ba_pages (m_bas ?sa ! i) \<inter> ba_pages (m_bas ?sa ! k) = {}"
    if "i < length (m_bas sa)" "k < length (m_bas sa)" "i \<noteq> k" for i k
    using that other(2) [of i] other(2) [of k] inv by (auto simp: nth sa_inv_def Int_commute)
  show "sa_inv ?sa"
    using inv each disj unfolding sa_inv_def mem len by simp
  have "sa_live ?sa = (\<Union>k<length (m_bas sa). held_blocks (m_bas ?sa ! k, mem'))"
    by (simp only: sa_live_def len mem)
  also have "\<dots> = (\<Union>k<length (m_bas sa). if k = j then held_blocks (ba', mem')
      else held_blocks (m_bas sa ! k, sl_mem sa))"
    using other(3) nth by (intro SUP_cong) auto
  finally show "sa_live ?sa = held_blocks (ba', mem') \<union>
      (\<Union>k\<in>{k. k < length (m_bas sa) \<and> k \<noteq> j}. held_blocks (m_bas sa ! k, sl_mem sa))"
    using j by (auto split: if_splits)
  show "sa_live sa = held_blocks (m_bas sa ! j, sl_mem sa) \<union>
      (\<Union>k\<in>{k. k < length (m_bas sa) \<and> k \<noteq> j}. held_blocks (m_bas sa ! k, sl_mem sa))"
    using j by (auto simp: sa_live_def)
qed

lemma live_addr_page:
  assumes "slab_inv (ba, mem)" "a \<in> held_blocks (ba, mem)"
  obtains p where "p \<in> ba_pages ba" "p \<in> live_pages (m_pa mem)" "a AND NOT (getPageSize - 1) = p"
    "signature (hdrs mem p) = block_signature ba" "unat p \<le> unat a" "unat a < unat p + 4096" "page_ok p"
proof -
  have shape: "ba_shape ba" using assms(1) by (simp add: slab_inv_def ba_inv_def)
  obtain p i where p: "p \<in> ba_pages ba" "a = block_at ba p i" "i < slots_per_page ba"
    using assms(2) by (auto simp: held_blocks_def live_blocks_def live_slots_def)
  have pg: "page_ok p" "signature (hdrs mem p) = block_signature ba" "p \<in> live_pages (m_pa mem)"
    using assms(1) p(1) by (auto simp: slab_inv_def ba_inv_def)
  have "m_pageSize ba = getPageSize" using shape by (auto simp: ba_shape_def getPageSize_def)
  then have "a AND NOT (getPageSize - 1) = p" using page_of_block(1) [OF shape p(3) pg(1)] p(2) by simp
  moreover have "unat p \<le> unat a \<and> unat a < unat p + 4096"
    using unat_block_at [OF shape p(3) pg(1)] block_offset(2,3) [OF shape p(3)]
    unfolding p(2) by simp
  ultimately show thesis using that p(1) pg by blast
qed

lemma belongs_live:
  assumes "page_inv s" "p \<in> live_pages s" "unat p \<le> unat a" "unat a < unat p + 4096"
  shows "belongsToUs a s"
proof -
  from assms(2) consider r bm i where "(r, bm) \<in> set (m_regions s)" "i < 64" "p = page_at r i"
    | r i where "(r, ()) \<in> set (m_busyRegions s)" "i < 64" "p = page_at r i"
    by (auto simp: live_pages_def)
  then obtain r i where r: "p = page_at r i" "region_ok r" "i < 64" "r \<in> regions_of s"
    using assms(1) by cases (auto simp: page_inv_def regions_of_def intro!: that rev_image_eqI)
  have u: "unat p = unat r + i * 4096" using r by (simp add: unat_page_at)
  then have "unat r \<le> unat a" "unat a < unat r + 262144" using assms(3,4) r(3) by linarith+
  moreover have "unat (r + REGION_SIZE) = unat r + 262144"
    using r(2) by (simp add: REGION_SIZE_def unat_word_ariths region_ok_def)
  ultimately have "r \<le> a \<and> a < r + REGION_SIZE" by (simp add: word_le_nat_alt word_less_nat_alt)
  with r(4) show ?thesis by (auto simp: belongsToUs_def Let_def regions_of_def list_ex_iff)
qed

lemma signature_of_magic:
  assumes "3 \<le> k" "k \<le> 10" "m_magic ba = of_nat k"
  shows "block_signature ba AND 0xFFFFFF00 = BLOCK_HDR_SIGNATURE"
    "unat (ucast (block_signature ba AND 0xFF) :: u8) = k"
proof -
  have "k \<in> {3, 4, 5, 6, 7, 8, 9, 10}" using assms(1,2) by auto
  then show "block_signature ba AND 0xFFFFFF00 = BLOCK_HDR_SIGNATURE"
    "unat (ucast (block_signature ba AND 0xFF) :: u8) = k"
    using assms(3) by (auto simp: block_signature_def BLOCK_HDR_SIGNATURE_def)
qed

lemma getSlab_live:
  assumes inv: "sa_inv sa" and j: "j < length (m_bas sa)"
    and a: "a \<in> held_blocks (m_bas sa ! j, sl_mem sa)"
  shows "getSlab a sa = Inr (Some j)" "belongsToUs a (m_pa (sl_mem sa))"
proof -
  have si: "slab_inv (m_bas sa ! j, sl_mem sa)" and mg: "m_magic (m_bas sa ! j) = of_nat (j + m_minPo2 sa)"
    using inv j by (simp_all add: sa_inv_def)
  obtain p where p: "p \<in> ba_pages (m_bas sa ! j)" "p \<in> live_pages (m_pa (sl_mem sa))"
    "a AND NOT (getPageSize - 1) = p" "signature (hdrs (sl_mem sa) p) = block_signature (m_bas sa ! j)"
    "unat p \<le> unat a" "unat a < unat p + 4096" "page_ok p" using live_addr_page [OF si a] .
  have k: "3 \<le> j + m_minPo2 sa" "j + m_minPo2 sa \<le> 10" "j + m_minPo2 sa \<le> m_maxPo2 sa"
    using inv j by (auto simp: sa_inv_def)
  note sg = signature_of_magic [OF k(1,2) mg]
  show "getSlab a sa = Inr (Some j)" using sg k(3) j by (simp add: getSlab_def Let_def p(3,4))
  show "belongsToUs a (m_pa (sl_mem sa))"
    using si p by (intro belongs_live) (auto simp: slab_inv_def mem_inv_def)
qed

lemma sa_live_index:
  assumes "a \<in> sa_live sa"
  obtains j where "j < length (m_bas sa)" "a \<in> held_blocks (m_bas sa ! j, sl_mem sa)"
  using assms by (auto simp: sa_live_def)

text \<open>A block lives in exactly one of the allocators.\<close>

lemma held_apart:
  assumes "sa_inv sa" "j < length (m_bas sa)" "k < length (m_bas sa)"
    "a \<in> held_blocks (m_bas sa ! j, sl_mem sa)" "a \<in> held_blocks (m_bas sa ! k, sl_mem sa)"
  shows "j = k"
  using getSlab_live(1) [OF assms(1,2,4)] getSlab_live(1) [OF assms(1,3,5)] by simp

lemma slab_free_spec:
  assumes inv: "sa_inv sa" and a: "a \<in> sa_live sa"
  shows "\<exists>sa'. slab_free a sa = Inr (True, sa') \<and> sa_inv sa' \<and> sa_live sa' = sa_live sa - {a}"
proof -
  obtain j where j: "j < length (m_bas sa)" "a \<in> held_blocks (m_bas sa ! j, sl_mem sa)"
    using a by (rule sa_live_index)
  have si: "slab_inv (m_bas sa ! j, sl_mem sa)" using inv j by (simp add: sa_inv_def)
  have "a \<in> live_blocks (m_bas sa ! j) (hdrs (sl_mem sa))" using j(2) by (simp add: held_blocks_def)
  from ba_free_keeps [OF si this] obtain ba' mem' where f:
    "ba_free a (m_bas sa ! j, sl_mem sa) = Inr (ba', mem')" "slab_inv (ba', mem')"
    "same_config (m_bas sa ! j) ba'" "ba_pages ba' = ba_pages (m_bas sa ! j)"
    "\<And>p. p \<notin> ba_pages (m_bas sa ! j) \<Longrightarrow> hdrs mem' p = hdrs (sl_mem sa) p" "m_pa mem' = m_pa (sl_mem sa)"
    "held_blocks (ba', mem') = held_blocks (m_bas sa ! j, sl_mem sa) - {a}"
    unfolding held_blocks_def fst_conv snd_conv by blast
  have "slab_free a sa = Inr (True, with_ba j (ba', mem') sa)"
    using getSlab_live [OF inv j] f(1) by (simp add: slab_free_def)
  moreover note step = sa_step [OF inv j(1) f(2,3)]
  have "a \<notin> held_blocks (m_bas sa ! k, sl_mem sa)" if "k < length (m_bas sa)" "k \<noteq> j" for k
    using held_apart [OF inv j(1) that(1) j(2)] that(2) by blast
  then have "sa_live (with_ba j (ba', mem') sa) = sa_live sa - {a}"
    using step(2,3) f(4-7) by auto
  ultimately show ?thesis using step(1) f(4-6) by auto
qed

lemma slab_alloc_spec:
  assumes bsf: "bsf_spec bsf" and inv: "sa_inv sa" and m: "fresh_mapping mapped (m_pa (sl_mem sa))"
  shows "\<exists>a sa'. slab_alloc bsf (sz, mapped) sa = Inr (a, sa') \<and> sa_inv sa' \<and>
    (a = 0 \<and> sa_live sa' = sa_live sa \<or> a \<noteq> 0 \<and> a \<notin> sa_live sa \<and> sa_live sa' = insert a (sa_live sa))"
proof (cases "slab_log sz = 0 \<or> slab_log sz < m_minPo2 sa \<or> m_maxPo2 sa < slab_log sz")
  case True
  with inv show ?thesis by (simp add: slab_alloc_def)
next
  case False
  let ?j = "slab_log sz - m_minPo2 sa"
  have j: "?j < length (m_bas sa)" using inv False by (auto simp: sa_inv_def)
  have si: "slab_inv (m_bas sa ! ?j, sl_mem sa)" using inv j by (simp add: sa_inv_def)
  from ba_alloc_spec [OF bsf si m] obtain a ba' mem' where al:
    "ba_alloc bsf mapped (m_bas sa ! ?j, sl_mem sa) = Inr (a, ba', mem')" "slab_inv (ba', mem')"
    "same_config (m_bas sa ! ?j) ba'"
    "\<And>p. p \<in> live_pages (m_pa (sl_mem sa)) - ba_pages (m_bas sa ! ?j) \<Longrightarrow>
      p \<notin> ba_pages ba' \<and> hdrs mem' p = hdrs (sl_mem sa) p"
    "live_pages (m_pa (sl_mem sa)) \<subseteq> live_pages (m_pa mem')"
    "a = 0 \<and> held_blocks (ba', mem') = held_blocks (m_bas sa ! ?j, sl_mem sa) \<or>
     a \<noteq> 0 \<and> a \<notin> held_blocks (m_bas sa ! ?j, sl_mem sa) \<and>
     held_blocks (ba', mem') = insert a (held_blocks (m_bas sa ! ?j, sl_mem sa))"
    unfolding held_blocks_def fst_conv snd_conv by blast
  note step = sa_step [OF inv j al(2,3,4,5)]
  have "slab_alloc bsf (sz, mapped) sa = Inr (a, with_ba ?j (ba', mem') sa)"
    using False j al(1) by (simp add: slab_alloc_def Let_def)
  moreover have "a \<notin> held_blocks (m_bas sa ! k, sl_mem sa)"
    if "k < length (m_bas sa)" "k \<noteq> ?j" "a \<in> held_blocks (ba', mem')" for k
  proof
    assume ak: "a \<in> held_blocks (m_bas sa ! k, sl_mem sa)"
    let ?sa = "with_ba ?j (ba', mem') sa"
    have "slab_inv (m_bas sa ! k, sl_mem sa)" using inv that(1) by (simp add: sa_inv_def)
    then obtain p where "p \<in> ba_pages (m_bas sa ! k)" "p \<in> live_pages (m_pa (sl_mem sa))"
      "a AND NOT (getPageSize - 1) = p" using live_addr_page ak by metis
    moreover from al(2) that(3) obtain q where "q \<in> ba_pages ba'" "a AND NOT (getPageSize - 1) = q"
      using live_addr_page by metis
    moreover have "ba_pages (m_bas sa ! ?j) \<inter> ba_pages (m_bas sa ! k) = {}"
      using inv j that(1,2) by (simp add: sa_inv_def)
    ultimately show False using al(4) by blast
  qed
  ultimately show ?thesis using step al(6) by (intro exI conjI) auto
qed

section \<open>The contract\<close>

definition slab_release :: "u64 \<Rightarrow> slab_allocator \<Rightarrow> slab_allocator res" where
  "slab_release a sa = rbind (slab_free a sa) (\<lambda>(ours, sa'). Inr sa')"

interpretation slab: allocator "\<lambda>sa. bsf_spec bsf \<and> sa_inv sa" sa_live "{0}"
  "\<lambda>e sa. fresh_mapping (snd e) (m_pa (sl_mem sa))" "slab_alloc bsf" slab_release for bsf
proof unfold_locales
  fix sa :: slab_allocator and e :: "nat \<times> u64"
  assume "bsf_spec bsf \<and> sa_inv sa" "fresh_mapping (snd e) (m_pa (sl_mem sa))"
  with slab_alloc_spec [of bsf sa "snd e" "fst e"]
  show "\<exists>a s'. slab_alloc bsf e sa = Inr (a, s') \<and> (bsf_spec bsf \<and> sa_inv s') \<and>
      (a \<in> {0} \<and> sa_live s' = sa_live sa \<or> a \<notin> {0} \<and> a \<notin> sa_live sa \<and> sa_live s' = insert a (sa_live sa))"
    by auto
next
  fix sa :: slab_allocator and a
  assume "bsf_spec bsf \<and> sa_inv sa" "a \<in> sa_live sa"
  with slab_free_spec [of sa a]
  show "\<exists>s'. slab_release a sa = Inr s' \<and> (bsf_spec bsf \<and> sa_inv s') \<and> sa_live s' = sa_live sa - {a}"
    by (auto simp: slab_release_def)
qed

lemma sized_inv:
  assumes "3 \<le> lo" "lo \<le> hi" "hi \<le> 10" "hi - lo < n" "SlabAllocator_sized n lo hi mem = Inr sa"
  shows "sa_inv sa" "sa_live sa = {}" "m_pa (sl_mem sa) = PageAllocator_new (page_fill (m_pa mem))"
proof -
  from fill_bas_ok [OF assms(1,3,2), of 0 "[]" n] assms(4) obtain bas where
    b: "fill_bas n lo hi 0 [] = Inr bas" "length bas = Suc (hi - lo)"
      "\<And>j. j < length bas \<Longrightarrow> BlockAllocator_new (j + lo) (of_nat (j + lo)) = Inr (bas ! j)" by auto
  let ?mem = "mem\<lparr>m_pa := PageAllocator_new (page_fill (m_pa mem))\<rparr>"
  have sa: "sa = \<lparr>m_minPo2 = lo, m_maxPo2 = hi, m_bas = bas, sl_mem = ?mem\<rparr>"
    using assms(2,5) b(1) by (simp add: SlabAllocator_sized_def)
  have m: "mem_inv ?mem" by (simp add: mem_inv_def)
  have new: "slab_inv (bas ! j, ?mem) \<and> held_blocks (bas ! j, ?mem) = {} \<and> ba_pages (bas ! j) = {} \<and>
      m_blockSize (bas ! j) = 2 ^ (j + lo) \<and> m_magic (bas ! j) = of_nat (j + lo)"
    if "j < length bas" for j
    using ba_new_inv [OF _ _ b(3) [OF that] m] that b(2) assms(1-3) by auto
  with assms(1-3) b(2) show "sa_inv sa" by (auto simp: sa_inv_def sa)
  show "sa_live sa = {}" using new by (simp add: sa_live_def sa)
  show "m_pa (sl_mem sa) = PageAllocator_new (page_fill (m_pa mem))" by (simp add: sa)
qed

lemma sized_ok:
  assumes "3 \<le> lo" "lo \<le> hi" "hi \<le> 10" "hi - lo < n"
  shows "is_ok (SlabAllocator_sized n lo hi mem)"
  using fill_bas_ok [OF assms(1,3,2), of 0 "[]" n] assms by (auto simp: SlabAllocator_sized_def)

section \<open>Properties\<close>


definition six_slabs :: slab_allocator where
  "six_slabs = (case SlabAllocator_sized 6 3 8 empty_memory of Inl _ \<Rightarrow> undefined | Inr sa \<Rightarrow> sa)"

lemma six_slabs_ok: "SlabAllocator_sized 6 3 8 empty_memory = Inr six_slabs"
  using sized_ok [of 3 8 6 empty_memory]
  by (cases "SlabAllocator_sized 6 3 8 empty_memory") (simp_all add: six_slabs_def)


text \<open>The constructor of the slab allocator, with the array the code allocates, always writes
  one entry past its end (or fails an assertion before); so does \<open>slab_init\<close>.\<close>

theorem SlabAllocator_new_overflows:
  "\<not> is_ok (SlabAllocator_new lo hi mem) \<and>
   slab_init mem \<lparr>s_slab = None, s_inalloc = b\<rparr> = Inl Undefined_Behaviour"
proof -
  have "\<not> is_ok (fill_bas (hi - lo) lo hi 0 [])" by (rule fill_bas_overflow) simp_all
  then have no: "\<not> is_ok (SlabAllocator_new lo hi mem)"
    by (cases "lo \<le> hi"; cases "fill_bas (hi - lo) lo hi 0 []")
      (auto simp: SlabAllocator_new_def SlabAllocator_sized_def)
  have "map_sum id (\<lambda>_. ()) (fill_bas 5 3 8 0 []) = Inl Undefined_Behaviour" by code_simp
  then have "fill_bas 5 3 8 0 [] = Inl Undefined_Behaviour" by (cases "fill_bas 5 3 8 0 []") auto
  then have "SlabAllocator_new 3 8 mem = Inl Undefined_Behaviour"
    by (simp add: SlabAllocator_new_def SlabAllocator_sized_def)
  then show ?thesis using no by (simp add: slab_init_def)
qed

text \<open>A block obtained from \<open>operator new\<close> goes back where it came from: one of the slab's
  blocks is recognised, passed to no \<open>free\<close>, and is no longer live afterwards.\<close>

theorem new_then_delete:
  assumes bsf: "bsf_spec bsf" and inv: "sa_inv sa" and m: "fresh_mapping mapped (m_pa (sl_mem sa))"
    and new: "operator_new bsf mapped mallocd sz \<lparr>s_slab = Some sa, s_inalloc = False\<rparr> = Inr (From_Slab p, hs)"
  shows "\<exists>sa1 sa2. s_slab hs = Some sa1 \<and> p \<in> sa_live sa1 \<and>
      operator_delete p hs = Inr (False, \<lparr>s_slab = Some sa2, s_inalloc = False\<rparr>) \<and>
      sa_inv sa2 \<and> sa_live sa2 = sa_live sa"
proof -
  obtain a sa1 where a: "slab_alloc bsf (sz, mapped) sa = Inr (a, sa1)" "sa_inv sa1"
    "a = 0 \<and> sa_live sa1 = sa_live sa \<or> a \<noteq> 0 \<and> a \<notin> sa_live sa \<and> sa_live sa1 = insert a (sa_live sa)"
    using slab_alloc_spec [OF bsf inv m] by metis
  from new a have p: "p = a" "a \<noteq> 0" "hs = \<lparr>s_slab = Some sa1, s_inalloc = False\<rparr>"
    by (auto simp: operator_new_def Let_def malloc_or_throw_def split: if_splits)
  with a(3) have live: "p \<in> sa_live sa1" "sa_live sa = sa_live sa1 - {p}" by auto
  from slab_free_spec [OF a(2) live(1)] obtain sa2 where
    "slab_free p sa1 = Inr (True, sa2)" "sa_inv sa2" "sa_live sa2 = sa_live sa1 - {p}" by blast
  with p live show ?thesis by (auto simp: operator_delete_def)
qed

lemma six_slabs_new:
  "map_sum id fst (operator_new bsf_ref 0x10000000 0 24 \<lparr>s_slab = Some six_slabs, s_inalloc = False\<rparr>) =
     Inr (From_Slab 0x10000080)"
  by code_simp

theorem new_then_delete_witness:
  "\<exists>hs sa1 sa2. operator_new bsf_ref 0x10000000 0 24 \<lparr>s_slab = Some six_slabs, s_inalloc = False\<rparr> =
       Inr (From_Slab 0x10000080, hs) \<and> s_slab hs = Some sa1 \<and> 0x10000080 \<in> sa_live sa1 \<and>
      operator_delete 0x10000080 hs = Inr (False, \<lparr>s_slab = Some sa2, s_inalloc = False\<rparr>) \<and>
      sa_inv sa2 \<and> sa_live sa2 = sa_live six_slabs"
proof -
  obtain hs where hs: "operator_new bsf_ref 0x10000000 0 24 \<lparr>s_slab = Some six_slabs, s_inalloc = False\<rparr> =
       Inr (From_Slab 0x10000080, hs)"
    using six_slabs_new
    by (cases "operator_new bsf_ref 0x10000000 0 24 \<lparr>s_slab = Some six_slabs, s_inalloc = False\<rparr>") auto
  have "m_pa (sl_mem six_slabs) = PageAllocator_new (page_fill (m_pa empty_memory))"
    by (rule sized_inv(3) [OF _ _ _ _ six_slabs_ok]) simp_all
  then have "fresh_mapping 0x10000000 (m_pa (sl_mem six_slabs))"
    by (simp add: fresh_mapping_def region_ok_def regions_of_def PageAllocator_new_def)
  with new_then_delete [OF bsf_spec_ref _ _ hs] sized_inv(1) [OF _ _ _ _ six_slabs_ok] hs
  show ?thesis by fastforce
qed

text \<open>A non-null block is at least as large as the request: the size class chosen for a request
  is the smallest of 8, 16, ..., 256 that holds it, and requests under 4 or over 256 bytes get
  no size class.\<close>

theorem slab_log_fits:
  "if 4 \<le> n \<and> n \<le> 256
   then 3 \<le> slab_log n \<and> slab_log n \<le> 8 \<and> n \<le> 2 ^ slab_log n \<and>
     (slab_log n = 3 \<or> 2 ^ (slab_log n - 1) < n)
   else slab_log n = 0"
  by (auto simp: slab_log_def)

end
