(* ===== verification/Memory_Cache.thy ===== *)
theory Memory_Cache
  imports S2E_Prelude
begin

text \<open>
  \<open>src/include/s2e/MemoryCache.h\<close>: the sparse three-level table that maps a host address inside one
  region to the object of the address, and the pool of such tables, one per registered region,
  that the execution state uses to find the memory object behind a host address. The template
  parameters are fields of the table.
\<close>

section \<open>The table\<close>

record 'a memory_cache =
  objBits :: nat
  pageBits :: nat
  superBits :: nat
  m_hostAddrStart :: u64
  m_size :: u64
  m_level1 :: "'a list option list option list"

definition cache_pagecount :: "nat \<Rightarrow> u64 \<Rightarrow> u64" where
  "cache_pagecount sb sz =
     (let msk = push_bit sb 1 - 1; pagecount = drop_bit sb sz
      in if sz AND msk \<noteq> 0 then pagecount + 1 else pagecount)"

definition resize :: "'a memory_cache \<Rightarrow> 'a memory_cache" where
  "resize c = c\<lparr>m_level1 := replicate (unat (cache_pagecount (superBits c) (m_size c))) None\<rparr>"

definition MemoryCache_new :: "nat \<Rightarrow> nat \<Rightarrow> nat \<Rightarrow> u64 \<Rightarrow> u64 \<Rightarrow> 'a memory_cache" where
  "MemoryCache_new ob pb sb start sz =
     resize \<lparr>objBits = ob, pageBits = pb, superBits = sb, m_hostAddrStart = start, m_size = sz,
             m_level1 = []\<rparr>"

text \<open>The copy constructor clones an empty cache.\<close>

definition MemoryCache_copy :: "'a memory_cache \<Rightarrow> 'a memory_cache" where
  "MemoryCache_copy one =
     MemoryCache_new (objBits one) (pageBits one) (superBits one) (m_hostAddrStart one) (m_size one)"

definition flushCache :: "'a memory_cache \<Rightarrow> 'a memory_cache" where
  "flushCache c = c\<lparr>m_level1 := map (\<lambda>_. None) (m_level1 c)\<rparr>"

definition cache_contains :: "u64 \<Rightarrow> 'a memory_cache \<Rightarrow> bool" where
  "cache_contains a c \<longleftrightarrow> m_hostAddrStart c \<le> a \<and> a < m_hostAddrStart c + m_size c"

text \<open>The three indices of an address.\<close>

definition level1_of :: "'a memory_cache \<Rightarrow> u64 \<Rightarrow> nat" where
  "level1_of c a = unat (drop_bit (superBits c) (a - m_hostAddrStart c))"

definition level2_of :: "'a memory_cache \<Rightarrow> u64 \<Rightarrow> nat" where
  "level2_of c a =
     unat (drop_bit (pageBits c) ((a - m_hostAddrStart c) AND (push_bit (superBits c) 1 - 1)))"

definition level3_of :: "'a memory_cache \<Rightarrow> u64 \<Rightarrow> nat" where
  "level3_of c a =
     unat (drop_bit (objBits c) (a - m_hostAddrStart c) AND (push_bit (pageBits c - objBits c) 1 - 1))"

definition SecondLevel_new :: "'a memory_cache \<Rightarrow> 'a list option list" where
  "SecondLevel_new c = replicate (2 ^ (superBits c - pageBits c)) None"

definition ThirdLevel_new :: "'a \<Rightarrow> 'a memory_cache \<Rightarrow> 'a list" where
  "ThirdLevel_new dflt c = replicate (2 ^ (pageBits c - objBits c)) dflt"

text \<open>\<open>dflt\<close> is the value-initialised object \<open>T()\<close>.\<close>

definition cache_put :: "'a \<Rightarrow> u64 \<Rightarrow> 'a \<Rightarrow> 'a memory_cache \<Rightarrow> 'a memory_cache res" where
  "cache_put dflt a obj c =
     rbind (ensure_defined (level1_of c a < length (m_level1 c))) (\<lambda>_.
       let l2 = (case m_level1 c ! level1_of c a of None \<Rightarrow> SecondLevel_new c | Some l \<Rightarrow> l) in
       rbind (ensure_defined (level2_of c a < length l2)) (\<lambda>_.
         let l3 = (case l2 ! level2_of c a of None \<Rightarrow> ThirdLevel_new dflt c | Some l \<Rightarrow> l) in
         rbind (assert_that (level3_of c a < 2 ^ (pageBits c - objBits c))) (\<lambda>_.
         rbind (ensure_defined (level3_of c a < length l3)) (\<lambda>_.
           Inr (c\<lparr>m_level1 := (m_level1 c)[level1_of c a :=
                  Some (l2[level2_of c a := Some (l3[level3_of c a := obj])])]\<rparr>)))))"

definition cache_getArray :: "u64 \<Rightarrow> 'a memory_cache \<Rightarrow> 'a list option res" where
  "cache_getArray a c =
     rbind (ensure_defined (level1_of c a < length (m_level1 c))) (\<lambda>_.
       case m_level1 c ! level1_of c a of
         None \<Rightarrow> Inr None
       | Some l2 \<Rightarrow>
           rbind (ensure_defined (level2_of c a < length l2)) (\<lambda>_. Inr (l2 ! level2_of c a)))"

definition cache_get :: "'a \<Rightarrow> u64 \<Rightarrow> 'a memory_cache \<Rightarrow> 'a res" where
  "cache_get dflt a c =
     rbind (ensure_defined (level1_of c a < length (m_level1 c))) (\<lambda>_.
       case m_level1 c ! level1_of c a of
         None \<Rightarrow> Inr dflt
       | Some l2 \<Rightarrow>
           rbind (ensure_defined (level2_of c a < length l2)) (\<lambda>_.
             case l2 ! level2_of c a of
               None \<Rightarrow> Inr dflt
             | Some l3 \<Rightarrow>
                 rbind (ensure_defined (level3_of c a < length l3)) (\<lambda>_. Inr (l3 ! level3_of c a))))"

section \<open>The pool\<close>

type_synonym 'a pool = "'a memory_cache list"

definition pool_copy :: "'a pool \<Rightarrow> 'a pool" where
  "pool_copy one = map MemoryCache_copy one"

text \<open>The loop of \<open>registerPool\<close> that finds the place to insert.\<close>

fun insert_by_size :: "'a memory_cache \<Rightarrow> 'a pool \<Rightarrow> 'a pool" where
  "insert_by_size mc [] = [mc]"
| "insert_by_size mc (c # cs) =
     (if m_size mc > m_size c then mc # c # cs else c # insert_by_size mc cs)"

definition registerPool :: "nat \<Rightarrow> nat \<Rightarrow> nat \<Rightarrow> u64 \<Rightarrow> u64 \<Rightarrow> 'a pool \<Rightarrow> 'a pool res" where
  "registerPool ob pb sb start sz cs =
     rbind (assert_that (start AND (push_bit pb 1 - 1) = 0)) (\<lambda>_.
       Inr (insert_by_size (MemoryCache_new ob pb sb start sz) cs))"

fun pool_put :: "'a \<Rightarrow> u64 \<Rightarrow> 'a \<Rightarrow> 'a pool \<Rightarrow> 'a pool res" where
  "pool_put dflt a obj [] = Inr []"
| "pool_put dflt a obj (c # cs) =
     (if cache_contains a c then rbind (cache_put dflt a obj c) (\<lambda>c'. Inr (c' # cs))
      else rbind (pool_put dflt a obj cs) (\<lambda>cs'. Inr (c # cs')))"

fun pool_getArray :: "u64 \<Rightarrow> 'a pool \<Rightarrow> 'a list option res" where
  "pool_getArray a [] = Inr None"
| "pool_getArray a (c # cs) = (if cache_contains a c then cache_getArray a c else pool_getArray a cs)"

fun pool_get :: "'a \<Rightarrow> u64 \<Rightarrow> 'a pool \<Rightarrow> 'a res" where
  "pool_get dflt a [] = Inr dflt"
| "pool_get dflt a (c # cs) = (if cache_contains a c then cache_get dflt a c else pool_get dflt a cs)"

section \<open>Indices\<close>

definition bits_ok :: "'a memory_cache \<Rightarrow> bool" where
  "bits_ok c \<longleftrightarrow> objBits c \<le> pageBits c \<and> pageBits c \<le> superBits c \<and> superBits c < 31"

lemma unat_low_bits:
  assumes "n < 64"
  shows "unat ((x :: u64) AND (push_bit n 1 - 1)) = unat x mod 2 ^ n"
proof -
  have "(push_bit n 1 - 1 :: u64) = mask n" by (simp add: mask_eq_exp_minus_1)
  then have "x AND (push_bit n 1 - 1) = take_bit n x" by (simp add: take_bit_eq_mask)
  moreover have "unat (take_bit n x) = take_bit n (unat x)" by (rule unsigned_take_bit_eq)
  moreover have "take_bit n (unat x) = unat x mod 2 ^ n" by (rule take_bit_eq_mod)
  ultimately show ?thesis by simp
qed

lemma unat_high_bits: "unat (drop_bit n (x :: u64)) = unat x div 2 ^ n"
  using unat_drop_bit_eq [of n x] drop_bit_eq_div [of n "unat x"] by simp

definition obj_index :: "'a memory_cache \<Rightarrow> u64 \<Rightarrow> nat" where
  "obj_index c a = unat (a - m_hostAddrStart c) div 2 ^ objBits c"

text \<open>The indices are those of the object in the table read as one array.\<close>

lemma level_indices:
  assumes "bits_ok c"
  shows "level1_of c a = obj_index c a div 2 ^ (superBits c - objBits c)"
    "level2_of c a = obj_index c a mod 2 ^ (superBits c - objBits c) div 2 ^ (pageBits c - objBits c)"
    "level3_of c a = obj_index c a mod 2 ^ (pageBits c - objBits c)"
proof -
  let ?o = "unat (a - m_hostAddrStart c)"
  obtain d e where d: "pageBits c = objBits c + d" "superBits c = pageBits c + e"
    using assms by (auto simp: bits_ok_def dest!: le_Suc_ex)
  show "level1_of c a = obj_index c a div 2 ^ (superBits c - objBits c)"
    by (simp add: level1_of_def unat_high_bits obj_index_def d power_add div_mult2_eq mult.assoc)
  have "?o mod 2 ^ superBits c div 2 ^ pageBits c =
      ?o div 2 ^ objBits c mod 2 ^ (superBits c - objBits c) div 2 ^ (pageBits c - objBits c)"
    by (simp add: d power_add mod_mult2_eq div_mult2_eq mult.assoc)
  moreover have "level2_of c a = ?o mod 2 ^ superBits c div 2 ^ pageBits c"
    unfolding level2_of_def unat_high_bits using assms by (subst unat_low_bits) (simp_all add: bits_ok_def)
  ultimately show "level2_of c a = obj_index c a mod 2 ^ (superBits c - objBits c) div 2 ^ (pageBits c - objBits c)"
    by (simp add: obj_index_def)
  show "level3_of c a = obj_index c a mod 2 ^ (pageBits c - objBits c)"
    unfolding level3_of_def obj_index_def unat_high_bits [symmetric]
    using assms by (intro unat_low_bits) (auto simp: bits_ok_def)
qed

lemma obj_index_levels:
  assumes "bits_ok c"
  shows "obj_index c a = obj_index c b \<longleftrightarrow>
    level1_of c a = level1_of c b \<and> level2_of c a = level2_of c b \<and> level3_of c a = level3_of c b"
proof
  assume *: "level1_of c a = level1_of c b \<and> level2_of c a = level2_of c b \<and> level3_of c a = level3_of c b"
  let ?s = "superBits c - objBits c" and ?p = "pageBits c - objBits c"
  have dv: "(2 :: nat) ^ ?p dvd 2 ^ ?s" using assms by (auto simp: bits_ok_def intro!: le_imp_power_dvd)
  have "x = x div 2 ^ ?s * 2 ^ ?s + (x mod 2 ^ ?s div 2 ^ ?p * 2 ^ ?p + x mod 2 ^ ?p)" for x :: nat
    using mod_mod_cancel [OF dv, of x] by (metis div_mult_mod_eq)
  with * show "obj_index c a = obj_index c b" by (metis level_indices [OF assms])
qed (simp add: level_indices [OF assms])

text \<open>Well-formed tables: every level has the size its index needs.\<close>

definition cache_inv :: "'a memory_cache \<Rightarrow> bool" where
  "cache_inv c \<longleftrightarrow> bits_ok c \<and>
     unat (m_hostAddrStart c) + unat (m_size c) < 2 ^ 64 \<and>
     unat (m_size c) \<le> length (m_level1 c) * 2 ^ superBits c \<and>
     (\<forall>l2. Some l2 \<in> set (m_level1 c) \<longrightarrow> length l2 = 2 ^ (superBits c - pageBits c) \<and>
       (\<forall>l3. Some l3 \<in> set l2 \<longrightarrow> length l3 = 2 ^ (pageBits c - objBits c)))"

lemma contains_unat:
  assumes "cache_inv c"
  shows "cache_contains a c \<longleftrightarrow> unat (m_hostAddrStart c) \<le> unat a \<and>
    unat a < unat (m_hostAddrStart c) + unat (m_size c)"
  using assms by (simp add: cache_contains_def cache_inv_def word_le_nat_alt word_less_nat_alt unat_word_ariths)

lemma index_bounds:
  assumes inv: "cache_inv c" and a: "cache_contains a c"
  shows "level1_of c a < length (m_level1 c)" "level2_of c a < 2 ^ (superBits c - pageBits c)"
    "level3_of c a < 2 ^ (pageBits c - objBits c)"
proof -
  have b: "bits_ok c" using inv by (simp add: cache_inv_def)
  have "unat (a - m_hostAddrStart c) < unat (m_size c)"
    using a contains_unat [OF inv, of a] by (auto simp: unat_sub_if')
  also have "\<dots> \<le> length (m_level1 c) * 2 ^ superBits c" using inv by (simp add: cache_inv_def)
  finally show "level1_of c a < length (m_level1 c)"
    by (simp add: level1_of_def unat_high_bits div_less_iff_less_mult)
  have "(2 :: nat) ^ (superBits c - objBits c) = 2 ^ (superBits c - pageBits c) * 2 ^ (pageBits c - objBits c)"
    using b by (simp add: bits_ok_def flip: power_add)
  then show "level2_of c a < 2 ^ (superBits c - pageBits c)"
    by (simp add: level_indices [OF b] div_less_iff_less_mult)
  show "level3_of c a < 2 ^ (pageBits c - objBits c)" by (simp add: level_indices [OF b])
qed

text \<open>The content of a table as a function from the three indices.\<close>

definition cell :: "'a \<Rightarrow> 'a memory_cache \<Rightarrow> nat \<Rightarrow> nat \<Rightarrow> nat \<Rightarrow> 'a" where
  "cell dflt c i j k = (case m_level1 c ! i of None \<Rightarrow> dflt
     | Some l2 \<Rightarrow> (case l2 ! j of None \<Rightarrow> dflt | Some l3 \<Rightarrow> l3 ! k))"

lemma cache_level2:
  assumes "cache_inv c" "i < length (m_level1 c)" "m_level1 c ! i = Some l2"
  shows "length l2 = 2 ^ (superBits c - pageBits c)"
    "j < length l2 \<Longrightarrow> l2 ! j = Some l3 \<Longrightarrow> length l3 = 2 ^ (pageBits c - objBits c)"
  using assms by (metis cache_inv_def nth_mem)+

lemma cache_get_cell:
  assumes inv: "cache_inv c" and a: "cache_contains a c"
  shows "cache_get dflt a c = Inr (cell dflt c (level1_of c a) (level2_of c a) (level3_of c a))"
proof -
  note b = index_bounds [OF inv a]
  show ?thesis
    using b cache_level2 [OF inv b(1)]
    by (auto simp: cache_get_def cell_def split: option.splits)
qed

lemma cache_put_spec:
  assumes inv: "cache_inv c" and a: "cache_contains a c"
  shows "\<exists>c'. cache_put dflt a obj c = Inr c' \<and> cache_inv c' \<and>
    objBits c' = objBits c \<and> pageBits c' = pageBits c \<and> superBits c' = superBits c \<and>
    m_hostAddrStart c' = m_hostAddrStart c \<and> m_size c' = m_size c \<and>
    (\<forall>i j k. i < length (m_level1 c) \<longrightarrow> j < 2 ^ (superBits c - pageBits c) \<longrightarrow>
      k < 2 ^ (pageBits c - objBits c) \<longrightarrow>
      cell dflt c' i j k = (if i = level1_of c a \<and> j = level2_of c a \<and> k = level3_of c a
                            then obj else cell dflt c i j k))"
proof -
  let ?i = "level1_of c a" and ?j = "level2_of c a" and ?k = "level3_of c a"
  note b = index_bounds [OF inv a]
  let ?l2 = "case m_level1 c ! ?i of None \<Rightarrow> SecondLevel_new c | Some l \<Rightarrow> l"
  let ?l3 = "case ?l2 ! ?j of None \<Rightarrow> ThirdLevel_new dflt c | Some l \<Rightarrow> l"
  let ?c = "c\<lparr>m_level1 := (m_level1 c)[?i := Some (?l2[?j := Some (?l3[?k := obj])])]\<rparr>"
  have l2: "length ?l2 = 2 ^ (superBits c - pageBits c)"
    using cache_level2(1) [OF inv b(1)] by (auto simp: SecondLevel_new_def split: option.splits)
  have l3s: "length l3 = 2 ^ (pageBits c - objBits c)" if "Some l3 \<in> set ?l2" for l3
    using that cache_level2 [OF inv b(1)]
    by (auto simp: SecondLevel_new_def in_set_conv_nth split: option.splits)
  have l3: "length ?l3 = 2 ^ (pageBits c - objBits c)"
  proof (cases "?l2 ! ?j")
    case None
    then show ?thesis by (simp add: ThirdLevel_new_def)
  next
    case (Some l)
    then have "Some l \<in> set ?l2" using b(2) l2 by (metis nth_mem)
    with Some l3s show ?thesis by simp
  qed
  have put: "cache_put dflt a obj c = Inr ?c"
    using b l2 l3 by (simp add: cache_put_def Let_def)
  have new2: "length (?l2[?j := Some (?l3[?k := obj])]) = 2 ^ (superBits c - pageBits c) \<and>
      (\<forall>l. Some l \<in> set (?l2[?j := Some (?l3[?k := obj])]) \<longrightarrow> length l = 2 ^ (pageBits c - objBits c))"
    using l2 l3 l3s by (auto dest!: set_update_subset_insert [THEN subsetD])
  have "cache_inv ?c"
    using inv new2 unfolding cache_inv_def bits_ok_def
    by (auto dest!: set_update_subset_insert [THEN subsetD])
  moreover have "cell dflt ?c i j k = (if i = ?i \<and> j = ?j \<and> k = ?k then obj else cell dflt c i j k)"
    if "i < length (m_level1 c)" "j < 2 ^ (superBits c - pageBits c)" "k < 2 ^ (pageBits c - objBits c)" for i j k
  proof (cases "i = ?i \<and> j = ?j")
    case True
    then have "cell dflt ?c i j k = ?l3[?k := obj] ! k" using b l2 by (simp add: cell_def)
    moreover have "?l3 ! k = cell dflt c i j k"
      using True that b by (auto simp: cell_def SecondLevel_new_def ThirdLevel_new_def split: option.splits)
    ultimately show ?thesis using True that(3) l3 by (simp add: nth_list_update)
  next
    case False
    then show ?thesis using that b l2
      by (auto simp: cell_def nth_list_update SecondLevel_new_def split: option.splits)
  qed
  ultimately show ?thesis using put by auto
qed

section \<open>The contract: lookup after update\<close>

fun run_puts :: "('k \<Rightarrow> 'v \<Rightarrow> 's \<Rightarrow> 's res) \<Rightarrow> ('k \<times> 'v) list \<Rightarrow> 's \<Rightarrow> 's res" where
  "run_puts put [] s = Inr s"
| "run_puts put ((a, v) # avs) s = rbind (put a v s) (run_puts put avs)"

lemma find_snoc:
  "find P (xs @ [x]) = (case find P xs of None \<Rightarrow> (if P x then Some x else None) | Some y \<Rightarrow> Some y)"
  by (induction xs) auto

text \<open>
  A table keeps one value per class of addresses; \<open>same s a b\<close> says that \<open>a\<close> and \<open>b\<close> lie in one
  object.
\<close>

locale object_table =
  fixes inv :: "'s \<Rightarrow> bool"
    and covers :: "'s \<Rightarrow> 'k \<Rightarrow> bool"
    and same :: "'s \<Rightarrow> 'k \<Rightarrow> 'k \<Rightarrow> bool"
    and get :: "'k \<Rightarrow> 's \<Rightarrow> 'v res"
    and put :: "'k \<Rightarrow> 'v \<Rightarrow> 's \<Rightarrow> 's res"
  assumes put_ok: "inv s \<Longrightarrow> covers s a \<Longrightarrow>
      \<exists>s'. put a v s = Inr s' \<and> inv s' \<and> covers s' = covers s \<and> same s' = same s \<and>
        (\<forall>b. covers s b \<longrightarrow> get b s' = (if same s a b then Inr v else get b s))"
begin

text \<open>After any sequence of updates a lookup finds the last one to the object.\<close>

lemma get_after_puts:
  assumes "inv s" "\<And>a v. (a, v) \<in> set avs \<Longrightarrow> covers s a" "covers s b"
  shows "\<exists>s'. run_puts put avs s = Inr s' \<and> inv s' \<and>
    get b s' = (case find (\<lambda>(a, v). same s a b) (rev avs) of None \<Rightarrow> get b s | Some (a, v) \<Rightarrow> Inr v)"
  using assms(1,2,3)
proof (induction avs arbitrary: s)
  case Nil
  then show ?case by simp
next
  case (Cons av avs)
  obtain a v where av: "av = (a, v)" by (cases av)
  have "covers s a" using Cons.prems(2) av by auto
  from put_ok [OF Cons.prems(1) this, of v] obtain s1 where
    s1: "put a v s = Inr s1" "inv s1" "covers s1 = covers s" "same s1 = same s"
      "get b s1 = (if same s a b then Inr v else get b s)" using Cons.prems(3) by blast
  have "covers s1 a'" if "(a', v') \<in> set avs" for a' v'
    using that Cons.prems(2) [of a' v'] s1(3) by simp
  from Cons.IH [OF s1(2) this] s1 Cons.prems(3) show ?case
    by (auto simp: av find_snoc split: option.splits)
qed

end

interpretation table: object_table cache_inv "\<lambda>c a. cache_contains a c"
  "\<lambda>c a b. obj_index c a = obj_index c b" "cache_get dflt" "cache_put dflt" for dflt
proof unfold_locales
  fix c :: "'a memory_cache" and a v
  assume inv: "cache_inv c" and a: "cache_contains a c"
  from cache_put_spec [OF inv a, where dflt = dflt and obj = v] obtain c' where
    c': "cache_put dflt a v c = Inr c'" "cache_inv c'"
    "objBits c' = objBits c" "pageBits c' = pageBits c" "superBits c' = superBits c"
    "m_hostAddrStart c' = m_hostAddrStart c" "m_size c' = m_size c" and
    cell: "\<And>i j k. i < length (m_level1 c) \<Longrightarrow> j < 2 ^ (superBits c - pageBits c) \<Longrightarrow>
      k < 2 ^ (pageBits c - objBits c) \<Longrightarrow>
      cell dflt c' i j k = (if i = level1_of c a \<and> j = level2_of c a \<and> k = level3_of c a
                            then v else cell dflt c i j k)" by blast
  have idx: "cache_contains b c' = cache_contains b c" "level1_of c' b = level1_of c b"
    "level2_of c' b = level2_of c b" "level3_of c' b = level3_of c b" "obj_index c' b = obj_index c b" for b
    by (simp_all add: cache_contains_def level1_of_def level2_of_def level3_of_def obj_index_def c')
  have bits: "bits_ok c" using inv by (simp add: cache_inv_def)
  have "cache_get dflt b c' = (if obj_index c a = obj_index c b then Inr v else cache_get dflt b c)"
    if b: "cache_contains b c" for b
    using cell [OF index_bounds [OF inv b]] cache_get_cell [OF inv b, of dflt]
      cache_get_cell [OF c'(2), of b dflt] b
    by (auto simp: idx obj_index_levels [OF bits])
  with c'(1,2) show "\<exists>c'. cache_put dflt a v c = Inr c' \<and> cache_inv c' \<and>
      (\<lambda>a. cache_contains a c') = (\<lambda>a. cache_contains a c) \<and>
      (\<lambda>a b. obj_index c' a = obj_index c' b) = (\<lambda>a b. obj_index c a = obj_index c b) \<and>
      (\<forall>b. cache_contains b c \<longrightarrow>
        cache_get dflt b c' = (if obj_index c a = obj_index c b then Inr v else cache_get dflt b c))"
    by (simp add: idx)
qed

section \<open>The pool meets the same contract\<close>

definition pool_inv :: "'a pool \<Rightarrow> bool" where
  "pool_inv cs \<longleftrightarrow> (\<forall>c\<in>set cs. cache_inv c) \<and> sorted_wrt (\<lambda>c d. m_size d \<le> m_size c) cs"

definition pool_covers :: "'a pool \<Rightarrow> u64 \<Rightarrow> bool" where
  "pool_covers cs a \<longleftrightarrow> list_ex (cache_contains a) cs"

fun pool_same :: "'a pool \<Rightarrow> u64 \<Rightarrow> u64 \<Rightarrow> bool" where
  "pool_same [] a b = False"
| "pool_same (c # cs) a b =
     (if cache_contains a c \<or> cache_contains b c
      then cache_contains a c \<and> cache_contains b c \<and> obj_index c a = obj_index c b
      else pool_same cs a b)"

lemma cache_put_config:
  assumes "cache_put dflt a v c = Inr c'"
  shows "m_size c' = m_size c" "m_hostAddrStart c' = m_hostAddrStart c" "objBits c' = objBits c"
  using assms by (auto simp: cache_put_def rbind_Inr_iff Let_def)

lemma pool_put_sizes:
  "pool_put dflt a v cs = Inr cs' \<Longrightarrow> map m_size cs' = map m_size cs"
proof (induction cs arbitrary: cs')
  case (Cons c cs)
  then show ?case by (auto simp: rbind_Inr_iff cache_put_config split: if_splits)
qed simp

lemma sorted_sizes:
  "sorted_wrt (\<lambda>c d. m_size d \<le> m_size c) cs \<longleftrightarrow> sorted_wrt (\<lambda>x y. y \<le> x) (map m_size cs)"
  by (simp add: sorted_wrt_map)

interpretation pool: object_table pool_inv pool_covers pool_same "pool_get dflt" "pool_put dflt" for dflt
proof unfold_locales
  fix cs :: "'a pool" and a v
  have "\<forall>c\<in>set cs. cache_inv c \<Longrightarrow> pool_covers cs a \<Longrightarrow>
     \<exists>cs'. pool_put dflt a v cs = Inr cs' \<and> (\<forall>c\<in>set cs'. cache_inv c) \<and>
       pool_covers cs' = pool_covers cs \<and> pool_same cs' = pool_same cs \<and>
       (\<forall>b. pool_covers cs b \<longrightarrow>
         pool_get dflt b cs' = (if pool_same cs a b then Inr v else pool_get dflt b cs))"
  proof (induction cs)
    case Nil
    then show ?case by (simp add: pool_covers_def)
  next
    case (Cons c cs)
    show ?case
    proof (cases "cache_contains a c")
      case True
      from table.put_ok [of c a dflt v] True Cons.prems(1) obtain c' where
        c': "cache_put dflt a v c = Inr c'" "cache_inv c'" "\<And>b. cache_contains b c' = cache_contains b c"
        "\<And>b. cache_contains b c \<Longrightarrow>
          cache_get dflt b c' = (if obj_index c a = obj_index c b then Inr v else cache_get dflt b c)"
        by (auto simp: fun_eq_iff)
      have obj: "obj_index c' = obj_index c"
        using cache_put_config [OF c'(1)] by (intro ext) (simp add: obj_index_def)
      have "pool_covers (c' # cs) = pool_covers (c # cs)" "pool_same (c' # cs) = pool_same (c # cs)"
        by (intro ext; simp add: pool_covers_def c'(3) obj)+
      moreover have "pool_put dflt a v (c # cs) = Inr (c' # cs)" using True c'(1) by simp
      moreover have "pool_get dflt b (c' # cs) = (if pool_same (c # cs) a b then Inr v else pool_get dflt b (c # cs))" for b
        using True c'(3,4) by auto
      ultimately show ?thesis using Cons.prems(1) c'(2)
        by (intro exI [of _ "c' # cs"]) (simp del: pool_same.simps pool_put.simps pool_get.simps)
    next
      case False
      then have "pool_covers cs a" using Cons.prems(2) by (simp add: pool_covers_def)
      with Cons.IH Cons.prems(1) obtain cs' where
        cs': "pool_put dflt a v cs = Inr cs'" "\<forall>c\<in>set cs'. cache_inv c" "pool_covers cs' = pool_covers cs"
        "pool_same cs' = pool_same cs"
        "\<And>b. pool_covers cs b \<Longrightarrow> pool_get dflt b cs' = (if pool_same cs a b then Inr v else pool_get dflt b cs)"
        by auto
      have "pool_covers (c # cs') = pool_covers (c # cs)" "pool_same (c # cs') = pool_same (c # cs)"
        using cs'(3,4) by (auto simp: pool_covers_def fun_eq_iff)
      moreover have "pool_put dflt a v (c # cs) = Inr (c # cs')" using False cs'(1) by simp
      moreover have "pool_get dflt b (c # cs') = (if pool_same (c # cs) a b then Inr v else pool_get dflt b (c # cs))"
        if "pool_covers (c # cs) b" for b
        using that False cs'(5) [of b] by (auto simp: pool_covers_def)
      ultimately show ?thesis using Cons.prems(1) cs'(2)
        by (intro exI [of _ "c # cs'"]) (simp del: pool_same.simps pool_put.simps pool_get.simps)
    qed
  qed
  moreover assume "pool_inv cs" "pool_covers cs a"
  ultimately obtain cs' where "pool_put dflt a v cs = Inr cs'" "\<forall>c\<in>set cs'. cache_inv c"
    "pool_covers cs' = pool_covers cs" "pool_same cs' = pool_same cs"
    "\<forall>b. pool_covers cs b \<longrightarrow> pool_get dflt b cs' = (if pool_same cs a b then Inr v else pool_get dflt b cs)"
    by (auto simp: pool_inv_def)
  moreover from this(1) have "pool_inv cs'"
    using \<open>pool_inv cs\<close> \<open>\<forall>c\<in>set cs'. cache_inv c\<close> pool_put_sizes [of dflt a v cs cs']
    by (simp add: pool_inv_def sorted_sizes)
  ultimately show "\<exists>cs'. pool_put dflt a v cs = Inr cs' \<and> pool_inv cs' \<and>
      pool_covers cs' = pool_covers cs \<and> pool_same cs' = pool_same cs \<and>
      (\<forall>b. pool_covers cs b \<longrightarrow>
         pool_get dflt b cs' = (if pool_same cs a b then Inr v else pool_get dflt b cs))"
    by auto
qed

section \<open>Registering a region\<close>

lemma insert_by_size_set: "set (insert_by_size mc cs) = insert mc (set cs)"
  by (induction cs) auto

lemma insert_by_size_sorted:
  "sorted_wrt (\<lambda>c d. m_size d \<le> m_size c) cs \<Longrightarrow>
   sorted_wrt (\<lambda>c d. m_size d \<le> m_size c) (insert_by_size mc cs)"
  by (induction cs) (auto simp: insert_by_size_set)

lemma new_cache_inv:
  assumes "ob \<le> pb" "pb \<le> sb" "sb < 31" "unat start + unat sz < 2 ^ 64"
  shows "cache_inv (MemoryCache_new ob pb sb start sz)"
proof -
  have s64: "sb < 64" using assms by simp
  have m: "unat (sz AND (push_bit sb 1 - 1)) = unat sz mod 2 ^ sb" by (rule unat_low_bits [OF s64])
  have d: "unat (drop_bit sb sz) = unat sz div 2 ^ sb" by (rule unat_high_bits)
  have "unat sz \<le> unat (cache_pagecount sb sz) * 2 ^ sb"
  proof (cases "sz AND (push_bit sb 1 - 1) = 0")
    case True
    then have "unat sz mod 2 ^ sb = 0" using m by (metis unat_0)
    then show ?thesis using True d div_mult_mod_eq [of "unat sz" "2 ^ sb"]
      by (simp add: cache_pagecount_def)
  next
    case False
    have "unat sz div 2 ^ sb < 2 ^ 64 - 1 \<or> sb = 0"
    proof (cases sb)
      case (Suc k)
      have "unat sz div 2 ^ sb \<le> unat sz div 2" using Suc by (intro div_le_mono2) simp_all
      also have "\<dots> < 2 ^ 64 - 1" using unsigned_less [of sz, where ?'a = nat] by simp
      finally show ?thesis ..
    qed simp
    moreover have "sb \<noteq> 0" using False by (cases sb) auto
    ultimately have "unat (drop_bit sb sz + 1) = unat sz div 2 ^ sb + 1"
      using d by (simp add: unat_word_ariths)
    moreover have "unat sz \<le> (unat sz div 2 ^ sb + 1) * 2 ^ sb"
      using dividend_less_times_div [of "2 ^ sb" "unat sz"] by (simp add: mult.commute)
    ultimately show ?thesis using False by (simp add: cache_pagecount_def)
  qed
  then show ?thesis using assms
    by (auto simp: cache_inv_def MemoryCache_new_def resize_def bits_ok_def)
qed

lemma register_inv:
  assumes "pool_inv cs" "ob \<le> pb" "pb \<le> sb" "sb < 31" "unat start + unat sz < 2 ^ 64"
    "registerPool ob pb sb start sz cs = Inr cs'"
  shows "pool_inv cs'"
  using assms new_cache_inv [OF assms(2-5)]
  by (auto simp: pool_inv_def registerPool_def rbind_Inr_iff insert_by_size_set insert_by_size_sorted)

section \<open>Properties\<close>

text \<open>C4: In a pool of registered regions, after any sequence of updates at covered addresses a
  lookup returns the last value put for the object the address lies in, and what it returned
  before when there was none; no update fails.\<close>

theorem pool_get_after_puts:
  assumes "pool_inv cs" "\<And>a v. (a, v) \<in> set avs \<Longrightarrow> pool_covers cs a" "pool_covers cs b"
  shows "\<exists>cs'. run_puts (pool_put dflt) avs cs = Inr cs' \<and> pool_inv cs' \<and>
    pool_get dflt b cs' = (case find (\<lambda>(a, v). pool_same cs a b) (rev avs) of
      None \<Rightarrow> pool_get dflt b cs | Some (a, v) \<Rightarrow> Inr v)"
  using assms by (rule pool.get_after_puts)

text \<open>Registering a region keeps the pool ordered by decreasing size and well formed, so that
  the largest region, the RAM, is the first one a lookup tries.\<close>

theorem registerPool_keeps_order:
  assumes "pool_inv cs" "ob \<le> pb" "pb \<le> sb" "sb < 31" "unat start + unat sz < 2 ^ 64"
    "unat start mod 2 ^ pb = 0"
  shows "\<exists>cs'. registerPool ob pb sb start sz cs = Inr cs' \<and> pool_inv cs' \<and>
    length cs' = Suc (length cs) \<and> (\<forall>c\<in>set cs'. m_size c \<le> m_size (hd cs')) \<and>
    (\<forall>a. pool_covers cs' a \<longleftrightarrow> pool_covers cs a \<or> start \<le> a \<and> a < start + sz)"
proof -
  let ?mc = "MemoryCache_new ob pb sb start sz"
  let ?cs = "insert_by_size ?mc cs"
  have "unat (start AND (push_bit pb 1 - 1)) = 0" using assms(3,4,6) by (subst unat_low_bits) auto
  then have "start AND (push_bit pb 1 - 1) = 0" by (simp add: word_unat_eq_iff)
  then have run: "registerPool ob pb sb start sz cs = Inr ?cs" by (simp add: registerPool_def)
  then have inv: "pool_inv ?cs" using register_inv [OF assms(1-5)] by simp
  have "?cs \<noteq> []" using insert_by_size_set [of ?mc cs] by auto
  then have "\<forall>c\<in>set ?cs. m_size c \<le> m_size (hd ?cs)" using inv by (cases ?cs) (auto simp: pool_inv_def)
  moreover have "length ?cs = Suc (length cs)" by (induction cs) auto
  moreover have "pool_covers ?cs a \<longleftrightarrow> pool_covers cs a \<or> start \<le> a \<and> a < start + sz" for a
    by (auto simp: pool_covers_def list_ex_iff insert_by_size_set cache_contains_def
      MemoryCache_new_def resize_def)
  ultimately show ?thesis using run inv by blast
qed

definition two_regions :: "nat pool" where
  "two_regions = [MemoryCache_new 7 12 20 0x10000000 0x100000, MemoryCache_new 7 12 20 0x40000000 0x1000]"

lemma two_regions_inv: "pool_inv two_regions"
  by (simp add: pool_inv_def two_regions_def new_cache_inv) (simp add: MemoryCache_new_def resize_def)

theorem registerPool_keeps_order_witness:
  "\<exists>cs'. registerPool 7 12 20 0x80000000 0x80000 two_regions = Inr cs' \<and> pool_inv cs' \<and>
    length cs' = Suc (length two_regions) \<and> (\<forall>c\<in>set cs'. m_size c \<le> m_size (hd cs')) \<and>
    (\<forall>a. pool_covers cs' a \<longleftrightarrow> pool_covers two_regions a \<or> 0x80000000 \<le> a \<and> a < 0x80000000 + 0x80000)"
  by (rule registerPool_keeps_order [OF two_regions_inv]) simp_all

theorem pool_get_after_puts_witness:
  "\<exists>cs'. run_puts (pool_put 0) [(0x10000080, 5), (0x40000000, 6), (0x10000090, 7)] two_regions = Inr cs' \<and>
    pool_inv cs' \<and> pool_get 0 0x100000FF cs' = Inr 7"
proof -
  have m: "m_hostAddrStart (MemoryCache_new ob pb sb st sz) = st" "m_size (MemoryCache_new ob pb sb st sz) = sz"
    "objBits (MemoryCache_new ob pb sb st sz) = ob"
    for ob pb sb st sz by (simp_all add: MemoryCache_new_def resize_def)
  note c = pool_covers_def two_regions_def cache_contains_def m obj_index_def
  let ?avs = "[(0x10000080, 5), (0x40000000, 6), (0x10000090, 7 :: nat)]"
  have find: "find (\<lambda>(a, v). pool_same two_regions a 0x100000FF) (rev ?avs) = Some (0x10000090, 7)"
    by (simp add: c)
  have cov: "pool_covers two_regions a" if "(a, v) \<in> set ?avs" for a v
    using that by (auto simp: c)
  have "pool_covers two_regions 0x100000FF" by (simp add: c)
  from pool_get_after_puts [OF two_regions_inv, where avs = ?avs and dflt = 0, OF cov this]
  show ?thesis unfolding find by simp
qed

end
