(* ===== verification/Synchronization.thy ===== *)
theory Synchronization
  imports S2E_Prelude
begin

text \<open>
  \<open>src/src/s2e/Synchronization.cpp\<close> and \<open>Synchronization.h\<close>: an object in shared memory with a
  process-shared semaphore in front of it, and the atomic operations on 64-bit words. The results
  of \<open>sem_wait\<close> and \<open>sem_trywait\<close> come from the operating system and are a list the loops consume.
\<close>

section \<open>The semaphore\<close>

datatype errno = EINTR | EAGAIN | EDEADLK | ENOSYS | EINVAL

text \<open>One call of \<open>sem_wait\<close>: it got the semaphore, or it failed with an error.\<close>

type_synonym wait_result = "errno option"

record 'a sync_object =
  sem_value :: nat
  shared_object :: 'a

text \<open>The constructors: \<open>mapped\<close> is the address \<open>mmap\<close> returns, \<open>init_ok\<close> whether \<open>sem_init\<close>
  succeeds, and the object is constructed in place.\<close>

definition sync_new :: "u64 \<Rightarrow> bool \<Rightarrow> 'a \<Rightarrow> 'a sync_object res" where
  "sync_new mapped init_ok obj =
     (if mapped = 0 then Inl (Process_Exit (-1))
      else if \<not> init_ok then Inl (Process_Exit (-1))
      else Inr \<lparr>sem_value = 1, shared_object = obj\<rparr>)"

text \<open>\<open>acquire\<close>: the value \<open>None\<close> is a caller that is still waiting when the results end.\<close>

fun acquire :: "wait_result list \<Rightarrow> 'a sync_object \<Rightarrow> ('a \<times> 'a sync_object) option res" where
  "acquire [] so = Inr None"
| "acquire (None # rs) so = Inr (Some (shared_object so, so\<lparr>sem_value := sem_value so - 1\<rparr>))"
| "acquire (Some e # rs) so =
     rbind (assert_that (e \<noteq> EDEADLK \<and> e \<noteq> ENOSYS \<and> e \<noteq> EINVAL)) (\<lambda>_. acquire rs so)"

text \<open>\<open>tryAquire\<close>: the inner option is the null pointer of a semaphore that is taken.\<close>

fun tryAquire :: "wait_result list \<Rightarrow> 'a sync_object \<Rightarrow> ('a option \<times> 'a sync_object) option" where
  "tryAquire [] so = None"
| "tryAquire (None # rs) so = Some (Some (shared_object so), so\<lparr>sem_value := sem_value so - 1\<rparr>)"
| "tryAquire (Some e # rs) so = (if e = EAGAIN then Some (None, so) else tryAquire rs so)"

definition release :: "bool \<Rightarrow> 'a sync_object \<Rightarrow> 'a sync_object res" where
  "release post_ok so =
     rbind (assert_that post_ok) (\<lambda>_. Inr (so\<lparr>sem_value := sem_value so + 1\<rparr>))"

section \<open>Atomic operations\<close>

definition atomic_read :: "u64 \<Rightarrow> (u64 \<Rightarrow> u64) \<Rightarrow> u64 \<times> (u64 \<Rightarrow> u64)" where
  "atomic_read a m = (m a, m(a := m a + 0))"

definition atomic_add :: "u64 \<Rightarrow> u64 \<Rightarrow> (u64 \<Rightarrow> u64) \<Rightarrow> u64 \<Rightarrow> u64" where
  "atomic_add a v m = m(a := m a + v)"

definition atomic_sub :: "u64 \<Rightarrow> u64 \<Rightarrow> (u64 \<Rightarrow> u64) \<Rightarrow> u64 \<Rightarrow> u64" where
  "atomic_sub a v m = m(a := m a - v)"

definition atomic_write :: "u64 \<Rightarrow> u64 \<Rightarrow> (u64 \<Rightarrow> u64) \<Rightarrow> u64 \<Rightarrow> u64" where
  "atomic_write a v m = m(a := v)"

section \<open>Mutual exclusion\<close>

text \<open>
  Processes compete for one object. A call of \<open>acquire\<close> is granted only while the semaphore is
  positive, which is what \<open>sem_wait\<close> is documented to do; a holder writes the object and releases.
\<close>

record 'a contention =
  object_state :: "'a sync_object"
  holders :: "nat list"

inductive contend :: "'a contention \<Rightarrow> 'a contention \<Rightarrow> bool" where
  enter: "0 < sem_value (object_state w) \<Longrightarrow> p \<notin> set (holders w) \<Longrightarrow>
    acquire rs (object_state w) = Inr (Some (x, so)) \<Longrightarrow>
    contend w (w\<lparr>object_state := so, holders := p # holders w\<rparr>)"
| wait: "acquire rs (object_state w) = Inr None \<Longrightarrow> contend w w"
| try_taken: "tryAquire rs (object_state w) = Some (None, so) \<Longrightarrow>
    contend w (w\<lparr>object_state := so\<rparr>)"
| try_enter: "0 < sem_value (object_state w) \<Longrightarrow> p \<notin> set (holders w) \<Longrightarrow>
    tryAquire rs (object_state w) = Some (Some x, so) \<Longrightarrow>
    contend w (w\<lparr>object_state := so, holders := p # holders w\<rparr>)"
| work: "p \<in> set (holders w) \<Longrightarrow>
    contend w (w\<lparr>object_state := (object_state w)\<lparr>shared_object := x\<rparr>\<rparr>)"
| leave: "p \<in> set (holders w) \<Longrightarrow> release True (object_state w) = Inr so \<Longrightarrow>
    contend w (w\<lparr>object_state := so, holders := remove1 p (holders w)\<rparr>)"

inductive contends :: "'a contention \<Rightarrow> 'a contention \<Rightarrow> bool" where
  start: "contends w w"
| step: "contends w w' \<Longrightarrow> contend w' w'' \<Longrightarrow> contends w w''"

inductive_cases contendE: "contend w w'"

lemma acquire_value:
  "acquire rs so = Inr (Some (x, so')) \<Longrightarrow> x = shared_object so \<and> sem_value so' = sem_value so - 1"
  by (induction rs so rule: acquire.induct) (auto simp: rbind_Inr_iff)

lemma tryAquire_value:
  "tryAquire rs so = Some (x, so') \<Longrightarrow>
   (case x of None \<Rightarrow> so' = so | Some y \<Rightarrow> y = shared_object so \<and> sem_value so' = sem_value so - 1)"
  by (induction rs so rule: tryAquire.induct) (auto split: if_splits)

definition lock_inv :: "'a contention \<Rightarrow> bool" where
  "lock_inv w \<longleftrightarrow> sem_value (object_state w) + length (holders w) = 1"

lemma contend_keeps: "contend w w' \<Longrightarrow> lock_inv w \<Longrightarrow> lock_inv w'"
  by (cases rule: contend.cases, assumption)
    (auto simp: lock_inv_def release_def length_remove1 add_is_1 dest!: acquire_value tryAquire_value)

lemma contends_keeps: "contends w w' \<Longrightarrow> lock_inv w \<Longrightarrow> lock_inv w'"
  by (induction rule: contends.induct) (auto intro: contend_keeps)

text \<open>C5: Whatever the processes do, at most one of them at a time is between \<open>acquire\<close> (or a
  successful \<open>tryAquire\<close>) and \<open>release\<close> of a shared object.\<close>

theorem shared_object_exclusive:
  assumes "sync_new mapped init_ok obj = Inr so" "contends \<lparr>object_state = so, holders = []\<rparr> w"
    "p \<in> set (holders w)" "q \<in> set (holders w)"
  shows "p = q \<and> sem_value (object_state w) = 0"
proof -
  have "lock_inv \<lparr>object_state = so, holders = []\<rparr>"
    using assms(1) by (auto simp: sync_new_def lock_inv_def split: if_splits)
  then have "lock_inv w" using contends_keeps [OF assms(2)] by simp
  with assms(3,4) show ?thesis by (cases "holders w") (auto simp: lock_inv_def)
qed

theorem shared_object_exclusive_witness:
  "\<exists>w. contends \<lparr>object_state = \<lparr>sem_value = 1, shared_object = (7 :: nat)\<rparr>, holders = []\<rparr> w \<and>
     3 \<in> set (holders w) \<and> sem_value (object_state w) = 0"
proof -
  let ?so = "\<lparr>sem_value = 1, shared_object = (7 :: nat)\<rparr>"
  have "contend \<lparr>object_state = ?so, holders = []\<rparr>
      \<lparr>object_state = \<lparr>sem_value = 0, shared_object = 7\<rparr>, holders = [3]\<rparr>"
    using contend.enter [of "\<lparr>object_state = ?so, holders = []\<rparr>" 3 "[Some EINTR, None]" 7
      "\<lparr>sem_value = 0, shared_object = 7\<rparr>"] by simp
  then have c: "contends \<lparr>object_state = ?so, holders = []\<rparr>
      \<lparr>object_state = \<lparr>sem_value = 0, shared_object = 7\<rparr>, holders = [3]\<rparr>"
    by (rule contends.step [OF contends.start])
  from shared_object_exclusive [OF _ this, of 1 True 7 3 3] c show ?thesis
    by (intro exI [of _ "\<lparr>object_state = \<lparr>sem_value = 0, shared_object = 7\<rparr>, holders = [3]\<rparr>"])
      (simp add: sync_new_def)
qed

end
