(* ===== verification/Process_Table.thy ===== *)
theory Process_Table
  imports Synchronization "HOL-Library.Multiset"
begin

text \<open>
  The table of S2E processes in shared memory (\<open>src/include/s2e/S2E.h\<close>, \<open>src/src/s2e/S2E.cpp\<close>):
  how processes reserve an index, fork, take a slot, leave, and reap the slots of processes that
  died. Every section of code between \<open>m_sync.acquire()\<close> and \<open>m_sync.release()\<close> is one operation on
  the shared structure, which \<open>shared_object_exclusive\<close> justifies.
\<close>

section \<open>The shared structure\<close>

definition S2E_MAX_PROCESSES :: nat where "S2E_MAX_PROCESSES = 48"

definition none_id :: u32 where "none_id = - 1"

record s2e_shared =
  currentProcessCount :: u32
  lastFileId :: u32
  lastStateId :: u32
  processIds :: "u32 list"
  processPids :: "u32 list"

text \<open>The constructor leaves the counters uninitialised; \<open>junk\<close> stands for them.\<close>

definition S2EShared_new :: "u32 \<times> u32 \<times> u32 \<Rightarrow> s2e_shared" where
  "S2EShared_new junk = (case junk of (c, f, s) \<Rightarrow>
     \<lparr>currentProcessCount = c, lastFileId = f, lastStateId = s,
      processIds = replicate S2E_MAX_PROCESSES none_id,
      processPids = replicate S2E_MAX_PROCESSES none_id\<rparr>)"

definition set_slot :: "nat \<Rightarrow> u32 \<Rightarrow> u32 \<Rightarrow> s2e_shared \<Rightarrow> s2e_shared" where
  "set_slot i idx pid sh =
     sh\<lparr>processIds := (processIds sh)[i := idx], processPids := (processPids sh)[i := pid]\<rparr>"

text \<open>The constructor of \<open>S2E\<close>, as far as the table goes.\<close>

definition S2E_new_table :: "u32 \<Rightarrow> u32 \<Rightarrow> s2e_shared \<Rightarrow> s2e_shared res" where
  "S2E_new_table s2e_max_processes pid sh =
     (if s2e_max_processes < 1 then Inl (Process_Exit 1)
      else if s2e_max_processes > of_nat S2E_MAX_PROCESSES then Inl (Process_Exit 1)
      else Inr (set_slot 0 0 pid
             (sh\<lparr>currentProcessCount := 1, lastStateId := 0, lastFileId := 1\<rparr>)))"

section \<open>Forking\<close>

text \<open>The first section of \<open>fork\<close>: give up, or reserve an index.\<close>

definition fork_reserve :: "u32 \<Rightarrow> s2e_shared \<Rightarrow> u32 option \<times> s2e_shared" where
  "fork_reserve maxProcesses sh =
     (if currentProcessCount sh = maxProcesses then (None, sh)
      else (Some (lastFileId sh),
            sh\<lparr>lastFileId := lastFileId sh + 1, currentProcessCount := currentProcessCount sh + 1\<rparr>))"

definition fork_failed :: "s2e_shared \<Rightarrow> s2e_shared" where
  "fork_failed sh = sh\<lparr>currentProcessCount := currentProcessCount sh - 1\<rparr>"

text \<open>The loop of the child over the slots, and the assertion after it.\<close>

fun find_slot :: "u32 list \<Rightarrow> nat \<Rightarrow> nat list \<Rightarrow> nat" where
  "find_slot ids n [] = n"
| "find_slot ids n (i # is) = (if ids ! i = none_id then i else find_slot ids n is)"

definition fork_child :: "u32 \<Rightarrow> u32 \<Rightarrow> u32 \<Rightarrow> s2e_shared \<Rightarrow> (nat \<times> s2e_shared) res" where
  "fork_child maxProcesses newProcessIndex pid sh =
     (let n = unat maxProcesses; i = find_slot (processIds sh) n [0..<n]
      in rbind (assert_that (i < n)) (\<lambda>_. Inr (i, set_slot i newProcessIndex pid sh)))"

definition fork_result :: "bool \<Rightarrow> u32 option \<Rightarrow> bool \<Rightarrow> int" where
  "fork_result is_child reserved failed =
     (if reserved = None \<or> failed then - 1 else if is_child then 1 else 0)"

section \<open>Leaving, reaping and the counters\<close>

text \<open>The destructor: \<open>slot\<close> is \<open>m_currentProcessId\<close>, \<open>idx\<close> is \<open>m_currentProcessIndex\<close>.\<close>

definition S2E_leave :: "nat \<Rightarrow> u32 \<Rightarrow> s2e_shared \<Rightarrow> s2e_shared res" where
  "S2E_leave slot idx sh =
     rbind (assert_that (processIds sh ! slot = idx)) (\<lambda>_.
       Inr ((set_slot slot none_id none_id sh)\<lparr>currentProcessCount := currentProcessCount sh - 1\<rparr>))"

definition fetchAndIncrementStateId :: "s2e_shared \<Rightarrow> u32 \<times> s2e_shared" where
  "fetchAndIncrementStateId sh = (lastStateId sh, sh\<lparr>lastStateId := lastStateId sh + 1\<rparr>)"

definition fetchNextStateId :: "s2e_shared \<Rightarrow> u32" where
  "fetchNextStateId sh = lastStateId sh"

definition getCurrentProcessCount :: "s2e_shared \<Rightarrow> u32" where
  "getCurrentProcessCount sh = currentProcessCount sh"

definition getProcessIndexForId :: "u32 \<Rightarrow> u32 \<Rightarrow> s2e_shared \<Rightarrow> u32 res" where
  "getProcessIndexForId maxProcesses i sh =
     rbind (assert_that (i < maxProcesses)) (\<lambda>_. Inr (processIds sh ! unat i))"

text \<open>
  \<open>checkDeadProcesses\<close>: \<open>alive\<close> is whether \<open>kill -0\<close> succeeds on a process id. The assignment
  \<open>ret = true\<close> in the loop is to the inner variable \<open>int ret\<close>, which shadows the result.
\<close>

fun check_dead_loop :: "(u32 \<Rightarrow> bool) \<Rightarrow> nat list \<Rightarrow> s2e_shared \<Rightarrow> s2e_shared" where
  "check_dead_loop alive [] sh = sh"
| "check_dead_loop alive (i # is) sh =
     (if processPids sh ! i = none_id then check_dead_loop alive is sh
      else if \<not> alive (processPids sh ! i)
      then check_dead_loop alive is
             ((set_slot i none_id none_id sh)\<lparr>currentProcessCount := currentProcessCount sh - 1\<rparr>)
      else check_dead_loop alive is sh)"

definition checkDeadProcesses :: "u32 \<Rightarrow> (u32 \<Rightarrow> bool) \<Rightarrow> s2e_shared \<Rightarrow> bool \<times> s2e_shared" where
  "checkDeadProcesses maxProcesses alive sh =
     (let ret = False in (ret, check_dead_loop alive [0..<unat maxProcesses] sh))"

section \<open>Processes and their steps\<close>

record process =
  m_currentProcessIndex :: u32
  m_currentProcessId :: nat
  process_pid :: u32

text \<open>
  The system: the shared table, the processes that run, those that died without running the
  destructor and still have their slot, the indices of forks that are under way, the number of
  children that died before they took a slot, and the state ids handed out.
\<close>

record s2e_system =
  table :: s2e_shared
  running :: "process list"
  crashed :: "process list"
  pending :: "u32 list"
  lost :: nat
  issued :: "u32 list"

datatype event =
    Reserve
  | Fork_Fails nat
  | Child_Starts nat u32
  | Child_Dies nat
  | Leaves nat
  | Crashes nat
  | Reaps "u32 list"
  | Fetches_Id

definition without :: "nat \<Rightarrow> 'a list \<Rightarrow> 'a list" where
  "without k xs = take k xs @ drop (Suc k) xs"

text \<open>What the operating system may do: process ids are not \<open>-1\<close>, and \<open>kill -0\<close> succeeds on a
  running process. The counters of 32 bits are taken to be short of their last value.\<close>

fun possible :: "event \<Rightarrow> s2e_system \<Rightarrow> bool" where
  "possible Reserve w = (running w \<noteq> [] \<and> lastFileId (table w) \<noteq> none_id)"
| "possible (Fork_Fails k) w = (k < length (pending w))"
| "possible (Child_Starts k pid) w = (k < length (pending w) \<and> pid \<noteq> none_id)"
| "possible (Child_Dies k) w = (k < length (pending w))"
| "possible (Leaves k) w = (k < length (running w))"
| "possible (Crashes k) w = (k < length (running w))"
| "possible (Reaps pids) w = (\<forall>p\<in>set (running w). process_pid p \<in> set pids)"
| "possible Fetches_Id w = (lastStateId (table w) \<noteq> none_id)"

fun perform :: "u32 \<Rightarrow> event \<Rightarrow> s2e_system \<Rightarrow> s2e_system res" where
  "perform mx Reserve w =
     (case fork_reserve mx (table w) of
        (None, sh) \<Rightarrow> Inr (w\<lparr>table := sh\<rparr>)
      | (Some idx, sh) \<Rightarrow> Inr (w\<lparr>table := sh, pending := idx # pending w\<rparr>))"
| "perform mx (Fork_Fails k) w =
     Inr (w\<lparr>table := fork_failed (table w), pending := without k (pending w)\<rparr>)"
| "perform mx (Child_Starts k pid) w =
     rbind (fork_child mx (pending w ! k) pid (table w)) (\<lambda>(i, sh).
       Inr (w\<lparr>table := sh, pending := without k (pending w),
              running := \<lparr>m_currentProcessIndex = pending w ! k, m_currentProcessId = i, process_pid = pid\<rparr>
                         # running w\<rparr>))"
| "perform mx (Child_Dies k) w = Inr (w\<lparr>pending := without k (pending w), lost := lost w + 1\<rparr>)"
| "perform mx (Leaves k) w =
     (let p = running w ! k in
      rbind (S2E_leave (m_currentProcessId p) (m_currentProcessIndex p) (table w)) (\<lambda>sh.
        Inr (w\<lparr>table := sh, running := without k (running w)\<rparr>)))"
| "perform mx (Crashes k) w =
     Inr (w\<lparr>running := without k (running w), crashed := running w ! k # crashed w\<rparr>)"
| "perform mx (Reaps pids) w =
     Inr (w\<lparr>table := snd (checkDeadProcesses mx (\<lambda>p. p \<in> set pids) (table w)),
            crashed := filter (\<lambda>p. process_pid p \<in> set pids) (crashed w)\<rparr>)"
| "perform mx Fetches_Id w =
     (case fetchAndIncrementStateId (table w) of (i, sh) \<Rightarrow>
        Inr (w\<lparr>table := sh, issued := i # issued w\<rparr>))"

definition initial_system :: "u32 \<Rightarrow> s2e_shared \<Rightarrow> s2e_system" where
  "initial_system pid sh =
     \<lparr>table = sh, running = [\<lparr>m_currentProcessIndex = 0, m_currentProcessId = 0, process_pid = pid\<rparr>],
      crashed = [], pending = [], lost = 0, issued = []\<rparr>"

inductive reached :: "u32 \<Rightarrow> s2e_system \<Rightarrow> bool" for mx where
  initially: "S2E_new_table mx pid (S2EShared_new junk) = Inr sh \<Longrightarrow> pid \<noteq> none_id \<Longrightarrow>
    reached mx (initial_system pid sh)"
| after: "reached mx w \<Longrightarrow> possible ev w \<Longrightarrow> perform mx ev w = Inr w' \<Longrightarrow> reached mx w'"

section \<open>The invariant\<close>

abbreviation occupants :: "s2e_system \<Rightarrow> process list" where
  "occupants w \<equiv> running w @ crashed w"

definition slot_holds :: "s2e_shared \<Rightarrow> process \<Rightarrow> bool" where
  "slot_holds sh p \<longleftrightarrow> processIds sh ! m_currentProcessId p = m_currentProcessIndex p \<and>
     processPids sh ! m_currentProcessId p = process_pid p \<and>
     process_pid p \<noteq> none_id \<and> m_currentProcessIndex p \<noteq> none_id"

definition table_ok :: "nat \<Rightarrow> s2e_shared \<Rightarrow> process list \<Rightarrow> bool" where
  "table_ok n sh ps \<longleftrightarrow> n \<le> S2E_MAX_PROCESSES \<and>
     length (processIds sh) = S2E_MAX_PROCESSES \<and> length (processPids sh) = S2E_MAX_PROCESSES \<and>
     distinct (map m_currentProcessId ps) \<and>
     (\<forall>p\<in>set ps. m_currentProcessId p < n \<and> slot_holds sh p) \<and>
     (\<forall>i<n. i \<notin> m_currentProcessId ` set ps \<longrightarrow> processIds sh ! i = none_id \<and> processPids sh ! i = none_id)"

definition distinct_below :: "u32 \<Rightarrow> u32 list \<Rightarrow> bool" where
  "distinct_below lim is \<longleftrightarrow> distinct is \<and> (\<forall>i\<in>set is. i < lim)"

definition indices_ok :: "s2e_system \<Rightarrow> bool" where
  "indices_ok w \<longleftrightarrow>
     distinct_below (lastFileId (table w)) (map m_currentProcessIndex (occupants w) @ pending w)"

definition count_ok :: "nat \<Rightarrow> s2e_system \<Rightarrow> bool" where
  "count_ok n w \<longleftrightarrow>
     unat (currentProcessCount (table w)) = length (occupants w) + length (pending w) + lost w \<and>
     unat (currentProcessCount (table w)) \<le> n"

definition ids_ok :: "s2e_system \<Rightarrow> bool" where
  "ids_ok w \<longleftrightarrow> distinct_below (lastStateId (table w)) (issued w)"

definition system_inv :: "u32 \<Rightarrow> s2e_system \<Rightarrow> bool" where
  "system_inv mx w \<longleftrightarrow> table_ok (unat mx) (table w) (occupants w) \<and> indices_ok w \<and>
     count_ok (unat mx) w \<and> ids_ok w"

lemma mset_without:
  assumes "k < length xs"
  shows "mset xs = add_mset (xs ! k) (mset (without k xs))" "length xs = Suc (length (without k xs))"
proof -
  have e: "xs = take k xs @ xs ! k # drop (Suc k) xs" using assms by (rule id_take_nth_drop)
  have "mset xs = mset (take k xs @ xs ! k # drop (Suc k) xs)" using e by simp
  then show "mset xs = add_mset (xs ! k) (mset (without k xs))" by (simp add: without_def)
  show "length xs = Suc (length (without k xs))" using assms by (simp add: without_def)
qed

lemma distinct_below_sub:
  assumes "distinct_below lim is" "mset js \<subseteq># mset is"
  shows "distinct_below lim js"
proof -
  obtain M where "mset is = mset js + M" using assms(2) by (auto simp: mset_subset_eq_exists_conv)
  moreover obtain ks where "mset ks = M" using ex_mset by blast
  ultimately have "mset is = mset (js @ ks)" by simp
  then have "distinct (js @ ks)"
    using assms(1) mset_eq_imp_distinct_iff by (fastforce simp: distinct_below_def)
  then have "distinct js" by simp
  moreover have "set js \<subseteq> set is" using assms(2) by (metis set_mset_mono set_mset_mset)
  ultimately show ?thesis using assms(1) by (auto simp: distinct_below_def)
qed

text \<open>The table predicates depend on the processes only as a multiset.\<close>

lemma table_ok_mset:
  assumes "mset ps = mset qs"
  shows "table_ok n sh ps = table_ok n sh qs"
proof -
  have "set ps = set qs" using assms by (rule mset_eq_setD)
  moreover have "mset (map m_currentProcessId ps) = mset (map m_currentProcessId qs)"
    using assms by simp
  then have "distinct (map m_currentProcessId ps) = distinct (map m_currentProcessId qs)"
    by (rule mset_eq_imp_distinct_iff)
  ultimately show ?thesis by (simp add: table_ok_def)
qed

lemma table_ok_leave:
  assumes ok: "table_ok n sh (p # ps)" and sh': "processIds sh' = (processIds sh)[m_currentProcessId p := none_id]"
      "processPids sh' = (processPids sh)[m_currentProcessId p := none_id]"
  shows "table_ok n sh' ps"
proof -
  have p: "m_currentProcessId p < n" "m_currentProcessId p \<notin> m_currentProcessId ` set ps" "n \<le> S2E_MAX_PROCESSES"
    "length (processIds sh) = S2E_MAX_PROCESSES" "length (processPids sh) = S2E_MAX_PROCESSES"
    using ok by (auto simp: table_ok_def)
  have "slot_holds sh' q" if "q \<in> set ps" for q
  proof -
    have "m_currentProcessId q \<noteq> m_currentProcessId p" using that p(2) by (metis imageI)
    moreover have "slot_holds sh q" using ok that by (simp add: table_ok_def)
    ultimately show ?thesis by (simp add: slot_holds_def sh')
  qed
  with ok p show ?thesis by (auto simp: table_ok_def sh' nth_list_update)
qed

lemma table_ok_join:
  assumes ok: "table_ok n sh ps" and p: "m_currentProcessId p < n" "processIds sh ! m_currentProcessId p = none_id"
      "process_pid p \<noteq> none_id" "m_currentProcessIndex p \<noteq> none_id"
    and sh': "processIds sh' = (processIds sh)[m_currentProcessId p := m_currentProcessIndex p]"
      "processPids sh' = (processPids sh)[m_currentProcessId p := process_pid p]"
  shows "table_ok n sh' (p # ps)"
proof -
  have "m_currentProcessId p \<notin> m_currentProcessId ` set ps"
  proof
    assume "m_currentProcessId p \<in> m_currentProcessId ` set ps"
    then obtain q where "q \<in> set ps" "m_currentProcessId q = m_currentProcessId p" by auto
    then have "processIds sh ! m_currentProcessId p \<noteq> none_id"
      using ok by (metis slot_holds_def table_ok_def)
    with p(2) show False by simp
  qed
  with ok p show ?thesis by (auto simp: table_ok_def slot_holds_def sh' nth_list_update)
qed

text \<open>A free slot exists while fewer than \<open>n\<close> slots are held.\<close>

lemma find_slot_spec:
  "i = find_slot ids n is \<Longrightarrow> i \<in> set is \<and> ids ! i = none_id \<or> i = n \<and> (\<forall>j\<in>set is. ids ! j \<noteq> none_id)"
  by (induction "is") auto

lemma free_slot:
  assumes ok: "table_ok n sh ps" and few: "length ps < n"
  shows "find_slot (processIds sh) n [0..<n] < n"
    "processIds sh ! find_slot (processIds sh) n [0..<n] = none_id"
proof -
  let ?i = "find_slot (processIds sh) n [0..<n]"
  have "card (m_currentProcessId ` set ps) < n"
    using few card_image_le [of "set ps" m_currentProcessId] card_length [of ps] by simp
  then have "\<not> {..<n} \<subseteq> m_currentProcessId ` set ps"
    using card_mono [of "m_currentProcessId ` set ps" "{..<n}"] by auto
  then obtain j where j: "j < n" "j \<notin> m_currentProcessId ` set ps" by auto
  then have "processIds sh ! j = none_id" using ok by (auto simp: table_ok_def)
  with j(1) find_slot_spec [of ?i "processIds sh" n "[0..<n]"] show "?i < n" "processIds sh ! ?i = none_id" by auto
qed

text \<open>What reaping does to a table whose slots are those of \<open>ps\<close>.\<close>

lemma check_dead_loop_fixed:
  "lastFileId (check_dead_loop alive is sh) = lastFileId sh"
  "lastStateId (check_dead_loop alive is sh) = lastStateId sh"
  by (induction "is" arbitrary: sh) (auto simp: set_slot_def)

lemma check_dead_loop_spec:
  assumes "table_ok n sh ps" "set is \<subseteq> {..<n}" "distinct is" "length ps \<le> unat (currentProcessCount sh)"
  shows "table_ok n (check_dead_loop alive is sh)
      (filter (\<lambda>p. m_currentProcessId p \<in> set is \<longrightarrow> alive (process_pid p)) ps) \<and>
    unat (currentProcessCount (check_dead_loop alive is sh)) + length ps =
      unat (currentProcessCount sh) +
      length (filter (\<lambda>p. m_currentProcessId p \<in> set is \<longrightarrow> alive (process_pid p)) ps)"
  using assms
proof (induction "is" arbitrary: sh ps)
  case Nil
  then show ?case by simp
next
  case (Cons i "is")
  have i: "i < n" "i \<notin> set is" "set is \<subseteq> {..<n}" "distinct is" using Cons.prems(2,3) by auto
  let ?P = "\<lambda>is p. m_currentProcessId p \<in> set is \<longrightarrow> alive (process_pid p)"
  show ?case
  proof (cases "\<exists>p\<in>set ps. m_currentProcessId p = i \<and> \<not> alive (process_pid p)")
    case False
    then have same: "filter (?P (i # is)) ps = filter (?P is) ps" by (intro filter_cong) auto
    have "check_dead_loop alive (i # is) sh = check_dead_loop alive is sh"
    proof (cases "i \<in> m_currentProcessId ` set ps")
      case True
      then obtain p where p: "p \<in> set ps" "m_currentProcessId p = i" by auto
      then have "processPids sh ! i = process_pid p" using Cons.prems(1) by (auto simp: table_ok_def slot_holds_def)
      with False p show ?thesis by auto
    next
      case False
      then have "processPids sh ! i = none_id" using Cons.prems(1) i(1) by (simp add: table_ok_def)
      then show ?thesis by simp
    qed
    with Cons.IH [OF Cons.prems(1) i(3,4) Cons.prems(4)] same show ?thesis by simp
  next
    case True
    then obtain p where p: "p \<in> set ps" "m_currentProcessId p = i" "\<not> alive (process_pid p)" by blast
    then obtain xs ys where ps: "ps = xs @ p # ys" by (metis split_list)
    let ?sh = "(set_slot i none_id none_id sh)\<lparr>currentProcessCount := currentProcessCount sh - 1\<rparr>"
    have m: "mset ps = mset (p # xs @ ys)" by (simp add: ps)
    have t: "table_ok n ?sh (xs @ ys)"
      using Cons.prems(1) unfolding table_ok_mset [OF m]
      by (rule table_ok_leave) (simp_all add: p(2) set_slot_def)
    have pid: "processPids sh ! i = process_pid p" "process_pid p \<noteq> none_id"
      using Cons.prems(1) p(1,2) by (auto simp: table_ok_def slot_holds_def)
    have pos: "0 < unat (currentProcessCount sh)" using Cons.prems(4) ps by simp
    then have u: "unat (currentProcessCount ?sh) = unat (currentProcessCount sh) - 1"
      using unat_minus_one [of "currentProcessCount sh"] by (auto simp: unat_gt_0)
    have "i \<notin> m_currentProcessId ` set (xs @ ys)"
      using Cons.prems(1) p(2) unfolding table_ok_mset [OF m] by (auto simp: table_ok_def)
    then have other: "m_currentProcessId q \<noteq> i" if "q \<in> set (xs @ ys)" for q
      using that by (metis imageI)
    have "filter (?P (i # is)) ps = filter (?P (i # is)) (xs @ ys)"
      using p(2,3) by (simp add: ps)
    also have "\<dots> = filter (?P is) (xs @ ys)" using other by (intro filter_cong) auto
    finally have same: "filter (?P (i # is)) ps = filter (?P is) (xs @ ys)" .
    have run: "check_dead_loop alive (i # is) sh = check_dead_loop alive is ?sh"
      using pid p(3) by simp
    have "length (xs @ ys) \<le> unat (currentProcessCount ?sh)" using u Cons.prems(4) ps by simp
    from Cons.IH [OF t i(3,4) this] show ?thesis
      unfolding same run using u pos Cons.prems(4) ps by simp
  qed
qed

section \<open>Every step succeeds and keeps the invariant\<close>

lemma unat_dec: "0 < unat (c :: u32) \<Longrightarrow> unat (c - 1) = unat c - 1"
  using unat_minus_one [of c] by (auto simp: unat_gt_0)

lemma unat_none_id: "unat none_id = 2 ^ 32 - 1"
  by (simp add: none_id_def unsigned_minus_1_eq_mask mask_eq_exp_minus_1)

lemma unat_succ: "(c :: u32) \<noteq> none_id \<Longrightarrow> unat (c + 1) = unat c + 1"
proof -
  assume "c \<noteq> none_id"
  then have "unat c \<noteq> 2 ^ 32 - 1" using unat_none_id by (metis word_unat_eq_iff)
  then have "unat c + 1 < 2 ^ 32" using unsigned_less [of c, where ?'a = nat] by simp
  then show ?thesis by (simp add: unat_word_ariths)
qed

lemma distinct_below_next:
  assumes "distinct_below c is" "c \<noteq> none_id"
  shows "distinct_below (c + 1) (c # is)"
proof -
  have "i < c \<Longrightarrow> i < c + 1" "c < c + 1" for i
    using unat_succ [OF assms(2)] by (simp_all add: word_less_nat_alt)
  with assms(1) show ?thesis by (auto simp: distinct_below_def)
qed

lemma below_not_none: "i < (c :: u32) \<Longrightarrow> i \<noteq> none_id"
  using unsigned_less [of c, where ?'a = nat] by (auto simp: word_less_nat_alt unat_none_id)

lemma reserve_keeps:
  assumes inv: "system_inv mx w" and p: "possible Reserve w"
  shows "\<exists>w'. perform mx Reserve w = Inr w' \<and> system_inv mx w'"
proof (cases "currentProcessCount (table w) = mx")
  case True
  with inv show ?thesis by (simp add: fork_reserve_def)
next
  case False
  let ?c = "currentProcessCount (table w)" and ?f = "lastFileId (table w)"
  have lt: "unat ?c < unat mx" using inv False by (auto simp: system_inv_def count_ok_def word_unat_eq_iff)
  then have c: "unat (?c + 1) = unat ?c + 1"
    using unsigned_less [of mx, where ?'a = nat] by (simp add: unat_word_ariths)
  have "?f \<noteq> none_id" using p by simp
  then have "distinct_below (?f + 1) (?f # map m_currentProcessIndex (occupants w) @ pending w)"
    using inv by (intro distinct_below_next) (simp_all add: system_inv_def indices_ok_def)
  then have "distinct_below (?f + 1) (map m_currentProcessIndex (occupants w) @ ?f # pending w)"
    by (rule distinct_below_sub) simp
  then show ?thesis using inv lt False c
    by (simp add: fork_reserve_def system_inv_def count_ok_def indices_ok_def ids_ok_def table_ok_def
      slot_holds_def)
qed

lemma fork_fails_keeps:
  assumes inv: "system_inv mx w" and p: "possible (Fork_Fails k) w"
  shows "\<exists>w'. perform mx (Fork_Fails k) w = Inr w' \<and> system_inv mx w'"
proof -
  note k = mset_without [of k "pending w"]
  have len: "length (pending w) = Suc (length (without k (pending w)))" using k(2) p by simp
  then have pos: "0 < unat (currentProcessCount (table w))"
    using inv by (simp add: system_inv_def count_ok_def)
  have "distinct_below (lastFileId (table w)) (map m_currentProcessIndex (occupants w) @ without k (pending w))"
    using inv k(1) p by (auto simp: system_inv_def indices_ok_def intro: distinct_below_sub)
  with inv unat_dec [OF pos] len show ?thesis
    by (simp add: system_inv_def count_ok_def fork_failed_def indices_ok_def ids_ok_def table_ok_def slot_holds_def)
qed

lemma child_dies_keeps:
  assumes inv: "system_inv mx w" and p: "possible (Child_Dies k) w"
  shows "\<exists>w'. perform mx (Child_Dies k) w = Inr w' \<and> system_inv mx w'"
proof -
  note k = mset_without [of k "pending w"]
  have len: "length (pending w) = Suc (length (without k (pending w)))" using k(2) p by simp
  have "distinct_below (lastFileId (table w)) (map m_currentProcessIndex (occupants w) @ without k (pending w))"
    using inv k(1) p by (auto simp: system_inv_def indices_ok_def intro: distinct_below_sub)
  with inv len show ?thesis
    by (simp add: system_inv_def count_ok_def indices_ok_def ids_ok_def table_ok_def)
qed

lemma child_starts_keeps:
  assumes inv: "system_inv mx w" and p: "possible (Child_Starts k pid) w"
  shows "\<exists>w'. perform mx (Child_Starts k pid) w = Inr w' \<and> system_inv mx w'"
proof -
  let ?sh = "table w" and ?idx = "pending w ! k" and ?rest = "without k (pending w)"
  note k = mset_without [of k "pending w"]
  have len: "length (pending w) = Suc (length ?rest)" using k(2) p by simp
  then have few: "length (occupants w) < unat mx"
    using inv by (simp add: system_inv_def count_ok_def)
  have ok: "table_ok (unat mx) ?sh (occupants w)" using inv by (simp add: system_inv_def)
  let ?i = "find_slot (processIds ?sh) (unat mx) [0..<unat mx]"
  let ?p = "\<lparr>m_currentProcessIndex = ?idx, m_currentProcessId = ?i, process_pid = pid\<rparr>"
  let ?sh' = "set_slot ?i ?idx pid ?sh"
  note i = free_slot [OF ok few]
  have "?idx \<in> set (pending w)" using p by simp
  then have "?idx < lastFileId ?sh" using inv by (simp add: system_inv_def indices_ok_def distinct_below_def)
  then have "?idx \<noteq> none_id" by (rule below_not_none)
  then have t: "table_ok (unat mx) ?sh' (?p # occupants w)"
    using i p by (intro table_ok_join [OF ok]) (simp_all add: set_slot_def)
  have run: "perform mx (Child_Starts k pid) w =
      Inr (w\<lparr>table := ?sh', pending := ?rest, running := ?p # running w\<rparr>)"
    using i(1) by (simp add: fork_child_def Let_def)
  have "distinct_below (lastFileId ?sh) (map m_currentProcessIndex (?p # occupants w) @ ?rest)"
    using inv k(1) p by (auto simp: system_inv_def indices_ok_def intro: distinct_below_sub)
  with inv run t len show ?thesis
    by (simp add: system_inv_def count_ok_def indices_ok_def ids_ok_def set_slot_def)
qed

lemma leaves_keeps:
  assumes inv: "system_inv mx w" and p: "possible (Leaves k) w"
  shows "\<exists>w'. perform mx (Leaves k) w = Inr w' \<and> system_inv mx w'"
proof -
  let ?sh = "table w" and ?p = "running w ! k" and ?rest = "without k (running w)"
  note k = mset_without [of k "running w"]
  have len: "length (running w) = Suc (length ?rest)" using k(2) p by simp
  have m: "mset (occupants w) = mset (?p # ?rest @ crashed w)" using k(1) p by simp
  have ok: "table_ok (unat mx) ?sh (?p # ?rest @ crashed w)"
    using inv table_ok_mset [OF m] by (simp add: system_inv_def)
  let ?sh' = "(set_slot (m_currentProcessId ?p) none_id none_id ?sh)
      \<lparr>currentProcessCount := currentProcessCount ?sh - 1\<rparr>"
  have "processIds ?sh ! m_currentProcessId ?p = m_currentProcessIndex ?p"
    using ok by (simp add: table_ok_def slot_holds_def)
  then have run: "perform mx (Leaves k) w = Inr (w\<lparr>table := ?sh', running := ?rest\<rparr>)"
    by (simp add: S2E_leave_def)
  have t: "table_ok (unat mx) ?sh' (?rest @ crashed w)"
    using ok by (rule table_ok_leave) (simp_all add: set_slot_def)
  have pos: "0 < unat (currentProcessCount ?sh)" using inv len by (simp add: system_inv_def count_ok_def)
  have "mset (map m_currentProcessIndex (?rest @ crashed w) @ pending w) \<subseteq>#
      mset (map m_currentProcessIndex (occupants w) @ pending w)"
    using k(1) p by simp
  then have "distinct_below (lastFileId ?sh) (map m_currentProcessIndex (?rest @ crashed w) @ pending w)"
    using inv by (auto simp: system_inv_def indices_ok_def simp del: mset_map mset_append map_append
      intro: distinct_below_sub)
  with inv run t len unat_dec [OF pos] show ?thesis
    by (simp add: system_inv_def count_ok_def indices_ok_def ids_ok_def set_slot_def)
qed

lemma crashes_keeps:
  assumes inv: "system_inv mx w" and p: "possible (Crashes k) w"
  shows "\<exists>w'. perform mx (Crashes k) w = Inr w' \<and> system_inv mx w'"
proof -
  let ?p = "running w ! k" and ?rest = "without k (running w)"
  note k = mset_without [of k "running w"]
  have len: "length (running w) = Suc (length ?rest)" using k(2) p by simp
  have m: "mset (occupants w) = mset (?rest @ ?p # crashed w)" using k(1) p by simp
  have "mset (map m_currentProcessIndex (?rest @ ?p # crashed w) @ pending w) =
      image_mset m_currentProcessIndex (mset (?rest @ ?p # crashed w)) + mset (pending w)"
    by (simp only: mset_append mset_map)
  also have "\<dots> = mset (map m_currentProcessIndex (occupants w) @ pending w)"
    unfolding m [symmetric] by (simp only: mset_append mset_map)
  finally have "distinct_below (lastFileId (table w))
      (map m_currentProcessIndex (?rest @ ?p # crashed w) @ pending w)"
    using inv unfolding system_inv_def indices_ok_def by (metis distinct_below_sub subset_mset.order_refl)
  with inv len table_ok_mset [OF m] show ?thesis
    by (simp add: system_inv_def count_ok_def indices_ok_def ids_ok_def)
qed

lemma reaps_keeps:
  assumes inv: "system_inv mx w" and p: "possible (Reaps pids) w"
  shows "\<exists>w'. perform mx (Reaps pids) w = Inr w' \<and> system_inv mx w'"
proof -
  let ?al = "\<lambda>p. p \<in> set pids"
  let ?sh = "check_dead_loop ?al [0..<unat mx] (table w)"
  let ?left = "filter (\<lambda>q. ?al (process_pid q)) (crashed w)"
  have ok: "table_ok (unat mx) (table w) (occupants w)" using inv by (simp add: system_inv_def)
  have le: "length (occupants w) \<le> unat (currentProcessCount (table w))"
    using inv by (simp add: system_inv_def count_ok_def)
  have "m_currentProcessId q < unat mx" if "q \<in> set (occupants w)" for q
    using ok that by (simp add: table_ok_def)
  then have f: "filter (\<lambda>q. m_currentProcessId q \<in> set [0..<unat mx] \<longrightarrow> ?al (process_pid q)) (occupants w) =
      running w @ ?left"
    using p by (auto intro!: filter_cong simp: filter_id_conv)
  have upt: "set [0..<unat mx] \<subseteq> {..<unat mx}" "distinct [0..<unat mx]" by auto
  note spec = check_dead_loop_spec [OF ok upt le, of ?al, unfolded f]
  have "mset (map m_currentProcessIndex ?left) \<subseteq># mset (map m_currentProcessIndex (crashed w))"
    by (simp add: image_mset_subseteq_mono)
  then have "distinct_below (lastFileId (table w)) (map m_currentProcessIndex (running w @ ?left) @ pending w)"
    using inv by (auto simp: system_inv_def indices_ok_def intro: distinct_below_sub)
  moreover have "unat (currentProcessCount ?sh) \<le> unat mx"
  proof -
    have "length ?left \<le> length (crashed w)" by simp
    moreover have "unat (currentProcessCount ?sh) + length (occupants w) =
        unat (currentProcessCount (table w)) + length (running w @ ?left)" using spec by blast
    moreover have "unat (currentProcessCount (table w)) \<le> unat mx"
      using inv by (simp add: system_inv_def count_ok_def)
    ultimately show ?thesis unfolding length_append by linarith
  qed
  ultimately show ?thesis using inv spec
    by (simp add: checkDeadProcesses_def system_inv_def count_ok_def indices_ok_def ids_ok_def
      check_dead_loop_fixed)
qed

lemma fetch_keeps:
  assumes inv: "system_inv mx w" and p: "possible Fetches_Id w"
  shows "\<exists>w'. perform mx Fetches_Id w = Inr w' \<and> system_inv mx w'"
proof -
  have "lastStateId (table w) \<noteq> none_id" using p by simp
  then have "distinct_below (lastStateId (table w) + 1) (lastStateId (table w) # issued w)"
    using inv by (intro distinct_below_next) (simp_all add: system_inv_def ids_ok_def)
  with inv show ?thesis
    by (simp add: fetchAndIncrementStateId_def system_inv_def count_ok_def indices_ok_def ids_ok_def
      table_ok_def slot_holds_def)
qed

lemma perform_keeps:
  assumes "system_inv mx w" "possible ev w"
  shows "\<exists>w'. perform mx ev w = Inr w' \<and> system_inv mx w'"
proof (cases ev)
  case Reserve
  with assms reserve_keeps show ?thesis by blast
next
  case (Fork_Fails k)
  with assms fork_fails_keeps show ?thesis by blast
next
  case (Child_Starts k pid)
  with assms child_starts_keeps show ?thesis by blast
next
  case (Child_Dies k)
  with assms child_dies_keeps show ?thesis by blast
next
  case (Leaves k)
  with assms leaves_keeps show ?thesis by blast
next
  case (Crashes k)
  with assms crashes_keeps show ?thesis by blast
next
  case (Reaps pids)
  with assms reaps_keeps show ?thesis by blast
next
  case Fetches_Id
  with assms fetch_keeps show ?thesis by blast
qed

lemma initial_inv:
  assumes "S2E_new_table mx pid (S2EShared_new junk) = Inr sh" "pid \<noteq> none_id"
  shows "system_inv mx (initial_system pid sh)"
proof -
  obtain c f s where j: "junk = (c, f, s)" by (cases junk)
  have mx: "1 \<le> unat mx" "unat mx \<le> 48" and sh: "sh = set_slot 0 0 pid
      ((S2EShared_new junk)\<lparr>currentProcessCount := 1, lastStateId := 0, lastFileId := 1\<rparr>)"
    using assms(1) by (auto simp: S2E_new_table_def S2E_MAX_PROCESSES_def word_less_nat_alt split: if_splits)
  with assms(2) show ?thesis
    by (auto simp: system_inv_def initial_system_def table_ok_def indices_ok_def count_ok_def ids_ok_def
      slot_holds_def set_slot_def S2EShared_new_def j S2E_MAX_PROCESSES_def none_id_def nth_list_update
      distinct_below_def)
qed

lemma reached_inv: "reached mx w \<Longrightarrow> system_inv mx w"
proof (induction rule: reached.induct)
  case (initially pid junk sh)
  then show ?case by (rule initial_inv)
next
  case (after w ev w')
  from perform_keeps [OF after.IH after.hyps(2)] after.hyps(3) show ?case by auto
qed

section \<open>Properties\<close>

text \<open>C6: In every reachable state no step of any process fails: in particular a forked child always
  finds a free slot and a process that leaves finds its own index in its slot. The number of
  processes never exceeds the maximum.\<close>

theorem process_steps_succeed:
  assumes "reached mx w" "possible ev w"
  shows "\<exists>w'. perform mx ev w = Inr w' \<and> reached mx w' \<and>
    length (running w') \<le> unat mx \<and> currentProcessCount (table w') \<le> mx"
proof -
  from perform_keeps [OF reached_inv [OF assms(1)] assms(2)] obtain w' where
    w': "perform mx ev w = Inr w'" "system_inv mx w'" by blast
  then have "length (running w') \<le> unat mx" "currentProcessCount (table w') \<le> mx"
    by (simp_all add: system_inv_def count_ok_def word_le_nat_alt)
  with w'(1) reached.after [OF assms w'(1)] show ?thesis by blast
qed

text \<open>C7: In every reachable state the running processes have pairwise different slots and pairwise
  different indices, every one of them is in the table, and the state ids handed out so far to
  all processes are pairwise different.\<close>

theorem process_identities_unique:
  assumes "reached mx w"
  shows "distinct (map m_currentProcessId (running w)) \<and> distinct (map m_currentProcessIndex (running w)) \<and>
    (\<forall>p\<in>set (running w). getProcessIndexForId mx (of_nat (m_currentProcessId p)) (table w) =
      Inr (m_currentProcessIndex p)) \<and> distinct (issued w)"
proof -
  have inv: "system_inv mx w" using assms by (rule reached_inv)
  have "getProcessIndexForId mx (of_nat (m_currentProcessId p)) (table w) = Inr (m_currentProcessIndex p)"
    if "p \<in> set (running w)" for p
  proof -
    have p: "m_currentProcessId p < unat mx" "slot_holds (table w) p"
      using inv that by (auto simp: system_inv_def table_ok_def)
    then have "unat (of_nat (m_currentProcessId p) :: u32) = m_currentProcessId p"
      using unsigned_less [of mx, where ?'a = nat] by (simp add: unat_of_nat)
    with p show ?thesis by (simp add: getProcessIndexForId_def word_less_nat_alt slot_holds_def)
  qed
  with inv show ?thesis
    by (auto simp: system_inv_def table_ok_def indices_ok_def ids_ok_def distinct_below_def)
qed

text \<open>\<open>checkDeadProcesses\<close> frees exactly the slots of dead processes and takes them off the count,
  but never reports that it did: it returns false whatever it finds.\<close>

theorem checkDeadProcesses_reports_nothing:
  assumes "table_ok (unat mx) sh ps" "length ps \<le> unat (currentProcessCount sh)"
  shows "fst (checkDeadProcesses mx alive sh) = False \<and>
    table_ok (unat mx) (snd (checkDeadProcesses mx alive sh)) (filter (\<lambda>p. alive (process_pid p)) ps) \<and>
    unat (currentProcessCount (snd (checkDeadProcesses mx alive sh))) =
      unat (currentProcessCount sh) - length (filter (\<lambda>p. \<not> alive (process_pid p)) ps)"
proof -
  have "m_currentProcessId q < unat mx" if "q \<in> set ps" for q
    using assms(1) that by (simp add: table_ok_def)
  then have f: "filter (\<lambda>q. m_currentProcessId q \<in> set [0..<unat mx] \<longrightarrow> alive (process_pid q)) ps =
      filter (\<lambda>q. alive (process_pid q)) ps" by (intro filter_cong) auto
  have upt: "set [0..<unat mx] \<subseteq> {..<unat mx}" "distinct [0..<unat mx]" by auto
  note spec = check_dead_loop_spec [OF assms(1) upt assms(2), of alive, unfolded f]
  have "length ps = length (filter (\<lambda>p. alive (process_pid p)) ps) + length (filter (\<lambda>p. \<not> alive (process_pid p)) ps)"
    by (rule sum_length_filter_compl [symmetric])
  with spec show ?thesis by (auto simp: checkDeadProcesses_def)
qed

text \<open>A concrete run: the first of two processes dies and the second reaps it.\<close>

definition two_processes :: "s2e_system res" where
  "two_processes = rbind (S2E_new_table 4 100 (S2EShared_new (0, 0, 0))) (\<lambda>sh.
     rbind (perform 4 Reserve (initial_system 100 sh)) (perform 4 (Child_Starts 0 101)))"

lemma two_processes_ok: "is_ok two_processes"
  by code_simp

lemma two_processes_reached:
  obtains w where "two_processes = Inr w" "reached 4 w" "running w =
    [\<lparr>m_currentProcessIndex = 1, m_currentProcessId = 1, process_pid = 101\<rparr>,
     \<lparr>m_currentProcessIndex = 0, m_currentProcessId = 0, process_pid = 100\<rparr>]"
proof -
  obtain w where w: "two_processes = Inr w" using two_processes_ok by (rule is_ok.elims(2))
  then obtain sh w1 where 1: "S2E_new_table 4 100 (S2EShared_new (0, 0, 0)) = Inr sh"
    "perform 4 Reserve (initial_system 100 sh) = Inr w1" "perform 4 (Child_Starts 0 101) w1 = Inr w"
    by (auto simp: two_processes_def rbind_Inr_iff)
  have sh: "lastFileId sh = 1" "currentProcessCount sh = 1"
    using 1(1) by (auto simp: S2E_new_table_def S2E_MAX_PROCESSES_def set_slot_def split: if_splits)
  have r0: "reached 4 (initial_system 100 sh)"
    using 1(1) by (rule reached.initially) (simp add: none_id_def)
  have r1: "reached 4 w1"
    by (rule reached.after [OF r0 _ 1(2)]) (simp add: initial_system_def sh none_id_def)
  have "length (pending w1) = 1" using 1(2) sh by (auto simp: initial_system_def fork_reserve_def)
  then have r2: "reached 4 w" by (intro reached.after [OF r1 _ 1(3)]) (simp add: none_id_def)
  have "map_sum id running two_processes = Inr
    [\<lparr>m_currentProcessIndex = 1, m_currentProcessId = 1, process_pid = 101\<rparr>,
     \<lparr>m_currentProcessIndex = 0, m_currentProcessId = 0, process_pid = 100\<rparr>]" by code_simp
  then have "map_sum id running (Inr w :: fault + s2e_system) = Inr
    [\<lparr>m_currentProcessIndex = 1, m_currentProcessId = 1, process_pid = 101\<rparr>,
     \<lparr>m_currentProcessIndex = 0, m_currentProcessId = 0, process_pid = 100\<rparr>]" by (subst w [symmetric])
  then have "running w =
    [\<lparr>m_currentProcessIndex = 1, m_currentProcessId = 1, process_pid = 101\<rparr>,
     \<lparr>m_currentProcessIndex = 0, m_currentProcessId = 0, process_pid = 100\<rparr>]" by simp
  then show thesis by (rule that [OF w r2])
qed

theorem process_steps_succeed_witness:
  "\<exists>w w'. two_processes = Inr w \<and> perform 4 (Crashes 1) w = Inr w' \<and> reached 4 w' \<and>
    length (running w') \<le> unat (4 :: u32) \<and> currentProcessCount (table w') \<le> 4"
proof (rule two_processes_reached)
  fix w assume w: "two_processes = Inr w" "reached 4 w" "running w =
    [\<lparr>m_currentProcessIndex = 1, m_currentProcessId = 1, process_pid = 101\<rparr>,
     \<lparr>m_currentProcessIndex = 0, m_currentProcessId = 0, process_pid = 100\<rparr>]"
  have "possible (Crashes 1) w" using w(3) by simp
  from process_steps_succeed [OF w(2) this] w(1) show ?thesis by blast
qed

theorem process_identities_unique_witness:
  "\<exists>w. two_processes = Inr w \<and> distinct (map m_currentProcessIndex (running w)) \<and> length (running w) = 2"
proof (rule two_processes_reached)
  fix w assume w: "two_processes = Inr w" "reached 4 w" "running w =
    [\<lparr>m_currentProcessIndex = 1, m_currentProcessId = 1, process_pid = 101\<rparr>,
     \<lparr>m_currentProcessIndex = 0, m_currentProcessId = 0, process_pid = 100\<rparr>]"
  from process_identities_unique [OF w(2)] w(1,3) show ?thesis by auto
qed

theorem checkDeadProcesses_reports_nothing_witness:
  "\<exists>w. two_processes = Inr w \<and> fst (checkDeadProcesses 4 (\<lambda>p. p = 101) (table w)) = False \<and>
    unat (currentProcessCount (snd (checkDeadProcesses 4 (\<lambda>p. p = 101) (table w)))) =
      unat (currentProcessCount (table w)) - 1"
proof (rule two_processes_reached)
  fix w assume w: "two_processes = Inr w" "reached 4 w" "running w =
    [\<lparr>m_currentProcessIndex = 1, m_currentProcessId = 1, process_pid = 101\<rparr>,
     \<lparr>m_currentProcessIndex = 0, m_currentProcessId = 0, process_pid = 100\<rparr>]"
  have inv: "table_ok (unat (4 :: u32)) (table w) (occupants w)"
    "length (occupants w) \<le> unat (currentProcessCount (table w))"
    using reached_inv [OF w(2)] by (simp_all add: system_inv_def count_ok_def)
  have "crashed w = []"
  proof -
    have "map_sum id (\<lambda>w. map process_pid (crashed w)) two_processes = Inr []" by code_simp
    then have "map_sum id (\<lambda>w. map process_pid (crashed w)) (Inr w :: fault + s2e_system) = Inr []"
      by (subst w(1) [symmetric])
    then show ?thesis by simp
  qed
  with checkDeadProcesses_reports_nothing [OF inv, of "\<lambda>p. p = 101"] w(3)
  have "fst (checkDeadProcesses 4 (\<lambda>p. p = 101) (table w)) = False \<and>
    unat (currentProcessCount (snd (checkDeadProcesses 4 (\<lambda>p. p = 101) (table w)))) =
      unat (currentProcessCount (table w)) - 1" by simp
  with w(1) show ?thesis by blast
qed

end
