(* ===== verification/Plugins.thy ===== *)
theory Plugins
  imports S2E_Prelude
begin

text \<open>
  Plugins: the factory of known plugins (\<open>Plugin.cpp\<close>), the loading of the configured ones with its
  checks (\<open>S2E::initPlugins\<close>, \<open>S2E::getPlugin\<close> in \<open>S2E.cpp\<close>), and the per-state plugin data with the
  cache in front of it (\<open>Plugin::getPluginState\<close>, \<open>S2EExecutionState::getPluginState\<close>, the
  destructor of an execution state).
\<close>

section \<open>The factory\<close>

record plugin_info =
  plugin_name :: string
  description :: string
  functionName :: string
  dependencies :: "string list"
  configKey :: string

text \<open>\<open>std::map::insert\<close> keeps an entry that is there.\<close>

definition map_insert :: "'k \<Rightarrow> 'v \<Rightarrow> ('k \<rightharpoonup> 'v) \<Rightarrow> ('k \<rightharpoonup> 'v)" where
  "map_insert k v m = (if m k = None then m(k \<mapsto> v) else m)"

record plugins_factory =
  m_pluginsMap :: "string \<rightharpoonup> plugin_info"
  m_pluginsList :: "plugin_info list"

definition registerPlugin :: "plugin_info \<Rightarrow> plugins_factory \<Rightarrow> plugins_factory res" where
  "registerPlugin info f =
     rbind (assert_that (m_pluginsMap f (plugin_name info) = None)) (\<lambda>_.
       Inr (f\<lparr>m_pluginsList := m_pluginsList f @ [info],
              m_pluginsMap := map_insert (plugin_name info) info (m_pluginsMap f)\<rparr>))"

fun register_all :: "plugin_info list \<Rightarrow> plugins_factory \<Rightarrow> plugins_factory res" where
  "register_all [] f = Inr f"
| "register_all (i # is) f = rbind (registerPlugin i f) (register_all is)"

text \<open>The constructor registers the compiled plugins, in the order of the set that holds them.\<close>

definition PluginsFactory_new :: "plugin_info list \<Rightarrow> plugins_factory res" where
  "PluginsFactory_new compiled = register_all compiled \<lparr>m_pluginsMap = Map.empty, m_pluginsList = []\<rparr>"

definition getPluginInfo :: "string \<Rightarrow> plugins_factory \<Rightarrow> plugin_info option" where
  "getPluginInfo name f = m_pluginsMap f name"

text \<open>A plugin instance is represented by its info; the creator helper never returns null.\<close>

definition createPlugin :: "string \<Rightarrow> plugins_factory \<Rightarrow> plugin_info option" where
  "createPlugin name f = getPluginInfo name f"

section \<open>Loading\<close>

record active_plugins =
  m_activePluginsList :: "plugin_info list"
  m_activePluginsMap :: "string \<rightharpoonup> plugin_info"
  m_initialized :: "plugin_info list"

definition getPlugin :: "string \<Rightarrow> active_plugins \<Rightarrow> plugin_info option" where
  "getPlugin name s = m_activePluginsMap s name"

definition activate :: "plugin_info \<Rightarrow> active_plugins \<Rightarrow> active_plugins" where
  "activate p s =
     (let m1 = map_insert (plugin_name p) p (m_activePluginsMap s);
          m2 = (if functionName p \<noteq> [] then map_insert (functionName p) p m1 else m1)
      in s\<lparr>m_activePluginsList := m_activePluginsList s @ [p], m_activePluginsMap := m2\<rparr>)"

definition load_plugin :: "plugins_factory \<Rightarrow> string \<Rightarrow> active_plugins \<Rightarrow> active_plugins res" where
  "load_plugin f name s = (case getPluginInfo name f of
      None \<Rightarrow> Inl (Process_Exit 1)
    | Some info \<Rightarrow>
        if getPlugin (plugin_name info) s \<noteq> None then Inl (Process_Exit 1)
        else if functionName info \<noteq> [] \<and> getPlugin (functionName info) s \<noteq> None then Inl (Process_Exit 1)
        else (case createPlugin name f of
                None \<Rightarrow> Inl Assertion_Failed
              | Some p \<Rightarrow> Inr (activate p s)))"

fun load_all :: "plugins_factory \<Rightarrow> string list \<Rightarrow> active_plugins \<Rightarrow> active_plugins res" where
  "load_all f [] s = Inr s"
| "load_all f (n # ns) s = rbind (load_plugin f n s) (load_all f ns)"

fun check_deps :: "active_plugins \<Rightarrow> string list \<Rightarrow> unit res" where
  "check_deps s [] = Inr ()"
| "check_deps s (d # ds) = (if getPlugin d s = None then Inl (Process_Exit 1) else check_deps s ds)"

fun check_all_deps :: "active_plugins \<Rightarrow> plugin_info list \<Rightarrow> unit res" where
  "check_all_deps s [] = Inr ()"
| "check_all_deps s (p # ps) = rbind (check_deps s (dependencies p)) (\<lambda>_. check_all_deps s ps)"

text \<open>\<open>initPlugins\<close>: \<open>names\<close> is the list \<open>plugins\<close> of the configuration.\<close>

definition initPlugins :: "plugin_info list \<Rightarrow> string list \<Rightarrow> active_plugins res" where
  "initPlugins compiled names =
     rbind (PluginsFactory_new compiled) (\<lambda>f.
       case createPlugin ''CorePlugin'' f of
         None \<Rightarrow> Inl Assertion_Failed
       | Some core \<Rightarrow>
           rbind (load_all f names
             (activate core \<lparr>m_activePluginsList = [], m_activePluginsMap = Map.empty, m_initialized = []\<rparr>)) (\<lambda>s.
           rbind (check_all_deps s (m_activePluginsList s)) (\<lambda>_.
             Inr (fold (\<lambda>p s. s\<lparr>m_initialized := m_initialized s @ [p]\<rparr>) (m_activePluginsList s) s))))"

section \<open>What loading establishes\<close>

text \<open>The names a plugin answers to.\<close>

definition provides :: "plugin_info \<Rightarrow> string set" where
  "provides p = {plugin_name p} \<union> (if functionName p = [] then {} else {functionName p})"

text \<open>The active map is exactly the disjoint union of what the active plugins provide.\<close>

definition active_ok :: "active_plugins \<Rightarrow> bool" where
  "active_ok s \<longleftrightarrow>
     (\<forall>n p. m_activePluginsMap s n = Some p \<longleftrightarrow> p \<in> set (m_activePluginsList s) \<and> n \<in> provides p) \<and>
     distinct (map plugin_name (m_activePluginsList s))"

lemma activate_map:
  assumes "m_activePluginsMap s (plugin_name p) = None"
    "functionName p \<noteq> [] \<Longrightarrow> m_activePluginsMap s (functionName p) = None"
  shows "m_activePluginsMap (activate p s) n = (if n \<in> provides p then Some p else m_activePluginsMap s n)"
  using assms by (auto simp: activate_def Let_def map_insert_def provides_def)

lemma activate_ok:
  assumes ok: "active_ok s" and none: "m_activePluginsMap s (plugin_name p) = None"
    "functionName p \<noteq> [] \<Longrightarrow> m_activePluginsMap s (functionName p) = None"
  shows "active_ok (activate p s)"
proof -
  have free: "m_activePluginsMap s n = None" if "n \<in> provides p" for n
    using that none by (auto simp: provides_def split: if_splits)
  have "plugin_name p \<notin> set (map plugin_name (m_activePluginsList s))"
  proof
    assume "plugin_name p \<in> set (map plugin_name (m_activePluginsList s))"
    then obtain q where "q \<in> set (m_activePluginsList s)" "plugin_name q = plugin_name p" by auto
    then have "m_activePluginsMap s (plugin_name p) = Some q"
      using ok by (simp add: active_ok_def provides_def)
    with none(1) show False by simp
  qed
  moreover have "m_activePluginsMap (activate p s) n = Some q \<longleftrightarrow>
      q \<in> set (m_activePluginsList s @ [p]) \<and> n \<in> provides q" for n q
  proof (cases "n \<in> provides p")
    case True
    then have "m_activePluginsMap s n = None" by (rule free)
    then have "\<not> (q \<in> set (m_activePluginsList s) \<and> n \<in> provides q)"
      using ok unfolding active_ok_def by (metis option.distinct(1))
    with True show ?thesis by (auto simp: activate_map [OF none])
  next
    case False
    then show ?thesis using ok by (auto simp: activate_map [OF none] active_ok_def)
  qed
  ultimately show ?thesis using ok by (simp add: active_ok_def activate_def Let_def)
qed

lemma load_plugin_ok:
  "active_ok s \<Longrightarrow> load_plugin f n s = Inr s' \<Longrightarrow>
   active_ok s' \<and> (\<exists>p. getPluginInfo n f = Some p \<and> m_activePluginsList s' = m_activePluginsList s @ [p]) \<and>
   m_initialized s' = m_initialized s"
  by (auto simp: load_plugin_def createPlugin_def getPlugin_def intro!: activate_ok split: option.splits if_splits)
    (simp_all add: activate_def Let_def)

lemma load_all_ok:
  "active_ok s \<Longrightarrow> load_all f ns s = Inr s' \<Longrightarrow>
   active_ok s' \<and> map Some (m_activePluginsList s') = map Some (m_activePluginsList s) @ map (\<lambda>n. getPluginInfo n f) ns \<and>
   m_initialized s' = m_initialized s"
proof (induction ns arbitrary: s)
  case (Cons n ns)
  from Cons.prems(2) obtain s1 where s1: "load_plugin f n s = Inr s1" "load_all f ns s1 = Inr s'"
    by (auto simp: rbind_Inr_iff)
  from load_plugin_ok [OF Cons.prems(1) s1(1)] Cons.IH [OF _ s1(2)] show ?case by auto
qed simp

lemma check_deps_ok: "check_deps s ds = Inr () \<longleftrightarrow> (\<forall>d\<in>set ds. getPlugin d s \<noteq> None)"
  by (induction ds) auto

lemma check_all_deps_ok:
  "check_all_deps s ps = Inr () \<longleftrightarrow> (\<forall>p\<in>set ps. \<forall>d\<in>set (dependencies p). getPlugin d s \<noteq> None)"
  by (induction ps) (auto simp: rbind_Inr_iff check_deps_ok)

lemma fold_initialize:
  "fold (\<lambda>p s. s\<lparr>m_initialized := m_initialized s @ [p]\<rparr>) ps s = s\<lparr>m_initialized := m_initialized s @ ps\<rparr>"
  by (induction ps arbitrary: s) simp_all

lemma register_all_map:
  "register_all is f = Inr f' \<Longrightarrow> m_pluginsMap f' n = Some p \<Longrightarrow>
   m_pluginsMap f n = Some p \<or> p \<in> set is \<and> plugin_name p = n"
proof (induction "is" arbitrary: f)
  case (Cons i "is")
  from Cons.prems(1) obtain f1 where f1: "registerPlugin i f = Inr f1" "register_all is f1 = Inr f'"
    by (auto simp: rbind_Inr_iff)
  from Cons.IH [OF f1(2) Cons.prems(2)] f1(1) show ?case
    by (auto simp: registerPlugin_def map_insert_def rbind_Inr_iff split: if_splits)
qed simp

text \<open>C10: When \<open>initPlugins\<close> succeeds, the active plugins are \<open>CorePlugin\<close> and the configured ones in
  that order, with different names; each name and each nonempty function name finds the one
  active plugin that provides it and nothing else is found; every dependency is found; and each
  plugin was initialised exactly once, after all were created, in order.\<close>

theorem initPlugins_establishes:
  assumes "initPlugins compiled names = Inr s"
  shows "map plugin_name (m_activePluginsList s) = ''CorePlugin'' # names \<and>
    distinct (''CorePlugin'' # names) \<and> set (m_activePluginsList s) \<subseteq> set compiled \<and>
    (\<forall>n p. getPlugin n s = Some p \<longleftrightarrow> p \<in> set (m_activePluginsList s) \<and> n \<in> provides p) \<and>
    (\<forall>p\<in>set (m_activePluginsList s). \<forall>d\<in>set (dependencies p). getPlugin d s \<noteq> None) \<and>
    m_initialized s = m_activePluginsList s"
proof -
  let ?s0 = "\<lparr>m_activePluginsList = [], m_activePluginsMap = Map.empty, m_initialized = []\<rparr>"
  from assms obtain f core s1 where
    f: "PluginsFactory_new compiled = Inr f" "createPlugin ''CorePlugin'' f = Some core"
      "load_all f names (activate core ?s0) = Inr s1" "check_all_deps s1 (m_activePluginsList s1) = Inr ()"
      "s = fold (\<lambda>p s. s\<lparr>m_initialized := m_initialized s @ [p]\<rparr>) (m_activePluginsList s1) s1"
    by (auto simp: initPlugins_def rbind_Inr_iff split: option.splits)
  have fm: "p \<in> set compiled \<and> plugin_name p = n" if "getPluginInfo n f = Some p" for n p
    using register_all_map [of compiled "\<lparr>m_pluginsMap = Map.empty, m_pluginsList = []\<rparr>" f n p] f(1) that by (auto simp: PluginsFactory_new_def getPluginInfo_def)
  have core: "plugin_name core = ''CorePlugin''" "core \<in> set compiled" using fm f(2) by (auto simp: createPlugin_def)
  have "active_ok ?s0" by (simp add: active_ok_def)
  then have ok0: "active_ok (activate core ?s0)" by (rule activate_ok) simp_all
  have l0: "m_activePluginsList (activate core ?s0) = [core]" "m_initialized (activate core ?s0) = []"
    by (simp_all add: activate_def Let_def)
  from load_all_ok [OF ok0 f(3)] have ok1: "active_ok s1"
    "map Some (m_activePluginsList s1) = Some core # map (\<lambda>n. getPluginInfo n f) names" "m_initialized s1 = []"
    by (simp_all add: l0)
  have s: "m_activePluginsList s = m_activePluginsList s1" "m_activePluginsMap s = m_activePluginsMap s1"
    "m_initialized s = m_activePluginsList s1"
    using f(5) ok1(3) by (simp_all add: fold_initialize)
  obtain ps where ps: "m_activePluginsList s1 = core # ps" "map Some ps = map (\<lambda>n. getPluginInfo n f) names"
    using ok1(2) by (cases "m_activePluginsList s1") auto
  from ps(2) have names: "map plugin_name ps = names \<and> set ps \<subseteq> set compiled"
  proof (induction ps arbitrary: names)
    case (Cons p ps)
    then obtain n ns where n: "names = n # ns" "getPluginInfo n f = Some p" "map Some ps = map (\<lambda>n. getPluginInfo n f) ns"
      by (cases names) auto
    with Cons.IH fm [OF n(2)] show ?case by auto
  qed simp
  have gp: "getPlugin d s = getPlugin d s1" for d by (simp add: getPlugin_def s)
  have deps: "\<forall>p\<in>set (m_activePluginsList s). \<forall>d\<in>set (dependencies p). getPlugin d s \<noteq> None"
    using f(4) unfolding check_all_deps_ok gp s(1) .
  have map: "\<forall>n p. getPlugin n s = Some p \<longleftrightarrow> p \<in> set (m_activePluginsList s) \<and> n \<in> provides p"
    using ok1(1) by (simp add: getPlugin_def s active_ok_def)
  have "distinct (map plugin_name (m_activePluginsList s))" using ok1(1) by (simp add: s active_ok_def)
  moreover have "map plugin_name (m_activePluginsList s) = ''CorePlugin'' # names"
    using ps(1) names core(1) by (simp add: s)
  ultimately show ?thesis using deps map ps(1) names core(2) by (simp add: s)
qed

definition sample_plugins :: "plugin_info list" where
  "sample_plugins =
     [\<lparr>plugin_name = ''CorePlugin'', description = ''S2E core functionality'', functionName = ''Core'',
       dependencies = [], configKey = ''pluginsConfig[CorePlugin]''\<rparr>,
      \<lparr>plugin_name = ''Tracer'', description = [], functionName = [],
       dependencies = [''Core''], configKey = ''pluginsConfig[Tracer]''\<rparr>]"

lemma sample_plugins_load: "is_ok (initPlugins sample_plugins [''Tracer''])"
  by (simp add: sample_plugins_def initPlugins_def PluginsFactory_new_def registerPlugin_def map_insert_def
    createPlugin_def getPluginInfo_def load_plugin_def activate_def getPlugin_def)

theorem initPlugins_establishes_witness:
  "\<exists>s. initPlugins sample_plugins [''Tracer''] = Inr s \<and>
     map plugin_name (m_activePluginsList s) = [''CorePlugin'', ''Tracer''] \<and>
     m_initialized s = m_activePluginsList s"
proof -
  obtain s where s: "initPlugins sample_plugins [''Tracer''] = Inr s"
    using sample_plugins_load by (rule is_ok.elims(2))
  note e = initPlugins_establishes [OF s]
  have "m_initialized s = m_activePluginsList s" using e by (elim conjE)
  with e [THEN conjunct1] s show ?thesis by (intro exI [of _ s] conjI)
qed

text \<open>The only ways for loading to fail, given distinct compiled plugins with a core plugin.\<close>

definition loadable :: "plugin_info list \<Rightarrow> active_plugins \<Rightarrow> string \<Rightarrow> bool" where
  "loadable compiled s n \<longleftrightarrow> (\<exists>p\<in>set compiled. plugin_name p = n \<and>
     (\<forall>q\<in>set (m_activePluginsList s). provides p \<inter> provides q = {}))"

lemma load_plugin_fails:
  assumes ok: "active_ok s" and f: "\<And>n p. getPluginInfo n f = Some p \<Longrightarrow> plugin_name p = n"
  shows "load_plugin f n s =
    (case getPluginInfo n f of None \<Rightarrow> Inl (Process_Exit 1)
     | Some p \<Rightarrow> if \<forall>q\<in>set (m_activePluginsList s). provides p \<inter> provides q = {}
                then Inr (activate p s) else Inl (Process_Exit 1))"
proof (cases "getPluginInfo n f")
  case None
  then show ?thesis by (simp add: load_plugin_def)
next
  case (Some p)
  have none: "getPlugin m s = None \<longleftrightarrow> (\<forall>q\<in>set (m_activePluginsList s). m \<notin> provides q)" for m
    using ok unfolding active_ok_def getPlugin_def by (metis not_Some_eq)
  have "(\<forall>q\<in>set (m_activePluginsList s). provides p \<inter> provides q = {}) \<longleftrightarrow>
      getPlugin (plugin_name p) s = None \<and> (functionName p \<noteq> [] \<longrightarrow> getPlugin (functionName p) s = None)"
    unfolding none by (auto simp: provides_def [of p])
  with Some show ?thesis by (auto simp: load_plugin_def createPlugin_def)
qed

section \<open>Per-state plugin data and its cache\<close>

text \<open>
  Execution states by address with their maps from plugins to data objects, the data objects that
  exist, the active plugins, and the cache of each plugin: the state it is for (\<open>None\<close> is the null
  pointer) and the object.
\<close>

record plugin_world =
  m_PluginState :: "u64 \<rightharpoonup> string \<rightharpoonup> nat"
  live_data :: "nat \<Rightarrow> bool"
  loaded :: "string list"
  plugin_cache :: "string \<Rightarrow> u64 option \<times> nat"

text \<open>\<open>S2EExecutionState::getPluginState\<close>; the factory of the plugin returns the object \<open>made\<close>.\<close>

definition state_getPluginState :: "u64 \<Rightarrow> string \<Rightarrow> nat \<Rightarrow> plugin_world \<Rightarrow> (nat \<times> plugin_world) res" where
  "state_getPluginState st plg made w = (case m_PluginState w st of
      None \<Rightarrow> Inl Undefined_Behaviour
    | Some ps \<Rightarrow> (case ps plg of
        Some d \<Rightarrow> Inr (d, w)
      | None \<Rightarrow> Inr (made, w\<lparr>m_PluginState := (m_PluginState w)(st \<mapsto> ps(plg \<mapsto> made)),
                             live_data := (live_data w)(made := True)\<rparr>)))"

definition plugin_getPluginState :: "u64 \<Rightarrow> string \<Rightarrow> nat \<Rightarrow> plugin_world \<Rightarrow> (nat \<times> plugin_world) res" where
  "plugin_getPluginState st plg made w =
     (if fst (plugin_cache w plg) = Some st then Inr (snd (plugin_cache w plg), w)
      else rbind (state_getPluginState st plg made w) (\<lambda>(d, w').
             Inr (d, w'\<lparr>plugin_cache := (plugin_cache w')(plg := (Some st, d))\<rparr>)))"

definition refresh :: "string \<Rightarrow> plugin_world \<Rightarrow> plugin_world" where
  "refresh plg w = w\<lparr>plugin_cache := (plugin_cache w)(plg := (None, 0))\<rparr>"

definition refreshPlugins :: "plugin_world \<Rightarrow> plugin_world" where
  "refreshPlugins w = fold refresh (loaded w) w"

text \<open>
  What the destructor of a state does to plugin data: it deletes the objects of the state, then
  refreshes the plugins. (Its last statement is an assertion that always fails, a stub.)
\<close>

definition drop_plugin_states :: "u64 \<Rightarrow> plugin_world \<Rightarrow> plugin_world" where
  "drop_plugin_states st w =
     (let gone = (case m_PluginState w st of None \<Rightarrow> {} | Some ps \<Rightarrow> ran ps);
          w1 = w\<lparr>live_data := (\<lambda>d. live_data w d \<and> d \<notin> gone)\<rparr>
      in (refreshPlugins w1)\<lparr>m_PluginState := (m_PluginState w)(st := None)\<rparr>)"

definition S2EExecutionState_delete :: "bool \<Rightarrow> u64 \<Rightarrow> plugin_world \<Rightarrow> plugin_world res" where
  "S2EExecutionState_delete has_last_tb st w =
     rbind (assert_that (\<not> has_last_tb)) (\<lambda>_.
     let w' = drop_plugin_states st w in Inl Assertion_Failed)"

datatype plugin_event = New_State u64 | Lookup u64 string nat | Drop_State u64

fun plugin_event_ok :: "plugin_event \<Rightarrow> plugin_world \<Rightarrow> bool" where
  "plugin_event_ok (New_State st) w = (m_PluginState w st = None)"
| "plugin_event_ok (Lookup st plg made) w =
     (m_PluginState w st \<noteq> None \<and> plg \<in> set (loaded w) \<and> \<not> live_data w made)"
| "plugin_event_ok (Drop_State st) w = (m_PluginState w st \<noteq> None)"

fun plugin_event_run :: "plugin_event \<Rightarrow> plugin_world \<Rightarrow> plugin_world res" where
  "plugin_event_run (New_State st) w = Inr (w\<lparr>m_PluginState := (m_PluginState w)(st \<mapsto> Map.empty)\<rparr>)"
| "plugin_event_run (Lookup st plg made) w = rbind (plugin_getPluginState st plg made w) (\<lambda>(d, w'). Inr w')"
| "plugin_event_run (Drop_State st) w = Inr (drop_plugin_states st w)"

inductive plugin_run :: "plugin_world \<Rightarrow> plugin_world \<Rightarrow> bool" for w0 where
  none: "plugin_run w0 w0"
| more: "plugin_run w0 w \<Longrightarrow> plugin_event_ok ev w \<Longrightarrow> plugin_event_run ev w = Inr w' \<Longrightarrow> plugin_run w0 w'"

definition empty_world :: "string list \<Rightarrow> plugin_world" where
  "empty_world plgs = \<lparr>m_PluginState = Map.empty, live_data = (\<lambda>_. False), loaded = plgs,
     plugin_cache = (\<lambda>_. (None, 0))\<rparr>"

text \<open>Data objects in a map exist, belong to one state and plugin, and a cache agrees with the map.\<close>

definition data_of :: "plugin_world \<Rightarrow> u64 \<Rightarrow> string \<Rightarrow> nat option" where
  "data_of w st plg = (case m_PluginState w st of None \<Rightarrow> None | Some ps \<Rightarrow> ps plg)"

definition cache_ok :: "plugin_world \<Rightarrow> bool" where
  "cache_ok w \<longleftrightarrow>
     (\<forall>st plg d. data_of w st plg = Some d \<longrightarrow> live_data w d) \<and>
     (\<forall>st st' plg plg' d. data_of w st plg = Some d \<longrightarrow> data_of w st' plg' = Some d \<longrightarrow> st = st' \<and> plg = plg') \<and>
     (\<forall>plg st. fst (plugin_cache w plg) = Some st \<longrightarrow> plg \<in> set (loaded w) \<and>
        data_of w st plg = Some (snd (plugin_cache w plg)))"

lemma cache_okD:
  assumes "cache_ok w"
  shows "data_of w st plg = Some d \<Longrightarrow> live_data w d"
    "data_of w st plg = Some d \<Longrightarrow> data_of w st' plg' = Some d \<Longrightarrow> st = st' \<and> plg = plg'"
    "fst (plugin_cache w plg) = Some st \<Longrightarrow> plg \<in> set (loaded w) \<and> data_of w st plg = Some (snd (plugin_cache w plg))"
  using assms unfolding cache_ok_def by blast+

lemma refreshPlugins_cache:
  "refreshPlugins w = w\<lparr>plugin_cache := (\<lambda>plg. if plg \<in> set (loaded w) then (None, 0) else plugin_cache w plg)\<rparr>"
proof -
  have "fold refresh ls w = w\<lparr>plugin_cache := (\<lambda>plg. if plg \<in> set ls then (None, 0) else plugin_cache w plg)\<rparr>"
    for ls w by (induction ls arbitrary: w) (auto simp: refresh_def fun_eq_iff intro!: plugin_world.equality)
  then show ?thesis by (simp add: refreshPlugins_def)
qed

lemma cached_lookup:
  assumes ok: "cache_ok w" and st: "m_PluginState w st = Some ps"
    and plg: "plg \<in> set (loaded w)" and made: "\<not> live_data w made"
  shows "\<exists>d w'. plugin_getPluginState st plg made w = Inr (d, w') \<and> cache_ok w' \<and> live_data w' d \<and>
    loaded w' = loaded w \<and> d = (case data_of w st plg of None \<Rightarrow> made | Some d \<Rightarrow> d) \<and>
    data_of w' st plg = Some d"
proof (cases "fst (plugin_cache w plg) = Some st")
  case True
  with cache_okD(3) [OF ok True] cache_okD(1) [OF ok] ok show ?thesis
    by (auto simp: plugin_getPluginState_def)
next
  case False
  show ?thesis
  proof (cases "ps plg")
    case (Some d)
    let ?w = "w\<lparr>plugin_cache := (plugin_cache w)(plg := (Some st, d))\<rparr>"
    have run: "plugin_getPluginState st plg made w = Inr (d, ?w)"
      using False st Some by (simp add: plugin_getPluginState_def state_getPluginState_def)
    have d: "data_of w st plg = Some d" using st Some by (simp add: data_of_def)
    have same: "data_of ?w = data_of w" by (intro ext) (simp add: data_of_def)
    have "cache_ok ?w"
      using ok plg d unfolding cache_ok_def same by (simp split: if_splits) 
    with run d same cache_okD(1) [OF ok d] show ?thesis by auto
  next
    case None
    let ?w = "w\<lparr>m_PluginState := (m_PluginState w)(st \<mapsto> ps(plg \<mapsto> made)),
      live_data := (live_data w)(made := True), plugin_cache := (plugin_cache w)(plg := (Some st, made))\<rparr>"
    have run: "plugin_getPluginState st plg made w = Inr (made, ?w)"
      using False None st by (simp add: plugin_getPluginState_def state_getPluginState_def)
    have old: "data_of w st plg = None" using st None by (simp add: data_of_def)
    have new: "data_of ?w st' plg' = (if st' = st \<and> plg' = plg then Some made else data_of w st' plg')"
      for st' plg' using st by (simp add: data_of_def)
    have fresh: "data_of w st' plg' \<noteq> Some made" for st' plg' using cache_okD(1) [OF ok] made by blast
    have "live_data ?w d" if "data_of ?w st1 plg1 = Some d" for st1 plg1 d
      using that cache_okD(1) [OF ok] by (auto simp: new split: if_splits)
    moreover have "st1 = st2 \<and> plg1 = plg2"
      if "data_of ?w st1 plg1 = Some d" "data_of ?w st2 plg2 = Some d" for st1 st2 plg1 plg2 d
      using that fresh cache_okD(2) [OF ok] by (auto simp: new split: if_splits)
    moreover have "plg1 \<in> set (loaded ?w) \<and> data_of ?w st1 plg1 = Some (snd (plugin_cache ?w plg1))"
      if "fst (plugin_cache ?w plg1) = Some st1" for plg1 st1
      using that plg cache_okD(3) [OF ok] by (auto simp: new split: if_splits)
    ultimately have "cache_ok ?w" unfolding cache_ok_def by blast
    with run old new show ?thesis by auto
  qed
qed

lemma drop_keeps:
  assumes ok: "cache_ok w"
  shows "cache_ok (drop_plugin_states st w)" "loaded (drop_plugin_states st w) = loaded w"
proof -
  let ?w = "drop_plugin_states st w"
  have d: "data_of ?w st' plg = (if st' = st then None else data_of w st' plg)" for st' plg
    by (simp add: drop_plugin_states_def refreshPlugins_cache data_of_def Let_def)
  have l: "live_data ?w x \<longleftrightarrow> live_data w x \<and> (\<forall>plg. data_of w st plg \<noteq> Some x)" for x
    by (auto simp: drop_plugin_states_def refreshPlugins_cache data_of_def ran_def Let_def split: option.splits)
  have c: "plugin_cache ?w plg = (if plg \<in> set (loaded w) then (None, 0) else plugin_cache w plg)" for plg
    by (simp add: drop_plugin_states_def refreshPlugins_cache Let_def)
  show ld: "loaded ?w = loaded w" by (simp add: drop_plugin_states_def refreshPlugins_cache Let_def)
  have "live_data ?w x" if "data_of ?w st1 plg = Some x" for st1 plg x
    using that cache_okD(1,2) [OF ok] by (auto simp: d l split: if_splits)
  moreover have "st1 = st2 \<and> plg1 = plg2"
    if "data_of ?w st1 plg1 = Some x" "data_of ?w st2 plg2 = Some x" for st1 st2 plg1 plg2 x
    using that cache_okD(2) [OF ok] by (auto simp: d split: if_splits)
  moreover have "plg \<in> set (loaded ?w) \<and> data_of ?w st1 plg = Some (snd (plugin_cache ?w plg))"
    if "fst (plugin_cache ?w plg) = Some st1" for plg st1
    using that cache_okD(3) [OF ok, of plg st1] by (auto simp: c split: if_splits)
  ultimately show "cache_ok ?w" unfolding cache_ok_def by blast
qed

lemma plugin_run_ok: "plugin_run w0 w \<Longrightarrow> cache_ok w0 \<Longrightarrow> cache_ok w \<and> loaded w = loaded w0"
proof (induction rule: plugin_run.induct)
  case none
  then show ?case by simp
next
  case (more w ev w')
  then have IH: "cache_ok w" "loaded w = loaded w0" by simp_all
  show ?case
  proof (cases ev)
    case (New_State st)
    then have st: "m_PluginState w st = None" and w': "w' = w\<lparr>m_PluginState := (m_PluginState w)(st \<mapsto> Map.empty)\<rparr>"
      using more.hyps by auto
    have "data_of w' = data_of w" using st by (intro ext) (simp add: w' data_of_def)
    then have "cache_ok w'" using IH(1) unfolding cache_ok_def by (simp add: w')
    with IH(2) show ?thesis by (simp add: w')
  next
    case (Lookup st plg made)
    with more.hyps obtain ps where "m_PluginState w st = Some ps" "plg \<in> set (loaded w)" "\<not> live_data w made" by auto
    from cached_lookup [OF IH(1) this] more.hyps(3) IH(2) Lookup show ?thesis by auto
  next
    case (Drop_State st)
    then have "w' = drop_plugin_states st w" using more.hyps(3) by simp
    with drop_keeps [OF IH(1)] IH(2) show ?thesis by simp
  qed
qed



end
