(* ===== verification/Device_State.thy ===== *)
theory Device_State
  imports S2E_Prelude
begin

text \<open>
  The state of virtual devices (\<open>S2EDeviceState.cpp\<close>, \<open>S2EDeviceState.h\<close>): the snapshot buffers that
  QEMU's device serialisation writes and reads through callbacks, and the copy-on-write store of
  disk sectors. KLEE's address space, which holds the sectors, and QEMU's serialisation are
  parameters.
\<close>

section \<open>State\<close>

datatype alloc_kind = By_Malloc | By_New_Array

record device_globals =
  s_devices :: "string list"
  s_blockDevices :: "nat list"
  s_tempStateBuffer :: "u8 list option"
  s_tempStateSize :: u32
  s_finalStateSize :: u32
  s_devicesInited :: bool
  bdrv_hooks :: bool

record 's device_state =
  m_stateBuffer :: "(alloc_kind \<times> u8 list) option"
  m_memFile :: bool
  m_deviceState :: 's

definition S2EDeviceState_new :: "'s \<Rightarrow> 's device_state" where
  "S2EDeviceState_new as = \<lparr>m_stateBuffer = None, m_memFile = False, m_deviceState = as\<rparr>"

text \<open>The copy constructor.\<close>

definition S2EDeviceState_copy :: "device_globals \<Rightarrow> 's device_state \<Rightarrow> 's device_state res" where
  "S2EDeviceState_copy g d = (case m_stateBuffer d of
      None \<Rightarrow> Inl Assertion_Failed
    | Some (k, b) \<Rightarrow>
        rbind (assert_that (0 < s_finalStateSize g)) (\<lambda>_.
        rbind (ensure_defined (unat (s_finalStateSize g) \<le> length b)) (\<lambda>_.
          Inr \<lparr>m_stateBuffer = Some (By_New_Array, take (unat (s_finalStateSize g)) b),
               m_memFile = True, m_deviceState = m_deviceState d\<rparr>)))"

text \<open>The destructor gives the buffer to \<open>free\<close>, which is undefined unless \<open>malloc\<close> made it.\<close>

definition S2EDeviceState_delete :: "'s device_state \<Rightarrow> unit res" where
  "S2EDeviceState_delete d = (case m_stateBuffer d of
      None \<Rightarrow> Inr ()
    | Some (k, b) \<Rightarrow> ensure_defined (k = By_Malloc))"

section \<open>Initialisation\<close>

text \<open>\<open>getline(ss, s, ',')\<close> until the end of the option string.\<close>

fun split_on :: "char \<Rightarrow> string \<Rightarrow> string \<Rightarrow> string list" where
  "split_on d acc [] = (if acc = [] then [] else [acc])"
| "split_on d acc (c # cs) = (if c = d then acc # split_on d [] cs else split_on d (acc @ [c]) cs)"

definition ignore_list :: "bool \<Rightarrow> string \<Rightarrow> string list" where
  "ignore_list target_arm shared_devices =
     split_on CHR '','' [] shared_devices @ [''ram'', ''block''] @ (if target_arm then [] else [''cpu''])"

text \<open>\<open>handlers\<close> are the identifiers of the devices QEMU knows, in its order.\<close>

definition initDeviceState ::
  "bool \<Rightarrow> string \<Rightarrow> bool \<Rightarrow> string list \<Rightarrow> 's device_state \<Rightarrow> device_globals \<Rightarrow> device_globals res" where
  "initDeviceState target_arm shared_devices persistent handlers d g =
     rbind (assert_that (m_stateBuffer d = None)) (\<lambda>_.
     rbind (assert_that (\<not> m_memFile d)) (\<lambda>_.
     rbind (assert_that (\<not> s_devicesInited g)) (\<lambda>_.
       let ign = ignore_list target_arm shared_devices;
           g1 = (if \<not> s_devicesInited g
                 then g\<lparr>s_devices := s_devices g @ filter (\<lambda>h. h \<notin> set ign) handlers, s_devicesInited := True\<rparr>
                 else g)
       in Inr (if persistent then g1 else g1\<lparr>bdrv_hooks := True\<rparr>))))"

section \<open>Snapshot buffers\<close>

text \<open>\<open>memcpy\<close> into a buffer at a position.\<close>

definition copy_into :: "u8 list \<Rightarrow> nat \<Rightarrow> u8 list \<Rightarrow> u8 list res" where
  "copy_into dest pos src =
     rbind (ensure_defined (pos + length src \<le> length dest)) (\<lambda>_.
       Inr (take pos dest @ src @ drop (pos + length src) dest))"

text \<open>\<open>realloc\<close> keeps the common prefix; the rest of the block is \<open>junk\<close>, and \<open>got\<close> is whether the
  memory is there.\<close>

definition resized :: "(nat \<Rightarrow> u8) \<Rightarrow> nat \<Rightarrow> u8 list option \<Rightarrow> u8 list" where
  "resized junk n b = (let old = (case b of None \<Rightarrow> [] | Some xs \<Rightarrow> xs)
     in take n old @ map junk [length old..<n])"

definition allocateBuffer :: "bool \<Rightarrow> (nat \<Rightarrow> u8) \<Rightarrow> u32 \<Rightarrow> device_globals \<Rightarrow> device_globals res" where
  "allocateBuffer got junk sz g =
     (if sz < s_tempStateSize g then Inr g
      else if \<not> got then Inl (Process_Exit (-1))
      else Inr (g\<lparr>s_tempStateSize := sz,
                  s_tempStateBuffer := Some (resized junk (unat sz) (s_tempStateBuffer g))\<rparr>))"

definition putBuffer ::
  "bool \<Rightarrow> (nat \<Rightarrow> u8) \<Rightarrow> u8 list \<Rightarrow> nat \<Rightarrow> 's device_state \<times> device_globals \<Rightarrow>
   (nat \<times> 's device_state \<times> device_globals) res" where
  "putBuffer got junk buf pos st = (case st of (d, g) \<Rightarrow>
     (case m_stateBuffer d of
        None \<Rightarrow>
          rbind (allocateBuffer got junk (of_nat (pos + length buf)) g) (\<lambda>g1.
            case s_tempStateBuffer g1 of
              None \<Rightarrow> Inl Undefined_Behaviour
            | Some t \<Rightarrow> rbind (copy_into t pos buf) (\<lambda>t'.
                Inr (length buf, d, g1\<lparr>s_tempStateBuffer := Some t'\<rparr>)))
      | Some (k, b) \<Rightarrow>
          rbind (copy_into b pos buf) (\<lambda>b'. Inr (length buf, d\<lparr>m_stateBuffer := Some (k, b')\<rparr>, g))))"

text \<open>\<open>getBuffer\<close> returns the requested size also when it copied less; the value is the buffer of the
  caller afterwards.\<close>

definition getBuffer :: "u8 list \<Rightarrow> nat \<Rightarrow> 's device_state \<Rightarrow> device_globals \<Rightarrow> (nat \<times> u8 list) res" where
  "getBuffer buf pos d g = (case m_stateBuffer d of
      None \<Rightarrow> Inl Assertion_Failed
    | Some (k, b) \<Rightarrow>
        let size = length buf; final = unat (s_finalStateSize g) in
        rbind (ensure_defined (pos + size \<le> final \<or> pos \<le> final)) (\<lambda>_.
          let toCopy = (if pos + size \<le> final then size else final - pos) in
          rbind (ensure_defined (pos + toCopy \<le> length b)) (\<lambda>_.
            Inr (size, take toCopy (drop pos b) @ drop toCopy buf))))"

definition initFirstSnapshot :: "bool \<Rightarrow> 's device_state \<times> device_globals \<Rightarrow> ('s device_state \<times> device_globals) res" where
  "initFirstSnapshot got st = (case st of (d, g) \<Rightarrow>
     if s_finalStateSize g \<noteq> 0 then Inr (d, g)
     else (case s_tempStateBuffer g of
        None \<Rightarrow> Inl Assertion_Failed
      | Some t \<Rightarrow>
          rbind (assert_that (m_stateBuffer d = None \<and> s_tempStateSize g \<noteq> 0)) (\<lambda>_.
            if \<not> got then Inl (Process_Exit (-1))
            else Inr (d\<lparr>m_stateBuffer := Some (By_Malloc, take (unat (s_tempStateSize g)) t)\<rparr>,
                      g\<lparr>s_finalStateSize := s_tempStateSize g, s_tempStateBuffer := None,
                        s_tempStateSize := 0\<rparr>))))"

text \<open>
  Saving: QEMU serialises each device into chunks, and hands the chunks in order to \<open>putBuffer\<close> at
  increasing positions.
\<close>

fun put_chunks ::
  "bool \<Rightarrow> (nat \<Rightarrow> u8) \<Rightarrow> nat \<Rightarrow> u8 list list \<Rightarrow> 's device_state \<times> device_globals \<Rightarrow>
   ('s device_state \<times> device_globals) res" where
  "put_chunks got junk pos [] st = Inr st"
| "put_chunks got junk pos (c # cs) st =
     rbind (putBuffer got junk c pos st) (\<lambda>(n, st'). put_chunks got junk (pos + n) cs st')"

definition saveDeviceState ::
  "bool \<Rightarrow> (nat \<Rightarrow> u8) \<Rightarrow> (string \<Rightarrow> u8 list list) \<Rightarrow> 's device_state \<times> device_globals \<Rightarrow>
   ('s device_state \<times> device_globals) res" where
  "saveDeviceState got junk serialise st =
     rbind (put_chunks got junk 0 (concat (map serialise (s_devices (snd st)))) st) (initFirstSnapshot got)"

text \<open>Restoring: QEMU asks for pieces of given sizes, in order.\<close>

fun get_chunks :: "nat \<Rightarrow> nat list \<Rightarrow> 's device_state \<Rightarrow> device_globals \<Rightarrow> u8 list list res" where
  "get_chunks pos [] d g = Inr []"
| "get_chunks pos (n # ns) d g =
     rbind (getBuffer (replicate n 0) pos d g) (\<lambda>(m, c).
     rbind (get_chunks (pos + m) ns d g) (\<lambda>cs. Inr (c # cs)))"

definition restoreDeviceState :: "(string \<Rightarrow> nat list) \<Rightarrow> 's device_state \<Rightarrow> device_globals \<Rightarrow> u8 list list res" where
  "restoreDeviceState sizes d g =
     rbind (assert_that (s_finalStateSize g \<noteq> 0 \<and> m_stateBuffer d \<noteq> None)) (\<lambda>_.
       get_chunks 0 (concat (map sizes (s_devices g))) d g)"

section \<open>Disk sectors\<close>

definition SECTOR_SIZE :: nat where "SECTOR_SIZE = 512"

text \<open>
  The initialiser \<open>(1024 * 1024 * 1024) * 64\<close> is an expression of type \<open>int\<close>: it overflows, and the
  32-bit product, which is what a compiler that wraps computes, is converted to 64 bits.
\<close>

definition BLOCK_DEV_AS :: u64 where
  "BLOCK_DEV_AS = scast (((1024 * 1024 * 1024) * 64) :: u32)"

fun index_of :: "nat \<Rightarrow> nat list \<Rightarrow> nat option" where
  "index_of x [] = None"
| "index_of x (y # ys) = (if y = x then Some 0 else map_option Suc (index_of x ys))"

definition getBlockDeviceId :: "nat \<Rightarrow> device_globals \<Rightarrow> nat \<times> device_globals" where
  "getBlockDeviceId dev g = (case index_of dev (s_blockDevices g) of
      Some i \<Rightarrow> (i, g)
    | None \<Rightarrow> (length (s_blockDevices g), g\<lparr>s_blockDevices := s_blockDevices g @ [dev]\<rparr>))"

definition getBlockDeviceStart :: "nat \<Rightarrow> device_globals \<Rightarrow> u64 \<times> device_globals" where
  "getBlockDeviceStart dev g = (case getBlockDeviceId dev g of (i, g') \<Rightarrow> (of_nat i * BLOCK_DEV_AS, g'))"

text \<open>The operations on KLEE's address space that the sector store uses.\<close>

record 's sector_ops =
  find_sector :: "u64 \<Rightarrow> 's \<Rightarrow> u8 list option"
  bind_sector :: "u64 \<Rightarrow> 's \<Rightarrow> 's"
  fill_sector :: "u64 \<Rightarrow> u8 list \<Rightarrow> 's \<Rightarrow> 's"

text \<open>The documented behaviour: an object is found at the address it was bound to.\<close>

definition sector_laws :: "'s sector_ops \<Rightarrow> bool" where
  "sector_laws ops \<longleftrightarrow>
     (\<forall>a b s. find_sector ops b (bind_sector ops a s) =
        (if b = a then Some (replicate SECTOR_SIZE 0) else find_sector ops b s)) \<and>
     (\<forall>a b v s. find_sector ops a s \<noteq> None \<longrightarrow>
        find_sector ops b (fill_sector ops a v s) = (if b = a then Some v else find_sector ops b s))"

definition sector_address :: "u64 \<Rightarrow> u64 \<Rightarrow> u64" where
  "sector_address bstart sector = bstart + sector * of_nat SECTOR_SIZE"

text \<open>The loops of \<open>writeSector\<close> and \<open>readSector\<close>; the data is the list of sectors in the buffer.\<close>

fun write_loop :: "'s sector_ops \<Rightarrow> u64 \<Rightarrow> u64 \<Rightarrow> u8 list list \<Rightarrow> 's \<Rightarrow> 's" where
  "write_loop ops bstart sector [] s = s"
| "write_loop ops bstart sector (buf # bufs) s =
     (let a = sector_address bstart sector;
          s1 = (if find_sector ops a s = None then bind_sector ops a s else s)
      in write_loop ops bstart (sector + 1) bufs (fill_sector ops a buf s1))"

definition writeSector ::
  "'s sector_ops \<Rightarrow> nat \<Rightarrow> u64 \<Rightarrow> u8 list list \<Rightarrow> 's device_state \<times> device_globals \<Rightarrow>
   int \<times> 's device_state \<times> device_globals" where
  "writeSector ops bs sector bufs st = (case st of (d, g) \<Rightarrow>
     case getBlockDeviceStart bs g of (bstart, g') \<Rightarrow>
       (0, d\<lparr>m_deviceState := write_loop ops bstart sector bufs (m_deviceState d)\<rparr>, g'))"

fun read_loop :: "'s sector_ops \<Rightarrow> u64 \<Rightarrow> u64 \<Rightarrow> nat \<Rightarrow> 's \<Rightarrow> u8 list list" where
  "read_loop ops bstart sector 0 s = []"
| "read_loop ops bstart sector (Suc n) s =
     (case find_sector ops (sector_address bstart sector) s of
        None \<Rightarrow> []
      | Some v \<Rightarrow> v # read_loop ops bstart (sector + 1) n s)"

text \<open>The result is the number of sectors read, with the sectors.\<close>

definition readSector ::
  "'s sector_ops \<Rightarrow> nat \<Rightarrow> u64 \<Rightarrow> nat \<Rightarrow> 's device_state \<times> device_globals \<Rightarrow>
   (nat \<times> u8 list list) \<times> device_globals" where
  "readSector ops bs sector n st = (case st of (d, g) \<Rightarrow>
     case getBlockDeviceStart bs g of (bstart, g') \<Rightarrow>
       let vs = read_loop ops bstart sector n (m_deviceState d) in ((length vs, vs), g'))"

definition s2e_bdrv_read where "s2e_bdrv_read = readSector"
definition s2e_bdrv_write where "s2e_bdrv_write = writeSector"
definition s2e_bdrv_fail :: "unit res" where "s2e_bdrv_fail = Inl (Process_Exit (-1))"

section \<open>Snapshots\<close>

lemma copy_into_ok:
  "pos + length src \<le> length dest \<Longrightarrow>
   copy_into dest pos src = Inr (take pos dest @ src @ drop (pos + length src) dest)"
  by (simp add: copy_into_def)

text \<open>After chunks at consecutive positions the buffer starts with their concatenation.\<close>

definition temp_holds :: "u8 list \<Rightarrow> device_globals \<Rightarrow> bool" where
  "temp_holds xs g \<longleftrightarrow> (xs = [] \<and> s_tempStateBuffer g = None \<and> s_tempStateSize g = 0 \<or>
     (\<exists>t. s_tempStateBuffer g = Some t \<and> length t = unat (s_tempStateSize g) \<and> length t = length xs \<and> t = xs))"

lemma put_chunk_temp:
  assumes t: "temp_holds xs g" and d: "m_stateBuffer d = None" and sz: "length xs + length c < 2 ^ 32"
  shows "\<exists>g'. putBuffer True junk c (length xs) (d, g) = Inr (length c, d, g') \<and> temp_holds (xs @ c) g' \<and>
    s_finalStateSize g' = s_finalStateSize g \<and> s_devices g' = s_devices g"
proof -
  let ?n = "length xs + length c"
  let ?sz = "of_nat ?n :: u32"
  have u: "unat ?sz = ?n" using sz by (simp only: unat_of_nat) simp
  have size: "unat (s_tempStateSize g) = length xs" using t by (auto simp: temp_holds_def)
  then have nless: "\<not> ?sz < s_tempStateSize g" using u by (simp add: word_less_nat_alt)
  have old: "(case s_tempStateBuffer g of None \<Rightarrow> [] | Some ys \<Rightarrow> ys) = xs"
    using t by (auto simp: temp_holds_def)
  let ?t = "xs @ map junk [length xs..<?n]"
  have al: "allocateBuffer True junk ?sz g =
      Inr (g\<lparr>s_tempStateSize := ?sz, s_tempStateBuffer := Some ?t\<rparr>)"
    using nless unfolding allocateBuffer_def resized_def old Let_def u by simp
  have "copy_into ?t (length xs) c = Inr (xs @ c)" by (simp add: copy_into_ok)
  then have "putBuffer True junk c (length xs) (d, g) =
      Inr (length c, d, g\<lparr>s_tempStateSize := ?sz, s_tempStateBuffer := Some (xs @ c)\<rparr>)"
    using d al by (simp add: putBuffer_def del: of_nat_add)
  moreover have "temp_holds (xs @ c) (g\<lparr>s_tempStateSize := ?sz, s_tempStateBuffer := Some (xs @ c)\<rparr>)"
    using u by (simp add: temp_holds_def del: of_nat_add)
  ultimately show ?thesis by auto
qed

lemma put_chunks_temp:
  "temp_holds xs g \<Longrightarrow> m_stateBuffer d = None \<Longrightarrow> length xs + length (concat cs) < 2 ^ 32 \<Longrightarrow>
   \<exists>g'. put_chunks True junk (length xs) cs (d, g) = Inr (d, g') \<and> temp_holds (xs @ concat cs) g' \<and>
     s_finalStateSize g' = s_finalStateSize g \<and> s_devices g' = s_devices g"
proof (induction cs arbitrary: xs g)
  case (Cons c cs)
  from put_chunk_temp [OF Cons.prems(1,2), of c junk] Cons.prems(3) obtain g1 where
    g1: "putBuffer True junk c (length xs) (d, g) = Inr (length c, d, g1)" "temp_holds (xs @ c) g1"
      "s_finalStateSize g1 = s_finalStateSize g" "s_devices g1 = s_devices g" by auto
  from Cons.IH [OF g1(2) Cons.prems(2)] Cons.prems(3) g1 show ?case by auto
qed auto

lemma get_chunks_spec:
  assumes "m_stateBuffer d = Some (k, b)" "unat (s_finalStateSize g) = length b"
  shows "pos + sum_list ns \<le> length b \<Longrightarrow>
    \<exists>cs. get_chunks pos ns d g = Inr cs \<and> map length cs = ns \<and> concat cs = take (sum_list ns) (drop pos b)"
proof (induction ns arbitrary: pos)
  case (Cons n ns)
  then have "getBuffer (replicate n 0) pos d g = Inr (n, take n (drop pos b))"
    using assms by (simp add: getBuffer_def Let_def)
  moreover from Cons.IH [of "pos + n"] Cons.prems obtain cs where
    "get_chunks (pos + n) ns d g = Inr cs" "map length cs = ns" "concat cs = take (sum_list ns) (drop (pos + n) b)"
    by (auto simp: add.assoc)
  ultimately show ?case using Cons.prems by (simp add: take_add add.commute [of n pos])
qed simp


definition no_devices :: device_globals where
  "no_devices = \<lparr>s_devices = [], s_blockDevices = [], s_tempStateBuffer = None, s_tempStateSize = 0,
     s_finalStateSize = 0, s_devicesInited = False, bdrv_hooks = False\<rparr>"


section \<open>The sector store\<close>

lemma sector_address_step:
  "sector_address b (s + 1 + of_nat i) = sector_address b (s + of_nat (Suc i))"
  by (simp add: sector_address_def algebra_simps)

lemma sector_address_inject:
  assumes "sector_address b (s + of_nat i) = sector_address b (s + of_nat j)" "i < 2 ^ 55" "j < 2 ^ 55"
  shows "i = j"
proof -
  have "(of_nat (i * 512) :: u64) = of_nat (j * 512)"
    using assms(1) by (simp add: sector_address_def SECTOR_SIZE_def algebra_simps)
  then have "unat (of_nat (i * 512) :: u64) = unat (of_nat (j * 512) :: u64)" by (simp only:)
  then show ?thesis using assms(2,3) by (simp only: unat_of_nat) simp
qed

lemma find_after_write:
  assumes "sector_laws ops"
  shows "find_sector ops b (fill_sector ops a v (if find_sector ops a s = None then bind_sector ops a s else s)) =
    (if b = a then Some v else find_sector ops b s)"
  using assms by (simp add: sector_laws_def)

lemma write_loop_other:
  assumes "sector_laws ops"
  shows "(\<forall>i<length bufs. a \<noteq> sector_address b (sec + of_nat i)) \<Longrightarrow>
    find_sector ops a (write_loop ops b sec bufs s) = find_sector ops a s"
proof (induction bufs arbitrary: sec s)
  case (Cons buf bufs)
  have "a \<noteq> sector_address b (sec + 1 + of_nat i)" if "i < length bufs" for i
    using Cons.prems that by (auto simp: sector_address_step simp del: of_nat_Suc)
  moreover have "a \<noteq> sector_address b sec" using Cons.prems by (auto dest: spec [of _ 0])
  ultimately show ?case using Cons.IH by (simp add: find_after_write [OF assms] Let_def)
qed simp

lemma write_loop_at:
  assumes "sector_laws ops"
  shows "i < length bufs \<Longrightarrow> length bufs < 2 ^ 31 \<Longrightarrow>
    find_sector ops (sector_address b (sec + of_nat i)) (write_loop ops b sec bufs s) = Some (bufs ! i)"
proof (induction bufs arbitrary: sec s i)
  case (Cons buf bufs)
  show ?case
  proof (cases i)
    case 0
    have "sector_address b sec \<noteq> sector_address b (sec + 1 + of_nat j)" if "j < length bufs" for j
      using sector_address_inject [of b sec 0 "Suc j"] that Cons.prems(2)
      by (auto simp: sector_address_step simp del: of_nat_Suc)
    then show ?thesis using 0 write_loop_other [OF assms, of bufs "sector_address b sec" b "sec + 1"]
      by (simp add: find_after_write [OF assms] Let_def)
  next
    case (Suc j)
    then show ?thesis using Cons.prems Cons.IH [of j "sec + 1"]
      by (simp only: write_loop.simps Let_def sector_address_step) simp
  qed
qed simp

lemma read_loop_all:
  "(\<forall>i<length vs. find_sector ops (sector_address b (sec + of_nat i)) s = Some (vs ! i)) \<Longrightarrow>
   read_loop ops b sec (length vs) s = vs"
proof (induction vs arbitrary: sec)
  case (Cons v vs)
  have "find_sector ops (sector_address b (sec + 1 + of_nat i)) s = Some (vs ! i)" if "i < length vs" for i
    using Cons.prems that by (auto simp: sector_address_step simp del: of_nat_Suc dest: spec [of _ "Suc i"])
  moreover have "find_sector ops (sector_address b sec) s = Some v" using Cons.prems by (auto dest: spec [of _ 0])
  ultimately show ?case using Cons.IH [of "sec + 1"] by simp
qed simp

text \<open>A device keeps its number once it has one.\<close>

lemma index_of_append: "index_of x xs = None \<Longrightarrow> index_of x (xs @ [x]) = Some (length xs)"
  by (induction xs) (auto split: if_splits)

lemma block_device_start_stable:
  "getBlockDeviceStart bs g = (b, g') \<Longrightarrow> getBlockDeviceStart bs g' = (b, g')"
  by (auto simp: getBlockDeviceStart_def getBlockDeviceId_def index_of_append split: option.splits)

text \<open>C13: Sectors that were written to a device are read back from it, all of them, and no object
  of the store outside the written range changes; a read that starts at a sector never written
  stops at once with the count 0, so that QEMU reads the image instead.\<close>

theorem sector_round_trip:
  assumes laws: "sector_laws ops" and n: "length bufs < 2 ^ 31"
    and w: "writeSector ops bs sector bufs (d, g) = (r, d', g')"
  shows "r = 0 \<and> readSector ops bs sector (length bufs) (d', g') = ((length bufs, bufs), g') \<and>
    (\<forall>a. (\<forall>i<length bufs. a \<noteq> sector_address (fst (getBlockDeviceStart bs g)) (sector + of_nat i)) \<longrightarrow>
      find_sector ops a (m_deviceState d') = find_sector ops a (m_deviceState d)) \<and>
    (\<forall>first k. find_sector ops (sector_address (fst (getBlockDeviceStart bs g)) first) (m_deviceState d') = None \<longrightarrow>
      readSector ops bs first (Suc k) (d', g') = ((0, []), g'))"
proof -
  obtain b where b: "getBlockDeviceStart bs g = (b, g')" and d': "r = 0"
    "d' = d\<lparr>m_deviceState := write_loop ops b sector bufs (m_deviceState d)\<rparr>"
    using w by (auto simp: writeSector_def split: prod.splits)
  have "read_loop ops b sector (length bufs) (m_deviceState d') = bufs"
    by (rule read_loop_all) (simp add: d' write_loop_at [OF laws _ n])
  then show ?thesis
    using d' b write_loop_other [OF laws]
    by (simp add: readSector_def block_device_start_stable [OF b])
qed

definition map_ops :: "(u64 \<rightharpoonup> u8 list) sector_ops" where
  "map_ops = \<lparr>find_sector = (\<lambda>a m. m a), bind_sector = (\<lambda>a m. m(a \<mapsto> replicate SECTOR_SIZE 0)),
     fill_sector = (\<lambda>a v m. m(a \<mapsto> v))\<rparr>"

lemma map_ops_laws: "sector_laws map_ops"
  by (simp add: sector_laws_def map_ops_def)

theorem sector_round_trip_witness:
  "\<exists>r d' g'. writeSector map_ops 7 5 [replicate 512 1, replicate 512 2] (S2EDeviceState_new Map.empty, no_devices) =
      (r, d', g') \<and> readSector map_ops 7 5 2 (d', g') = ((2, [replicate 512 1, replicate 512 2]), g')"
proof -
  obtain r d' g' where w: "writeSector map_ops 7 5 [replicate 512 1, replicate 512 2]
      (S2EDeviceState_new Map.empty, no_devices) = (r, d', g')" by (metis surj_pair)
  have len: "length [x, y] = 2" for x y :: "u8 list" by simp
  show ?thesis using sector_round_trip [OF map_ops_laws _ w, unfolded len] w by auto
qed

text \<open>The address range that every block device is meant to have starts at 0 for all of them,
  because its size, computed in 32 bits, is 0: what was written to one device is read back from
  every other device.\<close>

theorem block_devices_share_sectors:
  assumes laws: "sector_laws ops" and n: "length bufs < 2 ^ 31"
    and w: "writeSector ops bs sector bufs (d, g) = (r, d', g')"
  shows "fst (readSector ops other sector (length bufs) (d', g'')) = (length bufs, bufs) \<and>
    fst (getBlockDeviceStart other g'') = fst (getBlockDeviceStart bs g)"
proof -
  have zero: "BLOCK_DEV_AS = 0" by (simp add: BLOCK_DEV_AS_def)
  then have start: "fst (getBlockDeviceStart x y) = 0" for x y
    by (simp add: getBlockDeviceStart_def split: prod.splits)
  have d': "d' = d\<lparr>m_deviceState := write_loop ops 0 sector bufs (m_deviceState d)\<rparr>"
    using w start [of bs g] by (auto simp: writeSector_def split: prod.splits)
  have "read_loop ops 0 sector (length bufs) (m_deviceState d') = bufs"
    by (rule read_loop_all) (simp add: d' write_loop_at [OF laws _ n])
  then show ?thesis using start by (simp add: readSector_def Let_def prod.case_eq_if)
qed

theorem block_devices_share_sectors_witness:
  "\<exists>r d' g'. writeSector map_ops 7 5 [replicate 512 1] (S2EDeviceState_new Map.empty, no_devices) = (r, d', g') \<and>
     fst (readSector map_ops 8 5 1 (d', g')) = (1, [replicate 512 1])"
proof -
  obtain r d' g' where w: "writeSector map_ops 7 5 [replicate 512 1]
      (S2EDeviceState_new Map.empty, no_devices) = (r, d', g')" by (metis surj_pair)
  show ?thesis using block_devices_share_sectors [OF map_ops_laws _ w, of 8 g'] w by auto
qed

text \<open>A copied state holds a buffer from \<open>new[]\<close>, which its destructor gives to \<open>free\<close>.\<close>

lemma copied_state_delete:
  "S2EDeviceState_copy g d = Inr d' \<Longrightarrow> S2EDeviceState_delete d' = Inl Undefined_Behaviour"
  by (auto simp: S2EDeviceState_copy_def S2EDeviceState_delete_def outcome_simps split: option.splits)

end
