(* ===== verification/Tcp_Socket.thy ===== *)
theory Tcp_Socket
  imports S2E_Prelude
begin

text \<open>
  The TCP socket of the remote interfaces (\<open>QemuSocket.cpp\<close>, \<open>QemuSocket.h\<close>): resolution of
  addresses, the client and the server socket, and the buffered stream on top of a socket. The
  system calls are operations of a parameter; its state is the world outside the process.
\<close>

section \<open>Addresses\<close>

datatype family = AF_INET | AF_INET6 | AF_OTHER int

datatype socket_address = Inet4SocketAddress "u8 list" | Inet6SocketAddress "u8 list"

fun getAddressFamily :: "socket_address \<Rightarrow> family" where
  "getAddressFamily (Inet4SocketAddress _) = AF_INET"
| "getAddressFamily (Inet6SocketAddress _) = AF_INET6"

record 'w net_ops =
  sys_getaddrinfo :: "string \<Rightarrow> string \<Rightarrow> int + (family \<times> u8 list) list"
  sys_socket :: "family \<Rightarrow> 'w \<Rightarrow> int \<times> 'w"
  sys_connect :: "int \<Rightarrow> socket_address \<Rightarrow> 'w \<Rightarrow> int \<times> 'w"
  sys_bind :: "int \<Rightarrow> socket_address \<Rightarrow> 'w \<Rightarrow> int \<times> 'w"
  sys_listen :: "int \<Rightarrow> int \<Rightarrow> 'w \<Rightarrow> int \<times> 'w"
  sys_accept :: "int \<Rightarrow> 'w \<Rightarrow> int \<times> family \<times> u8 list \<times> 'w"
  sys_close :: "int \<Rightarrow> 'w \<Rightarrow> 'w"
  sys_select :: "int \<Rightarrow> (u64 \<times> u64) option \<Rightarrow> 'w \<Rightarrow> int \<times> 'w"
  sys_read :: "int \<Rightarrow> nat \<Rightarrow> 'w \<Rightarrow> int \<times> u8 list \<times> 'w"
  sys_write :: "int \<Rightarrow> u8 list \<Rightarrow> 'w \<Rightarrow> int \<times> 'w"
  sys_errno :: "'w \<Rightarrow> int"

text \<open>\<open>std::string::rfind\<close>.\<close>

fun rfind :: "char \<Rightarrow> string \<Rightarrow> nat option" where
  "rfind c [] = None"
| "rfind c (x # xs) = (case rfind c xs of Some i \<Rightarrow> Some (Suc i) | None \<Rightarrow> if x = c then Some 0 else None)"

fun known_address :: "family \<times> u8 list \<Rightarrow> socket_address option" where
  "known_address (AF_INET, a) = Some (Inet4SocketAddress a)"
| "known_address (AF_INET6, a) = Some (Inet6SocketAddress a)"
| "known_address (AF_OTHER _, a) = None"

definition parseAndResolve :: "'w net_ops \<Rightarrow> string \<Rightarrow> socket_address list res" where
  "parseAndResolve ops addr = (case rfind CHR '':'' addr of
      None \<Rightarrow> Inl (Thrown ''SocketException'')
    | Some pos \<Rightarrow> (case sys_getaddrinfo ops (take pos addr) (drop (pos + 1) addr) of
          Inl error \<Rightarrow> Inl (Thrown ''SocketException'')
        | Inr results \<Rightarrow> Inr (List.map_filter known_address results)))"

section \<open>Sockets\<close>

text \<open>
  The put area of the stream buffer is the list of the characters between \<open>pbase\<close> and \<open>pptr\<close>, the
  get area the list of those between \<open>gptr\<close> and \<open>egptr\<close>.
\<close>

record tcp_socket =
  m_socket :: int
  m_isConnected :: bool
  m_remoteAddress :: "socket_address option"
  m_bufferSize :: nat
  put_area :: "u8 list"
  get_area :: "u8 list"

definition QemuTcpSocket_new :: tcp_socket where
  "QemuTcpSocket_new = \<lparr>m_socket = 0, m_isConnected = False, m_remoteAddress = None, m_bufferSize = 2048,
     put_area = [], get_area = []\<rparr>"

fun connect_first :: "'w net_ops \<Rightarrow> socket_address list \<Rightarrow> tcp_socket \<Rightarrow> 'w \<Rightarrow> tcp_socket res \<times> 'w" where
  "connect_first ops [] s w = (Inl (Thrown ''SocketConnectException''), w)"
| "connect_first ops (a # as) s w =
     (case sys_socket ops (getAddressFamily a) w of (fd, w1) \<Rightarrow>
        if fd = -1 then connect_first ops as s w1
        else (case sys_connect ops fd a w1 of (r, w2) \<Rightarrow>
          if r \<noteq> -1 then (Inr (s\<lparr>m_socket := fd, m_remoteAddress := Some a, m_isConnected := True\<rparr>), w2)
          else connect_first ops as s (sys_close ops fd w2)))"

definition QemuTcpSocket_connect :: "'w net_ops \<Rightarrow> string \<Rightarrow> 'w \<Rightarrow> tcp_socket res \<times> 'w" where
  "QemuTcpSocket_connect ops remote w = (case parseAndResolve ops remote of
      Inl e \<Rightarrow> (Inl e, w)
    | Inr resolved \<Rightarrow> connect_first ops resolved QemuTcpSocket_new w)"

subsection \<open>Waiting and reading\<close>

definition EINTR :: int where "EINTR = 4"

text \<open>The timeout is in milliseconds; the value that \<open>-1\<close> converts to waits for ever.\<close>

definition select_timeout :: "u64 \<Rightarrow> (u64 \<times> u64) option" where
  "select_timeout timeout =
     (if timeout = -1 then None else Some (timeout div 1000, (timeout mod 1000) * 1000))"

function available_loop ::
  "'w net_ops \<Rightarrow> nat \<Rightarrow> u64 \<Rightarrow> tcp_socket \<Rightarrow> 'w \<Rightarrow> nat res \<times> 'w" where
  "available_loop ops error_counter timeout s w =
     (if \<not> m_isConnected s then (Inl (Thrown ''SocketNotConnectedException''), w)
      else (case sys_select ops (m_socket s) (select_timeout timeout) w of (retval, w') \<Rightarrow>
        if retval = -1 \<and> sys_errno ops w' = EINTR then
          (if error_counter + 1 < 2 then available_loop ops (error_counter + 1) timeout s w'
           else (Inl (Thrown ''SocketException''), w'))
        else if retval = -1 then (Inl (Thrown ''SocketException''), w')
        else (Inr (nat retval), w')))"
  by pat_completeness auto
termination by (relation "measure (\<lambda>(ops, ec, t, s, w). 2 - ec)") auto

declare available_loop.simps [simp del]

definition getAvailableBytes :: "'w net_ops \<Rightarrow> u64 \<Rightarrow> tcp_socket \<Rightarrow> 'w \<Rightarrow> nat res \<times> 'w" where
  "getAvailableBytes ops timeout s w = available_loop ops 0 timeout s w"

text \<open>Reading: the result is the bytes read, whose number is the new value of \<open>length\<close>.\<close>

function read_attempts ::
  "'w net_ops \<Rightarrow> nat \<Rightarrow> nat \<Rightarrow> u64 \<Rightarrow> tcp_socket \<Rightarrow> 'w \<Rightarrow> u8 list res \<times> tcp_socket \<times> 'w" where
  "read_attempts ops error_counter len timeout s w =
     (if \<not> m_isConnected s then (Inl (Thrown ''SocketNotConnectedException''), s, w)
      else (case getAvailableBytes ops timeout s w of
          (Inl e, w1) \<Rightarrow> (Inl e, s, w1)
        | (Inr available_bytes, w1) \<Rightarrow>
            if available_bytes < 1 then (Inr [], s, w1)
            else (case sys_read ops (m_socket s) len w1 of (read_length, bs, w2) \<Rightarrow>
              if read_length = -1 \<and> sys_errno ops w2 = EINTR then
                (if error_counter + 1 < 2 then read_attempts ops (error_counter + 1) len timeout s w2
                 else (Inl (Thrown ''SocketException''), s, w2))
              else if read_length = -1 then (Inl (Thrown ''SocketException''), s, w2)
              else if read_length = 0 \<and> available_bytes > 0 then
                (Inl (Thrown ''SocketConnectionClosedException''), s\<lparr>m_isConnected := False\<rparr>, w2)
              else (Inr bs, s, w2))))"
  by pat_completeness auto
termination by (relation "measure (\<lambda>(ops, ec, l, t, s, w). 2 - ec)") auto

declare read_attempts.simps [simp del]

definition socket_read ::
  "'w net_ops \<Rightarrow> nat \<Rightarrow> u64 \<Rightarrow> tcp_socket \<Rightarrow> 'w \<Rightarrow> u8 list res \<times> tcp_socket \<times> 'w" where
  "socket_read ops len timeout s w = read_attempts ops 0 len timeout s w"

subsection \<open>Writing\<close>

text \<open>The loop goes on while the peer takes nothing; \<open>None\<close> is the loop that never ends.\<close>

partial_function (option) write_attempts ::
  "'w net_ops \<Rightarrow> int \<Rightarrow> u8 list \<Rightarrow> int \<Rightarrow> int \<Rightarrow> u64 \<Rightarrow> 'w \<Rightarrow> (u64 res \<times> 'w) option" where
  "write_attempts ops fd buffer origLen writtenLen len w =
     (case sys_write ops fd (take (unat len) (drop (nat writtenLen) buffer)) w of (wBytes, w') \<Rightarrow>
        if wBytes < 0 then Some (Inl (Thrown ''SocketException''), w')
        else if writtenLen + wBytes \<noteq> origLen then
          write_attempts ops fd buffer origLen (writtenLen + wBytes) (len - of_int wBytes) w'
        else Some (Inr (of_int (writtenLen + wBytes)), w'))"

definition socket_write ::
  "'w net_ops \<Rightarrow> u8 list \<Rightarrow> u64 \<Rightarrow> tcp_socket \<Rightarrow> 'w \<Rightarrow> (u64 res \<times> 'w) option" where
  "socket_write ops buffer len s w =
     (if \<not> m_isConnected s then Some (Inl (Thrown ''SocketNotConnectedException''), w)
      else write_attempts ops (m_socket s) buffer (sint (ucast len :: u32)) 0 len w)"

section \<open>The server socket\<close>

record server_socket =
  srv_socket :: int
  srv_bindAddress :: "socket_address option"

fun bind_first :: "'w net_ops \<Rightarrow> int \<Rightarrow> socket_address list \<Rightarrow> 'w \<Rightarrow> server_socket res \<times> 'w" where
  "bind_first ops backlog [] w = (Inl (Thrown ''SocketConnectException''), w)"
| "bind_first ops backlog (a # as) w =
     (case sys_socket ops (getAddressFamily a) w of (fd, w1) \<Rightarrow>
        if fd = -1 then bind_first ops backlog as w1
        else (case sys_bind ops fd a w1 of (r, w2) \<Rightarrow>
          if r \<noteq> -1 then
            (case sys_listen ops fd backlog w2 of (l, w3) \<Rightarrow>
               if l = -1 then (Inl (Thrown ''SocketException''), w3)
               else (Inr \<lparr>srv_socket = fd, srv_bindAddress = Some a\<rparr>, w3))
          else bind_first ops backlog as (sys_close ops fd w2)))"

definition QemuTcpServerSocket_new :: "'w net_ops \<Rightarrow> string \<Rightarrow> int \<Rightarrow> 'w \<Rightarrow> server_socket res \<times> 'w" where
  "QemuTcpServerSocket_new ops bind_address backlog w = (case parseAndResolve ops bind_address of
      Inl e \<Rightarrow> (Inl e, w)
    | Inr resolved \<Rightarrow> bind_first ops backlog resolved w)"

definition server_wait :: "'w net_ops \<Rightarrow> u64 \<Rightarrow> server_socket \<Rightarrow> 'w \<Rightarrow> unit res \<times> 'w" where
  "server_wait ops timeout srv w =
     (if timeout = -1 then (Inr (), w)
      else (case sys_select ops (srv_socket srv) (select_timeout timeout) w of (result, w1) \<Rightarrow>
        if result = -1 then (Inl (Thrown ''SocketException''), w1)
        else if result = 0 then (Inl (Thrown ''SocketTimeoutException''), w1)
        else (Inr (), w1)))"

definition server_accept ::
  "'w net_ops \<Rightarrow> u64 \<Rightarrow> server_socket \<Rightarrow> tcp_socket \<Rightarrow> 'w \<Rightarrow> unit res \<times> tcp_socket \<times> 'w" where
  "server_accept ops timeout srv s w = (case server_wait ops timeout srv w of
      (Inl e, w1) \<Rightarrow> (Inl e, s, w1)
    | (Inr _, w1) \<Rightarrow> (case sys_accept ops (srv_socket srv) w1 of (fd, fam, addr, w2) \<Rightarrow>
        if fd = -1 then (Inl (Thrown ''SocketException''), s, w2)
        else let s1 = s\<lparr>m_socket := fd\<rparr> in
          (case known_address (fam, addr) of
             None \<Rightarrow> (Inl (Thrown ''SocketException''), s1, w2)
           | Some a \<Rightarrow> (Inr (), s1\<lparr>m_remoteAddress := Some a, m_isConnected := True\<rparr>, w2))))"

section \<open>The stream buffer\<close>

text \<open>\<open>overflow\<close>; \<open>None\<close> for the character is \<open>EOF\<close>.\<close>

definition not_eof :: "int \<Rightarrow> int" where
  "not_eof c = (if c = -1 then 0 else c)"

definition stream_overflow ::
  "'w net_ops \<Rightarrow> u8 option \<Rightarrow> tcp_socket \<Rightarrow> 'w \<Rightarrow> (int res \<times> tcp_socket \<times> 'w) option" where
  "stream_overflow ops c s w =
     (let data = put_area s @ (case c of None \<Rightarrow> [] | Some x \<Rightarrow> [x]);
          todoLength = of_nat (length data)
      in case socket_write ops data todoLength s w of
           None \<Rightarrow> None
         | Some (Inl e, w') \<Rightarrow> Some (Inl e, s, w')
         | Some (Inr len, w') \<Rightarrow>
             if todoLength \<noteq> len then Some (Inl Assertion_Failed, s, w')
             else Some (Inr (not_eof (case c of None \<Rightarrow> -1 | Some x \<Rightarrow> uint x)), s\<lparr>put_area := []\<rparr>, w'))"

definition stream_sync :: "'w net_ops \<Rightarrow> tcp_socket \<Rightarrow> 'w \<Rightarrow> (int res \<times> tcp_socket \<times> 'w) option" where
  "stream_sync ops s w = stream_overflow ops None s w"

text \<open>\<open>std::streambuf::sputc\<close>, with the put area that \<open>setp\<close> in the constructor establishes.\<close>

definition stream_sputc ::
  "'w net_ops \<Rightarrow> u8 \<Rightarrow> tcp_socket \<Rightarrow> 'w \<Rightarrow> (int res \<times> tcp_socket \<times> 'w) option" where
  "stream_sputc ops c s w =
     (if length (put_area s) < m_bufferSize s - 1
      then Some (Inr (uint c), s\<lparr>put_area := put_area s @ [c]\<rparr>, w)
      else stream_overflow ops (Some c) s w)"

fun stream_sputn ::
  "'w net_ops \<Rightarrow> u8 list \<Rightarrow> tcp_socket \<Rightarrow> 'w \<Rightarrow> (unit res \<times> tcp_socket \<times> 'w) option" where
  "stream_sputn ops [] s w = Some (Inr (), s, w)"
| "stream_sputn ops (c # cs) s w = (case stream_sputc ops c s w of
      None \<Rightarrow> None
    | Some (Inl e, s', w') \<Rightarrow> Some (Inl e, s', w')
    | Some (Inr _, s', w') \<Rightarrow> stream_sputn ops cs s' w')"

text \<open>\<open>underflow\<close>: the result is the first character read, as a signed \<open>char\<close> promoted to \<open>int\<close>.\<close>

definition stream_underflow ::
  "'w net_ops \<Rightarrow> tcp_socket \<Rightarrow> 'w \<Rightarrow> int res \<times> tcp_socket \<times> 'w" where
  "stream_underflow ops s w =
     (if get_area s \<noteq> [] then (Inr 0, s, w)
      else (case socket_read ops (m_bufferSize s) (-1) s w of
          (Inl e, s', w') \<Rightarrow>
            if e = Thrown ''SocketConnectionClosedException'' then (Inr (-1), s', w') else (Inl e, s', w')
        | (Inr bs, s', w') \<Rightarrow>
            (Inr (not_eof (case bs of [] \<Rightarrow> 0 | b # _ \<Rightarrow> sint b)), s'\<lparr>get_area := bs\<rparr>, w')))"

text \<open>\<open>std::streambuf::sbumpc\<close> and \<open>sgetc\<close>: \<open>None\<close> is \<open>EOF\<close>. The default \<open>uflow\<close> takes the character
  from the get area after \<open>underflow\<close>.\<close>

definition stream_sbumpc ::
  "'w net_ops \<Rightarrow> tcp_socket \<Rightarrow> 'w \<Rightarrow> u8 option res \<times> tcp_socket \<times> 'w" where
  "stream_sbumpc ops s w = (case get_area s of
      c # cs \<Rightarrow> (Inr (Some c), s\<lparr>get_area := cs\<rparr>, w)
    | [] \<Rightarrow> (case stream_underflow ops s w of
          (Inl e, s', w') \<Rightarrow> (Inl e, s', w')
        | (Inr r, s', w') \<Rightarrow>
            if r = -1 then (Inr None, s', w')
            else (case get_area s' of
                c # cs \<Rightarrow> (Inr (Some c), s'\<lparr>get_area := cs\<rparr>, w')
              | [] \<Rightarrow> (Inl Undefined_Behaviour, s', w'))))"

definition stream_sgetc :: "'w net_ops \<Rightarrow> tcp_socket \<Rightarrow> 'w \<Rightarrow> int res \<times> tcp_socket \<times> 'w" where
  "stream_sgetc ops s w = (case get_area s of
      c # cs \<Rightarrow> (Inr (uint c), s, w)
    | [] \<Rightarrow> stream_underflow ops s w)"

definition stream_showmanyc :: "'w net_ops \<Rightarrow> tcp_socket \<Rightarrow> 'w \<Rightarrow> nat res \<times> 'w" where
  "stream_showmanyc ops s w = getAvailableBytes ops 0 s w"

section \<open>Output order\<close>

text \<open>The documented behaviour of \<open>write\<close> on a socket that works: it takes a part of the bytes, at least
  one when there are any, and they reach the peer in order; \<open>sent\<close> is what the peer was sent.\<close>

definition write_law :: "'w net_ops \<Rightarrow> ('w \<Rightarrow> u8 list) \<Rightarrow> bool" where
  "write_law ops sent \<longleftrightarrow> (\<forall>fd bs w n w'. sys_write ops fd bs w = (n, w') \<longrightarrow>
     0 \<le> n \<and> n \<le> int (length bs) \<and> (bs \<noteq> [] \<longrightarrow> 0 < n) \<and> sent w' = sent w @ take (nat n) bs)"

lemma write_attempts_all:
  assumes law: "write_law ops sent" and small: "length buf < 2 ^ 31"
  shows "k \<le> length buf \<Longrightarrow>
    \<exists>w'. write_attempts ops fd buf (int (length buf)) (int k) (of_nat (length buf - k)) w =
      Some (Inr (of_nat (length buf)), w') \<and> sent w' = sent w @ drop k buf"
proof (induction "length buf - k" arbitrary: k w rule: less_induct)
  case less
  obtain n w1 where n: "sys_write ops fd (drop k buf) w = (n, w1)" by fastforce
  from law n have l: "0 \<le> n" "n \<le> int (length buf - k)" "drop k buf \<noteq> [] \<Longrightarrow> 0 < n"
    "sent w1 = sent w @ take (nat n) (drop k buf)" unfolding write_law_def by (metis length_drop)+
  have u: "unat (of_nat (length buf - k) :: u64) = length buf - k"
    using small by (simp only: unat_of_nat) simp
  have tk: "take (unat (of_nat (length buf - k) :: u64)) (drop (nat (int k)) buf) = drop k buf"
    unfolding u by simp
  let ?k = "k + nat n"
  have k: "?k \<le> length buf" using l less.prems by linarith
  have step: "write_attempts ops fd buf (int (length buf)) (int k) (of_nat (length buf - k)) w =
      (if int k + n \<noteq> int (length buf) then
         write_attempts ops fd buf (int (length buf)) (int ?k) (of_nat (length buf - ?k)) w1
       else Some (Inr (of_nat (length buf)), w1))"
  proof -
    have "of_nat (length buf - k) - of_int n = (of_nat (length buf - ?k) :: u64)"
    proof -
      have "length buf - k = (length buf - ?k) + nat n" using k by simp
      then have "(of_nat (length buf - k) :: u64) = of_nat (length buf - ?k) + of_nat (nat n)"
        by (metis of_nat_add)
      then show ?thesis using l(1) by simp
    qed
    moreover have "int k + n = int ?k" using l(1) by simp
    moreover have "int ?k = int (length buf) \<Longrightarrow> (of_int (int ?k) :: u64) = of_nat (length buf)" by (metis of_int_of_nat_eq)
    ultimately show ?thesis using l(1)
      by (subst write_attempts.simps) (simp only: tk n prod.case, auto)
  qed
  show ?case
  proof (cases "?k = length buf")
    case True
    then have "take (nat n) (drop k buf) = drop k buf" by simp
    moreover have "int k + n = int (length buf)" using True l(1) by linarith
    ultimately show ?thesis using step l(4) by simp
  next
    case False
    then have "drop k buf \<noteq> []" using k by auto
    then have "length buf - ?k < length buf - k" using l(1,3) k False by simp
    from less.hyps [OF this k, of w1] obtain w' where
      w': "write_attempts ops fd buf (int (length buf)) (int ?k) (of_nat (length buf - ?k)) w1 =
        Some (Inr (of_nat (length buf)), w')" "sent w' = sent w1 @ drop ?k buf" by auto
    have "take (nat n) (drop k buf) @ drop ?k buf = drop k buf"
      by (metis append_take_drop_id drop_drop add.commute)
    moreover have "int k + n \<noteq> int (length buf)" using False l(1) by linarith
    ultimately show ?thesis using step w' l(4) by simp
  qed
qed

lemma socket_write_all:
  assumes law: "write_law ops sent" and small: "length buf < 2 ^ 31" and conn: "m_isConnected s"
  shows "\<exists>w'. socket_write ops buf (of_nat (length buf)) s w = Some (Inr (of_nat (length buf)), w') \<and>
    sent w' = sent w @ buf"
proof -
  have "sint (ucast (of_nat (length buf) :: u64) :: u32) = int (length buf)"
  proof -
    have "(ucast (of_nat (length buf) :: u64) :: u32) = of_nat (length buf)"
      using small by (simp add: unsigned_of_nat take_bit_nat_eq_self)
    then show ?thesis using small by (simp add: signed_of_nat signed_take_bit_int_eq_self)
  qed
  with write_attempts_all [OF law small, of 0 "m_socket s" w] show ?thesis
    using conn by (simp add: socket_write_def)
qed

definition stream_ready :: "tcp_socket \<Rightarrow> bool" where
  "stream_ready s \<longleftrightarrow> m_isConnected s \<and> length (put_area s) < m_bufferSize s \<and> m_bufferSize s < 2 ^ 31"

lemma stream_overflow_all:
  assumes law: "write_law ops sent" and s: "stream_ready s"
  shows "\<exists>r w'. stream_overflow ops c s w = Some (Inr r, s\<lparr>put_area := []\<rparr>, w') \<and>
    sent w' = sent w @ put_area s @ (case c of None \<Rightarrow> [] | Some x \<Rightarrow> [x])"
proof -
  let ?d = "put_area s @ (case c of None \<Rightarrow> [] | Some x \<Rightarrow> [x])"
  have "length ?d < 2 ^ 31" "m_isConnected s" using s by (auto simp: stream_ready_def split: option.split)
  from socket_write_all [OF law this, of w] obtain w' where
    "socket_write ops ?d (of_nat (length ?d)) s w = Some (Inr (of_nat (length ?d)), w')" "sent w' = sent w @ ?d" by blast
  then show ?thesis by (simp only: stream_overflow_def Let_def) simp
qed

lemma stream_sputc_all:
  assumes law: "write_law ops sent" and s: "stream_ready s"
  shows "\<exists>r s' w'. stream_sputc ops c s w = Some (Inr r, s', w') \<and> stream_ready s' \<and>
    sent w' @ put_area s' = sent w @ put_area s @ [c]"
proof (cases "length (put_area s) < m_bufferSize s - 1")
  case True
  then show ?thesis using s by (auto simp: stream_sputc_def stream_ready_def)
next
  case False
  from stream_overflow_all [OF law s, of "Some c" w] False s show ?thesis
    by (auto simp: stream_sputc_def stream_ready_def)
qed

lemma stream_sputn_all:
  assumes law: "write_law ops sent"
  shows "stream_ready s \<Longrightarrow> \<exists>s' w'. stream_sputn ops cs s w = Some (Inr (), s', w') \<and> stream_ready s' \<and>
    sent w' @ put_area s' = sent w @ put_area s @ cs"
proof (induction cs arbitrary: s w)
  case (Cons c cs)
  from stream_sputc_all [OF law Cons.prems, of c w] obtain r s1 w1 where
    1: "stream_sputc ops c s w = Some (Inr r, s1, w1)" "stream_ready s1"
      "sent w1 @ put_area s1 = sent w @ put_area s @ [c]" by blast
  from Cons.IH [OF 1(2), of w1] 1 show ?case by fastforce
qed simp

text \<open>C14: Whatever part of a buffer each \<open>write\<close> takes, characters put into the stream reach the peer
  completely and in order once the stream is synchronised, and both operations return.\<close>

theorem stream_output_in_order:
  assumes law: "write_law ops sent" and s: "stream_ready s"
  shows "\<exists>s1 w1 r s2 w2. stream_sputn ops cs s w = Some (Inr (), s1, w1) \<and>
    stream_sync ops s1 w1 = Some (Inr r, s2, w2) \<and> put_area s2 = [] \<and>
    sent w2 = sent w @ put_area s @ cs"
proof -
  from stream_sputn_all [OF law s, of cs w] obtain s1 w1 where
    1: "stream_sputn ops cs s w = Some (Inr (), s1, w1)" "stream_ready s1"
      "sent w1 @ put_area s1 = sent w @ put_area s @ cs" by blast
  from stream_overflow_all [OF law 1(2), of None w1] 1 show ?thesis
    by (auto simp: stream_sync_def)
qed

text \<open>A world in which a peer takes at most two bytes at a time and sends them back.\<close>

definition echo_ops :: "(u8 list \<times> u8 list) net_ops" where
  "echo_ops = \<lparr>sys_getaddrinfo = (\<lambda>h p. Inr [(AF_INET, [])]), sys_socket = (\<lambda>f w. (3, w)),
     sys_connect = (\<lambda>fd a w. (0, w)), sys_bind = (\<lambda>fd a w. (0, w)), sys_listen = (\<lambda>fd n w. (0, w)),
     sys_accept = (\<lambda>fd w. (4, AF_INET, [], w)), sys_close = (\<lambda>fd w. w),
     sys_select = (\<lambda>fd t w. (1, w)),
     sys_read = (\<lambda>fd n (i, out). let k = min n (length i) in (int k, take k i, drop k i, out)),
     sys_write = (\<lambda>fd bs (i, out). let k = min 2 (length bs) in (int k, i @ take k bs, out @ take k bs)),
     sys_errno = (\<lambda>w. 0)\<rparr>"

lemma echo_write_law: "write_law echo_ops snd"
  by (auto simp: write_law_def echo_ops_def Let_def)

definition echo_socket :: tcp_socket where
  "echo_socket = QemuTcpSocket_new\<lparr>m_socket := 3, m_isConnected := True\<rparr>"

theorem stream_output_in_order_witness:
  "\<exists>s1 w1 r s2 w2. stream_sputn echo_ops [1, 2, 3, 4, 5] echo_socket ([], []) = Some (Inr (), s1, w1) \<and>
    stream_sync echo_ops s1 w1 = Some (Inr r, s2, w2) \<and> put_area s2 = [] \<and> snd w2 = [1, 2, 3, 4, 5]"
proof -
  have "stream_ready echo_socket" by (simp add: stream_ready_def echo_socket_def QemuTcpSocket_new_def)
  from stream_output_in_order [OF echo_write_law this, of "[1, 2, 3, 4, 5]" "([], [])"] show ?thesis
    by (simp add: echo_socket_def QemuTcpSocket_new_def)
qed

section \<open>Input order\<close>

text \<open>The documented behaviour of \<open>select\<close> and \<open>read\<close>: \<open>select\<close> takes no data and, without a timeout,
  returns when there is data or an error; \<open>read\<close> returns a prefix of what the peer sent, which is empty
  only at its end; after an error nothing is lost.\<close>

definition read_law :: "'w net_ops \<Rightarrow> ('w \<Rightarrow> u8 list) \<Rightarrow> bool" where
  "read_law ops incoming \<longleftrightarrow>
     (\<forall>fd t w n w'. sys_select ops fd t w = (n, w') \<longrightarrow> incoming w' = incoming w \<and> - 1 \<le> n \<and> (t = None \<longrightarrow> n \<noteq> 0)) \<and>
     (\<forall>fd len w n bs w'. sys_read ops fd len w = (n, bs, w') \<longrightarrow>
        (n = -1 \<and> incoming w' = incoming w) \<or>
        (0 \<le> n \<and> nat n \<le> len \<and> int (length bs) = n \<and> bs @ incoming w' = incoming w \<and>
         (n = 0 \<and> 0 < len \<longrightarrow> incoming w = [])))"

lemma available_keeps:
  "read_law ops incoming \<Longrightarrow> available_loop ops ec t s w = (r, w') \<Longrightarrow>
    incoming w' = incoming w \<and> (t = - 1 \<longrightarrow> r \<noteq> Inr 0) \<and> r \<noteq> Inl Undefined_Behaviour \<and>
    r \<noteq> Inl (Thrown ''SocketConnectionClosedException'')"
proof (induction ops ec t s w rule: available_loop.induct)
  case (1 ops ec t s w)
  obtain n w1 where n: "sys_select ops (m_socket s) (select_timeout t) w = (n, w1)" by fastforce
  have "incoming w1 = incoming w \<and> - 1 \<le> n \<and> (select_timeout t = None \<longrightarrow> n \<noteq> 0)"
    using 1(2) n unfolding read_law_def by blast
  then have l: "incoming w1 = incoming w" "- 1 \<le> n" "t = - 1 \<Longrightarrow> n \<noteq> 0" by (simp_all add: select_timeout_def)
  show ?case
  proof (cases "m_isConnected s \<and> n = -1 \<and> sys_errno ops w1 = EINTR \<and> ec + 1 < 2")
    case True
    then have "available_loop ops (ec + 1) t s w1 = (r, w')"
      using 1(3) n by (subst (asm) available_loop.simps) simp
    from 1(1) [OF _ n [symmetric] _ _ 1(2) this] True l show ?thesis by auto
  next
    case False
    have "(r, w') = (if \<not> m_isConnected s then (Inl (Thrown ''SocketNotConnectedException''), w)
        else if n = -1 then (Inl (Thrown ''SocketException''), w1) else (Inr (nat n), w1))"
      using False 1(3) by (subst (asm) available_loop.simps) (simp add: n split: if_splits)
    then show ?thesis using l by (cases "m_isConnected s"; cases "n = -1") auto
  qed
qed

lemma read_attempts_keeps:
  "read_law ops incoming \<Longrightarrow> 0 < len \<Longrightarrow> read_attempts ops ec len (- 1) s w = (r, s', w') \<Longrightarrow>
    get_area s' = get_area s \<and>
    (case r of
       Inr bs \<Rightarrow> bs \<noteq> [] \<and> bs @ incoming w' = incoming w
     | Inl e \<Rightarrow> incoming w' = incoming w \<and> e \<noteq> Undefined_Behaviour \<and>
         (e = Thrown ''SocketConnectionClosedException'' \<longrightarrow> incoming w = []))"
proof (induction ops ec len "- 1 :: u64" s w rule: read_attempts.induct)
  case (1 ops ec len s w)
  obtain av w1 where av: "getAvailableBytes ops (- 1) s w = (av, w1)" by fastforce
  then have k: "incoming w1 = incoming w" "av \<noteq> Inr 0" "av \<noteq> Inl Undefined_Behaviour"
      "av \<noteq> Inl (Thrown ''SocketConnectionClosedException'')"
    using available_keeps [OF 1(2)] unfolding getAvailableBytes_def by blast+
  obtain n bs w2 where n: "sys_read ops (m_socket s) len w1 = (n, bs, w2)" by (metis surj_pair)
  with 1(2,3) have l: "(n = -1 \<and> incoming w2 = incoming w1) \<or>
        (0 \<le> n \<and> nat n \<le> len \<and> int (length bs) = n \<and> bs @ incoming w2 = incoming w1 \<and>
         (n = 0 \<longrightarrow> incoming w1 = []))"
    unfolding read_law_def by blast
  show ?case
  proof (cases "m_isConnected s \<and> is_ok av \<and> n = -1 \<and> sys_errno ops w2 = EINTR \<and> ec + 1 < 2")
    case True
    then obtain b where b: "av = Inr b" "\<not> b < 1" using k(2) by (cases av) auto
    have "read_attempts ops ec len (- 1) s w = read_attempts ops (ec + 1) len (- 1) s w2"
      using True b by (subst read_attempts.simps) (simp add: av n)
    with 1(4) have rest: "read_attempts ops (ec + 1) len (- 1) s w2 = (r, s', w')" by (simp only:)
    from True l k have w2: "incoming w2 = incoming w" by auto
    from 1(1) [OF _ av [symmetric] b n [symmetric] refl _ _ 1(2,3) rest] True show ?thesis
      unfolding w2 by blast
  next
    case False
    show ?thesis
    proof (cases av)
      case (Inl e)
      with 1(4) av k show ?thesis by (subst (asm) read_attempts.simps) (auto split: if_splits)
    next
      case (Inr b)
      with 1(4) av k n False l show ?thesis
        by (subst (asm) read_attempts.simps) (auto split: if_splits)
    qed
  qed
qed

text \<open>C15: Reading the stream character by character gives what the peer sent, in order and without
  loss, whatever pieces \<open>read\<close> returns and however often it is interrupted: a character returned is
  the next one, the end is reported only when everything was read, and an exception loses
  nothing. The area that holds the unread characters is never empty when one is taken from it.\<close>

theorem stream_input_in_order:
  assumes law: "read_law ops incoming" and size: "0 < m_bufferSize s"
    and run: "stream_sbumpc ops s w = (r, s', w')"
  shows "case r of
      Inr (Some c) \<Rightarrow> get_area s @ incoming w = c # get_area s' @ incoming w'
    | Inr None \<Rightarrow> get_area s = [] \<and> incoming w = []
    | Inl e \<Rightarrow> e \<noteq> Undefined_Behaviour \<and> get_area s' @ incoming w' = get_area s @ incoming w"
proof (cases "get_area s")
  case (Cons c cs)
  with run show ?thesis by (auto simp: stream_sbumpc_def)
next
  case Nil
  obtain q s1 w1 where q: "socket_read ops (m_bufferSize s) (- 1) s w = (q, s1, w1)" by (metis surj_pair)
  from read_attempts_keeps [OF law size q [unfolded socket_read_def]]
  have k: "get_area s1 = []" "case q of
       Inr bs \<Rightarrow> bs \<noteq> [] \<and> bs @ incoming w1 = incoming w
     | Inl e \<Rightarrow> incoming w1 = incoming w \<and> e \<noteq> Undefined_Behaviour \<and>
         (e = Thrown ''SocketConnectionClosedException'' \<longrightarrow> incoming w = [])" using Nil by simp_all
  show ?thesis
  proof (cases q)
    case (Inl e)
    with run Nil q k show ?thesis
      by (auto simp: stream_sbumpc_def stream_underflow_def split: if_splits)
  next
    case (Inr bs)
    with k(2) obtain b bs' where "bs = b # bs'" "b # bs' @ incoming w1 = incoming w" by (cases bs) auto
    moreover have "not_eof x \<noteq> - 1" for x by (simp add: not_eof_def)
    ultimately show ?thesis using run Nil q Inr
      by (auto simp: stream_sbumpc_def stream_underflow_def)
  qed
qed

lemma echo_read_law: "read_law echo_ops fst"
  by (auto simp: read_law_def echo_ops_def Let_def min_def split: if_splits)

theorem stream_input_in_order_witness:
  "\<exists>r s' w'. stream_sbumpc echo_ops echo_socket ([7, 8, 9], []) = (r, s', w') \<and> (case r of
      Inr (Some c) \<Rightarrow> [7, 8, 9] = c # get_area s' @ fst w'
    | Inr None \<Rightarrow> False
    | Inl e \<Rightarrow> e \<noteq> Undefined_Behaviour \<and> get_area s' @ fst w' = [7, 8, 9])"
proof -
  obtain r s' w' where run: "stream_sbumpc echo_ops echo_socket ([7, 8, 9], []) = (r, s', w')" by (metis surj_pair)
  have "0 < m_bufferSize echo_socket" "get_area echo_socket = []"
    by (simp_all add: echo_socket_def QemuTcpSocket_new_def)
  with stream_input_in_order [OF echo_read_law _ run] run show ?thesis
    by (auto split: sum.splits option.splits)
qed

section \<open>Error paths\<close>

text \<open>An accepted connection of an unknown family leaves its descriptor in the socket, which still
  counts as not connected.\<close>

lemma accept_unknown_family:
  "sys_accept ops (srv_socket srv) w = (fd, AF_OTHER k, a, w') \<Longrightarrow> fd \<noteq> -1 \<Longrightarrow>
   server_accept ops (-1) srv s w = (Inl (Thrown ''SocketException''), s\<lparr>m_socket := fd\<rparr>, w')"
  by (simp add: server_accept_def server_wait_def Let_def)

text \<open>After the peer closed, every further read throws that the socket is not connected.\<close>

lemma read_after_close:
  assumes "read_attempts ops ec len t s w = (Inl (Thrown ''SocketConnectionClosedException''), s', w')"
    and "\<not> m_isConnected s'"
  shows "socket_read ops n t' s' w' = (Inl (Thrown ''SocketNotConnectedException''), s', w')"
  using assms by (simp add: socket_read_def read_attempts.simps)

text \<open>The first character of a refill is returned by a peek as a signed number, later ones as unsigned
  ones: \<open>sgetc\<close> of the byte \<open>0xFE\<close> is negative once and 254 afterwards.\<close>

lemma peek_signed:
  "stream_sgetc echo_ops echo_socket ([0xFE, 1], []) =
     (Inr (- 2), echo_socket\<lparr>get_area := [0xFE, 1]\<rparr>, ([], []))"
  "stream_sgetc echo_ops (echo_socket\<lparr>get_area := [0xFE, 1]\<rparr>) ([], []) =
     (Inr 254, echo_socket\<lparr>get_area := [0xFE, 1]\<rparr>, ([], []))"
  by (simp_all add: stream_sgetc_def stream_underflow_def socket_read_def read_attempts.simps
      getAvailableBytes_def available_loop.simps echo_ops_def echo_socket_def QemuTcpSocket_new_def not_eof_def Let_def)

end
