(* ===== verification/Exec_Memory.thy ===== *)
theory Exec_Memory
  imports Memory_Cache
begin

text \<open>
  The memory of an execution state (\<open>S2EExecutionState.cpp\<close>): translation of guest addresses,
  reads and writes of symbolic and concrete values, and the routines that the concrete execution
  uses on host addresses. KLEE's expressions and address space and QEMU's translation of addresses
  are parameters; the cache of memory objects is the pool of \<open>Memory_Cache\<close>.
\<close>

section \<open>Parameters\<close>

record mem_object =
  mo_address :: u64
  mo_size :: nat
  isUserSpecified :: bool
  isSharedConcrete :: bool

text \<open>
  KLEE: \<open>'e\<close> are expressions, \<open>'o\<close> object states, \<open>'k\<close> the part of a state that KLEE keeps, which is
  the address space and the constraints. \<open>e_value\<close> is the value of a constant.
\<close>

record ('e, 'o, 'k) klee_ops =
  e_width :: "'e \<Rightarrow> nat"
  e_value :: "'e \<Rightarrow> u64 option"
  e_const :: "u64 \<Rightarrow> nat \<Rightarrow> 'e"
  e_concat :: "'e \<Rightarrow> 'e \<Rightarrow> 'e"
  e_extract :: "'e \<Rightarrow> nat \<Rightarrow> nat \<Rightarrow> 'e"
  e_zext :: "'e \<Rightarrow> nat \<Rightarrow> 'e"
  os_read :: "'e list \<Rightarrow> nat \<Rightarrow> nat \<Rightarrow> 'e"
  os_write :: "'e list \<Rightarrow> nat \<Rightarrow> 'e \<Rightarrow> 'e list"
  as_find :: "u64 \<Rightarrow> 'k \<Rightarrow> (mem_object \<times> 'o) option"
  as_owned :: "'o \<Rightarrow> 'k \<Rightarrow> bool"
  as_copy :: "mem_object \<Rightarrow> 'o \<Rightarrow> 'k \<Rightarrow> 'o \<times> 'k"
  as_bytes :: "'o \<Rightarrow> 'k \<Rightarrow> 'e list"
  as_update :: "'o \<Rightarrow> 'e list \<Rightarrow> 'k \<Rightarrow> 'k"
  to_constant :: "'e \<Rightarrow> 'k \<Rightarrow> u64 \<times> 'k"
  to_example :: "'e \<Rightarrow> 'k \<Rightarrow> u64"

text \<open>QEMU: the physical page of a virtual page, and the host address of a physical page.\<close>

record qemu_ops =
  page_bits :: nat
  phys_page :: "u64 \<Rightarrow> u64"
  host_page :: "u64 \<Rightarrow> u64"
  littleEndian :: bool

datatype AddressType = VirtualAddress | PhysicalAddress | HostAddress

record ('o, 'k) ram_state =
  m_active :: bool
  m_runningConcrete :: bool
  m_memcache :: "(mem_object \<times> 'o) option pool"
  klee :: 'k

definition RAM_OBJECT_BITS :: nat where "RAM_OBJECT_BITS = 7"
definition RAM_OBJECT_SIZE :: nat where "RAM_OBJECT_SIZE = 2 ^ RAM_OBJECT_BITS"

text \<open>\<open>addr & S2E_RAM_OBJECT_MASK\<close> and \<open>addr & ~S2E_RAM_OBJECT_MASK\<close>.\<close>

definition obj_base :: "u64 \<Rightarrow> u64" where "obj_base a = a AND NOT (mask RAM_OBJECT_BITS)"
definition obj_offset :: "u64 \<Rightarrow> nat" where "obj_offset a = unat (a AND mask RAM_OBJECT_BITS)"

section \<open>Translation\<close>

definition getPhysicalAddress :: "qemu_ops \<Rightarrow> ('o, 'k) ram_state \<Rightarrow> u64 \<Rightarrow> u64 res" where
  "getPhysicalAddress q st va =
     rbind (assert_that (m_active st)) (\<lambda>_.
       let pa = phys_page q (va AND NOT (mask (page_bits q)))
       in Inr (if pa = - 1 then - 1 else pa OR (va AND mask (page_bits q))))"

definition getHostAddress :: "qemu_ops \<Rightarrow> ('o, 'k) ram_state \<Rightarrow> u64 \<Rightarrow> AddressType \<Rightarrow> u64 res" where
  "getHostAddress q st a t =
     (if t \<noteq> HostAddress then
        let page = a AND NOT (mask (page_bits q)) in
        rbind (if t = VirtualAddress then getPhysicalAddress q st page else Inr page) (\<lambda>pa.
          if t = VirtualAddress \<and> pa = - 1 then Inr (- 1)
          else let h = host_page q pa in
            if h = 0 then Inr (- 1) else Inr (h OR (a AND mask (page_bits q))))
      else Inr a)"

section \<open>Objects\<close>

text \<open>The check on the object found, with the cached lookup of the read paths.\<close>

definition ram_object :: "(mem_object \<times> 'o) option \<Rightarrow> (mem_object \<times> 'o) res" where
  "ram_object op = (case op of
      None \<Rightarrow> Inl Assertion_Failed
    | Some (mo, os) \<Rightarrow> rbind (assert_that (isUserSpecified mo \<and> mo_size mo = RAM_OBJECT_SIZE)) (\<lambda>_. Inr (mo, os)))"

definition cached_object ::
  "('e, 'o, 'k) klee_ops \<Rightarrow> u64 \<Rightarrow> ('o, 'k) ram_state \<Rightarrow> ((mem_object \<times> 'o) option \<times> ('o, 'k) ram_state) res" where
  "cached_object kl page st =
     rbind (pool_get None page (m_memcache st)) (\<lambda>op.
       if op \<noteq> None then Inr (op, st)
       else let found = as_find kl page (klee st) in
         rbind (pool_put None page found (m_memcache st)) (\<lambda>cache. Inr (found, st\<lparr>m_memcache := cache\<rparr>)))"

text \<open>
  \<open>addressSpaceChange\<close>: KLEE calls it when an object is bound to a new object state. The update of
  the software TLB for RAM objects ends in a failing assertion. \<open>fixed\<close> are the objects of the
  CPU state, which are kept elsewhere.
\<close>

definition addressSpaceChange ::
  "mem_object set \<Rightarrow> mem_object \<Rightarrow> 'o option \<Rightarrow> 'o \<Rightarrow> ('o, 'k) ram_state \<Rightarrow> ('o, 'k) ram_state res" where
  "addressSpaceChange fixed mo oldState newState st =
     rbind (assert_that (\<not> (mo_size mo = RAM_OBJECT_SIZE \<and> oldState \<noteq> None))) (\<lambda>_.
       if mo \<in> fixed then Inr st
       else rbind (pool_get None (mo_address mo) (m_memcache st)) (\<lambda>op.
         case op of
           None \<Rightarrow> Inr st
         | Some (mo', _) \<Rightarrow>
             rbind (pool_put None (mo_address mo) (Some (mo', newState)) (m_memcache st)) (\<lambda>cache.
               Inr (st\<lparr>m_memcache := cache\<rparr>))))"

text \<open>KLEE's \<open>getWriteable\<close> with the notification of the state.\<close>

definition getWriteable ::
  "('e, 'o, 'k) klee_ops \<Rightarrow> mem_object \<Rightarrow> 'o \<Rightarrow> ('o, 'k) ram_state \<Rightarrow> ('o \<times> ('o, 'k) ram_state) res" where
  "getWriteable kl mo os st =
     (if as_owned kl os (klee st) then Inr (os, st)
      else (case as_copy kl mo os (klee st) of (os', k') \<Rightarrow>
        rbind (addressSpaceChange {} mo (Some os) os' st) (\<lambda>st'. Inr (os', st'\<lparr>klee := k'\<rparr>))))"

definition isRamRegistered :: "('e, 'o, 'k) klee_ops \<Rightarrow> qemu_ops \<Rightarrow> u64 \<Rightarrow> ('o, 'k) ram_state \<Rightarrow> bool" where
  "isRamRegistered kl q h st = (case as_find kl (h AND NOT (mask (page_bits q))) (klee st) of
     None \<Rightarrow> False | Some (mo, _) \<Rightarrow> isUserSpecified mo)"

definition isRamSharedConcrete :: "('e, 'o, 'k) klee_ops \<Rightarrow> qemu_ops \<Rightarrow> u64 \<Rightarrow> ('o, 'k) ram_state \<Rightarrow> bool res" where
  "isRamSharedConcrete kl q h st = (case as_find kl (h AND NOT (mask (page_bits q))) (klee st) of
     None \<Rightarrow> Inl Assertion_Failed | Some (mo, _) \<Rightarrow> Inr (isSharedConcrete mo))"

section \<open>Reading\<close>

definition readMemory8 ::
  "('e, 'o, 'k) klee_ops \<Rightarrow> qemu_ops \<Rightarrow> u64 \<Rightarrow> AddressType \<Rightarrow> ('o, 'k) ram_state \<Rightarrow> 'e option res" where
  "readMemory8 kl q a t st =
     rbind (getHostAddress q st a t) (\<lambda>h.
       if h = - 1 then Inr None
       else rbind (ram_object (as_find kl (obj_base h) (klee st))) (\<lambda>(mo, os).
         Inr (Some (os_read kl (as_bytes kl os (klee st)) (obj_offset h) 8))))"

text \<open>The slow path of \<open>readMemory\<close>, from iteration \<open>i\<close>; concatenating with the null expression is
  undefined.\<close>

function read_bytes ::
  "('e, 'o, 'k) klee_ops \<Rightarrow> qemu_ops \<Rightarrow> u64 \<Rightarrow> AddressType \<Rightarrow> nat \<Rightarrow> nat \<Rightarrow> 'e option \<Rightarrow> ('o, 'k) ram_state \<Rightarrow>
   'e option res" where
  "read_bytes kl q a t n i r st =
     (if n \<le> i then Inr r
      else let idx = (if littleEndian q then i else n - i - 1) in
        rbind (readMemory8 kl q (a + of_nat idx) t st) (\<lambda>b.
          case b of
            None \<Rightarrow> Inr None
          | Some byte \<Rightarrow>
              if idx = 0 then read_bytes kl q a t n (i + 1) (Some byte) st
              else (case r of
                  None \<Rightarrow> Inl Undefined_Behaviour
                | Some e \<Rightarrow> read_bytes kl q a t n (i + 1) (Some (e_concat kl byte e)) st)))"
  by pat_completeness auto
termination by (relation "measure (\<lambda>(kl, q, a, t, n, i, r, st). n - i)") auto

declare read_bytes.simps [simp del]

definition readMemory ::
  "('e, 'o, 'k) klee_ops \<Rightarrow> qemu_ops \<Rightarrow> u64 \<Rightarrow> nat \<Rightarrow> AddressType \<Rightarrow> ('o, 'k) ram_state \<Rightarrow>
   ('e option \<times> ('o, 'k) ram_state) res" where
  "readMemory kl q a width t st =
     rbind (assert_that (width = 1 \<or> width mod 8 = 0)) (\<lambda>_.
       let n = width div 8 in
       if obj_offset a + n \<le> RAM_OBJECT_SIZE then
         rbind (getHostAddress q st a t) (\<lambda>h.
           if h = - 1 then Inr (None, st)
           else rbind (cached_object kl (obj_base h) st) (\<lambda>(op, st').
             rbind (ram_object op) (\<lambda>(mo, os).
               Inr (Some (os_read kl (as_bytes kl os (klee st')) (obj_offset a) width), st'))))
       else rbind (read_bytes kl q a t n 0 None st) (\<lambda>r. Inr (r, st)))"

text \<open>The concrete reads: \<open>False\<close> is the answer for a symbolic or unmapped byte, with the bytes read
  before it.\<close>

fun readMemoryConcrete ::
  "('e, 'o, 'k) klee_ops \<Rightarrow> qemu_ops \<Rightarrow> u64 \<Rightarrow> nat \<Rightarrow> AddressType \<Rightarrow> ('o, 'k) ram_state \<Rightarrow>
   (bool \<times> u8 list \<times> ('o, 'k) ram_state) res" where
  "readMemoryConcrete kl q a 0 t st = Inr (True, [], st)"
| "readMemoryConcrete kl q a (Suc n) t st =
     rbind (readMemory kl q a 8 t st) (\<lambda>(v, st').
       case Option.bind v (e_value kl) of
         None \<Rightarrow> Inr (False, [], st')
       | Some c \<Rightarrow>
           rbind (readMemoryConcrete kl q (a + 1) n t st') (\<lambda>(ok, bs, st'').
             Inr (ok, ucast c # bs, st'')))"

section \<open>Writing\<close>

lemma obj_offset_mod: "obj_offset a = unat a mod 128"
proof -
  have "a AND mask RAM_OBJECT_BITS = take_bit RAM_OBJECT_BITS a" by (simp add: take_bit_eq_mask)
  moreover have "unat (take_bit RAM_OBJECT_BITS a) = take_bit RAM_OBJECT_BITS (unat a)" by (rule unsigned_take_bit_eq)
  moreover have "take_bit RAM_OBJECT_BITS (unat a) = unat a mod 2 ^ RAM_OBJECT_BITS" by (rule take_bit_eq_mod)
  ultimately show ?thesis by (simp add: obj_offset_def RAM_OBJECT_BITS_def)
qed

lemma RAM_OBJECT_SIZE_128: "RAM_OBJECT_SIZE = 128"
  by (simp add: RAM_OBJECT_SIZE_def RAM_OBJECT_BITS_def)

lemma obj_offset_less: "obj_offset a < RAM_OBJECT_SIZE"
  by (simp add: obj_offset_mod RAM_OBJECT_SIZE_128)

definition store_byte :: "('e, 'o, 'k) klee_ops \<Rightarrow> 'o \<Rightarrow> nat \<Rightarrow> u8 \<Rightarrow> 'k \<Rightarrow> 'k" where
  "store_byte kl os off b k = as_update kl os ((as_bytes kl os k)[off := e_const kl (ucast b) 8]) k"

fun store_bytes :: "('e, 'o, 'k) klee_ops \<Rightarrow> 'o \<Rightarrow> nat \<Rightarrow> u8 list \<Rightarrow> 'k \<Rightarrow> 'k" where
  "store_bytes kl os off [] k = k"
| "store_bytes kl os off (b # bs) k = store_bytes kl os (off + 1) bs (store_byte kl os off b k)"

text \<open>
  \<open>writeMemory\<close> of a buffer. The recursive calls pass numbers of bytes where widths are expected.
\<close>

function writeMemory_buf ::
  "('e, 'o, 'k) klee_ops \<Rightarrow> qemu_ops \<Rightarrow> u64 \<Rightarrow> u8 list \<Rightarrow> nat \<Rightarrow> AddressType \<Rightarrow> ('o, 'k) ram_state \<Rightarrow>
   (bool \<times> ('o, 'k) ram_state) res" where
  "writeMemory_buf kl q a buf width t st =
     (if width mod 8 \<noteq> 0 then Inl Assertion_Failed
      else let n = width div 8 in
        if obj_offset a + n \<le> RAM_OBJECT_SIZE then
          rbind (getHostAddress q st a t) (\<lambda>h.
            if h = - 1 then Inr (False, st)
            else rbind (ram_object (as_find kl (obj_base h) (klee st))) (\<lambda>(mo, os).
              rbind (getWriteable kl mo os st) (\<lambda>(wos, st').
                Inr (True, st'\<lparr>klee := store_bytes kl wos (obj_offset a) (take n buf) (klee st')\<rparr>))))
        else let size1 = RAM_OBJECT_SIZE - obj_offset a in
          rbind (writeMemory_buf kl q a buf size1 t st) (\<lambda>(ok, st1).
            if \<not> ok then Inr (False, st1)
            else writeMemory_buf kl q (a + of_nat size1) (drop size1 buf) (n - size1) t st1))"
  by pat_completeness auto

termination
proof (relation "measure (\<lambda>(kl, q, a, buf, width, t, st). width)", goal_cases)
  case (2 kl q a buf width t st)
  then show ?case using obj_offset_less [of a] by (auto simp: RAM_OBJECT_SIZE_def RAM_OBJECT_BITS_def)
next
  case (3 kl q a buf width t st)
  then show ?case using obj_offset_less [of a] by (auto simp: RAM_OBJECT_SIZE_def RAM_OBJECT_BITS_def)
qed simp

declare writeMemory_buf.simps [simp del]

text \<open>The little-endian bytes of a host integer.\<close>

definition le_bytes :: "nat \<Rightarrow> u64 \<Rightarrow> u8 list" where
  "le_bytes n v = map (\<lambda>i. ucast (drop_bit (8 * i) v)) [0..<n]"

definition writeMemory8 where "writeMemory8 kl q a v t st = writeMemory_buf kl q a (le_bytes 1 v) 8 t st"
definition writeMemory16 where "writeMemory16 kl q a v t st = writeMemory_buf kl q a (le_bytes 2 v) 16 t st"
definition writeMemory32 where "writeMemory32 kl q a v t st = writeMemory_buf kl q a (le_bytes 4 v) 32 t st"
definition writeMemory64 where "writeMemory64 kl q a v t st = writeMemory_buf kl q a (le_bytes 8 v) 64 t st"

definition writeMemory8_expr ::
  "('e, 'o, 'k) klee_ops \<Rightarrow> qemu_ops \<Rightarrow> u64 \<Rightarrow> 'e \<Rightarrow> AddressType \<Rightarrow> ('o, 'k) ram_state \<Rightarrow>
   (bool \<times> ('o, 'k) ram_state) res" where
  "writeMemory8_expr kl q a v t st =
     rbind (assert_that (e_width kl v = 8)) (\<lambda>_.
     rbind (getHostAddress q st a t) (\<lambda>h.
       if h = - 1 then Inr (False, st)
       else rbind (ram_object (as_find kl (obj_base h) (klee st))) (\<lambda>(mo, os).
         rbind (getWriteable kl mo os st) (\<lambda>(wos, st').
           Inr (True, st'\<lparr>klee := as_update kl wos (os_write kl (as_bytes kl wos (klee st')) (obj_offset h) v) (klee st')\<rparr>)))))"

function write_bytes ::
  "('e, 'o, 'k) klee_ops \<Rightarrow> qemu_ops \<Rightarrow> u64 \<Rightarrow> 'e \<Rightarrow> AddressType \<Rightarrow> nat \<Rightarrow> nat \<Rightarrow> ('o, 'k) ram_state \<Rightarrow>
   (bool \<times> ('o, 'k) ram_state) res" where
  "write_bytes kl q a v t n i st =
     (if n \<le> i then Inr (True, st)
      else let idx = (if littleEndian q then i else n - i - 1) in
        rbind (writeMemory8_expr kl q (a + of_nat idx) (e_extract kl v (8 * i) 8) t st) (\<lambda>(ok, st').
          if \<not> ok then Inr (False, st') else write_bytes kl q a v t n (i + 1) st'))"
  by pat_completeness auto
termination by (relation "measure (\<lambda>(kl, q, a, v, t, n, i, st). n - i)") auto

declare write_bytes.simps [simp del]

definition writeMemory ::
  "('e, 'o, 'k) klee_ops \<Rightarrow> qemu_ops \<Rightarrow> u64 \<Rightarrow> 'e \<Rightarrow> AddressType \<Rightarrow> ('o, 'k) ram_state \<Rightarrow>
   (bool \<times> ('o, 'k) ram_state) res" where
  "writeMemory kl q a value t st =
     (let width = e_width kl value in
      rbind (assert_that (width = 1 \<or> width mod 8 = 0)) (\<lambda>_.
        if e_value kl value \<noteq> None \<and> width \<le> 64 then
          (let v = the (e_value kl value) in
           if width = 1 \<or> width = 8 then writeMemory8 kl q a v t st
           else if width = 16 then writeMemory16 kl q a v t st
           else if width = 32 then writeMemory32 kl q a v t st
           else if width = 64 then writeMemory64 kl q a v t st
           else Inl Assertion_Failed)
        else if width = 1 then writeMemory8_expr kl q a (e_zext kl value 8) t st
        else if obj_offset a + width div 8 \<le> RAM_OBJECT_SIZE then
          rbind (getHostAddress q st a t) (\<lambda>h.
            if h = - 1 then Inr (False, st)
            else rbind (ram_object (as_find kl (obj_base h) (klee st))) (\<lambda>(mo, os).
              rbind (getWriteable kl mo os st) (\<lambda>(wos, st').
                Inr (True, st'\<lparr>klee := as_update kl wos (os_write kl (as_bytes kl wos (klee st')) (obj_offset h) value) (klee st')\<rparr>))))
        else write_bytes kl q a value t (width div 8) 0 st))"

fun writeMemoryConcrete ::
  "('e, 'o, 'k) klee_ops \<Rightarrow> qemu_ops \<Rightarrow> u64 \<Rightarrow> u8 list \<Rightarrow> AddressType \<Rightarrow> ('o, 'k) ram_state \<Rightarrow>
   (bool \<times> ('o, 'k) ram_state) res" where
  "writeMemoryConcrete kl q a [] t st = Inr (True, st)"
| "writeMemoryConcrete kl q a (d # ds) t st =
     rbind (writeMemory kl q a (e_const kl (ucast d) 8) t st) (\<lambda>(b, st').
       if \<not> b then Inr (False, st') else writeMemoryConcrete kl q (a + 1) ds t st')"

text \<open>The value read is written back as a constant, at the virtual address.\<close>

definition readMemoryConcrete8 ::
  "('e, 'o, 'k) klee_ops \<Rightarrow> qemu_ops \<Rightarrow> u64 \<Rightarrow> AddressType \<Rightarrow> bool \<Rightarrow> ('o, 'k) ram_state \<Rightarrow>
   (bool \<times> u8 option \<times> ('o, 'k) ram_state) res" where
  "readMemoryConcrete8 kl q a t addConstraint st =
     rbind (readMemory8 kl q a t st) (\<lambda>r. case r of
         None \<Rightarrow> Inr (False, None, st)
       | Some e \<Rightarrow>
           (case (if addConstraint then to_constant kl e (klee st) else (to_example kl e (klee st), klee st)) of (c, k') \<Rightarrow>
             rbind (writeMemory kl q a (e_const kl c 8) VirtualAddress (st\<lparr>klee := k'\<rparr>)) (\<lambda>(ok, st').
               Inr (ok, Some (ucast c), st'))))"

section \<open>Strings\<close>

text \<open>\<open>maxLen\<close> counts down to 0 as a 32-bit number after the test of each character.\<close>

function read_string_loop ::
  "('e, 'o, 'k) klee_ops \<Rightarrow> qemu_ops \<Rightarrow> nat \<Rightarrow> u64 \<Rightarrow> u8 list \<Rightarrow> u32 \<Rightarrow> ('o, 'k) ram_state \<Rightarrow>
   (bool \<times> u8 list \<times> ('o, 'k) ram_state) res" where
  "read_string_loop kl q w a s maxLen st =
     rbind (readMemoryConcrete kl q a w VirtualAddress st) (\<lambda>(ok, c, st').
       if \<not> ok then Inr (False, s, st')
       else if list_all (\<lambda>x. x = 0) c then Inr (True, s, st')
       else let maxLen' = maxLen - 1; s' = s @ [hd c] in
         if maxLen' = 0 then Inr (True, s', st')
         else read_string_loop kl q w (a + of_nat w) s' maxLen' st')"
  by pat_completeness auto
termination
proof (relation "measure (\<lambda>(kl, q, w, a, s, maxLen, st). unat (maxLen - 1))", goal_cases)
  case (2 kl q w a s maxLen st)
  then have "unat (maxLen - 1 - 1) < unat (maxLen - 1)"
    using unat_minus_one [of "maxLen - 1"] unat_gt_0 [of "maxLen - 1"] by simp
  with 2 show ?case by simp
qed simp

declare read_string_loop.simps [simp del]

definition readString where "readString kl q a maxLen st = read_string_loop kl q 1 a [] maxLen st"
definition readUnicodeString where "readUnicodeString kl q a maxLen st = read_string_loop kl q 2 a [] maxLen st"

section \<open>What KLEE promises\<close>

text \<open>\<open>ev e m\<close> is the value of an expression under an assignment of the symbolic bytes. The laws are the
  documented meaning of the constructors, of reads and writes of an object state in little-endian
  order, and of the address space.\<close>

definition digits :: "nat \<Rightarrow> nat \<Rightarrow> nat list" where
  "digits n x = map (\<lambda>i. x div 256 ^ i mod 256) [0..<n]"

fun le_value :: "nat list \<Rightarrow> nat" where
  "le_value [] = 0"
| "le_value (b # bs) = b + 256 * le_value bs"

definition expr_laws :: "('e, 'o, 'k) klee_ops \<Rightarrow> ('e \<Rightarrow> 'm \<Rightarrow> nat) \<Rightarrow> bool" where
  "expr_laws kl ev \<longleftrightarrow>
     (\<forall>e m. ev e m < 2 ^ e_width kl e) \<and>
     (\<forall>e c m. e_value kl e = Some c \<longrightarrow> ev e m = unat c) \<and>
     (\<forall>c m. ev (e_const kl c 8) m = unat (take_bit 8 c)) \<and>
     (\<forall>c. e_width kl (e_const kl c 8) = 8) \<and>
     (\<forall>a b m. ev (e_concat kl a b) m = ev a m * 2 ^ e_width kl b + ev b m) \<and>
     (\<forall>a b. e_width kl (e_concat kl a b) = e_width kl a + e_width kl b) \<and>
     (\<forall>e i m. ev (e_extract kl e (8 * i) 8) m = ev e m div 256 ^ i mod 256) \<and>
     (\<forall>e off w. e_width kl (e_extract kl e off w) = w)"

definition object_laws :: "('e, 'o, 'k) klee_ops \<Rightarrow> ('e \<Rightarrow> 'm \<Rightarrow> nat) \<Rightarrow> bool" where
  "object_laws kl ev \<longleftrightarrow>
     (\<forall>bs off n m. 0 < n \<and> off + n \<le> length bs \<and> (\<forall>b\<in>set bs. e_width kl b = 8) \<longrightarrow>
        ev (os_read kl bs off (8 * n)) m = le_value (map (\<lambda>b. ev b m) (take n (drop off bs)))) \<and>
     (\<forall>bs off w. e_width kl (os_read kl bs off w) = w) \<and>
     (\<forall>bs off v. length (os_write kl bs off v) = length bs) \<and>
     (\<forall>bs off v. (\<forall>b\<in>set bs. e_width kl b = 8) \<longrightarrow> (\<forall>b\<in>set (os_write kl bs off v). e_width kl b = 8)) \<and>
     (\<forall>bs off v n m. e_width kl v = 8 * n \<and> off + n \<le> length bs \<longrightarrow>
        map (\<lambda>b. ev b m) (os_write kl bs off v) =
          map (\<lambda>b. ev b m) (take off bs) @ digits n (ev v m) @ map (\<lambda>b. ev b m) (drop (off + n) bs))"

definition space_laws :: "('e, 'o, 'k) klee_ops \<Rightarrow> bool" where
  "space_laws kl \<longleftrightarrow>
     (\<forall>os os' bs k. as_bytes kl os' (as_update kl os bs k) = (if os' = os then bs else as_bytes kl os' k)) \<and>
     (\<forall>os bs k a. as_find kl a (as_update kl os bs k) = as_find kl a k) \<and>
     (\<forall>os os' bs k. as_owned kl os' (as_update kl os bs k) = as_owned kl os' k)"

lemma le_value_digits: "le_value (digits n x) = x mod 256 ^ n"
proof (induction n arbitrary: x)
  case (Suc n)
  have "[0..<Suc n] = 0 # map Suc [0..<n]" by (simp add: upt_conv_Cons map_Suc_upt del: upt_Suc)
  then have "digits (Suc n) x = (x mod 256) # digits n (x div 256)"
    unfolding digits_def by (simp add: div_mult2_eq del: upt_Suc)
  then show ?case using Suc.IH by (simp add: mod_mult2_eq)
qed (simp add: digits_def)

lemma digits_nth: "i < n \<Longrightarrow> digits n x ! i = x div 256 ^ i mod 256"
  by (simp add: digits_def)

lemma length_digits [simp]: "length (digits n x) = n"
  by (simp add: digits_def)

section \<open>Host addresses of a range\<close>

lemma obj_base_plus_offset: "obj_base a + of_nat (obj_offset a) = a"
proof -
  let ?m = "mask RAM_OBJECT_BITS :: u64"
  have "(a AND NOT ?m) AND (a AND ?m) = 0" by (rule bit_eqI) (auto simp: bit_simps)
  then have "(a AND NOT ?m) + (a AND ?m) = (a AND NOT ?m) OR (a AND ?m)" by (rule disjunctive_add_eq_or)
  also have "\<dots> = a" by (rule bit_eqI) (auto simp: bit_simps)
  finally show ?thesis by (simp add: obj_base_def obj_offset_def)
qed

lemma obj_add:
  assumes "obj_offset a + i < RAM_OBJECT_SIZE"
  shows "obj_offset (a + of_nat i) = obj_offset a + i" "obj_base (a + of_nat i) = obj_base a"
proof -
  have i: "i < 128" using assms by (simp add: RAM_OBJECT_SIZE_128)
  have "unat (a + of_nat i) mod 128 = (unat a + i) mod 128"
    using i by (simp add: unat_word_ariths unat_of_nat mod_mod_cancel)
  also have "\<dots> = unat a mod 128 + i"
    using assms by (simp add: obj_offset_mod RAM_OBJECT_SIZE_128 mod_add_eq [symmetric, of "unat a"] )
  finally show off: "obj_offset (a + of_nat i) = obj_offset a + i" by (simp add: obj_offset_mod)
  show "obj_base (a + of_nat i) = obj_base a"
  proof -
    have "obj_base (a + of_nat i) + of_nat (obj_offset a + i) = a + of_nat i"
      using obj_base_plus_offset [of "a + of_nat i"] unfolding off .
    also have "\<dots> = obj_base a + of_nat (obj_offset a + i)"
      using obj_base_plus_offset [of a] by (simp only: of_nat_add add.assoc [symmetric])
    finally show ?thesis by (simp only: add_right_cancel)
  qed
qed

text \<open>Pages are at least as large as RAM objects, and host pages are aligned.\<close>

definition pages_ok :: "qemu_ops \<Rightarrow> bool" where
  "pages_ok q \<longleftrightarrow> RAM_OBJECT_BITS \<le> page_bits q \<and> page_bits q < 64 \<and>
     (\<forall>p. host_page q p AND mask (page_bits q) = 0)"

lemma page_in_object:
  assumes "RAM_OBJECT_BITS \<le> n" "n < 64"
  shows "a AND NOT (mask n) = obj_base a AND NOT (mask n)"
  using assms by (intro bit_eqI) (auto simp: obj_base_def bit_simps)

lemma host_object:
  assumes "RAM_OBJECT_BITS \<le> n" "n < 64" "h AND mask n = 0"
  shows "obj_offset (h OR (a AND mask n)) = obj_offset a"
    "obj_base (h OR (a AND mask n)) = h OR (obj_base a AND mask n)"
proof -
  have low: "\<not> bit h i" if "i < n" for i
  proof -
    have "\<not> bit (h AND mask n) i" using assms(3) by simp
    then show ?thesis using that assms(2) by (auto simp: bit_simps)
  qed
  have "(h OR (a AND mask n)) AND mask RAM_OBJECT_BITS = a AND mask RAM_OBJECT_BITS"
    using assms(1) low by (intro bit_eqI) (auto simp: bit_simps)
  then show "obj_offset (h OR (a AND mask n)) = obj_offset a" by (simp add: obj_offset_def)
  show "obj_base (h OR (a AND mask n)) = h OR (obj_base a AND mask n)"
    using assms(1) low by (intro bit_eqI) (auto simp: bit_simps obj_base_def)
qed

text \<open>The host address depends on the page of an address and, linearly, on its offset.\<close>

lemma host_lookup:
  assumes "getHostAddress q st a t = Inr h" "h \<noteq> - 1" "t \<noteq> HostAddress"
  shows "\<exists>p. h = host_page q p OR (a AND mask (page_bits q)) \<and>
    (\<forall>y. y AND NOT (mask (page_bits q)) = a AND NOT (mask (page_bits q)) \<longrightarrow>
      getHostAddress q st y t = Inr (host_page q p OR (y AND mask (page_bits q))))"
proof -
  let ?page = "a AND NOT (mask (page_bits q))"
  let ?look = "if t = VirtualAddress then getPhysicalAddress q st ?page else Inr ?page"
  have run: "rbind ?look (\<lambda>pa. if t = VirtualAddress \<and> pa = - 1 then Inr (- 1)
       else let h = host_page q pa in if h = 0 then Inr (- 1) else Inr (h OR (a AND mask (page_bits q)))) = Inr h"
    using assms(1,3) unfolding getHostAddress_def by (simp only: Let_def simp_thms if_True)
  obtain pa where pa: "?look = Inr pa" using run by (cases ?look) (simp_all only: rbind_simps sum.distinct)
  have rest: "(if t = VirtualAddress \<and> pa = - 1 then Inr (- 1)
       else let h = host_page q pa in if h = 0 then Inr (- 1) else Inr (h OR (a AND mask (page_bits q)))) = (Inr h :: u64 res)"
    using run unfolding pa by simp
  have mapped: "\<not> (t = VirtualAddress \<and> pa = - 1)" "host_page q pa \<noteq> 0"
    "h = host_page q pa OR (a AND mask (page_bits q))"
    using rest assms(2) by (auto simp: Let_def split: if_splits)
  have "getHostAddress q st y t = Inr (host_page q pa OR (y AND mask (page_bits q)))"
    if "y AND NOT (mask (page_bits q)) = ?page" for y
    unfolding getHostAddress_def Let_def that pa using mapped(1,2) assms(3) by auto
  with mapped(3) show ?thesis by blast
qed

lemma host_in_object:
  assumes q: "pages_ok q" and h: "getHostAddress q st a t = Inr h" "h \<noteq> - 1" and i: "obj_offset a + i < RAM_OBJECT_SIZE"
  shows "getHostAddress q st (a + of_nat i) t = Inr (h + of_nat i)" "obj_offset h = obj_offset a"
proof -
  have "getHostAddress q st (a + of_nat i) t = Inr (h + of_nat i) \<and> obj_offset h = obj_offset a"
  proof (cases "t = HostAddress")
    case True
    then show ?thesis using h by (simp add: getHostAddress_def)
  next
    case False
    let ?n = "page_bits q" and ?b = "a + of_nat i"
    have n: "RAM_OBJECT_BITS \<le> ?n" "?n < 64" "\<And>p. host_page q p AND mask ?n = 0"
      using q by (auto simp: pages_ok_def)
    have page: "?b AND NOT (mask ?n) = a AND NOT (mask ?n)"
      using page_in_object [OF n(1,2)] obj_add(2) [OF i] by metis
    have eq: "host_page q p OR (?b AND mask ?n) = (host_page q p OR (a AND mask ?n)) + of_nat i" for p
    proof -
      let ?x = "host_page q p OR (a AND mask ?n)" and ?y = "host_page q p OR (?b AND mask ?n)"
      have "?y = obj_base ?x + of_nat (obj_offset ?x + i)"
        using obj_base_plus_offset [of ?y] host_object [OF n(1,2) n(3)] obj_add [OF i] by metis
      also have "\<dots> = ?x + of_nat i"
        using obj_base_plus_offset [of ?x] by (simp only: of_nat_add add.assoc [symmetric])
      finally show ?thesis .
    qed
    from h False obtain p where p: "h = host_page q p OR (a AND mask ?n)"
      "\<And>y. y AND NOT (mask ?n) = a AND NOT (mask ?n) \<Longrightarrow>
        getHostAddress q st y t = Inr (host_page q p OR (y AND mask ?n))"
      using host_lookup by metis
    from p(2) [OF page] eq p(1) host_object(1) [OF n(1,2) n(3)] show ?thesis by simp
  qed
  then show "getHostAddress q st (a + of_nat i) t = Inr (h + of_nat i)" "obj_offset h = obj_offset a" by auto
qed

section \<open>The cache agrees with the address space\<close>

definition regions_aligned :: "'a pool \<Rightarrow> bool" where
  "regions_aligned cs \<longleftrightarrow> (\<forall>c\<in>set cs. unat (m_hostAddrStart c) mod 128 = 0 \<and> objBits c = 7)"

definition cache_coherent :: "('e, 'o, 'k) klee_ops \<Rightarrow> ('o, 'k) ram_state \<Rightarrow> bool" where
  "cache_coherent kl st \<longleftrightarrow> pool_inv (m_memcache st) \<and> regions_aligned (m_memcache st) \<and>
     (\<forall>a p. obj_offset a = 0 \<longrightarrow> pool_get None a (m_memcache st) = Inr (Some p) \<longrightarrow> as_find kl a (klee st) = Some p)"

lemma cache_coherentD:
  "cache_coherent kl st \<Longrightarrow> obj_offset a = 0 \<Longrightarrow> pool_get None a (m_memcache st) = Inr (Some p) \<Longrightarrow>
   as_find kl a (klee st) = Some p"
  unfolding cache_coherent_def by blast

lemma cache_contains_get: "cache_inv c \<Longrightarrow> cache_contains a c \<Longrightarrow> is_ok (cache_get d a c)"
  by (simp add: cache_get_cell)

lemma pool_get_ok: "pool_inv cs \<Longrightarrow> \<exists>v. pool_get d a cs = Inr v \<and> (\<not> pool_covers cs a \<longrightarrow> v = d)"
proof (induction cs)
  case (Cons c cs)
  then show ?case using cache_contains_get [of c a d]
    by (cases "cache_get d a c") (auto simp: pool_inv_def pool_covers_def)
qed (simp add: pool_inv_def)

lemma pool_put_uncovered: "\<not> pool_covers cs a \<Longrightarrow> pool_put d a v cs = Inr cs"
  by (induction cs) (auto simp: pool_covers_def)

lemma pool_same_aligned:
  assumes "pool_inv cs" "regions_aligned cs" "obj_offset a = 0" "obj_offset b = 0"
  shows "pool_same cs a b \<Longrightarrow> a = b"
  using assms(1,2)
proof (induction cs)
  case (Cons c cs)
  show ?case
  proof (cases "cache_contains a c \<or> cache_contains b c")
    case True
    with Cons.prems have in_c: "cache_contains a c" "cache_contains b c" and idx: "obj_index c a = obj_index c b" by auto
    have inv: "cache_inv c" using Cons.prems(2) by (simp add: pool_inv_def)
    have c: "unat (m_hostAddrStart c) mod 128 = 0" "objBits c = 7" using Cons.prems(3) by (auto simp: regions_aligned_def)
    have le: "unat (m_hostAddrStart c) \<le> unat a" "unat (m_hostAddrStart c) \<le> unat b"
      using in_c contains_unat [OF inv] by auto
    then have "(unat a - unat (m_hostAddrStart c)) div 128 = (unat b - unat (m_hostAddrStart c)) div 128"
      using idx c(2) by (simp add: obj_index_def unat_sub_if')
    moreover have "(unat a - unat (m_hostAddrStart c)) mod 128 = 0" "(unat b - unat (m_hostAddrStart c)) mod 128 = 0"
      using assms(3,4) c(1) by (auto simp: obj_offset_mod mod_eq_0_iff_dvd intro: dvd_diff_nat)
    ultimately have "unat a - unat (m_hostAddrStart c) = unat b - unat (m_hostAddrStart c)"
      by (metis div_mult_mod_eq)
    then have "unat a = unat b" using le by simp
    then show ?thesis by (simp add: word_unat_eq_iff)
  next
    case False
    then show ?thesis using Cons by (auto simp: pool_inv_def regions_aligned_def)
  qed
qed simp

lemma pool_put_aligned:
  "pool_put d a v cs = Inr cs' \<Longrightarrow> regions_aligned cs \<Longrightarrow> regions_aligned cs'"
proof (induction cs arbitrary: cs')
  case (Cons c cs)
  then show ?case
    by (auto simp: rbind_Inr_iff regions_aligned_def cache_put_config split: if_splits)
qed simp

lemma coherent_put:
  assumes co: "cache_coherent kl st" and a: "obj_offset a = 0"
  shows "\<exists>cache. pool_put None a (as_find kl a (klee st)) (m_memcache st) = Inr cache \<and>
    cache_coherent kl (st\<lparr>m_memcache := cache\<rparr>)"
proof (cases "pool_covers (m_memcache st) a")
  case False
  then show ?thesis using co by (simp add: pool_put_uncovered)
next
  case True
  let ?cs = "m_memcache st" and ?v = "as_find kl a (klee st)"
  have inv: "pool_inv ?cs" "regions_aligned ?cs" using co by (auto simp: cache_coherent_def)
  from pool.put_ok [OF inv(1) True, of None ?v] obtain cache where
    c: "pool_put None a ?v ?cs = Inr cache" "pool_inv cache" "pool_covers cache = pool_covers ?cs"
      "\<And>b. pool_covers ?cs b \<Longrightarrow> pool_get None b cache = (if pool_same ?cs a b then Inr ?v else pool_get None b ?cs)"
    by blast
  have "as_find kl b (klee st) = Some p" if b: "obj_offset b = 0" and g: "pool_get None b cache = Inr (Some p)" for b p
  proof -
    have "pool_covers ?cs b" using pool_get_ok [OF c(2), of None b] g c(3) by auto
    with c(4) g pool_same_aligned [OF inv a b] cache_coherentD [OF co b] show ?thesis
      by (cases "pool_same ?cs a b") auto
  qed
  then show ?thesis using c pool_put_aligned [OF c(1) inv(2)] by (simp add: cache_coherent_def)
qed

lemma cached_object_spec:
  assumes co: "cache_coherent kl st" and a: "obj_offset a = 0"
  shows "\<exists>cache. cached_object kl a st = Inr (as_find kl a (klee st), st\<lparr>m_memcache := cache\<rparr>) \<and>
    cache_coherent kl (st\<lparr>m_memcache := cache\<rparr>)"
proof -
  from co have inv: "pool_inv (m_memcache st)" by (simp add: cache_coherent_def)
  from pool_get_ok [OF inv] obtain v where v: "pool_get None a (m_memcache st) = Inr v" by blast
  show ?thesis
  proof (cases v)
    case None
    with v coherent_put [OF co a] show ?thesis by (auto simp: cached_object_def Let_def)
  next
    case (Some p)
    with v cache_coherentD [OF co a] have "as_find kl a (klee st) = Some p" by simp
    with v Some co show ?thesis by (intro exI [of _ "m_memcache st"]) (simp add: cached_object_def)
  qed
qed

lemma obj_base_aligned: "obj_offset (obj_base a) = 0"
proof -
  have "obj_base a AND mask RAM_OBJECT_BITS = 0" by (rule bit_eqI) (auto simp: obj_base_def bit_simps)
  then show ?thesis by (simp add: obj_offset_def)
qed

end
