(* ===== verification/Memory_Round_Trip.thy ===== *)
theory Memory_Round_Trip
  imports Exec_Memory
begin

text \<open>
  What the reads and writes of \<open>Exec_Memory\<close> mean: a read of any width, inside one RAM object or across
  several, is the little-endian number of the bytes at the host addresses of the range, and a
  write makes the next read return the value written.
\<close>

section \<open>Bytes of RAM\<close>

definition bytes_ok :: "('e, 'o, 'k) klee_ops \<Rightarrow> 'e list \<Rightarrow> bool" where
  "bytes_ok kl bs \<longleftrightarrow> length bs = RAM_OBJECT_SIZE \<and> (\<forall>b\<in>set bs. e_width kl b = 8)"

definition ram_object_at :: "('e, 'o, 'k) klee_ops \<Rightarrow> 'k \<Rightarrow> u64 \<Rightarrow> mem_object \<Rightarrow> 'o \<Rightarrow> bool" where
  "ram_object_at kl k h mo os \<longleftrightarrow> as_find kl (obj_base h) k = Some (mo, os) \<and> isUserSpecified mo \<and>
     mo_size mo = RAM_OBJECT_SIZE \<and> bytes_ok kl (as_bytes kl os k)"

definition byte_val :: "('e, 'o, 'k) klee_ops \<Rightarrow> ('e \<Rightarrow> 'm \<Rightarrow> nat) \<Rightarrow> 'k \<Rightarrow> u64 \<Rightarrow> 'm \<Rightarrow> nat" where
  "byte_val kl ev k h m = (case as_find kl (obj_base h) k of
     None \<Rightarrow> 0 | Some (mo, os) \<Rightarrow> ev (as_bytes kl os k ! obj_offset h) m)"

definition objects_distinct :: "('e, 'o, 'k) klee_ops \<Rightarrow> 'k \<Rightarrow> bool" where
  "objects_distinct kl k \<longleftrightarrow> (\<forall>a b mo mo' os.
     as_find kl a k = Some (mo, os) \<longrightarrow> as_find kl b k = Some (mo', os) \<longrightarrow> a = b)"

text \<open>A guest range that is mapped to RAM, byte by byte, at the host addresses \<open>hs\<close>.\<close>

definition mapped_range ::
  "('e, 'o, 'k) klee_ops \<Rightarrow> qemu_ops \<Rightarrow> ('o, 'k) ram_state \<Rightarrow> AddressType \<Rightarrow> u64 \<Rightarrow> nat \<Rightarrow> (nat \<Rightarrow> u64) \<Rightarrow> bool" where
  "mapped_range kl q st t a n hs \<longleftrightarrow> (\<forall>i<n. getHostAddress q st (a + of_nat i) t = Inr (hs i) \<and> hs i \<noteq> - 1 \<and>
     (\<exists>mo os. ram_object_at kl (klee st) (hs i) mo os))"

definition owned_range ::
  "('e, 'o, 'k) klee_ops \<Rightarrow> ('o, 'k) ram_state \<Rightarrow> nat \<Rightarrow> (nat \<Rightarrow> u64) \<Rightarrow> bool" where
  "owned_range kl st n hs \<longleftrightarrow> inj_on hs {..<n} \<and>
     (\<forall>i<n. \<forall>mo os. as_find kl (obj_base (hs i)) (klee st) = Some (mo, os) \<longrightarrow> as_owned kl os (klee st))"

definition ram_shape :: "('e, 'o, 'k) klee_ops \<Rightarrow> 'k \<Rightarrow> 'k \<Rightarrow> bool" where
  "ram_shape kl k k' \<longleftrightarrow> (\<forall>a. as_find kl a k' = as_find kl a k) \<and> (\<forall>os. as_owned kl os k' = as_owned kl os k) \<and>
     (\<forall>os. bytes_ok kl (as_bytes kl os k) \<longrightarrow> bytes_ok kl (as_bytes kl os k'))"

lemma ram_shape_refl [simp]: "ram_shape kl k k"
  by (simp add: ram_shape_def)

lemma ram_shape_trans: "ram_shape kl k k' \<Longrightarrow> ram_shape kl k' k'' \<Longrightarrow> ram_shape kl k k''"
  by (simp add: ram_shape_def)

lemma host_klee [simp]: "getHostAddress q (st\<lparr>klee := k\<rparr>) a t = getHostAddress q st a t"
  "getHostAddress q (st\<lparr>m_memcache := c\<rparr>) a t = getHostAddress q st a t"
  by (cases t; simp add: getHostAddress_def getPhysicalAddress_def Let_def)+

lemma shape_object: "ram_shape kl k k' \<Longrightarrow> ram_object_at kl k h mo os \<Longrightarrow> ram_object_at kl k' h mo os"
  by (simp add: ram_shape_def ram_object_at_def)

lemma shape_range:
  "ram_shape kl (klee st) k' \<Longrightarrow> mapped_range kl q st t a n hs \<Longrightarrow> mapped_range kl q (st\<lparr>klee := k'\<rparr>) t a n hs"
  "ram_shape kl (klee st) k' \<Longrightarrow> owned_range kl (st\<lparr>klee := k'\<rparr>) n hs = owned_range kl st n hs"
  using shape_object by (fastforce simp: mapped_range_def, simp add: owned_range_def ram_shape_def)

lemma object_length: "ram_object_at kl k h mo os \<Longrightarrow> length (as_bytes kl os k) = RAM_OBJECT_SIZE"
  by (simp add: ram_object_at_def bytes_ok_def)

lemma object_widths: "ram_object_at kl k h mo os \<Longrightarrow> \<forall>b\<in>set (as_bytes kl os k). e_width kl b = 8"
  by (simp add: ram_object_at_def bytes_ok_def)

lemma shape_distinct: "ram_shape kl k k' \<Longrightarrow> objects_distinct kl k' = objects_distinct kl k"
  by (simp add: ram_shape_def objects_distinct_def)

lemma shape_coherent: "ram_shape kl (klee st) k' \<Longrightarrow> cache_coherent kl (st\<lparr>klee := k'\<rparr>) = cache_coherent kl st"
  by (simp add: ram_shape_def cache_coherent_def)

text \<open>Replacing the bytes of one object.\<close>

lemma object_update:
  assumes sp: "space_laws kl" and d: "objects_distinct kl k" and o: "ram_object_at kl k h mo os"
    and len: "bytes_ok kl bs"
  shows "ram_shape kl k (as_update kl os bs k)"
    "byte_val kl ev (as_update kl os bs k) h' m =
       (if obj_base h' = obj_base h then ev (bs ! obj_offset h') m else byte_val kl ev k h' m)"
proof -
  show "ram_shape kl k (as_update kl os bs k)"
    using sp o len by (simp add: ram_shape_def space_laws_def ram_object_at_def)
  have b: "as_bytes kl os' (as_update kl os bs k) = (if os' = os then bs else as_bytes kl os' k)"
    "as_find kl a (as_update kl os bs k) = as_find kl a k" for os' a
    using sp by (simp_all add: space_laws_def)
  show "byte_val kl ev (as_update kl os bs k) h' m =
       (if obj_base h' = obj_base h then ev (bs ! obj_offset h') m else byte_val kl ev k h' m)"
  proof (cases "obj_base h' = obj_base h")
    case True
    then show ?thesis using o by (simp add: byte_val_def b ram_object_at_def)
  next
    case False
    have "os' \<noteq> os" if "as_find kl (obj_base h') k = Some (mo', os')" for mo' os'
      using that o d False unfolding objects_distinct_def ram_object_at_def by blast
    with False show ?thesis by (auto simp: byte_val_def b split: option.splits)
  qed
qed

lemma same_host: "obj_base h = obj_base h' \<Longrightarrow> obj_offset h = obj_offset h' \<Longrightarrow> h = h'"
  by (metis obj_base_plus_offset)

lemma getWriteable_owned:
  "as_owned kl os (klee st) \<Longrightarrow> getWriteable kl mo os st = Inr (os, st)"
  by (simp add: getWriteable_def)

lemma ram_object_found:
  "ram_object_at kl k h mo os \<Longrightarrow> ram_object (as_find kl (obj_base h) k) = Inr (mo, os)"
  by (simp add: ram_object_def ram_object_at_def)

section \<open>Reading\<close>

definition range_value ::
  "('e, 'o, 'k) klee_ops \<Rightarrow> ('e \<Rightarrow> 'm \<Rightarrow> nat) \<Rightarrow> 'k \<Rightarrow> nat \<Rightarrow> (nat \<Rightarrow> u64) \<Rightarrow> 'm \<Rightarrow> nat" where
  "range_value kl ev k n hs m = le_value (map (\<lambda>i. byte_val kl ev k (hs i) m) [0..<n])"

lemma le_value_append: "le_value (xs @ ys) = le_value xs + 256 ^ length xs * le_value ys"
  by (induction xs) (simp_all add: algebra_simps)

lemma readMemory8_value:
  assumes "object_laws kl ev" "getHostAddress q st a t = Inr h" "h \<noteq> - 1" "ram_object_at kl (klee st) h mo os"
  shows "\<exists>e. readMemory8 kl q a t st = Inr (Some e) \<and> e_width kl e = 8 \<and> (\<forall>m. ev e m = byte_val kl ev (klee st) h m)"
proof -
  let ?bs = "as_bytes kl os (klee st)"
  have off: "obj_offset h + 1 \<le> length ?bs" using object_length [OF assms(4)] obj_offset_less [of h] by simp
  then have tk: "take 1 (drop (obj_offset h) ?bs) = [?bs ! obj_offset h]" by (simp add: take_Suc_conv_app_nth)
  have "ev (os_read kl ?bs (obj_offset h) (8 * 1)) m =
      le_value (map (\<lambda>b. ev b m) (take 1 (drop (obj_offset h) ?bs)))" for m
    using assms(1) off object_widths [OF assms(4)] unfolding object_laws_def by (metis zero_less_one)
  moreover have "e_width kl (os_read kl ?bs (obj_offset h) 8) = 8" using assms(1) by (simp add: object_laws_def)
  moreover have "byte_val kl ev (klee st) h m = ev (?bs ! obj_offset h) m" for m
    using assms(4) by (simp add: byte_val_def ram_object_at_def)
  ultimately show ?thesis using assms(2,3)
    by (simp add: readMemory8_def ram_object_found [OF assms(4)] tk del: One_nat_def)
qed

lemma read_bytes_value:
  assumes laws: "expr_laws kl ev" "object_laws kl ev" and le: "littleEndian q"
    and map: "mapped_range kl q st t a n hs"
  shows "i \<le> n \<Longrightarrow> (i = 0 \<and> r = None \<or> 0 < i \<and> (\<exists>e. r = Some e \<and> e_width kl e = 8 * i \<and>
      (\<forall>m. ev e m = range_value kl ev (klee st) i hs m))) \<Longrightarrow> 0 < n \<Longrightarrow>
    \<exists>e. read_bytes kl q a t n i r st = Inr (Some e) \<and> e_width kl e = 8 * n \<and> (\<forall>m. ev e m = range_value kl ev (klee st) n hs m)"
proof (induction "n - i" arbitrary: i r)
  case 0
  then show ?case by (subst read_bytes.simps) auto
next
  case (Suc d)
  then have i: "i < n" by simp
  from map i obtain mo os where h: "getHostAddress q st (a + of_nat i) t = Inr (hs i)" "hs i \<noteq> - 1"
    "ram_object_at kl (klee st) (hs i) mo os" by (auto simp: mapped_range_def)
  from readMemory8_value [OF laws(2) h] obtain b where b: "readMemory8 kl q (a + of_nat i) t st = Inr (Some b)"
    "e_width kl b = 8" "\<And>m. ev b m = byte_val kl ev (klee st) (hs i) m" by blast
  show ?case
  proof (cases "i = 0")
    case True
    have "\<forall>m. ev b m = range_value kl ev (klee st) 1 hs m" using b(3) True by (simp add: range_value_def)
    with Suc.hyps(1) [of 1 "Some b"] Suc.hyps(2) Suc.prems(3) True b(2) show ?thesis
      by (subst read_bytes.simps) (use b(1) le in simp)
  next
    case False
    then obtain e where e: "r = Some e" "e_width kl e = 8 * i" "\<And>m. ev e m = range_value kl ev (klee st) i hs m"
      using Suc.prems(2) by auto
    let ?c = "e_concat kl b e"
    have w: "e_width kl ?c = 8 * (i + 1)" using laws(1) b(2) e(2) by (simp add: expr_laws_def)
    have "ev ?c m = range_value kl ev (klee st) (i + 1) hs m" for m
    proof -
      have "ev ?c m = ev b m * 2 ^ (8 * i) + ev e m" using laws(1) e(2) by (simp add: expr_laws_def)
      moreover have "(2 :: nat) ^ (8 * i) = 256 ^ i" by (simp add: power_mult)
      ultimately show ?thesis using b(3) e(3) by (simp add: range_value_def le_value_append mult.commute)
    qed
    with Suc.hyps(1) [of "i + 1" "Some ?c"] Suc.hyps(2) i w have
      "\<exists>e. read_bytes kl q a t n (i + 1) (Some ?c) st = Inr (Some e) \<and> e_width kl e = 8 * n \<and> (\<forall>m. ev e m = range_value kl ev (klee st) n hs m)"
      using Suc.prems(3) by auto
    then show ?thesis by (subst read_bytes.simps) (use b(1) le i False e(1) in \<open>simp add: Let_def\<close>)
  qed
qed

lemma range_start:
  assumes q: "pages_ok q" and map: "mapped_range kl q st t a n hs" and n: "0 < n"
    and fit: "obj_offset a + n \<le> RAM_OBJECT_SIZE"
  obtains mo os where "getHostAddress q st a t = Inr (hs 0)" "hs 0 \<noteq> - 1" "ram_object_at kl (klee st) (hs 0) mo os"
    "obj_offset (hs 0) = obj_offset a"
    "\<And>i. i < n \<Longrightarrow> obj_offset (hs i) = obj_offset a + i \<and> obj_base (hs i) = obj_base (hs 0)"
proof -
  from map n obtain mo os where h: "getHostAddress q st a t = Inr (hs 0)" "hs 0 \<noteq> - 1"
    "ram_object_at kl (klee st) (hs 0) mo os" by (fastforce simp: mapped_range_def)
  have off: "obj_offset (hs 0) = obj_offset a" using host_in_object(2) [OF q h(1,2), of 0] fit n by simp
  have "obj_offset (hs i) = obj_offset a + i \<and> obj_base (hs i) = obj_base (hs 0)" if "i < n" for i
  proof -
    have lt: "obj_offset a + i < RAM_OBJECT_SIZE" using that fit by simp
    have "hs i = hs 0 + of_nat i" using host_in_object(1) [OF q h(1,2) lt] map that by (simp add: mapped_range_def)
    then show ?thesis using obj_add [of "hs 0" i] lt off by simp
  qed
  with h off that show ?thesis by blast
qed

text \<open>A read of the object of a range that lies in it.\<close>

lemma object_read_value:
  assumes laws: "object_laws kl ev" and o: "ram_object_at kl k (hs 0) mo os" and n: "0 < n"
    and fit: "obj_offset a + n \<le> RAM_OBJECT_SIZE"
    and hs: "\<And>i. i < n \<Longrightarrow> obj_offset (hs i) = obj_offset a + i \<and> obj_base (hs i) = obj_base (hs 0)"
  shows "ev (os_read kl (as_bytes kl os k) (obj_offset a) (8 * n)) m = range_value kl ev k n hs m"
proof -
  let ?bs = "as_bytes kl os k"
  have len: "length ?bs = RAM_OBJECT_SIZE" using object_length [OF o] .
  have "ev (os_read kl ?bs (obj_offset a) (8 * n)) m = le_value (map (\<lambda>b. ev b m) (take n (drop (obj_offset a) ?bs)))"
    using laws n fit len object_widths [OF o] by (simp add: object_laws_def)
  also have "map (\<lambda>b. ev b m) (take n (drop (obj_offset a) ?bs)) = map (\<lambda>i. byte_val kl ev k (hs i) m) [0..<n]"
  proof (rule nth_equalityI)
    fix i assume "i < length (map (\<lambda>b. ev b m) (take n (drop (obj_offset a) ?bs)))"
    then have i: "i < n" by simp
    then show "map (\<lambda>b. ev b m) (take n (drop (obj_offset a) ?bs)) ! i =
        map (\<lambda>i. byte_val kl ev k (hs i) m) [0..<n] ! i"
      using fit len o hs [OF i] by (simp add: byte_val_def ram_object_at_def)
  qed (use fit len in simp)
  finally show ?thesis by (simp add: range_value_def)
qed

lemma readMemory_range:
  assumes laws: "expr_laws kl ev" "object_laws kl ev" and q: "pages_ok q" "littleEndian q"
    and map: "mapped_range kl q st t a n hs" and n: "0 < n" and co: "cache_coherent kl st"
  shows "\<exists>e st'. readMemory kl q a (8 * n) t st = Inr (Some e, st') \<and> e_width kl e = 8 * n \<and>
    (\<forall>m. ev e m = range_value kl ev (klee st) n hs m) \<and> klee st' = klee st \<and> cache_coherent kl st'"
proof (cases "obj_offset a + n \<le> RAM_OBJECT_SIZE")
  case False
  from read_bytes_value [OF laws q(2) map, of 0 None] n obtain e where
    "read_bytes kl q a t n 0 None st = Inr (Some e)" "e_width kl e = 8 * n" "\<forall>m. ev e m = range_value kl ev (klee st) n hs m" by auto
  then show ?thesis using False co by (auto simp: readMemory_def Let_def)
next
  case True
  from range_start [OF q(1) map n True] obtain mo os where h:
    "getHostAddress q st a t = Inr (hs 0)" "hs 0 \<noteq> - 1" "ram_object_at kl (klee st) (hs 0) mo os"
    and hs: "\<And>i. i < n \<Longrightarrow> obj_offset (hs i) = obj_offset a + i \<and> obj_base (hs i) = obj_base (hs 0)" by metis
  from cached_object_spec [OF co obj_base_aligned, of "hs 0"] obtain cache where
    c: "cached_object kl (obj_base (hs 0)) st = Inr (as_find kl (obj_base (hs 0)) (klee st), st\<lparr>m_memcache := cache\<rparr>)"
      "cache_coherent kl (st\<lparr>m_memcache := cache\<rparr>)" by blast
  have "readMemory kl q a (8 * n) t st =
      Inr (Some (os_read kl (as_bytes kl os (klee st)) (obj_offset a) (8 * n)), st\<lparr>m_memcache := cache\<rparr>)"
    using True h(1,2) by (simp add: readMemory_def Let_def c(1) ram_object_found [OF h(3)])
  moreover have "e_width kl (os_read kl (as_bytes kl os (klee st)) (obj_offset a) (8 * n)) = 8 * n"
    using laws(2) by (simp add: object_laws_def)
  ultimately show ?thesis
    using c(2) object_read_value [where hs = hs, OF laws(2) h(3) n True hs] by auto
qed

text \<open>C17: A read of \<open>n\<close> bytes returns an expression for the little-endian number of the bytes at the host
  addresses of the range, whether the range lies in one RAM object, when the object is looked up
  through the cache, or crosses objects, when it is read byte by byte; the memory is as before
  and the cache still agrees with the address space.\<close>

theorem readMemory_value:
  assumes laws: "expr_laws kl ev" "object_laws kl ev" and q: "pages_ok q" "littleEndian q"
    and map: "mapped_range kl q st t a n hs" and n: "0 < n" and co: "cache_coherent kl st"
  shows "\<exists>e st'. readMemory kl q a (8 * n) t st = Inr (Some e, st') \<and>
    (\<forall>m. ev e m = range_value kl ev (klee st) n hs m) \<and> klee st' = klee st \<and> cache_coherent kl st'"
  using readMemory_range [OF assms] by blast

section \<open>Writing\<close>

text \<open>After a write the bytes of the range are the digits of the value and no other byte has changed.\<close>

definition holds_value ::
  "('e, 'o, 'k) klee_ops \<Rightarrow> ('e \<Rightarrow> 'm \<Rightarrow> nat) \<Rightarrow> 'k \<Rightarrow> 'k \<Rightarrow> nat \<Rightarrow> (nat \<Rightarrow> u64) \<Rightarrow> ('m \<Rightarrow> nat) \<Rightarrow> bool" where
  "holds_value kl ev k k' n hs v \<longleftrightarrow> ram_shape kl k k' \<and>
     (\<forall>i<n. \<forall>m. byte_val kl ev k' (hs i) m = v m div 256 ^ i mod 256) \<and>
     (\<forall>h. h \<notin> hs ` {..<n} \<longrightarrow> (\<forall>m. byte_val kl ev k' h m = byte_val kl ev k h m))"

lemma holds_value_range:
  "holds_value kl ev k k' n hs v \<Longrightarrow> range_value kl ev k' n hs m = v m mod 256 ^ n"
proof -
  assume h: "holds_value kl ev k k' n hs v"
  have "map (\<lambda>i. byte_val kl ev k' (hs i) m) [0..<n] = digits n (v m)"
    using h unfolding digits_def by (auto simp: holds_value_def)
  then show ?thesis unfolding range_value_def by (simp add: le_value_digits)
qed

text \<open>A host address inside the object and the range of offsets is one of the range.\<close>

lemma in_range:
  assumes "\<And>i. i < n \<Longrightarrow> obj_offset (hs i) = obj_offset a + i \<and> obj_base (hs i) = obj_base (hs 0)"
    and "obj_base h = obj_base (hs 0)" "obj_offset a \<le> obj_offset h" "obj_offset h < obj_offset a + n"
  shows "h = hs (obj_offset h - obj_offset a)"
proof -
  have "obj_offset h - obj_offset a < n" using assms(3,4) by arith
  from assms(1) [OF this] assms(2,3) show ?thesis by (metis same_host le_add_diff_inverse)
qed

text \<open>Writing the bytes \<open>bs'\<close> of the object of a range that lies in it.\<close>

lemma object_holds:
  assumes sp: "space_laws kl" and d: "objects_distinct kl k" and o: "ram_object_at kl k (hs 0) mo os"
    and hs: "\<And>i. i < n \<Longrightarrow> obj_offset (hs i) = obj_offset a + i \<and> obj_base (hs i) = obj_base (hs 0)"
    and sh: "ram_shape kl k k'" and at: "as_bytes kl os k' = bs'" "\<And>os'. os' \<noteq> os \<Longrightarrow> as_bytes kl os' k' = as_bytes kl os' k"
    and val: "\<And>j m. j < RAM_OBJECT_SIZE \<Longrightarrow> ev (bs' ! j) m =
       (if obj_offset a \<le> j \<and> j < obj_offset a + n then v m div 256 ^ (j - obj_offset a) mod 256 else ev (as_bytes kl os k ! j) m)"
  shows "holds_value kl ev k k' n hs v"
proof -
  have byte: "byte_val kl ev k' h m = (if obj_base h = obj_base (hs 0) then ev (bs' ! obj_offset h) m else byte_val kl ev k h m)" for h m
  proof (cases "obj_base h = obj_base (hs 0)")
    case True
    then show ?thesis using o sh at(1) by (simp add: byte_val_def ram_shape_def ram_object_at_def)
  next
    case False
    have "os' \<noteq> os" if "as_find kl (obj_base h) k = Some (mo', os')" for mo' os'
      using that o d False unfolding objects_distinct_def ram_object_at_def by blast
    with False sh show ?thesis by (auto simp: byte_val_def ram_shape_def at(2) split: option.splits)
  qed
  have "byte_val kl ev k' (hs i) m = v m div 256 ^ i mod 256" if "i < n" for i m
    using hs [OF that] val [of "obj_offset (hs i)" m] obj_offset_less [of "hs i"] that by (simp add: byte)
  moreover have "byte_val kl ev k' h m = byte_val kl ev k h m" if "h \<notin> hs ` {..<n}" for h m
  proof (cases "obj_base h = obj_base (hs 0)")
    case True
    have out: "\<not> (obj_offset a \<le> obj_offset h \<and> obj_offset h < obj_offset a + n)"
      using in_range [OF hs True] that by fastforce
    have "byte_val kl ev k h m = ev (as_bytes kl os k ! obj_offset h) m"
      using o True by (simp add: byte_val_def ram_object_at_def)
    with out True val [OF obj_offset_less [of h], of m] show ?thesis unfolding byte by (simp only: if_True if_False simp_thms)
  qed (simp add: byte)
  ultimately show ?thesis using sh by (simp add: holds_value_def)
qed

lemma os_write_values:
  assumes "object_laws kl ev" "e_width kl v = 8 * n" "off + n \<le> length bs" "j < length bs"
  shows "ev (os_write kl bs off v ! j) m =
    (if off \<le> j \<and> j < off + n then ev v m div 256 ^ (j - off) mod 256 else ev (bs ! j) m)"
proof -
  have "map (\<lambda>b. ev b m) (os_write kl bs off v) =
      map (\<lambda>b. ev b m) (take off bs) @ digits n (ev v m) @ map (\<lambda>b. ev b m) (drop (off + n) bs)"
    using assms(1-3) by (simp add: object_laws_def)
  then have "map (\<lambda>b. ev b m) (os_write kl bs off v) ! j =
      (map (\<lambda>b. ev b m) (take off bs) @ digits n (ev v m) @ map (\<lambda>b. ev b m) (drop (off + n) bs)) ! j" by simp
  moreover have "length (os_write kl bs off v) = length bs" using assms(1) by (simp add: object_laws_def)
  ultimately show ?thesis using assms(3,4) by (auto simp: nth_append digits_nth add.commute)
qed

lemma store_bytes_values:
  assumes sp: "space_laws kl" and cw: "\<And>c. e_width kl (e_const kl c 8) = 8"
  shows "off + length ds \<le> length (as_bytes kl os k) \<Longrightarrow>
    ram_shape kl k (store_bytes kl os off ds k) \<and>
    (\<forall>os'. os' \<noteq> os \<longrightarrow> as_bytes kl os' (store_bytes kl os off ds k) = as_bytes kl os' k) \<and>
    (\<forall>j<length (as_bytes kl os k). as_bytes kl os (store_bytes kl os off ds k) ! j =
      (if off \<le> j \<and> j < off + length ds then e_const kl (ucast (ds ! (j - off))) 8 else as_bytes kl os k ! j))"
proof (induction ds arbitrary: off k)
  case (Cons d ds)
  let ?k = "store_byte kl os off d k"
  have b: "as_bytes kl os' ?k = (if os' = os then (as_bytes kl os k)[off := e_const kl (ucast d) 8] else as_bytes kl os' k)" for os'
    using sp by (simp add: store_byte_def space_laws_def)
  have "bytes_ok kl (bs[off := e_const kl (ucast d) 8])" if "bytes_ok kl bs" for bs
    using that cw by (auto simp: bytes_ok_def dest!: set_update_subset_insert [THEN subsetD])
  then have sh: "ram_shape kl k ?k" using sp by (simp add: ram_shape_def store_byte_def space_laws_def)
  have "off + 1 + length ds \<le> length (as_bytes kl os ?k)" using Cons.prems b by simp
  note ih = Cons.IH [OF this]
  have "as_bytes kl os (store_bytes kl os off (d # ds) k) ! j =
      (if off \<le> j \<and> j < off + length (d # ds) then e_const kl (ucast ((d # ds) ! (j - off))) 8 else as_bytes kl os k ! j)"
    if "j < length (as_bytes kl os k)" for j
  proof -
    from ih that b have "as_bytes kl os (store_bytes kl os (off + 1) ds ?k) ! j =
      (if off + 1 \<le> j \<and> j < off + 1 + length ds then e_const kl (ucast (ds ! (j - (off + 1)))) 8
       else (as_bytes kl os k)[off := e_const kl (ucast d) 8] ! j)" by simp
    then show ?thesis using that by (cases "j = off") (auto simp: nth_Cons')
  qed
  with ih b ram_shape_trans [OF sh] show ?case by simp
qed auto

lemma le_bytes_digit:
  "i < n \<Longrightarrow> unat (take_bit 8 (ucast (le_bytes n v ! i) :: u64)) = unat v div 256 ^ i mod 256"
proof -
  assume i: "i < n"
  have "unat (le_bytes n v ! i) = unat (drop_bit (8 * i) v) mod 256"
    using i by (simp add: le_bytes_def unsigned_ucast_eq take_bit_eq_mod)
  also have "unat (drop_bit (8 * i) v) = unat v div 256 ^ i"
    by (simp only: unat_high_bits power_mult) simp
  finally have "unat (le_bytes n v ! i) = unat v div 256 ^ i mod 256" .
  moreover have "unat (take_bit 8 (ucast b :: u64)) = unat b" for b :: u8
    using unsigned_less [of b, where ?'a = nat] by (simp add: unsigned_take_bit_eq unsigned_ucast_eq take_bit_nat_eq_self)
  ultimately show ?thesis by simp
qed

lemma owned_object:
  "owned_range kl st n hs \<Longrightarrow> i < n \<Longrightarrow> ram_object_at kl (klee st) (hs i) mo os \<Longrightarrow> as_owned kl os (klee st)"
  by (auto simp: owned_range_def ram_object_at_def)

lemma buffer_write:
  assumes laws: "expr_laws kl ev" "space_laws kl" and q: "pages_ok q" and d: "objects_distinct kl (klee st)"
    and map: "mapped_range kl q st t a n hs" and own: "owned_range kl st n hs" and n: "0 < n" "n \<le> 8"
    and fit: "obj_offset a + n \<le> RAM_OBJECT_SIZE"
  shows "\<exists>k'. writeMemory_buf kl q a (le_bytes n c) (8 * n) t st = Inr (True, st\<lparr>klee := k'\<rparr>) \<and>
    holds_value kl ev (klee st) k' n hs (\<lambda>m. unat c)"
proof -
  from range_start [OF q map n(1) fit] obtain mo os where h:
    "getHostAddress q st a t = Inr (hs 0)" "hs 0 \<noteq> - 1" "ram_object_at kl (klee st) (hs 0) mo os"
    and hs: "\<And>i. i < n \<Longrightarrow> obj_offset (hs i) = obj_offset a + i \<and> obj_base (hs i) = obj_base (hs 0)" by metis
  let ?k' = "store_bytes kl os (obj_offset a) (le_bytes n c) (klee st)"
  have len: "length (le_bytes n c) = n" by (simp add: le_bytes_def)
  have run: "writeMemory_buf kl q a (le_bytes n c) (8 * n) t st = Inr (True, st\<lparr>klee := ?k'\<rparr>)"
    using fit h(1,2) len
    by (subst writeMemory_buf.simps)
       (simp add: Let_def ram_object_found [OF h(3)] getWriteable_owned [OF owned_object [OF own n(1) h(3)]])
  have size: "length (as_bytes kl os (klee st)) = RAM_OBJECT_SIZE" using object_length [OF h(3)] .
  have "obj_offset a + length (le_bytes n c) \<le> length (as_bytes kl os (klee st))" using fit len size by simp
  note st = store_bytes_values [OF laws(2) laws(1) [unfolded expr_laws_def, THEN conjunct2, THEN conjunct2, THEN conjunct2, THEN conjunct1, THEN spec] this]
  have "ev (as_bytes kl os ?k' ! j) m = (if obj_offset a \<le> j \<and> j < obj_offset a + n
      then unat c div 256 ^ (j - obj_offset a) mod 256 else ev (as_bytes kl os (klee st) ! j) m)"
    if "j < RAM_OBJECT_SIZE" for j m
  proof (cases "obj_offset a \<le> j \<and> j < obj_offset a + n")
    case True
    then have "as_bytes kl os ?k' ! j = e_const kl (ucast (le_bytes n c ! (j - obj_offset a))) 8"
      using st that size len by simp
    moreover have "j - obj_offset a < n" using True by arith
    ultimately show ?thesis using laws(1) le_bytes_digit [of "j - obj_offset a" n c] True
      by (simp add: expr_laws_def)
  next
    case False
    with st that size len show ?thesis by (simp only: if_False)
  qed
  then have "holds_value kl ev (klee st) ?k' n hs (\<lambda>m. unat c)"
    using st by (intro object_holds [OF laws(2) d h(3) hs]) auto
  with run show ?thesis by blast
qed

text \<open>Writing an expression into one object.\<close>

lemma object_write:
  assumes laws: "object_laws kl ev" "space_laws kl" and q: "pages_ok q" and d: "objects_distinct kl (klee st)"
    and map: "mapped_range kl q st t a n hs" and own: "owned_range kl st n hs" and n: "0 < n"
    and fit: "obj_offset a + n \<le> RAM_OBJECT_SIZE" and w: "e_width kl v = 8 * n"
  shows "\<exists>mo os k'. getHostAddress q st a t = Inr (hs 0) \<and> hs 0 \<noteq> - 1 \<and>
    ram_object (as_find kl (obj_base (hs 0)) (klee st)) = Inr (mo, os) \<and> getWriteable kl mo os st = Inr (os, st) \<and>
    k' = as_update kl os (os_write kl (as_bytes kl os (klee st)) (obj_offset (hs 0)) v) (klee st) \<and>
    holds_value kl ev (klee st) k' n hs (ev v)"
proof -
  from range_start [OF q map n fit] obtain mo os where h:
    "getHostAddress q st a t = Inr (hs 0)" "hs 0 \<noteq> - 1" "ram_object_at kl (klee st) (hs 0) mo os"
    "obj_offset (hs 0) = obj_offset a"
    and hs: "\<And>i. i < n \<Longrightarrow> obj_offset (hs i) = obj_offset a + i \<and> obj_base (hs i) = obj_base (hs 0)" by metis
  let ?bs = "os_write kl (as_bytes kl os (klee st)) (obj_offset (hs 0)) v"
  let ?k' = "as_update kl os ?bs (klee st)"
  have size: "length (as_bytes kl os (klee st)) = RAM_OBJECT_SIZE" using object_length [OF h(3)] .
  have len: "bytes_ok kl ?bs" using laws(1) size object_widths [OF h(3)] unfolding bytes_ok_def object_laws_def by metis
  have at: "as_bytes kl os' ?k' = (if os' = os then ?bs else as_bytes kl os' (klee st))" for os'
    using laws(2) by (simp add: space_laws_def)
  have val: "ev (?bs ! j) m = (if obj_offset a \<le> j \<and> j < obj_offset a + n
      then ev v m div 256 ^ (j - obj_offset a) mod 256 else ev (as_bytes kl os (klee st) ! j) m)"
    if "j < RAM_OBJECT_SIZE" for j m
    using os_write_values [OF laws(1) w, of "obj_offset a" "as_bytes kl os (klee st)" j m] fit size that h(4) by simp
  have "holds_value kl ev (klee st) ?k' n hs (ev v)"
    by (rule object_holds [OF laws(2) d h(3) hs object_update(1) [OF laws(2) d h(3) len] _ _ val]) (simp_all add: at)
  then show ?thesis using h(1,2) ram_object_found [OF h(3)] getWriteable_owned [OF owned_object [OF own n h(3)]] by blast
qed

lemma byte_write:
  assumes laws: "object_laws kl ev" "space_laws kl" and q: "pages_ok q" and d: "objects_distinct kl (klee st)"
    and map: "mapped_range kl q st t a 1 hs" and own: "owned_range kl st 1 hs" and w: "e_width kl v = 8"
  shows "\<exists>k'. writeMemory8_expr kl q a v t st = Inr (True, st\<lparr>klee := k'\<rparr>) \<and> holds_value kl ev (klee st) k' 1 hs (ev v)"
proof -
  have "obj_offset a + 1 \<le> RAM_OBJECT_SIZE" using obj_offset_less [of a] by simp
  from object_write [OF laws q d map own _ this, of v] w obtain mo os k' where
    "getHostAddress q st a t = Inr (hs 0)" "hs 0 \<noteq> - 1"
    "ram_object (as_find kl (obj_base (hs 0)) (klee st)) = Inr (mo, os)" "getWriteable kl mo os st = Inr (os, st)"
    "k' = as_update kl os (os_write kl (as_bytes kl os (klee st)) (obj_offset (hs 0)) v) (klee st)"
    "holds_value kl ev (klee st) k' 1 hs (ev v)" by auto
  then show ?thesis using w by (auto simp: writeMemory8_expr_def)
qed

text \<open>The byte-wise loop, from iteration \<open>i\<close>.\<close>

lemma write_bytes_values:
  assumes laws: "expr_laws kl ev" "object_laws kl ev" "space_laws kl" and q: "pages_ok q" "littleEndian q"
  shows "i \<le> n \<Longrightarrow> objects_distinct kl (klee st) \<Longrightarrow> mapped_range kl q st t a n hs \<Longrightarrow> owned_range kl st n hs \<Longrightarrow>
    \<exists>k'. write_bytes kl q a v t n i st = Inr (True, st\<lparr>klee := k'\<rparr>) \<and> ram_shape kl (klee st) k' \<and>
      (\<forall>j m. i \<le> j \<and> j < n \<longrightarrow> byte_val kl ev k' (hs j) m = ev v m div 256 ^ j mod 256) \<and>
      (\<forall>h m. h \<notin> hs ` {i..<n} \<longrightarrow> byte_val kl ev k' h m = byte_val kl ev (klee st) h m)"
proof (induction "n - i" arbitrary: i st)
  case 0
  then show ?case by (subst write_bytes.simps) (auto intro!: exI [of _ "klee st"])
next
  case (Suc d)
  then have i: "i < n" by simp
  let ?hs = "\<lambda>_. hs i" and ?e = "e_extract kl v (8 * i) 8"
  have one: "mapped_range kl q st t (a + of_nat i) 1 ?hs" "owned_range kl st 1 ?hs" "e_width kl ?e = 8"
    using Suc.prems(3,4) i laws(1) by (auto simp: mapped_range_def owned_range_def expr_laws_def inj_on_def)
  from byte_write [OF laws(2,3) q(1) Suc.prems(2) one] obtain k1 where
    k1: "writeMemory8_expr kl q (a + of_nat i) ?e t st = Inr (True, st\<lparr>klee := k1\<rparr>)"
      "holds_value kl ev (klee st) k1 1 ?hs (ev ?e)" by blast
  have sh: "ram_shape kl (klee st) k1" using k1(2) by (simp add: holds_value_def)
  have b1: "byte_val kl ev k1 (hs i) m = ev v m div 256 ^ i mod 256" for m
    using k1(2) laws(1) by (simp add: holds_value_def expr_laws_def)
  have o1: "byte_val kl ev k1 h m = byte_val kl ev (klee st) h m" if "h \<noteq> hs i" for h m
    using k1(2) that unfolding holds_value_def by (metis image_iff)
  let ?st = "st\<lparr>klee := k1\<rparr>"
  have "d = n - (i + 1)" "i + 1 \<le> n" "objects_distinct kl (klee ?st)" "mapped_range kl q ?st t a n hs" "owned_range kl ?st n hs"
    using Suc.hyps(2) i shape_distinct [OF sh] shape_range [OF sh] Suc.prems by simp_all
  from Suc.hyps(1) [OF this] obtain k' where
    k': "write_bytes kl q a v t n (i + 1) ?st = Inr (True, ?st\<lparr>klee := k'\<rparr>)" "ram_shape kl k1 k'"
      "\<And>j m. i + 1 \<le> j \<Longrightarrow> j < n \<Longrightarrow> byte_val kl ev k' (hs j) m = ev v m div 256 ^ j mod 256"
      "\<And>h m. h \<notin> hs ` {i + 1..<n} \<Longrightarrow> byte_val kl ev k' h m = byte_val kl ev k1 h m" by auto
  have run: "write_bytes kl q a v t n i st = Inr (True, st\<lparr>klee := k'\<rparr>)"
    using i q(2) k1(1) k'(1) by (subst write_bytes.simps) (simp add: Let_def)
  have inj: "inj_on hs {..<n}" using Suc.prems(4) by (simp add: owned_range_def)
  have "hs i \<notin> hs ` {i + 1..<n}" using inj_onD [OF inj] i by fastforce
  then have "byte_val kl ev k' (hs j) m = ev v m div 256 ^ j mod 256" if "i \<le> j" "j < n" for j m
    using k'(3) k'(4) b1 that by (cases "j = i") auto
  moreover have "byte_val kl ev k' h m = byte_val kl ev (klee st) h m" if "h \<notin> hs ` {i..<n}" for h m
  proof -
    have "h \<noteq> hs i" "h \<notin> hs ` {i + 1..<n}" using that i by auto
    then show ?thesis using k'(4) o1 by simp
  qed
  ultimately show ?case using run ram_shape_trans [OF sh k'(2)] by blast
qed

lemma writeMemory_symbolic:
  assumes "\<not> (e_value kl v \<noteq> None \<and> e_width kl v \<le> 64)" "e_width kl v \<noteq> 1" "e_width kl v mod 8 = 0"
  shows "writeMemory kl q a v t st =
    (if obj_offset a + e_width kl v div 8 \<le> RAM_OBJECT_SIZE then
       rbind (getHostAddress q st a t) (\<lambda>h.
         if h = - 1 then Inr (False, st)
         else rbind (ram_object (as_find kl (obj_base h) (klee st))) (\<lambda>(mo, os).
           rbind (getWriteable kl mo os st) (\<lambda>(wos, st').
             Inr (True, st'\<lparr>klee := as_update kl wos (os_write kl (as_bytes kl wos (klee st')) (obj_offset h) v) (klee st')\<rparr>))))
     else write_bytes kl q a v t (e_width kl v div 8) 0 st)"
  using assms unfolding writeMemory_def Let_def by (simp only: if_False assert_that_simps rbind_simps simp_thms)

lemma writeMemory_holds:
  assumes laws: "expr_laws kl ev" "object_laws kl ev" "space_laws kl" and q: "pages_ok q" "littleEndian q"
    and d: "objects_distinct kl (klee st)" and map: "mapped_range kl q st t a n hs" and own: "owned_range kl st n hs"
    and n: "0 < n" and w: "e_width kl v = 8 * n"
    and const: "e_value kl v \<noteq> None \<Longrightarrow> obj_offset a + n \<le> RAM_OBJECT_SIZE \<and> n \<in> {1, 2, 4, 8} \<or> 8 < n"
  shows "\<exists>k'. writeMemory kl q a v t st = Inr (True, st\<lparr>klee := k'\<rparr>) \<and> holds_value kl ev (klee st) k' n hs (ev v)"
proof (cases "e_value kl v \<noteq> None \<and> 8 * n \<le> 64")
  case True
  then obtain c where c: "e_value kl v = Some c" by auto
  have fit: "obj_offset a + n \<le> RAM_OBJECT_SIZE" "n = 1 \<or> n = 2 \<or> n = 4 \<or> n = 8" "n \<le> 8"
    using True const by auto
  have ev: "ev v = (\<lambda>m. unat c)" using laws(1) c by (auto simp: expr_laws_def)
  from buffer_write [OF laws(1,3) q(1) d map own n fit(3,1), of c] obtain k' where
    k': "writeMemory_buf kl q a (le_bytes n c) (8 * n) t st = Inr (True, st\<lparr>klee := k'\<rparr>)"
      "holds_value kl ev (klee st) k' n hs (ev v)" unfolding ev by blast
  have "writeMemory kl q a v t st = writeMemory_buf kl q a (le_bytes n c) (8 * n) t st"
    using c w fit(2) by (auto simp: writeMemory_def Let_def writeMemory8_def writeMemory16_def writeMemory32_def writeMemory64_def)
  with k' show ?thesis by auto
next
  case False
  then have nc: "\<not> (e_value kl v \<noteq> None \<and> e_width kl v \<le> 64)" "e_width kl v \<noteq> 1" "e_width kl v mod 8 = 0"
    "e_width kl v div 8 = n" using w by auto
  show ?thesis
  proof (cases "obj_offset a + n \<le> RAM_OBJECT_SIZE")
    case True
    from object_write [OF laws(2,3) q(1) d map own n True w] obtain mo os k' where
      "getHostAddress q st a t = Inr (hs 0)" "hs 0 \<noteq> - 1"
      "ram_object (as_find kl (obj_base (hs 0)) (klee st)) = Inr (mo, os)" "getWriteable kl mo os st = Inr (os, st)"
      "k' = as_update kl os (os_write kl (as_bytes kl os (klee st)) (obj_offset (hs 0)) v) (klee st)"
      "holds_value kl ev (klee st) k' n hs (ev v)" by blast
    then show ?thesis using True unfolding writeMemory_symbolic [OF nc(1-3)] nc(4) by auto
  next
    case cross: False
    from write_bytes_values [OF laws q le0 d map own, of v] obtain k' where
      "write_bytes kl q a v t n 0 st = Inr (True, st\<lparr>klee := k'\<rparr>)" "ram_shape kl (klee st) k'"
      "\<And>j m. j < n \<Longrightarrow> byte_val kl ev k' (hs j) m = ev v m div 256 ^ j mod 256"
      "\<And>h m. h \<notin> hs ` {0..<n} \<Longrightarrow> byte_val kl ev k' h m = byte_val kl ev (klee st) h m" by auto
    then show ?thesis using cross unfolding writeMemory_symbolic [OF nc(1-3)] nc(4)
      by (auto simp: holds_value_def lessThan_atLeast0)
  qed
qed


section \<open>A memory of two objects\<close>

text \<open>A small expression language and an address space with two neighbouring RAM objects that satisfy
  the laws; the guest page is mapped to the host page of the objects.\<close>

datatype sx = Num nat nat | Var nat nat | Cat sx sx | Ext sx nat nat | Bytes "sx list" nat
  | Shr sx nat | Shl sx nat | Disj sx sx | Both sx sx

fun sx_width :: "sx \<Rightarrow> nat" where
  "sx_width (Num c w) = w"
| "sx_width (Var x w) = w"
| "sx_width (Cat a b) = sx_width a + sx_width b"
| "sx_width (Ext e off w) = w"
| "sx_width (Bytes bs w) = w"
| "sx_width (Shr e s) = sx_width e"
| "sx_width (Shl e s) = sx_width e"
| "sx_width (Disj a b) = sx_width a"
| "sx_width (Both a b) = sx_width a"

fun sx_eval :: "sx \<Rightarrow> (nat \<Rightarrow> nat) \<Rightarrow> nat" where
  "sx_eval (Num c w) m = c mod 2 ^ w"
| "sx_eval (Var x w) m = m x mod 2 ^ w"
| "sx_eval (Cat a b) m = sx_eval a m * 2 ^ sx_width b + sx_eval b m"
| "sx_eval (Ext e off w) m = sx_eval e m div 2 ^ off mod 2 ^ w"
| "sx_eval (Bytes bs w) m = le_value (map (\<lambda>b. sx_eval b m) bs) mod 2 ^ w"
| "sx_eval (Shr e s) m = sx_eval e m div 2 ^ s"
| "sx_eval (Shl e s) m = sx_eval e m * 2 ^ s mod 2 ^ sx_width e"
| "sx_eval (Disj a b) m = (sx_eval a m OR sx_eval b m) mod 2 ^ sx_width a"
| "sx_eval (Both a b) m = (sx_eval a m AND sx_eval b m) mod 2 ^ sx_width a"

fun sx_value :: "sx \<Rightarrow> u64 option" where
  "sx_value (Num c w) = (if w \<le> 64 then Some (of_nat (c mod 2 ^ w)) else None)"
| "sx_value _ = None"

definition sx_write :: "sx list \<Rightarrow> nat \<Rightarrow> sx \<Rightarrow> sx list" where
  "sx_write bs off v = (let n = sx_width v div 8 in
     if off + n \<le> length bs then take off bs @ map (\<lambda>i. Ext v (8 * i) 8) [0..<n] @ drop (off + n) bs else bs)"

definition two_objects :: "u64 \<Rightarrow> (mem_object \<times> nat) option" where
  "two_objects a = (if a = 0x10000 \<or> a = 0x10080
     then Some (\<lparr>mo_address = a, mo_size = 128, isUserSpecified = True, isSharedConcrete = False\<rparr>,
       if a = 0x10000 then 0 else 1) else None)"

definition sx_ops :: "(sx, nat, nat \<Rightarrow> sx list) klee_ops" where
  "sx_ops = \<lparr>e_width = sx_width, e_value = sx_value, e_const = (\<lambda>c w. Num (unat c) w), e_concat = Cat,
     e_extract = Ext, e_zext = (\<lambda>e w. Cat (Num 0 (w - sx_width e)) e),
     os_read = (\<lambda>bs off w. Bytes (take (w div 8) (drop off bs)) w), os_write = sx_write,
     as_find = (\<lambda>a k. two_objects a), as_owned = (\<lambda>os k. True), as_copy = (\<lambda>mo os k. (os, k)),
     as_bytes = (\<lambda>os k. k os), as_update = (\<lambda>os bs k. k(os := bs)),
     to_constant = (\<lambda>e k. (of_nat (sx_eval e (\<lambda>_. 0)), k)), to_example = (\<lambda>e k. of_nat (sx_eval e (\<lambda>_. 0)))\<rparr>"

lemma sx_eval_less: "sx_eval e m < 2 ^ sx_width e"
proof (induction e)
  case (Cat a b)
  have "sx_eval a m * 2 ^ sx_width b + sx_eval b m < (sx_eval a m + 1) * 2 ^ sx_width b" using Cat.IH(2) by simp
  also have "\<dots> \<le> 2 ^ sx_width a * 2 ^ sx_width b" using Cat.IH(1) by (intro mult_right_mono) auto
  finally show ?case by (simp add: power_add)
next
  case (Shr e s)
  then show ?case using div_le_dividend [of "sx_eval e m" "2 ^ s"] by (simp del: div_le_dividend)
qed auto

lemma sx_value_eval: "sx_value e = Some c \<Longrightarrow> sx_eval e m = unat c"
proof (induction e)
  case (Num x w)
  then have w: "w \<le> 64" and c: "c = of_nat (x mod 2 ^ w)" by (auto split: if_splits)
  have "x mod 2 ^ w < 2 ^ w" by simp
  also have "\<dots> \<le> 2 ^ 64" using power_increasing [OF w, of "2 :: nat"] by simp
  finally show ?case unfolding c by (simp add: unat_of_nat)
qed auto

lemma sx_expr_laws: "expr_laws sx_ops sx_eval"
proof -
  have "sx_eval (Num (unat c) 8) m = unat (take_bit 8 c)" for c :: u64 and m
    by (simp only: sx_eval.simps unsigned_take_bit_eq take_bit_eq_mod [of 8 "unat c"])
  moreover have "(256 :: nat) ^ i = 2 ^ (8 * i)" for i by (simp add: power_mult)
  ultimately show ?thesis
    by (simp add: expr_laws_def sx_ops_def sx_eval_less sx_value_eval)
qed

lemma sx_object_laws: "object_laws sx_ops sx_eval"
proof -
  have lt: "sx_eval b m < 256" if "sx_width b = 8" for b m using sx_eval_less [of b m] that by simp
  have le: "\<forall>x\<in>set xs. x < 256 \<Longrightarrow> le_value xs < 256 ^ length xs" for xs
    by (induction xs) (auto simp: algebra_simps)
  have "sx_eval (Bytes (take n (drop off bs)) (8 * n)) m = le_value (map (\<lambda>b. sx_eval b m) (take n (drop off bs)))"
    if "off + n \<le> length bs" "\<forall>b\<in>set bs. sx_width b = 8" for bs off n m
  proof -
    have "length (map (\<lambda>b. sx_eval b m) (take n (drop off bs))) = n" using that(1) by simp
    moreover have "\<forall>x\<in>set (map (\<lambda>b. sx_eval b m) (take n (drop off bs))). x < 256"
      using that(2) lt by (auto dest!: in_set_takeD in_set_dropD)
    ultimately have "le_value (map (\<lambda>b. sx_eval b m) (take n (drop off bs))) < 256 ^ n" using le by metis
    then show ?thesis by (simp add: power_mult)
  qed
  moreover have "map (\<lambda>b. sx_eval b m) (sx_write bs off v) =
      map (\<lambda>b. sx_eval b m) (take off bs) @ digits n (sx_eval v m) @ map (\<lambda>b. sx_eval b m) (drop (off + n) bs)"
    if "sx_width v = 8 * n" "off + n \<le> length bs" for bs off v n m
    using that by (simp add: sx_write_def digits_def power_mult)
  moreover have "length (sx_write bs off v) = length bs" for bs off v
    by (auto simp: sx_write_def Let_def)
  moreover have "\<forall>b\<in>set (sx_write bs off v). sx_width b = 8" if "\<forall>b\<in>set bs. sx_width b = 8" for bs off v
    using that by (auto simp: sx_write_def Let_def dest: in_set_takeD in_set_dropD)
  ultimately show ?thesis by (simp add: object_laws_def sx_ops_def)
qed

lemma sx_space_laws: "space_laws sx_ops"
  by (simp add: space_laws_def sx_ops_def)

definition one_page :: qemu_ops where
  "one_page = \<lparr>page_bits = 12, phys_page = (\<lambda>v. v), host_page = (\<lambda>p. 0x10000), littleEndian = True\<rparr>"

definition zero_ram :: "(nat, nat \<Rightarrow> sx list) ram_state" where
  "zero_ram = \<lparr>m_active = True, m_runningConcrete = False, m_memcache = [], klee = (\<lambda>_. replicate 128 (Num 0 8))\<rparr>"

definition host_of :: "nat \<Rightarrow> u64" where
  "host_of i = 0x1007E + of_nat i"

lemma one_page_ok: "pages_ok one_page"
  by (simp add: pages_ok_def one_page_def RAM_OBJECT_BITS_def mask_numeral)

lemma zero_ram_coherent: "cache_coherent sx_ops zero_ram"
  by (simp add: cache_coherent_def zero_ram_def pool_inv_def regions_aligned_def)

lemma two_objects_distinct: "objects_distinct sx_ops (klee zero_ram)"
  by (auto simp: objects_distinct_def sx_ops_def two_objects_def split: if_splits)

lemma zero_ram_mapped: "mapped_range sx_ops one_page zero_ram PhysicalAddress 0x7E 4 host_of"
proof -
  have "\<exists>mo os. ram_object_at sx_ops (klee zero_ram) (host_of i) mo os" if "i < 4" for i
  proof -
    have "i = 0 \<or> i = 1 \<or> i = 2 \<or> i = 3" using that by auto
    then have "obj_base (host_of i) = 0x10000 \<or> obj_base (host_of i) = 0x10080"
      by (elim disjE) (simp_all add: obj_base_def host_of_def RAM_OBJECT_BITS_def mask_numeral)
    then show ?thesis
      by (elim disjE) (simp_all add: ram_object_at_def sx_ops_def two_objects_def bytes_ok_def zero_ram_def RAM_OBJECT_SIZE_128)
  qed
  moreover have "getHostAddress one_page zero_ram (0x7E + of_nat i) PhysicalAddress = Inr (host_of i) \<and> host_of i \<noteq> - 1"
    if "i < 4" for i
  proof -
    have "i = 0 \<or> i = 1 \<or> i = 2 \<or> i = 3" using that by auto
    then show ?thesis by (elim disjE) (simp_all add: getHostAddress_def one_page_def host_of_def mask_numeral)
  qed
  ultimately show ?thesis by (simp add: mapped_range_def)
qed

lemma zero_ram_owned: "owned_range sx_ops zero_ram 4 host_of"
proof -
  have "inj_on host_of {..<4}"
  proof -
    have "{..<4 :: nat} = {0, 1, 2, 3}" by auto
    then show ?thesis by (simp add: host_of_def)
  qed
  then show ?thesis by (simp add: owned_range_def sx_ops_def)
qed

theorem readMemory_value_witness:
  "\<exists>e st'. readMemory sx_ops one_page 0x7E (8 * 4) PhysicalAddress zero_ram = Inr (Some e, st') \<and>
    (\<forall>m. sx_eval e m = range_value sx_ops sx_eval (klee zero_ram) 4 host_of m) \<and> klee st' = klee zero_ram \<and>
    cache_coherent sx_ops st'"
  by (rule readMemory_value [OF sx_expr_laws sx_object_laws one_page_ok _ zero_ram_mapped _ zero_ram_coherent])
     (simp_all add: one_page_def)


section \<open>Concrete writes across objects\<close>

text \<open>A concrete value of two, four or eight bytes that crosses the end of a RAM object is never
  written: the write stops at a failing assertion, because the number of bytes in the first object
  is taken for a width.\<close>

theorem crossing_write_asserts:
  assumes "e_value kl v = Some c" "e_width kl v \<in> {16, 32, 64}"
    and "obj_offset a + e_width kl v div 8 > RAM_OBJECT_SIZE"
  shows "writeMemory kl q a v t st = Inl Assertion_Failed"
proof -
  let ?n = "e_width kl v div 8"
  have size1: "0 < RAM_OBJECT_SIZE - obj_offset a" "RAM_OBJECT_SIZE - obj_offset a < ?n"
    using assms(3) obj_offset_less [of a] by auto
  have "writeMemory_buf kl q a buf (e_width kl v) t st = Inl Assertion_Failed" for buf
  proof -
    have "RAM_OBJECT_SIZE - obj_offset a < 8" using size1 assms(2) by auto
    then have "(RAM_OBJECT_SIZE - obj_offset a) mod 8 \<noteq> 0" using size1(1) by simp
    then have "writeMemory_buf kl q a buf (RAM_OBJECT_SIZE - obj_offset a) t st = Inl Assertion_Failed"
      by (subst writeMemory_buf.simps) simp
    then show ?thesis using assms(2,3)
      by (subst writeMemory_buf.simps) (auto simp: Let_def)
  qed
  then show ?thesis using assms(1,2)
    by (auto simp: writeMemory_def Let_def writeMemory16_def writeMemory32_def writeMemory64_def)
qed

theorem crossing_write_asserts_witness:
  "writeMemory sx_ops one_page 0x7E (Num 5 32) PhysicalAddress zero_ram = Inl Assertion_Failed"
  by (rule crossing_write_asserts [where c = 5])
     (simp_all add: sx_ops_def obj_offset_def RAM_OBJECT_SIZE_128 RAM_OBJECT_BITS_def mask_numeral)

end
