(* ===== verification/Ram_Access.thy ===== *)
theory Ram_Access
  imports Memory_Round_Trip
begin

text \<open>
  Concrete accesses to guest RAM by host address (\<open>S2EExecutionState.cpp\<close>): the routines QEMU calls
  while it executes concretely, the DMA routines, and the dirty mask. An access is cut at the
  borders of RAM objects.
\<close>

section \<open>Operations\<close>

text \<open>\<open>ObjectState::readConcrete8\<close>: the byte if it is concrete.\<close>

definition readConcrete8 :: "('e, 'o, 'k) klee_ops \<Rightarrow> 'o \<Rightarrow> nat \<Rightarrow> 'k \<Rightarrow> u8 option" where
  "readConcrete8 kl os off k = map_option ucast (e_value kl (as_bytes kl os k ! off))"

definition checked_object ::
  "('e, 'o, 'k) klee_ops \<Rightarrow> u64 \<Rightarrow> ('o, 'k) ram_state \<Rightarrow> (mem_object \<times> 'o \<times> ('o, 'k) ram_state) res" where
  "checked_object kl page st =
     rbind (cached_object kl page st) (\<lambda>(op, st'). case op of
         None \<Rightarrow> Inl Assertion_Failed
       | Some (mo, os) \<Rightarrow>
           rbind (assert_that (isUserSpecified mo \<and> mo_address mo = page \<and> mo_size mo = RAM_OBJECT_SIZE)) (\<lambda>_.
             Inr (mo, os, st')))"

text \<open>The check of \<open>readRamConcreteCheck\<close>: a symbolic byte makes the state switch to symbolic
  execution, which ends in a failing assertion in this version.\<close>

fun check_bytes :: "('e, 'o, 'k) klee_ops \<Rightarrow> 'o \<Rightarrow> nat \<Rightarrow> nat \<Rightarrow> 'k \<Rightarrow> u8 list res" where
  "check_bytes kl os off 0 k = Inr []"
| "check_bytes kl os off (Suc n) k = (case readConcrete8 kl os off k of
      None \<Rightarrow> Inl Assertion_Failed
    | Some b \<Rightarrow> rbind (check_bytes kl os (off + 1) n k) (\<lambda>bs. Inr (b # bs)))"

function readRamConcreteCheck ::
  "('e, 'o, 'k) klee_ops \<Rightarrow> u64 \<Rightarrow> nat \<Rightarrow> ('o, 'k) ram_state \<Rightarrow> (u8 list \<times> ('o, 'k) ram_state) res" where
  "readRamConcreteCheck kl h n st =
     rbind (assert_that (m_active st \<and> m_runningConcrete st)) (\<lambda>_.
       if obj_offset h + n \<le> RAM_OBJECT_SIZE then
         rbind (checked_object kl (obj_base h) st) (\<lambda>(mo, os, st').
           rbind (check_bytes kl os (obj_offset h) n (klee st')) (\<lambda>bs. Inr (bs, st')))
       else let size1 = RAM_OBJECT_SIZE - obj_offset h in
         rbind (readRamConcreteCheck kl h size1 st) (\<lambda>(bs1, st1).
         rbind (readRamConcreteCheck kl (h + of_nat size1) (n - size1) st1) (\<lambda>(bs2, st2).
           Inr (bs1 @ bs2, st2))))"
  by pat_completeness auto
termination
proof (relation "measure (\<lambda>(kl, h, n, st). n)", goal_cases)
  case (2 kl h n st) then show ?case using obj_offset_less [of h] by simp
next
  case (3 kl h n st) then show ?case using obj_offset_less [of h] by simp
qed simp

text \<open>\<open>readRamConcrete\<close> makes symbolic bytes concrete; the object is made writable at the first one.\<close>

fun concretize_bytes ::
  "('e, 'o, 'k) klee_ops \<Rightarrow> mem_object \<Rightarrow> 'o \<Rightarrow> bool \<Rightarrow> nat \<Rightarrow> nat \<Rightarrow> ('o, 'k) ram_state \<Rightarrow>
   (u8 list \<times> ('o, 'k) ram_state) res" where
  "concretize_bytes kl mo os writeable off 0 st = Inr ([], st)"
| "concretize_bytes kl mo os writeable off (Suc n) st = (case readConcrete8 kl os off (klee st) of
      Some b \<Rightarrow> rbind (concretize_bytes kl mo os writeable (off + 1) n st) (\<lambda>(bs, st'). Inr (b # bs, st'))
    | None \<Rightarrow>
        rbind (if writeable then Inr (os, st) else getWriteable kl mo os st) (\<lambda>(wos, st1).
          case to_constant kl (as_bytes kl wos (klee st1) ! off) (klee st1) of (c, k1) \<Rightarrow>
            let b = ucast c in
            rbind (concretize_bytes kl mo wos True (off + 1) n (st1\<lparr>klee := store_byte kl wos off b k1\<rparr>)) (\<lambda>(bs, st').
              Inr (b # bs, st'))))"

function readRamConcrete ::
  "('e, 'o, 'k) klee_ops \<Rightarrow> u64 \<Rightarrow> nat \<Rightarrow> ('o, 'k) ram_state \<Rightarrow> (u8 list \<times> ('o, 'k) ram_state) res" where
  "readRamConcrete kl h n st =
     rbind (assert_that (m_active st)) (\<lambda>_.
       if obj_offset h + n \<le> RAM_OBJECT_SIZE then
         rbind (checked_object kl (obj_base h) st) (\<lambda>(mo, os, st').
           concretize_bytes kl mo os False (obj_offset h) n st')
       else let size1 = RAM_OBJECT_SIZE - obj_offset h in
         rbind (readRamConcrete kl h size1 st) (\<lambda>(bs1, st1).
         rbind (readRamConcrete kl (h + of_nat size1) (n - size1) st1) (\<lambda>(bs2, st2).
           Inr (bs1 @ bs2, st2))))"
  by pat_completeness auto
termination
proof (relation "measure (\<lambda>(kl, h, n, st). n)", goal_cases)
  case (2 kl h n st) then show ?case using obj_offset_less [of h] by simp
next
  case (3 kl h n st) then show ?case using obj_offset_less [of h] by simp
qed simp

function writeRamConcrete ::
  "('e, 'o, 'k) klee_ops \<Rightarrow> u64 \<Rightarrow> u8 list \<Rightarrow> ('o, 'k) ram_state \<Rightarrow> ('o, 'k) ram_state res" where
  "writeRamConcrete kl h buf st =
     rbind (assert_that (m_active st)) (\<lambda>_.
       if obj_offset h + length buf \<le> RAM_OBJECT_SIZE then
         rbind (checked_object kl (obj_base h) st) (\<lambda>(mo, os, st').
           rbind (getWriteable kl mo os st') (\<lambda>(wos, st'').
             Inr (st''\<lparr>klee := store_bytes kl wos (obj_offset h) buf (klee st'')\<rparr>)))
       else let size1 = RAM_OBJECT_SIZE - obj_offset h in
         rbind (writeRamConcrete kl h (take size1 buf) st) (\<lambda>st1.
           writeRamConcrete kl (h + of_nat size1) (drop size1 buf) st1))"
  by pat_completeness auto
termination
proof (relation "measure (\<lambda>(kl, h, buf, st). length buf)", goal_cases)
  case (2 kl h buf st) then show ?case using obj_offset_less [of h] by simp
next
  case (3 kl h buf st) then show ?case using obj_offset_less [of h] by simp
qed simp

declare readRamConcreteCheck.simps [simp del] readRamConcrete.simps [simp del] writeRamConcrete.simps [simp del]

subsection \<open>DMA\<close>

text \<open>
  Shared-concrete objects live in host memory, \<open>shared\<close>; for all others the first byte ends in a
  failing assertion in this version.
\<close>

definition dma_object ::
  "('e, 'o, 'k) klee_ops \<Rightarrow> u64 \<Rightarrow> ('o, 'k) ram_state \<Rightarrow> (mem_object \<times> 'o \<times> ('o, 'k) ram_state) res" where
  "dma_object kl h st =
     rbind (pool_get None (obj_base h) (m_memcache st)) (\<lambda>op.
     rbind (if op \<noteq> None then Inr (op, st)
       else let found = as_find kl (obj_base h) (klee st) in
         rbind (pool_put None h found (m_memcache st)) (\<lambda>cache. Inr (found, st\<lparr>m_memcache := cache\<rparr>))) (\<lambda>(op, st').
       case op of
         None \<Rightarrow> Inl Assertion_Failed
       | Some (mo, os) \<Rightarrow> rbind (assert_that (mo_address mo = obj_base h)) (\<lambda>_. Inr (mo, os, st'))))"

text \<open>The length of the first piece of an access.\<close>

definition dma_length :: "u64 \<Rightarrow> nat \<Rightarrow> nat" where
  "dma_length h n = min (RAM_OBJECT_SIZE - obj_offset h) n"

lemma dma_length_less: "0 < n \<Longrightarrow> n - dma_length h n < n"
  using obj_offset_less [of h] by (simp add: dma_length_def)

function dmaRead ::
  "('e, 'o, 'k) klee_ops \<Rightarrow> (u64 \<Rightarrow> u8) \<Rightarrow> u64 \<Rightarrow> nat \<Rightarrow> ('o, 'k) ram_state \<Rightarrow> (u8 list \<times> ('o, 'k) ram_state) res" where
  "dmaRead kl shared h n st =
     (if n = 0 then Inr ([], st)
      else rbind (dma_object kl h st) (\<lambda>(mo, os, st1).
        if \<not> isSharedConcrete mo then Inl Assertion_Failed
        else let len = dma_length h n in
          rbind (dmaRead kl shared (h + of_nat len) (n - len) st1) (\<lambda>(bs, st2).
            Inr (map (\<lambda>i. shared (mo_address mo + of_nat (obj_offset h + i))) [0..<len] @ bs, st2))))"
  by pat_completeness auto
termination by (relation "measure (\<lambda>(kl, sh, h, n, st). n)") (simp_all add: dma_length_less)

definition copy_bytes :: "u64 \<Rightarrow> u8 list \<Rightarrow> (u64 \<Rightarrow> u8) \<Rightarrow> u64 \<Rightarrow> u8" where
  "copy_bytes a bs mem = (\<lambda>x. if unat (x - a) < length bs then bs ! unat (x - a) else mem x)"

function dmaWrite ::
  "('e, 'o, 'k) klee_ops \<Rightarrow> u64 \<Rightarrow> u8 list \<Rightarrow> (u64 \<Rightarrow> u8) \<times> ('o, 'k) ram_state \<Rightarrow>
   ((u64 \<Rightarrow> u8) \<times> ('o, 'k) ram_state) res" where
  "dmaWrite kl h buf (shared, st) =
     (if buf = [] then Inr (shared, st)
      else rbind (dma_object kl h st) (\<lambda>(mo, os, st1).
        rbind (getWriteable kl mo os st1) (\<lambda>(wos, st2).
          if \<not> isSharedConcrete mo then Inl Assertion_Failed
          else let len = dma_length h (length buf) in
            dmaWrite kl (h + of_nat len) (drop len buf)
              (copy_bytes (mo_address mo + of_nat (obj_offset h)) (take len buf) shared, st2))))"
  by pat_completeness auto
termination by (relation "measure (\<lambda>(kl, h, buf, st). length buf)") (simp_all add: dma_length_less)

declare dmaRead.simps [simp del] dmaWrite.simps [simp del]

subsection \<open>Dirty mask\<close>

text \<open>A read of a symbolic byte leaves the initial 0.\<close>

definition readDirtyMask :: "('e, 'o, 'k) klee_ops \<Rightarrow> mem_object \<Rightarrow> 'o \<Rightarrow> u64 \<Rightarrow> ('o, 'k) ram_state \<Rightarrow> u8" where
  "readDirtyMask kl mask_mo mask_os h st =
     (case readConcrete8 kl mask_os (unat (h - mo_address mask_mo)) (klee st) of None \<Rightarrow> 0 | Some v \<Rightarrow> v)"

definition writeDirtyMask ::
  "('e, 'o, 'k) klee_ops \<Rightarrow> mem_object \<Rightarrow> 'o \<Rightarrow> u64 \<Rightarrow> u8 \<Rightarrow> ('o, 'k) ram_state \<Rightarrow> ('o, 'k) ram_state" where
  "writeDirtyMask kl mask_mo mask_os h v st =
     st\<lparr>klee := store_byte kl mask_os (unat (h - mo_address mask_mo)) v (klee st)\<rparr>"

subsection \<open>The functions QEMU calls\<close>

definition s2e_read_ram_concrete_check ::
  "('e, 'o, 'k) klee_ops \<Rightarrow> bool \<Rightarrow> u64 \<Rightarrow> nat \<Rightarrow> ('o, 'k) ram_state \<Rightarrow> (u8 list \<times> ('o, 'k) ram_state) res" where
  "s2e_read_ram_concrete_check kl symbexEnabled h n st =
     rbind (assert_that (m_runningConcrete st)) (\<lambda>_.
       if symbexEnabled then readRamConcreteCheck kl h n st else readRamConcrete kl h n st)"

definition s2e_read_ram_concrete where "s2e_read_ram_concrete kl h n st = readRamConcrete kl h n st"
definition s2e_write_ram_concrete where "s2e_write_ram_concrete kl h buf st = writeRamConcrete kl h buf st"
definition s2e_is_ram_registered where "s2e_is_ram_registered kl q h st = isRamRegistered kl q h st"
definition s2e_is_ram_shared_concrete where "s2e_is_ram_shared_concrete kl q h st = isRamSharedConcrete kl q h st"
definition s2e_read_dirty_mask where "s2e_read_dirty_mask kl mo os h st = readDirtyMask kl mo os h st"
definition s2e_write_dirty_mask where "s2e_write_dirty_mask kl mo os h v st = writeDirtyMask kl mo os h v st"


section \<open>Bytes by host address\<close>

definition ram_byte :: "('e, 'o, 'k) klee_ops \<Rightarrow> 'k \<Rightarrow> u64 \<Rightarrow> 'e option" where
  "ram_byte kl k x = (case as_find kl (obj_base x) k of
     None \<Rightarrow> None | Some (mo, os) \<Rightarrow> Some (as_bytes kl os k ! obj_offset x))"

text \<open>A range of host addresses that lies in RAM objects of this state alone.\<close>

definition host_range :: "('e, 'o, 'k) klee_ops \<Rightarrow> 'k \<Rightarrow> u64 \<Rightarrow> nat \<Rightarrow> bool" where
  "host_range kl k h n \<longleftrightarrow> n < 2 ^ 64 \<and> (\<forall>i<n. \<exists>mo os. ram_object_at kl k (h + of_nat i) mo os \<and>
     mo_address mo = obj_base (h + of_nat i) \<and> as_owned kl os k)"

definition in_span :: "u64 \<Rightarrow> nat \<Rightarrow> u64 \<Rightarrow> bool" where
  "in_span h n x \<longleftrightarrow> unat (x - h) < n"

lemma in_span_split:
  assumes "m + n < 2 ^ 64"
  shows "in_span h (m + n) x \<longleftrightarrow> in_span h m x \<or> in_span (h + of_nat m) n x"
    "in_span h m x \<Longrightarrow> \<not> in_span (h + of_nat m) n x"
    "\<not> in_span h m x \<Longrightarrow> in_span (h + of_nat m) n x \<Longrightarrow> unat (x - (h + of_nat m)) = unat (x - h) - m"
proof -
  have m: "unat (of_nat m :: u64) = m" using assms by (simp add: unat_of_nat take_bit_nat_eq_self)
  have d: "x - (h + of_nat m) = (x - h) - of_nat m" by simp
  have sub: "unat (y - of_nat m) = (if m \<le> unat y then unat y - m else unat y + 2 ^ 64 - m)" for y :: u64
    unfolding unat_sub_if' m by simp
  have u: "unat (x - (h + of_nat m)) = (if m \<le> unat (x - h) then unat (x - h) - m else unat (x - h) + 2 ^ 64 - m)"
    unfolding d by (rule sub)
  then show "in_span h (m + n) x \<longleftrightarrow> in_span h m x \<or> in_span (h + of_nat m) n x"
    "in_span h m x \<Longrightarrow> \<not> in_span (h + of_nat m) n x"
    "\<not> in_span h m x \<Longrightarrow> in_span (h + of_nat m) n x \<Longrightarrow> unat (x - (h + of_nat m)) = unat (x - h) - m"
    using assms unfolding in_span_def by (auto split: if_splits)
qed

lemma host_range_split:
  assumes "host_range kl k h n" "m \<le> n"
  shows "host_range kl k h m" "host_range kl k (h + of_nat m) (n - m)"
proof -
  show "host_range kl k h m" using assms by (simp add: host_range_def)
  have "\<exists>mo os. ram_object_at kl k (h + of_nat m + of_nat i) mo os \<and>
     mo_address mo = obj_base (h + of_nat m + of_nat i) \<and> as_owned kl os k" if "i < n - m" for i
  proof -
    have "m + i < n" using that by simp
    then have "\<exists>mo os. ram_object_at kl k (h + of_nat (m + i)) mo os \<and>
       mo_address mo = obj_base (h + of_nat (m + i)) \<and> as_owned kl os k" using assms(1) unfolding host_range_def by blast
    then show ?thesis by (simp only: of_nat_add add.assoc)
  qed
  with assms show "host_range kl k (h + of_nat m) (n - m)" by (auto simp: host_range_def)
qed

lemma host_range_shape: "ram_shape kl k k' \<Longrightarrow> host_range kl k h n \<Longrightarrow> host_range kl k' h n"
  unfolding host_range_def using shape_object by (metis ram_shape_def)

lemma host_range_start:
  assumes "host_range kl k h n" "0 < n" "obj_offset h + n \<le> RAM_OBJECT_SIZE"
  obtains mo os where "ram_object_at kl k h mo os" "mo_address mo = obj_base h" "as_owned kl os k"
  using assms by (fastforce simp: host_range_def)

lemma checked_object_spec:
  assumes "cache_coherent kl st" "ram_object_at kl (klee st) h mo os" "mo_address mo = obj_base h"
  obtains cache where "checked_object kl (obj_base h) st = Inr (mo, os, st\<lparr>m_memcache := cache\<rparr>)"
    "cache_coherent kl (st\<lparr>m_memcache := cache\<rparr>)"
proof -
  from cached_object_spec [OF assms(1) obj_base_aligned, of h] obtain cache where
    "cached_object kl (obj_base h) st = Inr (as_find kl (obj_base h) (klee st), st\<lparr>m_memcache := cache\<rparr>)"
    "cache_coherent kl (st\<lparr>m_memcache := cache\<rparr>)" by blast
  with assms(2,3) that show ?thesis by (simp add: checked_object_def ram_object_at_def)
qed


section \<open>Writing\<close>

definition ram_written :: "('e, 'o, 'k) klee_ops \<Rightarrow> u64 \<Rightarrow> u8 list \<Rightarrow> 'k \<Rightarrow> 'k \<Rightarrow> bool" where
  "ram_written kl h bs k k' \<longleftrightarrow> ram_shape kl k k' \<and> (\<forall>x. ram_byte kl k' x =
     (if in_span h (length bs) x then Some (e_const kl (ucast (bs ! unat (x - h))) 8) else ram_byte kl k x))"

lemma ram_written_append:
  assumes len: "length xs + length ys < 2 ^ 64" and w: "ram_written kl h xs k k1" "ram_written kl (h + of_nat (length xs)) ys k1 k2"
  shows "ram_written kl h (xs @ ys) k k2"
proof -
  note sp = in_span_split [OF len]
  have "ram_byte kl k2 x = (if in_span h (length (xs @ ys)) x
      then Some (e_const kl (ucast ((xs @ ys) ! unat (x - h))) 8) else ram_byte kl k x)" for x
  proof (cases "in_span h (length xs) x")
    case True
    moreover have "unat (x - h) < length xs" using True by (simp add: in_span_def)
    ultimately show ?thesis using w sp by (simp add: ram_written_def nth_append)
  next
    case False
    then have "\<not> unat (x - h) < length xs" by (simp add: in_span_def)
    with False show ?thesis using w sp by (simp add: ram_written_def nth_append)
  qed
  with w show ?thesis using ram_shape_trans by (auto simp: ram_written_def)
qed

text \<open>An address lies in the range of an object exactly when it lies in the object at an offset of the range.\<close>

lemma in_span_object:
  assumes "obj_offset h + n \<le> RAM_OBJECT_SIZE"
  shows "in_span h n x \<longleftrightarrow> obj_base x = obj_base h \<and> obj_offset h \<le> obj_offset x \<and> obj_offset x < obj_offset h + n"
    "in_span h n x \<Longrightarrow> unat (x - h) = obj_offset x - obj_offset h"
proof -
  have *: "obj_base x = obj_base h \<and> obj_offset x = obj_offset h + unat (x - h)" if "in_span h n x"
    using obj_add [of h "unat (x - h)"] that assms by (simp add: in_span_def)
  then show "in_span h n x \<Longrightarrow> unat (x - h) = obj_offset x - obj_offset h" by simp
  have "in_span h n x" if h: "obj_base x = obj_base h" "obj_offset h \<le> obj_offset x" "obj_offset x < obj_offset h + n"
  proof -
    let ?i = "obj_offset x - obj_offset h"
    have i: "obj_offset h + ?i < RAM_OBJECT_SIZE" "?i < n" using h obj_offset_less [of x] by auto
    have "x = h + of_nat ?i" using same_host obj_add [OF i(1)] h by simp
    then have "x - h = of_nat ?i" by (metis add_diff_cancel_left')
    moreover have "unat (of_nat ?i :: u64) = ?i" using i(1) by (simp add: unat_of_nat RAM_OBJECT_SIZE_128 take_bit_nat_eq_self)
    ultimately show ?thesis using i(2) by (simp add: in_span_def)
  qed
  with * show "in_span h n x \<longleftrightarrow> obj_base x = obj_base h \<and> obj_offset h \<le> obj_offset x \<and> obj_offset x < obj_offset h + n"
    by (auto simp: in_span_def)
qed

lemma store_bytes_written:
  assumes sp: "space_laws kl" and cw: "\<And>c. e_width kl (e_const kl c 8) = 8" and d: "objects_distinct kl k"
    and o: "ram_object_at kl k h mo os" and fit: "obj_offset h + length bs \<le> RAM_OBJECT_SIZE"
  shows "ram_written kl h bs k (store_bytes kl os (obj_offset h) bs k)"
proof -
  let ?k = "store_bytes kl os (obj_offset h) bs k"
  have len: "obj_offset h + length bs \<le> length (as_bytes kl os k)" using fit object_length [OF o] by simp
  note v = store_bytes_values [OF sp cw len]
  then have sh: "ram_shape kl k ?k" by blast
  have "ram_byte kl ?k x = (if in_span h (length bs) x then Some (e_const kl (ucast (bs ! unat (x - h))) 8) else ram_byte kl k x)" for x
  proof (cases "obj_base x = obj_base h")
    case True
    then have f: "ram_byte kl k' x = Some (as_bytes kl os k' ! obj_offset x)" if "ram_shape kl k k'" for k'
      using o that by (simp add: ram_byte_def ram_object_at_def ram_shape_def)
    have "obj_offset x < length (as_bytes kl os k)" using object_length [OF o] obj_offset_less by simp
    then show ?thesis using v f [OF sh] f [OF ram_shape_refl] True in_span_object [OF fit, of x] by auto
  next
    case False
    have "os' \<noteq> os" if "as_find kl (obj_base x) k = Some (mo', os')" for mo' os'
      using that o d False unfolding objects_distinct_def ram_object_at_def by blast
    moreover have "\<not> in_span h (length bs) x" using in_span_object(1) [OF fit] False by simp
    ultimately show ?thesis using sh v by (auto simp: ram_byte_def ram_shape_def split: option.splits)
  qed
  with sh show ?thesis by (simp add: ram_written_def)
qed

lemma crossing_length:
  "\<not> obj_offset h + n \<le> RAM_OBJECT_SIZE \<Longrightarrow> 0 < RAM_OBJECT_SIZE - obj_offset h \<and> RAM_OBJECT_SIZE - obj_offset h < n \<and>
    obj_offset h + (RAM_OBJECT_SIZE - obj_offset h) \<le> RAM_OBJECT_SIZE"
  using obj_offset_less [of h] by auto

lemma writeRamConcrete_spec:
  assumes sp: "space_laws kl" and cw: "\<And>c. e_width kl (e_const kl c 8) = 8"
  shows "objects_distinct kl (klee st) \<Longrightarrow> host_range kl (klee st) h (length bs) \<Longrightarrow> cache_coherent kl st \<Longrightarrow>
    m_active st \<Longrightarrow> bs \<noteq> [] \<Longrightarrow> \<exists>k c. writeRamConcrete kl h bs st = Inr (st\<lparr>m_memcache := c, klee := k\<rparr>) \<and>
      ram_written kl h bs (klee st) k \<and> cache_coherent kl (st\<lparr>m_memcache := c, klee := k\<rparr>)"
proof (induction "length bs" arbitrary: h bs st rule: less_induct)
  case less
  note hyps = less.prems
  show ?case
  proof (cases "obj_offset h + length bs \<le> RAM_OBJECT_SIZE")
    case True
    from host_range_start [OF hyps(2) _ True] hyps(5) obtain mo os where
      o: "ram_object_at kl (klee st) h mo os" "mo_address mo = obj_base h" "as_owned kl os (klee st)" by auto
    from checked_object_spec [OF hyps(3) o(1,2)] obtain cache where
      c: "checked_object kl (obj_base h) st = Inr (mo, os, st\<lparr>m_memcache := cache\<rparr>)"
        "cache_coherent kl (st\<lparr>m_memcache := cache\<rparr>)" by blast
    let ?k = "store_bytes kl os (obj_offset h) bs (klee st)"
    have w: "ram_written kl h bs (klee st) ?k" by (rule store_bytes_written [OF sp cw hyps(1) o(1) True])
    have "writeRamConcrete kl h bs st = Inr (st\<lparr>m_memcache := cache, klee := ?k\<rparr>)"
      using hyps(4) True c(1) o(3) by (subst writeRamConcrete.simps) (simp add: getWriteable_def)
    moreover have "cache_coherent kl (st\<lparr>m_memcache := cache, klee := ?k\<rparr>)"
      using shape_coherent [of kl "st\<lparr>m_memcache := cache\<rparr>" ?k] w c(2) by (simp add: ram_written_def)
    ultimately show ?thesis using w by blast
  next
    case False
    let ?m = "RAM_OBJECT_SIZE - obj_offset h"
    let ?xs = "take ?m bs" and ?ys = "drop ?m bs"
    have m: "0 < ?m" "?m < length bs" using crossing_length [OF False] by auto
    have r: "host_range kl (klee st) h (length ?xs)" "host_range kl (klee st) (h + of_nat ?m) (length ?ys)"
      using host_range_split [OF hyps(2), of ?m] m by (simp_all add: min_def)
    have "?xs \<noteq> []" "?ys \<noteq> []" "length ?xs < length bs" "length ?ys < length bs" using m by auto
    note ne = this
    from less.hyps [OF ne(3) hyps(1) r(1) hyps(3,4) ne(1)] obtain k1 c1 where
      w1: "writeRamConcrete kl h ?xs st = Inr (st\<lparr>m_memcache := c1, klee := k1\<rparr>)" "ram_written kl h ?xs (klee st) k1"
        "cache_coherent kl (st\<lparr>m_memcache := c1, klee := k1\<rparr>)" by blast
    let ?st1 = "st\<lparr>m_memcache := c1, klee := k1\<rparr>"
    have sh: "ram_shape kl (klee st) k1" using w1(2) by (simp add: ram_written_def)
    have "objects_distinct kl (klee ?st1)" "host_range kl (klee ?st1) (h + of_nat ?m) (length ?ys)" "m_active ?st1"
      using shape_distinct [OF sh] hyps(1,4) host_range_shape [OF sh r(2)] by simp_all
    from less.hyps [OF ne(4) this(1,2) w1(3) this(3) ne(2)] obtain k2 c2 where
      w2: "writeRamConcrete kl (h + of_nat ?m) ?ys ?st1 = Inr (?st1\<lparr>m_memcache := c2, klee := k2\<rparr>)"
        "ram_written kl (h + of_nat ?m) ?ys k1 k2" "cache_coherent kl (?st1\<lparr>m_memcache := c2, klee := k2\<rparr>)" by auto
    have "writeRamConcrete kl h bs st = Inr (st\<lparr>m_memcache := c2, klee := k2\<rparr>)"
      using hyps(4) False w1(1) w2(1) by (subst writeRamConcrete.simps) (simp add: Let_def)
    moreover have "length ?xs = ?m" "length ?xs + length ?ys < 2 ^ 64" using m hyps(2) by (auto simp: host_range_def)
    then have "ram_written kl h bs (klee st) k2" using ram_written_append [OF _ w1(2), of ?ys k2] w2(2) by simp
    ultimately show ?thesis using w2(3) by auto
  qed
qed


section \<open>Reading concrete bytes\<close>

definition concrete_span :: "('e, 'o, 'k) klee_ops \<Rightarrow> 'k \<Rightarrow> u64 \<Rightarrow> u8 list \<Rightarrow> bool" where
  "concrete_span kl k h bs \<longleftrightarrow>
     (\<forall>i<length bs. \<exists>e c. ram_byte kl k (h + of_nat i) = Some e \<and> e_value kl e = Some c \<and> ucast c = bs ! i)"

lemma concrete_span_split:
  assumes "concrete_span kl k h bs"
  shows "concrete_span kl k h (take m bs)" "m \<le> length bs \<Longrightarrow> concrete_span kl k (h + of_nat m) (drop m bs)"
proof -
  show "concrete_span kl k h (take m bs)" using assms by (simp add: concrete_span_def)
  assume m: "m \<le> length bs"
  have "\<exists>e c. ram_byte kl k (h + of_nat m + of_nat i) = Some e \<and> e_value kl e = Some c \<and> ucast c = drop m bs ! i"
    if "i < length (drop m bs)" for i
  proof -
    have "m + i < length bs" using that by simp
    then have "\<exists>e c. ram_byte kl k (h + of_nat (m + i)) = Some e \<and> e_value kl e = Some c \<and> ucast c = bs ! (m + i)"
      using assms unfolding concrete_span_def by blast
    then show ?thesis using m by (simp only: of_nat_add add.assoc nth_drop)
  qed
  then show "concrete_span kl k (h + of_nat m) (drop m bs)" by (simp add: concrete_span_def)
qed

lemma check_bytes_concrete:
  assumes "\<And>i. i < length bs \<Longrightarrow> readConcrete8 kl os (off + i) k = Some (bs ! i)"
  shows "check_bytes kl os off (length bs) k = Inr bs"
  using assms
proof (induction bs arbitrary: off)
  case (Cons b bs)
  have "readConcrete8 kl os off k = Some b" using Cons.prems [of 0] by simp
  moreover have "readConcrete8 kl os (off + 1 + i) k = Some (bs ! i)" if "i < length bs" for i
    using Cons.prems [of "i + 1"] that by (simp add: add.assoc)
  ultimately show ?case using Cons.IH [of "off + 1"] by simp
qed simp

lemma readRamConcreteCheck_concrete:
  "host_range kl (klee st) h (length bs) \<Longrightarrow> concrete_span kl (klee st) h bs \<Longrightarrow> cache_coherent kl st \<Longrightarrow>
    m_active st \<Longrightarrow> m_runningConcrete st \<Longrightarrow> bs \<noteq> [] \<Longrightarrow>
    \<exists>c. readRamConcreteCheck kl h (length bs) st = Inr (bs, st\<lparr>m_memcache := c\<rparr>) \<and> cache_coherent kl (st\<lparr>m_memcache := c\<rparr>)"
proof (induction "length bs" arbitrary: h bs st rule: less_induct)
  case less
  note hyps = less.prems
  show ?case
  proof (cases "obj_offset h + length bs \<le> RAM_OBJECT_SIZE")
    case True
    have "0 < length bs" using hyps(6) by simp
    from host_range_start [OF hyps(1) this True] obtain mo os where
      o: "ram_object_at kl (klee st) h mo os" "mo_address mo = obj_base h" by blast
    from checked_object_spec [OF hyps(3) o] obtain cache where
      c: "checked_object kl (obj_base h) st = Inr (mo, os, st\<lparr>m_memcache := cache\<rparr>)"
        "cache_coherent kl (st\<lparr>m_memcache := cache\<rparr>)" by blast
    have "readConcrete8 kl os (obj_offset h + i) (klee st) = Some (bs ! i)" if i: "i < length bs" for i
    proof -
      have "obj_offset h + i < RAM_OBJECT_SIZE" using i True by simp
      note a = obj_add [OF this]
      from hyps(2) i obtain e v where "ram_byte kl (klee st) (h + of_nat i) = Some e" "e_value kl e = Some v" "ucast v = bs ! i"
        unfolding concrete_span_def by blast
      then show ?thesis using o(1) a by (simp add: ram_byte_def ram_object_at_def readConcrete8_def)
    qed
    then have "check_bytes kl os (obj_offset h) (length bs) (klee st) = Inr bs" by (rule check_bytes_concrete)
    then have "readRamConcreteCheck kl h (length bs) st = Inr (bs, st\<lparr>m_memcache := cache\<rparr>)"
      using hyps(4,5) True c(1) by (subst readRamConcreteCheck.simps) simp
    then show ?thesis using c(2) by blast
  next
    case False
    let ?m = "RAM_OBJECT_SIZE - obj_offset h"
    let ?xs = "take ?m bs" and ?ys = "drop ?m bs"
    have m: "0 < ?m" "?m < length bs" using crossing_length [OF False] by auto
    have len: "length ?xs = ?m" "length ?ys = length bs - ?m" using m by auto
    have r: "host_range kl (klee st) h (length ?xs)" "host_range kl (klee st) (h + of_nat ?m) (length ?ys)"
      using host_range_split [OF hyps(1), of ?m] m by (simp_all add: min_def)
    have c: "concrete_span kl (klee st) h ?xs" "concrete_span kl (klee st) (h + of_nat ?m) ?ys"
      by (rule concrete_span_split(1) [OF hyps(2)]) (rule concrete_span_split(2) [OF hyps(2) less_imp_le [OF m(2)]])
    have ne: "?xs \<noteq> []" "?ys \<noteq> []" "length ?xs < length bs" "length ?ys < length bs" using m by auto
    from less.hyps [OF ne(3) r(1) c(1) hyps(3-5) ne(1)] obtain c1 where
      w1: "readRamConcreteCheck kl h ?m st = Inr (?xs, st\<lparr>m_memcache := c1\<rparr>)"
        "cache_coherent kl (st\<lparr>m_memcache := c1\<rparr>)" unfolding len by blast
    have "\<exists>c. readRamConcreteCheck kl (h + of_nat ?m) (length ?ys) (st\<lparr>m_memcache := c1\<rparr>) =
        Inr (?ys, st\<lparr>m_memcache := c1\<rparr>\<lparr>m_memcache := c\<rparr>) \<and> cache_coherent kl (st\<lparr>m_memcache := c1\<rparr>\<lparr>m_memcache := c\<rparr>)"
      by (rule less.hyps [OF ne(4)]) (use r c w1(2) hyps(4,5) ne(2) in simp_all)
    then obtain c2 where w2: "readRamConcreteCheck kl (h + of_nat ?m) (length bs - ?m) (st\<lparr>m_memcache := c1\<rparr>) =
        Inr (?ys, st\<lparr>m_memcache := c2\<rparr>)" "cache_coherent kl (st\<lparr>m_memcache := c2\<rparr>)" unfolding len by auto
    then have "readRamConcreteCheck kl h (length bs) st = Inr (bs, st\<lparr>m_memcache := c2\<rparr>)"
      using hyps(4,5) False w1(1) by (subst readRamConcreteCheck.simps) (simp add: Let_def)
    then show ?thesis using w2(2) by blast
  qed
qed

text \<open>A constant of one byte has its value.\<close>

definition const_laws :: "('e, 'o, 'k) klee_ops \<Rightarrow> bool" where
  "const_laws kl \<longleftrightarrow> (\<forall>c. e_width kl (e_const kl c 8) = 8) \<and>
     (\<forall>b :: u8. e_value kl (e_const kl (ucast b) 8) = Some (ucast b))"

lemma in_span_nth: "i < n \<Longrightarrow> n < 2 ^ 64 \<Longrightarrow> in_span h n (h + of_nat i) \<and> unat (h + of_nat i - h) = i"
  by (simp add: in_span_def unat_of_nat take_bit_nat_eq_self)

lemma written_concrete:
  assumes "const_laws kl" "ram_written kl h bs k k'" "length bs < 2 ^ 64"
  shows "concrete_span kl k' h bs"
proof -
  have "\<exists>e c. ram_byte kl k' (h + of_nat i) = Some e \<and> e_value kl e = Some c \<and> ucast c = bs ! i" if "i < length bs" for i
  proof (intro exI conjI)
    show "ram_byte kl k' (h + of_nat i) = Some (e_const kl (ucast (bs ! i)) 8)"
      using assms(2) in_span_nth [OF that assms(3), of h] by (simp add: ram_written_def)
    show "e_value kl (e_const kl (ucast (bs ! i)) 8) = Some (ucast (bs ! i))" using assms(1) by (simp add: const_laws_def)
    show "ucast (ucast (bs ! i) :: u64) = bs ! i" by (rule bit_eqI) (simp add: bit_simps)
  qed
  then show ?thesis by (simp add: concrete_span_def)
qed

text \<open>Bytes that the concrete execution writes to a range of host RAM are what its next read of the
  range returns, however many RAM objects the range crosses; the read does not leave the concrete
  mode, no byte outside the range changes, and the cache still agrees with the address space.\<close>

theorem ram_write_then_check:
  assumes "space_laws kl" "const_laws kl" "objects_distinct kl (klee st)" "host_range kl (klee st) h (length bs)"
    "cache_coherent kl st" "m_active st" "m_runningConcrete st" "bs \<noteq> []"
  shows "\<exists>st1 st2. writeRamConcrete kl h bs st = Inr st1 \<and>
    readRamConcreteCheck kl h (length bs) st1 = Inr (bs, st2) \<and> klee st2 = klee st1 \<and> cache_coherent kl st2 \<and>
    (\<forall>x. \<not> in_span h (length bs) x \<longrightarrow> ram_byte kl (klee st1) x = ram_byte kl (klee st) x)"
proof -
  have "\<And>c. e_width kl (e_const kl c 8) = 8" using assms(2) by (simp add: const_laws_def)
  from writeRamConcrete_spec [OF assms(1) this assms(3-6,8)] obtain k c where
    w: "writeRamConcrete kl h bs st = Inr (st\<lparr>m_memcache := c, klee := k\<rparr>)" "ram_written kl h bs (klee st) k"
      "cache_coherent kl (st\<lparr>m_memcache := c, klee := k\<rparr>)" by blast
  let ?st = "st\<lparr>m_memcache := c, klee := k\<rparr>"
  have "ram_shape kl (klee st) k" "length bs < 2 ^ 64" using w(2) assms(4) by (simp_all add: ram_written_def host_range_def)
  then have "host_range kl (klee ?st) h (length bs)" "concrete_span kl (klee ?st) h bs"
    using host_range_shape assms(4) written_concrete [OF assms(2) w(2)] by simp_all
  from readRamConcreteCheck_concrete [OF this w(3)] assms(6-8) obtain c2 where
    "readRamConcreteCheck kl h (length bs) ?st = Inr (bs, ?st\<lparr>m_memcache := c2\<rparr>)"
    "cache_coherent kl (?st\<lparr>m_memcache := c2\<rparr>)" by auto
  with w show ?thesis by (auto simp: ram_written_def)
qed


section \<open>Making symbolic bytes concrete\<close>

text \<open>
  \<open>pc\<close> is the set of assignments that satisfy the constraints of the state: making an expression
  concrete picks the value of one of them and keeps those that agree.
\<close>

definition concretize_laws :: "('e, 'o, 'k) klee_ops \<Rightarrow> ('e \<Rightarrow> 'm \<Rightarrow> nat) \<Rightarrow> ('k \<Rightarrow> 'm set) \<Rightarrow> bool" where
  "concretize_laws kl ev pc \<longleftrightarrow>
     (\<forall>e k c k'. to_constant kl e k = (c, k') \<longrightarrow> e_width kl e = 8 \<longrightarrow> pc k \<noteq> {} \<longrightarrow>
        (pc k' = {m \<in> pc k. ev e m = unat c} \<and> pc k' \<noteq> {} \<and> (\<forall>a. as_find kl a k' = as_find kl a k) \<and>
         (\<forall>os. as_owned kl os k' = as_owned kl os k \<and> as_bytes kl os k' = as_bytes kl os k))) \<and>
     (\<forall>os bs k. pc (as_update kl os bs k) = pc k)"

definition symbolic_at :: "('e, 'o, 'k) klee_ops \<Rightarrow> 'k \<Rightarrow> u64 \<Rightarrow> bool" where
  "symbolic_at kl k x \<longleftrightarrow> (case ram_byte kl k x of None \<Rightarrow> False | Some e \<Rightarrow> e_value kl e = None)"

definition agrees :: "('e, 'o, 'k) klee_ops \<Rightarrow> ('e \<Rightarrow> 'm \<Rightarrow> nat) \<Rightarrow> 'k \<Rightarrow> u64 \<Rightarrow> u8 list \<Rightarrow> 'm \<Rightarrow> bool" where
  "agrees kl ev k h bs m \<longleftrightarrow> (\<forall>x. in_span h (length bs) x \<longrightarrow> byte_val kl ev k x m = unat (bs ! unat (x - h)))"

definition concretized ::
  "('e, 'o, 'k) klee_ops \<Rightarrow> ('e \<Rightarrow> 'm \<Rightarrow> nat) \<Rightarrow> ('k \<Rightarrow> 'm set) \<Rightarrow> u64 \<Rightarrow> u8 list \<Rightarrow> 'k \<Rightarrow> 'k \<Rightarrow> bool" where
  "concretized kl ev pc h bs k k' \<longleftrightarrow> ram_shape kl k k' \<and>
     (\<forall>x. ram_byte kl k' x = (if in_span h (length bs) x \<and> symbolic_at kl k x
        then Some (e_const kl (ucast (bs ! unat (x - h))) 8) else ram_byte kl k x)) \<and>
     pc k' = {m \<in> pc k. agrees kl ev k h bs m} \<and> pc k' \<noteq> {}"

lemma byte_val_ram_byte: "byte_val kl ev k x m = (case ram_byte kl k x of None \<Rightarrow> 0 | Some e \<Rightarrow> ev e m)"
  by (simp add: byte_val_def ram_byte_def split: option.splits)

lemma concretizedD:
  assumes "concretized kl ev pc h bs k k'"
  shows "ram_shape kl k k'" "pc k' \<noteq> {}"
  using assms unfolding concretized_def by blast+

lemma concretized_none: "pc k \<noteq> {} \<Longrightarrow> concretized kl ev pc h [] k k"
  by (simp add: concretized_def agrees_def in_span_def)

lemma concretized_append:
  assumes len: "length xs + length ys < 2 ^ 64" and w: "concretized kl ev pc h xs k k1"
    "concretized kl ev pc (h + of_nat (length xs)) ys k1 k2"
  shows "concretized kl ev pc h (xs @ ys) k k2"
proof -
  note sp = in_span_split [OF len]
  let ?h = "h + of_nat (length xs)"
  have k1: "ram_byte kl k1 x = ram_byte kl k x" if "\<not> in_span h (length xs) x" for x
    using w(1) that by (simp add: concretized_def)
  have nth: "(xs @ ys) ! unat (x - h) = (if in_span h (length xs) x then xs ! unat (x - h) else ys ! unat (x - ?h))"
    if "in_span h (length xs) x \<or> in_span ?h (length ys) x" for x
    using that sp(3) by (auto simp: nth_append in_span_def)
  have "ram_byte kl k2 x = (if in_span h (length (xs @ ys)) x \<and> symbolic_at kl k x
      then Some (e_const kl (ucast ((xs @ ys) ! unat (x - h))) 8) else ram_byte kl k x)" for x
  proof (cases "in_span h (length xs) x")
    case True
    then show ?thesis using w sp nth [of x] by (simp add: concretized_def)
  next
    case False
    then have "symbolic_at kl k1 x = symbolic_at kl k x" by (simp add: symbolic_at_def k1)
    with False show ?thesis using w(2) sp(1) nth [of x] k1 by (simp add: concretized_def)
  qed
  moreover have "agrees kl ev k h (xs @ ys) m \<longleftrightarrow> agrees kl ev k h xs m \<and> agrees kl ev k1 ?h ys m" for m
  proof -
    have "byte_val kl ev k1 x m = byte_val kl ev k x m" if "in_span ?h (length ys) x" for x
    proof -
      have "\<not> in_span h (length xs) x" using sp(2) that by blast
      then show ?thesis by (simp add: byte_val_ram_byte k1)
    qed
    moreover have "in_span h (length (xs @ ys)) x \<longleftrightarrow> in_span h (length xs) x \<or> in_span ?h (length ys) x" for x
      using sp(1) by simp
    ultimately show ?thesis unfolding agrees_def using nth sp(2) by (metis (no_types, lifting))
  qed
  ultimately show ?thesis using w ram_shape_trans by (auto simp: concretized_def)
qed


lemma in_span_one: "in_span y (Suc 0) x \<longleftrightarrow> x = y"
  by (simp add: in_span_def unat_eq_0)

lemma agrees_one: "agrees kl ev k y [b] m \<longleftrightarrow> byte_val kl ev k y m = unat b"
  by (simp add: agrees_def in_span_one)

lemma byte_less: "expr_laws kl ev \<Longrightarrow> e_width kl e = 8 \<Longrightarrow> ev e m < 256"
proof -
  assume "expr_laws kl ev" "e_width kl e = 8"
  moreover from this have "ev e m < 2 ^ e_width kl e" unfolding expr_laws_def by blast
  ultimately show ?thesis by simp
qed

lemma concretized_concrete:
  assumes ex: "expr_laws kl ev" and o: "ram_object_at kl k y mo os" and pc: "pc k \<noteq> {}"
    and r: "readConcrete8 kl os (obj_offset y) k = Some b"
  shows "concretized kl ev pc y [b] k k"
proof -
  let ?e = "as_bytes kl os k ! obj_offset y"
  from r obtain c where c: "e_value kl ?e = Some c" "b = ucast c" by (auto simp: readConcrete8_def)
  have b: "ram_byte kl k y = Some ?e" using o by (simp add: ram_byte_def ram_object_at_def)
  have "?e \<in> set (as_bytes kl os k)" using object_length [OF o] obj_offset_less [of y] by (simp add: nth_mem)
  then have "e_width kl ?e = 8" using object_widths [OF o] by blast
  note lt = byte_less [OF ex this]
  have ev: "ev ?e m = unat c" for m using ex c(1) by (simp add: expr_laws_def)
  then have "unat c < 256" using lt [of undefined] by simp
  then have "unat b = unat c" using c(2) by (simp add: unsigned_ucast_eq take_bit_eq_mod)
  then have "agrees kl ev k y [b] m" for m by (simp add: agrees_one byte_val_ram_byte b ev)
  moreover have "\<not> symbolic_at kl k y" using b c(1) by (simp add: symbolic_at_def)
  ultimately show ?thesis using pc by (auto simp: concretized_def in_span_one)
qed

lemma concretized_symbolic:
  assumes sp: "space_laws kl" and cl: "const_laws kl" and ex: "expr_laws kl ev" and cn: "concretize_laws kl ev pc"
    and d: "objects_distinct kl k" and o: "ram_object_at kl k y mo os" and pc: "pc k \<noteq> {}"
    and r: "readConcrete8 kl os (obj_offset y) k = None"
    and c: "to_constant kl (as_bytes kl os k ! obj_offset y) k = (c, k1)"
  shows "concretized kl ev pc y [ucast c] k (store_byte kl os (obj_offset y) (ucast c) k1)"
proof -
  let ?e = "as_bytes kl os k ! obj_offset y" and ?b = "ucast c :: u8"
  let ?k2 = "store_byte kl os (obj_offset y) ?b k1"
  have "?e \<in> set (as_bytes kl os k)" using object_length [OF o] obj_offset_less [of y] by (simp add: nth_mem)
  then have e8: "e_width kl ?e = 8" using object_widths [OF o] by blast
  note lt = byte_less [OF ex e8]
  from cn have "pc k1 = {m \<in> pc k. ev ?e m = unat c} \<and> pc k1 \<noteq> {} \<and> (\<forall>a. as_find kl a k1 = as_find kl a k) \<and>
      (\<forall>os. as_owned kl os k1 = as_owned kl os k \<and> as_bytes kl os k1 = as_bytes kl os k)"
    using c e8 pc unfolding concretize_laws_def by blast
  then have cn1: "pc k1 = {m \<in> pc k. ev ?e m = unat c}" "pc k1 \<noteq> {}" "as_find kl a k1 = as_find kl a k"
    "as_owned kl os' k1 = as_owned kl os' k" "as_bytes kl os' k1 = as_bytes kl os' k" for a os'
    by blast+
  have cn2: "pc (as_update kl os' bs k') = pc k'" for os' bs k' using cn unfolding concretize_laws_def by blast
  have same: "ram_shape kl k k1" "ram_byte kl k1 x = ram_byte kl k x" for x
    using cn1(3-5) by (simp_all add: ram_shape_def ram_byte_def split: option.splits)
  have b: "ram_byte kl k y = Some ?e" using o by (simp add: ram_byte_def ram_object_at_def)
  obtain m0 where "m0 \<in> pc k1" using cn1(2) by blast
  then have "unat c < 256" using lt [of m0] by (simp add: cn1(1))
  then have u: "unat ?b = unat c" by (simp add: unsigned_ucast_eq take_bit_eq_mod)
  have "ram_written kl y [?b] k1 (store_bytes kl os (obj_offset y) [?b] k1)"
  proof (rule store_bytes_written [OF sp])
    show "e_width kl (e_const kl c 8) = 8" for c using cl by (simp add: const_laws_def)
    show "objects_distinct kl k1" using d shape_distinct [OF same(1)] by simp
    show "ram_object_at kl k1 y mo os" using shape_object [OF same(1) o] .
    show "obj_offset y + length [?b] \<le> RAM_OBJECT_SIZE" using obj_offset_less [of y] by simp
  qed
  then have w: "ram_shape kl k1 ?k2" "ram_byte kl ?k2 x = (if x = y then Some (e_const kl (ucast ?b) 8) else ram_byte kl k x)" for x
    by (simp_all add: ram_written_def in_span_one same(2))
  have "symbolic_at kl k y" using r b by (simp add: symbolic_at_def readConcrete8_def)
  moreover have "pc ?k2 = {m \<in> pc k. agrees kl ev k y [?b] m}"
    using cn1(1) u by (simp add: store_byte_def cn2 agrees_one byte_val_ram_byte b)
  moreover have "pc ?k2 \<noteq> {}" using cn1(2) by (simp add: store_byte_def cn2)
  ultimately show ?thesis using w ram_shape_trans [OF same(1) w(1)] by (auto simp: concretized_def in_span_one)
qed


lemma concretize_bytes_spec:
  assumes laws: "space_laws kl" "const_laws kl" "expr_laws kl ev" "concretize_laws kl ev pc" and b: "obj_offset b = 0"
  shows "ram_object_at kl (klee st) b mo os \<Longrightarrow> objects_distinct kl (klee st) \<Longrightarrow> as_owned kl os (klee st) \<Longrightarrow>
    pc (klee st) \<noteq> {} \<Longrightarrow> off + n \<le> RAM_OBJECT_SIZE \<Longrightarrow>
    \<exists>bs k. concretize_bytes kl mo os w off n st = Inr (bs, st\<lparr>klee := k\<rparr>) \<and> length bs = n \<and>
      concretized kl ev pc (b + of_nat off) bs (klee st) k"
proof (induction n arbitrary: off w st)
  case 0
  then show ?case using concretized_none by (intro exI [of _ "[]"] exI [of _ "klee st"]) simp
next
  case (Suc n)
  let ?y = "b + of_nat off" and ?k = "klee st"
  have "obj_offset b + off < RAM_OBJECT_SIZE" using Suc.prems(5) b by simp
  note y = obj_add [OF this, unfolded b add_0]
  have o: "ram_object_at kl ?k ?y mo os" using Suc.prems(1) y(2) by (simp add: ram_object_at_def)
  have "\<exists>c k1. length [c] + n < 2 ^ 64 \<and> concretized kl ev pc ?y [c] ?k k1 \<and> (\<exists>w'.
      concretize_bytes kl mo os w off (Suc n) st = rbind (concretize_bytes kl mo os w' (off + 1) n (st\<lparr>klee := k1\<rparr>))
        (\<lambda>(bs, st'). Inr (c # bs, st')))"
  proof (cases "readConcrete8 kl os off ?k")
    case (Some c)
    have "concretized kl ev pc ?y [c] ?k ?k"
      using concretized_concrete [OF laws(3) o, of pc c] Suc.prems(4) Some y(1) by simp
    then show ?thesis using Some Suc.prems(5) by (intro exI [of _ c] exI [of _ ?k]) (auto simp: RAM_OBJECT_SIZE_128)
  next
    case None
    obtain c k1 where c: "to_constant kl (as_bytes kl os ?k ! off) ?k = (c, k1)" by fastforce
    have "concretized kl ev pc ?y [ucast c] ?k (store_byte kl os off (ucast c) k1)"
      using concretized_symbolic [OF laws Suc.prems(2) o Suc.prems(4)] None c y(1) by simp
    moreover have "(if w then Inr (os, st) else getWriteable kl mo os st) = Inr (os, st)"
      using Suc.prems(3) by (simp add: getWriteable_def)
    ultimately show ?thesis using None c Suc.prems(5)
      by (intro exI [of _ "ucast c"] exI [of _ "store_byte kl os off (ucast c) k1"]) (auto simp: Let_def RAM_OBJECT_SIZE_128)
  qed
  then obtain c k1 w' where c: "length [c] + n < 2 ^ 64" "concretized kl ev pc ?y [c] ?k k1"
    "concretize_bytes kl mo os w off (Suc n) st = rbind (concretize_bytes kl mo os w' (off + 1) n (st\<lparr>klee := k1\<rparr>))
        (\<lambda>(bs, st'). Inr (c # bs, st'))" by blast
  have sh: "ram_shape kl ?k k1" "pc k1 \<noteq> {}" using concretizedD [OF c(2)] .
  have "\<exists>bs k. concretize_bytes kl mo os w' (off + 1) n (st\<lparr>klee := k1\<rparr>) = Inr (bs, st\<lparr>klee := k1\<rparr>\<lparr>klee := k\<rparr>) \<and>
      length bs = n \<and> concretized kl ev pc (b + of_nat (off + 1)) bs (klee (st\<lparr>klee := k1\<rparr>)) k"
    by (rule Suc.IH) (use Suc.prems sh shape_object [OF sh(1)] shape_distinct [OF sh(1)] in \<open>simp_all add: ram_shape_def\<close>)
  then obtain bs k where k: "concretize_bytes kl mo os w' (off + 1) n (st\<lparr>klee := k1\<rparr>) = Inr (bs, st\<lparr>klee := k\<rparr>)"
    "length bs = n" "concretized kl ev pc (b + of_nat (off + 1)) bs k1 k" by auto
  have "concretized kl ev pc ?y ([c] @ bs) ?k k"
    by (rule concretized_append [OF _ c(2)]) (use k(2,3) c(1) in \<open>simp_all add: algebra_simps\<close>)
  with c(3) k(1,2) show ?case
    by (intro exI [of _ "c # bs"] exI [of _ k]) (simp del: concretize_bytes.simps)
qed

lemma readRamConcrete_spec:
  assumes laws: "space_laws kl" "const_laws kl" "expr_laws kl ev" "concretize_laws kl ev pc"
  shows "objects_distinct kl (klee st) \<Longrightarrow> host_range kl (klee st) h n \<Longrightarrow> cache_coherent kl st \<Longrightarrow> m_active st \<Longrightarrow>
    0 < n \<Longrightarrow> pc (klee st) \<noteq> {} \<Longrightarrow>
    \<exists>bs k c. readRamConcrete kl h n st = Inr (bs, st\<lparr>m_memcache := c, klee := k\<rparr>) \<and> length bs = n \<and>
      concretized kl ev pc h bs (klee st) k \<and> cache_coherent kl (st\<lparr>m_memcache := c, klee := k\<rparr>)"
proof (induction n arbitrary: h st rule: less_induct)
  case (less n)
  note hyps = less.prems
  show ?case
  proof (cases "obj_offset h + n \<le> RAM_OBJECT_SIZE")
    case True
    from host_range_start [OF hyps(2,5) True] obtain mo os where
      o: "ram_object_at kl (klee st) h mo os" "mo_address mo = obj_base h" "as_owned kl os (klee st)" by blast
    from checked_object_spec [OF hyps(3) o(1,2)] obtain cache where
      c: "checked_object kl (obj_base h) st = Inr (mo, os, st\<lparr>m_memcache := cache\<rparr>)"
        "cache_coherent kl (st\<lparr>m_memcache := cache\<rparr>)" by blast
    have base: "obj_base (obj_base h) = obj_base h" by (simp add: obj_base_def and.assoc)
    have "ram_object_at kl (klee (st\<lparr>m_memcache := cache\<rparr>)) (obj_base h) mo os" using o(1) base by (simp add: ram_object_at_def)
    from concretize_bytes_spec [OF laws obj_base_aligned this, of "obj_offset h" n False] hyps(1,6) o(3) True obtain bs k where
      k: "concretize_bytes kl mo os False (obj_offset h) n (st\<lparr>m_memcache := cache\<rparr>) = Inr (bs, st\<lparr>m_memcache := cache, klee := k\<rparr>)"
        "length bs = n" "concretized kl ev pc h bs (klee st) k" by (auto simp: obj_base_plus_offset)
    have "readRamConcrete kl h n st = Inr (bs, st\<lparr>m_memcache := cache, klee := k\<rparr>)"
      using hyps(4) True c(1) k(1) by (subst readRamConcrete.simps) simp
    moreover have "cache_coherent kl (st\<lparr>m_memcache := cache, klee := k\<rparr>)"
      using shape_coherent [of kl "st\<lparr>m_memcache := cache\<rparr>" k] k(3) c(2) by (simp add: concretized_def)
    ultimately show ?thesis using k(2,3) by blast
  next
    case False
    let ?m = "RAM_OBJECT_SIZE - obj_offset h"
    have m: "0 < ?m" "?m < n" "0 < n - ?m" "n - ?m < n" using crossing_length [OF False] by auto
    note r = host_range_split [OF hyps(2) less_imp_le [OF m(2)]]
    from less.IH [OF m(2) hyps(1) r(1) hyps(3,4) m(1) hyps(6)] obtain xs k1 c1 where
      w1: "readRamConcrete kl h ?m st = Inr (xs, st\<lparr>m_memcache := c1, klee := k1\<rparr>)" "length xs = ?m"
        "concretized kl ev pc h xs (klee st) k1" "cache_coherent kl (st\<lparr>m_memcache := c1, klee := k1\<rparr>)" by blast
    let ?st1 = "st\<lparr>m_memcache := c1, klee := k1\<rparr>"
    have sh: "ram_shape kl (klee st) k1" "pc k1 \<noteq> {}" using concretizedD [OF w1(3)] .
    have "\<exists>bs k c. readRamConcrete kl (h + of_nat ?m) (n - ?m) ?st1 = Inr (bs, ?st1\<lparr>m_memcache := c, klee := k\<rparr>) \<and>
        length bs = n - ?m \<and> concretized kl ev pc (h + of_nat ?m) bs (klee ?st1) k \<and>
        cache_coherent kl (?st1\<lparr>m_memcache := c, klee := k\<rparr>)"
      by (rule less.IH [OF m(4)])
         (use shape_distinct [OF sh(1)] hyps(1,4) host_range_shape [OF sh(1) r(2)] sh(2) w1(4) m(3) in simp_all)
    then obtain ys k2 c2 where w2: "readRamConcrete kl (h + of_nat ?m) (n - ?m) ?st1 = Inr (ys, st\<lparr>m_memcache := c2, klee := k2\<rparr>)"
      "length ys = n - ?m" "concretized kl ev pc (h + of_nat ?m) ys k1 k2" "cache_coherent kl (st\<lparr>m_memcache := c2, klee := k2\<rparr>)"
      by auto
    have "readRamConcrete kl h n st = Inr (xs @ ys, st\<lparr>m_memcache := c2, klee := k2\<rparr>)"
      using hyps(4) False w1(1) w2(1) by (subst readRamConcrete.simps) (simp add: Let_def)
    moreover have "length xs + length ys < 2 ^ 64" using w1(2) w2(2) m(2) hyps(2) by (simp add: host_range_def)
    then have "concretized kl ev pc h (xs @ ys) (klee st) k2" using concretized_append [OF _ w1(3), of ys k2] w1(2) w2(3) by simp
    ultimately show ?thesis using w1(2) w2(2,4) m(2) by (intro exI [of _ "xs @ ys"] exI [of _ k2] exI [of _ c2]) simp
  qed
qed


lemma ucast_unat_eq: "unat (v :: u64) = unat (b :: u8) \<Longrightarrow> ucast v = b"
  using unsigned_less [of b, where ?'a = nat]
  by (simp add: word_unat_eq_iff unsigned_ucast_eq take_bit_nat_eq_self)

lemma concretized_concrete_span:
  assumes cl: "const_laws kl" and ex: "expr_laws kl ev" and r: "host_range kl k h (length bs)"
    and c: "concretized kl ev pc h bs k k'"
  shows "concrete_span kl k' h bs"
proof -
  have len: "length bs < 2 ^ 64" using r by (simp add: host_range_def)
  have "\<exists>e v. ram_byte kl k' (h + of_nat i) = Some e \<and> e_value kl e = Some v \<and> ucast v = bs ! i" if i: "i < length bs" for i
  proof (cases "symbolic_at kl k (h + of_nat i)")
    case True
    have "ram_byte kl k' (h + of_nat i) = Some (e_const kl (ucast (bs ! i)) 8)"
      using c True in_span_nth [OF i len, of h] by (simp add: concretized_def)
    moreover have "e_value kl (e_const kl (ucast (bs ! i)) 8) = Some (ucast (bs ! i))" using cl by (simp add: const_laws_def)
    moreover have "ucast (ucast (bs ! i) :: u64) = bs ! i" by (rule bit_eqI) (simp add: bit_simps)
    ultimately show ?thesis by blast
  next
    case False
    let ?y = "h + of_nat i"
    from r i obtain mo os where "ram_object_at kl k ?y mo os" by (auto simp: host_range_def)
    then obtain e where e: "ram_byte kl k ?y = Some e" by (auto simp: ram_byte_def ram_object_at_def)
    with False obtain v where v: "e_value kl e = Some v" by (auto simp: symbolic_at_def)
    from c obtain m where "agrees kl ev k h bs m" unfolding concretized_def by blast
    then have "byte_val kl ev k ?y m = unat (bs ! i)" using in_span_nth [OF i len, of h] by (simp add: agrees_def)
    moreover have "ev e m = unat v" using ex v by (simp add: expr_laws_def)
    ultimately have "unat v = unat (bs ! i)" using e by (simp add: byte_val_ram_byte)
    then have "ucast v = bs ! i" by (metis ucast_unat_eq)
    with e v False c show ?thesis by (simp add: concretized_def)
  qed
  then show ?thesis by (simp add: concrete_span_def)
qed


text \<open>C19: A concrete read of a range of RAM returns bytes that some input satisfying the constraints of the
  state has there, replaces exactly the symbolic bytes of the range by them, and restricts the
  constraints to the inputs that agree with them; a second read, by the routine that may not meet
  a symbolic byte, returns the same bytes.\<close>

theorem ram_read_concretizes:
  assumes laws: "space_laws kl" "const_laws kl" "expr_laws kl ev" "concretize_laws kl ev pc"
    and hyps: "objects_distinct kl (klee st)" "host_range kl (klee st) h n" "cache_coherent kl st" "m_active st"
      "m_runningConcrete st" "0 < n" "pc (klee st) \<noteq> {}"
  shows "\<exists>bs st1 st2. readRamConcrete kl h n st = Inr (bs, st1) \<and> length bs = n \<and>
    concretized kl ev pc h bs (klee st) (klee st1) \<and>
    readRamConcreteCheck kl h n st1 = Inr (bs, st2) \<and> klee st2 = klee st1"
proof -
  from readRamConcrete_spec [OF laws hyps(1-4,6,7)] obtain bs k c where
    r: "readRamConcrete kl h n st = Inr (bs, st\<lparr>m_memcache := c, klee := k\<rparr>)" "length bs = n"
      "concretized kl ev pc h bs (klee st) k" "cache_coherent kl (st\<lparr>m_memcache := c, klee := k\<rparr>)" by blast
  let ?st = "st\<lparr>m_memcache := c, klee := k\<rparr>"
  have "host_range kl (klee st) h (length bs)" using hyps(2) r(2) by simp
  then have "host_range kl (klee ?st) h (length bs)" "concrete_span kl (klee ?st) h bs"
    using host_range_shape [OF concretizedD(1) [OF r(3)]] concretized_concrete_span [OF laws(2,3) _ r(3)] by simp_all
  moreover have "m_active ?st" "m_runningConcrete ?st" "bs \<noteq> []" using hyps(4-6) r(2) by auto
  ultimately obtain c2 where "readRamConcreteCheck kl h (length bs) ?st = Inr (bs, ?st\<lparr>m_memcache := c2\<rparr>)"
    using readRamConcreteCheck_concrete [OF _ _ r(4)] by blast
  with r show ?thesis by auto
qed

section \<open>Concrete accesses to two objects\<close>

text \<open>The expressions and objects of \<open>Memory_Round_Trip\<close> with a list of the assignments that satisfy the
  constraints.\<close>

definition pick_constant :: "sx \<Rightarrow> (nat \<Rightarrow> sx list) \<times> (nat \<Rightarrow> nat) list \<Rightarrow> u64 \<times> (nat \<Rightarrow> sx list) \<times> (nat \<Rightarrow> nat) list" where
  "pick_constant e k = (case snd k of [] \<Rightarrow> (0, k)
     | m # _ \<Rightarrow> let c = of_nat (sx_eval e m) in (c, fst k, filter (\<lambda>m. sx_eval e m = unat c) (snd k)))"

definition pc_ops :: "(sx, nat, (nat \<Rightarrow> sx list) \<times> (nat \<Rightarrow> nat) list) klee_ops" where
  "pc_ops = \<lparr>e_width = sx_width, e_value = sx_value, e_const = (\<lambda>c w. Num (unat c) w), e_concat = Cat,
     e_extract = Ext, e_zext = (\<lambda>e w. Cat (Num 0 (w - sx_width e)) e),
     os_read = (\<lambda>bs off w. Bytes (take (w div 8) (drop off bs)) w), os_write = sx_write,
     as_find = (\<lambda>a k. two_objects a), as_owned = (\<lambda>os k. True), as_copy = (\<lambda>mo os k. (os, k)),
     as_bytes = (\<lambda>os k. fst k os), as_update = (\<lambda>os bs k. ((fst k)(os := bs), snd k)),
     to_constant = pick_constant, to_example = (\<lambda>e k. fst (pick_constant e k))\<rparr>"

lemma pc_expr_laws: "expr_laws pc_ops sx_eval"
  using sx_expr_laws by (simp add: expr_laws_def sx_ops_def pc_ops_def)

lemma pc_space_laws: "space_laws pc_ops"
  by (simp add: space_laws_def pc_ops_def)

lemma pc_const_laws: "const_laws pc_ops"
proof -
  have "unat (ucast b :: u64) mod 256 = unat b" for b :: u8
    using unsigned_less [of b, where ?'a = nat] by (simp add: unsigned_ucast_eq take_bit_nat_eq_self)
  then show ?thesis by (simp add: const_laws_def pc_ops_def word_unat_eq_iff unsigned_ucast_eq)
qed

lemma pc_concretize_laws: "concretize_laws pc_ops sx_eval (\<lambda>k. set (snd k))"
proof -
  have "set (snd k') = {m \<in> set (snd k). sx_eval e m = unat c} \<and> set (snd k') \<noteq> {} \<and> fst k' = fst k"
    if c: "pick_constant e k = (c, k')" and w: "sx_width e = 8" and ne: "set (snd k) \<noteq> {}" for e k c k'
  proof -
    from ne obtain m ms where k: "snd k = m # ms" by (cases "snd k") auto
    have "sx_eval e m < 256" using sx_eval_less [of e m] w by simp
    then have "unat (of_nat (sx_eval e m) :: u64) = sx_eval e m" by (simp add: unat_of_nat take_bit_nat_eq_self)
    then show ?thesis using c k by (auto simp: pick_constant_def Let_def)
  qed
  note pick = this
  show ?thesis unfolding concretize_laws_def
    using pick by (fastforce simp: pc_ops_def)
qed

definition symbolic_ram :: "(nat, (nat \<Rightarrow> sx list) \<times> (nat \<Rightarrow> nat) list) ram_state" where
  "symbolic_ram = \<lparr>m_active = True, m_runningConcrete = True, m_memcache = [],
     klee = ((\<lambda>_. replicate 127 (Num 0 8) @ [Var 0 8]), [\<lambda>i. 7, \<lambda>i. 9])\<rparr>"

lemma symbolic_ram_distinct: "objects_distinct pc_ops (klee symbolic_ram)"
  by (auto simp: objects_distinct_def pc_ops_def two_objects_def split: if_splits)

lemma symbolic_ram_coherent: "cache_coherent pc_ops symbolic_ram"
  by (simp add: cache_coherent_def symbolic_ram_def pool_inv_def regions_aligned_def)

lemma symbolic_ram_range: "host_range pc_ops (klee symbolic_ram) 0x1007E 4"
proof -
  have "\<exists>mo os. ram_object_at pc_ops (klee symbolic_ram) (0x1007E + of_nat i) mo os \<and>
      mo_address mo = obj_base (0x1007E + of_nat i) \<and> as_owned pc_ops os (klee symbolic_ram)" if "i < 4" for i
  proof -
    have "i = 0 \<or> i = 1 \<or> i = 2 \<or> i = 3" using that by auto
    then have "obj_base (0x1007E + of_nat i) = 0x10000 \<or> obj_base (0x1007E + of_nat i) = 0x10080"
      by (elim disjE) (simp_all add: obj_base_def RAM_OBJECT_BITS_def mask_numeral)
    then show ?thesis
      by (elim disjE) (simp_all add: ram_object_at_def pc_ops_def two_objects_def bytes_ok_def symbolic_ram_def RAM_OBJECT_SIZE_128)
  qed
  then show ?thesis by (simp add: host_range_def)
qed

theorem ram_write_then_check_witness:
  "\<exists>st1 st2. writeRamConcrete pc_ops 0x1007E [1, 2, 3, 4] symbolic_ram = Inr st1 \<and>
    readRamConcreteCheck pc_ops 0x1007E 4 st1 = Inr ([1, 2, 3, 4], st2)"
proof -
  have len: "length [1, 2, 3, 4 :: u8] = 4" by simp
  have "m_active symbolic_ram" "m_runningConcrete symbolic_ram" "[1, 2, 3, 4 :: u8] \<noteq> []"
    by (simp_all add: symbolic_ram_def)
  from ram_write_then_check [where h = "0x1007E" and bs = "[1, 2, 3, 4]", unfolded len,
      OF pc_space_laws pc_const_laws symbolic_ram_distinct symbolic_ram_range symbolic_ram_coherent this]
  show ?thesis by blast
qed

theorem ram_read_concretizes_witness:
  "\<exists>bs st1 st2. readRamConcrete pc_ops 0x1007E 4 symbolic_ram = Inr (bs, st1) \<and> length bs = 4 \<and>
    readRamConcreteCheck pc_ops 0x1007E 4 st1 = Inr (bs, st2)"
proof -
  have "m_active symbolic_ram" "m_runningConcrete symbolic_ram" "set (snd (klee symbolic_ram)) \<noteq> {}"
    by (simp_all add: symbolic_ram_def)
  then show ?thesis using ram_read_concretizes [OF pc_space_laws pc_const_laws pc_expr_laws pc_concretize_laws
      symbolic_ram_distinct symbolic_ram_range symbolic_ram_coherent] by fastforce
qed

end
