(* ===== verification/Cpu_State.thy ===== *)
theory Cpu_State
  imports Ram_Access
begin

text \<open>
  The registers of an execution state (\<open>S2EExecutionState.cpp\<close>): general registers, which may be
  symbolic and live either in an object state or in QEMU's structure, the concrete remainder of
  the CPU state, the routines built on them, the flags of a state, and the start of a merge.
\<close>

section \<open>State\<close>

text \<open>The layout of \<open>CPUArchState\<close> is a parameter; the first \<open>CPU_CONC_LIMIT\<close> bytes may be symbolic.\<close>

datatype arch = ARM | I386 | X86_64

record cpu_conf =
  cpu_arch :: arch
  CPU_CONC_LIMIT :: nat
  CPU_SIZE :: nat
  CPU_REG_SIZE :: nat
  regs_offset :: nat
  cr3_offset :: nat
  cpu_address :: u64
  cs64 :: bool

record sym_array =
  a_name :: string
  a_bytes :: nat

text \<open>\<open>m_cpuRegistersObject\<close> and \<open>m_cpuSystemObject\<close> are the bytes of the object states, the first
  null until the registers are registered; \<open>cpu_registers\<close> and \<open>cpu_system\<close> are the shared memory
  of the active state.\<close>

record ('e, 'o, 'k) exec_state =
  m_stateID :: nat
  ram :: "('o, 'k) ram_state"
  m_symbexEnabled :: bool
  forkDisabled :: bool
  m_zombie :: bool
  m_yielded :: bool
  m_speculative :: bool
  m_runningExceptionEmulationCode :: bool
  m_startSymbexAtPC :: u64
  m_toRunSymbolically :: "(u64 \<times> u64) set"
  m_cpuRegistersObject :: "'e list option"
  m_cpuSystemObject :: "u8 list"
  cpu_registers :: "u8 list"
  cpu_system :: "u8 list"
  m_nextSymbVarId :: u32
  symbolics :: "(string \<times> sym_array) list"
  concolics :: "(sym_array \<times> u8 list) list"
  klee_pc :: nat
  stack :: "(nat \<times> nat) list"

definition min_bytes :: "nat \<Rightarrow> nat" where "min_bytes w = (w + 7) div 8"

definition le_word :: "u8 list \<Rightarrow> u64" where "le_word bs = of_nat (le_value (map unat bs))"

text \<open>\<open>small_memcpy\<close> into a buffer.\<close>

definition put_bytes :: "nat \<Rightarrow> u8 list \<Rightarrow> u8 list \<Rightarrow> u8 list" where
  "put_bytes off bs mem = take off mem @ bs @ drop (off + length bs) mem"

definition registers_object :: "('e, 'o, 'k) exec_state \<Rightarrow> 'e list res" where
  "registers_object st = (case m_cpuRegistersObject st of None \<Rightarrow> Inl Undefined_Behaviour | Some bs \<Rightarrow> Inr bs)"

text \<open>\<open>ObjectState::isConcrete\<close>.\<close>

definition isConcrete :: "('e, 'o, 'k) klee_ops \<Rightarrow> 'e list \<Rightarrow> nat \<Rightarrow> nat \<Rightarrow> bool" where
  "isConcrete kl bs off w = list_all (\<lambda>b. e_value kl b \<noteq> None) (take (min_bytes w) (drop off bs))"

definition valid_width :: "nat \<Rightarrow> bool" where "valid_width w \<longleftrightarrow> (w = 1 \<or> w mod 8 = 0) \<and> w \<le> 64"

section \<open>General registers\<close>

definition readCpuRegister ::
  "('e, 'o, 'k) klee_ops \<Rightarrow> cpu_conf \<Rightarrow> nat \<Rightarrow> nat \<Rightarrow> ('e, 'o, 'k) exec_state \<Rightarrow> 'e res" where
  "readCpuRegister kl cf off w st =
     rbind (assert_that (valid_width w)) (\<lambda>_.
     rbind (assert_that (off + min_bytes w \<le> CPU_CONC_LIMIT cf)) (\<lambda>_.
     rbind (registers_object st) (\<lambda>bs.
       if \<not> m_runningConcrete (ram st) \<or> \<not> isConcrete kl bs off w then Inr (os_read kl bs off w)
       else Inr (e_const kl (le_word (take (min_bytes w) (drop off (cpu_registers st)))) w))))"

definition writeCpuRegister ::
  "('e, 'o, 'k) klee_ops \<Rightarrow> cpu_conf \<Rightarrow> nat \<Rightarrow> 'e \<Rightarrow> ('e, 'o, 'k) exec_state \<Rightarrow> ('e, 'o, 'k) exec_state res" where
  "writeCpuRegister kl cf off v st =
     (let w = e_width kl v in
      rbind (assert_that (valid_width w)) (\<lambda>_.
      rbind (assert_that (off + min_bytes w \<le> CPU_CONC_LIMIT cf)) (\<lambda>_.
      rbind (registers_object st) (\<lambda>bs.
        if \<not> m_runningConcrete (ram st) \<or> \<not> isConcrete kl bs off w
        then Inr (st\<lparr>m_cpuRegistersObject := Some (os_write kl bs off v)\<rparr>)
        else (case e_value kl v of
            None \<Rightarrow> Inl Assertion_Failed
          | Some c \<Rightarrow> Inr (st\<lparr>cpu_registers := put_bytes off (le_bytes (min_bytes w) c) (cpu_registers st)\<rparr>))))))"

definition writeCpuRegisterSymbolic ::
  "('e, 'o, 'k) klee_ops \<Rightarrow> cpu_conf \<Rightarrow> nat \<Rightarrow> 'e \<Rightarrow> ('e, 'o, 'k) exec_state \<Rightarrow> ('e, 'o, 'k) exec_state res" where
  "writeCpuRegisterSymbolic kl cf off v st =
     (let w = e_width kl v in
      rbind (assert_that (valid_width w)) (\<lambda>_.
      rbind (assert_that (off + min_bytes w \<le> CPU_CONC_LIMIT cf)) (\<lambda>_.
      rbind (registers_object st) (\<lambda>bs.
        Inr (st\<lparr>m_cpuRegistersObject := Some (os_write kl bs off v)\<rparr>)))))"

definition readCpuRegisterConcrete ::
  "('e, 'o, 'k) klee_ops \<Rightarrow> cpu_conf \<Rightarrow> nat \<Rightarrow> nat \<Rightarrow> ('e, 'o, 'k) exec_state \<Rightarrow> u8 list option res" where
  "readCpuRegisterConcrete kl cf off n st =
     rbind (assert_that (n \<le> 8)) (\<lambda>_.
     rbind (readCpuRegister kl cf off (n * 8) st) (\<lambda>e.
       Inr (map_option (le_bytes n) (e_value kl e))))"

text \<open>A buffer of more than eight bytes overruns the local variable.\<close>

definition writeCpuRegisterConcrete ::
  "('e, 'o, 'k) klee_ops \<Rightarrow> cpu_conf \<Rightarrow> nat \<Rightarrow> u8 list \<Rightarrow> ('e, 'o, 'k) exec_state \<Rightarrow> ('e, 'o, 'k) exec_state res" where
  "writeCpuRegisterConcrete kl cf off buf st =
     rbind (ensure_defined (length buf \<le> 8)) (\<lambda>_.
       writeCpuRegister kl cf off (e_const kl (le_word buf) (length buf * 8)) st)"

section \<open>Concrete CPU state\<close>

definition system_bytes :: "('e, 'o, 'k) exec_state \<Rightarrow> u8 list" where
  "system_bytes st = (if m_active (ram st) then cpu_system st else m_cpuSystemObject st)"

definition readCpuState :: "cpu_conf \<Rightarrow> nat \<Rightarrow> nat \<Rightarrow> ('e, 'o, 'k) exec_state \<Rightarrow> u64 res" where
  "readCpuState cf off w st =
     rbind (assert_that (valid_width w)) (\<lambda>_.
     rbind (assert_that (CPU_CONC_LIMIT cf \<le> off)) (\<lambda>_.
     rbind (assert_that (off + min_bytes w \<le> CPU_SIZE cf)) (\<lambda>_.
       let v = le_word (take (min_bytes w) (drop (off - CPU_CONC_LIMIT cf) (system_bytes st)))
       in Inr (if w = 1 then v AND 1 else v))))"

definition writeCpuState :: "cpu_conf \<Rightarrow> nat \<Rightarrow> u64 \<Rightarrow> nat \<Rightarrow> ('e, 'o, 'k) exec_state \<Rightarrow> ('e, 'o, 'k) exec_state res" where
  "writeCpuState cf off value w st =
     rbind (assert_that (valid_width w)) (\<lambda>_.
     rbind (assert_that (CPU_CONC_LIMIT cf \<le> off)) (\<lambda>_.
     rbind (assert_that (off + min_bytes w \<le> CPU_SIZE cf)) (\<lambda>_.
       let v = (if w = 1 then value AND 1 else value);
           new = put_bytes (off - CPU_CONC_LIMIT cf) (le_bytes (min_bytes w) v) (system_bytes st)
       in Inr (if m_active (ram st) then st\<lparr>cpu_system := new\<rparr> else st\<lparr>m_cpuSystemObject := new\<rparr>))))"

definition getPc :: "cpu_conf \<Rightarrow> ('e, 'o, 'k) exec_state \<Rightarrow> u64 res" where
  "getPc cf st = readCpuState cf (CPU_CONC_LIMIT cf) (8 * CPU_REG_SIZE cf) st"

definition setPc :: "cpu_conf \<Rightarrow> u64 \<Rightarrow> ('e, 'o, 'k) exec_state \<Rightarrow> ('e, 'o, 'k) exec_state res" where
  "setPc cf pc st = writeCpuState cf (CPU_CONC_LIMIT cf) pc (CPU_REG_SIZE cf * 8) st"

definition getPid :: "cpu_conf \<Rightarrow> ('e, 'o, 'k) exec_state \<Rightarrow> u64 res" where
  "getPid cf st = (if cpu_arch cf = ARM then Inr (- 1) else readCpuState cf (cr3_offset cf) (8 * CPU_REG_SIZE cf) st)"

definition stack_register :: "cpu_conf \<Rightarrow> nat" where
  "stack_register cf = (if cpu_arch cf = ARM then regs_offset cf + 13 * CPU_REG_SIZE cf else regs_offset cf + 4 * CPU_REG_SIZE cf)"

definition setSp ::
  "('e, 'o, 'k) klee_ops \<Rightarrow> cpu_conf \<Rightarrow> u64 \<Rightarrow> ('e, 'o, 'k) exec_state \<Rightarrow> ('e, 'o, 'k) exec_state res" where
  "setSp kl cf sp st = writeCpuRegisterConcrete kl cf (stack_register cf) (le_bytes (CPU_REG_SIZE cf) sp) st"

text \<open>\<open>cast<ConstantExpr>\<close> asserts that the expression is a constant.\<close>

definition getSp :: "('e, 'o, 'k) klee_ops \<Rightarrow> cpu_conf \<Rightarrow> ('e, 'o, 'k) exec_state \<Rightarrow> u64 res" where
  "getSp kl cf st = rbind (readCpuRegister kl cf (stack_register cf) (8 * CPU_REG_SIZE cf) st) (\<lambda>e.
     case e_value kl e of None \<Rightarrow> Inl Assertion_Failed | Some c \<Rightarrow> Inr c)"

section \<open>Calls\<close>

text \<open>\<open>target_ulong\<close> has \<open>CPU_REG_SIZE\<close> bytes; on I386 the return address is read from the stack.\<close>

definition target_ulong :: "cpu_conf \<Rightarrow> u64 \<Rightarrow> u64" where
  "target_ulong cf v = take_bit (8 * CPU_REG_SIZE cf) v"

definition getReturnAddress ::
  "('e, 'o, 'k) klee_ops \<Rightarrow> qemu_ops \<Rightarrow> cpu_conf \<Rightarrow> ('e, 'o, 'k) exec_state \<Rightarrow> (u64 option \<times> ('e, 'o, 'k) exec_state) res" where
  "getReturnAddress kl q cf st =
     (if cpu_arch cf = ARM then
        rbind (readCpuRegisterConcrete kl cf (regs_offset cf + 14 * CPU_REG_SIZE cf) (CPU_REG_SIZE cf) st) (\<lambda>r.
          Inr (map_option le_word r, st))
      else let n = (if cpu_arch cf = X86_64 \<and> cs64 cf then CPU_REG_SIZE cf else 4) in
        rbind (getSp kl cf st) (\<lambda>sp.
        rbind (readMemoryConcrete kl q sp n VirtualAddress (ram st)) (\<lambda>(ok, bs, ram').
          Inr (if ok then Some (le_word bs) else None, st\<lparr>ram := ram'\<rparr>))))"

definition popped_bytes :: "cpu_conf \<Rightarrow> u32 \<Rightarrow> u64" where
  "popped_bytes cf n = (case cpu_arch cf of
       ARM \<Rightarrow> if 4 < n then ucast (n - 3) * of_nat (CPU_REG_SIZE cf) else of_nat (CPU_REG_SIZE cf)
     | I386 \<Rightarrow> ucast (n + 1) * 4
     | X86_64 \<Rightarrow> if cs64 cf then (if 6 < n then ucast (n - 5) * of_nat (CPU_REG_SIZE cf) else of_nat (CPU_REG_SIZE cf)) else 0)"

text \<open>For \<open>TARGET_X86_64\<close> the preprocessor leaves the update of the registers as the \<open>else\<close> branch of the
  test of the 64-bit mode.\<close>

definition bypassFunction ::
  "('e, 'o, 'k) klee_ops \<Rightarrow> qemu_ops \<Rightarrow> cpu_conf \<Rightarrow> u32 \<Rightarrow> ('e, 'o, 'k) exec_state \<Rightarrow>
   (bool \<times> ('e, 'o, 'k) exec_state) res" where
  "bypassFunction kl q cf n st =
     rbind (getReturnAddress kl q cf st) (\<lambda>(ret, st1).
     rbind (getSp kl cf st1) (\<lambda>sp.
       let newSp = target_ulong cf (target_ulong cf sp + popped_bytes cf n) in
       case ret of
         None \<Rightarrow> Inr (False, st1)
       | Some a \<Rightarrow>
           if cpu_arch cf = X86_64 \<and> cs64 cf then Inr (True, st1)
           else let a' = (if cpu_arch cf = ARM \<and> odd a then a AND NOT 1 else a) in
             rbind (setSp kl cf newSp st1) (\<lambda>st2. rbind (setPc cf a' st2) (\<lambda>st3. Inr (True, st3)))))"

section \<open>Access from concrete code\<close>

text \<open>The name of a register in the reason given to the solver.\<close>

definition register_name :: "arch \<Rightarrow> nat \<Rightarrow> string" where
  "register_name ar off = (if ar \<noteq> ARM then ''unknown''
     else if off = 116 then ''CF'' else if off = 120 then ''VF'' else if off = 124 then ''NF'' else if off = 128 then ''ZF''
     else if off = 132 then ''r0'' else if off = 136 then ''r1'' else if off = 140 then ''r2'' else if off = 144 then ''r3''
     else if off = 148 then ''r4'' else if off = 152 then ''r5'' else if off = 156 then ''r6'' else if off = 160 then ''r7''
     else if off = 164 then ''r8'' else if off = 168 then ''r9'' else if off = 172 then ''r10'' else if off = 176 then ''r11''
     else if off = 180 then ''r12'' else if off = 184 then ''r13'' else if off = 188 then ''r14'' else if off = 192 then ''r15''
     else ''unknown'')"

text \<open>The bytes read so far, the object and KLEE's part of the state.\<close>

fun concretize_register :: "('e, 'o, 'k) klee_ops \<Rightarrow> nat \<Rightarrow> nat \<Rightarrow> 'e list \<Rightarrow> 'k \<Rightarrow> u8 list \<times> 'e list \<times> 'k" where
  "concretize_register kl off 0 bs k = ([], bs, k)"
| "concretize_register kl off (Suc n) bs k = (case e_value kl (bs ! off) of
      Some c \<Rightarrow> (case concretize_register kl (off + 1) n bs k of (buf, r) \<Rightarrow> (ucast c # buf, r))
    | None \<Rightarrow> (case to_constant kl (bs ! off) k of (c, k1) \<Rightarrow>
        let b = ucast c :: u8 in
        (case concretize_register kl (off + 1) n (bs[off := e_const kl (ucast b) 8]) k1 of (buf, r) \<Rightarrow> (b # buf, r))))"

definition readRegisterConcrete ::
  "('e, 'o, 'k) klee_ops \<Rightarrow> cpu_conf \<Rightarrow> u64 \<Rightarrow> nat \<Rightarrow> nat \<Rightarrow> ('e, 'o, 'k) exec_state \<Rightarrow>
   (u8 list \<times> ('e, 'o, 'k) exec_state) res" where
  "readRegisterConcrete kl cf cpuState off n st =
     rbind (assert_that (m_active (ram st) \<and> cpuState = cpu_address cf \<and> off + n \<le> CPU_CONC_LIMIT cf)) (\<lambda>_.
     rbind (registers_object st) (\<lambda>bs.
       if \<not> m_runningConcrete (ram st) \<or> \<not> isConcrete kl bs off (n * 8) then
         (case concretize_register kl off n bs (klee (ram st)) of (buf, bs', k) \<Rightarrow>
           Inr (buf, st\<lparr>m_cpuRegistersObject := Some bs', ram := (ram st)\<lparr>klee := k\<rparr>\<rparr>))
       else Inr (take n (drop off (cpu_registers st)), st)))"

definition writeRegisterConcrete ::
  "('e, 'o, 'k) klee_ops \<Rightarrow> cpu_conf \<Rightarrow> u64 \<Rightarrow> nat \<Rightarrow> u8 list \<Rightarrow> ('e, 'o, 'k) exec_state \<Rightarrow>
   ('e, 'o, 'k) exec_state res" where
  "writeRegisterConcrete kl cf cpuState off buf st =
     rbind (assert_that (m_active (ram st) \<and> cpuState = cpu_address cf \<and> off + length buf \<le> CPU_CONC_LIMIT cf)) (\<lambda>_.
     rbind (registers_object st) (\<lambda>bs.
       if \<not> m_runningConcrete (ram st) \<or> \<not> isConcrete kl bs off (length buf * 8) then
         Inr (st\<lparr>m_cpuRegistersObject := Some (take off bs @ map (\<lambda>b. e_const kl (ucast b) 8) buf @ drop (off + length buf) bs)\<rparr>)
       else Inr (st\<lparr>cpu_registers := put_bytes off buf (cpu_registers st)\<rparr>)))"

definition s2e_read_register_concrete where "s2e_read_register_concrete kl cf cpu off n st = readRegisterConcrete kl cf cpu off n st"
definition s2e_write_register_concrete where "s2e_write_register_concrete kl cf cpu off buf st = writeRegisterConcrete kl cf cpu off buf st"

section \<open>Mask of symbolic registers\<close>

text \<open>\<open>1 << i\<close> of an \<open>int\<close>, converted to 64 bits; undefined from 31 on.\<close>

definition int_bit :: "nat \<Rightarrow> u64 res" where
  "int_bit i = rbind (ensure_defined (i < 31)) (\<lambda>_. Inr (2 ^ i))"

text \<open>The words of \<open>CPUARMState\<close> that the mask covers, each with its bit, in the order of the tests:
  flags, registers, \<open>spsr\<close> and the banked registers.\<close>

definition arm_mask_words :: "(nat \<times> nat) list" where
  "arm_mask_words = [(29, 1), (30, 2), (31, 3), (32, 4)] @ map (\<lambda>i. (33 + i, i + 5)) [0..<15] @ [(0, 20)] @
     map (\<lambda>i. (1 + i, i + 21)) [0..<6] @ map (\<lambda>i. (7 + i, i + 27)) [0..<6] @ map (\<lambda>i. (13 + i, i + 33)) [0..<6] @
     map (\<lambda>i. (19 + i, i + 39)) [0..<5] @ map (\<lambda>i. (24 + i, i + 44)) [0..<5]"

fun mask_loop :: "('e, 'o, 'k) klee_ops \<Rightarrow> 'e list \<Rightarrow> (nat \<times> nat) list \<Rightarrow> u64 \<Rightarrow> u64 res" where
  "mask_loop kl bs [] acc = Inr acc"
| "mask_loop kl bs ((word, i) # ws) acc =
     (if \<not> isConcrete kl bs (word * 4) (4 * 8) then rbind (int_bit i) (\<lambda>b. mask_loop kl bs ws (acc OR b))
      else mask_loop kl bs ws acc)"

definition getSymbolicRegistersMask :: "('e, 'o, 'k) klee_ops \<Rightarrow> cpu_conf \<Rightarrow> ('e, 'o, 'k) exec_state \<Rightarrow> u64 res" where
  "getSymbolicRegistersMask kl cf st =
     rbind (registers_object st) (\<lambda>bs.
       if list_all (\<lambda>b. e_value kl b \<noteq> None) bs then Inr 0
       else if cpu_arch cf = ARM then mask_loop kl bs arm_mask_words 0
       else Inl Assertion_Failed)"

text \<open>The flags of ARM: \<open>cpsr_read\<close> and the words of the CPU state are QEMU's.\<close>

record arm_flags =
  CF :: u32
  VF :: u32
  NF :: u32
  ZF :: u32
  QF :: u32
  thumb :: u32
  condexec_bits :: u32
  GE :: u32
  uncached_cpsr :: u32

definition getFlags ::
  "('e, 'o, 'k) klee_ops \<Rightarrow> cpu_conf \<Rightarrow> (arm_flags \<Rightarrow> u32) \<Rightarrow> arm_flags \<Rightarrow> ('e, 'o, 'k) exec_state \<Rightarrow> u64 res" where
  "getFlags kl cf cpsr_read env st =
     rbind (getSymbolicRegistersMask kl cf st) (\<lambda>mask.
       let sy = mask AND 0x0F in
       if sy = 0 then Inr (ucast (cpsr_read env))
       else let cf' = (if sy AND 1 \<noteq> 0 then 0 else push_bit 29 (CF env));
                vf = (if sy AND 2 \<noteq> 0 then 0 else drop_bit 3 (VF env AND 0x80000000));
                nf = (if sy AND 4 \<noteq> 0 then 0 else NF env AND 0x80000000);
                zf = (if sy AND 8 \<noteq> 0 then 0 else if ZF env = 0 then 1 else 0 :: u32)
            in Inr (ucast (uncached_cpsr env OR nf OR push_bit 30 zf OR cf' OR vf OR push_bit 27 (QF env) OR
                 push_bit 5 (thumb env) OR push_bit 25 (condexec_bits env AND 3) OR
                 push_bit 8 (condexec_bits env AND 0xfc) OR push_bit 16 (GE env))))"

section \<open>Switches and flags of a state\<close>

definition enableSymbolicExecution :: "('e, 'o, 'k) exec_state \<Rightarrow> ('e, 'o, 'k) exec_state" where
  "enableSymbolicExecution st = (if m_symbexEnabled st then st else st\<lparr>m_symbexEnabled := True\<rparr>)"

definition disableSymbolicExecution :: "('e, 'o, 'k) exec_state \<Rightarrow> ('e, 'o, 'k) exec_state" where
  "disableSymbolicExecution st = (if \<not> m_symbexEnabled st then st else st\<lparr>m_symbexEnabled := False\<rparr>)"

definition enableForking :: "('e, 'o, 'k) exec_state \<Rightarrow> ('e, 'o, 'k) exec_state" where
  "enableForking st = (if \<not> forkDisabled st then st else st\<lparr>forkDisabled := False\<rparr>)"

definition disableForking :: "('e, 'o, 'k) exec_state \<Rightarrow> ('e, 'o, 'k) exec_state" where
  "disableForking st = (if forkDisabled st then st else st\<lparr>forkDisabled := True\<rparr>)"

definition isForkingEnabled :: "('e, 'o, 'k) exec_state \<Rightarrow> bool" where
  "isForkingEnabled st = (\<not> forkDisabled st)"

definition setForking :: "bool \<Rightarrow> ('e, 'o, 'k) exec_state \<Rightarrow> ('e, 'o, 'k) exec_state" where
  "setForking enable st = st\<lparr>forkDisabled := \<not> enable\<rparr>"

definition zombify :: "('e, 'o, 'k) exec_state \<Rightarrow> ('e, 'o, 'k) exec_state" where
  "zombify st = st\<lparr>m_zombie := True\<rparr>"

definition state_yield :: "bool \<Rightarrow> ('e, 'o, 'k) exec_state \<Rightarrow> ('e, 'o, 'k) exec_state res" where
  "state_yield new st = rbind (assert_that (m_yielded st = (\<not> new))) (\<lambda>_. Inr (st\<lparr>m_yielded := new\<rparr>))"

definition setRunningExceptionEmulationCode :: "bool \<Rightarrow> ('e, 'o, 'k) exec_state \<Rightarrow> ('e, 'o, 'k) exec_state" where
  "setRunningExceptionEmulationCode v st = st\<lparr>m_runningExceptionEmulationCode := v\<rparr>"

definition s2e_is_runnable :: "('e, 'o, 'k) exec_state \<Rightarrow> bool" where
  "s2e_is_runnable st = (\<not> m_zombie st \<and> \<not> m_speculative st \<and> \<not> m_yielded st)"

text \<open>The exception that leaves to the CPU loop, with the state at that point, or a normal return.\<close>

datatype 's outcome = Returned 's | Cpu_Exits 's

definition needToJumpToSymbolic :: "('e, 'o, 'k) exec_state \<Rightarrow> bool" where
  "needToJumpToSymbolic st = m_runningConcrete (ram st)"

definition jumpToSymbolicCpp :: "cpu_conf \<Rightarrow> ('e, 'o, 'k) exec_state \<Rightarrow> ('e, 'o, 'k) exec_state outcome res" where
  "jumpToSymbolicCpp cf st =
     (if \<not> m_runningConcrete (ram st) then Inr (Returned st)
      else rbind (getPc cf st) (\<lambda>pc. rbind (getPid cf st) (\<lambda>pid.
        Inr (Cpu_Exits (st\<lparr>m_toRunSymbolically := insert (pc, pid) (m_toRunSymbolically st), m_startSymbexAtPC := pc\<rparr>)))))"

text \<open>The jumps end in failing assertions in this version.\<close>

definition jumpToSymbolic :: "('e, 'o, 'k) exec_state \<Rightarrow> unit res" where
  "jumpToSymbolic st = rbind (assert_that (m_active (ram st) \<and> m_runningConcrete (ram st))) (\<lambda>_. Inl Assertion_Failed)"

definition undoCallAndJumpToSymbolic :: "('e, 'o, 'k) exec_state \<Rightarrow> unit res" where
  "undoCallAndJumpToSymbolic st = (if needToJumpToSymbolic st then Inl Assertion_Failed else Inr ())"

text \<open>\<open>dumpStack\<close> with one argument passes the stack pointer as the number of words to itself; the dump
  reads words, and a null expression is a failing cast.\<close>

partial_function (option) dumpStack_self ::
  "('e, 'o, 'k) klee_ops \<Rightarrow> cpu_conf \<Rightarrow> u32 \<Rightarrow> ('e, 'o, 'k) exec_state \<Rightarrow> unit res option" where
  "dumpStack_self kl cf count st = (case getSp kl cf st of
     Inl e \<Rightarrow> Some (Inl e) | Inr sp \<Rightarrow> dumpStack_self kl cf (ucast sp) st)"

fun dumpStack ::
  "('e, 'o, 'k) klee_ops \<Rightarrow> qemu_ops \<Rightarrow> nat \<Rightarrow> u64 \<Rightarrow> ('o, 'k) ram_state \<Rightarrow> ('o, 'k) ram_state res" where
  "dumpStack kl q 0 a st = Inr st"
| "dumpStack kl q (Suc n) a st = rbind (readMemory kl q a 32 VirtualAddress st) (\<lambda>(v, st').
     case v of None \<Rightarrow> Inl Assertion_Failed | Some e \<Rightarrow> dumpStack kl q n (a + 4) st')"

text \<open>The part of \<open>merge\<close> before the comparison of the CPU states, which is a failing assertion in this
  version; a difference of two frames alone does not stop it.\<close>

fun same_depth :: "'a list \<Rightarrow> 'b list \<Rightarrow> bool" where
  "same_depth [] [] = True"
| "same_depth (_ # as) (_ # bs) = same_depth as bs"
| "same_depth _ _ = False"

definition merge :: "('e, 'o, 'k) exec_state \<Rightarrow> ('e, 'o, 'k) exec_state \<Rightarrow> bool res" where
  "merge a b =
     rbind (assert_that (\<not> m_active (ram a) \<and> \<not> m_active (ram b))) (\<lambda>_.
       if klee_pc a \<noteq> klee_pc b then Inr False
       else if symbolics a \<noteq> symbolics b then Inr False
       else if \<not> same_depth (stack a) (stack b) then Inr False
       else Inl Assertion_Failed)"

text \<open>The constructor; the identifier comes from the counter shared by the processes.\<close>

definition S2EExecutionState_new :: "nat \<Rightarrow> 'k \<Rightarrow> nat \<Rightarrow> ('e, 'o, 'k) exec_state" where
  "S2EExecutionState_new ident k kf =
     \<lparr>m_stateID = ident,
      ram = \<lparr>m_active = True, m_runningConcrete = True, m_memcache = [], klee = k\<rparr>,
      m_symbexEnabled = True, forkDisabled = False, m_zombie = False, m_yielded = False, m_speculative = False,
      m_runningExceptionEmulationCode = False, m_startSymbexAtPC = - 1, m_toRunSymbolically = {},
      m_cpuRegistersObject = None, m_cpuSystemObject = [], cpu_registers = [], cpu_system = [],
      m_nextSymbVarId = 0, symbolics = [], concolics = [], klee_pc = kf, stack = []\<rparr>"


section \<open>Bytes of integers\<close>

lemma unat_le_bytes: "i < n \<Longrightarrow> unat (le_bytes n v ! i) = unat v div 256 ^ i mod 256"
proof -
  assume "i < n"
  then have "unat (le_bytes n v ! i) = unat (drop_bit (8 * i) v) mod 256"
    by (simp add: le_bytes_def unsigned_ucast_eq take_bit_eq_mod)
  also have "unat (drop_bit (8 * i) v) = unat v div 256 ^ i" by (simp only: unat_high_bits power_mult) simp
  finally show ?thesis .
qed

lemma length_le_bytes [simp]: "length (le_bytes n v) = n"
  by (simp add: le_bytes_def)

lemma le_bytes_digits: "map unat (le_bytes n v) = digits n (unat v)"
  by (rule nth_equalityI) (simp_all add: unat_le_bytes digits_nth)

lemma le_word_le_bytes: "le_word (le_bytes n v) = take_bit (8 * n) v"
proof -
  have "le_value (map unat (le_bytes n v)) = take_bit (8 * n) (unat v)"
    by (simp add: le_bytes_digits le_value_digits take_bit_eq_mod power_mult)
  also have "\<dots> = unat (take_bit (8 * n) v)" by (rule unsigned_take_bit_eq [symmetric])
  finally show ?thesis by (simp add: le_word_def)
qed

lemma take_put: "off + length bs \<le> length mem \<Longrightarrow> take (length bs) (drop off (put_bytes off bs mem)) = bs"
  by (simp add: put_bytes_def)

lemma length_put [simp]: "off + length bs \<le> length mem \<Longrightarrow> length (put_bytes off bs mem) = length mem"
  by (simp add: put_bytes_def)

lemma nth_put:
  assumes fit: "off + length bs \<le> length mem" and j: "j < length mem"
  shows "put_bytes off bs mem ! j = (if off \<le> j \<and> j < off + length bs then bs ! (j - off) else mem ! j)"
proof -
  have off: "length (take off mem) = off" using fit by simp
  consider "j < off" | "off \<le> j" "j < off + length bs" | "off + length bs \<le> j" by linarith
  then show ?thesis
  proof cases
    case 3
    then have "off + length bs + (j - off - length bs) = j" "\<not> j - off < length bs" "\<not> j < off"
      "\<not> j < off + length bs" by auto
    with j off show ?thesis by (simp add: put_bytes_def nth_append)
  next
    case 2
    then have "j - off < length bs" "\<not> j < off" by auto
    with 2 off show ?thesis by (simp add: put_bytes_def nth_append)
  qed (use off in \<open>simp_all add: put_bytes_def nth_append\<close>)
qed

lemma take_put_other:
  assumes "off + length bs \<le> length mem" "off' + n \<le> length mem" "off' + n \<le> off \<or> off + length bs \<le> off'"
  shows "take n (drop off' (put_bytes off bs mem)) = take n (drop off' mem)"
proof (rule nth_equalityI)
  fix i assume "i < length (take n (drop off' (put_bytes off bs mem)))"
  then have "i < n" by simp
  then show "take n (drop off' (put_bytes off bs mem)) ! i = take n (drop off' mem) ! i"
    using assms nth_put [OF assms(1), of "off' + i"] by auto
qed (use assms in simp)

section \<open>Registers\<close>

text \<open>Constants of up to 64 bits.\<close>

definition wide_laws :: "('e, 'o, 'k) klee_ops \<Rightarrow> ('e \<Rightarrow> 'm \<Rightarrow> nat) \<Rightarrow> bool" where
  "wide_laws kl ev \<longleftrightarrow> (\<forall>c n m. n \<le> 8 \<longrightarrow> ev (e_const kl c (8 * n)) m = unat (take_bit (8 * n) c)) \<and>
     (\<forall>c n. n \<le> 8 \<longrightarrow> e_value kl (e_const kl c (8 * n)) = Some (take_bit (8 * n) c)) \<and>
     (\<forall>c w. e_width kl (e_const kl c w) = w)"

lemma wide_const: "wide_laws kl ev \<Longrightarrow> n \<le> 8 \<Longrightarrow> ev (e_const kl c (8 * n)) m = unat (take_bit (8 * n) c)"
  "wide_laws kl ev \<Longrightarrow> n \<le> 8 \<Longrightarrow> e_value kl (e_const kl c (8 * n)) = Some (take_bit (8 * n) c)"
  by (simp_all add: wide_laws_def)

definition registers_ok :: "('e, 'o, 'k) klee_ops \<Rightarrow> cpu_conf \<Rightarrow> ('e, 'o, 'k) exec_state \<Rightarrow> 'e list \<Rightarrow> bool" where
  "registers_ok kl cf st bs \<longleftrightarrow> m_cpuRegistersObject st = Some bs \<and> length bs = CPU_CONC_LIMIT cf \<and>
     (\<forall>b\<in>set bs. e_width kl b = 8) \<and> length (cpu_registers st) = CPU_CONC_LIMIT cf"

text \<open>The register is where the mode of the state says that it is.\<close>

definition in_object :: "('e, 'o, 'k) klee_ops \<Rightarrow> ('e, 'o, 'k) exec_state \<Rightarrow> 'e list \<Rightarrow> nat \<Rightarrow> nat \<Rightarrow> bool" where
  "in_object kl st bs off n \<longleftrightarrow> \<not> m_runningConcrete (ram st) \<or> \<not> isConcrete kl bs off (8 * n)"

lemma min_bytes_8 [simp]: "min_bytes (8 * n) = n" "min_bytes (n * 8) = n"
  by (simp_all add: min_bytes_def)

lemma valid_8: "n \<le> 8 \<Longrightarrow> valid_width (8 * n)"
  by (simp add: valid_width_def)

lemma readCpuRegister_eq:
  assumes "registers_ok kl cf st bs" "n \<le> 8" "off + n \<le> CPU_CONC_LIMIT cf"
  shows "readCpuRegister kl cf off (8 * n) st = (if in_object kl st bs off n then Inr (os_read kl bs off (8 * n))
    else Inr (e_const kl (le_word (take n (drop off (cpu_registers st)))) (8 * n)))"
  using assms by (simp add: readCpuRegister_def registers_ok_def registers_object_def in_object_def valid_8)

lemma writeCpuRegister_eq:
  assumes "registers_ok kl cf st bs" "n \<le> 8" "off + n \<le> CPU_CONC_LIMIT cf" "e_width kl v = 8 * n"
  shows "writeCpuRegister kl cf off v st = (if in_object kl st bs off n then Inr (st\<lparr>m_cpuRegistersObject := Some (os_write kl bs off v)\<rparr>)
    else case e_value kl v of None \<Rightarrow> Inl Assertion_Failed
      | Some c \<Rightarrow> Inr (st\<lparr>cpu_registers := put_bytes off (le_bytes n c) (cpu_registers st)\<rparr>))"
  using assms
  by (cases "e_value kl v") (simp_all add: writeCpuRegister_def registers_ok_def registers_object_def in_object_def valid_8 Let_def)

lemma os_write_shape:
  assumes "object_laws kl ev"
  shows "length (os_write kl bs off v) = length bs"
    "\<forall>b\<in>set bs. e_width kl b = 8 \<Longrightarrow> \<forall>b\<in>set (os_write kl bs off v). e_width kl b = 8"
  using assms unfolding object_laws_def by blast+

lemma os_write_read:
  assumes laws: "expr_laws kl ev" "object_laws kl ev" and bs: "\<forall>b\<in>set bs. e_width kl b = 8" and w: "e_width kl v = 8 * n" "0 < n"
    and fit: "off + n \<le> length bs"
  shows "ev (os_read kl (os_write kl bs off v) off (8 * n)) m = ev v m"
    "0 < n' \<Longrightarrow> off' + n' \<le> length bs \<Longrightarrow> off' + n' \<le> off \<or> off + n \<le> off' \<Longrightarrow>
      ev (os_read kl (os_write kl bs off v) off' (8 * n')) m = ev (os_read kl bs off' (8 * n')) m"
proof -
  let ?bs = "os_write kl bs off v"
  note len = os_write_shape [OF laws(2)] os_write_shape(2) [OF laws(2) bs]
  have rd: "ev (os_read kl cs i (8 * k)) m = le_value (map (\<lambda>b. ev b m) (take k (drop i cs)))"
    if "0 < k" "i + k \<le> length cs" "\<forall>b\<in>set cs. e_width kl b = 8" for cs i k
    using laws(2) that by (simp add: object_laws_def)
  note val = os_write_values [OF laws(2) w(1) fit]
  have "map (\<lambda>b. ev b m) (take n (drop off ?bs)) = digits n (ev v m)"
    by (rule nth_equalityI) (use fit len val in \<open>simp_all add: digits_nth\<close>)
  moreover have "ev v m < 256 ^ n"
  proof -
    have "ev v m < 2 ^ e_width kl v" using laws(1) unfolding expr_laws_def by blast
    then show ?thesis by (simp add: w(1) power_mult)
  qed
  ultimately show "ev (os_read kl ?bs off (8 * n)) m = ev v m"
    using rd [of n off ?bs] w(2) fit len by (simp add: le_value_digits)
  assume other: "0 < n'" "off' + n' \<le> length bs" "off' + n' \<le> off \<or> off + n \<le> off'"
  have "map (\<lambda>b. ev b m) (take n' (drop off' ?bs)) = map (\<lambda>b. ev b m) (take n' (drop off' bs))"
    by (rule nth_equalityI) (use other len val in auto)
  then show "ev (os_read kl ?bs off' (8 * n')) m = ev (os_read kl bs off' (8 * n')) m"
    using rd [of n' off' ?bs] rd [of n' off' bs] other len bs by simp
qed


lemma register_write_read:
  assumes laws: "expr_laws kl ev" "object_laws kl ev" "wide_laws kl ev" and ok: "registers_ok kl cf st bs"
    and n: "0 < n" "n \<le> 8" "off + n \<le> CPU_CONC_LIMIT cf" and w: "e_width kl v = 8 * n"
    and mode: "\<not> m_runningConcrete (ram st) \<or> isConcrete kl bs off (8 * n) \<and> e_value kl v \<noteq> None"
  shows "\<exists>st' e. writeCpuRegister kl cf off v st = Inr st' \<and> readCpuRegister kl cf off (8 * n) st' = Inr e \<and>
    (\<forall>m. ev e m = ev v m) \<and> (\<forall>off' n'. 0 < n' \<longrightarrow> n' \<le> 8 \<longrightarrow> off' + n' \<le> CPU_CONC_LIMIT cf \<longrightarrow>
      off' + n' \<le> off \<or> off + n \<le> off' \<longrightarrow> (\<exists>e1 e2. readCpuRegister kl cf off' (8 * n') st = Inr e1 \<and>
        readCpuRegister kl cf off' (8 * n') st' = Inr e2 \<and> (\<forall>m. ev e2 m = ev e1 m)))"
proof (cases "m_runningConcrete (ram st)")
  case False
  let ?bs = "os_write kl bs off v" and ?st = "st\<lparr>m_cpuRegistersObject := Some (os_write kl bs off v)\<rparr>"
  have ok': "registers_ok kl cf ?st ?bs" 
    using ok os_write_shape(1) [OF laws(2)] os_write_shape(2) [OF laws(2), of bs] unfolding registers_ok_def by simp
  have obj: "in_object kl st cs i k" "in_object kl ?st cs i k" for cs i k using False by (simp_all add: in_object_def)
  have bs: "\<forall>b\<in>set bs. e_width kl b = 8" "off + n \<le> length bs" "length bs = CPU_CONC_LIMIT cf"
    using ok n by (auto simp: registers_ok_def)
  show ?thesis
    using readCpuRegister_eq [OF ok] readCpuRegister_eq [OF ok'] writeCpuRegister_eq [OF ok n(2,3) w] obj n bs(3)
      os_write_read [OF laws(1,2) bs(1) w n(1) bs(2)] by simp
next
  case True
  with mode obtain c where c: "e_value kl v = Some c" "isConcrete kl bs off (8 * n)" by auto
  let ?regs = "put_bytes off (le_bytes n c) (cpu_registers st)" and ?st = "st\<lparr>cpu_registers := put_bytes off (le_bytes n c) (cpu_registers st)\<rparr>"
  have len: "off + length (le_bytes n c) \<le> length (cpu_registers st)" "length (cpu_registers st) = CPU_CONC_LIMIT cf"
    using ok n by (simp_all add: registers_ok_def)
  have ok': "registers_ok kl cf ?st bs" using ok len by (simp add: registers_ok_def)
  have same: "in_object kl ?st cs i k = in_object kl st cs i k" for cs i k by (simp add: in_object_def)
  have shared: "\<not> in_object kl st bs off n" using True c(2) by (simp add: in_object_def)
  have evv: "ev v m = unat c" for m using laws(1) c(1) by (simp add: expr_laws_def)
  moreover have "ev v m < 2 ^ e_width kl v" for m using laws(1) unfolding expr_laws_def by blast
  ultimately have "unat c < 2 ^ (8 * n)" by (simp add: w)
  then have c8: "take_bit (8 * n) c = c" by (simp add: word_unat_eq_iff unsigned_take_bit_eq take_bit_nat_eq_self)
  have rd: "readCpuRegister kl cf off (8 * n) ?st = Inr (e_const kl c (8 * n))"
    using readCpuRegister_eq [OF ok' n(2,3)] same shared take_put [OF len(1)] by (simp add: le_word_le_bytes c8)
  have "readCpuRegister kl cf off' (8 * n') ?st = readCpuRegister kl cf off' (8 * n') st"
    if "n' \<le> 8" "off' + n' \<le> CPU_CONC_LIMIT cf" "off' + n' \<le> off \<or> off + n \<le> off'" for off' n'
    using readCpuRegister_eq [OF ok' that(1,2)] readCpuRegister_eq [OF ok that(1,2)] same take_put_other [OF len(1)] that len(2)
    by simp
  moreover have "\<exists>e. readCpuRegister kl cf off' (8 * n') st = Inr e" if "n' \<le> 8" "off' + n' \<le> CPU_CONC_LIMIT cf" for off' n'
    using readCpuRegister_eq [OF ok that] by auto
  moreover have "ev (e_const kl c (8 * n)) m = ev v m" for m using laws(3) n(2) c8 evv by (simp add: wide_laws_def)
  moreover have "writeCpuRegister kl cf off v st = Inr ?st" using writeCpuRegister_eq [OF ok n(2,3) w] shared c(1) by simp
  ultimately show ?thesis using rd by metis
qed


text \<open>C20: A value written to a register is what the next read of the register returns, and no other
  register changes, in symbolic mode for every value and in concrete mode for a constant in a
  register that holds no symbolic byte.\<close>

theorem register_round_trip:
  assumes laws: "expr_laws kl ev" "object_laws kl ev" "wide_laws kl ev" and ok: "registers_ok kl cf st bs"
    and n: "0 < n" "n \<le> 8" "off + n \<le> CPU_CONC_LIMIT cf" and w: "e_width kl v = 8 * n"
    and mode: "\<not> m_runningConcrete (ram st) \<or> isConcrete kl bs off (8 * n) \<and> e_value kl v \<noteq> None"
  shows "\<exists>st' e. writeCpuRegister kl cf off v st = Inr st' \<and> readCpuRegister kl cf off (8 * n) st' = Inr e \<and>
    (\<forall>m. ev e m = ev v m) \<and> (\<forall>off' n'. 0 < n' \<longrightarrow> n' \<le> 8 \<longrightarrow> off' + n' \<le> CPU_CONC_LIMIT cf \<longrightarrow>
      off' + n' \<le> off \<or> off + n \<le> off' \<longrightarrow> (\<exists>e1 e2. readCpuRegister kl cf off' (8 * n') st = Inr e1 \<and>
        readCpuRegister kl cf off' (8 * n') st' = Inr e2 \<and> (\<forall>m. ev e2 m = ev e1 m)))"
  by (rule register_write_read [OF assms])

section \<open>The mask\<close>

lemma int_bit_eq: "int_bit i = (if i < 31 then Inr (2 ^ i) else Inl Undefined_Behaviour)"
  by (simp add: int_bit_def)

lemma mask_loop_spec:
  "if \<exists>(w, i)\<in>set ws. 31 \<le> i \<and> \<not> isConcrete kl bs (w * 4) 32 then mask_loop kl bs ws acc = Inl Undefined_Behaviour
   else \<exists>r. mask_loop kl bs ws acc = Inr r \<and>
     (\<forall>j<64. bit r j \<longleftrightarrow> bit acc j \<or> (\<exists>(w, i)\<in>set ws. i = j \<and> \<not> isConcrete kl bs (w * 4) 32))"
proof (induction ws arbitrary: acc)
  case (Cons x ws)
  obtain w i where x: "x = (w, i)" by fastforce
  show ?case
  proof (cases "isConcrete kl bs (w * 4) 32")
    case True
    then show ?thesis using Cons.IH [of acc] by (simp add: x)
  next
    case False
    then show ?thesis using Cons.IH [of "acc OR 2 ^ i"]
      by (cases "i < 31") (auto simp: x int_bit_eq bit_or_iff bit_exp_64)
  qed
qed simp

lemma arm_mask_distinct: "distinct (map snd arm_mask_words)"
  by (simp add: arm_mask_words_def upt_rec)

text \<open>On ARM the mask of symbolic registers has the bit of a word of the CPU state exactly when a byte
  of the word is symbolic, and no other bit; when a word whose bit is 31 or above is symbolic,
  which are the last banked stack pointers, the banked link registers and the user and fast
  interrupt registers, the shift of an \<open>int\<close> is undefined.\<close>

theorem symbolic_mask:
  assumes "cpu_arch cf = ARM" "m_cpuRegistersObject st = Some bs"
  shows "if \<exists>(w, i)\<in>set arm_mask_words. 31 \<le> i \<and> \<not> isConcrete kl bs (w * 4) 32
    then getSymbolicRegistersMask kl cf st = Inl Undefined_Behaviour
    else \<exists>r. getSymbolicRegistersMask kl cf st = Inr r \<and>
      (\<forall>(w, i)\<in>set arm_mask_words. bit r i \<longleftrightarrow> \<not> isConcrete kl bs (w * 4) 32) \<and>
      (\<forall>j. j \<notin> snd ` set arm_mask_words \<longrightarrow> \<not> bit r j)"
proof (cases "list_all (\<lambda>b. e_value kl b \<noteq> None) bs")
  case True
  then have "isConcrete kl bs off w" for off w
    by (auto simp: isConcrete_def list_all_iff dest: in_set_takeD in_set_dropD)
  with True assms(2) show ?thesis by (simp add: getSymbolicRegistersMask_def registers_object_def)
next
  case False
  then have run: "getSymbolicRegistersMask kl cf st = mask_loop kl bs arm_mask_words 0"
    using assms by (simp add: getSymbolicRegistersMask_def registers_object_def)
  have one: "w = w'" if "(w, i) \<in> set arm_mask_words" "(w', i) \<in> set arm_mask_words" for w w' i
    using arm_mask_distinct that by (metis eq_snd_iff inj_on_def distinct_map prod.inject)
  have lt: "i < 64" if "(w, i) \<in> set arm_mask_words" for w i
    using that by (auto simp: arm_mask_words_def)
  show ?thesis
  proof (cases "\<exists>(w, i)\<in>set arm_mask_words. 31 \<le> i \<and> \<not> isConcrete kl bs (w * 4) 32")
    case True
    then show ?thesis using mask_loop_spec [of arm_mask_words kl bs 0] by (simp add: run)
  next
    case False
    then obtain r where r: "mask_loop kl bs arm_mask_words 0 = Inr r"
      "\<And>j. j < 64 \<Longrightarrow> bit r j \<longleftrightarrow> (\<exists>(w, i)\<in>set arm_mask_words. i = j \<and> \<not> isConcrete kl bs (w * 4) 32)"
      using mask_loop_spec [of arm_mask_words kl bs 0] by (simp only: if_False) auto
    have "bit r i \<longleftrightarrow> \<not> isConcrete kl bs (w * 4) 32" if "(w, i) \<in> set arm_mask_words" for w i
    proof -
      have "bit r i \<longleftrightarrow> (\<exists>(w', i')\<in>set arm_mask_words. i' = i \<and> \<not> isConcrete kl bs (w' * 4) 32)"
        by (rule r(2) [OF lt [OF that]])
      also have "\<dots> \<longleftrightarrow> \<not> isConcrete kl bs (w * 4) 32" using one [OF that] that by blast
      finally show ?thesis .
    qed
    moreover have "\<not> bit r j" if "j \<notin> snd ` set arm_mask_words" for j
      using r(2) [of j] that word64_bit_less [of r j] by force
    ultimately show ?thesis using False r(1) by (auto simp: run)
  qed
qed


section \<open>Skipping a function\<close>

text \<open>A write changes the object of the registers or the registers in the memory of QEMU.\<close>

lemma writeCpuRegister_cases:
  assumes "writeCpuRegister kl cf off v st = Inr st'"
  obtains (Object) bs where "st' = st\<lparr>m_cpuRegistersObject := bs\<rparr>" | (Native) regs where "st' = st\<lparr>cpu_registers := regs\<rparr>"
proof -
  from assms obtain bs where w: "(if \<not> m_runningConcrete (ram st) \<or> \<not> isConcrete kl bs off (e_width kl v)
      then Inr (st\<lparr>m_cpuRegistersObject := Some (os_write kl bs off v)\<rparr>)
      else (case e_value kl v of
          None \<Rightarrow> Inl Assertion_Failed
        | Some c \<Rightarrow> Inr (st\<lparr>cpu_registers := put_bytes off (le_bytes (min_bytes (e_width kl v)) c) (cpu_registers st)\<rparr>))) = Inr st'"
    unfolding writeCpuRegister_def Let_def rbind_Inr_iff by blast
  show ?thesis
  proof (cases "\<not> m_runningConcrete (ram st) \<or> \<not> isConcrete kl bs off (e_width kl v)")
    case True
    with w have "st' = st\<lparr>m_cpuRegistersObject := Some (os_write kl bs off v)\<rparr>" by simp
    then show ?thesis by (rule Object)
  next
    case False
    with w obtain c where "st' = st\<lparr>cpu_registers := put_bytes off (le_bytes (min_bytes (e_width kl v)) c) (cpu_registers st)\<rparr>"
      by (cases "e_value kl v") auto
    then show ?thesis by (rule Native)
  qed
qed

lemma write_keeps:
  assumes "writeCpuRegister kl cf off v st = Inr st'"
  shows "ram st' = ram st" "cpu_system st' = cpu_system st" "m_cpuSystemObject st' = m_cpuSystemObject st" "concolics st' = concolics st"
  using assms by (cases rule: writeCpuRegister_cases; simp)+

lemma setPc_getPc:
  assumes "CPU_REG_SIZE cf \<le> 8" "CPU_CONC_LIMIT cf + CPU_REG_SIZE cf \<le> CPU_SIZE cf" "0 < CPU_REG_SIZE cf"
    and "length (system_bytes st) = CPU_SIZE cf - CPU_CONC_LIMIT cf"
  shows "\<exists>st'. setPc cf pc st = Inr st' \<and> getPc cf st' = Inr (take_bit (8 * CPU_REG_SIZE cf) pc) \<and>
    (\<forall>kl off w. readCpuRegister kl cf off w st' = readCpuRegister kl cf off w st)"
proof -
  let ?n = "CPU_REG_SIZE cf"
  let ?new = "put_bytes 0 (le_bytes ?n pc) (system_bytes st)"
  let ?st = "if m_active (ram st) then st\<lparr>cpu_system := ?new\<rparr> else st\<lparr>m_cpuSystemObject := ?new\<rparr>"
  have w: "valid_width (8 * ?n)" "8 * ?n \<noteq> 1" using valid_8 [OF assms(1)] by (blast, presburger)
  then have "setPc cf pc st = Inr ?st" using assms(2) by (simp add: setPc_def writeCpuState_def mult.commute Let_def)
  moreover have "system_bytes ?st = ?new" by (simp add: system_bytes_def)
  then have "getPc cf ?st = Inr (take_bit (8 * ?n) pc)"
    using w assms(2,4) take_put [of 0 "le_bytes ?n pc" "system_bytes st"]
    by (simp add: getPc_def readCpuState_def le_word_le_bytes Let_def)
  moreover have "readCpuRegister kl cf off w ?st = readCpuRegister kl cf off w st" for kl off w
    by (cases "m_active (ram st)"; cases "m_cpuRegistersObject st") (simp_all add: readCpuRegister_def registers_object_def)
  ultimately show ?thesis by blast
qed

lemma take_bit_add_left: "take_bit 32 (take_bit 32 a + b) = take_bit 32 (a + b :: u64)"
proof -
  have t: "take_bit 32 x = x mod 4294967296" for x :: nat by (simp add: take_bit_eq_mod)
  have "((unat a mod 4294967296 + unat b) mod 18446744073709551616) mod 4294967296 = ((unat a + unat b) mod 18446744073709551616) mod 4294967296"
    by (simp add: mod_mod_cancel mod_add_left_eq)
  then show ?thesis
    by (simp add: word_unat_eq_iff unsigned_take_bit_eq t unat_word_ariths)
qed

text \<open>The layout of the CPU state of ARM.\<close>

definition arm_layout :: "cpu_conf \<Rightarrow> bool" where
  "arm_layout cf \<longleftrightarrow> cpu_arch cf = ARM \<and> CPU_REG_SIZE cf = 4 \<and> regs_offset cf + 64 \<le> CPU_CONC_LIMIT cf \<and>
     CPU_CONC_LIMIT cf + 4 \<le> CPU_SIZE cf"

text \<open>On ARM, when the stack pointer is concrete, skipping a function fails and changes nothing if the link
  register is symbolic; otherwise it moves the stack pointer by one word, or by the words of the
  arguments beyond the fourth and one more, modulo \<open>2^32\<close>, and continues at the address in the link
  register with the Thumb bit cleared.\<close>

theorem bypassFunction_arm:
  assumes laws: "expr_laws kl ev" "object_laws kl ev" "wide_laws kl ev" and ok: "registers_ok kl cf st bs" "arm_layout cf"
    and sys: "length (system_bytes st) = CPU_SIZE cf - CPU_CONC_LIMIT cf"
    and lr: "readCpuRegister kl cf (regs_offset cf + 56) 32 st = Inr link"
    and sp: "readCpuRegister kl cf (stack_register cf) 32 st = Inr e" "e_value kl e = Some sp"
    and mode: "\<not> m_runningConcrete (ram st) \<or> isConcrete kl bs (stack_register cf) 32"
  shows "case e_value kl link of
      None \<Rightarrow> bypassFunction kl q cf n st = Inr (False, st)
    | Some lr \<Rightarrow> \<exists>st' e'. bypassFunction kl q cf n st = Inr (True, st') \<and>
        getPc cf st' = Inr (take_bit 32 lr AND NOT 1) \<and>
        readCpuRegister kl cf (stack_register cf) 32 st' = Inr e' \<and>
        (\<forall>m. ev e' m = unat (take_bit 32 (sp + (if 4 < n then 4 * ucast (n - 3) else 4))))"
proof (cases "e_value kl link")
  case None
  then show ?thesis using ok(2) lr sp
    by (simp add: bypassFunction_def getReturnAddress_def readCpuRegisterConcrete_def getSp_def arm_layout_def)
next
  case (Some l)
  define pop where "pop = (if 4 < n then 4 * ucast (n - 3) else 4 :: u64)"
  define a where "a = (if odd (take_bit 32 l) then take_bit 32 l AND NOT 1 else take_bit 32 l)"
  let ?sp = "take_bit 32 (take_bit 32 sp + pop)"
  let ?v = "e_const kl (le_word (le_bytes 4 ?sp)) 32"
  have l32: "le_word (le_bytes 4 x) = take_bit 32 x" for x by (simp add: le_word_le_bytes)
  have cf: "stack_register cf + 4 \<le> CPU_CONC_LIMIT cf" "CPU_REG_SIZE cf = 4" "cpu_arch cf = ARM"
    using ok(2) by (auto simp: arm_layout_def stack_register_def)
  have v: "e_width kl ?v = 8 * 4" "e_value kl ?v \<noteq> None" "\<And>m. ev ?v m = unat ?sp"
    using laws(3) wide_const [OF laws(3), of 4] by (simp_all add: wide_laws_def l32)
  have "\<not> m_runningConcrete (ram st) \<or> isConcrete kl bs (stack_register cf) (8 * 4) \<and> e_value kl ?v \<noteq> None"
    using mode v(2) by simp
  from register_write_read [OF laws ok(1) _ _ cf(1) v(1) this] obtain st1 e1 where
    w: "writeCpuRegister kl cf (stack_register cf) ?v st = Inr st1"
      "readCpuRegister kl cf (stack_register cf) 32 st1 = Inr e1" "\<And>m. ev e1 m = unat ?sp" by (auto simp: v(3))
  have "system_bytes st1 = system_bytes st" using write_keeps [OF w(1)] by (simp add: system_bytes_def)
  with setPc_getPc [of cf st1 a] obtain st2 where p: "setPc cf a st1 = Inr st2" "getPc cf st2 = Inr (take_bit 32 a)"
      "readCpuRegister kl cf (stack_register cf) 32 st2 = Inr e1"
    using cf(2) ok(2) sys w(2) by (auto simp: arm_layout_def)
  have run: "getReturnAddress kl q cf st = Inr (Some (take_bit 32 l), st)" "getSp kl cf st = Inr sp"
    using Some lr sp cf(2,3) by (simp_all add: getReturnAddress_def readCpuRegisterConcrete_def getSp_def l32)
  have new_sp: "target_ulong cf (target_ulong cf sp + popped_bytes cf n) = ?sp"
    using cf(2,3) by (simp add: target_ulong_def popped_bytes_def pop_def mult.commute)
  have set: "setSp kl cf ?sp st = Inr st1" using w(1) cf(2) by (simp add: setSp_def writeCpuRegisterConcrete_def)
  have "(if cpu_arch cf = ARM \<and> odd (take_bit 32 l) then take_bit 32 l AND NOT 1 else take_bit 32 l) = a" "cpu_arch cf \<noteq> X86_64"
    by (simp_all add: a_def cf(3))
  then have "bypassFunction kl q cf n st = Inr (True, st2)"
    unfolding bypassFunction_def run rbind_simps prod.case Let_def option.case new_sp
    by (simp only: set p(1) rbind_simps if_False simp_thms)
  moreover have "take_bit 32 a = take_bit 32 l AND NOT 1"
    unfolding a_def by (rule bit_eqI) (auto simp: bit_simps bit_0)
  moreover have "?sp = take_bit 32 (sp + pop)" by (rule take_bit_add_left)
  ultimately show ?thesis using Some p(2,3) w(3) by (simp add: pop_def)
qed


section \<open>Writes that are lost\<close>

text \<open>In concrete mode, a constant written to a register that holds a symbolic byte goes to the object
  state, which makes the register concrete, so that every later read takes the old bytes of the
  shared registers: the value written is lost.\<close>

theorem concrete_write_lost:
  assumes ok: "registers_ok kl cf st bs" and n: "n \<le> 8" "off + n \<le> CPU_CONC_LIMIT cf" and w: "e_width kl v = 8 * n"
    and mode: "m_runningConcrete (ram st)" "\<not> isConcrete kl bs off (8 * n)"
    and obj: "length (os_write kl bs off v) = length bs" "\<forall>b\<in>set (os_write kl bs off v). e_width kl b = 8"
      "isConcrete kl (os_write kl bs off v) off (8 * n)"
  shows "\<exists>st'. writeCpuRegister kl cf off v st = Inr st' \<and>
    readCpuRegister kl cf off (8 * n) st' = Inr (e_const kl (le_word (take n (drop off (cpu_registers st)))) (8 * n))"
proof -
  let ?st = "st\<lparr>m_cpuRegistersObject := Some (os_write kl bs off v)\<rparr>"
  have "in_object kl st bs off n" using mode by (simp add: in_object_def)
  then have "writeCpuRegister kl cf off v st = Inr ?st" using writeCpuRegister_eq [OF ok n w] by simp
  moreover have ok': "registers_ok kl cf ?st (os_write kl bs off v)" using ok obj by (simp add: registers_ok_def)
  have "\<not> in_object kl ?st (os_write kl bs off v) off n" using mode obj(3) by (simp add: in_object_def)
  then have "readCpuRegister kl cf off (8 * n) ?st = Inr (e_const kl (le_word (take n (drop off (cpu_registers st)))) (8 * n))"
    using readCpuRegister_eq [OF ok' n] by simp
  ultimately show ?thesis by blast
qed

section \<open>The stack dump\<close>

text \<open>The dump of the stack with one argument never returns when the stack pointer is concrete: it
  calls itself with the stack pointer as the number of words.\<close>

theorem dumpStack_never_returns:
  "getSp kl cf st = Inr sp \<Longrightarrow> dumpStack_self kl cf count st = None"
proof -
  assume sp: "getSp kl cf st = Inr sp"
  have "\<forall>sp. getSp kl cf st \<noteq> Inr sp" if "dumpStack_self kl cf count st = Some r" for r
    by (rule dumpStack_self.raw_induct [where P = "\<lambda>kl cf count st r. \<forall>sp. getSp kl cf st \<noteq> Inr sp", OF _ that])
       (fastforce split: sum.splits)
  with sp show ?thesis by (cases "dumpStack_self kl cf count st") auto
qed

section \<open>A processor with two registers\<close>

definition small_arm :: cpu_conf where
  "small_arm = \<lparr>cpu_arch = ARM, CPU_CONC_LIMIT = 64, CPU_SIZE = 68, CPU_REG_SIZE = 4, regs_offset = 0, cr3_offset = 0,
     cpu_address = 0, cs64 = False\<rparr>"

text \<open>All registers are symbolic but those in \<open>set cs\<close>; the concrete words are 0 in the object.\<close>

definition arm_state :: "bool \<Rightarrow> nat list \<Rightarrow> (sx, nat, nat \<Rightarrow> sx list) exec_state" where
  "arm_state running cs = (S2EExecutionState_new 0 (\<lambda>_. []) 0)
     \<lparr>ram := zero_ram\<lparr>m_runningConcrete := running\<rparr>, cpu_registers := replicate 64 9, cpu_system := replicate 4 0,
      m_cpuRegistersObject := Some (map (\<lambda>i. if i div 4 \<in> set cs then Num 0 8 else Var i 8) [0..<64])\<rparr>"


lemma sx_wide_laws: "wide_laws sx_ops sx_eval"
proof -
  have "unat (of_nat (unat c mod 2 ^ (8 * n)) :: u64) = unat c mod 2 ^ (8 * n)" for c :: u64 and n
  proof -
    have "unat c mod 2 ^ (8 * n) \<le> unat c" by simp
    also have "\<dots> < 2 ^ 64" using unsigned_less [of c, where ?'a = nat] by simp
    finally show ?thesis by (simp add: unat_of_nat take_bit_nat_eq_self)
  qed
  then show ?thesis
    by (simp add: wide_laws_def sx_ops_def word_unat_eq_iff unsigned_take_bit_eq take_bit_eq_mod [where a = "unat _"])
qed

lemma arm_small_layout: "arm_layout small_arm"
  by (simp add: arm_layout_def small_arm_def)

definition arm_bytes :: "nat list \<Rightarrow> sx list" where
  "arm_bytes cs = map (\<lambda>i. if i div 4 \<in> set cs then Num 0 8 else Var i 8) [0..<64]"

lemma arm_registers_ok: "os_write kl = w \<Longrightarrow> e_width kl = sx_width \<Longrightarrow> registers_ok kl small_arm (arm_state r cs) (arm_bytes cs)"
  by (auto simp: registers_ok_def arm_state_def arm_bytes_def small_arm_def S2EExecutionState_new_def)

lemma arm_sx_ok: "registers_ok sx_ops small_arm (arm_state r cs) (arm_bytes cs)"
  by (rule arm_registers_ok) (simp_all add: sx_ops_def)

lemma arm_running [simp]: "m_runningConcrete (ram (arm_state r cs)) = r"
  by (simp add: arm_state_def)

theorem register_round_trip_witness:
  "\<exists>st' e. writeCpuRegister sx_ops small_arm 8 (Var 1 32) (arm_state False []) = Inr st' \<and>
    readCpuRegister sx_ops small_arm 8 (8 * 4) st' = Inr e \<and> (\<forall>m. sx_eval e m = sx_eval (Var 1 32) m)"
proof -
  have "8 + 4 \<le> CPU_CONC_LIMIT small_arm" "e_width sx_ops (Var 1 32) = 8 * 4" by (simp_all add: small_arm_def sx_ops_def)
  with register_round_trip [OF sx_expr_laws sx_object_laws sx_wide_laws arm_sx_ok _ _ this, of False "[]"]
  show ?thesis by fastforce
qed

theorem symbolic_mask_witness:
  "if \<exists>(w, i)\<in>set arm_mask_words. 31 \<le> i \<and> \<not> isConcrete sx_ops (arm_bytes [2]) (w * 4) 32
    then getSymbolicRegistersMask sx_ops small_arm (arm_state True [2]) = Inl Undefined_Behaviour
    else \<exists>r. getSymbolicRegistersMask sx_ops small_arm (arm_state True [2]) = Inr r \<and>
      (\<forall>(w, i)\<in>set arm_mask_words. bit r i \<longleftrightarrow> \<not> isConcrete sx_ops (arm_bytes [2]) (w * 4) 32) \<and>
      (\<forall>j. j \<notin> snd ` set arm_mask_words \<longrightarrow> \<not> bit r j)"
  by (rule symbolic_mask) (simp_all add: small_arm_def arm_state_def arm_bytes_def)

lemma replicate_4: "replicate 4 x = [x, x, x, x]"
  by (simp add: numeral_eq_Suc)

lemma arm_concrete_register:
  "readCpuRegister sx_ops small_arm 52 32 (arm_state True [13, 14]) = Inr (Num 0x09090909 32)"
  "readCpuRegister sx_ops small_arm 56 32 (arm_state True [13, 14]) = Inr (Num 0x09090909 32)"
  by (simp_all add: readCpuRegister_def arm_state_def small_arm_def S2EExecutionState_new_def registers_object_def
      valid_width_def min_bytes_def isConcrete_def sx_ops_def le_word_def upt_rec replicate_4)

theorem bypassFunction_arm_witness:
  "\<exists>st'. bypassFunction sx_ops one_page small_arm 2 (arm_state True [13, 14]) = Inr (True, st') \<and>
    getPc small_arm st' = Inr (take_bit 32 0x09090909 AND NOT 1)"
proof -
  have r: "stack_register small_arm = 52" "regs_offset small_arm + 56 = 56" by (simp_all add: stack_register_def small_arm_def)
  have v: "e_value sx_ops (Num 0x09090909 32) = Some 0x09090909" by (simp add: sx_ops_def)
  have "isConcrete sx_ops (arm_bytes [13, 14]) 52 32"
    by (simp add: isConcrete_def arm_bytes_def min_bytes_def sx_ops_def upt_rec)
  moreover have "length (system_bytes (arm_state True [13, 14])) = CPU_SIZE small_arm - CPU_CONC_LIMIT small_arm"
    by (simp add: system_bytes_def arm_state_def small_arm_def S2EExecutionState_new_def zero_ram_def)
  ultimately show ?thesis
    using bypassFunction_arm [OF sx_expr_laws sx_object_laws sx_wide_laws arm_sx_ok arm_small_layout, of True "[13, 14]",
        unfolded r, OF _ arm_concrete_register(2,1) v, of one_page 2] v by fastforce
qed

text \<open>Writing a constant makes the bytes of an object constant.\<close>

definition const_write :: "sx list \<Rightarrow> nat \<Rightarrow> sx \<Rightarrow> sx list" where
  "const_write bs off v = (case sx_value v of None \<Rightarrow> sx_write bs off v
     | Some c \<Rightarrow> take off bs @ map (\<lambda>b. Num (unat b) 8) (le_bytes (sx_width v div 8) c) @ drop (off + sx_width v div 8) bs)"

theorem concrete_write_lost_witness:
  "\<exists>st'. writeCpuRegister (sx_ops\<lparr>os_write := const_write\<rparr>) small_arm 8 (Num 5 32) (arm_state True []) = Inr st' \<and>
    readCpuRegister (sx_ops\<lparr>os_write := const_write\<rparr>) small_arm 8 (8 * 4) st' = Inr (Num 0x09090909 32)"
proof -
  let ?kl = "sx_ops\<lparr>os_write := const_write\<rparr>"
  have ok: "registers_ok ?kl small_arm (arm_state True []) (arm_bytes [])"
    by (rule arm_registers_ok) (simp_all add: sx_ops_def)
  have len: "length (arm_bytes []) = 64" "\<forall>b\<in>set (arm_bytes []). sx_width b = 8" by (auto simp: arm_bytes_def)
  have bytes: "const_write (arm_bytes []) 8 (Num 5 32) =
      take 8 (arm_bytes []) @ [Num 5 8, Num 0 8, Num 0 8, Num 0 8] @ drop 12 (arm_bytes [])"
    by (simp add: const_write_def le_bytes_def upt_rec)
  have "set (take 8 xs @ ys @ drop 12 xs) \<subseteq> set xs \<union> set ys" for xs ys :: "sx list"
    by (auto dest: in_set_takeD in_set_dropD)
  from this [of "arm_bytes []" "[Num 5 8, Num 0 8, Num 0 8, Num 0 8]"]
  have shape: "length (os_write ?kl (arm_bytes []) 8 (Num 5 32)) = length (arm_bytes [])"
    "\<forall>b\<in>set (os_write ?kl (arm_bytes []) 8 (Num 5 32)). e_width ?kl b = 8"
    using len(2) by (simp_all add: bytes len(1) sx_ops_def, fastforce)
  have sym: "\<not> isConcrete ?kl (arm_bytes []) 8 (8 * 4)"
    by (simp add: isConcrete_def min_bytes_def arm_bytes_def sx_ops_def upt_rec)
  have conc: "isConcrete ?kl (os_write ?kl (arm_bytes []) 8 (Num 5 32)) 8 (8 * 4)"
    by (simp add: isConcrete_def min_bytes_def bytes len sx_ops_def)
  have "\<exists>st'. writeCpuRegister ?kl small_arm 8 (Num 5 32) (arm_state True []) = Inr st' \<and>
      readCpuRegister ?kl small_arm 8 (8 * 4) st' =
        Inr (e_const ?kl (le_word (take 4 (drop 8 (cpu_registers (arm_state True []))))) (8 * 4))"
    by (rule concrete_write_lost [OF ok _ _ _ _ sym shape conc]) (simp_all add: small_arm_def sx_ops_def)
  then show ?thesis by (simp add: sx_ops_def le_word_def arm_state_def replicate_4)
qed

theorem dumpStack_never_returns_witness:
  "dumpStack_self sx_ops small_arm 3 (arm_state True [13, 14]) = None"
proof (rule dumpStack_never_returns)
  have r: "stack_register small_arm = 52" "CPU_REG_SIZE small_arm = 4" by (simp_all add: stack_register_def small_arm_def)
  have "e_value sx_ops (Num 0x09090909 32) = Some 0x09090909" by (simp add: sx_ops_def)
  then show "getSp sx_ops small_arm (arm_state True [13, 14]) = Inr 0x09090909"
    by (simp add: getSp_def r arm_concrete_register)
qed

end
