(* ===== verification/Decimal_Text.thy ===== *)
theory Decimal_Text
  imports S2E_Prelude
begin

text \<open>
  Decimal numbers as text, as the streams of the C++ library print unsigned numbers, and the characters
  that the C library takes for digits and white space.
\<close>

definition digit :: "nat \<Rightarrow> char" where "digit d = char_of (48 + d)"

fun decimal :: "nat \<Rightarrow> string" where
  "decimal n = (if n < 10 then [digit n] else decimal (n div 10) @ [digit (n mod 10)])"

declare decimal.simps [simp del]

definition is_space :: "char \<Rightarrow> bool" where
  "is_space c \<longleftrightarrow> of_char c \<in> {9, 10, 11, 12, 13, 32 :: nat}"

definition is_digit :: "char \<Rightarrow> bool" where
  "is_digit c \<longleftrightarrow> 48 \<le> (of_char c :: nat) \<and> (of_char c :: nat) \<le> 57"

definition num_value :: "string \<Rightarrow> nat" where
  "num_value ds = foldl (\<lambda>n c. 10 * n + (of_char c - 48)) 0 ds"

section \<open>Facts\<close>

lemma digit_less: "d < 10 \<Longrightarrow> of_char (digit d) = (48 + d :: nat)"
  by (simp add: digit_def)

lemma digit_not_underscore: "d < 10 \<Longrightarrow> digit d \<noteq> CHR ''_''"
  using digit_less [of d] by auto

lemma decimal_chars: "CHR ''_'' \<notin> set (decimal n)"
proof (induction n rule: decimal.induct)
  case (1 n)
  then show ?case by (subst decimal.simps) (auto simp: digit_not_underscore [symmetric] dest: digit_not_underscore)
qed

lemma num_value_append: "num_value (as @ [c]) = 10 * num_value as + (of_char c - 48)"
  by (simp add: num_value_def)

lemma decimal_value: "num_value (decimal n) = n"
proof (induction n rule: decimal.induct)
  case (1 n)
  then show ?case by (cases "n < 10") (simp_all add: decimal.simps [of n] num_value_append num_value_def digit_less)
qed

lemma decimal_eq_iff: "decimal m = decimal n \<longleftrightarrow> m = n"
  by (metis decimal_value)

lemma decimal_inj: "decimal m = decimal n \<Longrightarrow> m = n"
  by (simp add: decimal_eq_iff)

lemma decimal_digits: "\<forall>c\<in>set (decimal n). is_digit c"
proof (induction n rule: decimal.induct)
  case (1 n)
  then show ?case by (cases "n < 10") (simp_all add: decimal.simps [of n] is_digit_def digit_less)
qed

lemma digit_0: "digit 0 = CHR ''0''" "digit (Suc 0) = CHR ''1''"
proof -
  have "char_of (of_char (CHR ''0'') :: nat) = CHR ''0''" "char_of (of_char (CHR ''1'') :: nat) = CHR ''1''" by (rule char_of_char)+
  then show "digit 0 = CHR ''0''" "digit (Suc 0) = CHR ''1''" by (simp_all add: digit_def)
qed

end
