(* ===== verification/Symbolic_Values.thy ===== *)
theory Symbolic_Values
  imports Cpu_State Decimal_Text
begin

text \<open>
  Symbolic values of an execution state (\<open>S2EExecutionState.cpp\<close>): their unique names, the creation of
  symbolic and concolic values and arrays, the routines that read and write KLEE objects for
  instrumented code, and the addition of constraints.
\<close>

section \<open>Names\<close>

text \<open>The state with the counter that all states share, \<open>s_lastSymbolicId\<close>.\<close>

definition getUniqueVarName ::
  "string \<Rightarrow> ('e, 'o, 'k) exec_state \<Rightarrow> u32 \<Rightarrow> string \<times> ('e, 'o, 'k) exec_state \<times> u32" where
  "getUniqueVarName name st lastId =
     (''v'' @ decimal (unat (m_nextSymbVarId st)) @ ''_'' @ map (\<lambda>c. if is_space c then CHR ''_'' else c) name @
        ''_'' @ decimal (unat lastId),
      st\<lparr>m_nextSymbVarId := m_nextSymbVarId st + 1\<rparr>, lastId + 1)"

section \<open>Creation\<close>

text \<open>KLEE: reads of a new array, the unique value of an expression, the resolution of an address and the
  constraint manager. \<open>ConcolicMode\<close> and \<open>DebugConstraints\<close> are command line options. The solver's
  answer, whether an expression must be false, may fail.\<close>

record ('e, 'k) sym_ops =
  temp_read :: "sym_array \<Rightarrow> nat \<Rightarrow> 'e"
  array_byte :: "sym_array \<Rightarrow> nat \<Rightarrow> 'e"
  to_unique :: "'e \<Rightarrow> 'k \<Rightarrow> 'e"
  add_to :: "'e \<Rightarrow> 'k \<Rightarrow> 'k"
  must_be_false :: "'e \<Rightarrow> 'k \<Rightarrow> bool option"
  concolic_true :: "'e \<Rightarrow> bool"
  ConcolicMode :: bool
  DebugConstraints :: bool

definition new_array ::
  "('e, 'k) sym_ops \<Rightarrow> string \<Rightarrow> nat \<Rightarrow> u8 list \<Rightarrow> ('e, 'o, 'k) exec_state \<Rightarrow> sym_array \<times> ('e, 'o, 'k) exec_state" where
  "new_array sy name n buffer st =
     (let a = \<lparr>a_name = name, a_bytes = n\<rparr>; st' = st\<lparr>symbolics := symbolics st @ [(name, a)]\<rparr> in
      (a, if length buffer = n \<and> ConcolicMode sy then st'\<lparr>concolics := concolics st' @ [(a, buffer)]\<rparr> else st'))"

definition createConcolicValue ::
  "('e, 'k) sym_ops \<Rightarrow> string \<Rightarrow> nat \<Rightarrow> u8 list \<Rightarrow> ('e, 'o, 'k) exec_state \<times> u32 \<Rightarrow>
   ('e \<times> ('e, 'o, 'k) exec_state \<times> u32) res" where
  "createConcolicValue sy name width buffer = (\<lambda>(st, lastId).
     case getUniqueVarName name st lastId of (sname, st1, lastId1) \<Rightarrow>
       let bytes = min_bytes width in
       rbind (assert_that (length buffer = bytes \<or> length buffer = 0)) (\<lambda>_.
         case new_array sy sname bytes buffer st1 of (a, st2) \<Rightarrow> Inr (temp_read sy a width, st2, lastId1)))"

definition createSymbolicValue ::
  "('e, 'k) sym_ops \<Rightarrow> string \<Rightarrow> nat \<Rightarrow> ('e, 'o, 'k) exec_state \<times> u32 \<Rightarrow> ('e \<times> ('e, 'o, 'k) exec_state \<times> u32) res" where
  "createSymbolicValue sy name width s =
     createConcolicValue sy name width (if ConcolicMode sy then replicate (min_bytes width) 0 else []) s"

definition createConcolicArray ::
  "('e, 'k) sym_ops \<Rightarrow> string \<Rightarrow> nat \<Rightarrow> u8 list \<Rightarrow> ('e, 'o, 'k) exec_state \<times> u32 \<Rightarrow>
   ('e list \<times> ('e, 'o, 'k) exec_state \<times> u32) res" where
  "createConcolicArray sy name n buffer = (\<lambda>(st, lastId).
     rbind (assert_that (length buffer = n \<or> length buffer = 0)) (\<lambda>_.
       case getUniqueVarName name st lastId of (sname, st1, lastId1) \<Rightarrow>
         (case new_array sy sname n buffer st1 of (a, st2) \<Rightarrow>
           Inr (map (array_byte sy a) [0..<n], st2, lastId1))))"

definition createSymbolicArray ::
  "('e, 'k) sym_ops \<Rightarrow> string \<Rightarrow> nat \<Rightarrow> ('e, 'o, 'k) exec_state \<times> u32 \<Rightarrow>
   ('e list \<times> ('e, 'o, 'k) exec_state \<times> u32) res" where
  "createSymbolicArray sy name n s =
     createConcolicArray sy name n (if ConcolicMode sy then replicate n 0 else []) s"

section \<open>Access to KLEE objects\<close>

definition unique_object ::
  "('e, 'o, 'k) klee_ops \<Rightarrow> ('e, 'k) sym_ops \<Rightarrow> (u64 \<Rightarrow> 'k \<Rightarrow> (mem_object \<times> 'o) option) \<Rightarrow> 'e \<Rightarrow> 'k \<Rightarrow> (mem_object \<times> 'o) res" where
  "unique_object kl sy resolve a k = (case e_value kl (to_unique sy a k) of
     None \<Rightarrow> Inl Assertion_Failed
   | Some c \<Rightarrow> (case resolve c k of None \<Rightarrow> Inl Assertion_Failed | Some op \<Rightarrow> Inr op))"

text \<open>The loop of \<open>kleeReadMemory\<close> over the bytes from \<open>i\<close> on.\<close>

fun klee_read_loop ::
  "('e, 'o, 'k) klee_ops \<Rightarrow> ('e, 'k) sym_ops \<Rightarrow> 'o \<Rightarrow> bool \<Rightarrow> bool \<Rightarrow> bool \<Rightarrow> nat \<Rightarrow> nat \<Rightarrow> 'k \<Rightarrow> ('e list \<times> 'k) res" where
  "klee_read_loop kl sy os req conc add i 0 k = Inr ([], k)"
| "klee_read_loop kl sy os req conc add i (Suc n) k =
     (let cur = as_bytes kl os k ! i in
      rbind (if req then (let u = to_unique sy cur k in if e_value kl u = None then Inl Assertion_Failed else Inr (u, k))
             else if conc \<and> add then (case to_constant kl cur k of (c, k') \<Rightarrow> Inr (e_const kl c (e_width kl cur), k'))
             else if conc then Inr (e_const kl (to_example kl cur k) (e_width kl cur), k)
             else Inl Assertion_Failed) (\<lambda>(e, k1).
        rbind (klee_read_loop kl sy os req conc add (i + 1) n k1) (\<lambda>(es, k2). Inr (e # es, k2))))"

definition kleeReadMemory ::
  "('e, 'o, 'k) klee_ops \<Rightarrow> ('e, 'k) sym_ops \<Rightarrow> (u64 \<Rightarrow> 'k \<Rightarrow> (mem_object \<times> 'o) option) \<Rightarrow> 'e \<Rightarrow> nat \<Rightarrow> bool \<Rightarrow>
   bool \<Rightarrow> bool \<Rightarrow> bool \<Rightarrow> 'k \<Rightarrow> ('e list \<times> 'k) res" where
  "kleeReadMemory kl sy resolve a n wanted req conc add k =
     rbind (unique_object kl sy resolve a k) (\<lambda>(mo, os).
     rbind (assert_that (req \<or> (\<not> req \<and> conc \<and> add) \<or> (\<not> req \<and> conc \<and> \<not> add) \<or> (\<not> req \<and> \<not> conc))) (\<lambda>_.
     rbind (klee_read_loop kl sy os req conc add 0 (if mo_size mo \<le> n then mo_size mo else n) k) (\<lambda>(es, k').
     rbind (assert_that (wanted \<longrightarrow> 1 \<le> length es)) (\<lambda>_. Inr (if wanted then es else [], k')))))"

fun klee_write_loop :: "('e, 'o, 'k) klee_ops \<Rightarrow> 'o \<Rightarrow> nat \<Rightarrow> 'e list \<Rightarrow> 'k \<Rightarrow> 'k" where
  "klee_write_loop kl os i [] k = k"
| "klee_write_loop kl os i (e # es) k =
     klee_write_loop kl os (i + 1) es (as_update kl os (os_write kl (as_bytes kl os k) i e) k)"

definition kleeWriteMemory ::
  "('e, 'o, 'k) klee_ops \<Rightarrow> ('e, 'k) sym_ops \<Rightarrow> (u64 \<Rightarrow> 'k \<Rightarrow> (mem_object \<times> 'o) option) \<Rightarrow> 'e \<Rightarrow> 'e list \<Rightarrow>
   ('o, 'k) ram_state \<Rightarrow> ('o, 'k) ram_state res" where
  "kleeWriteMemory kl sy resolve a bytes r =
     rbind (unique_object kl sy resolve a (klee r)) (\<lambda>(mo, os).
     rbind (getWriteable kl mo os r) (\<lambda>(wos, r').
     rbind (assert_that (length bytes \<le> length (as_bytes kl os (klee r')))) (\<lambda>_.
       Inr (r'\<lparr>klee := klee_write_loop kl wos 0 bytes (klee r')\<rparr>))))"

text \<open>\<open>makeSymbolic\<close> of the address, the size and the address of the label. The concolic case reads the
  label's address for the data.\<close>

definition makeSymbolic ::
  "('e, 'o, 'k) klee_ops \<Rightarrow> ('e, 'k) sym_ops \<Rightarrow> (u64 \<Rightarrow> 'k \<Rightarrow> (mem_object \<times> 'o) option) \<Rightarrow> 'e list \<Rightarrow> bool \<Rightarrow>
   ('e, 'o, 'k) exec_state \<times> u32 \<Rightarrow> (('e, 'o, 'k) exec_state \<times> u32) res" where
  "makeSymbolic kl sy resolve args makeConcolic = (\<lambda>(st, lastId). case args of
     [a, size_e, label] \<Rightarrow>
       (case (e_value kl a, e_value kl size_e) of
          (Some addr, Some n) \<Rightarrow>
            rbind (kleeReadMemory kl sy resolve label 31 True True False False (klee (ram st))) (\<lambda>(chars, k1).
            rbind (assert_that (length chars \<le> 31)) (\<lambda>_.
              let str = map (\<lambda>e. char_of (unat (ucast (the (e_value kl e)) :: u8))) chars;
                  name = takeWhile (\<lambda>c. c \<noteq> CHR 0x00) str; st1 = st\<lparr>ram := (ram st)\<lparr>klee := k1\<rparr>\<rparr> in
              rbind (if makeConcolic then
                  rbind (kleeReadMemory kl sy resolve label (unat n) True False True True k1) (\<lambda>(old, k2).
                  rbind (ensure_defined (unat n \<le> length old)) (\<lambda>_.
                  rbind (assert_that (list_all (\<lambda>e. e_value kl e \<noteq> None) (take (unat n) old))) (\<lambda>_.
                    createConcolicArray sy name (unat n) (map (\<lambda>e. ucast (the (e_value kl e))) (take (unat n) old))
                      (st1\<lparr>ram := (ram st1)\<lparr>klee := k2\<rparr>\<rparr>, lastId))))
                else createSymbolicArray sy name (unat n) (st1, lastId)) (\<lambda>(symb, st2, lastId2).
              rbind (kleeWriteMemory kl sy resolve a symb (ram st2)) (\<lambda>r. Inr (st2\<lparr>ram := r\<rparr>, lastId2)))))
        | _ \<Rightarrow> Inl Assertion_Failed)
   | _ \<Rightarrow> Inl Assertion_Failed)"

section \<open>Constraints\<close>

definition addConstraint :: "('e, 'k) sym_ops \<Rightarrow> 'e \<Rightarrow> 'k \<Rightarrow> 'k res" where
  "addConstraint sy e k =
     rbind (if DebugConstraints sy then
         rbind (assert_that (ConcolicMode sy \<longrightarrow> concolic_true sy e)) (\<lambda>_.
           case must_be_false sy e k of Some False \<Rightarrow> Inr () | _ \<Rightarrow> Inl (Process_Exit (- 1)))
       else Inr ()) (\<lambda>_. Inr (add_to sy e k))"

section \<open>Names are unique\<close>

lemma suffix_inj:
  assumes "xs @ ''_'' @ decimal m = ys @ ''_'' @ decimal n"
  shows "m = n"
proof -
  have "takeWhile (\<lambda>c. c \<noteq> CHR ''_'') (rev (zs @ ''_'' @ decimal k)) = rev (decimal k)" for zs k
    using decimal_chars [of k] by (simp, subst takeWhile_append2) auto
  then have "rev (decimal m) = rev (decimal n)" using assms by metis
  then show ?thesis using decimal_inj by simp
qed


text \<open>Requests to one state; \<open>Elsewhere\<close> is the creation of a name by another state.\<close>

datatype request =
    Concolic_Value string nat "u8 list"
  | Symbolic_Value string nat
  | Concolic_Array string nat "u8 list"
  | Symbolic_Array string nat
  | Elsewhere

fun perform ::
  "('e, 'k) sym_ops \<Rightarrow> request \<Rightarrow> ('e, 'o, 'k) exec_state \<times> u32 \<Rightarrow> (('e, 'o, 'k) exec_state \<times> u32) res" where
  "perform sy (Concolic_Value name w buf) s = rbind (createConcolicValue sy name w buf s) (\<lambda>(_, s'). Inr s')"
| "perform sy (Symbolic_Value name w) s = rbind (createSymbolicValue sy name w s) (\<lambda>(_, s'). Inr s')"
| "perform sy (Concolic_Array name n buf) s = rbind (createConcolicArray sy name n buf s) (\<lambda>(_, s'). Inr s')"
| "perform sy (Symbolic_Array name n) s = rbind (createSymbolicArray sy name n s) (\<lambda>(_, s'). Inr s')"
| "perform sy Elsewhere s = Inr (fst s, snd s + 1)"

fun perform_all ::
  "('e, 'k) sym_ops \<Rightarrow> request list \<Rightarrow> ('e, 'o, 'k) exec_state \<times> u32 \<Rightarrow> (('e, 'o, 'k) exec_state \<times> u32) res" where
  "perform_all sy [] s = Inr s"
| "perform_all sy (r # rs) s = rbind (perform sy r s) (perform_all sy rs)"

text \<open>A step that takes a name adds at most one array, with the name of the counter's value.\<close>

definition adds_array :: "('e, 'o, 'k) exec_state \<times> u32 \<Rightarrow> ('e, 'o, 'k) exec_state \<times> u32 \<Rightarrow> bool" where
  "adds_array s s' \<longleftrightarrow> snd s' = snd s + 1 \<and>
     (fst s' = fst s \<or> (\<exists>xs a. a_name a = xs @ ''_'' @ decimal (unat (snd s)) \<and>
       symbolics (fst s') = symbolics (fst s) @ [(a_name a, a)] \<and>
       (concolics (fst s') = concolics (fst s) \<or>
        (\<exists>bs. length bs = a_bytes a \<and> concolics (fst s') = concolics (fst s) @ [(a, bs)]))))"

lemma adds_arrayI:
  assumes "snd s' = snd s + 1" "a_name a = xs @ ''_'' @ decimal (unat (snd s))"
    "symbolics (fst s') = symbolics (fst s) @ [(a_name a, a)]"
    "concolics (fst s') = concolics (fst s) \<or> (\<exists>bs. length bs = a_bytes a \<and> concolics (fst s') = concolics (fst s) @ [(a, bs)])"
  shows "adds_array s s'"
  using assms unfolding adds_array_def by blast

lemma new_array_adds:
  assumes "getUniqueVarName name st lastId = (sname, st1, lastId1)" "new_array sy sname n buf st1 = (a, st2)"
  shows "adds_array (st, lastId) (st2, lastId1)"
proof (rule adds_arrayI)
  show "snd (st2, lastId1) = snd (st, lastId) + 1" using assms(1) by (simp add: getUniqueVarName_def)
  show "a_name a = (''v'' @ decimal (unat (m_nextSymbVarId st)) @ ''_'' @ map (\<lambda>c. if is_space c then CHR ''_'' else c) name) @
      ''_'' @ decimal (unat (snd (st, lastId)))"
    using assms by (auto simp: getUniqueVarName_def new_array_def Let_def)
  show "symbolics (fst (st2, lastId1)) = symbolics (fst (st, lastId)) @ [(a_name a, a)]"
    using assms by (auto simp: getUniqueVarName_def new_array_def Let_def split: if_splits)
  show "concolics (fst (st2, lastId1)) = concolics (fst (st, lastId)) \<or>
      (\<exists>bs. length bs = a_bytes a \<and> concolics (fst (st2, lastId1)) = concolics (fst (st, lastId)) @ [(a, bs)])"
    using assms by (auto simp: getUniqueVarName_def new_array_def Let_def split: if_splits)
qed

lemma createConcolicValue_adds: "createConcolicValue sy name w buf s = Inr (e, s') \<Longrightarrow> adds_array s s'"
  by (cases s, cases s') (auto simp: createConcolicValue_def rbind_Inr_iff Let_def split: prod.splits intro: new_array_adds)

lemma createConcolicArray_adds: "createConcolicArray sy name n buf s = Inr (e, s') \<Longrightarrow> adds_array s s'"
  by (cases s, cases s') (auto simp: createConcolicArray_def rbind_Inr_iff Let_def split: prod.splits intro: new_array_adds)

lemma perform_adds: "perform sy r s = Inr s' \<Longrightarrow> adds_array s s'"
proof (cases r)
  case Elsewhere
  then show "perform sy r s = Inr s' \<Longrightarrow> ?thesis" by (auto simp: adds_array_def)
qed (auto simp: rbind_Inr_iff createSymbolicValue_def createSymbolicArray_def
       intro: createConcolicValue_adds createConcolicArray_adds)

definition arrays_ok :: "u32 \<Rightarrow> nat \<Rightarrow> ('e, 'o, 'k) exec_state \<times> u32 \<Rightarrow> bool" where
  "arrays_ok base c s \<longleftrightarrow> snd s = base + of_nat c \<and> distinct (map fst (symbolics (fst s))) \<and>
     (\<forall>(n, a)\<in>set (symbolics (fst s)). n = a_name a \<and> (\<exists>xs j. j < c \<and> n = xs @ ''_'' @ decimal (unat (base + of_nat j)))) \<and>
     (\<forall>(a, bs)\<in>set (concolics (fst s)). (a_name a, a) \<in> set (symbolics (fst s)) \<and> length bs = a_bytes a)"

lemma counter_inj:
  assumes "base + of_nat i = base + (of_nat j :: u32)" "i < 2 ^ 32" "j < 2 ^ 32"
  shows "i = j"
proof -
  have "unat (of_nat i :: u32) = unat (of_nat j :: u32)" using assms(1) by simp
  then show ?thesis using assms(2,3) by (simp add: unat_of_nat take_bit_nat_eq_self)
qed

lemma arrays_ok_step:
  assumes ok: "arrays_ok base c s" and c: "c < 2 ^ 32" and add: "adds_array s s'"
  shows "arrays_ok base (c + 1) s'"
proof -
  have id: "snd s' = base + of_nat (c + 1)" using ok add by (simp add: arrays_ok_def adds_array_def add.assoc add.commute)
  have grow: "\<exists>xs j. j < c + 1 \<and> n = xs @ ''_'' @ decimal (unat (base + of_nat j))"
    if "\<exists>xs j. j < c \<and> n = xs @ ''_'' @ decimal (unat (base + of_nat j))" for n
    using that less_SucI by fastforce
  from add consider "fst s' = fst s" | xs a where "a_name a = xs @ ''_'' @ decimal (unat (snd s))"
      "symbolics (fst s') = symbolics (fst s) @ [(a_name a, a)]"
      "concolics (fst s') = concolics (fst s) \<or> (\<exists>bs. length bs = a_bytes a \<and> concolics (fst s') = concolics (fst s) @ [(a, bs)])"
    unfolding adds_array_def by blast
  then show ?thesis
  proof cases
    case 1
    have "n = a_name a \<and> (\<exists>xs j. j < c + 1 \<and> n = xs @ ''_'' @ decimal (unat (base + of_nat j)))"
      if "(n, a) \<in> set (symbolics (fst s))" for n a
      using ok that grow [of n] unfolding arrays_ok_def by blast
    with 1 ok id show ?thesis by (auto simp: arrays_ok_def)
  next
    case 2
    have base: "snd s = base + of_nat c" using ok by (simp add: arrays_ok_def)
    have fresh: "a_name a \<notin> fst ` set (symbolics (fst s))"
    proof
      assume "a_name a \<in> fst ` set (symbolics (fst s))"
      then obtain ys j where j: "j < c" "a_name a = ys @ ''_'' @ decimal (unat (base + of_nat j))"
        using ok unfolding arrays_ok_def by fastforce
      then have "unat (base + of_nat c) = unat (base + of_nat j)" using 2(1) suffix_inj unfolding base by metis
      then have "base + of_nat c = base + of_nat j" by (simp only: word_unat_eq_iff)
      then show False using counter_inj [of base c j] j(1) c by simp
    qed
    have "\<exists>xs j. j < c + 1 \<and> a_name a = xs @ ''_'' @ decimal (unat (base + of_nat j))"
      using 2(1) base by (intro exI [of _ xs] exI [of _ c]) simp
    note new = this
    have old: "distinct (map fst (symbolics (fst s)))"
      "\<And>n b. (n, b) \<in> set (symbolics (fst s)) \<Longrightarrow> n = a_name b \<and> (\<exists>xs j. j < c \<and> n = xs @ ''_'' @ decimal (unat (base + of_nat j)))"
      "\<And>b bs. (b, bs) \<in> set (concolics (fst s)) \<Longrightarrow> (a_name b, b) \<in> set (symbolics (fst s)) \<and> length bs = a_bytes b"
      using ok unfolding arrays_ok_def by blast+
    have "distinct (map fst (symbolics (fst s')))" using old(1) fresh by (simp add: 2(2))
    moreover have "n = a_name b \<and> (\<exists>xs j. j < c + 1 \<and> n = xs @ ''_'' @ decimal (unat (base + of_nat j)))"
      if "(n, b) \<in> set (symbolics (fst s'))" for n b
    proof -
      have "(n, b) = (a_name a, a) \<or> (n, b) \<in> set (symbolics (fst s))" using that by (auto simp: 2(2))
      then show ?thesis using new old(2) [of n b] grow [of n] by blast
    qed
    moreover have "(a_name b, b) \<in> set (symbolics (fst s')) \<and> length bs = a_bytes b"
      if "(b, bs) \<in> set (concolics (fst s'))" for b bs
      using that 2(3) old(3) [of b bs] by (auto simp: 2(2))
    ultimately show ?thesis using id unfolding arrays_ok_def by blast
  qed
qed

lemma perform_all_ok:
  "arrays_ok base c s \<Longrightarrow> c + length rs \<le> 2 ^ 32 \<Longrightarrow> perform_all sy rs s = Inr s' \<Longrightarrow> arrays_ok base (c + length rs) s'"
proof (induction rs arbitrary: c s)
  case (Cons r rs)
  from Cons.prems(3) obtain s1 where s1: "perform sy r s = Inr s1" "perform_all sy rs s1 = Inr s'"
    by (auto simp: rbind_Inr_iff)
  have "arrays_ok base (c + 1) s1" using arrays_ok_step [OF Cons.prems(1) _ perform_adds [OF s1(1)]] Cons.prems(2) by simp
  from Cons.IH [OF this _ s1(2)] Cons.prems(2) show ?case by simp
qed simp

text \<open>C21: Whatever symbolic and concolic values and arrays a state creates, and however many names other
  states take in between, up to \<open>2^32\<close> names in all: the arrays of the state have different names,
  and every concrete assignment is for an array of the state and has its length.\<close>

theorem symbolic_names_unique:
  assumes "symbolics st = []" "concolics st = []" "length rs \<le> 2 ^ 32" "perform_all sy rs (st, base) = Inr (st', lastId)"
  shows "distinct (map fst (symbolics st')) \<and> (\<forall>(n, a)\<in>set (symbolics st'). n = a_name a) \<and>
    (\<forall>(a, bs)\<in>set (concolics st'). (a_name a, a) \<in> set (symbolics st') \<and> length bs = a_bytes a)"
proof -
  have "arrays_ok base 0 (st, base)" using assms(1,2) by (simp add: arrays_ok_def)
  from perform_all_ok [OF this _ assms(4)] assms(3) have "arrays_ok base (length rs) (st', lastId)" by simp
  then show ?thesis unfolding arrays_ok_def by fastforce
qed


section \<open>Symbolic variables of instrumented code\<close>

lemma klee_read_unique:
  assumes "\<And>j. j < n \<Longrightarrow> e_value kl (to_unique sy (as_bytes kl os k ! (i + j)) k) \<noteq> None"
  shows "klee_read_loop kl sy os True conc add i n k =
    Inr (map (\<lambda>j. to_unique sy (as_bytes kl os k ! (i + j)) k) [0..<n], k)"
  using assms
proof (induction n arbitrary: i)
  case (Suc n)
  have "e_value kl (to_unique sy (as_bytes kl os k ! (i + 1 + j)) k) \<noteq> None" if "j < n" for j
    using Suc.prems [of "j + 1"] that by simp
  from Suc.IH [OF this] Suc.prems [of 0] show ?case
    by (simp add: Let_def upt_conv_Cons map_Suc_upt [symmetric] o_def del: upt_Suc)
qed simp

lemma klee_write_bytes:
  assumes sp: "space_laws kl" and ob: "object_laws kl ev" "expr_laws kl ev"
  shows "i + length es \<le> length (as_bytes kl os k) \<Longrightarrow> \<forall>e\<in>set es. e_width kl e = 8 \<Longrightarrow>
    length (as_bytes kl os (klee_write_loop kl os i es k)) = length (as_bytes kl os k) \<and>
    (\<forall>os'. os' \<noteq> os \<longrightarrow> as_bytes kl os' (klee_write_loop kl os i es k) = as_bytes kl os' k) \<and>
    (\<forall>j<length (as_bytes kl os k). \<forall>m. ev (as_bytes kl os (klee_write_loop kl os i es k) ! j) m =
      (if i \<le> j \<and> j < i + length es then ev (es ! (j - i)) m else ev (as_bytes kl os k ! j) m))"
proof (induction es arbitrary: i k)
  case (Cons e es)
  let ?bs = "os_write kl (as_bytes kl os k) i e"
  let ?k = "as_update kl os ?bs k"
  have b: "as_bytes kl os' ?k = (if os' = os then ?bs else as_bytes kl os' k)" for os' using sp by (simp add: space_laws_def)
  have len: "length ?bs = length (as_bytes kl os k)" by (rule os_write_shape [OF ob(1)])
  have e8: "e_width kl e = 8 * 1" using Cons.prems(2) by simp
  have lt: "ev e m mod 256 = ev e m" for m using byte_less [OF ob(2), of e m] e8 by simp
  have val: "ev (?bs ! j) m = (if j = i then ev e m else ev (as_bytes kl os k ! j) m)" if "j < length (as_bytes kl os k)" for j m
    using os_write_values [OF ob(1) e8 _ that, of i m] Cons.prems(1) lt by (cases "j = i") auto
  from Cons.IH [of "i + 1" ?k] Cons.prems b len have ih:
    "length (as_bytes kl os (klee_write_loop kl os (i + 1) es ?k)) = length (as_bytes kl os k)"
    "\<And>os'. os' \<noteq> os \<Longrightarrow> as_bytes kl os' (klee_write_loop kl os (i + 1) es ?k) = as_bytes kl os' k"
    "\<And>j m. j < length (as_bytes kl os k) \<Longrightarrow> ev (as_bytes kl os (klee_write_loop kl os (i + 1) es ?k) ! j) m =
      (if i + 1 \<le> j \<and> j < i + 1 + length es then ev (es ! (j - (i + 1))) m else ev (?bs ! j) m)" by auto
  have "ev (as_bytes kl os (klee_write_loop kl os (i + 1) es ?k) ! j) m =
      (if i \<le> j \<and> j < i + length (e # es) then ev ((e # es) ! (j - i)) m else ev (as_bytes kl os k ! j) m)"
    if "j < length (as_bytes kl os k)" for j m
    using ih(3) [OF that, of m] val [OF that, of m] by (cases "j = i") (auto simp: nth_Cons')
  with ih(1,2) show ?case by simp
qed simp

text \<open>The label: the characters before the first null character of at most 31 constant bytes.\<close>

definition label_of :: "('e, 'o, 'k) klee_ops \<Rightarrow> ('e, 'k) sym_ops \<Rightarrow> mem_object \<Rightarrow> 'o \<Rightarrow> 'k \<Rightarrow> string" where
  "label_of kl sy mo os k = takeWhile (\<lambda>c. c \<noteq> CHR 0x00)
     (map (\<lambda>j. char_of (unat (ucast (the (e_value kl (to_unique sy (as_bytes kl os k ! j) k))) :: u8))) [0..<min (mo_size mo) 31])"

text \<open>Instrumented code that declares \<open>n\<close> bytes symbolic finds the bytes of a new array there, which is
  recorded under the name built from the label, while the other bytes and objects do not change.\<close>

theorem makeSymbolic_effect:
  assumes laws: "space_laws kl" "object_laws kl ev" "expr_laws kl ev"
    and width: "\<And>arr i. e_width kl (array_byte sy arr i) = 8"
    and addr: "e_value kl a = Some addr" "unique_object kl sy resolve a (klee (ram st)) = Inr (mo, os)"
      "as_owned kl os (klee (ram st))"
    and size: "e_value kl s = Some n" "unat n \<le> length (as_bytes kl os (klee (ram st)))"
    and label: "unique_object kl sy resolve l (klee (ram st)) = Inr (lmo, los)" "0 < mo_size lmo"
      "\<And>j. j < min (mo_size lmo) 31 \<Longrightarrow> e_value kl (to_unique sy (as_bytes kl los (klee (ram st)) ! j) (klee (ram st))) \<noteq> None"
    and name: "name = fst (getUniqueVarName (label_of kl sy lmo los (klee (ram st))) st lastId)"
  shows "\<exists>st'. makeSymbolic kl sy resolve [a, s, l] False (st, lastId) = Inr (st', lastId + 1) \<and>
    symbolics st' = symbolics st @ [(name, \<lparr>a_name = name, a_bytes = unat n\<rparr>)] \<and>
    (\<forall>j<length (as_bytes kl os (klee (ram st))). \<forall>m. ev (as_bytes kl os (klee (ram st')) ! j) m =
      (if j < unat n then ev (array_byte sy \<lparr>a_name = name, a_bytes = unat n\<rparr> j) m
       else ev (as_bytes kl os (klee (ram st)) ! j) m)) \<and>
    (\<forall>os'. os' \<noteq> os \<longrightarrow> as_bytes kl os' (klee (ram st')) = as_bytes kl os' (klee (ram st)))"
proof -
  let ?k = "klee (ram st)" and ?arr = "\<lparr>a_name = name, a_bytes = unat n\<rparr>"
  let ?es = "map (array_byte sy ?arr) [0..<unat n]"
  let ?chars = "map (\<lambda>j. to_unique sy (as_bytes kl los ?k ! j) ?k) [0..<min (mo_size lmo) 31]"
  have "klee_read_loop kl sy los True False False 0 (min (mo_size lmo) 31) ?k = Inr (?chars, ?k)"
    using klee_read_unique [of "min (mo_size lmo) 31" kl sy los ?k 0] label(3) by simp
  moreover have "(if mo_size lmo \<le> 31 then mo_size lmo else 31) = min (mo_size lmo) 31" by simp
  ultimately have chars: "kleeReadMemory kl sy resolve l 31 True True False False ?k = Inr (?chars, ?k)"
    using label(1,2) by (simp add: kleeReadMemory_def)
  have lab: "takeWhile (\<lambda>c. c \<noteq> CHR 0x00) (map (\<lambda>e. char_of (unat (ucast (the (e_value kl e)) :: u8))) ?chars) = label_of kl sy lmo los ?k"
    by (simp add: label_of_def o_def)
  let ?buf = "if ConcolicMode sy then replicate (unat n) 0 else []"
  obtain st1 where u: "getUniqueVarName (label_of kl sy lmo los ?k) st lastId = (name, st1, lastId + 1)"
    "ram st1 = ram st" "symbolics st1 = symbolics st" using name by (simp add: getUniqueVarName_def)
  obtain st2 where st2: "new_array sy name (unat n) ?buf st1 = (?arr, st2)" "ram st2 = ram st"
    "symbolics st2 = symbolics st @ [(name, ?arr)]"
    using u(2,3) by (cases "length ?buf = unat n \<and> ConcolicMode sy") (simp_all add: new_array_def Let_def)
  have create: "createSymbolicArray sy (label_of kl sy lmo los ?k) (unat n) (st, lastId) = Inr (?es, st2, lastId + 1)"
    using u(1) st2(1) by (simp add: createSymbolicArray_def createConcolicArray_def split del: if_split) (simp)
  let ?k' = "klee_write_loop kl os 0 ?es ?k"
  have written: "kleeWriteMemory kl sy resolve a ?es (ram st2) = Inr ((ram st)\<lparr>klee := ?k'\<rparr>)"
    using addr(2,3) size(2) by (simp add: kleeWriteMemory_def st2(2) getWriteable_owned)
  have "makeSymbolic kl sy resolve [a, s, l] False (st, lastId) = Inr (st2\<lparr>ram := (ram st)\<lparr>klee := ?k'\<rparr>\<rparr>, lastId + 1)"
    using addr(1) size(1) chars lab create written by (simp add: makeSymbolic_def Let_def)
  moreover have "0 + length ?es \<le> length (as_bytes kl os ?k)" "\<forall>e\<in>set ?es. e_width kl e = 8" using size(2) width by auto
  from klee_write_bytes [OF laws this] st2(3) have "symbolics (st2\<lparr>ram := (ram st)\<lparr>klee := ?k'\<rparr>\<rparr>) = symbolics st @ [(name, ?arr)]"
    "\<And>j m. j < length (as_bytes kl os ?k) \<Longrightarrow> ev (as_bytes kl os ?k' ! j) m =
       (if j < unat n then ev (array_byte sy ?arr j) m else ev (as_bytes kl os ?k ! j) m)"
    "\<And>os'. os' \<noteq> os \<Longrightarrow> as_bytes kl os' ?k' = as_bytes kl os' ?k" by auto
  ultimately show ?thesis by (intro exI [of _ "st2\<lparr>ram := (ram st)\<lparr>klee := ?k'\<rparr>\<rparr>"]) simp
qed


section \<open>A state that creates values\<close>

definition sx_sym :: "bool \<Rightarrow> (sx, nat \<Rightarrow> sx list) sym_ops" where
  "sx_sym mode = \<lparr>temp_read = (\<lambda>a w. Var 0 w), array_byte = (\<lambda>a i. Var i 8), to_unique = (\<lambda>e k. e), add_to = (\<lambda>e k. k),
     must_be_false = (\<lambda>e k. Some False), concolic_true = (\<lambda>e. True), ConcolicMode = mode, DebugConstraints = True\<rparr>"

theorem symbolic_names_unique_witness:
  "\<exists>st' lastId. perform_all (sx_sym True) [Symbolic_Value ''x'' 32, Elsewhere, Concolic_Array ''y'' 2 [1, 2]]
      (arm_state True [], 7) = Inr (st', lastId) \<and> distinct (map fst (symbolics st'))"
proof -
  let ?rs = "[Symbolic_Value ''x'' 32, Elsewhere, Concolic_Array ''y'' 2 [1, 2]]"
  obtain st' lastId where run: "perform_all (sx_sym True) ?rs (arm_state True [], 7) = Inr (st', lastId)"
    by (simp add: createSymbolicValue_def createConcolicValue_def createConcolicArray_def getUniqueVarName_def
        new_array_def sx_sym_def min_bytes_def Let_def)
  have "symbolics (arm_state True []) = []" "concolics (arm_state True []) = []" "length ?rs \<le> 2 ^ 32"
    by (simp_all add: arm_state_def S2EExecutionState_new_def)
  from symbolic_names_unique [OF this run] run show ?thesis by blast
qed

theorem makeSymbolic_effect_witness:
  "\<exists>st'. makeSymbolic sx_ops (sx_sym True) (\<lambda>c k. two_objects c) [Num 0x10000 64, Num 4 64, Num 0x10080 64] False
      (arm_state False [], 7) = Inr (st', 7 + 1) \<and> length (symbolics st') = 1"
proof -
  let ?kl = "sx_ops" and ?sy = "sx_sym True" and ?k = "klee (ram (arm_state False []))" and ?res = "\<lambda>c k. two_objects c"
  let ?mo = "\<lambda>a. \<lparr>mo_address = a, mo_size = 128, isUserSpecified = True, isSharedConcrete = False\<rparr>"
  have k: "?k = (\<lambda>_. replicate 128 (Num 0 8))" "symbolics (arm_state False []) = []"
    by (simp_all add: arm_state_def zero_ram_def S2EExecutionState_new_def)
  have f: "e_width ?kl (array_byte ?sy arr i) = 8" "as_owned ?kl (0 :: nat) ?k"
    "e_value ?kl (Num 0x10000 64) = Some 0x10000" "e_value ?kl (Num 4 64) = Some 4" for arr i
    by (simp_all add: sx_ops_def sx_sym_def)
  have o: "unique_object ?kl ?sy ?res (Num 0x10000 64) ?k = Inr (?mo 0x10000, 0)"
    "unique_object ?kl ?sy ?res (Num 0x10080 64) ?k = Inr (?mo 0x10080, 1)"
    by (simp_all add: unique_object_def sx_ops_def sx_sym_def two_objects_def)
  have l: "unat (4 :: u64) \<le> length (as_bytes ?kl 0 ?k)" "0 < mo_size (?mo 0x10080)"
    "e_value ?kl (to_unique ?sy (as_bytes ?kl 1 ?k ! j) ?k) \<noteq> None" if "j < min (mo_size (?mo 0x10080)) 31" for j
    using that by (simp_all add: sx_ops_def sx_sym_def k)
  have l': "unat (4 :: u64) \<le> length (as_bytes ?kl 0 ?k)" "0 < mo_size (?mo 0x10080)" by (simp_all add: sx_ops_def k)
  show ?thesis
    using makeSymbolic_effect [where sy = ?sy and lastId = 7, OF sx_space_laws sx_object_laws sx_expr_laws f(1) f(3) o(1) f(2,4)
        l'(1) o(2) l'(2) l(3) refl] k(2) by fastforce
qed

end
