(* ===== verification/Config_File.thy ===== *)
theory Config_File
  imports S2E_Prelude
begin

text \<open>
  The configuration (\<open>ConfigFile.cpp\<close>): values are read by evaluating a Lua expression and
  converting what it leaves on the Lua stack. The evaluation of a chunk and Lua's conversions
  between numbers and strings are parameters; the stack discipline and the traversals of tables
  are the program's.
\<close>

section \<open>Lua values and the stack\<close>

datatype 'n lua_value =
    Lua_Nil
  | Lua_Boolean bool
  | Lua_Number 'n
  | Lua_String string
  | Lua_Table "('n lua_value \<times> 'n lua_value) list"
  | Lua_Other

record ('n, 'w) lua_lib =
  num_of_int :: "int \<Rightarrow> 'n"
  num_string :: "'n \<Rightarrow> string"
  num_integer :: "'n \<Rightarrow> u64"
  string_num :: "string \<Rightarrow> 'n option"
  run_chunk :: "string \<Rightarrow> 'w \<Rightarrow> (string + 'n lua_value list) \<times> 'w"

text \<open>The stack, its top first, and the global environment.\<close>

record ('n, 'w) lua_state =
  lua_stack :: "'n lua_value list"
  lua_world :: 'w

definition lua_push :: "'n lua_value \<Rightarrow> ('n, 'w) lua_state \<Rightarrow> ('n, 'w) lua_state" where
  "lua_push v L = L\<lparr>lua_stack := v # lua_stack L\<rparr>"

definition lua_pop :: "nat \<Rightarrow> ('n, 'w) lua_state \<Rightarrow> ('n, 'w) lua_state" where
  "lua_pop n L = L\<lparr>lua_stack := drop n (lua_stack L)\<rparr>"

text \<open>The slot of a negative index, counted from the top.\<close>

definition lua_slot :: "int \<Rightarrow> nat" where
  "lua_slot index = nat (- index - 1)"

definition lua_at :: "int \<Rightarrow> ('n, 'w) lua_state \<Rightarrow> 'n lua_value" where
  "lua_at index L = lua_stack L ! lua_slot index"

fun lua_isboolean :: "'n lua_value \<Rightarrow> bool" where
  "lua_isboolean (Lua_Boolean _) = True"
| "lua_isboolean _ = False"

fun lua_toboolean :: "'n lua_value \<Rightarrow> bool" where
  "lua_toboolean (Lua_Boolean b) = b"
| "lua_toboolean v = (v \<noteq> Lua_Nil)"

fun lua_tonumber_opt :: "('n, 'w) lua_lib \<Rightarrow> 'n lua_value \<Rightarrow> 'n option" where
  "lua_tonumber_opt lib (Lua_Number n) = Some n"
| "lua_tonumber_opt lib (Lua_String s) = string_num lib s"
| "lua_tonumber_opt lib _ = None"

definition lua_isnumber :: "('n, 'w) lua_lib \<Rightarrow> 'n lua_value \<Rightarrow> bool" where
  "lua_isnumber lib v \<longleftrightarrow> lua_tonumber_opt lib v \<noteq> None"

definition lua_tonumber :: "('n, 'w) lua_lib \<Rightarrow> 'n lua_value \<Rightarrow> 'n" where
  "lua_tonumber lib v = (case lua_tonumber_opt lib v of Some n \<Rightarrow> n | None \<Rightarrow> num_of_int lib 0)"

definition lua_tointeger :: "('n, 'w) lua_lib \<Rightarrow> 'n lua_value \<Rightarrow> u64" where
  "lua_tointeger lib v = (case lua_tonumber_opt lib v of Some n \<Rightarrow> num_integer lib n | None \<Rightarrow> 0)"

fun lua_isstring :: "'n lua_value \<Rightarrow> bool" where
  "lua_isstring (Lua_String _) = True"
| "lua_isstring (Lua_Number _) = True"
| "lua_isstring _ = False"

fun string_of_value :: "('n, 'w) lua_lib \<Rightarrow> 'n lua_value \<Rightarrow> string" where
  "string_of_value lib (Lua_String s) = s"
| "string_of_value lib (Lua_Number n) = num_string lib n"
| "string_of_value lib _ = []"

text \<open>\<open>lua_tostring\<close> also turns a number on the stack into a string.\<close>

definition lua_tostring :: "('n, 'w) lua_lib \<Rightarrow> int \<Rightarrow> ('n, 'w) lua_state \<Rightarrow> string \<times> ('n, 'w) lua_state" where
  "lua_tostring lib index L = (let s = string_of_value lib (lua_at index L) in
     (s, if lua_isstring (lua_at index L) then L\<lparr>lua_stack := (lua_stack L)[lua_slot index := Lua_String s]\<rparr> else L))"

fun lua_istable :: "'n lua_value \<Rightarrow> bool" where
  "lua_istable (Lua_Table _) = True"
| "lua_istable _ = False"

fun table_entries :: "'n lua_value \<Rightarrow> ('n lua_value \<times> 'n lua_value) list" where
  "table_entries (Lua_Table kvs) = kvs"
| "table_entries _ = []"

definition raw_index :: "('n, 'w) lua_lib \<Rightarrow> 'n lua_value \<Rightarrow> int \<Rightarrow> 'n lua_value" where
  "raw_index lib t i = (case map_of (table_entries t) (Lua_Number (num_of_int lib i)) of
     Some v \<Rightarrow> v | None \<Rightarrow> Lua_Nil)"

definition lua_rawgeti :: "('n, 'w) lua_lib \<Rightarrow> int \<Rightarrow> int \<Rightarrow> ('n, 'w) lua_state \<Rightarrow> ('n, 'w) lua_state" where
  "lua_rawgeti lib index i L = lua_push (raw_index lib (lua_at index L) i) L"

text \<open>\<open>lua_next\<close> replaces the key on the top by the next entry of the table, or pops it at the end.
  A key that is not in the table is an error, which ends the program when no protected call is
  active.\<close>

fun next_entry :: "'n lua_value \<Rightarrow> ('n lua_value \<times> 'n lua_value) list \<Rightarrow> ('n lua_value \<times> 'n lua_value) option option" where
  "next_entry k [] = None"
| "next_entry k (e # es) =
     (if fst e = k then Some (case es of [] \<Rightarrow> None | e' # _ \<Rightarrow> Some e') else next_entry k es)"

definition lua_next :: "int \<Rightarrow> ('n, 'w) lua_state \<Rightarrow> (bool \<times> ('n, 'w) lua_state) res" where
  "lua_next index L = (let t = table_entries (lua_at index L); k = lua_at (-1) L; L1 = lua_pop 1 L in
     case (if k = Lua_Nil then Some (case t of [] \<Rightarrow> None | e # _ \<Rightarrow> Some e) else next_entry k t) of
       None \<Rightarrow> Inl (Process_Exit 1)
     | Some None \<Rightarrow> Inr (False, L1)
     | Some (Some (k', v)) \<Rightarrow> Inr (True, lua_push v (lua_push k' L1)))"

section \<open>Conversions\<close>

text \<open>
  A conversion returns whether it succeeded and the value, with the state of the stack; a loop over
  a table may in principle not end, which is \<open>None\<close>.
\<close>

type_synonym ('n, 'w, 'a) conversion =
  "('n, 'w) lua_lib \<Rightarrow> 'a \<Rightarrow> int \<Rightarrow> ('n, 'w) lua_state \<Rightarrow> ((bool \<times> 'a \<times> ('n, 'w) lua_state) res) option"

definition getLuaValue_bool :: "('n, 'w, bool) conversion" where
  "getLuaValue_bool lib def index L = (let ok = lua_isboolean (lua_at index L) in
     Some (Inr (ok, if ok then lua_toboolean (lua_at index L) else def, L)))"

definition getLuaValue_int :: "('n, 'w, u64) conversion" where
  "getLuaValue_int lib def index L = (let ok = lua_isnumber lib (lua_at index L) in
     Some (Inr (ok, if ok then lua_tointeger lib (lua_at index L) else def, L)))"

definition getLuaValue_double :: "('n, 'w, 'n) conversion" where
  "getLuaValue_double lib def index L = (let ok = lua_isnumber lib (lua_at index L) in
     Some (Inr (ok, if ok then lua_tonumber lib (lua_at index L) else def, L)))"

definition getLuaValue_string :: "('n, 'w, string) conversion" where
  "getLuaValue_string lib def index L = (let ok = lua_isstring (lua_at index L) in
     if ok then (case lua_tostring lib index L of (s, L') \<Rightarrow> Some (Inr (ok, s, L'))) else Some (Inr (ok, def, L)))"

text \<open>
  The loop of the three list conversions: entry \<open>i\<close> is pushed, tested for the end, converted by
  \<open>elem\<close>, and popped on every path.
\<close>

partial_function (option) list_loop ::
  "('n, 'w) lua_lib \<Rightarrow> ('n lua_value \<Rightarrow> 'b option) \<Rightarrow> int \<Rightarrow> int \<Rightarrow> 'b list \<Rightarrow> ('n, 'w) lua_state \<Rightarrow>
   ('b list option \<times> ('n, 'w) lua_state) option" where
  "list_loop lib elem index i acc L =
     (let L1 = lua_rawgeti lib index i L in
      if lua_at (-1) L1 = Lua_Nil then Some (Some acc, lua_pop 1 L1)
      else (case elem (lua_at (-1) L1) of
          Some x \<Rightarrow> list_loop lib elem index (i + 1) (acc @ [x]) (lua_pop 1 L1)
        | None \<Rightarrow> Some (None, lua_pop 1 L1)))"

definition string_elem :: "('n, 'w) lua_lib \<Rightarrow> 'n lua_value \<Rightarrow> string option" where
  "string_elem lib v = (if lua_isstring v then Some (string_of_value lib v) else None)"

text \<open>The integer list tests for strings, so a string that is not a number is read as 0.\<close>

definition integer_elem :: "('n, 'w) lua_lib \<Rightarrow> 'n lua_value \<Rightarrow> u64 option" where
  "integer_elem lib v = (if lua_isstring v then Some (lua_tointeger lib v) else None)"

definition list_conversion ::
  "(('n, 'w) lua_lib \<Rightarrow> 'n lua_value \<Rightarrow> 'b option) \<Rightarrow> ('b list \<Rightarrow> 'a) \<Rightarrow> ('n, 'w, 'a) conversion" where
  "list_conversion elem result lib def index L =
     (if \<not> lua_istable (lua_at index L) then Some (Inr (False, def, L))
      else (case list_loop lib (elem lib) index 1 [] L of
          None \<Rightarrow> None
        | Some (None, L') \<Rightarrow> Some (Inr (False, def, L'))
        | Some (Some xs, L') \<Rightarrow> Some (Inr (True, result xs, L'))))"

definition getLuaValue_string_list :: "('n, 'w, string list) conversion" where
  "getLuaValue_string_list = list_conversion string_elem (\<lambda>xs. xs)"

definition getLuaValue_integer_list :: "('n, 'w, u64 list) conversion" where
  "getLuaValue_integer_list = list_conversion integer_elem (\<lambda>xs. xs)"

definition getLuaValue_list_size :: "('n, 'w, nat) conversion" where
  "getLuaValue_list_size = list_conversion (\<lambda>lib v. Some ()) length"

partial_function (option) keys_loop ::
  "('n, 'w) lua_lib \<Rightarrow> string list \<Rightarrow> int \<Rightarrow> string list \<Rightarrow> ('n, 'w) lua_state \<Rightarrow>
   ((bool \<times> string list \<times> ('n, 'w) lua_state) res) option" where
  "keys_loop lib def index acc L =
     (case lua_next (index - 1) L of
        Inl e \<Rightarrow> Some (Inl e)
      | Inr (found, L1) \<Rightarrow>
          if \<not> found then Some (Inr (True, acc, L1))
          else if \<not> lua_isstring (lua_at (-2) L1) then Some (Inr (False, def, L1))
          else (case lua_tostring lib (-2) L1 of (s, L2) \<Rightarrow>
            keys_loop lib def index (acc @ [s]) (lua_pop 1 L2)))"

definition getLuaValue_key_list :: "('n, 'w, string list) conversion" where
  "getLuaValue_key_list lib def index L =
     (if \<not> lua_istable (lua_at index L) then Some (Inr (False, def, L))
      else keys_loop lib def index [] (lua_push Lua_Nil L))"

section \<open>Values by name\<close>

text \<open>\<open>luaL_loadstring\<close> and \<open>lua_pcall\<close> leave the error message on the stack, or the results of the
  chunk, as many as are asked for (\<open>None\<close>: all). The first component of the result of
  \<open>getValueT\<close> is the flag \<open>ok\<close>.\<close>

definition adjust_results :: "nat option \<Rightarrow> 'n lua_value list \<Rightarrow> 'n lua_value list" where
  "adjust_results nresults vs = (case nresults of
     None \<Rightarrow> vs | Some n \<Rightarrow> take n (vs @ replicate n Lua_Nil))"

definition run_lua ::
  "('n, 'w) lua_lib \<Rightarrow> nat option \<Rightarrow> string \<Rightarrow> ('n, 'w) lua_state \<Rightarrow> bool \<times> ('n, 'w) lua_state" where
  "run_lua lib nresults chunk L = (case run_chunk lib chunk (lua_world L) of
      (Inl msg, w) \<Rightarrow> (False, lua_push (Lua_String msg) (L\<lparr>lua_world := w\<rparr>))
    | (Inr vs, w) \<Rightarrow> (True, L\<lparr>lua_stack := rev (adjust_results nresults vs) @ lua_stack L, lua_world := w\<rparr>))"

definition getValueT ::
  "('n, 'w, 'a) conversion \<Rightarrow> ('n, 'w) lua_lib \<Rightarrow> string \<Rightarrow> 'a \<Rightarrow> ('n, 'w) lua_state \<Rightarrow>
   ((bool \<times> 'a \<times> ('n, 'w) lua_state) res) option" where
  "getValueT conv lib name def L =
     (if name = [] then Some (Inl Assertion_Failed)
      else (case run_lua lib (Some 1) (''return '' @ name) L of (loaded, L1) \<Rightarrow>
        if \<not> loaded then Some (Inr (False, def, lua_pop 1 L1))
        else (case conv lib def (-1) L1 of
            None \<Rightarrow> None
          | Some (Inl e) \<Rightarrow> Some (Inl e)
          | Some (Inr (ok, v, L2)) \<Rightarrow> Some (Inr (ok, v, lua_pop 1 L2)))))"

definition getBool where "getBool lib name def L = getValueT getLuaValue_bool lib name def L"
definition getInt where "getInt lib name def L = getValueT getLuaValue_int lib name def L"
definition getDouble where "getDouble lib name def L = getValueT getLuaValue_double lib name def L"
definition getString where "getString lib name def L = getValueT getLuaValue_string lib name def L"
definition getStringList where "getStringList lib name def L = getValueT getLuaValue_string_list lib name def L"
definition getIntegerList where "getIntegerList lib name def L = getValueT getLuaValue_integer_list lib name def L"
definition getListSize where "getListSize lib name L = getValueT getLuaValue_list_size lib name 0 L"
definition getListKeys where "getListKeys lib name L = getValueT getLuaValue_key_list lib name [] L"

definition hasKey :: "('n, 'w) lua_lib \<Rightarrow> string \<Rightarrow> ('n, 'w) lua_state \<Rightarrow> (bool \<times> ('n, 'w) lua_state) res" where
  "hasKey lib name L =
     rbind (assert_that (name \<noteq> [])) (\<lambda>_.
       case run_lua lib (Some 1) (''return '' @ name) L of (loaded, L1) \<Rightarrow>
         if \<not> loaded then Inr (False, L1)
         else Inr (lua_at (-1) L1 \<noteq> Lua_Nil, lua_pop 1 L1))"

definition invokeLuaCommand :: "('n, 'w) lua_lib \<Rightarrow> string \<Rightarrow> ('n, 'w) lua_state \<Rightarrow> ('n, 'w) lua_state" where
  "invokeLuaCommand lib cmd L = snd (run_lua lib None cmd L)"

definition isFunctionDefined :: "(string \<Rightarrow> 'w \<Rightarrow> 'n lua_value) \<Rightarrow> string \<Rightarrow> ('n, 'w) lua_state \<Rightarrow> bool \<times> ('n, 'w) lua_state" where
  "isFunctionDefined global name L =
     (let L1 = lua_push (global name (lua_world L)) L in (lua_at (-1) L1 \<noteq> Lua_Nil, lua_pop 1 L1))"

text \<open>The constructor runs the configuration file.\<close>

definition ConfigFile_new :: "('n, 'w) lua_lib \<Rightarrow> string \<Rightarrow> 'w \<Rightarrow> ('n, 'w) lua_state res" where
  "ConfigFile_new lib script w = (let L = \<lparr>lua_stack = [], lua_world = w\<rparr> in
     if script = [] then Inr L
     else (case run_lua lib (Some 0) script L of
         (False, L') \<Rightarrow> Inl (Process_Exit 1)
       | (True, L') \<Rightarrow> Inr L'))"

section \<open>Lists\<close>

text \<open>The list that a table holds: its entries at 1, 2, \dots up to the first that is missing.\<close>

definition array_part :: "('n, 'w) lua_lib \<Rightarrow> 'n lua_value \<Rightarrow> 'n lua_value list" where
  "array_part lib t = takeWhile (\<lambda>v. v \<noteq> Lua_Nil)
     (map (\<lambda>j. raw_index lib t (1 + int j)) [0..<length (table_entries t) + 1])"

text \<open>Lua's numbers represent small integers exactly.\<close>

definition exact_integers :: "('n, 'w) lua_lib \<Rightarrow> bool" where
  "exact_integers lib \<longleftrightarrow> inj_on (num_of_int lib) {1..2 ^ 53}"

lemma missing_entry:
  assumes "exact_integers lib" "length (table_entries t) < 2 ^ 31"
  shows "\<exists>j\<le>length (table_entries t). raw_index lib t (1 + int j) = Lua_Nil"
proof (rule ccontr)
  let ?n = "length (table_entries t)" and ?k = "\<lambda>j. Lua_Number (num_of_int lib (1 + int j))"
  assume "\<not> ?thesis"
  then have all: "raw_index lib t (1 + int j) \<noteq> Lua_Nil" if "j \<le> ?n" for j using that by auto
  have "?k ` {0..?n} \<subseteq> fst ` set (table_entries t)"
  proof
    fix k assume "k \<in> ?k ` {0..?n}"
    then obtain j where j: "k = ?k j" "j \<le> ?n" by auto
    from all [OF j(2)] show "k \<in> fst ` set (table_entries t)"
      unfolding raw_index_def j(1) by (metis map_of_eq_None_iff option.simps(4))
  qed
  moreover have "inj_on ?k {0..?n}"
  proof (rule inj_onI)
    fix a b assume ab: "a \<in> {0..?n}" "b \<in> {0..?n}" "?k a = ?k b"
    then have "1 + int a = 1 + int b"
      using assms inj_onD [OF assms(1) [unfolded exact_integers_def], of "1 + int a" "1 + int b"] by auto
    then show "a = b" by simp
  qed
  ultimately have "card {0..?n} \<le> card (fst ` set (table_entries t))"
    using card_mono [of "fst ` set (table_entries t)" "?k ` {0..?n}"] by (simp add: card_image)
  also have "\<dots> \<le> ?n" by (meson card_image_le card_length finite_set le_trans)
  finally show False by simp
qed

lemma takeWhile_at_end:
  "\<exists>x\<in>set xs. \<not> P x \<Longrightarrow> length (takeWhile P xs) < length xs \<and> \<not> P (xs ! length (takeWhile P xs))"
  by (induction xs) auto

lemma array_part_spec:
  assumes "exact_integers lib" "length (table_entries t) < 2 ^ 31"
  shows "j < length (array_part lib t) \<Longrightarrow> raw_index lib t (1 + int j) = array_part lib t ! j \<and> array_part lib t ! j \<noteq> Lua_Nil"
    and "raw_index lib t (1 + int (length (array_part lib t))) = Lua_Nil"
proof -
  let ?xs = "map (\<lambda>j. raw_index lib t (1 + int j)) [0..<length (table_entries t) + 1]"
  have ex: "\<exists>x\<in>set ?xs. \<not> x \<noteq> Lua_Nil" 
  proof -
    obtain j where "j \<le> length (table_entries t)" "raw_index lib t (1 + int j) = Lua_Nil"
      using missing_entry [OF assms] by blast
    then show ?thesis by (intro bexI [of _ "raw_index lib t (1 + int j)"]) (auto simp del: upt_Suc intro: rev_image_eqI [of j])
  qed
  note e = takeWhile_at_end [OF ex, folded array_part_def]
  have nth: "?xs ! m = raw_index lib t (1 + int m)" if "m < length ?xs" for m
    using that by (simp del: upt_Suc)
  from e nth [of "length (array_part lib t)"] show "raw_index lib t (1 + int (length (array_part lib t))) = Lua_Nil"
    by metis
  assume j: "j < length (array_part lib t)"
  then have "array_part lib t ! j = ?xs ! j" unfolding array_part_def by (rule takeWhile_nth)
  moreover have "array_part lib t ! j \<noteq> Lua_Nil"
    using nth_mem [OF j] unfolding array_part_def by (auto dest: set_takeWhileD simp del: upt_Suc)
  ultimately show "raw_index lib t (1 + int j) = array_part lib t ! j \<and> array_part lib t ! j \<noteq> Lua_Nil"
    using j e nth [of j] by (metis less_trans)
qed

lemma list_loop_all:
  assumes "lua_stack L = t # st"
  shows "(\<forall>j<length vs. raw_index lib t (i + int j) = vs ! j \<and> vs ! j \<noteq> Lua_Nil) \<Longrightarrow>
    raw_index lib t (i + int (length vs)) = Lua_Nil \<Longrightarrow>
    list_loop lib elem (-1) i acc L =
      Some (if \<forall>v\<in>set vs. elem v \<noteq> None then Some (acc @ map (\<lambda>v. the (elem v)) vs) else None, L)"
proof (induction vs arbitrary: i acc)
  case Nil
  then show ?case using assms
    by (subst list_loop.simps) (simp add: Let_def lua_rawgeti_def lua_push_def lua_pop_def lua_at_def lua_slot_def)
next
  case (Cons v vs)
  have v: "raw_index lib t i = v" "v \<noteq> Lua_Nil" using Cons.prems(1) by (auto dest: spec [of _ 0])
  have "\<forall>j<length vs. raw_index lib t (i + 1 + int j) = vs ! j \<and> vs ! j \<noteq> Lua_Nil"
  proof (intro allI impI)
    fix j assume "j < length vs"
    with Cons.prems(1) [THEN spec, of "Suc j"]
    show "raw_index lib t (i + 1 + int j) = vs ! j \<and> vs ! j \<noteq> Lua_Nil" by (simp add: add.assoc)
  qed
  moreover have "raw_index lib t (i + 1 + int (length vs)) = Lua_Nil" using Cons.prems(2) by (simp add: add.assoc)
  ultimately have ih: "list_loop lib elem (-1) (i + 1) acc' L =
      Some (if \<forall>v\<in>set vs. elem v \<noteq> None then Some (acc' @ map (\<lambda>v. the (elem v)) vs) else None, L)" for acc'
    by (rule Cons.IH)
  have same: "L\<lparr>lua_stack := t # st\<rparr> = L" using assms by (cases L) simp
  show ?case using assms v ih
    by (subst list_loop.simps)
       (auto simp: Let_def lua_rawgeti_def lua_push_def lua_pop_def lua_at_def lua_slot_def same split: option.split)
qed

lemma list_conversion_value:
  assumes "exact_integers lib" "lua_istable t" "length (table_entries t) < 2 ^ 31" "name \<noteq> []"
    and run: "run_chunk lib (''return '' @ name) (lua_world L) = (Inr (t # vs), w)"
  shows "getValueT (list_conversion elem result) lib name def L =
    Some (Inr (if \<forall>v\<in>set (array_part lib t). elem lib v \<noteq> None
      then (True, result (map (\<lambda>v. the (elem lib v)) (array_part lib t)), L\<lparr>lua_world := w\<rparr>)
      else (False, def, L\<lparr>lua_world := w\<rparr>)))"
proof -
  let ?L = "L\<lparr>lua_stack := t # lua_stack L, lua_world := w\<rparr>"
  have ld: "run_lua lib (Some 1) (''return '' @ name) L = (True, ?L)"
    using run by (simp add: run_lua_def adjust_results_def)
  have at: "lua_at (- 1) ?L = t" by (simp add: lua_at_def lua_slot_def)
  have "list_loop lib (elem lib) (-1) 1 [] ?L = Some (if \<forall>v\<in>set (array_part lib t). elem lib v \<noteq> None
      then Some ([] @ map (\<lambda>v. the (elem lib v)) (array_part lib t)) else None, ?L)"
    by (rule list_loop_all) (use array_part_spec [OF assms(1,3)] in auto)
  then show ?thesis using assms(2,4) at
    unfolding getValueT_def ld list_conversion_def by (simp add: lua_pop_def)
qed

text \<open>A list value of the configuration is the array part of the table that the expression
  evaluates to, with every element converted, and the default if one element cannot be; the size
  is the number of elements. In all cases the reading returns and the Lua stack is as before.\<close>

theorem config_list_values:
  assumes "exact_integers lib" "lua_istable t" "length (table_entries t) < 2 ^ 31" "name \<noteq> []"
    and "run_chunk lib (''return '' @ name) (lua_world L) = (Inr (t # vs), w)"
  shows "getStringList lib name sdef L = Some (Inr (if \<forall>v\<in>set (array_part lib t). lua_isstring v
        then (True, map (string_of_value lib) (array_part lib t), L\<lparr>lua_world := w\<rparr>)
        else (False, sdef, L\<lparr>lua_world := w\<rparr>))) \<and>
    getIntegerList lib name idef L = Some (Inr (if \<forall>v\<in>set (array_part lib t). lua_isstring v
        then (True, map (lua_tointeger lib) (array_part lib t), L\<lparr>lua_world := w\<rparr>)
        else (False, idef, L\<lparr>lua_world := w\<rparr>))) \<and>
    getListSize lib name L = Some (Inr (True, length (array_part lib t), L\<lparr>lua_world := w\<rparr>))"
proof -
  note conv = list_conversion_value [OF assms]
  have "map (\<lambda>v. the (string_elem lib v)) xs = map (string_of_value lib) xs" if "\<forall>v\<in>set xs. lua_isstring v" for xs
    using that by (simp add: string_elem_def)
  moreover have "map (\<lambda>v. the (integer_elem lib v)) xs = map (lua_tointeger lib) xs" if "\<forall>v\<in>set xs. lua_isstring v" for xs
    using that by (simp add: integer_elem_def)
  moreover have "(string_elem lib v \<noteq> None) = lua_isstring v" "(integer_elem lib v \<noteq> None) = lua_isstring v" for v
    by (simp_all add: string_elem_def integer_elem_def)
  ultimately show ?thesis
    unfolding getStringList_def getIntegerList_def getListSize_def
      getLuaValue_string_list_def getLuaValue_integer_list_def getLuaValue_list_size_def conv
    by simp
qed

text \<open>A small Lua: numbers are integers, the only expression is \<open>plugins\<close>.\<close>

definition tiny_lua :: "int lua_value \<Rightarrow> (int, unit) lua_lib" where
  "tiny_lua v = \<lparr>num_of_int = (\<lambda>i. i), num_string = (\<lambda>i. if i = 1 then ''1'' else ''n''),
     num_integer = of_int, string_num = (\<lambda>s. None),
     run_chunk = (\<lambda>c w. if c = ''return plugins'' then (Inr [v], w) else (Inl ''error'', w))\<rparr>"

definition plugin_table :: "int lua_value" where
  "plugin_table = Lua_Table [(Lua_Number 2, Lua_String ''b''), (Lua_Number 1, Lua_String ''a''),
     (Lua_String ''x'', Lua_Nil), (Lua_Number 4, Lua_String ''d'')]"

theorem config_list_values_witness:
  "getStringList (tiny_lua plugin_table) ''plugins'' [] \<lparr>lua_stack = [], lua_world = ()\<rparr> =
     Some (Inr (True, [''a'', ''b''], \<lparr>lua_stack = [], lua_world = ()\<rparr>))"
proof -
  let ?lib = "tiny_lua plugin_table" and ?L = "\<lparr>lua_stack = [] :: int lua_value list, lua_world = ()\<rparr>"
  have "exact_integers ?lib" by (simp add: exact_integers_def tiny_lua_def)
  moreover have "lua_istable plugin_table" "length (table_entries plugin_table) < 2 ^ 31" "''plugins'' \<noteq> []"
    by (simp_all add: plugin_table_def)
  moreover have "run_chunk ?lib (''return '' @ ''plugins'') (lua_world ?L) = (Inr (plugin_table # []), ())"
    by (simp add: tiny_lua_def)
  ultimately have "getStringList ?lib ''plugins'' [] ?L = Some (Inr (if \<forall>v\<in>set (array_part ?lib plugin_table). lua_isstring v
        then (True, map (string_of_value ?lib) (array_part ?lib plugin_table), ?L\<lparr>lua_world := ()\<rparr>)
        else (False, [], ?L\<lparr>lua_world := ()\<rparr>)))"
    by (rule config_list_values [THEN conjunct1])
  moreover have "array_part ?lib plugin_table = [Lua_String ''a'', Lua_String ''b'']" by code_simp
  ultimately show ?thesis by simp
qed

section \<open>Keys\<close>

fun is_string_key :: "'n lua_value \<times> 'n lua_value \<Rightarrow> bool" where
  "is_string_key (Lua_String _, v) = True"
| "is_string_key _ = False"

fun is_number_key :: "'n lua_value \<times> 'n lua_value \<Rightarrow> bool" where
  "is_number_key (Lua_Number _, v) = True"
| "is_number_key _ = False"

definition key_names :: "('n, 'w) lua_lib \<Rightarrow> ('n lua_value \<times> 'n lua_value) list \<Rightarrow> string list" where
  "key_names lib kvs = map (string_of_value lib \<circ> fst) kvs"

text \<open>A table has every key once and none is nil; in the following no number key prints as a string
  key.\<close>

definition table_ok :: "('n, 'w) lua_lib \<Rightarrow> ('n lua_value \<times> 'n lua_value) list \<Rightarrow> bool" where
  "table_ok lib kvs \<longleftrightarrow> distinct (map fst kvs) \<and> Lua_Nil \<notin> fst ` set kvs \<and>
     (\<forall>n. Lua_Number n \<in> fst ` set kvs \<longrightarrow> Lua_String (num_string lib n) \<notin> fst ` set kvs)"

lemma next_entry_at:
  "distinct (map fst (pre @ (k, v) # post)) \<Longrightarrow>
   next_entry k (pre @ (k, v) # post) = Some (case post of [] \<Rightarrow> None | e # _ \<Rightarrow> Some e)"
  by (induction pre) auto

lemma next_entry_none: "k \<notin> fst ` set kvs \<Longrightarrow> next_entry k kvs = None"
  by (induction kvs) auto

text \<open>The traversal with \<open>post\<close> still to come; \<open>k\<close> is the key on the stack.\<close>

lemma lua_next_at:
  assumes "table_ok lib kvs" "k = Lua_Nil \<and> post = kvs \<or> (\<exists>pre v. kvs = pre @ (k, v) # post)"
    and "lua_stack L = k # Lua_Table kvs # st"
  shows "lua_next (-2) L = Inr (case post of
      [] \<Rightarrow> (False, L\<lparr>lua_stack := Lua_Table kvs # st\<rparr>)
    | (k', v) # _ \<Rightarrow> (True, L\<lparr>lua_stack := v # k' # Lua_Table kvs # st\<rparr>))"
proof -
  have at: "lua_at (-2) L = Lua_Table kvs" "lua_at (-1) L = k" "lua_pop 1 L = L\<lparr>lua_stack := Lua_Table kvs # st\<rparr>"
    using assms(3) by (simp_all add: lua_at_def lua_slot_def lua_pop_def)
  have "(if k = Lua_Nil then Some (case kvs of [] \<Rightarrow> None | e # _ \<Rightarrow> Some e) else next_entry k kvs) =
      Some (case post of [] \<Rightarrow> None | e # _ \<Rightarrow> Some e)"
  proof (cases "k = Lua_Nil")
    case True
    then have "post = kvs" using assms(1,2) by (auto simp: table_ok_def)
    with True show ?thesis by simp
  next
    case False
    with assms(2) obtain pre v where kvs: "kvs = pre @ (k, v) # post" by auto
    with assms(1) have "distinct (map fst (pre @ (k, v) # post))" by (simp add: table_ok_def)
    from next_entry_at [OF this] False kvs show ?thesis by simp
  qed
  then show ?thesis unfolding lua_next_def at Let_def table_entries.simps
    by (simp only:) (cases post; auto simp: lua_push_def)
qed

lemma lua_next_lost:
  assumes "table_ok lib kvs" "Lua_Number n \<in> fst ` set kvs"
    and "lua_stack L = Lua_String (num_string lib n) # Lua_Table kvs # st"
  shows "lua_next (-2) L = Inl (Process_Exit 1)"
  using assms next_entry_none [of "Lua_String (num_string lib n)" kvs]
  by (auto simp: lua_next_def lua_at_def lua_slot_def table_ok_def Let_def)

lemma lua_tostring_below:
  "lua_stack L = v # k # st \<Longrightarrow> lua_isstring k \<Longrightarrow> lua_tostring lib (-2) L =
     (string_of_value lib k, L\<lparr>lua_stack := v # Lua_String (string_of_value lib k) # st\<rparr>)"
  by (simp add: lua_tostring_def lua_at_def lua_slot_def Let_def)

lemma keys_loop_spec:
  assumes ok: "table_ok lib kvs"
  shows "k = Lua_Nil \<and> post = kvs \<or> (\<exists>pre v. kvs = pre @ (k, v) # post) \<Longrightarrow>
    lua_stack L = k # Lua_Table kvs # st \<Longrightarrow>
    keys_loop lib def (-1) acc L = Some (case dropWhile is_string_key post of
        [] \<Rightarrow> Inr (True, acc @ key_names lib post, L\<lparr>lua_stack := Lua_Table kvs # st\<rparr>)
      | e # _ \<Rightarrow> if is_number_key e then Inl (Process_Exit 1)
          else Inr (False, def, L\<lparr>lua_stack := snd e # fst e # Lua_Table kvs # st\<rparr>))"
proof (induction post arbitrary: k acc L)
  case Nil
  from lua_next_at [OF ok Nil] show ?case by (subst keys_loop.simps) (simp add: key_names_def)
next
  case (Cons e post)
  obtain k' v' where e: "e = (k', v')" by fastforce
  let ?L1 = "L\<lparr>lua_stack := v' # k' # Lua_Table kvs # st\<rparr>"
  have nxt: "lua_next (-2) L = Inr (True, ?L1)" using lua_next_at [OF ok Cons.prems] e by simp
  have at: "lua_at (-2) ?L1 = k'" by (simp add: lua_at_def lua_slot_def)
  from Cons.prems(1) e have mem: "(k', v') \<in> set kvs" by auto
  show ?case
  proof (cases k')
    case (Lua_String s)
    have ts: "lua_tostring lib (-2) ?L1 = (s, ?L1)"
      using Lua_String by (simp add: lua_tostring_below)
    have "k' = Lua_Nil \<and> post = kvs \<or> (\<exists>pre v. kvs = pre @ (k', v) # post)"
      using Cons.prems(1) e by (metis Cons_eq_appendI append_Cons append_Nil append_assoc)
    from Cons.IH [OF this, of "lua_pop 1 ?L1" "acc @ [s]"] show ?thesis
      using Lua_String e ts at
      by (subst keys_loop.simps, cases "dropWhile is_string_key post")
         (simp_all add: nxt lua_pop_def key_names_def del: dropWhile_eq_Nil_conv)
  next
    case (Lua_Number n)
    have ts: "lua_tostring lib (-2) ?L1 =
        (num_string lib n, L\<lparr>lua_stack := v' # Lua_String (num_string lib n) # Lua_Table kvs # st\<rparr>)"
      using Lua_Number by (simp add: lua_tostring_below)
    have "lua_next (-2) (lua_pop 1 (L\<lparr>lua_stack := v' # Lua_String (num_string lib n) # Lua_Table kvs # st\<rparr>)) =
        Inl (Process_Exit 1)"
      using lua_next_lost [OF ok] mem Lua_Number by (force simp: lua_pop_def image_iff)
    then have "keys_loop lib def (-1) (acc @ [num_string lib n])
        (lua_pop 1 (L\<lparr>lua_stack := v' # Lua_String (num_string lib n) # Lua_Table kvs # st\<rparr>)) = Some (Inl (Process_Exit 1))"
      by (subst keys_loop.simps) simp
    then show ?thesis using Lua_Number e ts at by (subst keys_loop.simps) (simp add: nxt)
  qed (use e nxt at ok mem in \<open>subst keys_loop.simps, force simp: table_ok_def\<close>)+
qed

text \<open>The keys of a table are returned in the order of the traversal when all are strings. The
  first other key decides otherwise: a number makes the traversal fail, because the conversion to a
  string replaces the key on the stack, and the process exits; any other key gives the default,
  and leaves the table and the key on the Lua stack.\<close>

theorem config_list_keys:
  assumes "table_ok lib kvs" "name \<noteq> []"
    and "run_chunk lib (''return '' @ name) (lua_world L) = (Inr (Lua_Table kvs # vs), w)"
  shows "getListKeys lib name L = Some (case dropWhile is_string_key kvs of
      [] \<Rightarrow> Inr (True, key_names lib kvs, L\<lparr>lua_world := w\<rparr>)
    | e # _ \<Rightarrow> if is_number_key e then Inl (Process_Exit 1)
        else Inr (False, [], L\<lparr>lua_stack := fst e # Lua_Table kvs # lua_stack L, lua_world := w\<rparr>))"
proof -
  let ?L = "L\<lparr>lua_stack := Lua_Table kvs # lua_stack L, lua_world := w\<rparr>"
  have ld: "run_lua lib (Some 1) (''return '' @ name) L = (True, ?L)"
    using assms(3) by (simp add: run_lua_def adjust_results_def)
  have at: "lua_at (- 1) ?L = Lua_Table kvs" by (simp add: lua_at_def lua_slot_def)
  have "lua_stack (lua_push Lua_Nil ?L) = Lua_Nil # Lua_Table kvs # lua_stack L" by (simp add: lua_push_def)
  from keys_loop_spec [OF assms(1) _ this, of kvs "[]" "[]"] show ?thesis using assms(2) at
    unfolding getListKeys_def getValueT_def ld getLuaValue_key_list_def
    by (cases "dropWhile is_string_key kvs") (simp_all add: lua_pop_def lua_push_def del: dropWhile_eq_Nil_conv)
qed

definition named_plugins :: "(int lua_value \<times> int lua_value) list" where
  "named_plugins = [(Lua_String ''x'', Lua_Boolean True), (Lua_String ''y'', Lua_Other)]"

theorem config_list_keys_witness:
  "getListKeys (tiny_lua (Lua_Table named_plugins)) ''plugins'' \<lparr>lua_stack = [], lua_world = ()\<rparr> =
     Some (Inr (True, [''x'', ''y''], \<lparr>lua_stack = [], lua_world = ()\<rparr>))"
  using config_list_keys [of "tiny_lua (Lua_Table named_plugins)" named_plugins "''plugins''"
      "\<lparr>lua_stack = [], lua_world = ()\<rparr>" "[]" "()"]
  by (simp add: table_ok_def tiny_lua_def named_plugins_def key_names_def)

text \<open>\<open>hasKey\<close> leaves the message of an expression that fails on the stack.\<close>

lemma hasKey_leaks:
  "name \<noteq> [] \<Longrightarrow> run_chunk lib (''return '' @ name) (lua_world L) = (Inl msg, w) \<Longrightarrow>
   hasKey lib name L = Inr (False, L\<lparr>lua_stack := Lua_String msg # lua_stack L, lua_world := w\<rparr>)"
  by (simp add: hasKey_def run_lua_def lua_push_def)

end
