(* ===== verification/Lua_Interface.thy ===== *)
theory Lua_Interface
  imports Symbolic_Values Config_File
begin

text \<open>
  The methods of a state that configuration scripts call (\<open>S2ELUAExecutionState\<close> in \<open>ConfigFile.cpp\<close>):
  parameters of functions, memory, registers and flags, concrete and symbolic. A method takes the
  values that the script passes and returns the values it pushes; a wrong argument leaves it by a Lua
  error.
\<close>

section \<open>Arguments\<close>

definition lua_error :: "'a res" where "lua_error = Inl (Thrown ''lua_error'')"

definition lua_arg :: "'n lua_value list \<Rightarrow> nat \<Rightarrow> 'n lua_value" where
  "lua_arg args i = (if 0 < i \<and> i \<le> length args then args ! (i - 1) else Lua_Nil)"

text \<open>\<open>luaL_checkint\<close> yields an \<open>int\<close>, which the callers widen by its sign or take as unsigned.\<close>

definition checkint :: "('n, 'w) lua_lib \<Rightarrow> 'n lua_value list \<Rightarrow> nat \<Rightarrow> u32 res" where
  "checkint lib args i = (case lua_tonumber_opt lib (lua_arg args i) of
      None \<Rightarrow> lua_error | Some n \<Rightarrow> Inr (ucast (num_integer lib n)))"

definition checkstring :: "('n, 'w) lua_lib \<Rightarrow> 'n lua_value list \<Rightarrow> nat \<Rightarrow> string res" where
  "checkstring lib args i = (if lua_isstring (lua_arg args i) then Inr (string_of_value lib (lua_arg args i)) else lua_error)"

definition pushnumber :: "('n, 'w) lua_lib \<Rightarrow> u64 \<Rightarrow> 'n lua_value list" where
  "pushnumber lib v = [Lua_Number (num_of_int lib (uint v))]"

type_synonym ('e, 'o, 'k) es = "('e, 'o, 'k) exec_state"

section \<open>Parameters of functions\<close>

definition reg_off :: "cpu_conf \<Rightarrow> nat \<Rightarrow> nat" where
  "reg_off cf i = regs_offset cf + i * CPU_REG_SIZE cf"

definition convention :: "('n, 'w) lua_lib \<Rightarrow> cpu_conf \<Rightarrow> 'n lua_value list \<Rightarrow> nat \<Rightarrow> string" where
  "convention lib cf args i =
     (if lua_isstring (lua_arg args i) then string_of_value lib (lua_arg args i)
      else if cpu_arch cf = ARM then ''aapcs'' else ''cdecl'')"

text \<open>The registers of the first six parameters in 64-bit mode: \<open>EDI\<close>, \<open>ESI\<close>, \<open>EDX\<close>, \<open>ECX\<close>, 8 and 9.\<close>

definition parameter_register :: "cpu_conf \<Rightarrow> u32 \<Rightarrow> nat" where
  "parameter_register cf param = reg_off cf ([7, 6, 2, 1, 8, 9] ! unat param)"

definition register_parameter :: "cpu_conf \<Rightarrow> u32 \<Rightarrow> bool" where
  "register_parameter cf param \<longleftrightarrow> cpu_arch cf = X86_64 \<and> cs64 cf \<and> param < 6"

definition cdecl_address :: "cpu_conf \<Rightarrow> u64 \<Rightarrow> u32 \<Rightarrow> u64 \<Rightarrow> u64" where
  "cdecl_address cf sp param off = target_ulong cf
     (sp + (if cpu_arch cf = X86_64 \<and> cs64 cf \<and> 5 < param then ucast (param - 5) * of_nat (CPU_REG_SIZE cf) else off))"

definition readParameterAAPCS :: "('e, 'o, 'k) klee_ops \<Rightarrow> cpu_conf \<Rightarrow> u32 \<Rightarrow> ('e, 'o, 'k) es \<Rightarrow> u64 res" where
  "readParameterAAPCS kl cf param st =
     (if cpu_arch cf = ARM \<and> param \<le> 3 then
        rbind (readCpuRegisterConcrete kl cf (reg_off cf (unat param)) (CPU_REG_SIZE cf) st) (\<lambda>r.
          Inr (case r of None \<Rightarrow> 0 | Some bs \<Rightarrow> le_word bs))
      else Inr 0)"

text \<open>The bytes of a failing read that came before the failure stay in the value.\<close>

definition readParameterCdecl ::
  "('e, 'o, 'k) klee_ops \<Rightarrow> qemu_ops \<Rightarrow> cpu_conf \<Rightarrow> u32 \<Rightarrow> ('e, 'o, 'k) es \<Rightarrow> (u64 \<times> ('e, 'o, 'k) es) res" where
  "readParameterCdecl kl q cf param st =
     (if cpu_arch cf = ARM then Inr (0, st)
      else rbind (getSp kl cf st) (\<lambda>sp.
        if register_parameter cf param then
          rbind (readCpuRegisterConcrete kl cf (parameter_register cf param) 8 st) (\<lambda>r.
            Inr (case r of None \<Rightarrow> 0 | Some bs \<Rightarrow> le_word bs, st))
        else rbind (readMemoryConcrete kl q (cdecl_address cf sp param (ucast ((param + 1) * 4))) 4 VirtualAddress (ram st)) (\<lambda>(_, bs, r).
          Inr (le_word bs, st\<lparr>ram := r\<rparr>))))"

definition readParameter ::
  "('n, 'w) lua_lib \<Rightarrow> ('e, 'o, 'k) klee_ops \<Rightarrow> qemu_ops \<Rightarrow> cpu_conf \<Rightarrow> 'n lua_value list \<Rightarrow> ('e, 'o, 'k) es \<Rightarrow>
   ('n lua_value list \<times> ('e, 'o, 'k) es) res" where
  "readParameter lib kl q cf args st =
     rbind (checkint lib args 1) (\<lambda>param.
       let conv = convention lib cf args 2 in
       rbind (if conv = ''cdecl'' then readParameterCdecl kl q cf param st
              else if conv = ''aapcs'' then rbind (readParameterAAPCS kl cf param st) (\<lambda>v. Inr (v, st))
              else Inr (0, st)) (\<lambda>(v, st1). Inr (pushnumber lib v, st1)))"

definition writeParameterCdecl ::
  "('e, 'o, 'k) klee_ops \<Rightarrow> qemu_ops \<Rightarrow> cpu_conf \<Rightarrow> u32 \<Rightarrow> u64 \<Rightarrow> ('e, 'o, 'k) es \<Rightarrow> (bool \<times> ('e, 'o, 'k) es) res" where
  "writeParameterCdecl kl q cf param val st =
     (if cpu_arch cf = ARM then Inr (False, st)
      else let archval = le_bytes (CPU_REG_SIZE cf) val in
        rbind (getSp kl cf st) (\<lambda>sp.
          if register_parameter cf param then
            rbind (writeCpuRegisterConcrete kl cf (parameter_register cf param) archval st) (\<lambda>st1. Inr (True, st1))
          else rbind (writeMemoryConcrete kl q (cdecl_address cf sp param (ucast (param + 1) * of_nat (CPU_REG_SIZE cf))) archval VirtualAddress (ram st)) (\<lambda>(ok, r).
            Inr (ok, st\<lparr>ram := r\<rparr>))))"

definition writeParameterAAPCS ::
  "('e, 'o, 'k) klee_ops \<Rightarrow> cpu_conf \<Rightarrow> u32 \<Rightarrow> u64 \<Rightarrow> ('e, 'o, 'k) es \<Rightarrow> (bool \<times> ('e, 'o, 'k) es) res" where
  "writeParameterAAPCS kl cf param val st =
     (if cpu_arch cf = ARM \<and> param \<le> 3 then
        rbind (writeCpuRegisterConcrete kl cf (reg_off cf (unat param)) (le_bytes (CPU_REG_SIZE cf) val) st) (\<lambda>st1. Inr (True, st1))
      else Inr (False, st))"

definition writeParameter ::
  "('n, 'w) lua_lib \<Rightarrow> ('e, 'o, 'k) klee_ops \<Rightarrow> qemu_ops \<Rightarrow> cpu_conf \<Rightarrow> 'n lua_value list \<Rightarrow> ('e, 'o, 'k) es \<Rightarrow>
   ('n lua_value list \<times> ('e, 'o, 'k) es) res" where
  "writeParameter lib kl q cf args st =
     rbind (checkint lib args 1) (\<lambda>param.
     rbind (checkint lib args 2) (\<lambda>val.
       let conv = convention lib cf args 3 in
       rbind (if conv = ''cdecl'' then writeParameterCdecl kl q cf param (scast val) st
              else if conv = ''aapcs'' then writeParameterAAPCS kl cf param (scast val) st
              else Inr (False, st)) (\<lambda>(_, st1). Inr ([], st1))))"

section \<open>Memory\<close>

definition bswap :: "qemu_ops \<Rightarrow> u8 list \<Rightarrow> u8 list" where
  "bswap q bs = (if littleEndian q then bs else rev bs)"

text \<open>\<open>junk\<close> are the initial bytes of the local variable, which a failing read leaves as they are.\<close>

definition lua_readMemory ::
  "('n, 'w) lua_lib \<Rightarrow> ('e, 'o, 'k) klee_ops \<Rightarrow> qemu_ops \<Rightarrow> cpu_conf \<Rightarrow> u8 list \<Rightarrow> 'n lua_value list \<Rightarrow> ('e, 'o, 'k) es \<Rightarrow>
   ('n lua_value list \<times> ('e, 'o, 'k) es) res" where
  "lua_readMemory lib kl q cf junk args st =
     rbind (checkint lib args 1) (\<lambda>address.
     rbind (checkint lib args 2) (\<lambda>sz.
       let n = min (min (unat sz) 4) (CPU_REG_SIZE cf) in
       rbind (readMemoryConcrete kl q (target_ulong cf (scast address)) n VirtualAddress (ram st)) (\<lambda>(_, bs, r).
         let ret = take (CPU_REG_SIZE cf) (bs @ drop (length bs) junk)
         in Inr (pushnumber lib (le_word (bswap q (take n ret) @ drop n ret)), st\<lparr>ram := r\<rparr>))))"

definition readMemoryConcretized ::
  "('n, 'w) lua_lib \<Rightarrow> ('e, 'o, 'k) klee_ops \<Rightarrow> qemu_ops \<Rightarrow> cpu_conf \<Rightarrow> 'n lua_value list \<Rightarrow> ('e, 'o, 'k) es \<Rightarrow>
   ('n lua_value list \<times> ('e, 'o, 'k) es) res" where
  "readMemoryConcretized lib kl q cf args st =
     rbind (checkint lib args 1) (\<lambda>address.
     rbind (checkint lib args 2) (\<lambda>sz.
       let n = min (unat sz) (CPU_REG_SIZE cf) in
       rbind (readMemory kl q (target_ulong cf (scast address)) (n * 8) VirtualAddress (ram st)) (\<lambda>(v, r).
         case v of
           None \<Rightarrow> Inl Undefined_Behaviour
         | Some e \<Rightarrow> Inr (pushnumber lib (case e_value kl e of Some c \<Rightarrow> c | None \<Rightarrow> to_example kl e (klee r)), st\<lparr>ram := r\<rparr>))))"

definition lua_writeMemory ::
  "('n, 'w) lua_lib \<Rightarrow> ('e, 'o, 'k) klee_ops \<Rightarrow> qemu_ops \<Rightarrow> cpu_conf \<Rightarrow> 'n lua_value list \<Rightarrow> ('e, 'o, 'k) es \<Rightarrow>
   ('n lua_value list \<times> ('e, 'o, 'k) es) res" where
  "lua_writeMemory lib kl q cf args st =
     rbind (checkint lib args 1) (\<lambda>address.
     rbind (checkint lib args 2) (\<lambda>sz.
     rbind (checkint lib args 3) (\<lambda>value.
       if CPU_REG_SIZE cf < unat sz then Inr ([], st)
       else rbind (writeMemoryConcrete kl q (target_ulong cf (scast address))
              (bswap q (take (unat sz) (le_bytes (CPU_REG_SIZE cf) (scast value)))) VirtualAddress (ram st)) (\<lambda>(_, r).
         Inr ([], st\<lparr>ram := r\<rparr>)))))"

text \<open>The bytes of a concolic value: each masked byte is pushed without a shift, and the mask of an \<open>int\<close> is
  undefined from byte 4 on.\<close>

definition concolic_bytes :: "u64 \<Rightarrow> nat \<Rightarrow> u8 list res" where
  "concolic_bytes value n =
     rbind (ensure_defined (n \<le> 4)) (\<lambda>_. Inr (map (\<lambda>i. ucast (value AND push_bit (8 * i) 0xFF)) [0..<n]))"

text \<open>Expressions of KLEE for the bounds.\<close>

record 'e bound_ops =
  e_ule :: "'e \<Rightarrow> 'e \<Rightarrow> 'e"
  e_ult :: "'e \<Rightarrow> 'e \<Rightarrow> 'e"
  e_not :: "'e \<Rightarrow> 'e"
  e_and :: "'e \<Rightarrow> 'e \<Rightarrow> 'e"

definition add_range ::
  "('e, 'o, 'k) klee_ops \<Rightarrow> ('e, 'k) sym_ops \<Rightarrow> 'e bound_ops \<Rightarrow> 'e \<Rightarrow> nat \<Rightarrow> u64 \<Rightarrow> u64 \<Rightarrow> ('e, 'o, 'k) es \<Rightarrow> ('e, 'o, 'k) es res" where
  "add_range kl sy bo val w lower upper st =
     rbind (addConstraint sy (e_and bo (e_ule bo val (e_const kl upper w)) (e_not bo (e_ult bo val (e_const kl lower w)))) (klee (ram st)))
       (\<lambda>k. Inr (st\<lparr>ram := (ram st)\<lparr>klee := k\<rparr>\<rparr>))"

definition bounds_given :: "('n, 'w) lua_lib \<Rightarrow> 'n lua_value list \<Rightarrow> nat \<Rightarrow> nat \<Rightarrow> bool" where
  "bounds_given lib args i j = (lua_isnumber lib (lua_arg args i) \<and> lua_isnumber lib (lua_arg args j))"

definition writeMemorySymb ::
  "('n, 'w) lua_lib \<Rightarrow> ('e, 'o, 'k) klee_ops \<Rightarrow> ('e, 'k) sym_ops \<Rightarrow> 'e bound_ops \<Rightarrow> qemu_ops \<Rightarrow> cpu_conf \<Rightarrow>
   'n lua_value list \<Rightarrow> ('e, 'o, 'k) es \<times> u32 \<Rightarrow> ('n lua_value list \<times> ('e, 'o, 'k) es \<times> u32) res" where
  "writeMemorySymb lib kl sy bo q cf args = (\<lambda>(st, lastId).
     rbind (checkstring lib args 1) (\<lambda>name.
     rbind (checkint lib args 2) (\<lambda>addr.
     rbind (checkint lib args 3) (\<lambda>sz.
       let address = target_ulong cf (scast addr); n = unat sz in
       rbind (if bounds_given lib args 4 5 then
                rbind (checkint lib args 4) (\<lambda>lo. rbind (checkint lib args 5) (\<lambda>hi. Inr (Some (ucast lo, ucast hi))))
              else Inr None) (\<lambda>range.
       if n \<notin> {1, 2, 4, 8} then lua_error
       else rbind (ensure_defined (n \<le> CPU_REG_SIZE cf)) (\<lambda>_.
         rbind (readMemoryConcrete kl q address n VirtualAddress (ram st)) (\<lambda>(ok, bs, r).
           let st1 = st\<lparr>ram := r\<rparr> in
           if \<not> ok then Inr ([], st1, lastId)
           else rbind (concolic_bytes (le_word bs) n) (\<lambda>buf.
             rbind (createConcolicValue sy name (8 * n) buf (st1, lastId)) (\<lambda>(val, st2, lastId2).
               rbind (writeMemory kl q address val VirtualAddress (ram st2)) (\<lambda>(ok, r2).
                 let st3 = st2\<lparr>ram := r2\<rparr> in
                 case (if ok then range else None) of
                   None \<Rightarrow> Inr ([], st3, lastId2)
                 | Some (lo, hi) \<Rightarrow> rbind (add_range kl sy bo val (8 * n) lo hi st3) (\<lambda>st4. Inr ([], st4, lastId2))))))))))))"

section \<open>Registers and flags\<close>

definition decimal_index :: "string \<Rightarrow> nat option" where
  "decimal_index name = map_of (map (\<lambda>i. (CHR ''r'' # decimal i, i)) [0..<16] @ [(''pc'', 15), (''sp'', 13), (''lr'', 14)]) name"

text \<open>\<open>RegNameToIndex\<close>: the index and the size; on x86 the numbers of the registers are QEMU's.\<close>

definition RegNameToIndex :: "cpu_conf \<Rightarrow> string \<Rightarrow> (nat \<times> nat) option" where
  "RegNameToIndex cf name =
     (if cpu_arch cf = ARM then map_option (\<lambda>i. (i, 4)) (decimal_index name)
      else map_option (\<lambda>i. (i, CPU_REG_SIZE cf))
        (map_of [(''eax'', 0), (''ebx'', 3), (''ecx'', 1), (''edx'', 2), (''edi'', 7), (''esi'', 6), (''esp'', 4), (''ebp'', 5)] name))"

definition named_register :: "cpu_conf \<Rightarrow> string \<Rightarrow> (nat \<times> nat) res" where
  "named_register cf name = (case RegNameToIndex cf name of None \<Rightarrow> lua_error | Some (i, n) \<Rightarrow> Inr (reg_off cf i, n))"

text \<open>A write to the program counter leaves to the processor loop.\<close>

definition writeRegister ::
  "('n, 'w) lua_lib \<Rightarrow> ('e, 'o, 'k) klee_ops \<Rightarrow> cpu_conf \<Rightarrow> 'n lua_value list \<Rightarrow> ('e, 'o, 'k) es \<Rightarrow>
   ('n lua_value list \<times> ('e, 'o, 'k) es) res \<times> ('e, 'o, 'k) es" where
  "writeRegister lib kl cf args st =
     (case rbind (checkstring lib args 1) (\<lambda>name. rbind (checkint lib args 2) (\<lambda>v.
         rbind (named_register cf name) (\<lambda>(off, n). Inr (target_ulong cf (scast v), off, n)))) of
        Inl e \<Rightarrow> (Inl e, st)
      | Inr (value, off, n) \<Rightarrow>
          if off < CPU_CONC_LIMIT cf then
            (case writeCpuRegisterConcrete kl cf off (le_bytes n value) st of
               Inl e \<Rightarrow> (Inl e, st) | Inr st1 \<Rightarrow> (Inr ([], st1), st1))
          else if off \<noteq> CPU_CONC_LIMIT cf then (Inl Assertion_Failed, st)
          else (case setPc cf value st of Inl e \<Rightarrow> (Inl e, st) | Inr st1 \<Rightarrow> (Inl Cpu_Exit, st1)))"

definition readRegister ::
  "('n, 'w) lua_lib \<Rightarrow> ('e, 'o, 'k) klee_ops \<Rightarrow> cpu_conf \<Rightarrow> 'n lua_value list \<Rightarrow> ('e, 'o, 'k) es \<Rightarrow> 'n lua_value list res" where
  "readRegister lib kl cf args st =
     rbind (checkstring lib args 1) (\<lambda>name.
     rbind (named_register cf name) (\<lambda>(off, n).
     rbind (if off < CPU_CONC_LIMIT cf then
              rbind (readCpuRegister kl cf off (8 * n) st) (\<lambda>e.
                Inr (case e_value kl e of Some c \<Rightarrow> c | None \<Rightarrow> to_example kl e (klee (ram st))))
            else rbind (assert_that (off = CPU_CONC_LIMIT cf)) (\<lambda>_. getPc cf st)) (\<lambda>v.
       Inr (pushnumber lib (target_ulong cf v)))))"

definition writeRegisterSymb ::
  "('n, 'w) lua_lib \<Rightarrow> ('e, 'o, 'k) klee_ops \<Rightarrow> ('e, 'k) sym_ops \<Rightarrow> 'e bound_ops \<Rightarrow> cpu_conf \<Rightarrow>
   'n lua_value list \<Rightarrow> ('e, 'o, 'k) es \<times> u32 \<Rightarrow> ('n lua_value list \<times> ('e, 'o, 'k) es \<times> u32) res" where
  "writeRegisterSymb lib kl sy bo cf args = (\<lambda>(st, lastId).
     rbind (checkstring lib args 1) (\<lambda>regstr.
     rbind (checkstring lib args 2) (\<lambda>namestr.
     rbind (if bounds_given lib args 3 4 then
              rbind (checkint lib args 3) (\<lambda>lo. rbind (checkint lib args 4) (\<lambda>hi. Inr (Some (scast lo, scast hi))))
            else Inr None) (\<lambda>range.
     rbind (named_register cf regstr) (\<lambda>(off, n).
     rbind (readCpuRegisterConcrete kl cf off n st) (\<lambda>old.
       case old of
         None \<Rightarrow> Inr ([], st, lastId)
       | Some bs \<Rightarrow>
           rbind (concolic_bytes (le_word bs) n) (\<lambda>buf.
           rbind (createConcolicValue sy namestr (8 * n) buf (st, lastId)) (\<lambda>(val, st1, lastId1).
           rbind (writeCpuRegister kl cf off val st1) (\<lambda>st2.
             case range of
               None \<Rightarrow> Inr ([], st2, lastId1)
             | Some (lo, hi) \<Rightarrow> rbind (add_range kl sy bo val (8 * n) lo hi st2) (\<lambda>st3. Inr ([], st3, lastId1)))))))))))"

text \<open>The offsets of the flags are a parameter; only ARM has any.\<close>

definition get_cpu_offset_by_flag_name :: "cpu_conf \<Rightarrow> (string \<Rightarrow> nat) \<Rightarrow> string \<Rightarrow> nat option" where
  "get_cpu_offset_by_flag_name cf field name =
     (if cpu_arch cf \<noteq> ARM \<or> name = [] then None
      else map_option field (map_of [(CHR ''N'', ''NF''), (CHR ''Z'', ''ZF''), (CHR ''C'', ''CF''), (CHR ''V'', ''VF''),
        (CHR ''Q'', ''QF''), (CHR ''G'', ''GE'')] (hd name)))"

definition setFlag ::
  "('n, 'w) lua_lib \<Rightarrow> ('e, 'o, 'k) klee_ops \<Rightarrow> cpu_conf \<Rightarrow> (string \<Rightarrow> nat) \<Rightarrow> 'n lua_value list \<Rightarrow> ('e, 'o, 'k) es \<Rightarrow>
   ('n lua_value list \<times> ('e, 'o, 'k) es) res" where
  "setFlag lib kl cf field args st =
     rbind (checkstring lib args 1) (\<lambda>name.
     rbind (checkint lib args 2) (\<lambda>v.
       case get_cpu_offset_by_flag_name cf field name of
         None \<Rightarrow> Inr ([Lua_Boolean False], st)
       | Some off \<Rightarrow>
           rbind (writeCpuRegisterConcrete kl cf off (le_bytes 4 (ucast (push_bit 31 (v AND 1)))) st) (\<lambda>st1.
             Inr ([Lua_Boolean True], st1))))"

definition setFlagSymb ::
  "('n, 'w) lua_lib \<Rightarrow> ('e, 'o, 'k) klee_ops \<Rightarrow> ('e, 'k) sym_ops \<Rightarrow> cpu_conf \<Rightarrow> (string \<Rightarrow> nat) \<Rightarrow>
   'n lua_value list \<Rightarrow> ('e, 'o, 'k) es \<times> u32 \<Rightarrow> ('n lua_value list \<times> ('e, 'o, 'k) es \<times> u32) res" where
  "setFlagSymb lib kl sy cf field args = (\<lambda>(st, lastId).
     rbind (checkstring lib args 1) (\<lambda>name.
       case get_cpu_offset_by_flag_name cf field name of
         None \<Rightarrow> Inr ([Lua_Boolean False], st, lastId)
       | Some off \<Rightarrow>
           rbind (readCpuRegisterConcrete kl cf off 4 st) (\<lambda>old.
             case old of
               None \<Rightarrow> Inr ([Lua_Boolean False], st, lastId)
             | Some bs \<Rightarrow>
                 rbind (concolic_bytes (le_word bs) 4) (\<lambda>buf.
                 rbind (createConcolicValue sy name 32 buf (st, lastId)) (\<lambda>(val, st1, lastId1).
                 rbind (writeCpuRegister kl cf off val st1) (\<lambda>st2. Inr ([Lua_Boolean True], st2, lastId1)))))))"

definition lua_isSpeculative :: "('e, 'o, 'k) es \<Rightarrow> 'n lua_value list" where
  "lua_isSpeculative st = [Lua_Boolean (m_speculative st)]"

definition lua_getID :: "('n, 'w) lua_lib \<Rightarrow> ('e, 'o, 'k) es \<Rightarrow> 'n lua_value list" where
  "lua_getID lib st = [Lua_Number (num_of_int lib (int (m_stateID st)))]"

text \<open>\<open>luaError\<close> ends the program.\<close>

definition luaError :: "'a res" where "luaError = Inl (Process_Exit 1)"

section \<open>The data of concolic values\<close>

text \<open>Only the lowest byte of the old value gets into the initial data of the symbolic one.\<close>

lemma masked_byte: "0 < i \<Longrightarrow> (ucast ((v :: u64) AND push_bit (8 * i) 0xFF) :: u8) = 0"
  by (rule bit_word_eqI) (auto simp: bit_simps)

lemma masked_byte_Suc: "(ucast ((v :: u64) AND push_bit (8 + 8 * n) 0xFF) :: u8) = 0"
  using masked_byte [of "Suc n" v] by simp

lemma low_byte: "(ucast ((v :: u64) AND 0xFF) :: u8) = ucast v"
proof -
  have "(0xFF :: u64) = mask 8"
    by (simp add: mask_eq_exp_minus_1)
  then have "v AND 0xFF = take_bit 8 v"
    by (simp only: take_bit_eq_mask)
  then show ?thesis
    by (simp only:) (rule bit_word_eqI, auto simp: bit_simps)
qed

lemma concolic_bytes_low:
  assumes "concolic_bytes v (Suc n) = Inr buf"
  shows "buf = ucast v # replicate n 0"
proof -
  have b: "buf = map (\<lambda>i. ucast (v AND push_bit (8 * i) 0xFF)) [0..<Suc n]"
    using assms by (simp add: concolic_bytes_def rbind_Inr_iff)
  show ?thesis
    unfolding b by (rule nth_equalityI) (auto simp: nth_Cons low_byte masked_byte_Suc simp del: upt_Suc split: nat.split)
qed

lemma createConcolicValue_data:
  assumes "createConcolicValue sy name w buf (st, i) = Inr (val, st', i')" "ConcolicMode sy" "length buf = min_bytes w"
  shows "map snd (concolics st') = map snd (concolics st) @ [buf]"
  using assms by (auto simp: createConcolicValue_def getUniqueVarName_def new_array_def Let_def rbind_Inr_iff)

lemma add_range_concolics: "add_range kl sy bo v w lo hi st = Inr st' \<Longrightarrow> concolics st' = concolics st"
  by (auto simp: add_range_def rbind_Inr_iff)

theorem setFlagSymb_seed:
  assumes "setFlagSymb lib kl sy cf field args (st, i) = Inr ([Lua_Boolean True], st', i')" "ConcolicMode sy"
  shows "\<exists>b. map snd (concolics st') = map snd (concolics st) @ [[b, 0, 0, 0]]"
proof -
  obtain off bs buf val st1 where 1: "concolic_bytes (le_word bs) 4 = Inr buf"
      "createConcolicValue sy (string_of_value lib (lua_arg args 1)) 32 buf (st, i) = Inr (val, st1, i')"
      "writeCpuRegister kl cf off val st1 = Inr st'"
    using assms(1) by (auto simp: setFlagSymb_def checkstring_def lua_error_def rbind_Inr_iff split: option.splits if_splits)
  have b: "buf = [ucast (le_word bs), 0, 0, 0]"
    using concolic_bytes_low [of "le_word bs" 3 buf] 1(1) by (simp add: numeral_eq_Suc)
  then have "length buf = min_bytes 32"
    by (simp add: min_bytes_def)
  from createConcolicValue_data [OF 1(2) assms(2) this] show ?thesis
    using write_keeps(4) [OF 1(3)] b by auto
qed

theorem writeRegisterSymb_seed:
  assumes "writeRegisterSymb lib kl sy bo cf args (st, i) = Inr (r, st', i')" "ConcolicMode sy"
    and "named_register cf (string_of_value lib (lua_arg args 1)) = Inr (off, Suc n)"
    and "readCpuRegisterConcrete kl cf off (Suc n) st = Inr (Some bs)"
  shows "map snd (concolics st') = map snd (concolics st) @ [ucast (le_word bs) # replicate n 0]"
proof -
  have data: "map snd (concolics st1) = map snd (concolics st) @ [ucast (le_word bs) # replicate n 0]"
    if "concolic_bytes (le_word bs) (Suc n) = Inr buf" "createConcolicValue sy name (8 + 8 * n) buf (st, i) = Inr (val, st1, i1)"
    for buf name val st1 i1
    using createConcolicValue_data [OF that(2) assms(2)] concolic_bytes_low [OF that(1)] by (simp add: min_bytes_def)
  show ?thesis
    using assms(1,3,4)
    by (auto simp: writeRegisterSymb_def checkstring_def lua_error_def rbind_Inr_iff split: if_splits
        dest!: add_range_concolics write_keeps(4)) (drule (1) data, simp)+
qed

section \<open>Parameters on the stack\<close>

text \<open>A 64-bit target in 32-bit mode reads the stack parameters at a stride of four bytes and writes them at
  one of eight.\<close>

lemma compat_mode_strides:
  assumes "cpu_arch cf = X86_64" "\<not> cs64 cf" "CPU_REG_SIZE cf = 8"
  shows "cdecl_address cf sp 1 (ucast ((1 + 1) * 4 :: u32)) = sp + 8"
    "cdecl_address cf sp 1 (ucast (1 + 1 :: u32) * of_nat (CPU_REG_SIZE cf)) = sp + 16"
  using assms by (simp_all add: cdecl_address_def target_ulong_def take_bit_word_eq_self)

end
