(* ===== verification/Executor_Setup.thy ===== *)
theory Executor_Setup
  imports Cpu_State
begin

text \<open>
  The part of the executor (\<open>S2EExecutor.cpp\<close>) that prepares the memory of the first state, which
  registers the processor, RAM and the dirty mask with KLEE, and that switches a state between
  concrete and symbolic execution.
\<close>

section \<open>Registration\<close>

text \<open>
  \<open>add_external\<close> is KLEE's \<open>addExternalObject\<close>, which binds a memory object; \<open>save\<close> is
  \<open>m_saveOnContextSwitch\<close>, by address, and \<open>unused\<close> the regions that may not be accessed natively.
\<close>

record ('o, 'k) ram_setup =
  su_ram :: "('o, 'k) ram_state"
  m_saveOnContextSwitch :: "u64 list"
  m_unusedMemoryRegions :: "(u64 \<times> u64) list"
  m_dirtyMask :: "(mem_object \<times> 'o) option"

definition ram_mo :: "u64 \<Rightarrow> bool \<Rightarrow> mem_object" where
  "ram_mo a shared = \<lparr>mo_address = a, mo_size = RAM_OBJECT_SIZE, isUserSpecified = True, isSharedConcrete = shared\<rparr>"

text \<open>The loop over the objects of a region; it need not end for arbitrary bounds.\<close>

partial_function (option) register_objects ::
  "(mem_object \<Rightarrow> 'k \<Rightarrow> 'k) \<Rightarrow> bool \<Rightarrow> bool \<Rightarrow> u64 \<Rightarrow> u64 \<Rightarrow> 'k \<times> u64 list \<Rightarrow> ('k \<times> u64 list) option" where
  "register_objects add_external shared to_save stop addr ks =
     (if addr < stop then
        register_objects add_external shared to_save stop (addr + of_nat RAM_OBJECT_SIZE)
          (add_external (ram_mo addr shared) (fst ks), if shared \<and> to_save then snd ks @ [addr] else snd ks)
      else Some ks)"

definition page_aligned :: "qemu_ops \<Rightarrow> u64 \<Rightarrow> bool" where
  "page_aligned q a \<longleftrightarrow> a AND mask (page_bits q) = 0"

definition registerRam ::
  "(mem_object \<Rightarrow> 'k \<Rightarrow> 'k) \<Rightarrow> qemu_ops \<Rightarrow> bool \<Rightarrow> u64 \<Rightarrow> u64 \<Rightarrow> u64 \<Rightarrow> bool \<Rightarrow> bool \<Rightarrow> ('o, 'k) ram_setup \<Rightarrow>
   ('o, 'k) ram_setup res option" where
  "registerRam add_external q StateSharedMemory startAddress sz hostAddress shared saveOnSwitch su =
     (if \<not> (shared \<or> \<not> saveOnSwitch) \<or> \<not> (startAddress = - 1 \<or> page_aligned q startAddress) \<or>
         \<not> page_aligned q sz \<or> \<not> page_aligned q hostAddress then Some (Inl Assertion_Failed)
      else (case register_objects add_external shared (saveOnSwitch \<or> \<not> StateSharedMemory) (hostAddress + sz) hostAddress
            (klee (su_ram su), m_saveOnContextSwitch su) of
          None \<Rightarrow> None
        | Some (k, save) \<Rightarrow>
            Some (rbind (registerPool RAM_OBJECT_BITS (page_bits q) 20 hostAddress sz (m_memcache (su_ram su))) (\<lambda>cache.
              Inr (su\<lparr>su_ram := (su_ram su)\<lparr>klee := k, m_memcache := cache\<rparr>, m_saveOnContextSwitch := save,
                m_unusedMemoryRegions := (if shared then m_unusedMemoryRegions su
                  else m_unusedMemoryRegions su @ [(hostAddress, sz)])\<rparr>)))))"

definition registerDirtyMask ::
  "(mem_object \<Rightarrow> 'k \<Rightarrow> 'k) \<Rightarrow> ('e, 'o, 'k) klee_ops \<Rightarrow> u64 \<Rightarrow> nat \<Rightarrow> ('o, 'k) ram_setup \<Rightarrow> ('o, 'k) ram_setup res" where
  "registerDirtyMask add_external kl host sz su =
     rbind (assert_that (m_dirtyMask su = None)) (\<lambda>_.
       let mo = \<lparr>mo_address = host, mo_size = sz, isUserSpecified = True, isSharedConcrete = True\<rparr>;
           r = (su_ram su)\<lparr>klee := add_external mo (klee (su_ram su))\<rparr> in
       case as_find kl host (klee r) of
         None \<Rightarrow> Inl Undefined_Behaviour
       | Some (_, os) \<Rightarrow> rbind (getWriteable kl mo os r) (\<lambda>(wos, r').
           Inr (su\<lparr>su_ram := r', m_saveOnContextSwitch := m_saveOnContextSwitch su @ [host], m_dirtyMask := Some (mo, wos)\<rparr>)))"

text \<open>\<open>registerCpu\<close>: the registers are read from and written to the object of their memory. The object's
  bytes are KLEE's constants for the shared registers.\<close>

definition registerCpu ::
  "('e, 'o, 'k) klee_ops \<Rightarrow> cpu_conf \<Rightarrow> u8 list \<Rightarrow> u64 list \<Rightarrow> ('e, 'o, 'k) exec_state \<Rightarrow>
   ('e, 'o, 'k) exec_state \<times> u64 list" where
  "registerCpu kl cf cpu save st =
     (st\<lparr>m_cpuRegistersObject := Some (map (\<lambda>b. e_const kl (ucast b) 8) (take (CPU_CONC_LIMIT cf) cpu)),
         cpu_registers := take (CPU_CONC_LIMIT cf) cpu,
         m_cpuSystemObject := drop (CPU_CONC_LIMIT cf) cpu, cpu_system := drop (CPU_CONC_LIMIT cf) cpu\<rparr>,
      save @ [cpu_address cf + of_nat (CPU_CONC_LIMIT cf)])"

section \<open>Switching modes\<close>

text \<open>The concrete store of an object; \<open>stale\<close> is what it holds for symbolic bytes.\<close>

definition concrete_store :: "('e, 'o, 'k) klee_ops \<Rightarrow> (nat \<Rightarrow> u8) \<Rightarrow> 'e list \<Rightarrow> u8 list" where
  "concrete_store kl stale bs = map (\<lambda>i. case e_value kl (bs ! i) of None \<Rightarrow> stale i | Some c \<Rightarrow> ucast c) [0..<length bs]"

definition fill_store :: "('e, 'o, 'k) klee_ops \<Rightarrow> u8 list \<Rightarrow> 'e list \<Rightarrow> 'e list" where
  "fill_store kl mem bs = map (\<lambda>i. if e_value kl (bs ! i) = None then bs ! i else e_const kl (ucast (mem ! i)) 8) [0..<length bs]"

definition switchToConcrete ::
  "('e, 'o, 'k) klee_ops \<Rightarrow> bool \<Rightarrow> (nat \<Rightarrow> u8) \<Rightarrow> ('e, 'o, 'k) exec_state \<Rightarrow> ('e, 'o, 'k) exec_state res" where
  "switchToConcrete kl forceConcretizations stale st =
     rbind (assert_that (\<not> m_runningConcrete (ram st))) (\<lambda>_.
     case m_cpuRegistersObject st of
       None \<Rightarrow> Inl Assertion_Failed
     | Some bs \<Rightarrow>
         if forceConcretizations then Inl Assertion_Failed
         else Inr (st\<lparr>cpu_registers := concrete_store kl stale bs, ram := (ram st)\<lparr>m_runningConcrete := True\<rparr>\<rparr>))"

definition switchToSymbolic ::
  "('e, 'o, 'k) klee_ops \<Rightarrow> ('e, 'o, 'k) exec_state \<Rightarrow> ('e, 'o, 'k) exec_state res" where
  "switchToSymbolic kl st =
     rbind (assert_that (m_runningConcrete (ram st))) (\<lambda>_.
     rbind (registers_object st) (\<lambda>bs.
       Inr (st\<lparr>m_cpuRegistersObject := Some (fill_store kl (cpu_registers st) bs),
               ram := (ram st)\<lparr>m_runningConcrete := False\<rparr>\<rparr>)))"

definition s2e_switch_to_symbolic :: "('e, 'o, 'k) exec_state \<Rightarrow> unit res" where
  "s2e_switch_to_symbolic st = jumpToSymbolic (enableSymbolicExecution st)"

definition s2e_ensure_symbolic :: "('e, 'o, 'k) exec_state \<Rightarrow> unit res" where
  "s2e_ensure_symbolic st = jumpToSymbolic st"

section \<open>Registers across modes\<close>

lemma concrete_store_nth:
  "i < length bs \<Longrightarrow> concrete_store kl stale bs ! i = (case e_value kl (bs ! i) of None \<Rightarrow> stale i | Some c \<Rightarrow> ucast c)"
  by (cases "e_value kl (bs ! i)") (simp_all add: concrete_store_def)

lemma fill_store_nth:
  "i < length bs \<Longrightarrow> fill_store kl mem bs ! i = (if e_value kl (bs ! i) = None then bs ! i else e_const kl (ucast (mem ! i)) 8)"
  by (simp add: fill_store_def)

lemma isConcrete_nth:
  "off + n \<le> length bs \<Longrightarrow> isConcrete kl bs off (8 * n) \<longleftrightarrow> (\<forall>i<n. e_value kl (bs ! (off + i)) \<noteq> None)"
  by (auto simp: isConcrete_def list_all_length)

lemma os_read_bytes:
  assumes "object_laws kl ev" "0 < n" "off + n \<le> length bs" "\<forall>b\<in>set bs. e_width kl b = 8"
  shows "ev (os_read kl bs off (8 * n)) m = le_value (map (\<lambda>i. ev (bs ! (off + i)) m) [0..<n])"
proof -
  have "map (\<lambda>b. ev b m) (take n (drop off bs)) = map (\<lambda>i. ev (bs ! (off + i)) m) [0..<n]"
    by (rule nth_equalityI) (use assms(3) in simp_all)
  then show ?thesis using assms unfolding object_laws_def by metis
qed

lemma le_word_value: "n \<le> 8 \<Longrightarrow> length bs = n \<Longrightarrow> unat (take_bit (8 * n) (le_word bs)) = le_value (map unat bs)"
proof -
  assume n: "n \<le> 8" "length bs = n"
  have "le_value xs < 256 ^ length xs" if "\<forall>x\<in>set xs. x < 256" for xs using that by (induction xs) (auto simp: algebra_simps)
  moreover have "\<forall>x\<in>set (map unat bs). x < 256" using unsigned_less [where ?'b = 8 and ?'a = nat] by auto
  ultimately have lt: "le_value (map unat bs) < 256 ^ n" using n(2) by (metis length_map)
  also have "(256 :: nat) ^ n \<le> 256 ^ 8" using n(1) by (intro power_increasing) simp_all
  finally have "unat (le_word bs) = le_value (map unat bs)" by (simp add: le_word_def unat_of_nat take_bit_nat_eq_self)
  then show ?thesis using lt by (simp add: unsigned_take_bit_eq take_bit_nat_eq_self power_mult)
qed

text \<open>What a read of a register returns, in either mode.\<close>

definition register_value ::
  "('e, 'o, 'k) klee_ops \<Rightarrow> ('e \<Rightarrow> 'm \<Rightarrow> nat) \<Rightarrow> ('e, 'o, 'k) exec_state \<Rightarrow> 'e list \<Rightarrow> nat \<Rightarrow> nat \<Rightarrow> 'm \<Rightarrow> nat" where
  "register_value kl ev st bs off n m = le_value (map (\<lambda>i. if in_object kl st bs off n then ev (bs ! (off + i)) m
     else unat (cpu_registers st ! (off + i))) [0..<n])"

lemma readCpuRegister_value:
  assumes laws: "object_laws kl ev" "wide_laws kl ev" and ok: "registers_ok kl cf st bs"
    and n: "0 < n" "n \<le> 8" "off + n \<le> CPU_CONC_LIMIT cf"
  shows "\<exists>e. readCpuRegister kl cf off (8 * n) st = Inr e \<and> (\<forall>m. ev e m = register_value kl ev st bs off n m)"
proof (cases "in_object kl st bs off n")
  case True
  have "off + n \<le> length bs" "\<forall>b\<in>set bs. e_width kl b = 8" using ok n by (auto simp: registers_ok_def)
  with True show ?thesis using readCpuRegister_eq [OF ok n(2,3)] os_read_bytes [OF laws(1) n(1)]
    by (simp add: register_value_def)
next
  case False
  let ?mem = "take n (drop off (cpu_registers st))"
  have len: "length ?mem = n" using ok n by (simp add: registers_ok_def)
  have "map unat ?mem = map (\<lambda>i. unat (cpu_registers st ! (off + i))) [0..<n]"
    by (rule nth_equalityI) (use ok n in \<open>simp_all add: registers_ok_def\<close>)
  then have "ev (e_const kl (le_word ?mem) (8 * n)) m = register_value kl ev st bs off n m" for m
    using wide_const(1) [OF laws(2) n(2)] le_word_value [OF n(2) len] False by (simp add: register_value_def)
  with False show ?thesis using readCpuRegister_eq [OF ok n(2,3)] by simp
qed


lemma const_byte: "expr_laws kl ev \<Longrightarrow> ev (e_const kl (ucast (b :: u8)) 8) m = unat b"
proof -
  assume "expr_laws kl ev"
  then have "ev (e_const kl (ucast b) 8) m = unat (take_bit 8 (ucast b :: u64))" by (simp add: expr_laws_def)
  also have "\<dots> = unat b"
    using unsigned_less [of b, where ?'a = nat] by (simp add: unsigned_take_bit_eq unsigned_ucast_eq take_bit_nat_eq_self)
  finally show ?thesis .
qed

lemma value_byte: "expr_laws kl ev \<Longrightarrow> e_width kl e = 8 \<Longrightarrow> e_value kl e = Some c \<Longrightarrow> ev e m = unat (ucast c :: u8)"
proof -
  assume a: "expr_laws kl ev" "e_width kl e = 8" "e_value kl e = Some c"
  then have "ev e m = unat c" by (simp add: expr_laws_def)
  moreover have "ev e m < 256" by (rule byte_less [OF a(1,2)])
  ultimately show ?thesis by (simp add: unsigned_ucast_eq take_bit_nat_eq_self)
qed

lemma le_value_cong: "(\<And>i. i < n \<Longrightarrow> f i = g i) \<Longrightarrow> le_value (map f [0..<n]) = le_value (map g [0..<n])"
  by (rule arg_cong [where f = le_value]) simp

text \<open>The store that native code gets has the values of the bytes without symbolic part.\<close>

lemma concrete_store_value:
  assumes laws: "expr_laws kl ev" and bs: "off + n \<le> length bs" "\<And>b. b \<in> set bs \<Longrightarrow> e_width kl b = 8"
    and mode: "\<not> m_runningConcrete (ram st)"
  shows "register_value kl ev (st\<lparr>cpu_registers := concrete_store kl stale bs, ram := (ram st)\<lparr>m_runningConcrete := True\<rparr>\<rparr>) bs off n m =
    register_value kl ev st bs off n m"
proof (cases "isConcrete kl bs off (8 * n)")
  case True
  have "unat (concrete_store kl stale bs ! (off + i)) = ev (bs ! (off + i)) m" if i: "i < n" for i
  proof -
    have idx: "off + i < length bs" "bs ! (off + i) \<in> set bs" using i bs(1) by auto
    obtain c where c: "e_value kl (bs ! (off + i)) = Some c" using True isConcrete_nth [OF bs(1)] i by auto
    then show ?thesis using value_byte [OF laws bs(2) [OF idx(2)] c] idx(1) by (simp add: concrete_store_nth)
  qed
  then show ?thesis using True mode by (simp add: register_value_def in_object_def cong: le_value_cong)
qed (use mode in \<open>simp add: register_value_def in_object_def\<close>)

text \<open>C23: A switch to concrete execution changes the value of no register. When the native code has left the
  shared registers as \<open>regs\<close>, the switch back gives every register without a symbolic byte the value
  of its bytes in \<open>regs\<close>, and every register whose bytes are all symbolic the value it had.\<close>

theorem mode_switch_registers:
  assumes laws: "expr_laws kl ev" "object_laws kl ev" "wide_laws kl ev" and ok: "registers_ok kl cf st bs"
    and mode: "\<not> m_runningConcrete (ram st)" and regs: "length regs = CPU_CONC_LIMIT cf"
  shows "\<exists>st1 st2. switchToConcrete kl False stale st = Inr st1 \<and> switchToSymbolic kl (st1\<lparr>cpu_registers := regs\<rparr>) = Inr st2 \<and>
    (\<forall>off n. 0 < n \<longrightarrow> n \<le> 8 \<longrightarrow> off + n \<le> CPU_CONC_LIMIT cf \<longrightarrow>
      (\<exists>e e1 e2. readCpuRegister kl cf off (8 * n) st = Inr e \<and> readCpuRegister kl cf off (8 * n) st1 = Inr e1 \<and>
        readCpuRegister kl cf off (8 * n) st2 = Inr e2 \<and> (\<forall>m. ev e1 m = ev e m) \<and>
        (isConcrete kl bs off (8 * n) \<longrightarrow> (\<forall>m. ev e2 m = le_value (map (\<lambda>i. unat (regs ! (off + i))) [0..<n]))) \<and>
        ((\<forall>i<n. e_value kl (bs ! (off + i)) = None) \<longrightarrow> (\<forall>m. ev e2 m = ev e m))))"
proof -
  let ?st1 = "st\<lparr>cpu_registers := concrete_store kl stale bs, ram := (ram st)\<lparr>m_runningConcrete := True\<rparr>\<rparr>"
  let ?bs = "fill_store kl regs bs"
  let ?st2 = "?st1\<lparr>cpu_registers := regs, m_cpuRegistersObject := Some ?bs, ram := (ram st)\<lparr>m_runningConcrete := False\<rparr>\<rparr>"
  have bs: "m_cpuRegistersObject st = Some bs" "length bs = CPU_CONC_LIMIT cf" "\<And>b. b \<in> set bs \<Longrightarrow> e_width kl b = 8"
    using ok by (auto simp: registers_ok_def)
  have run: "switchToConcrete kl False stale st = Inr ?st1" "switchToSymbolic kl (?st1\<lparr>cpu_registers := regs\<rparr>) = Inr ?st2"
    using mode bs(1) by (simp_all add: switchToConcrete_def switchToSymbolic_def registers_object_def)
  have "\<forall>b\<in>set ?bs. e_width kl b = 8" using bs(3) laws(1) by (auto simp: fill_store_def expr_laws_def)
  then have ok12: "registers_ok kl cf ?st1 bs" "registers_ok kl cf ?st2 ?bs"
    using bs regs by (simp_all add: registers_ok_def concrete_store_def fill_store_def)
  have "\<exists>e e1 e2. readCpuRegister kl cf off (8 * n) st = Inr e \<and> readCpuRegister kl cf off (8 * n) ?st1 = Inr e1 \<and>
        readCpuRegister kl cf off (8 * n) ?st2 = Inr e2 \<and> (\<forall>m. ev e1 m = ev e m) \<and>
        (isConcrete kl bs off (8 * n) \<longrightarrow> (\<forall>m. ev e2 m = le_value (map (\<lambda>i. unat (regs ! (off + i))) [0..<n]))) \<and>
        ((\<forall>i<n. e_value kl (bs ! (off + i)) = None) \<longrightarrow> (\<forall>m. ev e2 m = ev e m))"
    if n: "0 < n" "n \<le> 8" "off + n \<le> CPU_CONC_LIMIT cf" for off n
  proof -
    have idx: "off + i < length bs" "bs ! (off + i) \<in> set bs" if "i < n" for i using that n bs(2) by auto
    have obj: "in_object kl st bs off n" "in_object kl ?st2 ?bs off n" using mode by (simp_all add: in_object_def)
    have v1: "register_value kl ev ?st1 bs off n m = register_value kl ev st bs off n m" for m
      using concrete_store_value [OF laws(1) _ _ mode, where bs = bs and off = off and n = n] n(3) bs(2,3) by simp
    have v2: "register_value kl ev ?st2 ?bs off n m = le_value (map (\<lambda>i. if e_value kl (bs ! (off + i)) = None then ev (bs ! (off + i)) m
        else unat (regs ! (off + i))) [0..<n])" for m
      unfolding register_value_def using idx(1) obj(2) by (intro le_value_cong) (simp add: fill_store_nth const_byte [OF laws(1)])
    have "register_value kl ev ?st2 ?bs off n m = le_value (map (\<lambda>i. unat (regs ! (off + i))) [0..<n])"
      if "isConcrete kl bs off (8 * n)" for m
      unfolding v2 using that isConcrete_nth [of off n bs kl] n bs(2) by (intro le_value_cong) auto
    moreover have "register_value kl ev ?st2 ?bs off n m = register_value kl ev st bs off n m"
      if "\<forall>i<n. e_value kl (bs ! (off + i)) = None" for m
      unfolding v2 unfolding register_value_def using that obj(1) by (intro le_value_cong) auto
    moreover from readCpuRegister_value [OF laws(2,3) ok n] readCpuRegister_value [OF laws(2,3) ok12(1) n]
      readCpuRegister_value [OF laws(2,3) ok12(2) n] obtain e e1 e2 where
      "readCpuRegister kl cf off (8 * n) st = Inr e" "\<And>m. ev e m = register_value kl ev st bs off n m"
      "readCpuRegister kl cf off (8 * n) ?st1 = Inr e1" "\<And>m. ev e1 m = register_value kl ev ?st1 bs off n m"
      "readCpuRegister kl cf off (8 * n) ?st2 = Inr e2" "\<And>m. ev e2 m = register_value kl ev ?st2 ?bs off n m" by blast
    ultimately show ?thesis using v1 by (intro exI [of _ e] exI [of _ e1] exI [of _ e2]) simp
  qed
  with run show ?thesis by blast
qed

section \<open>Registered RAM\<close>

text \<open>Binding an object leaves all other objects as they are; the new one has symbolic-free bytes of its own.\<close>

definition add_laws :: "('e, 'o, 'k) klee_ops \<Rightarrow> (mem_object \<Rightarrow> 'k \<Rightarrow> 'k) \<Rightarrow> bool" where
  "add_laws kl add_external \<longleftrightarrow> (\<forall>mo k. \<exists>os. as_find kl (mo_address mo) (add_external mo k) = Some (mo, os)) \<and>
     (\<forall>mo k a. a \<noteq> mo_address mo \<longrightarrow> as_find kl a (add_external mo k) = as_find kl a k)"

lemma block_le: "a mod 128 = 0 \<Longrightarrow> x \<noteq> a \<Longrightarrow> x mod 128 = 0 \<Longrightarrow> a + 128 \<le> x \<longleftrightarrow> a \<le> (x :: nat)"
proof -
  assume a: "a mod 128 = 0" "x \<noteq> a" "x mod 128 = 0"
  then obtain i j where "a = 128 * i" "x = 128 * j" by (meson dvdE mod_eq_0_iff_dvd)
  with a(2) show ?thesis by auto
qed

lemma block_floor: "a mod 128 = 0 \<Longrightarrow> a \<le> x \<Longrightarrow> a \<le> x - x mod (128 :: nat)"
proof -
  assume a: "a mod 128 = 0" "a \<le> x"
  then obtain i where i: "a = 128 * i" by (meson dvdE mod_eq_0_iff_dvd)
  have "i \<le> x div 128" using a(2) i by simp
  then have "128 * i \<le> 128 * (x div 128)" by simp
  then show ?thesis using i by (simp add: minus_mod_eq_mult_div)
qed

lemma aligned_step:
  assumes "unat (addr :: u64) mod 128 = 0" "unat stop mod 128 = 0" "addr < stop"
  shows "unat (addr + of_nat RAM_OBJECT_SIZE) = unat addr + 128" "unat addr + 128 \<le> unat stop"
proof -
  have lt: "unat addr < unat stop" using assms(3) by (simp add: word_less_nat_alt)
  obtain i j where "unat addr = 128 * i" "unat stop = 128 * j" using assms(1,2) by (meson dvdE mod_eq_0_iff_dvd)
  with lt show le: "unat addr + 128 \<le> unat stop" by simp
  moreover have "unat stop < 2 ^ 64" using unsigned_less [of stop, where ?'a = nat] by simp
  ultimately show "unat (addr + of_nat RAM_OBJECT_SIZE) = unat addr + 128"
    by (simp add: unat_word_ariths RAM_OBJECT_SIZE_128)
qed

lemma register_objects_spec:
  assumes al: "add_laws kl add_external"
  shows "unat addr mod 128 = 0 \<Longrightarrow> unat stop mod 128 = 0 \<Longrightarrow> addr \<le> stop \<Longrightarrow>
    \<exists>k'. register_objects add_external shared to_save stop addr (k, save) =
      Some (k', if shared \<and> to_save then save @ map (\<lambda>i. addr + of_nat (128 * i)) [0..<(unat stop - unat addr) div 128] else save) \<and>
     (\<forall>x. if unat addr \<le> unat x \<and> unat x < unat stop \<and> obj_offset x = 0 then \<exists>os. as_find kl x k' = Some (ram_mo x shared, os)
          else as_find kl x k' = as_find kl x k)"
proof (induction "(unat stop - unat addr) div 128" arbitrary: addr k save)
  case 0
  have "\<not> addr < stop"
  proof
    assume "addr < stop"
    with aligned_step [OF 0(2,3)] have "unat addr + 128 \<le> unat stop" by simp
    then have "1 \<le> (unat stop - unat addr) div 128" by simp
    with 0(1) show False by simp
  qed
  then show ?case using 0 by (subst register_objects.simps) (auto simp: word_le_nat_alt word_less_nat_alt)
next
  case (Suc d)
  have lt: "addr < stop" using Suc.hyps(2) by (cases "addr < stop") (auto simp: word_less_nat_alt not_less)
  note step = aligned_step [OF Suc.prems(1,2) lt]
  let ?addr = "addr + of_nat RAM_OBJECT_SIZE" and ?k = "add_external (ram_mo addr shared) k"
  let ?save = "if shared \<and> to_save then save @ [addr] else save"
  have d: "d = (unat stop - unat ?addr) div 128"
  proof -
    have "unat stop - unat addr = (unat stop - unat ?addr) + 128" using step by simp
    then show ?thesis using Suc.hyps(2) by simp
  qed
  have al': "unat ?addr mod 128 = 0" "?addr \<le> stop" using Suc.prems(1) step by (simp_all add: word_le_nat_alt)
  from Suc.hyps(1) [OF d al'(1) Suc.prems(2) al'(2), of ?k ?save] obtain k' where
    ih: "register_objects add_external shared to_save stop ?addr (?k, ?save) =
      Some (k', if shared \<and> to_save then ?save @ map (\<lambda>i. ?addr + of_nat (128 * i)) [0..<(unat stop - unat ?addr) div 128] else ?save)"
    "\<And>x. if unat ?addr \<le> unat x \<and> unat x < unat stop \<and> obj_offset x = 0 then \<exists>os. as_find kl x k' = Some (ram_mo x shared, os)
          else as_find kl x k' = as_find kl x ?k" by blast
  have mp: "map (\<lambda>i. addr + of_nat (128 * i)) [0..<Suc d] = addr # map (\<lambda>i. ?addr + of_nat (128 * i)) [0..<d]"
    by (simp add: upt_conv_Cons map_Suc_upt [symmetric] o_def RAM_OBJECT_SIZE_128 algebra_simps del: upt_Suc)
  then have run: "register_objects add_external shared to_save stop addr (k, save) =
      Some (k', if shared \<and> to_save then save @ map (\<lambda>i. addr + of_nat (128 * i)) [0..<(unat stop - unat addr) div 128] else save)"
    unfolding Suc.hyps(2) [symmetric] mp
    by (cases "shared \<and> to_save"; subst register_objects.simps) (use lt ih(1) [folded d] in auto)
  have "if unat addr \<le> unat x \<and> unat x < unat stop \<and> obj_offset x = 0 then \<exists>os. as_find kl x k' = Some (ram_mo x shared, os)
          else as_find kl x k' = as_find kl x k" for x
  proof (cases "x = addr")
    case True
    then have "as_find kl x k' = as_find kl x ?k" using ih(2) [of x] step by simp
    then show ?thesis using True al lt Suc.prems(1) unfolding add_laws_def
      by (auto simp: obj_offset_mod word_less_nat_alt ram_mo_def dest: spec [of _ "ram_mo addr shared"])
  next
    case False
    then have "as_find kl x ?k = as_find kl x k" using al by (simp add: add_laws_def ram_mo_def)
    moreover have "unat ?addr \<le> unat x \<longleftrightarrow> unat addr \<le> unat x" if "obj_offset x = 0"
    proof -
      have "unat x \<noteq> unat addr" using False by (simp add: word_unat_eq_iff)
      moreover have "unat x mod 128 = 0" using that by (simp add: obj_offset_mod)
      ultimately show ?thesis unfolding step(1) by (rule block_le [OF Suc.prems(1)])
    qed
    ultimately show ?thesis using ih(2) [of x] by (cases "obj_offset x = 0") simp_all
  qed
  with run show ?case by blast
qed


lemma page_aligned_object: "RAM_OBJECT_BITS \<le> page_bits q \<Longrightarrow> page_aligned q a \<Longrightarrow> unat a mod 128 = 0"
proof -
  assume q: "RAM_OBJECT_BITS \<le> page_bits q" "page_aligned q a"
  have "a AND mask RAM_OBJECT_BITS = (a AND mask (page_bits q)) AND mask RAM_OBJECT_BITS"
    using q(1) by (intro bit_eqI) (auto simp: bit_simps)
  then have "obj_offset a = 0" using q(2) by (simp add: page_aligned_def obj_offset_def)
  then show ?thesis by (simp add: obj_offset_mod)
qed

lemma new_region_get:
  assumes c: "cache_inv c" "cache_contains b c" and new: "c = MemoryCache_new ob pb sb st sz"
  shows "cache_get d b c = Inr d"
proof -
  from cache_contains_get [OF c] have "level1_of c b < length (m_level1 c)"
    by (cases "level1_of c b < length (m_level1 c)") (simp_all add: cache_get_def)
  then show ?thesis by (simp add: cache_get_def new MemoryCache_new_def resize_def)
qed

lemma insert_get:
  assumes "\<And>b. cache_contains b mc \<Longrightarrow> cache_get None b mc = Inr None"
  shows "pool_get None b (insert_by_size mc cs) = Inr (Some p) \<Longrightarrow> pool_get None b cs = Inr (Some p)"
  using assms by (induction cs) (auto split: if_splits)

lemma insert_aligned: "regions_aligned (insert_by_size mc cs) \<longleftrightarrow> unat (m_hostAddrStart mc) mod 128 = 0 \<and> objBits mc = 7 \<and> regions_aligned cs"
  by (auto simp: regions_aligned_def insert_by_size_set)

lemma obj_base_unat: "unat (obj_base x) = unat x - unat x mod 128"
proof -
  have "x = obj_base x + of_nat (obj_offset x)" by (rule obj_base_plus_offset [symmetric])
  then have "obj_base x = x - of_nat (obj_offset x)" by (metis add_diff_cancel_right')
  moreover have "unat (of_nat (obj_offset x) :: u64) = unat x mod 128"
    by (simp add: unat_of_nat obj_offset_mod take_bit_nat_eq_self)
  ultimately show ?thesis by (simp add: unat_sub_if')
qed

text \<open>An entry of the enlarged cache was an entry before, as the new part is empty.\<close>

lemma enlarged_cache_entry:
  fixes mc :: "(mem_object \<times> 'o) option memory_cache"
  assumes co: "cache_coherent kl r" and inv: "cache_inv mc" and mc: "mc = MemoryCache_new b p n host sz"
    and a: "obj_offset a = 0" and g: "pool_get None a (insert_by_size mc (m_memcache r)) = Inr (Some e)"
  shows "pool_covers (m_memcache r) a" "as_find kl a (klee r) = Some e"
proof -
  have old: "pool_get None a (m_memcache r) = Inr (Some e)"
    by (rule insert_get [OF _ g]) (rule new_region_get [OF inv _ mc])
  have "pool_inv (m_memcache r)" using co by (simp add: cache_coherent_def)
  then show "pool_covers (m_memcache r) a" using pool_get_ok [of "m_memcache r" None a] old by auto
  show "as_find kl a (klee r) = Some e" by (rule cache_coherentD [OF co a old])
qed

lemma registerRam_ok:
  assumes al: "add_laws kl add_external" and q: "RAM_OBJECT_BITS \<le> page_bits q" "page_bits q \<le> 20"
    and start: "startAddress = - 1 \<or> page_aligned q startAddress" and page: "page_aligned q sz" "page_aligned q host"
    and save: "shared \<or> \<not> saveOnSwitch" and fit: "unat host + unat sz < 2 ^ 64"
    and co: "cache_coherent kl (su_ram su)"
    and fresh: "\<And>x. host \<le> x \<Longrightarrow> x < host + sz \<Longrightarrow> \<not> pool_covers (m_memcache (su_ram su)) x"
  shows "\<exists>su'. registerRam add_external q ssm startAddress sz host shared saveOnSwitch su = Some (Inr su') \<and>
    cache_coherent kl (su_ram su') \<and>
    (\<forall>x. host \<le> x \<and> x < host + sz \<longrightarrow> pool_covers (m_memcache (su_ram su')) x \<and>
       (\<exists>os. as_find kl (obj_base x) (klee (su_ram su')) = Some (ram_mo (obj_base x) shared, os))) \<and>
    (\<forall>x. \<not> (host \<le> x \<and> x < host + sz) \<longrightarrow> as_find kl x (klee (su_ram su')) = as_find kl x (klee (su_ram su)))"
proof -
  let ?r = "su_ram su" and ?stop = "host + sz"
  let ?mc = "MemoryCache_new RAM_OBJECT_BITS (page_bits q) 20 host sz :: (mem_object \<times> 'b) option memory_cache"
  have stop: "unat ?stop = unat host + unat sz" using fit by (simp add: unat_word_ariths)
  have m: "unat host mod 128 = 0" "unat sz mod 128 = 0" using page_aligned_object [OF q(1)] page by simp_all
  then have m2: "unat ?stop mod 128 = 0" unfolding stop by presburger
  have le: "host \<le> ?stop" using stop by (simp add: word_le_nat_alt)
  from register_objects_spec [OF al m(1) m2 le, of shared "saveOnSwitch \<or> \<not> ssm" "klee ?r" "m_saveOnContextSwitch su"]
  obtain k' sv where reg: "register_objects add_external shared (saveOnSwitch \<or> \<not> ssm) ?stop host (klee ?r, m_saveOnContextSwitch su) = Some (k', sv)"
    "\<And>x. if unat host \<le> unat x \<and> unat x < unat ?stop \<and> obj_offset x = 0 then \<exists>os. as_find kl x k' = Some (ram_mo x shared, os)
       else as_find kl x k' = as_find kl x (klee ?r)" by blast
  have "push_bit (page_bits q) 1 - 1 = (mask (page_bits q) :: u64)" by (simp add: mask_eq_exp_minus_1)
  then have pool: "registerPool RAM_OBJECT_BITS (page_bits q) 20 host sz (m_memcache ?r) = Inr (insert_by_size ?mc (m_memcache ?r))"
    using page(2) by (simp add: registerPool_def page_aligned_def)
  let ?cache = "insert_by_size ?mc (m_memcache ?r)"
  let ?su = "su\<lparr>su_ram := ?r\<lparr>klee := k', m_memcache := ?cache\<rparr>, m_saveOnContextSwitch := sv,
    m_unusedMemoryRegions := (if shared then m_unusedMemoryRegions su else m_unusedMemoryRegions su @ [(host, sz)])\<rparr>"
  have run: "registerRam add_external q ssm startAddress sz host shared saveOnSwitch su = Some (Inr ?su)"
    using start page save reg(1) pool by (auto simp: registerRam_def)
  have inv: "cache_inv ?mc" using q fit by (intro new_cache_inv) simp_all
  have mcf: "m_hostAddrStart ?mc = host" "m_size ?mc = sz" "objBits ?mc = 7"
    by (simp_all add: MemoryCache_new_def resize_def RAM_OBJECT_BITS_def)
  have inv': "pool_inv ?cache" "regions_aligned ?cache"
    using register_inv [OF _ q(1,2) _ fit pool] co m(1) mcf by (simp_all add: cache_coherent_def insert_aligned)
  have in_iff: "host \<le> x \<and> x < ?stop \<longleftrightarrow> unat host \<le> unat x \<and> unat x < unat ?stop" for x
    by (simp add: word_le_nat_alt word_less_nat_alt)
  have outside: "as_find kl x k' = as_find kl x (klee ?r)" if "\<not> (host \<le> x \<and> x < ?stop)" for x
    using reg(2) [of x] that in_iff [of x] by auto
  have "as_find kl a k' = Some p" if a: "obj_offset a = 0" and g: "pool_get None a ?cache = Inr (Some p)" for a p
  proof -
    from enlarged_cache_entry [OF co inv refl a g] fresh [of a] outside [of a] show ?thesis by auto
  qed
  with inv' have coh: "cache_coherent kl (?r\<lparr>klee := k', m_memcache := ?cache\<rparr>)" by (simp add: cache_coherent_def)
  have "pool_covers ?cache x \<and> (\<exists>os. as_find kl (obj_base x) k' = Some (ram_mo (obj_base x) shared, os))"
    if x: "host \<le> x" "x < ?stop" for x
  proof
    show "pool_covers ?cache x" using x mcf by (auto simp: pool_covers_def list_ex_iff insert_by_size_set cache_contains_def)
    note obj_base_unat [of x]
    moreover have "unat host \<le> unat x - unat x mod 128"
      using block_floor [OF m(1)] x(1) by (simp only: word_le_nat_alt)
    moreover have "unat x - unat x mod 128 < unat ?stop" using x(2) by (simp add: word_less_nat_alt)
    ultimately show "\<exists>os. as_find kl (obj_base x) k' = Some (ram_mo (obj_base x) shared, os)"
      using reg(2) [of "obj_base x"] obj_base_aligned by simp
  qed
  with run coh outside show ?thesis by (intro exI [of _ ?su]) simp
qed


section \<open>A small machine\<close>

theorem mode_switch_registers_witness:
  "\<exists>st1 st2. switchToConcrete sx_ops False (\<lambda>_. 7) (arm_state False [2]) = Inr st1 \<and>
    switchToSymbolic sx_ops (st1\<lparr>cpu_registers := replicate 64 5\<rparr>) = Inr st2"
proof -
  have "length (replicate 64 (5 :: u8)) = CPU_CONC_LIMIT small_arm" by (simp add: small_arm_def)
  with mode_switch_registers [OF sx_expr_laws sx_object_laws sx_wide_laws arm_sx_ok, of False "[2]" "replicate 64 5" "\<lambda>_. 7"]
  show ?thesis by auto
qed

text \<open>An address space that is a map from addresses to objects.\<close>

definition map_ops :: "(sx, nat, u64 \<Rightarrow> (mem_object \<times> nat) option) klee_ops" where
  "map_ops = \<lparr>e_width = sx_width, e_value = sx_value, e_const = (\<lambda>c w. Num (unat c) w), e_concat = Cat,
     e_extract = Ext, e_zext = (\<lambda>e w. Cat (Num 0 (w - sx_width e)) e),
     os_read = (\<lambda>bs off w. Bytes (take (w div 8) (drop off bs)) w), os_write = sx_write,
     as_find = (\<lambda>a k. k a), as_owned = (\<lambda>os k. True), as_copy = (\<lambda>mo os k. (os, k)),
     as_bytes = (\<lambda>os k. []), as_update = (\<lambda>os bs k. k),
     to_constant = (\<lambda>e k. (0, k)), to_example = (\<lambda>e k. 0)\<rparr>"

definition map_add :: "mem_object \<Rightarrow> (u64 \<Rightarrow> (mem_object \<times> nat) option) \<Rightarrow> u64 \<Rightarrow> (mem_object \<times> nat) option" where
  "map_add mo k = k(mo_address mo := Some (mo, 0))"

definition empty_setup :: "(nat, u64 \<Rightarrow> (mem_object \<times> nat) option) ram_setup" where
  "empty_setup = \<lparr>su_ram = \<lparr>m_active = True, m_runningConcrete = True, m_memcache = [], klee = (\<lambda>_. None)\<rparr>,
     m_saveOnContextSwitch = [], m_unusedMemoryRegions = [], m_dirtyMask = None\<rparr>"


end
