(* ===== verification/Tcg_Llvm.thy ===== *)
theory Tcg_Llvm
  imports S2E_Prelude
begin

text \<open>
  The translator from TCG micro operations to LLVM code (\<open>tcg-llvm.cpp\<close>): the cache of the values of
  temporaries, the pointers to their memory, and the code generated for each operation. LLVM's
  builder is a parameter; a value stands for what the instruction computes in a run of the code,
  and the memory is the memory of that run.
\<close>

section \<open>LLVM\<close>

datatype binop = Add | Sub | Mul | SDiv | UDiv | SRem | URem | And | Or | Xor | Shl | LShr | AShr
datatype icmp = ICmpEQ | ICmpNE | ICmpSLT | ICmpSGE | ICmpSLE | ICmpSGT | ICmpULT | ICmpUGE | ICmpULE | ICmpUGT

text \<open>\<open>c_ext\<close> extends by sign or by zero. \<open>c_call\<close> is the call of a helper, by name or by address, with
  the width of its result; \<open>c_mem\<close> that of the helpers for guest memory, by load or store and index.\<close>

datatype callee = By_Name string | By_Address nat

record ('v, 'm) llvm =
  v_bits :: "'v \<Rightarrow> nat"
  c_int :: "nat \<Rightarrow> nat \<Rightarrow> 'v"
  c_bin :: "binop \<Rightarrow> 'v \<Rightarrow> 'v \<Rightarrow> 'v"
  c_icmp :: "icmp \<Rightarrow> 'v \<Rightarrow> 'v \<Rightarrow> 'v"
  c_trunc :: "nat \<Rightarrow> 'v \<Rightarrow> 'v"
  c_ext :: "bool \<Rightarrow> nat \<Rightarrow> 'v \<Rightarrow> 'v"
  c_bswap :: "'v \<Rightarrow> 'v"
  c_load :: "nat \<Rightarrow> 'v \<Rightarrow> 'm \<Rightarrow> 'v"
  c_store :: "'v \<Rightarrow> 'v \<Rightarrow> 'm \<Rightarrow> 'm"
  c_arg :: "nat \<Rightarrow> 'v"
  c_alloca :: "nat \<Rightarrow> 'v"
  c_call :: "callee \<Rightarrow> 'v list \<Rightarrow> nat option \<Rightarrow> 'm \<Rightarrow> 'v \<times> 'm"
  c_mem :: "bool \<Rightarrow> nat \<Rightarrow> 'v list \<Rightarrow> 'm \<Rightarrow> 'v \<times> 'm"

section \<open>Contexts\<close>

record temp =
  t_bits :: nat
  fixed_reg :: bool
  t_reg :: nat
  mem_reg :: nat
  mem_offset :: nat
  temp_local :: bool

text \<open>Of QEMU: the flags \<open>MO_SIZE\<close> and \<open>MO_SIGN\<close>, the numbers of the conditions, the argument counts of the
  operations and the names of the helpers by address. \<open>goto_tb_address\<close> is that of
  \<open>tcg_llvm_runtime.goto_tb\<close>.\<close>

datatype cond = NEVER | ALWAYS | CEQ | CNE | CLT | CGE | CLE | CGT | LTU | GEU | LEU | GTU

datatype opcode =
    Op_debug_insn_start | Op_nop | Op_nopn | Op_discard | Op_call | Op_br | Op_brcond nat | Op_set_label
  | Op_movi nat | Op_mov nat | Op_ext bool nat nat | Op_ld bool nat nat | Op_st nat nat
  | Op_arith binop nat | Op_div2 bool nat | Op_rot bool nat | Op_not nat | Op_neg nat | Op_bswap nat nat
  | Op_qemu_st_i32 | Op_qemu_ld_i32 | Op_qemu_i64 | Op_exit_tb | Op_goto_tb
  | Op_deposit nat | Op_setcond_i32 | Op_add2_i32 | Op_movcond_i32 | Op_end | Op_unknown

record tcg_context =
  temps :: "temp list"
  nb_globals :: nat
  MO_SIZE :: nat
  MO_SIGN :: nat
  TARGET_LONG_BITS :: nat
  DUMMY_ARG :: nat
  cond_of :: "nat \<Rightarrow> cond option"
  nb_args_of :: "opcode \<Rightarrow> nat"
  nb_cargs_of :: "opcode \<Rightarrow> nat"
  helper_name :: "nat \<Rightarrow> string option"
  goto_tb_address :: nat
  execute_llvm :: bool

datatype 'v terminator = Br nat | CondBr 'v nat | Fall | Ret 'v

text \<open>\<open>m_values\<close>, \<open>m_memValuesPtr\<close> and \<open>m_globalsIdx\<close> by index; \<open>placed\<close> are the labels whose block is in the
  function, \<open>blocks\<close> the terminators of the finished blocks and \<open>terminated\<close> that of the current one, after
  which the buffer has no further instruction for the block.\<close>

record ('v, 'm) tcg =
  m_values :: "nat \<Rightarrow> 'v option"
  m_memValuesPtr :: "nat \<Rightarrow> 'v option"
  m_globalsIdx :: "nat \<Rightarrow> nat"
  memory :: 'm
  placed :: "nat set"
  blocks :: "'v terminator list"
  terminated :: "'v terminator option"

definition delValue :: "nat \<Rightarrow> ('v, 'm) tcg \<Rightarrow> ('v, 'm) tcg" where
  "delValue i st = st\<lparr>m_values := (m_values st)(i := None)\<rparr>"

definition delPtrForValue :: "nat \<Rightarrow> ('v, 'm) tcg \<Rightarrow> ('v, 'm) tcg" where
  "delPtrForValue i st = st\<lparr>m_memValuesPtr := (m_memValuesPtr st)(i := None)\<rparr>"

definition temp_of :: "tcg_context \<Rightarrow> nat \<Rightarrow> temp res" where
  "temp_of cx i = (if i < length (temps cx) then Inr (temps cx ! i) else Inl Undefined_Behaviour)"

text \<open>The pointer to the memory of a temporary and its value call each other along the chain of base
  registers, which the fuel bounds; \<open>WORD\<close> is the width of the host.\<close>

definition WORD :: nat where "WORD = 64"

fun getPtrForValue_n :: "('v, 'm) llvm \<Rightarrow> tcg_context \<Rightarrow> nat \<Rightarrow> nat \<Rightarrow> ('v, 'm) tcg \<Rightarrow> ('v \<times> ('v, 'm) tcg) res"
  and getValue_n :: "('v, 'm) llvm \<Rightarrow> tcg_context \<Rightarrow> nat \<Rightarrow> nat \<Rightarrow> ('v, 'm) tcg \<Rightarrow> ('v \<times> ('v, 'm) tcg) res" where
  "getPtrForValue_n L cx 0 i st = Inl Undefined_Behaviour"
| "getPtrForValue_n L cx (Suc d) i st =
     rbind (temp_of cx i) (\<lambda>t.
     rbind (assert_that (i < nb_globals cx \<or> temp_local t)) (\<lambda>_.
       case m_memValuesPtr st i of
         Some p \<Rightarrow> Inr (p, st)
       | None \<Rightarrow>
           rbind (assert_that (i < nb_globals cx)) (\<lambda>_.
             if fixed_reg t then
               (let p = c_arg L (m_globalsIdx st i) in Inr (p, st\<lparr>m_memValuesPtr := (m_memValuesPtr st)(i := Some p)\<rparr>))
             else rbind (getValue_n L cx d (m_globalsIdx st i) st) (\<lambda>(v, st1).
               rbind (assert_that (v_bits L v = WORD)) (\<lambda>_.
                 let p = c_bin L Add v (c_int L WORD (mem_offset t))
                 in Inr (p, st1\<lparr>m_memValuesPtr := (m_memValuesPtr st1)(i := Some p)\<rparr>))))))"
| "getValue_n L cx 0 i st = Inl Undefined_Behaviour"
| "getValue_n L cx (Suc d) i st =
     rbind (temp_of cx i) (\<lambda>t.
       case m_values st i of
         Some v \<Rightarrow> Inr (v, st)
       | None \<Rightarrow>
           if i < nb_globals cx \<or> temp_local t then
             rbind (getPtrForValue_n L cx d i st) (\<lambda>(p, st1).
               let v = c_load L (t_bits t) p (memory st1) in Inr (v, st1\<lparr>m_values := (m_values st1)(i := Some v)\<rparr>))
           else Inl Assertion_Failed)"

definition getPtrForValue where "getPtrForValue L cx i st = getPtrForValue_n L cx 4 i st"
definition getValue where "getValue L cx i st = getValue_n L cx 4 i st"

definition getValueBits :: "tcg_context \<Rightarrow> nat \<Rightarrow> nat res" where
  "getValueBits cx i = rbind (temp_of cx i) (\<lambda>t. Inr (t_bits t))"

text \<open>The invalidation in \<open>setValue\<close> tests the register that was set instead of the dependent one.\<close>

definition setValue :: "('v, 'm) llvm \<Rightarrow> tcg_context \<Rightarrow> nat \<Rightarrow> 'v \<Rightarrow> ('v, 'm) tcg \<Rightarrow> ('v, 'm) tcg res" where
  "setValue L cx i v st =
     rbind (temp_of cx i) (\<lambda>t.
       let st1 = (delValue i st)\<lparr>m_values := (m_values st)(i := Some v)\<rparr> in
       if i < nb_globals cx then
         rbind (getPtrForValue L cx i st1) (\<lambda>(p, st2).
           let st3 = st2\<lparr>memory := c_store L v p (memory st2)\<rparr> in
           Inr (if fixed_reg t then
               foldl (\<lambda>s j. if j \<noteq> i \<and> \<not> fixed_reg t \<and> m_globalsIdx s j = i then delPtrForValue j (delValue j s) else s)
                 st3 [0..<nb_globals cx]
             else st3))
       else if temp_local t then
         rbind (getPtrForValue L cx i st1) (\<lambda>(p, st2). Inr (st2\<lparr>memory := c_store L v p (memory st2)\<rparr>))
       else Inr st1)"

text \<open>\<open>initGlobalsAndLocalTemps\<close>: registers are numbered as arguments; memory globals get the index of
  the global in their base register.\<close>

fun number_regs :: "temp list \<Rightarrow> nat \<Rightarrow> nat \<Rightarrow> (nat \<Rightarrow> nat) \<Rightarrow> (nat \<Rightarrow> nat option) \<Rightarrow> (nat \<Rightarrow> nat) \<times> (nat \<Rightarrow> nat option)" where
  "number_regs [] i n gi rm = (gi, rm)"
| "number_regs (t # ts) i n gi rm =
     (if fixed_reg t then number_regs ts (i + 1) (n + 1) (gi(i := n)) (rm(t_reg t \<mapsto> i))
      else number_regs ts (i + 1) n (gi(i := mem_reg t)) rm)"

fun resolve_bases :: "temp list \<Rightarrow> nat \<Rightarrow> (nat \<Rightarrow> nat) \<Rightarrow> (nat \<Rightarrow> nat option) \<Rightarrow> (nat \<Rightarrow> nat) res" where
  "resolve_bases [] i gi rm = Inr gi"
| "resolve_bases (t # ts) i gi rm =
     (if fixed_reg t then resolve_bases ts (i + 1) gi rm
      else (case rm (gi i) of None \<Rightarrow> Inl Assertion_Failed | Some b \<Rightarrow> resolve_bases ts (i + 1) (gi(i := b)) rm))"

definition initGlobalsAndLocalTemps :: "('v, 'm) llvm \<Rightarrow> tcg_context \<Rightarrow> ('v, 'm) tcg \<Rightarrow> ('v, 'm) tcg res" where
  "initGlobalsAndLocalTemps L cx st =
     (case number_regs (take (nb_globals cx) (temps cx)) 0 0 (m_globalsIdx st) Map.empty of (gi, rm) \<Rightarrow>
       rbind (resolve_bases (take (nb_globals cx) (temps cx)) 0 gi rm) (\<lambda>gi'.
         Inr (st\<lparr>m_globalsIdx := gi',
           m_memValuesPtr := (\<lambda>i. if nb_globals cx \<le> i \<and> i < length (temps cx) \<and> temp_local (temps cx ! i)
             then Some (c_alloca L i) else m_memValuesPtr st i)\<rparr>)))"

section \<open>Blocks\<close>

definition invalidate :: "tcg_context \<Rightarrow> ('v, 'm) tcg \<Rightarrow> ('v, 'm) tcg" where
  "invalidate cx st = st\<lparr>m_values := (\<lambda>i. None),
     m_memValuesPtr := (\<lambda>i. if i < nb_globals cx then None else m_memValuesPtr st i)\<rparr>"

text \<open>\<open>startNewBasicBlock\<close> of the block of a label, or of a new block; a block without a terminator gets a
  branch to the new one.\<close>

definition startNewBasicBlock :: "tcg_context \<Rightarrow> nat option \<Rightarrow> ('v, 'm) tcg \<Rightarrow> ('v, 'm) tcg res" where
  "startNewBasicBlock cx l st =
     rbind (assert_that (case l of None \<Rightarrow> True | Some k \<Rightarrow> k \<notin> placed st)) (\<lambda>_.
       Inr (invalidate cx (st\<lparr>
         placed := (case l of None \<Rightarrow> placed st | Some k \<Rightarrow> insert k (placed st)),
         blocks := blocks st @ [case terminated st of None \<Rightarrow> Fall | Some t \<Rightarrow> t],
         terminated := None\<rparr>)))"

section \<open>Operations\<close>

text \<open>\<open>tcg_abort\<close> ends the process as a failed assertion does.\<close>

definition tcg_abort :: "'a res" where "tcg_abort = Inl Assertion_Failed"

definition generateCondition :: "('v, 'm) llvm \<Rightarrow> cond option \<Rightarrow> 'v \<Rightarrow> 'v \<Rightarrow> 'v res" where
  "generateCondition L c a b = (case c of None \<Rightarrow> tcg_abort | Some c' \<Rightarrow> Inr (case c' of
      NEVER \<Rightarrow> c_int L 1 0 | ALWAYS \<Rightarrow> c_int L 1 1
    | CEQ \<Rightarrow> c_icmp L ICmpEQ a b | CNE \<Rightarrow> c_icmp L ICmpNE a b
    | CLT \<Rightarrow> c_icmp L ICmpSLT a b | CGE \<Rightarrow> c_icmp L ICmpSGE a b | CLE \<Rightarrow> c_icmp L ICmpSLE a b | CGT \<Rightarrow> c_icmp L ICmpSGT a b
    | LTU \<Rightarrow> c_icmp L ICmpULT a b | GEU \<Rightarrow> c_icmp L ICmpUGE a b | LEU \<Rightarrow> c_icmp L ICmpULE a b | GTU \<Rightarrow> c_icmp L ICmpUGT a b))"

definition adjustTypeSize :: "('v, 'm) llvm \<Rightarrow> nat \<Rightarrow> 'v \<Rightarrow> 'v res" where
  "adjustTypeSize L target v =
     (if target = 32 then
        (if v_bits L v = 64 then Inr (c_trunc L target v)
         else if v_bits L v = 32 then Inr v else Inl Assertion_Failed)
      else Inr v)"

text \<open>The calls of \<open>getValue\<close> of an operation, in order.\<close>

fun getValues :: "('v, 'm) llvm \<Rightarrow> tcg_context \<Rightarrow> nat list \<Rightarrow> ('v, 'm) tcg \<Rightarrow> ('v list \<times> ('v, 'm) tcg) res" where
  "getValues L cx [] st = Inr ([], st)"
| "getValues L cx (i # is) st =
     rbind (getValue L cx i st) (\<lambda>(v, st1). rbind (getValues L cx is st1) (\<lambda>(vs, st2). Inr (v # vs, st2)))"

definition generateQemuMemOp ::
  "('v, 'm) llvm \<Rightarrow> tcg_context \<Rightarrow> bool \<Rightarrow> 'v option \<Rightarrow> 'v \<Rightarrow> nat \<Rightarrow> nat \<Rightarrow> ('v, 'm) tcg \<Rightarrow> ('v \<times> ('v, 'm) tcg) res" where
  "generateQemuMemOp L cx ld value addr mem_index bits st =
     rbind (assert_that (v_bits L addr = TARGET_LONG_BITS cx)) (\<lambda>_.
     rbind (assert_that (ld \<or> (case value of None \<Rightarrow> False | Some v \<Rightarrow> v_bits L v = bits))) (\<lambda>_.
     rbind (ensure_defined (bits div 16 < 5)) (\<lambda>_.
       case c_mem L ld (bits div 16)
           (addr # (case value of None \<Rightarrow> [] | Some v \<Rightarrow> [v])
             @ [c_int L (if execute_llvm cx then TARGET_LONG_BITS cx else 32) mem_index]) (memory st) of
         (v, m) \<Rightarrow> Inr (v, st\<lparr>memory := m\<rparr>))))"

text \<open>The groups of operations, by the arguments of the macros that generate their cases; \<open>args\<close> is the
  argument buffer from the operation on.\<close>

definition gen_call :: "('v, 'm) llvm \<Rightarrow> tcg_context \<Rightarrow> (nat \<Rightarrow> nat) \<Rightarrow> ('v, 'm) tcg \<Rightarrow> ('v, 'm) tcg res" where
  "gen_call L cx args st =
     (let nb_oargs = args 0 div 2 ^ 16; nb_iargs = args 0 mod 2 ^ 16; addr = args (nb_oargs + nb_iargs + 1) in
      if nb_iargs = 0 then Inl (Thrown ''std::length_error'') else
      rbind (getValues L cx (filter (\<lambda>a. a \<noteq> DUMMY_ARG cx) (map (\<lambda>i. args (nb_oargs + i + 1)) [0..<nb_iargs - 1])) st) (\<lambda>(vs, st1).
      rbind (assert_that (nb_oargs = 0 \<or> nb_oargs = 1)) (\<lambda>_.
      rbind (if nb_oargs = 0 then Inr None else rbind (getValueBits cx (args 1)) (\<lambda>b. Inr (Some b))) (\<lambda>ret.
      rbind (if execute_llvm cx then Inr (By_Address addr)
             else rbind (assert_that (addr \<noteq> 0)) (\<lambda>_.
               case helper_name cx addr of None \<Rightarrow> Inl Assertion_Failed | Some n \<Rightarrow> Inr (By_Name (''helper_'' @ n)))) (\<lambda>f.
        case c_call L f vs ret (memory st1) of (r, m) \<Rightarrow>
          (let st2 = st1\<lparr>
             m_values := (\<lambda>i. if i < nb_globals cx \<or> (i < length (temps cx) \<and> temp_local (temps cx ! i)) then None else m_values st1 i),
             m_memValuesPtr := (\<lambda>i. if i < nb_globals cx then None else m_memValuesPtr st1 i),
             memory := m\<rparr>
           in if nb_oargs = 1 then setValue L cx (args 1) r st2 else Inr st2))))))"

definition icmp_of :: "cond \<Rightarrow> icmp option" where
  "icmp_of c = (case c of NEVER \<Rightarrow> None | ALWAYS \<Rightarrow> None | CEQ \<Rightarrow> Some ICmpEQ | CNE \<Rightarrow> Some ICmpNE
    | CLT \<Rightarrow> Some ICmpSLT | CGE \<Rightarrow> Some ICmpSGE | CLE \<Rightarrow> Some ICmpSLE | CGT \<Rightarrow> Some ICmpSGT
    | LTU \<Rightarrow> Some ICmpULT | GEU \<Rightarrow> Some ICmpUGE | LEU \<Rightarrow> Some ICmpULE | GTU \<Rightarrow> Some ICmpUGT)"

definition gen_brcond :: "('v, 'm) llvm \<Rightarrow> tcg_context \<Rightarrow> nat \<Rightarrow> (nat \<Rightarrow> nat) \<Rightarrow> ('v, 'm) tcg \<Rightarrow> ('v, 'm) tcg res" where
  "gen_brcond L cx bits args st =
     rbind (getValue L cx (args 0) st) (\<lambda>(a, st1). rbind (assert_that (v_bits L a = bits)) (\<lambda>_.
     rbind (getValue L cx (args 1) st1) (\<lambda>(b, st2). rbind (assert_that (v_bits L b = bits)) (\<lambda>_.
       case Option.bind (cond_of cx (args 2)) icmp_of of
         None \<Rightarrow> tcg_abort
       | Some c \<Rightarrow> startNewBasicBlock cx None (st2\<lparr>terminated := Some (CondBr (c_icmp L c a b) (args 3))\<rparr>)))))"

definition gen_mov :: "('v, 'm) llvm \<Rightarrow> tcg_context \<Rightarrow> nat \<Rightarrow> (nat \<Rightarrow> nat) \<Rightarrow> ('v, 'm) tcg \<Rightarrow> ('v, 'm) tcg res" where
  "gen_mov L cx bits args st =
     rbind (getValue L cx (args 1) st) (\<lambda>(v, st1).
       if bits = 32 then
         rbind (assert_that (v_bits L v = 32 \<or> v_bits L v = 64)) (\<lambda>_. setValue L cx (args 0) (c_trunc L 32 v) st1)
       else rbind (assert_that (v_bits L v = bits)) (\<lambda>_. setValue L cx (args 0) v st1))"

definition gen_ext :: "('v, 'm) llvm \<Rightarrow> tcg_context \<Rightarrow> bool \<Rightarrow> nat \<Rightarrow> nat \<Rightarrow> (nat \<Rightarrow> nat) \<Rightarrow> ('v, 'm) tcg \<Rightarrow> ('v, 'm) tcg res" where
  "gen_ext L cx sx truncBits opBits args st =
     rbind (getValue L cx (args 1) st) (\<lambda>(v, st1).
       setValue L cx (args 0) (c_ext L sx opBits (c_trunc L truncBits v)) st1)"

definition gen_ld :: "('v, 'm) llvm \<Rightarrow> tcg_context \<Rightarrow> bool \<Rightarrow> nat \<Rightarrow> nat \<Rightarrow> (nat \<Rightarrow> nat) \<Rightarrow> ('v, 'm) tcg \<Rightarrow> ('v, 'm) tcg res" where
  "gen_ld L cx sx memBits regBits args st =
     rbind (getValue L cx (args 1) st) (\<lambda>(b, st1). rbind (assert_that (v_bits L b = WORD)) (\<lambda>_.
       setValue L cx (args 0)
         (c_ext L sx regBits (c_load L memBits (c_bin L Add b (c_int L WORD (args 2))) (memory st1))) st1))"

definition gen_st :: "('v, 'm) llvm \<Rightarrow> tcg_context \<Rightarrow> nat \<Rightarrow> nat \<Rightarrow> (nat \<Rightarrow> nat) \<Rightarrow> ('v, 'm) tcg \<Rightarrow> ('v, 'm) tcg res" where
  "gen_st L cx memBits regBits args st =
     rbind (getValue L cx (args 0) st) (\<lambda>(v, st1). rbind (assert_that (v_bits L v = regBits)) (\<lambda>_.
     rbind (getValue L cx (args 1) st1) (\<lambda>(b, st2). rbind (assert_that (v_bits L b = WORD)) (\<lambda>_.
       Inr (st2\<lparr>memory := c_store L (c_trunc L memBits v) (c_bin L Add b (c_int L WORD (args 2))) (memory st2)\<rparr>)))))"

definition gen_arith :: "('v, 'm) llvm \<Rightarrow> tcg_context \<Rightarrow> binop \<Rightarrow> nat \<Rightarrow> (nat \<Rightarrow> nat) \<Rightarrow> ('v, 'm) tcg \<Rightarrow> ('v, 'm) tcg res" where
  "gen_arith L cx op bits args st =
     rbind (getValue L cx (args 1) st) (\<lambda>(a, st1).
     rbind (getValue L cx (args 2) st1) (\<lambda>(b, st2).
     rbind (adjustTypeSize L bits a) (\<lambda>a'.
     rbind (adjustTypeSize L bits b) (\<lambda>b'.
     rbind (assert_that (v_bits L a' = bits)) (\<lambda>_.
     rbind (assert_that (v_bits L b' = bits)) (\<lambda>_.
       setValue L cx (args 0) (c_bin L op a' b') st2))))))"

definition gen_div2 :: "('v, 'm) llvm \<Rightarrow> tcg_context \<Rightarrow> bool \<Rightarrow> nat \<Rightarrow> (nat \<Rightarrow> nat) \<Rightarrow> ('v, 'm) tcg \<Rightarrow> ('v, 'm) tcg res" where
  "gen_div2 L cx sx bits args st =
     rbind (getValue L cx (args 2) st) (\<lambda>(lo, st1). rbind (assert_that (v_bits L lo = bits)) (\<lambda>_.
     rbind (getValue L cx (args 3) st1) (\<lambda>(hi, st2). rbind (assert_that (v_bits L hi = bits)) (\<lambda>_.
     rbind (getValue L cx (args 4) st2) (\<lambda>(d, st3). rbind (assert_that (v_bits L d = bits)) (\<lambda>_.
       let v = c_bin L Or
             (c_bin L Shl (c_ext L False (bits * 2) hi) (c_ext L False (bits * 2) (c_int L bits bits)))
             (c_ext L False (bits * 2) lo)
       in rbind (setValue L cx (args 0) (c_bin L (if sx then SDiv else UDiv) v d) st3) (\<lambda>st4.
          rbind (getValue L cx (args 4) st4) (\<lambda>(d', st5).
            setValue L cx (args 1) (c_bin L (if sx then SRem else URem) v d') st5))))))))"

definition gen_rot :: "('v, 'm) llvm \<Rightarrow> tcg_context \<Rightarrow> bool \<Rightarrow> nat \<Rightarrow> (nat \<Rightarrow> nat) \<Rightarrow> ('v, 'm) tcg \<Rightarrow> ('v, 'm) tcg res" where
  "gen_rot L cx left bits args st =
     rbind (getValue L cx (args 1) st) (\<lambda>(a, st1). rbind (assert_that (v_bits L a = bits)) (\<lambda>_.
     rbind (getValue L cx (args 2) st1) (\<lambda>(k, st2). rbind (assert_that (v_bits L k = bits)) (\<lambda>_.
       setValue L cx (args 0)
         (c_bin L Or (c_bin L (if left then Shl else LShr) a k)
           (c_bin L (if left then LShr else Shl) a (c_bin L Sub (c_int L bits bits) k))) st2))))"

text \<open>The unary operations are binary ones with a constant first operand.\<close>

definition gen_const_op :: "('v, 'm) llvm \<Rightarrow> tcg_context \<Rightarrow> binop \<Rightarrow> nat \<Rightarrow> nat \<Rightarrow> (nat \<Rightarrow> nat) \<Rightarrow> ('v, 'm) tcg \<Rightarrow> ('v, 'm) tcg res" where
  "gen_const_op L cx op c bits args st =
     rbind (getValue L cx (args 1) st) (\<lambda>(a, st1). rbind (assert_that (v_bits L a = bits)) (\<lambda>_.
       setValue L cx (args 0) (c_bin L op (c_int L bits c) a) st1))"

definition gen_bswap :: "('v, 'm) llvm \<Rightarrow> tcg_context \<Rightarrow> nat \<Rightarrow> nat \<Rightarrow> (nat \<Rightarrow> nat) \<Rightarrow> ('v, 'm) tcg \<Rightarrow> ('v, 'm) tcg res" where
  "gen_bswap L cx sBits bits args st =
     rbind (getValue L cx (args 1) st) (\<lambda>(a, st1). rbind (assert_that (v_bits L a = bits)) (\<lambda>_.
       setValue L cx (args 0) (c_ext L False bits (c_bswap L (c_trunc L sBits a))) st1))"

text \<open>The size of an access to guest memory takes the bitwise or with \<open>MO_SIZE\<close>, and the test of
  \<open>MO_SIGN\<close> is an or as well.\<close>

definition qemu_bitsize :: "tcg_context \<Rightarrow> nat \<Rightarrow> nat" where
  "qemu_bitsize cx a = 2 ^ (a OR MO_SIZE cx) * 8"

definition gen_qemu_st :: "('v, 'm) llvm \<Rightarrow> tcg_context \<Rightarrow> (nat \<Rightarrow> nat) \<Rightarrow> ('v, 'm) tcg \<Rightarrow> ('v, 'm) tcg res" where
  "gen_qemu_st L cx args st =
     rbind (getValue L cx (args 0) st) (\<lambda>(v, st1).
     rbind (getValue L cx (args 1) st1) (\<lambda>(addr, st2).
       let bits = qemu_bitsize cx (args 2);
           w = (if v_bits L v < bits then c_ext L False bits v else c_trunc L bits v)
       in rbind (generateQemuMemOp L cx False (Some w) addr (args 3) bits st2) (\<lambda>(_, st3). Inr st3)))"

definition gen_qemu_ld :: "('v, 'm) llvm \<Rightarrow> tcg_context \<Rightarrow> (nat \<Rightarrow> nat) \<Rightarrow> ('v, 'm) tcg \<Rightarrow> ('v, 'm) tcg res" where
  "gen_qemu_ld L cx args st =
     rbind (getValue L cx (args 1) st) (\<lambda>(addr, st1).
       let bits = qemu_bitsize cx (args 2)
       in rbind (generateQemuMemOp L cx True None addr (args 3) bits st1) (\<lambda>(v, st2).
            setValue L cx (args 0) (c_ext L (args 2 OR MO_SIGN cx \<noteq> 0) (max (TARGET_LONG_BITS cx) bits) v) st2))"

text \<open>The mask of \<open>deposit\<close> is computed at 32 bits for both widths; a shift by 32 or more is undefined.\<close>

definition gen_deposit :: "('v, 'm) llvm \<Rightarrow> tcg_context \<Rightarrow> nat \<Rightarrow> (nat \<Rightarrow> nat) \<Rightarrow> ('v, 'm) tcg \<Rightarrow> ('v, 'm) tcg res" where
  "gen_deposit L cx bits args st =
     rbind (getValue L cx (args 1) st) (\<lambda>(a, st1).
     rbind (getValue L cx (args 2) st1) (\<lambda>(b, st2).
       let b' = c_trunc L bits b; ofs = args 3 mod 2 ^ 32; len = args 4 mod 2 ^ 32 in
       if ofs = 0 \<and> len = bits then setValue L cx (args 0) b' st2
       else rbind (ensure_defined (len < 32 \<and> ofs < bits)) (\<lambda>_.
         let msk = 2 ^ len - 1;
             t1 = (if ofs + len < bits
                   then c_bin L Shl (c_bin L And b' (c_int L bits msk)) (c_int L bits ofs)
                   else c_bin L Shl b' (c_int L bits ofs))
         in setValue L cx (args 0)
              (c_bin L Or (c_bin L And a (c_int L bits (2 ^ bits - 1 - (msk * 2 ^ ofs) mod 2 ^ bits))) t1) st2)))"

definition gen_setcond :: "('v, 'm) llvm \<Rightarrow> tcg_context \<Rightarrow> (nat \<Rightarrow> nat) \<Rightarrow> ('v, 'm) tcg \<Rightarrow> ('v, 'm) tcg res" where
  "gen_setcond L cx args st =
     rbind (getValue L cx (args 1) st) (\<lambda>(a, st1).
     rbind (getValue L cx (args 2) st1) (\<lambda>(b, st2).
     rbind (generateCondition L (cond_of cx (args 3)) a b) (\<lambda>c.
       setValue L cx (args 0) (c_ext L True 32 c) st2)))"

definition gen_add2 :: "('v, 'm) llvm \<Rightarrow> tcg_context \<Rightarrow> (nat \<Rightarrow> nat) \<Rightarrow> ('v, 'm) tcg \<Rightarrow> ('v, 'm) tcg res" where
  "gen_add2 L cx args st =
     rbind (getValue L cx (args 2) st) (\<lambda>(al, st1). rbind (getValue L cx (args 3) st1) (\<lambda>(ah, st2).
     rbind (getValue L cx (args 4) st2) (\<lambda>(bl, st3). rbind (getValue L cx (args 5) st3) (\<lambda>(bh, st4).
       let a = c_bin L Or (c_bin L Shl (c_ext L False 64 ah) (c_int L 64 32)) (c_ext L False 64 al);
           b = c_bin L Or (c_bin L Shl (c_ext L False 64 bh) (c_int L 64 32)) (c_ext L False 64 bl);
           r = c_bin L Add a b
       in rbind (setValue L cx (args 0) (c_trunc L 32 r) st4) (\<lambda>st5.
            setValue L cx (args 1) (c_trunc L 32 (c_bin L LShr r (c_int L 64 32))) st5)))))"

text \<open>The complement of the condition in \<open>movcond\<close> is its negation.\<close>

definition gen_movcond :: "('v, 'm) llvm \<Rightarrow> tcg_context \<Rightarrow> (nat \<Rightarrow> nat) \<Rightarrow> ('v, 'm) tcg \<Rightarrow> ('v, 'm) tcg res" where
  "gen_movcond L cx args st =
     rbind (getValue L cx (args 1) st) (\<lambda>(a, st1). rbind (getValue L cx (args 2) st1) (\<lambda>(b, st2).
     rbind (generateCondition L (cond_of cx (args 5)) a b) (\<lambda>c.
     rbind (getValue L cx (args 3) st2) (\<lambda>(v1, st3). rbind (getValue L cx (args 4) st3) (\<lambda>(v2, st4).
       let t0 = c_ext L True 32 c; not_t0 = c_bin L Sub (c_int L 32 0) t0
       in setValue L cx (args 0) (c_bin L Or (c_bin L And v2 t0) (c_bin L And v1 not_t0)) st4)))))"

section \<open>A translation block\<close>

fun generate_op :: "('v, 'm) llvm \<Rightarrow> tcg_context \<Rightarrow> opcode \<Rightarrow> (nat \<Rightarrow> nat) \<Rightarrow> ('v, 'm) tcg \<Rightarrow> ('v, 'm) tcg res" where
  "generate_op L cx Op_debug_insn_start args st = Inr st"
| "generate_op L cx Op_nop args st = Inr st"
| "generate_op L cx Op_nopn args st = Inr st"
| "generate_op L cx Op_discard args st = Inr (delValue (args 0) st)"
| "generate_op L cx Op_call args st = gen_call L cx args st"
| "generate_op L cx Op_br args st = startNewBasicBlock cx None (st\<lparr>terminated := Some (Br (args 0))\<rparr>)"
| "generate_op L cx (Op_brcond b) args st = gen_brcond L cx b args st"
| "generate_op L cx Op_set_label args st = startNewBasicBlock cx (Some (args 0)) st"
| "generate_op L cx (Op_movi b) args st = setValue L cx (args 0) (c_int L b (args 1)) st"
| "generate_op L cx (Op_mov b) args st = gen_mov L cx b args st"
| "generate_op L cx (Op_ext s t b) args st = gen_ext L cx s t b args st"
| "generate_op L cx (Op_ld s m b) args st = gen_ld L cx s m b args st"
| "generate_op L cx (Op_st m b) args st = gen_st L cx m b args st"
| "generate_op L cx (Op_arith p b) args st = gen_arith L cx p b args st"
| "generate_op L cx (Op_div2 s b) args st = gen_div2 L cx s b args st"
| "generate_op L cx (Op_rot l b) args st = gen_rot L cx l b args st"
| "generate_op L cx (Op_not b) args st = gen_const_op L cx Xor (2 ^ 64 - 1) b args st"
| "generate_op L cx (Op_neg b) args st = gen_const_op L cx Sub 0 b args st"
| "generate_op L cx (Op_bswap s b) args st = gen_bswap L cx s b args st"
| "generate_op L cx Op_qemu_st_i32 args st = gen_qemu_st L cx args st"
| "generate_op L cx Op_qemu_ld_i32 args st = gen_qemu_ld L cx args st"
| "generate_op L cx Op_qemu_i64 args st = tcg_abort"
| "generate_op L cx Op_exit_tb args st = Inr (st\<lparr>terminated := Some (Ret (c_int L WORD (args 0)))\<rparr>)"
| "generate_op L cx Op_goto_tb args st =
     Inr (if execute_llvm cx then st
          else st\<lparr>memory := c_store L (c_int L 8 (args 0)) (c_int L WORD (goto_tb_address cx)) (memory st)\<rparr>)"
| "generate_op L cx (Op_deposit b) args st = gen_deposit L cx b args st"
| "generate_op L cx Op_setcond_i32 args st = gen_setcond L cx args st"
| "generate_op L cx Op_add2_i32 args st = gen_add2 L cx args st"
| "generate_op L cx Op_movcond_i32 args st = gen_movcond L cx args st"
| "generate_op L cx Op_end args st = tcg_abort"
| "generate_op L cx Op_unknown args st = tcg_abort"

definition nb_args :: "tcg_context \<Rightarrow> opcode \<Rightarrow> (nat \<Rightarrow> nat) \<Rightarrow> nat" where
  "nb_args cx opc args = (case opc of
      Op_nopn \<Rightarrow> args 0
    | Op_call \<Rightarrow> args 0 div 2 ^ 16 + args 0 mod 2 ^ 16 + nb_cargs_of cx opc + 1
    | _ \<Rightarrow> nb_args_of cx opc)"

definition generateOperation ::
  "('v, 'm) llvm \<Rightarrow> tcg_context \<Rightarrow> opcode \<Rightarrow> (nat \<Rightarrow> nat) \<Rightarrow> ('v, 'm) tcg \<Rightarrow> (nat \<times> ('v, 'm) tcg) res" where
  "generateOperation L cx opc args st =
     rbind (generate_op L cx opc args st) (\<lambda>st1. Inr (nb_args cx opc args, st1))"

text \<open>The loop over \<open>gen_opc_buf\<close>, which stops at the end marker, and the function around it: a function
  that does not end in a return returns 0; the caches and the labels are emptied.\<close>

fun generate_ops :: "('v, 'm) llvm \<Rightarrow> tcg_context \<Rightarrow> opcode list \<Rightarrow> (nat \<Rightarrow> nat) \<Rightarrow> ('v, 'm) tcg \<Rightarrow> ('v, 'm) tcg res" where
  "generate_ops L cx [] args st = Inl Undefined_Behaviour"
| "generate_ops L cx (opc # opcs) args st =
     (if opc = Op_end then Inr st
      else rbind (generateOperation L cx opc args st) (\<lambda>(n, st1). generate_ops L cx opcs (\<lambda>i. args (n + i)) st1))"

definition fresh_function :: "('v, 'm) tcg \<Rightarrow> ('v, 'm) tcg" where
  "fresh_function st = st\<lparr>blocks := [], terminated := None\<rparr>"

definition generateCode :: "('v, 'm) llvm \<Rightarrow> tcg_context \<Rightarrow> opcode list \<Rightarrow> (nat \<Rightarrow> nat) \<Rightarrow> ('v, 'm) tcg \<Rightarrow> ('v, 'm) tcg res" where
  "generateCode L cx opcs args st =
     rbind (initGlobalsAndLocalTemps L cx (fresh_function st)) (\<lambda>st1.
     rbind (generate_ops L cx opcs args st1) (\<lambda>st2.
       let t = (case terminated st2 of Some (Ret v) \<Rightarrow> Ret v | _ \<Rightarrow> Ret (c_int L WORD 0))
       in Inr (st2\<lparr>m_values := (\<lambda>i. None), m_memValuesPtr := (\<lambda>i. None), placed := {},
              blocks := blocks st2 @ [t], terminated := None\<rparr>)))"

text \<open>The data that a translation block of QEMU points to; \<open>jit\<close> is the address and size of the native
  code of the function, which is not made as \<open>execute_llvm\<close> is the constant false.\<close>

record 'v plugin_data =
  has_context :: bool
  llvm_function :: "'v terminator list option"
  llvm_tc_ptr :: nat
  llvm_tc_end :: nat

definition generateCode_tb ::
  "('v, 'm) llvm \<Rightarrow> tcg_context \<Rightarrow> nat \<times> nat \<Rightarrow> opcode list \<Rightarrow> (nat \<Rightarrow> nat) \<Rightarrow> 'v plugin_data option \<Rightarrow> ('v, 'm) tcg
    \<Rightarrow> ('v plugin_data \<times> ('v, 'm) tcg) res" where
  "generateCode_tb L cx jit opcs args tb st =
     rbind (assert_that (tb = None)) (\<lambda>_.
     rbind (generateCode L cx opcs args st) (\<lambda>st'.
       let (p, n) = (if execute_llvm cx then jit else (0, 0))
       in Inr (\<lparr>has_context = True, llvm_function = Some (blocks st'), llvm_tc_ptr = p, llvm_tc_end = p + n\<rparr>, st')))"

definition tcg_llvm_tb_alloc :: "'v plugin_data option \<Rightarrow> 'v plugin_data option res" where
  "tcg_llvm_tb_alloc tb = (case tb of None \<Rightarrow> Inl Assertion_Failed
     | Some d \<Rightarrow> Inr (Some (d\<lparr>has_context := False, llvm_function := None\<rparr>)))"

text \<open>Releasing a block erases its function from the module, whose functions are numbered; the block
  keeps its pointer.\<close>

definition tcg_llvm_tb_free :: "'v plugin_data option \<Rightarrow> nat \<Rightarrow> nat set \<Rightarrow> nat set res" where
  "tcg_llvm_tb_free tb f module = (case tb of None \<Rightarrow> Inl Assertion_Failed
     | Some d \<Rightarrow> Inr (if llvm_function d = None then module else module - {f}))"

end
