(* ===== verification/Tcg_Refinement.thy ===== *)
theory Tcg_Refinement
  imports Tcg_Llvm "HOL-Library.Signed_Division"
begin

text \<open>
  The code generated for the arithmetic operations of TCG against their meaning: a reference
  interpreter over the values of the temporaries, the documented meaning of LLVM's instructions, and
  the refinement of the interpreter by the caches of \<open>tcg-llvm.cpp\<close>.
\<close>

section \<open>The meaning of the operations\<close>

definition sval :: "nat \<Rightarrow> nat \<Rightarrow> int" where
  "sval n x = signed_take_bit (n - 1) (int x)"

definition uval :: "nat \<Rightarrow> int \<Rightarrow> nat" where
  "uval n k = nat (take_bit n k)"

text \<open>Shifts by the width or more, divisions by zero and the overflow of the signed division have no
  meaning, in TCG as in LLVM.\<close>

fun alu :: "binop \<Rightarrow> nat \<Rightarrow> nat \<Rightarrow> nat \<Rightarrow> nat option" where
  "alu Add n a b = Some ((a + b) mod 2 ^ n)"
| "alu Sub n a b = Some ((a + (2 ^ n - b)) mod 2 ^ n)"
| "alu Mul n a b = Some (a * b mod 2 ^ n)"
| "alu UDiv n a b = (if b = 0 then None else Some (a div b))"
| "alu URem n a b = (if b = 0 then None else Some (a mod b))"
| "alu SDiv n a b = (if b = 0 \<or> (sval n a = - (2 ^ (n - 1)) \<and> sval n b = -1) then None else Some (uval n (sval n a sdiv sval n b)))"
| "alu SRem n a b = (if b = 0 \<or> (sval n a = - (2 ^ (n - 1)) \<and> sval n b = -1) then None else Some (uval n (sval n a smod sval n b)))"
| "alu And n a b = Some (a AND b)"
| "alu Or n a b = Some (a OR b)"
| "alu Xor n a b = Some (a XOR b)"
| "alu Shl n a b = (if b < n then Some (a * 2 ^ b mod 2 ^ n) else None)"
| "alu LShr n a b = (if b < n then Some (a div 2 ^ b) else None)"
| "alu AShr n a b = (if b < n then Some (uval n (sval n a div 2 ^ b)) else None)"

text \<open>The temporaries with a value, by index. The registers of the host, which are the bases of the
  other globals, are only read.\<close>

type_synonym store = "nat \<Rightarrow> nat option"

definition bits_of :: "tcg_context \<Rightarrow> nat \<Rightarrow> nat" where
  "bits_of cx i = t_bits (temps cx ! i)"

definition rd :: "tcg_context \<Rightarrow> store \<Rightarrow> nat \<Rightarrow> nat \<Rightarrow> nat option" where
  "rd cx T b i = (if bits_of cx i = b then T i else None)"

definition rd32 :: "tcg_context \<Rightarrow> store \<Rightarrow> nat \<Rightarrow> nat \<Rightarrow> nat option" where
  "rd32 cx T b i = (if bits_of cx i = b then T i
     else if b = 32 \<and> bits_of cx i = 64 then map_option (\<lambda>x. x mod 2 ^ 32) (T i) else None)"

definition wr :: "tcg_context \<Rightarrow> nat \<Rightarrow> nat \<Rightarrow> nat \<Rightarrow> store \<Rightarrow> store option" where
  "wr cx b i x T = (if i < length (temps cx) \<and> bits_of cx i = b \<and> \<not> (i < nb_globals cx \<and> fixed_reg (temps cx ! i))
     then Some (T(i \<mapsto> x)) else None)"

definition rot_of :: "bool \<Rightarrow> nat \<Rightarrow> nat \<Rightarrow> nat \<Rightarrow> nat" where
  "rot_of left n x k = (if left then x * 2 ^ k mod 2 ^ n + x div 2 ^ (n - k) else x div 2 ^ k + x * 2 ^ (n - k) mod 2 ^ n)"

definition deposit_of :: "nat \<Rightarrow> nat \<Rightarrow> nat \<Rightarrow> nat \<Rightarrow> nat" where
  "deposit_of x y ofs len = x div 2 ^ (ofs + len) * 2 ^ (ofs + len) + y mod 2 ^ len * 2 ^ ofs + x mod 2 ^ ofs"

text \<open>The operations on temporaries; the others have no meaning here.\<close>

fun tcg_step :: "tcg_context \<Rightarrow> opcode \<Rightarrow> (nat \<Rightarrow> nat) \<Rightarrow> store \<Rightarrow> store option" where
  "tcg_step cx Op_debug_insn_start args T = Some T"
| "tcg_step cx Op_nop args T = Some T"
| "tcg_step cx Op_nopn args T = Some T"
| "tcg_step cx Op_discard args T =
     (if args 0 < nb_globals cx \<and> fixed_reg (temps cx ! args 0) then None else Some (T(args 0 := None)))"
| "tcg_step cx (Op_movi b) args T = wr cx b (args 0) (args 1 mod 2 ^ b) T"
| "tcg_step cx (Op_mov b) args T = Option.bind (rd32 cx T b (args 1)) (\<lambda>x. wr cx b (args 0) x T)"
| "tcg_step cx (Op_ext sx m b) args T =
     (if m \<le> bits_of cx (args 1) \<and> 0 < m \<and> m \<le> b then Option.bind (T (args 1)) (\<lambda>x.
        wr cx b (args 0) (if sx then uval b (sval m (x mod 2 ^ m)) else x mod 2 ^ m) T) else None)"
| "tcg_step cx (Op_arith p b) args T =
     Option.bind (rd32 cx T b (args 1)) (\<lambda>x. Option.bind (rd32 cx T b (args 2)) (\<lambda>y.
       Option.bind (alu p b x y) (\<lambda>z. wr cx b (args 0) z T)))"
| "tcg_step cx (Op_rot l b) args T =
     Option.bind (rd cx T b (args 1)) (\<lambda>x. Option.bind (rd cx T b (args 2)) (\<lambda>k.
       if 0 < k \<and> k < b then wr cx b (args 0) (rot_of l b x k) T else None))"
| "tcg_step cx (Op_not b) args T = Option.bind (rd cx T b (args 1)) (\<lambda>x. wr cx b (args 0) (2 ^ b - 1 - x) T)"
| "tcg_step cx (Op_neg b) args T = Option.bind (rd cx T b (args 1)) (\<lambda>x. wr cx b (args 0) ((2 ^ b - x) mod 2 ^ b) T)"
| "tcg_step cx (Op_deposit b) args T =
     Option.bind (rd cx T b (args 1)) (\<lambda>x. Option.bind (rd32 cx T b (args 2)) (\<lambda>y.
       if args 4 < 32 \<and> args 3 + args 4 \<le> b \<and> args 3 < b then wr cx b (args 0) (deposit_of x y (args 3) (args 4)) T else None))"
| "tcg_step cx Op_add2_i32 args T =
     Option.bind (rd cx T 32 (args 2)) (\<lambda>al. Option.bind (rd cx T 32 (args 3)) (\<lambda>ah.
     Option.bind (rd cx T 32 (args 4)) (\<lambda>bl. Option.bind (rd cx T 32 (args 5)) (\<lambda>bh.
       let r = (ah * 2 ^ 32 + al + (bh * 2 ^ 32 + bl)) mod 2 ^ 64 in
       Option.bind (wr cx 32 (args 0) (r mod 2 ^ 32) T) (\<lambda>T1. wr cx 32 (args 1) (r div 2 ^ 32) T1)))))"
| "tcg_step cx opc args T = None"

fun tcg_run :: "tcg_context \<Rightarrow> opcode list \<Rightarrow> (nat \<Rightarrow> nat) \<Rightarrow> store \<Rightarrow> store option" where
  "tcg_run cx [] args T = None"
| "tcg_run cx (opc # opcs) args T =
     (if opc = Op_end then Some T
      else Option.bind (tcg_step cx opc args T) (\<lambda>T1. tcg_run cx opcs (\<lambda>i. args (nb_args cx opc args + i)) T1))"

section \<open>The meaning of the instructions\<close>

text \<open>The documented meaning of LLVM's instructions: a value has a width and a content, and is determined
  by them; a load of the width of the last store to the same address returns what was stored, and a
  store elsewhere does not change it.\<close>

definition value_laws :: "('v, 'm) llvm \<Rightarrow> ('v \<Rightarrow> nat) \<Rightarrow> bool" where
  "value_laws L val \<longleftrightarrow> (\<forall>v. val v < 2 ^ v_bits L v) \<and>
     (\<forall>v w. v_bits L v = v_bits L w \<longrightarrow> val v = val w \<longrightarrow> v = w) \<and>
     (\<forall>n k. 0 < n \<longrightarrow> v_bits L (c_int L n k) = n \<and> val (c_int L n k) = k mod 2 ^ n)"

definition binop_law :: "('v, 'm) llvm \<Rightarrow> ('v \<Rightarrow> nat) \<Rightarrow> bool" where
  "binop_law L val \<longleftrightarrow> (\<forall>p a b x. v_bits L b = v_bits L a \<longrightarrow> alu p (v_bits L a) (val a) (val b) = Some x \<longrightarrow>
     v_bits L (c_bin L p a b) = v_bits L a \<and> val (c_bin L p a b) = x)"

definition cast_laws :: "('v, 'm) llvm \<Rightarrow> ('v \<Rightarrow> nat) \<Rightarrow> bool" where
  "cast_laws L val \<longleftrightarrow>
     (\<forall>n v. 0 < n \<longrightarrow> n \<le> v_bits L v \<longrightarrow> v_bits L (c_trunc L n v) = n \<and> val (c_trunc L n v) = val v mod 2 ^ n) \<and>
     (\<forall>sx n v. v_bits L v \<le> n \<longrightarrow> v_bits L (c_ext L sx n v) = n \<and>
        val (c_ext L sx n v) = (if sx then uval n (sval (v_bits L v) (val v)) else val v))"

fun icmp_holds :: "icmp \<Rightarrow> nat \<Rightarrow> nat \<Rightarrow> nat \<Rightarrow> bool" where
  "icmp_holds ICmpEQ n a b \<longleftrightarrow> a = b"
| "icmp_holds ICmpNE n a b \<longleftrightarrow> a \<noteq> b"
| "icmp_holds ICmpSLT n a b \<longleftrightarrow> sval n a < sval n b"
| "icmp_holds ICmpSGE n a b \<longleftrightarrow> sval n a \<ge> sval n b"
| "icmp_holds ICmpSLE n a b \<longleftrightarrow> sval n a \<le> sval n b"
| "icmp_holds ICmpSGT n a b \<longleftrightarrow> sval n a > sval n b"
| "icmp_holds ICmpULT n a b \<longleftrightarrow> a < b"
| "icmp_holds ICmpUGE n a b \<longleftrightarrow> a \<ge> b"
| "icmp_holds ICmpULE n a b \<longleftrightarrow> a \<le> b"
| "icmp_holds ICmpUGT n a b \<longleftrightarrow> a > b"

definition icmp_law :: "('v, 'm) llvm \<Rightarrow> ('v \<Rightarrow> nat) \<Rightarrow> bool" where
  "icmp_law L val \<longleftrightarrow> (\<forall>p a b. v_bits L b = v_bits L a \<longrightarrow> v_bits L (c_icmp L p a b) = 1 \<and>
     val (c_icmp L p a b) = of_bool (icmp_holds p (v_bits L a) (val a) (val b)))"

definition memory_laws :: "('v, 'm) llvm \<Rightarrow> ('v \<Rightarrow> nat) \<Rightarrow> bool" where
  "memory_laws L val \<longleftrightarrow> (\<forall>n p m. v_bits L (c_load L n p m) = n) \<and>
     (\<forall>v p m. 8 dvd v_bits L v \<longrightarrow> c_load L (v_bits L v) p (c_store L v p m) = v) \<and>
     (\<forall>v p q m n. 8 dvd n \<longrightarrow> 8 dvd v_bits L v \<longrightarrow>
        val q + n div 8 \<le> val p \<or> val p + v_bits L v div 8 \<le> val q \<longrightarrow>
        c_load L n q (c_store L v p m) = c_load L n q m)"

definition llvm_laws :: "('v, 'm) llvm \<Rightarrow> ('v \<Rightarrow> nat) \<Rightarrow> bool" where
  "llvm_laws L val \<longleftrightarrow> value_laws L val \<and> binop_law L val \<and> icmp_law L val \<and> cast_laws L val \<and> memory_laws L val"

lemma val_less: "llvm_laws L val \<Longrightarrow> val v < 2 ^ v_bits L v"
  by (simp add: llvm_laws_def value_laws_def)

lemma value_eq: "llvm_laws L val \<Longrightarrow> v_bits L v = v_bits L w \<Longrightarrow> val v = val w \<Longrightarrow> v = w"
  by (simp add: llvm_laws_def value_laws_def)

lemma int_sem: "llvm_laws L val \<Longrightarrow> 0 < n \<Longrightarrow> v_bits L (c_int L n k) = n \<and> val (c_int L n k) = k mod 2 ^ n"
  by (simp add: llvm_laws_def value_laws_def)

lemma bin_sem:
  assumes "llvm_laws L val" "v_bits L a = n" "v_bits L b = n" "alu p n (val a) (val b) = Some x"
  shows "v_bits L (c_bin L p a b) = n \<and> val (c_bin L p a b) = x"
  using assms by (simp add: llvm_laws_def binop_law_def)

lemma icmp_sem:
  "llvm_laws L val \<Longrightarrow> v_bits L a = n \<Longrightarrow> v_bits L b = n \<Longrightarrow> v_bits L (c_icmp L p a b) = 1 \<and>
     val (c_icmp L p a b) = of_bool (icmp_holds p n (val a) (val b))"
  by (simp add: llvm_laws_def icmp_law_def)

lemma trunc_sem:
  "llvm_laws L val \<Longrightarrow> 0 < n \<Longrightarrow> n \<le> v_bits L v \<Longrightarrow> v_bits L (c_trunc L n v) = n \<and> val (c_trunc L n v) = val v mod 2 ^ n"
  by (simp add: llvm_laws_def cast_laws_def)

lemma ext_sem:
  "llvm_laws L val \<Longrightarrow> v_bits L v \<le> n \<Longrightarrow> v_bits L (c_ext L sx n v) = n \<and>
     val (c_ext L sx n v) = (if sx then uval n (sval (v_bits L v) (val v)) else val v)"
  by (simp add: llvm_laws_def cast_laws_def)

lemma load_bits: "llvm_laws L val \<Longrightarrow> v_bits L (c_load L n p m) = n"
  by (simp add: llvm_laws_def memory_laws_def)

lemma load_store: "llvm_laws L val \<Longrightarrow> 8 dvd v_bits L v \<Longrightarrow> c_load L (v_bits L v) p (c_store L v p m) = v"
  by (simp add: llvm_laws_def memory_laws_def)

lemma load_store_other:
  assumes "llvm_laws L val" "8 dvd n" "8 dvd v_bits L v"
    "val q + n div 8 \<le> val p \<or> val p + v_bits L v div 8 \<le> val q"
  shows "c_load L n q (c_store L v p m) = c_load L n q m"
  using assms unfolding llvm_laws_def memory_laws_def by blast

section \<open>Bits of natural numbers\<close>

lemma nat_complement:
  fixes m :: nat assumes "m < 2 ^ b" shows "2 ^ b - 1 - m = mask b XOR m"
proof -
  have m: "take_bit b m = m" using assms by (simp add: take_bit_nat_eq_self)
  have "m AND (mask b XOR m) = 0"
    by (subst (1 2) m [symmetric], rule bit_eqI) (auto simp: bit_simps)
  from disjunctive_add_eq_or [OF this] have "m + (mask b XOR m) = m OR (mask b XOR m)" .
  also have "\<dots> = mask b"
    by (subst (1 2) m [symmetric], rule bit_eqI) (auto simp: bit_simps)
  finally show ?thesis by (simp add: mask_eq_exp_minus_1)
qed

lemma deposit_bits:
  fixes x y :: nat
  assumes x: "x < 2 ^ b" and l: "ofs + len \<le> b"
  shows "(x AND (2 ^ b - 1 - ((2 ^ len - 1) * 2 ^ ofs) mod 2 ^ b)) OR ((y AND (2 ^ len - 1)) * 2 ^ ofs)
    = x div 2 ^ (ofs + len) * 2 ^ (ofs + len) + y mod 2 ^ len * 2 ^ ofs + x mod 2 ^ ofs"
proof -
  have fm: "push_bit ofs (mask len :: nat) < 2 ^ b"
  proof -
    have "take_bit b (push_bit ofs (mask len :: nat)) = push_bit ofs (mask len)"
      using l by (intro bit_eqI) (auto simp: bit_simps)
    then show ?thesis by (simp add: take_bit_nat_eq_self_iff)
  qed
  have t: "take_bit b x = x" using x by (simp add: take_bit_nat_eq_self)
  have xb: "n < b" if "bit x n" for n
    using that t by (metis bit_take_bit_iff)
  have "push_bit (ofs + len) (drop_bit (ofs + len) x) AND push_bit ofs (take_bit len y) = 0"
    by (rule bit_eqI) (auto simp: bit_simps)
  note 1 = disjunctive_add_eq_or [OF this]
  have "(push_bit (ofs + len) (drop_bit (ofs + len) x) OR push_bit ofs (take_bit len y)) AND take_bit ofs x = 0"
    by (rule bit_eqI) (auto simp: bit_simps)
  note 2 = disjunctive_add_eq_or [OF this]
  have "(x AND (mask b XOR push_bit ofs (mask len))) OR push_bit ofs (y AND mask len) =
    push_bit (ofs + len) (drop_bit (ofs + len) x) OR push_bit ofs (take_bit len y) OR take_bit ofs x"
    using xb by (intro bit_eqI) (auto simp: bit_simps)
  then show ?thesis
    using nat_complement [OF fm] 1 2 fm
    by (simp add: push_bit_eq_mult drop_bit_eq_div take_bit_eq_mod mask_eq_exp_minus_1 or.assoc)
qed

lemma deposit_high:
  fixes y :: nat
  assumes "ofs + len = b"
  shows "y * 2 ^ ofs mod 2 ^ b = (y AND (2 ^ len - 1)) * 2 ^ ofs"
proof -
  have "y * 2 ^ ofs mod (2 ^ len * 2 ^ ofs) = (y mod 2 ^ len) * 2 ^ ofs"
    by (rule mult_mod_left [symmetric])
  moreover have "(2::nat) ^ b = 2 ^ len * 2 ^ ofs"
    using assms by (simp add: power_add flip: assms)
  moreover have "y mod 2 ^ len = (y AND (2 ^ len - 1))"
    by (simp only: take_bit_eq_mask flip: take_bit_eq_mod mask_eq_exp_minus_1)
  ultimately show ?thesis by simp
qed

lemma rot_bits:
  fixes x :: nat
  assumes "0 < k" "k < b" "x < 2 ^ b"
  shows "(x * 2 ^ k mod 2 ^ b) OR (x div 2 ^ (b - k)) = x * 2 ^ k mod 2 ^ b + x div 2 ^ (b - k)"
    "(x div 2 ^ k) OR (x * 2 ^ (b - k) mod 2 ^ b) = x div 2 ^ k + x * 2 ^ (b - k) mod 2 ^ b"
proof -
  have g: "(x * 2 ^ j mod 2 ^ b) OR (x div 2 ^ (b - j)) = x * 2 ^ j mod 2 ^ b + x div 2 ^ (b - j)" if "j < b" for j
  proof -
    have "x div 2 ^ (b - j) < 2 ^ j"
      using assms(3) that by (simp add: less_mult_imp_div_less flip: power_add)
    moreover have "x * 2 ^ j mod 2 ^ b = (x mod 2 ^ (b - j)) * 2 ^ j"
      using that by (simp add: mult_mod_right mult.commute flip: power_add)
    ultimately show ?thesis using or_high by simp
  qed
  show "(x * 2 ^ k mod 2 ^ b) OR (x div 2 ^ (b - k)) = x * 2 ^ k mod 2 ^ b + x div 2 ^ (b - k)"
    using g [of k] assms by simp
  show "(x div 2 ^ k) OR (x * 2 ^ (b - k) mod 2 ^ b) = x div 2 ^ k + x * 2 ^ (b - k) mod 2 ^ b"
    using g [of "b - k"] assms by (simp add: or.commute)
qed

section \<open>Caches and memory\<close>

text \<open>\<open>A\<close> are the addresses of the globals and of the local temporaries. A host register is an argument of
  the function; another global is at an offset from the value of its host register.\<close>

definition saved :: "tcg_context \<Rightarrow> nat \<Rightarrow> bool" where
  "saved cx i \<longleftrightarrow> i < nb_globals cx \<or> (i < length (temps cx) \<and> temp_local (temps cx ! i))"

definition base_reg :: "tcg_context \<Rightarrow> nat \<Rightarrow> bool" where
  "base_reg cx i \<longleftrightarrow> i < nb_globals cx \<and> fixed_reg (temps cx ! i)"

definition slots_ok :: "tcg_context \<Rightarrow> ('v \<Rightarrow> nat) \<Rightarrow> (nat \<Rightarrow> 'v) \<Rightarrow> bool" where
  "slots_ok cx val A \<longleftrightarrow> nb_globals cx \<le> length (temps cx) \<and>
     (\<forall>i<length (temps cx). bits_of cx i = 32 \<or> bits_of cx i = 64) \<and>
     (\<forall>i j. saved cx i \<longrightarrow> saved cx j \<longrightarrow> i \<noteq> j \<longrightarrow>
        val (A i) + bits_of cx i div 8 \<le> val (A j) \<or> val (A j) + bits_of cx j div 8 \<le> val (A i))"

definition addressed :: "('v, 'm) llvm \<Rightarrow> tcg_context \<Rightarrow> ('v \<Rightarrow> nat) \<Rightarrow> (nat \<Rightarrow> 'v) \<Rightarrow> (nat \<Rightarrow> nat) \<Rightarrow> store \<Rightarrow> bool" where
  "addressed L cx val A gi T \<longleftrightarrow> (\<forall>i<nb_globals cx.
     if fixed_reg (temps cx ! i) then A i = c_arg L (gi i)
     else base_reg cx (gi i) \<and> bits_of cx (gi i) = WORD \<and>
       (\<exists>b. v_bits L b = WORD \<and> T (gi i) = Some (val b) \<and> A i = c_bin L Add b (c_int L WORD (mem_offset (temps cx ! i)))))"

definition holds :: "('v, 'm) llvm \<Rightarrow> tcg_context \<Rightarrow> ('v \<Rightarrow> nat) \<Rightarrow> nat \<Rightarrow> nat \<Rightarrow> 'v \<Rightarrow> bool" where
  "holds L cx val i x v \<longleftrightarrow> v_bits L v = bits_of cx i \<and> val v = x"

definition agree :: "('v, 'm) llvm \<Rightarrow> tcg_context \<Rightarrow> ('v \<Rightarrow> nat) \<Rightarrow> (nat \<Rightarrow> 'v) \<Rightarrow> ('v, 'm) tcg \<Rightarrow> store \<Rightarrow> bool" where
  "agree L cx val A st T \<longleftrightarrow> slots_ok cx val A \<and> addressed L cx val A (m_globalsIdx st) T \<and>
     (\<forall>i. saved cx i \<longrightarrow> m_memValuesPtr st i = Some (A i) \<or> (i < nb_globals cx \<and> m_memValuesPtr st i = None)) \<and>
     (\<forall>i x. T i = Some x \<longrightarrow> i < length (temps cx) \<and> (m_values st i \<noteq> None \<or> saved cx i)) \<and>
     (\<forall>i x v. T i = Some x \<longrightarrow> m_values st i = Some v \<longrightarrow> holds L cx val i x v) \<and>
     (\<forall>i x. T i = Some x \<longrightarrow> saved cx i \<longrightarrow> holds L cx val i x (c_load L (bits_of cx i) (A i) (memory st)))"

lemma agreeD:
  assumes "agree L cx val A st T"
  shows "slots_ok cx val A" "addressed L cx val A (m_globalsIdx st) T"
    "saved cx i \<Longrightarrow> m_memValuesPtr st i = Some (A i) \<or> (i < nb_globals cx \<and> m_memValuesPtr st i = None)"
    "T i = Some x \<Longrightarrow> i < length (temps cx) \<and> (m_values st i \<noteq> None \<or> saved cx i)"
    "T i = Some x \<Longrightarrow> m_values st i = Some v \<Longrightarrow> holds L cx val i x v"
    "T i = Some x \<Longrightarrow> saved cx i \<Longrightarrow> holds L cx val i x (c_load L (bits_of cx i) (A i) (memory st))"
  using assms by (simp_all add: agree_def)

lemma addressedD:
  assumes "addressed L cx val A gi T" "i < nb_globals cx" "\<not> fixed_reg (temps cx ! i)"
  shows "base_reg cx (gi i)" "bits_of cx (gi i) = WORD"
    "\<exists>b. v_bits L b = WORD \<and> T (gi i) = Some (val b) \<and> A i = c_bin L Add b (c_int L WORD (mem_offset (temps cx ! i)))"
  using assms by (simp_all add: addressed_def)

text \<open>What the readers of the caches may change: entries that were empty.\<close>

definition extends :: "('v, 'm) tcg \<Rightarrow> ('v, 'm) tcg \<Rightarrow> bool" where
  "extends st st' \<longleftrightarrow> memory st' = memory st \<and> m_globalsIdx st' = m_globalsIdx st \<and> terminated st' = terminated st
     \<and> blocks st' = blocks st \<and> placed st' = placed st \<and> (\<forall>i v. m_values st i = Some v \<longrightarrow> m_values st' i = Some v)"

lemma extends_refl [simp]: "extends st st"
  by (simp add: extends_def)

lemma extends_trans: "extends a b \<Longrightarrow> extends b c \<Longrightarrow> extends a c"
  by (simp add: extends_def)

lemma agree_set_ptr:
  assumes "agree L cx val A st T" "st' = st\<lparr>m_memValuesPtr := (m_memValuesPtr st)(i := Some (A i))\<rparr>"
  shows "agree L cx val A st' T"
  using assms unfolding agree_def by simp

lemma agree_set_value:
  assumes "agree L cx val A st T" "st' = st\<lparr>m_values := (m_values st)(i := Some v)\<rparr>" "T i = Some x" "holds L cx val i x v"
  shows "agree L cx val A st' T"
  using assms unfolding agree_def by simp

lemma saved_in_range: "slots_ok cx val A \<Longrightarrow> saved cx i \<Longrightarrow> i < length (temps cx)"
  by (auto simp: slots_ok_def saved_def)

lemma temp_of_ok [simp]: "i < length (temps cx) \<Longrightarrow> temp_of cx i = Inr (temps cx ! i)"
  by (simp add: temp_of_def)

text \<open>The recursion goes from a global to its host register and no further.\<close>

lemma base_ptr:
  assumes a: "agree L cx val A st T" and b: "base_reg cx i"
  shows "\<exists>st'. getPtrForValue_n L cx (Suc d) i st = Inr (A i, st') \<and> agree L cx val A st' T \<and> extends st st' \<and> m_values st' = m_values st"
proof -
  have r: "i < length (temps cx)" "i < nb_globals cx" "fixed_reg (temps cx ! i)" and s: "saved cx i"
    using a b by (auto simp: base_reg_def saved_def agree_def slots_ok_def)
  have "A i = c_arg L (m_globalsIdx st i)"
    using agreeD(2) [OF a] r by (auto simp: addressed_def)
  then show ?thesis
    using agreeD(3) [OF a s] r a agree_set_ptr [OF a refl, of i]
    by (cases "m_memValuesPtr st i") (simp_all add: extends_def Let_def)
qed

lemma value_of_base:
  assumes a: "agree L cx val A st T" and b: "base_reg cx i" and x: "T i = Some x"
  shows "\<exists>v st'. getValue_n L cx (Suc (Suc d)) i st = Inr (v, st') \<and> holds L cx val i x v \<and> agree L cx val A st' T \<and> extends st st'"
proof (cases "m_values st i")
  case (Some v)
  then show ?thesis
    using agreeD(4,5) [OF a x] a by simp
next
  case None
  have r: "i < length (temps cx)" "i < nb_globals cx" "saved cx i"
    using a b by (auto simp: base_reg_def saved_def agree_def slots_ok_def)
  obtain st1 where 1: "getPtrForValue_n L cx (Suc d) i st = Inr (A i, st1)" "agree L cx val A st1 T" "extends st st1"
      "m_values st1 = m_values st"
    using base_ptr [OF a b] by blast
  have h: "holds L cx val i x (c_load L (t_bits (temps cx ! i)) (A i) (memory st1))"
    using agreeD(6) [OF 1(2) x r(3)] by (simp add: bits_of_def)
  show ?thesis
    using agree_set_value [OF 1(2) refl x h] 1 r None h by (simp add: extends_def Let_def del: getPtrForValue_n.simps)
qed

lemma ptr_ok:
  assumes l: "llvm_laws L val" and a: "agree L cx val A st T" and s: "saved cx i"
  shows "\<exists>st'. getPtrForValue_n L cx (Suc (Suc (Suc d))) i st = Inr (A i, st') \<and> agree L cx val A st' T \<and> extends st st'"
proof (cases "base_reg cx i")
  case True
  then show ?thesis
    using base_ptr [OF a] by blast
next
  case nb: False
  have r: "i < length (temps cx)"
    using saved_in_range [OF agreeD(1) [OF a] s] .
  have sv: "i < nb_globals cx \<or> temp_local (temps cx ! i)"
    using s by (auto simp: saved_def)
  show ?thesis
  proof (cases "m_memValuesPtr st i")
    case (Some p)
    then show ?thesis
      using agreeD(3) [OF a s] r sv a by auto
  next
    case None
    then have g: "i < nb_globals cx" and f: "\<not> fixed_reg (temps cx ! i)"
      using agreeD(3) [OF a s] nb by (auto simp: base_reg_def)
    obtain b where b: "base_reg cx (m_globalsIdx st i)" "bits_of cx (m_globalsIdx st i) = WORD" "v_bits L b = WORD"
        "T (m_globalsIdx st i) = Some (val b)" "A i = c_bin L Add b (c_int L WORD (mem_offset (temps cx ! i)))"
      using addressedD [OF agreeD(2) [OF a] g f] that by blast
    obtain v st1 where v: "getValue_n L cx (Suc (Suc d)) (m_globalsIdx st i) st = Inr (v, st1)"
        "holds L cx val (m_globalsIdx st i) (val b) v" "agree L cx val A st1 T" "extends st st1"
      using value_of_base [OF a b(1,4)] by blast
    have "v = b"
      using v(2) b(2,3) by (intro value_eq [OF l]) (simp_all add: holds_def)
    then show ?thesis
      using v(1,3,4) agree_set_ptr [OF v(3) refl, of i] b(3,5) None g f r
      by (simp add: extends_def Let_def del: getValue_n.simps)
  qed
qed

lemma getPtr_ok:
  assumes "llvm_laws L val" "agree L cx val A st T" "saved cx i"
  obtains st' where "getPtrForValue L cx i st = Inr (A i, st')" "agree L cx val A st' T" "extends st st'"
  using ptr_ok [OF assms, of 1] unfolding getPtrForValue_def by (auto simp: numeral_eq_Suc)

lemma getValue_ok:
  assumes l: "llvm_laws L val" and a: "agree L cx val A st T" and x: "T i = Some x"
  obtains v st' where "getValue L cx i st = Inr (v, st')" "holds L cx val i x v" "agree L cx val A st' T" "extends st st'"
proof (cases "m_values st i")
  case (Some v)
  then show ?thesis
    using that [of v st] agreeD(4,5) [OF a x] a by (simp add: getValue_def numeral_eq_Suc)
next
  case None
  then have r: "i < length (temps cx)" "saved cx i"
    using agreeD(4) [OF a x] by auto
  obtain st1 where 1: "getPtrForValue_n L cx (Suc (Suc (Suc 0))) i st = Inr (A i, st1)" "agree L cx val A st1 T" "extends st st1"
    using ptr_ok [OF l a r(2)] by blast
  let ?v = "c_load L (t_bits (temps cx ! i)) (A i) (memory st1)"
  have h: "holds L cx val i x ?v"
    using agreeD(6) [OF 1(2) x r(2)] by (simp add: bits_of_def)
  have "getValue L cx i st = Inr (?v, st1\<lparr>m_values := (m_values st1)(i := Some ?v)\<rparr>)"
    using 1(1) None r by (simp add: getValue_def numeral_eq_Suc saved_def Let_def del: getPtrForValue_n.simps)
  moreover have "extends st (st1\<lparr>m_values := (m_values st1)(i := Some ?v)\<rparr>)"
    using 1(3) None by (simp add: extends_def)
  ultimately show ?thesis
    using that agree_set_value [OF 1(2) refl x h] h by blast
qed

text \<open>A write replaces the value of one temporary, and stores it when the temporary lives in memory.\<close>

lemma agree_forget:
  assumes "agree L cx val A st T" "\<not> base_reg cx i"
  shows "agree L cx val A st (T(i := None))" "agree L cx val A (st\<lparr>m_values := (m_values st)(i := w)\<rparr>) (T(i := None))"
proof -
  have "addressed L cx val A (m_globalsIdx st) (T(i := None))"
    using assms unfolding agree_def addressed_def by (metis fun_upd_other)
  then show "agree L cx val A st (T(i := None))" "agree L cx val A (st\<lparr>m_values := (m_values st)(i := w)\<rparr>) (T(i := None))"
    using assms(1) unfolding agree_def by auto
qed

lemma addressed_upd:
  assumes "addressed L cx val A gi (T(i := None))"
  shows "addressed L cx val A gi (T(i := y))"
  using assms unfolding addressed_def by (metis fun_upd_apply option.distinct(1))

lemma agree_define:
  assumes a: "agree L cx val A st (T(i := None))" and r: "i < length (temps cx)" "\<not> saved cx i"
    and v: "m_values st i = Some v" "holds L cx val i x v"
  shows "agree L cx val A st (T(i \<mapsto> x))"
  using a addressed_upd [of L cx val A "m_globalsIdx st" T i "Some x"] r v unfolding agree_def by (auto split: if_splits)

lemma slot_bits: "slots_ok cx val A \<Longrightarrow> i < length (temps cx) \<Longrightarrow> 8 dvd bits_of cx i"
  by (auto simp: slots_ok_def dest!: spec [of _ i])

lemma agree_store:
  assumes l: "llvm_laws L val" and a: "agree L cx val A st (T(i := None))" and s: "saved cx i"
    and v: "m_values st i = Some v" "holds L cx val i x v"
  shows "agree L cx val A (st\<lparr>memory := c_store L v (A i) (memory st)\<rparr>) (T(i \<mapsto> x))" (is "agree L cx val A ?st ?T")
proof -
  have sl: "slots_ok cx val A"
    using agreeD(1) [OF a] .
  have b: "v_bits L v = bits_of cx i" "8 dvd bits_of cx i"
    using v(2) slot_bits [OF sl saved_in_range [OF sl s]] by (simp_all add: holds_def)
  have m: "holds L cx val j y (c_load L (bits_of cx j) (A j) (c_store L v (A i) (memory st)))"
    if t: "?T j = Some y" "saved cx j" for j y
  proof (cases "j = i")
    case True
    then show ?thesis
      using t(1) v(2) load_store [OF l, of v "A i" "memory st"] b by simp
  next
    case False
    then have "c_load L (bits_of cx j) (A j) (c_store L v (A i) (memory st)) = c_load L (bits_of cx j) (A j) (memory st)"
      using sl s t(2) b slot_bits [OF sl saved_in_range [OF sl t(2)]]
      by (intro load_store_other [OF l]) (auto simp: slots_ok_def)
    then show ?thesis
      using agreeD(6) [OF a, of j y] t False by simp
  qed
  show ?thesis
    using a m addressed_upd [of L cx val A "m_globalsIdx st" T i "Some x"] v s saved_in_range [OF sl s]
    unfolding agree_def by (auto split: if_splits)
qed

lemma setValue_ok:
  assumes l: "llvm_laws L val" and a: "agree L cx val A st T" and r: "i < length (temps cx)" "\<not> base_reg cx i"
    and h: "holds L cx val i x v"
  obtains st' where "setValue L cx i v st = Inr st'" "agree L cx val A st' (T(i \<mapsto> x))"
proof -
  let ?s = "st\<lparr>m_values := (m_values st)(i := Some v)\<rparr>"
  have 1: "agree L cx val A ?s (T(i := None))"
    using agree_forget(2) [OF a r(2)] .
  have e: "(delValue i st)\<lparr>m_values := (m_values st)(i := Some v)\<rparr> = ?s"
    by (simp add: delValue_def)
  show ?thesis
  proof (cases "saved cx i")
    case False
    then have "setValue L cx i v st = Inr ?s"
      using r by (simp add: setValue_def saved_def e)
    then show ?thesis
      using that agree_define [OF 1 r(1) False, of v x] h by simp
  next
    case True
    obtain s2 where 2: "getPtrForValue L cx i ?s = Inr (A i, s2)" "agree L cx val A s2 (T(i := None))" "extends ?s s2"
      using getPtr_ok [OF l 1 True] .
    have "setValue L cx i v st = Inr (s2\<lparr>memory := c_store L v (A i) (memory s2)\<rparr>)"
      using True r 2(1) by (auto simp: setValue_def saved_def e base_reg_def Let_def)
    then show ?thesis
      using that agree_store [OF l 2(2) True _ h] 2(3) by (simp add: extends_def)
  qed
qed

section \<open>The operations\<close>

lemma wr_Some:
  "wr cx b i x T = Some T' \<longleftrightarrow> i < length (temps cx) \<and> bits_of cx i = b \<and> \<not> base_reg cx i \<and> T' = T(i \<mapsto> x)"
  by (auto simp: wr_def base_reg_def)

lemma write_ok:
  assumes "llvm_laws L val" "agree L cx val A st T" "wr cx b i x T = Some T'" "v_bits L v = b \<and> val v = x"
  shows "\<exists>st'. setValue L cx i v st = Inr st' \<and> agree L cx val A st' T'"
  using setValue_ok [OF assms(1,2), of i x v] assms(3,4) unfolding wr_Some holds_def by blast

lemma bits_32_64: "agree L cx val A st T \<Longrightarrow> T i = Some x \<Longrightarrow> bits_of cx i = 32 \<or> bits_of cx i = 64"
  unfolding agree_def slots_ok_def by blast

lemma read_ok:
  assumes "llvm_laws L val" "agree L cx val A st T" "rd cx T b i = Some x"
  obtains v st' where "getValue L cx i st = Inr (v, st')" "v_bits L v = b" "val v = x" "agree L cx val A st' T"
    "b = 32 \<or> b = 64" "x < 2 ^ b"
proof -
  have x: "T i = Some x" "bits_of cx i = b"
    using assms(3) by (auto simp: rd_def split: if_splits)
  then show ?thesis
    using getValue_ok [OF assms(1,2) x(1)] that bits_32_64 [OF assms(2) x(1)] val_less [OF assms(1)]
    unfolding holds_def by metis
qed

lemma rd32_Some:
  "rd32 cx T b i = Some x \<longleftrightarrow> (\<exists>y. T i = Some y \<and>
     ((bits_of cx i = b \<and> x = y) \<or> (bits_of cx i \<noteq> b \<and> b = 32 \<and> bits_of cx i = 64 \<and> x = y mod 2 ^ 32)))"
  by (auto simp: rd32_def split: if_splits)

lemma read32_ok:
  assumes l: "llvm_laws L val" and a: "agree L cx val A st T" and r: "rd32 cx T b i = Some x"
  obtains v v' st' where "getValue L cx i st = Inr (v, st')" "adjustTypeSize L b v = Inr v'" "v_bits L v' = b" "val v' = x"
    "agree L cx val A st' T" "b = 32 \<or> b = 64" "v_bits L v = b \<or> (b = 32 \<and> v_bits L v = 64)" "x = val v mod 2 ^ b"
proof -
  obtain y where y: "T i = Some y"
      "(bits_of cx i = b \<and> x = y) \<or> (bits_of cx i \<noteq> b \<and> b = 32 \<and> bits_of cx i = 64 \<and> x = y mod 2 ^ 32)"
    using r unfolding rd32_Some by blast
  obtain v st' where v: "getValue L cx i st = Inr (v, st')" "holds L cx val i y v" "agree L cx val A st' T"
    using getValue_ok [OF l a y(1)] by blast
  have b: "b = 32 \<or> b = 64" "val v < 2 ^ v_bits L v"
    using y(2) bits_32_64 [OF a y(1)] val_less [OF l] by auto
  show ?thesis
  proof (cases "bits_of cx i = b")
    case True
    then show ?thesis
      using that [of v st' v] v y(2) b by (auto simp: holds_def adjustTypeSize_def)
  next
    case False
    then show ?thesis
      using that [of v st' "c_trunc L 32 v"] v y(2) trunc_sem [OF l, of 32 v] by (auto simp: holds_def adjustTypeSize_def)
  qed
qed

lemma trunc_32:
  assumes "llvm_laws L val" "v_bits L v = 32 \<or> v_bits L v = 64"
  shows "v_bits L (c_trunc L 32 v) = 32 \<and> val (c_trunc L 32 v) = val v mod 2 ^ 32"
  using assms trunc_sem [OF assms(1), of 32 v] by auto

lemma mov_ok:
  assumes l: "llvm_laws L val" and a: "agree L cx val A st T" and s: "tcg_step cx (Op_mov b) args T = Some T'"
  shows "\<exists>st'. gen_mov L cx b args st = Inr st' \<and> agree L cx val A st' T'"
proof -
  obtain x where x: "rd32 cx T b (args 1) = Some x" "wr cx b (args 0) x T = Some T'"
    using s by (auto simp: bind_eq_Some_conv)
  obtain v v' st1 where v: "getValue L cx (args 1) st = Inr (v, st1)" "agree L cx val A st1 T" "b = 32 \<or> b = 64"
      "v_bits L v = b \<or> (b = 32 \<and> v_bits L v = 64)" "x = val v mod 2 ^ b"
    using read32_ok [OF l a x(1)] by metis
  show ?thesis
  proof (cases "b = 32")
    case True
    then show ?thesis
      using write_ok [OF l v(2) x(2), of "c_trunc L 32 v"] trunc_32 [OF l, of v] v by (auto simp: gen_mov_def)
  next
    case False
    then have "v_bits L v = b \<and> val v = x"
      using v(3-5) val_less [OF l, of v] by auto
    then show ?thesis
      using write_ok [OF l v(2) x(2), of v] v(1) False by (auto simp: gen_mov_def)
  qed
qed

lemma ext_ok:
  assumes l: "llvm_laws L val" and a: "agree L cx val A st T" and s: "tcg_step cx (Op_ext sx m b) args T = Some T'"
  shows "\<exists>st'. gen_ext L cx sx m b args st = Inr st' \<and> agree L cx val A st' T'"
proof -
  obtain x where m: "m \<le> bits_of cx (args 1)" "0 < m" "m \<le> b" and x: "T (args 1) = Some x"
      and w: "wr cx b (args 0) (if sx then uval b (sval m (x mod 2 ^ m)) else x mod 2 ^ m) T = Some T'"
    using s by (auto simp: bind_eq_Some_conv split: if_splits)
  obtain v st1 where v: "getValue L cx (args 1) st = Inr (v, st1)" "holds L cx val (args 1) x v" "agree L cx val A st1 T"
    using getValue_ok [OF l a x] by blast
  have "v_bits L (c_ext L sx b (c_trunc L m v)) = b \<and>
      val (c_ext L sx b (c_trunc L m v)) = (if sx then uval b (sval m (x mod 2 ^ m)) else x mod 2 ^ m)"
    using trunc_sem [OF l m(2), of v] ext_sem [OF l, of "c_trunc L m v" b sx] v(2) m by (simp add: holds_def)
  from write_ok [OF l v(3) w this] show ?thesis
    using v(1) by (simp add: gen_ext_def)
qed

lemma arith_ok:
  assumes l: "llvm_laws L val" and a: "agree L cx val A st T" and s: "tcg_step cx (Op_arith p b) args T = Some T'"
  shows "\<exists>st'. gen_arith L cx p b args st = Inr st' \<and> agree L cx val A st' T'"
proof -
  obtain x y z where x: "rd32 cx T b (args 1) = Some x" and y: "rd32 cx T b (args 2) = Some y"
      and z: "alu p b x y = Some z" and w: "wr cx b (args 0) z T = Some T'"
    using s by (auto simp: bind_eq_Some_conv)
  obtain v v' st1 where v: "getValue L cx (args 1) st = Inr (v, st1)" "adjustTypeSize L b v = Inr v'" "v_bits L v' = b" "val v' = x"
      "agree L cx val A st1 T"
    using read32_ok [OF l a x] by metis
  obtain u u' st2 where u: "getValue L cx (args 2) st1 = Inr (u, st2)" "adjustTypeSize L b u = Inr u'" "v_bits L u' = b" "val u' = y"
      "agree L cx val A st2 T"
    using read32_ok [OF l v(5) y] by metis
  have "v_bits L (c_bin L p v' u') = b \<and> val (c_bin L p v' u') = z"
    using bin_sem [OF l v(3) u(3), of p z] v(4) u(4) z by simp
  from write_ok [OF l u(5) w this] show ?thesis
    using v(1-3) u(1-3) by (simp add: gen_arith_def)
qed

lemma const_op_ok:
  assumes l: "llvm_laws L val" and a: "agree L cx val A st T" and r: "rd cx T b (args 1) = Some x"
    and z: "alu p b (c mod 2 ^ b) x = Some z" and w: "wr cx b (args 0) z T = Some T'"
  shows "\<exists>st'. gen_const_op L cx p c b args st = Inr st' \<and> agree L cx val A st' T'"
proof -
  obtain v st1 where v: "getValue L cx (args 1) st = Inr (v, st1)" "v_bits L v = b" "val v = x" "agree L cx val A st1 T"
      "b = 32 \<or> b = 64"
    using read_ok [OF l a r] by metis
  have c: "v_bits L (c_int L b c) = b \<and> val (c_int L b c) = c mod 2 ^ b"
    using int_sem [OF l, of b c] v(5) by auto
  have "v_bits L (c_bin L p (c_int L b c) v) = b \<and> val (c_bin L p (c_int L b c) v) = z"
    using bin_sem [OF l _ v(2), of "c_int L b c" p z] c v(3) z by simp
  from write_ok [OF l v(4) w this] show ?thesis
    using v(1,2) by (simp add: gen_const_op_def)
qed

lemma not_ok:
  assumes l: "llvm_laws L val" and a: "agree L cx val A st T" and s: "tcg_step cx (Op_not b) args T = Some T'"
  shows "\<exists>st'. gen_const_op L cx Xor (2 ^ 64 - 1) b args st = Inr st' \<and> agree L cx val A st' T'"
proof -
  obtain x where x: "rd cx T b (args 1) = Some x" "wr cx b (args 0) (2 ^ b - 1 - x) T = Some T'"
    using s by (auto simp: bind_eq_Some_conv)
  obtain v st1 where "b = 32 \<or> b = 64" "x < 2 ^ b"
    using read_ok [OF l a x(1)] by metis
  then have "alu Xor b ((2 ^ 64 - 1) mod 2 ^ b) x = Some (2 ^ b - 1 - x)"
    using nat_complement [of x b] by (auto simp: mask_eq_exp_minus_1)
  from const_op_ok [where args = args, OF l a x(1) this x(2)] show ?thesis .
qed

lemma neg_ok:
  assumes l: "llvm_laws L val" and a: "agree L cx val A st T" and s: "tcg_step cx (Op_neg b) args T = Some T'"
  shows "\<exists>st'. gen_const_op L cx Sub 0 b args st = Inr st' \<and> agree L cx val A st' T'"
proof -
  obtain x where x: "rd cx T b (args 1) = Some x" "wr cx b (args 0) ((2 ^ b - x) mod 2 ^ b) T = Some T'"
    using s by (auto simp: bind_eq_Some_conv)
  have "alu Sub b (0 mod 2 ^ b) x = Some ((2 ^ b - x) mod 2 ^ b)"
    by simp
  from const_op_ok [where args = args, OF l a x(1) this x(2)] show ?thesis .
qed

text \<open>The value of an expression of a known width.\<close>

definition denotes :: "('v, 'm) llvm \<Rightarrow> ('v \<Rightarrow> nat) \<Rightarrow> 'v \<Rightarrow> nat \<Rightarrow> nat \<Rightarrow> bool" where
  "denotes L val v b x \<longleftrightarrow> v_bits L v = b \<and> val v = x"

lemma denotes_bin:
  "llvm_laws L val \<Longrightarrow> denotes L val u b x \<Longrightarrow> denotes L val v b y \<Longrightarrow> alu p b x y = Some z \<Longrightarrow>
   denotes L val (c_bin L p u v) b z"
  unfolding denotes_def using bin_sem by fastforce

lemma denotes_int: "llvm_laws L val \<Longrightarrow> 0 < b \<Longrightarrow> denotes L val (c_int L b k) b (k mod 2 ^ b)"
  unfolding denotes_def using int_sem by fastforce

lemma denotes_zext: "llvm_laws L val \<Longrightarrow> denotes L val v b x \<Longrightarrow> b \<le> n \<Longrightarrow> denotes L val (c_ext L False n v) n x"
  unfolding denotes_def using ext_sem [of L val v n False] by auto

lemma denotes_trunc:
  "llvm_laws L val \<Longrightarrow> denotes L val v b x \<Longrightarrow> 0 < n \<Longrightarrow> n \<le> b \<Longrightarrow> denotes L val (c_trunc L n v) n (x mod 2 ^ n)"
  unfolding denotes_def using trunc_sem [of L val n v] by auto

lemma rot_expression:
  assumes l: "llvm_laws L val" and v: "denotes L val v b x" "denotes L val w b k" and b: "b = 32 \<or> b = 64"
    and k: "0 < k" "k < b" "x < 2 ^ b"
  shows "denotes L val (c_bin L Or (c_bin L (if left then Shl else LShr) v w)
     (c_bin L (if left then LShr else Shl) v (c_bin L Sub (c_int L b b) w))) b (rot_of left b x k)"
proof -
  have b2: "b mod 2 ^ b = b"
    using b by auto
  have sub: "(b + (2 ^ b - k)) mod 2 ^ b = b - k"
  proof -
    have "b + (2 ^ b - k) = (b - k) + 2 ^ b" "b - k < 2 ^ b"
      using k b by auto
    then show ?thesis by simp
  qed
  have d: "denotes L val (c_bin L Sub (c_int L b b) w) b (b - k)"
    using denotes_bin [OF l denotes_int [OF l, of b b] v(2), of Sub "b - k"] b b2 sub by auto
  have shl: "denotes L val (c_bin L Shl v u) b (x * 2 ^ j mod 2 ^ b)" if "denotes L val u b j" "j < b" for u j
    using denotes_bin [OF l v(1) that(1)] that(2) by simp
  have shr: "denotes L val (c_bin L LShr v u) b (x div 2 ^ j)" if "denotes L val u b j" "j < b" for u j
    using denotes_bin [OF l v(1) that(1)] that(2) by simp
  show ?thesis
    using denotes_bin [OF l shl [OF v(2)] shr [OF d], of Or] denotes_bin [OF l shr [OF v(2)] shl [OF d], of Or]
      rot_bits [OF k(1,2,3)] k(1,2) by (simp add: rot_of_def)
qed

lemma rot_ok:
  assumes l: "llvm_laws L val" and a: "agree L cx val A st T" and s: "tcg_step cx (Op_rot left b) args T = Some T'"
  shows "\<exists>st'. gen_rot L cx left b args st = Inr st' \<and> agree L cx val A st' T'"
proof -
  obtain x k where x: "rd cx T b (args 1) = Some x" "rd cx T b (args 2) = Some k" "0 < k" "k < b"
      and w: "wr cx b (args 0) (rot_of left b x k) T = Some T'"
    using s by (auto simp: bind_eq_Some_conv split: if_splits)
  obtain v st1 where v: "getValue L cx (args 1) st = Inr (v, st1)" "v_bits L v = b" "val v = x" "agree L cx val A st1 T"
      "b = 32 \<or> b = 64" "x < 2 ^ b"
    using read_ok [OF l a x(1)] by metis
  obtain u st2 where u: "getValue L cx (args 2) st1 = Inr (u, st2)" "v_bits L u = b" "val u = k" "agree L cx val A st2 T"
    using read_ok [OF l v(4) x(2)] by metis
  have "denotes L val v b x" "denotes L val u b k"
    using v u by (simp_all add: denotes_def)
  from write_ok [OF l u(4) w rot_expression [OF l this v(5) x(3,4) v(6), of left, unfolded denotes_def]] show ?thesis
    using v(1,2) u(1,2) by (simp add: gen_rot_def)
qed

lemma deposit_expression:
  assumes l: "llvm_laws L val" and v: "denotes L val v b x" "denotes L val w b y" and b: "b = 32 \<or> b = 64"
    and o: "ofs + len \<le> b" "ofs < b" "len < 32" "x < 2 ^ b"
  shows "denotes L val (c_bin L Or (c_bin L And v (c_int L b (2 ^ b - 1 - ((2 ^ len - 1) * 2 ^ ofs) mod 2 ^ b)))
     (if ofs + len < b then c_bin L Shl (c_bin L And w (c_int L b (2 ^ len - 1))) (c_int L b ofs)
      else c_bin L Shl w (c_int L b ofs))) b (deposit_of x y ofs len)"
proof -
  have b0: "0 < b" and ofs: "ofs mod 2 ^ b = ofs"
    using b o by auto
  have msk: "((y::nat) AND (2 ^ len - 1)) = y mod 2 ^ len"
    by (simp only: take_bit_eq_mask flip: take_bit_eq_mod mask_eq_exp_minus_1)
  have "(2::nat) ^ len \<le> 2 ^ b"
    using b o by (intro power_increasing) auto
  then have len: "(2 ^ len - 1) mod 2 ^ b = (2 ^ len - 1 :: nat)"
    by (intro mod_less less_le_trans [OF diff_less]) auto
  let ?f = "(y AND (2 ^ len - 1)) * 2 ^ ofs"
  have "y mod 2 ^ len * 2 ^ ofs < 2 ^ len * 2 ^ ofs"
    by simp
  also have "(2::nat) ^ len * 2 ^ ofs \<le> 2 ^ b"
    using o(1) by (simp add: add.commute flip: power_add)
  finally have f: "?f mod 2 ^ b = ?f"
    using msk by simp
  have c: "denotes L val (c_int L b k) b (k mod 2 ^ b)" for k
    using denotes_int [OF l b0] .
  have m: "denotes L val (c_bin L And w (c_int L b (2 ^ len - 1))) b (y AND (2 ^ len - 1))"
    using denotes_bin [OF l v(2) c [of "2 ^ len - 1"], of And] len by simp
  have sh: "denotes L val (c_bin L Shl u (c_int L b ofs)) b (z * 2 ^ ofs mod 2 ^ b)" if "denotes L val u b z" for u z
    using denotes_bin [OF l that c [of ofs], of Shl] ofs o(2) by simp
  have s: "denotes L val (if ofs + len < b then c_bin L Shl (c_bin L And w (c_int L b (2 ^ len - 1))) (c_int L b ofs)
      else c_bin L Shl w (c_int L b ofs)) b ?f"
    using sh [OF m] sh [OF v(2)] deposit_high [of ofs len b y] f o(1) by auto
  let ?c = "2 ^ b - 1 - ((2 ^ len - 1) * 2 ^ ofs) mod 2 ^ b :: nat"
  have "?c mod 2 ^ b = ?c"
    using b0 by (intro mod_less) (metis diff_less less_imp_diff_less zero_less_numeral zero_less_one zero_less_power)
  then have k: "denotes L val (c_bin L And v (c_int L b ?c)) b (x AND ?c)"
    using denotes_bin [OF l v(1) c [of ?c], of And] by simp
  show ?thesis
    using denotes_bin [OF l k s, of Or] deposit_bits [OF o(4,1), of y] by (simp add: deposit_of_def)
qed

lemma deposit_ok:
  assumes l: "llvm_laws L val" and a: "agree L cx val A st T" and s: "tcg_step cx (Op_deposit b) args T = Some T'"
  shows "\<exists>st'. gen_deposit L cx b args st = Inr st' \<and> agree L cx val A st' T'"
proof -
  obtain x y where x: "rd cx T b (args 1) = Some x" "rd32 cx T b (args 2) = Some y" "args 4 < 32" "args 3 + args 4 \<le> b" "args 3 < b"
      and w: "wr cx b (args 0) (deposit_of x y (args 3) (args 4)) T = Some T'"
    using s by (auto simp: bind_eq_Some_conv split: if_splits)
  obtain v st1 where v: "getValue L cx (args 1) st = Inr (v, st1)" "denotes L val v b x" "agree L cx val A st1 T"
      "b = 32 \<or> b = 64" "x < 2 ^ b"
    using read_ok [OF l a x(1)] unfolding denotes_def by metis
  obtain u st2 where u: "getValue L cx (args 2) st1 = Inr (u, st2)" "agree L cx val A st2 T"
      "v_bits L u = b \<or> (b = 32 \<and> v_bits L u = 64)" "y = val u mod 2 ^ b"
    using read32_ok [OF l v(3) x(2)] by metis
  have t: "denotes L val (c_trunc L b u) b y"
    using trunc_sem [OF l, of b u] u(3,4) v(4) unfolding denotes_def by auto
  have m: "args 3 mod 2 ^ 32 = args 3" "args 4 mod 2 ^ 32 = args 4" "\<not> (args 3 = 0 \<and> args 4 = b)"
    using x(3,5) v(4) by auto
  note e = deposit_expression [OF l v(2) t v(4) x(4,5,3) v(5), unfolded denotes_def]
  have "gen_deposit L cx b args st = setValue L cx (args 0)
      (c_bin L Or (c_bin L And v (c_int L b (2 ^ b - 1 - ((2 ^ args 4 - 1) * 2 ^ args 3) mod 2 ^ b)))
       (if args 3 + args 4 < b then c_bin L Shl (c_bin L And (c_trunc L b u) (c_int L b (2 ^ args 4 - 1))) (c_int L b (args 3))
        else c_bin L Shl (c_trunc L b u) (c_int L b (args 3)))) st2"
    unfolding gen_deposit_def v(1) u(1) rbind_simps prod.case Let_def m(1,2) if_not_P [OF m(3)]
    using x(3,5) by (simp only: simp_thms ensure_defined_simps rbind_simps)
  then show ?thesis
    using write_ok [OF l u(2) w e] by (simp only:)
qed

lemma wide_expression:
  assumes l: "llvm_laws L val" and h: "denotes L val h 32 x" and g: "denotes L val g 32 y" and b: "x < 2 ^ 32" "y < 2 ^ 32"
  shows "denotes L val (c_bin L Or (c_bin L Shl (c_ext L False 64 h) (c_int L 64 32)) (c_ext L False 64 g)) 64 (x * 2 ^ 32 + y)"
proof -
  have c: "denotes L val (c_int L 64 32) 64 32"
    using denotes_int [OF l, of 64 32] by simp
  have "x * 2 ^ 32 mod 2 ^ 64 = x * 2 ^ 32"
    using b by simp
  then have "denotes L val (c_bin L Shl (c_ext L False 64 h) (c_int L 64 32)) 64 (x * 2 ^ 32)"
    using denotes_bin [OF l denotes_zext [OF l h, of 64] c, of Shl] by simp
  from denotes_bin [OF l this denotes_zext [OF l g, of 64], of Or] show ?thesis
    using or_high [OF b(2), of x] by simp
qed

lemma add2_ok:
  assumes l: "llvm_laws L val" and a: "agree L cx val A st T" and s: "tcg_step cx Op_add2_i32 args T = Some T'"
  shows "\<exists>st'. gen_add2 L cx args st = Inr st' \<and> agree L cx val A st' T'"
proof -
  obtain al ah bl bh where x: "rd cx T 32 (args 2) = Some al" "rd cx T 32 (args 3) = Some ah"
      "rd cx T 32 (args 4) = Some bl" "rd cx T 32 (args 5) = Some bh"
    using s by (auto simp: bind_eq_Some_conv)
  let ?r = "(ah * 2 ^ 32 + al + (bh * 2 ^ 32 + bl)) mod 2 ^ 64"
  obtain T1 where w: "wr cx 32 (args 0) (?r mod 2 ^ 32) T = Some T1" "wr cx 32 (args 1) (?r div 2 ^ 32) T1 = Some T'"
    using s unfolding tcg_step.simps x Let_def by (auto simp: bind_eq_Some_conv)
  obtain v1 s1 where v1: "getValue L cx (args 2) st = Inr (v1, s1)" "denotes L val v1 32 al" "agree L cx val A s1 T" "al < 2 ^ 32"
    using read_ok [OF l a x(1)] unfolding denotes_def by metis
  obtain v2 s2 where v2: "getValue L cx (args 3) s1 = Inr (v2, s2)" "denotes L val v2 32 ah" "agree L cx val A s2 T" "ah < 2 ^ 32"
    using read_ok [OF l v1(3) x(2)] unfolding denotes_def by metis
  obtain v3 s3 where v3: "getValue L cx (args 4) s2 = Inr (v3, s3)" "denotes L val v3 32 bl" "agree L cx val A s3 T" "bl < 2 ^ 32"
    using read_ok [OF l v2(3) x(3)] unfolding denotes_def by metis
  obtain v4 s4 where v4: "getValue L cx (args 5) s3 = Inr (v4, s4)" "denotes L val v4 32 bh" "agree L cx val A s4 T" "bh < 2 ^ 32"
    using read_ok [OF l v3(3) x(4)] unfolding denotes_def by metis
  define r where "r = c_bin L Add
    (c_bin L Or (c_bin L Shl (c_ext L False 64 v2) (c_int L 64 32)) (c_ext L False 64 v1))
    (c_bin L Or (c_bin L Shl (c_ext L False 64 v4) (c_int L 64 32)) (c_ext L False 64 v3))"
  have dr: "denotes L val r 64 ?r"
    unfolding r_def
    by (rule denotes_bin [OF l wide_expression [OF l v2(2) v1(2) v2(4) v1(4)] wide_expression [OF l v4(2) v3(2) v4(4) v3(4)]]) simp
  have lo: "denotes L val (c_trunc L 32 r) 32 (?r mod 2 ^ 32)"
    using denotes_trunc [OF l dr, of 32] by simp
  have "denotes L val (c_bin L LShr r (c_int L 64 32)) 64 (?r div 2 ^ 32)"
    by (rule denotes_bin [OF l dr, where y = 32]) (use denotes_int [OF l, of 64 32] in simp_all)
  from denotes_trunc [OF l this, of 32] have hi: "denotes L val (c_trunc L 32 (c_bin L LShr r (c_int L 64 32))) 32 (?r div 2 ^ 32)"
    by (simp add: less_mult_imp_div_less)
  obtain s5 where s5: "setValue L cx (args 0) (c_trunc L 32 r) s4 = Inr s5" "agree L cx val A s5 T1"
    using write_ok [OF l v4(3) w(1) lo [unfolded denotes_def]] by blast
  obtain s6 where s6: "setValue L cx (args 1) (c_trunc L 32 (c_bin L LShr r (c_int L 64 32))) s5 = Inr s6" "agree L cx val A s6 T'"
    using write_ok [OF l s5(2) w(2) hi [unfolded denotes_def]] by blast
  show ?thesis
    using s6(2) by (simp add: gen_add2_def v1(1) v2(1) v3(1) v4(1) Let_def s5(1) s6(1) del: One_nat_def flip: r_def)
qed

section \<open>Translation blocks\<close>

lemma discard_ok:
  assumes "agree L cx val A st T" "tcg_step cx Op_discard args T = Some T'"
  shows "agree L cx val A (delValue (args 0) st) T'"
  using agree_forget(2) [OF assms(1), of "args 0" None] assms(2)
  by (auto simp: delValue_def base_reg_def split: if_splits)

lemma movi_ok:
  assumes l: "llvm_laws L val" and a: "agree L cx val A st T" and s: "tcg_step cx (Op_movi b) args T = Some T'"
  shows "\<exists>st'. setValue L cx (args 0) (c_int L b (args 1)) st = Inr st' \<and> agree L cx val A st' T'"
proof -
  have w: "wr cx b (args 0) (args 1 mod 2 ^ b) T = Some T'"
    using s by simp
  then have "args 0 < length (temps cx)" "bits_of cx (args 0) = b"
    by (simp_all add: wr_Some)
  then have "0 < b"
    using agreeD(1) [OF a] by (auto simp: slots_ok_def)
  from write_ok [OF l a w int_sem [OF l this]] show ?thesis .
qed

lemma operation_ok:
  assumes l: "llvm_laws L val" and a: "agree L cx val A st T" and s: "tcg_step cx opc args T = Some T'"
  shows "\<exists>st'. generateOperation L cx opc args st = Inr (nb_args cx opc args, st') \<and> agree L cx val A st' T'"
proof -
  have "\<exists>st'. generate_op L cx opc args st = Inr st' \<and> agree L cx val A st' T'"
  proof (cases opc)
    case Op_discard
    then show ?thesis using discard_ok [OF a] s by simp
  next
    case (Op_movi b)
    then show ?thesis using movi_ok [OF l a] s by (simp only: generate_op.simps)
  next
    case (Op_mov b)
    then show ?thesis using mov_ok [OF l a] s by (simp only: generate_op.simps)
  next
    case (Op_ext sx m b)
    then show ?thesis using ext_ok [OF l a] s by (simp only: generate_op.simps)
  next
    case (Op_arith p b)
    then show ?thesis using arith_ok [OF l a] s by (simp only: generate_op.simps)
  next
    case (Op_rot left b)
    then show ?thesis using rot_ok [OF l a] s by (simp only: generate_op.simps)
  next
    case (Op_not b)
    then show ?thesis using not_ok [OF l a] s by (simp only: generate_op.simps)
  next
    case (Op_neg b)
    then show ?thesis using neg_ok [OF l a] s by (simp only: generate_op.simps)
  next
    case (Op_deposit b)
    then show ?thesis using deposit_ok [OF l a] s by (simp only: generate_op.simps)
  next
    case Op_add2_i32
    then show ?thesis using add2_ok [OF l a] s by (simp only: generate_op.simps)
  qed (use a s in simp_all)
  then show ?thesis
    by (auto simp: generateOperation_def)
qed

lemma operations_ok:
  assumes l: "llvm_laws L val"
  shows "agree L cx val A st T \<Longrightarrow> tcg_run cx opcs args T = Some T' \<Longrightarrow>
    \<exists>st'. generate_ops L cx opcs args st = Inr st' \<and> agree L cx val A st' T'"
proof (induction opcs arbitrary: args st T)
  case (Cons opc opcs)
  show ?case
  proof (cases "opc = Op_end")
    case False
    obtain T1 where 1: "tcg_step cx opc args T = Some T1" "tcg_run cx opcs (\<lambda>i. args (nb_args cx opc args + i)) T1 = Some T'"
      using Cons.prems(2) False by (auto simp: bind_eq_Some_conv)
    obtain st1 where 2: "generateOperation L cx opc args st = Inr (nb_args cx opc args, st1)" "agree L cx val A st1 T1"
      using operation_ok [OF l Cons.prems(1) 1(1)] by blast
    show ?thesis
      using Cons.IH [OF 2(2) 1(2)] 2(1) False by simp
  qed (use Cons.prems in simp)
qed simp

lemma code_ok:
  assumes l: "llvm_laws L val" and i: "initGlobalsAndLocalTemps L cx (fresh_function st) = Inr st0" and a: "agree L cx val A st0 T"
    and r: "tcg_run cx opcs args T = Some T'"
  shows "\<exists>st'. generateCode L cx opcs args st = Inr st' \<and>
    (\<forall>g<nb_globals cx. \<forall>x. T' g = Some x \<longrightarrow> holds L cx val g x (c_load L (bits_of cx g) (A g) (memory st')))"
proof -
  obtain st1 where 1: "generate_ops L cx opcs args st0 = Inr st1" "agree L cx val A st1 T'"
    using operations_ok [OF l a r] by blast
  have "holds L cx val g x (c_load L (bits_of cx g) (A g) (memory st1))" if "g < nb_globals cx" "T' g = Some x" for g x
    using agreeD(6) [OF 1(2) that(2)] that(1) by (simp add: saved_def)
  then show ?thesis
    using i 1(1) by (simp add: generateCode_def Let_def)
qed

section \<open>Conditions\<close>

fun cond_holds :: "cond \<Rightarrow> nat \<Rightarrow> nat \<Rightarrow> nat \<Rightarrow> bool" where
  "cond_holds NEVER n a b = False"
| "cond_holds ALWAYS n a b = True"
| "cond_holds CEQ n a b = (a = b)"
| "cond_holds CNE n a b = (a \<noteq> b)"
| "cond_holds CLT n a b = (sval n a < sval n b)"
| "cond_holds CGE n a b = (sval n a \<ge> sval n b)"
| "cond_holds CLE n a b = (sval n a \<le> sval n b)"
| "cond_holds CGT n a b = (sval n a > sval n b)"
| "cond_holds LTU n a b = (a < b)"
| "cond_holds GEU n a b = (a \<ge> b)"
| "cond_holds LEU n a b = (a \<le> b)"
| "cond_holds GTU n a b = (a > b)"

lemma condition_ok:
  assumes l: "llvm_laws L val" and v: "denotes L val v n a" "denotes L val w n b"
  obtains u where "generateCondition L (Some c) v w = Inr u" "denotes L val u 1 (of_bool (cond_holds c n a b))"
proof -
  have i: "denotes L val (c_icmp L p v w) 1 (of_bool (icmp_holds p n a b))" for p
    using v icmp_sem [OF l, of v n w p] by (simp add: denotes_def)
  have k: "denotes L val (c_int L 1 m) 1 (m mod 2)" for m
    using denotes_int [OF l, of 1 m] by simp
  show ?thesis
    using that k [of 0] k [of 1] i [of ICmpEQ] i [of ICmpNE] i [of ICmpSLT] i [of ICmpSGE] i [of ICmpSLE] i [of ICmpSGT]
      i [of ICmpULT] i [of ICmpUGE] i [of ICmpULE] i [of ICmpUGT]
    by (cases c) (simp_all add: generateCondition_def)
qed

text \<open>A condition extended by its sign is a mask of ones.\<close>

lemma mask_of_condition:
  assumes l: "llvm_laws L val" and u: "denotes L val u 1 (of_bool p)"
  shows "denotes L val (c_ext L True 32 u) 32 (if p then 2 ^ 32 - 1 else 0)"
proof -
  have "uval 32 (sval 1 (of_bool p)) = (if p then 2 ^ 32 - 1 else 0)"
    by (simp add: uval_def sval_def take_bit_eq_mod)
  then show ?thesis
    using ext_sem [OF l, of u 32 True] u by (simp add: denotes_def)
qed

lemma setcond_ok:
  assumes l: "llvm_laws L val" and a: "agree L cx val A st T" and c: "cond_of cx (args 3) = Some c"
    and x: "rd cx T n (args 1) = Some x" "rd cx T n (args 2) = Some y"
    and w: "wr cx 32 (args 0) (if cond_holds c n x y then 2 ^ 32 - 1 else 0) T = Some T'"
  shows "\<exists>st'. gen_setcond L cx args st = Inr st' \<and> agree L cx val A st' T'"
proof -
  obtain v s1 where v: "getValue L cx (args 1) st = Inr (v, s1)" "denotes L val v n x" "agree L cx val A s1 T"
    using read_ok [OF l a x(1)] unfolding denotes_def by metis
  obtain u s2 where u: "getValue L cx (args 2) s1 = Inr (u, s2)" "denotes L val u n y" "agree L cx val A s2 T"
    using read_ok [OF l v(3) x(2)] unfolding denotes_def by metis
  obtain k where k: "generateCondition L (Some c) v u = Inr k" "denotes L val k 1 (of_bool (cond_holds c n x y))"
    using condition_ok [OF l v(2) u(2)] .
  from write_ok [OF l u(3) w mask_of_condition [OF l k(2), unfolded denotes_def]] show ?thesis
    using v(1) u(1) k(1) c by (simp add: gen_setcond_def)
qed

lemma movcond_ok:
  assumes l: "llvm_laws L val" and a: "agree L cx val A st T" and c: "cond_of cx (args 5) = Some c"
    and x: "rd cx T n (args 1) = Some x" "rd cx T n (args 2) = Some y"
    and v: "rd cx T 32 (args 3) = Some v1" "rd cx T 32 (args 4) = Some v2"
    and w: "wr cx 32 (args 0) (if cond_holds c n x y then v2 OR (v1 AND 1) else 0) T = Some T'"
  shows "\<exists>st'. gen_movcond L cx args st = Inr st' \<and> agree L cx val A st' T'"
proof -
  obtain p s1 where p: "getValue L cx (args 1) st = Inr (p, s1)" "denotes L val p n x" "agree L cx val A s1 T"
    using read_ok [OF l a x(1)] unfolding denotes_def by metis
  obtain q s2 where q: "getValue L cx (args 2) s1 = Inr (q, s2)" "denotes L val q n y" "agree L cx val A s2 T"
    using read_ok [OF l p(3) x(2)] unfolding denotes_def by metis
  obtain k where k: "generateCondition L (Some c) p q = Inr k" "denotes L val k 1 (of_bool (cond_holds c n x y))"
    using condition_ok [OF l p(2) q(2)] .
  obtain e s3 where e: "getValue L cx (args 3) s2 = Inr (e, s3)" "denotes L val e 32 v1" "agree L cx val A s3 T"
    using read_ok [OF l q(3) v(1)] unfolding denotes_def by metis
  obtain f s4 where f: "getValue L cx (args 4) s3 = Inr (f, s4)" "denotes L val f 32 v2" "agree L cx val A s4 T" "v2 < 2 ^ 32"
    using read_ok [OF l e(3) v(2)] unfolding denotes_def by metis
  let ?c = "cond_holds c n x y" and ?t = "c_ext L True 32 k"
  note t = mask_of_condition [OF l k(2)]
  have nt: "denotes L val (c_bin L Sub (c_int L 32 0) ?t) 32 (if ?c then 1 else 0)"
    by (rule denotes_bin [OF l denotes_int [OF l, of 32 0] t]) simp_all
  have "v2 AND mask 32 = v2"
    using f(4) by (simp add: take_bit_nat_eq_self flip: take_bit_eq_mask)
  then have "v2 AND (2 ^ 32 - 1) = v2"
    by (simp only: mask_eq_exp_minus_1)
  then have "denotes L val (c_bin L And f ?t) 32 (if ?c then v2 else 0)"
    using denotes_bin [OF l f(2) t, of And] by (auto split: if_splits)
  moreover have "denotes L val (c_bin L And e (c_bin L Sub (c_int L 32 0) ?t)) 32 (if ?c then v1 AND 1 else 0)"
    by (rule denotes_bin [OF l e(2) nt]) simp
  ultimately have "denotes L val (c_bin L Or (c_bin L And f ?t) (c_bin L And e (c_bin L Sub (c_int L 32 0) ?t))) 32
      (if ?c then v2 OR (v1 AND 1) else 0)"
    by (rule denotes_bin [OF l]) simp
  from write_ok [OF l f(3) w this [unfolded denotes_def]] show ?thesis
    using p(1) q(1) k(1) e(1) f(1) c by (simp add: gen_movcond_def Let_def)
qed

section \<open>An instance\<close>

text \<open>Values as lists of bits, least first, and a memory of bits, by address times eight.\<close>

definition bits_val :: "bool list \<Rightarrow> nat" where
  "bits_val v = horner_sum of_bool 2 v"

definition mk :: "nat \<Rightarrow> nat \<Rightarrow> bool list" where
  "mk n x = map (bit x) [0..<n]"

lemma mk_sem [simp]: "length (mk n x) = n" "bits_val (mk n x) = x mod 2 ^ n"
  by (simp_all add: mk_def bits_val_def horner_sum_bit_eq_take_bit take_bit_eq_mod)

definition bit_llvm :: "(bool list, nat \<Rightarrow> bool) llvm" where
  "bit_llvm = \<lparr>v_bits = length, c_int = mk,
     c_bin = (\<lambda>p a b. mk (length a) (case alu p (length a) (bits_val a) (bits_val b) of None \<Rightarrow> 0 | Some x \<Rightarrow> x)),
     c_icmp = (\<lambda>p a b. [icmp_holds p (length a) (bits_val a) (bits_val b)]),
     c_trunc = take, c_ext = (\<lambda>sx n v. if sx then mk n (uval n (sval (length v) (bits_val v))) else mk n (bits_val v)),
     c_bswap = (\<lambda>v. v),
     c_load = (\<lambda>n p m. map (\<lambda>i. m (8 * bits_val p + i)) [0..<n]),
     c_store = (\<lambda>v p m a. if 8 * bits_val p \<le> a \<and> a < 8 * bits_val p + length v then v ! (a - 8 * bits_val p) else m a),
     c_arg = (\<lambda>n. mk 64 (8 * n)), c_alloca = (\<lambda>i. mk 64 (10000 + 8 * i)),
     c_call = (\<lambda>f vs r m. ([], m)), c_mem = (\<lambda>l i vs m. ([], m))\<rparr>"

lemma alu_less:
  fixes a b :: nat
  assumes "alu p n a b = Some x" "a < 2 ^ n" "b < 2 ^ n"
  shows "x < 2 ^ n"
proof -
  have t: "take_bit n a = a" "take_bit n b = b"
    using assms by (simp_all add: take_bit_nat_eq_self)
  have u: "uval n k < 2 ^ n" for k
    by (simp add: uval_def nat_less_iff)
  have "take_bit n (a AND b) = a AND b" "take_bit n (a OR b) = a OR b" "take_bit n (a XOR b) = a XOR b"
    using t by simp_all
  then have "a AND b < 2 ^ n" "a OR b < 2 ^ n" "a XOR b < 2 ^ n"
    by (simp_all only: take_bit_nat_eq_self_iff)
  moreover have "a div k < 2 ^ n" for k
    using assms(2) by (meson div_le_dividend le_less_trans)
  moreover have "b \<noteq> 0 \<Longrightarrow> a mod b < 2 ^ n"
    using assms(2) by (meson mod_less_eq_dividend le_less_trans)
  ultimately show ?thesis
    using assms(1) u by (cases p) (auto split: if_splits)
qed

lemma bits_val_less: "bits_val v < 2 ^ length v"
  unfolding bits_val_def by (rule horner_sum_of_bool_2_less)

lemma mk_bits_val: "mk (length v) (bits_val v) = v"
  unfolding mk_def bits_val_def
  by (rule nth_equalityI) (auto simp: bit_horner_sum_bit_iff)

lemma bit_llvm_laws: "llvm_laws bit_llvm bits_val"
proof -
  have "v = w" if "length v = length w" "bits_val v = bits_val w" for v w
    using that mk_bits_val by metis
  then have 1: "value_laws bit_llvm bits_val"
    by (simp add: value_laws_def bit_llvm_def bits_val_less)
  have 2: "binop_law bit_llvm bits_val"
    unfolding binop_law_def
  proof (intro allI impI)
    fix p a b x
    assume "v_bits bit_llvm b = v_bits bit_llvm a" and s: "alu p (v_bits bit_llvm a) (bits_val a) (bits_val b) = Some x"
    then have "length b = length a" "alu p (length a) (bits_val a) (bits_val b) = Some x"
      by (simp_all add: bit_llvm_def)
    then have "x < 2 ^ length a"
      using alu_less bits_val_less by metis
    then show "v_bits bit_llvm (c_bin bit_llvm p a b) = v_bits bit_llvm a \<and> bits_val (c_bin bit_llvm p a b) = x"
      using s by (simp add: bit_llvm_def)
  qed
  have i: "icmp_law bit_llvm bits_val"
    by (simp add: icmp_law_def bit_llvm_def bits_val_def)
  have "bits_val (take n v) = bits_val v mod 2 ^ n" if "n \<le> length v" for n v
    using that by (simp add: bits_val_def take_bit_horner_sum_bit_eq flip: take_bit_eq_mod)
  moreover have "bits_val v mod 2 ^ n = bits_val v" if "length v \<le> n" for v n
    using that bits_val_less [of v] by (intro mod_less) (meson less_le_trans one_le_numeral power_increasing)
  moreover have "uval n k mod 2 ^ n = uval n k" for n k
    by (intro mod_less) (simp add: uval_def nat_less_iff)
  ultimately have 3: "cast_laws bit_llvm bits_val"
    by (simp add: cast_laws_def bit_llvm_def)
  have 4: "memory_laws bit_llvm bits_val"
    by (auto simp: memory_laws_def bit_llvm_def elim!: dvdE intro!: map_cong nth_equalityI)
  show ?thesis
    using 1 2 3 4 i by (simp add: llvm_laws_def)
qed

text \<open>A host register that points to the guest's registers, two of these, and a temporary.\<close>

definition small_cx :: tcg_context where
  "small_cx = \<lparr>
     temps = [\<lparr>t_bits = 64, fixed_reg = True, t_reg = 14, mem_reg = 0, mem_offset = 0, temp_local = False\<rparr>,
              \<lparr>t_bits = 32, fixed_reg = False, t_reg = 0, mem_reg = 14, mem_offset = 8, temp_local = False\<rparr>,
              \<lparr>t_bits = 32, fixed_reg = False, t_reg = 0, mem_reg = 14, mem_offset = 12, temp_local = False\<rparr>,
              \<lparr>t_bits = 32, fixed_reg = False, t_reg = 0, mem_reg = 0, mem_offset = 0, temp_local = False\<rparr>],
     nb_globals = 3, MO_SIZE = 3, MO_SIGN = 4, TARGET_LONG_BITS = 32, DUMMY_ARG = 2 ^ 64 - 1,
     cond_of = (\<lambda>k. if k = 8 then Some CEQ else None),
     nb_args_of = (\<lambda>opc. case opc of Op_movi _ \<Rightarrow> 2 | Op_arith _ _ \<Rightarrow> 3 | _ \<Rightarrow> 0), nb_cargs_of = (\<lambda>_. 2),
     helper_name = (\<lambda>_. None), goto_tb_address = 5000, execute_llvm = False\<rparr>"

definition small_st :: "(bool list, nat \<Rightarrow> bool) tcg" where
  "small_st = \<lparr>m_values = \<lambda>_. None, m_memValuesPtr = \<lambda>_. None, m_globalsIdx = \<lambda>_. 0,
     memory = c_store bit_llvm (mk 32 (2 ^ 32 - 3)) (mk 64 1012) (c_store bit_llvm (mk 64 1000) (mk 64 0) (\<lambda>_. False)),
     placed = {}, blocks = [], terminated = None\<rparr>"

definition small_addr :: "nat \<Rightarrow> bool list" where
  "small_addr i = mk 64 (if i = 0 then 0 else if i = 1 then 1008 else 1012)"

definition small_store :: store where
  "small_store = [0 \<mapsto> 1000, 2 \<mapsto> 2 ^ 32 - 3]"

definition small_init :: "(bool list, nat \<Rightarrow> bool) tcg" where
  "small_init = small_st\<lparr>m_globalsIdx := (\<lambda>_. 0)\<rparr>"

lemma below_3: "(i :: nat) < 3 \<longleftrightarrow> i = 0 \<or> i = 1 \<or> i = 2"
  by auto

lemma below_4: "(i :: nat) < 4 \<longleftrightarrow> i = 0 \<or> i = 1 \<or> i = 2 \<or> i = 3"
  by auto

lemma small_temps:
  "length (temps small_cx) = 4" "nb_globals small_cx = 3"
  "bits_of small_cx 0 = 64" "bits_of small_cx 1 = 32" "bits_of small_cx 2 = 32" "bits_of small_cx 3 = 32"
  "bits_of small_cx (Suc 0) = 32"
  "base_reg small_cx i \<longleftrightarrow> i = 0"
  by (auto simp: small_cx_def bits_of_def base_reg_def below_3)

lemma small_regs:
  "fixed_reg (temps small_cx ! 0)" "\<not> fixed_reg (temps small_cx ! Suc 0)" "\<not> fixed_reg (temps small_cx ! 2)"
  "mem_offset (temps small_cx ! Suc 0) = 8" "mem_offset (temps small_cx ! 2) = 12"
  by (simp_all add: small_cx_def)

lemma small_local: "i < 4 \<Longrightarrow> \<not> temp_local (temps small_cx ! i)"
  unfolding below_4 by (auto simp: small_cx_def)

lemma small_saved: "saved small_cx i \<longleftrightarrow> i < 3"
  using small_local [of i] by (auto simp: saved_def small_temps)

lemma small_init: "initGlobalsAndLocalTemps bit_llvm small_cx (fresh_function small_st) = Inr small_init"
proof -
  have f: "fresh_function small_st = small_st"
    by (simp add: fresh_function_def small_st_def)
  have p: "(\<lambda>i. if 3 \<le> i \<and> i < 4 \<and> temp_local (temps small_cx ! i) then Some (c_alloca bit_llvm i) else m_memValuesPtr small_st i) = (\<lambda>_. None)"
    using small_local by (auto simp: small_st_def)
  have "number_regs (take 3 (temps small_cx)) 0 0 (m_globalsIdx small_st) Map.empty = ((\<lambda>_. 0)(1 := 14, 2 := 14), [14 \<mapsto> 0])"
    "resolve_bases (take 3 (temps small_cx)) 0 ((\<lambda>_. 0)(1 := 14, 2 := 14)) [14 \<mapsto> 0] = Inr (\<lambda>_. 0)"
    by (auto simp: small_cx_def small_st_def fun_eq_iff)
  then show ?thesis
    using p by (simp add: f initGlobalsAndLocalTemps_def small_temps small_init_def) (simp add: small_st_def)
qed

lemma small_agree: "agree bit_llvm small_cx bits_val small_addr small_init small_store"
proof -
  have a: "bits_val (small_addr 0) = 0" "bits_val (small_addr 1) = 1008" "bits_val (small_addr 2) = 1012" 
    "bits_val (small_addr (Suc 0)) = 1008"
    by (simp_all add: small_addr_def)
  have s: "slots_ok small_cx bits_val small_addr"
    unfolding slots_ok_def small_saved small_temps(1,2)
    by (auto simp: below_3 below_4 small_temps a)
  have b: "v_bits bit_llvm (mk 64 1000) = 64" "small_store 0 = Some (bits_val (mk 64 1000))"
    "c_bin bit_llvm Add (mk 64 1000) (c_int bit_llvm WORD 8) = mk 64 1008"
    "c_bin bit_llvm Add (mk 64 1000) (c_int bit_llvm WORD 12) = mk 64 1012"
    by (simp_all add: bit_llvm_def small_store_def WORD_def)
  have d: "addressed bit_llvm small_cx bits_val small_addr (m_globalsIdx small_init) small_store"
    unfolding addressed_def small_temps(2,8)
    using b by (auto simp: below_3 small_init_def small_addr_def small_temps small_regs WORD_def bit_llvm_def intro!: exI [of _ "mk 64 1000"])
  have m: "memory small_init = c_store bit_llvm (mk 32 (2 ^ 32 - 3)) (mk 64 1012) (c_store bit_llvm (mk 64 1000) (mk 64 0) (\<lambda>_. False))"
    by (simp add: small_init_def small_st_def)
  have l0: "c_load bit_llvm 64 (small_addr 0) (memory small_init) = mk 64 1000"
    unfolding m by (rule nth_equalityI) (simp_all add: small_addr_def bit_llvm_def)
  have l2: "c_load bit_llvm 32 (small_addr 2) (memory small_init) = mk 32 (2 ^ 32 - 3)"
    unfolding m by (rule nth_equalityI) (simp_all add: small_addr_def bit_llvm_def)
  have c: "m_values small_init i = None" "m_memValuesPtr small_init i = None" for i
    by (simp_all add: small_init_def small_st_def)
  have h: "i = 0 \<and> x = 1000 \<or> i = 2 \<and> x = 2 ^ 32 - 3" if "small_store i = Some x" for i x
    using that by (cases "i = 0"; cases "i = 2") (simp_all add: small_store_def)
  have "holds bit_llvm small_cx bits_val 0 1000 (mk 64 1000)" "holds bit_llvm small_cx bits_val 2 (2 ^ 32 - 3) (mk 32 (2 ^ 32 - 3))"
    by (simp_all add: holds_def small_temps bit_llvm_def)
  then have "holds bit_llvm small_cx bits_val i x (c_load bit_llvm (bits_of small_cx i) (small_addr i) (memory small_init))"
    if "small_store i = Some x" for i x
    using h [OF that] l0 l2 by (elim disjE conjE) (simp_all only: small_temps)
  moreover have "i < length (temps small_cx) \<and> saved small_cx i" if "small_store i = Some x" for i x
    using h [OF that] by (auto simp: small_saved small_temps)
  ultimately show ?thesis
    unfolding agree_def using s d by (simp add: c small_saved small_temps)
qed

section \<open>Properties\<close>

text \<open>C37: On the operations on temporaries (moves, extensions, arithmetic, rotates by less than the width
  and not by 0, complements, deposits of fields narrower than 32 bits, the double addition), and as long as
  the program of the block has a meaning and writes no host register, \<open>generateCode\<close> succeeds, and when
  the generated code has run, the memory of every global holds the value that TCG gives it: the caches of
  values and pointers are never stale, and each operation computes what it should.\<close>

theorem generateCode_refines:
  assumes "llvm_laws L val" "initGlobalsAndLocalTemps L cx (fresh_function st) = Inr st0" "agree L cx val A st0 T"
    and "tcg_run cx opcs args T = Some T'"
  shows "\<exists>st'. generateCode L cx opcs args st = Inr st' \<and>
    (\<forall>g<nb_globals cx. \<forall>x. T' g = Some x \<longrightarrow> holds L cx val g x (c_load L (bits_of cx g) (A g) (memory st')))"
  by (rule code_ok [OF assms])

definition small_args :: "nat \<Rightarrow> nat" where
  "small_args i = [3, 5, 1, 2, 3] ! i"

lemma small_run: "\<exists>T'. tcg_run small_cx [Op_movi 32, Op_arith Add 32, Op_end] small_args small_store = Some T' \<and> T' 1 = Some 2"
proof -
  have n: "nb_args small_cx (Op_movi 32) a = 2" "nb_args small_cx (Op_arith Add 32) a = 3" for a
    by (simp_all add: nb_args_def small_cx_def)
  have w: "wr small_cx 32 3 x T = Some (T(3 \<mapsto> x))" "wr small_cx 32 1 x T = Some (T(1 \<mapsto> x))" for x T
    by (simp_all add: wr_Some small_temps)
  have r: "rd32 small_cx T 32 2 = T 2" "rd32 small_cx T 32 3 = T 3" for T
    by (simp_all add: rd32_def small_temps)
  have a: "small_args 0 = 3" "small_args 1 = 5" "small_args 2 = 1" "small_args 3 = 2" "small_args 4 = 3"
    "small_args (Suc (Suc 0)) = 1" "small_args (Suc (Suc (Suc 0))) = 2"
    by (simp_all add: small_args_def)
  have 1: "tcg_step small_cx (Op_movi 32) small_args small_store = Some (small_store(3 \<mapsto> 5))"
    using w(1) a by simp
  have 2: "tcg_step small_cx (Op_arith Add 32) (\<lambda>i. small_args (2 + i)) (small_store(3 \<mapsto> 5)) = Some (small_store(3 \<mapsto> 5, 1 \<mapsto> 2))"
    using w(2) r a by (simp add: small_store_def)
  show ?thesis
    by (simp only: tcg_run.simps 1 2 n bind.bind_lunit opcode.distinct if_False simp_thms) (simp add: small_store_def)
qed

theorem generateCode_refines_witness:
  "\<exists>st' v. generateCode bit_llvm small_cx [Op_movi 32, Op_arith Add 32, Op_end] small_args small_st = Inr st' \<and>
     v = c_load bit_llvm 32 (mk 64 1008) (memory st') \<and> bits_val v = 2"
proof -
  obtain T' where r: "tcg_run small_cx [Op_movi 32, Op_arith Add 32, Op_end] small_args small_store = Some T'" "T' 1 = Some 2"
    using small_run by blast
  obtain st' where s: "generateCode bit_llvm small_cx [Op_movi 32, Op_arith Add 32, Op_end] small_args small_st = Inr st'"
      "holds bit_llvm small_cx bits_val 1 2 (c_load bit_llvm (bits_of small_cx 1) (small_addr 1) (memory st'))"
    using generateCode_refines [OF bit_llvm_laws small_init small_agree r(1)] r(2) small_temps(2) by auto
  then show ?thesis
    by (simp add: holds_def small_temps small_addr_def)
qed

text \<open>The code for the conditional move does not select: it takes the negation of the mask for its
  complement. When the condition holds, the destination gets the second value with the lowest bit of the
  first one added to it; when it does not hold, it gets 0, whatever the two values are.\<close>

theorem movcond_computes:
  assumes "llvm_laws L val" "agree L cx val A st T" "cond_of cx (args 5) = Some c"
    and "rd cx T n (args 1) = Some x" "rd cx T n (args 2) = Some y"
    and "rd cx T 32 (args 3) = Some p" "rd cx T 32 (args 4) = Some q"
    and "wr cx 32 (args 0) (if cond_holds c n x y then q OR (p AND 1) else 0) T = Some T'"
  shows "\<exists>st'. gen_movcond L cx args st = Inr st' \<and> agree L cx val A st' T'"
  by (rule movcond_ok [OF assms])

theorem movcond_computes_witness:
  "\<exists>st'. gen_movcond bit_llvm small_cx (\<lambda>i. [1, 2, 2, 2, 2, 8] ! i) small_init = Inr st' \<and>
     agree bit_llvm small_cx bits_val small_addr st' (small_store(1 \<mapsto> 2 ^ 32 - 3))"
proof (rule movcond_computes [OF bit_llvm_laws small_agree, where c = CEQ and n = 32 and x = "2 ^ 32 - 3" and y = "2 ^ 32 - 3"
      and p = "2 ^ 32 - 3" and q = "2 ^ 32 - 3"])
  show "cond_of small_cx ([1, 2, 2, 2, 2, 8] ! 5) = Some CEQ"
    by (simp add: small_cx_def)
  show "wr small_cx 32 ([1, 2, 2, 2, 2, 8] ! 0)
      (if cond_holds CEQ 32 (2 ^ 32 - 3) (2 ^ 32 - 3) then (2 ^ 32 - 3) OR ((2 ^ 32 - 3) AND 1) else 0) small_store
    = Some (small_store(1 \<mapsto> 2 ^ 32 - 3))"
    by (simp add: wr_Some small_temps)
qed (simp_all add: rd_def small_temps small_store_def)

end
