(* ===== verification/State_Scheduler.thy ===== *)
theory State_Scheduler
  imports S2E_Prelude
begin

text \<open>
  The executor's treatment of states (\<open>S2EExecutor.cpp\<close>): forking, terminating, suspending and
  resuming states, the selection of the next one, load balancing over processes, the reference
  counts of translation blocks and the loop that runs instructions. KLEE's executor, its searcher
  and process tree are parameters.
\<close>

section \<open>States\<close>

text \<open>Of a state: the flags that the executor reads, the depth of the call stack, and whether its program
  counter is at the start of the dummy main function with no previous one.\<close>

record state_info =
  zombie :: bool
  is_active :: bool
  runningConcrete :: bool
  speculative :: bool
  yielded :: bool
  needFinalizeTBExec :: bool
  stack_size :: nat
  at_dummy_main :: bool
  lastS2ETb :: "nat option"

record s2e_tb =
  refCount :: u32
  tb_function :: "nat option"
  executionSignals :: "nat list"

datatype sched_event =
    State_Kill nat
  | Test_Case nat string
  | State_Fork nat "nat list"
  | State_Switch "nat option" nat
  | Process_Fork bool bool int
  | Process_Fork_Complete bool
  | Vm_Stop | Vm_Start | Shutdown_Request
  | Remove_Function nat | Delete_Signal nat | Delete_State nat

text \<open>\<open>states\<close>, \<open>addedStates\<close>, \<open>removedStates\<close>, the searcher and the process tree are those of KLEE.\<close>

record ('q, 'p) executor =
  states :: "nat set"
  addedStates :: "nat set"
  removedStates :: "nat set"
  searcher :: "'q option"
  processTree :: 'p
  info :: "nat \<Rightarrow> state_info"
  yieldedState :: "nat option"
  m_deletedStates :: "nat list"
  g_s2e_state :: "nat option"
  m_inLoadBalancing :: bool
  m_forkProcTerminateCurrentState :: bool
  tbs :: "nat \<Rightarrow> s2e_tb"
  sched_events :: "sched_event list"

record ('q, 'p) klee_executor =
  q_add :: "nat \<Rightarrow> 'q \<Rightarrow> 'q"
  q_remove :: "nat \<Rightarrow> 'q \<Rightarrow> 'q"
  q_empty :: "'q \<Rightarrow> bool"
  q_select :: "'q \<Rightarrow> nat \<times> 'q"
  q_update :: "nat \<Rightarrow> 'q \<Rightarrow> 'q"
  p_activate :: "nat \<Rightarrow> 'p \<Rightarrow> 'p"
  p_deactivate :: "nat \<Rightarrow> 'p \<Rightarrow> 'p"
  p_remove :: "nat \<Rightarrow> 'p \<Rightarrow> 'p"
  klee_terminate :: "nat \<Rightarrow> ('q, 'p) executor \<Rightarrow> ('q, 'p) executor"
  klee_updateStates :: "nat \<Rightarrow> ('q, 'p) executor \<Rightarrow> ('q, 'p) executor"
  resolveSpeculative :: "nat \<Rightarrow> ('q, 'p) executor \<Rightarrow> bool \<times> ('q, 'p) executor"
  klee_step :: "nat \<Rightarrow> ('q, 'p) executor \<Rightarrow> unit res \<times> ('q, 'p) executor"

type_synonym ('q, 'p) ex = "('q, 'p) executor"

definition emit :: "sched_event \<Rightarrow> ('q, 'p) ex \<Rightarrow> ('q, 'p) ex" where
  "emit e x = x\<lparr>sched_events := sched_events x @ [e]\<rparr>"

definition upd_info :: "nat \<Rightarrow> (state_info \<Rightarrow> state_info) \<Rightarrow> ('q, 'p) ex \<Rightarrow> ('q, 'p) ex" where
  "upd_info s f x = x\<lparr>info := (info x)(s := f (info x s))\<rparr>"

section \<open>Ends of states\<close>

definition terminateStateAtFork :: "('q, 'p) klee_executor \<Rightarrow> nat \<Rightarrow> ('q, 'p) ex \<Rightarrow> ('q, 'p) ex" where
  "terminateStateAtFork K s x = klee_terminate K s x"

text \<open>Outside of load balancing, the end of the current state runs into a stubbed out part.\<close>

definition terminateState :: "('q, 'p) klee_executor \<Rightarrow> nat \<Rightarrow> ('q, 'p) ex \<Rightarrow> ('q, 'p) ex res" where
  "terminateState K s x =
     (let x1 = upd_info s (\<lambda>i. i\<lparr>zombie := True\<rparr>) (terminateStateAtFork K s (emit (State_Kill s) x))
      in if \<not> m_inLoadBalancing x1 \<and> g_s2e_state x1 = Some s then Inl Assertion_Failed else Inr x1)"

text \<open>A test case is generated unless the key \<open>generate_testcase_on_kill\<close> of the section \<open>s2e\<close> turns it off.\<close>

definition terminateStateEarly ::
  "('q, 'p) klee_executor \<Rightarrow> string list \<Rightarrow> (string \<Rightarrow> bool \<Rightarrow> bool) \<Rightarrow> string \<Rightarrow> nat \<Rightarrow> ('q, 'p) ex \<Rightarrow> ('q, 'p) ex res" where
  "terminateStateEarly K keys getBool msg s x =
     (let gen = (if ''generate_testcase_on_kill'' \<in> set keys then getBool ''s2e.generate_testcase_on_kill'' True else True)
      in terminateState K s (if gen then emit (Test_Case s msg) x else x))"

definition s2e_kill_current_state ::
  "('q, 'p) klee_executor \<Rightarrow> string list \<Rightarrow> (string \<Rightarrow> bool \<Rightarrow> bool) \<Rightarrow> ('q, 'p) ex \<Rightarrow> ('q, 'p) ex res" where
  "s2e_kill_current_state K keys getBool x = (case g_s2e_state x of
      None \<Rightarrow> Inl Undefined_Behaviour
    | Some s \<Rightarrow> (case terminateStateEarly K keys getBool ''killing current state ...'' s x of
          Inl Cpu_Exit \<Rightarrow> Inl Assertion_Failed
        | r \<Rightarrow> r))"

definition deleteState :: "('q, 'p) klee_executor \<Rightarrow> nat \<Rightarrow> ('q, 'p) ex \<Rightarrow> ('q, 'p) ex" where
  "deleteState K s x = x\<lparr>processTree := p_remove K s (processTree x), m_deletedStates := m_deletedStates x @ [s]\<rparr>"

section \<open>Forks\<close>

definition doStateFork :: "nat \<Rightarrow> nat list \<Rightarrow> ('q, 'p) ex \<Rightarrow> ('q, 'p) ex res" where
  "doStateFork original newStates x =
     rbind (assert_that (is_active (info x original) \<and> \<not> runningConcrete (info x original))) (\<lambda>_.
       Inr (emit (State_Fork original newStates)
         (fold (\<lambda>s y. if s \<noteq> original then upd_info s (\<lambda>i. i\<lparr>needFinalizeTBExec := True, is_active := False\<rparr>) y else y)
            newStates x)))"

text \<open>\<open>klee_fork\<close> is KLEE's fork, concolic or not: the states for the condition and for its negation.\<close>

definition fork ::
  "(('q, 'p) ex \<Rightarrow> (nat option \<times> nat option) \<times> ('q, 'p) ex) \<Rightarrow> nat \<Rightarrow> ('q, 'p) ex \<Rightarrow> ((nat option \<times> nat option) \<times> ('q, 'p) ex) res" where
  "fork klee_fork cur x =
     rbind (assert_that (\<not> runningConcrete (info x cur))) (\<lambda>_.
       case klee_fork x of
         ((Some a, Some b), x1) \<Rightarrow> rbind (doStateFork cur [a, b] x1) (\<lambda>x2. Inr ((Some a, Some b), x2))
       | (r, x1) \<Rightarrow> Inr (r, x1))"

definition branch ::
  "(('q, 'p) ex \<Rightarrow> nat option list \<times> ('q, 'p) ex) \<Rightarrow> nat \<Rightarrow> ('q, 'p) ex \<Rightarrow> (nat option list \<times> ('q, 'p) ex) res" where
  "branch klee_branch cur x =
     rbind (assert_that (\<not> runningConcrete (info x cur))) (\<lambda>_.
       let (result, x1) = klee_branch x; newStates = List.map_filter id result
       in if 1 < length newStates then rbind (doStateFork cur newStates x1) (\<lambda>x2. Inr (result, x2)) else Inr (result, x1))"

section \<open>Suspending and resuming\<close>

definition suspendState :: "('q, 'p) klee_executor \<Rightarrow> bool \<Rightarrow> nat \<Rightarrow> ('q, 'p) ex \<Rightarrow> (bool \<times> ('q, 'p) ex) res" where
  "suspendState K onlyRemoveFromPtree s x =
     (if onlyRemoveFromPtree then Inr (True, x\<lparr>processTree := p_deactivate K s (processTree x)\<rparr>)
      else (case searcher x of
          None \<Rightarrow> Inr (False, x)
        | Some q \<Rightarrow>
            rbind (assert_that (s \<in> states x)) (\<lambda>_.
              Inr (True, x\<lparr>searcher := Some (q_remove K s q), states := states x - {s},
                processTree := p_deactivate K s (processTree x)\<rparr>))))"

definition resumeState :: "('q, 'p) klee_executor \<Rightarrow> bool \<Rightarrow> nat \<Rightarrow> ('q, 'p) ex \<Rightarrow> bool \<times> ('q, 'p) ex" where
  "resumeState K onlyAddToPtree s x =
     (if onlyAddToPtree then (True, x\<lparr>processTree := p_activate K s (processTree x)\<rparr>)
      else (case searcher x of
          None \<Rightarrow> (False, x)
        | Some q \<Rightarrow>
            if s \<in> states x then (False, x)
            else (True, x\<lparr>processTree := p_activate K s (processTree x), states := insert s (states x),
              searcher := Some (q_add K s q)\<rparr>)))"

definition restoreYieldedState :: "('q, 'p) klee_executor \<Rightarrow> ('q, 'p) ex \<Rightarrow> ('q, 'p) ex" where
  "restoreYieldedState K x = (case yieldedState x of
      None \<Rightarrow> x
    | Some s \<Rightarrow> (snd (resumeState K False s (upd_info s (\<lambda>i. i\<lparr>yielded := False\<rparr>) x)))\<lparr>yieldedState := None\<rparr>)"

text \<open>A state yields only when there are others. After its suspension the skip of the instruction ends in a stubbed
  out part.\<close>

definition yieldState :: "('q, 'p) klee_executor \<Rightarrow> nat \<Rightarrow> ('q, 'p) ex \<Rightarrow> ('q, 'p) ex res" where
  "yieldState K s x =
     (if card (states x) \<le> 1 then Inr x
      else rbind (assert_that (yieldedState x = None)) (\<lambda>_.
        rbind (suspendState K False s (x\<lparr>yieldedState := Some s, addedStates := addedStates x - {s}\<rparr>)) (\<lambda>(ok, x1).
        rbind (assert_that ok) (\<lambda>_. rbind (assert_that (\<not> yielded (info x1 s))) (\<lambda>_. Inl Assertion_Failed)))))"

section \<open>Translation blocks\<close>

text \<open>\<open>keep\<close> is the option \<open>KeepLLVMFunctions\<close>.\<close>

definition unrefS2ETb :: "bool \<Rightarrow> nat option \<Rightarrow> ('q, 'p) ex \<Rightarrow> ('q, 'p) ex" where
  "unrefS2ETb keep t x = (case t of
      None \<Rightarrow> x
    | Some b \<Rightarrow>
        let n = refCount (tbs x b) - 1; x1 = x\<lparr>tbs := (tbs x)(b := (tbs x b)\<lparr>refCount := n\<rparr>)\<rparr>
        in if n = 0 then
             fold (\<lambda>s. emit (Delete_Signal s)) (executionSignals (tbs x b))
               (case tb_function (tbs x b) of None \<Rightarrow> x1 | Some f \<Rightarrow> if keep then x1 else emit (Remove_Function f) x1)
           else x1)"

definition release_state :: "bool \<Rightarrow> nat \<Rightarrow> ('q, 'p) ex \<Rightarrow> ('q, 'p) ex" where
  "release_state keep s x =
     emit (Delete_State s) (upd_info s (\<lambda>i. i\<lparr>lastS2ETb := None\<rparr>) (unrefS2ETb keep (lastS2ETb (info x s)) x))"

section \<open>The selection of a state\<close>

text \<open>A speculative state whose path constraints cannot be satisfied is terminated, and the loop goes on; a
  resolved one is given back to the searcher for an update.\<close>

partial_function (option) select_loop ::
  "('q, 'p) klee_executor \<Rightarrow> nat \<Rightarrow> ('q, 'p) ex \<Rightarrow> (nat option \<times> ('q, 'p) ex) res option" where
  "select_loop K cur x = (case searcher x of
      None \<Rightarrow> Some (Inl Undefined_Behaviour)
    | Some q \<Rightarrow>
        if q_empty K q then Some (Inr (None, x))
        else (case q_select K q of (n, q') \<Rightarrow>
          let x1 = x\<lparr>searcher := Some q'\<rparr> in
          if \<not> speculative (info x1 n) then Some (Inr (Some n, x1))
          else (case resolveSpeculative K n x1 of (ok, x2) \<Rightarrow>
            if ok then
              (let x3 = x2\<lparr>searcher := map_option (q_update K n) (searcher x2)\<rparr> in
               if speculative (info x3 n) then select_loop K cur x3 else Some (Inr (Some n, x3)))
            else
              (case terminateState K n x2 of
                  Inl e \<Rightarrow> Some (Inl e)
                | Inr x3 \<Rightarrow>
                    (let x4 = klee_updateStates K cur x3 in
                     if speculative (info x4 n) then select_loop K cur x4 else Some (Inr (Some n, x4)))))))"

definition selectNonSpeculativeState ::
  "('q, 'p) klee_executor \<Rightarrow> bool \<Rightarrow> nat \<Rightarrow> ('q, 'p) ex \<Rightarrow> (nat option \<times> ('q, 'p) ex) res option" where
  "selectNonSpeculativeState K keep cur x = (case select_loop K cur x of
      None \<Rightarrow> None
    | Some (Inl e) \<Rightarrow> Some (Inl e)
    | Some (Inr (Some n, x1)) \<Rightarrow> Some (Inr (Some n, x1))
    | Some (Inr (None, x1)) \<Rightarrow>
        Some (Inr (None, emit Shutdown_Request
          ((fold (\<lambda>s y. if g_s2e_state y = Some s then y else release_state keep s y) (m_deletedStates x1) x1)\<lparr>m_deletedStates := []\<rparr>))))"

text \<open>The switch between two states fails an assertion: its body is stubbed out.\<close>

definition doStateSwitch :: "nat option \<Rightarrow> nat option \<Rightarrow> ('q, 'p) ex \<Rightarrow> ('q, 'p) ex res" where
  "doStateSwitch oldState newState x =
     rbind (assert_that (oldState \<noteq> None \<or> newState \<noteq> None)) (\<lambda>_.
     rbind (assert_that (case oldState of None \<Rightarrow> True | Some s \<Rightarrow> is_active (info x s))) (\<lambda>_.
     rbind (assert_that (case newState of None \<Rightarrow> True | Some s \<Rightarrow> \<not> is_active (info x s) \<and> \<not> runningConcrete (info x s))) (\<lambda>_.
       Inl Assertion_Failed)))"

definition selectNextState ::
  "('q, 'p) klee_executor \<Rightarrow> bool \<Rightarrow> nat \<Rightarrow> ('q, 'p) ex \<Rightarrow> (nat option \<times> ('q, 'p) ex) res option" where
  "selectNextState K keep cur x =
     (if \<not> is_active (info x cur) then Some (Inl Assertion_Failed)
      else (case selectNonSpeculativeState K keep cur (klee_updateStates K cur x) of
          None \<Rightarrow> None
        | Some (Inl e) \<Rightarrow> Some (Inl e)
        | Some (Inr (None, x1)) \<Rightarrow> Some (Inr (None, x1))
        | Some (Inr (Some n, x1)) \<Rightarrow>
            Some (rbind (assert_that (n \<in> states x1)) (\<lambda>_.
              let old = (if is_active (info x1 cur) then Some cur else None);
                  x2 = restoreYieldedState K x1
              in rbind (if old \<noteq> Some n then
                     rbind (doStateSwitch old (Some n) (emit Vm_Stop (emit (State_Switch old n) x2))) (\<lambda>x3. Inr (emit Vm_Start x3))
                   else Inr x2) (\<lambda>x3.
                 rbind (assert_that (n \<notin> set (m_deletedStates x3))) (\<lambda>_.
                   Inr (Some n, (fold (release_state keep) (m_deletedStates x3) x3)\<lparr>m_deletedStates := []\<rparr>)))))))"

section \<open>Load balancing\<close>

text \<open>\<open>child\<close> is the result of \<open>S2E::fork\<close>, in the process where the function runs on: negative on failure,
  1 in the child and 0 in the parent. The states are visited in the order of the set.\<close>

definition live_states :: "('q, 'p) ex \<Rightarrow> nat list" where
  "live_states x = filter (\<lambda>s. \<not> zombie (info x s)) (sorted_list_of_set (states x))"

definition doLoadBalancing :: "('q, 'p) klee_executor \<Rightarrow> nat \<Rightarrow> nat \<Rightarrow> nat \<Rightarrow> int \<Rightarrow> ('q, 'p) ex \<Rightarrow> ('q, 'p) ex" where
  "doLoadBalancing K processCount maxProcesses parentId child x =
     (if card (states x) < 2 then x
      else if processCount = maxProcesses then x
      else
        let allStates = live_states x; size = length allStates in
        if size < 2 then x
        else
          let x1 = emit (Process_Fork True False (-1)) (emit Vm_Stop (x\<lparr>m_inLoadBalancing := True\<rparr>)) in
          if child < 0 then emit Vm_Start ((emit (Process_Fork False False (-1)) x1)\<lparr>m_inLoadBalancing := False\<rparr>)
          else
            let n = size div 2;
                lower = (if child \<noteq> 0 then 0 else n); upper = (if child \<noteq> 0 then n else size);
                x2 = emit (Process_Fork False (child \<noteq> 0) (int parentId)) x1;
                x3 = fold (terminateStateAtFork K) (map (\<lambda>i. allStates ! i) [lower..<upper]) x2
            in emit Vm_Start ((emit (Process_Fork_Complete (child \<noteq> 0)) x3)\<lparr>m_inLoadBalancing := False\<rparr>))"

definition stateSwitchTimerCallback ::
  "('q, 'p) klee_executor \<Rightarrow> bool \<Rightarrow> nat \<Rightarrow> nat \<Rightarrow> nat \<Rightarrow> int \<Rightarrow> ('q, 'p) ex \<Rightarrow> ('q, 'p) ex res option" where
  "stateSwitchTimerCallback K keep processCount maxProcesses parentId child x = (case g_s2e_state x of
      None \<Rightarrow> Some (Inl Assertion_Failed)
    | Some cur \<Rightarrow>
        (case selectNextState K keep cur (doLoadBalancing K processCount maxProcesses parentId child x) of
            None \<Rightarrow> None
          | Some (Inl e) \<Rightarrow> Some (Inl e)
          | Some (Inr (None, x1)) \<Rightarrow> Some (Inr x1)
          | Some (Inr (Some n, x1)) \<Rightarrow> Some (Inl Assertion_Failed)))"

section \<open>Running instructions\<close>

text \<open>The loop runs until the stack has the depth of the caller, or until an instruction leaves to the
  processor loop by the exception \<open>CpuExitException\<close>.\<close>

definition leave_on_exit :: "('q, 'p) ex \<Rightarrow> (bool \<times> ('q, 'p) ex) res" where
  "leave_on_exit x = rbind (assert_that (addedStates x = {})) (\<lambda>_. Inr (True, x))"

partial_function (option) executeInstructions ::
  "('q, 'p) klee_executor \<Rightarrow> nat \<Rightarrow> nat \<Rightarrow> ('q, 'p) ex \<Rightarrow> (bool \<times> ('q, 'p) ex) res option" where
  "executeInstructions K s callerStackSize x =
     (if stack_size (info x s) = callerStackSize
      then Some (Inr (False, if callerStackSize = 1 then upd_info s (\<lambda>i. i\<lparr>at_dummy_main := True\<rparr>) x else x))
      else (case klee_step K s x of
          (Inl Cpu_Exit, x1) \<Rightarrow> Some (leave_on_exit x1)
        | (Inl e, x1) \<Rightarrow> Some (Inl e)
        | (Inr _, x1) \<Rightarrow>
            let x2 = klee_updateStates K s x1 in
            if speculative (info x2 s) \<or> m_forkProcTerminateCurrentState x2 then Some (Inl Assertion_Failed)
            else executeInstructions K s callerStackSize x2))"

definition finalizeTranslationBlockExec ::
  "('q, 'p) klee_executor \<Rightarrow> nat \<Rightarrow> ('q, 'p) ex \<Rightarrow> (bool \<times> ('q, 'p) ex) res option" where
  "finalizeTranslationBlockExec K s x =
     (if \<not> needFinalizeTBExec (info x s) then Some (Inr (False, x))
      else
        let x1 = upd_info s (\<lambda>i. i\<lparr>needFinalizeTBExec := False\<rparr>) x in
        if stack_size (info x1 s) = 1 \<or> runningConcrete (info x1 s) then Some (Inl Assertion_Failed)
        else executeInstructions K s 1 x1)"

definition cleanupTranslationBlock :: "nat \<Rightarrow> ('q, 'p) ex \<Rightarrow> ('q, 'p) ex res" where
  "cleanupTranslationBlock s x =
     rbind (assert_that (is_active (info x s))) (\<lambda>_.
     rbind (ensure_defined (stack_size (info x s) \<noteq> 0)) (\<lambda>_.
       Inr (upd_info s (\<lambda>i. i\<lparr>stack_size := 1, at_dummy_main := True\<rparr>) x)))"

section \<open>References of memory objects from the translation cache\<close>

text \<open>\<open>m_tlbMap\<close>: for an object, the entries of the software TLB that refer to it, by mode and index.\<close>

type_synonym tlb_map = "u64 \<rightharpoonup> (u32 \<times> u32) list"

definition flushTlbCache :: "tlb_map \<Rightarrow> tlb_map" where
  "flushTlbCache m = Map.empty"

definition flushTlbCachePage :: "u64 \<Rightarrow> u32 \<Rightarrow> u32 \<Rightarrow> tlb_map \<Rightarrow> tlb_map res" where
  "flushTlbCachePage obj mmu_idx index m =
     (if obj = 0 then Inr m
      else (case m obj of
          None \<Rightarrow> Inl Assertion_Failed
        | Some vec \<Rightarrow>
            rbind (assert_that ((mmu_idx, index) \<in> set vec)) (\<lambda>_.
              let vec' = remove1 (mmu_idx, index) vec
              in Inr (if vec' = [] then m(obj := None) else m(obj := Some vec')))))"

lemma flushTlbCachePage_nonempty:
  assumes "flushTlbCachePage obj i j m = Inr m'" "\<forall>k. m k \<noteq> Some []"
  shows "\<forall>k. m' k \<noteq> Some []"
  using assms by (auto simp: flushTlbCachePage_def Let_def rbind_Inr_iff split: if_splits option.splits)

section \<open>Load balancing splits the states\<close>

text \<open>What KLEE's \<open>terminateState\<close> does with a state that is not new: it is queued for removal.\<close>

definition terminate_law :: "('q, 'p) klee_executor \<Rightarrow> bool" where
  "terminate_law K \<longleftrightarrow> (\<forall>s x. s \<notin> addedStates x \<longrightarrow>
     removedStates (klee_terminate K s x) = insert s (removedStates x) \<and> addedStates (klee_terminate K s x) = addedStates x)"

lemma fold_terminate:
  assumes "terminate_law K" "addedStates x = {}"
  shows "removedStates (fold (terminateStateAtFork K) ss x) = set ss \<union> removedStates x"
  using assms(2)
proof (induction ss arbitrary: x)
  case (Cons s ss)
  have "removedStates (terminateStateAtFork K s x) = insert s (removedStates x)" "addedStates (terminateStateAtFork K s x) = {}"
    using assms(1) Cons.prems by (simp_all add: terminate_law_def terminateStateAtFork_def)
  then show ?case
    using Cons.IH [of "terminateStateAtFork K s x"] by simp
qed simp

lemma nths_upt: "n \<le> length xs \<Longrightarrow> map (\<lambda>i. xs ! i) [0..<n] = take n xs" "map (\<lambda>i. xs ! i) [n..<length xs] = drop n xs"
  by (auto simp: list_eq_iff_nth_eq)

lemma live_states_set: "finite (states x) \<Longrightarrow> set (live_states x) = {s \<in> states x. \<not> zombie (info x s)}"
  by (auto simp: live_states_def)

lemma live_states_distinct: "distinct (live_states x)"
  by (simp add: live_states_def)

lemma balance_removed:
  assumes "terminate_law K" "addedStates x = {}" "removedStates x = {}" "2 \<le> length (live_states x)" "finite (states x)"
    "processCount \<noteq> maxProcesses"
  shows "removedStates (doLoadBalancing K processCount maxProcesses parentId 1 x) = set (take (length (live_states x) div 2) (live_states x))"
    "removedStates (doLoadBalancing K processCount maxProcesses parentId 0 x) = set (drop (length (live_states x) div 2) (live_states x))"
proof -
  have "card (set (live_states x)) \<le> card (states x)"
    using assms(5) by (intro card_mono) (auto simp: live_states_set)
  then have "\<not> card (states x) < 2"
    using assms(4) live_states_distinct [of x] by (simp add: distinct_card)
  then show "removedStates (doLoadBalancing K processCount maxProcesses parentId 1 x) = set (take (length (live_states x) div 2) (live_states x))"
    "removedStates (doLoadBalancing K processCount maxProcesses parentId 0 x) = set (drop (length (live_states x) div 2) (live_states x))"
    using assms by (simp_all add: doLoadBalancing_def Let_def emit_def fold_terminate nths_upt)
qed

lemma balance_partition:
  assumes "terminate_law K" "addedStates x = {}" "removedStates x = {}" "2 \<le> length (live_states x)" "finite (states x)"
    "processCount \<noteq> maxProcesses"
    and live: "live = {s \<in> states x. \<not> zombie (info x s)}"
    and kept: "kept = (\<lambda>child. live - removedStates (doLoadBalancing K processCount maxProcesses parentId child x))"
  shows "kept 0 \<union> kept 1 = live \<and> kept 0 \<inter> kept 1 = {} \<and> card (kept 0) = card live div 2 \<and> card (kept 1) = card live - card live div 2"
proof -
  let ?l = "live_states x" and ?n = "length (live_states x) div 2"
  have d: "distinct (take ?n ?l @ drop ?n ?l)"
    using live_states_distinct by simp
  have e: "set (take ?n ?l) \<inter> set (drop ?n ?l) = {}"
    using d by (simp only: distinct_append)
  have l: "live = set (take ?n ?l) \<union> set (drop ?n ?l)"
    unfolding live live_states_set [OF assms(5), symmetric] by (simp flip: set_append)
  have k: "kept 0 = set (take ?n ?l)" "kept 1 = set (drop ?n ?l)"
    unfolding kept balance_removed [OF assms(1-6)] l using e by auto
  have "card live = length ?l"
    unfolding live live_states_set [OF assms(5), symmetric] using live_states_distinct by (rule distinct_card)
  moreover have "card (set (take ?n ?l)) = ?n" "card (set (drop ?n ?l)) = length ?l - ?n"
    using d by (simp_all add: distinct_card)
  ultimately show ?thesis
    using e l by (auto simp: k)
qed

section \<open>Rescheduling\<close>

lemma doStateSwitch_fails: "doStateSwitch old new x = Inl Assertion_Failed"
  by (auto simp: doStateSwitch_def assert_that_def)

lemma select_next_same:
  assumes "selectNextState K keep cur x = Some (Inr (Some n, x'))"
  shows "n = cur"
proof -
  obtain x1 where x1: "selectNonSpeculativeState K keep cur (klee_updateStates K cur x) = Some (Inr (Some n, x1))"
    using assms unfolding selectNextState_def
    by (auto split: if_splits option.splits sum.splits prod.splits simp: rbind_Inr_iff Let_def)
  show ?thesis
    using assms unfolding selectNextState_def x1
    by (auto simp: rbind_Inr_iff Let_def doStateSwitch_fails split: if_splits)
qed

section \<open>References to translation blocks\<close>

definition release_events :: "bool \<Rightarrow> s2e_tb \<Rightarrow> sched_event list" where
  "release_events keep t = (case tb_function t of None \<Rightarrow> [] | Some f \<Rightarrow> if keep then [] else [Remove_Function f])
     @ map Delete_Signal (executionSignals t)"

lemma emit_fold: "sched_events (fold (\<lambda>s. emit (g s)) ss x) = sched_events x @ map g ss" "tbs (fold (\<lambda>s. emit (g s)) ss x) = tbs x"
  by (induction ss arbitrary: x) (simp_all add: emit_def)

lemma unref_step:
  "tbs (unrefS2ETb keep (Some b) x) = (tbs x)(b := (tbs x b)\<lparr>refCount := refCount (tbs x b) - 1\<rparr>)"
  "sched_events (unrefS2ETb keep (Some b) x) = sched_events x @ (if refCount (tbs x b) = 1 then release_events keep (tbs x b) else [])"
  by (auto simp: unrefS2ETb_def Let_def release_events_def emit_fold emit_def split: option.splits)

lemma unref_many:
  "tbs ((unrefS2ETb keep (Some b) ^^ k) x) b = (tbs x b)\<lparr>refCount := refCount (tbs x b) - of_nat k\<rparr>"
  by (induction k) (simp_all add: unref_step algebra_simps)

lemma u32_small: "m < 2 ^ 32 \<Longrightarrow> unat (of_nat m :: u32) = m"
  by (simp add: unat_of_nat)

lemma word_one_iff: "k < n \<Longrightarrow> n < 2 ^ 32 \<Longrightarrow> (of_nat n :: u32) - of_nat k = 1 \<longleftrightarrow> n = Suc k"
proof -
  assume k: "k < n" "n < 2 ^ 32"
  then have d: "(of_nat n :: u32) - of_nat k = of_nat (n - k)"
    by (simp add: of_nat_diff)
  have u: "unat (of_nat (n - k) :: u32) = n - k"
    by (rule u32_small) (use k in simp)
  show ?thesis
    unfolding d word_unat_eq_iff u using k by auto
qed

lemma unref_events:
  assumes "refCount (tbs x b) = of_nat n" "n < 2 ^ 32" "k \<le> n"
  shows "sched_events ((unrefS2ETb keep (Some b) ^^ k) x) = sched_events x @ (if k = n \<and> 0 < n then release_events keep (tbs x b) else [])"
  using assms(3)
proof (induction k)
  case (Suc k)
  let ?y = "(unrefS2ETb keep (Some b) ^^ k) x"
  have "sched_events ?y = sched_events x"
    using Suc by simp
  moreover have "refCount (tbs ?y b) = 1 \<longleftrightarrow> n = Suc k"
    using Suc.prems assms word_one_iff [of k n] by (simp add: unref_many)
  moreover have "release_events keep (tbs ?y b) = release_events keep (tbs x b)"
    by (simp add: unref_many release_events_def)
  ultimately show ?case
    by (auto simp: unref_step)
qed auto

section \<open>Properties\<close>

text \<open>C39: Load balancing divides the work: when the processes may still grow, the states that stay alive in the
  parent (where the fork returns 0) and in the child (where it returns 1) are together all the live states, no
  state is alive in both, and each process keeps half of them, so neither is left without a state.\<close>

theorem load_balancing_partition:
  assumes "terminate_law K" "addedStates x = {}" "removedStates x = {}" "2 \<le> length (live_states x)" "finite (states x)"
    and "processCount \<noteq> maxProcesses"
    and "live = {s \<in> states x. \<not> zombie (info x s)}"
    and "kept = (\<lambda>child. live - removedStates (doLoadBalancing K processCount maxProcesses parentId child x))"
  shows "kept 0 \<union> kept 1 = live \<and> kept 0 \<inter> kept 1 = {} \<and> card (kept 0) = card live div 2 \<and> card (kept 1) = card live - card live div 2"
  by (rule balance_partition [OF assms])

definition list_klee :: "(nat list, unit) klee_executor" where
  "list_klee = \<lparr>q_add = \<lambda>s q. q @ [s], q_remove = removeAll, q_empty = (\<lambda>q. q = []), q_select = (\<lambda>q. (hd q, q)),
     q_update = (\<lambda>s q. q), p_activate = (\<lambda>s t. t), p_deactivate = (\<lambda>s t. t), p_remove = (\<lambda>s t. t),
     klee_terminate = (\<lambda>s x. x\<lparr>removedStates := insert s (removedStates x)\<rparr>), klee_updateStates = (\<lambda>s x. x),
     resolveSpeculative = (\<lambda>s x. (True, x)), klee_step = (\<lambda>s x. (Inl Cpu_Exit, x))\<rparr>"

definition plain_state :: state_info where
  "plain_state = \<lparr>zombie = False, is_active = True, runningConcrete = False, speculative = False, yielded = False,
     needFinalizeTBExec = False, stack_size = 1, at_dummy_main = True, lastS2ETb = Some 7\<rparr>"

definition three_states :: "(nat list, unit) executor" where
  "three_states = \<lparr>states = {1, 2, 3}, addedStates = {}, removedStates = {}, searcher = Some [1, 2, 3], processTree = (),
     info = (\<lambda>_. plain_state), yieldedState = None, m_deletedStates = [], g_s2e_state = Some 1, m_inLoadBalancing = False,
     m_forkProcTerminateCurrentState = False,
     tbs = (\<lambda>_. \<lparr>refCount = 2, tb_function = Some 5, executionSignals = [8, 9]\<rparr>), sched_events = []\<rparr>"

theorem load_balancing_partition_witness:
  "card ({1, 2, 3} - removedStates (doLoadBalancing list_klee 1 2 0 0 three_states)) = 1"
proof -
  have l: "live_states three_states = [1, 2, 3]"
    by (simp add: live_states_def three_states_def plain_state_def)
  have s: "{s \<in> states three_states. \<not> zombie (info three_states s)} = {1, 2, 3}"
    by (auto simp: three_states_def plain_state_def)
  have "terminate_law list_klee"
    by (simp add: terminate_law_def list_klee_def)
  from load_balancing_partition [OF this _ _ _ _ _ refl refl, of three_states 1 2 0] show ?thesis
    using l s by (simp add: three_states_def)
qed

text \<open>Another state can never be scheduled: when \<open>selectNextState\<close> returns a state at all, it is the current
  one, since the switch to another state ends in a failed assertion.\<close>

theorem selectNextState_keeps_current:
  assumes "selectNextState K keep cur x = Some (Inr (Some n, x'))"
  shows "n = cur"
  by (rule select_next_same [OF assms])

lemma select_first: "select_loop list_klee 1 three_states = Some (Inr (Some 1, three_states))"
  by (subst select_loop.simps) (simp add: list_klee_def three_states_def plain_state_def)

theorem selectNextState_keeps_current_witness:
  "\<exists>n x'. selectNextState list_klee False 1 three_states = Some (Inr (Some n, x')) \<and> n = 1"
proof -
  have "klee_updateStates list_klee 1 three_states = three_states"
    by (simp add: list_klee_def)
  then have s: "selectNextState list_klee False 1 three_states = Some (Inr (Some 1, three_states))"
    using select_first
    by (simp add: selectNextState_def selectNonSpeculativeState_def restoreYieldedState_def Let_def) (simp add: three_states_def plain_state_def)
  show ?thesis
    using s selectNextState_keeps_current [OF s] by blast
qed

text \<open>C40: A translation block with \<open>n\<close> references lives exactly until its last reference goes: the first \<open>n - 1\<close>
  calls of \<open>unrefS2ETb\<close> release nothing, and the \<open>n\<close>-th removes its function (unless functions are kept) and
  deletes each of its signals once.\<close>

theorem last_reference_releases:
  assumes "refCount (tbs x b) = of_nat n" "n < 2 ^ 32" "k \<le> n"
  shows "sched_events ((unrefS2ETb keep (Some b) ^^ k) x) = sched_events x @ (if k = n \<and> 0 < n then release_events keep (tbs x b) else [])"
  by (rule unref_events [OF assms])

theorem last_reference_releases_witness:
  "sched_events ((unrefS2ETb False (Some 7) ^^ 2) three_states) = [Remove_Function 5, Delete_Signal 8, Delete_Signal 9]"
  using last_reference_releases [of three_states 7 2 2 False] by (simp add: three_states_def release_events_def)

end
