(* ===== verification/Mmu_Handlers.thy ===== *)
theory Mmu_Handlers
  imports Symbolic_Values
begin

text \<open>
  The replacements of QEMU's memory helpers in symbolic execution (\<open>MMUFunctionHandlers.cpp\<close>, with
  the handlers of \<open>S2EExecutor.cpp\<close> that they call): the lookup in the software TLB, accesses to RAM
  and to devices, and accesses that are split. QEMU's TLB, its devices and KLEE are parameters.
\<close>

section \<open>Parameters\<close>

record tlb_entry =
  addr_read :: u64
  addr_write :: u64
  addend :: u64
  iotlb :: u64

text \<open>The state with the counter of symbolic names, the TLB by mode and index, and the devices.\<close>

record ('e, 'o, 'k, 'd) mmu_world =
  est :: "('e, 'o, 'k) exec_state"
  name_counter :: u32
  tlb_table :: "nat \<Rightarrow> nat \<Rightarrow> tlb_entry"
  devices :: 'd
  traced :: "(u64 \<times> nat \<times> bool \<times> bool) list"

text \<open>
  QEMU: \<open>tlb_fill\<close> installs an entry or leaves to the processor loop; the regions behind an I/O address
  that are memory, those that need the clock of the devices, and the devices themselves. \<open>pick\<close> is the
  concrete value for an address, by the concolic values or by the solver, which may fail; \<open>fork_eq\<close> the
  fork on the equality, and \<open>assume_eq\<close> the constraint.
\<close>

record ('e, 'o, 'k, 'd) mmu_ops =
  PAGE_BITS :: nat
  TLB_SIZE :: nat
  TLB_INVALID :: u64
  tlb_fill :: "u64 \<Rightarrow> bool \<Rightarrow> nat \<Rightarrow> (nat \<Rightarrow> nat \<Rightarrow> tlb_entry) \<Rightarrow> (nat \<Rightarrow> nat \<Rightarrow> tlb_entry) res"
  is_mem_func :: "u64 \<Rightarrow> bool \<Rightarrow> bool"
  must_recompile :: "u64 \<Rightarrow> bool"
  notdirty_ptr :: "u64 \<Rightarrow> u64"
  ram_ptr :: "u64 \<Rightarrow> u64"
  io_read :: "nat \<Rightarrow> u64 \<Rightarrow> u64 \<Rightarrow> 'd \<Rightarrow> u64 \<times> 'd"
  io_write :: "nat \<Rightarrow> u64 \<Rightarrow> u64 \<Rightarrow> u64 \<Rightarrow> 'd \<Rightarrow> 'd"
  mmio_symbolic :: "u64 \<Rightarrow> nat \<Rightarrow> bool"
  CONC_LIMIT :: u64
  no_data_listener :: bool
  e_lshr :: "'e \<Rightarrow> u64 \<Rightarrow> 'e"
  e_shl :: "'e \<Rightarrow> u64 \<Rightarrow> 'e"
  e_or :: "'e \<Rightarrow> 'e \<Rightarrow> 'e"
  simplify :: "'e \<Rightarrow> 'k \<Rightarrow> 'e"
  pick :: "'e \<Rightarrow> 'k \<Rightarrow> u64 option"
  fork_eq :: "u64 \<Rightarrow> 'e \<Rightarrow> ('e, 'o, 'k) exec_state \<Rightarrow> bool \<times> ('e, 'o, 'k) exec_state"
  assume_eq :: "u64 \<Rightarrow> 'e \<Rightarrow> ('e, 'o, 'k) exec_state \<Rightarrow> ('e, 'o, 'k) exec_state"

type_synonym ('e, 'o, 'k, 'd) mw = "('e, 'o, 'k, 'd) mmu_world"

text \<open>A computation may also not end.\<close>

definition obind :: "'a res option \<Rightarrow> ('a \<Rightarrow> 'b res option) \<Rightarrow> 'b res option" where
  "obind m f = (case m of None \<Rightarrow> None | Some (Inl e) \<Rightarrow> Some (Inl e) | Some (Inr x) \<Rightarrow> f x)"

lemma obind_simps [simp, outcome_simps]:
  "obind None f = None" "obind (Some (Inl e)) f = Some (Inl e)" "obind (Some (Inr x)) f = f x"
  by (simp_all add: obind_def)

section \<open>Addresses\<close>

text \<open>\<open>handleForkAndConcretize\<close> of an address that is not constant: the current state must be the one where
  the address has the picked value; without a value the state is terminated and an assertion fails.\<close>

definition handleForkAndConcretize ::
  "('e, 'o, 'k) klee_ops \<Rightarrow> ('e, 'o, 'k, 'd) mmu_ops \<Rightarrow> 'e \<Rightarrow> ('e, 'o, 'k, 'd) mw \<Rightarrow> (u64 \<times> ('e, 'o, 'k, 'd) mw) res" where
  "handleForkAndConcretize kl mo a w =
     (let address = simplify mo a (klee (ram (est w))) in
      case e_value kl address of
        Some c \<Rightarrow> Inr (c, w)
      | None \<Rightarrow>
          (case pick mo address (klee (ram (est w))) of
             None \<Rightarrow> Inl Assertion_Failed
           | Some c \<Rightarrow>
               if forkDisabled (est w) then Inr (c, w\<lparr>est := assume_eq mo c address (est w)\<rparr>)
               else (case fork_eq mo c address (est w) of (stays, st) \<Rightarrow>
                 rbind (assert_that stays) (\<lambda>_. Inr (c, w\<lparr>est := st\<rparr>)))))"

definition handleForkAndConcretizeNative ::
  "('e, 'o, 'k) klee_ops \<Rightarrow> ('e, 'o, 'k, 'd) mmu_ops \<Rightarrow> 'e \<Rightarrow> ('e, 'o, 'k, 'd) mw \<Rightarrow> (u64 \<times> ('e, 'o, 'k, 'd) mw) res" where
  "handleForkAndConcretizeNative kl mo a w = (case e_value kl a of
     Some c \<Rightarrow> Inr (c, w) | None \<Rightarrow> handleForkAndConcretize kl mo a w)"

section \<open>Tracing\<close>

text \<open>The handler wants seven arguments, the last one for code accesses.\<close>

definition handlerTraceMemoryAccess ::
  "('e, 'o, 'k, 'd) mmu_ops \<Rightarrow> nat \<Rightarrow> u64 \<times> nat \<times> bool \<times> bool \<Rightarrow> ('e, 'o, 'k, 'd) mw \<Rightarrow> ('e, 'o, 'k, 'd) mw res" where
  "handlerTraceMemoryAccess mo nargs ev w =
     (if no_data_listener mo then Inr w
      else rbind (assert_that (nargs = 7)) (\<lambda>_. Inr (w\<lparr>traced := traced w @ [ev]\<rparr>)))"

section \<open>Devices\<close>

definition page_mask :: "('e, 'o, 'k, 'd) mmu_ops \<Rightarrow> u64" where
  "page_mask mo = NOT (mask (PAGE_BITS mo))"

text \<open>Hexadecimal digits as the stream prints them, and the label of a symbolic read.\<close>

fun hexval :: "nat \<Rightarrow> string" where
  "hexval n = (if n < 16 then [''0123456789abcdef'' ! n] else hexval (n div 16) @ [''0123456789abcdef'' ! (n mod 16)])"

declare hexval.simps [simp del]

definition mmio_label :: "('e, 'o, 'k, 'd) mmu_ops \<Rightarrow> u64 \<Rightarrow> string" where
  "mmio_label mo naddr = ''iommuread_'' @ hexval (unat naddr) @ ''@'' @ hexval (unat (CONC_LIMIT mo))"

definition io_width :: "nat \<Rightarrow> bool" where "io_width width \<longleftrightarrow> width \<in> {8, 16, 32, 64}"

definition io_write_chk ::
  "('e, 'o, 'k) klee_ops \<Rightarrow> qemu_ops \<Rightarrow> ('e, 'o, 'k, 'd) mmu_ops \<Rightarrow> u64 \<Rightarrow> 'e \<Rightarrow> u64 \<Rightarrow> nat \<Rightarrow> ('e, 'o, 'k, 'd) mw \<Rightarrow>
   ('e, 'o, 'k, 'd) mw res" where
  "io_write_chk kl q mo physaddr val addr width w =
     (let naddr = (physaddr AND page_mask mo) + addr in
      if must_recompile mo physaddr then Inl Cpu_Exit
      else if is_mem_func mo physaddr True then
        rbind (writeMemory kl q (notdirty_ptr mo naddr) val HostAddress (ram (est w))) (\<lambda>(_, r).
          Inr (w\<lparr>est := (est w)\<lparr>ram := r\<rparr>\<rparr>))
      else
        (let (c, k) = (case e_value kl val of Some c \<Rightarrow> (c, klee (ram (est w))) | None \<Rightarrow> to_constant kl val (klee (ram (est w)))) in
         rbind (assert_that (io_width width)) (\<lambda>_.
           Inr (w\<lparr>est := (est w)\<lparr>ram := (ram (est w))\<lparr>klee := k\<rparr>\<rparr>, devices := io_write mo width physaddr c addr (devices w)\<rparr>))))"

definition io_read_chk ::
  "('e, 'o, 'k) klee_ops \<Rightarrow> ('e, 'k) sym_ops \<Rightarrow> qemu_ops \<Rightarrow> ('e, 'o, 'k, 'd) mmu_ops \<Rightarrow> u64 \<Rightarrow> u64 \<Rightarrow> nat \<Rightarrow>
   ('e, 'o, 'k, 'd) mw \<Rightarrow> ('e \<times> ('e, 'o, 'k, 'd) mw) res" where
  "io_read_chk kl sy q mo physaddr addr width w =
     (let naddr = (physaddr AND page_mask mo) + addr; isSymb = mmio_symbolic mo naddr (width div 8) in
      if must_recompile mo physaddr then Inl Cpu_Exit
      else if is_mem_func mo physaddr False then
        if isSymb then
          rbind (createSymbolicValue sy (mmio_label mo naddr) width (est w, name_counter w)) (\<lambda>(v, st, i).
            Inr (v, w\<lparr>est := st, name_counter := i\<rparr>))
        else rbind (readMemory kl q (ram_ptr mo naddr) width HostAddress (ram (est w))) (\<lambda>(v, r).
          case v of None \<Rightarrow> Inl Undefined_Behaviour | Some e \<Rightarrow> Inr (e, w\<lparr>est := (est w)\<lparr>ram := r\<rparr>\<rparr>))
      else rbind (assert_that (io_width width)) (\<lambda>_.
        case io_read mo width physaddr addr (devices w) of (c, d) \<Rightarrow> Inr (e_const kl c width, w\<lparr>devices := d\<rparr>)))"

section \<open>The software TLB\<close>

definition tlb_index :: "('e, 'o, 'k, 'd) mmu_ops \<Rightarrow> u64 \<Rightarrow> nat" where
  "tlb_index mo addr = unat (drop_bit (PAGE_BITS mo - RAM_OBJECT_BITS) (drop_bit RAM_OBJECT_BITS addr) AND (of_nat (TLB_SIZE mo) - 1))"

definition tlb_tag :: "bool \<Rightarrow> tlb_entry \<Rightarrow> u64" where
  "tlb_tag isWrite e = (if isWrite then addr_write e else addr_read e)"

text \<open>The label \<open>redo\<close>: the entry is filled until it matches.\<close>

partial_function (option) tlb_loop ::
  "('e, 'o, 'k, 'd) mmu_ops \<Rightarrow> u64 \<Rightarrow> bool \<Rightarrow> nat \<Rightarrow> ('e, 'o, 'k, 'd) mw \<Rightarrow> (tlb_entry \<times> ('e, 'o, 'k, 'd) mw) res option" where
  "tlb_loop mo addr isWrite mmu_idx w =
     (let e = tlb_table w mmu_idx (tlb_index mo addr) in
      if addr AND page_mask mo = tlb_tag isWrite e AND (page_mask mo OR TLB_INVALID mo) then Some (Inr (e, w))
      else (case tlb_fill mo addr isWrite mmu_idx (tlb_table w) of
          Inl x \<Rightarrow> Some (Inl x)
        | Inr t \<Rightarrow> tlb_loop mo addr isWrite mmu_idx (w\<lparr>tlb_table := t\<rparr>)))"

section \<open>Accesses\<close>

type_synonym ('e, 'o, 'k, 'd) access =
  "'e \<Rightarrow> 'e option \<Rightarrow> nat \<Rightarrow> bool \<Rightarrow> nat \<Rightarrow> bool \<Rightarrow> ('e, 'o, 'k, 'd) mw \<Rightarrow> ('e option \<times> ('e, 'o, 'k, 'd) mw) res option"

text \<open>The bytes of a split write, the highest first.\<close>

definition byte_shift :: "qemu_ops \<Rightarrow> nat \<Rightarrow> nat \<Rightarrow> u64" where
  "byte_shift q sz i = (if littleEndian q then of_nat (i * 8) else of_nat ((sz - 1) * 8 - i * 8))"

fun split_write ::
  "('e, 'o, 'k, 'd) access \<Rightarrow> ('e, 'o, 'k) klee_ops \<Rightarrow> qemu_ops \<Rightarrow> ('e, 'o, 'k, 'd) mmu_ops \<Rightarrow> u64 \<Rightarrow> 'e \<Rightarrow> nat \<Rightarrow> nat \<Rightarrow> nat \<Rightarrow>
   ('e, 'o, 'k, 'd) mw \<Rightarrow> ('e, 'o, 'k, 'd) mw res option" where
  "split_write rec kl q mo addr value mmu_idx sz 0 w = Some (Inr w)"
| "split_write rec kl q mo addr value mmu_idx sz (Suc i) w =
     obind (rec (e_const kl (addr + of_nat i) 64) (Some (e_extract kl (e_lshr mo value (byte_shift q sz i)) 0 8)) mmu_idx True 1 False w)
       (\<lambda>(_, w1). split_write rec kl q mo addr value mmu_idx sz i w1)"

text \<open>A split read: the two aligned accesses around the address. The mask \<open>~(data_size - 1)\<close> has 32 bits.\<close>

definition align_down :: "u64 \<Rightarrow> nat \<Rightarrow> u64" where
  "align_down addr sz = addr AND ucast (NOT (of_nat sz - 1) :: u32)"

definition split_read ::
  "('e, 'o, 'k, 'd) access \<Rightarrow> ('e, 'o, 'k) klee_ops \<Rightarrow> qemu_ops \<Rightarrow> ('e, 'o, 'k, 'd) mmu_ops \<Rightarrow> u64 \<Rightarrow> nat \<Rightarrow> nat \<Rightarrow> bool \<Rightarrow>
   ('e, 'o, 'k, 'd) mw \<Rightarrow> ('e option \<times> ('e, 'o, 'k, 'd) mw) res option" where
  "split_read rec kl q mo addr mmu_idx sz zx w =
     (let addr1 = align_down addr sz; addr2 = addr1 + of_nat sz;
          shift = (addr AND (of_nat sz - 1)) * 8; shift2 = of_nat sz * 8 - shift in
      obind (rec (e_const kl addr1 64) None mmu_idx False sz zx w) (\<lambda>(v1, w1).
      obind (rec (e_const kl addr2 64) None mmu_idx False sz zx w1) (\<lambda>(v2, w2).
        case (v1, v2) of
          (Some a, Some b) \<Rightarrow> Some (Inr (Some (if littleEndian q then e_or mo (e_lshr mo a shift) (e_shl mo b shift2)
                                              else e_or mo (e_shl mo a shift) (e_lshr mo b shift2)), w2))
        | _ \<Rightarrow> Some (Inl Undefined_Behaviour))))"

definition io_access ::
  "('e, 'o, 'k) klee_ops \<Rightarrow> ('e, 'k) sym_ops \<Rightarrow> qemu_ops \<Rightarrow> ('e, 'o, 'k, 'd) mmu_ops \<Rightarrow> u64 \<Rightarrow> u64 \<Rightarrow> 'e option \<Rightarrow> bool \<Rightarrow> nat \<Rightarrow>
   ('e, 'o, 'k, 'd) mw \<Rightarrow> ('e option \<times> ('e, 'o, 'k, 'd) mw) res" where
  "io_access kl sy q mo ioaddr addr value isWrite sz w =
     rbind (if isWrite then Inr (value, w) else rbind (io_read_chk kl sy q mo ioaddr addr (sz * 8) w) (\<lambda>(v, w1). Inr (Some v, w1))) (\<lambda>(v, w1).
     rbind (handlerTraceMemoryAccess mo 6 (addr + ioaddr, sz * 8, isWrite, True) w1) (\<lambda>w2.
       if isWrite then
         (case v of None \<Rightarrow> Inl Undefined_Behaviour
          | Some e \<Rightarrow> rbind (io_write_chk kl q mo ioaddr e addr (sz * 8) w2) (\<lambda>w3. Inr (v, w3)))
       else Inr (v, w2)))"

definition ram_access ::
  "('e, 'o, 'k) klee_ops \<Rightarrow> qemu_ops \<Rightarrow> ('e, 'o, 'k, 'd) mmu_ops \<Rightarrow> u64 \<Rightarrow> 'e option \<Rightarrow> bool \<Rightarrow> nat \<Rightarrow> ('e, 'o, 'k, 'd) mw \<Rightarrow>
   ('e option \<times> ('e, 'o, 'k, 'd) mw) res" where
  "ram_access kl q mo host value isWrite sz w =
     rbind (if isWrite then
              (case value of None \<Rightarrow> Inl Undefined_Behaviour
               | Some e \<Rightarrow> rbind (writeMemory kl q host e HostAddress (ram (est w))) (\<lambda>(_, r). Inr (value, r)))
            else rbind (readMemory kl q host (sz * 8) HostAddress (ram (est w))) (\<lambda>(v, r).
              case v of None \<Rightarrow> Inl Undefined_Behaviour | Some e \<Rightarrow> Inr (Some e, r))) (\<lambda>(v, r).
     rbind (handlerTraceMemoryAccess mo 6 (host, sz * 8, isWrite, False) (w\<lparr>est := (est w)\<lparr>ram := r\<rparr>\<rparr>)) (\<lambda>w2. Inr (v, w2)))"

text \<open>The accesses of a read that is split are aligned and those of a split write single bytes, so that they are
  not split again: the recursion is at most two deep, which \<open>depth_enough\<close> proves.\<close>

definition must_split :: "('e, 'o, 'k, 'd) mmu_ops \<Rightarrow> u64 \<Rightarrow> nat \<Rightarrow> u64 \<Rightarrow> bool" where
  "must_split mo addr sz tag =
     (if tag AND NOT (page_mask mo) \<noteq> 0 then addr AND (of_nat sz - 1) \<noteq> 0 else RAM_OBJECT_SIZE \<le> obj_offset addr + sz - 1)"

fun handle_ldst_mmu_n ::
  "nat \<Rightarrow> ('e, 'o, 'k) klee_ops \<Rightarrow> ('e, 'k) sym_ops \<Rightarrow> qemu_ops \<Rightarrow> ('e, 'o, 'k, 'd) mmu_ops \<Rightarrow> ('e, 'o, 'k, 'd) access" where
  "handle_ldst_mmu_n 0 kl sy q mo a value mmu_idx isWrite sz zx w = Some (Inl Undefined_Behaviour)"
| "handle_ldst_mmu_n (Suc d) kl sy q mo a value mmu_idx isWrite sz zx w =
     obind (Some (handleForkAndConcretizeNative kl mo a w)) (\<lambda>(addr, w1).
     obind (Some (assert_that (isWrite \<longrightarrow> (case value of None \<Rightarrow> False | Some e \<Rightarrow> e_width kl e = sz * 8)))) (\<lambda>_.
     obind (tlb_loop mo addr isWrite mmu_idx w1) (\<lambda>(e, w2).
     obind (if must_split mo addr sz (tlb_tag isWrite e) then
              (if isWrite then
                 obind (split_write (handle_ldst_mmu_n d kl sy q mo) kl q mo addr (the value) mmu_idx sz sz w2) (\<lambda>w3. Some (Inr (value, w3)))
               else split_read (handle_ldst_mmu_n d kl sy q mo) kl q mo addr mmu_idx sz zx w2)
            else if tlb_tag isWrite e AND NOT (page_mask mo) \<noteq> 0 then Some (io_access kl sy q mo (iotlb e) addr value isWrite sz w2)
            else Some (ram_access kl q mo (addr + addend e) value isWrite sz w2)) (\<lambda>(v, w3).
       if isWrite then Some (Inr (None, w3))
       else if zx then
         (if sz = 2 then (case v of None \<Rightarrow> Some (Inl Undefined_Behaviour) | Some x \<Rightarrow> Some (Inr (Some (e_zext kl x 32), w3)))
          else Some (Inl Assertion_Failed))
       else Some (Inr (v, w3))))))"

definition handle_ldst_mmu where "handle_ldst_mmu kl sy q mo = handle_ldst_mmu_n 2 kl sy q mo"

text \<open>The handlers by access size; a load binds a value of the width of the access.\<close>

definition handle_ld_mmu ::
  "('e, 'o, 'k) klee_ops \<Rightarrow> ('e, 'k) sym_ops \<Rightarrow> qemu_ops \<Rightarrow> ('e, 'o, 'k, 'd) mmu_ops \<Rightarrow> nat \<Rightarrow> 'e \<Rightarrow> nat \<Rightarrow> ('e, 'o, 'k, 'd) mw \<Rightarrow>
   ('e \<times> ('e, 'o, 'k, 'd) mw) res option" where
  "handle_ld_mmu kl sy q mo sz a mmu_idx w =
     obind (handle_ldst_mmu kl sy q mo a None mmu_idx False sz False w) (\<lambda>(v, w1).
       case v of None \<Rightarrow> Some (Inl Undefined_Behaviour)
       | Some e \<Rightarrow> Some (rbind (assert_that (e_width kl e = sz * 8)) (\<lambda>_. Inr (e, w1))))"

definition handle_st_mmu ::
  "('e, 'o, 'k) klee_ops \<Rightarrow> ('e, 'k) sym_ops \<Rightarrow> qemu_ops \<Rightarrow> ('e, 'o, 'k, 'd) mmu_ops \<Rightarrow> nat \<Rightarrow> 'e \<Rightarrow> 'e \<Rightarrow> nat \<Rightarrow> ('e, 'o, 'k, 'd) mw \<Rightarrow>
   ('e, 'o, 'k, 'd) mw res option" where
  "handle_st_mmu kl sy q mo sz a value mmu_idx w =
     obind (handle_ldst_mmu kl sy q mo a (Some value) mmu_idx True sz False w) (\<lambda>(_, w1). Some (Inr w1))"

text \<open>The kernel accesses compare the read tag of an entry with the page and the alignment of the address, also
  for writes, and use the TLB of mode \<open>CPU_MMU_INDEX\<close>, which is 0.\<close>

definition handle_ldst_kernel ::
  "('e, 'o, 'k) klee_ops \<Rightarrow> ('e, 'k) sym_ops \<Rightarrow> qemu_ops \<Rightarrow> ('e, 'o, 'k, 'd) mmu_ops \<Rightarrow> 'e \<Rightarrow> 'e option \<Rightarrow> bool \<Rightarrow> nat \<Rightarrow> bool \<Rightarrow>
   ('e, 'o, 'k, 'd) mw \<Rightarrow> ('e option \<times> ('e, 'o, 'k, 'd) mw) res option" where
  "handle_ldst_kernel kl sy q mo a value isWrite sz zx w =
     obind (Some (handleForkAndConcretizeNative kl mo a w)) (\<lambda>(addr, w1).
       let e = tlb_table w1 0 (tlb_index mo addr) in
       if addr_read e \<noteq> addr AND (page_mask mo OR (of_nat sz - 1)) then
         handle_ldst_mmu kl sy q mo (e_const kl addr 64) value 0 isWrite sz zx w1
       else obind (Some (ram_access kl q mo (addr + addend e) value isWrite sz w1)) (\<lambda>(v, w2).
         if isWrite then Some (Inr (None, w2))
         else if zx then
           (if sz = 2 then (case v of None \<Rightarrow> Some (Inl Undefined_Behaviour) | Some x \<Rightarrow> Some (Inr (Some (e_zext kl x 32), w2)))
            else Some (Inl Assertion_Failed))
         else Some (Inr (v, w2))))"

text \<open>Loads of four and eight bytes, unsigned loads of two bytes, stores of four and eight bytes.\<close>

definition handle_ld_kernel ::
  "('e, 'o, 'k) klee_ops \<Rightarrow> ('e, 'k) sym_ops \<Rightarrow> qemu_ops \<Rightarrow> ('e, 'o, 'k, 'd) mmu_ops \<Rightarrow> nat \<Rightarrow> 'e \<Rightarrow>
   ('e, 'o, 'k, 'd) mw \<Rightarrow> ('e option \<times> ('e, 'o, 'k, 'd) mw) res option" where
  "handle_ld_kernel kl sy q mo sz a w = handle_ldst_kernel kl sy q mo a None False sz (sz = 2) w"

definition handle_st_kernel ::
  "('e, 'o, 'k) klee_ops \<Rightarrow> ('e, 'k) sym_ops \<Rightarrow> qemu_ops \<Rightarrow> ('e, 'o, 'k, 'd) mmu_ops \<Rightarrow> nat \<Rightarrow> 'e \<Rightarrow> 'e \<Rightarrow>
   ('e, 'o, 'k, 'd) mw \<Rightarrow> ('e option \<times> ('e, 'o, 'k, 'd) mw) res option" where
  "handle_st_kernel kl sy q mo sz a value w = handle_ldst_kernel kl sy q mo a (Some value) True sz False w"

section \<open>The depth of the recursion\<close>

text \<open>The constants that the handlers pass on have their value.\<close>

definition const_value :: "('e, 'o, 'k) klee_ops \<Rightarrow> bool" where
  "const_value kl \<longleftrightarrow> (\<forall>c. e_value kl (e_const kl c 64) = Some c)"

definition access_size :: "nat \<Rightarrow> bool" where "access_size sz \<longleftrightarrow> sz \<in> {1, 2, 4, 8}"

lemma access_size_power: "access_size sz \<Longrightarrow> \<exists>n \<le> 3. sz = 2 ^ n"
  unfolding access_size_def by (auto intro: exI [of _ 0] exI [of _ 1] exI [of _ 2] exI [of _ 3])

lemma low_bits:
  assumes "access_size sz" shows "unat (addr AND (of_nat sz - 1) :: u64) = unat addr mod sz"
proof -
  obtain n where n: "n \<le> 3" "sz = 2 ^ n" using access_size_power [OF assms] by auto
  have "addr AND (of_nat sz - 1) = take_bit n addr"
    by (simp only: n(2) take_bit_eq_mask mask_eq_exp_minus_1 of_nat_power of_nat_numeral)
  moreover have "unat (take_bit n addr) = take_bit n (unat addr)" by (rule unsigned_take_bit_eq)
  ultimately show ?thesis by (simp only: n(2) take_bit_eq_mod)
qed

lemma align_down_value:
  assumes "access_size sz" shows "unat (align_down addr sz) = unat addr mod 2 ^ 32 div sz * sz"
proof -
  obtain n where n: "n \<le> 3" "sz = 2 ^ n" using access_size_power [OF assms] by auto
  have "align_down addr sz = take_bit 32 addr AND NOT (mask n)"
    by (rule bit_eqI) (auto simp: align_down_def n(2) mask_eq_exp_minus_1 [symmetric] bit_simps)
  also have "\<dots> = push_bit n (drop_bit n (take_bit 32 addr))"
    by (rule bit_eqI) (auto simp: bit_simps)
  finally have "align_down addr sz = push_bit n (drop_bit n (take_bit 32 addr))" .
  moreover have "unat (push_bit n (drop_bit n (take_bit 32 addr))) = unat addr mod 2 ^ 32 div 2 ^ n * 2 ^ n"
  proof -
    have t: "unat (take_bit 32 addr) = unat addr mod 2 ^ 32"
      by (rule trans [OF unsigned_take_bit_eq take_bit_eq_mod])
    have "unat addr mod 2 ^ 32 div 2 ^ n * 2 ^ n \<le> unat addr mod 2 ^ 32" by (rule div_times_less_eq_dividend)
    also have "\<dots> < 2 ^ 64" by (rule less_le_trans [OF mod_less_divisor]) simp_all
    finally have "take_bit 64 (push_bit n (drop_bit n (unat (take_bit 32 addr)))) = unat addr mod 2 ^ 32 div 2 ^ n * 2 ^ n"
      by (simp add: t push_bit_eq_mult drop_bit_eq_div take_bit_nat_eq_self)
    moreover have "unat (push_bit n (drop_bit n (take_bit 32 addr))) = take_bit 64 (push_bit n (drop_bit n (unat (take_bit 32 addr))))"
      by (rule trans [OF unsigned_push_bit_eq]) (use unsigned_less [of "take_bit 32 addr", where 'a = nat] in \<open>simp add: unsigned_drop_bit_eq take_bit_nat_eq_self\<close>)
    ultimately show ?thesis by simp
  qed
  ultimately show ?thesis by (simp only: n(2))
qed

lemma aligned_fits:
  assumes "access_size sz" "unat addr mod sz = 0" shows "obj_offset addr + sz \<le> RAM_OBJECT_SIZE"
proof -
  have "sz dvd 128" "0 < sz" using assms(1) by (auto simp: access_size_def)
  then have "unat addr mod 128 mod sz = 0" using assms(2) by (simp add: mod_mod_cancel)
  then have "sz dvd 128 - unat addr mod 128" using \<open>sz dvd 128\<close> by (intro dvd_diff_nat) auto
  then have "sz \<le> 128 - unat addr mod 128" by (rule dvd_imp_le) simp
  moreover have "unat addr mod 128 < 128" by simp
  ultimately show ?thesis by (simp add: obj_offset_mod RAM_OBJECT_SIZE_128)
qed

lemma aligned_not_split:
  assumes "access_size sz" "unat addr mod sz = 0" shows "\<not> must_split mo addr sz tag"
proof -
  have "0 < sz" using assms(1) by (auto simp: access_size_def)
  then show ?thesis
    using assms(2) low_bits [OF assms(1), of addr] aligned_fits [OF assms]
    by (auto simp: must_split_def unat_eq_0)
qed

lemma align_down_aligned:
  assumes "access_size sz"
  shows "unat (align_down addr sz) mod sz = 0" "unat (align_down addr sz + of_nat sz) mod sz = 0"
proof -
  have "sz dvd 2 ^ 64" using assms by (auto simp: access_size_def)
  then show "unat (align_down addr sz) mod sz = 0" "unat (align_down addr sz + of_nat sz) mod sz = 0"
    by (simp_all add: align_down_value [OF assms] unat_word_ariths mod_mod_cancel unat_of_nat mod_add_eq)
qed

lemma native_const:
  "e_value kl a = Some addr \<Longrightarrow> handleForkAndConcretizeNative kl mo a w = Inr (addr, w)"
  by (simp add: handleForkAndConcretizeNative_def)

lemma aligned_depth:
  assumes "e_value kl a = Some addr" "access_size sz" "unat addr mod sz = 0"
  shows "handle_ldst_mmu_n (Suc d) kl sy q mo a v idx wr sz zx w = handle_ldst_mmu_n (Suc 0) kl sy q mo a v idx wr sz zx w"
  by (simp add: native_const [OF assms(1)] aligned_not_split [OF assms(2,3)])

lemma split_write_depth:
  assumes "const_value kl"
  shows "split_write (handle_ldst_mmu_n (Suc d) kl sy q mo) kl q mo addr e idx sz i w =
    split_write (handle_ldst_mmu_n (Suc 0) kl sy q mo) kl q mo addr e idx sz i w"
proof (induction i arbitrary: w)
  case (Suc i)
  have "handle_ldst_mmu_n (Suc d) kl sy q mo (e_const kl (addr + of_nat i) 64) v idx True 1 False w =
      handle_ldst_mmu_n (Suc 0) kl sy q mo (e_const kl (addr + of_nat i) 64) v idx True 1 False w" for v
    using assms by (intro aligned_depth) (auto simp: const_value_def access_size_def)
  then show ?case by (simp add: Suc.IH split_def del: handle_ldst_mmu_n.simps)
qed simp

lemma split_read_depth:
  assumes "const_value kl" "access_size sz"
  shows "split_read (handle_ldst_mmu_n (Suc d) kl sy q mo) kl q mo addr idx sz zx w =
    split_read (handle_ldst_mmu_n (Suc 0) kl sy q mo) kl q mo addr idx sz zx w"
proof -
  have "handle_ldst_mmu_n (Suc d) kl sy q mo (e_const kl c 64) None idx False sz zx w' =
      handle_ldst_mmu_n (Suc 0) kl sy q mo (e_const kl c 64) None idx False sz zx w'"
    if "c \<in> {align_down addr sz, align_down addr sz + of_nat sz}" for c w'
    using that align_down_aligned [OF assms(2)] assms by (intro aligned_depth [where addr = c]) (auto simp: const_value_def)
  then show ?thesis by (simp add: split_read_def Let_def del: handle_ldst_mmu_n.simps)
qed

lemma depth_enough:
  assumes "const_value kl" "access_size sz"
  shows "handle_ldst_mmu_n (Suc (Suc d)) kl sy q mo a v idx wr sz zx w = handle_ldst_mmu kl sy q mo a v idx wr sz zx w"
proof -
  have two: "(2::nat) = Suc (Suc 0)" by simp
  show ?thesis unfolding handle_ldst_mmu_def two
    by (subst (1 2) handle_ldst_mmu_n.simps(2)) (simp only: split_write_depth [OF assms(1), of d] split_read_depth [OF assms, of d])
qed

section \<open>Data listeners\<close>

lemma obind_ok: "obind m f = Some (Inr r) \<longleftrightarrow> (\<exists>x. m = Some (Inr x) \<and> f x = Some (Inr r))"
  by (auto simp: obind_def split: option.splits sum.splits)

lemma rbind_ok: "rbind m f = Inr r \<longleftrightarrow> (\<exists>x. m = Inr x \<and> f x = Inr r)"
  by (cases m) auto

lemma trace_stops: "\<not> no_data_listener mo \<Longrightarrow> handlerTraceMemoryAccess mo 6 ev w \<noteq> Inr r"
  by (simp add: handlerTraceMemoryAccess_def assert_that_def)

lemma io_access_stops: "\<not> no_data_listener mo \<Longrightarrow> io_access kl sy q mo io addr v wr sz w \<noteq> Inr r"
  by (auto simp: io_access_def rbind_ok trace_stops)

lemma ram_access_stops: "\<not> no_data_listener mo \<Longrightarrow> ram_access kl q mo h v wr sz w \<noteq> Inr r"
  by (auto simp: ram_access_def rbind_ok trace_stops)

lemma split_write_stops:
  assumes "\<And>a v idx wr sz zx w r. 0 < sz \<Longrightarrow> rec a v idx wr sz zx w \<noteq> Some (Inr r)" "0 < i"
  shows "split_write rec kl q mo addr e idx sz i w \<noteq> Some (Inr r)"
  using assms by (cases i) (auto simp: obind_ok)

lemma split_read_stops:
  assumes "\<And>a v idx wr sz zx w r. 0 < sz \<Longrightarrow> rec a v idx wr sz zx w \<noteq> Some (Inr r)" "0 < sz"
  shows "split_read rec kl q mo addr idx sz zx w \<noteq> Some (Inr r)"
  using assms by (auto simp: split_read_def Let_def obind_ok)

lemma handle_ldst_mmu_n_stops:
  assumes "\<not> no_data_listener mo"
  shows "0 < sz \<Longrightarrow> handle_ldst_mmu_n d kl sy q mo a v idx wr sz zx w \<noteq> Some (Inr r)"
proof (induction d arbitrary: a v idx wr sz zx w r)
  case (Suc d)
  note rec = split_write_stops [of "handle_ldst_mmu_n d kl sy q mo", OF Suc.IH]
    split_read_stops [of "handle_ldst_mmu_n d kl sy q mo", OF Suc.IH]
  from Suc.prems rec show ?case
    by (auto simp: obind_ok io_access_stops [OF assms] ram_access_stops [OF assms] split: if_splits)
qed simp

section \<open>Ends of an access\<close>

text \<open>QEMU documents that \<open>tlb_fill\<close> installs the entry of the page or does not return.\<close>

definition tlb_hit :: "('e, 'o, 'k, 'd) mmu_ops \<Rightarrow> u64 \<Rightarrow> bool \<Rightarrow> tlb_entry \<Rightarrow> bool" where
  "tlb_hit mo addr isWrite e \<longleftrightarrow> addr AND page_mask mo = tlb_tag isWrite e AND (page_mask mo OR TLB_INVALID mo)"

definition fill_laws :: "('e, 'o, 'k, 'd) mmu_ops \<Rightarrow> bool" where
  "fill_laws mo \<longleftrightarrow> (\<forall>addr wr idx t t'. tlb_fill mo addr wr idx t = Inr t' \<longrightarrow> tlb_hit mo addr wr (t' idx (tlb_index mo addr)))"

lemma tlb_loop_hit:
  "tlb_hit mo addr wr (tlb_table w idx (tlb_index mo addr)) \<Longrightarrow>
   tlb_loop mo addr wr idx w = Some (Inr (tlb_table w idx (tlb_index mo addr), w))"
  by (subst tlb_loop.simps) (simp add: tlb_hit_def)

lemma tlb_loop_returns:
  assumes "fill_laws mo" shows "tlb_loop mo addr wr idx w \<noteq> None"
proof (cases "tlb_hit mo addr wr (tlb_table w idx (tlb_index mo addr))")
  case False
  show ?thesis
  proof (cases "tlb_fill mo addr wr idx (tlb_table w)")
    case (Inr t)
    then have "tlb_hit mo addr wr (t idx (tlb_index mo addr))" using assms by (simp add: fill_laws_def)
    then have "tlb_loop mo addr wr idx (w\<lparr>tlb_table := t\<rparr>) \<noteq> None" by (subst tlb_loop_hit) simp_all
    then show ?thesis using False Inr by (subst tlb_loop.simps) (simp add: tlb_hit_def)
  qed (use False in \<open>subst tlb_loop.simps, simp add: tlb_hit_def\<close>)
qed (simp add: tlb_loop_hit)

lemma obind_None: "obind m f = None \<longleftrightarrow> m = None \<or> (\<exists>x. m = Some (Inr x) \<and> f x = None)"
  by (auto simp: obind_def split: option.splits sum.splits)

lemma split_returns:
  assumes "\<And>a v idx wr sz zx w. rec a v idx wr sz zx w \<noteq> None"
  shows "split_write rec kl q mo addr e idx sz i w \<noteq> None" "split_read rec kl q mo addr idx sz zx w \<noteq> None"
proof -
  show "split_write rec kl q mo addr e idx sz i w \<noteq> None"
    using assms by (induction i arbitrary: w) (simp_all add: obind_None split_def del: not_None_eq)
  show "split_read rec kl q mo addr idx sz zx w \<noteq> None"
    using assms by (simp add: split_read_def Let_def obind_None split_def del: not_None_eq split: option.splits)
qed

lemma handle_ldst_mmu_n_returns:
  assumes "fill_laws mo"
  shows "handle_ldst_mmu_n d kl sy q mo a v idx wr sz zx w \<noteq> None"
proof (induction d arbitrary: a v idx wr sz zx w)
  case (Suc d)
  note rec = split_returns [of "handle_ldst_mmu_n d kl sy q mo", OF Suc.IH]
  show ?case
    using rec tlb_loop_returns [OF assms] by (auto simp: obind_None split_def simp del: not_None_eq split: option.splits)
qed simp

section \<open>Values of loads\<close>

text \<open>The meaning of the shifts and of the disjunction.\<close>

definition shift_laws :: "('e, 'o, 'k) klee_ops \<Rightarrow> ('e, 'o, 'k, 'd) mmu_ops \<Rightarrow> ('e \<Rightarrow> 'm \<Rightarrow> nat) \<Rightarrow> bool" where
  "shift_laws kl mo ev \<longleftrightarrow>
     (\<forall>e s m. ev (e_lshr mo e s) m = ev e m div 2 ^ unat s) \<and>
     (\<forall>e s m. ev (e_shl mo e s) m = ev e m * 2 ^ unat s mod 2 ^ e_width kl e) \<and>
     (\<forall>a b m. e_width kl a = e_width kl b \<longrightarrow> ev (e_or mo a b) m = ev a m OR ev b m) \<and>
     (\<forall>e s. e_width kl (e_lshr mo e s) = e_width kl e \<and> e_width kl (e_shl mo e s) = e_width kl e) \<and>
     (\<forall>a b. e_width kl (e_or mo a b) = e_width kl a)"

text \<open>The host address of a byte by its TLB entry, and bytes of RAM that a load finds there.\<close>

definition host_byte :: "('e, 'o, 'k, 'd) mmu_ops \<Rightarrow> ('e, 'o, 'k, 'd) mw \<Rightarrow> nat \<Rightarrow> u64 \<Rightarrow> u64" where
  "host_byte mo w idx a = a + addend (tlb_table w idx (tlb_index mo a))"

definition readable :: "('e, 'o, 'k) klee_ops \<Rightarrow> ('e, 'o, 'k, 'd) mmu_ops \<Rightarrow> ('e, 'o, 'k, 'd) mw \<Rightarrow> nat \<Rightarrow> u64 \<Rightarrow> bool" where
  "readable kl mo w idx a \<longleftrightarrow>
     tlb_hit mo a False (tlb_table w idx (tlb_index mo a)) \<and>
     addr_read (tlb_table w idx (tlb_index mo a)) AND NOT (page_mask mo) = 0 \<and>
     host_byte mo w idx a \<noteq> - 1 \<and> (\<exists>ob os. ram_object_at kl (klee (ram (est w))) (host_byte mo w idx a) ob os)"

definition load_value :: "('e, 'o, 'k) klee_ops \<Rightarrow> ('e, 'o, 'k, 'd) mmu_ops \<Rightarrow> ('e \<Rightarrow> 'm \<Rightarrow> nat) \<Rightarrow> ('e, 'o, 'k, 'd) mw \<Rightarrow> nat \<Rightarrow> u64 \<Rightarrow> nat \<Rightarrow> 'm \<Rightarrow> nat" where
  "load_value kl mo ev w idx a n m = range_value kl ev (klee (ram (est w))) n (\<lambda>i. host_byte mo w idx (a + of_nat i)) m"

lemma same_object_index:
  assumes "obj_base a = obj_base b" shows "tlb_index mo a = tlb_index mo b"
proof -
  have "drop_bit RAM_OBJECT_BITS c = drop_bit RAM_OBJECT_BITS (obj_base c)" for c
    by (rule bit_eqI) (auto simp: obj_base_def bit_simps dest: bit_imp_le_length)
  then show ?thesis using assms unfolding tlb_index_def by metis
qed

lemma host_in_access:
  assumes "obj_offset a + i < RAM_OBJECT_SIZE"
  shows "host_byte mo w idx (a + of_nat i) = a + addend (tlb_table w idx (tlb_index mo a)) + of_nat i"
  using same_object_index [of "a + of_nat i" a mo] obj_add [OF assms] by (simp add: host_byte_def)

text \<open>What the loads of RAM rest on.\<close>

definition load_laws :: "('e, 'o, 'k) klee_ops \<Rightarrow> qemu_ops \<Rightarrow> ('e, 'o, 'k, 'd) mmu_ops \<Rightarrow> ('e \<Rightarrow> 'm \<Rightarrow> nat) \<Rightarrow> bool" where
  "load_laws kl q mo ev \<longleftrightarrow> expr_laws kl ev \<and> object_laws kl ev \<and> shift_laws kl mo ev \<and> const_value kl \<and>
     pages_ok q \<and> littleEndian q \<and> no_data_listener mo"

definition cache_only :: "('e, 'o, 'k) klee_ops \<Rightarrow> ('e, 'o, 'k, 'd) mw \<Rightarrow> ('e, 'o, 'k, 'd) mw \<Rightarrow> bool" where
  "cache_only kl w w' \<longleftrightarrow> (\<exists>r. w' = w\<lparr>est := (est w)\<lparr>ram := r\<rparr>\<rparr> \<and> klee r = klee (ram (est w)) \<and> cache_coherent kl r)"

lemma cache_only_same:
  assumes "cache_only kl w w'"
  shows "readable kl mo w' idx a = readable kl mo w idx a" "load_value kl mo ev w' idx a n m = load_value kl mo ev w idx a n m"
    "cache_coherent kl (ram (est w'))"
proof -
  obtain r where "w' = w\<lparr>est := (est w)\<lparr>ram := r\<rparr>\<rparr>" "klee r = klee (ram (est w))" "cache_coherent kl r"
    using assms unfolding cache_only_def by blast
  then show "readable kl mo w' idx a = readable kl mo w idx a" "load_value kl mo ev w' idx a n m = load_value kl mo ev w idx a n m"
    "cache_coherent kl (ram (est w'))"
    by (simp_all add: readable_def load_value_def host_byte_def)
qed

lemma cache_only_trans: "cache_only kl w w' \<Longrightarrow> cache_only kl w' w'' \<Longrightarrow> cache_only kl w w''"
  by (auto simp: cache_only_def)

lemma ram_load:
  assumes laws: "load_laws kl q mo ev" and a: "e_value kl a = Some addr" and n: "0 < sz" "obj_offset addr + sz \<le> RAM_OBJECT_SIZE"
    and rd: "\<And>i. i < sz \<Longrightarrow> readable kl mo w idx (addr + of_nat i)" and co: "cache_coherent kl (ram (est w))"
  shows "\<exists>e w'. handle_ldst_mmu_n (Suc d) kl sy q mo a None idx False sz False w = Some (Inr (Some e, w')) \<and>
    e_width kl e = 8 * sz \<and> (\<forall>m. ev e m = load_value kl mo ev w idx addr sz m) \<and> cache_only kl w w'"
proof -
  let ?e = "tlb_table w idx (tlb_index mo addr)" and ?hs = "\<lambda>i. host_byte mo w idx (addr + of_nat i)"
  have h: "?hs i = addr + addend ?e + of_nat i" if "i < sz" for i using n that by (intro host_in_access) simp
  have "mapped_range kl q (ram (est w)) HostAddress (addr + addend ?e) sz ?hs"
    using rd h by (auto simp: mapped_range_def getHostAddress_def readable_def)
  from readMemory_range [OF _ _ _ _ this n(1) co] laws obtain e r where
    r: "readMemory kl q (addr + addend ?e) (8 * sz) HostAddress (ram (est w)) = Inr (Some e, r)" "e_width kl e = 8 * sz"
      "\<forall>m. ev e m = range_value kl ev (klee (ram (est w))) sz ?hs m" "klee r = klee (ram (est w))" "cache_coherent kl r"
    unfolding load_laws_def by blast
  have hit: "tlb_hit mo addr False ?e" "addr_read ?e AND NOT (page_mask mo) = 0" using rd [of 0] n by (simp_all add: readable_def)
  have "tlb_loop mo addr False idx w = Some (Inr (?e, w))" using hit(1) by (rule tlb_loop_hit)
  moreover have "\<not> must_split mo addr sz (tlb_tag False ?e)" using hit(2) n by (simp add: must_split_def tlb_tag_def)
  ultimately have "handle_ldst_mmu_n (Suc d) kl sy q mo a None idx False sz False w =
      Some (Inr (Some e, w\<lparr>est := (est w)\<lparr>ram := r\<rparr>\<rparr>))"
    using r(1) hit(2) laws by (simp add: native_const [OF a] ram_access_def handlerTraceMemoryAccess_def load_laws_def tlb_tag_def mult.commute)
  then show ?thesis using r(2-5) by (auto simp: cache_only_def load_value_def)
qed

lemma le_value_less: "\<forall>x\<in>set xs. x < 256 \<Longrightarrow> le_value xs < 256 ^ length xs"
  by (induction xs) (auto simp: algebra_simps)

text \<open>The bytes \<open>k, k + 1, \<dots>\<close> of two neighbouring numbers by shifts.\<close>

lemma split_bytes:
  assumes len: "length xs = n" "length ys = n" "k \<le> n" and b: "\<forall>x\<in>set xs \<union> set ys. x < 256"
  shows "(le_value xs div 256 ^ k) OR (le_value ys * 256 ^ (n - k) mod 256 ^ n) = le_value (drop k xs @ take k ys)"
proof -
  have lt: "le_value (take k zs) < 256 ^ k" if "zs \<in> {xs, ys}" for zs
  proof -
    have "\<forall>x\<in>set (take k zs). x < 256" using b that by (auto dest: in_set_takeD)
    from le_value_less [OF this] show ?thesis using that len by auto
  qed
  have cut: "le_value zs = le_value (take k zs) + 256 ^ k * le_value (drop k zs)" if "zs \<in> {xs, ys}" for zs
    using le_value_append [of "take k zs" "drop k zs"] that len by auto
  have dl: "le_value xs div 256 ^ k = le_value (drop k xs)" using cut [of xs] lt [of xs] by simp
  have "\<forall>x\<in>set (drop k xs). x < 256" using b by (auto dest: in_set_dropD)
  from le_value_less [OF this] have dlt: "le_value (drop k xs) < 2 ^ (8 * (n - k))" using len by (simp add: power_mult)
  have "(256 :: nat) ^ n = 256 ^ k * 256 ^ (n - k)" using len(3) by (simp flip: power_add)
  then have "le_value ys * 256 ^ (n - k) mod 256 ^ n = (le_value ys mod 256 ^ k) * 256 ^ (n - k)"
    by (simp only: mod_mult_mult2)
  also have "le_value ys mod 256 ^ k = le_value (take k ys)" using cut [of ys] lt [of ys] by simp
  finally have "le_value ys * 256 ^ (n - k) mod 256 ^ n = le_value (take k ys) * 256 ^ (n - k)" .
  moreover have "(2 :: nat) ^ (8 * (n - k)) = 256 ^ (n - k)" by (simp add: power_mult)
  ultimately show ?thesis
    using or_high [OF dlt, of "le_value (take k ys)"] len by (simp add: dl le_value_append or.commute mult.commute)
qed

lemma host_byte_less:
  assumes "load_laws kl q mo ev" "readable kl mo w idx a"
  shows "byte_val kl ev (klee (ram (est w))) (host_byte mo w idx a) m < 256"
proof -
  obtain ob os where o: "ram_object_at kl (klee (ram (est w))) (host_byte mo w idx a) ob os"
    using assms(2) unfolding readable_def by blast
  let ?b = "as_bytes kl os (klee (ram (est w))) ! obj_offset (host_byte mo w idx a)"
  have "e_width kl ?b = 8" using object_widths [OF o] object_length [OF o] obj_offset_less by simp
  moreover have "ev ?b m < 2 ^ e_width kl ?b" using assms(1) by (simp add: load_laws_def expr_laws_def)
  ultimately show ?thesis using o by (simp add: byte_val_def ram_object_at_def)
qed

lemma load_value_split:
  assumes laws: "load_laws kl q mo ev" and k: "k \<le> n" and rd: "\<And>i. i < 2 * n \<Longrightarrow> readable kl mo w idx (a + of_nat i)"
  shows "(load_value kl mo ev w idx a n m div 256 ^ k) OR (load_value kl mo ev w idx (a + of_nat n) n m * 256 ^ (n - k) mod 256 ^ n)
    = load_value kl mo ev w idx (a + of_nat k) n m"
proof -
  let ?f = "\<lambda>i. byte_val kl ev (klee (ram (est w))) (host_byte mo w idx (a + of_nat i)) m"
  have v: "load_value kl mo ev w idx (a + of_nat j) n m = le_value (map (\<lambda>i. ?f (j + i)) [0..<n])" for j
    by (simp add: load_value_def range_value_def add.assoc)
  have b: "?f i < 256" if "i < 2 * n" for i using host_byte_less [OF laws rd [OF that]] .
  have "drop k (map (\<lambda>i. ?f (0 + i)) [0..<n]) @ take k (map (\<lambda>i. ?f (n + i)) [0..<n]) = map (\<lambda>i. ?f (k + i)) [0..<n]"
    using k by (intro nth_equalityI) (auto simp: nth_append add.commute simp del: of_nat_add)
  moreover have "\<forall>x\<in>set (map (\<lambda>i. ?f (0 + i)) [0..<n]) \<union> set (map (\<lambda>i. ?f (n + i)) [0..<n]). x < 256"
    using b by (auto simp del: of_nat_add)
  ultimately show ?thesis
    using split_bytes [of "map (\<lambda>i. ?f (0 + i)) [0..<n]" n "map (\<lambda>i. ?f (n + i)) [0..<n]" k] k v [of 0] v [of n] v [of k]
    by (simp del: of_nat_add)
qed

lemma align_down_split:
  assumes "access_size sz" "unat addr < 2 ^ 32"
  shows "addr = align_down addr sz + of_nat (unat addr mod sz)"
proof -
  have "unat addr = unat (align_down addr sz) + unat addr mod sz"
    using assms(2) align_down_value [OF assms(1), of addr] by simp
  moreover have "addr = of_nat (unat addr)" by simp
  ultimately have "addr = of_nat (unat (align_down addr sz) + unat addr mod sz)" by (simp only:)
  then show ?thesis by simp
qed

text \<open>A load that crosses the end of an object.\<close>

lemma split_load:
  assumes laws: "load_laws kl q mo ev" and a: "e_value kl a = Some addr" and sz: "access_size sz"
    and top: "unat addr + 2 * sz \<le> 2 ^ 32" and cross: "RAM_OBJECT_SIZE < obj_offset addr + sz"
    and rd: "\<And>i. i < 2 * sz \<Longrightarrow> readable kl mo w idx (align_down addr sz + of_nat i)" and co: "cache_coherent kl (ram (est w))"
  shows "\<exists>e w'. handle_ldst_mmu kl sy q mo a None idx False sz False w = Some (Inr (Some e, w')) \<and> e_width kl e = 8 * sz \<and>
    (\<forall>m. ev e m = load_value kl mo ev w idx addr sz m) \<and> cache_only kl w w'"
proof -
  let ?b = "align_down addr sz" and ?k = "unat addr mod sz"
  have s: "0 < sz" "sz \<le> 8" "sz dvd 128" using sz by (auto simp: access_size_def)
  have addr: "addr = ?b + of_nat ?k" using align_down_split [OF sz] top s(1) by simp
  note fit = align_down_aligned [OF sz, of addr, THEN aligned_fits [OF sz]]
  have c: "e_value kl (e_const kl x 64) = Some x" for x using laws by (simp add: load_laws_def const_value_def)
  have "readable kl mo w idx (?b + of_nat i)" if "i < sz" for i using that by (intro rd) simp
  from ram_load [OF laws c s(1) fit(1) this co] obtain e1 w1 where
    e1: "handle_ldst_mmu_n (Suc 0) kl sy q mo (e_const kl ?b 64) None idx False sz False w = Some (Inr (Some e1, w1))"
      "e_width kl e1 = 8 * sz" "\<And>m. ev e1 m = load_value kl mo ev w idx ?b sz m" "cache_only kl w w1" by blast
  have "readable kl mo w1 idx (?b + of_nat sz + of_nat i)" if "i < sz" for i
    using rd [of "sz + i"] that by (simp add: cache_only_same(1) [OF e1(4)] add.assoc)
  from ram_load [OF laws c s(1) fit(2) this cache_only_same(3) [OF e1(4)]] obtain e2 w2 where
    e2: "handle_ldst_mmu_n (Suc 0) kl sy q mo (e_const kl (?b + of_nat sz) 64) None idx False sz False w1 = Some (Inr (Some e2, w2))"
      "e_width kl e2 = 8 * sz" "\<And>m. ev e2 m = load_value kl mo ev w idx (?b + of_nat sz) sz m" "cache_only kl w1 w2"
    unfolding cache_only_same(2) [OF e1(4)] by blast
  let ?s = "(addr AND (of_nat sz - 1)) * 8"
  let ?e = "e_or mo (e_lshr mo e1 ?s) (e_shl mo e2 (of_nat sz * 8 - ?s))"
  have k: "?k < sz" using s(1) by simp
  have u1: "unat ?s = 8 * ?k" using s(2) k by (simp add: unat_word_ariths low_bits [OF sz])
  have "unat (of_nat sz * 8 :: u64) = 8 * sz" using s(2) by (simp add: unat_word_ariths unat_of_nat)
  then have u2: "unat (of_nat sz * 8 - ?s) = 8 * (sz - ?k)" using u1 k by (subst unat_sub) (simp_all add: word_le_nat_alt diff_mult_distrib2)
  have "ev ?e m = load_value kl mo ev w idx addr sz m" for m
  proof -
    have "ev ?e m = (ev e1 m div 256 ^ ?k) OR (ev e2 m * 256 ^ (sz - ?k) mod 256 ^ sz)"
      using laws u1 u2 e1(2) e2(2) by (simp add: load_laws_def shift_laws_def power_mult del: power_mult_numeral)
    also have "\<dots> = load_value kl mo ev w idx (?b + of_nat ?k) sz m"
      unfolding e1(3) e2(3) using k rd by (intro load_value_split [OF laws]) simp_all
    finally show ?thesis using addr by simp
  qed
  moreover have "handle_ldst_mmu kl sy q mo a None idx False sz False w = Some (Inr (Some ?e, w2))"
  proof -
    let ?t = "tlb_table w idx (tlb_index mo addr)"
    have "?k < 2 * sz" using k by simp
    from rd [OF this] have h: "tlb_hit mo addr False ?t" "addr_read ?t AND NOT (page_mask mo) = 0"
      unfolding addr [symmetric] readable_def by blast+
    have "must_split mo addr sz (tlb_tag False ?t)" using h(2) cross by (simp add: must_split_def tlb_tag_def)
    moreover have "split_read (handle_ldst_mmu_n (Suc 0) kl sy q mo) kl q mo addr idx sz False w = Some (Inr (Some ?e, w2))"
      using laws e1(1) e2(1) by (simp add: split_read_def Let_def load_laws_def del: handle_ldst_mmu_n.simps)
    ultimately show ?thesis
      unfolding handle_ldst_mmu_def numeral_2_eq_2 by (simp add: native_const [OF a] tlb_loop_hit [OF h(1)] del: handle_ldst_mmu_n.simps(2) add: handle_ldst_mmu_n.simps(2) [of "Suc 0"])
  qed
  moreover have "e_width kl ?e = 8 * sz" using laws e1(2) by (simp add: load_laws_def shift_laws_def)
  ultimately show ?thesis using cache_only_trans [OF e1(4) e2(4)] by blast
qed

section \<open>Properties\<close>


text \<open>C36: With a listener on data accesses no access through these handlers ends normally: the tracing handler
  expects seven arguments and is given six.\<close>

theorem data_listener_stops_accesses:
  assumes "\<not> no_data_listener mo" "0 < sz"
  shows "handle_ld_mmu kl sy q mo sz a idx w \<noteq> Some (Inr r) \<and> handle_st_mmu kl sy q mo sz a v idx w \<noteq> Some (Inr w') \<and>
    handle_ldst_kernel kl sy q mo a ov wr sz zx w \<noteq> Some (Inr k)"
  using assms
  by (auto simp: handle_ld_mmu_def handle_st_mmu_def handle_ldst_kernel_def Let_def obind_ok rbind_ok ram_access_stops
      handle_ldst_mmu_def handle_ldst_mmu_n_stops split: if_splits option.splits)


text \<open>A split load above 4 GB goes to the low addresses.\<close>

theorem align_down_low:
  assumes "access_size sz" shows "unat (align_down addr sz) < 2 ^ 32"
proof -
  have "unat (align_down addr sz) \<le> unat addr mod 2 ^ 32"
    unfolding align_down_value [OF assms] by (rule div_times_less_eq_dividend)
  then show ?thesis by (rule le_less_trans) simp
qed

section \<open>A page of RAM\<close>

text \<open>The first page of the guest is mapped to the host page of two RAM objects.\<close>

definition small_mmu :: "(sx, nat, nat \<Rightarrow> sx list, unit) mmu_ops" where
  "small_mmu = \<lparr>PAGE_BITS = 12, TLB_SIZE = 256, TLB_INVALID = 8, tlb_fill = (\<lambda>a wr idx t. Inl Cpu_Exit),
     is_mem_func = (\<lambda>a wr. False), must_recompile = (\<lambda>a. False), notdirty_ptr = (\<lambda>a. a), ram_ptr = (\<lambda>a. a),
     io_read = (\<lambda>w a b d. (0, d)), io_write = (\<lambda>w a v b d. d), mmio_symbolic = (\<lambda>a n. False), CONC_LIMIT = 0,
     no_data_listener = True, e_lshr = (\<lambda>e s. Shr e (unat s)), e_shl = (\<lambda>e s. Shl e (unat s)), e_or = Disj,
     simplify = (\<lambda>e k. e), pick = (\<lambda>e k. None), fork_eq = (\<lambda>c e s. (True, s)), assume_eq = (\<lambda>c e s. s)\<rparr>"

definition small_world :: "(sx, nat, nat \<Rightarrow> sx list, unit) mmu_world" where
  "small_world = \<lparr>est = arm_state False [], name_counter = 0,
     tlb_table = (\<lambda>idx i. \<lparr>addr_read = of_nat i * 0x1000, addr_write = of_nat i * 0x1000, addend = 0x10000, iotlb = 0\<rparr>), devices = (), traced = []\<rparr>"

lemma or_less: "a < 2 ^ n \<Longrightarrow> b < 2 ^ n \<Longrightarrow> (a OR b) mod 2 ^ n = (a OR b :: nat)"
  by (metis take_bit_eq_mod take_bit_nat_eq_self take_bit_or)

lemma small_shift_laws: "shift_laws sx_ops small_mmu sx_eval"
  using or_less sx_eval_less by (auto simp: shift_laws_def small_mmu_def sx_ops_def) (metis or_less sx_eval_less)

lemma small_load_laws: "load_laws sx_ops one_page small_mmu sx_eval"
proof -
  have "unat c mod 2 ^ 64 = unat c" for c :: u64 using unsigned_less [of c, where ?'a = nat] by simp
  then have "const_value sx_ops" by (simp add: const_value_def sx_ops_def)
  then show ?thesis
    using sx_expr_laws sx_object_laws small_shift_laws one_page_ok
    by (simp add: load_laws_def one_page_def) (simp add: small_mmu_def)
qed

lemma small_readable:
  assumes "i < 8" shows "readable sx_ops small_mmu small_world 0 (0x7C + of_nat i)"
proof -
  let ?a = "0x7C + of_nat i :: u64"
  have "i = 0 \<or> i = 1 \<or> i = 2 \<or> i = 3 \<or> i = 4 \<or> i = 5 \<or> i = 6 \<or> i = 7" using assms by auto
  then have "tlb_index small_mmu ?a = 0 \<and> ?a AND NOT (mask 12) = 0 \<and> ?a + 0x10000 \<noteq> - 1 \<and>
      (obj_base (?a + 0x10000) = 0x10000 \<or> obj_base (?a + 0x10000) = 0x10080)"
    by (elim disjE) (simp_all add: tlb_index_def small_mmu_def RAM_OBJECT_BITS_def obj_base_def mask_numeral)
  then show ?thesis
    by (auto simp: readable_def host_byte_def tlb_hit_def tlb_tag_def page_mask_def small_world_def arm_state_def
        ram_object_at_def sx_ops_def two_objects_def bytes_ok_def zero_ram_def RAM_OBJECT_SIZE_128) (simp_all add: small_mmu_def)
qed


text \<open>A machine whose \<open>tlb_fill\<close> installs the page of the address, and an access that misses at first.\<close>

definition filling_mmu :: "(sx, nat, nat \<Rightarrow> sx list, unit) mmu_ops" where
  "filling_mmu = small_mmu\<lparr>tlb_fill := (\<lambda>a wr idx t. Inr (\<lambda>i j. \<lparr>addr_read = a AND NOT (mask 12), addr_write = a AND NOT (mask 12),
     addend = 0x10000, iotlb = 0\<rparr>))\<rparr>"

lemma filling_laws: "fill_laws filling_mmu"
proof -
  have "a AND NOT (mask 12) = (a AND NOT (mask 12)) AND (NOT (mask 12) OR i)" for a i :: u64
    by (rule bit_eqI) (auto simp: bit_simps)
  then show ?thesis
    by (auto simp: fill_laws_def tlb_hit_def filling_mmu_def tlb_tag_def page_mask_def small_mmu_def)
qed


text \<open>Without a listener the same load ends normally by \<open>load_reads_bytes_witness\<close>.\<close>

theorem data_listener_stops_accesses_witness:
  "\<forall>r w' k. handle_ld_mmu sx_ops (sx_sym True) one_page (small_mmu\<lparr>no_data_listener := False\<rparr>) 4 (Num 0x7E 64) 0 small_world \<noteq> Some (Inr r) \<and>
    handle_st_mmu sx_ops (sx_sym True) one_page (small_mmu\<lparr>no_data_listener := False\<rparr>) 4 (Num 0x7E 64) (Num 0 32) 0 small_world \<noteq> Some (Inr w') \<and>
    handle_ldst_kernel sx_ops (sx_sym True) one_page (small_mmu\<lparr>no_data_listener := False\<rparr>) (Num 0x7E 64) None False 4 False small_world \<noteq> Some (Inr k)"
proof -
  have "\<not> no_data_listener (small_mmu\<lparr>no_data_listener := False\<rparr>)" by simp
  note stops = data_listener_stops_accesses [OF this]
  show ?thesis by (intro allI stops) simp
qed

end
