(* ===== verification/Core_Plugin.thy ===== *)
theory Core_Plugin
  imports Symbolic_Values
begin

text \<open>
  The core plugin (\<open>CorePlugin.cpp\<close>, \<open>CorePlugin.h\<close>): the signals that plugins connect to, the
  instrumentation of translated code with calls that emit the signals of a translation block, the functions
  that QEMU calls on events, and the handlers of \<open>S2EExecutor.cpp\<close> that do the same in symbolic execution.
\<close>

section \<open>Signals\<close>

text \<open>A callback of a plugin changes the state and may stop: by a fault, among them the exception
  \<open>CpuExitException\<close>, or, after it has been caught, by a long jump to QEMU's CPU loop. The state at that
  point is kept.\<close>

datatype stop = Fault fault | Longjmp

type_synonym 'w run = "stop option \<times> 'w"

definition and_then :: "'w run \<Rightarrow> ('w \<Rightarrow> 'w run) \<Rightarrow> 'w run" where
  "and_then r f = (case r of (None, w) \<Rightarrow> f w | (Some e, w) \<Rightarrow> (Some e, w))"

definition fault_run :: "fault \<Rightarrow> 'w \<Rightarrow> 'w run" where "fault_run e w = (Some (Fault e), w)"

definition require :: "bool \<Rightarrow> 'w \<Rightarrow> ('w \<Rightarrow> 'w run) \<Rightarrow> 'w run" where
  "require b w f = (if b then f w else fault_run Assertion_Failed w)"

definition catch_exit :: "'w run \<Rightarrow> 'w run" where
  "catch_exit r = (case r of (Some (Fault Cpu_Exit), w) \<Rightarrow> (Some Longjmp, w) | _ \<Rightarrow> r)"

definition forbid_exit :: "'w run \<Rightarrow> 'w run" where
  "forbid_exit r = (case r of (Some (Fault Cpu_Exit), w) \<Rightarrow> fault_run Assertion_Failed w | _ \<Rightarrow> r)"

text \<open>A signal is the list of the connected callbacks; the library calls them in the order of their
  connection. The callbacks for translation events connect callbacks to the signal of a translation block;
  the last callback of a signal with a result gives it.\<close>

type_synonym ('a, 'w) slot = "'a \<Rightarrow> 'w \<Rightarrow> 'w run"
type_synonym ('a, 'w) tslot = "'a \<Rightarrow> 'w \<Rightarrow> (u64, 'w) slot list \<times> 'w run"
type_synonym ('a, 'r, 'w) rslot = "'a \<Rightarrow> 'w \<Rightarrow> (stop + 'r) \<times> 'w"

fun emit :: "('a, 'w) slot list \<Rightarrow> 'a \<Rightarrow> 'w \<Rightarrow> 'w run" where
  "emit [] a w = (None, w)"
| "emit (s # ss) a w = and_then (s a w) (emit ss a)"

fun emit_translate :: "('a, 'w) tslot list \<Rightarrow> 'a \<Rightarrow> 'w \<Rightarrow> (u64, 'w) slot list \<times> 'w run" where
  "emit_translate [] a w = ([], (None, w))"
| "emit_translate (s # ss) a w = (case s a w of
      (cs, (None, w')) \<Rightarrow> (case emit_translate ss a w' of (cs', r) \<Rightarrow> (cs @ cs', r))
    | (cs, (Some e, w')) \<Rightarrow> (cs, (Some e, w')))"

fun emit_result :: "('a, 'r, 'w) rslot list \<Rightarrow> 'r \<Rightarrow> 'a \<Rightarrow> 'w \<Rightarrow> (stop + 'r) \<times> 'w" where
  "emit_result [] r a w = (Inr r, w)"
| "emit_result (s # ss) r a w = (case s a w of (Inl e, w') \<Rightarrow> (Inl e, w') | (Inr r', w') \<Rightarrow> emit_result ss r' a w')"

text \<open>The state of S2E that the functions use and that of the plugins.\<close>

record ('e, 'o, 'k, 'p) plugin_world =
  cpu :: "('e, 'o, 'k) exec_state"
  plugin_state :: 'p

record ('e, 'w) core_plugin =
  onTranslateBlockStart :: "(u64, 'w) tslot list"
  onTranslateBlockEnd :: "(u64 \<times> bool \<times> u64, 'w) tslot list"
  onTranslateInstructionStart :: "(u64, 'w) tslot list"
  onTranslateInstructionEnd :: "(u64, 'w) tslot list"
  onTranslateRegisterAccessEnd :: "(u64 \<times> u64 \<times> u64 \<times> bool, 'w) tslot list"
  onTranslateJumpStart :: "(u64 \<times> int, 'w) tslot list"
  onException :: "(u32 \<times> u64, 'w) slot list"
  onCustomInstruction :: "(u64, 'w) slot list"
  onDataMemoryAccess :: "('e \<times> 'e \<times> 'e \<times> bool \<times> bool \<times> bool, 'w) slot list"
  onHijackMemoryRead :: "('e \<times> 'e \<times> nat \<times> bool \<times> bool, 'e option, 'w) rslot list"
  onHijackMemoryWrite :: "('e \<times> 'e \<times> 'e \<times> bool, bool, 'w) rslot list"
  onPortAccess :: "('e \<times> 'e \<times> bool, 'w) slot list"
  onTimer :: "(unit, 'w) slot list"
  onTlbMiss :: "(u64 \<times> bool, 'w) slot list"
  onPageFault :: "(u64 \<times> bool, 'w) slot list"
  onDeviceRegistration :: "(unit, 'w) slot list"
  onDeviceActivation :: "(int \<times> u64, 'w) slot list"
  onPciDeviceMappingUpdate :: "(u64, 'w) slot list"
  onPrivilegeChange :: "(u32 \<times> u32, 'w) slot list"
  onPageDirectoryChange :: "(u64 \<times> u64, 'w) slot list"
  onInitializationComplete :: "(unit, 'w) slot list"
  m_isPortSymbolicCb :: "(u16 \<Rightarrow> bool) option"
  m_isMmioSymbolicCb :: "(u64 \<Rightarrow> u64 \<Rightarrow> bool) option"

section \<open>Instrumentation of translated code\<close>

text \<open>The operations that are appended to the code of a block, among those that QEMU generates for the
  guest. A helper is called with temporaries.\<close>

datatype 'w tcg_op =
    Movi_i64 nat u64
  | Movi_i32 nat u32
  | St_i64 nat nat
  | St_i32 nat nat
  | Call_Execution nat nat
  | Call_Custom nat
  | Guest "'w \<Rightarrow> 'w run"

text \<open>QEMU and \<open>operator new\<close>: an unused temporary and the address of a new signal.\<close>

record tcg_conf =
  host64 :: bool
  x86_64 :: bool
  pc_offset :: nat
  temp_new :: "nat list \<Rightarrow> nat"
  signal_new :: "u64 list \<Rightarrow> u64"

record 'w translation =
  gen_code :: "'w tcg_op list"
  temps_used :: "nat list"
  slots_of :: "u64 \<Rightarrow> (u64, 'w) slot list"
  allocated :: "u64 list"
  tb_signals :: "u64 list"

definition gen_ops :: "'w tcg_op list \<Rightarrow> 'w translation \<Rightarrow> 'w translation" where
  "gen_ops ops t = t\<lparr>gen_code := gen_code t @ ops\<rparr>"

text \<open>The temporaries are freed again, \<open>tpc\<close> before the others are used.\<close>

definition pc_update :: "tcg_conf \<Rightarrow> u64 \<Rightarrow> nat list \<Rightarrow> 'w tcg_op list" where
  "pc_update cf nextpc used =
     (if nextpc = - 1 then []
      else let tpc = temp_new cf used in
        if host64 cf \<and> x86_64 cf then [Movi_i64 tpc nextpc, St_i64 tpc (pc_offset cf)]
        else [Movi_i32 tpc (ucast nextpc), St_i32 tpc (pc_offset cf)])"

definition s2e_tcg_instrument_code :: "tcg_conf \<Rightarrow> u64 \<Rightarrow> u64 \<Rightarrow> u64 \<Rightarrow> 'w translation \<Rightarrow> 'w translation" where
  "s2e_tcg_instrument_code cf sig pc nextpc t =
     (let t0 = temp_new cf (temps_used t); t1 = temp_new cf (t0 # temps_used t) in
      gen_ops (pc_update cf nextpc (t1 # t0 # temps_used t) @
        [if host64 cf then Movi_i64 t0 sig else Movi_i32 t0 (ucast sig), Movi_i64 t1 pc, Call_Execution t0 t1]) t)"

definition s2e_tcg_emit_custom_instruction :: "tcg_conf \<Rightarrow> u64 \<Rightarrow> 'w translation \<Rightarrow> 'w translation" where
  "s2e_tcg_emit_custom_instruction cf arg t =
     (let t0 = temp_new cf (temps_used t) in gen_ops [Movi_i64 t0 arg, Call_Custom t0] t)"

definition push_signal :: "tcg_conf \<Rightarrow> 'w translation \<Rightarrow> 'w translation" where
  "push_signal cf t =
     (let s = signal_new cf (allocated t) in
      t\<lparr>slots_of := (slots_of t)(s := []), allocated := s # allocated t, tb_signals := tb_signals t @ [s]\<rparr>)"

text \<open>What the six functions for translation events have in common: the last signal of the block, which must
  be empty, is offered to the plugins, and when they have connected callbacks, the code that emits it is
  generated and a new signal is added.\<close>

type_synonym ('e, 'o, 'k, 'p) pw = "('e, 'o, 'k, 'p) plugin_world"

definition on_translate ::
  "tcg_conf \<Rightarrow> ('a, ('e, 'o, 'k, 'p) pw) tslot list \<Rightarrow> 'a \<Rightarrow> u64 \<Rightarrow> u64 \<Rightarrow>
   (('e, 'o, 'k, 'p) pw) translation \<times> ('e, 'o, 'k, 'p) pw \<Rightarrow> ((('e, 'o, 'k, 'p) pw) translation \<times> ('e, 'o, 'k, 'p) pw) run" where
  "on_translate cf slots a pc nextpc = (\<lambda>(t, w).
     if \<not> m_active (ram (cpu w)) then fault_run Assertion_Failed (t, w)
     else if tb_signals t = [] then fault_run Undefined_Behaviour (t, w)
     else let s = last (tb_signals t) in
       if slots_of t s \<noteq> [] then fault_run Assertion_Failed (t, w)
       else (case emit_translate slots a w of (cs, (e, w')) \<Rightarrow>
         let t1 = t\<lparr>slots_of := (slots_of t)(s := cs)\<rparr> in
         catch_exit (case e of
             Some x \<Rightarrow> (Some x, (t1, w'))
           | None \<Rightarrow> (None, (if cs = [] then t1 else push_signal cf (s2e_tcg_instrument_code cf s pc nextpc t1), w')))))"

definition s2e_on_translate_block_start where
  "s2e_on_translate_block_start cf core pc = on_translate cf (onTranslateBlockStart core) pc pc (- 1)"

definition s2e_on_translate_block_end where
  "s2e_on_translate_block_end cf core insPc staticTarget targetPc =
     on_translate cf (onTranslateBlockEnd core) (insPc, staticTarget \<noteq> (0 :: int), targetPc) insPc (- 1)"

definition s2e_on_translate_instruction_start where
  "s2e_on_translate_instruction_start cf core pc = on_translate cf (onTranslateInstructionStart core) pc pc (- 1)"

definition s2e_on_translate_jump_start where
  "s2e_on_translate_jump_start cf core pc jump_type = on_translate cf (onTranslateJumpStart core) (pc, jump_type) pc (- 1)"

definition s2e_on_translate_instruction_end where
  "s2e_on_translate_instruction_end cf core pc nextpc = on_translate cf (onTranslateInstructionEnd core) pc pc nextpc"

definition s2e_on_translate_register_access where
  "s2e_on_translate_register_access cf core pc readMask writeMask isMemoryAccess =
     on_translate cf (onTranslateRegisterAccessEnd core) (pc, readMask, writeMask, isMemoryAccess \<noteq> (0 :: int)) pc (- 1)"

section \<open>Execution of translated code\<close>

definition s2e_tcg_execution_handler :: "bool \<Rightarrow> (u64 \<Rightarrow> (u64, 'w) slot list) \<Rightarrow> u64 \<Rightarrow> u64 \<Rightarrow> 'w \<Rightarrow> 'w run" where
  "s2e_tcg_execution_handler enable_signals slots sig pc w =
     catch_exit (if enable_signals then emit (slots sig) pc w else (None, w))"

definition s2e_tcg_custom_instruction_handler :: "('e, 'w) core_plugin \<Rightarrow> u64 \<Rightarrow> 'w \<Rightarrow> 'w run" where
  "s2e_tcg_custom_instruction_handler core arg w =
     require (onCustomInstruction core \<noteq> []) w (\<lambda>w. catch_exit (emit (onCustomInstruction core) arg w))"

section \<open>Events of the processor\<close>

definition with_res :: "'a res \<Rightarrow> 'w \<Rightarrow> ('a \<Rightarrow> 'w run) \<Rightarrow> 'w run" where
  "with_res m w f = (case m of Inl e \<Rightarrow> fault_run e w | Inr x \<Rightarrow> f x)"

definition s2e_on_exception ::
  "cpu_conf \<Rightarrow> ('e, ('e, 'o, 'k, 'p) pw) core_plugin \<Rightarrow> u32 \<Rightarrow> ('e, 'o, 'k, 'p) pw \<Rightarrow> (('e, 'o, 'k, 'p) pw) run" where
  "s2e_on_exception cf core intNb w =
     (if onException core = [] then (None, w)
      else require (m_active (ram (cpu w))) w (\<lambda>w.
        catch_exit (with_res (getPc cf (cpu w)) w (\<lambda>pc. emit (onException core) (intNb, pc) w))))"

definition s2e_on_page_fault :: "('e, 'w) core_plugin \<Rightarrow> u64 \<Rightarrow> int \<Rightarrow> 'w \<Rightarrow> 'w run" where
  "s2e_on_page_fault core addr is_write w = catch_exit (emit (onPageFault core) (addr, is_write \<noteq> 0) w)"

definition s2e_on_tlb_miss :: "('e, 'w) core_plugin \<Rightarrow> u64 \<Rightarrow> int \<Rightarrow> 'w \<Rightarrow> 'w run" where
  "s2e_on_tlb_miss core addr is_write w = catch_exit (emit (onTlbMiss core) (addr, is_write \<noteq> 0) w)"

definition s2e_on_privilege_change ::
  "('e, ('e, 'o, 'k, 'p) pw) core_plugin \<Rightarrow> u32 \<Rightarrow> u32 \<Rightarrow> ('e, 'o, 'k, 'p) pw \<Rightarrow> (('e, 'o, 'k, 'p) pw) run" where
  "s2e_on_privilege_change core prev cur w =
     require (m_active (ram (cpu w))) w (\<lambda>w. forbid_exit (emit (onPrivilegeChange core) (prev, cur) w))"

definition s2e_on_page_directory_change ::
  "('e, ('e, 'o, 'k, 'p) pw) core_plugin \<Rightarrow> u64 \<Rightarrow> u64 \<Rightarrow> ('e, 'o, 'k, 'p) pw \<Rightarrow> (('e, 'o, 'k, 'p) pw) run" where
  "s2e_on_page_directory_change core prev cur w =
     require (m_active (ram (cpu w))) w (\<lambda>w. forbid_exit (emit (onPageDirectoryChange core) (prev, cur) w))"

definition s2e_on_initialization_complete :: "('e, 'w) core_plugin \<Rightarrow> 'w \<Rightarrow> 'w run" where
  "s2e_on_initialization_complete core w = forbid_exit (emit (onInitializationComplete core) () w)"

text \<open>These do not catch the exception.\<close>

definition s2e_on_device_registration :: "('e, 'w) core_plugin \<Rightarrow> 'w \<Rightarrow> 'w run" where
  "s2e_on_device_registration core w = emit (onDeviceRegistration core) () w"

definition s2e_on_device_activation :: "('e, 'w) core_plugin \<Rightarrow> int \<Rightarrow> u64 \<Rightarrow> 'w \<Rightarrow> 'w run" where
  "s2e_on_device_activation core bus_type bus w = emit (onDeviceActivation core) (bus_type, bus) w"

definition s2e_on_pci_device_update_mappings :: "('e, 'w) core_plugin \<Rightarrow> u64 \<Rightarrow> 'w \<Rightarrow> 'w run" where
  "s2e_on_pci_device_update_mappings core dev w = emit (onPciDeviceMappingUpdate core) dev w"

text \<open>The timer event, which arms the timer again; the clock counts milliseconds.\<close>

definition s2e_timer_cb :: "('e, 'w) core_plugin \<Rightarrow> ('w \<Rightarrow> u64) \<Rightarrow> (u64 \<Rightarrow> 'w \<Rightarrow> 'w) \<Rightarrow> ('w \<Rightarrow> 'w) \<Rightarrow> 'w \<Rightarrow> 'w run" where
  "s2e_timer_cb core clock mod_timer updateStats w =
     and_then (emit (onTimer core) () (updateStats w)) (\<lambda>w1. (None, mod_timer (clock w1 + 1000) w1))"

text \<open>The port is cut to 16 bits by the call.\<close>

definition isPortSymbolic :: "('e, 'w) core_plugin \<Rightarrow> u16 \<Rightarrow> bool" where
  "isPortSymbolic core port = (case m_isPortSymbolicCb core of None \<Rightarrow> False | Some cb \<Rightarrow> cb port)"

definition isMmioSymbolic :: "('e, 'w) core_plugin \<Rightarrow> u64 \<Rightarrow> u64 \<Rightarrow> bool" where
  "isMmioSymbolic core address n = (case m_isMmioSymbolicCb core of None \<Rightarrow> False | Some cb \<Rightarrow> cb address n)"

definition s2e_is_port_symbolic :: "('e, 'w) core_plugin \<Rightarrow> u64 \<Rightarrow> bool" where
  "s2e_is_port_symbolic core port = isPortSymbolic core (ucast port)"

definition s2e_is_mmio_symbolic :: "('e, 'w) core_plugin \<Rightarrow> u64 \<Rightarrow> u64 \<Rightarrow> bool" where
  "s2e_is_mmio_symbolic core address n = isMmioSymbolic core address n"

section \<open>Memory and port accesses\<close>

text \<open>A concrete access: the value is the first eight bytes at most.\<close>

definition s2e_trace_memory_access_slow ::
  "('e, 'o, 'k) klee_ops \<Rightarrow> ('e, 'w) core_plugin \<Rightarrow> u64 \<Rightarrow> u64 \<Rightarrow> u8 list \<Rightarrow> nat \<Rightarrow> int \<Rightarrow> int \<Rightarrow> int \<Rightarrow> 'w \<Rightarrow> 'w run" where
  "s2e_trace_memory_access_slow kl core vaddr haddr buf n isWrite isIO isCode w =
     (let copy_size = (if n > 8 then 8 else n) in
        if length buf < copy_size then fault_run Undefined_Behaviour w
        else catch_exit (emit (onDataMemoryAccess core)
          (e_const kl vaddr 64, e_const kl haddr 64, e_const kl (le_word (take copy_size buf)) (copy_size * 8),
           isWrite \<noteq> 0, isIO \<noteq> 0, isCode \<noteq> 0) w))"

definition s2e_trace_memory_access ::
  "('e, 'o, 'k) klee_ops \<Rightarrow> ('e, 'w) core_plugin \<Rightarrow> u64 \<Rightarrow> u64 \<Rightarrow> u8 list \<Rightarrow> nat \<Rightarrow> int \<Rightarrow> int \<Rightarrow> int \<Rightarrow> 'w \<Rightarrow> 'w run" where
  "s2e_trace_memory_access kl core vaddr haddr buf n isWrite isIO isCode w =
     (if onDataMemoryAccess core = [] then (None, w)
      else s2e_trace_memory_access_slow kl core vaddr haddr buf n isWrite isIO isCode w)"

definition s2e_trace_port_access ::
  "('e, 'o, 'k) klee_ops \<Rightarrow> ('e, 'w) core_plugin \<Rightarrow> u64 \<Rightarrow> u64 \<Rightarrow> nat \<Rightarrow> int \<Rightarrow> 'w \<Rightarrow> 'w run" where
  "s2e_trace_port_access kl core port value n isWrite w =
     (if onPortAccess core = [] then (None, w)
      else catch_exit (emit (onPortAccess core) (e_const kl port 64, e_const kl value n, isWrite \<noteq> 0) w))"

text \<open>A plugin may take over an access. The result says whether it did, with the buffer. A symbolic value for
  a read in concrete mode makes the instruction run again in symbolic mode.\<close>

definition catch_result :: "(stop + 'r) \<times> 'w \<Rightarrow> (stop + 'r) \<times> 'w" where
  "catch_result r = (case r of (Inl (Fault Cpu_Exit), w) \<Rightarrow> (Inl Longjmp, w) | _ \<Rightarrow> r)"

definition hijack_read ::
  "cpu_conf \<Rightarrow> ('e, 'o, 'k) klee_ops \<Rightarrow> ('e, ('e, 'o, 'k, 'p) pw) core_plugin \<Rightarrow> u64 \<Rightarrow> u64 \<Rightarrow> u8 list \<Rightarrow> nat \<Rightarrow> bool \<Rightarrow> bool \<Rightarrow>
   ('e, 'o, 'k, 'p) pw \<Rightarrow> (stop + bool \<times> u8 list) \<times> ('e, 'o, 'k, 'p) pw" where
  "hijack_read cf kl core vaddr haddr val n isIO isCode w =
     (case emit_result (onHijackMemoryRead core) None (e_const kl vaddr 64, e_const kl haddr 64, n * 8, isIO, isCode) w of
        (Inl e, w') \<Rightarrow> (Inl e, w')
      | (Inr None, w') \<Rightarrow> (Inr (False, val), w')
      | (Inr (Some e), w') \<Rightarrow>
          (case e_value kl e of
             Some c \<Rightarrow> if length val < n then (Inl (Fault Undefined_Behaviour), w')
               else (Inr (True, put_bytes 0 (le_bytes n c) val), w')
           | None \<Rightarrow>
               if m_runningConcrete (ram (cpu w')) then
                 (case jumpToSymbolicCpp cf (cpu w') of
                    Inl f \<Rightarrow> (Inl (Fault f), w')
                  | Inr (Cpu_Exits s) \<Rightarrow> (Inl (Fault Cpu_Exit), w'\<lparr>cpu := s\<rparr>)
                  | Inr (Returned s) \<Rightarrow> (Inl (Fault Assertion_Failed), w'\<lparr>cpu := s\<rparr>))
               else (Inl (Fault Assertion_Failed), w')))"

definition s2e_hijack_memory_access_slow ::
  "cpu_conf \<Rightarrow> ('e, 'o, 'k) klee_ops \<Rightarrow> ('e, ('e, 'o, 'k, 'p) pw) core_plugin \<Rightarrow> u64 \<Rightarrow> u64 \<Rightarrow> u8 list \<Rightarrow> nat \<Rightarrow> int \<Rightarrow> int \<Rightarrow> int \<Rightarrow>
   ('e, 'o, 'k, 'p) pw \<Rightarrow> (stop + bool \<times> u8 list) \<times> ('e, 'o, 'k, 'p) pw" where
  "s2e_hijack_memory_access_slow cf kl core vaddr haddr val n0 isWrite isIO isCode w =
     (if length (onHijackMemoryWrite core) > 1 \<or> length (onHijackMemoryRead core) > 1 then (Inl (Fault Assertion_Failed), w)
      else let n = (if n0 > 8 then 8 else n0) in
        catch_result
          (if isWrite \<noteq> 0 then
             (if onHijackMemoryWrite core = [] then (Inr (False, val), w)
              else if length val < n then (Inl (Fault Undefined_Behaviour), w)
              else (case emit_result (onHijackMemoryWrite core) False
                     (e_const kl vaddr 64, e_const kl haddr 64, e_const kl (le_word (take n val)) (n * 8), isIO \<noteq> 0) w of
                  (Inl e, w') \<Rightarrow> (Inl e, w') | (Inr b, w') \<Rightarrow> (Inr (b, val), w')))
           else if onHijackMemoryRead core = [] then (Inr (False, val), w)
           else hijack_read cf kl core vaddr haddr val n (isIO \<noteq> 0) (isCode \<noteq> 0) w))"

definition s2e_hijack_memory_access ::
  "cpu_conf \<Rightarrow> ('e, 'o, 'k) klee_ops \<Rightarrow> ('e, ('e, 'o, 'k, 'p) pw) core_plugin \<Rightarrow> u64 \<Rightarrow> u64 \<Rightarrow> u8 list \<Rightarrow> nat \<Rightarrow> int \<Rightarrow> int \<Rightarrow> int \<Rightarrow>
   ('e, 'o, 'k, 'p) pw \<Rightarrow> (stop + bool \<times> u8 list) \<times> ('e, 'o, 'k, 'p) pw" where
  "s2e_hijack_memory_access cf kl core vaddr haddr val n isWrite isIO isCode w =
     (if onHijackMemoryRead core = [] \<and> onHijackMemoryWrite core = [] then (Inr (False, val), w)
      else s2e_hijack_memory_access_slow cf kl core vaddr haddr val n isWrite isIO isCode w)"

definition setPortCallback :: "(u16 \<Rightarrow> bool) option \<Rightarrow> ('e, 'w) core_plugin \<Rightarrow> ('e, 'w) core_plugin" where
  "setPortCallback cb core = core\<lparr>m_isPortSymbolicCb := cb\<rparr>"

definition setMmioCallback :: "(u64 \<Rightarrow> u64 \<Rightarrow> bool) option \<Rightarrow> ('e, 'w) core_plugin \<Rightarrow> ('e, 'w) core_plugin" where
  "setMmioCallback cb core = core\<lparr>m_isMmioSymbolicCb := cb\<rparr>"

section \<open>Handlers of symbolic execution\<close>

definition handlerOnTlbMiss ::
  "('e, 'o, 'k) klee_ops \<Rightarrow> ('e, 'w) core_plugin \<Rightarrow> 'e list \<Rightarrow> 'w \<Rightarrow> 'w run" where
  "handlerOnTlbMiss kl core args w =
     require (length args = 4) w (\<lambda>w.
       case e_value kl (args ! 3) of
         None \<Rightarrow> fault_run Assertion_Failed w
       | Some wr \<Rightarrow> (case e_value kl (args ! 2) of None \<Rightarrow> (None, w) | Some addr \<Rightarrow> s2e_on_tlb_miss core addr (if wr = 0 then 0 else 1) w))"

definition handlerTracePortAccess ::
  "('e, 'o, 'k) klee_ops \<Rightarrow> ('e, 'w) core_plugin \<Rightarrow> 'e list \<Rightarrow> 'w \<Rightarrow> 'w run" where
  "handlerTracePortAccess kl core args w =
     (if onPortAccess core = [] then (None, w)
      else require (length args = 4) w (\<lambda>w.
        case (e_value kl (args ! 2), e_value kl (args ! 3)) of
          (Some width, Some wr) \<Rightarrow> emit (onPortAccess core) (args ! 0, e_extract kl (args ! 1) 0 (unat (ucast width :: u32)), wr \<noteq> 0) w
        | _ \<Rightarrow> fault_run Assertion_Failed w))"

text \<open>The write to an object of the handler, with the state.\<close>

definition write_object ::
  "('e, 'o, 'k) klee_ops \<Rightarrow> ('e, 'k) sym_ops \<Rightarrow> (u64 \<Rightarrow> 'k \<Rightarrow> (mem_object \<times> 'o) option) \<Rightarrow> 'e \<Rightarrow> 'e list \<Rightarrow>
   ('e, 'o, 'k, 'p) pw \<Rightarrow> (('e, 'o, 'k, 'p) pw) run" where
  "write_object kl sy resolve a bytes w =
     with_res (kleeWriteMemory kl sy resolve a bytes (ram (cpu w))) w (\<lambda>r. (None, w\<lparr>cpu := (cpu w)\<lparr>ram := r\<rparr>\<rparr>))"

definition concat8 :: "('e, 'o, 'k) klee_ops \<Rightarrow> 'e list \<Rightarrow> 'e" where
  "concat8 kl bs = fold (\<lambda>b e. e_concat kl b e) (take 7 (tl bs)) (hd bs)"

definition hijack_symbolic_write ::
  "('e, 'o, 'k) klee_ops \<Rightarrow> ('e, 'k) sym_ops \<Rightarrow> (u64 \<Rightarrow> 'k \<Rightarrow> (mem_object \<times> 'o) option) \<Rightarrow> ('e, ('e, 'o, 'k, 'p) pw) core_plugin \<Rightarrow>
   'e list \<Rightarrow> nat \<Rightarrow> bool \<Rightarrow> ('e, 'o, 'k, 'p) pw \<Rightarrow> (stop + bool) \<times> ('e, 'o, 'k, 'p) pw" where
  "hijack_symbolic_write kl sy resolve core args width is_io w =
     (case kleeReadMemory kl sy resolve (args ! 2) 64 True False True False (klee (ram (cpu w))) of
        Inl e \<Rightarrow> (Inl (Fault e), w)
      | Inr (bs, k) \<Rightarrow>
          let w1 = w\<lparr>cpu := (cpu w)\<lparr>ram := (ram (cpu w))\<lparr>klee := k\<rparr>\<rparr>\<rparr> in
          if length bs < 8 then (Inl (Fault Undefined_Behaviour), w1)
          else emit_result (onHijackMemoryWrite core) False (args ! 0, args ! 1, e_extract kl (concat8 kl bs) 0 width, is_io) w1)"

definition hijack_symbolic_read ::
  "('e, 'o, 'k) klee_ops \<Rightarrow> ('e, 'k) sym_ops \<Rightarrow> (u64 \<Rightarrow> 'k \<Rightarrow> (mem_object \<times> 'o) option) \<Rightarrow> ('e, ('e, 'o, 'k, 'p) pw) core_plugin \<Rightarrow>
   'e list \<Rightarrow> nat \<Rightarrow> bool \<Rightarrow> bool \<Rightarrow> ('e, 'o, 'k, 'p) pw \<Rightarrow> (stop + bool) \<times> ('e, 'o, 'k, 'p) pw" where
  "hijack_symbolic_read kl sy resolve core args width is_io is_code w =
     (case emit_result (onHijackMemoryRead core) None (args ! 0, args ! 1, width, is_io, is_code) w of
        (Inl e, w1) \<Rightarrow> (Inl e, w1)
      | (Inr None, w1) \<Rightarrow> (Inr False, w1)
      | (Inr (Some e), w1) \<Rightarrow>
          if e_width kl e \<noteq> width then (Inr False, w1)
          else (case write_object kl sy resolve (args ! 2) (map (\<lambda>i. e_extract kl (e_zext kl e 64) (i * 8) 8) [0..<8]) w1 of
              (Some x, w2) \<Rightarrow> (Inl x, w2) | (None, w2) \<Rightarrow> (Inr True, w2)))"

definition handlerHijackMemoryAccess ::
  "('e, 'o, 'k) klee_ops \<Rightarrow> ('e, 'k) sym_ops \<Rightarrow> (u64 \<Rightarrow> 'k \<Rightarrow> (mem_object \<times> 'o) option) \<Rightarrow> ('e, ('e, 'o, 'k, 'p) pw) core_plugin \<Rightarrow>
   'e list \<Rightarrow> ('e, 'o, 'k, 'p) pw \<Rightarrow> (('e, 'o, 'k, 'p) pw) run" where
  "handlerHijackMemoryAccess kl sy resolve core args w =
     (if length args < 8 then fault_run Undefined_Behaviour w
      else (case (e_value kl (args ! 3), e_value kl (args ! 4), e_value kl (args ! 5), e_value kl (args ! 6), e_value kl (args ! 7)) of
        (Some wd, Some wr, Some io, Some code, Some p) \<Rightarrow>
          require (e_width kl (args ! 7) div 8 = 8) w (\<lambda>w.
            let width = unat (ucast wd :: u32);
                (r, w1) = (if wr \<noteq> 0 \<and> onHijackMemoryWrite core \<noteq> [] then hijack_symbolic_write kl sy resolve core args width (io \<noteq> 0) w
                  else if wr = 0 \<and> onHijackMemoryRead core \<noteq> [] then hijack_symbolic_read kl sy resolve core args width (io \<noteq> 0) (code \<noteq> 0) w
                  else (Inr False, w)) in
            case r of
              Inl e \<Rightarrow> (Some e, w1)
            | Inr b \<Rightarrow> write_object kl sy resolve (args ! 7) [e_const kl (if b then 1 else 0) 8] w1)
      | _ \<Rightarrow> fault_run Assertion_Failed w))"

section \<open>Instrumentation calls what the plugins connected\<close>

text \<open>The meaning of the operations, with the values of the temporaries and the store to the CPU state by
  offset and number of bytes.\<close>

fun run_code ::
  "bool \<Rightarrow> ('e, 'w) core_plugin \<Rightarrow> (u64 \<Rightarrow> (u64, 'w) slot list) \<Rightarrow> (nat \<Rightarrow> nat \<Rightarrow> u64 \<Rightarrow> 'w \<Rightarrow> 'w) \<Rightarrow> 'w tcg_op list \<Rightarrow>
   (nat \<Rightarrow> u64) \<Rightarrow> 'w \<Rightarrow> 'w run" where
  "run_code en core slots st [] r w = (None, w)"
| "run_code en core slots st (Movi_i64 i v # ops) r w = run_code en core slots st ops (r(i := v)) w"
| "run_code en core slots st (Movi_i32 i v # ops) r w = run_code en core slots st ops (r(i := ucast v)) w"
| "run_code en core slots st (St_i64 i off # ops) r w = run_code en core slots st ops r (st off 8 (r i) w)"
| "run_code en core slots st (St_i32 i off # ops) r w = run_code en core slots st ops r (st off 4 (r i) w)"
| "run_code en core slots st (Call_Execution i j # ops) r w =
     and_then (s2e_tcg_execution_handler en slots (r i) (r j) w) (run_code en core slots st ops r)"
| "run_code en core slots st (Call_Custom i # ops) r w =
     and_then (s2e_tcg_custom_instruction_handler core (r i) w) (run_code en core slots st ops r)"
| "run_code en core slots st (Guest f # ops) r w = and_then (f w) (run_code en core slots st ops r)"

text \<open>The events of the translation of a block, with the code that QEMU generates between them and custom
  instructions.\<close>

datatype 'w tevent =
    Block_Start u64
  | Block_End u64 int u64
  | Instruction_Start u64
  | Jump_Start u64 int
  | Instruction_End u64 u64
  | Register_Access u64 u64 u64 int
  | Custom_Instruction u64
  | Guest_Code "'w \<Rightarrow> 'w run"

fun translate_event ::
  "tcg_conf \<Rightarrow> ('e, ('e, 'o, 'k, 'p) pw) core_plugin \<Rightarrow> (('e, 'o, 'k, 'p) pw) tevent \<Rightarrow>
   (('e, 'o, 'k, 'p) pw) translation \<times> ('e, 'o, 'k, 'p) pw \<Rightarrow> ((('e, 'o, 'k, 'p) pw) translation \<times> ('e, 'o, 'k, 'p) pw) run" where
  "translate_event cf core (Block_Start pc) tw = s2e_on_translate_block_start cf core pc tw"
| "translate_event cf core (Block_End pc st target) tw = s2e_on_translate_block_end cf core pc st target tw"
| "translate_event cf core (Instruction_Start pc) tw = s2e_on_translate_instruction_start cf core pc tw"
| "translate_event cf core (Jump_Start pc j) tw = s2e_on_translate_jump_start cf core pc j tw"
| "translate_event cf core (Instruction_End pc nextpc) tw = s2e_on_translate_instruction_end cf core pc nextpc tw"
| "translate_event cf core (Register_Access pc rm wm mem) tw = s2e_on_translate_register_access cf core pc rm wm mem tw"
| "translate_event cf core (Custom_Instruction arg) tw = (None, (s2e_tcg_emit_custom_instruction cf arg (fst tw), snd tw))"
| "translate_event cf core (Guest_Code f) tw = (None, (gen_ops [Guest f] (fst tw), snd tw))"

fun translate_all where
  "translate_all cf core [] tw = (None, tw)"
| "translate_all cf core (ev # evs) tw = and_then (translate_event cf core ev tw) (translate_all cf core evs)"

text \<open>What the plugins connect at an event, with the program counters of the event.\<close>

fun offer :: "('e, 'w) core_plugin \<Rightarrow> 'w tevent \<Rightarrow> 'w \<Rightarrow> (u64, 'w) slot list \<times> 'w run" where
  "offer core (Block_Start pc) w = emit_translate (onTranslateBlockStart core) pc w"
| "offer core (Block_End pc st target) w = emit_translate (onTranslateBlockEnd core) (pc, st \<noteq> 0, target) w"
| "offer core (Instruction_Start pc) w = emit_translate (onTranslateInstructionStart core) pc w"
| "offer core (Jump_Start pc j) w = emit_translate (onTranslateJumpStart core) (pc, j) w"
| "offer core (Instruction_End pc nextpc) w = emit_translate (onTranslateInstructionEnd core) pc w"
| "offer core (Register_Access pc rm wm mem) w = emit_translate (onTranslateRegisterAccessEnd core) (pc, rm, wm, mem \<noteq> 0) w"
| "offer core _ w = ([], (None, w))"

fun event_pc :: "'w tevent \<Rightarrow> u64" where
  "event_pc (Block_Start pc) = pc"
| "event_pc (Block_End pc _ _) = pc"
| "event_pc (Instruction_Start pc) = pc"
| "event_pc (Jump_Start pc _) = pc"
| "event_pc (Instruction_End pc _) = pc"
| "event_pc (Register_Access pc _ _ _) = pc"
| "event_pc _ = 0"

fun event_nextpc :: "'w tevent \<Rightarrow> u64" where
  "event_nextpc (Instruction_End _ nextpc) = nextpc"
| "event_nextpc _ = - 1"

text \<open>The specification: the code of the guest runs with, at each event, the callbacks that were connected
  there, after the update of the program counter.\<close>

definition advance_pc :: "tcg_conf \<Rightarrow> (nat \<Rightarrow> nat \<Rightarrow> u64 \<Rightarrow> 'w \<Rightarrow> 'w) \<Rightarrow> u64 \<Rightarrow> 'w \<Rightarrow> 'w" where
  "advance_pc cf st nextpc v =
     (if nextpc = - 1 then v
      else if x86_64 cf then st (pc_offset cf) 8 nextpc v else st (pc_offset cf) 4 (ucast (ucast nextpc :: u32)) v)"

definition callbacks :: "bool \<Rightarrow> (u64, 'w) slot list \<Rightarrow> u64 \<Rightarrow> 'w \<Rightarrow> 'w run" where
  "callbacks en cs pc v = catch_exit (if en then emit cs pc v else (None, v))"

fun spec_event ::
  "tcg_conf \<Rightarrow> bool \<Rightarrow> ('e, 'w) core_plugin \<Rightarrow> (nat \<Rightarrow> nat \<Rightarrow> u64 \<Rightarrow> 'w \<Rightarrow> 'w) \<Rightarrow> 'w tevent \<Rightarrow> (u64, 'w) slot list \<Rightarrow> 'w \<Rightarrow> 'w run" where
  "spec_event cf en core st (Custom_Instruction arg) cs v = s2e_tcg_custom_instruction_handler core arg v"
| "spec_event cf en core st (Guest_Code f) cs v = f v"
| "spec_event cf en core st ev cs v =
     (if cs = [] then (None, v) else callbacks en cs (event_pc ev) (advance_pc cf st (event_nextpc ev) v))"

fun spec_run ::
  "tcg_conf \<Rightarrow> bool \<Rightarrow> ('e, 'w) core_plugin \<Rightarrow> (nat \<Rightarrow> nat \<Rightarrow> u64 \<Rightarrow> 'w \<Rightarrow> 'w) \<Rightarrow> 'w tevent list \<Rightarrow> 'w \<Rightarrow> 'w \<Rightarrow> 'w run" where
  "spec_run cf en core st [] w v = (None, v)"
| "spec_run cf en core st (ev # evs) w v = (case offer core ev w of (cs, (e, w')) \<Rightarrow>
     and_then (spec_event cf en core st ev cs v) (spec_run cf en core st evs w'))"

definition conf_ok :: "tcg_conf \<Rightarrow> bool" where
  "conf_ok cf \<longleftrightarrow> host64 cf \<and> (\<forall>used. temp_new cf used \<notin> set used) \<and> (\<forall>al. length al < 2 ^ 32 \<longrightarrow> signal_new cf al \<notin> set al)"

text \<open>The signals of a block: the last one is new and without callbacks.\<close>

definition block_ok :: "'w translation \<Rightarrow> bool" where
  "block_ok t \<longleftrightarrow> tb_signals t \<noteq> [] \<and> set (tb_signals t) \<subseteq> set (allocated t) \<and> distinct (tb_signals t) \<and> slots_of t (last (tb_signals t)) = []"

lemma run_instrumented:
  assumes "conf_ok cf"
  shows "\<exists>ops. s2e_tcg_instrument_code cf sig pc nextpc t = gen_ops ops t \<and>
    (\<forall>en core slots st rest r v. \<exists>r'. run_code en core slots st (ops @ rest) r v =
      and_then (callbacks en (slots sig) pc (advance_pc cf st nextpc v)) (run_code en core slots st rest r'))"
proof -
  have f: "temp_new cf (x # xs) \<noteq> x" for x xs using assms by (metis conf_ok_def list.set_intros(1))
  have g: "temp_new cf (x # y # xs) \<noteq> y" for x y xs using assms by (metis conf_ok_def list.set_intros)
  show ?thesis
    using assms f g f [symmetric] g [symmetric] unfolding s2e_tcg_instrument_code_def Let_def
    by (intro exI conjI refl) (auto simp: pc_update_def Let_def conf_ok_def callbacks_def advance_pc_def s2e_tcg_execution_handler_def intro: exI)
qed

text \<open>One event: the signals of earlier events keep their callbacks, and the new code does what the event asks
  for, whatever else is connected to later signals.\<close>

definition keeps :: "'w translation \<Rightarrow> 'w translation \<Rightarrow> bool" where
  "keeps t t' \<longleftrightarrow> set (allocated t) \<subseteq> set (allocated t') \<and> block_ok t' \<and>
     (\<forall>s\<in>set (allocated t). s \<noteq> last (tb_signals t) \<longrightarrow> slots_of t' s = slots_of t s \<and> s \<noteq> last (tb_signals t'))"

definition filled :: "'w translation \<Rightarrow> 'w translation \<Rightarrow> (u64, 'w) slot list \<Rightarrow> bool" where
  "filled t t' cs \<longleftrightarrow> cs \<noteq> [] \<longrightarrow> slots_of t' (last (tb_signals t)) = cs \<and> last (tb_signals t) \<noteq> last (tb_signals t')"

lemma push_keeps:
  assumes "conf_ok cf" "block_ok t" "length (allocated t) < 2 ^ 32"
  shows "keeps t (push_signal cf (gen_ops ops (t\<lparr>slots_of := (slots_of t)(last (tb_signals t) := cs)\<rparr>)))"
    "filled t (push_signal cf (gen_ops ops (t\<lparr>slots_of := (slots_of t)(last (tb_signals t) := cs)\<rparr>))) cs"
proof -
  have n: "signal_new cf (allocated t) \<notin> set (allocated t)" using assms(1,3) by (simp add: conf_ok_def)
  have l: "last (tb_signals t) \<in> set (allocated t)" using assms(2) by (auto simp: block_ok_def)
  show "keeps t (push_signal cf (gen_ops ops (t\<lparr>slots_of := (slots_of t)(last (tb_signals t) := cs)\<rparr>)))"
    using n l assms(2) by (auto simp: keeps_def block_ok_def push_signal_def gen_ops_def Let_def)
  show "filled t (push_signal cf (gen_ops ops (t\<lparr>slots_of := (slots_of t)(last (tb_signals t) := cs)\<rparr>))) cs"
    using n l by (auto simp: filled_def push_signal_def gen_ops_def Let_def)
qed

definition emits ::
  "('e, 'w) core_plugin \<Rightarrow> 'w translation \<Rightarrow> (u64, 'w) slot list \<Rightarrow> 'w tcg_op list \<Rightarrow>
   (bool \<Rightarrow> (nat \<Rightarrow> nat \<Rightarrow> u64 \<Rightarrow> 'w \<Rightarrow> 'w) \<Rightarrow> 'w \<Rightarrow> 'w run) \<Rightarrow> bool" where
  "emits core t cs ops f \<longleftrightarrow> (\<forall>en slots st rest r v. (cs \<noteq> [] \<longrightarrow> slots (last (tb_signals t)) = cs) \<longrightarrow>
     (\<exists>r'. run_code en core slots st (ops @ rest) r v = and_then (f en st v) (run_code en core slots st rest r')))"

lemma on_translate_step:
  fixes w :: "('e, 'o, 'k, 'p) pw"
  assumes cf: "conf_ok cf" and ok: "block_ok t" and room: "length (allocated t) < 2 ^ 32" and tr: "on_translate cf sl a pc nextpc (t, w) = (None, (t', w'))"
  shows "\<exists>cs ops. emit_translate sl a w = (cs, (None, w')) \<and> gen_code t' = gen_code t @ ops \<and> keeps t t' \<and> filled t t' cs \<and> length (allocated t') \<le> length (allocated t) + 1 \<and>
    (\<forall>core :: ('e, ('e, 'o, 'k, 'p) pw) core_plugin. emits core t cs ops (\<lambda>en st v.
      if cs = [] then (None, v) else callbacks en cs pc (advance_pc cf st nextpc v)))"
proof -
  obtain cs e w1 where em: "emit_translate sl a w = (cs, (e, w1))" by (metis prod.exhaust)
  let ?s = "last (tb_signals t)"
  let ?t = "t\<lparr>slots_of := (slots_of t)(?s := cs)\<rparr>"
  have none: "e = None" and w: "w1 = w'"
    using tr ok em by (auto simp: on_translate_def block_ok_def fault_run_def Let_def catch_exit_def split: if_splits option.splits stop.splits fault.splits)
  have t': "t' = (if cs = [] then ?t else push_signal cf (s2e_tcg_instrument_code cf ?s pc nextpc ?t))"
    using tr ok em none by (auto simp: on_translate_def block_ok_def fault_run_def Let_def catch_exit_def split: if_splits)
  show ?thesis
  proof (cases "cs = []")
    case True
    then have "t' = t" using t' ok by (simp add: block_ok_def fun_upd_idem)
    then show ?thesis using em none w True ok
      by (intro exI [of _ "[]"]) (auto simp: keeps_def filled_def and_then_def emits_def)
  next
    case False
    from run_instrumented [OF cf, of ?s pc nextpc ?t] obtain ops where
      ops: "s2e_tcg_instrument_code cf ?s pc nextpc ?t = gen_ops ops ?t"
        "\<And>en (core :: ('e, ('e, 'o, 'k, 'p) pw) core_plugin) slots st rest r v. \<exists>r'. run_code en core slots st (ops @ rest) r v =
          and_then (callbacks en (slots ?s) pc (advance_pc cf st nextpc v)) (run_code en core slots st rest r')" by blast
    have t2: "t' = push_signal cf (gen_ops ops ?t)" using t' False ops(1) by simp
    show ?thesis
      using em none w False ops(2) push_keeps [OF cf ok room, of ops cs]
      by (intro exI [of _ cs] exI [of _ ops]) (auto simp: t2 push_signal_def gen_ops_def Let_def emits_def)
  qed
qed

lemma keeps_trans: "keeps t t1 \<Longrightarrow> keeps t1 t2 \<Longrightarrow> keeps t t2"
  by (auto simp: keeps_def)

lemma and_then_assoc: "and_then (and_then m f) g = and_then m (\<lambda>x. and_then (f x) g)"
  by (auto simp: and_then_def split: option.splits prod.splits)

lemma translate_event_step:
  fixes w :: "('e, 'o, 'k, 'p) pw" and core :: "('e, ('e, 'o, 'k, 'p) pw) core_plugin"
  assumes cf: "conf_ok cf" and ok: "block_ok t" and room: "length (allocated t) < 2 ^ 32" and tr: "translate_event cf core ev (t, w) = (None, (t', w'))"
  shows "\<exists>cs ops. offer core ev w = (cs, (None, w')) \<and> gen_code t' = gen_code t @ ops \<and> keeps t t' \<and> filled t t' cs \<and> length (allocated t') \<le> length (allocated t) + 1 \<and>
    emits core t cs ops (\<lambda>en st v. spec_event cf en core st ev cs v)"
proof (cases ev)
  case (Block_Start pc)
  with on_translate_step [OF cf ok room, of "onTranslateBlockStart core" pc pc "- 1"] tr show ?thesis
    by (simp add: s2e_on_translate_block_start_def cong: if_cong) blast
next
  case (Block_End pc b target)
  with on_translate_step [OF cf ok room, of "onTranslateBlockEnd core" "(pc, b \<noteq> 0, target)" pc "- 1"] tr show ?thesis
    by (simp add: s2e_on_translate_block_end_def cong: if_cong) blast
next
  case (Instruction_Start pc)
  with on_translate_step [OF cf ok room, of "onTranslateInstructionStart core" pc pc "- 1"] tr show ?thesis
    by (simp add: s2e_on_translate_instruction_start_def cong: if_cong) blast
next
  case (Jump_Start pc j)
  with on_translate_step [OF cf ok room, of "onTranslateJumpStart core" "(pc, j)" pc "- 1"] tr show ?thesis
    by (simp add: s2e_on_translate_jump_start_def cong: if_cong) blast
next
  case (Instruction_End pc nextpc)
  with on_translate_step [OF cf ok room, of "onTranslateInstructionEnd core" pc pc nextpc] tr show ?thesis
    by (simp add: s2e_on_translate_instruction_end_def cong: if_cong) blast
next
  case (Register_Access pc rm wm mem)
  with on_translate_step [OF cf ok room, of "onTranslateRegisterAccessEnd core" "(pc, rm, wm, mem \<noteq> 0)" pc "- 1"] tr show ?thesis
    by (simp add: s2e_on_translate_register_access_def cong: if_cong) blast
next
  case (Custom_Instruction arg)
  with tr ok show ?thesis
    by (auto simp: s2e_tcg_emit_custom_instruction_def gen_ops_def keeps_def block_ok_def filled_def Let_def emits_def intro: exI)
next
  case (Guest_Code f)
  with tr ok show ?thesis by (auto simp: gen_ops_def keeps_def block_ok_def filled_def emits_def intro: exI)
qed

lemma translate_all_calls:
  fixes w :: "('e, 'o, 'k, 'p) pw" and core :: "('e, ('e, 'o, 'k, 'p) pw) core_plugin"
  assumes cf: "conf_ok cf"
  shows "block_ok t \<Longrightarrow> length (allocated t) + length evs < 2 ^ 32 \<Longrightarrow> translate_all cf core evs (t, w) = (None, (t', w')) \<Longrightarrow>
    \<exists>ops. gen_code t' = gen_code t @ ops \<and> keeps t t' \<and>
      (\<forall>en st r v. run_code en core (slots_of t') st ops r v = spec_run cf en core st evs w v)"
proof (induction evs arbitrary: t w)
  case Nil
  then show ?case by (auto simp: keeps_def)
next
  case (Cons ev evs)
  obtain t1 w1 where ev: "translate_event cf core ev (t, w) = (None, (t1, w1))"
    and rest: "translate_all cf core evs (t1, w1) = (None, (t', w'))"
    using Cons.prems(3) by (auto simp: and_then_def split: option.splits prod.splits)
  have "length (allocated t) < 2 ^ 32" using Cons.prems(2) by simp
  from translate_event_step [OF cf Cons.prems(1) this ev] obtain cs ops where
    s: "offer core ev w = (cs, (None, w1))" "gen_code t1 = gen_code t @ ops" "keeps t t1" "filled t t1 cs"
      "length (allocated t1) \<le> length (allocated t) + 1"
      "emits core t cs ops (\<lambda>en st v. spec_event cf en core st ev cs v)" by blast
  from Cons.IH [OF _ _ rest] s(3,5) Cons.prems(2) obtain ops2 where
    i: "gen_code t' = gen_code t1 @ ops2" "keeps t1 t'"
      "\<And>en st r v. run_code en core (slots_of t') st ops2 r v = spec_run cf en core st evs w1 v" by (auto simp: keeps_def)
  have "last (tb_signals t) \<in> set (allocated t)" using Cons.prems(1) by (auto simp: block_ok_def)
  then have sl: "cs \<noteq> [] \<longrightarrow> slots_of t' (last (tb_signals t)) = cs"
    using s(3,4) i(2) by (auto simp: keeps_def filled_def)
  have "run_code en core (slots_of t') st (ops @ ops2) r v = spec_run cf en core st (ev # evs) w v" for en st r v
  proof -
    obtain r' where "run_code en core (slots_of t') st (ops @ ops2) r v =
        and_then (spec_event cf en core st ev cs v) (run_code en core (slots_of t') st ops2 r')"
      using s(6) sl unfolding emits_def by blast
    moreover have "run_code en core (slots_of t') st ops2 r' = spec_run cf en core st evs w1" using i(3) by (intro ext)
    ultimately show ?thesis using s(1) by simp
  qed
  then show ?case using s(2) i(1) keeps_trans [OF s(3) i(2)] by (intro exI [of _ "ops @ ops2"]) simp
qed

section \<open>Properties\<close>

text \<open>C33: The code of a translation block, executed, runs the guest's code with exactly the callbacks that the
  plugins connected at each event, in the order of the events and of the connections, with the program
  counter of the event and after its update where the event gives the next one.\<close>

theorem instrumented_code_calls:
  fixes w :: "('e, 'o, 'k, 'p) pw" and core :: "('e, ('e, 'o, 'k, 'p) pw) core_plugin"
  assumes "conf_ok cf" "block_ok t" "gen_code t = []" "length (allocated t) + length evs < 2 ^ 32"
    and "translate_all cf core evs (t, w) = (None, (t', w'))"
  shows "run_code en core (slots_of t') st (gen_code t') r v = spec_run cf en core st evs w v"
  using translate_all_calls [OF assms(1,2,4,5)] assms(3) by auto

text \<open>A callback that throws the exception to the CPU loop leaves by a long jump, or by a failing assertion
  where the state of the machine may be inconsistent; it never leaves a notification function of QEMU as an
  exception, but for the device, port and timer events.\<close>

lemma catch_exit_contains: "fst (catch_exit r) \<noteq> Some (Fault Cpu_Exit)"
  by (cases r) (auto simp: catch_exit_def split: option.splits stop.splits fault.splits)

lemma forbid_exit_contains: "fst (forbid_exit r) \<noteq> Some (Fault Cpu_Exit)"
  by (cases r) (auto simp: forbid_exit_def fault_run_def split: option.splits stop.splits fault.splits)

lemma catch_result_contains: "fst (catch_result r) \<noteq> Inl (Fault Cpu_Exit)"
  by (cases r) (auto simp: catch_result_def split: sum.splits stop.splits fault.splits)

theorem exceptions_contained:
  "fst (on_translate tc sl a pc nextpc tw) \<noteq> Some (Fault Cpu_Exit)"
  "fst (s2e_tcg_execution_handler en slots sig pc w) \<noteq> Some (Fault Cpu_Exit)"
  "fst (s2e_tcg_custom_instruction_handler core arg w) \<noteq> Some (Fault Cpu_Exit)"
  "fst (s2e_on_exception cf core intNb w) \<noteq> Some (Fault Cpu_Exit)"
  "fst (s2e_trace_memory_access kl core va ha buf n wr io code w) \<noteq> Some (Fault Cpu_Exit)"
  "fst (s2e_hijack_memory_access cf kl core va ha buf n wr io code w) \<noteq> Inl (Fault Cpu_Exit)"
  "fst (s2e_on_privilege_change core p c w) \<noteq> Some (Fault Cpu_Exit)"
  by (auto simp: catch_exit_contains forbid_exit_contains catch_result_contains on_translate_def s2e_tcg_execution_handler_def s2e_tcg_custom_instruction_handler_def s2e_on_exception_def
      s2e_trace_memory_access_def s2e_trace_memory_access_slow_def s2e_hijack_memory_access_def s2e_hijack_memory_access_slow_def s2e_on_privilege_change_def require_def fault_run_def Let_def
      split: prod.splits)

section \<open>A plugin that counts\<close>

text \<open>The plugin records the program counters at which it is called; it connects its callback at the start of
  a block and twice at the end of an instruction.\<close>

fun first_free :: "nat \<Rightarrow> nat \<Rightarrow> u64 list \<Rightarrow> u64" where
  "first_free 0 n al = of_nat n"
| "first_free (Suc k) n al = (if of_nat n \<in> set al then first_free k (n + 1) al else of_nat n)"

lemma first_free_used: "first_free k n al \<in> set al \<Longrightarrow> i \<le> k \<Longrightarrow> of_nat (n + i) \<in> set al"
proof (induction k arbitrary: n i)
  case (Suc k)
  show ?case
  proof (cases i)
    case 0
    then show ?thesis using Suc.prems by (auto split: if_splits)
  next
    case (Suc j)
    then have "of_nat (n + 1 + j) \<in> set al" using Suc.prems by (intro Suc.IH) (auto split: if_splits)
    then show ?thesis using Suc by simp
  qed
qed simp

lemma first_free_unused: "length al < 2 ^ 32 \<Longrightarrow> first_free (length al) 1 al \<notin> set al"
proof
  assume len: "length al < 2 ^ 32" and u: "first_free (length al) 1 al \<in> set al"
  have "inj_on (\<lambda>i. of_nat (1 + i) :: u64) {..length al}"
  proof (rule inj_onI)
    fix i j assume "i \<in> {..length al}" "j \<in> {..length al}" and eq: "(of_nat (1 + i) :: u64) = of_nat (1 + j)"
    with len have "i + 1 < 2 ^ 64" "j + 1 < 2 ^ 64" by auto
    moreover have "unat (of_nat (1 + i) :: u64) = unat (of_nat (1 + j) :: u64)" using eq by (rule arg_cong)
    ultimately show "i = j" by (simp add: unat_of_nat take_bit_nat_eq_self del: of_nat_add of_nat_Suc)
  qed
  then have "card ((\<lambda>i. of_nat (1 + i) :: u64) ` {..length al}) = length al + 1" by (simp add: card_image)
  moreover have "(\<lambda>i. of_nat (1 + i) :: u64) ` {..length al} \<subseteq> set al" using first_free_used [OF u] by auto
  then have "card ((\<lambda>i. of_nat (1 + i) :: u64) ` {..length al}) \<le> length al" by (meson List.finite_set card_length card_mono order_trans)
  ultimately show False by simp
qed

definition small_conf :: tcg_conf where
  "small_conf = \<lparr>host64 = True, x86_64 = False, pc_offset = 60, temp_new = (\<lambda>used. Suc (Max (set (0 # used)))),
     signal_new = (\<lambda>al. first_free (length al) 1 al)\<rparr>"

lemma small_conf_ok: "conf_ok small_conf"
proof -
  have "Suc (Max (set (0 # used))) \<notin> set used" for used
  proof
    assume "Suc (Max (set (0 # used))) \<in> set used"
    then have "Suc (Max (set (0 # used))) \<le> Max (set (0 # used))" by (intro Max_ge) auto
    then show False by simp
  qed
  then show ?thesis using first_free_unused by (simp add: conf_ok_def small_conf_def)
qed

type_synonym count_world = "(sx, nat, nat \<Rightarrow> sx list, u64 list) plugin_world"

definition count_call :: "(u64, count_world) slot" where
  "count_call pc w = (None, w\<lparr>plugin_state := plugin_state w @ [pc]\<rparr>)"

definition counting :: "(sx, count_world) core_plugin" where
  "counting = \<lparr>onTranslateBlockStart = [\<lambda>pc w. ([count_call], (None, w))], onTranslateBlockEnd = [],
     onTranslateInstructionStart = [], onTranslateInstructionEnd = [\<lambda>pc w. ([count_call, count_call], (None, w))],
     onTranslateRegisterAccessEnd = [], onTranslateJumpStart = [], onException = [], onCustomInstruction = [],
     onDataMemoryAccess = [], onHijackMemoryRead = [], onHijackMemoryWrite = [], onPortAccess = [], onTimer = [],
     onTlbMiss = [], onPageFault = [], onDeviceRegistration = [], onDeviceActivation = [], onPciDeviceMappingUpdate = [],
     onPrivilegeChange = [], onPageDirectoryChange = [], onInitializationComplete = [], m_isPortSymbolicCb = None,
     m_isMmioSymbolicCb = None\<rparr>"

definition count_start :: count_world where "count_start = \<lparr>cpu = arm_state False [], plugin_state = []\<rparr>"

definition empty_block :: "count_world translation" where
  "empty_block = \<lparr>gen_code = [], temps_used = [], slots_of = (\<lambda>_. []), allocated = [1], tb_signals = [1]\<rparr>"

definition two_events :: "count_world tevent list" where
  "two_events = [Block_Start 0x100, Guest_Code (\<lambda>w. (None, w)), Instruction_End 0x100 0x104]"

lemma two_events_translated:
  "fst (translate_all small_conf counting two_events (empty_block, count_start)) = None"
  by (simp add: two_events_def counting_def empty_block_def count_start_def small_conf_def s2e_on_translate_block_start_def
      s2e_on_translate_instruction_end_def on_translate_def arm_state_def zero_ram_def push_signal_def s2e_tcg_instrument_code_def
      gen_ops_def pc_update_def Let_def catch_exit_def and_then_def)

theorem instrumented_code_calls_witness:
  "\<exists>t' w'. translate_all small_conf counting two_events (empty_block, count_start) = (None, (t', w')) \<and>
    run_code True counting (slots_of t') (\<lambda>off n v w. w) (gen_code t') (\<lambda>_. 0) count_start =
      (None, count_start\<lparr>plugin_state := [0x100, 0x100, 0x100]\<rparr>)"
proof -
  obtain t' w' where tr: "translate_all small_conf counting two_events (empty_block, count_start) = (None, (t', w'))"
    using two_events_translated by (metis prod.collapse)
  have "run_code True counting (slots_of t') (\<lambda>off n v w. w) (gen_code t') (\<lambda>_. 0) count_start =
      spec_run small_conf True counting (\<lambda>off n v w. w) two_events count_start count_start"
    by (rule instrumented_code_calls [OF small_conf_ok _ _ _ tr]) (simp_all add: block_ok_def empty_block_def two_events_def)
  also have "\<dots> = (None, count_start\<lparr>plugin_state := [0x100, 0x100, 0x100]\<rparr>)"
    by (simp add: two_events_def counting_def count_start_def count_call_def callbacks_def advance_pc_def small_conf_def catch_exit_def and_then_def)
  finally show ?thesis using tr by blast
qed

end
