(* ===== verification/State_Merge.thy ===== *)
theory State_Merge
  imports Cpu_State
begin

text \<open>
  The merge of two execution states (\<open>S2EExecutionState::merge\<close>): constraints, values of the LLVM stacks,
  memory objects and the dirty mask. Expressions are KLEE's; two code fragments that this version stubs out
  with failing assertions, the comparison of the CPU states and the flush of the TLB, are arguments.
\<close>

section \<open>States\<close>

text \<open>Memory objects and object states are identified as the code identifies them, by their addresses. The
  bytes of the dirty mask are concrete. A local of a frame may be null.\<close>

record memory_object =
  mo_id :: nat
  mo_ignored :: bool
  mo_shared :: bool

record 'e object_state =
  os_id :: nat
  os_readOnly :: bool
  os_bytes :: "'e list"

record 'e merge_state =
  constraints :: "'e list"
  objects :: "(memory_object \<times> 'e object_state) list"
  frames :: "'e option list list"
  cpu_object :: nat
  dirty_object :: nat
  dirty_mask :: "u8 list"

text \<open>KLEE's constructors of expressions.\<close>

record 'e merge_ops =
  e_true :: 'e
  e_and :: "'e \<Rightarrow> 'e \<Rightarrow> 'e"
  e_disj :: "'e \<Rightarrow> 'e \<Rightarrow> 'e"
  e_select :: "'e \<Rightarrow> 'e \<Rightarrow> 'e \<Rightarrow> 'e"

section \<open>The steps\<close>

text \<open>The sets of constraints; their order, by address or structure, does not matter.\<close>

definition common :: "'e list \<Rightarrow> 'e list \<Rightarrow> 'e list" where
  "common as bs = filter (\<lambda>c. c \<in> set bs) (remdups as)"

definition suffix_of :: "'e list \<Rightarrow> 'e list \<Rightarrow> 'e list" where
  "suffix_of as cs = filter (\<lambda>c. c \<notin> set cs) (remdups as)"

definition predicate :: "'e merge_ops \<Rightarrow> 'e list \<Rightarrow> 'e" where
  "predicate ops cs = foldl (e_and ops) (e_true ops) cs"

text \<open>The loop over the objects of both states; the result are the mutated objects, none if the states
  cannot be merged.\<close>

fun mutated_objects ::
  "nat \<Rightarrow> nat \<Rightarrow> (memory_object \<times> 'e object_state) list \<Rightarrow> (memory_object \<times> 'e object_state) list \<Rightarrow> nat set option" where
  "mutated_objects cpu dirty ((mo, os) # as) ((mo', os') # bs) =
     (if mo_id mo \<noteq> mo_id mo' then None
      else if os_id os \<noteq> os_id os' \<and> \<not> mo_ignored mo \<and> mo_id mo \<noteq> cpu \<and> mo_id mo \<noteq> dirty then
        (if mo_shared mo then None else map_option (insert (mo_id mo)) (mutated_objects cpu dirty as bs))
      else mutated_objects cpu dirty as bs)"
| "mutated_objects cpu dirty [] [] = Some {}"
| "mutated_objects cpu dirty _ _ = None"

definition merge_value :: "'e merge_ops \<Rightarrow> 'e \<Rightarrow> 'e \<Rightarrow> 'e \<Rightarrow> 'e" where
  "merge_value ops inA av bv = (if av \<noteq> bv then e_select ops inA av bv else av)"

definition merge_local :: "'e merge_ops \<Rightarrow> 'e \<Rightarrow> 'e option \<Rightarrow> 'e option \<Rightarrow> 'e option" where
  "merge_local ops inA av bv = (case (av, bv) of (Some a, Some b) \<Rightarrow> Some (merge_value ops inA a b) | _ \<Rightarrow> av)"

text \<open>The frames correspond by the earlier comparison of the stacks; the locals of a frame are as many as its
  function has registers, so that a frame of another function is read out of bounds.\<close>

fun merge_stack :: "'e merge_ops \<Rightarrow> 'e \<Rightarrow> 'e option list list \<Rightarrow> 'e option list list \<Rightarrow> 'e option list list res" where
  "merge_stack ops inA [] bs = Inr []"
| "merge_stack ops inA (a # as) [] = Inl Undefined_Behaviour"
| "merge_stack ops inA (a # as) (b # bs) =
     rbind (ensure_defined (length a \<le> length b)) (\<lambda>_.
     rbind (merge_stack ops inA as bs) (\<lambda>r. Inr (map2 (merge_local ops inA) a b # r)))"

text \<open>The objects that have changed; \<open>getWriteable\<close> gives the state an object state of its own, which keeps
  its identity here as nothing depends on it afterwards.\<close>

fun merge_memory ::
  "'e merge_ops \<Rightarrow> 'e \<Rightarrow> nat set \<Rightarrow> (memory_object \<times> 'e object_state) list \<Rightarrow> (memory_object \<times> 'e object_state) list \<Rightarrow>
   (memory_object \<times> 'e object_state) list res" where
  "merge_memory ops inA mutated ((mo, os) # as) ((mo', os') # bs) =
     rbind (if mo_id mo \<in> mutated then
         rbind (assert_that (\<not> os_readOnly os)) (\<lambda>_.
           Inr (os\<lparr>os_bytes := map2 (merge_value ops inA) (os_bytes os) (os_bytes os')\<rparr>))
       else Inr os) (\<lambda>o1. rbind (merge_memory ops inA mutated as bs) (\<lambda>r. Inr ((mo, o1) # r)))"
| "merge_memory ops inA mutated as bs = Inr as"

definition merge_dirty :: "u8 list \<Rightarrow> u8 list \<Rightarrow> u8 list" where
  "merge_dirty as bs = map2 (\<lambda>a b. if a \<noteq> b then 0 else a) as bs"

text \<open>The merge after the checks that \<open>Cpu_State.merge\<close> models. \<open>same_cpu\<close> and \<open>flush\<close> are the fragments
  that this version replaces by failing assertions.\<close>

definition merge_into ::
  "'e merge_ops \<Rightarrow> bool res \<Rightarrow> unit res \<Rightarrow> 'e merge_state \<Rightarrow> 'e merge_state \<Rightarrow> 'e merge_state option res" where
  "merge_into ops same_cpu flush a b =
     (let cs = common (constraints a) (constraints b);
          aSuffix = suffix_of (constraints a) cs; bSuffix = suffix_of (constraints b) cs in
      rbind same_cpu (\<lambda>same.
        if \<not> same then Inr None
        else (case mutated_objects (cpu_object a) (dirty_object a) (objects a) (objects b) of
            None \<Rightarrow> Inr None
          | Some mutated \<Rightarrow>
              let inA = predicate ops aSuffix; inB = predicate ops bSuffix in
              rbind (merge_stack ops inA (frames a) (frames b)) (\<lambda>fs.
              rbind (merge_memory ops inA mutated (objects a) (objects b)) (\<lambda>obs.
              rbind flush (\<lambda>_.
                Inr (Some (a\<lparr>frames := fs, objects := obs, constraints := cs @ [e_disj ops inA inB],
                  dirty_mask := merge_dirty (dirty_mask a) (dirty_mask b)\<rparr>))))))))"

section \<open>What a merged state stands for\<close>

text \<open>\<open>ev e m\<close> is the value of an expression under an input; the laws are the meaning of the constructors.\<close>

definition merge_laws :: "'e merge_ops \<Rightarrow> ('e \<Rightarrow> 'm \<Rightarrow> nat) \<Rightarrow> bool" where
  "merge_laws ops ev \<longleftrightarrow>
     (\<forall>m. ev (e_true ops) m \<noteq> 0) \<and>
     (\<forall>a b m. ev (e_and ops a b) m \<noteq> 0 \<longleftrightarrow> ev a m \<noteq> 0 \<and> ev b m \<noteq> 0) \<and>
     (\<forall>a b m. ev (e_disj ops a b) m \<noteq> 0 \<longleftrightarrow> ev a m \<noteq> 0 \<or> ev b m \<noteq> 0) \<and>
     (\<forall>c a b m. ev (e_select ops c a b) m = (if ev c m \<noteq> 0 then ev a m else ev b m))"

definition feasible :: "('e \<Rightarrow> 'm \<Rightarrow> nat) \<Rightarrow> 'e merge_state \<Rightarrow> 'm \<Rightarrow> bool" where
  "feasible ev s m \<longleftrightarrow> (\<forall>c\<in>set (constraints s). ev c m \<noteq> 0)"

text \<open>An object state is one and the same in two states when its address is, and so is a memory object; object
  states of the same object have the same length.\<close>

definition same_objects :: "'e merge_state \<Rightarrow> 'e merge_state \<Rightarrow> bool" where
  "same_objects a b \<longleftrightarrow> distinct (map (mo_id \<circ> fst) (objects a)) \<and>
     (\<forall>x\<in>set (objects a). \<forall>y\<in>set (objects b). mo_id (fst x) = mo_id (fst y) \<longrightarrow> fst x = fst y \<and>
        length (os_bytes (snd x)) = length (os_bytes (snd y)) \<and> (os_id (snd x) = os_id (snd y) \<longrightarrow> os_bytes (snd x) = os_bytes (snd y)))"

text \<open>Under an input, the values of \<open>r\<close> are those of \<open>s\<close>: in every object that the merge looks at, and in every
  local that both merged states have.\<close>

definition object_values :: "('e \<Rightarrow> 'm \<Rightarrow> nat) \<Rightarrow> nat \<Rightarrow> nat \<Rightarrow> 'm \<Rightarrow> memory_object \<times> 'e object_state \<Rightarrow> nat list option" where
  "object_values ev cpu dirty m x =
     (if mo_ignored (fst x) \<or> mo_id (fst x) = cpu \<or> mo_id (fst x) = dirty then None else Some (map (\<lambda>e. ev e m) (os_bytes (snd x))))"

definition stands_for :: "('e \<Rightarrow> 'm \<Rightarrow> nat) \<Rightarrow> 'e merge_state \<Rightarrow> 'e merge_state \<Rightarrow> 'e merge_state \<Rightarrow> 'e merge_state \<Rightarrow> 'm \<Rightarrow> bool" where
  "stands_for ev a b r s m \<longleftrightarrow>
     (\<forall>i<length (objects a). object_values ev (cpu_object a) (dirty_object a) m (objects r ! i) =
        object_values ev (cpu_object a) (dirty_object a) m (objects s ! i)) \<and>
     (\<forall>f<length (frames a). \<forall>i<length (frames a ! f). frames a ! f ! i \<noteq> None \<and> frames b ! f ! i \<noteq> None \<longrightarrow>
        map_option (\<lambda>e. ev e m) (frames r ! f ! i) = map_option (\<lambda>e. ev e m) (frames s ! f ! i))"

lemma predicate_value:
  assumes "merge_laws ops ev"
  shows "ev (predicate ops cs) m \<noteq> 0 \<longleftrightarrow> (\<forall>c\<in>set cs. ev c m \<noteq> 0)"
proof -
  have "ev (foldl (e_and ops) e cs) m \<noteq> 0 \<longleftrightarrow> ev e m \<noteq> 0 \<and> (\<forall>c\<in>set cs. ev c m \<noteq> 0)" for e
    using assms by (induction cs arbitrary: e) (auto simp: merge_laws_def)
  then show ?thesis using assms by (simp add: predicate_def merge_laws_def)
qed

lemma merge_value_value:
  "merge_laws ops ev \<Longrightarrow> ev (merge_value ops c a b) m = (if ev c m \<noteq> 0 then ev a m else ev b m)"
  by (simp add: merge_value_def merge_laws_def)

lemma constraint_sets:
  "set (common as bs) = set as \<inter> set bs" "set (suffix_of as (common as bs)) = set as - set bs"
  "set (suffix_of bs (common as bs)) = set bs - set as"
  by (auto simp: common_def suffix_of_def)

lemma stack_values:
  assumes "merge_stack ops c as bs = Inr r" "length as = length bs"
  shows "length r = length as \<and> (\<forall>f<length as. length (as ! f) \<le> length (bs ! f) \<and> r ! f = map2 (merge_local ops c) (as ! f) (bs ! f))"
  using assms(2,1)
proof (induction as bs arbitrary: r rule: list_induct2)
  case (Cons a as b bs)
  from Cons.prems obtain r1 where r: "length a \<le> length b" "merge_stack ops c as bs = Inr r1"
    "r = map2 (merge_local ops c) a b # r1" by (auto simp: rbind_Inr_iff)
  note ih = Cons.IH [OF r(2)]
  have "length ((a # as) ! f) \<le> length ((b # bs) ! f) \<and> r ! f = map2 (merge_local ops c) ((a # as) ! f) ((b # bs) ! f)"
    if "f < length (a # as)" for f
    using that ih r(1,3) by (cases f) auto
  then show ?case using ih r(3) by simp
qed simp

definition changed :: "nat \<Rightarrow> nat \<Rightarrow> memory_object \<times> 'e object_state \<Rightarrow> memory_object \<times> 'e object_state \<Rightarrow> bool" where
  "changed cpu dirty x y \<longleftrightarrow> os_id (snd x) \<noteq> os_id (snd y) \<and> \<not> mo_ignored (fst x) \<and> mo_id (fst x) \<noteq> cpu \<and> mo_id (fst x) \<noteq> dirty"

lemma mutated_objects_spec:
  "mutated_objects cpu dirty as bs = Some M \<Longrightarrow> length as = length bs \<and> (\<forall>i<length as. mo_id (fst (as ! i)) = mo_id (fst (bs ! i))) \<and>
    M = {mo_id (fst x) | x y. (x, y) \<in> set (zip as bs) \<and> changed cpu dirty x y}"
proof (induction cpu dirty as bs arbitrary: M rule: mutated_objects.induct)
  case (1 cpu dirty mo os as mo' os' bs)
  let ?x = "(mo, os)" and ?y = "(mo', os')"
  have id: "mo_id mo = mo_id mo'" using "1.prems" by (auto split: if_splits)
  have ch: "changed cpu dirty ?x ?y \<longleftrightarrow> os_id os \<noteq> os_id os' \<and> \<not> mo_ignored mo \<and> mo_id mo \<noteq> cpu \<and> mo_id mo \<noteq> dirty"
    by (simp add: changed_def)
  obtain M1 where M1: "mutated_objects cpu dirty as bs = Some M1" "M = (if changed cpu dirty ?x ?y then insert (mo_id mo) M1 else M1)"
    using "1.prems" id ch by (auto split: if_splits)
  have ih: "length as = length bs \<and> (\<forall>i<length as. mo_id (fst (as ! i)) = mo_id (fst (bs ! i))) \<and>
      M1 = {mo_id (fst x) | x y. (x, y) \<in> set (zip as bs) \<and> changed cpu dirty x y}"
    using "1.IH" id M1(1) ch "1.prems" by (cases "changed cpu dirty ?x ?y") (auto split: if_splits)
  then have "\<forall>i<length (?x # as). mo_id (fst ((?x # as) ! i)) = mo_id (fst ((?y # bs) ! i))"
    using id by (simp add: nth_Cons split: nat.splits)
  moreover have "M = {mo_id (fst x) | x y. (x, y) \<in> set (zip (?x # as) (?y # bs)) \<and> changed cpu dirty x y}"
    unfolding M1(2) using ih by auto
  ultimately show ?case using ih by simp
qed auto

lemma merge_memory_spec:
  "length as = length bs \<Longrightarrow> merge_memory ops c M as bs = Inr r \<Longrightarrow> length r = length as \<and>
    (\<forall>i<length as. fst (r ! i) = fst (as ! i) \<and> os_bytes (snd (r ! i)) =
      (if mo_id (fst (as ! i)) \<in> M then map2 (merge_value ops c) (os_bytes (snd (as ! i))) (os_bytes (snd (bs ! i))) else os_bytes (snd (as ! i))))"
proof (induction as bs arbitrary: r rule: list_induct2)
  case (Cons a as b bs)
  obtain mo os mo' os' where ab: "a = (mo, os)" "b = (mo', os')" by (metis prod.exhaust)
  from Cons.prems obtain o1 r1 where r: "r = (mo, o1) # r1" "merge_memory ops c M as bs = Inr r1"
    "os_bytes o1 = (if mo_id mo \<in> M then map2 (merge_value ops c) (os_bytes os) (os_bytes os') else os_bytes os)"
    by (auto simp: ab rbind_Inr_iff split: if_splits)
  from Cons.IH [OF r(2)] r(1,3) show ?case by (auto simp: ab less_Suc_eq_0_disj)
qed simp

text \<open>With the predicate of the first state true, the merged values are the first state's, otherwise the
  second's.\<close>

lemma merged_objects:
  assumes laws: "merge_laws ops ev" and so: "same_objects a b"
    and M: "mutated_objects (cpu_object a) (dirty_object a) (objects a) (objects b) = Some M"
    and r: "merge_memory ops c M (objects a) (objects b) = Inr obs" and i: "i < length (objects a)"
  shows "object_values ev (cpu_object a) (dirty_object a) m (obs ! i) =
    object_values ev (cpu_object a) (dirty_object a) m ((if ev c m \<noteq> 0 then objects a else objects b) ! i)"
proof -
  let ?x = "objects a ! i" and ?y = "objects b ! i"
  note sp = mutated_objects_spec [OF M]
  have len: "length (objects a) = length (objects b)" using sp by simp
  note mm = merge_memory_spec [OF len r]
  have xy: "?x \<in> set (objects a)" "?y \<in> set (objects b)" "(?x, ?y) \<in> set (zip (objects a) (objects b))"
    using i len by (auto simp: in_set_zip)
  have id: "mo_id (fst ?x) = mo_id (fst ?y)" using sp i by simp
  have s: "fst ?x = fst ?y" "length (os_bytes (snd ?x)) = length (os_bytes (snd ?y))"
    "os_id (snd ?x) = os_id (snd ?y) \<longrightarrow> os_bytes (snd ?x) = os_bytes (snd ?y)"
    using so xy(1,2) id unfolding same_objects_def by blast+
  have inM: "mo_id (fst ?x) \<in> M \<longleftrightarrow> changed (cpu_object a) (dirty_object a) ?x ?y"
  proof
    assume "mo_id (fst ?x) \<in> M"
    then obtain x y where "(x, y) \<in> set (zip (objects a) (objects b))" "changed (cpu_object a) (dirty_object a) x y"
      "mo_id (fst x) = mo_id (fst ?x)" using sp by auto
    then obtain j where "j < length (objects a)" "x = objects a ! j" "y = objects b ! j" by (auto simp: in_set_zip)
    moreover have "inj_on (\<lambda>k. mo_id (fst (objects a ! k))) {..<length (objects a)}"
      using so by (auto simp: same_objects_def distinct_conv_nth inj_on_def)
    ultimately have "j = i" using i \<open>mo_id (fst x) = mo_id (fst ?x)\<close> by (auto dest: inj_onD)
    then show "changed (cpu_object a) (dirty_object a) ?x ?y" using \<open>x = _\<close> \<open>y = _\<close> \<open>changed _ _ x y\<close> by simp
  next
    assume "changed (cpu_object a) (dirty_object a) ?x ?y"
    then show "mo_id (fst ?x) \<in> M" using sp xy(3) by blast
  qed
  have v: "map (\<lambda>e. ev e m) (map2 (merge_value ops c) (os_bytes (snd ?x)) (os_bytes (snd ?y))) =
      map (\<lambda>e. ev e m) (os_bytes (snd (if ev c m \<noteq> 0 then ?x else ?y)))"
    using s(2) by (intro nth_equalityI) (auto simp: merge_value_value [OF laws])
  show ?thesis
    using mm i inM s v by (auto simp: object_values_def changed_def)
qed

lemma merged_locals:
  assumes laws: "merge_laws ops ev" and "length (frames a) = length (frames b)" "merge_stack ops c (frames a) (frames b) = Inr fs"
    and f: "f < length (frames a)" "i < length (frames a ! f)" "frames a ! f ! i \<noteq> None" "frames b ! f ! i \<noteq> None"
  shows "map_option (\<lambda>e. ev e m) (fs ! f ! i) = map_option (\<lambda>e. ev e m) ((if ev c m \<noteq> 0 then frames a else frames b) ! f ! i)"
proof -
  have "length (frames a ! f) \<le> length (frames b ! f)" "fs ! f = map2 (merge_local ops c) (frames a ! f) (frames b ! f)"
    using stack_values [OF assms(3,2)] f(1) by auto
  then show ?thesis using f by (auto simp: merge_local_def merge_value_value [OF laws])
qed

text \<open>C30: A merge, where the two fragments that are stubbed out let it go on, gives a state that stands for both:
  it is feasible exactly for the inputs of one or the other, and under each its memory and its locals have the
  values of that state.\<close>

theorem merge_stands_for_both:
  assumes laws: "merge_laws ops ev" and so: "same_objects a b" and len: "length (frames a) = length (frames b)"
    and r: "merge_into ops (Inr True) (Inr ()) a b = Inr (Some r)"
  shows "(feasible ev r m \<longleftrightarrow> feasible ev a m \<or> feasible ev b m) \<and> (feasible ev a m \<longrightarrow> stands_for ev a b r a m) \<and>
    (feasible ev b m \<and> \<not> feasible ev a m \<longrightarrow> stands_for ev a b r b m)"
proof -
  let ?cs = "common (constraints a) (constraints b)"
  let ?inA = "predicate ops (suffix_of (constraints a) ?cs)" and ?inB = "predicate ops (suffix_of (constraints b) ?cs)"
  obtain M fs obs where M: "mutated_objects (cpu_object a) (dirty_object a) (objects a) (objects b) = Some M"
    and fs: "merge_stack ops ?inA (frames a) (frames b) = Inr fs" and obs: "merge_memory ops ?inA M (objects a) (objects b) = Inr obs"
    and req: "frames r = fs" "objects r = obs" "constraints r = ?cs @ [e_disj ops ?inA ?inB]"
    using r by (auto simp: merge_into_def Let_def rbind_Inr_iff split: option.splits)
  have inA: "ev ?inA m \<noteq> 0 \<longleftrightarrow> (\<forall>c\<in>set (constraints a) - set (constraints b). ev c m \<noteq> 0)"
    and inB: "ev ?inB m \<noteq> 0 \<longleftrightarrow> (\<forall>c\<in>set (constraints b) - set (constraints a). ev c m \<noteq> 0)"
    unfolding predicate_value [OF laws] constraint_sets by (rule refl)+
  have f: "feasible ev r m \<longleftrightarrow> feasible ev a m \<or> feasible ev b m"
  proof -
    have "ev (e_disj ops ?inA ?inB) m \<noteq> 0 \<longleftrightarrow> ev ?inA m \<noteq> 0 \<or> ev ?inB m \<noteq> 0" using laws unfolding merge_laws_def by blast
    then have "feasible ev r m \<longleftrightarrow> (\<forall>c\<in>set (constraints a) \<inter> set (constraints b). ev c m \<noteq> 0) \<and> (ev ?inA m \<noteq> 0 \<or> ev ?inB m \<noteq> 0)"
      unfolding feasible_def req(3) set_append constraint_sets by auto
    then show ?thesis unfolding inA inB feasible_def by blast
  qed
  have "stands_for ev a b r (if ev ?inA m \<noteq> 0 then a else b) m"
    unfolding stands_for_def req(1,2)
    using merged_objects [OF laws so M obs, where m = m] merged_locals [OF laws len fs, where m = m] by (auto split: if_splits)
  moreover have "feasible ev a m \<Longrightarrow> ev ?inA m \<noteq> 0" unfolding inA feasible_def by blast
  moreover have "feasible ev b m \<Longrightarrow> \<not> feasible ev a m \<Longrightarrow> \<not> ev ?inA m \<noteq> 0" unfolding inA feasible_def by blast
  ultimately show ?thesis using f by auto
qed

text \<open>In this version every merge of comparable states stops at the first fragment.\<close>

lemma merge_stubbed: "merge_into ops (Inl Assertion_Failed) flush a b = Inl Assertion_Failed"
  by (simp add: merge_into_def Let_def)

section \<open>Two states\<close>

datatype bx = Byte nat | Cond nat | Tt | Conj bx bx | Alt bx bx | Sel bx bx bx

fun bx_eval :: "bx \<Rightarrow> (nat \<Rightarrow> bool) \<Rightarrow> nat" where
  "bx_eval (Byte n) m = n"
| "bx_eval (Cond i) m = (if m i then 1 else 0)"
| "bx_eval Tt m = 1"
| "bx_eval (Conj a b) m = (if bx_eval a m \<noteq> 0 \<and> bx_eval b m \<noteq> 0 then 1 else 0)"
| "bx_eval (Alt a b) m = (if bx_eval a m \<noteq> 0 \<or> bx_eval b m \<noteq> 0 then 1 else 0)"
| "bx_eval (Sel c a b) m = (if bx_eval c m \<noteq> 0 then bx_eval a m else bx_eval b m)"

definition bx_ops :: "bx merge_ops" where "bx_ops = \<lparr>e_true = Tt, e_and = Conj, e_disj = Alt, e_select = Sel\<rparr>"

definition branch_state :: "nat \<Rightarrow> nat \<Rightarrow> nat \<Rightarrow> bx merge_state" where
  "branch_state i v k = \<lparr>constraints = [Cond 0, Cond i],
     objects = [(\<lparr>mo_id = 1, mo_ignored = False, mo_shared = False\<rparr>, \<lparr>os_id = k, os_readOnly = False, os_bytes = [Byte v, Byte 9]\<rparr>)],
     frames = [[Some (Byte v), None]], cpu_object = 7, dirty_object = 8, dirty_mask = [1, 0]\<rparr>"

theorem merge_stands_for_both_witness:
  "\<exists>r. merge_into bx_ops (Inr True) (Inr ()) (branch_state 1 5 20) (branch_state 2 6 30) = Inr (Some r) \<and>
    (\<forall>m. (feasible bx_eval r m \<longleftrightarrow> m 0 \<and> (m 1 \<or> m 2)) \<and>
      (m 0 \<and> m 1 \<longrightarrow> stands_for bx_eval (branch_state 1 5 20) (branch_state 2 6 30) r (branch_state 1 5 20) m))"
proof -
  let ?a = "branch_state 1 5 20" and ?b = "branch_state 2 6 30"
  have laws: "merge_laws bx_ops bx_eval" by (simp add: merge_laws_def bx_ops_def)
  have so: "same_objects ?a ?b" by (simp add: same_objects_def branch_state_def)
  have len: "length (frames ?a) = length (frames ?b)" by (simp add: branch_state_def)
  obtain r where r: "merge_into bx_ops (Inr True) (Inr ()) ?a ?b = Inr (Some r)"
    by (simp add: merge_into_def Let_def branch_state_def)
  have fs: "feasible bx_eval ?a m \<longleftrightarrow> m 0 \<and> m 1" "feasible bx_eval ?b m \<longleftrightarrow> m 0 \<and> m 2" for m
    by (simp_all add: feasible_def branch_state_def)
  have "(feasible bx_eval r m \<longleftrightarrow> m 0 \<and> (m 1 \<or> m 2)) \<and> (m 0 \<and> m 1 \<longrightarrow> stands_for bx_eval ?a ?b r ?a m)" for m
    using merge_stands_for_both [OF laws so len r, where m = m] unfolding fs by argo
  then show ?thesis by (intro exI [of _ r] conjI allI r) simp_all
qed

end
