(* ===== verification/Select_Removal.thy ===== *)
theory Select_Removal
  imports S2E_Prelude
begin

text \<open>
  The pass that replaces select instructions by branches (\<open>SelectRemovalPass.cpp\<close>), which the executor
  installs so that selects of translated code fork. The part of LLVM's functions that the pass handles is data;
  LLVM's \<open>splitBasicBlock\<close> is an argument, with its documented effect as a law.
\<close>

section \<open>Functions\<close>

text \<open>Basic blocks and values are identified by numbers. The phi nodes of a block stand before its other
  instructions, and each has a value for every predecessor. \<open>Op\<close> is any instruction but a select, a phi node or a
  terminator.\<close>

datatype val = Reg nat | Imm nat

record phi_node =
  p_dest :: nat
  p_in :: "(nat \<times> val) list"

datatype instr = Select nat val val val | Op nat nat "val list"

datatype ending = Br nat | CondBr val nat nat | Switch val nat "(nat \<times> nat) list" | Ret "val option" | Unreachable

record block =
  lab :: nat
  phis :: "phi_node list"
  body :: "instr list"
  terminator :: ending

record func =
  blocks :: "block list"
  next_block :: nat

definition set_ending :: "nat \<Rightarrow> ending \<Rightarrow> func \<Rightarrow> func" where
  "set_ending b t f = f\<lparr>blocks := map (\<lambda>B. if lab B = b then B\<lparr>terminator := t\<rparr> else B) (blocks f)\<rparr>"

text \<open>\<open>BasicBlock::Create\<close> appends an empty block; the branch that ends it is created next.\<close>

definition create_block :: "ending \<Rightarrow> func \<Rightarrow> nat \<times> func" where
  "create_block t f = (next_block f,
     f\<lparr>blocks := blocks f @ [\<lparr>lab = next_block f, phis = [], body = [], terminator = t\<rparr>], next_block := Suc (next_block f)\<rparr>)"

section \<open>The pass\<close>

text \<open>\<open>GenIf\<close>: the phi node that it returns is not yet part of a block; its register is that of the select.\<close>

definition GenIf :: "nat \<Rightarrow> val \<Rightarrow> val \<Rightarrow> nat \<Rightarrow> nat \<Rightarrow> val \<Rightarrow> func \<Rightarrow> phi_node \<times> func" where
  "GenIf d trueV falseV entry fallback condition f =
     (let (trueBb, f1) = create_block (Br fallback) f;
          (falseBb, f2) = create_block (Br fallback) f1;
          f3 = set_ending entry (CondBr condition trueBb falseBb) f2
      in (\<lparr>p_dest = d, p_in = [(trueBb, trueV), (falseBb, falseV)]\<rparr>, f3))"

text \<open>The first instruction of a block is replaced; the uses of its register become uses of the phi node.\<close>

definition ReplaceFirst :: "nat \<Rightarrow> phi_node \<Rightarrow> func \<Rightarrow> func" where
  "ReplaceFirst b p f = f\<lparr>blocks := map (\<lambda>B. if lab B = b then B\<lparr>phis := p # phis B, body := tl (body B)\<rparr> else B) (blocks f)\<rparr>"

definition block_of :: "func \<Rightarrow> nat \<Rightarrow> block option" where
  "block_of f b = find (\<lambda>B. lab B = b) (blocks f)"

text \<open>The first select of a block, with its position.\<close>

fun find_select :: "nat \<Rightarrow> instr list \<Rightarrow> (nat \<times> nat \<times> val \<times> val \<times> val) option" where
  "find_select i [] = None"
| "find_select i (Select d c t e # is) = Some (i, d, c, t, e)"
| "find_select i (Op d k args # is) = find_select (Suc i) is"

text \<open>The loop over one block, which goes on with the rest of the block after each replacement; the argument
  \<open>split b i\<close> is \<open>splitBasicBlock\<close> before instruction \<open>i\<close> of block \<open>b\<close>.\<close>

partial_function (option) clean_block :: "(nat \<Rightarrow> nat \<Rightarrow> func \<Rightarrow> nat \<times> func) \<Rightarrow> nat \<Rightarrow> func \<Rightarrow> bool \<Rightarrow> (func \<times> bool) option" where
  "clean_block split b f modified = (case block_of f b of
      None \<Rightarrow> Some (f, modified)
    | Some B \<Rightarrow> (case find_select 0 (body B) of
        None \<Rightarrow> Some (f, modified)
      | Some (i, d, condition, trueV, falseV) \<Rightarrow>
          (case split b i f of (fallback, f1) \<Rightarrow>
            (case GenIf d trueV falseV b fallback condition f1 of (phi, f2) \<Rightarrow>
              clean_block split fallback (ReplaceFirst fallback phi f2) True))))"

text \<open>The loop over the blocks reaches those that it adds.\<close>

partial_function (option) clean_blocks :: "(nat \<Rightarrow> nat \<Rightarrow> func \<Rightarrow> nat \<times> func) \<Rightarrow> nat \<Rightarrow> func \<Rightarrow> bool \<Rightarrow> (func \<times> bool) option" where
  "clean_blocks split i f modified =
     (if i < length (blocks f) then
        (case clean_block split (lab (blocks f ! i)) f modified of
          None \<Rightarrow> None
        | Some (f1, m1) \<Rightarrow> clean_blocks split (Suc i) f1 m1)
      else Some (f, modified))"

definition runOnFunction :: "(nat \<Rightarrow> nat \<Rightarrow> func \<Rightarrow> nat \<times> func) \<Rightarrow> func \<Rightarrow> (func \<times> bool) option" where
  "runOnFunction split f = clean_blocks split 0 f False"

section \<open>Well-formed functions\<close>

text \<open>LLVM's rules for the control flow: different blocks, branches to blocks of the function, and phi nodes with
  exactly the predecessors of their block.\<close>

fun targets :: "ending \<Rightarrow> nat set" where
  "targets (Br l) = {l}"
| "targets (CondBr c l1 l2) = {l1, l2}"
| "targets (Switch v l cs) = insert l (snd ` set cs)"
| "targets (Ret v) = {}"
| "targets Unreachable = {}"

definition labels :: "block list \<Rightarrow> nat set" where "labels Bs = lab ` set Bs"

definition preds :: "block list \<Rightarrow> nat \<Rightarrow> nat set" where
  "preds Bs b = {lab C | C. C \<in> set Bs \<and> b \<in> targets (terminator C)}"

definition wf_func :: "func \<Rightarrow> bool" where
  "wf_func f \<longleftrightarrow> distinct (map lab (blocks f)) \<and> (\<forall>l\<in>labels (blocks f). l < next_block f) \<and>
     (\<forall>B\<in>set (blocks f). targets (terminator B) \<subseteq> labels (blocks f)) \<and>
     (\<forall>B\<in>set (blocks f). \<forall>p\<in>set (phis B). fst ` set (p_in p) = preds (blocks f) (lab B))"

fun is_select :: "instr \<Rightarrow> bool" where
  "is_select (Select d c t e) = True"
| "is_select (Op d k args) = False"

definition has_select :: "block \<Rightarrow> bool" where "has_select B \<longleftrightarrow> list_ex is_select (body B)"

fun defined_by :: "instr \<Rightarrow> nat" where
  "defined_by (Select d c t e) = d"
| "defined_by (Op d k args) = d"

definition definitions :: "func \<Rightarrow> nat list" where
  "definitions f = concat (map (\<lambda>B. map p_dest (phis B) @ map defined_by (body B)) (blocks f))"

text \<open>The documented effect of \<open>splitBasicBlock\<close>: the instructions from the given one on move with the terminator to
  a new block behind the old one, the old one ends in a branch to it, and the phi nodes of the successors name
  the new block.\<close>

definition rename_phis :: "nat \<Rightarrow> nat \<Rightarrow> block \<Rightarrow> block" where
  "rename_phis b l B = B\<lparr>phis := map (\<lambda>p. p\<lparr>p_in := map (\<lambda>(x, v). (if x = b then l else x, v)) (p_in p)\<rparr>) (phis B)\<rparr>"

definition rename_in :: "nat set \<Rightarrow> nat \<Rightarrow> nat \<Rightarrow> block \<Rightarrow> block" where
  "rename_in succs b l B = (if lab B \<in> succs then rename_phis b l B else B)"

definition split_law :: "(nat \<Rightarrow> nat \<Rightarrow> func \<Rightarrow> nat \<times> func) \<Rightarrow> bool" where
  "split_law split \<longleftrightarrow> (\<forall>f xs B ys i. wf_func f \<and> blocks f = xs @ B # ys \<and> i < length (body B) \<longrightarrow>
     split (lab B) i f = (next_block f, f\<lparr>next_block := Suc (next_block f),
       blocks := (let r = rename_in (targets (terminator B)) (lab B) (next_block f) in
         map r xs @ [(r B)\<lparr>body := take i (body B), terminator := Br (next_block f)\<rparr>,
           \<lparr>lab = next_block f, phis = [], body = drop i (body B), terminator = terminator B\<rparr>] @ map r ys)\<rparr>))"

section \<open>Execution\<close>

text \<open>A state is the block that control comes from, the current block, the registers and the rest of the world.
  \<open>sem\<close> gives the meaning of the other instructions, which may trap; phi nodes read their values at the same
  time.\<close>

datatype 'w outcome = Returned "nat option" 'w | Stuck

type_synonym 'w semantics = "nat \<Rightarrow> nat list \<Rightarrow> 'w \<Rightarrow> (nat \<times> 'w) option"
type_synonym 'w position = "nat option \<times> nat \<times> (nat \<Rightarrow> nat) \<times> 'w"

fun val_of :: "(nat \<Rightarrow> nat) \<Rightarrow> val \<Rightarrow> nat" where
  "val_of env (Reg r) = env r"
| "val_of env (Imm n) = n"

definition incoming :: "nat option \<Rightarrow> phi_node \<Rightarrow> val option" where
  "incoming prev p = (case prev of None \<Rightarrow> None | Some b \<Rightarrow> map_of (p_in p) b)"

definition exec_phis :: "nat option \<Rightarrow> phi_node list \<Rightarrow> (nat \<Rightarrow> nat) \<Rightarrow> (nat \<Rightarrow> nat) option" where
  "exec_phis prev ps env =
     (if \<forall>p\<in>set ps. incoming prev p \<noteq> None
      then Some (fold (\<lambda>p e. e(p_dest p := val_of env (the (incoming prev p)))) ps env) else None)"

fun exec_body :: "'w semantics \<Rightarrow> instr list \<Rightarrow> (nat \<Rightarrow> nat) \<Rightarrow> 'w \<Rightarrow> ((nat \<Rightarrow> nat) \<times> 'w) option" where
  "exec_body sem [] env w = Some (env, w)"
| "exec_body sem (Select d c t e # is) env w =
     exec_body sem is (env(d := (if val_of env c \<noteq> 0 then val_of env t else val_of env e))) w"
| "exec_body sem (Op d k args # is) env w = (case sem k (map (val_of env) args) w of
     None \<Rightarrow> None | Some (v, w') \<Rightarrow> exec_body sem is (env(d := v)) w')"

fun leave :: "ending \<Rightarrow> nat \<Rightarrow> (nat \<Rightarrow> nat) \<Rightarrow> 'w \<Rightarrow> 'w outcome + 'w position" where
  "leave (Br l) b env w = Inr (Some b, l, env, w)"
| "leave (CondBr c l1 l2) b env w = Inr (Some b, if val_of env c \<noteq> 0 then l1 else l2, env, w)"
| "leave (Switch v l cs) b env w =
     Inr (Some b, case map_of cs (val_of env v) of None \<Rightarrow> l | Some l' \<Rightarrow> l', env, w)"
| "leave (Ret v) b env w = Inl (Returned (map_option (val_of env) v) w)"
| "leave Unreachable b env w = Inl Stuck"

definition step_block :: "'w semantics \<Rightarrow> nat option \<Rightarrow> block \<Rightarrow> (nat \<Rightarrow> nat) \<Rightarrow> 'w \<Rightarrow> 'w outcome + 'w position" where
  "step_block sem prev B env w = (case exec_phis prev (phis B) env of
      None \<Rightarrow> Inl Stuck
    | Some env1 \<Rightarrow> (case exec_body sem (body B) env1 w of
        None \<Rightarrow> Inl Stuck
      | Some (env2, w2) \<Rightarrow> leave (terminator B) (lab B) env2 w2))"

fun block_step :: "'w semantics \<Rightarrow> func \<Rightarrow> 'w position \<Rightarrow> 'w outcome + 'w position" where
  "block_step sem f (prev, b, env, w) = (case block_of f b of
      None \<Rightarrow> Inl Stuck | Some B \<Rightarrow> step_block sem prev B env w)"

fun run :: "nat \<Rightarrow> 'w semantics \<Rightarrow> func \<Rightarrow> 'w position \<Rightarrow> 'w outcome option" where
  "run 0 sem f s = None"
| "run (Suc n) sem f s = (case block_step sem f s of Inl r \<Rightarrow> Some r | Inr t \<Rightarrow> run n sem f t)"

text \<open>A call of a function starts in its first block.\<close>

definition call_func :: "nat \<Rightarrow> 'w semantics \<Rightarrow> func \<Rightarrow> (nat \<Rightarrow> nat) \<Rightarrow> 'w \<Rightarrow> 'w outcome option" where
  "call_func n sem f env w = run n sem f (None, lab (hd (blocks f)), env, w)"

section \<open>One replacement\<close>

definition replaced :: "func \<Rightarrow> block list \<Rightarrow> block \<Rightarrow> block list \<Rightarrow> nat \<times> nat \<times> val \<times> val \<times> val \<Rightarrow> func" where
  "replaced f xs B ys sel = (case sel of (i, d, c, t, e) \<Rightarrow>
     let n = next_block f; r = rename_in (targets (terminator B)) (lab B) n in
     f\<lparr>next_block := n + 3, blocks := map r xs @ [(r B)\<lparr>body := take i (body B), terminator := CondBr c (n + 1) (n + 2)\<rparr>,
       \<lparr>lab = n, phis = [\<lparr>p_dest = d, p_in = [(n + 1, t), (n + 2, e)]\<rparr>], body = drop (Suc i) (body B), terminator = terminator B\<rparr>] @
       map r ys @ [\<lparr>lab = n + 1, phis = [], body = [], terminator = Br n\<rparr>, \<lparr>lab = n + 2, phis = [], body = [], terminator = Br n\<rparr>]\<rparr>)"

lemma find_select_spec:
  "find_select k is = Some (i, d, c, t, e) \<Longrightarrow> k \<le> i \<and> i - k < length is \<and> is ! (i - k) = Select d c t e \<and>
    (\<forall>j<i - k. \<not> is_select (is ! j))"
proof (induction k "is" rule: find_select.induct)
  case (3 k dd kk args "is")
  then have ih: "Suc k \<le> i" "i - Suc k < length is" "is ! (i - Suc k) = Select d c t e" "\<forall>j<i - Suc k. \<not> is_select (is ! j)" by simp_all
  then have "i - k = Suc (i - Suc k)" by simp
  then show ?case using ih by (auto simp: less_Suc_eq_0_disj)
qed auto

lemma find_select_None: "find_select k is = None \<longleftrightarrow> \<not> list_ex is_select is"
  by (induction k "is" rule: find_select.induct) auto

lemma rename_in_simps [simp]:
  "lab (rename_in S b l B) = lab B" "body (rename_in S b l B) = body B" "terminator (rename_in S b l B) = terminator B"
  by (simp_all add: rename_in_def rename_phis_def)

lemma block_of_member: "distinct (map lab (blocks f)) \<Longrightarrow> B \<in> set (blocks f) \<Longrightarrow> block_of f (lab B) = Some B"
proof -
  have "find (\<lambda>C. lab C = lab B) Bs = Some B" if "distinct (map lab Bs)" "B \<in> set Bs" for Bs
    using that by (induction Bs) force+
  then show "distinct (map lab (blocks f)) \<Longrightarrow> B \<in> set (blocks f) \<Longrightarrow> ?thesis" by (simp add: block_of_def)
qed

lemma labels_less: "wf_func f \<Longrightarrow> B \<in> set (blocks f) \<Longrightarrow> lab B < next_block f"
  by (auto simp: wf_func_def labels_def)

lemma map_other: "\<forall>B\<in>set Bs. lab B \<noteq> b \<Longrightarrow> map (\<lambda>B. if lab B = b then g B else B) Bs = Bs"
  by (induction Bs) auto

text \<open>The calls of LLVM that replace one select amount to \<open>replaced\<close>.\<close>

lemma one_replacement:
  assumes law: "split_law split" and wf: "wf_func f" and bs: "blocks f = xs @ B # ys"
    and sel: "find_select 0 (body B) = Some (i, d, c, t, e)"
  shows "(case split (lab B) i f of (l, f1) \<Rightarrow> case GenIf d t e (lab B) l c f1 of (phi, f2) \<Rightarrow> (l, ReplaceFirst l phi f2)) =
    (next_block f, replaced f xs B ys (i, d, c, t, e))"
proof -
  let ?n = "next_block f" and ?r = "rename_in (targets (terminator B)) (lab B) (next_block f)"
  have i: "i < length (body B)" "body B ! i = Select d c t e" using find_select_spec [OF sel] by auto
  have spl: "split (lab B) i f = (?n, f\<lparr>next_block := Suc ?n, blocks := map ?r xs @ [(?r B)\<lparr>body := take i (body B), terminator := Br ?n\<rparr>,
      \<lparr>lab = ?n, phis = [], body = drop i (body B), terminator = terminator B\<rparr>] @ map ?r ys\<rparr>)"
    using law wf bs i(1) unfolding split_law_def Let_def by blast
  have lt: "lab B < ?n" "\<forall>C\<in>set xs. lab C < ?n" "\<forall>C\<in>set ys. lab C < ?n" using labels_less [OF wf] bs by auto
  have ne: "\<forall>C\<in>set xs. lab C \<noteq> lab B" "\<forall>C\<in>set ys. lab C \<noteq> lab B" using wf bs by (auto simp: wf_func_def image_iff)
  have hd: "tl (drop i (body B)) = drop (Suc i) (body B)" by (simp add: drop_Suc tl_drop)
  have m: "map (\<lambda>C. if lab C = lab B then g C else C) (map ?r zs) = map ?r zs"
    "map (\<lambda>C. if lab C = ?n then g C else C) (map ?r zs) = map ?r zs" if "zs = xs \<or> zs = ys" for g zs
    using that lt ne by (auto simp: map_other)
  show ?thesis
    using lt by (simp add: spl GenIf_def create_block_def set_ending_def ReplaceFirst_def replaced_def Let_def hd m del: map_map)
qed

text \<open>The blocks of the result, and their control flow.\<close>

definition is_site :: "func \<Rightarrow> block list \<Rightarrow> block \<Rightarrow> block list \<Rightarrow> nat \<times> nat \<times> val \<times> val \<times> val \<Rightarrow> bool" where
  "is_site f xs B ys sel \<longleftrightarrow> wf_func f \<and> blocks f = xs @ B # ys \<and> find_select 0 (body B) = Some sel"

lemma replaced_blocks:
  assumes "is_site f xs B ys (i, d, c, t, e)"
  shows "set (blocks (replaced f xs B ys (i, d, c, t, e))) =
    rename_in (targets (terminator B)) (lab B) (next_block f) ` (set (blocks f) - {B}) \<union>
    {(rename_in (targets (terminator B)) (lab B) (next_block f) B)\<lparr>body := take i (body B), terminator := CondBr c (next_block f + 1) (next_block f + 2)\<rparr>,
     \<lparr>lab = next_block f, phis = [\<lparr>p_dest = d, p_in = [(next_block f + 1, t), (next_block f + 2, e)]\<rparr>], body = drop (Suc i) (body B), terminator = terminator B\<rparr>,
     \<lparr>lab = next_block f + 1, phis = [], body = [], terminator = Br (next_block f)\<rparr>, \<lparr>lab = next_block f + 2, phis = [], body = [], terminator = Br (next_block f)\<rparr>}"
proof -
  have "B \<notin> set xs" "B \<notin> set ys" using assms by (auto simp: is_site_def wf_func_def)
  then have "set (blocks f) - {B} = set xs \<union> set ys" using assms by (auto simp: is_site_def)
  then show ?thesis by (auto simp: replaced_def Let_def)
qed

lemma replaced_labels:
  assumes "is_site f xs B ys (i, d, c, t, e)"
  shows "map lab (blocks (replaced f xs B ys (i, d, c, t, e))) =
      map lab xs @ [lab B, next_block f] @ map lab ys @ [next_block f + 1, next_block f + 2]"
    "labels (blocks (replaced f xs B ys (i, d, c, t, e))) = labels (blocks f) \<union> {next_block f, next_block f + 1, next_block f + 2}"
proof -
  show l: "map lab (blocks (replaced f xs B ys (i, d, c, t, e))) =
      map lab xs @ [lab B, next_block f] @ map lab ys @ [next_block f + 1, next_block f + 2]"
    by (simp add: replaced_def Let_def)
  have ls: "labels Bs = set (map lab Bs)" for Bs by (simp add: labels_def)
  show "labels (blocks (replaced f xs B ys (i, d, c, t, e))) = labels (blocks f) \<union> {next_block f, next_block f + 1, next_block f + 2}"
    unfolding ls l using assms by (auto simp: is_site_def)
qed

text \<open>The predecessors: a successor of the old block has the new one in its place.\<close>

definition moved :: "nat \<Rightarrow> nat \<Rightarrow> nat \<Rightarrow> nat" where
  "moved b n x = (if x = b then n else x)"

lemma site_facts:
  assumes "is_site f xs B ys sel"
  shows "B \<in> set (blocks f)" "lab B < next_block f" "distinct (map lab (blocks f))"
    "C \<in> set (blocks f) \<Longrightarrow> lab C < next_block f" "C \<in> set (blocks f) \<Longrightarrow> targets (terminator C) \<subseteq> labels (blocks f)"
    "C \<in> set (blocks f) \<Longrightarrow> p \<in> set (phis C) \<Longrightarrow> fst ` set (p_in p) = preds (blocks f) (lab C)"
    "x \<in> labels (blocks f) \<Longrightarrow> x < next_block f"
    "C \<in> set (blocks f) \<Longrightarrow> lab C = lab B \<longleftrightarrow> C = B"
proof -
  have wf: "wf_func f" and B: "B \<in> set (blocks f)" using assms by (auto simp: is_site_def)
  show "B \<in> set (blocks f)" "lab B < next_block f" "distinct (map lab (blocks f))" using wf B by (auto simp: wf_func_def labels_def)
  show "C \<in> set (blocks f) \<Longrightarrow> lab C < next_block f" "C \<in> set (blocks f) \<Longrightarrow> targets (terminator C) \<subseteq> labels (blocks f)"
    "C \<in> set (blocks f) \<Longrightarrow> p \<in> set (phis C) \<Longrightarrow> fst ` set (p_in p) = preds (blocks f) (lab C)"
    "x \<in> labels (blocks f) \<Longrightarrow> x < next_block f"
    using wf by (auto simp: wf_func_def labels_def)
  show "C \<in> set (blocks f) \<Longrightarrow> lab C = lab B \<longleftrightarrow> C = B" using wf B by (auto simp: wf_func_def distinct_map inj_on_def)
qed

lemma in_preds: "y \<in> preds Bs b \<longleftrightarrow> (\<exists>C\<in>set Bs. lab C = y \<and> b \<in> targets (terminator C))"
  by (auto simp: preds_def)

lemma replaced_preds:
  assumes site: "is_site f xs B ys (i, d, c, t, e)" and x: "x < next_block f"
  shows "preds (blocks (replaced f xs B ys (i, d, c, t, e))) x = (if x \<in> targets (terminator B)
    then moved (lab B) (next_block f) ` preds (blocks f) x else preds (blocks f) x)"
proof -
  note sf = site_facts [OF site]
  let ?P = "{y. \<exists>C\<in>set (blocks f) - {B}. lab C = y \<and> x \<in> targets (terminator C)}"
  have "preds (blocks (replaced f xs B ys (i, d, c, t, e))) x = ?P \<union> {y. x \<in> targets (terminator B) \<and> y = next_block f}"
    unfolding set_eq_iff in_preds replaced_blocks [OF site] bex_Un bex_simps using x by simp blast
  moreover have "moved (lab B) (next_block f) ` ?P = ?P"
    using sf(8) by (force simp: moved_def image_iff)
  moreover have "preds (blocks f) x = ?P \<union> {y. x \<in> targets (terminator B) \<and> y = lab B}"
    unfolding set_eq_iff in_preds using sf(1) by auto
  ultimately show ?thesis by (auto simp: image_Un moved_def)
qed

lemma renamed_phis:
  "p \<in> set (phis (rename_in S b n C)) \<Longrightarrow> \<exists>q\<in>set (phis C). fst ` set (p_in p) = (if lab C \<in> S then moved b n ` fst ` set (p_in q) else fst ` set (p_in q))"
proof -
  have "fst ` (\<lambda>(x, v). (if x = b then n else x, v)) ` A = moved b n ` fst ` A" for A :: "(nat \<times> val) set"
    by (force simp: moved_def image_image case_prod_beta)
  then have r: "fst ` set (map (\<lambda>(x, v). (if x = b then n else x, v)) ins) = moved b n ` fst ` set ins" for ins :: "(nat \<times> val) list"
    by simp
  assume p: "p \<in> set (phis (rename_in S b n C))"
  show ?thesis
  proof (cases "lab C \<in> S")
    case True
    with p obtain q where "q \<in> set (phis C)" "p_in p = map (\<lambda>(x, v). (if x = b then n else x, v)) (p_in q)"
      by (auto simp: rename_in_def rename_phis_def)
    then show ?thesis using True by (intro bexI [of _ q]) (simp_all only: if_True r)
  qed (use p in \<open>auto simp: rename_in_def\<close>)
qed

lemma renamed_phis_preds:
  assumes site: "is_site f xs B ys (i, d, c, t, e)" and C: "C \<in> set (blocks f)"
    and p: "p \<in> set (phis (rename_in (targets (terminator B)) (lab B) (next_block f) C))"
  shows "fst ` set (p_in p) = preds (blocks (replaced f xs B ys (i, d, c, t, e))) (lab C)"
proof -
  note sf = site_facts [OF site]
  obtain q where q: "q \<in> set (phis C)" "fst ` set (p_in p) =
      (if lab C \<in> targets (terminator B) then moved (lab B) (next_block f) ` fst ` set (p_in q) else fst ` set (p_in q))"
    using renamed_phis [OF p] by blast
  show ?thesis using q(2) sf(6) [OF C q(1)] replaced_preds [OF site sf(4) [OF C]] by simp
qed

lemma replaced_preds_new:
  assumes site: "is_site f xs B ys (i, d, c, t, e)"
  shows "preds (blocks (replaced f xs B ys (i, d, c, t, e))) (next_block f) = {next_block f + 1, next_block f + 2}"
proof -
  have "next_block f \<notin> targets (terminator C)" if "C \<in> set (blocks f)" for C
    using site_facts(5,7) [OF site] that by blast
  then have "\<forall>C\<in>set (blocks f). next_block f \<notin> targets (terminator C)" by blast
  then show ?thesis unfolding set_eq_iff in_preds replaced_blocks [OF site] bex_Un bex_simps using site_facts(1) [OF site] by auto
qed

lemma replaced_wf:
  assumes site: "is_site f xs B ys (i, d, c, t, e)"
  shows "wf_func (replaced f xs B ys (i, d, c, t, e))"
proof -
  let ?f = "replaced f xs B ys (i, d, c, t, e)" and ?n = "next_block f"
  note sf = site_facts [OF site]
  have "distinct (map lab xs @ lab B # map lab ys)" using sf(3) site by (simp add: is_site_def)
  moreover have "x < ?n" if "x \<in> set (map lab xs) \<union> set (map lab ys)" for x using that sf(4) site by (auto simp: is_site_def)
  then have "x \<notin> set (map lab xs) \<union> set (map lab ys)" if "?n \<le> x" for x using that by (meson leD)
  ultimately have "distinct (map lab (blocks ?f))" unfolding replaced_labels(1) [OF site] using sf(2) by (simp del: set_map)
  moreover have "\<forall>l\<in>labels (blocks ?f). l < next_block ?f"
    unfolding replaced_labels(2) [OF site] using sf(7) by (auto simp: replaced_def Let_def less_SucI intro: less_trans)
  moreover have "\<forall>C\<in>set (blocks ?f). targets (terminator C) \<subseteq> labels (blocks ?f)"
    unfolding replaced_blocks [OF site] replaced_labels(2) [OF site] using sf(1,5) by auto
  moreover have "fst ` set (p_in p) = preds (blocks ?f) (lab C)" if C: "C \<in> set (blocks ?f)" and p: "p \<in> set (phis C)" for C p
  proof -
    from C [unfolded replaced_blocks [OF site]] consider
        D where "D \<in> set (blocks f)" "lab C = lab D" "phis C = phis (rename_in (targets (terminator B)) (lab B) ?n D)"
      | "phis C = []" | "phis C = [\<lparr>p_dest = d, p_in = [(?n + 1, t), (?n + 2, e)]\<rparr>]" "lab C = ?n"
      using sf(1) by force
    then show ?thesis
    proof cases
      case 1
      then show ?thesis using renamed_phis_preds [OF site 1(1)] p by simp
    next
      case 3
      then show ?thesis using p replaced_preds_new [OF site] by auto
    qed (use p in simp)
  qed
  ultimately show ?thesis unfolding wf_func_def by blast
qed

lemma definitions_rename: "map p_dest (phis (rename_in S b n C)) = map p_dest (phis C)"
  by (simp add: rename_in_def rename_phis_def)

text \<open>Registers keep their definitions, and there is one select less.\<close>

definition selects :: "block list \<Rightarrow> nat" where
  "selects Bs = sum_list (map (\<lambda>B. length (filter is_select (body B))) Bs)"

lemma body_parts:
  assumes "find_select 0 is = Some (i, d, c, t, e)"
  shows "is = take i is @ Select d c t e # drop (Suc i) is" "\<not> list_ex is_select (take i is)"
proof -
  have sp: "i < length is" "is ! i = Select d c t e" "\<forall>j<i. \<not> is_select (is ! j)" using find_select_spec [OF assms] by auto
  show "is = take i is @ Select d c t e # drop (Suc i) is" using id_take_nth_drop [OF sp(1)] sp(2) by simp
  show "\<not> list_ex is_select (take i is)" using sp by (auto simp: list_ex_length)
qed

lemma replaced_definitions:
  assumes site: "is_site f xs B ys (i, d, c, t, e)"
  shows "definitions (replaced f xs B ys (i, d, c, t, e)) = definitions f"
proof -
  have "map defined_by (body B) = map defined_by (take i (body B)) @ d # map defined_by (drop (Suc i) (body B))"
  proof -
    have "find_select 0 (body B) = Some (i, d, c, t, e)" using site by (simp add: is_site_def)
    from arg_cong [OF body_parts(1) [OF this], of "map defined_by"] show ?thesis by simp
  qed
  then show ?thesis
    using site by (simp add: definitions_def replaced_def Let_def is_site_def definitions_rename comp_def)
qed

section \<open>One replacement keeps the results\<close>

text \<open>Where control came from the old block it now comes from the new one.\<close>

definition shift_prev :: "nat \<Rightarrow> nat \<Rightarrow> nat option \<Rightarrow> nat option" where
  "shift_prev b n prev = map_option (moved b n) prev"

definition shift :: "nat \<Rightarrow> nat \<Rightarrow> 'w position \<Rightarrow> 'w position" where
  "shift b n s = (case s of (prev, rest) \<Rightarrow> (shift_prev b n prev, rest))"

definition inside :: "func \<Rightarrow> 'w position \<Rightarrow> bool" where
  "inside f s \<longleftrightarrow> (case s of (prev, b, env, w) \<Rightarrow> b \<in> labels (blocks f) \<and> (\<forall>x. prev = Some x \<longrightarrow> x < next_block f))"

lemma map_of_moved:
  "n \<notin> fst ` set ins \<Longrightarrow> x \<noteq> n \<Longrightarrow> map_of (map (\<lambda>(x, v). (if x = b then n else x, v)) ins) (moved b n x) = map_of ins x"
  by (induction ins) (auto simp: moved_def split: if_splits)

lemma incoming_moved:
  assumes site: "is_site f xs B ys sel" and C: "C \<in> set (blocks f)" and p: "p \<in> set (phis C)" and prev: "\<forall>x. prev = Some x \<longrightarrow> x < next_block f"
  shows "incoming (shift_prev (lab B) (next_block f) prev)
      (if lab C \<in> targets (terminator B) then p\<lparr>p_in := map (\<lambda>(x, v). (if x = lab B then next_block f else x, v)) (p_in p)\<rparr> else p) =
    incoming prev p"
proof -
  note sf = site_facts [OF site]
  have n: "next_block f \<notin> fst ` set (p_in p)" using sf(6) [OF C p] sf(4) by (metis in_preds less_irrefl)
  show ?thesis
  proof (cases "lab C \<in> targets (terminator B)")
    case True
    then show ?thesis using prev n by (cases prev) (auto simp: incoming_def shift_prev_def map_of_moved)
  next
    case False
    then have "lab B \<notin> fst ` set (p_in p)" using sf(6) [OF C p] sf(8) by (auto simp: in_preds)
    then have "map_of (p_in p) (moved (lab B) (next_block f) x) = map_of (p_in p) x" for x
      using n by (auto simp: moved_def map_of_eq_None_iff [THEN iffD2])
    then show ?thesis using False by (cases prev) (auto simp: incoming_def shift_prev_def)
  qed
qed

lemma fold_phis_map:
  "\<forall>p\<in>set ps. p_dest (g p) = p_dest p \<and> v (g p) = u p \<Longrightarrow>
   fold (\<lambda>p e. e(p_dest p := v p)) (map g ps) e0 = fold (\<lambda>p e. e(p_dest p := u p)) ps e0"
  by (induction ps arbitrary: e0) auto

lemma exec_phis_moved:
  assumes "is_site f xs B ys sel" "C \<in> set (blocks f)" "\<forall>x. prev = Some x \<longrightarrow> x < next_block f"
  shows "exec_phis (shift_prev (lab B) (next_block f) prev) (phis (rename_in (targets (terminator B)) (lab B) (next_block f) C)) env =
    exec_phis prev (phis C) env"
proof -
  let ?g = "\<lambda>p. if lab C \<in> targets (terminator B) then p\<lparr>p_in := map (\<lambda>(x, v). (if x = lab B then next_block f else x, v)) (p_in p)\<rparr> else p"
  have ph: "phis (rename_in (targets (terminator B)) (lab B) (next_block f) C) = map ?g (phis C)"
    by (simp add: rename_in_def rename_phis_def)
  have inc: "\<forall>p\<in>set (phis C). incoming (shift_prev (lab B) (next_block f) prev) (?g p) = incoming prev p"
    using incoming_moved [OF assms(1,2) _ assms(3)] by blast
  then have "fold (\<lambda>p e. e(p_dest p := val_of env (the (incoming (shift_prev (lab B) (next_block f) prev) p)))) (map ?g (phis C)) env =
      fold (\<lambda>p e. e(p_dest p := val_of env (the (incoming prev p)))) (phis C) env"
    by (intro fold_phis_map) auto
  then show ?thesis unfolding exec_phis_def ph using inc by auto
qed

lemma leave_moved:
  "C \<in> set (blocks f) \<Longrightarrow> is_site f xs B ys sel \<Longrightarrow> lab C \<noteq> lab B \<Longrightarrow> map_sum id (shift (lab B) (next_block f)) (leave t (lab C) env w) = leave t (lab C) env w"
  by (cases t) (auto simp: shift_def shift_prev_def moved_def)

lemma leave_new: "map_sum id (shift b n) (leave t b env w) = leave t n env w"
  by (cases t) (auto simp: shift_def shift_prev_def moved_def)

lemma leave_target: "leave t b env w = Inr (p, l, env', w') \<Longrightarrow> p = Some b \<and> l \<in> targets t"
  by (cases t) (auto split: option.splits dest!: map_of_SomeD intro: rev_image_eqI)

lemma inside_step:
  assumes "wf_func f" "inside f s" "block_step sem f s = Inr t"
  shows "inside f t"
proof -
  obtain prev b env w where s: "s = (prev, b, env, w)" by (cases s)
  obtain B where B: "block_of f b = Some B" "step_block sem prev B env w = Inr t" using assms(3) by (auto simp: s split: option.splits)
  obtain p l env' w' where t: "t = (p, l, env', w')" by (cases t)
  have "p = Some (lab B) \<and> l \<in> targets (terminator B)"
    using B(2) by (auto simp: step_block_def t split: option.splits dest!: leave_target)
  moreover have "B \<in> set (blocks f)" using B(1) by (auto simp: block_of_def find_Some_iff)
  ultimately show ?thesis using assms(1) by (auto simp: inside_def t wf_func_def labels_def)
qed

lemma exec_body_append:
  "exec_body sem (is @ js) env w = (case exec_body sem is env w of None \<Rightarrow> None | Some (env', w') \<Rightarrow> exec_body sem js env' w')"
proof (induction sem "is" env w rule: exec_body.induct)
  case (2 sem d c t e "is" env w)
  then show ?case by (simp only: append_Cons exec_body.simps)
next
  case (3 sem d k args "is" env w)
  show ?case
  proof (cases "sem k (map (val_of env) args) w")
    case (Some r)
    then obtain v w' where "sem k (map (val_of env) args) w = Some (v, w')" by (cases r) auto
    then show ?thesis using "3.IH" [of "(v, w')" v w'] by (simp del: fun_upd_apply)
  qed simp
qed simp

text \<open>The same number of steps for a step in another block, and two more for the old block.\<close>

lemma replaced_member:
  assumes "is_site f xs B ys (i, d, c, t, e)" "C \<in> set (blocks f)" "C \<noteq> B"
  shows "block_of (replaced f xs B ys (i, d, c, t, e)) (lab C) = Some (rename_in (targets (terminator B)) (lab B) (next_block f) C)"
proof -
  let ?C = "rename_in (targets (terminator B)) (lab B) (next_block f) C"
  have "?C \<in> set (blocks (replaced f xs B ys (i, d, c, t, e)))" unfolding replaced_blocks [OF assms(1)] using assms(2,3) by blast
  from block_of_member [OF _ this] replaced_wf [OF assms(1)] show ?thesis by (simp add: wf_func_def)
qed

lemma replaced_member_new:
  assumes "is_site f xs B ys (i, d, c, t, e)"
  shows "block_of (replaced f xs B ys (i, d, c, t, e)) (lab B) = Some ((rename_in (targets (terminator B)) (lab B) (next_block f) B)
      \<lparr>body := take i (body B), terminator := CondBr c (next_block f + 1) (next_block f + 2)\<rparr>)"
    "block_of (replaced f xs B ys (i, d, c, t, e)) (next_block f) = Some \<lparr>lab = next_block f,
      phis = [\<lparr>p_dest = d, p_in = [(next_block f + 1, t), (next_block f + 2, e)]\<rparr>], body = drop (Suc i) (body B), terminator = terminator B\<rparr>"
    "j = 1 \<or> j = 2 \<Longrightarrow> block_of (replaced f xs B ys (i, d, c, t, e)) (next_block f + j) =
      Some \<lparr>lab = next_block f + j, phis = [], body = [], terminator = Br (next_block f)\<rparr>"
proof -
  have d: "distinct (map lab (blocks (replaced f xs B ys (i, d, c, t, e))))" using replaced_wf [OF assms(1)] by (simp add: wf_func_def)
  note m = block_of_member [OF d, unfolded replaced_blocks [OF assms]]
  show "block_of (replaced f xs B ys (i, d, c, t, e)) (lab B) = Some ((rename_in (targets (terminator B)) (lab B) (next_block f) B)
      \<lparr>body := take i (body B), terminator := CondBr c (next_block f + 1) (next_block f + 2)\<rparr>)"
    using m [of "(rename_in (targets (terminator B)) (lab B) (next_block f) B)
      \<lparr>body := take i (body B), terminator := CondBr c (next_block f + 1) (next_block f + 2)\<rparr>"] by simp
  show "block_of (replaced f xs B ys (i, d, c, t, e)) (next_block f) = Some \<lparr>lab = next_block f,
      phis = [\<lparr>p_dest = d, p_in = [(next_block f + 1, t), (next_block f + 2, e)]\<rparr>], body = drop (Suc i) (body B), terminator = terminator B\<rparr>"
    using m [of "\<lparr>lab = next_block f,
      phis = [\<lparr>p_dest = d, p_in = [(next_block f + 1, t), (next_block f + 2, e)]\<rparr>], body = drop (Suc i) (body B), terminator = terminator B\<rparr>"] by simp
  show "j = 1 \<or> j = 2 \<Longrightarrow> block_of (replaced f xs B ys (i, d, c, t, e)) (next_block f + j) =
      Some \<lparr>lab = next_block f + j, phis = [], body = [], terminator = Br (next_block f)\<rparr>"
    using m [of "\<lparr>lab = next_block f + j, phis = [], body = [], terminator = Br (next_block f)\<rparr>"] by auto
qed

lemma step_other:
  assumes site: "is_site f xs B ys (i, d, c, t, e)" and C: "C \<in> set (blocks f)" "C \<noteq> B" and prev: "\<forall>x. prev = Some x \<longrightarrow> x < next_block f"
  shows "block_step sem (replaced f xs B ys (i, d, c, t, e)) (shift (lab B) (next_block f) (prev, lab C, env, w)) =
    map_sum id (shift (lab B) (next_block f)) (block_step sem f (prev, lab C, env, w))"
proof -
  note sf = site_facts [OF site]
  have ne: "lab C \<noteq> lab B" using sf(8) [OF C(1)] C(2) by simp
  show ?thesis
    by (simp add: shift_def replaced_member [OF site C] block_of_member [OF sf(3) C(1)] step_block_def exec_phis_moved [OF site C(1) prev] 
      split: option.splits) (simp add: leave_moved [OF C(1) site ne])
qed

lemma run_Inr: "block_step sem f s = Inr t \<Longrightarrow> run (Suc n) sem f s = run n sem f t"
  by simp

lemma run_map:
  "block_step sem f s = map_sum id g x \<Longrightarrow> run (Suc n) sem f s = (case x of Inl r \<Rightarrow> Some r | Inr p \<Rightarrow> run n sem f (g p))"
  by (cases x) simp_all

lemma step_select:
  assumes site: "is_site f xs B ys (i, d, c, t, e)" and prev: "\<forall>x. prev = Some x \<longrightarrow> x < next_block f"
  shows "\<exists>j. 0 < j \<and> (\<forall>k. run (j + k) sem (replaced f xs B ys (i, d, c, t, e)) (shift (lab B) (next_block f) (prev, lab B, env, w)) =
    (case block_step sem f (prev, lab B, env, w) of Inl r \<Rightarrow> Some r | Inr p \<Rightarrow> run k sem (replaced f xs B ys (i, d, c, t, e)) (shift (lab B) (next_block f) p)))"
proof -
  note sf = site_facts [OF site]
  let ?b = "lab B" and ?n = "next_block f" and ?f = "replaced f xs B ys (i, d, c, t, e)"
  have parts: "body B = take i (body B) @ Select d c t e # drop (Suc i) (body B)" using body_parts(1) site by (simp add: is_site_def)
  note new = replaced_member_new [OF site]
  have ph: "exec_phis (shift_prev ?b ?n prev) (phis (rename_in (targets (terminator B)) ?b ?n B)) env = exec_phis prev (phis B) env"
    by (rule exec_phis_moved [OF site sf(1) prev])
  have old: "block_of f ?b = Some B" by (rule block_of_member [OF sf(3,1)])
  show ?thesis
  proof (cases "exec_phis prev (phis B) env")
    case None
    then show ?thesis by (intro exI [of _ 1]) (simp add: old step_block_def shift_def new(1) ph)
  next
    case env1: (Some env1)
    show ?thesis
    proof (cases "exec_body sem (take i (body B)) env1 w")
      case None
      then have "exec_body sem (body B) env1 w = None" by (subst parts) (simp add: exec_body_append)
      then show ?thesis using env1 None by (intro exI [of _ 1]) (simp add: old step_block_def shift_def new(1) ph)
    next
      case (Some r)
      then obtain env2 w2 where pre: "exec_body sem (take i (body B)) env1 w = Some (env2, w2)" by (cases r) auto
      let ?v = "if val_of env2 c \<noteq> 0 then val_of env2 t else val_of env2 e"
      have bdy: "exec_body sem (body B) env1 w = exec_body sem (drop (Suc i) (body B)) (env2(d := ?v)) w2"
        by (subst parts) (simp add: exec_body_append pre del: fun_upd_apply)
      let ?j = "if val_of env2 c \<noteq> 0 then 1 else 2 :: nat"
      have ph3: "exec_phis (Some (?n + ?j)) [\<lparr>p_dest = d, p_in = [(?n + 1, t), (?n + 2, e)]\<rparr>] env2 = Some (env2(d := ?v))"
        by (simp add: exec_phis_def incoming_def)
      have s1: "block_step sem ?f (shift ?b ?n (prev, ?b, env, w)) = Inr (Some ?b, ?n + ?j, env2, w2)"
        by (simp add: shift_def new(1) step_block_def ph env1 pre)
      have s2: "block_step sem ?f (Some ?b, ?n + ?j, env2, w2) = Inr (Some (?n + ?j), ?n, env2, w2)"
        using new(3) [of ?j] by (simp add: step_block_def exec_phis_def)
      have s3: "block_step sem ?f (Some (?n + ?j), ?n, env2, w2) = map_sum id (shift ?b ?n) (step_block sem prev B env w)"
      proof (cases "exec_body sem (drop (Suc i) (body B)) (env2(d := ?v)) w2")
        case None
        then show ?thesis unfolding block_step.simps new(2) step_block_def env1 by (simp only: option.case bdy block.simps ph3 map_sum.simps id_apply)
      next
        case (Some r)
        obtain env3 w3 where "r = (env3, w3)" by (cases r)
        with Some show ?thesis unfolding block_step.simps new(2) step_block_def env1
          by (simp only: option.case bdy block.simps ph3 prod.case leave_new)
      qed
      show ?thesis
      proof (intro exI [of _ 3] conjI allI)
        fix k
        have "run (3 + k) sem ?f (shift ?b ?n (prev, ?b, env, w)) = run (Suc k) sem ?f (Some (?n + ?j), ?n, env2, w2)"
          using run_Inr [OF s1] run_Inr [OF s2] by (simp only: numeral_3_eq_3 add_Suc add_0)
        also have "\<dots> = (case step_block sem prev B env w of Inl r \<Rightarrow> Some r | Inr p \<Rightarrow> run k sem ?f (shift ?b ?n p))"
          by (rule run_map [OF s3])
        finally show "run (3 + k) sem ?f (shift ?b ?n (prev, ?b, env, w)) =
            (case block_step sem f (prev, ?b, env, w) of Inl r \<Rightarrow> Some r | Inr p \<Rightarrow> run k sem ?f (shift ?b ?n p))"
          by (simp only: block_step.simps old option.case)
      qed simp
    qed
  qed
qed

lemma step_replaced:
  assumes site: "is_site f xs B ys (i, d, c, t, e)" and s: "inside f s"
  shows "\<exists>j. 0 < j \<and> (\<forall>k. run (j + k) sem (replaced f xs B ys (i, d, c, t, e)) (shift (lab B) (next_block f) s) =
    (case block_step sem f s of Inl r \<Rightarrow> Some r | Inr p \<Rightarrow> run k sem (replaced f xs B ys (i, d, c, t, e)) (shift (lab B) (next_block f) p)))"
proof -
  obtain prev b env w where s': "s = (prev, b, env, w)" by (cases s)
  have prev: "\<forall>x. prev = Some x \<longrightarrow> x < next_block f" and "b \<in> labels (blocks f)" using s by (auto simp: inside_def s')
  then obtain C where C: "C \<in> set (blocks f)" "b = lab C" by (auto simp: labels_def)
  show ?thesis
  proof (cases "C = B")
    case True
    then show ?thesis using step_select [OF site prev] by (simp add: s' C(2))
  next
    case False
    show ?thesis unfolding s' C(2) by (intro exI [of _ 1] conjI allI) (simp_all only: plus_1_eq_Suc run_map [OF step_other [OF site C(1) False prev]] zero_less_one)
  qed
qed

lemma run_mono: "run n sem f s = Some r \<Longrightarrow> run (k + n) sem f s = Some r"
proof (induction n arbitrary: s)
  case (Suc n)
  then show ?case by (cases "block_step sem f s") auto
qed simp

lemma run_det: "run n sem f s = Some r \<Longrightarrow> run m sem f s = Some r' \<Longrightarrow> r = r'"
  using run_mono [of n sem f s r m] run_mono [of m sem f s r' n] by (simp add: add.commute)

lemma run_replaced:
  assumes site: "is_site f xs B ys (i, d, c, t, e)" and s: "inside f s"
  shows "(\<exists>n. run n sem f s = Some r) \<longleftrightarrow> (\<exists>n. run n sem (replaced f xs B ys (i, d, c, t, e)) (shift (lab B) (next_block f) s) = Some r)"
proof
  let ?f = "replaced f xs B ys (i, d, c, t, e)" and ?sh = "shift (lab B) (next_block f)"
  have wf: "wf_func f" using site by (simp add: is_site_def)
  assume "\<exists>n. run n sem f s = Some r"
  then obtain n where "run n sem f s = Some r" by blast
  then show "\<exists>n. run n sem ?f (?sh s) = Some r" using s
  proof (induction n arbitrary: s)
    case (Suc n)
    obtain j where j: "\<forall>k. run (j + k) sem ?f (?sh s) = (case block_step sem f s of Inl r \<Rightarrow> Some r | Inr p \<Rightarrow> run k sem ?f (?sh p))"
      using step_replaced [OF site Suc.prems(2)] by blast
    show ?case
    proof (cases "block_step sem f s")
      case (Inl r')
      then show ?thesis using Suc.prems(1) j by (auto intro!: exI [of _ "j + 0"])
    next
      case (Inr p)
      then obtain m where "run m sem ?f (?sh p) = Some r" using Suc.IH [of p] Suc.prems inside_step [OF wf Suc.prems(2) Inr] by auto
      then show ?thesis using j Inr by (intro exI [of _ "j + m"]) simp
    qed
  qed simp
next
  let ?f = "replaced f xs B ys (i, d, c, t, e)" and ?sh = "shift (lab B) (next_block f)"
  have wf: "wf_func f" using site by (simp add: is_site_def)
  assume "\<exists>n. run n sem ?f (?sh s) = Some r"
  then obtain n where "run n sem ?f (?sh s) = Some r" by blast
  then show "\<exists>n. run n sem f s = Some r" using s
  proof (induction n arbitrary: s rule: less_induct)
    case (less n)
    obtain j where j: "0 < j" "\<And>k. run (j + k) sem ?f (?sh s) = (case block_step sem f s of Inl r \<Rightarrow> Some r | Inr p \<Rightarrow> run k sem ?f (?sh p))"
      using step_replaced [OF site less.prems(2)] by blast
    show ?case
    proof (cases "block_step sem f s")
      case (Inl r')
      then have "run (j + 0) sem ?f (?sh s) = Some r'" using j(2) [of 0] by simp
      then have "r' = r" using less.prems(1) run_det by blast
      then show ?thesis using Inl by (intro exI [of _ 1]) simp
    next
      case (Inr p)
      have "j \<le> n"
      proof (rule ccontr)
        assume "\<not> j \<le> n"
        then have "run (j + 0) sem ?f (?sh s) = Some r" using run_mono [OF less.prems(1), of "j - n"] by simp
        then show False using j(2) [of 0] Inr by simp
      qed
      then obtain k where k: "n = j + k" by (auto simp: le_iff_add)
      then have "run k sem ?f (?sh p) = Some r" using j(2) [of k] Inr less.prems(1) by simp
      then obtain m where "run m sem f p = Some r"
        using less.IH [of k p] k j(1) inside_step [OF wf less.prems(2) Inr] by auto
      then show ?thesis using Inr by (intro exI [of _ "Suc m"]) simp
    qed
  qed
qed

definition returns :: "'w semantics \<Rightarrow> func \<Rightarrow> (nat \<Rightarrow> nat) \<Rightarrow> 'w \<Rightarrow> 'w outcome \<Rightarrow> bool" where
  "returns sem f env w r \<longleftrightarrow> (\<exists>n. call_func n sem f env w = Some r)"

lemma replaced_returns:
  assumes site: "is_site f xs B ys (i, d, c, t, e)"
  shows "returns sem (replaced f xs B ys (i, d, c, t, e)) env w r \<longleftrightarrow> returns sem f env w r"
proof -
  have "lab (hd (blocks (replaced f xs B ys (i, d, c, t, e)))) = lab (hd (blocks f))"
    using site by (cases xs) (auto simp: is_site_def replaced_def Let_def)
  moreover have "inside f (None, lab (hd (blocks f)), env, w)"
    using site by (cases xs) (auto simp: inside_def is_site_def labels_def)
  ultimately show ?thesis
    using run_replaced [OF site, of "(None, lab (hd (blocks f)), env, w)" sem r]
    by (simp add: returns_def call_func_def shift_def shift_prev_def)
qed

section \<open>The loops\<close>

text \<open>What one or several replacements keep.\<close>

definition same_meaning :: "'w semantics \<Rightarrow> func \<Rightarrow> func \<Rightarrow> bool" where
  "same_meaning sem f f' \<longleftrightarrow> wf_func f' \<and> definitions f' = definitions f \<and> (\<forall>env w r. returns sem f' env w r \<longleftrightarrow> returns sem f env w r)"

lemma same_meaning_trans: "same_meaning sem f f1 \<Longrightarrow> same_meaning sem f1 f2 \<Longrightarrow> same_meaning sem f f2"
  by (simp add: same_meaning_def)

lemma same_meaning_refl: "wf_func f \<Longrightarrow> same_meaning sem f f"
  by (simp add: same_meaning_def)

lemma replaced_keeps: "is_site f xs B ys (i, d, c, t, e) \<Longrightarrow> same_meaning sem f (replaced f xs B ys (i, d, c, t, e))"
  by (simp add: same_meaning_def replaced_wf replaced_definitions replaced_returns)

lemma replaced_profile:
  "is_site f xs B ys (i, d, c, t, e) \<Longrightarrow> map has_select (blocks (replaced f xs B ys (i, d, c, t, e))) =
    map has_select xs @ [False, list_ex is_select (drop (Suc i) (body B))] @ map has_select ys @ [False, False]"
  using body_parts(2) by (auto simp: is_site_def replaced_def Let_def has_select_def)

lemma clean_block_spec:
  assumes law: "split_law split" and "wf_func f" "blocks f = xs @ B # ys"
  shows "\<exists>f'. clean_block split (lab B) f m = Some (f', m \<or> has_select B) \<and> same_meaning sem f f' \<and>
    (\<exists>u v. map has_select (blocks f') = map has_select xs @ replicate (Suc u) False @ map has_select ys @ replicate v False)"
  using assms(2,3)
proof (induction "length (filter is_select (body B))" arbitrary: f xs B ys m rule: less_induct)
  case less
  have B: "block_of f (lab B) = Some B" using block_of_member [of f B] less.prems by (simp add: wf_func_def)
  show ?case
  proof (cases "find_select 0 (body B)")
    case None
    then have "\<not> has_select B" by (simp add: find_select_None has_select_def)
    moreover from None have "clean_block split (lab B) f m = Some (f, m)" by (subst clean_block.simps) (simp add: B)
    ultimately show ?thesis using less.prems same_meaning_refl [OF less.prems(1)]
      by (intro exI [of _ f] conjI exI [of _ 0]) simp_all
  next
    case (Some sel)
    then obtain i d c t e where sel: "find_select 0 (body B) = Some (i, d, c, t, e)" by (cases sel) auto
    have site: "is_site f xs B ys (i, d, c, t, e)" using less.prems sel by (simp add: is_site_def)
    let ?f = "replaced f xs B ys (i, d, c, t, e)" and ?r = "rename_in (targets (terminator B)) (lab B) (next_block f)"
    let ?L = "\<lparr>lab = next_block f, phis = [\<lparr>p_dest = d, p_in = [(next_block f + 1, t), (next_block f + 2, e)]\<rparr>],
      body = drop (Suc i) (body B), terminator = terminator B\<rparr>"
    obtain xs1 ys1 where bs: "blocks ?f = xs1 @ ?L # ys1" "map has_select xs1 = map has_select xs @ [False]"
      "map has_select ys1 = map has_select ys @ [False, False]"
      using body_parts(2) [OF sel] that [of "map ?r xs @ [(?r B)\<lparr>body := take i (body B), terminator := CondBr c (next_block f + 1) (next_block f + 2)\<rparr>]"
          "map ?r ys @ [\<lparr>lab = next_block f + 1, phis = [], body = [], terminator = Br (next_block f)\<rparr>,
            \<lparr>lab = next_block f + 2, phis = [], body = [], terminator = Br (next_block f)\<rparr>]"]
      by (simp add: replaced_def Let_def has_select_def)
    have parts: "body B = take i (body B) @ Select d c t e # drop (Suc i) (body B)" by (rule body_parts(1) [OF sel])
    have fl: "length (filter is_select (body ?L)) < length (filter is_select (body B))" "has_select B"
      using arg_cong [OF parts, of "\<lambda>b. length (filter is_select b)"] arg_cong [OF parts, of "list_ex is_select"]
      by (simp_all add: has_select_def)
    have "clean_block split (lab B) f m = clean_block split (next_block f) ?f True"
      using one_replacement [OF law less.prems sel] by (subst clean_block.simps) (simp add: B sel split: prod.splits)
    moreover obtain f' u v where "clean_block split (lab ?L) ?f True = Some (f', True)" "same_meaning sem ?f f'"
      "map has_select (blocks f') = map has_select xs1 @ replicate (Suc u) False @ map has_select ys1 @ replicate v False"
      using less.hyps [OF fl(1) replaced_wf [OF site] bs(1), of True] by auto
    ultimately show ?thesis using fl(2) same_meaning_trans [OF replaced_keeps [OF site]] bs(2,3)
      by (intro exI [of _ f'] conjI exI [of _ "Suc u"] exI [of _ "Suc (Suc v)"]) (simp_all add: replicate_append_same)
  qed
qed

lemma clean_blocks_spec:
  assumes law: "split_law split" and "wf_func f" "\<forall>B\<in>set (take i (blocks f)). \<not> has_select B"
  shows "\<exists>f'. clean_blocks split i f m = Some (f', m \<or> list_ex has_select (blocks f)) \<and> same_meaning sem f f' \<and> \<not> list_ex has_select (blocks f')"
  using assms(2,3)
proof (induction "length (filter id (map has_select (blocks f)))" arbitrary: f i m rule: less_induct)
  case outer: less
  from outer.prems show ?case
  proof (induction "length (blocks f) - i" arbitrary: i m rule: less_induct)
    case inner: less
    show ?case
    proof (cases "i < length (blocks f)")
      case False
      then show ?thesis using inner.prems same_meaning_refl
        by (intro exI [of _ f]) (subst clean_blocks.simps, auto simp: list_ex_iff)
    next
      case True
      let ?B = "blocks f ! i" and ?xs = "take i (blocks f)" and ?ys = "drop (Suc i) (blocks f)"
      have bs: "blocks f = ?xs @ ?B # ?ys" by (rule id_take_nth_drop [OF True])
      obtain f1 u v where f1: "clean_block split (lab ?B) f m = Some (f1, m \<or> has_select ?B)" "same_meaning sem f f1"
        "map has_select (blocks f1) = map has_select ?xs @ replicate (Suc u) False @ map has_select ?ys @ replicate v False"
        using clean_block_spec [OF law inner.prems(1) bs, of m sem] by blast
      have rec: "clean_blocks split i f m = clean_blocks split (Suc i) f1 (m \<or> has_select ?B)"
        by (subst clean_blocks.simps) (simp add: True f1(1))
      have clean: "map has_select ?xs = replicate i False"
        using map_cong [of ?xs ?xs has_select "\<lambda>_. False"] inner.prems(2) True by (simp add: map_replicate_const)
      show ?thesis
      proof (cases "has_select ?B")
        case False
        then have none: "find_select 0 (body ?B) = None" by (simp add: find_select_None has_select_def)
        have "clean_block split (lab ?B) f m = Some (f, m)"
          using block_of_member [of f ?B] inner.prems(1) True by (subst clean_block.simps) (simp add: wf_func_def none)
        then have "f1 = f" using f1(1) by simp
        moreover have "\<forall>B\<in>set (take (Suc i) (blocks f)). \<not> has_select B"
          using inner.prems(2) False True by (simp add: take_Suc_conv_app_nth)
        ultimately show ?thesis using rec False inner.hyps [of "Suc i" m] inner.prems(1) True by simp
      next
        case sel: True
        have "length (filter id (map has_select (blocks f1))) < length (filter id (map has_select (blocks f)))"
          using sel by (subst bs) (simp add: f1(3) clean)
        moreover have "\<forall>B\<in>set (take (Suc i) (blocks f1)). \<not> has_select B"
        proof -
          have "take (Suc i) (replicate i False @ replicate (Suc u) False @ zs) = replicate (Suc i) False" for zs
            by (simp add: replicate_append_same)
          moreover have "map has_select (blocks f1) = replicate i False @ replicate (Suc u) False @ map has_select ?ys @ replicate v False"
            by (simp only: f1(3) clean)
          ultimately have "map has_select (take (Suc i) (blocks f1)) = replicate (Suc i) False"
            by (simp only: take_map [symmetric])
          then show ?thesis by (metis in_set_replicate list.set_map image_eqI)
        qed
        ultimately obtain f' where "clean_blocks split (Suc i) f1 True = Some (f', True)" "same_meaning sem f1 f'" "\<not> list_ex has_select (blocks f')"
          using outer.hyps [of f1 "Suc i" True] f1(2) by (auto simp: same_meaning_def)
        moreover have "list_ex has_select (blocks f)" using sel True by (auto simp: list_ex_iff)
        ultimately show ?thesis using rec sel same_meaning_trans [OF f1(2)] by simp
      qed
    qed
  qed
qed

section \<open>A counted loop\<close>

text \<open>LLVM's function, as its documentation has it, and a function whose loop selects the larger of two values.\<close>

definition split_ref :: "nat \<Rightarrow> nat \<Rightarrow> func \<Rightarrow> nat \<times> func" where
  "split_ref b i f = (next_block f, f\<lparr>next_block := Suc (next_block f),
     blocks := concat (map (\<lambda>C. let r = rename_in (case block_of f b of None \<Rightarrow> {} | Some B \<Rightarrow> targets (terminator B)) b (next_block f) in
       if lab C = b then [(r C)\<lparr>body := take i (body C), terminator := Br (next_block f)\<rparr>,
         \<lparr>lab = next_block f, phis = [], body = drop i (body C), terminator = terminator C\<rparr>] else [r C]) (blocks f))\<rparr>)"

lemma split_ref_law: "split_law split_ref"
  unfolding split_law_def
proof (intro allI impI)
  fix f xs B ys i
  assume a: "wf_func f \<and> blocks f = xs @ B # ys \<and> i < length (body B)"
  then have "distinct (map lab (blocks f))" "B \<in> set (blocks f)" unfolding wf_func_def by (blast, auto)
  then have B: "block_of f (lab B) = Some B" by (rule block_of_member)
  have "distinct (map lab (xs @ B # ys))" using a unfolding wf_func_def by metis
  then have "lab B \<notin> lab ` set xs" "lab B \<notin> lab ` set ys" by auto
  then have ne: "\<forall>C\<in>set xs. lab C \<noteq> lab B" "\<forall>C\<in>set ys. lab C \<noteq> lab B" by (metis imageI)+
  have c: "concat (map (\<lambda>C. if lab C = lab B then g C else [h C]) zs) = map h zs" if "\<forall>C\<in>set zs. lab C \<noteq> lab B" for zs and g h :: "block \<Rightarrow> _"
    using that by (induction zs) auto
  show "split_ref (lab B) i f = (next_block f, f\<lparr>next_block := Suc (next_block f),
       blocks := (let r = rename_in (targets (terminator B)) (lab B) (next_block f) in
         map r xs @ [(r B)\<lparr>body := take i (body B), terminator := Br (next_block f)\<rparr>,
           \<lparr>lab = next_block f, phis = [], body = drop i (body B), terminator = terminator B\<rparr>] @ map r ys)\<rparr>)"
    using a by (simp add: split_ref_def B Let_def c [OF ne(1)] c [OF ne(2)])
qed

text \<open>Block 10 enters the loop in block 11, whose register 3 is the larger of the argument in register 6 and the counter
  in register 2; the loop ends when the counter, lowered by 2 by operation 0, is 0.\<close>

definition max_loop :: func where
  "max_loop = \<lparr>blocks = [\<lparr>lab = 10, phis = [], body = [], terminator = Br 11\<rparr>,
     \<lparr>lab = 11, phis = [\<lparr>p_dest = 2, p_in = [(10, Imm 4), (11, Reg 4)]\<rparr>],
       body = [Op 5 7 [Reg 2, Reg 6], Select 3 (Reg 5) (Reg 6) (Reg 2), Op 4 0 [Reg 2]], terminator = CondBr (Reg 4) 11 12\<rparr>,
     \<lparr>lab = 12, phis = [], body = [], terminator = Ret (Some (Reg 3))\<rparr>], next_block = 13\<rparr>"

fun loop_ops :: "unit semantics" where
  "loop_ops k args w = (if k = 0 then Some (hd args - 2, w) else Some (if hd args < hd (tl args) then 5 else 0, w))"

lemma wf_max_loop: "wf_func max_loop"
proof -
  have "preds (blocks max_loop) b = (if b = 11 then {10, 11} else if b = 12 then {11} else {})" for b
    by (auto simp: set_eq_iff in_preds max_loop_def)
  then show ?thesis by (simp add: wf_func_def labels_def) (simp add: max_loop_def)
qed

lemma max_loop_blocks:
  "block_of max_loop 10 = Some \<lparr>lab = 10, phis = [], body = [], terminator = Br 11\<rparr>"
  "block_of max_loop 11 = Some \<lparr>lab = 11, phis = [\<lparr>p_dest = 2, p_in = [(10, Imm 4), (11, Reg 4)]\<rparr>],
       body = [Op 5 7 [Reg 2, Reg 6], Select 3 (Reg 5) (Reg 6) (Reg 2), Op 4 0 [Reg 2]], terminator = CondBr (Reg 4) 11 12\<rparr>"
  "block_of max_loop 12 = Some \<lparr>lab = 12, phis = [], body = [], terminator = Ret (Some (Reg 3))\<rparr>"
  by (simp_all add: block_of_def max_loop_def)

lemma max_loop_steps:
  "block_step loop_ops max_loop (None, 10, env, ()) = Inr (Some 10, 11, env, ())"
  "env 6 = 7 \<Longrightarrow> block_step loop_ops max_loop (Some 10, 11, env, ()) = Inr (Some 11, 11, env(2 := 4, 5 := 5, 3 := 7, 4 := 2), ())"
  "env 6 = 7 \<Longrightarrow> env 4 = 2 \<Longrightarrow> block_step loop_ops max_loop (Some 11, 11, env, ()) = Inr (Some 11, 12, env(2 := 2, 5 := 5, 3 := 7, 4 := 0), ())"
  "env 3 = 7 \<Longrightarrow> block_step loop_ops max_loop (Some 11, 12, env, ()) = Inl (Returned (Some 7) ())"
  by (simp_all add: max_loop_blocks step_block_def exec_phis_def incoming_def)

lemma max_loop_call: "call_func (Suc (Suc (Suc (Suc 0)))) loop_ops max_loop (\<lambda>r. if r = 6 then 7 else 0) () = Some (Returned (Some 7) ())"
proof -
  have "lab (hd (blocks max_loop)) = 10" by (simp add: max_loop_def)
  then show ?thesis by (simp add: call_func_def max_loop_steps del: block_step.simps)
qed

section \<open>Properties\<close>

text \<open>C32: The pass ends; its result has no select instruction, is well-formed (different blocks, branches to existing
  blocks, phi nodes for exactly the predecessors), defines the same registers, and the result tells whether
  there was a select.\<close>

theorem runOnFunction_well_formed:
  assumes "split_law split" "wf_func f"
  shows "\<exists>f'. runOnFunction split f = Some (f', list_ex has_select (blocks f)) \<and> wf_func f' \<and>
    \<not> list_ex has_select (blocks f') \<and> definitions f' = definitions f"
  using clean_blocks_spec [OF assms, where i = 0 and m = False and sem = loop_ops] by (auto simp: runOnFunction_def same_meaning_def)

theorem runOnFunction_well_formed_witness:
  "\<exists>f'. runOnFunction split_ref max_loop = Some (f', True) \<and> wf_func f' \<and> \<not> list_ex has_select (blocks f')"
proof -
  have "list_ex has_select (blocks max_loop)" by (simp add: max_loop_def has_select_def)
  then show ?thesis using runOnFunction_well_formed [OF split_ref_law wf_max_loop] by auto
qed

text \<open>C31: The pass preserves the meaning of a function: whatever the other instructions do, for all arguments and in every
  world, the function after the pass returns, or gets stuck, exactly when the one before does, with the same value and
  the same effects.\<close>

theorem runOnFunction_equivalent:
  assumes "split_law split" "wf_func f" "runOnFunction split f = Some (f', m)"
  shows "returns sem f' env w r \<longleftrightarrow> returns sem f env w r"
  using clean_blocks_spec [OF assms(1,2), where i = 0 and m = False and sem = sem] assms(3)
  by (auto simp: runOnFunction_def same_meaning_def)

theorem runOnFunction_equivalent_witness:
  "\<exists>f' m. runOnFunction split_ref max_loop = Some (f', m) \<and> returns loop_ops f' (\<lambda>r. if r = 6 then 7 else 0) () (Returned (Some 7) ())"
proof -
  let ?env = "\<lambda>r :: nat. if r = 6 then 7 else 0 :: nat"
  obtain f' where f': "clean_blocks split_ref 0 max_loop False = Some (f', list_ex has_select (blocks max_loop))"
    using clean_blocks_spec [OF split_ref_law wf_max_loop, where i = 0 and m = False and sem = loop_ops] by auto
  then have r: "runOnFunction split_ref max_loop = Some (f', list_ex has_select (blocks max_loop))" by (simp add: runOnFunction_def)
  have "returns loop_ops max_loop ?env () (Returned (Some 7) ())" unfolding returns_def using max_loop_call by (rule exI)
  then have "returns loop_ops f' ?env () (Returned (Some 7) ())" by (rule runOnFunction_equivalent [OF split_ref_law wf_max_loop r, THEN iffD2])
  with r show ?thesis by (intro exI conjI)
qed

end
