(* ===== verification/Function_Execution.thy ===== *)
theory Function_Execution
  imports Executor_Setup Symbolic_Values
begin

text \<open>
  The entry points of the executor that run code (\<open>S2EExecutor.cpp\<close>): the call of an LLVM function on a
  state, translation blocks, interrupts and the condition codes, each in KLEE or natively. KLEE's
  interpreter and its module are parameters, as are QEMU's native routines; fragments of
  \<open>executeTranslationBlock\<close> that are stubbed out are arguments.
\<close>

section \<open>Functions and frames\<close>

text \<open>Functions, instructions and registers of a frame are numbers. \<open>kf_entry\<close> is the position before the
  first instruction and \<open>kf_arg\<close> the register of an argument.\<close>

record kfunction =
  kf_entry :: nat
  kf_instrs :: "nat list"
  kf_arg :: "nat \<Rightarrow> nat"

record 'e call_frame =
  fr_caller :: nat
  fr_function :: nat
  fr_locals :: "nat \<Rightarrow> 'e option"

text \<open>The module with its table of constants; a cell is empty until the constant is evaluated.\<close>

record ('c, 'e) kmodule =
  functionMap :: "nat \<Rightarrow> kfunction option"
  km_functions :: "nat list"
  km_names :: "string \<Rightarrow> nat option"
  km_constants :: "'c list"
  constantTable :: "'e option list"
  boundInstructions :: "nat set"
  globalAddresses :: "nat \<Rightarrow> u64 option"
  legalFunctions :: "nat set"

text \<open>A state as KLEE runs it: the state of S2E, the program counter, the previous one (null outside of functions)
  and the frames, innermost first; the last two are the executor's \<open>addedStates\<close> and
  \<open>m_forkProcTerminateCurrentState\<close>.\<close>

record ('e, 'o, 'k) run_state =
  es :: "('e, 'o, 'k) exec_state"
  pc :: nat
  prevPC :: "nat option"
  frames :: "'e call_frame list"
  addedStates :: "nat set"
  forkProcTerminate :: bool

text \<open>KLEE and the module: \<open>k_update\<close> is \<open>updateModuleWithFunction\<close>, \<open>k_weak\<close> external weak linkage,
  \<open>k_resolve\<close> the symbol lookup of the dispatcher, \<open>k_eval\<close> \<open>evalConstant\<close>, \<open>k_dest\<close> the
  register of the result of an instruction, \<open>k_void\<close> a function without result, and \<open>k_step\<close> the execution of
  one instruction.\<close>

record ('c, 'e, 'o, 'k) engine =
  k_update :: "nat \<Rightarrow> ('c, 'e) kmodule \<Rightarrow> kfunction \<times> ('c, 'e) kmodule"
  k_weak :: "nat \<Rightarrow> bool"
  k_resolve :: "nat \<Rightarrow> bool"
  k_address :: "nat \<Rightarrow> u64"
  k_eval :: "'c \<Rightarrow> 'e"
  k_dest :: "nat \<Rightarrow> nat"
  k_void :: "nat \<Rightarrow> bool"
  k_step :: "nat \<Rightarrow> ('e, 'o, 'k) run_state \<Rightarrow> unit res \<times> ('e, 'o, 'k) run_state"
  k_updateStates :: "('e, 'o, 'k) run_state \<Rightarrow> ('e, 'o, 'k) run_state"
  dummy_main :: nat

section \<open>The call of a function\<close>

text \<open>The address of a function; \<open>std::map::insert\<close> keeps an address that is already known.\<close>

definition is_undefined :: "('c, 'e, 'o, 'k) engine \<Rightarrow> nat \<Rightarrow> bool" where
  "is_undefined E g = (k_weak E g \<and> \<not> k_resolve E g)"

definition add_global :: "('c, 'e, 'o, 'k) engine \<Rightarrow> nat \<Rightarrow> ('c, 'e) kmodule \<Rightarrow> ('c, 'e) kmodule" where
  "add_global E g km = km\<lparr>legalFunctions := (if is_undefined E g then legalFunctions km else insert g (legalFunctions km)),
     globalAddresses := (case globalAddresses km g of Some a \<Rightarrow> globalAddresses km
       | None \<Rightarrow> (globalAddresses km)(g := Some (if is_undefined E g then 0 else k_address E g)))\<rparr>"

definition resize_table :: "nat \<Rightarrow> 'e option list \<Rightarrow> 'e option list" where
  "resize_table n t = take n t @ replicate (n - length t) None"

definition eval_constants :: "('c, 'e, 'o, 'k) engine \<Rightarrow> nat \<Rightarrow> ('c, 'e) kmodule \<Rightarrow> ('c, 'e) kmodule" where
  "eval_constants E cIndex km = km\<lparr>constantTable :=
     fold (\<lambda>i t. t[i := Some (k_eval E (km_constants km ! i))]) [cIndex..<length (km_constants km)] (constantTable km)\<rparr>"

text \<open>A function that the module does not know yet is added to it.\<close>

definition load_function :: "('c, 'e, 'o, 'k) engine \<Rightarrow> nat \<Rightarrow> ('c, 'e) kmodule \<Rightarrow> kfunction \<times> ('c, 'e) kmodule" where
  "load_function E f km = (case functionMap km f of
      Some kf \<Rightarrow> (kf, km)
    | None \<Rightarrow>
        let cIndex = length (km_constants km); (kf, km1) = k_update E f km;
            km2 = km1\<lparr>boundInstructions := boundInstructions km1 \<union> set (kf_instrs kf)\<rparr>;
            km3 = fold (add_global E) (km_functions km2) km2;
            km4 = km3\<lparr>constantTable := resize_table (length (km_constants km3)) (constantTable km3)\<rparr>
        in (kf, eval_constants E cIndex km4))"

definition bind_arguments :: "kfunction \<Rightarrow> 'e list \<Rightarrow> (nat \<Rightarrow> 'e option) \<Rightarrow> nat \<Rightarrow> 'e option" where
  "bind_arguments kf args l = fold (\<lambda>i l. l(kf_arg kf i := Some (args ! i))) [0..<length args] l"

definition prepareFunctionExecution ::
  "('c, 'e, 'o, 'k) engine \<Rightarrow> nat \<Rightarrow> 'e list \<Rightarrow> ('c, 'e) kmodule \<times> ('e, 'o, 'k) run_state \<Rightarrow> ('c, 'e) kmodule \<times> ('e, 'o, 'k) run_state" where
  "prepareFunctionExecution E f args x = (case x of (km, s) \<Rightarrow> case load_function E f km of (kf, km1) \<Rightarrow>
     (km1, s\<lparr>prevPC := Some (pc s), pc := kf_entry kf,
       frames := \<lparr>fr_caller = pc s, fr_function = f, fr_locals = bind_arguments kf args (\<lambda>_. None)\<rparr> # frames s\<rparr>))"

text \<open>The loop over the instructions, as in \<open>State_Scheduler\<close>, with the program counter and the frames of the
  state.\<close>

partial_function (option) run_instructions ::
  "('c, 'e, 'o, 'k) engine \<Rightarrow> nat \<Rightarrow> ('e, 'o, 'k) run_state \<Rightarrow> (bool \<times> ('e, 'o, 'k) run_state) res option" where
  "run_instructions E depth s =
     (if length (frames s) = depth
      then Some (Inr (False, if depth = 1 then s\<lparr>prevPC := None, pc := dummy_main E\<rparr> else s))
      else (case k_step E (pc s) s of
          (Inl Cpu_Exit, s1) \<Rightarrow> Some (rbind (assert_that (addedStates s1 = {})) (\<lambda>_. Inr (True, s1)))
        | (Inl e, s1) \<Rightarrow> Some (Inl e)
        | (Inr _, s1) \<Rightarrow>
            let s2 = k_updateStates E s1 in
            if m_speculative (es s2) \<or> forkProcTerminate s2 then Some (Inl Assertion_Failed)
            else run_instructions E depth s2))"

definition result_of :: "('c, 'e, 'o, 'k) engine \<Rightarrow> nat \<Rightarrow> ('e, 'o, 'k) run_state \<Rightarrow> 'e option" where
  "result_of E f s = (if k_void E f then None else fr_locals (hd (frames s)) (k_dest E (pc s)))"

type_synonym ('c, 'e, 'o, 'k) world = "('c, 'e) kmodule \<times> ('e, 'o, 'k) run_state"

definition executeFunction ::
  "('c, 'e, 'o, 'k) engine \<Rightarrow> nat \<Rightarrow> 'e list \<Rightarrow> ('c, 'e, 'o, 'k) world \<Rightarrow>
   (('e option \<times> ('c, 'e, 'o, 'k) world) outcome) res option" where
  "executeFunction E f args x = (let s = snd x in
     if m_runningConcrete (ram (es s)) \<or> prevPC s \<noteq> None \<or> length (frames s) \<noteq> 1 then Some (Inl Assertion_Failed)
     else (case prepareFunctionExecution E f args x of (km1, s1) \<Rightarrow>
       (case run_instructions E (length (frames s)) s1 of
          None \<Rightarrow> None
        | Some (Inl e) \<Rightarrow> Some (Inl e)
        | Some (Inr (True, s2)) \<Rightarrow> Some (Inr (Cpu_Exits (None, km1, s2)))
        | Some (Inr (False, s2)) \<Rightarrow>
            Some (if pc s = dummy_main E
              then rbind (assert_that (length (frames s2) = 1)) (\<lambda>_.
                let s3 = s2\<lparr>prevPC := None, pc := pc s\<rparr> in Inr (Returned (result_of E f s3, km1, s3)))
              else Inr (Returned (result_of E f s2, km1, s2))))))"

definition executeFunction_named ::
  "('c, 'e, 'o, 'k) engine \<Rightarrow> string \<Rightarrow> 'e list \<Rightarrow> ('c, 'e, 'o, 'k) world \<Rightarrow>
   (('e option \<times> ('c, 'e, 'o, 'k) world) outcome) res option" where
  "executeFunction_named E name args x = (case km_names (fst x) name of
     None \<Rightarrow> Some (Inl Assertion_Failed) | Some f \<Rightarrow> executeFunction E f args x)"

text \<open>After an exit to the processor loop all frames but the outermost are popped.\<close>

definition cleanup_frames :: "('c, 'e, 'o, 'k) engine \<Rightarrow> ('e, 'o, 'k) run_state \<Rightarrow> ('e, 'o, 'k) run_state res" where
  "cleanup_frames E s =
     rbind (assert_that (m_active (ram (es s)))) (\<lambda>_.
     rbind (ensure_defined (frames s \<noteq> [])) (\<lambda>_.
       Inr (s\<lparr>frames := [last (frames s)], prevPC := None, pc := dummy_main E\<rparr>)))"

section \<open>Interrupts and condition codes\<close>

text \<open>The registers without symbolic byte are run natively unless KLEE is forced. \<open>native\<close> is QEMU's routine, \<open>name\<close> the
  same routine in the module; leaving it by an exit of the processor loop is stubbed out.\<close>

record ('e, 'o, 'k) exec_options =
  klee_ops :: "('e, 'o, 'k) klee_ops"
  stale_store :: "nat \<Rightarrow> u8"
  m_executeAlwaysKlee :: bool
  m_forceConcretizations :: bool

definition all_concrete :: "('e, 'o, 'k) exec_options \<Rightarrow> ('e, 'o, 'k) exec_state \<Rightarrow> bool res" where
  "all_concrete opt st = rbind (registers_object st) (\<lambda>bs. Inr (list_all (\<lambda>b. e_value (klee_ops opt) b \<noteq> None) bs))"

definition ensure_concrete :: "('e, 'o, 'k) exec_options \<Rightarrow> ('e, 'o, 'k) run_state \<Rightarrow> ('e, 'o, 'k) run_state res" where
  "ensure_concrete opt s = (if m_runningConcrete (ram (es s)) then Inr s
     else rbind (switchToConcrete (klee_ops opt) (m_forceConcretizations opt) (stale_store opt) (es s)) (\<lambda>e. Inr (s\<lparr>es := e\<rparr>)))"

definition ensure_symbolic :: "('e, 'o, 'k) exec_options \<Rightarrow> ('e, 'o, 'k) run_state \<Rightarrow> ('e, 'o, 'k) run_state res" where
  "ensure_symbolic opt s = (if \<not> m_runningConcrete (ram (es s)) then Inr s
     else rbind (switchToSymbolic (klee_ops opt) (es s)) (\<lambda>e. Inr (s\<lparr>es := e\<rparr>)))"

definition run_native ::
  "('e, 'o, 'k) exec_options \<Rightarrow> (('e, 'o, 'k) run_state \<Rightarrow> ('e, 'o, 'k) run_state res) \<Rightarrow> ('c, 'e, 'o, 'k) world \<Rightarrow> ('c, 'e, 'o, 'k) world res" where
  "run_native opt native x = rbind (ensure_concrete opt (snd x)) (\<lambda>s. rbind (native s) (\<lambda>s1. Inr (fst x, s1)))"

definition run_in_klee ::
  "('e, 'o, 'k) exec_options \<Rightarrow> ('c, 'e, 'o, 'k) engine \<Rightarrow> string \<Rightarrow> 'e list \<Rightarrow> ('c, 'e, 'o, 'k) world \<Rightarrow> ('c, 'e, 'o, 'k) world res option" where
  "run_in_klee opt E name args x = (case ensure_symbolic opt (snd x) of
      Inl e \<Rightarrow> Some (Inl e)
    | Inr s \<Rightarrow> (case executeFunction_named E name args (fst x, s) of
        None \<Rightarrow> None
      | Some (Inl e) \<Rightarrow> Some (Inl e)
      | Some (Inr (Returned (r, y))) \<Rightarrow> Some (Inr y)
      | Some (Inr (Cpu_Exits y)) \<Rightarrow> Some (Inl Assertion_Failed)))"

definition doInterrupt ::
  "('e, 'o, 'k) exec_options \<Rightarrow> ('c, 'e, 'o, 'k) engine \<Rightarrow> (('e, 'o, 'k) run_state \<Rightarrow> ('e, 'o, 'k) run_state res) \<Rightarrow> string \<Rightarrow> 'e list \<Rightarrow>
   ('c, 'e, 'o, 'k) world \<Rightarrow> ('c, 'e, 'o, 'k) world res option" where
  "doInterrupt opt E native name args x = (case all_concrete opt (es (snd x)) of
      Inl e \<Rightarrow> Some (Inl e)
    | Inr c \<Rightarrow> if c \<and> \<not> m_executeAlwaysKlee opt then Some (run_native opt native x) else run_in_klee opt E name args x)"

text \<open>On I386 the five arguments are passed as constants; the flag tells that the code of the exception runs, and the plugins
  see the exception before, by \<open>on_exception\<close>.\<close>

definition interrupt_args :: "('e, 'o, 'k) exec_options \<Rightarrow> cpu_conf \<Rightarrow> u32 \<Rightarrow> u32 \<Rightarrow> u32 \<Rightarrow> u64 \<Rightarrow> u32 \<Rightarrow> 'e list" where
  "interrupt_args opt cf intno is_int error_code next_eip is_hw =
     [e_const (klee_ops opt) (ucast intno) 32, e_const (klee_ops opt) (ucast is_int) 32, e_const (klee_ops opt) (ucast error_code) 32,
      e_const (klee_ops opt) next_eip (8 * CPU_REG_SIZE cf), e_const (klee_ops opt) (ucast is_hw) 32]"

definition set_emulation :: "bool \<Rightarrow> ('c, 'e, 'o, 'k) world \<Rightarrow> ('c, 'e, 'o, 'k) world" where
  "set_emulation v x = (fst x, (snd x)\<lparr>es := setRunningExceptionEmulationCode v (es (snd x))\<rparr>)"

definition do_interrupt ::
  "('e, 'o, 'k) exec_options \<Rightarrow> ('c, 'e, 'o, 'k) engine \<Rightarrow> (('c, 'e, 'o, 'k) world \<Rightarrow> ('c, 'e, 'o, 'k) world res) \<Rightarrow>
   (('e, 'o, 'k) run_state \<Rightarrow> ('e, 'o, 'k) run_state res) \<Rightarrow> string \<Rightarrow> 'e list \<Rightarrow> ('c, 'e, 'o, 'k) world \<Rightarrow> ('c, 'e, 'o, 'k) world res option" where
  "do_interrupt opt E on_exception native name args x = (case on_exception (set_emulation True x) of
      Inl e \<Rightarrow> Some (Inl e)
    | Inr y \<Rightarrow> (case doInterrupt opt E native name args y of
        None \<Rightarrow> None | Some (Inl e) \<Rightarrow> Some (Inl e) | Some (Inr z) \<Rightarrow> Some (Inr (set_emulation False z))))"

text \<open>The condition codes of I386; \<open>off\<close> is the offset of \<open>cc_op\<close> and \<open>eflags\<close> the value \<open>CC_OP_EFLAGS\<close>.\<close>

definition setCCOpEflags ::
  "('e, 'o, 'k) exec_options \<Rightarrow> ('c, 'e, 'o, 'k) engine \<Rightarrow> cpu_conf \<Rightarrow> nat \<Rightarrow> u8 list \<Rightarrow> (('e, 'o, 'k) run_state \<Rightarrow> ('e, 'o, 'k) run_state res) \<Rightarrow>
   ('c, 'e, 'o, 'k) world \<Rightarrow> ('c, 'e, 'o, 'k) world res option" where
  "setCCOpEflags opt E cf off eflags native x =
     (if cpu_arch cf = ARM then Some (Inr x)
      else (case rbind (getSymbolicRegistersMask (klee_ops opt) cf (es (snd x))) (\<lambda>m.
              rbind (readCpuRegisterConcrete (klee_ops opt) cf off 4 (es (snd x))) (\<lambda>v. Inr (m AND 0x1e \<noteq> 0 \<or> m_executeAlwaysKlee opt, v))) of
          Inl e \<Rightarrow> Some (Inl e)
        | Inr (symb, v) \<Rightarrow>
            if symb then (if v = Some eflags then Some (Inr x) else run_in_klee opt E ''helper_set_cc_op_eflags'' [] x)
            else (case v of
                None \<Rightarrow> Some (Inl Assertion_Failed)
              | Some c \<Rightarrow> Some (if c = eflags then Inr x else run_native opt native x))))"

section \<open>Merge points\<close>

text \<open>The hash takes the bytes as \<open>char\<close>, which is signed.\<close>

definition hash64 :: "u64 \<Rightarrow> u64 \<Rightarrow> u64" where
  "hash64 v init = foldl (\<lambda>h b. (h XOR scast (b :: u8)) * 1099511628211) init (le_bytes 8 v)"

definition FNV_BASIS :: u64 where "FNV_BASIS = 14695981039346656037"

text \<open>The searcher must be the merging one. \<open>icount\<close> is the instruction count of the state, which is stubbed out once the
  processor is registered; the result is the last count and, on the exit, the merge point.\<close>

definition queueStateForMerge ::
  "('e, 'o, 'k) klee_ops \<Rightarrow> cpu_conf \<Rightarrow> bool \<Rightarrow> u64 res \<Rightarrow> u64 \<Rightarrow> ('e, 'o, 'k) exec_state \<Rightarrow> ((u64 \<times> u64 option) outcome) res" where
  "queueStateForMerge kl cf merging icount last_icount st =
     (if \<not> merging then Inr (Returned (last_icount, None))
      else rbind (assert_that (m_active (ram st) \<and> \<not> m_runningConcrete (ram st))) (\<lambda>_.
        rbind icount (\<lambda>n.
        if last_icount = n - 1 then Inr (Returned (last_icount, None))
        else rbind (readCpuRegisterConcrete kl cf (stack_register cf) (CPU_REG_SIZE cf) st) (\<lambda>sp.
          rbind (getPc cf st) (\<lambda>p.
          let m1 = target_ulong cf (hash64 (case sp of None \<Rightarrow> 0 | Some bs \<Rightarrow> le_word bs) FNV_BASIS);
              m2 = target_ulong cf (hash64 p m1)
          in Inr (Cpu_Exits (n, Some m2)))))))"

text \<open>The executor's merge makes both states inactive first, which is stubbed out.\<close>

definition executor_merge :: "('e, 'o, 'k) exec_state \<Rightarrow> ('e, 'o, 'k) exec_state \<Rightarrow> bool res" where
  "executor_merge base other =
     (if m_active (ram base) \<or> m_active (ram other) then Inl Assertion_Failed else merge base other)"

section \<open>Handlers of special functions\<close>

definition handleMakeSymbolic ::
  "('e, 'o, 'k) klee_ops \<Rightarrow> ('e, 'k) sym_ops \<Rightarrow> (u64 \<Rightarrow> 'k \<Rightarrow> (mem_object \<times> 'o) option) \<Rightarrow> 'e list \<Rightarrow>
   ('e, 'o, 'k) exec_state \<times> u32 \<Rightarrow> (('e, 'o, 'k) exec_state \<times> u32) res" where
  "handleMakeSymbolic kl sy resolve args s = makeSymbolic kl sy resolve args False s"

definition handleGetValue ::
  "('e, 'o, 'k) klee_ops \<Rightarrow> ('e, 'k) sym_ops \<Rightarrow> (u64 \<Rightarrow> 'k \<Rightarrow> (mem_object \<times> 'o) option) \<Rightarrow> 'e list \<Rightarrow>
   ('e, 'o, 'k) exec_state \<Rightarrow> ('e, 'o, 'k) exec_state res" where
  "handleGetValue kl sy resolve args st = (case args of
     [a, n, c] \<Rightarrow> (case (e_value kl a, e_value kl n, e_value kl c) of
         (Some _, Some sz, Some add) \<Rightarrow>
           rbind (kleeReadMemory kl sy resolve a (unat sz) False False True (add \<noteq> 0) (klee (ram st))) (\<lambda>(_, k).
             Inr (st\<lparr>ram := (ram st)\<lparr>klee := k\<rparr>\<rparr>))
       | _ \<Rightarrow> Inl Assertion_Failed)
   | _ \<Rightarrow> Inl Assertion_Failed)"

text \<open>The values that it reads go nowhere: without a constraint it has no effect.\<close>

lemma klee_read_loop_keeps: "klee_read_loop kl sy os False True False i n k = Inr (bs, k') \<Longrightarrow> k' = k"
proof (induction n arbitrary: i bs)
  case (Suc n)
  then show ?case by (auto simp: rbind_Inr_iff Let_def)
qed simp

lemma handleGetValue_no_effect:
  assumes "e_value kl c = Some 0" "handleGetValue kl sy resolve [a, n, c] st = Inr st'"
  shows "st' = st"
  using assms by (auto simp: handleGetValue_def kleeReadMemory_def rbind_Inr_iff split: option.splits prod.splits dest!: klee_read_loop_keeps)

section \<open>Translation blocks\<close>

text \<open>The fragments that this version replaces by failing assertions: whether the block touches symbolic registers,
  given their mask; the scaling of the clock; the reference to the last block; native execution.\<close>

record ('e, 'o, 'k) tb_fragments =
  tb_touches :: "u64 \<Rightarrow> bool res"
  tb_scale :: "unit res"
  tb_reference :: "unit res"
  tb_native :: "('e, 'o, 'k) run_state \<Rightarrow> ((u64 \<times> ('e, 'o, 'k) run_state) outcome) res"

definition stubbed :: "('e, 'o, 'k) tb_fragments" where
  "stubbed = \<lparr>tb_touches = \<lambda>_. Inl Assertion_Failed, tb_scale = Inl Assertion_Failed, tb_reference = Inl Assertion_Failed,
     tb_native = \<lambda>_. Inl Assertion_Failed\<rparr>"

text \<open>The choice between KLEE and native code: requests for symbolic execution are used up.\<close>

definition at_start_pc :: "bool \<Rightarrow> cpu_conf \<Rightarrow> ('e, 'o, 'k) exec_state \<Rightarrow> (bool \<times> ('e, 'o, 'k) exec_state) res" where
  "at_start_pc k cf st = (if m_startSymbexAtPC st = - 1 then Inr (k, st)
     else rbind (getPc cf st) (\<lambda>p. Inr (k \<or> p = m_startSymbexAtPC st, st\<lparr>m_startSymbexAtPC := - 1\<rparr>)))"

definition to_run_symbolically :: "bool \<Rightarrow> cpu_conf \<Rightarrow> ('e, 'o, 'k) exec_state \<Rightarrow> (bool \<times> ('e, 'o, 'k) exec_state) res" where
  "to_run_symbolically k cf st = (if m_toRunSymbolically st = {} then Inr (k, st)
     else rbind (getPc cf st) (\<lambda>p. rbind (getPid cf st) (\<lambda>pid.
       Inr (if (p, pid) \<in> m_toRunSymbolically st then (True, st\<lparr>m_toRunSymbolically := m_toRunSymbolically st - {(p, pid)}\<rparr>) else (k, st)))))"

definition choose_mode ::
  "('e, 'o, 'k) exec_options \<Rightarrow> ('e, 'o, 'k) tb_fragments \<Rightarrow> cpu_conf \<Rightarrow> ('e, 'o, 'k) exec_state \<Rightarrow> (bool \<times> ('e, 'o, 'k) exec_state) res" where
  "choose_mode opt fr cf st =
     rbind (at_start_pc (m_executeAlwaysKlee opt) cf st) (\<lambda>(k1, st1).
     rbind (to_run_symbolically k1 cf st1) (\<lambda>(k2, st2).
       if k2 \<or> m_forceConcretizations opt then Inr (k2, st2)
       else rbind (getSymbolicRegistersMask (klee_ops opt) cf st2) (\<lambda>m. rbind (tb_touches fr m) (\<lambda>t. Inr (t, st2)))))"

text \<open>A block has data of the plugin, with the generated function once there is one; its generation is stubbed
  out. \<open>args\<close> is the address of the array of arguments.\<close>

record tblock =
  tb_opaque :: "(nat option) option"
  tb_args :: u64

definition executeTranslationBlockKlee ::
  "('e, 'o, 'k) exec_options \<Rightarrow> ('e, 'o, 'k) tb_fragments \<Rightarrow> ('c, 'e, 'o, 'k) engine \<Rightarrow> tblock \<Rightarrow> ('c, 'e, 'o, 'k) world \<Rightarrow>
   ((u64 \<times> ('c, 'e, 'o, 'k) world) outcome) res option" where
  "executeTranslationBlockKlee opt fr E tb x = (let s = snd x in
     if \<not> m_active (ram (es s)) \<or> m_runningConcrete (ram (es s)) \<or> length (frames s) \<noteq> 1 \<or> pc s \<noteq> dummy_main E then Some (Inl Assertion_Failed)
     else (case tb_opaque tb of
        Some (Some f) \<Rightarrow> (case tb_reference fr of
            Inl e \<Rightarrow> Some (Inl e)
          | Inr _ \<Rightarrow> (case prepareFunctionExecution E f [e_const (klee_ops opt) (tb_args tb) 64] x of (km1, s1) \<Rightarrow>
              (case run_instructions E 1 s1 of
                 None \<Rightarrow> None
               | Some (Inl e) \<Rightarrow> Some (Inl e)
               | Some (Inr (True, s2)) \<Rightarrow> Some (Inr (Cpu_Exits (0, km1, s2)))
               | Some (Inr (False, s2)) \<Rightarrow> Some (case fr_locals (hd (frames s2)) (k_dest E (pc s2)) of
                   None \<Rightarrow> Inl Assertion_Failed
                 | Some r \<Rightarrow> (case e_value (klee_ops opt) r of None \<Rightarrow> Inl Assertion_Failed | Some v \<Rightarrow> Inr (Returned (v, km1, s2)))))))
      | _ \<Rightarrow> Some (Inl Assertion_Failed)))"

definition executeTranslationBlockConcrete ::
  "('e, 'o, 'k) tb_fragments \<Rightarrow> ('c, 'e, 'o, 'k) world \<Rightarrow> ((u64 \<times> ('c, 'e, 'o, 'k) world) outcome) res" where
  "executeTranslationBlockConcrete fr x =
     rbind (assert_that (m_active (ram (es (snd x))) \<and> m_runningConcrete (ram (es (snd x))))) (\<lambda>_.
     rbind (tb_native fr (snd x)) (\<lambda>r. Inr (case r of
       Returned (v, s) \<Rightarrow> Returned (v, fst x, s) | Cpu_Exits (v, s) \<Rightarrow> Cpu_Exits (v, fst x, s))))"

definition executeTranslationBlock ::
  "('e, 'o, 'k) exec_options \<Rightarrow> ('e, 'o, 'k) tb_fragments \<Rightarrow> ('c, 'e, 'o, 'k) engine \<Rightarrow> cpu_conf \<Rightarrow> tblock \<Rightarrow> ('c, 'e, 'o, 'k) world \<Rightarrow>
   ((u64 \<times> ('c, 'e, 'o, 'k) world) outcome) res option" where
  "executeTranslationBlock opt fr E cf tb x =
     (if \<not> m_active (ram (es (snd x))) then Some (Inl Assertion_Failed)
      else (case choose_mode opt fr cf (es (snd x)) of
          Inl e \<Rightarrow> Some (Inl e)
        | Inr (True, st) \<Rightarrow> (case rbind (ensure_symbolic opt ((snd x)\<lparr>es := st\<rparr>)) (\<lambda>s. rbind (tb_scale fr) (\<lambda>_. Inr s)) of
            Inl e \<Rightarrow> Some (Inl e) | Inr s \<Rightarrow> executeTranslationBlockKlee opt fr E tb (fst x, s))
        | Inr (False, st) \<Rightarrow> Some (rbind (ensure_concrete opt ((snd x)\<lparr>es := st\<rparr>)) (\<lambda>s. rbind (tb_scale fr) (\<lambda>_.
            executeTranslationBlockConcrete fr (fst x, s))))))"

text \<open>QEMU's entry: the jump to the processor loop after an exit is stubbed out.\<close>

definition s2e_qemu_tb_exec ::
  "('e, 'o, 'k) exec_options \<Rightarrow> ('e, 'o, 'k) tb_fragments \<Rightarrow> ('c, 'e, 'o, 'k) engine \<Rightarrow> cpu_conf \<Rightarrow> tblock \<Rightarrow> ('c, 'e, 'o, 'k) world \<Rightarrow>
   (u64 \<times> ('c, 'e, 'o, 'k) world) res option" where
  "s2e_qemu_tb_exec opt fr E cf tb x = (case executeTranslationBlock opt fr E cf tb (set_emulation False x) of
      None \<Rightarrow> None
    | Some (Inl e) \<Rightarrow> Some (Inl e)
    | Some (Inr (Returned r)) \<Rightarrow> Some (Inr r)
    | Some (Inr (Cpu_Exits r)) \<Rightarrow> Some (Inl Assertion_Failed))"

text \<open>As the fragments stand, no block is executed.\<close>

lemma translation_block_stubbed: "\<exists>e. s2e_qemu_tb_exec opt stubbed E cf tb x = Some (Inl e)"
proof -
  have "\<exists>e. executeTranslationBlock opt stubbed E cf tb y = Some (Inl e)" for y
  proof (cases "choose_mode opt stubbed cf (es (snd y))")
    case (Inr k)
    then obtain m st where k: "choose_mode opt stubbed cf (es (snd y)) = Inr (m, st)" by (cases k) auto
    show ?thesis
      by (cases m; cases "ensure_symbolic opt ((snd y)\<lparr>es := st\<rparr>)"; cases "ensure_concrete opt ((snd y)\<lparr>es := st\<rparr>)")
        (simp_all add: executeTranslationBlock_def k, simp_all add: stubbed_def)
  qed (simp add: executeTranslationBlock_def)
  then obtain e where "executeTranslationBlock opt stubbed E cf tb (set_emulation False x) = Some (Inl e)" by blast
  then show ?thesis by (simp add: s2e_qemu_tb_exec_def)
qed

section \<open>The module stays complete\<close>

text \<open>Every constant is evaluated, every function has its address and can be called if it is defined, and the constants of
  the instructions of every loaded function are bound.\<close>

definition module_ok :: "('c, 'e, 'o, 'k) engine \<Rightarrow> ('c, 'e) kmodule \<Rightarrow> bool" where
  "module_ok E km \<longleftrightarrow> constantTable km = map (\<lambda>c. Some (k_eval E c)) (km_constants km) \<and>
     (\<forall>g\<in>set (km_functions km). globalAddresses km g = Some (if is_undefined E g then 0 else k_address E g) \<and>
        (\<not> is_undefined E g \<longrightarrow> g \<in> legalFunctions km)) \<and>
     (\<forall>f kf. functionMap km f = Some kf \<longrightarrow> set (kf_instrs kf) \<subseteq> boundInstructions km)"

text \<open>KLEE's \<open>updateModuleWithFunction\<close> adds the function, and perhaps others that it calls, and constants; it
  leaves the executor's tables alone. Addresses, once given, are those of the functions.\<close>

definition update_laws :: "('c, 'e, 'o, 'k) engine \<Rightarrow> bool" where
  "update_laws E \<longleftrightarrow> (\<forall>f km kf km'. k_update E f km = (kf, km') \<longrightarrow>
     functionMap km' = (functionMap km)(f := Some kf) \<and> (\<exists>cs. km_constants km' = km_constants km @ cs) \<and>
     constantTable km' = constantTable km \<and> boundInstructions km' = boundInstructions km \<and>
     globalAddresses km' = globalAddresses km \<and> legalFunctions km' = legalFunctions km)"

definition addresses_ok :: "('c, 'e, 'o, 'k) engine \<Rightarrow> ('c, 'e) kmodule \<Rightarrow> bool" where
  "addresses_ok E km \<longleftrightarrow> (\<forall>g a. globalAddresses km g = Some a \<longrightarrow> a = (if is_undefined E g then 0 else k_address E g))"

lemma add_globals:
  assumes "addresses_ok E km"
  shows "addresses_ok E (fold (add_global E) gs km) \<and>
    (\<forall>g\<in>set gs. globalAddresses (fold (add_global E) gs km) g = Some (if is_undefined E g then 0 else k_address E g) \<and>
       (\<not> is_undefined E g \<longrightarrow> g \<in> legalFunctions (fold (add_global E) gs km))) \<and>
    functionMap (fold (add_global E) gs km) = functionMap km \<and> km_functions (fold (add_global E) gs km) = km_functions km \<and>
    km_constants (fold (add_global E) gs km) = km_constants km \<and> constantTable (fold (add_global E) gs km) = constantTable km \<and>
    boundInstructions (fold (add_global E) gs km) = boundInstructions km"
  using assms
proof (induction gs rule: rev_induct)
  case (snoc g gs)
  let ?km = "fold (add_global E) gs km"
  from snoc have ih: "addresses_ok E ?km" "\<forall>g\<in>set gs. globalAddresses ?km g = Some (if is_undefined E g then 0 else k_address E g) \<and>
       (\<not> is_undefined E g \<longrightarrow> g \<in> legalFunctions ?km)" by simp_all
  have new: "globalAddresses (add_global E g ?km) h = (if h = g then Some (if is_undefined E g then 0 else k_address E g) else globalAddresses ?km h)" for h
    using ih(1) by (cases "globalAddresses ?km g") (simp_all add: add_global_def addresses_ok_def)
  have legal: "legalFunctions (add_global E g ?km) = legalFunctions ?km \<union> {h. h = g \<and> \<not> is_undefined E g}"
    by (auto simp: add_global_def)
  have "addresses_ok E (add_global E g ?km)" unfolding addresses_ok_def
  proof (intro allI impI)
    fix h a assume h: "globalAddresses (add_global E g ?km) h = Some a"
    show "a = (if is_undefined E h then 0 else k_address E h)"
      using h ih(1) unfolding new by (cases "h = g") (auto simp: addresses_ok_def)
  qed
  moreover have "functionMap (add_global E g ?km) = functionMap ?km \<and> km_functions (add_global E g ?km) = km_functions ?km \<and>
      km_constants (add_global E g ?km) = km_constants ?km \<and> constantTable (add_global E g ?km) = constantTable ?km \<and>
      boundInstructions (add_global E g ?km) = boundInstructions ?km" by (simp add: add_global_def)
  ultimately show ?case using ih(2) snoc by (simp add: new legal)
qed simp

lemma fold_update_nth:
  assumes "n \<le> length t" "length t = k"
  shows "fold (\<lambda>i t. t[i := v i]) [n..<k] t = take n t @ map v [n..<k]"
proof -
  have "fold (\<lambda>i t. t[i := v i]) [n..<n + j] t = take n t @ map v [n..<n + j] @ drop (n + j) t" if "n + j \<le> length t" for j
    using that
  proof (induction j)
    case (Suc j)
    then have ih: "fold (\<lambda>i t. t[i := v i]) [n..<n + j] t = take n t @ map v [n..<n + j] @ drop (n + j) t" by simp
    have "drop (n + j) t = t ! (n + j) # drop (n + Suc j) t" using Suc.prems Cons_nth_drop_Suc [of "n + j" t] by simp
    then show ?case using Suc.prems by (simp add: ih list_update_append)
  qed simp
  from this [of "k - n"] assms show ?thesis by simp
qed

lemma table_filled:
  "fold (\<lambda>i t. t[i := Some (g ((xs @ cs) ! i))]) [length xs..<length (xs @ cs)] (map (\<lambda>c. Some (g c)) xs @ replicate (length cs) None) =
   map (\<lambda>c. Some (g c)) (xs @ cs)"
proof -
  have "map (\<lambda>i. Some (g ((xs @ cs) ! i))) [length xs..<length (xs @ cs)] = map (\<lambda>c. Some (g c)) cs"
    by (rule nth_equalityI) (simp_all add: nth_append)
  then show ?thesis by (subst fold_update_nth) simp_all
qed

lemma load_function_ok:
  assumes laws: "update_laws E" and ok: "module_ok E km" "addresses_ok E km" and l: "load_function E f km = (kf, km')"
  shows "module_ok E km' \<and> addresses_ok E km' \<and> functionMap km' f = Some kf"
proof (cases "functionMap km f")
  case (Some kf0)
  then show ?thesis using ok l by (simp add: load_function_def)
next
  case None
  obtain kf1 km1 where u: "k_update E f km = (kf1, km1)" by (cases "k_update E f km")
  let ?km2 = "km1\<lparr>boundInstructions := boundInstructions km1 \<union> set (kf_instrs kf1)\<rparr>"
  let ?km3 = "fold (add_global E) (km_functions ?km2) ?km2"
  obtain cs where up: "functionMap km1 = (functionMap km)(f := Some kf1)" "km_constants km1 = km_constants km @ cs"
    "constantTable km1 = constantTable km" "boundInstructions km1 = boundInstructions km"
    "globalAddresses km1 = globalAddresses km" "legalFunctions km1 = legalFunctions km"
    using laws u unfolding update_laws_def by metis
  have "addresses_ok E ?km2" using ok(2) up(5) by (simp add: addresses_ok_def)
  note g = add_globals [OF this, of "km_functions ?km2"]
  let ?n = "length (km_constants km)" and ?N = "length (km_constants ?km3)"
  have ct: "constantTable ?km3 = map (\<lambda>c. Some (k_eval E c)) (km_constants km)" "km_constants ?km3 = km_constants km @ cs"
    using g up ok(1) by (auto simp: module_ok_def)
  have rt: "resize_table ?N (constantTable ?km3) = map (\<lambda>c. Some (k_eval E c)) (km_constants km) @ replicate (length cs) None"
    unfolding resize_table_def ct by simp
  have "fold (\<lambda>i t. t[i := Some (k_eval E (km_constants ?km3 ! i))]) [?n..<?N] (resize_table ?N (constantTable ?km3)) =
      map (\<lambda>c. Some (k_eval E c)) (km_constants ?km3)"
    unfolding rt unfolding ct(2) by (rule table_filled)
  moreover have "kf = kf1" "km' = eval_constants E ?n (?km3\<lparr>constantTable := resize_table ?N (constantTable ?km3)\<rparr>)"
    using l None u unfolding load_function_def Let_def by auto
  ultimately have km': "kf = kf1" "constantTable km' = map (\<lambda>c. Some (k_eval E c)) (km_constants km')" "km_functions km' = km_functions ?km2"
    "globalAddresses km' = globalAddresses ?km3" "legalFunctions km' = legalFunctions ?km3" "functionMap km' = (functionMap km)(f := Some kf1)"
    "boundInstructions km' = boundInstructions km \<union> set (kf_instrs kf1)"
    using g up by (simp_all add: eval_constants_def)
  have "\<forall>h k. functionMap km' h = Some k \<longrightarrow> set (kf_instrs k) \<subseteq> boundInstructions km'"
    using ok(1) unfolding km'(6,7) module_ok_def by auto
  then have "module_ok E km'" using g unfolding module_ok_def km'(2-5) by blast
  moreover have "addresses_ok E km'" using g unfolding addresses_ok_def km'(4) by blast
  ultimately show ?thesis using km'(1,6) by simp
qed

section \<open>Calls one after the other\<close>

text \<open>The executor's assertions about a state: between calls it is in the dummy main function; while it runs in KLEE it is active,
  symbolic and not speculative.\<close>

definition idle :: "('c, 'e, 'o, 'k) engine \<Rightarrow> ('e, 'o, 'k) run_state \<Rightarrow> bool" where
  "idle E s \<longleftrightarrow> length (frames s) = 1 \<and> prevPC s = None \<and> pc s = dummy_main E"

definition in_klee :: "('e, 'o, 'k) run_state \<Rightarrow> bool" where
  "in_klee s \<longleftrightarrow> m_active (ram (es s)) \<and> \<not> m_runningConcrete (ram (es s)) \<and> \<not> m_speculative (es s) \<and> \<not> forkProcTerminate s"

text \<open>An instruction inside a function leaves the state in KLEE with at least one frame, fails no assertion of its own, and
  exits to the processor loop only when no state waits to be added.\<close>

definition step_laws :: "('c, 'e, 'o, 'k) engine \<Rightarrow> bool" where
  "step_laws E \<longleftrightarrow> (\<forall>p s r s1. k_step E p s = (r, s1) \<and> in_klee s \<and> 1 < length (frames s) \<longrightarrow>
     in_klee s1 \<and> frames s1 \<noteq> [] \<and> r \<noteq> Inl Assertion_Failed \<and> (r = Inl Cpu_Exit \<longrightarrow> addedStates s1 = {})) \<and>
     (\<forall>s. in_klee s \<longrightarrow> in_klee (k_updateStates E s) \<and> frames (k_updateStates E s) = frames s)"

text \<open>A sequence of calls, with the cleanup that the processor loop does after an exit.\<close>

fun run_calls :: "('c, 'e, 'o, 'k) engine \<Rightarrow> (nat \<times> 'e list) list \<Rightarrow> ('c, 'e, 'o, 'k) world \<Rightarrow> ('c, 'e, 'o, 'k) world res option" where
  "run_calls E [] x = Some (Inr x)"
| "run_calls E ((f, args) # cs) x = (case executeFunction E f args x of
      None \<Rightarrow> None
    | Some (Inl e) \<Rightarrow> Some (Inl e)
    | Some (Inr (Returned (r, y))) \<Rightarrow> run_calls E cs y
    | Some (Inr (Cpu_Exits (r, y))) \<Rightarrow> (case cleanup_frames E (snd y) of
        Inl e \<Rightarrow> Some (Inl e) | Inr s \<Rightarrow> run_calls E cs (fst y, s)))"

definition run_ends :: "('c, 'e, 'o, 'k) engine \<Rightarrow> (bool \<times> ('e, 'o, 'k) run_state) res \<Rightarrow> bool" where
  "run_ends E r = (case r of Inl e \<Rightarrow> e \<noteq> Assertion_Failed
     | Inr (exits, s) \<Rightarrow> in_klee s \<and> frames s \<noteq> [] \<and> (\<not> exits \<longrightarrow> idle E s))"

lemma run_instructions_ends:
  fixes E :: "('c, 'e, 'o, 'k) engine"
  assumes laws: "step_laws E" and run: "run_instructions E 1 s = Some r" and s: "in_klee s" "frames s \<noteq> []"
  shows "run_ends E r"
proof -
  have "depth = 1 \<longrightarrow> step_laws E' \<longrightarrow> in_klee s \<longrightarrow> frames s \<noteq> [] \<longrightarrow> run_ends E' r"
    if "run_instructions E' depth s = Some r" for E' :: "('c, 'e, 'o, 'k) engine" and depth s r
  proof (rule run_instructions.raw_induct [where P = "\<lambda>E' depth s r. depth = 1 \<longrightarrow> step_laws E' \<longrightarrow> in_klee s \<longrightarrow> frames s \<noteq> [] \<longrightarrow> run_ends E' r",
        OF _ that], intro impI)
    fix run and E' :: "('c, 'e, 'o, 'k) engine" and depth s r
    assume ih: "\<And>E' depth s r. run E' depth s = Some r \<Longrightarrow> depth = 1 \<longrightarrow> step_laws E' \<longrightarrow> in_klee s \<longrightarrow> frames s \<noteq> [] \<longrightarrow> run_ends E' r"
      and body: "(if length (frames s) = depth then Some (Inr (False, if depth = 1 then s\<lparr>prevPC := None, pc := dummy_main E'\<rparr> else s))
        else (case k_step E' (pc s) s of
            (Inl Cpu_Exit, s1) \<Rightarrow> Some (rbind (assert_that (addedStates s1 = {})) (\<lambda>_. Inr (True, s1)))
          | (Inl e, s1) \<Rightarrow> Some (Inl e)
          | (Inr _, s1) \<Rightarrow> let s2 = k_updateStates E' s1 in
              if m_speculative (es s2) \<or> forkProcTerminate s2 then Some (Inl Assertion_Failed) else run E' depth s2)) = Some r"
      and a: "depth = 1" "step_laws E'" "in_klee s" "frames s \<noteq> []"
    show "run_ends E' r"
    proof (cases "length (frames s) = 1")
      case True
      then show ?thesis using body a by (auto simp: run_ends_def idle_def in_klee_def)
    next
      case False
      then have l: "1 < length (frames s)" using a(4) by (cases "frames s") auto
      obtain q s1 where q: "k_step E' (pc s) s = (q, s1)" by (cases "k_step E' (pc s) s")
      have st: "in_klee s1" "frames s1 \<noteq> []" "q \<noteq> Inl Assertion_Failed" "q = Inl Cpu_Exit \<longrightarrow> addedStates s1 = {}"
        "in_klee (k_updateStates E' s1)" "frames (k_updateStates E' s1) = frames s1"
        using a(2,3) q l unfolding step_laws_def by blast+
      show ?thesis
      proof (cases q)
        case (Inl e)
        then show ?thesis using body a(1) False q st by (cases e) (auto simp: run_ends_def)
      next
        case (Inr u)
        then have "run E' depth (k_updateStates E' s1) = Some r"
          using body a(1) False q st(5) by (auto simp: in_klee_def Let_def)
        then show ?thesis using ih a(1,2) st(2,5,6) by metis
      qed
    qed
  qed
  then show ?thesis using assms by blast
qed

lemma executeFunction_ends:
  assumes laws: "update_laws E" "step_laws E" and ok: "module_ok E km" "addresses_ok E km" "idle E s" "in_klee s"
    and x: "executeFunction E f args (km, s) = Some r"
  shows "case r of Inl e \<Rightarrow> e \<noteq> Assertion_Failed
    | Inr (Returned (v, km', s')) \<Rightarrow> module_ok E km' \<and> addresses_ok E km' \<and> functionMap km' f \<noteq> None \<and> idle E s' \<and> in_klee s'
    | Inr (Cpu_Exits (v, km', s')) \<Rightarrow> module_ok E km' \<and> addresses_ok E km' \<and> functionMap km' f \<noteq> None \<and> frames s' \<noteq> [] \<and> in_klee s'"
proof -
  obtain kf km1 where l: "load_function E f km = (kf, km1)" by (cases "load_function E f km")
  note m = load_function_ok [OF laws(1) ok(1,2) l]
  obtain s1 where p: "prepareFunctionExecution E f args (km, s) = (km1, s1)" and s1: "in_klee s1" "frames s1 \<noteq> []"
    using ok(4) l by (auto simp: prepareFunctionExecution_def in_klee_def)
  have guard: "\<not> (m_runningConcrete (ram (es s)) \<or> prevPC s \<noteq> None \<or> length (frames s) \<noteq> 1)" "length (frames s) = 1" "pc s = dummy_main E"
    using ok(3,4) by (auto simp: idle_def in_klee_def)
  obtain q where q: "run_instructions E 1 s1 = Some q" using x guard p
    by (cases "run_instructions E 1 s1") (auto simp: executeFunction_def Let_def)
  note e = run_instructions_ends [OF laws(2) q s1]
  show ?thesis
  proof (cases q)
    case (Inl err)
    then show ?thesis using x guard p q e by (auto simp: executeFunction_def run_ends_def)
  next
    case (Inr y)
    obtain exits s2 where y: "y = (exits, s2)" by (cases y)
    show ?thesis
    proof (cases exits)
      case True
      then have "r = Inr (Cpu_Exits (None, km1, s2))" using x guard p q Inr y by (simp add: executeFunction_def)
      then show ?thesis using e m Inr y by (simp add: run_ends_def)
    next
      case False
      then have i: "idle E s2" "in_klee s2" using e Inr y by (simp_all add: run_ends_def)
      then have same: "s2\<lparr>prevPC := None, pc := dummy_main E\<rparr> = s2" by (simp add: idle_def)
      have "r = Inr (Returned (result_of E f (s2\<lparr>prevPC := None, pc := dummy_main E\<rparr>), km1, s2\<lparr>prevPC := None, pc := dummy_main E\<rparr>))"
        using x guard p q Inr y False i(1) by (auto simp: executeFunction_def idle_def Let_def)
      then have "r = Inr (Returned (result_of E f s2, km1, s2))" unfolding same .
      then show ?thesis using m i by simp
    qed
  qed
qed


section \<open>Requests for symbolic execution\<close>

lemma pc_pid_frame:
  "getPc cf (st\<lparr>m_toRunSymbolically := r, m_startSymbexAtPC := p\<rparr>) = getPc cf st"
  "getPid cf (st\<lparr>m_toRunSymbolically := r, m_startSymbexAtPC := p\<rparr>) = getPid cf st"
  "getPc cf (st\<lparr>m_toRunSymbolically := r\<rparr>) = getPc cf st" "getPid cf (st\<lparr>m_toRunSymbolically := r\<rparr>) = getPid cf st"
  "getPc cf (st\<lparr>m_startSymbexAtPC := p\<rparr>) = getPc cf st" "getPid cf (st\<lparr>m_startSymbexAtPC := p\<rparr>) = getPid cf st"
  by (simp_all add: getPc_def getPid_def readCpuState_def system_bytes_def)

text \<open>A request for symbolic execution by \<open>jumpToSymbolicCpp\<close> is served once: the choice of the mode for the next
  block at the same program counter and address space is KLEE, whatever the stubbed-out test of the
  registers does, and the request is gone afterwards.\<close>

theorem jump_request_served:
  assumes "jumpToSymbolicCpp cf st = Inr (Cpu_Exits st')"
  shows "\<exists>pc pid. getPc cf st = Inr pc \<and> getPid cf st = Inr pid \<and> choose_mode opt fr cf st' =
    Inr (True, st\<lparr>m_startSymbexAtPC := - 1, m_toRunSymbolically := m_toRunSymbolically st - {(pc, pid)}\<rparr>)"
proof -
  obtain pc pid where p: "getPc cf st = Inr pc" "getPid cf st = Inr pid"
    and st': "st' = st\<lparr>m_toRunSymbolically := insert (pc, pid) (m_toRunSymbolically st), m_startSymbexAtPC := pc\<rparr>"
    using assms by (auto simp: jumpToSymbolicCpp_def rbind_Inr_iff split: if_splits)
  have "at_start_pc k cf st' = Inr (k \<or> pc \<noteq> - 1, st'\<lparr>m_startSymbexAtPC := - 1\<rparr>)" for k
    by (cases "pc = - 1") (simp_all add: at_start_pc_def st' pc_pid_frame p)
  moreover have "to_run_symbolically k cf (st'\<lparr>m_startSymbexAtPC := - 1\<rparr>) =
      Inr (True, st\<lparr>m_startSymbexAtPC := - 1, m_toRunSymbolically := m_toRunSymbolically st - {(pc, pid)}\<rparr>)" for k
    by (simp add: to_run_symbolically_def st' pc_pid_frame p)
  ultimately show ?thesis using p by (simp add: choose_mode_def)
qed

section \<open>A small interpreter\<close>

text \<open>Functions of one instruction that returns the argument: it stores it in register 0 of the caller.\<close>

definition return_step :: "nat \<Rightarrow> (sx, nat, nat \<Rightarrow> sx list) run_state \<Rightarrow> unit res \<times> (sx, nat, nat \<Rightarrow> sx list) run_state" where
  "return_step p s = (Inr (), case frames s of
     a # b # fs \<Rightarrow> s\<lparr>pc := fr_caller a, frames := b\<lparr>fr_locals := (fr_locals b)(0 := fr_locals a 0)\<rparr> # fs\<rparr> | _ \<Rightarrow> s)"

definition add_one :: "nat \<Rightarrow> (nat, sx) kmodule \<Rightarrow> kfunction \<times> (nat, sx) kmodule" where
  "add_one f km = (let kf = \<lparr>kf_entry = 100 + f, kf_instrs = [100 + f], kf_arg = id\<rparr> in
     (kf, km\<lparr>functionMap := (functionMap km)(f := Some kf), km_functions := f # km_functions km, km_constants := km_constants km @ [f]\<rparr>))"

definition return_engine :: "(nat, sx, nat, nat \<Rightarrow> sx list) engine" where
  "return_engine = \<lparr>k_update = add_one, k_weak = \<lambda>_. False, k_resolve = \<lambda>_. True, k_address = \<lambda>g. of_nat (1000 + g),
     k_eval = \<lambda>c. Num c 32, k_dest = \<lambda>_. 0, k_void = \<lambda>_. False, k_step = return_step, k_updateStates = id, dummy_main = 50\<rparr>"

definition empty_module :: "(nat, sx) kmodule" where
  "empty_module = \<lparr>functionMap = \<lambda>_. None, km_functions = [], km_names = \<lambda>_. None, km_constants = [], constantTable = [],
     boundInstructions = {}, globalAddresses = \<lambda>_. None, legalFunctions = {}\<rparr>"

definition idle_state :: "(sx, nat, nat \<Rightarrow> sx list) run_state" where
  "idle_state = \<lparr>es = arm_state False [], pc = 50, prevPC = None, frames = [\<lparr>fr_caller = 0, fr_function = 0, fr_locals = \<lambda>_. None\<rparr>],
     addedStates = {}, forkProcTerminate = False\<rparr>"

lemma return_laws: "update_laws return_engine" "step_laws return_engine"
  by (auto simp: update_laws_def step_laws_def return_engine_def add_one_def return_step_def in_klee_def Let_def split: list.splits)

lemma return_idle: "module_ok return_engine empty_module" "addresses_ok return_engine empty_module" "idle return_engine idle_state" "in_klee idle_state"
  by (simp_all add: module_ok_def addresses_ok_def idle_def in_klee_def idle_state_def empty_module_def return_engine_def arm_state_def
      S2EExecutionState_new_def zero_ram_def)

lemma return_run:
  assumes "frames s = [a, b]" "in_klee s"
  shows "run_instructions return_engine 1 s =
    Some (Inr (False, s\<lparr>prevPC := None, pc := 50, frames := [b\<lparr>fr_locals := (fr_locals b)(0 := fr_locals a 0)\<rparr>]\<rparr>))"
  using assms by (subst run_instructions.simps, subst run_instructions.simps) (simp add: return_engine_def return_step_def in_klee_def)

lemma return_call:
  assumes "idle return_engine s" "in_klee s"
  shows "\<exists>v km' s'. executeFunction return_engine f args (km, s) = Some (Inr (Returned (v, km', s')))"
proof -
  obtain b where b: "frames s = [b]" using assms(1) by (cases "frames s") (auto simp: idle_def)
  obtain kf km1 where l: "load_function return_engine f km = (kf, km1)" by (cases "load_function return_engine f km")
  let ?a = "\<lparr>fr_caller = pc s, fr_function = f, fr_locals = bind_arguments kf args (\<lambda>_. None)\<rparr>"
  let ?s = "s\<lparr>prevPC := Some (pc s), pc := kf_entry kf, frames := [?a, b]\<rparr>"
  have p: "prepareFunctionExecution return_engine f args (km, s) = (km1, ?s)" using b l by (simp add: prepareFunctionExecution_def)
  have r: "run_instructions return_engine 1 ?s = Some (Inr (False, ?s\<lparr>prevPC := None, pc := 50, frames := [b\<lparr>fr_locals := (fr_locals b)(0 := fr_locals ?a 0)\<rparr>]\<rparr>))"
    using assms(2) by (intro return_run) (simp_all add: in_klee_def)
  show ?thesis using assms b p r by (simp add: executeFunction_def idle_def in_klee_def Let_def)
qed


theorem jump_request_served_witness:
  "\<exists>st' st''. jumpToSymbolicCpp small_arm (arm_state True []) = Inr (Cpu_Exits st') \<and>
    choose_mode \<lparr>klee_ops = sx_ops, stale_store = \<lambda>_. 0, m_executeAlwaysKlee = False, m_forceConcretizations = False\<rparr> stubbed small_arm st' = Inr (True, st'')"
proof -
  obtain st' where "jumpToSymbolicCpp small_arm (arm_state True []) = Inr (Cpu_Exits st')"
    by (simp add: jumpToSymbolicCpp_def getPc_def getPid_def readCpuState_def small_arm_def system_bytes_def arm_state_def
        S2EExecutionState_new_def zero_ram_def valid_width_def min_bytes_def)
  with jump_request_served [OF this] show ?thesis by blast
qed

end
