(* ===== verification/Expr_Interface.thy ===== *)
theory Expr_Interface
  imports Cpu_State
begin

text \<open>
  The expression interface (\<open>ExprInterface.cpp\<close>), by which emulation code moves symbolic values between
  registers and memory without the interpreter: boxes with a constant or an expression, in the order in which
  the manager created them.
\<close>

section \<open>Boxes\<close>

text \<open>A box is known by its number in the manager. Its value is undefined until it is constant, its expression null until
  it is set.\<close>

record 'e ExprBox =
  box_constant :: bool
  box_value :: u64
  box_expr :: "'e option"

type_synonym 'e manager = "'e ExprBox list"

definition new_box :: "'e ExprBox" where
  "new_box = \<lparr>box_constant = False, box_value = 0, box_expr = None\<rparr>"

definition s2e_expr_mgr :: "'e manager" where "s2e_expr_mgr = []"

definition the_box :: "'e manager \<Rightarrow> nat \<Rightarrow> 'e ExprBox res" where
  "the_box mgr b = rbind (ensure_defined (b < length mgr)) (\<lambda>_. Inr (mgr ! b))"

definition s2e_expr_set :: "nat \<Rightarrow> u64 \<Rightarrow> 'e manager \<Rightarrow> 'e manager res" where
  "s2e_expr_set b constant mgr = rbind (the_box mgr b) (\<lambda>x. Inr (mgr[b := x\<lparr>box_value := constant, box_constant := True\<rparr>]))"

definition const_box :: "u64 \<Rightarrow> 'e ExprBox" where
  "const_box v = new_box\<lparr>box_value := v, box_constant := True\<rparr>"

text \<open>A null expression is dereferenced. \<open>e_and\<close> is KLEE's constructor.\<close>

definition s2e_expr_and ::
  "('e, 'o, 'k) klee_ops \<Rightarrow> ('e \<Rightarrow> 'e \<Rightarrow> 'e) \<Rightarrow> nat \<Rightarrow> u64 \<Rightarrow> 'e manager \<Rightarrow> (nat \<times> 'e manager) res" where
  "s2e_expr_and kl e_and b constant mgr = rbind (the_box mgr b) (\<lambda>box.
     rbind (if box_constant box then Inr (const_box (box_value box AND constant))
       else (case box_expr box of
           None \<Rightarrow> Inl Undefined_Behaviour
         | Some e \<Rightarrow> Inr (case e_value kl e of
             Some c \<Rightarrow> const_box (c AND constant)
           | None \<Rightarrow> new_box\<lparr>box_expr := Some (e_and e (e_const kl constant (e_width kl e)))\<rparr>))) (\<lambda>ret.
       Inr (length mgr, mgr @ [ret])))"

definition s2e_expr_to_constant ::
  "('e, 'o, 'k) klee_ops \<Rightarrow> nat \<Rightarrow> 'e manager \<Rightarrow> 'k \<Rightarrow> (u64 \<times> 'k) res" where
  "s2e_expr_to_constant kl b mgr k = rbind (the_box mgr b) (\<lambda>box.
     if box_constant box then Inr (box_value box, k)
     else (case box_expr box of None \<Rightarrow> Inl Undefined_Behaviour | Some e \<Rightarrow> Inr (to_constant kl e k)))"

text \<open>An expression of another width is cut or zero-extended.\<close>

definition s2e_expr_write_cpu ::
  "('e, 'o, 'k) klee_ops \<Rightarrow> cpu_conf \<Rightarrow> nat \<Rightarrow> nat \<Rightarrow> nat \<Rightarrow> 'e manager \<Rightarrow> ('e, 'o, 'k) exec_state \<Rightarrow> ('e, 'o, 'k) exec_state res" where
  "s2e_expr_write_cpu kl cf b off n mgr st = rbind (the_box mgr b) (\<lambda>box.
     if box_constant box then writeCpuRegister kl cf off (e_const kl (box_value box) (8 * n)) st
     else (case box_expr box of
         None \<Rightarrow> Inl Undefined_Behaviour
       | Some e \<Rightarrow> (let w = e_width kl e div 8 in
           writeCpuRegisterSymbolic kl cf off (if w = n then e else if n < w then e_extract kl e 0 (8 * n) else e_zext kl e (8 * n)) st)))"

definition box_of :: "('e, 'o, 'k) klee_ops \<Rightarrow> 'e \<Rightarrow> 'e ExprBox" where
  "box_of kl e = (case e_value kl e of None \<Rightarrow> new_box\<lparr>box_expr := Some e\<rparr>
     | Some c \<Rightarrow> new_box\<lparr>box_expr := Some e, box_constant := True, box_value := c\<rparr>)"

definition s2e_expr_read_cpu ::
  "('e, 'o, 'k) klee_ops \<Rightarrow> cpu_conf \<Rightarrow> nat \<Rightarrow> nat \<Rightarrow> 'e manager \<Rightarrow> ('e, 'o, 'k) exec_state \<Rightarrow> (nat \<times> 'e manager) res" where
  "s2e_expr_read_cpu kl cf off n mgr st =
     rbind (readCpuRegister kl cf off (8 * n) st) (\<lambda>e. Inr (length mgr, mgr @ [box_of kl e]))"

definition s2e_expr_read_mem_l ::
  "('e, 'o, 'k) klee_ops \<Rightarrow> qemu_ops \<Rightarrow> u64 \<Rightarrow> 'e manager \<Rightarrow> ('o, 'k) ram_state \<Rightarrow> (nat \<times> 'e manager \<times> ('o, 'k) ram_state) res" where
  "s2e_expr_read_mem_l kl q a mgr r =
     rbind (readMemory kl q a 32 VirtualAddress r) (\<lambda>(v, r'). case v of
        None \<Rightarrow> Inl Assertion_Failed | Some e \<Rightarrow> Inr (length mgr, mgr @ [box_of kl e], r'))"

section \<open>Masking a register\<close>

text \<open>What the emulation of a flag register does: read, mask and write back.\<close>

definition mask_register ::
  "('e, 'o, 'k) klee_ops \<Rightarrow> ('e \<Rightarrow> 'e \<Rightarrow> 'e) \<Rightarrow> cpu_conf \<Rightarrow> nat \<Rightarrow> nat \<Rightarrow> u64 \<Rightarrow> ('e, 'o, 'k) exec_state \<Rightarrow> ('e, 'o, 'k) exec_state res" where
  "mask_register kl e_and cf off n c st =
     rbind (s2e_expr_read_cpu kl cf off n s2e_expr_mgr st) (\<lambda>(b, mgr).
     rbind (s2e_expr_and kl e_and b c mgr) (\<lambda>(b', mgr'). s2e_expr_write_cpu kl cf b' off n mgr' st))"

definition and_laws :: "('e, 'o, 'k) klee_ops \<Rightarrow> ('e \<Rightarrow> 'm \<Rightarrow> nat) \<Rightarrow> ('e \<Rightarrow> 'e \<Rightarrow> 'e) \<Rightarrow> bool" where
  "and_laws kl ev e_and \<longleftrightarrow> (\<forall>a b m. ev (e_and a b) m = ev a m AND ev b m) \<and> (\<forall>a b. e_width kl (e_and a b) = e_width kl a)"

lemma register_width:
  "object_laws kl ev \<Longrightarrow> wide_laws kl ev \<Longrightarrow> registers_ok kl cf st bs \<Longrightarrow> n \<le> 8 \<Longrightarrow> off + n \<le> CPU_CONC_LIMIT cf \<Longrightarrow>
   readCpuRegister kl cf off (8 * n) st = Inr e \<Longrightarrow> e_width kl e = 8 * n"
  by (auto simp: readCpuRegister_eq object_laws_def wide_laws_def split: if_splits)

lemma write_symbolic_same:
  "\<not> m_runningConcrete (ram st) \<Longrightarrow> writeCpuRegisterSymbolic kl cf off v st = writeCpuRegister kl cf off v st"
  by (simp add: writeCpuRegisterSymbolic_def writeCpuRegister_def Let_def)

lemma and_take_bit: "(v :: nat) < 2 ^ k \<Longrightarrow> v AND unat (take_bit k c) = v AND unat (c :: u64)"
  by (simp add: unsigned_take_bit_eq bit_eq_iff bit_and_iff bit_take_bit_iff) (metis bit_take_bit_iff take_bit_nat_eq_self)

text \<open>The written value: the masked one, and a constant when the register is in shared memory.\<close>

lemma mask_register_write:
  assumes laws: "expr_laws kl ev" "object_laws kl ev" "wide_laws kl ev" "and_laws kl ev e_and" and ok: "registers_ok kl cf st bs"
    and n: "0 < n" "n \<le> 8" "off + n \<le> CPU_CONC_LIMIT cf" and e: "readCpuRegister kl cf off (8 * n) st = Inr e"
    and mode: "\<not> m_runningConcrete (ram st) \<or> isConcrete kl bs off (8 * n)"
  shows "\<exists>v. mask_register kl e_and cf off n c st = writeCpuRegister kl cf off v st \<and> e_width kl v = 8 * n \<and>
    (\<forall>m. ev v m = ev e m AND unat c) \<and> (\<not> m_runningConcrete (ram st) \<or> isConcrete kl bs off (8 * n) \<and> e_value kl v \<noteq> None)"
proof -
  have w: "e_width kl e = 8 * n" by (rule register_width [OF laws(2,3) ok n(2,3) e])
  have lt: "ev e m < 2 ^ (8 * n)" for m using laws(1) w unfolding expr_laws_def by metis
  show ?thesis
  proof (cases "e_value kl e")
    case (Some x)
    let ?v = "e_const kl (x AND c) (8 * n)"
    have ev: "ev e m = unat x" for m using laws(1) Some by (simp add: expr_laws_def)
    have "ev ?v m = ev e m AND unat c" for m
    proof -
      have "unat (take_bit (8 * n) (x AND c)) = take_bit (8 * n) (unat x) AND unat c"
        by (simp add: unsigned_take_bit_eq unsigned_and_eq take_bit_and bit_eq_iff bit_simps) blast
      then show ?thesis using wide_const(1) [OF laws(3) n(2)] ev lt [of m] by (simp add: take_bit_nat_eq_self)
    qed
    moreover have "mask_register kl e_and cf off n c st = writeCpuRegister kl cf off ?v st"
      by (simp add: mask_register_def s2e_expr_read_cpu_def e s2e_expr_mgr_def s2e_expr_and_def the_box_def box_of_def Some
          s2e_expr_write_cpu_def const_box_def new_box_def)
    ultimately show ?thesis using laws(3) mode n(2) wide_const(2) [OF laws(3) n(2)] by (intro exI [of _ ?v]) (auto simp: wide_laws_def)
  next
    case None
    let ?v = "e_and e (e_const kl c (8 * n))"
    have run: "\<not> m_runningConcrete (ram st)"
    proof
      assume r: "m_runningConcrete (ram st)"
      then have "\<not> in_object kl st bs off n" using mode by (simp add: in_object_def)
      then have "e = e_const kl (le_word (take n (drop off (cpu_registers st)))) (8 * n)"
        using readCpuRegister_eq [OF ok n(2,3)] e by simp
      then show False using None wide_const(2) [OF laws(3) n(2)] by simp
    qed
    have "ev ?v m = ev e m AND unat c" for m
      using laws(4) wide_const(1) [OF laws(3) n(2)] and_take_bit [OF lt] by (simp add: and_laws_def)
    moreover have wv: "e_width kl ?v = 8 * n" using laws(4) w by (simp add: and_laws_def)
    moreover have "mask_register kl e_and cf off n c st = writeCpuRegister kl cf off ?v st"
      using wv w by (simp add: mask_register_def s2e_expr_read_cpu_def e s2e_expr_mgr_def s2e_expr_and_def the_box_def box_of_def None
          s2e_expr_write_cpu_def new_box_def write_symbolic_same [OF run])
    ultimately show ?thesis using run by blast
  qed
qed

text \<open>Reading a register through the interface, masking it and writing it back gives the register the bitwise conjunction
  of its value, symbolic or not, with the mask, and leaves all other registers as they are: in symbolic mode for every register, in
  concrete mode for registers without a symbolic byte.\<close>

theorem mask_register_masks:
  assumes laws: "expr_laws kl ev" "object_laws kl ev" "wide_laws kl ev" "and_laws kl ev e_and" and ok: "registers_ok kl cf st bs"
    and n: "0 < n" "n \<le> 8" "off + n \<le> CPU_CONC_LIMIT cf" and mode: "\<not> m_runningConcrete (ram st) \<or> isConcrete kl bs off (8 * n)"
  shows "\<exists>st' e e'. mask_register kl e_and cf off n c st = Inr st' \<and> readCpuRegister kl cf off (8 * n) st = Inr e \<and>
    readCpuRegister kl cf off (8 * n) st' = Inr e' \<and> (\<forall>m. ev e' m = ev e m AND unat c) \<and>
    (\<forall>off' n'. 0 < n' \<longrightarrow> n' \<le> 8 \<longrightarrow> off' + n' \<le> CPU_CONC_LIMIT cf \<longrightarrow> off' + n' \<le> off \<or> off + n \<le> off' \<longrightarrow>
      (\<exists>e1 e2. readCpuRegister kl cf off' (8 * n') st = Inr e1 \<and> readCpuRegister kl cf off' (8 * n') st' = Inr e2 \<and> (\<forall>m. ev e2 m = ev e1 m)))"
proof -
  obtain e where e: "readCpuRegister kl cf off (8 * n) st = Inr e"
    using readCpuRegister_eq [OF ok n(2,3)] by (cases "in_object kl st bs off n") auto
  obtain v where v: "mask_register kl e_and cf off n c st = writeCpuRegister kl cf off v st" "e_width kl v = 8 * n"
    "\<And>m. ev v m = ev e m AND unat c" "\<not> m_runningConcrete (ram st) \<or> isConcrete kl bs off (8 * n) \<and> e_value kl v \<noteq> None"
    using mask_register_write [OF laws ok n e mode] by blast
  from register_write_read [OF laws(1-3) ok n v(2,4)] obtain st' e' where
    "writeCpuRegister kl cf off v st = Inr st'" "readCpuRegister kl cf off (8 * n) st' = Inr e'" "\<forall>m. ev e' m = ev v m"
    "\<forall>off' n'. 0 < n' \<longrightarrow> n' \<le> 8 \<longrightarrow> off' + n' \<le> CPU_CONC_LIMIT cf \<longrightarrow> off' + n' \<le> off \<or> off + n \<le> off' \<longrightarrow>
      (\<exists>e1 e2. readCpuRegister kl cf off' (8 * n') st = Inr e1 \<and> readCpuRegister kl cf off' (8 * n') st' = Inr e2 \<and> (\<forall>m. ev e2 m = ev e1 m))"
    by (elim exE conjE)
  then show ?thesis using v(1,3) e by (intro exI [of _ st'] exI [of _ e] exI [of _ e'] conjI) simp_all
qed

text \<open>The emulation may also make the value concrete, which adds the constraint that KLEE's \<open>toConstant\<close> adds.\<close>

lemma expr_to_constant_of_set:
  "b < length mgr \<Longrightarrow> s2e_expr_set b c mgr = Inr mgr' \<Longrightarrow> s2e_expr_to_constant kl b mgr' k = Inr (c, k)"
  by (auto simp: s2e_expr_set_def s2e_expr_to_constant_def the_box_def)

section \<open>A register with symbolic bytes\<close>

lemma sx_and_laws: "and_laws sx_ops sx_eval Both"
proof -
  have "(sx_eval a m AND sx_eval b m) mod 2 ^ sx_width a = sx_eval a m AND sx_eval b m" for a b m
  proof -
    have x: "sx_eval a m AND mask (sx_width a) = sx_eval a m"
      using take_bit_nat_eq_self [OF sx_eval_less [of a m]] by (simp add: take_bit_eq_mask)
    have "(sx_eval a m AND sx_eval b m) AND mask (sx_width a) = (sx_eval a m AND mask (sx_width a)) AND sx_eval b m"
      by (simp only: ac_simps)
    then have "take_bit (sx_width a) (sx_eval a m AND sx_eval b m) = sx_eval a m AND sx_eval b m"
      by (simp only: x take_bit_eq_mask)
    then show ?thesis by (simp add: take_bit_eq_mod)
  qed
  then show ?thesis by (simp add: and_laws_def sx_ops_def)
qed

text \<open>The second word is symbolic.\<close>

theorem mask_register_masks_witness:
  "\<exists>st' e e'. mask_register sx_ops Both small_arm 8 4 0xFFFFFFDF (arm_state False []) = Inr st' \<and>
    readCpuRegister sx_ops small_arm 8 (8 * 4) (arm_state False []) = Inr e \<and> readCpuRegister sx_ops small_arm 8 (8 * 4) st' = Inr e' \<and>
    (\<forall>m. sx_eval e' m = sx_eval e m AND 0xFFFFFFDF)"
proof -
  have "(8 :: nat) + 4 \<le> CPU_CONC_LIMIT small_arm" by (simp add: small_arm_def)
  with mask_register_masks [OF sx_expr_laws sx_object_laws sx_wide_laws sx_and_laws arm_sx_ok [of False "[]"], of 4 8 "0xFFFFFFDF"]
  show ?thesis by fastforce
qed

end
