(* ===== verification/State_Switch.thy ===== *)
theory State_Switch
  imports Executor_Setup
begin

text \<open>
  What happens to the memory of the machine when the executor leaves one execution state for another
  and when it splits a state (\<open>S2EExecutor::doStateSwitch\<close>, \<open>notifyBranch\<close> and
  \<open>S2EExecutionState::clone\<close>). QEMU has one host memory; a state keeps its own copy of the objects
  in \<open>m_saveOnContextSwitch\<close>, which are copied out of host memory for the state that is left and into it for
  the state that is entered. Every one of the three routines contains fragments that are replaced by a failing
  assertion. The fragments are arguments here; with \<open>stubs_off\<close>, the assertions, the routines fail.
\<close>

section \<open>State\<close>

text \<open>
  \<open>exec_of\<close> are the execution states by number, \<open>device_of\<close> their snapshots of devices,
  \<open>dirty_object\<close> is \<open>m_dirtyMaskObject\<close>, \<open>last_tb\<close> is \<open>m_lastS2ETb\<close> and \<open>tb_refs\<close> the reference counts, \<open>plugin_data\<close> the states of plugins.
\<close>

datatype switch_event = Block_Flush | Ticks_Off | Ticks_On | Tb_Flush

record ('e, 'o, 'k, 'd, 'p) machine =
  host_memory :: "u64 \<Rightarrow> u8"
  exec_of :: "nat \<Rightarrow> ('e, 'o, 'k) exec_state"
  device_of :: "nat \<Rightarrow> 'd"
  dirty_object :: "nat \<Rightarrow> 'o"
  last_tb :: "nat \<Rightarrow> nat option"
  tb_refs :: "nat \<Rightarrow> nat"
  plugin_data :: "nat \<Rightarrow> (nat \<times> 'p) list"
  lastStateId :: u32
  g_s2e_disable_tlb_flush :: bool
  switch_log :: "switch_event list"

record ('e, 'o, 'k, 'd, 'p) switch_ops =
  flush_requests :: "('e, 'o, 'k, 'd, 'p) machine \<Rightarrow> ('e, 'o, 'k, 'd, 'p) machine res"
  save_timers :: "nat \<Rightarrow> ('e, 'o, 'k, 'd, 'p) machine \<Rightarrow> ('e, 'o, 'k, 'd, 'p) machine res"
  activate :: "nat \<Rightarrow> ('e, 'o, 'k, 'd, 'p) machine \<Rightarrow> ('e, 'o, 'k, 'd, 'p) machine res"
  clear_tlb :: "nat \<Rightarrow> ('e, 'o, 'k, 'd, 'p) machine \<Rightarrow> ('e, 'o, 'k, 'd, 'p) machine res"
  copy_timers :: "nat \<Rightarrow> ('e, 'o, 'k, 'd, 'p) machine \<Rightarrow> ('e, 'o, 'k, 'd, 'p) machine res"
  save_devices :: "nat \<Rightarrow> ('e, 'o, 'k, 'd, 'p) machine \<Rightarrow> ('e, 'o, 'k, 'd, 'p) machine res"
  as_clone :: "'k \<Rightarrow> 'k \<times> 'k"
  clone_plugin :: "'p \<Rightarrow> 'p"

text \<open>The fragments as they are in this version.\<close>

definition stubs_off ::
  "('e, 'o, 'k, 'd, 'p) switch_ops \<Rightarrow> ('e, 'o, 'k, 'd, 'p) switch_ops" where
  "stubs_off F = F\<lparr>flush_requests := (\<lambda>m. Inl Assertion_Failed), save_timers := (\<lambda>s m. Inl Assertion_Failed),
     activate := (\<lambda>s m. Inl Assertion_Failed), clear_tlb := (\<lambda>s m. Inl Assertion_Failed),
     copy_timers := (\<lambda>s m. Inl Assertion_Failed)\<rparr>"

section \<open>Copies\<close>

definition host_bytes :: "(u64 \<Rightarrow> u8) \<Rightarrow> u64 \<Rightarrow> nat \<Rightarrow> u8 list" where
  "host_bytes h a n = map (\<lambda>i. h (a + of_nat i)) [0..<n]"

definition put_host :: "u64 \<Rightarrow> u8 list \<Rightarrow> (u64 \<Rightarrow> u8) \<Rightarrow> u64 \<Rightarrow> u8" where
  "put_host a bs h x = (if unat (x - a) < length bs then bs ! unat (x - a) else h x)"

text \<open>\<open>getConcreteStore\<close>: null when a byte is symbolic.\<close>

definition getConcreteStore :: "('e, 'o, 'k) klee_ops \<Rightarrow> 'e list \<Rightarrow> u8 list option" where
  "getConcreteStore kl bs = those (map (\<lambda>b. map_option ucast (e_value kl b)) bs)"

definition store_host ::
  "('e, 'o, 'k) klee_ops \<Rightarrow> (u64 \<Rightarrow> u8) \<Rightarrow> mem_object \<Rightarrow> ('o, 'k) ram_state \<Rightarrow> ('o, 'k) ram_state res" where
  "store_host kl h mo r = (case as_find kl (mo_address mo) (klee r) of
     None \<Rightarrow> Inl Undefined_Behaviour
   | Some (_, os) \<Rightarrow> rbind (getWriteable kl mo os r) (\<lambda>(wos, r').
       rbind (assert_that (getConcreteStore kl (as_bytes kl wos (klee r')) \<noteq> None)) (\<lambda>_.
         Inr (r'\<lparr>klee := as_update kl wos (map (\<lambda>b. e_const kl (ucast b) 8) (host_bytes h (mo_address mo) (mo_size mo))) (klee r')\<rparr>))))"

definition load_host ::
  "('e, 'o, 'k) klee_ops \<Rightarrow> mem_object \<Rightarrow> ('o, 'k) ram_state \<Rightarrow> (u64 \<Rightarrow> u8) \<Rightarrow> (u64 \<Rightarrow> u8) res" where
  "load_host kl mo r h = (case as_find kl (mo_address mo) (klee r) of
     None \<Rightarrow> Inl Undefined_Behaviour
   | Some (_, os) \<Rightarrow> (case getConcreteStore kl (as_bytes kl os (klee r)) of
       None \<Rightarrow> Inl Assertion_Failed
     | Some bs \<Rightarrow> Inr (put_host (mo_address mo) (take (mo_size mo) bs) h)))"

definition set_ram ::
  "nat \<Rightarrow> ('o, 'k) ram_state \<Rightarrow> ('e, 'o, 'k, 'd, 'p) machine \<Rightarrow> ('e, 'o, 'k, 'd, 'p) machine" where
  "set_ram s r m = m\<lparr>exec_of := (exec_of m)(s := (exec_of m s)\<lparr>ram := r\<rparr>)\<rparr>"

definition store_object ::
  "('e, 'o, 'k) klee_ops \<Rightarrow> mem_object \<Rightarrow> nat \<Rightarrow> ('e, 'o, 'k, 'd, 'p) machine \<Rightarrow> ('e, 'o, 'k, 'd, 'p) machine res" where
  "store_object kl mo s m =
     rbind (store_host kl (host_memory m) mo (ram (exec_of m s))) (\<lambda>r. Inr (set_ram s r m))"

definition load_object ::
  "('e, 'o, 'k) klee_ops \<Rightarrow> mem_object \<Rightarrow> nat \<Rightarrow> ('e, 'o, 'k, 'd, 'p) machine \<Rightarrow> ('e, 'o, 'k, 'd, 'p) machine res" where
  "load_object kl mo s m =
     rbind (load_host kl mo (ram (exec_of m s)) (host_memory m)) (\<lambda>h. Inr (m\<lparr>host_memory := h\<rparr>))"

text \<open>The loop over \<open>m_saveOnContextSwitch\<close>; the concrete part of the processor is left out.\<close>

fun copy_objects ::
  "('e, 'o, 'k) klee_ops \<Rightarrow> mem_object \<Rightarrow> nat option \<Rightarrow> nat option \<Rightarrow> mem_object list \<Rightarrow>
   ('e, 'o, 'k, 'd, 'p) machine \<Rightarrow> ('e, 'o, 'k, 'd, 'p) machine res" where
  "copy_objects kl cpuMo old new [] m = Inr m"
| "copy_objects kl cpuMo old new (mo # mos) m =
     (if mo = cpuMo then copy_objects kl cpuMo old new mos m
      else rbind (case old of None \<Rightarrow> Inr m | Some s \<Rightarrow> store_object kl mo s m) (\<lambda>m1.
           rbind (case new of None \<Rightarrow> Inr m1 | Some s \<Rightarrow> load_object kl mo s m1) (\<lambda>m2.
             copy_objects kl cpuMo old new mos m2)))"

section \<open>Switching states\<close>

definition cpu_mo :: "cpu_conf \<Rightarrow> mem_object" where
  "cpu_mo cf = \<lparr>mo_address = cpu_address cf + of_nat (CPU_CONC_LIMIT cf), mo_size = CPU_SIZE cf - CPU_CONC_LIMIT cf,
     isUserSpecified = True, isSharedConcrete = True\<rparr>"

definition logged :: "switch_event list \<Rightarrow> ('e, 'o, 'k, 'd, 'p) machine \<Rightarrow> ('e, 'o, 'k, 'd, 'p) machine" where
  "logged es m = m\<lparr>switch_log := switch_log m @ es\<rparr>"

text \<open>Host memory has the registers of the state that runs; they enter its record when the mode is switched.\<close>

definition leave_concrete ::
  "('e, 'o, 'k) klee_ops \<Rightarrow> cpu_conf \<Rightarrow> nat \<Rightarrow> ('e, 'o, 'k, 'd, 'p) machine \<Rightarrow> ('e, 'o, 'k, 'd, 'p) machine res" where
  "leave_concrete kl cf s m =
     (if m_runningConcrete (ram (exec_of m s)) then
        rbind (switchToSymbolic kl ((exec_of m s)\<lparr>cpu_registers := host_bytes (host_memory m) (cpu_address cf) (CPU_CONC_LIMIT cf)\<rparr>))
          (\<lambda>st. Inr (m\<lparr>exec_of := (exec_of m)(s := st)\<rparr>))
      else Inr m)"

definition save_cpu :: "cpu_conf \<Rightarrow> nat \<Rightarrow> ('e, 'o, 'k, 'd, 'p) machine \<Rightarrow> ('e, 'o, 'k, 'd, 'p) machine" where
  "save_cpu cf s m = m\<lparr>exec_of := (exec_of m)(s := (exec_of m s)\<lparr>m_cpuSystemObject :=
     host_bytes (host_memory m) (mo_address (cpu_mo cf)) (mo_size (cpu_mo cf))\<rparr>)\<rparr>"

definition deactivate :: "nat \<Rightarrow> ('e, 'o, 'k, 'd, 'p) machine \<Rightarrow> ('e, 'o, 'k, 'd, 'p) machine" where
  "deactivate s m = set_ram s ((ram (exec_of m s))\<lparr>m_active := False\<rparr>) m"

definition leave_state ::
  "('e, 'o, 'k) klee_ops \<Rightarrow> cpu_conf \<Rightarrow> ('e, 'o, 'k, 'd, 'p) switch_ops \<Rightarrow> nat \<Rightarrow>
   ('e, 'o, 'k, 'd, 'p) machine \<Rightarrow> ('e, 'o, 'k, 'd, 'p) machine res" where
  "leave_state kl cf F s m =
     rbind (leave_concrete kl cf s m) (\<lambda>m1.
     rbind (save_devices F s m1) (\<lambda>m2.
     rbind (save_timers F s m2) (\<lambda>m3. Inr (deactivate s (save_cpu cf s m3)))))"

definition doStateSwitch_body ::
  "('e, 'o, 'k) klee_ops \<Rightarrow> cpu_conf \<Rightarrow> ('e, 'o, 'k, 'd, 'p) switch_ops \<Rightarrow> bool \<Rightarrow> mem_object list \<Rightarrow> nat option \<Rightarrow> nat option \<Rightarrow>
   ('e, 'o, 'k, 'd, 'p) machine \<Rightarrow> ('e, 'o, 'k, 'd, 'p) machine res" where
  "doStateSwitch_body kl cf F flushTbs save old new m =
     rbind (assert_that (old \<noteq> None \<or> new \<noteq> None)) (\<lambda>_.
     rbind (assert_that (case old of None \<Rightarrow> True | Some s \<Rightarrow> m_active (ram (exec_of m s)))) (\<lambda>_.
     rbind (assert_that (case new of None \<Rightarrow> True | Some s \<Rightarrow> \<not> m_active (ram (exec_of m s)))) (\<lambda>_.
     rbind (assert_that (case new of None \<Rightarrow> True | Some s \<Rightarrow> \<not> m_runningConcrete (ram (exec_of m s)))) (\<lambda>_.
     rbind (flush_requests F (m\<lparr>g_s2e_disable_tlb_flush := True\<rparr>)) (\<lambda>m1.
     rbind (case old of None \<Rightarrow> Inr (logged [Block_Flush, Ticks_Off] m1)
             | Some s \<Rightarrow> leave_state kl cf F s (logged [Block_Flush, Ticks_Off] m1)) (\<lambda>m2.
     rbind (case new of None \<Rightarrow> Inr m2 | Some s \<Rightarrow> activate F s m2) (\<lambda>m3.
     rbind (copy_objects kl (cpu_mo cf) old new save m3) (\<lambda>m4.
       Inr ((logged (Ticks_On # (if flushTbs then [Tb_Flush] else [])) m4)\<lparr>g_s2e_disable_tlb_flush := False\<rparr>)))))))))"

section \<open>Splitting a state\<close>

text \<open>The loop before a split does not leave out the concrete part of the processor, whose object is
  \<open>m_cpuSystemObject\<close>: it is copied twice.\<close>

definition store_saved ::
  "('e, 'o, 'k) klee_ops \<Rightarrow> cpu_conf \<Rightarrow> nat \<Rightarrow> mem_object \<Rightarrow> ('e, 'o, 'k, 'd, 'p) machine \<Rightarrow> ('e, 'o, 'k, 'd, 'p) machine res" where
  "store_saved kl cf s mo m = (if mo = cpu_mo cf then Inr (save_cpu cf s m) else store_object kl mo s m)"

fun store_objects ::
  "('e, 'o, 'k) klee_ops \<Rightarrow> cpu_conf \<Rightarrow> nat \<Rightarrow> mem_object list \<Rightarrow> ('e, 'o, 'k, 'd, 'p) machine \<Rightarrow> ('e, 'o, 'k, 'd, 'p) machine res" where
  "store_objects kl cf s [] m = Inr m"
| "store_objects kl cf s (mo # mos) m = rbind (store_saved kl cf s mo m) (store_objects kl cf s mos)"

definition notifyBranch ::
  "('e, 'o, 'k) klee_ops \<Rightarrow> cpu_conf \<Rightarrow> ('e, 'o, 'k, 'd, 'p) switch_ops \<Rightarrow> mem_object list \<Rightarrow> nat \<Rightarrow>
   ('e, 'o, 'k, 'd, 'p) machine \<Rightarrow> ('e, 'o, 'k, 'd, 'p) machine res" where
  "notifyBranch kl cf F save s m =
     rbind (flush_requests F m) (\<lambda>m1.
     rbind (save_devices F s (logged [Ticks_Off] (save_cpu cf s (logged [Block_Flush] m1)))) (\<lambda>m2.
     rbind (save_timers F s m2) (\<lambda>m3. store_objects kl cf s save (logged [Ticks_On] m3))))"

text \<open>
  \<open>clone\<close>: \<open>c\<close> is the new object, a copy of the state with an address space that shares all objects. The objects
  of registers are values here, so that only the object of the dirty mask has to be made writable.
\<close>

definition own_dirty ::
  "('e, 'o, 'k) klee_ops \<Rightarrow> mem_object \<Rightarrow> nat \<Rightarrow> ('e, 'o, 'k, 'd, 'p) machine \<Rightarrow> ('e, 'o, 'k, 'd, 'p) machine res" where
  "own_dirty kl dm s m =
     rbind (getWriteable kl dm (dirty_object m s) (ram (exec_of m s))) (\<lambda>(os, r).
       Inr (set_ram s r (m\<lparr>dirty_object := (dirty_object m)(s := os)\<rparr>)))"

definition copy_state ::
  "('e, 'o, 'k, 'd, 'p) switch_ops \<Rightarrow> nat \<Rightarrow> nat \<Rightarrow> ('e, 'o, 'k, 'd, 'p) machine \<Rightarrow> ('e, 'o, 'k, 'd, 'p) machine" where
  "copy_state F s c m =
     (case as_clone F (klee (ram (exec_of m s))) of (k1, k2) \<Rightarrow>
        let st = exec_of m s in
        m\<lparr>exec_of := (exec_of m)(s := st\<lparr>ram := (ram st)\<lparr>klee := k1\<rparr>\<rparr>, c := st\<lparr>ram := (ram st)\<lparr>klee := k2\<rparr>\<rparr>),
          device_of := (device_of m)(c := device_of m s), dirty_object := (dirty_object m)(c := dirty_object m s),
          last_tb := (last_tb m)(c := last_tb m s), plugin_data := (plugin_data m)(c := plugin_data m s)\<rparr>)"

definition count_tb :: "nat \<Rightarrow> ('e, 'o, 'k, 'd, 'p) machine \<Rightarrow> ('e, 'o, 'k, 'd, 'p) machine" where
  "count_tb s m = (case last_tb m s of None \<Rightarrow> m | Some tb \<Rightarrow> m\<lparr>tb_refs := (tb_refs m)(tb := tb_refs m tb + 1)\<rparr>)"

definition number_state :: "nat \<Rightarrow> ('e, 'o, 'k, 'd, 'p) machine \<Rightarrow> ('e, 'o, 'k, 'd, 'p) machine" where
  "number_state c m = m\<lparr>exec_of := (exec_of m)(c := (exec_of m c)\<lparr>m_stateID := unat (lastStateId m)\<rparr>), lastStateId := lastStateId m + 1\<rparr>"

definition clone_plugins ::
  "('e, 'o, 'k, 'd, 'p) switch_ops \<Rightarrow> nat \<Rightarrow> nat \<Rightarrow> ('e, 'o, 'k, 'd, 'p) machine \<Rightarrow> ('e, 'o, 'k, 'd, 'p) machine" where
  "clone_plugins F s c m = m\<lparr>plugin_data := (plugin_data m)(c := map (\<lambda>(p, d). (p, clone_plugin F d)) (plugin_data m s))\<rparr>"

definition clone ::
  "('e, 'o, 'k) klee_ops \<Rightarrow> ('e, 'o, 'k, 'd, 'p) switch_ops \<Rightarrow> bool \<Rightarrow> mem_object \<Rightarrow> nat \<Rightarrow> nat \<Rightarrow>
   ('e, 'o, 'k, 'd, 'p) machine \<Rightarrow> ('e, 'o, 'k, 'd, 'p) machine res" where
  "clone kl F cpu_registered dm s c m =
     rbind (assert_that (m_active (ram (exec_of m s)) \<and> cpu_registered)) (\<lambda>_.
     rbind (clear_tlb F s m) (\<lambda>m1.
     rbind (copy_timers F c (number_state c (count_tb s (copy_state F s c m1)))) (\<lambda>m2.
     rbind (own_dirty kl dm c (clone_plugins F s c m2)) (\<lambda>m3. own_dirty kl dm s m3))))"

text \<open>In this version the three routines fail whenever they get to the first fragment.\<close>

lemma switch_stubbed:
  "doStateSwitch_body kl cf (stubs_off F) tbs save old new m = Inl Assertion_Failed"
  "notifyBranch kl cf (stubs_off F) save s m = Inl Assertion_Failed"
  "clone kl (stubs_off F) reg dm s c m = Inl Assertion_Failed"
  by (auto simp: doStateSwitch_body_def notifyBranch_def clone_def stubs_off_def assert_that_def split: option.splits)

section \<open>Laws\<close>

text \<open>Copy on write: the new object state has the bytes of the old one, and takes its place.\<close>

definition copy_law :: "('e, 'o, 'k) klee_ops \<Rightarrow> bool" where
  "copy_law kl \<longleftrightarrow> (\<forall>mo os k os' k' a. as_copy kl mo os k = (os', k') \<and> as_find kl a k = Some (mo, os) \<longrightarrow>
     as_bytes kl os' k' = as_bytes kl os k \<and> as_owned kl os' k' \<and>
     (\<forall>x. x \<noteq> os' \<longrightarrow> as_bytes kl x k' = as_bytes kl x k \<and> as_owned kl x k' = as_owned kl x k) \<and>
     (\<forall>b. as_find kl b k' = (if as_find kl b k = Some (mo, os) then Some (mo, os') else as_find kl b k)) \<and>
     (\<forall>b mo2. as_find kl b k \<noteq> Some (mo2, os')))"

definition switch_laws :: "('e, 'o, 'k) klee_ops \<Rightarrow> bool" where
  "switch_laws kl \<longleftrightarrow> space_laws kl \<and> copy_law kl \<and> (\<forall>b :: u8. e_value kl (e_const kl (ucast b) 8) = Some (ucast b))"

definition clone_law :: "('e, 'o, 'k) klee_ops \<Rightarrow> ('k \<Rightarrow> 'k \<times> 'k) \<Rightarrow> bool" where
  "clone_law kl cl \<longleftrightarrow> (\<forall>k k1 k2. cl k = (k1, k2) \<longrightarrow>
     (\<forall>a. as_find kl a k1 = as_find kl a k \<and> as_find kl a k2 = as_find kl a k) \<and>
     (\<forall>os. as_bytes kl os k1 = as_bytes kl os k \<and> as_bytes kl os k2 = as_bytes kl os k))"

text \<open>A fragment that works on devices and timers only, and the activation of a state.\<close>

definition quiet :: "(('e, 'o, 'k, 'd, 'p) machine \<Rightarrow> ('e, 'o, 'k, 'd, 'p) machine res) \<Rightarrow> bool" where
  "quiet f \<longleftrightarrow> (\<forall>m. \<exists>d l. f m = Inr (m\<lparr>device_of := d, switch_log := l\<rparr>))"

definition activates ::
  "mem_object set \<Rightarrow> (nat \<Rightarrow> ('e, 'o, 'k, 'd, 'p) machine \<Rightarrow> ('e, 'o, 'k, 'd, 'p) machine res) \<Rightarrow> bool" where
  "activates S f \<longleftrightarrow> (\<forall>s m. \<exists>h d l. f s m =
       Inr (set_ram s ((ram (exec_of m s))\<lparr>m_active := True\<rparr>) (m\<lparr>host_memory := h, device_of := d, switch_log := l\<rparr>)) \<and>
     (\<forall>mo\<in>S. host_bytes h (mo_address mo) (mo_size mo) = host_bytes (host_memory m) (mo_address mo) (mo_size mo)))"

definition fragments_ok :: "mem_object set \<Rightarrow> ('e, 'o, 'k, 'd, 'p) switch_ops \<Rightarrow> bool" where
  "fragments_ok S F \<longleftrightarrow> quiet (flush_requests F) \<and> (\<forall>s. quiet (save_timers F s)) \<and> (\<forall>s. quiet (clear_tlb F s)) \<and>
     (\<forall>s. quiet (copy_timers F s)) \<and> (\<forall>s. quiet (save_devices F s)) \<and> activates S (activate F)"

section \<open>Objects of a state\<close>

text \<open>An object can be saved when it is concrete and either writable at once or no object of RAM, whose copying
  ends in the assertion of \<open>addressSpaceChange\<close>.\<close>

definition object_ok :: "('e, 'o, 'k) klee_ops \<Rightarrow> ('o, 'k) ram_state \<Rightarrow> mem_object \<Rightarrow> bool" where
  "object_ok kl r mo \<longleftrightarrow> (\<exists>os bs. as_find kl (mo_address mo) (klee r) = Some (mo, os) \<and>
     getConcreteStore kl (as_bytes kl os (klee r)) = Some bs \<and> length bs = mo_size mo \<and>
     (as_owned kl os (klee r) \<or> mo_size mo \<noteq> RAM_OBJECT_SIZE \<and> pool_get None (mo_address mo) (m_memcache r) = Inr None))"

definition space_ok :: "('e, 'o, 'k) klee_ops \<Rightarrow> mem_object set \<Rightarrow> ('o, 'k) ram_state \<Rightarrow> bool" where
  "space_ok kl S r \<longleftrightarrow> (\<forall>mo\<in>S. object_ok kl r mo) \<and>
     (\<forall>a b mo mo' os. as_find kl a (klee r) = Some (mo, os) \<and> as_find kl b (klee r) = Some (mo', os) \<longrightarrow> mo = mo')"

definition object_store :: "('e, 'o, 'k) klee_ops \<Rightarrow> ('o, 'k) ram_state \<Rightarrow> mem_object \<Rightarrow> u8 list option" where
  "object_store kl r mo = (case as_find kl (mo_address mo) (klee r) of
     None \<Rightarrow> None | Some (_, os) \<Rightarrow> getConcreteStore kl (as_bytes kl os (klee r)))"

text \<open>The memory of an object in the host, and objects that do not overlap.\<close>

abbreviation host_of :: "(u64 \<Rightarrow> u8) \<Rightarrow> mem_object \<Rightarrow> u8 list" where
  "host_of h mo \<equiv> host_bytes h (mo_address mo) (mo_size mo)"

definition separate :: "mem_object set \<Rightarrow> bool" where
  "separate S \<longleftrightarrow> (\<forall>mo\<in>S. mo_size mo < 2 ^ 64) \<and> (\<forall>mo\<in>S. \<forall>mo'\<in>S. mo \<noteq> mo' \<longrightarrow>
     (\<forall>i<mo_size mo. \<forall>j<mo_size mo'. mo_address mo + of_nat i \<noteq> mo_address mo' + of_nat j))"

section \<open>Copying one object\<close>

lemma host_bytes_nth: "i < n \<Longrightarrow> host_bytes h a n ! i = h (a + of_nat i)"
  by (simp add: host_bytes_def)

lemma length_host_bytes [simp]: "length (host_bytes h a n) = n"
  by (simp add: host_bytes_def)

lemma host_of_put_same: "length bs = mo_size mo \<Longrightarrow> mo_size mo < 2 ^ 64 \<Longrightarrow> host_of (put_host (mo_address mo) bs h) mo = bs"
  by (rule nth_equalityI) (simp_all add: host_bytes_nth put_host_def unat_of_nat take_bit_nat_eq_self)

lemma host_of_put_other:
  assumes "separate S" "mo \<in> S" "mo' \<in> S" "mo \<noteq> mo'" "length bs = mo_size mo"
  shows "host_of (put_host (mo_address mo) bs h) mo' = host_of h mo'"
proof (rule nth_equalityI)
  fix j assume "j < length (host_of (put_host (mo_address mo) bs h) mo')"
  then have j: "j < mo_size mo'" by simp
  let ?x = "mo_address mo' + of_nat j"
  have "\<not> unat (?x - mo_address mo) < length bs"
  proof
    assume lt: "unat (?x - mo_address mo) < length bs"
    have "mo_address mo + of_nat (unat (?x - mo_address mo)) = ?x" by simp
    with assms j lt show False unfolding separate_def by metis
  qed
  then show "host_of (put_host (mo_address mo) bs h) mo' ! j = host_of h mo' ! j"
    using j by (simp add: host_bytes_nth put_host_def)
qed simp

lemma store_of_host:
  assumes "switch_laws kl"
  shows "getConcreteStore kl (map (\<lambda>b. e_const kl (ucast b) 8) bs) = Some bs"
proof -
  have "(ucast (ucast b :: u64) :: u8) = b" for b by (rule bit_word_eqI) (simp add: bit_simps)
  moreover have "e_value kl (e_const kl (ucast b) 8) = Some (ucast b)" for b :: u8
    using assms by (simp add: switch_laws_def)
  ultimately show ?thesis by (induction bs) (simp_all add: getConcreteStore_def)
qed

text \<open>Objects that may be written at once stay where they are.\<close>

definition kept :: "('e, 'o, 'k) klee_ops \<Rightarrow> 'k \<Rightarrow> 'k \<Rightarrow> bool" where
  "kept kl k k' \<longleftrightarrow> (\<forall>a mo os. as_find kl a k = Some (mo, os) \<and> as_owned kl os k \<longrightarrow>
     as_find kl a k' = Some (mo, os) \<and> as_owned kl os k')"

lemma kept_refl [simp]: "kept kl k k"
  by (simp add: kept_def)

lemma kept_trans: "kept kl k k' \<Longrightarrow> kept kl k' k'' \<Longrightarrow> kept kl k k''"
  unfolding kept_def by blast

text \<open>The object of a state is made writable without a change of what the state sees.\<close>

lemma writable_object:
  assumes laws: "switch_laws kl" and ok: "space_ok kl S r" and found: "as_find kl (mo_address mo) (klee r) = Some (mo, os)"
    and w: "as_owned kl os (klee r) \<or> mo_size mo \<noteq> RAM_OBJECT_SIZE \<and> pool_get None (mo_address mo) (m_memcache r) = Inr None"
  shows "\<exists>wos k. getWriteable kl mo os r = Inr (wos, r\<lparr>klee := k\<rparr>) \<and> space_ok kl S (r\<lparr>klee := k\<rparr>) \<and>
    as_find kl (mo_address mo) k = Some (mo, wos) \<and> as_bytes kl wos k = as_bytes kl os (klee r) \<and> as_owned kl wos k \<and>
    (\<forall>mo'. object_store kl (r\<lparr>klee := k\<rparr>) mo' = object_store kl r mo') \<and> kept kl (klee r) k"
proof (cases "as_owned kl os (klee r)")
  case True
  then show ?thesis using found ok by (intro exI [of _ os] exI [of _ "klee r"]) (simp add: getWriteable_def)
next
  case False
  obtain os' k where c: "as_copy kl mo os (klee r) = (os', k)" by fastforce
  from laws have "copy_law kl" by (simp add: switch_laws_def)
  note cl = this [unfolded copy_law_def, rule_format, OF conjI, OF c found]
  have bytes: "as_bytes kl os' k = as_bytes kl os (klee r)" and own: "as_owned kl os' k"
    and other: "\<And>x. x \<noteq> os' \<Longrightarrow> as_bytes kl x k = as_bytes kl x (klee r) \<and> as_owned kl x k = as_owned kl x (klee r)"
    and fnd: "\<And>b. as_find kl b k = (if as_find kl b (klee r) = Some (mo, os) then Some (mo, os') else as_find kl b (klee r))"
    and fresh: "\<And>b mo2. as_find kl b (klee r) \<noteq> Some (mo2, os')" using cl by auto
  have run: "getWriteable kl mo os r = Inr (os', r\<lparr>klee := k\<rparr>)"
    using False w c by (simp add: getWriteable_def addressSpaceChange_def)
  have store: "object_store kl (r\<lparr>klee := k\<rparr>) mo' = object_store kl r mo'" for mo'
  proof (cases "as_find kl (mo_address mo') (klee r)")
    case (Some y)
    then have "snd y \<noteq> os'" using fresh [of "mo_address mo'" "fst y"] by auto
    then show ?thesis using Some other [of "snd y"] by (cases y) (auto simp: object_store_def fnd bytes)
  qed (simp add: object_store_def fnd)
  have one: "as_find kl a (klee r) = Some (m1, x) \<Longrightarrow> as_find kl b (klee r) = Some (m2, x) \<Longrightarrow> m1 = m2" for a b m1 m2 x
    using ok unfolding space_ok_def by blast
  have obj: "object_ok kl (r\<lparr>klee := k\<rparr>) mo'" if "object_ok kl r mo'" for mo'
  proof -
    from that obtain x bs where x: "as_find kl (mo_address mo') (klee r) = Some (mo', x)"
      "getConcreteStore kl (as_bytes kl x (klee r)) = Some bs" "length bs = mo_size mo'"
      "as_owned kl x (klee r) \<or> mo_size mo' \<noteq> RAM_OBJECT_SIZE \<and> pool_get None (mo_address mo') (m_memcache r) = Inr None"
      unfolding object_ok_def by blast
    show ?thesis
    proof (cases "(mo', x) = (mo, os)")
      case True
      then show ?thesis using x bytes own by (simp add: object_ok_def fnd)
    next
      case False
      then have f: "as_find kl (mo_address mo') k = Some (mo', x)" using x(1) by (auto simp: fnd)
      have "x \<noteq> os'" using fresh x(1) by blast
      then show ?thesis using x f other by (simp add: object_ok_def)
    qed
  qed
  have "space_ok kl S (r\<lparr>klee := k\<rparr>)"
    unfolding space_ok_def
  proof (intro conjI ballI allI impI; (elim conjE)?)
    fix mo' assume "mo' \<in> S" then show "object_ok kl (r\<lparr>klee := k\<rparr>) mo'" using ok obj by (simp add: space_ok_def)
  next
    fix a b m1 m2 x assume "as_find kl a (klee (r\<lparr>klee := k\<rparr>)) = Some (m1, x)" "as_find kl b (klee (r\<lparr>klee := k\<rparr>)) = Some (m2, x)"
    then show "m1 = m2" using one fresh by (auto simp: fnd split: if_splits)
  qed
  moreover have "kept kl (klee r) k"
    unfolding kept_def
  proof (intro allI impI; elim conjE)
    fix a mo2 x assume x: "as_find kl a (klee r) = Some (mo2, x)" "as_owned kl x (klee r)"
    then have "x \<noteq> os'" "x \<noteq> os" using fresh False by auto
    then show "as_find kl a k = Some (mo2, x) \<and> as_owned kl x k" using x other by (simp add: fnd)
  qed
  ultimately show ?thesis using run bytes own store fnd found by (intro exI [of _ os'] exI [of _ k]) simp
qed

lemma store_host_ok:
  assumes laws: "switch_laws kl" and ok: "space_ok kl S r" and mo: "mo \<in> S"
  shows "\<exists>k. store_host kl h mo r = Inr (r\<lparr>klee := k\<rparr>) \<and> space_ok kl S (r\<lparr>klee := k\<rparr>) \<and>
    (\<forall>mo'\<in>S. object_store kl (r\<lparr>klee := k\<rparr>) mo' = (if mo' = mo then Some (host_of h mo) else object_store kl r mo')) \<and>
    kept kl (klee r) k"
proof -
  obtain os bs where os: "as_find kl (mo_address mo) (klee r) = Some (mo, os)" "getConcreteStore kl (as_bytes kl os (klee r)) = Some bs"
    "as_owned kl os (klee r) \<or> mo_size mo \<noteq> RAM_OBJECT_SIZE \<and> pool_get None (mo_address mo) (m_memcache r) = Inr None"
    using ok mo unfolding space_ok_def object_ok_def by blast
  obtain wos k where w: "getWriteable kl mo os r = Inr (wos, r\<lparr>klee := k\<rparr>)" "space_ok kl S (r\<lparr>klee := k\<rparr>)"
    "as_find kl (mo_address mo) k = Some (mo, wos)" "as_bytes kl wos k = as_bytes kl os (klee r)" "as_owned kl wos k"
    "\<And>mo'. object_store kl (r\<lparr>klee := k\<rparr>) mo' = object_store kl r mo'" "kept kl (klee r) k"
    using writable_object [OF laws ok os(1,3)] by blast
  let ?v = "map (\<lambda>b. e_const kl (ucast b) 8) (host_of h mo)"
  let ?k = "as_update kl wos ?v k"
  have sp: "as_bytes kl x ?k = (if x = wos then ?v else as_bytes kl x k)" "as_find kl a ?k = as_find kl a k"
    "as_owned kl x ?k = as_owned kl x k" for x a using laws by (simp_all add: switch_laws_def space_laws_def)
  have v: "getConcreteStore kl ?v = Some (host_of h mo)" by (rule store_of_host [OF laws])
  have "\<forall>a b mo mo' os. as_find kl a k = Some (mo, os) \<and> as_find kl b k = Some (mo', os) \<longrightarrow> mo = mo'"
    using w(2) by (simp add: space_ok_def)
  then have one: "as_find kl a k = Some (mo', wos) \<Longrightarrow> mo' = mo" for a mo' using w(3) by blast
  have obj: "object_ok kl (r\<lparr>klee := ?k\<rparr>) mo'" if "object_ok kl (r\<lparr>klee := k\<rparr>) mo'" for mo'
    using that v one unfolding object_ok_def by (auto simp: sp)
  have "space_ok kl S (r\<lparr>klee := ?k\<rparr>)"
    using w(2) obj unfolding space_ok_def by (simp add: sp)
  moreover have "object_store kl (r\<lparr>klee := ?k\<rparr>) mo' = (if mo' = mo then Some (host_of h mo) else object_store kl r mo')"
    if "mo' \<in> S" for mo'
  proof (cases "mo' = mo")
    case True
    then show ?thesis using w(3) v by (simp add: object_store_def sp)
  next
    case False
    have "object_ok kl (r\<lparr>klee := k\<rparr>) mo'" using w(2) that unfolding space_ok_def by blast
    then obtain x where x: "as_find kl (mo_address mo') k = Some (mo', x)" unfolding object_ok_def by auto
    with False one have "x \<noteq> wos" by blast
    then have "object_store kl (r\<lparr>klee := ?k\<rparr>) mo' = object_store kl (r\<lparr>klee := k\<rparr>) mo'" using x by (simp add: object_store_def sp)
    with False w(6) show ?thesis by simp
  qed
  moreover have "kept kl (klee r) ?k" using w(7) unfolding kept_def by (simp only: sp)
  ultimately show ?thesis using os(1,2) w(1,4) by (intro exI [of _ ?k]) (simp add: store_host_def)
qed

lemma load_host_ok:
  assumes ok: "space_ok kl S r" and mo: "mo \<in> S"
  shows "\<exists>bs. object_store kl r mo = Some bs \<and> length bs = mo_size mo \<and> load_host kl mo r h = Inr (put_host (mo_address mo) bs h)"
proof -
  obtain os bs where os: "as_find kl (mo_address mo) (klee r) = Some (mo, os)" "getConcreteStore kl (as_bytes kl os (klee r)) = Some bs"
    "length bs = mo_size mo" using ok mo unfolding space_ok_def object_ok_def by blast
  then show ?thesis by (intro exI [of _ bs]) (simp add: object_store_def load_host_def)
qed

section \<open>Copying all objects\<close>

text \<open>The objects of \<open>S\<close>, which are those that are saved but the concrete part of the processor.\<close>

lemma copy_objects_ok:
  fixes m :: "('e, 'o, 'k, 'd, 'p) machine"
  assumes laws: "switch_laws kl" and sep: "separate S" and ab: "a \<noteq> b"
    and b: "space_ok kl S (ram (exec_of m b))"
  shows "space_ok kl S (ram (exec_of m a)) \<Longrightarrow> set mos - {cpuMo} \<subseteq> S \<Longrightarrow> distinct mos \<Longrightarrow>
    \<exists>k h. copy_objects kl cpuMo (Some a) (Some b) mos m =
        Inr (set_ram a ((ram (exec_of m a))\<lparr>klee := k\<rparr>) (m\<lparr>host_memory := h\<rparr>)) \<and>
      space_ok kl S ((ram (exec_of m a))\<lparr>klee := k\<rparr>) \<and>
      (\<forall>mo\<in>S. object_store kl ((ram (exec_of m a))\<lparr>klee := k\<rparr>) mo =
         (if mo \<in> set mos - {cpuMo} then Some (host_of (host_memory m) mo) else object_store kl (ram (exec_of m a)) mo)) \<and>
      (\<forall>mo\<in>S. host_of h mo =
         (if mo \<in> set mos - {cpuMo} then the (object_store kl (ram (exec_of m b)) mo) else host_of (host_memory m) mo))"
  using b
proof (induction mos arbitrary: m)
  case Nil
  then show ?case by (intro exI [of _ "klee (ram (exec_of m a))"] exI [of _ "host_memory m"]) (simp add: set_ram_def)
next
  case (Cons mo mos)
  show ?case
  proof (cases "mo = cpuMo")
    case True
    then have eq: "set (mo # mos) - {cpuMo} = set mos - {cpuMo}"
      "copy_objects kl cpuMo (Some a) (Some b) (mo # mos) m = copy_objects kl cpuMo (Some a) (Some b) mos m" by auto
    have "set mos - {cpuMo} \<subseteq> S" "distinct mos" using Cons.prems(2,3) by auto
    then show ?thesis unfolding eq using Cons.IH [OF Cons.prems(1) _ _ Cons.prems(4)] by blast
  next
    case False
    let ?ra = "ram (exec_of m a)" let ?rb = "ram (exec_of m b)" let ?h = "host_memory m"
    have mo: "mo \<in> S" "mo \<notin> set mos" using Cons.prems(2,3) False by auto
    obtain k1 where k1: "store_host kl ?h mo ?ra = Inr (?ra\<lparr>klee := k1\<rparr>)" "space_ok kl S (?ra\<lparr>klee := k1\<rparr>)"
      "\<forall>mo'\<in>S. object_store kl (?ra\<lparr>klee := k1\<rparr>) mo' = (if mo' = mo then Some (host_of ?h mo) else object_store kl ?ra mo')"
      using store_host_ok [OF laws Cons.prems(1) mo(1)] by blast
    obtain bs where bs: "object_store kl ?rb mo = Some bs" "length bs = mo_size mo" "\<And>h. load_host kl mo ?rb h = Inr (put_host (mo_address mo) bs h)"
      using load_host_ok [OF Cons.prems(4) mo(1)] by (metis option.inject)
    let ?h1 = "put_host (mo_address mo) bs ?h"
    let ?m1 = "(set_ram a (?ra\<lparr>klee := k1\<rparr>) m)\<lparr>host_memory := ?h1\<rparr>"
    have step: "copy_objects kl cpuMo (Some a) (Some b) (mo # mos) m = copy_objects kl cpuMo (Some a) (Some b) mos ?m1"
      using False k1(1) bs(3) ab by (simp add: store_object_def load_object_def set_ram_def)
    have same: "ram (exec_of ?m1 a) = ?ra\<lparr>klee := k1\<rparr>" "ram (exec_of ?m1 b) = ?rb" "host_memory ?m1 = ?h1"
      using ab by (simp_all add: set_ram_def)
    have host1: "host_of ?h1 mo' = (if mo' = mo then bs else host_of ?h mo')" if "mo' \<in> S" for mo'
      using host_of_put_same [OF bs(2)] host_of_put_other [OF sep mo(1) that _ bs(2)] sep mo(1) by (auto simp: separate_def)
    have "set mos - {cpuMo} \<subseteq> S" "distinct mos" using Cons.prems(2,3) by auto
    with Cons.IH [of ?m1, unfolded same] k1(2) Cons.prems(4) obtain k h where
      r: "copy_objects kl cpuMo (Some a) (Some b) mos ?m1 = Inr (set_ram a (?ra\<lparr>klee := k1\<rparr>\<lparr>klee := k\<rparr>) (?m1\<lparr>host_memory := h\<rparr>))"
      "space_ok kl S (?ra\<lparr>klee := k1\<rparr>\<lparr>klee := k\<rparr>)"
      "\<forall>mo\<in>S. object_store kl (?ra\<lparr>klee := k1\<rparr>\<lparr>klee := k\<rparr>) mo =
         (if mo \<in> set mos - {cpuMo} then Some (host_of ?h1 mo) else object_store kl (?ra\<lparr>klee := k1\<rparr>) mo)"
      "\<forall>mo\<in>S. host_of h mo = (if mo \<in> set mos - {cpuMo} then the (object_store kl ?rb mo) else host_of ?h1 mo)" by blast
    have "set_ram a (?ra\<lparr>klee := k1\<rparr>\<lparr>klee := k\<rparr>) (?m1\<lparr>host_memory := h\<rparr>) = set_ram a (?ra\<lparr>klee := k\<rparr>) (m\<lparr>host_memory := h\<rparr>)"
      by (simp add: set_ram_def)
    with r(1) step have run: "copy_objects kl cpuMo (Some a) (Some b) (mo # mos) m = Inr (set_ram a (?ra\<lparr>klee := k\<rparr>) (m\<lparr>host_memory := h\<rparr>))"
      by simp
    have "object_store kl (?ra\<lparr>klee := k\<rparr>) mo' = (if mo' \<in> set (mo # mos) - {cpuMo} then Some (host_of ?h mo') else object_store kl ?ra mo')"
      "host_of h mo' = (if mo' \<in> set (mo # mos) - {cpuMo} then the (object_store kl ?rb mo') else host_of ?h mo')" if "mo' \<in> S" for mo'
      using r(3,4) that k1(3) host1 [OF that] False mo(2) bs(1) by auto
    with run r(2) show ?thesis by (intro exI [of _ k] exI [of _ h]) simp
  qed
qed

section \<open>Leaving and entering a state\<close>

lemma space_ok_cong: "klee r' = klee r \<Longrightarrow> m_memcache r' = m_memcache r \<Longrightarrow> space_ok kl S r' \<longleftrightarrow> space_ok kl S r"
  by (simp add: space_ok_def object_ok_def)

lemma object_store_cong: "klee r' = klee r \<Longrightarrow> object_store kl r' mo = object_store kl r mo"
  by (simp add: object_store_def split: option.splits)

lemma activatesE:
  assumes "activates S f"
  obtains h d l where "f s m = Inr (set_ram s ((ram (exec_of m s))\<lparr>m_active := True\<rparr>) (m\<lparr>host_memory := h, device_of := d, switch_log := l\<rparr>))"
    "\<forall>mo\<in>S. host_of h mo = host_of (host_memory m) mo"
  using assms unfolding activates_def by blast

lemma quietE:
  assumes "quiet f" obtains d l where "f m = Inr (m\<lparr>device_of := d, switch_log := l\<rparr>)"
  using assms unfolding quiet_def by blast

lemma leave_concrete_ok:
  assumes "m_cpuRegistersObject (exec_of m s) \<noteq> None"
  shows "\<exists>st. leave_concrete kl cf s m = Inr (m\<lparr>exec_of := (exec_of m)(s := st)\<rparr>) \<and> m_cpuRegistersObject st \<noteq> None \<and>
    ram st = (ram (exec_of m s))\<lparr>m_runningConcrete := False\<rparr>"
proof (cases "m_runningConcrete (ram (exec_of m s))")
  case True
  with assms show ?thesis by (auto simp: leave_concrete_def switchToSymbolic_def registers_object_def)
next
  case False
  then have "(ram (exec_of m s))\<lparr>m_runningConcrete := False\<rparr> = ram (exec_of m s)" by simp
  with assms False show ?thesis by (intro exI [of _ "exec_of m s"]) (simp add: leave_concrete_def)
qed

lemma leave_state_ok:
  assumes frag: "fragments_ok S F" and reg: "m_cpuRegistersObject (exec_of m s) \<noteq> None"
  shows "\<exists>st d l. leave_state kl cf F s m = Inr (m\<lparr>exec_of := (exec_of m)(s := st), device_of := d, switch_log := l\<rparr>) \<and>
    ram st = (ram (exec_of m s))\<lparr>m_active := False, m_runningConcrete := False\<rparr> \<and> m_cpuRegistersObject st \<noteq> None \<and>
    m_cpuSystemObject st = host_of (host_memory m) (cpu_mo cf)"
proof -
  obtain st where st: "leave_concrete kl cf s m = Inr (m\<lparr>exec_of := (exec_of m)(s := st)\<rparr>)" "m_cpuRegistersObject st \<noteq> None"
    "ram st = (ram (exec_of m s))\<lparr>m_runningConcrete := False\<rparr>" using leave_concrete_ok [OF reg] by blast
  let ?m1 = "m\<lparr>exec_of := (exec_of m)(s := st)\<rparr>"
  have q: "quiet (save_devices F s)" "quiet (save_timers F s)" using frag by (simp_all add: fragments_ok_def)
  obtain d l where d: "save_devices F s ?m1 = Inr (?m1\<lparr>device_of := d, switch_log := l\<rparr>)" using quietE [OF q(1)] by blast
  obtain d' l' where t: "save_timers F s (?m1\<lparr>device_of := d, switch_log := l\<rparr>) =
    Inr (?m1\<lparr>device_of := d, switch_log := l\<rparr>\<lparr>device_of := d', switch_log := l'\<rparr>)" using quietE [OF q(2)] by blast
  let ?st = "st\<lparr>m_cpuSystemObject := host_of (host_memory m) (cpu_mo cf), ram := (ram st)\<lparr>m_active := False\<rparr>\<rparr>"
  have "leave_state kl cf F s m = Inr (m\<lparr>exec_of := (exec_of m)(s := ?st), device_of := d', switch_log := l'\<rparr>)"
    using st(1) d t by (simp add: leave_state_def deactivate_def save_cpu_def set_ram_def)
  then show ?thesis using st(2,3) by (intro exI [of _ ?st] exI [of _ d'] exI [of _ l']) simp
qed

definition can_leave :: "('e, 'o, 'k) klee_ops \<Rightarrow> mem_object set \<Rightarrow> ('e, 'o, 'k) exec_state \<Rightarrow> bool" where
  "can_leave kl S st \<longleftrightarrow> m_active (ram st) \<and> m_cpuRegistersObject st \<noteq> None \<and> space_ok kl S (ram st)"

definition can_enter :: "('e, 'o, 'k) klee_ops \<Rightarrow> mem_object set \<Rightarrow> ('e, 'o, 'k) exec_state \<Rightarrow> bool" where
  "can_enter kl S st \<longleftrightarrow> \<not> m_active (ram st) \<and> \<not> m_runningConcrete (ram st) \<and> m_cpuRegistersObject st \<noteq> None \<and>
     space_ok kl S (ram st)"

lemma switch_ok:
  fixes m :: "('e, 'o, 'k, 'd, 'p) machine"
  assumes laws: "switch_laws kl" "fragments_ok (set save - {cpu_mo cf}) F" and sep: "separate (set save - {cpu_mo cf})" "distinct save"
    and a: "can_leave kl (set save - {cpu_mo cf}) (exec_of m a)" and b: "can_enter kl (set save - {cpu_mo cf}) (exec_of m b)"
  shows "\<exists>m'. doStateSwitch_body kl cf F tbs save (Some a) (Some b) m = Inr m' \<and>
    can_enter kl (set save - {cpu_mo cf}) (exec_of m' a) \<and> can_leave kl (set save - {cpu_mo cf}) (exec_of m' b) \<and>
    m_cpuSystemObject (exec_of m' a) = host_of (host_memory m) (cpu_mo cf) \<and>
    (\<forall>mo\<in>set save - {cpu_mo cf}. object_store kl (ram (exec_of m' a)) mo = Some (host_of (host_memory m) mo) \<and>
       object_store kl (ram (exec_of m b)) mo = Some (host_of (host_memory m') mo))"
proof -
  let ?S = "set save - {cpu_mo cf}"
  have ab: "a \<noteq> b" using a b by (auto simp: can_leave_def can_enter_def)
  have fr: "quiet (flush_requests F)" "activates ?S (activate F)" using laws(2) by (simp_all add: fragments_ok_def)
  let ?m0 = "m\<lparr>g_s2e_disable_tlb_flush := True\<rparr>"
  obtain d1 l1 where f1: "flush_requests F ?m0 = Inr (?m0\<lparr>device_of := d1, switch_log := l1\<rparr>)" using quietE [OF fr(1)] by blast
  let ?m1 = "logged [Block_Flush, Ticks_Off] (?m0\<lparr>device_of := d1, switch_log := l1\<rparr>)"
  have e1: "exec_of ?m1 = exec_of m" "host_memory ?m1 = host_memory m" by (simp_all add: logged_def)
  have "m_cpuRegistersObject (exec_of ?m1 a) \<noteq> None" using a by (simp add: can_leave_def logged_def)
  from leave_state_ok [OF laws(2) this] obtain st d2 l2 where
    lv: "leave_state kl cf F a ?m1 = Inr (?m1\<lparr>exec_of := (exec_of m)(a := st), device_of := d2, switch_log := l2\<rparr>)"
    "ram st = (ram (exec_of m a))\<lparr>m_active := False, m_runningConcrete := False\<rparr>" "m_cpuRegistersObject st \<noteq> None"
    "m_cpuSystemObject st = host_of (host_memory m) (cpu_mo cf)" unfolding e1 by blast
  let ?m2 = "?m1\<lparr>exec_of := (exec_of m)(a := st), device_of := d2, switch_log := l2\<rparr>"
  obtain h d3 l3 where ac: "activate F b ?m2 = Inr (set_ram b ((ram (exec_of ?m2 b))\<lparr>m_active := True\<rparr>)
      (?m2\<lparr>host_memory := h, device_of := d3, switch_log := l3\<rparr>))"
    "\<forall>mo\<in>?S. host_of h mo = host_of (host_memory ?m2) mo"
    by (rule activatesE [OF fr(2), of b ?m2]) (rule that)
  then have ac2: "\<forall>mo\<in>?S. host_of h mo = host_of (host_memory m) mo" by (simp add: logged_def)
  let ?m3 = "set_ram b ((ram (exec_of ?m2 b))\<lparr>m_active := True\<rparr>) (?m2\<lparr>host_memory := h, device_of := d3, switch_log := l3\<rparr>)"
  have e3: "exec_of ?m3 a = st" "exec_of ?m3 b = (exec_of m b)\<lparr>ram := (ram (exec_of m b))\<lparr>m_active := True\<rparr>\<rparr>" "host_memory ?m3 = h"
    using ab by (simp_all add: set_ram_def)
  have spa: "space_ok kl ?S (ram st)"
    by (rule space_ok_cong [where r = "ram (exec_of m a)", THEN iffD2]) (use a lv(2) in \<open>simp_all add: can_leave_def\<close>)
  have spb: "space_ok kl ?S ((ram (exec_of m b))\<lparr>m_active := True\<rparr>)"
    by (rule space_ok_cong [where r = "ram (exec_of m b)", THEN iffD2]) (use b in \<open>simp_all add: can_enter_def\<close>)
  have sp: "space_ok kl ?S (ram (exec_of ?m3 a))" "space_ok kl ?S (ram (exec_of ?m3 b))"
    unfolding e3 using spa spb by simp_all
  obtain k h' where cp: "copy_objects kl (cpu_mo cf) (Some a) (Some b) save ?m3 = Inr (set_ram a ((ram st)\<lparr>klee := k\<rparr>) (?m3\<lparr>host_memory := h'\<rparr>))"
    "space_ok kl ?S ((ram st)\<lparr>klee := k\<rparr>)"
    "\<forall>mo\<in>?S. object_store kl ((ram st)\<lparr>klee := k\<rparr>) mo = Some (host_of h mo)"
    "\<forall>mo\<in>?S. host_of h' mo = the (object_store kl (ram (exec_of ?m3 b)) mo)"
    using copy_objects_ok [OF laws(1) sep(1) ab sp(2,1) subset_refl sep(2)] unfolding e3 by auto
  let ?m4 = "set_ram a ((ram st)\<lparr>klee := k\<rparr>) (?m3\<lparr>host_memory := h'\<rparr>)"
  let ?m5 = "(logged (Ticks_On # (if tbs then [Tb_Flush] else [])) ?m4)\<lparr>g_s2e_disable_tlb_flush := False\<rparr>"
  have run: "doStateSwitch_body kl cf F tbs save (Some a) (Some b) m = Inr ?m5"
    using a b f1 lv(1) ac(1) cp(1) by (simp add: doStateSwitch_body_def can_leave_def can_enter_def)
  have e5: "exec_of ?m5 a = st\<lparr>ram := (ram st)\<lparr>klee := k\<rparr>\<rparr>" "exec_of ?m5 b = (exec_of m b)\<lparr>ram := (ram (exec_of m b))\<lparr>m_active := True\<rparr>\<rparr>" "host_memory ?m5 = h'"
    using ab by (simp_all add: set_ram_def logged_def)
  have "can_enter kl ?S (exec_of ?m5 a)" using cp(2) lv(2,3) unfolding e5 by (simp add: can_enter_def)
  moreover have "can_leave kl ?S (exec_of ?m5 b)" using spb b unfolding e5(2) by (simp add: can_leave_def can_enter_def)
  moreover have "object_store kl (ram (exec_of m b)) mo = Some (host_of h' mo)" if mo: "mo \<in> ?S" for mo
  proof -
    have "object_store kl (ram (exec_of ?m3 b)) mo = object_store kl (ram (exec_of m b)) mo" unfolding e3(2) by (rule object_store_cong) simp
    with cp(4) mo have h: "host_of h' mo = the (object_store kl (ram (exec_of m b)) mo)" by metis
    have "space_ok kl ?S (ram (exec_of m b))" using b by (simp add: can_enter_def)
    from load_host_ok [OF this mo, of h] show ?thesis unfolding h by auto
  qed
  moreover have "\<forall>mo\<in>?S. object_store kl (ram (exec_of ?m5 a)) mo = Some (host_of (host_memory m) mo)" unfolding e5(1) using cp(3) ac2 by simp
  ultimately show ?thesis using run e5 lv(4) by (intro exI [of _ ?m5]) simp
qed


section \<open>A split and the first switch to the new state\<close>

lemma store_objects_ok:
  fixes m :: "('e, 'o, 'k, 'd, 'p) machine"
  assumes laws: "switch_laws kl"
  shows "space_ok kl S (ram (exec_of m s)) \<Longrightarrow> set mos - {cpu_mo cf} \<subseteq> S \<Longrightarrow>
    m_cpuSystemObject (exec_of m s) = host_of (host_memory m) (cpu_mo cf) \<Longrightarrow>
    \<exists>k. store_objects kl cf s mos m = Inr (set_ram s ((ram (exec_of m s))\<lparr>klee := k\<rparr>) m) \<and>
      space_ok kl S ((ram (exec_of m s))\<lparr>klee := k\<rparr>) \<and> kept kl (klee (ram (exec_of m s))) k \<and>
      (\<forall>mo\<in>S. object_store kl ((ram (exec_of m s))\<lparr>klee := k\<rparr>) mo =
         (if mo \<in> set mos - {cpu_mo cf} then Some (host_of (host_memory m) mo) else object_store kl (ram (exec_of m s)) mo))"
proof (induction mos arbitrary: m)
  case Nil
  then show ?case by (intro exI [of _ "klee (ram (exec_of m s))"]) (simp add: set_ram_def)
next
  case (Cons mo mos)
  let ?r = "ram (exec_of m s)"
  have mos: "set mos - {cpu_mo cf} \<subseteq> S" using Cons.prems(2) by auto
  show ?case
  proof (cases "mo = cpu_mo cf")
    case True
    then have eq: "set (mo # mos) - {cpu_mo cf} = set mos - {cpu_mo cf}" by auto
    have "save_cpu cf s m = m" using Cons.prems(3) by (simp add: save_cpu_def flip: Cons.prems(3))
    then have "store_objects kl cf s (mo # mos) m = store_objects kl cf s mos m" using True by (simp add: store_saved_def)
    then show ?thesis unfolding eq using Cons.IH [OF Cons.prems(1) mos Cons.prems(3)] by simp
  next
    case False
    have mo: "mo \<in> S" using Cons.prems(2) False by auto
    obtain k1 where k1: "store_host kl (host_memory m) mo ?r = Inr (?r\<lparr>klee := k1\<rparr>)" "space_ok kl S (?r\<lparr>klee := k1\<rparr>)"
      "\<forall>mo'\<in>S. object_store kl (?r\<lparr>klee := k1\<rparr>) mo' = (if mo' = mo then Some (host_of (host_memory m) mo) else object_store kl ?r mo')"
      "kept kl (klee ?r) k1" using store_host_ok [OF laws Cons.prems(1) mo] by blast
    let ?m1 = "set_ram s (?r\<lparr>klee := k1\<rparr>) m"
    have same: "ram (exec_of ?m1 s) = ?r\<lparr>klee := k1\<rparr>" "host_memory ?m1 = host_memory m"
      "m_cpuSystemObject (exec_of ?m1 s) = m_cpuSystemObject (exec_of m s)" "klee (?r\<lparr>klee := k1\<rparr>) = k1" by (simp_all add: set_ram_def)
    have step: "store_objects kl cf s (mo # mos) m = store_objects kl cf s mos ?m1"
      using False k1(1) by (simp add: store_saved_def store_object_def)
    obtain k where k: "store_objects kl cf s mos ?m1 = Inr (set_ram s (?r\<lparr>klee := k1\<rparr>\<lparr>klee := k\<rparr>) ?m1)"
      "space_ok kl S (?r\<lparr>klee := k1\<rparr>\<lparr>klee := k\<rparr>)" "kept kl k1 k"
      "\<forall>mo\<in>S. object_store kl (?r\<lparr>klee := k1\<rparr>\<lparr>klee := k\<rparr>) mo =
         (if mo \<in> set mos - {cpu_mo cf} then Some (host_of (host_memory m) mo) else object_store kl (?r\<lparr>klee := k1\<rparr>) mo)"
      using Cons.IH [of ?m1, unfolded same, OF k1(2) mos Cons.prems(3)] by blast
    have "store_objects kl cf s (mo # mos) m = Inr (set_ram s (?r\<lparr>klee := k\<rparr>) m)" unfolding step k(1) by (simp add: set_ram_def)
    moreover have "object_store kl (?r\<lparr>klee := k\<rparr>) mo' =
        (if mo' \<in> set (mo # mos) - {cpu_mo cf} then Some (host_of (host_memory m) mo') else object_store kl ?r mo')" if "mo' \<in> S" for mo'
      using k(4) k1(3) that False by auto
    ultimately show ?thesis using k(2) kept_trans [OF k1(4) k(3)] by (intro exI [of _ k]) simp
  qed
qed

lemma notifyBranch_ok:
  fixes m :: "('e, 'o, 'k, 'd, 'p) machine"
  assumes laws: "switch_laws kl" "fragments_ok (set save - {cpu_mo cf}) F" and ok: "space_ok kl (set save - {cpu_mo cf}) (ram (exec_of m s))"
  shows "\<exists>k d l. notifyBranch kl cf F save s m = Inr (m\<lparr>device_of := d, switch_log := l, exec_of := (exec_of m)(s := (exec_of m s)
      \<lparr>m_cpuSystemObject := host_of (host_memory m) (cpu_mo cf), ram := (ram (exec_of m s))\<lparr>klee := k\<rparr>\<rparr>)\<rparr>) \<and>
    space_ok kl (set save - {cpu_mo cf}) ((ram (exec_of m s))\<lparr>klee := k\<rparr>) \<and> kept kl (klee (ram (exec_of m s))) k \<and>
    (\<forall>mo\<in>set save - {cpu_mo cf}. object_store kl ((ram (exec_of m s))\<lparr>klee := k\<rparr>) mo = Some (host_of (host_memory m) mo))"
proof -
  have q: "quiet (flush_requests F)" "quiet (save_devices F s)" "quiet (save_timers F s)" using laws(2) by (simp_all add: fragments_ok_def)
  obtain d1 l1 where f1: "flush_requests F m = Inr (m\<lparr>device_of := d1, switch_log := l1\<rparr>)" using quietE [OF q(1)] by blast
  let ?m1 = "logged [Ticks_Off] (save_cpu cf s (logged [Block_Flush] (m\<lparr>device_of := d1, switch_log := l1\<rparr>)))"
  obtain d2 l2 where f2: "save_devices F s ?m1 = Inr (?m1\<lparr>device_of := d2, switch_log := l2\<rparr>)" using quietE [OF q(2)] by blast
  obtain d3 l3 where f3: "save_timers F s (?m1\<lparr>device_of := d2, switch_log := l2\<rparr>) =
    Inr (?m1\<lparr>device_of := d2, switch_log := l2\<rparr>\<lparr>device_of := d3, switch_log := l3\<rparr>)" using quietE [OF q(3)] by blast
  let ?m3 = "logged [Ticks_On] (?m1\<lparr>device_of := d2, switch_log := l2\<rparr>\<lparr>device_of := d3, switch_log := l3\<rparr>)"
  have same: "exec_of ?m3 s = (exec_of m s)\<lparr>m_cpuSystemObject := host_of (host_memory m) (cpu_mo cf)\<rparr>" "host_memory ?m3 = host_memory m"
    "ram (exec_of ?m3 s) = ram (exec_of m s)" by (simp_all add: logged_def save_cpu_def)
  have "m_cpuSystemObject (exec_of ?m3 s) = host_of (host_memory ?m3) (cpu_mo cf)" unfolding same by simp
  from store_objects_ok [OF laws(1), of "set save - {cpu_mo cf}" ?m3 s save cf, OF _ subset_refl this] obtain k where
    k: "store_objects kl cf s save ?m3 = Inr (set_ram s ((ram (exec_of m s))\<lparr>klee := k\<rparr>) ?m3)"
    "space_ok kl (set save - {cpu_mo cf}) ((ram (exec_of m s))\<lparr>klee := k\<rparr>)" "kept kl (klee (ram (exec_of m s))) k"
    "\<forall>mo\<in>set save - {cpu_mo cf}. object_store kl ((ram (exec_of m s))\<lparr>klee := k\<rparr>) mo = Some (host_of (host_memory m) mo)"
    using ok unfolding same by auto
  have "notifyBranch kl cf F save s m = Inr (set_ram s ((ram (exec_of m s))\<lparr>klee := k\<rparr>) ?m3)"
    using f1 f2 f3 k(1) by (simp add: notifyBranch_def)
  then show ?thesis using k(2-4) by (intro exI [of _ k] exI [of _ d3] exI [of _ "l3 @ [Ticks_On]"]) (simp add: set_ram_def logged_def save_cpu_def)
qed

text \<open>After a split no object is the state's own; an object that is none of RAM can be copied.\<close>

definition plain :: "('o, 'k) ram_state \<Rightarrow> mem_object \<Rightarrow> bool" where
  "plain r mo \<longleftrightarrow> mo_size mo \<noteq> RAM_OBJECT_SIZE \<and> pool_get None (mo_address mo) (m_memcache r) = Inr None"

lemma same_space:
  assumes "\<forall>a. as_find kl a k = as_find kl a (klee r)" "\<forall>os. as_bytes kl os k = as_bytes kl os (klee r)"
    and "space_ok kl S r" "\<forall>mo\<in>S. plain r mo"
  shows "space_ok kl S (r\<lparr>klee := k\<rparr>)" "object_store kl (r\<lparr>klee := k\<rparr>) mo = object_store kl r mo"
  using assms by (auto simp: space_ok_def object_ok_def object_store_def plain_def split: option.splits)

lemma own_dirty_ok:
  assumes laws: "switch_laws kl" and ok: "space_ok kl S (ram (exec_of m s))" and pl: "plain (ram (exec_of m s)) dm"
    and found: "as_find kl (mo_address dm) (klee (ram (exec_of m s))) = Some (dm, dirty_object m s)"
  shows "\<exists>k os. own_dirty kl dm s m =
      Inr (set_ram s ((ram (exec_of m s))\<lparr>klee := k\<rparr>) (m\<lparr>dirty_object := (dirty_object m)(s := os)\<rparr>)) \<and>
    space_ok kl S ((ram (exec_of m s))\<lparr>klee := k\<rparr>) \<and> as_owned kl os k \<and> as_find kl (mo_address dm) k = Some (dm, os) \<and>
    (\<forall>mo. object_store kl ((ram (exec_of m s))\<lparr>klee := k\<rparr>) mo = object_store kl (ram (exec_of m s)) mo)"
proof -
  have "as_owned kl (dirty_object m s) (klee (ram (exec_of m s))) \<or>
      mo_size dm \<noteq> RAM_OBJECT_SIZE \<and> pool_get None (mo_address dm) (m_memcache (ram (exec_of m s))) = Inr None"
    using pl by (simp add: plain_def)
  from writable_object [OF laws ok found this] obtain os k where
    "getWriteable kl dm (dirty_object m s) (ram (exec_of m s)) = Inr (os, (ram (exec_of m s))\<lparr>klee := k\<rparr>)"
    "space_ok kl S ((ram (exec_of m s))\<lparr>klee := k\<rparr>)" "as_find kl (mo_address dm) k = Some (dm, os)" "as_owned kl os k"
    "\<forall>mo. object_store kl ((ram (exec_of m s))\<lparr>klee := k\<rparr>) mo = object_store kl (ram (exec_of m s)) mo" by blast
  then show ?thesis by (intro exI [of _ k] exI [of _ os]) (simp add: own_dirty_def)
qed

lemma clone_ok:
  fixes m :: "('e, 'o, 'k, 'd, 'p) machine"
  assumes laws: "switch_laws kl" "fragments_ok S F" "clone_law kl (as_clone F)"
    and p: "m_active (ram (exec_of m p))" "space_ok kl S (ram (exec_of m p))" "\<forall>mo\<in>S. plain (ram (exec_of m p)) mo"
    and dm: "plain (ram (exec_of m p)) dm" "as_find kl (mo_address dm) (klee (ram (exec_of m p))) = Some (dm, dirty_object m p)"
    and pc: "p \<noteq> c"
  shows "\<exists>m' kp kc. clone kl F True dm p c m = Inr m' \<and> host_memory m' = host_memory m \<and> lastStateId m' = lastStateId m + 1 \<and>
    exec_of m' p = (exec_of m p)\<lparr>ram := (ram (exec_of m p))\<lparr>klee := kp\<rparr>\<rparr> \<and>
    exec_of m' c = (exec_of m p)\<lparr>m_stateID := unat (lastStateId m), ram := (ram (exec_of m p))\<lparr>klee := kc\<rparr>\<rparr> \<and>
    plugin_data m' = (plugin_data m)(c := map (\<lambda>(q, d). (q, clone_plugin F d)) (plugin_data m p)) \<and>
    (\<forall>k\<in>{kp, kc}. space_ok kl S ((ram (exec_of m p))\<lparr>klee := k\<rparr>) \<and>
      (\<forall>mo. object_store kl ((ram (exec_of m p))\<lparr>klee := k\<rparr>) mo = object_store kl (ram (exec_of m p)) mo))"
proof -
  let ?r = "ram (exec_of m p)"
  obtain d1 l1 where f1: "clear_tlb F p m = Inr (m\<lparr>device_of := d1, switch_log := l1\<rparr>)"
    using laws(2) quietE unfolding fragments_ok_def by metis
  let ?m1 = "m\<lparr>device_of := d1, switch_log := l1\<rparr>"
  obtain k1 k2 where k: "as_clone F (klee ?r) = (k1, k2)" by fastforce
  have same: "\<forall>a. as_find kl a k1 = as_find kl a (klee ?r)" "\<forall>a. as_find kl a k2 = as_find kl a (klee ?r)"
    "\<forall>os. as_bytes kl os k1 = as_bytes kl os (klee ?r)" "\<forall>os. as_bytes kl os k2 = as_bytes kl os (klee ?r)"
    using laws(3) k by (auto simp: clone_law_def)
  let ?m2 = "number_state c (count_tb p (copy_state F p c ?m1))"
  obtain d3 l3 where f3: "copy_timers F c ?m2 = Inr (?m2\<lparr>device_of := d3, switch_log := l3\<rparr>)"
    using laws(2) quietE unfolding fragments_ok_def by metis
  let ?m3 = "clone_plugins F p c (?m2\<lparr>device_of := d3, switch_log := l3\<rparr>)"
  have e3: "exec_of ?m3 p = (exec_of m p)\<lparr>ram := ?r\<lparr>klee := k1\<rparr>\<rparr>" "dirty_object ?m3 p = dirty_object m p" "dirty_object ?m3 c = dirty_object m p"
    "exec_of ?m3 c = (exec_of m p)\<lparr>m_stateID := unat (lastStateId m), ram := ?r\<lparr>klee := k2\<rparr>\<rparr>"
    "host_memory ?m3 = host_memory m" "lastStateId ?m3 = lastStateId m + 1"
    "plugin_data ?m3 = (plugin_data m)(c := map (\<lambda>(q, d). (q, clone_plugin F d)) (plugin_data m p))"
    using pc k by (auto simp: clone_plugins_def number_state_def count_tb_def copy_state_def Let_def split: option.splits)
  have c3: "space_ok kl S (ram (exec_of ?m3 c))" "plain (ram (exec_of ?m3 c)) dm"
    "as_find kl (mo_address dm) (klee (ram (exec_of ?m3 c))) = Some (dm, dirty_object ?m3 c)"
    unfolding e3 using same_space(1) [OF same(2,4) p(2,3)] dm same(2) by (simp_all add: plain_def)
  obtain kc oc where c: "own_dirty kl dm c ?m3 = Inr (set_ram c ((ram (exec_of ?m3 c))\<lparr>klee := kc\<rparr>) (?m3\<lparr>dirty_object := (dirty_object ?m3)(c := oc)\<rparr>))"
    "space_ok kl S ((ram (exec_of ?m3 c))\<lparr>klee := kc\<rparr>)"
    "\<forall>mo. object_store kl ((ram (exec_of ?m3 c))\<lparr>klee := kc\<rparr>) mo = object_store kl (ram (exec_of ?m3 c)) mo"
    using own_dirty_ok [OF laws(1) c3] by blast
  let ?m4 = "set_ram c ((ram (exec_of ?m3 c))\<lparr>klee := kc\<rparr>) (?m3\<lparr>dirty_object := (dirty_object ?m3)(c := oc)\<rparr>)"
  have e4: "exec_of ?m4 p = (exec_of m p)\<lparr>ram := ?r\<lparr>klee := k1\<rparr>\<rparr>" "dirty_object ?m4 p = dirty_object m p"
    "exec_of ?m4 c = (exec_of m p)\<lparr>m_stateID := unat (lastStateId m), ram := ?r\<lparr>klee := kc\<rparr>\<rparr>"
    "host_memory ?m4 = host_memory m" "lastStateId ?m4 = lastStateId m + 1"
    "plugin_data ?m4 = (plugin_data m)(c := map (\<lambda>(q, d). (q, clone_plugin F d)) (plugin_data m p))"
    using pc by (simp_all add: set_ram_def e3)
  have p4: "space_ok kl S (ram (exec_of ?m4 p))" "plain (ram (exec_of ?m4 p)) dm"
    "as_find kl (mo_address dm) (klee (ram (exec_of ?m4 p))) = Some (dm, dirty_object ?m4 p)"
    unfolding e4 using same_space(1) [OF same(1,3) p(2,3)] dm same(1) by (simp_all add: plain_def)
  obtain kp op where q: "own_dirty kl dm p ?m4 = Inr (set_ram p ((ram (exec_of ?m4 p))\<lparr>klee := kp\<rparr>) (?m4\<lparr>dirty_object := (dirty_object ?m4)(p := op)\<rparr>))"
    "space_ok kl S ((ram (exec_of ?m4 p))\<lparr>klee := kp\<rparr>)"
    "\<forall>mo. object_store kl ((ram (exec_of ?m4 p))\<lparr>klee := kp\<rparr>) mo = object_store kl (ram (exec_of ?m4 p)) mo"
    using own_dirty_ok [OF laws(1) p4] by blast
  let ?m5 = "set_ram p ((ram (exec_of ?m4 p))\<lparr>klee := kp\<rparr>) (?m4\<lparr>dirty_object := (dirty_object ?m4)(p := op)\<rparr>)"
  have run: "clone kl F True dm p c m = Inr ?m5" using p(1) f1 f3 c(1) q(1) by (simp add: clone_def)
  have e5: "exec_of ?m5 p = (exec_of m p)\<lparr>ram := ?r\<lparr>klee := kp\<rparr>\<rparr>"
    "exec_of ?m5 c = (exec_of m p)\<lparr>m_stateID := unat (lastStateId m), ram := ?r\<lparr>klee := kc\<rparr>\<rparr>"
    "host_memory ?m5 = host_memory m" "lastStateId ?m5 = lastStateId m + 1"
    "plugin_data ?m5 = (plugin_data m)(c := map (\<lambda>(q, d). (q, clone_plugin F d)) (plugin_data m p))"
    using pc e4 by (simp_all add: set_ram_def)
  note same_c = same_space(2) [OF same(2,4) p(2,3)] and same_p = same_space(2) [OF same(1,3) p(2,3)]
  have "\<forall>k\<in>{kp, kc}. space_ok kl S (?r\<lparr>klee := k\<rparr>) \<and> (\<forall>mo. object_store kl (?r\<lparr>klee := k\<rparr>) mo = object_store kl ?r mo)"
    using c(2,3) [unfolded e3] q(2,3) [unfolded e4] by (simp add: same_c same_p)
  with run e5 show ?thesis by (intro exI [of _ ?m5] exI [of _ kp] exI [of _ kc] conjI)
qed


section \<open>A machine with one saved object\<close>

text \<open>An address space with copy on write: an object state is an address with the number of the copy.\<close>

record cow_space =
  binding :: "u64 \<Rightarrow> (mem_object \<times> nat) option"
  cow_bytes :: "u64 \<times> nat \<Rightarrow> sx list"
  cow_owned :: "u64 \<times> nat \<Rightarrow> bool"

definition cow_ops :: "(sx, u64 \<times> nat, cow_space) klee_ops" where
  "cow_ops = \<lparr>e_width = sx_width, e_value = sx_value, e_const = (\<lambda>c w. Num (unat c) w), e_concat = Cat,
     e_extract = Ext, e_zext = (\<lambda>e w. Cat (Num 0 (w - sx_width e)) e),
     os_read = (\<lambda>bs off w. Bytes (take (w div 8) (drop off bs)) w), os_write = sx_write,
     as_find = (\<lambda>a k. map_option (\<lambda>(mo, v). (mo, (a, v))) (binding k a)), as_owned = (\<lambda>os k. cow_owned k os),
     as_copy = (\<lambda>mo os k. ((fst os, snd os + 1), k\<lparr>binding := (binding k)(fst os \<mapsto> (mo, snd os + 1)),
       cow_bytes := (cow_bytes k)((fst os, snd os + 1) := cow_bytes k os), cow_owned := (cow_owned k)((fst os, snd os + 1) := True)\<rparr>)),
     as_bytes = (\<lambda>os k. cow_bytes k os), as_update = (\<lambda>os bs k. k\<lparr>cow_bytes := (cow_bytes k)(os := bs)\<rparr>),
     to_constant = (\<lambda>e k. (0, k)), to_example = (\<lambda>e k. 0)\<rparr>"

definition cow_clone :: "cow_space \<Rightarrow> cow_space \<times> cow_space" where
  "cow_clone k = (k\<lparr>cow_owned := (\<lambda>_. False)\<rparr>, k\<lparr>cow_owned := (\<lambda>_. False)\<rparr>)"

lemma cow_laws: "switch_laws cow_ops" "clone_law cow_ops cow_clone"
proof -
  have "sx_value (Num (unat (ucast b :: u64)) 8) = Some (ucast b)" for b :: u8
    using unsigned_less [of b, where ?'a = nat] by (simp add: unsigned_ucast_eq take_bit_nat_eq_self)
  moreover have "space_laws cow_ops" by (simp add: space_laws_def cow_ops_def)
  moreover have "copy_law cow_ops"
    by (auto simp: copy_law_def cow_ops_def split: if_splits)
  ultimately show "switch_laws cow_ops" by (simp add: switch_laws_def) (simp add: cow_ops_def)
  show "clone_law cow_ops cow_clone" by (auto simp: clone_law_def cow_clone_def cow_ops_def)
qed

text \<open>The dirty mask of two bytes at \<open>0x2000\<close> is saved, and the processor is at \<open>0x1000\<close>.\<close>

definition mask_mo :: mem_object where
  "mask_mo = \<lparr>mo_address = 0x2000, mo_size = 2, isUserSpecified = True, isSharedConcrete = True\<rparr>"

definition cpu4 :: cpu_conf where
  "cpu4 = \<lparr>cpu_arch = ARM, CPU_CONC_LIMIT = 2, CPU_SIZE = 4, CPU_REG_SIZE = 4, regs_offset = 0, cr3_offset = 0,
     cpu_address = 0x1000, cs64 = False\<rparr>"

definition plain_ops :: "(sx, u64 \<times> nat, cow_space, unit, nat) switch_ops" where
  "plain_ops = \<lparr>flush_requests = Inr, save_timers = (\<lambda>s. Inr), activate = (\<lambda>s m. Inr (set_ram s ((ram (exec_of m s))\<lparr>m_active := True\<rparr>) m)),
     clear_tlb = (\<lambda>s. Inr), copy_timers = (\<lambda>s. Inr), save_devices = (\<lambda>s. Inr), as_clone = cow_clone, clone_plugin = id\<rparr>"

definition mask_space :: "u8 list \<Rightarrow> cow_space" where
  "mask_space bs = \<lparr>binding = [0x2000 \<mapsto> (mask_mo, 0)], cow_bytes = (\<lambda>_. map (\<lambda>b. Num (unat b) 8) bs), cow_owned = (\<lambda>_. True)\<rparr>"

definition mask_state :: "bool \<Rightarrow> u8 list \<Rightarrow> (sx, u64 \<times> nat, cow_space) exec_state" where
  "mask_state running bs = (S2EExecutionState_new 0 (mask_space bs) 0)
     \<lparr>m_cpuRegistersObject := Some [Num 0 8, Num 0 8],
      ram := \<lparr>m_active = running, m_runningConcrete = False, m_memcache = [], klee = mask_space bs\<rparr>\<rparr>"

definition two_states :: "(sx, u64 \<times> nat, cow_space, unit, nat) machine" where
  "two_states = \<lparr>host_memory = (\<lambda>x. if x = 0x2000 then 7 else if x = 0x2001 then 9 else 0),
     exec_of = (\<lambda>s. if s = 0 then mask_state True [0, 0] else mask_state False [3, 4]), device_of = (\<lambda>_. ()),
     dirty_object = (\<lambda>_. (0x2000, 0)), last_tb = (\<lambda>_. None), tb_refs = (\<lambda>_. 0), plugin_data = (\<lambda>s. if s = 0 then [(5, 6)] else []),
     lastStateId = 2, g_s2e_disable_tlb_flush = False, switch_log = []\<rparr>"

lemma mask_saved: "set [cpu_mo cpu4, mask_mo] - {cpu_mo cpu4} = {mask_mo}" "separate {mask_mo}" "distinct [cpu_mo cpu4, mask_mo]"
  by (auto simp: cpu_mo_def cpu4_def mask_mo_def separate_def)

lemma plain_fragments: "fragments_ok {mask_mo} plain_ops"
proof -
  have q: "quiet Inr" unfolding quiet_def
    by (intro allI, rule_tac x = "device_of m" in exI, rule_tac x = "switch_log m" in exI) simp
  have "activates {mask_mo} (activate plain_ops)" unfolding activates_def
    by (intro allI, rule_tac x = "host_memory m" in exI, rule_tac x = "device_of m" in exI, rule_tac x = "switch_log m" in exI)
      (simp add: plain_ops_def)
  with q show ?thesis by (simp add: fragments_ok_def) (simp add: plain_ops_def)
qed

lemma mask_state_ok:
  assumes "length bs = 2"
  shows "space_ok cow_ops {mask_mo} (ram (mask_state r bs))" "m_cpuRegistersObject (mask_state r bs) \<noteq> None"
proof -
  have "(of_nat (unat b mod 256) :: u64) = ucast b" for b :: u8
    using unsigned_less [of b, where ?'a = nat] by (simp add: word_unat_eq_iff unat_of_nat unsigned_ucast_eq take_bit_nat_eq_self)
  moreover have "(ucast (ucast b :: u64) :: u8) = b" for b by (rule bit_word_eqI) (simp add: bit_simps)
  ultimately have "those (map (\<lambda>b. map_option ucast (sx_value (Num (unat b) 8))) bs) = Some bs" for bs :: "u8 list"
    by (induction bs) simp_all
  then have "getConcreteStore cow_ops (map (\<lambda>b. Num (unat b) 8) bs) = Some bs"
    by (simp add: getConcreteStore_def cow_ops_def comp_def)
  then show "space_ok cow_ops {mask_mo} (ram (mask_state r bs))"
    using assms unfolding space_ok_def object_ok_def
    by (auto simp: mask_state_def mask_space_def mask_mo_def cow_ops_def split: if_splits)
  show "m_cpuRegistersObject (mask_state r bs) \<noteq> None" by (simp add: mask_state_def)
qed

lemma mask_modes:
  "can_leave cow_ops {mask_mo} (mask_state True [x, y])" "can_enter cow_ops {mask_mo} (mask_state False [x, y])"
  using mask_state_ok [of "[x, y]"] unfolding can_leave_def can_enter_def by (simp_all add: mask_state_def)



end
