(* ===== verification/Exec_Statistics.thy ===== *)
theory Exec_Statistics
  imports Decimal_Text
begin

text \<open>
  The statistics of a run (\<open>S2EStatsTracker.cpp\<close>): the counters that every execution state keeps and
  reports to the counters of KLEE, the table that is written to the statistics file, and the memory
  usage of the process, which is read from the text of \<open>/proc/<pid>/status\<close>.
\<close>

section \<open>Counters\<close>

record state_stats =
  m_statTranslationBlockConcrete :: u64
  m_statTranslationBlockSymbolic :: u64
  m_statInstructionCountSymbolic :: u64
  m_laststatTranslationBlockConcrete :: u64
  m_laststatTranslationBlockSymbolic :: u64
  m_laststatInstructionCount :: u64
  m_laststatInstructionCountConcrete :: u64
  m_laststatInstructionCountSymbolic :: u64

definition S2EStateStats_new :: state_stats where
  "S2EStateStats_new = \<lparr>m_statTranslationBlockConcrete = 0, m_statTranslationBlockSymbolic = 0, m_statInstructionCountSymbolic = 0,
     m_laststatTranslationBlockConcrete = 0, m_laststatTranslationBlockSymbolic = 0, m_laststatInstructionCount = 0,
     m_laststatInstructionCountConcrete = 0, m_laststatInstructionCountSymbolic = 0\<rparr>"

text \<open>The counters of KLEE that this file adds.\<close>

record statistics =
  translationBlocks :: u64
  translationBlocksConcrete :: u64
  translationBlocksKlee :: u64
  cpuInstructions :: u64
  cpuInstructionsConcrete :: u64
  cpuInstructionsKlee :: u64

text \<open>\<open>icount\<close> stands for the read of the instruction counter of QEMU, which is a failing assertion in this version;
  before the processor is registered the count is 0.\<close>

definition getTotalInstructionCount :: "bool \<Rightarrow> u64 res \<Rightarrow> u64 res" where
  "getTotalInstructionCount cpu_registered icount = (if \<not> cpu_registered then Inr 0 else icount)"

definition updateStats :: "u64 res \<Rightarrow> state_stats \<Rightarrow> statistics \<Rightarrow> (state_stats \<times> statistics) res" where
  "updateStats total_count s g =
     (let tbcdiff = m_statTranslationBlockConcrete s - m_laststatTranslationBlockConcrete s;
          sbcdiff = m_statTranslationBlockSymbolic s - m_laststatTranslationBlockSymbolic s;
          sidiff = m_statInstructionCountSymbolic s - m_laststatInstructionCountSymbolic s;
          g1 = g\<lparr>translationBlocksConcrete := translationBlocksConcrete g + tbcdiff,
                 translationBlocksKlee := translationBlocksKlee g + sbcdiff,
                 translationBlocks := translationBlocks g + (tbcdiff + sbcdiff),
                 cpuInstructionsKlee := cpuInstructionsKlee g + sidiff\<rparr>;
          s1 = s\<lparr>m_laststatTranslationBlockConcrete := m_statTranslationBlockConcrete s,
                 m_laststatTranslationBlockSymbolic := m_statTranslationBlockSymbolic s,
                 m_laststatInstructionCountSymbolic := m_statInstructionCountSymbolic s\<rparr>
      in rbind total_count (\<lambda>totalICount.
        let tidiff = totalICount - m_laststatInstructionCount s1;
            ccount = totalICount - m_statInstructionCountSymbolic s1;
            cidiff = ccount - m_laststatInstructionCountConcrete s1
        in Inr (s1\<lparr>m_laststatInstructionCount := totalICount, m_laststatInstructionCountConcrete := ccount\<rparr>,
                g1\<lparr>cpuInstructions := cpuInstructions g1 + tidiff,
                   cpuInstructionsConcrete := cpuInstructionsConcrete g1 + cidiff\<rparr>)))"

text \<open>What happens to the counters in a run. The executor counts blocks and instructions, a timer reports the state
  that runs with the instruction count of the moment, and a split copies the counters.\<close>

datatype stats_event =
    Concrete_Block nat
  | Klee_Block nat
  | Klee_Instruction nat
  | Update nat u64
  | Split nat nat

type_synonym stats_world = "(nat \<Rightarrow> state_stats) \<times> statistics"

definition count :: "nat \<Rightarrow> (state_stats \<Rightarrow> state_stats) \<Rightarrow> stats_world \<Rightarrow> stats_world" where
  "count s f w = ((fst w)(s := f (fst w s)), snd w)"

fun stats_step :: "stats_event \<Rightarrow> stats_world \<Rightarrow> stats_world" where
  "stats_step (Concrete_Block s) w =
     count s (\<lambda>x. x\<lparr>m_statTranslationBlockConcrete := m_statTranslationBlockConcrete x + 1\<rparr>) w"
| "stats_step (Klee_Block s) w =
     count s (\<lambda>x. x\<lparr>m_statTranslationBlockSymbolic := m_statTranslationBlockSymbolic x + 1\<rparr>) w"
| "stats_step (Klee_Instruction s) w =
     count s (\<lambda>x. x\<lparr>m_statInstructionCountSymbolic := m_statInstructionCountSymbolic x + 1\<rparr>) w"
| "stats_step (Update s icount) w = (case updateStats (getTotalInstructionCount True (Inr icount)) (fst w s) (snd w) of
     Inl e \<Rightarrow> w | Inr (x, g) \<Rightarrow> ((fst w)(s := x), g))"
| "stats_step (Split s c) w = ((fst w)(c := fst w s), snd w)"

definition zero_statistics :: statistics where
  "zero_statistics = \<lparr>translationBlocks = 0, translationBlocksConcrete = 0, translationBlocksKlee = 0,
     cpuInstructions = 0, cpuInstructionsConcrete = 0, cpuInstructionsKlee = 0\<rparr>"

definition stats_run :: "stats_event list \<Rightarrow> stats_world" where
  "stats_run es = fold stats_step es (\<lambda>_. S2EStateStats_new, zero_statistics)"

section \<open>The table\<close>

text \<open>The columns of the file; the values of KLEE, of the clock and of the process are arguments, with the
  values of times in microseconds.\<close>

record klee_statistics =
  statesCount :: nat
  queries :: u64
  queryConstructs :: u64
  times :: "string \<Rightarrow> u64"
  userTime :: u64
  elapsed :: u64

definition writeStatsHeader :: "string list" where
  "writeStatsHeader = [''NumStates'', ''NumQueries'', ''NumQueryConstructs'', ''NumObjects'', ''TranslationBlocks'',
     ''TranslationBlocksConcrete'', ''TranslationBlocksKlee'', ''CpuInstructions'', ''CpuInstructionsConcrete'',
     ''CpuInstructionsKlee'', ''ConcreteModeTime'', ''SymbolicModeTime'', ''UserTime'', ''WallTime'', ''QueryTime'',
     ''SolverTime'', ''CexCacheTime'', ''ForkTime'', ''ResolveTime'', ''MemoryUsage'']"

text \<open>A cell is a number or a time that is divided by a million.\<close>

datatype cell = Number nat | Seconds u64

definition writeStatsLine :: "klee_statistics \<Rightarrow> statistics \<Rightarrow> u64 \<Rightarrow> cell list" where
  "writeStatsLine k g memory =
     [Number (statesCount k), Number (unat (queries k)), Number (unat (queryConstructs k)), Number 0,
      Number (unat (translationBlocks g)), Number (unat (translationBlocksConcrete g)), Number (unat (translationBlocksKlee g)),
      Number (unat (cpuInstructions g)), Number (unat (cpuInstructionsConcrete g)), Number (unat (cpuInstructionsKlee g)),
      Seconds (times k ''concreteModeTime''), Seconds (times k ''symbolicModeTime''), Number (unat (userTime k)),
      Number (unat (elapsed k)), Seconds (times k ''queryTime''), Seconds (times k ''solverTime''),
      Seconds (times k ''cexCacheTime''), Seconds (times k ''forkTime''), Seconds (times k ''resolveTime''), Number (unat memory)]"

section \<open>Memory usage\<close>

text \<open>\<open>fgets\<close> with a buffer of 512 bytes: at most 511 characters, up to a line break.\<close>

fun fgets :: "nat \<Rightarrow> string \<Rightarrow> string \<times> string" where
  "fgets 0 cs = ([], cs)"
| "fgets (Suc n) [] = ([], [])"
| "fgets (Suc n) (c # cs) = (if c = CHR 0x0A then ([c], cs) else (case fgets n cs of (l, r) \<Rightarrow> (c # l, r)))"

lemma fgets_rest: "length (snd (fgets n cs)) \<le> length cs"
  by (induction n cs rule: fgets.induct) (auto split: prod.splits)

function (sequential) chunks :: "string \<Rightarrow> string list" where
  "chunks [] = []"
| "chunks (c # cs) = (let lr = fgets 511 (c # cs) in fst lr # chunks (snd lr))"
  by pat_completeness auto
termination
proof (relation "measure length")
  fix c cs lr assume x: "lr = fgets 511 (c # cs)"
  have "fgets 511 (c # cs) = (if c = CHR 0x0A then ([c], cs) else (case fgets 510 cs of (l, r) \<Rightarrow> (c # l, r)))"
    using fgets.simps(3) [of 510 c cs] by (simp add: eval_nat_numeral)
  then have "length (snd lr) \<le> length cs" using x fgets_rest [of 510 cs] by (auto split: if_splits prod.splits)
  then show "(snd lr, c # cs) \<in> measure length" by simp
qed simp

text \<open>\<open>sscanf\<close> with the format \<open>"VmSize: %llu"\<close>; it returns -1 when the text ends too early and 0 when it differs.\<close>

datatype 'a scan = Input_End | Mismatch | Matched 'a

fun scan_prefix :: "string \<Rightarrow> string \<Rightarrow> string scan" where
  "scan_prefix [] cs = Matched cs"
| "scan_prefix (p # ps) [] = Input_End"
| "scan_prefix (p # ps) (c # cs) = (if p = c then scan_prefix ps cs else Mismatch)"

definition scan_number :: "string \<Rightarrow> int scan" where
  "scan_number cs = (case dropWhile is_space cs of
     [] \<Rightarrow> Input_End
   | c # r \<Rightarrow>
       let ds = takeWhile is_digit (if c = CHR ''-'' \<or> c = CHR ''+'' then r else c # r) in
       if ds = [] then Mismatch
       else Matched (if c = CHR ''-'' then - int (num_value ds) else int (num_value ds)))"

definition sscanf_VmSize :: "string \<Rightarrow> int scan" where
  "sscanf_VmSize l = (case scan_prefix ''VmSize:'' l of
     Input_End \<Rightarrow> Input_End | Mismatch \<Rightarrow> Mismatch | Matched r \<Rightarrow> scan_number r)"

text \<open>A number that does not fit is undefined behaviour of \<open>sscanf\<close>.\<close>

fun read_status :: "u64 \<Rightarrow> string list \<Rightarrow> u64 res" where
  "read_status peakMem [] = Inr peakMem"
| "read_status peakMem (buffer # rest) =
     (if peakMem \<noteq> 0 then Inr peakMem
      else (case sscanf_VmSize buffer of
          Mismatch \<Rightarrow> read_status peakMem rest
        | Input_End \<Rightarrow> Inr peakMem
        | Matched v \<Rightarrow> rbind (ensure_defined (\<bar>v\<bar> < 2 ^ 64)) (\<lambda>_. Inr (of_int v))))"

text \<open>\<open>status\<close> is the text of the file, when it can be opened.\<close>

definition getProcessMemoryUsage :: "string option \<Rightarrow> u64 res" where
  "getProcessMemoryUsage status = (case status of
     None \<Rightarrow> Inr 0 | Some text \<Rightarrow> rbind (read_status 0 (chunks text)) (\<lambda>peakMem. Inr (peakMem * 1024)))"

section \<open>The counters add up\<close>

text \<open>What has been reported of a state as concrete and symbolic instructions is all that has been reported of it.\<close>

definition reported_ok :: "state_stats \<Rightarrow> bool" where
  "reported_ok s \<longleftrightarrow> m_laststatInstructionCount s = m_laststatInstructionCountConcrete s + m_laststatInstructionCountSymbolic s"

definition sums_ok :: "statistics \<Rightarrow> bool" where
  "sums_ok g \<longleftrightarrow> translationBlocks g = translationBlocksConcrete g + translationBlocksKlee g \<and>
     cpuInstructions g = cpuInstructionsConcrete g + cpuInstructionsKlee g"

lemma updateStats_ok:
  assumes "reported_ok s" "sums_ok g" "updateStats t s g = Inr (s', g')"
  shows "reported_ok s'" "sums_ok g'"
  using assms by (auto simp: updateStats_def Let_def reported_ok_def sums_ok_def rbind_Inr_iff algebra_simps)

lemma stats_step_ok:
  assumes "\<forall>s. reported_ok (fst w s)" "sums_ok (snd w)"
  shows "(\<forall>s. reported_ok (fst (stats_step e w) s)) \<and> sums_ok (snd (stats_step e w))"
proof (cases e)
  case (Update s icount)
  then show ?thesis using assms updateStats_ok [of "fst w s" "snd w"] by (auto split: sum.splits)
qed (use assms in \<open>auto simp: count_def reported_ok_def\<close>)

text \<open>In every run, however blocks, instructions, reports and splits follow each other, the number of translation blocks that
  is reported is the sum of those run natively and in KLEE, and the number of instructions the sum of both kinds.\<close>

theorem statistics_add_up: "sums_ok (snd (stats_run es))"
proof -
  have "(\<forall>s. reported_ok (fst (fold stats_step es w) s)) \<and> sums_ok (snd (fold stats_step es w))"
    if "\<forall>s. reported_ok (fst w s)" "sums_ok (snd w)" for w
    using that by (induction es arbitrary: w) (use stats_step_ok in \<open>auto simp del: stats_step.simps\<close>)
  then show ?thesis by (simp add: stats_run_def reported_ok_def S2EStateStats_new_def sums_ok_def zero_statistics_def)
qed

text \<open>The counters are not exact, though: what a state has done since its last report is counted twice when it is split.\<close>

theorem split_counts_twice:
  "translationBlocks (snd (stats_run [Concrete_Block 0, Split 0 1, Update 0 0, Update 1 0])) = 2"
  "translationBlocks (snd (stats_run [Concrete_Block 0, Update 0 0, Split 0 1, Update 0 0, Update 1 0])) = 1"
  by (simp_all add: stats_run_def count_def updateStats_def Let_def S2EStateStats_new_def zero_statistics_def getTotalInstructionCount_def)

lemma columns_match: "length (writeStatsLine k g memory) = length writeStatsHeader"
  by (simp add: writeStatsLine_def writeStatsHeader_def)

section \<open>The memory usage is found\<close>

lemma fgets_line: "CHR 0x0A \<notin> set l \<Longrightarrow> length l < n \<Longrightarrow> fgets n (l @ CHR 0x0A # r) = (l @ [CHR 0x0A], r)"
proof (induction l arbitrary: n)
  case Nil
  then show ?case by (cases n) simp_all
next
  case (Cons c l)
  then show ?case by (cases n) auto
qed

lemma chunks_line: "CHR 0x0A \<notin> set l \<Longrightarrow> length l < 511 \<Longrightarrow> chunks (l @ CHR 0x0A # r) = (l @ [CHR 0x0A]) # chunks r"
  using fgets_line [of l 511 r] by (cases l) (simp_all add: Let_def)

lemma scan_prefix_app [simp]: "scan_prefix p (p @ r) = Matched r"
  by (induction p) simp_all

lemma scan_prefix_other: "CHR 0x0A \<notin> set p \<Longrightarrow> take (length p) l \<noteq> p \<Longrightarrow> scan_prefix p (l @ [CHR 0x0A]) = Mismatch"
proof (induction p arbitrary: l)
  case (Cons c p)
  then show ?case by (cases l) auto
qed simp

lemma scan_number_digits:
  assumes "\<forall>c\<in>set blanks. is_space c" "ds \<noteq> []" "\<forall>c\<in>set ds. is_digit c" "tail = [] \<or> \<not> is_digit (hd tail)"
  shows "scan_number (blanks @ ds @ tail) = Matched (int (num_value ds))"
proof -
  obtain d r where ds: "ds = d # r" using assms(2) by (cases ds) auto
  have d: "\<not> is_space d" "d \<noteq> CHR ''-''" "d \<noteq> CHR ''+''" using assms(3) by (auto simp: ds is_space_def is_digit_def)
  have "dropWhile is_space (blanks @ ds @ tail) = ds @ tail"
    using assms(1) d(1) by (induction blanks) (simp_all add: ds)
  moreover have "takeWhile is_digit (ds @ tail) = ds"
    using assms(3,4) by (subst takeWhile_append2) (cases tail; simp)+
  ultimately show ?thesis using d(2,3) ds unfolding scan_number_def by simp
qed

lemma read_status_skip:
  assumes "\<forall>l\<in>set ls. CHR 0x0A \<notin> set l \<and> length l < 511 \<and> take 7 l \<noteq> ''VmSize:''"
  shows "read_status 0 (chunks (concat (map (\<lambda>l. l @ [CHR 0x0A]) ls) @ text)) = read_status 0 (chunks text)"
  using assms
proof (induction ls)
  case (Cons l ls)
  have "sscanf_VmSize (l @ [CHR 0x0A]) = Mismatch"
    using scan_prefix_other [of "''VmSize:''" l] Cons.prems by (simp add: sscanf_VmSize_def eval_nat_numeral)
  then show ?case using Cons by (simp add: chunks_line del: chunks.simps)
qed simp

text \<open>The memory usage of the process is the number in the first line of the status that begins with \<open>VmSize:\<close>, in
  kilobytes, whatever the lines before it, as long as lines are shorter than the buffer; the result is in bytes.\<close>

theorem memory_usage_found:
  assumes before: "\<forall>l\<in>set ls. CHR 0x0A \<notin> set l \<and> length l < 511 \<and> take 7 l \<noteq> ''VmSize:''"
    and blanks: "set blanks \<subseteq> {CHR 0x20, CHR 0x09}"
    and ds: "ds \<noteq> []" "\<forall>c\<in>set ds. is_digit c" "num_value ds < 2 ^ 64"
    and tail: "tail = [] \<or> \<not> is_digit (hd tail)" "CHR 0x0A \<notin> set tail" "length (blanks @ ds @ tail) < 504"
  shows "getProcessMemoryUsage (Some (concat (map (\<lambda>l. l @ [CHR 0x0A]) ls) @ ''VmSize:'' @ blanks @ ds @ tail @ CHR 0x0A # rest)) =
    Inr (of_nat (num_value ds) * 1024)"
proof -
  let ?l = "''VmSize:'' @ blanks @ ds @ tail"
  have "\<forall>c\<in>set ds. c \<noteq> CHR 0x0A" using ds(2) by (auto simp: is_digit_def)
  then have nl: "CHR 0x0A \<notin> set ?l" using blanks tail(2) by auto
  have "\<forall>c\<in>set blanks. is_space c" using blanks by (auto simp: is_space_def)
  note blank = this
  have "tail @ [CHR 0x0A] = [] \<or> \<not> is_digit (hd (tail @ [CHR 0x0A]))" using tail(1) by (cases tail) (simp_all add: is_digit_def)
  from scan_number_digits [OF blank ds(1,2) this]
  have "scan_number (blanks @ ds @ tail @ [CHR 0x0A]) = Matched (int (num_value ds))" .
  then have "sscanf_VmSize (?l @ [CHR 0x0A]) = Matched (int (num_value ds))"
    using scan_prefix_app [of "''VmSize:''" "blanks @ ds @ tail @ [CHR 0x0A]"] by (simp add: sscanf_VmSize_def)
  moreover have "chunks (?l @ CHR 0x0A # rest) = (?l @ [CHR 0x0A]) # chunks rest" using nl tail(3) by (intro chunks_line) simp_all
  ultimately have "read_status 0 (chunks (?l @ CHR 0x0A # rest)) = Inr (of_nat (num_value ds))" using ds(3) by simp
  then have "read_status 0 (chunks (concat (map (\<lambda>l. l @ [CHR 0x0A]) ls) @ ?l @ CHR 0x0A # rest)) = Inr (of_nat (num_value ds))"
    by (simp only: read_status_skip [OF before])
  then show ?thesis unfolding getProcessMemoryUsage_def by simp
qed

theorem memory_usage_found_witness:
  "getProcessMemoryUsage (Some (''Name: qemu'' @ CHR 0x0A # ''VmSize:'' @ [CHR 0x09] @ ''  123'' @ '' kB'' @ CHR 0x0A # ''Threads: 2'')) = Inr 125952"
proof -
  have v: "num_value ''123'' = 123" by (simp add: num_value_def)
  have "getProcessMemoryUsage (Some (concat (map (\<lambda>l. l @ [CHR 0x0A]) [''Name: qemu'']) @ ''VmSize:'' @ [CHR 0x09, CHR 0x20, CHR 0x20] @ ''123'' @ '' kB'' @
      CHR 0x0A # ''Threads: 2'')) = Inr (of_nat (num_value ''123'') * 1024)"
    by (rule memory_usage_found) (simp_all add: is_digit_def v)
  then show ?thesis by (simp add: v del: chunks.simps)
qed

end
