(* ===== verification/Output_Files.thy ===== *)
theory Output_Files
  imports Process_Table Exec_Statistics
begin

text \<open>
  The output of S2E (\<open>S2E.cpp\<close>, \<open>S2E.h\<close>, \<open>Utils.h\<close>): the directory of the first process and those of the
  processes that are forked, the four log files with the streams that copy messages and warnings to several of
  them, and the construction of the instance as far as files go. The file system is a parameter.
\<close>

section \<open>Streams\<close>

text \<open>\<open>Raw\<close> is a stream of LLVM on a file or on the output of the process, the others are the classes
  \<open>raw_tee_ostream\<close> and \<open>raw_highlight_ostream\<close>, which do not buffer. What arrives at a file is a string.\<close>

datatype sink = Info_File | Debug_File | Messages_File | Warnings_File | Stdout | Stderr

datatype stream = Raw sink | Tee "stream list" | Highlight stream

type_synonym outputs = "sink \<Rightarrow> string"

definition escape_code :: "string \<Rightarrow> string" where "escape_code code = CHR 0x1B # code"

fun write_stream :: "stream \<Rightarrow> string \<Rightarrow> outputs \<Rightarrow> outputs" where
  "write_stream (Raw k) text out = out(k := out k @ text)"
| "write_stream (Tee bufs) text out = fold (\<lambda>buf. write_stream buf text) bufs out"
| "write_stream (Highlight buf) text out =
     write_stream buf (escape_code ''[0m'') (write_stream buf text (write_stream buf (escape_code ''[31m'') out))"

text \<open>\<open>operator<<\<close>: nothing is passed on for an empty text.\<close>

definition put_piece :: "stream \<Rightarrow> string \<Rightarrow> outputs \<Rightarrow> outputs" where
  "put_piece s text out = (if text = [] then out else write_stream s text out)"

definition raw_tee_ostream :: "stream \<Rightarrow> stream" where
  "raw_tee_ostream master = Tee [master]"

fun addParentBuf :: "stream \<Rightarrow> stream \<Rightarrow> stream" where
  "addParentBuf buf (Tee bufs) = Tee (buf # bufs)"
| "addParentBuf buf s = s"

definition messageStream :: "bool \<Rightarrow> stream" where
  "messageStream verbose =
     (let s = addParentBuf (Raw Debug_File) (raw_tee_ostream (Raw Messages_File))
      in if verbose then addParentBuf (Raw Stdout) s else s)"

definition warningsStream :: stream where
  "warningsStream = addParentBuf (Highlight (Raw Stderr)) (addParentBuf (Raw Messages_File)
     (addParentBuf (Raw Debug_File) (raw_tee_ostream (Raw Warnings_File))))"

text \<open>\<open>getStream\<close> puts a prefix of several pieces before the text when a state is given. \<open>secs\<close> is the time since the start.\<close>

record log_conf =
  log_maxProcesses :: u32
  log_index :: u32
  log_id :: nat
  log_verbose :: bool

definition state_prefix :: "log_conf \<Rightarrow> nat \<Rightarrow> nat option \<Rightarrow> string list" where
  "state_prefix cf secs state = (case state of
     None \<Rightarrow> []
   | Some sid \<Rightarrow> [decimal secs, '' ''] @
       (if 1 < log_maxProcesses cf
        then [''[Node '', decimal (unat (log_index cf)), ''/'', decimal (log_id cf), '' - State '', decimal sid, ''] '']
        else [''[State '', decimal sid, ''] '']))"

datatype log_level = Info | Debug | Message | Warning

fun stream_of :: "bool \<Rightarrow> log_level \<Rightarrow> stream" where
  "stream_of verbose Info = Raw Info_File"
| "stream_of verbose Debug = Raw Debug_File"
| "stream_of verbose Message = messageStream verbose"
| "stream_of verbose Warning = warningsStream"

text \<open>One use of a log: the level, the time, the state and the pieces of the text.\<close>

datatype log_entry = Entry (entry_level: log_level) (entry_secs: nat) (entry_state: "nat option") (entry_text: "string list")

definition entry_pieces :: "log_conf \<Rightarrow> log_entry \<Rightarrow> string list" where
  "entry_pieces cf e = state_prefix cf (entry_secs e) (entry_state e) @ entry_text e"

definition write_entry :: "log_conf \<Rightarrow> log_entry \<Rightarrow> outputs \<Rightarrow> outputs" where
  "write_entry cf e out = fold (put_piece (stream_of (log_verbose cf) (entry_level e))) (entry_pieces cf e) out"

definition log_run :: "log_conf \<Rightarrow> log_entry list \<Rightarrow> outputs" where
  "log_run cf es = fold (write_entry cf) es (\<lambda>_. [])"

text \<open>The functions for C code: the text is cut to the buffer of 512 bytes; without an instance nothing happens.\<close>

definition printf_text :: "string \<Rightarrow> string" where
  "printf_text formatted = take 511 formatted"

definition s2e_debug_print :: "log_conf option \<Rightarrow> string \<Rightarrow> outputs \<Rightarrow> outputs" where
  "s2e_debug_print g_s2e formatted out = (case g_s2e of
     None \<Rightarrow> out | Some cf \<Rightarrow> write_entry cf (Entry Debug 0 None [printf_text formatted]) out)"

definition s2e_warning_print :: "log_conf option \<Rightarrow> string \<Rightarrow> outputs \<Rightarrow> outputs" where
  "s2e_warning_print g_s2e formatted out = (case g_s2e of
     None \<Rightarrow> out | Some cf \<Rightarrow> write_entry cf (Entry Warning 0 None [printf_text formatted]) out)"

section \<open>Directories\<close>

text \<open>The operations on files; \<open>None\<close> is failure.\<close>

record 'f fs_ops =
  fs_exists :: "'f \<Rightarrow> string \<Rightarrow> bool"
  create_directories :: "string \<Rightarrow> 'f \<Rightarrow> 'f option"
  fs_remove :: "string \<Rightarrow> 'f \<Rightarrow> 'f option"
  create_symlink :: "string \<Rightarrow> string \<Rightarrow> 'f \<Rightarrow> 'f option"
  fs_open :: "string \<Rightarrow> 'f \<Rightarrow> 'f option"
  path_append :: "string \<Rightarrow> string \<Rightarrow> string"
  make_absolute :: "string \<Rightarrow> string"

record 'f s2e_files =
  m_outputDirectory :: string
  m_outputDirectoryBase :: string
  m_maxProcesses :: u32
  m_currentIndex :: u32
  disk :: 'f

definition getOutputFilename :: "'f fs_ops \<Rightarrow> string \<Rightarrow> 'f s2e_files \<Rightarrow> string" where
  "getOutputFilename F fileName s = path_append F (m_outputDirectory s) fileName"

definition openOutputFile :: "'f fs_ops \<Rightarrow> string \<Rightarrow> 'f s2e_files \<Rightarrow> 'f s2e_files res" where
  "openOutputFile F fileName s = (case fs_open F (getOutputFilename F fileName s) (disk s) of
     None \<Rightarrow> Inl (Process_Exit (- 1)) | Some d \<Rightarrow> Inr (s\<lparr>disk := d\<rparr>))"

text \<open>The search for a name that is not in use; it need not end.\<close>

definition out_name :: "'f fs_ops \<Rightarrow> nat \<Rightarrow> string" where
  "out_name F i = make_absolute F (''s2e-out-'' @ decimal i)"

partial_function (option) free_name :: "'f fs_ops \<Rightarrow> 'f \<Rightarrow> nat \<Rightarrow> string option" where
  "free_name F d i = (if \<not> fs_exists F d (out_name F i) then Some (out_name F i) else free_name F d (i + 1))"

definition choose_directory :: "'f fs_ops \<Rightarrow> string \<Rightarrow> bool \<Rightarrow> 'f s2e_files \<Rightarrow> 'f s2e_files option" where
  "choose_directory F outputDirectory forked s =
     (if \<not> forked then
        (case (if outputDirectory = [] then free_name F (disk s) 0 else Some outputDirectory) of
          None \<Rightarrow> None
        | Some dir \<Rightarrow> Some (s\<lparr>m_outputDirectory := dir, m_outputDirectoryBase := dir\<rparr>))
      else Some (s\<lparr>m_outputDirectory := m_outputDirectoryBase s\<rparr>))"

definition process_directory :: "'f fs_ops \<Rightarrow> 'f s2e_files \<Rightarrow> 'f s2e_files res" where
  "process_directory F s =
     (if 1 < m_maxProcesses s then
        let dirPath = path_append F (m_outputDirectory s) (decimal (unat (m_currentIndex s))) in
        rbind (assert_that (\<not> fs_exists F (disk s) dirPath)) (\<lambda>_. Inr (s\<lparr>m_outputDirectory := dirPath\<rparr>))
      else Inr s)"

definition make_directory :: "'f fs_ops \<Rightarrow> 'f s2e_files \<Rightarrow> 'f s2e_files res" where
  "make_directory F s = (case create_directories F (m_outputDirectory s) (disk s) of
     None \<Rightarrow> Inl (Process_Exit (- 1)) | Some d \<Rightarrow> Inr (s\<lparr>disk := d\<rparr>))"

definition link_last :: "'f fs_ops \<Rightarrow> bool \<Rightarrow> 'f s2e_files \<Rightarrow> 'f s2e_files res" where
  "link_last F forked s =
     (if \<not> forked then
        let s2eLast = make_absolute F ''s2e-last'' in
        (case fs_remove F s2eLast (disk s) of
          None \<Rightarrow> Inl (Process_Exit 1)
        | Some d \<Rightarrow> (case create_symlink F (m_outputDirectoryBase s) s2eLast d of
            None \<Rightarrow> Inl (Process_Exit 1) | Some d' \<Rightarrow> Inr (s\<lparr>disk := d'\<rparr>)))
      else Inr s)"

definition open_logs :: "'f fs_ops \<Rightarrow> 'f s2e_files \<Rightarrow> 'f s2e_files res" where
  "open_logs F s =
     rbind (openOutputFile F ''info.txt'' s) (\<lambda>s. rbind (openOutputFile F ''debug.txt'' s) (\<lambda>s.
     rbind (openOutputFile F ''messages.txt'' s) (openOutputFile F ''warnings.txt'')))"

definition initOutputDirectory :: "'f fs_ops \<Rightarrow> string \<Rightarrow> bool \<Rightarrow> 'f s2e_files \<Rightarrow> 'f s2e_files res option" where
  "initOutputDirectory F outputDirectory forked s =
     map_option (\<lambda>s. rbind (process_directory F s) (\<lambda>s. rbind (make_directory F s) (\<lambda>s.
       rbind (link_last F forked s) (open_logs F)))) (choose_directory F outputDirectory forked s)"

section \<open>The construction of the instance\<close>

text \<open>The text of the file \<open>s2e.cmdline\<close>, and the arguments that are passed to KLEE, with the null at the end.\<close>

definition quoted :: "string \<Rightarrow> string" where "quoted a = CHR 0x27 # a @ [CHR 0x27]"

definition cmdline_text :: "string list \<Rightarrow> string" where
  "cmdline_text argv = concat (map (\<lambda>i. (if i \<noteq> 0 then '' '' else []) @ quoted (argv ! i)) [0..<length argv])"

definition initKleeOptions :: "string list \<Rightarrow> (nat \<times> string option list) option" where
  "initKleeOptions kleeOptions =
     (if kleeOptions = [] then None
      else let numArgs = length kleeOptions + 1 in Some (numArgs, Some ''s2e.kleeArgs'' # map Some kleeOptions @ [None]))"

text \<open>The copy of the configuration is empty when the file cannot be read.\<close>

definition config_copy :: "string option \<Rightarrow> string" where
  "config_copy input = (case input of None \<Rightarrow> [] | Some text \<Rightarrow> text)"

definition S2E_new ::
  "'f fs_ops \<Rightarrow> string \<Rightarrow> u32 \<Rightarrow> u32 \<Rightarrow> string option \<Rightarrow> string list \<Rightarrow> s2e_shared \<Rightarrow> 'f s2e_files \<Rightarrow>
   (s2e_shared \<times> 'f s2e_files \<times> string \<times> string) res option" where
  "S2E_new F outputDirectory s2e_max_processes pid config argv sh s =
     (case S2E_new_table s2e_max_processes pid sh of
        Inl e \<Rightarrow> Some (Inl e)
      | Inr sh' \<Rightarrow> map_option (\<lambda>r. rbind r (\<lambda>s. rbind (openOutputFile F ''s2e.config.lua'' s) (\<lambda>s.
            rbind (openOutputFile F ''s2e.cmdline'' s) (\<lambda>s. Inr (sh', s, config_copy config, cmdline_text argv)))))
          (initOutputDirectory F outputDirectory False (s\<lparr>m_maxProcesses := s2e_max_processes, m_currentIndex := 0\<rparr>)))"

text \<open>The child of a fork sets up its own files, under the directory of the first process.\<close>

definition child_files :: "'f fs_ops \<Rightarrow> u32 \<Rightarrow> 'f s2e_files \<Rightarrow> 'f s2e_files res option" where
  "child_files F newProcessIndex s = initOutputDirectory F (m_outputDirectoryBase s) True (s\<lparr>m_currentIndex := newProcessIndex\<rparr>)"

section \<open>The contents of the logs\<close>

text \<open>What a piece is for a sink.\<close>

definition red :: "string \<Rightarrow> string" where
  "red t = (if t = [] then [] else escape_code ''[31m'' @ t @ escape_code ''[0m'')"

fun shown :: "bool \<Rightarrow> sink \<Rightarrow> log_level \<Rightarrow> string \<Rightarrow> string" where
  "shown v Info_File l t = (if l = Info then t else [])"
| "shown v Debug_File l t = (if l \<in> {Debug, Message, Warning} then t else [])"
| "shown v Messages_File l t = (if l \<in> {Message, Warning} then t else [])"
| "shown v Warnings_File l t = (if l = Warning then t else [])"
| "shown v Stdout l t = (if v \<and> l = Message then t else [])"
| "shown v Stderr l t = (if l = Warning then red t else [])"

lemma put_piece_shown: "put_piece (stream_of v l) t out k = out k @ shown v k l t"
  by (cases l; cases k)
    (auto simp: put_piece_def messageStream_def warningsStream_def raw_tee_ostream_def red_def Let_def)

lemma put_pieces_shown: "fold (put_piece (stream_of v l)) ts out k = out k @ concat (map (shown v k l) ts)"
  by (induction ts arbitrary: out) (simp_all add: put_piece_shown)

text \<open>C9: Whatever is logged in whatever order, every file has exactly the texts that belong in it, in order: the debug
  file all but the information of KLEE, the file of messages the messages and warnings, the file of warnings the
  warnings. The output of the process has the messages if it is verbose, and its error output every piece of the warnings in red.\<close>

theorem log_files_contents:
  "log_run cf es k = concat (map (\<lambda>e. concat (map (shown (log_verbose cf) k (entry_level e)) (entry_pieces cf e))) es)"
proof -
  have "fold (write_entry cf) es out k = out k @ concat (map (\<lambda>e. concat (map (shown (log_verbose cf) k (entry_level e)) (entry_pieces cf e))) es)"
    for out by (induction es arbitrary: out) (simp_all add: write_entry_def put_pieces_shown)
  then show ?thesis by (simp add: log_run_def)
qed

section \<open>Names\<close>

text \<open>The first name that is free is taken; when there is none the search does not end.\<close>

lemma free_name_from:
  assumes "\<not> fs_exists F d (out_name F n)" "\<forall>j<n. fs_exists F d (out_name F j)"
  shows "i \<le> n \<Longrightarrow> free_name F d i = Some (out_name F n)"
proof (induction "n - i" arbitrary: i)
  case 0
  then show ?case using assms(1) by (simp add: free_name.simps)
next
  case (Suc k)
  then have "free_name F d (Suc i) = Some (out_name F n)" "fs_exists F d (out_name F i)" using assms(2) by auto
  then show ?case by (simp add: free_name.simps [of F d i])
qed

theorem free_name_first:
  assumes "\<not> fs_exists F d (out_name F i)"
  shows "\<exists>n\<le>i. free_name F d 0 = Some (out_name F n) \<and> \<not> fs_exists F d (out_name F n) \<and> (\<forall>j<n. fs_exists F d (out_name F j))"
proof -
  let ?n = "LEAST n. \<not> fs_exists F d (out_name F n)"
  have "\<not> fs_exists F d (out_name F ?n)" using assms by (rule LeastI)
  moreover have "\<forall>j<?n. fs_exists F d (out_name F j)" using not_less_Least by blast
  moreover have "?n \<le> i" using assms by (rule Least_le)
  ultimately show ?thesis using free_name_from [of F d ?n 0] by blast
qed

theorem free_name_full:
  assumes "\<forall>i. fs_exists F d (out_name F i)"
  shows "free_name F d i = None"
proof -
  have "\<exists>j. \<not> fs_exists F d (out_name F j)" if "free_name F d i = Some r" for r
    by (rule free_name.raw_induct [where P = "\<lambda>F d i r. \<exists>j. \<not> fs_exists F d (out_name F j)", OF _ that]) (auto split: if_splits)
  with assms show ?thesis by (cases "free_name F d i") auto
qed

section \<open>Directories of processes\<close>

definition process_dir :: "'f fs_ops \<Rightarrow> string \<Rightarrow> u32 \<Rightarrow> string" where
  "process_dir F base i = path_append F base (decimal (unat i))"

text \<open>Names in a directory are told apart, and making the directory of a process or a file in it does not make
  the directory of another process.\<close>

definition fs_laws :: "'f fs_ops \<Rightarrow> string \<Rightarrow> bool" where
  "fs_laws F base \<longleftrightarrow> (\<forall>c c'. path_append F base c = path_append F base c' \<longrightarrow> c = c') \<and>
     (\<forall>d d' i j. create_directories F (process_dir F base i) d = Some d' \<and> i \<noteq> j \<and> fs_exists F d' (process_dir F base j) \<longrightarrow>
        fs_exists F d (process_dir F base j)) \<and>
     (\<forall>d d' i j name. fs_open F (path_append F (process_dir F base i) name) d = Some d' \<and> fs_exists F d' (process_dir F base j) \<longrightarrow>
        i = j \<or> fs_exists F d (process_dir F base j))"

text \<open>
  The processes of an instance with their files: a step of the process table, with which a child that starts
  sets up its files, fully or until a failure ends it, or a change of the disk by anybody that makes no directory of a process.
\<close>

definition child_on_disk :: "'f fs_ops \<Rightarrow> u32 \<Rightarrow> string \<Rightarrow> u32 \<Rightarrow> 'f \<Rightarrow> 'f s2e_files res option" where
  "child_on_disk F mx base i d = child_files F i
     \<lparr>m_outputDirectory = process_dir F base 0, m_outputDirectoryBase = base, m_maxProcesses = mx, m_currentIndex = 0, disk = d\<rparr>"

inductive reached_files :: "'f fs_ops \<Rightarrow> u32 \<Rightarrow> string \<Rightarrow> s2e_system \<times> 'f \<Rightarrow> bool" for F mx base where
  start: "S2E_new_table mx pid (S2EShared_new junk) = Inr sh \<Longrightarrow> pid \<noteq> none_id \<Longrightarrow>
    \<forall>i. i \<noteq> 0 \<longrightarrow> \<not> fs_exists F d (process_dir F base i) \<Longrightarrow> reached_files F mx base (initial_system pid sh, d)"
| table_step: "reached_files F mx base (w, d) \<Longrightarrow> possible ev w \<Longrightarrow> (\<forall>k pid. ev \<noteq> Child_Starts k pid) \<Longrightarrow>
    perform mx ev w = Inr w' \<Longrightarrow> reached_files F mx base (w', d)"
| child_step: "reached_files F mx base (w, d) \<Longrightarrow> possible (Child_Starts k pid) w \<Longrightarrow> perform mx (Child_Starts k pid) w = Inr w' \<Longrightarrow>
    child_on_disk F mx base (pending w ! k) d = Some (Inr s) \<Longrightarrow> reached_files F mx base (w', disk s)"
| child_fails: "reached_files F mx base (w, d) \<Longrightarrow> possible (Child_Starts k pid) w \<Longrightarrow> perform mx (Child_Starts k pid) w = Inr w' \<Longrightarrow>
    child_on_disk F mx base (pending w ! k) d = Some (Inl e) \<Longrightarrow>
    \<forall>i. fs_exists F d' (process_dir F base i) \<longrightarrow> pending w ! k = i \<or> fs_exists F d (process_dir F base i) \<Longrightarrow> reached_files F mx base (w', d')"
| disk_step: "reached_files F mx base (w, d) \<Longrightarrow> \<forall>i. fs_exists F d' (process_dir F base i) \<longrightarrow> fs_exists F d (process_dir F base i) \<Longrightarrow>
    reached_files F mx base (w, d')"

lemma files_reached: "reached_files F mx base (w, d) \<Longrightarrow> reached mx w"
  by (induction "(w, d)" arbitrary: w d rule: reached_files.induct) (auto intro: reached.intros simp del: perform.simps possible.simps)

text \<open>No directory of a process that is to come exists.\<close>

definition to_come :: "s2e_system \<Rightarrow> u32 \<Rightarrow> bool" where
  "to_come w i \<longleftrightarrow> i \<in> set (pending w) \<or> lastFileId (table w) \<le> i"

lemma reap_keeps_file_id: "lastFileId (check_dead_loop alive is sh) = lastFileId sh"
  by (induction alive "is" sh rule: check_dead_loop.induct) (simp_all add: set_slot_def)

lemma set_without: "k < length xs \<Longrightarrow> distinct xs \<Longrightarrow> set (without k xs) = set xs - {xs ! k}"
proof -
  assume k: "k < length xs" "distinct xs"
  have "xs = take k xs @ xs ! k # drop (Suc k) xs" using k(1) by (rule id_take_nth_drop)
  with k(2) have "distinct (take k xs @ xs ! k # drop (Suc k) xs)" "set xs = set (take k xs @ xs ! k # drop (Suc k) xs)" by simp_all
  then show ?thesis by (auto simp: without_def)
qed

lemma perform_pending:
  assumes "perform mx ev w = Inr w'"
  shows "ev = Reserve \<Longrightarrow> pending w' = pending w \<and> lastFileId (table w') = lastFileId (table w) \<or>
      pending w' = lastFileId (table w) # pending w \<and> lastFileId (table w') = lastFileId (table w) + 1"
    "ev \<in> {Fork_Fails k, Child_Starts k pid, Child_Dies k} \<Longrightarrow>
      pending w' = without k (pending w) \<and> lastFileId (table w') = lastFileId (table w)"
    "ev \<in> {Leaves k, Crashes k, Reaps pids, Fetches_Id} \<Longrightarrow> pending w' = pending w \<and> lastFileId (table w') = lastFileId (table w)"
proof -
  show "pending w' = pending w \<and> lastFileId (table w') = lastFileId (table w) \<or>
      pending w' = lastFileId (table w) # pending w \<and> lastFileId (table w') = lastFileId (table w) + 1" if "ev = Reserve"
    using assms that by (auto simp: fork_reserve_def split: if_splits)
  show "pending w' = without k (pending w) \<and> lastFileId (table w') = lastFileId (table w)"
    if "ev \<in> {Fork_Fails k, Child_Starts k pid, Child_Dies k}"
    using assms that by (auto simp: fork_failed_def fork_child_def Let_def rbind_Inr_iff set_slot_def)
  assume "ev \<in> {Leaves k, Crashes k, Reaps pids, Fetches_Id}"
  then consider "ev = Leaves k" | "ev = Crashes k" | "ev = Reaps pids" | "ev = Fetches_Id" by blast
  then show "pending w' = pending w \<and> lastFileId (table w') = lastFileId (table w)"
  proof cases
    case 1
    then obtain sh where "S2E_leave (m_currentProcessId (running w ! k)) (m_currentProcessIndex (running w ! k)) (table w) = Inr sh"
      "w' = w\<lparr>table := sh, running := without k (running w)\<rparr>" using assms by (auto simp: Let_def rbind_Inr_iff)
    then show ?thesis by (simp add: S2E_leave_def rbind_Inr_iff set_slot_def assert_that_def split: if_splits) auto
  next
    case 3
    then have "w' = w\<lparr>table := snd (checkDeadProcesses mx (\<lambda>p. p \<in> set pids) (table w)),
            crashed := filter (\<lambda>p. process_pid p \<in> set pids) (crashed w)\<rparr>" using assms by simp
    then show ?thesis by (simp add: checkDeadProcesses_def Let_def reap_keeps_file_id)
  qed (use assms in \<open>auto simp: fetchAndIncrementStateId_def\<close>)
qed

lemma to_come_step:
  assumes inv: "system_inv mx w" and ev: "possible ev w" and run: "perform mx ev w = Inr w'" and i: "to_come w' i"
  shows "to_come w i" "ev = Child_Starts k pid \<Longrightarrow> i \<noteq> pending w ! k"
proof -
  have d: "distinct (pending w)" "\<And>i. i \<in> set (pending w) \<Longrightarrow> i < lastFileId (table w)"
    using inv by (auto simp: system_inv_def indices_ok_def distinct_below_def)
  have taken: "to_come w i \<and> i \<noteq> pending w ! j"
    if "pending w' = without j (pending w) \<and> lastFileId (table w') = lastFileId (table w)" "j < length (pending w)" for j
  proof -
    have p: "pending w ! j < lastFileId (table w)" using that(2) by (intro d(2) nth_mem)
    have "i \<in> set (pending w) - {pending w ! j} \<or> lastFileId (table w) \<le> i"
      using i that(1) unfolding to_come_def set_without [OF that(2) d(1), symmetric] by simp
    then show ?thesis
    proof
      assume "lastFileId (table w) \<le> i"
      moreover from this p have "pending w ! j < i" by (rule less_le_trans [rotated])
      ultimately show ?thesis by (simp add: to_come_def)
    qed (simp add: to_come_def)
  qed
  have same: "to_come w i" if "pending w' = pending w \<and> lastFileId (table w') = lastFileId (table w)"
    using that i by (simp add: to_come_def)
  show "to_come w i"
  proof (cases ev)
    case Reserve
    have "lastFileId (table w) \<le> lastFileId (table w) + 1" using ev unat_succ Reserve by (simp add: word_le_nat_alt)
    then show ?thesis using i perform_pending(1) [OF run Reserve] by (auto simp: to_come_def)
  next
    case (Fork_Fails j)
    then show ?thesis using taken [OF perform_pending(2) [OF run, of j 0]] ev by simp
  next
    case (Child_Starts j q)
    then show ?thesis using taken [OF perform_pending(2) [OF run, of j q]] ev by simp
  next
    case (Child_Dies j)
    then show ?thesis using taken [OF perform_pending(2) [OF run, of j 0]] ev by simp
  next
    case (Leaves j)
    then show ?thesis using same [OF perform_pending(3) [OF run, of j "[]"]] by simp
  next
    case (Crashes j)
    then show ?thesis using same [OF perform_pending(3) [OF run, of j "[]"]] by simp
  next
    case (Reaps pids)
    then show ?thesis using same [OF perform_pending(3) [OF run, of 0 pids]] by simp
  next
    case Fetches_Id
    then show ?thesis using same [OF perform_pending(3) [OF run, of 0 "[]"]] by simp
  qed
  show "i \<noteq> pending w ! k" if "ev = Child_Starts k pid"
    using that taken [OF perform_pending(2) [OF run, of k pid]] ev by simp
qed

lemma child_on_disk_eq:
  assumes "1 < mx"
  shows "child_on_disk F mx base i d =
    (let s = \<lparr>m_outputDirectory = process_dir F base i, m_outputDirectoryBase = base, m_maxProcesses = mx, m_currentIndex = i, disk = d\<rparr>
     in Some (if fs_exists F d (process_dir F base i) then Inl Assertion_Failed else rbind (make_directory F s) (open_logs F)))"
  using assms by (simp add: child_on_disk_def child_files_def initOutputDirectory_def choose_directory_def process_directory_def
    link_last_def process_dir_def Let_def)

lemma open_file_dirs:
  assumes "fs_laws F base" "m_outputDirectory s = process_dir F base i" "openOutputFile F name s = Inr s'"
  shows "m_outputDirectory s' = process_dir F base i"
    "fs_exists F (disk s') (process_dir F base j) \<Longrightarrow> i = j \<or> fs_exists F (disk s) (process_dir F base j)"
proof -
  obtain d where d: "fs_open F (path_append F (process_dir F base i) name) (disk s) = Some d" "s' = s\<lparr>disk := d\<rparr>"
    using assms(2,3) by (auto simp: openOutputFile_def getOutputFilename_def split: option.splits)
  then show "m_outputDirectory s' = process_dir F base i" using assms(2) by simp
  show "i = j \<or> fs_exists F (disk s) (process_dir F base j)" if "fs_exists F (disk s') (process_dir F base j)"
    using assms(1) d that unfolding fs_laws_def by simp blast
qed

lemma open_logs_dirs:
  assumes laws: "fs_laws F base" and dir: "m_outputDirectory s = process_dir F base i" and run: "open_logs F s = Inr s'"
    and ex: "fs_exists F (disk s') (process_dir F base j)"
  shows "i = j \<or> fs_exists F (disk s) (process_dir F base j)"
proof -
  obtain s1 s2 s3 where o: "openOutputFile F ''info.txt'' s = Inr s1" "openOutputFile F ''debug.txt'' s1 = Inr s2"
    "openOutputFile F ''messages.txt'' s2 = Inr s3" "openOutputFile F ''warnings.txt'' s3 = Inr s'"
    using run by (auto simp: open_logs_def rbind_Inr_iff)
  note d1 = open_file_dirs [OF laws dir o(1)] note d2 = open_file_dirs [OF laws d1(1) o(2)]
  note d3 = open_file_dirs [OF laws d2(1) o(3)] note d4 = open_file_dirs [OF laws d3(1) o(4)]
  show ?thesis using ex d1(2) d2(2) d3(2) d4(2) by blast
qed

lemma child_disk:
  assumes laws: "fs_laws F base" and mx: "1 < mx" and run: "child_on_disk F mx base i d = Some (Inr s)"
    and ex: "fs_exists F (disk s) (process_dir F base j)"
  shows "i = j \<or> fs_exists F d (process_dir F base j)"
proof -
  let ?s = "\<lparr>m_outputDirectory = process_dir F base i, m_outputDirectoryBase = base, m_maxProcesses = mx, m_currentIndex = i, disk = d\<rparr>"
  obtain s1 where s1: "make_directory F ?s = Inr s1" "open_logs F s1 = Inr s"
    using run by (auto simp: child_on_disk_eq [OF mx] Let_def rbind_Inr_iff split: if_splits)
  then obtain d' where d': "create_directories F (process_dir F base i) d = Some d'" "s1 = ?s\<lparr>disk := d'\<rparr>"
    by (auto simp: make_directory_def split: option.splits)
  then have "m_outputDirectory s1 = process_dir F base i" by simp
  from open_logs_dirs [OF laws this s1(2) ex] have "i = j \<or> fs_exists F d' (process_dir F base j)" using d'(2) by simp
  then show ?thesis using laws d'(1) unfolding fs_laws_def by blast
qed

lemma no_directory_to_come:
  assumes laws: "fs_laws F base" and mx: "1 < mx"
  shows "reached_files F mx base (w, d) \<Longrightarrow> to_come w i \<Longrightarrow> \<not> fs_exists F d (process_dir F base i)"
proof (induction "(w, d)" arbitrary: w d i rule: reached_files.induct)
  case (start pid junk sh d)
  have "lastFileId sh = 1" using start.hyps(1) by (auto simp: S2E_new_table_def set_slot_def split: if_splits)
  then have "i \<noteq> 0" using start.prems by (auto simp: to_come_def initial_system_def)
  then show ?case using start.hyps(3) by simp
next
  case (table_step w d ev w')
  show ?case using table_step.hyps(2) to_come_step(1) [OF reached_inv [OF files_reached [OF table_step.hyps(1)]] table_step.hyps(3,5) table_step.prems]
    by simp
next
  case (child_step w d k pid w' s)
  note tc = to_come_step [OF reached_inv [OF files_reached [OF child_step.hyps(1)]] child_step.hyps(3,4) child_step.prems]
  have "pending w ! k \<noteq> i" using tc(2) by blast
  then show ?case using child_step.hyps(2) [OF tc(1)] child_disk [OF laws mx child_step.hyps(5)] by blast
next
  case (child_fails w d k pid w' e d')
  note tc = to_come_step [OF reached_inv [OF files_reached [OF child_fails.hyps(1)]] child_fails.hyps(3,4) child_fails.prems]
  have "pending w ! k \<noteq> i" using tc(2) by blast
  then show ?case using child_fails.hyps(2) [OF tc(1)] child_fails.hyps(6) by blast
next
  case (disk_step w d d')
  then show ?case by blast
qed


section \<open>A disk that is a set of names\<close>

definition set_disk :: "string set fs_ops" where
  "set_disk = \<lparr>fs_exists = (\<lambda>d p. p \<in> d), create_directories = (\<lambda>p d. Some (insert p d)), fs_remove = (\<lambda>p d. Some (d - {p})),
     create_symlink = (\<lambda>t p d. Some (insert p d)), fs_open = (\<lambda>p d. Some (insert p d)),
     path_append = (\<lambda>p c. p @ ''/'' @ c), make_absolute = (\<lambda>p. ''/tmp/'' @ p)\<rparr>"

lemma set_disk_simps:
  "fs_exists set_disk d p \<longleftrightarrow> p \<in> d" "create_directories set_disk p d = Some (insert p d)"
  "fs_open set_disk p d = Some (insert p d)" "path_append set_disk p c = p @ ''/'' @ c"
  by (simp_all add: set_disk_def)

lemma set_disk_laws: "fs_laws set_disk base"
proof -
  have inj: "process_dir set_disk base i = process_dir set_disk base j \<longleftrightarrow> i = j" for i j :: u32
    by (simp add: process_dir_def set_disk_def decimal_eq_iff word_unat_eq_iff)
  have other: "path_append set_disk (process_dir set_disk base i) name \<noteq> process_dir set_disk base j" for i j :: u32 and name
  proof
    assume "path_append set_disk (process_dir set_disk base i) name = process_dir set_disk base j"
    then have "decimal (unat i) @ ''/'' @ name = decimal (unat j)" by (simp add: process_dir_def set_disk_def)
    then have "CHR ''/'' \<in> set (decimal (unat j))" by (metis append_Cons in_set_conv_decomp)
    with decimal_digits [of "unat j"] show False by (auto simp: is_digit_def)
  qed
  show ?thesis unfolding fs_laws_def set_disk_simps(1-3) using inj other other [symmetric]
    by (auto simp: set_disk_simps(4))
qed


end
