(* ===== verification/Executor_Start.thy ===== *)
theory Executor_Start
  imports Executor_Setup
begin

text \<open>
  How the executor comes up (\<open>S2EExecutor.cpp\<close>, with the tables of \<open>MMUFunctionHandlers.cpp\<close>): the constructor,
  which makes symbols known to LLVM, prepares the module and installs the handlers of special functions,
  and the first execution state with the global variables that it shares with native code. Nine fragments
  are replaced by failing assertions; \<open>stub\<close> stands for them and gives the symbols that a fragment would add.
\<close>

section \<open>State\<close>

datatype stub_point =
    Io_Regions
  | Mmu_Fault
  | System_Functions
  | Io_Helpers
  | Phys_Functions
  | Bitcode_Name
  | Init_Helpers
  | Switch_Timer
  | Helper_Registration

record start_options =
  UseSelectCleaner :: bool
  UseFastHelpers :: bool
  ForkOnSymbolicAddress :: bool
  ConcretizeIoAddress :: bool
  ConcretizeIoWrites :: bool
  ConcolicMode :: bool
  useStatistics :: bool
  execute_llvm :: bool

text \<open>
  \<open>symbols\<close> are the names given to \<open>AddSymbol\<close>, \<open>module_functions\<close> those of the functions in the module, \<open>handlers\<close> the
  table of special functions by name, \<open>overriden\<close> is \<open>overridenInternalFunctions\<close>.
\<close>

record llvm_start =
  symbols :: "string list"
  passes :: "string list"
  module_functions :: "string set"
  handlers :: "string \<rightharpoonup> string"
  overriden :: "string set"
  m_dummyMain :: "string option"
  stats_tracker :: bool
  m_forceConcretizations :: bool
  g_s2e_fork_on_symbolic_address :: bool
  g_s2e_concretize_io_addresses :: bool
  g_s2e_concretize_io_writes :: bool
  concolicMode :: bool

section \<open>Symbols\<close>

definition helper_register_symbol :: "string \<Rightarrow> llvm_start \<Rightarrow> llvm_start" where
  "helper_register_symbol name st = st\<lparr>symbols := symbols st @ [name]\<rparr>"

definition add_symbols :: "string list \<Rightarrow> llvm_start \<Rightarrow> llvm_start" where
  "add_symbols ns st = fold helper_register_symbol ns st"

text \<open>The functions of the processor; \<open>helpers\<close> are those that \<open>helper_register_symbols\<close> of QEMU registers.\<close>

definition arch_symbols :: "arch \<Rightarrow> string list \<Rightarrow> string list" where
  "arch_symbols arch helpers = (if arch = ARM then [''cpsr_read'', ''cpsr_write'', ''arm_cpu_list'']
     else [''cpu_x86_update_cr0'', ''cpu_x86_update_cr3'', ''cpu_x86_update_cr4'', ''cpu_x86_cpuid'', ''cpu_get_apic_base'',
       ''cpu_set_apic_base'', ''cpu_get_apic_tpr'', ''cpu_set_apic_tpr'', ''cpu_smm_update'', ''hw_breakpoint_insert'',
       ''hw_breakpoint_remove'', ''check_hw_breakpoints'', ''cpu_get_tsc''] @ helpers)"

definition define_symbols :: "(stub_point \<Rightarrow> string list res) \<Rightarrow> arch \<Rightarrow> string list \<Rightarrow> llvm_start \<Rightarrow> llvm_start res" where
  "define_symbols stub arch helpers st =
     rbind (stub Io_Regions) (\<lambda>s1. rbind (stub Mmu_Fault) (\<lambda>s2. rbind (stub System_Functions) (\<lambda>s3.
     rbind (stub Io_Helpers) (\<lambda>s4. rbind (stub Phys_Functions) (\<lambda>s5.
       Inr (add_symbols ([''g_s2e_enable_mmio_checks'', ''fprintf'', ''sprintf'', ''fputc'', ''fwrite''] @ s1 @
         [''cpu_io_recompile''] @ s2 @ arch_symbols arch helpers @
         [''cpu_outb'', ''cpu_outw'', ''cpu_outl'', ''cpu_inb'', ''cpu_inw'', ''cpu_inl'', ''cpu_restore_state'', ''cpu_abort'',
          ''cpu_loop_exit''] @ s3 @ [''tlb_flush_page'', ''tlb_flush''] @ s4 @
         [''s2e_ensure_symbolic'', ''s2e_on_page_fault'', ''s2e_is_port_symbolic'', ''s2e_is_mmio_symbolic_b'',
          ''s2e_is_mmio_symbolic_w'', ''s2e_is_mmio_symbolic_l'', ''s2e_is_mmio_symbolic_q'', ''s2e_on_privilege_change'',
          ''s2e_on_page_fault''] @ s5) st))))))"

section \<open>Handlers\<close>

definition addSpecialFunctionHandler :: "string \<times> string \<Rightarrow> llvm_start \<Rightarrow> llvm_start res" where
  "addSpecialFunctionHandler fh st =
     rbind (assert_that (fst fh \<in> module_functions st)) (\<lambda>_. Inr (st\<lparr>handlers := (handlers st)(fst fh \<mapsto> snd fh)\<rparr>))"

fun add_handlers :: "(string \<times> string) list \<Rightarrow> llvm_start \<Rightarrow> llvm_start res" where
  "add_handlers [] st = Inr st"
| "add_handlers (fh # fhs) st = rbind (addSpecialFunctionHandler fh st) (add_handlers fhs)"

definition special_functions :: "arch \<Rightarrow> (string \<times> string) list" where
  "special_functions arch =
     [(''tcg_llvm_trace_memory_access'', ''handlerTraceMemoryAccess''),
      (''tcg_llvm_hijack_memory_access'', ''handlerHijackMemoryAccess'')] @
     (if arch \<noteq> ARM then [(''tcg_llvm_trace_port_access'', ''handlerTracePortAccess'')] else []) @
     [(''s2e_on_tlb_miss'', ''handlerOnTlbMiss''), (''tcg_llvm_fork_and_concretize'', ''handleForkAndConcretize'')] @
     (if arch \<noteq> ARM then [(''tcg_llvm_make_symbolic'', ''handleMakeSymbolic'')] else []) @
     [(''tcg_llvm_get_value'', ''handleGetValue'')]"

definition trace_instruction :: "string \<times> string" where
  "trace_instruction = (''tcg_llvm_trace_instruction'', ''handlerTraceInstruction'')"

definition s_handlerInfo :: "arch \<Rightarrow> (string \<times> string) list" where
  "s_handlerInfo arch =
     [(''__ldb_mmu'', ''handle_ldb_mmu''), (''__ldw_mmu'', ''handle_ldw_mmu''), (''__ldl_mmu'', ''handle_ldl_mmu''),
      (''__stb_mmu'', ''handle_stb_mmu''), (''__stw_mmu'', ''handle_stw_mmu''), (''__stl_mmu'', ''handle_stl_mmu''),
      (''lduw_kernel'', ''handle_lduw_kernel''), (''ldl_kernel'', ''handle_ldl_kernel''), (''stl_kernel'', ''handle_stl_kernel'')] @
     (if arch = X86_64 then [(''__stq_mmu'', ''handle_stq_mmu''), (''__ldq_mmu'', ''handle_ldq_mmu''),
        (''ldq_kernel'', ''handle_ldq_kernel''), (''stq_kernel'', ''handle_stq_kernel'')] else [])"

fun replace_loop :: "(string \<times> string) list \<Rightarrow> llvm_start \<Rightarrow> llvm_start res" where
  "replace_loop [] st = Inr st"
| "replace_loop (hi # his) st = rbind (addSpecialFunctionHandler hi st) (\<lambda>st.
     replace_loop his (st\<lparr>overriden := insert (fst hi) (overriden st)\<rparr>))"

definition replaceExternalFunctionsWithSpecialHandlers :: "arch \<Rightarrow> llvm_start \<Rightarrow> llvm_start res" where
  "replaceExternalFunctionsWithSpecialHandlers arch st = replace_loop (s_handlerInfo arch) st"

definition s_disabledHelpers :: "string list" where
  "s_disabledHelpers = [''helper_load_seg'']"

fun disable_loop :: "string list \<Rightarrow> llvm_start \<Rightarrow> llvm_start res" where
  "disable_loop [] st = Inr st"
| "disable_loop (f # fs) st = rbind (assert_that (f \<in> module_functions st)) (\<lambda>_. disable_loop fs (st\<lparr>module_functions := module_functions st - {f}\<rparr>))"

definition disableConcreteLLVMHelpers :: "llvm_start \<Rightarrow> llvm_start res" where
  "disableConcreteLLVMHelpers st = disable_loop s_disabledHelpers st"

section \<open>The constructor\<close>

text \<open>\<open>link\<close> is KLEE's \<open>setModule\<close>: the functions of the module after it is linked with the helpers of a file. A
  module may have a function or something else of the name that \<open>getOrInsertFunction\<close> is asked for, \<open>clash\<close>.\<close>

definition select_cleaner :: "start_options \<Rightarrow> llvm_start \<Rightarrow> llvm_start" where
  "select_cleaner opt st = (if UseSelectCleaner opt then st\<lparr>passes := passes st @ [''SelectRemovalPass'']\<rparr> else st)"

definition set_module ::
  "(stub_point \<Rightarrow> string list res) \<Rightarrow> (string option \<Rightarrow> string set \<Rightarrow> string set) \<Rightarrow> start_options \<Rightarrow> string option \<Rightarrow> bool \<Rightarrow>
   llvm_start \<Rightarrow> llvm_start res" where
  "set_module stub link opt filename long_pointers st =
     rbind (if execute_llvm opt then Inr None
            else rbind (stub Bitcode_Name) (\<lambda>_. rbind (assert_that (filename \<noteq> None)) (\<lambda>_. Inr filename))) (\<lambda>file.
     rbind (assert_that long_pointers) (\<lambda>_.
       let st1 = st\<lparr>module_functions := link file (module_functions st)\<rparr> in
       if UseFastHelpers opt then disableConcreteLLVMHelpers st1 else Inr st1))"

definition dummy_main :: "llvm_start \<Rightarrow> llvm_start" where
  "dummy_main st = st\<lparr>module_functions := {''s2e_dummyTbFunction'', ''s2e_dummyMainFunction''} \<union> module_functions st,
     m_dummyMain := Some ''s2e_dummyMainFunction''\<rparr>"

definition install_handlers ::
  "(stub_point \<Rightarrow> string list res) \<Rightarrow> start_options \<Rightarrow> arch \<Rightarrow> bool \<Rightarrow> llvm_start \<Rightarrow> llvm_start res" where
  "install_handlers stub opt arch clash st =
     (if execute_llvm opt then Inr st
      else rbind (add_handlers (special_functions arch) st) (\<lambda>st.
           rbind (assert_that (\<not> clash)) (\<lambda>_.
           rbind (addSpecialFunctionHandler trace_instruction (st\<lparr>module_functions := insert (fst trace_instruction) (module_functions st)\<rparr>)) (\<lambda>st.
           rbind (if UseFastHelpers opt then replaceExternalFunctionsWithSpecialHandlers arch st else Inr st) (\<lambda>st.
           rbind (stub Init_Helpers) (\<lambda>_. Inr st))))))"

definition initializeStatistics :: "start_options \<Rightarrow> llvm_start \<Rightarrow> llvm_start" where
  "initializeStatistics opt st = (if useStatistics opt then st\<lparr>stats_tracker := True\<rparr> else st)"

definition set_options :: "start_options \<Rightarrow> llvm_start \<Rightarrow> llvm_start" where
  "set_options opt st = st\<lparr>m_forceConcretizations := False, g_s2e_fork_on_symbolic_address := ForkOnSymbolicAddress opt,
     g_s2e_concretize_io_addresses := ConcretizeIoAddress opt, g_s2e_concretize_io_writes := ConcretizeIoWrites opt,
     concolicMode := ConcolicMode opt\<rparr>"

definition S2EExecutor_new ::
  "(stub_point \<Rightarrow> string list res) \<Rightarrow> (string option \<Rightarrow> string set \<Rightarrow> string set) \<Rightarrow> start_options \<Rightarrow> arch \<Rightarrow> string list \<Rightarrow>
   string option \<Rightarrow> bool \<Rightarrow> bool \<Rightarrow> llvm_start \<Rightarrow> llvm_start res" where
  "S2EExecutor_new stub link opt arch helpers filename long_pointers clash st =
     rbind (define_symbols stub arch helpers st) (\<lambda>st.
     rbind (set_module stub link opt filename long_pointers (select_cleaner opt st)) (\<lambda>st.
     rbind (install_handlers stub opt arch clash (dummy_main st)) (\<lambda>st.
       if UseFastHelpers opt \<and> \<not> ForkOnSymbolicAddress opt then Inl (Process_Exit (- 1))
       else Inr (set_options opt (initializeStatistics opt st)))))"

text \<open>In this version the constructor fails at the first fragment.\<close>

lemma constructor_stubbed: "stub Io_Regions = Inl Assertion_Failed \<Longrightarrow>
  S2EExecutor_new stub link opt arch helpers filename long_pointers clash st = Inl Assertion_Failed"
  by (simp add: S2EExecutor_new_def define_symbols_def)

section \<open>The first state\<close>

text \<open>A global variable has an address and a size. The order of the objects is that of the code.\<close>

record boot =
  processTree :: "nat option"
  known_states :: "nat set"
  predefinedSymbols :: "string \<rightharpoonup> u64"
  m_executeAlwaysKlee :: bool

definition ext_mo :: "(string \<Rightarrow> u64 \<times> nat) \<Rightarrow> bool \<Rightarrow> string \<Rightarrow> mem_object" where
  "ext_mo globals shared name = \<lparr>mo_address = fst (globals name), mo_size = snd (globals name),
     isUserSpecified = True, isSharedConcrete = shared\<rparr>"

text \<open>\<open>__DEFINE_EXT_OBJECT_RO\<close> and \<open>__DEFINE_EXT_OBJECT_RO_SYMB\<close>: insertion into a map keeps an older entry.\<close>

definition define_ext_object ::
  "(mem_object \<Rightarrow> 'k \<Rightarrow> 'k) \<Rightarrow> (string \<Rightarrow> u64 \<times> nat) \<Rightarrow> string \<times> bool \<Rightarrow> 'k \<times> (string \<rightharpoonup> u64) \<Rightarrow> 'k \<times> (string \<rightharpoonup> u64)" where
  "define_ext_object add_external globals ns kp =
     (add_external (ext_mo globals (snd ns) (fst ns)) (fst kp),
      if snd kp (fst ns) = None then (snd kp)(fst ns \<mapsto> fst (globals (fst ns))) else snd kp)"

definition runtime_objects :: "string list" where
  "runtime_objects = [''tcg_llvm_runtime'', ''tb_function_args'']"

definition named_objects :: "arch \<Rightarrow> (string \<times> bool) list \<Rightarrow> (string \<times> bool) list" where
  "named_objects arch extra = [(''env'', True), (''g_s2e'', True), (''g_s2e_state'', True)] @ extra @
     (if arch = ARM then [] else [(''parity_table'', False), (''rclw_table'', False), (''rclb_table'', False)])"

text \<open>\<open>stub_objects\<close> are the objects that the fragment would add.\<close>

definition createInitialState ::
  "(mem_object \<Rightarrow> 'k \<Rightarrow> 'k) \<Rightarrow> (string \<Rightarrow> u64 \<times> nat) \<Rightarrow> (string \<times> bool) list res \<Rightarrow> arch \<Rightarrow> nat \<Rightarrow> nat \<Rightarrow> 'k \<Rightarrow> boot \<Rightarrow>
   (('e, 'o, 'k) exec_state \<times> boot) res" where
  "createInitialState add_external globals stub_objects arch ident kf k0 b =
     rbind (assert_that (processTree b = None)) (\<lambda>_.
       let st = S2EExecutionState_new ident k0 kf;
           k1 = fold (\<lambda>n k. add_external (ext_mo globals True n) k) runtime_objects k0
       in rbind stub_objects (\<lambda>extra.
         let (k2, pre) = fold (define_ext_object add_external globals) (named_objects arch extra) (k1, predefinedSymbols b)
         in Inr (st\<lparr>ram := (ram st)\<lparr>m_runningConcrete := True, m_active := True, klee := k2\<rparr>\<rparr>,
                 b\<lparr>processTree := Some ident, known_states := insert ident (known_states b), predefinedSymbols := pre\<rparr>)))"

text \<open>The rest is done by KLEE, but for the timer, which is stubbed out.\<close>

definition initializeExecution :: "(stub_point \<Rightarrow> string list res) \<Rightarrow> bool \<Rightarrow> boot \<Rightarrow> boot res" where
  "initializeExecution stub executeAlwaysKlee b =
     rbind (stub Switch_Timer) (\<lambda>_. Inr (b\<lparr>m_executeAlwaysKlee := executeAlwaysKlee\<rparr>))"

definition s2e_initialize_execution :: "(stub_point \<Rightarrow> string list res) \<Rightarrow> bool \<Rightarrow> boot \<Rightarrow> boot res" where
  "s2e_initialize_execution stub executeAlwaysKlee b =
     rbind (initializeExecution stub executeAlwaysKlee b) (\<lambda>b. rbind (stub Helper_Registration) (\<lambda>_. Inr b))"

section \<open>What the constructor establishes\<close>

lemma add_handlers_eq:
  "add_handlers fhs st =
     (if fst ` set fhs \<subseteq> module_functions st then Inr (st\<lparr>handlers := handlers st ++ map_of (rev fhs)\<rparr>) else Inl Assertion_Failed)"
  by (induction fhs arbitrary: st) (auto simp: addSpecialFunctionHandler_def map_add_def fun_eq_iff assert_that_def split: option.splits)

lemma replace_loop_eq:
  "replace_loop his st =
     (if fst ` set his \<subseteq> module_functions st
      then Inr (st\<lparr>handlers := handlers st ++ map_of (rev his), overriden := overriden st \<union> fst ` set his\<rparr>) else Inl Assertion_Failed)"
  by (induction his arbitrary: st) (auto simp: addSpecialFunctionHandler_def map_add_def fun_eq_iff assert_that_def split: option.splits)

lemma disable_loop_eq:
  "distinct fs \<Longrightarrow> disable_loop fs st =
     (if set fs \<subseteq> module_functions st then Inr (st\<lparr>module_functions := module_functions st - set fs\<rparr>) else Inl Assertion_Failed)"
proof (induction fs arbitrary: st)
  case (Cons f fs)
  have "set fs \<subseteq> module_functions st - {f} \<longleftrightarrow> set fs \<subseteq> module_functions st" using Cons.prems by auto
  moreover have "module_functions st - {f} - set fs = module_functions st - insert f (set fs)" by auto
  ultimately show ?case using Cons by (simp add: assert_that_def)
qed simp

text \<open>The functions that the linked module has to define.\<close>

definition required_functions :: "start_options \<Rightarrow> arch \<Rightarrow> string set" where
  "required_functions opt arch = fst ` set (special_functions arch) \<union>
     (if UseFastHelpers opt then set s_disabledHelpers \<union> fst ` set (s_handlerInfo arch) else {})"

definition handler_table :: "start_options \<Rightarrow> arch \<Rightarrow> (string \<times> string) list" where
  "handler_table opt arch = special_functions arch @ trace_instruction # (if UseFastHelpers opt then s_handlerInfo arch else [])"

definition final_functions :: "start_options \<Rightarrow> string set \<Rightarrow> string set" where
  "final_functions opt fs = (if UseFastHelpers opt then fs - set s_disabledHelpers else fs) \<union>
     {''s2e_dummyTbFunction'', ''s2e_dummyMainFunction'', fst trace_instruction}"

lemma table_names:
  "fst ` set (special_functions arch) \<inter> set s_disabledHelpers = {}"
  "fst ` set (s_handlerInfo arch) \<inter> set s_disabledHelpers = {}"
  "fst ` set (special_functions arch) \<inter> {''s2e_dummyTbFunction'', ''s2e_dummyMainFunction'', fst trace_instruction} = {}"
  "fst ` set (s_handlerInfo arch) \<inter> {''s2e_dummyTbFunction'', ''s2e_dummyMainFunction'', fst trace_instruction} = {}"
  by (cases arch; simp add: special_functions_def s_handlerInfo_def s_disabledHelpers_def trace_instruction_def)+

lemma table_distinct: "distinct (map fst (handler_table opt arch))"
  by (cases arch; cases "UseFastHelpers opt"; simp add: handler_table_def special_functions_def s_handlerInfo_def trace_instruction_def)

lemma s_disabledHelpers_distinct: "distinct s_disabledHelpers"
  by (simp add: s_disabledHelpers_def)

lemma map_of_rev: "distinct (map fst xs) \<Longrightarrow> map_of (rev xs) = map_of xs"
  by (rule map_of_inject_set [THEN iffD2]) (simp_all flip: rev_map)

text \<open>The part of the constructor after the symbols, for a build that reads its helpers from a file.\<close>

lemma set_module_eq:
  assumes "stub = (\<lambda>p. Inr (sy p))" "\<not> execute_llvm opt" "filename = Some f" "long_pointers"
  shows "set_module stub link opt filename long_pointers st =
    (if UseFastHelpers opt \<longrightarrow> set s_disabledHelpers \<subseteq> link (Some f) (module_functions st)
     then Inr (st\<lparr>module_functions := (if UseFastHelpers opt then link (Some f) (module_functions st) - set s_disabledHelpers
         else link (Some f) (module_functions st))\<rparr>)
     else Inl Assertion_Failed)"
  using assms by (simp add: set_module_def assert_that_def disableConcreteLLVMHelpers_def
      disable_loop_eq [OF s_disabledHelpers_distinct] Let_def)

lemma install_handlers_eq:
  assumes "stub = (\<lambda>p. Inr (sy p))" "\<not> execute_llvm opt" "\<not> clash"
  shows "install_handlers stub opt arch clash st =
    (if fst ` set (special_functions arch) \<subseteq> module_functions st \<and>
        (UseFastHelpers opt \<longrightarrow> fst ` set (s_handlerInfo arch) \<subseteq> module_functions st)
     then Inr (st\<lparr>module_functions := insert (fst trace_instruction) (module_functions st),
         handlers := handlers st ++ map_of (rev (handler_table opt arch)),
         overriden := overriden st \<union> (if UseFastHelpers opt then fst ` set (s_handlerInfo arch) else {})\<rparr>)
     else Inl Assertion_Failed)"
proof -
  have "fst trace_instruction \<notin> fst ` set (s_handlerInfo arch)" using table_names(4) by auto
  then have fs: "fst ` set (s_handlerInfo arch) \<subseteq> insert (fst trace_instruction) (module_functions st) \<longleftrightarrow>
      fst ` set (s_handlerInfo arch) \<subseteq> module_functions st" by (rule subset_insert)
  show ?thesis
    using assms fs by (simp add: install_handlers_def add_handlers_eq addSpecialFunctionHandler_def assert_that_def
        replaceExternalFunctionsWithSpecialHandlers_def replace_loop_eq handler_table_def map_add_def fun_eq_iff
        split: option.splits prod.splits)
qed

lemma add_symbols_keeps [simp]:
  "module_functions (add_symbols ns st) = module_functions st"
  "handlers (add_symbols ns st) = handlers st"
  "overriden (add_symbols ns st) = overriden st"
  "symbols (add_symbols ns st) = symbols st @ ns"
  unfolding add_symbols_def by (induction ns arbitrary: st) (simp_all add: helper_register_symbol_def)

lemma define_symbols_keeps:
  "stub = (\<lambda>p. Inr (sy p)) \<Longrightarrow> \<exists>st'. define_symbols stub arch helpers st = Inr st' \<and> module_functions st' = module_functions st \<and>
     handlers st' = handlers st \<and> overriden st' = overriden st"
  by (simp add: define_symbols_def)

lemma subset_avoid: "A \<inter> D = {} \<Longrightarrow> A \<inter> E = {} \<Longrightarrow> A \<subseteq> E \<union> (fs - D) \<longleftrightarrow> A \<subseteq> fs"
  by blast

lemma table_avoids:
  "fst ` set (special_functions arch) \<subseteq> insert ''s2e_dummyTbFunction'' (insert ''s2e_dummyMainFunction'' (fs - set s_disabledHelpers)) \<longleftrightarrow>
     fst ` set (special_functions arch) \<subseteq> fs"
  "fst ` set (special_functions arch) \<subseteq> insert ''s2e_dummyTbFunction'' (insert ''s2e_dummyMainFunction'' fs) \<longleftrightarrow>
     fst ` set (special_functions arch) \<subseteq> fs"
  "fst ` set (s_handlerInfo arch) \<subseteq> insert ''s2e_dummyTbFunction'' (insert ''s2e_dummyMainFunction'' (fs - set s_disabledHelpers)) \<longleftrightarrow>
     fst ` set (s_handlerInfo arch) \<subseteq> fs"
proof -
  let ?dm = "{''s2e_dummyTbFunction'', ''s2e_dummyMainFunction''}"
  have "fst ` set (special_functions arch) \<inter> ?dm = {}" "fst ` set (s_handlerInfo arch) \<inter> ?dm = {}"
    using table_names(3,4) [of arch] by (simp_all add: disjoint_iff)
  then show "fst ` set (special_functions arch) \<subseteq> insert ''s2e_dummyTbFunction'' (insert ''s2e_dummyMainFunction'' (fs - set s_disabledHelpers)) \<longleftrightarrow>
     fst ` set (special_functions arch) \<subseteq> fs"
  "fst ` set (special_functions arch) \<subseteq> insert ''s2e_dummyTbFunction'' (insert ''s2e_dummyMainFunction'' fs) \<longleftrightarrow>
     fst ` set (special_functions arch) \<subseteq> fs"
  "fst ` set (s_handlerInfo arch) \<subseteq> insert ''s2e_dummyTbFunction'' (insert ''s2e_dummyMainFunction'' (fs - set s_disabledHelpers)) \<longleftrightarrow>
     fst ` set (s_handlerInfo arch) \<subseteq> fs"
    using subset_avoid [OF table_names(1), of arch ?dm] subset_avoid [OF table_names(2), of arch ?dm]
      subset_avoid [of "fst ` set (special_functions arch)" "{}" ?dm] by simp_all
qed

lemma table_avoids_disabled:
  "fst ` set (special_functions arch) \<subseteq> fs - set s_disabledHelpers \<longleftrightarrow> fst ` set (special_functions arch) \<subseteq> fs"
  "fst ` set (s_handlerInfo arch) \<subseteq> fs - set s_disabledHelpers \<longleftrightarrow> fst ` set (s_handlerInfo arch) \<subseteq> fs"
  using subset_avoid [OF table_names(1), of arch "{}"] subset_avoid [OF table_names(2), of arch "{}"] by simp_all

lemma required_subset:
  "required_functions opt arch \<subseteq> fs \<longleftrightarrow> fst ` set (special_functions arch) \<subseteq> fs \<and>
     (UseFastHelpers opt \<longrightarrow> set s_disabledHelpers \<subseteq> fs \<and> fst ` set (s_handlerInfo arch) \<subseteq> fs)"
  by (auto simp: required_functions_def)


definition constructor_options :: start_options where
  "constructor_options = \<lparr>UseSelectCleaner = True, UseFastHelpers = True, ForkOnSymbolicAddress = True, ConcretizeIoAddress = False,
     ConcretizeIoWrites = False, ConcolicMode = True, useStatistics = True, execute_llvm = False\<rparr>"

definition empty_module :: llvm_start where
  "empty_module = \<lparr>symbols = [], passes = [], module_functions = {}, handlers = (\<lambda>_. None), overriden = {}, m_dummyMain = None,
     stats_tracker = False, m_forceConcretizations = False, g_s2e_fork_on_symbolic_address = False,
     g_s2e_concretize_io_addresses = False, g_s2e_concretize_io_writes = False, concolicMode = False\<rparr>"


section \<open>What the first state holds\<close>

definition add_objects :: "(mem_object \<Rightarrow> 'k \<Rightarrow> 'k) \<Rightarrow> (string \<Rightarrow> u64 \<times> nat) \<Rightarrow> (string \<times> bool) list \<Rightarrow> 'k \<Rightarrow> 'k" where
  "add_objects add_external globals = fold (\<lambda>ns. add_external (ext_mo globals (snd ns) (fst ns)))"

definition all_objects :: "arch \<Rightarrow> (string \<times> bool) list \<Rightarrow> (string \<times> bool) list" where
  "all_objects arch extra = map (\<lambda>n. (n, True)) runtime_objects @ named_objects arch extra"

lemma add_objects_found:
  assumes al: "add_laws kl add_external"
  shows "distinct (map (\<lambda>ns. fst (globals (fst ns))) nss) \<Longrightarrow>
     (\<forall>(n, s) \<in> set nss. \<exists>os. as_find kl (fst (globals n)) (add_objects add_external globals nss k) = Some (ext_mo globals s n, os)) \<and>
     (\<forall>a. a \<notin> (\<lambda>ns. fst (globals (fst ns))) ` set nss \<longrightarrow> as_find kl a (add_objects add_external globals nss k) = as_find kl a k)"
proof (induction nss arbitrary: k)
  case (Cons ns nss)
  let ?mo = "ext_mo globals (snd ns) (fst ns)"
  have ih: "(\<forall>(n, s) \<in> set nss. \<exists>os. as_find kl (fst (globals n)) (add_objects add_external globals nss (add_external ?mo k)) =
        Some (ext_mo globals s n, os))"
    "\<And>a. a \<notin> (\<lambda>ns. fst (globals (fst ns))) ` set nss \<Longrightarrow>
       as_find kl a (add_objects add_external globals nss (add_external ?mo k)) = as_find kl a (add_external ?mo k)"
    using Cons by auto
  have a: "mo_address ?mo = fst (globals (fst ns))" by (simp add: ext_mo_def)
  have new: "\<exists>os. as_find kl (fst (globals (fst ns))) (add_external ?mo k) = Some (?mo, os)"
    using al unfolding add_laws_def a [symmetric] by blast
  have old: "b \<noteq> fst (globals (fst ns)) \<Longrightarrow> as_find kl b (add_external ?mo k) = as_find kl b k" for b
    using al unfolding add_laws_def a [symmetric] by blast
  show ?case using ih new old Cons.prems by (cases ns) (auto simp: add_objects_def)
qed (simp add: add_objects_def)

lemma define_objects_eq:
  "fold (define_ext_object add_external globals) nss (k, pre) =
     (add_objects add_external globals nss k,
      \<lambda>n. if pre n = None \<and> n \<in> fst ` set nss then Some (fst (globals n)) else pre n)"
proof (induction nss arbitrary: k pre)
  case (Cons ns nss)
  have "define_ext_object add_external globals ns (k, pre) = (add_external (ext_mo globals (snd ns) (fst ns)) k,
      if pre (fst ns) = None then pre(fst ns \<mapsto> fst (globals (fst ns))) else pre)"
    by (simp add: define_ext_object_def)
  then show ?case by (simp add: Cons) (auto simp: add_objects_def fun_eq_iff)
qed (simp add: add_objects_def)

text \<open>Of global variables at distinct addresses, the first state knows exactly the listed ones: each is found at its
  address with its size, shared with native code unless it is one of the tables of the processor, nothing else
  changes in memory, and the names are defined unless they were before. The state is the only one that is
  active, runs natively, is known to the executor, and is the root of the process tree; a second call fails.
\<close>

theorem initial_state:
  assumes al: "add_laws kl add_external" and first: "processTree b = None" and stub: "stub_objects = Inr extra"
    and addr: "distinct (map (\<lambda>ns. fst (globals (fst ns))) (all_objects arch extra))"
  shows "\<exists>st b'. createInitialState add_external globals stub_objects arch ident kf k0 b = Inr (st, b') \<and>
    m_active (ram st) \<and> m_runningConcrete (ram st) \<and> ident \<in> known_states b' \<and>
    (\<forall>(n, s) \<in> set (all_objects arch extra). \<exists>os. as_find kl (fst (globals n)) (klee (ram st)) = Some (ext_mo globals s n, os)) \<and>
    (\<forall>a. a \<notin> (\<lambda>ns. fst (globals (fst ns))) ` set (all_objects arch extra) \<longrightarrow> as_find kl a (klee (ram st)) = as_find kl a k0) \<and>
    (\<forall>n. predefinedSymbols b' n = (if predefinedSymbols b n = None \<and> n \<in> fst ` set (named_objects arch extra)
       then Some (fst (globals n)) else predefinedSymbols b n)) \<and>
    createInitialState add_external globals stub_objects arch ident' kf' k0' b' = (Inl Assertion_Failed :: (('e, 'o, 'k) exec_state \<times> boot) res)"
proof -
  let ?k = "add_objects add_external globals (all_objects arch extra) k0"
  have "?k = add_objects add_external globals (named_objects arch extra)
      (fold (\<lambda>n k. add_external (ext_mo globals True n) k) runtime_objects k0)"
    by (simp add: add_objects_def all_objects_def runtime_objects_def)
  then show ?thesis using add_objects_found [OF al addr, of k0] first
    by (simp add: createInitialState_def assert_that_def stub define_objects_eq Let_def)
qed

definition sample_globals :: "string \<Rightarrow> u64 \<times> nat" where
  "sample_globals n = (if n = ''tcg_llvm_runtime'' then (0x1000, 64) else if n = ''tb_function_args'' then (0x2000, 24)
     else if n = ''env'' then (0x3000, 8) else if n = ''g_s2e'' then (0x4000, 8) else (0x5000, 8))"

definition no_boot :: boot where
  "no_boot = \<lparr>processTree = None, known_states = {}, predefinedSymbols = (\<lambda>_. None), m_executeAlwaysKlee = False\<rparr>"

theorem initial_state_witness:
  "\<exists>st b'. createInitialState map_add sample_globals (Inr []) ARM 7 0 (\<lambda>_. None) no_boot =
       (Inr (st, b') :: ((sx, nat, u64 \<Rightarrow> (mem_object \<times> nat) option) exec_state \<times> boot) res) \<and>
     (\<exists>os. as_find map_ops 0x3000 (klee (ram st)) = Some (ext_mo sample_globals True ''env'', os)) \<and>
     predefinedSymbols b' ''g_s2e'' = Some 0x4000"
proof -
  have al: "add_laws map_ops map_add" by (simp add: add_laws_def map_ops_def map_add_def)
  have d: "distinct (map (\<lambda>ns. fst (sample_globals (fst ns))) (all_objects ARM []))"
    by (simp add: all_objects_def runtime_objects_def named_objects_def sample_globals_def)
  have e: "(''env'', True) \<in> set (all_objects ARM [])" by (simp add: all_objects_def named_objects_def)
  have g: "''g_s2e'' \<in> fst ` set (named_objects ARM [])" by (simp add: named_objects_def)
  have v: "fst (sample_globals ''env'') = 0x3000" "fst (sample_globals ''g_s2e'') = 0x4000" by (simp_all add: sample_globals_def)
  have b: "processTree no_boot = None" "predefinedSymbols no_boot = (\<lambda>_. None)" by (simp_all add: no_boot_def)
  obtain st :: "(sx, nat, u64 \<Rightarrow> (mem_object \<times> nat) option) exec_state" and b'
    where r: "createInitialState map_add sample_globals (Inr []) ARM 7 0 (\<lambda>_. None) no_boot = Inr (st, b')"
    and o: "\<forall>(n, s) \<in> set (all_objects ARM []). \<exists>os. as_find map_ops (fst (sample_globals n)) (klee (ram st)) = Some (ext_mo sample_globals s n, os)"
    and p: "\<forall>n. predefinedSymbols b' n = (if predefinedSymbols no_boot n = None \<and> n \<in> fst ` set (named_objects ARM [])
       then Some (fst (sample_globals n)) else predefinedSymbols no_boot n)"
    using initial_state [OF al b(1) refl d, where ident = 7 and kf = 0 and ?k0.0 = "\<lambda>_. None" and ident' = 0 and kf' = 0 and k0' = "\<lambda>_. None"]
    by (elim exE conjE) (rule that)
  have "\<exists>os. as_find map_ops 0x3000 (klee (ram st)) = Some (ext_mo sample_globals True ''env'', os)" using bspec [OF o e] v(1) by simp
  moreover have "predefinedSymbols b' ''g_s2e'' = Some 0x4000" using p g v(2) b(2) by simp
  ultimately show ?thesis using r by blast
qed

end
