(* ===== verification/Tb_Links.thy ===== *)
theory Tb_Links
  imports S2E_Prelude
begin

text \<open>
  The links between translation blocks (\<open>s2e_tb_reset_jump\<close> of \<open>S2EExecutor.cpp\<close>). The jumps into a block form a list
  through the blocks that they come from: \<open>jmp_first\<close> points to the first of them, \<open>jmp_next\<close> of a block and a jump to the
  next, and the last pointer leads back to the block. A block starts at a multiple of four, and the two low bits of a
  pointer say which slot of the block goes on: 0 or 1 is a jump, 2 the end of the list. Links are made by QEMU.
\<close>

section \<open>The code\<close>

record tblock =
  jmp_first :: u64
  jmp_next :: "u64 list"

type_synonym tb_heap = "u64 \<rightharpoonup> tblock"

definition tag_of :: "u64 \<Rightarrow> nat" where
  "tag_of p = unat (p AND 3)"

definition untag :: "u64 \<Rightarrow> u64" where
  "untag p = p AND NOT 3"

definition tagged :: "u64 \<Rightarrow> nat \<Rightarrow> u64" where
  "tagged t n = t OR of_nat n"

text \<open>A pointer to a pointer is the address of a field. Reading through a pointer that leads to no block, or past the two
  entries of \<open>jmp_next\<close>, is undefined.\<close>

datatype slot = First u64 | Next u64 nat

fun slot_block :: "slot \<Rightarrow> u64" where
  "slot_block (First t) = t"
| "slot_block (Next t n) = t"

definition read_slot :: "tb_heap \<Rightarrow> slot \<Rightarrow> u64 res" where
  "read_slot h sl = (case h (slot_block sl) of
      None \<Rightarrow> Inl Undefined_Behaviour
    | Some b \<Rightarrow> (case sl of
          First _ \<Rightarrow> Inr (jmp_first b)
        | Next _ n \<Rightarrow> if n < length (jmp_next b) then Inr (jmp_next b ! n) else Inl Undefined_Behaviour))"

definition write_slot :: "slot \<Rightarrow> u64 \<Rightarrow> tb_heap \<Rightarrow> tb_heap res" where
  "write_slot sl p h = (case h (slot_block sl) of
      None \<Rightarrow> Inl Undefined_Behaviour
    | Some b \<Rightarrow> (case sl of
          First t \<Rightarrow> Inr (h(t \<mapsto> b\<lparr>jmp_first := p\<rparr>))
        | Next t n \<Rightarrow> if n < length (jmp_next b) then Inr (h(t \<mapsto> b\<lparr>jmp_next := (jmp_next b)[n := p]\<rparr>))
            else Inl Undefined_Behaviour))"

text \<open>The two loops; a loop that does not end is \<open>None\<close>.\<close>

partial_function (option) find_head :: "tb_heap \<Rightarrow> u64 \<Rightarrow> u64 res option" where
  "find_head h tb1 =
     (let n1 = tag_of tb1; t = untag tb1
      in if n1 = 2 then Some (Inr t)
         else case read_slot h (Next t n1) of Inl e \<Rightarrow> Some (Inl e) | Inr p \<Rightarrow> find_head h p)"

partial_function (option) find_slot :: "tb_heap \<Rightarrow> u64 \<Rightarrow> nat \<Rightarrow> slot \<Rightarrow> slot res option" where
  "find_slot h tb n ptb =
     (case read_slot h ptb of
        Inl e \<Rightarrow> Some (Inl e)
      | Inr tb1 \<Rightarrow>
          let n1 = tag_of tb1; t = untag tb1
          in if n1 = n \<and> t = tb then Some (Inr ptb) else find_slot h tb n (Next t n1))"

text \<open>The last step, which is stubbed out, changes the generated code \<open>'c\<close> only: \<open>suppress\<close>.\<close>

definition unlink :: "u64 \<Rightarrow> nat \<Rightarrow> slot \<Rightarrow> tb_heap \<Rightarrow> tb_heap res" where
  "unlink tb n ptb h =
     rbind (read_slot h (Next tb n)) (\<lambda>p. rbind (write_slot ptb p h) (write_slot (Next tb n) 0))"

definition s2e_tb_reset_jump ::
  "(u64 \<Rightarrow> nat \<Rightarrow> 'c \<Rightarrow> 'c res) \<Rightarrow> u64 \<Rightarrow> nat \<Rightarrow> tb_heap \<times> 'c \<Rightarrow> (tb_heap \<times> 'c) res option" where
  "s2e_tb_reset_jump suppress tb n hc =
     (case read_slot (fst hc) (Next tb n) of
        Inl e \<Rightarrow> Some (Inl e)
      | Inr tb1 \<Rightarrow>
          if tb1 = 0 then Some (Inr hc)
          else case find_head (fst hc) tb1 of
              None \<Rightarrow> None
            | Some (Inl e) \<Rightarrow> Some (Inl e)
            | Some (Inr tb_next) \<Rightarrow>
                case find_slot (fst hc) tb n (First tb_next) of
                  None \<Rightarrow> None
                | Some (Inl e) \<Rightarrow> Some (Inl e)
                | Some (Inr ptb) \<Rightarrow> Some (rbind (unlink tb n ptb (fst hc)) (\<lambda>h'.
                    rbind (suppress tb n (snd hc)) (\<lambda>c'. Inr (h', c')))))"

section \<open>Lists of jumps\<close>

text \<open>\<open>chain h p js t\<close>: from the pointer \<open>p\<close>, the jumps \<open>js\<close> follow in this order, up to the end of the list of \<open>t\<close>.\<close>

fun chain :: "tb_heap \<Rightarrow> u64 \<Rightarrow> (u64 \<times> nat) list \<Rightarrow> u64 \<Rightarrow> bool" where
  "chain h p [] t \<longleftrightarrow> p = tagged t 2"
| "chain h p ((s, n) # js) t \<longleftrightarrow> p = tagged s n \<and> n < 2 \<and> s \<noteq> 0 \<and> s AND 3 = 0 \<and>
     (case read_slot h (Next s n) of Inl _ \<Rightarrow> False | Inr q \<Rightarrow> chain h q js t)"

definition jump_list :: "tb_heap \<Rightarrow> u64 \<Rightarrow> (u64 \<times> nat) list \<Rightarrow> bool" where
  "jump_list h t js \<longleftrightarrow> (case h t of None \<Rightarrow> False | Some b \<Rightarrow> chain h (jmp_first b) js t)"

text \<open>Blocks are aligned and have two slots; each has a list of jumps, and a link that is set is in one of the lists.\<close>

definition links_ok :: "tb_heap \<Rightarrow> bool" where
  "links_ok h \<longleftrightarrow>
     (\<forall>t b. h t = Some b \<longrightarrow> t \<noteq> 0 \<and> t AND 3 = 0 \<and> length (jmp_next b) = 2 \<and> (\<exists>js. jump_list h t js)) \<and>
     (\<forall>t n p. read_slot h (Next t n) = Inr p \<longrightarrow> p \<noteq> 0 \<longrightarrow> (\<exists>s js. jump_list h s js \<and> (t, n) \<in> set js))"

text \<open>The target of a jump, in the abstract: the block whose list it is in.\<close>

definition jumps_to :: "tb_heap \<Rightarrow> u64 \<Rightarrow> nat \<Rightarrow> u64 \<Rightarrow> bool" where
  "jumps_to h t n s \<longleftrightarrow> (\<exists>js. jump_list h s js \<and> (t, n) \<in> set js)"

subsection \<open>Tagged pointers\<close>

lemma tagged_parts:
  assumes "t AND 3 = 0" "n < 4"
  shows "tag_of (tagged t n) = n" "untag (tagged t n) = t" "tagged t n = 0 \<longleftrightarrow> t = 0 \<and> n = 0"
proof -
  have n: "n = 0 \<or> n = 1 \<or> n = 2 \<or> n = 3" using assms(2) by auto
  have a: "(t OR w) AND 3 = w AND 3" for w using assms(1) by (simp add: bit.conj_disj_distrib2)
  have b: "t AND - 4 = t"
  proof -
    have "t = (t AND 3) OR (t AND NOT 3)" unfolding bit.conj_disj_distrib [symmetric] by simp
    then show ?thesis using assms(1) by simp
  qed
  have c: "(t OR w) AND - 4 = t OR (w AND - 4)" for w by (simp add: bit.conj_disj_distrib2 b)
  show tg: "tag_of (tagged t n) = n" using n by (elim disjE) (simp_all add: tag_of_def tagged_def a assms(1))
  show "untag (tagged t n) = t" using n by (elim disjE) (simp_all add: untag_def tagged_def b c)
  show "tagged t n = 0 \<longleftrightarrow> t = 0 \<and> n = 0"
  proof
    assume z: "tagged t n = 0"
    then have "n = 0" using tg by (simp add: tag_of_def)
    with z show "t = 0 \<and> n = 0" by (simp add: tagged_def)
  qed (simp add: tagged_def)
qed


lemma tagged_inject: "t AND 3 = 0 \<Longrightarrow> s AND 3 = 0 \<Longrightarrow> n < 4 \<Longrightarrow> m < 4 \<Longrightarrow> tagged t n = tagged s m \<longleftrightarrow> t = s \<and> n = m"
  by (metis tagged_parts(1,2))

subsection \<open>A list is determined by its first pointer\<close>

lemma chain_nonzero: "chain h p js t \<Longrightarrow> t AND 3 = 0 \<Longrightarrow> p \<noteq> 0"
  by (cases js) (auto simp: tagged_parts)

lemma chain_unique:
  "chain h p js t \<Longrightarrow> chain h p ks s \<Longrightarrow> t AND 3 = 0 \<Longrightarrow> s AND 3 = 0 \<Longrightarrow> js = ks \<and> t = s"
proof (induction js arbitrary: p ks)
  case Nil
  then show ?case by (cases ks) (auto simp: tagged_inject)
next
  case (Cons j js)
  obtain a n where j: "j = (a, n)" by fastforce
  from Cons.prems(1) obtain q where q: "p = tagged a n" "n < 2" "a AND 3 = 0" "read_slot h (Next a n) = Inr q" "chain h q js t"
    by (auto simp: j split: sum.splits)
  show ?case
  proof (cases ks)
    case Nil
    then show ?thesis using Cons.prems q by (auto simp: tagged_inject)
  next
    case (Cons k ks')
    obtain b m where k: "k = (b, m)" by fastforce
    from Cons.prems(2) have r: "p = tagged b m" "m < 2" "b AND 3 = 0" by (auto simp: Cons k)
    then have "a = b" "n = m" using q by (auto simp: tagged_inject)
    then show ?thesis using Cons.IH [of q ks'] Cons.prems q by (simp add: Cons k j)
  qed
qed

text \<open>The rest of a list after one of its jumps starts at what the slot of the jump holds.\<close>

lemma chain_split:
  "chain h p (js @ (a, n) # ks) t \<Longrightarrow> n < 2 \<and> a \<noteq> 0 \<and> a AND 3 = 0 \<and> (\<exists>q. read_slot h (Next a n) = Inr q \<and> chain h q ks t)"
proof (induction js arbitrary: p)
  case (Cons j js)
  then show ?case by (cases j) (auto split: sum.splits)
qed (auto split: sum.splits)

lemma chain_member:
  assumes "chain h p js t" "(a, n) \<in> set js" "t AND 3 = 0"
  shows "\<exists>q. read_slot h (Next a n) = Inr q \<and> q \<noteq> 0 \<and> n < 2"
proof -
  obtain xs ys where "js = xs @ (a, n) # ys" using split_list [OF assms(2)] by blast
  then show ?thesis using chain_split [of h p xs a n ys t] chain_nonzero assms by blast
qed

lemma chain_distinct: "chain h p js t \<Longrightarrow> t AND 3 = 0 \<Longrightarrow> distinct js"
proof (rule ccontr)
  assume c: "chain h p js t" "t AND 3 = 0" and "\<not> distinct js"
  then obtain xs ys zs a n where js: "js = xs @ [(a, n)] @ ys @ [(a, n)] @ zs" using not_distinct_decomp by (metis surj_pair)
  obtain q where q: "read_slot h (Next a n) = Inr q" "chain h q (ys @ (a, n) # zs) t"
    using chain_split [of h p xs a n "ys @ (a, n) # zs" t] c by (auto simp: js)
  obtain r where "read_slot h (Next a n) = Inr r" "chain h r zs t"
    using chain_split [of h p "xs @ (a, n) # ys" a n zs t] c by (auto simp: js)
  then have "ys @ (a, n) # zs = zs" using q chain_unique c(2) by (metis Inr_inject)
  then have "length (ys @ (a, n) # zs) = length zs" by simp
  then show False by simp
qed

lemma chain_owner:
  assumes "chain h p js t" "chain h q ks s" "(a, n) \<in> set js" "(a, n) \<in> set ks" "t AND 3 = 0" "s AND 3 = 0"
  shows "t = s"
proof -
  obtain xs ys where js: "js = xs @ (a, n) # ys" using split_list [OF assms(3)] by blast
  obtain us vs where ks: "ks = us @ (a, n) # vs" using split_list [OF assms(4)] by blast
  show ?thesis using chain_split assms chain_unique unfolding js ks by (metis Inr_inject)
qed

lemma jumps_chain_cong:
  "chain h p js t \<Longrightarrow> (\<And>a n. (a, n) \<in> set js \<Longrightarrow> read_slot h' (Next a n) = read_slot h (Next a n)) \<Longrightarrow> chain h' p js t"
proof (induction js arbitrary: p)
  case (Cons j js)
  then show ?case by (cases j) (auto split: sum.splits)
qed simp

section \<open>The loops end\<close>

lemma find_head_chain: "chain h p js t \<Longrightarrow> t AND 3 = 0 \<Longrightarrow> find_head h p = Some (Inr t)"
proof (induction js arbitrary: p)
  case Nil
  then show ?case by (subst find_head.simps) (simp add: tagged_parts)
next
  case (Cons j js)
  then show ?case by (cases j) (subst find_head.simps, auto simp: tagged_parts split: sum.splits)
qed

definition end_slot :: "slot \<Rightarrow> (u64 \<times> nat) list \<Rightarrow> slot" where
  "end_slot sl js = (if js = [] then sl else Next (fst (last js)) (snd (last js)))"

lemma find_slot_chain:
  "read_slot h sl = Inr p \<Longrightarrow> chain h p (js @ (a, n) # ks) t \<Longrightarrow> (a, n) \<notin> set js \<Longrightarrow>
   find_slot h a n sl = Some (Inr (end_slot sl js))"
proof (induction js arbitrary: p sl)
  case Nil
  then show ?case by (subst find_slot.simps) (auto simp: tagged_parts end_slot_def)
next
  case (Cons j js)
  obtain b m where j: "j = (b, m)" by fastforce
  from Cons.prems obtain q where q: "p = tagged b m" "m < 2" "b AND 3 = 0" "read_slot h (Next b m) = Inr q" "chain h q (js @ (a, n) # ks) t"
    by (auto simp: j split: sum.splits)
  have ne: "\<not> (m = n \<and> b = a)" using Cons.prems(3) j by auto
  have "find_slot h a n sl = find_slot h a n (Next b m)"
    by (subst find_slot.simps) (use Cons.prems(1) ne q in \<open>auto simp: tagged_parts\<close>)
  also have "\<dots> = Some (Inr (end_slot (Next b m) js))" using Cons.IH [OF q(4,5)] Cons.prems(3) by simp
  finally show ?case by (simp add: end_slot_def j)
qed


section \<open>What taking a jump out does to the lists\<close>

lemma jump_list_slot: "jump_list h t js \<longleftrightarrow> (\<exists>p. read_slot h (First t) = Inr p \<and> chain h p js t)"
  by (simp add: jump_list_def read_slot_def split: option.splits)

lemma write_slot_ok:
  assumes "read_slot h sl = Inr v"
  shows "\<exists>h'. write_slot sl p h = Inr h' \<and> (\<forall>x. read_slot h' x = (if x = sl then Inr p else read_slot h x)) \<and>
    (\<forall>t. map_option (\<lambda>b. length (jmp_next b)) (h' t) = map_option (\<lambda>b. length (jmp_next b)) (h t))"
proof -
  obtain b where b: "h (slot_block sl) = Some b" using assms by (auto simp: read_slot_def split: option.splits)
  show ?thesis
  proof (cases sl)
    case (First t)
    then show ?thesis using b by (auto simp: write_slot_def read_slot_def split: slot.splits option.splits)
  next
    case (Next t n)
    then have "n < length (jmp_next b)" using assms b by (auto simp: read_slot_def split: if_splits)
    then show ?thesis using b Next by (auto simp: write_slot_def read_slot_def split: slot.splits option.splits)
  qed
qed

lemma unlink_ok:
  assumes "read_slot h (Next tb n) = Inr q" "read_slot h ptb = Inr v" "ptb \<noteq> Next tb n"
  shows "\<exists>h'. unlink tb n ptb h = Inr h' \<and>
    (\<forall>x. read_slot h' x = (if x = Next tb n then Inr 0 else if x = ptb then Inr q else read_slot h x)) \<and>
    (\<forall>t. map_option (\<lambda>b. length (jmp_next b)) (h' t) = map_option (\<lambda>b. length (jmp_next b)) (h t))"
proof -
  obtain h1 where h1: "write_slot ptb q h = Inr h1" "\<forall>x. read_slot h1 x = (if x = ptb then Inr q else read_slot h x)"
    "\<forall>t. map_option (\<lambda>b. length (jmp_next b)) (h1 t) = map_option (\<lambda>b. length (jmp_next b)) (h t)"
    using write_slot_ok [OF assms(2)] by blast
  have "read_slot h1 (Next tb n) = Inr q" using h1(2) assms(1,3) by simp
  from write_slot_ok [OF this, of 0] show ?thesis using h1 assms(1) by (fastforce simp: unlink_def)
qed

lemma chain_unlink:
  assumes "\<forall>x. read_slot h' x = (if x = Next tb n then Inr 0 else if x = end_slot sl js then Inr q else read_slot h x)"
    and "read_slot h sl = Inr p" "chain h p (js @ (tb, n) # ks) t" "read_slot h (Next tb n) = Inr q"
    and "sl \<notin> case_prod Next ` set (js @ (tb, n) # ks)" "distinct (js @ (tb, n) # ks)"
  shows "\<exists>p'. read_slot h' sl = Inr p' \<and> chain h' p' (js @ ks) t"
  using assms
proof (induction js arbitrary: sl p)
  case Nil
  then have "chain h q ks t" by auto
  moreover have "read_slot h' (Next a m) = read_slot h (Next a m)" if "(a, m) \<in> set ks" for a m
    using that Nil.prems by (auto simp: end_slot_def)
  ultimately have "chain h' q ks t" by (rule jumps_chain_cong)
  moreover have "read_slot h' sl = Inr q" using Nil.prems by (auto simp: end_slot_def)
  ultimately show ?case by simp
next
  case (Cons j js)
  obtain a m where j: "j = (a, m)" by fastforce
  from Cons.prems(3) obtain r where r: "p = tagged a m" "m < 2" "a \<noteq> 0" "a AND 3 = 0" "read_slot h (Next a m) = Inr r" "chain h r (js @ (tb, n) # ks) t"
    by (auto simp: j split: sum.splits)
  have e: "end_slot sl (j # js) = end_slot (Next a m) js" by (simp add: end_slot_def j)
  have "\<exists>p'. read_slot h' (Next a m) = Inr p' \<and> chain h' p' (js @ ks) t"
    by (rule Cons.IH [OF _ r(5,6) Cons.prems(4)]) (use Cons.prems(1,6) e in \<open>auto simp: j\<close>)
  moreover have "sl \<noteq> end_slot sl (j # js)" "sl \<noteq> Next tb n"
    using Cons.prems(5) by (auto simp: end_slot_def j split: if_splits dest: last_in_set)
  then have "read_slot h' sl = Inr p" using Cons.prems(1,2) by simp
  ultimately show ?case using r by (auto simp: j)
qed

lemma jump_list_aligned: "links_ok h \<Longrightarrow> jump_list h t js \<Longrightarrow> t AND 3 = 0"
  by (auto simp: links_ok_def jump_list_def split: option.splits)

lemma jump_list_unique: "links_ok h \<Longrightarrow> jump_list h t js \<Longrightarrow> jump_list h t ks \<Longrightarrow> js = ks"
  using jump_list_aligned chain_unique by (metis Inr_inject jump_list_slot)

lemma jump_list_distinct: "links_ok h \<Longrightarrow> jump_list h t js \<Longrightarrow> distinct js"
  using jump_list_aligned chain_distinct jump_list_slot by metis

lemma jump_list_owner:
  assumes "links_ok h" "jump_list h t js" "jump_list h s ks" "(a, n) \<in> set js" "(a, n) \<in> set ks"
  shows "t = s"
proof -
  obtain p q where "chain h p js t" "chain h q ks s" using assms(2,3) by (auto simp: jump_list_slot)
  then show ?thesis using chain_owner assms(4,5) jump_list_aligned [OF assms(1)] assms(2,3) by blast
qed

text \<open>What a reset does to the fields, when the slot is not empty.\<close>

lemma reset_jump_reads:
  assumes ok: "links_ok h" and slot: "read_slot h (Next tb n) = Inr p" "p \<noteq> 0"
  obtains s xs ys q h' where "jump_list h s (xs @ (tb, n) # ys)" "read_slot h (Next tb n) = Inr q"
    "s2e_tb_reset_jump suppress tb n (h, c) = Some (rbind (suppress tb n c) (\<lambda>c'. Inr (h', c')))"
    "\<forall>x. read_slot h' x = (if x = Next tb n then Inr 0 else if x = end_slot (First s) xs then Inr q else read_slot h x)"
    "\<forall>t. map_option (\<lambda>b. length (jmp_next b)) (h' t) = map_option (\<lambda>b. length (jmp_next b)) (h t)"
proof -
  have "\<exists>s js. jump_list h s js \<and> (tb, n) \<in> set js" using ok slot unfolding links_ok_def by blast
  then obtain s js where js: "jump_list h s js" "(tb, n) \<in> set js" by blast
  obtain xs ys where e: "js = xs @ (tb, n) # ys" using split_list [OF js(2)] by blast
  obtain r where r: "read_slot h (First s) = Inr r" "chain h r (xs @ (tb, n) # ys) s" using js(1) by (auto simp: jump_list_slot e)
  have s: "s AND 3 = 0" by (rule jump_list_aligned [OF ok js(1)])
  have d: "(tb, n) \<notin> set xs" using jump_list_distinct [OF ok js(1)] by (simp add: e)
  have c: "chain h p ys s" using chain_split [OF r(2)] slot by simp
  have f: "find_head h p = Some (Inr s)" by (rule find_head_chain [OF c s])
  have g: "find_slot h tb n (First s) = Some (Inr (end_slot (First s) xs))" by (rule find_slot_chain [OF r d])
  have "end_slot (First s) xs \<noteq> Next tb n" using d by (auto simp: end_slot_def dest: last_in_set)
  moreover have "\<exists>v. read_slot h (end_slot (First s) xs) = Inr v"
  proof (cases xs rule: rev_cases)
    case (snoc zs l)
    then show ?thesis using chain_split [of h r zs "fst l" "snd l" "(tb, n) # ys" s] r(2) by (auto simp: end_slot_def)
  qed (simp add: end_slot_def r(1))
  ultimately obtain h' where h': "unlink tb n (end_slot (First s) xs) h = Inr h'"
    "\<forall>x. read_slot h' x = (if x = Next tb n then Inr 0 else if x = end_slot (First s) xs then Inr p else read_slot h x)"
    "\<forall>t. map_option (\<lambda>b. length (jmp_next b)) (h' t) = map_option (\<lambda>b. length (jmp_next b)) (h t)"
    using unlink_ok [OF slot(1)] by blast
  have "s2e_tb_reset_jump suppress tb n (h, c) = Some (rbind (suppress tb n c) (\<lambda>c'. Inr (h', c')))"
    using slot f g h'(1) by (simp add: s2e_tb_reset_jump_def)
  then show thesis using that js(1) e slot(1) h'(2,3) by blast
qed

lemma lists_after:
  assumes ok: "links_ok h" and s: "jump_list h s (xs @ (tb, n) # ys)" and q: "read_slot h (Next tb n) = Inr q"
    and reads: "\<forall>x. read_slot h' x = (if x = Next tb n then Inr 0 else if x = end_slot (First s) xs then Inr q else read_slot h x)"
    and js: "jump_list h t js"
  shows "jump_list h' t (remove1 (tb, n) js)"
proof (cases "t = s")
  case True
  then have e: "js = xs @ (tb, n) # ys" using jump_list_unique [OF ok] s js by blast
  have d: "distinct (xs @ (tb, n) # ys)" by (rule jump_list_distinct [OF ok s])
  obtain p where p: "read_slot h (First s) = Inr p" "chain h p (xs @ (tb, n) # ys) s" using s by (auto simp: jump_list_slot)
  have "\<exists>p'. read_slot h' (First s) = Inr p' \<and> chain h' p' (xs @ ys) s"
    by (rule chain_unlink [OF reads p q _ d]) auto
  then show ?thesis using d True by (simp add: jump_list_slot e remove1_append)
next
  case False
  obtain p where p: "read_slot h (First t) = Inr p" "chain h p js t" using js by (auto simp: jump_list_slot)
  have n: "(tb, n) \<notin> set js" using jump_list_owner [OF ok js s] False by auto
  have l: "xs = [] \<or> last xs \<notin> set js"
    using jump_list_owner [OF ok js s, of "fst (last xs)" "snd (last xs)"] False by auto
  have "read_slot h' (Next a m) = read_slot h (Next a m)" if "(a, m) \<in> set js" for a m
    using reads n l that by (auto simp: end_slot_def)
  then have "chain h' p js t" by (rule jumps_chain_cong [OF p(2)])
  moreover have "read_slot h' (First t) = Inr p" using reads p(1) False by (simp add: end_slot_def)
  ultimately show ?thesis using n by (simp add: jump_list_slot remove1_idem)
qed

lemma links_after:
  assumes ok: "links_ok h" and s: "jump_list h s (xs @ (tb, n) # ys)"
    and reads: "\<forall>x. read_slot h' x = (if x = Next tb n then Inr 0 else if x = end_slot (First s) xs then Inr q else read_slot h x)"
    and len: "\<forall>t. map_option (\<lambda>b. length (jmp_next b)) (h' t) = map_option (\<lambda>b. length (jmp_next b)) (h t)"
    and after: "\<And>t js. jump_list h t js \<Longrightarrow> jump_list h' t (remove1 (tb, n) js)"
  shows "links_ok h'" "\<forall>t m s. jumps_to h' t m s \<longleftrightarrow> jumps_to h t m s \<and> (t, m) \<noteq> (tb, n)"
proof -
  have blk: "\<exists>b. h t = Some b \<and> length (jmp_next b) = length (jmp_next b')" if "h' t = Some b'" for t b'
    using spec [OF len, of t] that by (cases "h t") auto
  have first: "t \<noteq> 0 \<and> t AND 3 = 0 \<and> length (jmp_next b') = 2 \<and> (\<exists>js. jump_list h t js)" if "h' t = Some b'" for t b'
    using blk [OF that] ok unfolding links_ok_def by fastforce
  have before: "\<exists>ks. jump_list h t ks \<and> js = remove1 (tb, n) ks" if js: "jump_list h' t js" for t js
  proof -
    obtain b' where "h' t = Some b'" using js by (auto simp: jump_list_def split: option.splits)
    then obtain ks where ks: "t AND 3 = 0" "jump_list h t ks" using first by blast
    have "js = remove1 (tb, n) ks" using js after [OF ks(2)] chain_unique ks(1) by (metis Inr_inject jump_list_slot)
    then show ?thesis using ks(2) by blast
  qed
  show targets: "\<forall>t m s. jumps_to h' t m s \<longleftrightarrow> jumps_to h t m s \<and> (t, m) \<noteq> (tb, n)"
  proof (intro allI iffI)
    fix t m s assume "jumps_to h' t m s"
    then obtain js where js: "jump_list h' s js" "(t, m) \<in> set js" by (auto simp: jumps_to_def)
    obtain ks where ks: "jump_list h s ks" "js = remove1 (tb, n) ks" using before [OF js(1)] by blast
    then show "jumps_to h t m s \<and> (t, m) \<noteq> (tb, n)" using js(2) jump_list_distinct [OF ok ks(1)] by (auto simp: jumps_to_def)
  next
    fix t m s assume "jumps_to h t m s \<and> (t, m) \<noteq> (tb, n)"
    then obtain ks where ks: "jump_list h s ks" "(t, m) \<in> set ks" "(t, m) \<noteq> (tb, n)" by (auto simp: jumps_to_def)
    then show "jumps_to h' t m s" using after [OF ks(1)] by (auto simp: jumps_to_def)
  qed
  have "\<exists>s js. jump_list h' s js \<and> (t, m) \<in> set js" if p: "read_slot h' (Next t m) = Inr p" "p \<noteq> 0" for t m p
  proof -
    have ne: "(t, m) \<noteq> (tb, n)" using p spec [OF reads, of "Next t m"] by auto
    have "\<exists>s'. jumps_to h t m s'"
    proof (cases "Next t m = end_slot (First s) xs")
      case True
      then have "(t, m) \<in> set xs" by (auto simp: end_slot_def split: if_splits)
      then have "(t, m) \<in> set (xs @ (tb, n) # ys)" by simp
      with s show ?thesis unfolding jumps_to_def by blast
    next
      case False
      then have "read_slot h (Next t m) = Inr p" using p reads ne by auto
      then show ?thesis using ok p(2) unfolding links_ok_def jumps_to_def by blast
    qed
    then show ?thesis using targets ne unfolding jumps_to_def by blast
  qed
  moreover have "\<exists>js. jump_list h' t js" if "h' t = Some b'" for t b' using first [OF that] after by blast
  ultimately show "links_ok h'" unfolding links_ok_def using first by metis
qed

text \<open>C29: On lists of jumps that are well formed, resetting a jump ends and keeps them well formed: the jump has no target
  and an empty slot afterwards, it is taken out of the one list that it was in, the order of the other jumps is kept,
  and the other lists do not change.
\<close>

theorem reset_jump_removes:
  assumes ok: "links_ok h" and slot: "read_slot h (Next tb n) = Inr p" and sup: "suppress tb n c = Inr c'"
  shows "\<exists>h' c2. s2e_tb_reset_jump suppress tb n (h, c) = Some (Inr (h', c2)) \<and> c2 = (if p = 0 then c else c') \<and> links_ok h' \<and>
    dom h' = dom h \<and> read_slot h' (Next tb n) = Inr 0 \<and>
    (\<forall>t js. jump_list h t js \<longrightarrow> jump_list h' t (remove1 (tb, n) js)) \<and>
    (\<forall>t m s. jumps_to h' t m s \<longleftrightarrow> jumps_to h t m s \<and> (t, m) \<noteq> (tb, n))"
proof (cases "p = 0")
  case True
  have n: "(tb, n) \<notin> set js" if "jump_list h t js" for t js
    using chain_member jump_list_aligned [OF ok that] that slot True by (fastforce simp: jump_list_slot)
  then have lists: "jump_list h t js \<longrightarrow> jump_list h t (remove1 (tb, n) js)" for t js by (simp add: remove1_idem)
  have targets: "jumps_to h t m s \<longleftrightarrow> jumps_to h t m s \<and> (t, m) \<noteq> (tb, n)" for t m s using n by (auto simp: jumps_to_def)
  have run: "s2e_tb_reset_jump suppress tb n (h, c) = Some (Inr (h, c))" using slot True by (simp add: s2e_tb_reset_jump_def)
  show ?thesis
    by (intro exI [of _ h] exI [of _ c] conjI allI)
      (simp_all add: run ok lists slot True, use targets in blast)
next
  case False
  obtain s xs ys q h' where s: "jump_list h s (xs @ (tb, n) # ys)" and q: "read_slot h (Next tb n) = Inr q"
    and run: "s2e_tb_reset_jump suppress tb n (h, c) = Some (rbind (suppress tb n c) (\<lambda>c'. Inr (h', c')))"
    and reads: "\<forall>x. read_slot h' x = (if x = Next tb n then Inr 0 else if x = end_slot (First s) xs then Inr q else read_slot h x)"
    and len: "\<forall>t. map_option (\<lambda>b. length (jmp_next b)) (h' t) = map_option (\<lambda>b. length (jmp_next b)) (h t)"
    by (rule reset_jump_reads [OF ok slot False, where suppress = suppress and c = c])
  note after = lists_after [OF ok s q reads]
  have h': "links_ok h'" "\<forall>t m s. jumps_to h' t m s \<longleftrightarrow> jumps_to h t m s \<and> (t, m) \<noteq> (tb, n)"
    using links_after [OF ok s reads len after] by blast+
  have "dom h' = dom h" using len by (auto simp: dom_def) (metis map_option_is_None not_None_eq)+
  moreover have "s2e_tb_reset_jump suppress tb n (h, c) = Some (Inr (h', c'))" using run sup by simp
  moreover have "read_slot h' (Next tb n) = Inr 0" using reads by simp
  ultimately show ?thesis using h' after False by (intro exI [of _ h'] exI [of _ c'] conjI) simp_all
qed


text \<open>The last step fails in this version, if the slot was not empty.\<close>

lemma reset_jump_stubbed:
  assumes "links_ok h" "read_slot h (Next tb n) = Inr p" "p \<noteq> 0" "suppress tb n c = Inl Assertion_Failed"
  shows "s2e_tb_reset_jump suppress tb n (h, c) = Some (Inl Assertion_Failed)"
  by (rule reset_jump_reads [OF assms(1-3), where suppress = suppress and c = c]) (simp add: assms(4))

definition two_blocks :: tb_heap where
  "two_blocks = [0x1000 \<mapsto> \<lparr>jmp_first = 0x1002, jmp_next = [0x2001, 0]\<rparr>, 0x2000 \<mapsto> \<lparr>jmp_first = 0x1000, jmp_next = [0, 0x2002]\<rparr>]"

lemma two_blocks_slots:
  "read_slot two_blocks (First 0x1000) = Inr 0x1002" "read_slot two_blocks (First 0x2000) = Inr 0x1000"
  "read_slot two_blocks (Next 0x1000 n) = (if n = 0 then Inr 0x2001 else if n = 1 then Inr 0 else Inl Undefined_Behaviour)"
  "read_slot two_blocks (Next 0x2000 n) = (if n = 0 then Inr 0 else if n = 1 then Inr 0x2002 else Inl Undefined_Behaviour)"
  "t \<noteq> 0x1000 \<Longrightarrow> t \<noteq> 0x2000 \<Longrightarrow> read_slot two_blocks (Next t n) = Inl Undefined_Behaviour"
  by (auto simp: read_slot_def two_blocks_def less_Suc_eq)

lemma two_blocks_lists: "jump_list two_blocks 0x1000 []" "jump_list two_blocks 0x2000 [(0x1000, 0), (0x2000, 1)]"
  by (simp_all add: jump_list_slot two_blocks_slots tagged_def)

lemma two_blocks_ok: "links_ok two_blocks"
  unfolding links_ok_def
proof (intro conjI allI impI)
  fix t b assume "two_blocks t = Some b"
  then have "t = 0x1000 \<and> b = \<lparr>jmp_first = 0x1002, jmp_next = [0x2001, 0]\<rparr> \<or> t = 0x2000 \<and> b = \<lparr>jmp_first = 0x1000, jmp_next = [0, 0x2002]\<rparr>"
    by (auto simp: two_blocks_def split: if_splits)
  then show "t \<noteq> 0" "t AND 3 = 0" "length (jmp_next b) = 2" "\<exists>js. jump_list two_blocks t js"
    using two_blocks_lists by auto
next
  fix t n p assume "read_slot two_blocks (Next t n) = Inr p" "p \<noteq> 0"
  then have "(t, n) \<in> set [(0x1000, 0), (0x2000, 1)]"
    by (cases "t = 0x1000"; cases "t = 0x2000") (simp_all add: two_blocks_slots split: if_splits)
  then show "\<exists>s js. jump_list two_blocks s js \<and> (t, n) \<in> set js" using two_blocks_lists(2) by blast
qed

theorem reset_jump_removes_witness:
  "\<exists>h'. s2e_tb_reset_jump (\<lambda>t n c. Inr (c @ [(t, n)])) 0x1000 0 (two_blocks, []) = Some (Inr (h', [(0x1000, 0)])) \<and>
     jump_list h' 0x2000 [(0x2000, 1)]"
proof -
  have slot: "read_slot two_blocks (Next 0x1000 0) = Inr 0x2001" by (simp add: two_blocks_slots)
  obtain h' c2 where h': "s2e_tb_reset_jump (\<lambda>t n c. Inr (c @ [(t, n)])) 0x1000 0 (two_blocks, []) = Some (Inr (h', c2))"
      "c2 = (if (0x2001 :: u64) = 0 then [] else [(0x1000, 0)])"
      "\<forall>t js. jump_list two_blocks t js \<longrightarrow> jump_list h' t (remove1 (0x1000, 0) js)"
    using reset_jump_removes [OF two_blocks_ok slot, of "\<lambda>t n c. Inr (c @ [(t, n)])" "[]" "[(0x1000, 0)]"] by auto
  moreover have "jump_list h' 0x2000 [(0x2000, 1)]" using h'(3) two_blocks_lists(2) by fastforce
  ultimately show ?thesis by simp
qed

section \<open>The calls of external functions\<close>

text \<open>\<open>removeFunction\<close> of the dispatcher: \<open>caller\<close> is the function that an instruction is in; the result has the calls
  that stay, in order, and the stubs whose machine code is freed and that are erased.\<close>

fun removeFunction :: "('i \<Rightarrow> 'f) \<Rightarrow> 'f \<Rightarrow> ('i \<times> 'd) list \<Rightarrow> ('i \<times> 'd) list \<times> 'd list" where
  "removeFunction caller f [] = ([], [])"
| "removeFunction caller f (it # its) =
     (let (kept, freed) = removeFunction caller f its
      in if caller (fst it) = f then (kept, snd it # freed) else (it # kept, freed))"

lemma removeFunction_eq:
  "removeFunction caller f its =
     (filter (\<lambda>it. caller (fst it) \<noteq> f) its, map snd (filter (\<lambda>it. caller (fst it) = f) its))"
  by (induction its) auto

end
