(* ===== verification/Tcg_Opcodes.thy ===== *)
theory Tcg_Opcodes
  imports Tcg_Refinement
begin

text \<open>
  The cases of \<open>generateOperation\<close> (\<open>tcg-llvm.cpp\<close>): which code each micro operation gets, by its name in
  TCG without the prefix \<open>INDEX_op_\<close>, for a host with 64-bit registers; and the code of the
  named arithmetic operations against the operations on machine words. \<open>has_div\<close> says whether the host has a
  division (\<open>TCG_TARGET_HAS_div\<close>).
\<close>

section \<open>The cases\<close>

definition flow_opcodes :: "(string \<times> opcode) list" where
  "flow_opcodes =
     [(''debug_insn_start'', Op_debug_insn_start), (''nop'', Op_nop), (''nop1'', Op_nop), (''nop2'', Op_nop), (''nop3'', Op_nop),
      (''nopn'', Op_nopn), (''discard'', Op_discard), (''call'', Op_call), (''br'', Op_br), (''brcond_i32'', Op_brcond 32),
      (''brcond_i64'', Op_brcond 64), (''set_label'', Op_set_label), (''movi_i32'', Op_movi 32), (''mov_i32'', Op_mov 32),
      (''movi_i64'', Op_movi 64), (''mov_i64'', Op_mov 64)]"

definition ext_opcodes :: "(string \<times> opcode) list" where
  "ext_opcodes =
     [(''ext8s_i32'', Op_ext True 8 32), (''ext8u_i32'', Op_ext False 8 32),
      (''ext16s_i32'', Op_ext True 16 32), (''ext16u_i32'', Op_ext False 16 32),
      (''ext8s_i64'', Op_ext True 8 64), (''ext8u_i64'', Op_ext False 8 64),
      (''ext16s_i64'', Op_ext True 16 64), (''ext16u_i64'', Op_ext False 16 64),
      (''ext32s_i64'', Op_ext True 32 64), (''ext32u_i64'', Op_ext False 32 64)]"

definition memory_opcodes :: "(string \<times> opcode) list" where
  "memory_opcodes =
     [(''ld8u_i32'', Op_ld False 8 32), (''ld8s_i32'', Op_ld True 8 32), (''ld16u_i32'', Op_ld False 16 32),
      (''ld16s_i32'', Op_ld True 16 32), (''ld_i32'', Op_ld False 32 32),
      (''st8_i32'', Op_st 8 32), (''st16_i32'', Op_st 16 32), (''st_i32'', Op_st 32 32),
      (''ld8u_i64'', Op_ld False 8 64), (''ld8s_i64'', Op_ld True 8 64), (''ld16u_i64'', Op_ld False 16 64),
      (''ld16s_i64'', Op_ld True 16 64), (''ld32u_i64'', Op_ld False 32 64), (''ld32s_i64'', Op_ld True 32 64),
      (''ld_i64'', Op_ld False 64 64),
      (''st8_i64'', Op_st 8 64), (''st16_i64'', Op_st 16 64), (''st32_i64'', Op_st 32 64), (''st_i64'', Op_st 64 64)]"

definition arith32_opcodes :: "bool \<Rightarrow> (string \<times> opcode) list" where
  "arith32_opcodes has_div =
     [(''add_i32'', Op_arith Add 32), (''sub_i32'', Op_arith Sub 32), (''mul_i32'', Op_arith Mul 32)] @
     (if has_div
      then [(''div_i32'', Op_arith SDiv 32), (''divu_i32'', Op_arith UDiv 32), (''rem_i32'', Op_arith SRem 32), (''remu_i32'', Op_arith URem 32)]
      else [(''div2_i32'', Op_div2 True 32), (''divu2_i32'', Op_div2 False 32)]) @
     [(''and_i32'', Op_arith And 32), (''or_i32'', Op_arith Or 32), (''xor_i32'', Op_arith Xor 32),
      (''shl_i32'', Op_arith Shl 32), (''shr_i32'', Op_arith LShr 32), (''sar_i32'', Op_arith AShr 32),
      (''rotl_i32'', Op_rot True 32), (''rotr_i32'', Op_rot False 32), (''not_i32'', Op_not 32), (''neg_i32'', Op_neg 32),
      (''bswap16_i32'', Op_bswap 16 32), (''bswap32_i32'', Op_bswap 32 32)]"

definition arith64_opcodes :: "bool \<Rightarrow> (string \<times> opcode) list" where
  "arith64_opcodes has_div =
     [(''add_i64'', Op_arith Add 64), (''sub_i64'', Op_arith Sub 64), (''mul_i64'', Op_arith Mul 64)] @
     (if has_div
      then [(''div_i64'', Op_arith SDiv 64), (''divu_i64'', Op_arith UDiv 64), (''rem_i64'', Op_arith SRem 64), (''remu_i64'', Op_arith URem 64)]
      else [(''div2_i64'', Op_div2 True 64), (''divu2_i64'', Op_div2 False 64)]) @
     [(''and_i64'', Op_arith And 64), (''or_i64'', Op_arith Or 64), (''xor_i64'', Op_arith Xor 64),
      (''shl_i64'', Op_arith Shl 64), (''shr_i64'', Op_arith LShr 64), (''sar_i64'', Op_arith AShr 64),
      (''rotl_i64'', Op_rot True 64), (''rotr_i64'', Op_rot False 64), (''not_i64'', Op_not 64), (''neg_i64'', Op_neg 64),
      (''bswap16_i64'', Op_bswap 16 64), (''bswap32_i64'', Op_bswap 32 64), (''bswap64_i64'', Op_bswap 64 64)]"

definition other_opcodes :: "(string \<times> opcode) list" where
  "other_opcodes =
     [(''qemu_st_i32'', Op_qemu_st_i32), (''qemu_st_i64'', Op_qemu_i64), (''qemu_ld_i32'', Op_qemu_ld_i32), (''qemu_ld_i64'', Op_qemu_i64),
      (''exit_tb'', Op_exit_tb), (''goto_tb'', Op_goto_tb), (''deposit_i32'', Op_deposit 32), (''deposit_i64'', Op_deposit 64),
      (''setcond_i32'', Op_setcond_i32), (''add2_i32'', Op_add2_i32), (''movcond_i32'', Op_movcond_i32), (''end'', Op_end)]"

text \<open>Any other operation gets to the default case, which aborts.\<close>

definition opcode_of :: "bool \<Rightarrow> string \<Rightarrow> opcode" where
  "opcode_of has_div name =
     (case map_of (flow_opcodes @ ext_opcodes @ memory_opcodes @ arith32_opcodes has_div @ arith64_opcodes has_div @ other_opcodes) name of
        Some opc \<Rightarrow> opc | None \<Rightarrow> Op_unknown)"

text \<open>Only the divisions depend on the operations that the host has.\<close>

definition host_names :: "string list" where
  "host_names =
     [''div_i32'', ''divu_i32'', ''rem_i32'', ''remu_i32'', ''div2_i32'', ''divu2_i32'',
      ''div_i64'', ''divu_i64'', ''rem_i64'', ''remu_i64'', ''div2_i64'', ''divu2_i64'']"

definition host_free :: "string \<Rightarrow> bool" where
  "host_free n = list_all (\<lambda>k. k \<noteq> n) host_names"

lemma lookup_other: "list_all (\<lambda>(k, v). k \<noteq> n) ys \<Longrightarrow> map_of (xs @ ys @ zs) n = map_of (xs @ zs) n"
proof -
  assume "list_all (\<lambda>(k, v). k \<noteq> n) ys"
  then have "map_of ys n = None" by (induction ys) auto
  then show ?thesis by (simp add: map_add_def split: option.split)
qed

lemma arith_lookup:
  assumes "host_free n"
  shows "map_of (arith32_opcodes d) n = map_of (arith32_opcodes True) n" "map_of (arith64_opcodes d) n = map_of (arith64_opcodes True) n"
  unfolding arith32_opcodes_def arith64_opcodes_def
  by (subst (1 2) lookup_other; use assms in \<open>simp add: host_free_def host_names_def\<close>)+

lemma opcode_of_any: "host_free n \<Longrightarrow> opcode_of d n = opcode_of True n"
  unfolding opcode_of_def map_of_append map_add_def by (simp only: arith_lookup [of n d])

text \<open>Operations of TCG that have no case: the two halves of a wide product, the conditional moves and
  comparisons of 64 bits, the double subtraction.\<close>

definition missing_names :: "string list" where
  "missing_names = [''mulu2_i32'', ''setcond_i64'', ''movcond_i64'', ''sub2_i32'']"

lemma missing_names_unknown: "list_all host_free missing_names" "list_all (\<lambda>n. opcode_of True n = Op_unknown) missing_names"
  by code_simp+

lemma missing_cases: "n \<in> set missing_names \<Longrightarrow> opcode_of d n = Op_unknown"
  using missing_names_unknown opcode_of_any [of n d] by (simp add: list_all_iff)

lemma missing_case_aborts: "opcode_of d name = Op_unknown \<Longrightarrow> generateOperation L cx (opcode_of d name) args st = tcg_abort"
  by (simp add: generateOperation_def tcg_abort_def)

section \<open>Arithmetic on machine words\<close>

text \<open>The documented meaning of an operation on words: when it is defined, and its result.\<close>

definition word_ops :: "bool \<Rightarrow> (string \<times> ('a :: len word \<Rightarrow> 'a word \<Rightarrow> bool) \<times> ('a word \<Rightarrow> 'a word \<Rightarrow> 'a word)) list" where
  "word_ops has_div =
     [(''add'', \<lambda>x y. True, \<lambda>x y. x + y), (''sub'', \<lambda>x y. True, \<lambda>x y. x - y), (''mul'', \<lambda>x y. True, \<lambda>x y. x * y),
      (''and'', \<lambda>x y. True, \<lambda>x y. x AND y), (''or'', \<lambda>x y. True, \<lambda>x y. x OR y), (''xor'', \<lambda>x y. True, \<lambda>x y. x XOR y),
      (''shl'', \<lambda>x y. unat y < LENGTH('a), \<lambda>x y. push_bit (unat y) x),
      (''shr'', \<lambda>x y. unat y < LENGTH('a), \<lambda>x y. drop_bit (unat y) x),
      (''sar'', \<lambda>x y. unat y < LENGTH('a), \<lambda>x y. signed_drop_bit (unat y) x),
      (''rotl'', \<lambda>x y. 0 < unat y \<and> unat y < LENGTH('a), \<lambda>x y. word_rotl (unat y) x),
      (''rotr'', \<lambda>x y. 0 < unat y \<and> unat y < LENGTH('a), \<lambda>x y. word_rotr (unat y) x)] @
     (if has_div then
       [(''divu'', \<lambda>x y. y \<noteq> 0, \<lambda>x y. x div y), (''remu'', \<lambda>x y. y \<noteq> 0, \<lambda>x y. x mod y),
        (''div'', \<lambda>x y. y \<noteq> 0 \<and> \<not> (sint x = - (2 ^ (LENGTH('a) - 1)) \<and> sint y = - 1), \<lambda>x y. word_of_int (sint x sdiv sint y)),
        (''rem'', \<lambda>x y. y \<noteq> 0 \<and> \<not> (sint x = - (2 ^ (LENGTH('a) - 1)) \<and> sint y = - 1), \<lambda>x y. word_of_int (sint x smod sint y))]
      else [])"

lemma sval_unat: "sval LENGTH('a) (unat (x :: 'a :: len word)) = sint x"
  by (simp add: sval_def sint_uint)

lemma uval_word: "uval LENGTH('a) k = unat (word_of_int k :: 'a :: len word)"
  by (simp add: uval_def unat_eq_nat_uint uint_word_of_int take_bit_eq_mod)

lemma alu_word:
  fixes x y :: "'a :: len word"
  shows "alu Add LENGTH('a) (unat x) (unat y) = Some (unat (x + y))"
    "alu Sub LENGTH('a) (unat x) (unat y) = Some (unat (x - y))"
    "alu Mul LENGTH('a) (unat x) (unat y) = Some (unat (x * y))"
    "alu And LENGTH('a) (unat x) (unat y) = Some (unat (x AND y))"
    "alu Or LENGTH('a) (unat x) (unat y) = Some (unat (x OR y))"
    "alu Xor LENGTH('a) (unat x) (unat y) = Some (unat (x XOR y))"
    "unat y < LENGTH('a) \<Longrightarrow> alu Shl LENGTH('a) (unat x) (unat y) = Some (unat (push_bit (unat y) x))"
    "unat y < LENGTH('a) \<Longrightarrow> alu LShr LENGTH('a) (unat x) (unat y) = Some (unat (drop_bit (unat y) x))"
    "unat y < LENGTH('a) \<Longrightarrow> alu AShr LENGTH('a) (unat x) (unat y) = Some (unat (signed_drop_bit (unat y) x))"
proof -
  have "(unat x + (2 ^ LENGTH('a) - unat y)) mod 2 ^ LENGTH('a) = unat (x - y)"
  proof -
    have y: "unat y < 2 ^ LENGTH('a)" by (rule unsigned_less)
    then have "int (2 ^ LENGTH('a) - unat y) = 2 ^ LENGTH('a) - uint y" by (simp add: of_nat_diff less_imp_le)
    note d = this
    have "uint x + (2 ^ LENGTH('a) - uint y) = (uint x - uint y) + 2 ^ LENGTH('a)" by simp
    then have "int ((unat x + (2 ^ LENGTH('a) - unat y)) mod 2 ^ LENGTH('a)) = ((uint x - uint y) + 2 ^ LENGTH('a)) mod 2 ^ LENGTH('a)"
      by (simp only: zmod_int of_nat_add d of_nat_power of_nat_numeral of_nat_unat uint_nat [symmetric])
    also have "\<dots> = (uint x - uint y) mod 2 ^ LENGTH('a)" by (rule mod_add_self2)
    also have "\<dots> = uint (x - y)" by (simp add: uint_word_ariths)
    finally show ?thesis by (simp flip: of_nat_eq_iff [where ?'a = int])
  qed
  then show "alu Sub LENGTH('a) (unat x) (unat y) = Some (unat (x - y))" by simp
  show "alu Add LENGTH('a) (unat x) (unat y) = Some (unat (x + y))" "alu Mul LENGTH('a) (unat x) (unat y) = Some (unat (x * y))"
    "alu And LENGTH('a) (unat x) (unat y) = Some (unat (x AND y))" "alu Or LENGTH('a) (unat x) (unat y) = Some (unat (x OR y))"
    "alu Xor LENGTH('a) (unat x) (unat y) = Some (unat (x XOR y))"
    by (simp_all add: unat_word_ariths unsigned_and_eq unsigned_or_eq unsigned_xor_eq)
next
  assume k: "unat y < LENGTH('a)"
  have "unat (push_bit (unat y) x) = unat x * 2 ^ unat y mod 2 ^ LENGTH('a)"
    unfolding unsigned_push_bit_eq by (simp add: take_bit_eq_mod push_bit_eq_mult)
  then show "alu Shl LENGTH('a) (unat x) (unat y) = Some (unat (push_bit (unat y) x))" using k by simp
  have "unat (drop_bit (unat y) x) = unat x div 2 ^ unat y" unfolding unat_drop_bit_eq by (simp add: drop_bit_eq_div)
  then show "alu LShr LENGTH('a) (unat x) (unat y) = Some (unat (drop_bit (unat y) x))" using k by simp
  have "word_of_int (sint x div 2 ^ unat y) = (word_of_int (sint (signed_drop_bit (unat y) x)) :: 'a word)"
    by (simp only: sint_signed_drop_bit_eq drop_bit_eq_div)
  then show "alu AShr LENGTH('a) (unat x) (unat y) = Some (unat (signed_drop_bit (unat y) x))"
    using k by (simp add: sval_unat uval_word)
qed

lemma alu_word_div:
  fixes x y :: "'a :: len word"
  assumes "y \<noteq> 0"
  shows "alu UDiv LENGTH('a) (unat x) (unat y) = Some (unat (x div y))"
    "alu URem LENGTH('a) (unat x) (unat y) = Some (unat (x mod y))"
    "\<not> (sint x = - (2 ^ (LENGTH('a) - 1)) \<and> sint y = - 1) \<Longrightarrow>
       alu SDiv LENGTH('a) (unat x) (unat y) = Some (unat (word_of_int (sint x sdiv sint y) :: 'a word))"
    "\<not> (sint x = - (2 ^ (LENGTH('a) - 1)) \<and> sint y = - 1) \<Longrightarrow>
       alu SRem LENGTH('a) (unat x) (unat y) = Some (unat (word_of_int (sint x smod sint y) :: 'a word))"
  using assms by (simp_all add: unat_div_distrib unat_mod_distrib sval_unat uval_word unat_eq_0)

lemma rotl_parts:
  assumes "0 < k" "k < LENGTH('a :: len)"
  shows "word_rotl k (x :: 'a word) = push_bit k x OR drop_bit (LENGTH('a) - k) x"
proof (rule bit_word_eqI)
  fix n assume n: "n < LENGTH('a)"
  show "bit (word_rotl k x) n = bit (push_bit k x OR drop_bit (LENGTH('a) - k) x) n"
  proof (cases "n < k")
    case True
    then have "(n + (LENGTH('a) - k mod LENGTH('a))) mod LENGTH('a) = LENGTH('a) - k + n" using assms by simp
    then show ?thesis using n True assms by (simp add: bit_word_rotl_iff bit_simps)
  next
    case False
    then have "n + (LENGTH('a) - k mod LENGTH('a)) = (n - k) + LENGTH('a)" using assms by simp
    then have "(n + (LENGTH('a) - k mod LENGTH('a))) mod LENGTH('a) = n - k" using n by simp
    moreover have "\<not> bit x (LENGTH('a) - k + n)" using False assms bit_imp_le_length [of x "LENGTH('a) - k + n"] by auto
    ultimately show ?thesis using n False by (simp add: bit_word_rotl_iff bit_simps)
  qed
qed

lemma rotr_rotl: "0 < k \<Longrightarrow> k < LENGTH('a :: len) \<Longrightarrow> word_rotr k (x :: 'a word) = word_rotl (LENGTH('a) - k) x"
proof (rule bit_word_eqI)
  fix n assume k: "0 < k" "k < LENGTH('a)" and n: "n < LENGTH('a)"
  then have "(n + k) mod LENGTH('a) = (n + (LENGTH('a) - (LENGTH('a) - k) mod LENGTH('a))) mod LENGTH('a)" by simp
  then show "bit (word_rotr k x) n = bit (word_rotl (LENGTH('a) - k) x) n" using n k by (simp add: bit_word_rotl_iff bit_word_rotr_iff)
qed

lemma rot_word:
  fixes x :: "'a :: len word"
  assumes k: "0 < k" "k < LENGTH('a)"
  shows "rot_of True LENGTH('a) (unat x) k = unat (word_rotl k x)" "rot_of False LENGTH('a) (unat x) k = unat (word_rotr k x)"
proof -
  have sum: "unat (push_bit j x OR drop_bit (LENGTH('a) - j) x) = unat x * 2 ^ j mod 2 ^ LENGTH('a) + unat x div 2 ^ (LENGTH('a) - j)"
    if j: "0 < j" "j < LENGTH('a)" for j
  proof -
    have "push_bit j x AND drop_bit (LENGTH('a) - j) x = 0" by (rule bit_word_eqI) (use j in \<open>auto simp: bit_simps dest: bit_imp_le_length\<close>)
    then have "unat (push_bit j x) AND unat (drop_bit (LENGTH('a) - j) x) = 0" by (simp flip: unsigned_and_eq)
    from disjunctive_add_eq_or [OF this] have "unat (push_bit j x OR drop_bit (LENGTH('a) - j) x) =
        unat (push_bit j x) + unat (drop_bit (LENGTH('a) - j) x)" by (simp add: unsigned_or_eq)
    moreover have "unat (push_bit j x) = unat x * 2 ^ j mod 2 ^ LENGTH('a)"
      unfolding unsigned_push_bit_eq by (simp add: take_bit_eq_mod push_bit_eq_mult)
    moreover have "unat (drop_bit (LENGTH('a) - j) x) = unat x div 2 ^ (LENGTH('a) - j)"
      unfolding unat_drop_bit_eq by (simp add: drop_bit_eq_div)
    ultimately show ?thesis by simp
  qed
  show "rot_of True LENGTH('a) (unat x) k = unat (word_rotl k x)"
    using sum [OF k] by (simp add: rot_of_def rotl_parts [OF k])
  have j: "0 < LENGTH('a) - k" "LENGTH('a) - k < LENGTH('a)" using k by simp_all
  show "rot_of False LENGTH('a) (unat x) k = unat (word_rotr k x)"
    using sum [OF j] k by (simp add: rot_of_def rotr_rotl [OF k] rotl_parts [OF j])
qed

section \<open>Named operations\<close>

definition suffix_of :: "nat \<Rightarrow> string" where
  "suffix_of b = (if b = 64 then ''_i64'' else ''_i32'')"

definition plain_names :: "nat \<Rightarrow> (string \<times> opcode) list" where
  "plain_names b =
     [(''add'', Op_arith Add b), (''sub'', Op_arith Sub b), (''mul'', Op_arith Mul b), (''and'', Op_arith And b), (''or'', Op_arith Or b),
      (''xor'', Op_arith Xor b), (''shl'', Op_arith Shl b), (''shr'', Op_arith LShr b), (''sar'', Op_arith AShr b),
      (''rotl'', Op_rot True b), (''rotr'', Op_rot False b)]"

definition division_names :: "nat \<Rightarrow> (string \<times> opcode) list" where
  "division_names b =
     [(''divu'', Op_arith UDiv b), (''remu'', Op_arith URem b), (''div'', Op_arith SDiv b), (''rem'', Op_arith SRem b)]"

lemma plain_names_32: "list_all (\<lambda>(n, opc). host_free (n @ suffix_of 32)) (plain_names 32)"
    "list_all (\<lambda>(n, opc). opcode_of True (n @ suffix_of 32) = opc) (plain_names 32)"
  by code_simp+

lemma plain_names_64: "list_all (\<lambda>(n, opc). host_free (n @ suffix_of 64)) (plain_names 64)"
    "list_all (\<lambda>(n, opc). opcode_of True (n @ suffix_of 64) = opc) (plain_names 64)"
  by code_simp+

lemma division_names_32: "list_all (\<lambda>(n, opc). opcode_of True (n @ suffix_of 32) = opc) (division_names 32)"
  by code_simp

lemma division_names_64: "list_all (\<lambda>(n, opc). opcode_of True (n @ suffix_of 64) = opc) (division_names 64)"
  by code_simp

lemma plain_name: "b = 32 \<or> b = 64 \<Longrightarrow> (n, opc) \<in> set (plain_names b) \<Longrightarrow> opcode_of d (n @ suffix_of b) = opc"
  using plain_names_32 plain_names_64 opcode_of_any [of "n @ suffix_of b" d] unfolding list_all_iff by (elim disjE) fastforce+

lemma division_name: "b = 32 \<or> b = 64 \<Longrightarrow> (n, opc) \<in> set (division_names b) \<Longrightarrow> opcode_of True (n @ suffix_of b) = opc"
  using division_names_32 division_names_64 unfolding list_all_iff by auto

text \<open>The two lists of an operation on words and of its case are in the same order.\<close>

definition computes :: "opcode \<Rightarrow> 'a :: len word \<Rightarrow> 'a word \<Rightarrow> 'a word \<Rightarrow> bool" where
  "computes opc x y z \<longleftrightarrow> (case opc of
      Op_arith p b \<Rightarrow> b = LENGTH('a) \<and> alu p b (unat x) (unat y) = Some (unat z)
    | Op_rot l b \<Rightarrow> b = LENGTH('a) \<and> 0 < unat y \<and> unat y < b \<and> unat z = rot_of l b (unat x) (unat y)
    | _ \<Rightarrow> False)"

lemma word_ops_computed:
  "list_all2 (\<lambda>(base, ok, f) (n, opc). n = base \<and> (\<forall>x y :: 'a :: len word. ok x y \<longrightarrow> computes opc x y (f x y)))
     (word_ops d) (plain_names LENGTH('a) @ (if d then division_names LENGTH('a) else []))"
  by (cases d) (simp_all add: word_ops_def plain_names_def division_names_def computes_def alu_word alu_word_div rot_word del: alu.simps)

lemma named_step:
  fixes x y :: "'a :: len word"
  assumes op: "(base, ok, f) \<in> set (word_ops d)" and b: "LENGTH('a) = 32 \<or> LENGTH('a) = 64" and ok: "ok x y"
    and T: "bits_of cx (args 1) = LENGTH('a)" "bits_of cx (args 2) = LENGTH('a)" "T (args 1) = Some (unat x)" "T (args 2) = Some (unat y)"
  shows "tcg_step cx (opcode_of d (base @ suffix_of LENGTH('a))) args T = wr cx LENGTH('a) (args 0) (unat (f x y)) T"
proof -
  from op obtain i where i: "i < length (word_ops d :: (string \<times> ('a word \<Rightarrow> _) \<times> _) list)" "word_ops d ! i = (base, ok, f)"
    by (auto simp: in_set_conv_nth)
  let ?names = "plain_names LENGTH('a) @ (if d then division_names LENGTH('a) else [])"
  obtain n opc where o: "?names ! i = (n, opc)" by fastforce
  have "i < length ?names" "n = base \<and> (\<forall>x y :: 'a word. ok x y \<longrightarrow> computes opc x y (f x y))"
    using word_ops_computed [of d, where 'a = 'a] i o unfolding list_all2_conv_all_nth by auto
  then have c: "computes opc x y (f x y)" and "(base, opc) \<in> set ?names" using o ok nth_mem [of i ?names] by auto
  then have "opcode_of d (base @ suffix_of LENGTH('a)) = opc" using plain_name [OF b] division_name [OF b] by (cases d) auto
  moreover have "tcg_step cx opc args T = wr cx LENGTH('a) (args 0) (unat (f x y)) T"
    using c T unfolding computes_def by (cases opc) (simp_all add: rd32_def rd_def del: alu.simps)
  ultimately show ?thesis by simp
qed



end
