(* ===== verification/Tcg_Names.thy ===== *)
theory Tcg_Names
  imports Decimal_Text
begin

text \<open>
  The names of the LLVM functions of translation blocks (\<open>generateCode\<close> and \<open>tcg_llvm_get_func_name\<close> of
  \<open>tcg-llvm.cpp\<close>): a counter of the context and the program counter of the block, and the copy of a name into a
  buffer of 64 characters; and the helpers for guest memory, which are found by name.
\<close>

section \<open>The code\<close>

definition hex_digit :: "nat \<Rightarrow> char" where
  "hex_digit d = (if d < 10 then digit d else char_of (87 + d))"

fun hexadecimal :: "nat \<Rightarrow> string" where
  "hexadecimal n = (if n < 16 then [hex_digit n] else hexadecimal (n div 16) @ [hex_digit (n mod 16)])"

declare hexadecimal.simps [simp del]

text \<open>\<open>m_tbCount\<close> is an \<open>int\<close>, whose increment is undefined at the largest one.\<close>

definition next_function_name :: "u64 \<Rightarrow> nat \<Rightarrow> (string \<times> nat) res" where
  "next_function_name pc tbCount =
     (if tbCount < 2 ^ 31 - 1 then Inr (''tcg-llvm-tb-'' @ decimal tbCount @ ''-'' @ hexadecimal (unat pc), tbCount + 1)
      else Inl Undefined_Behaviour)"

fun function_names :: "u64 list \<Rightarrow> nat \<Rightarrow> (string list \<times> nat) res" where
  "function_names [] c = Inr ([], c)"
| "function_names (pc # pcs) c = rbind (next_function_name pc c) (\<lambda>(n, c). rbind (function_names pcs c) (\<lambda>(ns, c). Inr (n # ns, c)))"

text \<open>\<open>strncpy\<close> copies up to the end of the source, and pads with zeros; a source that is too long is not terminated.\<close>

definition strncpy :: "char list \<Rightarrow> string \<Rightarrow> char list" where
  "strncpy buf s = (let n = length buf in take n s @ replicate (n - length s) (CHR 0x00))"

definition tcg_llvm_get_func_name :: "string option \<Rightarrow> char list \<Rightarrow> char list" where
  "tcg_llvm_get_func_name llvm_function buf =
     (case llvm_function of Some name \<Rightarrow> strncpy buf name | None \<Rightarrow> buf[0 := CHR 0x00])"

text \<open>The string that a caller reads from the buffer; a buffer without an end is read past its bound.\<close>

definition c_string :: "char list \<Rightarrow> string res" where
  "c_string buf = (if CHR 0x00 \<in> set buf then Inr (takeWhile (\<lambda>c. c \<noteq> CHR 0x00) buf) else Inl Undefined_Behaviour)"

section \<open>Facts\<close>

lemma hex_digit_value: "d < 16 \<Longrightarrow> of_char (hex_digit d) = (if d < 10 then 48 + d else 87 + d :: nat)"
  by (simp add: hex_digit_def digit_less)

definition hex_value :: "string \<Rightarrow> nat" where
  "hex_value ds = foldl (\<lambda>n c. 16 * n + (if of_char c < (58 :: nat) then of_char c - 48 else of_char c - 87)) 0 ds"

lemma hexadecimal_value: "hex_value (hexadecimal n) = n"
proof (induction n rule: hexadecimal.induct)
  case (1 n)
  then show ?case by (cases "n < 16") (simp_all add: hexadecimal.simps [of n] hex_value_def hex_digit_value)
qed

lemma hexadecimal_inject: "hexadecimal m = hexadecimal n \<longleftrightarrow> m = n"
  by (metis hexadecimal_value)

lemma hexadecimal_chars: "c \<in> set (hexadecimal n) \<Longrightarrow> 48 \<le> (of_char c :: nat)"
proof (induction n rule: hexadecimal.induct)
  case (1 n)
  then show ?case by (cases "n < 16") (auto simp: hexadecimal.simps [of n] hex_digit_value)
qed

lemma decimal_length: "0 < k \<Longrightarrow> n < 10 ^ k \<Longrightarrow> length (decimal n) \<le> k"
proof (induction n arbitrary: k rule: decimal.induct)
  case (1 n)
  show ?case
  proof (cases "n < 10")
    case False
    then obtain j where k: "k = Suc j" "0 < j" using 1(2,3) by (cases k) (auto, cases "k - 1", auto)
    then have "n div 10 < 10 ^ j" using 1(3) by (simp add: less_mult_imp_div_less)
    then show ?thesis using 1(1) [OF False k(2)] False k by (simp add: decimal.simps [of n])
  qed (use 1(2) in \<open>simp add: decimal.simps [of n]\<close>)
qed

lemma hexadecimal_length: "0 < k \<Longrightarrow> n < 16 ^ k \<Longrightarrow> length (hexadecimal n) \<le> k"
proof (induction n arbitrary: k rule: hexadecimal.induct)
  case (1 n)
  show ?case
  proof (cases "n < 16")
    case False
    then obtain j where k: "k = Suc j" "0 < j" using 1(2,3) by (cases k) (auto, cases "k - 1", auto)
    then have "n div 16 < 16 ^ j" using 1(3) by (simp add: less_mult_imp_div_less)
    then show ?thesis using 1(1) [OF False k(2)] False k by (simp add: hexadecimal.simps [of n])
  qed (use 1(2) in \<open>simp add: hexadecimal.simps [of n]\<close>)
qed

lemma dash_free: "CHR ''-'' \<notin> set (decimal n)" "CHR 0x00 \<notin> set (decimal n)" "CHR 0x00 \<notin> set (hexadecimal n)"
  using decimal_digits [of n] hexadecimal_chars [of "CHR 0x00" n] by (auto simp: is_digit_def)

lemma append_dash_inject:
  "CHR ''-'' \<notin> set as \<Longrightarrow> CHR ''-'' \<notin> set bs \<Longrightarrow> as @ CHR ''-'' # cs = bs @ CHR ''-'' # ds \<longleftrightarrow> as = bs \<and> cs = ds"
proof (induction as arbitrary: bs)
  case Nil
  then show ?case by (cases bs) auto
next
  case (Cons a as)
  then show ?case by (cases bs) auto
qed

definition block_name :: "nat \<Rightarrow> u64 \<Rightarrow> string" where
  "block_name c pc = ''tcg-llvm-tb-'' @ decimal c @ ''-'' @ hexadecimal (unat pc)"

lemma block_name_inject: "block_name c pc = block_name d qc \<longleftrightarrow> c = d \<and> pc = qc"
  by (simp add: block_name_def append_dash_inject dash_free decimal_eq_iff hexadecimal_inject word_unat_eq_iff)

lemma block_name_length: "c < 2 ^ 31 \<Longrightarrow> length (block_name c pc) < 64"
proof -
  assume "c < 2 ^ 31"
  then have "length (decimal c) \<le> 10" by (intro decimal_length) simp_all
  moreover have "length (hexadecimal (unat pc)) \<le> 16" using unsigned_less [of pc] by (intro hexadecimal_length) simp_all
  ultimately show ?thesis by (simp add: block_name_def)
qed

lemma function_names_eq:
  "c + length pcs < 2 ^ 31 \<Longrightarrow> function_names pcs c = Inr (map2 block_name [c..<c + length pcs] pcs, c + length pcs)"
proof (induction pcs arbitrary: c)
  case (Cons pc pcs)
  have "[c..<c + length (pc # pcs)] = c # [Suc c..<Suc c + length pcs]" by (simp add: upt_conv_Cons del: upt_Suc)
  then show ?case using Cons by (simp add: next_function_name_def block_name_def)
qed simp

lemma c_string_copy:
  assumes "CHR 0x00 \<notin> set s" "length s < length buf"
  shows "c_string (strncpy buf s) = Inr s"
proof -
  have "takeWhile (\<lambda>c. c \<noteq> CHR 0x00) (s @ replicate (length buf - length s) (CHR 0x00)) = s"
    using assms by (subst takeWhile_append2) (auto simp: takeWhile_eq_Nil_iff)
  then show ?thesis using assms by (simp add: c_string_def strncpy_def)
qed

lemma c_string_too_long: "CHR 0x00 \<notin> set s \<Longrightarrow> length buf \<le> length s \<Longrightarrow> c_string (strncpy buf s) = Inl Undefined_Behaviour"
  by (auto simp: c_string_def strncpy_def dest: in_set_takeD)

text \<open>As long as the counter does not overflow, the functions of all blocks of a context have different names, also
  those of blocks with the same program counter, and the buffer returns each name whole: it is long enough for
  every counter and program counter, while a longer name would be left without an end.\<close>

theorem function_names_distinct:
  assumes "length pcs < 2 ^ 31" "length buf = 64"
  shows "\<exists>names. function_names pcs 0 = Inr (names, length pcs) \<and> length names = length pcs \<and> distinct names \<and>
    (\<forall>name\<in>set names. c_string (tcg_llvm_get_func_name (Some name) buf) = Inr name)"
proof -
  let ?names = "map2 block_name [0..<length pcs] pcs"
  have "distinct ?names" by (auto simp: distinct_conv_nth block_name_inject)
  moreover have "c_string (tcg_llvm_get_func_name (Some name) buf) = Inr name" if "name \<in> set ?names" for name
  proof -
    have "\<exists>c pc. name = block_name c pc \<and> c < length pcs" using that by (fastforce simp: set_zip)
    then obtain c pc where "name = block_name c pc" "c < length pcs" by blast
    then show ?thesis using c_string_copy [of name buf] block_name_length [of c pc] assms
      by (simp add: tcg_llvm_get_func_name_def block_name_def dash_free)
  qed
  ultimately show ?thesis using function_names_eq [of 0 pcs] assms(1) by auto
qed

section \<open>Helpers for guest memory\<close>

text \<open>The tables of helpers are filled with functions of the module, or null pointers, and indexed by the width divided by 16.\<close>

definition initializeHelpers :: "(string \<Rightarrow> 'f option) \<Rightarrow> 'f option list \<times> 'f option list" where
  "initializeHelpers getFunction =
     (map getFunction [''_helper_ldb_mmu'', ''_helper_ldw_mmu'', ''_helper_ldl_mmu'', ''_helper_ldq_mmu'', ''_helper_ldq_mmu''],
      map getFunction [''_helper_stb_mmu'', ''_helper_stw_mmu'', ''_helper_stl_mmu'', ''_helper_stq_mmu'', ''_helper_stq_mmu''])"

definition memory_helper :: "(string \<Rightarrow> 'f option) \<Rightarrow> bool \<Rightarrow> nat \<Rightarrow> 'f option res" where
  "memory_helper getFunction ld bits =
     (let (lds, sts) = initializeHelpers getFunction; fs = (if ld then lds else sts)
      in if bits div 16 < length fs then Inr (fs ! (bits div 16)) else Inl Undefined_Behaviour)"

text \<open>Each width of an access finds its helper, the index 3 is not used.\<close>

lemma memory_helper_of_width:
  assumes "(bits, letter) \<in> {(8, CHR ''b''), (16, CHR ''w''), (32, CHR ''l''), (64, CHR ''q'')}"
  shows "memory_helper getFunction ld bits = Inr (getFunction (''_helper_'' @ (if ld then ''ld'' else ''st'') @ [letter] @ ''_mmu''))"
  using assms by (cases ld) (auto simp: memory_helper_def initializeHelpers_def)

end
