(* ===== verification/Lua_Binding.thy ===== *)
theory Lua_Binding
  imports Decimal_Text
begin

text \<open>
  The template that makes C++ objects known to Lua (\<open>Lunar\<close> in \<open>ConfigFile.h\<close>) and its use for states
  (\<open>ConfigFile.cpp\<close>): the registration of a class, the userdata that stands for an object, the dispatch of
  methods and the collection of garbage. The functions of Lua's interface act as its manual says.
\<close>

section \<open>Lua\<close>

text \<open>Functions of the template that Lua calls; a thunk has the entry of the method as its upvalue. Tables and userdata are
  references. An object is its address, and no object is at 0.\<close>

datatype lua_function = Tostring_T | Gc_T | New_T | Thunk nat

datatype lua_val =
    Nil
  | Boolean bool
  | Text string
  | Light nat
  | Table nat
  | Userdata nat
  | Function lua_function

text \<open>The stack has its top first. \<open>user_ptr\<close> is the field \<open>pT\<close>, \<open>new_ref\<close> the next reference, \<open>registry\<close> has the metatables
  by name.\<close>

record lua =
  lstack :: "lua_val list"
  tables :: "nat \<Rightarrow> lua_val \<Rightarrow> lua_val option"
  table_meta :: "nat \<Rightarrow> nat option"
  user_ptr :: "nat \<Rightarrow> nat"
  user_meta :: "nat \<Rightarrow> nat option"
  new_ref :: nat
  registry :: "string \<Rightarrow> nat option"
  globals :: "string \<Rightarrow> lua_val option"

definition lua_fail :: "'a res" where
  "lua_fail = Inl (Thrown ''lua_error'')"

text \<open>A positive index counts from the bottom of the stack, a negative one from its top.\<close>

definition slot_at :: "int \<Rightarrow> lua_val list \<Rightarrow> nat" where
  "slot_at i vs = (if 0 < i then length vs - nat i else nat (- i) - 1)"

definition val_at :: "int \<Rightarrow> lua_val list \<Rightarrow> lua_val" where
  "val_at i vs = (if slot_at i vs < length vs then vs ! slot_at i vs else Nil)"

definition lval_at :: "int \<Rightarrow> lua \<Rightarrow> lua_val" where
  "lval_at i L = val_at i (lstack L)"

definition gettop :: "lua \<Rightarrow> int" where
  "gettop L = int (length (lstack L))"

definition lpush :: "lua_val \<Rightarrow> lua \<Rightarrow> lua" where
  "lpush v L = L\<lparr>lstack := v # lstack L\<rparr>"

definition lpop :: "nat \<Rightarrow> lua \<Rightarrow> lua" where
  "lpop n L = L\<lparr>lstack := drop n (lstack L)\<rparr>"

definition pushvalue :: "int \<Rightarrow> lua \<Rightarrow> lua" where
  "pushvalue i L = lpush (lval_at i L) L"

definition settop :: "int \<Rightarrow> lua \<Rightarrow> lua" where
  "settop i L = L\<lparr>lstack := drop (length (lstack L) - nat i) (lstack L)\<rparr>"

definition linsert :: "int \<Rightarrow> lua \<Rightarrow> lua" where
  "linsert i L = (let s = slot_at i (lstack L); xs = lstack L in L\<lparr>lstack := take s (tl xs) @ hd xs # drop s (tl xs)\<rparr>)"

definition lremove :: "int \<Rightarrow> lua \<Rightarrow> lua" where
  "lremove i L = (let s = slot_at i (lstack L) in L\<lparr>lstack := take s (lstack L) @ drop (Suc s) (lstack L)\<rparr>)"

definition lreplace :: "int \<Rightarrow> lua \<Rightarrow> lua" where
  "lreplace i L = L\<lparr>lstack := tl ((lstack L)[slot_at i (lstack L) := hd (lstack L)])\<rparr>"

definition newtable :: "lua \<Rightarrow> lua" where
  "newtable L = L\<lparr>lstack := Table (new_ref L) # lstack L, tables := (tables L)(new_ref L := (\<lambda>_. None)),
     table_meta := (table_meta L)(new_ref L := None), new_ref := Suc (new_ref L)\<rparr>"

definition newuserdata :: "lua \<Rightarrow> lua" where
  "newuserdata L = L\<lparr>lstack := Userdata (new_ref L) # lstack L, user_meta := (user_meta L)(new_ref L := None), new_ref := Suc (new_ref L)\<rparr>"

text \<open>None of the tables that the template reads has a metatable with \<open>__index\<close> or \<open>__newindex\<close>; a userdata is read through the
  \<open>__index\<close> of its metatable.\<close>

definition gettable :: "int \<Rightarrow> lua \<Rightarrow> lua res" where
  "gettable i L = (case lval_at i L of
      Table t \<Rightarrow> Inr (L\<lparr>lstack := (case tables L t (hd (lstack L)) of None \<Rightarrow> Nil | Some v \<Rightarrow> v) # tl (lstack L)\<rparr>)
    | Userdata u \<Rightarrow> (case Option.bind (user_meta L u) (\<lambda>m. tables L m (Text ''__index'')) of
          Some (Table t) \<Rightarrow> Inr (L\<lparr>lstack := (case tables L t (hd (lstack L)) of None \<Rightarrow> Nil | Some v \<Rightarrow> v) # tl (lstack L)\<rparr>)
        | _ \<Rightarrow> lua_fail)
    | _ \<Rightarrow> lua_fail)"

definition settable :: "int \<Rightarrow> lua \<Rightarrow> lua res" where
  "settable i L = (case (lval_at i L, lstack L) of
      (Table t, v # k # vs) \<Rightarrow>
        Inr (L\<lparr>lstack := vs, tables := (tables L)(t := (tables L t)(k := if v = Nil then None else Some v))\<rparr>)
    | _ \<Rightarrow> lua_fail)"

definition setmetatable :: "int \<Rightarrow> lua \<Rightarrow> lua res" where
  "setmetatable i L = (case (lval_at i L, lstack L) of
      (Table t, Table m # vs) \<Rightarrow> Inr (L\<lparr>lstack := vs, table_meta := (table_meta L)(t := Some m)\<rparr>)
    | (Userdata u, Table m # vs) \<Rightarrow> Inr (L\<lparr>lstack := vs, user_meta := (user_meta L)(u := Some m)\<rparr>)
    | _ \<Rightarrow> lua_fail)"

definition setglobal :: "string \<Rightarrow> lua \<Rightarrow> lua" where
  "setglobal n L = L\<lparr>lstack := tl (lstack L), globals := (globals L)(n \<mapsto> hd (lstack L))\<rparr>"

definition newmetatable :: "string \<Rightarrow> lua \<Rightarrow> lua" where
  "newmetatable n L = (case registry L n of
      Some m \<Rightarrow> lpush (Table m) L
    | None \<Rightarrow> (newtable L)\<lparr>registry := (registry L)(n \<mapsto> new_ref L)\<rparr>)"

definition getmetatable :: "string \<Rightarrow> lua \<Rightarrow> lua" where
  "getmetatable n L = lpush (case registry L n of Some m \<Rightarrow> Table m | None \<Rightarrow> Nil) L"

text \<open>\<open>luaL_checkudata\<close> raises an error for a value that is no userdata of the class.\<close>

definition checkudata :: "int \<Rightarrow> string \<Rightarrow> lua \<Rightarrow> nat res" where
  "checkudata i n L = (case lval_at i L of
      Userdata u \<Rightarrow> if registry L n \<noteq> None \<and> user_meta L u = registry L n then Inr u else lua_fail
    | _ \<Rightarrow> lua_fail)"

section \<open>Tables of the template\<close>

definition lset :: "int \<Rightarrow> string \<Rightarrow> lua \<Rightarrow> lua res" where
  "lset i key L = settable i (linsert (- 2) (lpush (Text key) L))"

definition weaktable :: "string \<Rightarrow> lua \<Rightarrow> lua res" where
  "weaktable mode L =
     rbind (setmetatable (- 2) (pushvalue (- 1) (newtable L))) (\<lambda>L.
       settable (- 3) (lpush (Text mode) (lpush (Text ''__mode'') L)))"

definition subtable :: "int \<Rightarrow> string \<Rightarrow> string \<Rightarrow> lua \<Rightarrow> lua res" where
  "subtable tindex name mode L =
     rbind (gettable tindex (lpush (Text name) L)) (\<lambda>L.
       if lval_at (- 1) L = Nil
       then rbind (weaktable mode (lpop 1 L)) (\<lambda>L. settable tindex (pushvalue (- 2) (lpush (Text name) L)))
       else Inr L)"

text \<open>The result is the userdata, if it is new.\<close>

definition pushuserdata :: "nat \<Rightarrow> lua \<Rightarrow> (nat option \<times> lua) res" where
  "pushuserdata key L =
     rbind (gettable (- 2) (lpush (Light key) L)) (\<lambda>L.
       if lval_at (- 1) L = Nil
       then let u = new_ref L in
         rbind (settable (- 4) (pushvalue (- 2) (lpush (Light key) (newuserdata (lpop 1 L))))) (\<lambda>L. Inr (Some u, L))
       else Inr (None, L))"

section \<open>The class and its objects\<close>

fun add_methods :: "int \<Rightarrow> nat \<Rightarrow> string list \<Rightarrow> lua \<Rightarrow> lua res" where
  "add_methods methods i [] L = Inr L"
| "add_methods methods i (name # names) L =
     rbind (settable methods (lpush (Function (Thunk i)) (lpush (Text name) L))) (add_methods methods (Suc i) names)"

definition Register :: "string \<Rightarrow> string list \<Rightarrow> lua \<Rightarrow> lua res" where
  "Register className names L =
     (let L = newtable L; methods = gettop L; L = newmetatable className L; metatable = gettop L;
          L = setglobal className (pushvalue methods L)
      in rbind (lset metatable ''__metatable'' (pushvalue methods L)) (\<lambda>L.
         rbind (lset metatable ''__index'' (pushvalue methods L)) (\<lambda>L.
         rbind (lset metatable ''__tostring'' (lpush (Function Tostring_T) L)) (\<lambda>L.
         rbind (lset metatable ''__gc'' (lpush (Function Gc_T) L)) (\<lambda>L.
         rbind (lset methods ''new'' (pushvalue (- 1) (lpush (Function New_T) (newtable L)))) (\<lambda>L.
         rbind (lset (- 3) ''__call'' L) (\<lambda>L.
         rbind (setmetatable methods L) (\<lambda>L.
         rbind (add_methods methods 0 names L) (\<lambda>L. Inr (lpop 2 L))))))))))"

definition push :: "string \<Rightarrow> nat \<Rightarrow> bool \<Rightarrow> lua \<Rightarrow> lua res" where
  "push className obj gc L =
     (if obj = 0 then Inr (lpush Nil L)
      else let L = getmetatable className L in
        if lval_at (- 1) L = Nil then lua_fail
        else let mt = gettop L in
          rbind (subtable mt ''userdata'' ''v'' L) (\<lambda>L.
          rbind (pushuserdata obj L) (\<lambda>(ud, L).
          rbind (case ud of
              None \<Rightarrow> Inr L
            | Some u \<Rightarrow>
                rbind (setmetatable (- 2) (pushvalue mt (L\<lparr>user_ptr := (user_ptr L)(u := obj)\<rparr>))) (\<lambda>L.
                  if gc then Inr L
                  else rbind (subtable mt ''do not trash'' ''k'' L) (\<lambda>L.
                    rbind (settable (- 3) (lpush (Boolean True) (pushvalue (- 2) L))) (\<lambda>L. Inr (lpop 1 L))))) (\<lambda>L.
          Inr (settop mt (lreplace mt L))))))"

definition check :: "string \<Rightarrow> int \<Rightarrow> lua \<Rightarrow> nat res" where
  "check className narg L = rbind (checkudata narg className L) (\<lambda>ud. Inr (user_ptr L ud))"

text \<open>\<open>call obj l L\<close> is the method of the entry \<open>l\<close> on an object.\<close>

definition thunk :: "string \<Rightarrow> (nat \<Rightarrow> nat \<Rightarrow> lua \<Rightarrow> 'r res) \<Rightarrow> nat \<Rightarrow> lua \<Rightarrow> 'r res" where
  "thunk className call l L = rbind (check className 1 L) (\<lambda>obj. call obj l (lremove 1 L))"

definition new_T :: "string \<Rightarrow> nat \<Rightarrow> lua \<Rightarrow> lua res" where
  "new_T className obj L = push className obj True (lremove 1 L)"

text \<open>A call of a method by name; \<open>pcall n L\<close> calls the value below \<open>n\<close> arguments, and gives a status and the state with the
  results or a message. The result is the number of results, or -1.\<close>

definition lunar_call ::
  "string \<Rightarrow> (nat \<Rightarrow> lua \<Rightarrow> nat \<times> lua) \<Rightarrow> string \<Rightarrow> nat \<Rightarrow> lua \<Rightarrow> (int \<times> lua) res" where
  "lunar_call className pcall method nargs L =
     (let base = gettop L - int nargs in
      rbind (checkudata base className L) (\<lambda>_.
      rbind (gettable base (lpush (Text method) L)) (\<lambda>L.
        if lval_at (- 1) L = Nil
        then Inr (- 1, lpush (Text (className @ '' missing method '' @ [CHR 0x27] @ method @ [CHR 0x27])) (settop (base - 1) L))
        else let (status, L) = pcall (1 + nargs) (linsert base L) in
          if status \<noteq> 0
          then let msg = (case lval_at (- 1) L of Text s \<Rightarrow> s | _ \<Rightarrow> ''(error with no message)'') in
            Inr (- 1, lremove base (lpush (Text (className @ '':'' @ method @ '' status = '' @ decimal status @ [CHR 0x0A] @ msg)) L))
          else Inr (gettop L - base + 1, L))))"

text \<open>The finalizer of the userdata \<open>u\<close>, its only argument: the object that is deleted, if there is one.\<close>

definition gc_T :: "nat \<Rightarrow> lua \<Rightarrow> nat option res" where
  "gc_T u L =
     (let L = L\<lparr>lstack := [Userdata u]\<rparr>;
          obj = (if user_ptr L u = 0 then None else Some (user_ptr L u)) in
      case user_meta L u of
        None \<Rightarrow> Inr obj
      | Some m \<Rightarrow> (case tables L m (Text ''do not trash'') of
            None \<Rightarrow> Inr obj
          | Some t \<Rightarrow> rbind (gettable (- 2) (pushvalue 1 (lpush t L))) (\<lambda>L1.
              Inr (if lval_at (- 1) L1 \<noteq> Nil then None else obj))))"

text \<open>The methods of a state, in the order of the table.\<close>

definition state_methods :: "string list" where
  "state_methods = [''writeRegister'', ''writeRegisterSymb'', ''setFlagSymb'', ''setFlag'', ''readRegister'', ''readParameter'',
     ''writeParameter'', ''writeMemorySymb'', ''readMemory'', ''readMemoryConcretized'', ''writeMemory'', ''isSpeculative'', ''getID'']"

definition RegisterS2EApi :: "lua \<Rightarrow> lua res" where
  "RegisterS2EApi = Register ''S2ELUAExecutionState'' state_methods"

section \<open>Facts about the stack\<close>

lemmas stack_ops = lval_at_def gettop_def lpush_def lpop_def pushvalue_def settop_def linsert_def lremove_def lreplace_def
  newtable_def newuserdata_def setglobal_def getmetatable_def

lemma val_at_top [simp]:
  "val_at (- 1) (v # vs) = v" "val_at (- 2) (v # w # vs) = w" "val_at (- 3) (v # w # x # vs) = x"
  "val_at (- 4) (v # w # x # y # vs) = y"
  by (simp_all add: val_at_def slot_at_def)

lemma slot_at_simps [simp]: "slot_at (- 2) vs = 1" "slot_at (1 + int (length vs)) (ws @ v # vs) = length ws"
  by (simp_all add: slot_at_def nat_add_distrib)

lemma val_at_bottom: "val_at (1 + int (length vs)) (ws @ v # vs) = v"
  by (simp add: val_at_def)

lemma val_at_depth [simp]:
  "val_at (1 + int (length vs)) (v # vs) = v" "val_at (1 + int (length vs)) (a # v # vs) = v"
  "val_at (1 + int (length vs)) (a # b # v # vs) = v" "val_at (1 + int (length vs)) (a # b # c # v # vs) = v"
  "val_at (1 + int (length vs)) (a # b # c # d # v # vs) = v" "val_at (1 + int (length vs)) (a # b # c # d # e # v # vs) = v"
  using val_at_bottom [of vs "[]" v] val_at_bottom [of vs "[a]" v] val_at_bottom [of vs "[a, b]" v] val_at_bottom [of vs "[a, b, c]" v]
    val_at_bottom [of vs "[a, b, c, d]" v] val_at_bottom [of vs "[a, b, c, d, e]" v] by simp_all

lemma weaktable_eq:
  "weaktable mode L = Inr (L\<lparr>lstack := Table (new_ref L) # lstack L,
     tables := (tables L)(new_ref L := [Text ''__mode'' \<mapsto> Text mode]),
     table_meta := (table_meta L)(new_ref L := Some (new_ref L)), new_ref := Suc (new_ref L)\<rparr>)"
  by (simp add: weaktable_def setmetatable_def settable_def stack_ops)

section \<open>The tables of a registered class\<close>

definition cached :: "nat \<Rightarrow> lua \<Rightarrow> nat \<Rightarrow> nat option" where
  "cached M L p = (case tables L M (Text ''userdata'') of
      Some (Table c) \<Rightarrow> (case tables L c (Light p) of Some (Userdata u) \<Rightarrow> Some u | _ \<Rightarrow> None)
    | _ \<Rightarrow> None)"

definition kept :: "nat \<Rightarrow> lua \<Rightarrow> nat \<Rightarrow> bool" where
  "kept M L u = (case tables L M (Text ''do not trash'') of Some (Table d) \<Rightarrow> tables L d (Userdata u) \<noteq> None | _ \<Rightarrow> False)"

definition cache_ok :: "nat \<Rightarrow> lua \<Rightarrow> nat \<Rightarrow> bool" where
  "cache_ok M L c \<longleftrightarrow> c < new_ref L \<and> c \<noteq> M \<and> (\<forall>p v. tables L c (Light p) = Some v \<longrightarrow>
     (\<exists>u. v = Userdata u \<and> u < new_ref L \<and> user_ptr L u = p \<and> user_meta L u = Some M))"

definition keep_ok :: "nat \<Rightarrow> lua \<Rightarrow> nat \<Rightarrow> bool" where
  "keep_ok M L d \<longleftrightarrow> d < new_ref L \<and> d \<noteq> M \<and> (\<forall>u v. tables L d (Userdata u) = Some v \<longrightarrow> v = Boolean True \<and> u < new_ref L)"

text \<open>The metatable \<open>M\<close> is registered, its two weak tables are different tables with entries of their kind.\<close>

definition binding :: "string \<Rightarrow> nat \<Rightarrow> lua \<Rightarrow> bool" where
  "binding cn M L \<longleftrightarrow> registry L cn = Some M \<and> M < new_ref L \<and>
     (\<forall>t. tables L M (Text ''userdata'') = Some t \<longrightarrow> (\<exists>c. t = Table c \<and> cache_ok M L c)) \<and>
     (\<forall>t. tables L M (Text ''do not trash'') = Some t \<longrightarrow> (\<exists>d. t = Table d \<and> keep_ok M L d \<and>
        tables L M (Text ''userdata'') \<noteq> Some (Table d)))"

lemma stack_irrelevant [simp]:
  "cached M (L\<lparr>lstack := vs\<rparr>) = cached M L" "kept M (L\<lparr>lstack := vs\<rparr>) = kept M L"
  "binding cn M (L\<lparr>lstack := vs\<rparr>) = binding cn M L"
  by (auto simp: cached_def kept_def binding_def cache_ok_def keep_ok_def fun_eq_iff split: option.splits lua_val.splits)

lemma subtable_old:
  assumes "lstack L = ws @ Table M # vs" "tables L M (Text name) = Some (Table c)"
  shows "subtable (1 + int (length vs)) name mode L = Inr (L\<lparr>lstack := Table c # lstack L\<rparr>)"
  using assms val_at_bottom [of vs "Text name # ws" "Table M"] by (simp add: subtable_def gettable_def lpush_def lval_at_def)

lemma subtable_new:
  assumes "lstack L = ws @ Table M # vs" "tables L M (Text name) = None" "M < new_ref L"
  shows "subtable (1 + int (length vs)) name mode L = Inr (L\<lparr>lstack := Table (new_ref L) # lstack L,
    tables := (tables L)(new_ref L := [Text ''__mode'' \<mapsto> Text mode], M := (tables L M)(Text name \<mapsto> Table (new_ref L))),
    table_meta := (table_meta L)(new_ref L := Some (new_ref L)), new_ref := Suc (new_ref L)\<rparr>)"
  using assms val_at_bottom [of vs "Text name # ws" "Table M"]
    val_at_bottom [of vs "Table (new_ref L) # Text name # Table (new_ref L) # ws" "Table M"]
  by (simp add: subtable_def gettable_def lpush_def lpop_def weaktable_eq pushvalue_def settable_def lval_at_def)

lemma subtable_ok:
  assumes b: "binding cn M L" and st: "lstack L = ws @ Table M # vs" and n: "name = ''userdata'' \<or> name = ''do not trash''"
  shows "\<exists>c L1. subtable (1 + int (length vs)) name mode L = Inr L1 \<and> lstack L1 = Table c # lstack L \<and>
    tables L1 M (Text name) = Some (Table c) \<and> binding cn M L1 \<and> cached M L1 = cached M L \<and> kept M L1 = kept M L \<and>
    user_ptr L1 = user_ptr L \<and> user_meta L1 = user_meta L \<and> new_ref L \<le> new_ref L1 \<and>
    (\<forall>k. k \<noteq> Text name \<longrightarrow> tables L1 M k = tables L M k)"
proof (cases "tables L M (Text name)")
  case None
  have m: "M < new_ref L" using b by (simp add: binding_def)
  let ?L = "L\<lparr>lstack := Table (new_ref L) # lstack L,
    tables := (tables L)(new_ref L := [Text ''__mode'' \<mapsto> Text mode], M := (tables L M)(Text name \<mapsto> Table (new_ref L))),
    table_meta := (table_meta L)(new_ref L := Some (new_ref L)), new_ref := Suc (new_ref L)\<rparr>"
  have c: "cache_ok M ?L c" if "cache_ok M L c" for c using that m by (auto simp: cache_ok_def less_Suc_eq)
  have k: "keep_ok M ?L d" if "keep_ok M L d" for d using that m by (auto simp: keep_ok_def less_Suc_eq)
  have new: "cache_ok M ?L (new_ref L)" "keep_ok M ?L (new_ref L)" using m by (auto simp: cache_ok_def keep_ok_def)
  have tm: "tables ?L M = (tables L M)(Text name \<mapsto> Table (new_ref L))" "registry ?L = registry L" "M < new_ref ?L"
    using m by simp_all
  have old: "c \<noteq> new_ref L" if "cache_ok M L c \<or> keep_ok M L c" for c using that by (auto simp: cache_ok_def keep_ok_def)
  have "binding cn M ?L"
    using b n None c k new old unfolding binding_def tm(1,2) by (elim disjE) (simp_all add: less_Suc_eq, blast+)
  moreover have "cached M ?L = cached M L"
    using n None b by (auto simp: cached_def fun_eq_iff binding_def cache_ok_def split: option.splits)
  moreover have "kept M ?L = kept M L"
    using n None b by (auto simp: kept_def fun_eq_iff binding_def keep_ok_def split: option.splits)
  ultimately show ?thesis using subtable_new [OF st None m, of mode] by simp
next
  case (Some t)
  then obtain c where "t = Table c" using b n by (auto simp: binding_def)
  then show ?thesis using subtable_old [OF st] Some b by simp
qed

section \<open>Pushing an object\<close>

text \<open>The state after a new userdata is made for an object: \<open>c\<close> is the table of userdata.\<close>

definition with_userdata :: "nat \<Rightarrow> nat \<Rightarrow> nat \<Rightarrow> lua \<Rightarrow> lua" where
  "with_userdata M c obj L = L\<lparr>lstack := Userdata (new_ref L) # lstack L,
     tables := (tables L)(c := (tables L c)(Light obj \<mapsto> Userdata (new_ref L))),
     user_ptr := (user_ptr L)(new_ref L := obj), user_meta := (user_meta L)(new_ref L := Some M), new_ref := Suc (new_ref L)\<rparr>"

lemma table_of_userdata:
  assumes "binding cn M L" "tables L M (Text ''userdata'') = Some (Table c)"
  shows "cache_ok M L c" "tables L M (Text ''do not trash'') \<noteq> Some (Table c)"
    "tables L c (Light p) = map_option Userdata (cached M L p)"
proof -
  show c: "cache_ok M L c" using assms by (auto simp: binding_def)
  show "tables L M (Text ''do not trash'') \<noteq> Some (Table c)" using assms by (auto simp: binding_def)
  show "tables L c (Light p) = map_option Userdata (cached M L p)"
    using c assms(2) by (cases "tables L c (Light p)") (fastforce simp: cached_def cache_ok_def)+
qed

lemma with_userdata_ok:
  assumes b: "binding cn M L" and c: "tables L M (Text ''userdata'') = Some (Table c)"
  shows "binding cn M (with_userdata M c obj L)" "cached M (with_userdata M c obj L) = (cached M L)(obj \<mapsto> new_ref L)"
    "kept M (with_userdata M c obj L) = kept M L"
proof -
  note t = table_of_userdata [OF b c]
  let ?L = "with_userdata M c obj L"
  have m: "M \<noteq> c" "c \<noteq> new_ref L" using t(1) by (auto simp: cache_ok_def)
  then have tm: "tables ?L M = tables L M" "registry ?L = registry L" by (simp_all add: with_userdata_def)
  have "\<exists>u. v = Userdata u \<and> u < new_ref ?L \<and> user_ptr ?L u = p \<and> user_meta ?L u = Some M"
    if "tables ?L c (Light p) = Some v" for p v
  proof (cases "p = obj")
    case False
    then have "tables L c (Light p) = Some v" using that by (simp add: with_userdata_def)
    then obtain u where "v = Userdata u" "u < new_ref L" "user_ptr L u = p" "user_meta L u = Some M"
      using t(1) unfolding cache_ok_def by blast
    then show ?thesis by (simp add: with_userdata_def)
  next
    case True
    then show ?thesis using that by (intro exI [of _ "new_ref L"]) (simp add: with_userdata_def)
  qed
  then have cache: "cache_ok M ?L c" using t(1) by (auto simp: cache_ok_def with_userdata_def)
  have keep: "keep_ok M ?L d" if "keep_ok M L d" "d \<noteq> c" for d using that by (auto simp: keep_ok_def with_userdata_def less_SucI)
  show "binding cn M ?L" using b c t(2) cache keep unfolding binding_def tm by (auto simp: with_userdata_def)
  show "cached M ?L = (cached M L)(obj \<mapsto> new_ref L)" using c m by (auto simp: cached_def with_userdata_def fun_eq_iff)
  show "kept M ?L = kept M L" using t(2) m b by (auto simp: kept_def with_userdata_def fun_eq_iff binding_def split: option.splits)
qed

lemma keep_userdata_ok:
  assumes b: "binding cn M L" and d: "tables L M (Text ''do not trash'') = Some (Table d)" and u: "u < new_ref L"
  defines "L' \<equiv> L\<lparr>tables := (tables L)(d := (tables L d)(Userdata u \<mapsto> Boolean True))\<rparr>"
  shows "binding cn M L'" "cached M L' = cached M L" "kept M L' = (\<lambda>v. kept M L v \<or> v = u)"
proof -
  have k: "keep_ok M L d" "tables L M (Text ''userdata'') \<noteq> Some (Table d)" using b d by (auto simp: binding_def)
  then have tm: "tables L' M = tables L M" "registry L' = registry L" by (auto simp: L'_def keep_ok_def)
  have keep: "keep_ok M L' d" using k(1) u by (auto simp: keep_ok_def L'_def)
  have cache: "cache_ok M L' c" if "cache_ok M L c" "c \<noteq> d" for c using that by (auto simp: cache_ok_def L'_def)
  show "binding cn M L'" using b d k(2) cache keep unfolding binding_def tm by (auto simp: L'_def)
  show "cached M L' = cached M L" using k b by (auto simp: cached_def tm fun_eq_iff L'_def keep_ok_def binding_def split: option.splits)
  show "kept M L' = (\<lambda>v. kept M L v \<or> v = u)" using d by (auto simp: kept_def tm fun_eq_iff L'_def)
qed

lemma pushuserdata_old:
  "lstack L = Table c # vs \<Longrightarrow> tables L c (Light obj) = Some (Userdata u) \<Longrightarrow>
   pushuserdata obj L = Inr (None, L\<lparr>lstack := Userdata u # lstack L\<rparr>)"
  by (simp add: pushuserdata_def gettable_def stack_ops)

lemma pushuserdata_new:
  "lstack L = Table c # Table M # vs \<Longrightarrow> tables L c (Light obj) = None \<Longrightarrow>
   \<exists>L1. pushuserdata obj L = Inr (Some (new_ref L), L1) \<and>
     setmetatable (- 2) (pushvalue (1 + int (length vs)) (L1\<lparr>user_ptr := (user_ptr L1)(new_ref L := obj)\<rparr>)) = Inr (with_userdata M c obj L)"
  by (simp add: pushuserdata_def gettable_def settable_def setmetatable_def stack_ops with_userdata_def)

lemma replace_settop:
  assumes "lstack L = v # t # m # vs"
  shows "settop (1 + int (length vs)) (lreplace (1 + int (length vs)) L) = L\<lparr>lstack := v # vs\<rparr>"
proof -
  have "slot_at (1 + int (length vs)) ([v, t] @ m # vs) = length [v, t]" by (rule slot_at_simps(2))
  then have "slot_at (1 + int (length vs)) (lstack L) = 2" by (simp add: assms)
  then have "lreplace (1 + int (length vs)) L = L\<lparr>lstack := t # v # vs\<rparr>" by (simp add: lreplace_def assms numeral_2_eq_2)
  then show ?thesis by (simp add: settop_def nat_add_distrib)
qed

text \<open>The part of \<open>push\<close> that protects a new userdata.\<close>

lemma protect_userdata:
  assumes b: "binding cn M L" and st: "lstack L = Userdata u # t # Table M # vs" and u: "u < new_ref L"
  shows "\<exists>L1. rbind (subtable (1 + int (length vs)) ''do not trash'' ''k'' L) (\<lambda>L.
      rbind (settable (- 3) (lpush (Boolean True) (pushvalue (- 2) L))) (\<lambda>L. Inr (lpop 1 L))) = Inr L1 \<and>
    lstack L1 = lstack L \<and> binding cn M L1 \<and> cached M L1 = cached M L \<and> kept M L1 = (\<lambda>v. kept M L v \<or> v = u) \<and>
    user_ptr L1 = user_ptr L \<and> user_meta L1 = user_meta L \<and> new_ref L \<le> new_ref L1"
proof -
  obtain d L1 where L1: "subtable (1 + int (length vs)) ''do not trash'' ''k'' L = Inr L1" "lstack L1 = Table d # lstack L"
      "tables L1 M (Text ''do not trash'') = Some (Table d)" "binding cn M L1" "cached M L1 = cached M L" "kept M L1 = kept M L"
      "user_ptr L1 = user_ptr L" "user_meta L1 = user_meta L" "new_ref L \<le> new_ref L1"
    using subtable_ok [OF b, of "[Userdata u, t]" vs "''do not trash''" "''k''"] st by auto
  let ?L = "L1\<lparr>tables := (tables L1)(d := (tables L1 d)(Userdata u \<mapsto> Boolean True))\<rparr>"
  have "rbind (settable (- 3) (lpush (Boolean True) (pushvalue (- 2) L1))) (\<lambda>L. Inr (lpop 1 L)) = Inr (?L\<lparr>lstack := lstack L\<rparr>)"
    by (simp add: settable_def stack_ops L1(2) st)
  moreover have "u < new_ref L1" using u L1(9) by simp
  note keep = keep_userdata_ok [OF L1(4,3) this]
  ultimately show ?thesis using L1 keep by simp
qed

text \<open>Pushing an object of a registered class puts a userdata for it on the stack, and nothing else: the one that
  already stands for the object, if it has one, and else a new one, which is protected against the deletion of the object
  unless the script owns it. So every object has one userdata, and pushing it again does not change who owns it.\<close>

theorem push_userdata:
  assumes b: "binding cn M L" and obj: "obj \<noteq> 0"
  shows "\<exists>u L'. push cn obj gc L = Inr L' \<and> lstack L' = Userdata u # lstack L \<and> user_ptr L' u = obj \<and> user_meta L' u = Some M \<and>
    binding cn M L' \<and> cached M L' = (cached M L)(obj \<mapsto> u) \<and>
    (case cached M L obj of Some v \<Rightarrow> u = v \<and> kept M L' = kept M L
     | None \<Rightarrow> new_ref L \<le> u \<and> kept M L' = (\<lambda>v. kept M L v \<or> (v = u \<and> \<not> gc)))"
proof -
  let ?L0 = "L\<lparr>lstack := Table M # lstack L\<rparr>" and ?vs = "lstack L"
  have r: "registry L cn = Some M" using b by (simp add: binding_def)
  obtain c L1 where L1: "subtable (1 + int (length ?vs)) ''userdata'' ''v'' ?L0 = Inr L1" "lstack L1 = Table c # Table M # ?vs"
      "tables L1 M (Text ''userdata'') = Some (Table c)" "binding cn M L1" "cached M L1 = cached M L" "kept M L1 = kept M L"
      "user_ptr L1 = user_ptr L" "user_meta L1 = user_meta L" "new_ref L \<le> new_ref L1"
    using subtable_ok [of cn M ?L0 "[]" ?vs "''userdata''" "''v''"] b by auto
  note entry = table_of_userdata [OF L1(4,3)]
  note start = obj r L1(1)
  show ?thesis
  proof (cases "cached M L obj")
    case (Some u)
    then have e: "tables L1 c (Light obj) = Some (Userdata u)" using entry(3) L1(5) by simp
    have "push cn obj gc L = Inr (L1\<lparr>lstack := Userdata u # ?vs\<rparr>)"
      using start pushuserdata_old [OF L1(2) e] replace_settop [of "L1\<lparr>lstack := Userdata u # lstack L1\<rparr>" "Userdata u" "Table c" "Table M" ?vs]
      by (simp add: push_def getmetatable_def lpush_def lval_at_def gettop_def L1(2))
    moreover have "user_ptr L1 u = obj \<and> user_meta L1 u = Some M" using entry(1) e by (auto simp: cache_ok_def)
    ultimately show ?thesis using Some L1 by (simp add: fun_upd_idem)
  next
    case None
    then have e: "tables L1 c (Light obj) = None" using entry(3) L1(5) by simp
    let ?L3 = "with_userdata M c obj L1" and ?u = "new_ref L1"
    obtain L2 where L2: "pushuserdata obj L1 = Inr (Some ?u, L2)"
        "setmetatable (- 2) (pushvalue (1 + int (length ?vs)) (L2\<lparr>user_ptr := (user_ptr L2)(?u := obj)\<rparr>)) = Inr ?L3"
      using pushuserdata_new [OF L1(2) e] by blast
    have s3: "lstack ?L3 = Userdata ?u # Table c # Table M # ?vs" "?u < new_ref ?L3" "user_ptr ?L3 ?u = obj" "user_meta ?L3 ?u = Some M"
      by (simp_all add: with_userdata_def L1(2))
    note ok3 = with_userdata_ok [OF L1(4,3), of obj]
    have push: "push cn obj gc L = (if gc then Inr (?L3\<lparr>lstack := Userdata ?u # ?vs\<rparr>) else
        rbind (rbind (subtable (1 + int (length ?vs)) ''do not trash'' ''k'' ?L3) (\<lambda>L.
          rbind (settable (- 3) (lpush (Boolean True) (pushvalue (- 2) L))) (\<lambda>L. Inr (lpop 1 L))))
          (\<lambda>L. Inr (settop (1 + int (length ?vs)) (lreplace (1 + int (length ?vs)) L))))"
      using start L2 replace_settop [OF s3(1)] by (simp add: push_def getmetatable_def lpush_def lval_at_def gettop_def Let_def)
    obtain L4 where L4: "rbind (subtable (1 + int (length ?vs)) ''do not trash'' ''k'' ?L3) (\<lambda>L.
          rbind (settable (- 3) (lpush (Boolean True) (pushvalue (- 2) L))) (\<lambda>L. Inr (lpop 1 L))) = Inr L4"
        "lstack L4 = lstack ?L3" "binding cn M L4" "cached M L4 = cached M ?L3" "kept M L4 = (\<lambda>v. kept M ?L3 v \<or> v = ?u)"
        "user_ptr L4 = user_ptr ?L3" "user_meta L4 = user_meta ?L3"
      using protect_userdata [OF ok3(1) s3(1,2)] by blast
    have "settop (1 + int (length ?vs)) (lreplace (1 + int (length ?vs)) L4) = L4\<lparr>lstack := Userdata ?u # ?vs\<rparr>"
      by (rule replace_settop) (simp add: L4(2) s3(1))
    then show ?thesis using push L4 ok3 s3 None L1 by (cases gc) simp_all
  qed
qed


section \<open>Methods and the collection of garbage\<close>

text \<open>The collection of a userdata deletes its object unless it is protected.\<close>

theorem collection_deletes:
  assumes "binding cn M L" "user_meta L u = Some M" "user_ptr L u = obj" "obj \<noteq> 0"
  shows "gc_T u L = Inr (if kept M L u then None else Some obj)"
proof (cases "tables L M (Text ''do not trash'')")
  case None
  then show ?thesis using assms by (simp add: gc_T_def kept_def)
next
  case (Some t)
  then obtain d where d: "t = Table d" "keep_ok M L d" using assms(1) by (auto simp: binding_def)
  then have "tables L d (Userdata u) = None \<or> tables L d (Userdata u) = Some (Boolean True)"
    by (cases "tables L d (Userdata u)") (auto simp: keep_ok_def)
  moreover have "val_at 1 [Table d, Userdata u] = Userdata u" using val_at_depth(2) [of "[]"] by simp
  ultimately show ?thesis using assms Some d(1) by (auto simp: gc_T_def kept_def gettable_def stack_ops Let_def)
qed

text \<open>A method that is called on a userdata of the class gets the object, and the arguments without it; on any other value
  the call is an error.\<close>

theorem thunk_dispatches:
  assumes b: "binding cn M L" and st: "lstack L = args @ [self]"
  shows "thunk cn call l L = (case self of
      Userdata u \<Rightarrow> if user_meta L u = Some M then call (user_ptr L u) l (L\<lparr>lstack := args\<rparr>) else lua_fail
    | _ \<Rightarrow> lua_fail)"
proof -
  have v: "val_at 1 (args @ [self]) = self" "slot_at 1 (args @ [self]) = length args"
    using val_at_bottom [of "[]" args self] slot_at_simps(2) [of "[]" args self] by simp_all
  show ?thesis using b v by (cases self) (auto simp: thunk_def check_def checkudata_def lval_at_def st binding_def lremove_def lua_fail_def)
qed

lemma slot_at_bottom: "slot_at (1 + int (length vs)) (ws @ v # vs) = length ws"
  by (rule slot_at_simps(2))

text \<open>A call by name of a method that the class has goes to the method, with the userdata as first argument.\<close>

lemma call_method:
  assumes b: "binding cn M L" and st: "lstack L = args @ Userdata u # vs" and u: "user_meta L u = Some M"
    and m: "tables L M (Text ''__index'') = Some (Table m)" "tables L m (Text method) = Some f" "f \<noteq> Nil"
    and run: "pcall (Suc (length args)) (L\<lparr>lstack := args @ Userdata u # f # vs\<rparr>) = (0, L')"
  shows "lunar_call cn pcall method (length args) L = Inr (gettop L' - int (length vs), L')"
proof -
  have base: "gettop L - int (length args) = 1 + int (length vs)" by (simp add: gettop_def st)
  have v: "val_at (1 + int (length vs)) (args @ Userdata u # vs) = Userdata u"
    "val_at (1 + int (length vs)) (Text method # args @ Userdata u # vs) = Userdata u"
    using val_at_bottom [of vs args "Userdata u"] val_at_bottom [of vs "Text method # args" "Userdata u"] by simp_all
  have s: "slot_at (1 + int (length vs)) (f # args @ Userdata u # vs) = Suc (length args)"
    using slot_at_bottom [of vs "f # args" "Userdata u"] by simp
  have r: "registry L cn = Some M" using b by (simp add: binding_def)
  show ?thesis unfolding lunar_call_def base Let_def
    using m u r run by (simp add: checkudata_def gettable_def lval_at_def lpush_def st v linsert_def s)
qed

section \<open>Registration\<close>

lemma lset_eq:
  "lstack L \<noteq> [] \<Longrightarrow> lset i key L = (case val_at i (hd (lstack L) # Text key # tl (lstack L)) of
      Table t \<Rightarrow> Inr (L\<lparr>lstack := tl (lstack L),
        tables := (tables L)(t := (tables L t)(Text key := if hd (lstack L) = Nil then None else Some (hd (lstack L))))\<rparr>)
    | _ \<Rightarrow> lua_fail)"
  by (cases "lstack L") (simp_all add: lset_def linsert_def lpush_def settable_def lval_at_def split: lua_val.splits)

lemma val_at_second [simp]:
  "val_at (2 + int (length vs)) (a # b # v # w # vs) = v" "val_at (2 + int (length vs)) (a # b # c # v # w # vs) = v"
  using val_at_bottom [of "w # vs" "[a, b]" v] val_at_bottom [of "w # vs" "[a, b, c]" v] by (simp_all add: add.assoc)

definition method_entries :: "nat \<Rightarrow> string list \<Rightarrow> (lua_val \<times> lua_val) list" where
  "method_entries i names = zip (map Text names) (map (\<lambda>j. Function (Thunk j)) [i..<i + length names])"

lemma add_methods_eq:
  "lstack L = ws @ Table m # vs \<Longrightarrow>
   add_methods (1 + int (length vs)) i names L =
     Inr (L\<lparr>tables := (tables L)(m := tables L m ++ map_of (rev (method_entries i names)))\<rparr>)"
proof (induction names arbitrary: i L)
  case (Cons name names)
  let ?L = "L\<lparr>tables := (tables L)(m := (tables L m)(Text name \<mapsto> Function (Thunk i)))\<rparr>"
  let ?X = "map_of (rev (method_entries (Suc i) names))"
  have step: "settable (1 + int (length vs)) (lpush (Function (Thunk i)) (lpush (Text name) L)) = Inr ?L"
    using val_at_bottom [of vs "Function (Thunk i) # Text name # ws" "Table m"] Cons.prems by (simp add: settable_def lpush_def lval_at_def)
  have "method_entries i (name # names) = (Text name, Function (Thunk i)) # method_entries (Suc i) names"
    by (simp add: method_entries_def upt_conv_Cons del: upt_Suc)
  then have e: "tables L m ++ map_of (rev (method_entries i (name # names))) = (tables L m)(Text name \<mapsto> Function (Thunk i)) ++ ?X"
    by (simp add: map_add_assoc)
  have "add_methods (1 + int (length vs)) i (name # names) L = Inr (?L\<lparr>tables := (tables ?L)(m := tables ?L m ++ ?X)\<rparr>)"
    unfolding add_methods.simps step rbind_simps by (rule Cons.IH) (simp add: Cons.prems)
  also have "?L\<lparr>tables := (tables ?L)(m := tables ?L m ++ ?X)\<rparr> =
      L\<lparr>tables := (tables L)(m := (tables L m)(Text name \<mapsto> Function (Thunk i)) ++ ?X)\<rparr>"
    by (rule lua.equality) simp_all
  finally show ?case by (simp only: e)
qed (simp add: method_entries_def)


text \<open>Registering a new class leaves the stack as it was and makes a class of it without objects: the global of its name has
  the methods and the constructor, the metatable leads to them and to the finalizer, and the calls of the class construct.\<close>

theorem Register_class:
  assumes new: "registry L cn = None" and names: "distinct names" "''new'' \<notin> set names"
  shows "\<exists>m M L'. Register cn names L = Inr L' \<and> lstack L' = lstack L \<and> globals L' = (globals L)(cn \<mapsto> Table m) \<and>
    binding cn M L' \<and> (\<forall>p. cached M L' p = None) \<and> (\<forall>u. \<not> kept M L' u) \<and>
    (\<forall>i<length names. tables L' m (Text (names ! i)) = Some (Function (Thunk i))) \<and>
    tables L' m (Text ''new'') = Some (Function New_T) \<and> tables L' M (Text ''__index'') = Some (Table m) \<and>
    tables L' M (Text ''__gc'') = Some (Function Gc_T)"
proof -
  let ?m = "new_ref L" and ?M = "Suc (new_ref L)" and ?c = "Suc (Suc (new_ref L))"
  let ?L = "L\<lparr>globals := (globals L)(cn \<mapsto> Table ?m), registry := (registry L)(cn \<mapsto> ?M), new_ref := Suc ?c,
    table_meta := (table_meta L)(?m := Some ?c, ?M := None, ?c := None),
    tables := (tables L)(?m := [Text ''new'' \<mapsto> Function New_T] ++ map_of (rev (method_entries 0 names)),
      ?M := [Text ''__metatable'' \<mapsto> Table ?m, Text ''__index'' \<mapsto> Table ?m, Text ''__tostring'' \<mapsto> Function Tostring_T, Text ''__gc'' \<mapsto> Function Gc_T],
      ?c := [Text ''__call'' \<mapsto> Function New_T])\<rparr>"
  have "Register cn names L = Inr ?L"
    using new by (simp add: Register_def newmetatable_def Let_def gettop_def pushvalue_def lpush_def setglobal_def lval_at_def
        lset_eq newtable_def setmetatable_def, subst add_methods_eq [of _ "[Table ?M]" ?m "lstack L"])
      (simp, simp add: lpop_def fun_upd_twist)
  moreover have "tables ?L ?m (Text (names ! i)) = Some (Function (Thunk i))" if i: "i < length names" for i
  proof -
    have "map fst (method_entries 0 names) = map Text names" by (simp add: method_entries_def)
    then have d: "distinct (map fst (method_entries 0 names))" using names(1) by (simp add: distinct_map inj_on_def)
    have "(Text (names ! i), Function (Thunk i)) \<in> set (method_entries 0 names)"
      using i by (auto simp: method_entries_def set_zip intro!: exI [of _ i])
    then have "map_of (rev (method_entries 0 names)) (Text (names ! i)) = Some (Function (Thunk i))"
      using d by (intro map_of_is_SomeI) (simp_all flip: rev_map)
    then show ?thesis by simp
  qed
  moreover have "tables ?L ?m (Text ''new'') = Some (Function New_T)"
  proof -
    have "Text ''new'' \<notin> fst ` set (method_entries 0 names)" using names(2) by (auto simp: method_entries_def dest: set_zip_leftD)
    then have "map_of (rev (method_entries 0 names)) (Text ''new'') = None" by (simp add: map_of_eq_None_iff)
    then show ?thesis by (simp add: map_add_def)
  qed
  moreover have "binding cn ?M ?L" "cached ?M ?L p = None" "\<not> kept ?M ?L u" for p u
    by (simp_all add: binding_def cached_def kept_def)
  ultimately show ?thesis by (intro exI [of _ ?m] exI [of _ ?M] exI [of _ ?L]) simp
qed

section \<open>Any pushes\<close>

text \<open>A sequence of pushes, each of which leaves its userdata to the script.\<close>

fun push_all :: "string \<Rightarrow> (nat \<times> bool) list \<Rightarrow> lua \<Rightarrow> lua res" where
  "push_all cn [] L = Inr L"
| "push_all cn ((obj, gc) # ops) L = rbind (push cn obj gc L) (\<lambda>L. push_all cn ops (lpop 1 L))"

lemma cached_userdata:
  assumes "binding cn M L" "cached M L p = Some u"
  shows "u < new_ref L" "user_ptr L u = p" "user_meta L u = Some M"
proof -
  obtain c where c: "tables L M (Text ''userdata'') = Some (Table c)"
    using assms(2) by (auto simp: cached_def split: option.splits lua_val.splits)
  note t = table_of_userdata [OF assms(1) c]
  have "tables L c (Light p) = Some (Userdata u)" using t(3) assms(2) by simp
  then show "u < new_ref L" "user_ptr L u = p" "user_meta L u = Some M" using t(1) by (auto simp: cache_ok_def)
qed

lemma push_all_ok:
  "binding cn M L \<Longrightarrow> \<forall>p\<in>fst ` set ops. p \<noteq> 0 \<Longrightarrow> \<exists>L'. push_all cn ops L = Inr L' \<and> lstack L' = lstack L \<and> binding cn M L' \<and>
     (\<forall>p u. cached M L p = Some u \<longrightarrow> cached M L' p = Some u \<and> kept M L' u = kept M L u) \<and>
     (\<forall>p g. cached M L p = None \<longrightarrow> map_of ops p = Some g \<longrightarrow> (\<exists>u. cached M L' p = Some u \<and> kept M L' u = (\<not> g)))"
proof (induction ops arbitrary: L)
  case (Cons op ops)
  obtain p g where op: "op = (p, g)" by fastforce
  have "p \<noteq> 0" using Cons.prems(2) op by simp
  from push_userdata [OF Cons.prems(1) this, of g] obtain u L1 where push: "push cn p g L = Inr L1"
      "lstack L1 = Userdata u # lstack L" "binding cn M L1" "cached M L1 = (cached M L)(p \<mapsto> u)"
    and kept: "case cached M L p of Some v \<Rightarrow> u = v \<and> kept M L1 = kept M L
      | None \<Rightarrow> new_ref L \<le> u \<and> kept M L1 = (\<lambda>v. kept M L v \<or> (v = u \<and> \<not> g))" by blast
  have fresh: "\<not> kept M L u" if "new_ref L \<le> u"
    using Cons.prems(1) that by (auto simp: kept_def binding_def keep_ok_def linorder_not_less [symmetric] split: option.splits lua_val.splits)
  let ?L1 = "lpop 1 L1"
  have b1: "binding cn M ?L1" "lstack ?L1 = lstack L" "cached M ?L1 = (cached M L)(p \<mapsto> u)" "kept M ?L1 = kept M L1"
    using push by (simp_all add: lpop_def)
  obtain L' where L': "push_all cn ops ?L1 = Inr L'" "lstack L' = lstack L" "binding cn M L'"
      "\<And>q v. cached M ?L1 q = Some v \<Longrightarrow> cached M L' q = Some v \<and> kept M L' v = kept M ?L1 v"
      "\<And>q h. cached M ?L1 q = None \<Longrightarrow> map_of ops q = Some h \<Longrightarrow> \<exists>v. cached M L' q = Some v \<and> kept M L' v = (\<not> h)"
    using Cons.IH [OF b1(1)] Cons.prems(2) b1(2) by auto
  have old: "cached M L' q = Some v \<and> kept M L' v = kept M L v" if v: "cached M L q = Some v" for q v
  proof -
    have "q = p \<Longrightarrow> u = v" "kept M L1 v = kept M L v" using kept v cached_userdata(1) [OF Cons.prems(1) v] by (auto split: option.splits)
    then show ?thesis using L'(4) [of q v] v b1(3,4) by (cases "q = p") auto
  qed
  have new: "\<exists>v. cached M L' q = Some v \<and> kept M L' v = (\<not> h)" if q: "cached M L q = None" "map_of (op # ops) q = Some h" for q h
  proof (cases "q = p")
    case True
    then have "h = g" "kept M L1 u = (\<not> g)" using q kept fresh op by auto
    then show ?thesis using L'(4) [of p u] b1(3,4) True by auto
  next
    case False
    then show ?thesis using L'(5) [of q h] q b1(3) op by simp
  qed
  have "push_all cn (op # ops) L = Inr L'" using push(1) L'(1) op by simp
  then show ?case using L'(2,3) old new by blast
qed auto

text \<open>C16: After a class is registered and objects are pushed in any order and number, each object has a userdata of its own: a
  method called on it gets exactly this object and the arguments after it, and when it is collected, the object is
  deleted if the first push of it was for a script that owns it, and else left alone. The stack is as before.\<close>

theorem objects_by_userdata:
  assumes new: "registry L cn = None" and names: "distinct names" "''new'' \<notin> set names" and objs: "0 \<notin> fst ` set ops"
  shows "\<exists>L1 L' M. Register cn names L = Inr L1 \<and> push_all cn ops L1 = Inr L' \<and> lstack L' = lstack L \<and>
    (\<forall>p g. map_of ops p = Some g \<longrightarrow> (\<exists>u. cached M L' p = Some u \<and> gc_T u L' = Inr (if g then Some p else None) \<and>
       (\<forall>call l args. thunk cn call l (L'\<lparr>lstack := args @ [Userdata u]\<rparr>) = (call p l (L'\<lparr>lstack := args\<rparr>) :: 'r res)))) \<and>
    (\<forall>p q u. cached M L' p = Some u \<longrightarrow> cached M L' q = Some u \<longrightarrow> p = q)"
proof -
  obtain M L1 where L1: "Register cn names L = Inr L1" "lstack L1 = lstack L" "binding cn M L1" "\<And>p. cached M L1 p = None"
    using Register_class [OF new names] by blast
  obtain L' where L': "push_all cn ops L1 = Inr L'" "lstack L' = lstack L1" "binding cn M L'"
      "\<And>p g. map_of ops p = Some g \<Longrightarrow> \<exists>u. cached M L' p = Some u \<and> kept M L' u = (\<not> g)"
  proof -
    have "\<forall>p\<in>fst ` set ops. p \<noteq> 0" by (metis objs)
    from push_all_ok [OF L1(3) this] show thesis using that L1(4) by blast
  qed
  have "\<exists>u. cached M L' p = Some u \<and> gc_T u L' = Inr (if g then Some p else None) \<and>
      (\<forall>call l args. thunk cn call l (L'\<lparr>lstack := args @ [Userdata u]\<rparr>) = (call p l (L'\<lparr>lstack := args\<rparr>) :: 'r res))"
    if g: "map_of ops p = Some g" for p g
  proof -
    obtain u where u: "cached M L' p = Some u" "kept M L' u = (\<not> g)" using L'(4) [OF g] by blast
    note c = cached_userdata [OF L'(3) u(1)]
    have "p \<noteq> 0" using g objs by (metis fst_conv imageI map_of_SomeD)
    then have "gc_T u L' = Inr (if g then Some p else None)" using collection_deletes [OF L'(3) c(3,2)] u(2) by simp
    moreover have "thunk cn call l (L'\<lparr>lstack := args @ [Userdata u]\<rparr>) = (call p l (L'\<lparr>lstack := args\<rparr>) :: 'r res)" for call l args
      using thunk_dispatches [of cn M "L'\<lparr>lstack := args @ [Userdata u]\<rparr>" args "Userdata u" call l] L'(3) c by simp
    ultimately show ?thesis using u(1) by blast
  qed
  moreover have "p = q" if "cached M L' p = Some u" "cached M L' q = Some u" for p q u
    using cached_userdata(2) [OF L'(3)] that by metis
  ultimately show ?thesis using L1(1,2) L'(1,2) by (intro exI [of _ L1] exI [of _ L'] exI [of _ M]) simp
qed

definition no_lua :: lua where
  "no_lua = \<lparr>lstack = [], tables = (\<lambda>_ _. None), table_meta = (\<lambda>_. None), user_ptr = (\<lambda>_. 0), user_meta = (\<lambda>_. None),
     new_ref = 0, registry = (\<lambda>_. None), globals = (\<lambda>_. None)\<rparr>"

text \<open>The class of states, with one state that belongs to the program and is pushed twice, and one of a script.\<close>

theorem objects_by_userdata_witness:
  "\<exists>L1 L' M u. RegisterS2EApi no_lua = Inr L1 \<and> push_all ''S2ELUAExecutionState'' [(64, False), (96, True), (64, True)] L1 = Inr L' \<and>
     cached M L' 64 = Some u \<and> gc_T u L' = Inr None"
proof -
  have r: "registry no_lua ''S2ELUAExecutionState'' = None" by (simp add: no_lua_def)
  have n: "distinct state_methods" "''new'' \<notin> set state_methods" by (simp_all add: state_methods_def)
  have o: "0 \<notin> fst ` set [(64, False), (96, True), (64 :: nat, True)]" by simp
  have m: "map_of [(64, False), (96, True), (64 :: nat, True)] 64 = Some False" by simp
  obtain L1 L' M where a: "Register ''S2ELUAExecutionState'' state_methods no_lua = Inr L1"
      "push_all ''S2ELUAExecutionState'' [(64, False), (96, True), (64, True)] L1 = Inr L'"
    and e: "\<forall>p g. map_of [(64, False), (96, True), (64 :: nat, True)] p = Some g \<longrightarrow> (\<exists>u. cached M L' p = Some u \<and>
       gc_T u L' = Inr (if g then Some p else None) \<and> (\<forall>call l args. thunk ''S2ELUAExecutionState'' call l (L'\<lparr>lstack := args @ [Userdata u]\<rparr>) =
         (call p l (L'\<lparr>lstack := args\<rparr>) :: unit res)))"
    using objects_by_userdata [OF r n o, where 'r = unit] by (elim exE conjE) (rule that)
  from e have "\<exists>u. cached M L' 64 = Some u \<and> gc_T u L' = Inr (if False then Some 64 else None) \<and>
      (\<forall>call l args. thunk ''S2ELUAExecutionState'' call l (L'\<lparr>lstack := args @ [Userdata u]\<rparr>) =
         (call 64 l (L'\<lparr>lstack := args\<rparr>) :: unit res))" using m by blast
  then obtain u where "cached M L' 64 = Some u" "gc_T u L' = Inr None" by auto
  then show ?thesis using a by (intro exI [of _ L1] exI [of _ L'] exI [of _ M] exI [of _ u]) (simp only: RegisterS2EApi_def simp_thms)
qed

text \<open>A script may also call the class. The constructor for Lua leaves the pointer of the new object to the state
  unset: its methods then use an indeterminate pointer.\<close>

end
