(* ===== verification/Registered_Ram.thy ===== *)
theory Registered_Ram
  imports Executor_Setup
begin

text \<open>
  The RAM of a machine from its registration to its use: the regions that are registered with the executor
  (\<open>S2EExecutor.cpp\<close>) are the ones that the concrete accesses of a state (\<open>S2EExecutionState.cpp\<close>) work on.
\<close>

section \<open>Binding objects\<close>

text \<open>
  What KLEE promises when it binds an object: \<open>add_laws\<close>, and that the new object state is owned by the
  address space, has the bytes of its memory, is not that of another object, and that the states of the
  other objects stay as they are.
\<close>

definition bind_laws :: "('e, 'o, 'k) klee_ops \<Rightarrow> (mem_object \<Rightarrow> 'k \<Rightarrow> 'k) \<Rightarrow> bool" where
  "bind_laws kl add_external \<longleftrightarrow> add_laws kl add_external \<and>
     (\<forall>mo k os. as_find kl (mo_address mo) (add_external mo k) = Some (mo, os) \<longrightarrow>
        as_owned kl os (add_external mo k) \<and> length (as_bytes kl os (add_external mo k)) = mo_size mo \<and>
        (\<forall>b\<in>set (as_bytes kl os (add_external mo k)). e_width kl b = 8) \<and>
        (\<forall>a mo'. a \<noteq> mo_address mo \<longrightarrow> as_find kl a k \<noteq> Some (mo', os))) \<and>
     (\<forall>mo k a mo' os. a \<noteq> mo_address mo \<longrightarrow> as_find kl a k = Some (mo', os) \<longrightarrow>
        as_bytes kl os (add_external mo k) = as_bytes kl os k \<and> as_owned kl os (add_external mo k) = as_owned kl os k)"

text \<open>The address space \<open>k\<close> has new objects at addresses from \<open>start\<close> to \<open>stop\<close> and is \<open>k0\<close> elsewhere.\<close>

definition extended :: "('e, 'o, 'k) klee_ops \<Rightarrow> bool \<Rightarrow> u64 \<Rightarrow> u64 \<Rightarrow> 'k \<Rightarrow> 'k \<Rightarrow> bool" where
  "extended kl shared start stop k0 k \<longleftrightarrow> objects_distinct kl k \<and> (\<forall>a mo os. as_find kl a k = Some (mo, os) \<longrightarrow>
     (as_find kl a k0 = Some (mo, os) \<and> as_bytes kl os k = as_bytes kl os k0 \<and> as_owned kl os k = as_owned kl os k0) \<or>
     (start \<le> a \<and> a < stop \<and> mo = ram_mo a shared \<and> bytes_ok kl (as_bytes kl os k) \<and> as_owned kl os k))"

lemma bind_found:
  assumes "bind_laws kl add_external"
  obtains os where "as_find kl (mo_address mo) (add_external mo k) = Some (mo, os)" "as_owned kl os (add_external mo k)"
    "length (as_bytes kl os (add_external mo k)) = mo_size mo" "\<forall>b\<in>set (as_bytes kl os (add_external mo k)). e_width kl b = 8"
    "\<forall>a mo'. a \<noteq> mo_address mo \<longrightarrow> as_find kl a k \<noteq> Some (mo', os)"
  using assms unfolding bind_laws_def add_laws_def by meson

lemma bind_other:
  assumes "bind_laws kl add_external" "a \<noteq> mo_address mo"
  shows "as_find kl a (add_external mo k) = as_find kl a k"
    "as_find kl a k = Some (mo', os) \<Longrightarrow> as_bytes kl os (add_external mo k) = as_bytes kl os k"
    "as_find kl a k = Some (mo', os) \<Longrightarrow> as_owned kl os (add_external mo k) = as_owned kl os k"
  using assms unfolding bind_laws_def add_laws_def by metis+

lemma extended_bind:
  assumes laws: "bind_laws kl add_external" and x: "extended kl shared start stop k0 k" and a: "start \<le> addr" "addr < stop"
  shows "extended kl shared start stop k0 (add_external (ram_mo addr shared) k)"
proof -
  let ?mo = "ram_mo addr shared"
  let ?k = "add_external ?mo k"
  have ad: "mo_address ?mo = addr" "mo_size ?mo = RAM_OBJECT_SIZE" by (simp_all add: ram_mo_def)
  obtain os where o: "as_find kl addr ?k = Some (?mo, os)" "as_owned kl os ?k" "length (as_bytes kl os ?k) = RAM_OBJECT_SIZE"
      "\<forall>b\<in>set (as_bytes kl os ?k). e_width kl b = 8" "\<forall>b mo'. b \<noteq> addr \<longrightarrow> as_find kl b k \<noteq> Some (mo', os)"
    by (rule bind_found [OF laws, of ?mo k, unfolded ad])
  have other: "as_find kl b ?k = as_find kl b k" if "b \<noteq> addr" for b using bind_other(1) [OF laws] that ad by simp
  have only: "b = addr" if "as_find kl b ?k = Some (mo, os)" for b mo using that o(5) other by (cases "b = addr") auto
  have "b = c" if f: "as_find kl b ?k = Some (mo, os')" "as_find kl c ?k = Some (mo', os')" for b c mo mo' os'
  proof (cases "b = addr \<or> c = addr")
    case True
    then have "os' = os" using f o(1) by auto
    with f only show ?thesis by blast
  next
    case False
    then have "as_find kl b k = Some (mo, os')" "as_find kl c k = Some (mo', os')" using f other by simp_all
    with x show ?thesis unfolding extended_def objects_distinct_def by blast
  qed
  then have "objects_distinct kl ?k" by (auto simp: objects_distinct_def)
  moreover have "(as_find kl b k0 = Some (mo, os') \<and> as_bytes kl os' ?k = as_bytes kl os' k0 \<and> as_owned kl os' ?k = as_owned kl os' k0) \<or>
     (start \<le> b \<and> b < stop \<and> mo = ram_mo b shared \<and> bytes_ok kl (as_bytes kl os' ?k) \<and> as_owned kl os' ?k)"
    if f: "as_find kl b ?k = Some (mo, os')" for b mo os'
  proof (cases "b = addr")
    case False
    then have k: "as_find kl b k = Some (mo, os')" using f other by simp
    with False bind_other(2,3) [OF laws, of b ?mo] ad x show ?thesis by (auto simp: extended_def)
  qed (use f o(1-4) a in \<open>simp add: bytes_ok_def\<close>)
  ultimately show ?thesis by (simp add: extended_def)
qed

lemma extended_loop:
  assumes laws: "bind_laws kl add_external" and m: "unat stop mod 128 = 0"
    and run: "register_objects add_external shared to_save stop addr ks = Some r"
    and a: "unat addr mod 128 = 0" "host \<le> addr" "extended kl shared host stop k0 (fst ks)"
  shows "extended kl shared host stop k0 (fst r)"
proof -
  let ?P = "\<lambda>add shared' to_save stop' addr ks r. add = add_external \<and> shared' = shared \<and> stop' = stop \<and>
    unat addr mod 128 = 0 \<and> host \<le> addr \<and> extended kl shared host stop k0 (fst ks) \<longrightarrow> extended kl shared host stop k0 (fst r)"
  have "?P add_external shared to_save stop addr ks r"
  proof (rule register_objects.raw_induct [where P = ?P, OF _ run], goal_cases)
    case (1 f add shared' to_save' stop' addr ks r')
    show ?case
    proof (intro impI, elim conjE)
      assume h: "add = add_external" "shared' = shared" "stop' = stop" "unat addr mod 128 = 0" "host \<le> addr"
        "extended kl shared host stop k0 (fst ks)"
      show "extended kl shared host stop k0 (fst r')"
      proof (cases "addr < stop")
        case True
        note step = aligned_step [OF h(4) m True]
        have "host \<le> addr + of_nat RAM_OBJECT_SIZE" using h(5) step(1) by (simp add: word_le_nat_alt)
        moreover have "unat (addr + of_nat RAM_OBJECT_SIZE) mod 128 = 0" using h(4) step(1) by simp
        moreover note extended_bind [OF laws h(6,5) True]
        ultimately show ?thesis using 1 h True by (auto split: if_splits)
      qed (use 1 h in auto)
    qed
  qed
  with a show ?thesis by simp
qed

section \<open>Regions of RAM\<close>

record ram_region =
  r_start :: u64
  r_size :: u64
  r_host :: u64
  r_shared :: bool
  r_save :: bool

definition in_region :: "ram_region \<Rightarrow> u64 \<Rightarrow> bool" where
  "in_region r x \<longleftrightarrow> r_host r \<le> x \<and> x < r_host r + r_size r"

definition region_ok :: "qemu_ops \<Rightarrow> ram_region \<Rightarrow> bool" where
  "region_ok q r \<longleftrightarrow> (r_start r = - 1 \<or> page_aligned q (r_start r)) \<and> page_aligned q (r_size r) \<and> page_aligned q (r_host r) \<and>
     (r_shared r \<or> \<not> r_save r) \<and> unat (r_host r) + unat (r_size r) < 2 ^ 64"

definition regions_apart :: "ram_region \<Rightarrow> ram_region \<Rightarrow> bool" where
  "regions_apart r r' \<longleftrightarrow> (\<forall>x. \<not> (in_region r x \<and> in_region r' x))"

definition register_region ::
  "(mem_object \<Rightarrow> 'k \<Rightarrow> 'k) \<Rightarrow> qemu_ops \<Rightarrow> bool \<Rightarrow> ram_region \<Rightarrow> ('o, 'k) ram_setup \<Rightarrow> ('o, 'k) ram_setup res option" where
  "register_region add_external q ssm r = registerRam add_external q ssm (r_start r) (r_size r) (r_host r) (r_shared r) (r_save r)"

text \<open>The calls of \<open>registerRam\<close> of a machine, in order.\<close>

fun register_regions ::
  "(mem_object \<Rightarrow> 'k \<Rightarrow> 'k) \<Rightarrow> qemu_ops \<Rightarrow> bool \<Rightarrow> ram_region list \<Rightarrow> ('o, 'k) ram_setup \<Rightarrow> ('o, 'k) ram_setup res option" where
  "register_regions add_external q ssm [] su = Some (Inr su)"
| "register_regions add_external q ssm (r # rs) su = (case register_region add_external q ssm r su of
     Some (Inr su') \<Rightarrow> register_regions add_external q ssm rs su'
   | outcome \<Rightarrow> outcome)"

text \<open>The regions \<open>R\<close> have been registered: the cache covers exactly them, and all their addresses lie in
  RAM objects of the state alone.\<close>

definition ram_ready :: "('e, 'o, 'k) klee_ops \<Rightarrow> ram_region set \<Rightarrow> ('o, 'k) ram_state \<Rightarrow> bool" where
  "ram_ready kl R st \<longleftrightarrow> cache_coherent kl st \<and> objects_distinct kl (klee st) \<and>
     (\<forall>x. pool_covers (m_memcache st) x \<longleftrightarrow> (\<exists>r\<in>R. in_region r x)) \<and>
     (\<forall>r\<in>R. \<forall>x. in_region r x \<longrightarrow> (\<exists>os. ram_object_at kl (klee st) x (ram_mo (obj_base x) (r_shared r)) os \<and>
        as_owned kl os (klee st)))"

lemma region_aligned:
  assumes "RAM_OBJECT_BITS \<le> page_bits q" "region_ok q r"
  shows "unat (r_host r) mod 128 = 0" "unat (r_host r + r_size r) = unat (r_host r) + unat (r_size r)"
    "unat (r_host r + r_size r) mod 128 = 0"
proof -
  show m: "unat (r_host r) mod 128 = 0" using assms page_aligned_object by (auto simp: region_ok_def)
  show u: "unat (r_host r + r_size r) = unat (r_host r) + unat (r_size r)"
    using assms(2) by (simp add: region_ok_def unat_word_ariths)
  have "unat (r_size r) mod 128 = 0" using assms page_aligned_object by (auto simp: region_ok_def)
  with m show "unat (r_host r + r_size r) mod 128 = 0" unfolding u by presburger
qed

text \<open>A region is a union of objects.\<close>

lemma region_objects:
  assumes "RAM_OBJECT_BITS \<le> page_bits q" "region_ok q r"
  shows "in_region r (obj_base x) \<longleftrightarrow> in_region r x"
proof -
  note al = region_aligned [OF assms]
  obtain i where i: "unat (r_host r) = 128 * i" using al(1) by (meson dvdE mod_eq_0_iff_dvd)
  obtain j where j: "unat (r_host r + r_size r) = 128 * j" using al(3) by (meson dvdE mod_eq_0_iff_dvd)
  have "unat (obj_base x) = 128 * (unat x div 128)" by (simp add: obj_base_unat minus_mod_eq_mult_div)
  moreover have "i \<le> unat x div 128 \<longleftrightarrow> 128 * i \<le> unat x" "unat x div 128 < j \<longleftrightarrow> unat x < 128 * j"
    by (simp_all add: less_eq_div_iff_mult_less_eq div_less_iff_less_mult mult.commute)
  ultimately show ?thesis by (simp add: in_region_def word_le_nat_alt word_less_nat_alt i j)
qed

lemma registerRam_parts:
  assumes "registerRam add_external q ssm startAddress sz host shared saveOnSwitch su = Some (Inr su')"
  obtains k sv c where
    "register_objects add_external shared (saveOnSwitch \<or> \<not> ssm) (host + sz) host (klee (su_ram su), m_saveOnContextSwitch su) = Some (k, sv)"
    "registerPool RAM_OBJECT_BITS (page_bits q) 20 host sz (m_memcache (su_ram su)) = Inr c"
    "su_ram su' = (su_ram su)\<lparr>klee := k, m_memcache := c\<rparr>"
  using assms by (auto simp: registerRam_def rbind_Inr_iff split: if_splits option.splits)

lemma registered_covers:
  "registerPool ob pb sb start sz cs = Inr cs' \<Longrightarrow>
   pool_covers cs' x \<longleftrightarrow> pool_covers cs x \<or> start \<le> x \<and> x < start + sz"
  by (auto simp: registerPool_def rbind_Inr_iff pool_covers_def list_ex_iff insert_by_size_set cache_contains_def
      MemoryCache_new_def resize_def)

text \<open>What the registration of one region keeps of the rest of the machine.\<close>

definition kept_outside :: "('e, 'o, 'k) klee_ops \<Rightarrow> (u64 \<Rightarrow> bool) \<Rightarrow> ('o, 'k) ram_state \<Rightarrow> ('o, 'k) ram_state \<Rightarrow> bool" where
  "kept_outside kl P st st' \<longleftrightarrow> m_active st' = m_active st \<and> m_runningConcrete st' = m_runningConcrete st \<and>
     (\<forall>x. \<not> P x \<longrightarrow> ram_byte kl (klee st') x = ram_byte kl (klee st) x \<and> as_find kl x (klee st') = as_find kl x (klee st))"

lemma extended_old:
  assumes "extended kl shared start stop k0 k" "\<not> (start \<le> a \<and> a < stop)" "as_find kl a k = Some (mo, os)"
  shows "as_bytes kl os k = as_bytes kl os k0" "as_owned kl os k = as_owned kl os k0"
  using assms unfolding extended_def by blast+

lemma extended_new:
  assumes "extended kl shared start stop k0 k" "as_find kl a k0 = None" "as_find kl a k = Some (mo, os)"
  shows "bytes_ok kl (as_bytes kl os k)" "as_owned kl os k"
  using assms unfolding extended_def by fastforce+

lemma register_region_ready:
  assumes laws: "bind_laws kl add_external" and q: "RAM_OBJECT_BITS \<le> page_bits q" "page_bits q \<le> 20"
    and ok: "region_ok q r" and apart: "\<forall>r'\<in>R. regions_apart r' r" and ready: "ram_ready kl R (su_ram su)"
    and free: "\<forall>x. in_region r x \<longrightarrow> as_find kl x (klee (su_ram su)) = None"
  shows "\<exists>su'. register_region add_external q ssm r su = Some (Inr su') \<and> ram_ready kl (insert r R) (su_ram su') \<and>
    kept_outside kl (in_region r) (su_ram su) (su_ram su')"
proof -
  let ?st = "su_ram su" and ?stop = "r_host r + r_size r"
  note al = region_aligned [OF q(1) ok] and ob = region_objects [OF q(1) ok]
  have "\<not> pool_covers (m_memcache ?st) x" if "r_host r \<le> x" "x < ?stop" for x
    using ready apart that by (auto simp: ram_ready_def regions_apart_def in_region_def)
  moreover have "add_laws kl add_external" using laws by (simp add: bind_laws_def)
  moreover have "r_start r = - 1 \<or> page_aligned q (r_start r)" "page_aligned q (r_size r)" "page_aligned q (r_host r)"
    "r_shared r \<or> \<not> r_save r" "unat (r_host r) + unat (r_size r) < 2 ^ 64" using ok by (simp_all add: region_ok_def)
  moreover have "cache_coherent kl ?st" using ready by (simp add: ram_ready_def)
  ultimately obtain su' where run: "register_region add_external q ssm r su = Some (Inr su')"
    and coh: "cache_coherent kl (su_ram su')"
    and found: "\<And>x. in_region r x \<Longrightarrow> \<exists>os. as_find kl (obj_base x) (klee (su_ram su')) = Some (ram_mo (obj_base x) (r_shared r), os)"
    and outside: "\<And>x. \<not> in_region r x \<Longrightarrow> as_find kl x (klee (su_ram su')) = as_find kl x (klee ?st)"
    using registerRam_ok [OF _ q, of kl add_external "r_start r" "r_size r" "r_host r" "r_shared r" "r_save r" su ssm]
    unfolding register_region_def in_region_def by metis
  from registerRam_parts [OF run [unfolded register_region_def]] obtain k sv c where
    reg: "register_objects add_external (r_shared r) (r_save r \<or> \<not> ssm) ?stop (r_host r) (klee ?st, m_saveOnContextSwitch su) = Some (k, sv)"
    and pool: "registerPool RAM_OBJECT_BITS (page_bits q) 20 (r_host r) (r_size r) (m_memcache ?st) = Inr c"
    and su': "su_ram su' = ?st\<lparr>klee := k, m_memcache := c\<rparr>" .
  have "extended kl (r_shared r) (r_host r) ?stop (klee ?st) (klee ?st)" using ready by (simp add: extended_def ram_ready_def)
  with extended_loop [OF laws al(3) reg al(1)] have ext: "extended kl (r_shared r) (r_host r) ?stop (klee ?st) k" by simp
  have new: "\<exists>os. ram_object_at kl k x (ram_mo (obj_base x) (r_shared r)) os \<and> as_owned kl os k" if x: "in_region r x" for x
  proof -
    from found [OF x] su' obtain os where f: "as_find kl (obj_base x) k = Some (ram_mo (obj_base x) (r_shared r), os)" by auto
    have "as_find kl (obj_base x) (klee ?st) = None" using free ob x by blast
    from extended_new [OF ext this f] f show ?thesis by (auto simp: ram_object_at_def ram_mo_def)
  qed
  have old: "\<exists>os. ram_object_at kl k x (ram_mo (obj_base x) (r_shared r')) os \<and> as_owned kl os k" if r': "r' \<in> R" "in_region r' x" for r' x
  proof -
    have no: "\<not> in_region r (obj_base x)" using apart r' ob by (auto simp: regions_apart_def)
    from ready r' obtain os where o: "ram_object_at kl (klee ?st) x (ram_mo (obj_base x) (r_shared r')) os" "as_owned kl os (klee ?st)"
      unfolding ram_ready_def by blast
    then have f: "as_find kl (obj_base x) k = Some (ram_mo (obj_base x) (r_shared r'), os)"
      using outside [OF no] su' by (simp add: ram_object_at_def)
    from extended_old [OF ext no [unfolded in_region_def] f] f o show ?thesis by (auto simp: ram_object_at_def)
  qed
  have same: "ram_byte kl k x = ram_byte kl (klee ?st) x" if x: "\<not> in_region r x" for x
  proof -
    have no: "\<not> in_region r (obj_base x)" using x ob by simp
    have f: "as_find kl (obj_base x) k = as_find kl (obj_base x) (klee ?st)" using outside [OF no] su' by simp
    show ?thesis using f extended_old(1) [OF ext no [unfolded in_region_def]] by (auto simp: ram_byte_def split: option.splits)
  qed
  have "ram_ready kl (insert r R) (su_ram su')"
    using coh ext new old ready registered_covers [OF pool] unfolding ram_ready_def su' extended_def
    by (auto simp: in_region_def)
  moreover have "kept_outside kl (in_region r) ?st (su_ram su')" using same outside su' by (auto simp: kept_outside_def)
  ultimately show ?thesis using run by blast
qed

lemma register_regions_ready:
  assumes laws: "bind_laws kl add_external" and q: "RAM_OBJECT_BITS \<le> page_bits q" "page_bits q \<le> 20"
  shows "\<forall>r\<in>set rs. region_ok q r \<Longrightarrow> sorted_wrt regions_apart rs \<Longrightarrow> \<forall>r\<in>set rs. \<forall>r'\<in>R. regions_apart r' r \<Longrightarrow>
    ram_ready kl R (su_ram su) \<Longrightarrow> \<forall>r\<in>set rs. \<forall>x. in_region r x \<longrightarrow> as_find kl x (klee (su_ram su)) = None \<Longrightarrow>
    \<exists>su'. register_regions add_external q ssm rs su = Some (Inr su') \<and> ram_ready kl (R \<union> set rs) (su_ram su') \<and>
      kept_outside kl (\<lambda>x. \<exists>r\<in>set rs. in_region r x) (su_ram su) (su_ram su')"
proof (induction rs arbitrary: R su)
  case (Cons r rs)
  have "region_ok q r" "\<forall>r'\<in>R. regions_apart r' r" "\<forall>x. in_region r x \<longrightarrow> as_find kl x (klee (su_ram su)) = None"
    using Cons.prems by simp_all
  from register_region_ready [OF laws q this(1,2) Cons.prems(4) this(3)] obtain su1 where
    one: "register_region add_external q ssm r su = Some (Inr su1)" "ram_ready kl (insert r R) (su_ram su1)"
      "kept_outside kl (in_region r) (su_ram su) (su_ram su1)" by blast
  have "as_find kl x (klee (su_ram su1)) = None" if "r' \<in> set rs" "in_region r' x" for r' x
  proof -
    have "\<not> in_region r x" using that Cons.prems(2) by (auto simp: regions_apart_def)
    then show ?thesis using one(3) that Cons.prems(5) by (simp add: kept_outside_def)
  qed
  then have "\<forall>r'\<in>set rs. \<forall>x. in_region r' x \<longrightarrow> as_find kl x (klee (su_ram su1)) = None" by blast
  from Cons.IH [OF _ _ _ one(2) this] Cons.prems(1-3) obtain su' where
    "register_regions add_external q ssm rs su1 = Some (Inr su')" "ram_ready kl (insert r R \<union> set rs) (su_ram su')"
    "kept_outside kl (\<lambda>x. \<exists>r\<in>set rs. in_region r x) (su_ram su1) (su_ram su')" by auto
  with one show ?case by (auto simp: kept_outside_def)
qed (simp add: kept_outside_def)

section \<open>Using the regions\<close>

text \<open>A write does not change what the cache covers.\<close>

lemma pool_put_covers: "pool_put d a v cs = Inr cs' \<Longrightarrow> pool_covers cs' x \<longleftrightarrow> pool_covers cs x"
proof (induction cs arbitrary: cs')
  case (Cons c cs)
  then show ?case
    by (auto simp: rbind_Inr_iff pool_covers_def cache_contains_def cache_put_config split: if_splits)
qed simp

lemma checked_object_covers:
  "checked_object kl page st = Inr (mo, os, st') \<Longrightarrow> pool_covers (m_memcache st') x \<longleftrightarrow> pool_covers (m_memcache st) x"
  by (auto simp: checked_object_def cached_object_def rbind_Inr_iff pool_put_covers Let_def split: if_splits option.splits)

lemma getWriteable_covers:
  "getWriteable kl mo os st = Inr (wos, st') \<Longrightarrow> pool_covers (m_memcache st') x \<longleftrightarrow> pool_covers (m_memcache st) x"
  by (auto simp: getWriteable_def addressSpaceChange_def rbind_Inr_iff pool_put_covers split: if_splits option.splits prod.splits)

lemma write_covers:
  "writeRamConcrete kl h bs st = Inr st' \<Longrightarrow> pool_covers (m_memcache st') x \<longleftrightarrow> pool_covers (m_memcache st) x"
proof (induction kl h bs st arbitrary: st' rule: writeRamConcrete.induct)
  case (1 kl h buf st)
  show ?case
  proof (cases "obj_offset h + length buf \<le> RAM_OBJECT_SIZE")
    case True
    with 1(3) show ?thesis
      by (subst (asm) writeRamConcrete.simps) (auto simp: rbind_Inr_iff checked_object_covers getWriteable_covers)
  next
    case False
    with 1(3) obtain st1 where w: "writeRamConcrete kl h (take (RAM_OBJECT_SIZE - obj_offset h) buf) st = Inr st1"
      "writeRamConcrete kl (h + of_nat (RAM_OBJECT_SIZE - obj_offset h)) (drop (RAM_OBJECT_SIZE - obj_offset h) buf) st1 = Inr st'"
      by (subst (asm) writeRamConcrete.simps) (auto simp: rbind_Inr_iff Let_def)
    with 1(1) [OF False refl w(1)] 1(2) [OF False refl w(2)] show ?thesis by simp
  qed
qed

lemma ready_host_range:
  assumes ready: "ram_ready kl R st" and r: "r \<in> R" and ok: "region_ok q r"
    and h: "r_host r \<le> h" "unat h + n \<le> unat (r_host r) + unat (r_size r)"
  shows "host_range kl (klee st) h n" "i < n \<Longrightarrow> in_region r (h + of_nat i)"
proof -
  have top: "unat (r_host r) + unat (r_size r) < 2 ^ 64" using ok by (simp add: region_ok_def)
  have "in_region r (h + of_nat i)" if "i < n" for i
  proof -
    have "unat (of_nat i :: u64) = i" using that h(2) top by (simp add: unat_of_nat take_bit_nat_eq_self)
    then have "unat (h + of_nat i) = unat h + i" using that h(2) top by (simp add: unat_word_ariths)
    moreover have "unat (r_host r + r_size r) = unat (r_host r) + unat (r_size r)" using top by (simp add: unat_word_ariths)
    ultimately show ?thesis using that h by (simp add: in_region_def word_le_nat_alt word_less_nat_alt)
  qed
  note inside = this
  show "i < n \<Longrightarrow> in_region r (h + of_nat i)" by (rule inside)
  have "\<exists>mo os. ram_object_at kl (klee st) (h + of_nat i) mo os \<and> mo_address mo = obj_base (h + of_nat i) \<and> as_owned kl os (klee st)"
    if "i < n" for i
  proof -
    from ready r inside [OF that] obtain os where
      "ram_object_at kl (klee st) (h + of_nat i) (ram_mo (obj_base (h + of_nat i)) (r_shared r)) os" "as_owned kl os (klee st)"
      unfolding ram_ready_def by blast
    moreover have "mo_address (ram_mo a s) = a" for a s by (simp add: ram_mo_def)
    ultimately show ?thesis by blast
  qed
  then show "host_range kl (klee st) h n" using h(2) top by (simp add: host_range_def)
qed

lemma ready_after_write:
  assumes ready: "ram_ready kl R st" and sh: "ram_shape kl (klee st) (klee st')" and co: "cache_coherent kl st'"
    and cov: "\<And>x. pool_covers (m_memcache st') x \<longleftrightarrow> pool_covers (m_memcache st) x"
  shows "ram_ready kl R st'"
proof -
  have "objects_distinct kl (klee st')" using ready sh by (simp add: ram_ready_def objects_distinct_def ram_shape_def)
  moreover have "\<exists>os. ram_object_at kl (klee st') x (ram_mo (obj_base x) (r_shared r)) os \<and> as_owned kl os (klee st')"
    if "r \<in> R" "in_region r x" for r x
  proof -
    from ready that obtain os where
      "ram_object_at kl (klee st) x (ram_mo (obj_base x) (r_shared r)) os" "as_owned kl os (klee st)"
      unfolding ram_ready_def by blast
    then show ?thesis using shape_object [OF sh] sh by (auto simp: ram_shape_def)
  qed
  ultimately show ?thesis using ready co cov by (simp add: ram_ready_def)
qed

lemma ready_write:
  assumes laws: "space_laws kl" "const_laws kl" and ready: "ram_ready kl R st" and mode: "m_active st"
    and r: "r \<in> R" "region_ok q r" "r_host r \<le> h" "unat h + length bs \<le> unat (r_host r) + unat (r_size r)" and bs: "bs \<noteq> []"
  obtains st' where "writeRamConcrete kl h bs st = Inr st'" "ram_ready kl R st'" "concrete_span kl (klee st') h bs"
    "ram_shape kl (klee st) (klee st')" "m_active st'" "m_runningConcrete st' = m_runningConcrete st"
proof -
  note range = ready_host_range(1) [OF ready r]
  have cw: "\<And>c. e_width kl (e_const kl c 8) = 8" using laws(2) by (simp add: const_laws_def)
  have st: "objects_distinct kl (klee st)" "cache_coherent kl st" using ready by (simp_all add: ram_ready_def)
  from writeRamConcrete_spec [OF laws(1) cw st(1) range st(2) mode bs] obtain k c where
    w: "writeRamConcrete kl h bs st = Inr (st\<lparr>m_memcache := c, klee := k\<rparr>)" "ram_written kl h bs (klee st) k"
      "cache_coherent kl (st\<lparr>m_memcache := c, klee := k\<rparr>)" by blast
  let ?st = "st\<lparr>m_memcache := c, klee := k\<rparr>"
  have sh: "ram_shape kl (klee st) (klee ?st)" using w(2) by (simp add: ram_written_def)
  have "length bs < 2 ^ 64" using range by (simp add: host_range_def)
  from that [OF w(1) ready_after_write [OF ready sh w(3) write_covers [OF w(1)]] _ sh] written_concrete [OF laws(2) w(2) this] mode
  show ?thesis by simp
qed

text \<open>C25: When a machine registers page-aligned regions of RAM that do not overlap and whose addresses hold no
  objects yet, every registration succeeds, and bytes that native code then writes into one of the regions
  are what its next concrete read returns, however many RAM objects they cross and even if further
  regions are registered in between.\<close>

theorem registered_ram_round_trip:
  assumes laws: "bind_laws kl add_external" "space_laws kl" "const_laws kl" and q: "RAM_OBJECT_BITS \<le> page_bits q" "page_bits q \<le> 20"
    and ok: "\<forall>r\<in>set (rs @ rs'). region_ok q r" and apart: "sorted_wrt regions_apart (rs @ rs')"
    and free: "\<forall>r\<in>set (rs @ rs'). \<forall>x. in_region r x \<longrightarrow> as_find kl x (klee (su_ram su)) = None"
    and start: "m_memcache (su_ram su) = []" "objects_distinct kl (klee (su_ram su))" "m_active (su_ram su)" "m_runningConcrete (su_ram su)"
    and range: "r \<in> set rs" "r_host r \<le> h" "unat h + length bs \<le> unat (r_host r) + unat (r_size r)" "bs \<noteq> []"
  shows "\<exists>su1 st2 su3 st4. register_regions add_external q ssm rs su = Some (Inr su1) \<and>
    writeRamConcrete kl h bs (su_ram su1) = Inr st2 \<and>
    register_regions add_external q ssm rs' (su1\<lparr>su_ram := st2\<rparr>) = Some (Inr su3) \<and>
    readRamConcreteCheck kl h (length bs) (su_ram su3) = Inr (bs, st4) \<and> klee st4 = klee (su_ram su3)"
proof -
  have "ram_ready kl {} (su_ram su)"
    using start by (simp add: ram_ready_def cache_coherent_def pool_inv_def regions_aligned_def pool_covers_def)
  with register_regions_ready [OF laws(1) q, of rs "{}" su ssm] ok apart free obtain su1 where
    one: "register_regions add_external q ssm rs su = Some (Inr su1)" "ram_ready kl (set rs) (su_ram su1)"
      "kept_outside kl (\<lambda>x. \<exists>r\<in>set rs. in_region r x) (su_ram su) (su_ram su1)" by (auto simp: sorted_wrt_append)
  have okr: "region_ok q r" using ok range(1) by simp
  note range1 = ready_host_range [OF one(2) range(1) okr range(2,3)]
  have mode: "m_active (su_ram su1)" "m_runningConcrete (su_ram su1)" using one(3) start(3,4) by (simp_all add: kept_outside_def)
  obtain st2 where w: "writeRamConcrete kl h bs (su_ram su1) = Inr st2" "ram_ready kl (set rs) st2" "concrete_span kl (klee st2) h bs"
    "ram_shape kl (klee (su_ram su1)) (klee st2)" "m_active st2" "m_runningConcrete st2"
    using ready_write [OF laws(2,3) one(2) mode(1) range(1) okr range(2-4)] mode(2) by metis
  have "as_find kl x (klee st2) = None" if x: "r' \<in> set rs'" "in_region r' x" for r' x
  proof -
    have "\<not> (\<exists>r\<in>set rs. in_region r x)" using apart x by (auto simp: sorted_wrt_append regions_apart_def)
    then have "as_find kl x (klee (su_ram su1)) = as_find kl x (klee (su_ram su))" using one(3) by (simp add: kept_outside_def)
    moreover have "as_find kl x (klee (su_ram su)) = None" using free x by auto
    ultimately show ?thesis using w(4) by (simp add: ram_shape_def)
  qed
  with register_regions_ready [OF laws(1) q, of rs' "set rs" "su1\<lparr>su_ram := st2\<rparr>" ssm] ok apart w(2) obtain su3 where
    three: "register_regions add_external q ssm rs' (su1\<lparr>su_ram := st2\<rparr>) = Some (Inr su3)"
      "ram_ready kl (set rs \<union> set rs') (su_ram su3)"
      "kept_outside kl (\<lambda>x. \<exists>r\<in>set rs'. in_region r x) st2 (su_ram su3)" by (auto simp: sorted_wrt_append)
  have "ram_byte kl (klee (su_ram su3)) (h + of_nat i) = ram_byte kl (klee st2) (h + of_nat i)" if "i < length bs" for i
  proof -
    have "\<not> (\<exists>r\<in>set rs'. in_region r (h + of_nat i))"
      using apart range(1) range1(2) [OF that] by (auto simp: sorted_wrt_append regions_apart_def)
    then show ?thesis using three(3) by (simp add: kept_outside_def)
  qed
  with w(3) have span: "concrete_span kl (klee (su_ram su3)) h bs" by (simp add: concrete_span_def)
  have "host_range kl (klee (su_ram su3)) h (length bs)" using ready_host_range(1) [OF three(2) _ okr range(2,3)] range(1) by simp
  from readRamConcreteCheck_concrete [OF this span] three(2,3) w(5,6) range(4) obtain c' where
    "readRamConcreteCheck kl h (length bs) (su_ram su3) = Inr (bs, (su_ram su3)\<lparr>m_memcache := c'\<rparr>)"
    by (auto simp: ram_ready_def kept_outside_def)
  with one(1) w(1) three(1) show ?thesis by auto
qed

section \<open>A small machine\<close>

text \<open>An address space that is a map from addresses to objects, whose states are named by their addresses.\<close>

type_synonym small_space = "(u64 \<Rightarrow> mem_object option) \<times> (u64 \<Rightarrow> sx list)"

definition space_ops :: "(sx, u64, small_space) klee_ops" where
  "space_ops = \<lparr>e_width = sx_width, e_value = sx_value, e_const = (\<lambda>c w. Num (unat c) w), e_concat = Cat,
     e_extract = Ext, e_zext = (\<lambda>e w. Cat (Num 0 (w - sx_width e)) e),
     os_read = (\<lambda>bs off w. Bytes (take (w div 8) (drop off bs)) w), os_write = sx_write,
     as_find = (\<lambda>a k. map_option (\<lambda>mo. (mo, a)) (fst k a)), as_owned = (\<lambda>os k. True), as_copy = (\<lambda>mo os k. (os, k)),
     as_bytes = (\<lambda>os k. snd k os), as_update = (\<lambda>os bs k. (fst k, (snd k)(os := bs))),
     to_constant = (\<lambda>e k. (0, k)), to_example = (\<lambda>e k. 0)\<rparr>"

definition space_add :: "mem_object \<Rightarrow> small_space \<Rightarrow> small_space" where
  "space_add mo k = ((fst k)(mo_address mo \<mapsto> mo), (snd k)(mo_address mo := replicate (mo_size mo) (Num 0 8)))"

lemma space_ops_laws: "bind_laws space_ops space_add" "space_laws space_ops" "const_laws space_ops"
proof -
  show "bind_laws space_ops space_add"
    by (auto simp: bind_laws_def add_laws_def space_ops_def space_add_def)
  show "space_laws space_ops" by (simp add: space_laws_def space_ops_def)
  show "const_laws space_ops" using pc_const_laws by (simp add: const_laws_def pc_ops_def space_ops_def)
qed

definition bare_machine :: "(u64, small_space) ram_setup" where
  "bare_machine = \<lparr>su_ram = \<lparr>m_active = True, m_runningConcrete = True, m_memcache = [], klee = (\<lambda>_. None, \<lambda>_. [])\<rparr>,
     m_saveOnContextSwitch = [], m_unusedMemoryRegions = [], m_dirtyMask = None\<rparr>"

definition main_memory :: ram_region where
  "main_memory = \<lparr>r_start = 0, r_size = 0x2000, r_host = 0x40000, r_shared = False, r_save = False\<rparr>"

definition video_memory :: ram_region where
  "video_memory = \<lparr>r_start = - 1, r_size = 0x1000, r_host = 0x80000, r_shared = True, r_save = True\<rparr>"

theorem registered_ram_round_trip_witness:
  "\<exists>su1 st2 su3 st4. register_regions space_add one_page True [main_memory] bare_machine = Some (Inr su1) \<and>
    writeRamConcrete space_ops 0x4007E [1, 2, 3, 4] (su_ram su1) = Inr st2 \<and>
    register_regions space_add one_page True [video_memory] (su1\<lparr>su_ram := st2\<rparr>) = Some (Inr su3) \<and>
    readRamConcreteCheck space_ops 0x4007E 4 (su_ram su3) = Inr ([1, 2, 3, 4], st4)"
proof -
  have len: "length [1, 2, 3, 4 :: u8] = 4" by simp
  have q: "RAM_OBJECT_BITS \<le> page_bits one_page" "page_bits one_page \<le> 20" by (simp_all add: RAM_OBJECT_BITS_def one_page_def)
  have ok: "\<forall>r\<in>set ([main_memory] @ [video_memory]). region_ok one_page r"
    by (simp add: region_ok_def main_memory_def video_memory_def page_aligned_def one_page_def mask_numeral)
  have "\<not> (x < 0x42000 \<and> 0x80000 \<le> x)" for x :: u64 by (simp add: word_le_nat_alt word_less_nat_alt)
  then have apart: "sorted_wrt regions_apart ([main_memory] @ [video_memory])"
    by (auto simp: regions_apart_def in_region_def main_memory_def video_memory_def)
  have free: "\<forall>r\<in>set ([main_memory] @ [video_memory]). \<forall>x. in_region r x \<longrightarrow> as_find space_ops x (klee (su_ram bare_machine)) = None"
    by (simp add: bare_machine_def space_ops_def)
  have start: "m_memcache (su_ram bare_machine) = []" "objects_distinct space_ops (klee (su_ram bare_machine))"
    "m_active (su_ram bare_machine)" "m_runningConcrete (su_ram bare_machine)"
    by (simp_all add: bare_machine_def space_ops_def objects_distinct_def)
  have range: "main_memory \<in> set [main_memory]" "r_host main_memory \<le> 0x4007E"
    "unat (0x4007E :: u64) + length [1, 2, 3, 4 :: u8] \<le> unat (r_host main_memory) + unat (r_size main_memory)"
    "[1, 2, 3, 4 :: u8] \<noteq> []" by (simp_all add: main_memory_def)
  from registered_ram_round_trip [OF space_ops_laws q ok apart free start range, unfolded len, of True]
  show ?thesis by blast
qed

end
