(* ===== verification/Spec2Isabelle.thy ===== *)
theory Spec2Isabelle
  imports Slab_Allocator Memory_Cache Process_Table Plugins Device_State Tcp_Socket Lua_Interface Symbolic_Values Executor_Setup Tcg_Refinement State_Scheduler Mmu_Handlers Core_Plugin State_Merge Select_Removal Function_Execution Expr_Interface State_Switch Exec_Statistics Output_Files Executor_Start Tb_Links Tcg_Opcodes Tcg_Names Lua_Binding Registered_Ram
begin

text \<open>
  A verification library for S2E, an engine for selective symbolic execution. S2E lets QEMU run a
  guest and moves to KLEE whatever depends on symbolic data: the micro operations of QEMU are
  translated to LLVM code, which KLEE executes on a state that shares its registers and its memory
  with QEMU. This version is a port in progress; fragments that wait for the newer QEMU are
  replaced by \<open>assert(false && "J stubbed")\<close>, and the model keeps them as failing assertions.

  \<^bold>\<open>Conventions.\<close> Machine integers are words of their width. A routine that can stop has a result in
  \<open>'a res\<close>: \<open>Inl\<close> a fault (a failed assertion, undefined behaviour, the end of the process, the
  exception that leaves to the processor loop, another exception) or \<open>Inr\<close> the value. State is passed
  explicitly in records with the fields of the classes. What is not in the repository (KLEE, LLVM, QEMU,
  Lua, the operating system) is a record of operations, an argument of the definitions that use it;
  what the code relies on is stated in definitions named \<open>..._laws\<close> or \<open>..._ok\<close>, hypotheses of
  the theorems that need them, and every such theorem is applied to a concrete instance in its witness.
  Loops that end on their data are structural recursion; loops that need not end are
  \<open>partial_function (option)\<close>, and the theorems say when they end.

  \<^bold>\<open>Memory for S2E itself\<close> (\<open>Slab.cpp\<close>, \<open>Slab.h\<close>). \<open>Page_Allocator\<close> takes regions of 64 pages from the
  system and hands out pages by bitmaps; \<open>Linked_List\<close> has the intrusive lists on a heap of links and
  refines them to lists; \<open>Block_Allocator\<close> divides pages into blocks of one size by the bitmaps of
  their headers; \<open>Slab_Allocator\<close> has one of them per power of two, and the global operators new
  and delete. \<open>Allocator_Interface\<close> states what each layer promises to the next as a locale, with the
  lemma for its clients, and each layer interprets it: no client that frees only what it holds faults or
  is handed a thing twice.

  \<^bold>\<open>Processes and plugins.\<close> \<open>Synchronization\<close> has the semaphore of a shared object
  (\<open>Synchronization.cpp\<close>), \<open>Process_Table\<close> the table of S2E processes in shared memory as a step relation
  over the critical sections of all processes (\<open>S2E.cpp\<close>, \<open>S2E.h\<close>), \<open>Output_Files\<close> the log files and the output
  directories of the processes, with the file system as a parameter, \<open>Plugins\<close> the registration and
  loading of plugins and the cache of their states (\<open>Plugin.cpp\<close>, \<open>S2E.cpp\<close>), \<open>Core_Plugin\<close> the signals, the
  instrumentation of translated code and the events of QEMU (\<open>CorePlugin.cpp\<close>).

  \<^bold>\<open>Outside interfaces.\<close> \<open>Device_State\<close> keeps the snapshots of devices and the sectors of disks
  (\<open>S2EDeviceState.cpp\<close>), \<open>Tcp_Socket\<close> the sockets and the stream buffer (\<open>QemuSocket.cpp\<close>),
  \<open>Config_File\<close> the readers of the configuration on the Lua stack, \<open>Lua_Binding\<close> the template that gives
  objects to scripts (\<open>ConfigFile.h\<close>) and \<open>Lua_Interface\<close> the methods of a state (\<open>ConfigFile.cpp\<close>). \<open>Decimal_Text\<close> has numbers as text, for names and files.

  \<^bold>\<open>An execution state\<close> (\<open>S2EExecutionState.cpp\<close>). \<open>Memory_Cache\<close> is the table from host addresses
  to KLEE objects (\<open>MemoryCache.h\<close>). \<open>Exec_Memory\<close> has the reads and writes of guest memory by the
  plugins, \<open>Memory_Round_Trip\<close> what they mean: a read gives the little-endian number of the bytes, a write
  is read back. \<open>Ram_Access\<close> has the accesses of native code to RAM, which make symbolic bytes concrete.
  \<open>Cpu_State\<close> has the registers, \<open>Symbolic_Values\<close> the creation of symbolic data, \<open>Expr_Interface\<close> the
  expressions that native helpers build and pass around (\<open>ExprInterface.cpp\<close>), \<open>State_Merge\<close> the merge of
  two states.

  \<^bold>\<open>The executor\<close> (\<open>S2EExecutor.cpp\<close>, \<open>MMUFunctionHandlers.cpp\<close>). \<open>Executor_Start\<close> has the constructor with
  its tables of handlers and the first state; \<open>Executor_Setup\<close> registers memory and
  switches between concrete and symbolic execution; \<open>State_Scheduler\<close> forks, suspends, selects and ends states,
  balances them over processes, counts the references of translation blocks and runs instructions; \<open>State_Switch\<close> has what
  a switch of states and a split do to host memory and to the address spaces;
  \<open>Tb_Links\<close> takes jumps between translation blocks out of their circular lists of tagged pointers;
  \<open>Function_Execution\<close> calls LLVM functions, runs translation blocks and interrupts; \<open>Mmu_Handlers\<close> replaces the
  memory helpers of QEMU; \<open>Exec_Statistics\<close> has the counters of a run and their file (\<open>S2EStatsTracker.cpp\<close>);
  \<open>Select_Removal\<close> is the pass that turns the selections of a function into branches
  before KLEE runs it (\<open>SelectRemovalPass.cpp\<close>).

  \<^bold>\<open>The translator\<close> (\<open>tcg-llvm.cpp\<close>). \<open>Tcg_Llvm\<close> has every micro operation with the caches of
  values and pointers; \<open>Tcg_Refinement\<close> has a reference interpreter of the arithmetic operations and
  shows that the generated code refines it; \<open>Tcg_Opcodes\<close> has the case of every named operation, and the named
  arithmetic operations against machine words; \<open>Tcg_Names\<close> has the names of the functions of blocks.

  \<^bold>\<open>How the parts meet.\<close> \<open>Exec_Memory\<close>, \<open>Ram_Access\<close> and \<open>Executor_Setup\<close> use the one interpretation of the
  cache as a map; \<open>Executor_Setup\<close> shows that registering RAM establishes the agreement of the cache with the
  address space that the memory theorems require, and \<open>Registered_Ram\<close> runs the machine from the registration of its
  regions to the accesses of native code, so that no assumption on RAM is left but what KLEE promises; \<open>Lua_Interface\<close>, \<open>Mmu_Handlers\<close> and \<open>Core_Plugin\<close> are
  written on the registers and memory of \<open>Cpu_State\<close> and \<open>Exec_Memory\<close>.

  \<^bold>\<open>Bounds and fuel.\<close> Pointers and values of the translator recurse through a global to the host register
  of its base and no further, for which a fuel of 4 is enough. The handler of a load or store
  calls itself only with a part of an access that does not cross a boundary: a depth of 2 gives the same result
  as any larger one (\<open>depth_enough\<close>). The numbers of signals of a block stay below \<open>2 ^ 32\<close>.

  \<^bold>\<open>Not modelled.\<close> The text of messages; the printing of stack traces; the construction of the LLVM context, which only calls
  LLVM; the Windows and Darwin variants; setjmp and longjmp; code that is commented out or excluded by the
  preprocessor.
\<close>

end
